(* ===== verification/Prelude.thy ===== *)
theory Prelude
  imports Main "HOL-Library.Word"
begin

text \<open>
  Shared vocabulary of the development.

  \<^item> \<open>outcome\<close>: what a Rust call does: it returns a value, returns an error, or panics.
    Indexing and slicing out of range, \<open>expect\<close> on a \<open>None\<close> and an \<open>unreachable\<close> all panic;
    the release profile of the workspace aborts the process on a panic.
  \<^item> fixed-width arithmetic: unsigned integers are naturals, \<open>i64\<close> is an integer; where the
    source wraps or saturates, the operations \<open>wrap_add_u64\<close>, \<open>sat_add_u64\<close> and the like
    write it out. The release profile has no overflow checks, so a plain \<open>+\<close> wraps.
  \<^item> the collections \<open>outcome_simps\<close> (branch analysis of a sequence of fallible calls) and
    \<open>width_simps\<close> (the concrete widths).
\<close>

named_theorems outcome_simps \<open>branch analysis of sequenced fallible calls\<close>
named_theorems width_simps \<open>unfolding of the fixed integer widths\<close>

section \<open>Fallible computations\<close>

datatype ('e, 'a) outcome = Ok 'a | Err 'e | Panic

fun obind :: "('e, 'a) outcome \<Rightarrow> ('a \<Rightarrow> ('e, 'b) outcome) \<Rightarrow> ('e, 'b) outcome" where
  "obind (Ok x) f = f x"
| "obind (Err e) f = Err e"
| "obind Panic f = Panic"

fun map_err :: "('e \<Rightarrow> 'f) \<Rightarrow> ('e, 'a) outcome \<Rightarrow> ('f, 'a) outcome" where
  "map_err g (Ok x) = Ok x"
| "map_err g (Err e) = Err (g e)"
| "map_err g Panic = Panic"

fun is_Ok :: "('e, 'a) outcome \<Rightarrow> bool" where
  "is_Ok (Ok _) = True"
| "is_Ok _ = False"

lemma obind_eq_Ok [outcome_simps]: "obind m f = Ok y \<longleftrightarrow> (\<exists>x. m = Ok x \<and> f x = Ok y)"
  by (cases m) auto

lemma obind_eq_Err [outcome_simps]:
  "obind m f = Err e \<longleftrightarrow> m = Err e \<or> (\<exists>x. m = Ok x \<and> f x = Err e)"
  by (cases m) auto

lemma obind_eq_Panic [outcome_simps]:
  "obind m f = Panic \<longleftrightarrow> m = Panic \<or> (\<exists>x. m = Ok x \<and> f x = Panic)"
  by (cases m) auto

lemma map_err_eq [outcome_simps]:
  "map_err g m = Ok y \<longleftrightarrow> m = Ok y"
  "map_err g m = Panic \<longleftrightarrow> m = Panic"
  "map_err g m = Err e \<longleftrightarrow> (\<exists>d. m = Err d \<and> e = g d)"
  by (cases m; auto)+

lemma is_Ok_iff [outcome_simps]: "is_Ok m \<longleftrightarrow> (\<exists>x. m = Ok x)"
  by (cases m) auto

lemma obind_Ok_right [simp]: "obind m Ok = m"
  by (cases m) auto

lemma obind_assoc: "obind (obind m f) g = obind m (\<lambda>x. obind (f x) g)"
  by (cases m) auto

lemma obind_cong [fundef_cong]:
  "m = m' \<Longrightarrow> (\<And>x. m' = Ok x \<Longrightarrow> f x = f' x) \<Longrightarrow> obind m f = obind m' f'"
  by (cases m') auto

text \<open>A loop that threads a state through a list and stops at the first failure.\<close>

fun ofold :: "('a \<Rightarrow> 's \<Rightarrow> ('e, 's) outcome) \<Rightarrow> 'a list \<Rightarrow> 's \<Rightarrow> ('e, 's) outcome" where
  "ofold f [] s = Ok s"
| "ofold f (x # xs) s = obind (f x s) (ofold f xs)"

lemma ofold_append: "ofold f (xs @ ys) s = obind (ofold f xs s) (ofold f ys)"
  by (induction xs arbitrary: s) (auto simp: obind_assoc intro!: obind_cong)

lemma ofold_invariant:
  assumes "ofold f xs s = Ok t" and "P s"
    and "\<And>x s s'. x \<in> set xs \<Longrightarrow> P s \<Longrightarrow> f x s = Ok s' \<Longrightarrow> P s'"
  shows "P t"
  using assms by (induction xs arbitrary: s) (auto simp: outcome_simps)

section \<open>Stateful fallible computations\<close>

text \<open>A method that takes \<open>&mut self\<close> and returns a result: it yields the state it leaves also
  when it fails, since an early return keeps the mutations made before it.\<close>

type_synonym ('s, 'e, 'a) mut_method = "'s \<Rightarrow> 's \<times> ('e, 'a) outcome"

definition sreturn :: "'a \<Rightarrow> ('s, 'e, 'a) mut_method" where
  "sreturn x s = (s, Ok x)"

definition sfail :: "'e \<Rightarrow> ('s, 'e, 'a) mut_method" where
  "sfail e s = (s, Err e)"

definition sbind :: "('s, 'e, 'a) mut_method \<Rightarrow> ('a \<Rightarrow> ('s, 'e, 'b) mut_method) \<Rightarrow> ('s, 'e, 'b) mut_method" where
  "sbind m k s = (case m s of (s', Ok x) \<Rightarrow> k x s' | (s', Err e) \<Rightarrow> (s', Err e) | (s', Panic) \<Rightarrow> (s', Panic))"

definition supdate :: "('s \<Rightarrow> 's) \<Rightarrow> ('s, 'e, unit) mut_method" where
  "supdate f s = (f s, Ok ())"

definition slift :: "('e, 'a) outcome \<Rightarrow> ('s, 'e, 'a) mut_method" where
  "slift r s = (s, r)"

lemma sbind_eq_Ok [outcome_simps]:
  "sbind m k s = (t, Ok y) \<longleftrightarrow> (\<exists>s' x. m s = (s', Ok x) \<and> k x s' = (t, Ok y))"
  by (auto simp: sbind_def split: prod.splits outcome.splits)

lemma sbind_Ok: "m s = (s', Ok x) \<Longrightarrow> sbind m k s = k x s'"
  by (simp add: sbind_def)

lemma smethod_simps [simp]:
  "sbind (sreturn x) h s = h x s" "sbind (supdate f) k s = k () (f s)" "sreturn x s = (s, Ok x)"
  "supdate f s = (f s, Ok ())" "sfail e s = (s, Err e)" "slift r s = (s, r)"
  by (simp_all add: sbind_def sreturn_def supdate_def sfail_def slift_def)

section \<open>Fixed-width arithmetic\<close>

abbreviation u8_max :: nat where "u8_max \<equiv> 255"
abbreviation u16_max :: nat where "u16_max \<equiv> 65535"
abbreviation u32_max :: nat where "u32_max \<equiv> 4294967295"
abbreviation u64_max :: nat where "u64_max \<equiv> 18446744073709551615"

definition wrap_add_u64 :: "nat \<Rightarrow> nat \<Rightarrow> nat" where
  "wrap_add_u64 a b = (a + b) mod 2 ^ 64"

definition wrap_sub_u64 :: "nat \<Rightarrow> nat \<Rightarrow> nat" where
  "wrap_sub_u64 a b = (a + (2 ^ 64 - b mod 2 ^ 64)) mod 2 ^ 64"

definition sat_add_u64 :: "nat \<Rightarrow> nat \<Rightarrow> nat" where
  "sat_add_u64 a b = min (a + b) u64_max"

definition in_i64 :: "int \<Rightarrow> bool" where
  "in_i64 x \<longleftrightarrow> - (2 ^ 63) \<le> x \<and> x < 2 ^ 63"

definition wrap_i64 :: "int \<Rightarrow> int" where
  "wrap_i64 x = (x + 2 ^ 63) mod 2 ^ 64 - 2 ^ 63"

lemma wrap_add_u64_exact [simp]: "a + b \<le> u64_max \<Longrightarrow> wrap_add_u64 a b = a + b"
  by (simp add: wrap_add_u64_def)

lemma wrap_add_u64_bound [simp]: "wrap_add_u64 a b \<le> u64_max"
proof -
  have "(a + b) mod 2 ^ 64 < (2 ^ 64 :: nat)" by (rule mod_less_divisor) simp
  then show ?thesis by (simp add: wrap_add_u64_def)
qed

lemma wrap_sub_u64_exact [simp]:
  assumes "b \<le> a" "a \<le> u64_max"
  shows "wrap_sub_u64 a b = a - b"
proof -
  have "a + (2 ^ 64 - b mod 2 ^ 64) = (a - b) + 2 ^ 64" "a - b < 2 ^ 64" using assms by auto
  then show ?thesis unfolding wrap_sub_u64_def by (metis mod_add_self2 mod_less)
qed

lemma sat_add_u64_exact [simp]: "a + b \<le> u64_max \<Longrightarrow> sat_add_u64 a b = a + b"
  by (simp add: sat_add_u64_def)

lemma sat_add_u64_bound [simp]: "sat_add_u64 a b \<le> u64_max"
  by (simp add: sat_add_u64_def)

lemma wrap_i64_exact [simp]: "in_i64 x \<Longrightarrow> wrap_i64 x = x"
  by (simp add: wrap_i64_def in_i64_def)

lemma in_i64_wrap [simp]: "in_i64 (wrap_i64 x)"
proof -
  have "0 \<le> (x + 2 ^ 63) mod (2 ^ 64 :: int)" "(x + 2 ^ 63) mod (2 ^ 64 :: int) < 2 ^ 64" by simp_all
  then show ?thesis by (simp add: wrap_i64_def in_i64_def)
qed

text \<open>Masking with one less than a power of two is the remainder.\<close>

unbundle bit_operations_syntax

lemma and_mask_mod: "(i :: nat) AND (2 ^ k - 1) = i mod 2 ^ k"
  by (metis mask_eq_exp_minus_1 take_bit_eq_mask take_bit_eq_mod)

end
