(* ===== verification/Bytes.thy ===== *)
theory Bytes
  imports Prelude
begin

text \<open>
  Byte buffers: bounds-checked little-endian reads and writes (the \<open>le_*\<close> and \<open>put_*\<close>
  helpers of \<open>crates/wire/src/generated.rs\<close>) and the algebra of reading back what was
  written. A buffer is a list of octets; a read or write outside it panics, as slice
  indexing does.
\<close>

type_synonym octet = "8 word"
type_synonym bytes = "octet list"

named_theorems buffer_simps \<open>reading through writes at concrete offsets\<close>

section \<open>Little-endian values\<close>

primrec to_le :: "nat \<Rightarrow> nat \<Rightarrow> bytes" where
  "to_le 0 v = []"
| "to_le (Suc n) v = of_nat v # to_le n (v div 256)"

primrec from_le :: "bytes \<Rightarrow> nat" where
  "from_le [] = 0"
| "from_le (b # bs) = unat b + 256 * from_le bs"

lemma length_to_le [simp]: "length (to_le n v) = n"
  by (induction n arbitrary: v) auto

lemma unat_octet: "unat (of_nat v :: octet) = v mod 256"
  by (simp add: unat_of_nat take_bit_eq_mod)

lemma from_to_le_mod: "from_le (to_le n v) = v mod 256 ^ n"
proof (induction n arbitrary: v)
  case (Suc n)
  have "from_le (to_le (Suc n) v) = v mod 256 + 256 * (v div 256 mod 256 ^ n)"
    by (simp add: unat_octet Suc)
  also have "\<dots> = v mod 256 ^ Suc n" by (simp add: mod_mult2_eq)
  finally show ?case .
qed simp

lemma from_to_le [simp]: "v < 256 ^ n \<Longrightarrow> from_le (to_le n v) = v"
  by (simp add: from_to_le_mod)

lemma from_le_bound: "from_le bs < 256 ^ length bs"
proof (induction bs)
  case (Cons b bs)
  have "unat b < 256" using unsigned_less [of b] by simp
  then have "unat b + 256 * from_le bs < 256 * (from_le bs + 1)" by simp
  also have "\<dots> \<le> 256 * 256 ^ length bs" using Cons by (intro mult_le_mono) auto
  finally show ?case by simp
qed simp

lemma to_from_le: "to_le (length bs) (from_le bs) = bs"
proof (induction bs)
  case (Cons b bs)
  have b: "unat b < 256" using unsigned_less [of b] by simp
  have "of_nat (unat b + 256 * from_le bs) = b"
    by (simp only: word_unat_eq_iff unat_octet) (use b in simp)
  moreover have "(unat b + 256 * from_le bs) div 256 = from_le bs" using b by simp
  ultimately show ?case using Cons by simp
qed simp

definition i64_to_le :: "int \<Rightarrow> bytes" where
  "i64_to_le v = to_le 8 (nat (v mod 2 ^ 64))"

definition i64_from_le :: "bytes \<Rightarrow> int" where
  "i64_from_le bs = (let n = int (from_le bs) in if n < 2 ^ 63 then n else n - 2 ^ 64)"

lemma length_i64_to_le [simp]: "length (i64_to_le v) = 8"
  by (simp add: i64_to_le_def)

lemma i64_from_to_le [simp]: "in_i64 v \<Longrightarrow> i64_from_le (i64_to_le v) = v"
proof -
  assume v: "in_i64 v"
  have lt: "nat (v mod 2 ^ 64) < 256 ^ 8" by (simp add: nat_less_iff)
  show ?thesis
  proof (cases "0 \<le> v")
    case True
    then show ?thesis using v lt
      by (simp add: i64_from_le_def i64_to_le_def in_i64_def Let_def)
  next
    case False
    then have "v mod 2 ^ 64 = v + 2 ^ 64" using v
      by (intro int_mod_pos_eq [where q = "-1"]) (auto simp: in_i64_def)
    then show ?thesis using v lt False
      by (simp add: i64_from_le_def i64_to_le_def in_i64_def Let_def)
  qed
qed

section \<open>Windows of a buffer\<close>

definition window :: "nat \<Rightarrow> nat \<Rightarrow> bytes \<Rightarrow> bytes" where
  "window k n b = take n (drop k b)"

definition patch :: "nat \<Rightarrow> bytes \<Rightarrow> bytes \<Rightarrow> bytes" where
  "patch k bs b = take k b @ bs @ drop (k + length bs) b"

lemma length_patch [simp]: "k + length bs \<le> length b \<Longrightarrow> length (patch k bs b) = length b"
  by (simp add: patch_def)

lemma length_window [simp]: "k + n \<le> length b \<Longrightarrow> length (window k n b) = n"
  by (simp add: window_def)

lemma window_patch_same [buffer_simps]:
  "k + length bs \<le> length b \<Longrightarrow> n = length bs \<Longrightarrow> window k n (patch k bs b) = bs"
  by (simp add: window_def patch_def)

lemma window_patch_before [buffer_simps]:
  assumes "k + n \<le> p" "p \<le> length b"
  shows "window k n (patch p bs b) = window k n b"
proof -
  have "window k n (patch p bs b) = window k n (take p b)"
    using assms by (simp add: patch_def window_def)
  also have "\<dots> = window k n b" using assms by (simp add: window_def drop_take)
  finally show ?thesis .
qed

lemma window_patch_after [buffer_simps]:
  assumes "p + length bs \<le> k" "p + length bs \<le> length b"
  shows "window k n (patch p bs b) = window k n b"
proof -
  have "drop k (patch p bs b) = drop (k - (p + length bs)) (drop (p + length bs) b)"
    using assms by (simp add: patch_def)
  also have "\<dots> = drop k b" using assms by simp
  finally show ?thesis by (simp add: window_def)
qed

lemma window_append1 [simp]: "k + n \<le> length a \<Longrightarrow> window k n (a @ b) = window k n a"
  by (simp add: window_def)

lemma take_patch: "k + length bs \<le> m \<Longrightarrow> m \<le> length b \<Longrightarrow> take m (patch k bs b) = patch k bs (take m b)"
  by (cases "m = k") (auto simp: patch_def drop_take)

lemma drop_patch [simp]: "k + length bs \<le> m \<Longrightarrow> m \<le> length b \<Longrightarrow> drop m (patch k bs b) = drop m b"
  by (simp add: patch_def)

section \<open>Bounds-checked access\<close>

definition le_u :: "nat \<Rightarrow> bytes \<Rightarrow> nat \<Rightarrow> ('e, nat) outcome" where
  "le_u n b k = (if k + n \<le> length b then Ok (from_le (window k n b)) else Panic)"

definition put_u :: "nat \<Rightarrow> bytes \<Rightarrow> nat \<Rightarrow> nat \<Rightarrow> ('e, bytes) outcome" where
  "put_u n b k v = (if k + n \<le> length b then Ok (patch k (to_le n v) b) else Panic)"

definition le_u8 :: "bytes \<Rightarrow> nat \<Rightarrow> ('e, nat) outcome" where
  "le_u8 b k = (if k < length b then Ok (unat (b ! k)) else Panic)"

definition put_u8 :: "bytes \<Rightarrow> nat \<Rightarrow> nat \<Rightarrow> ('e, bytes) outcome" where
  "put_u8 b k v = (if k < length b then Ok (b[k := of_nat v]) else Panic)"

definition le_u16 :: "bytes \<Rightarrow> nat \<Rightarrow> ('e, nat) outcome" where "le_u16 b k = le_u 2 b k"
definition put_u16 :: "bytes \<Rightarrow> nat \<Rightarrow> nat \<Rightarrow> ('e, bytes) outcome" where "put_u16 b k v = put_u 2 b k v"
definition le_u32 :: "bytes \<Rightarrow> nat \<Rightarrow> ('e, nat) outcome" where "le_u32 b k = le_u 4 b k"
definition put_u32 :: "bytes \<Rightarrow> nat \<Rightarrow> nat \<Rightarrow> ('e, bytes) outcome" where "put_u32 b k v = put_u 4 b k v"
definition le_u64 :: "bytes \<Rightarrow> nat \<Rightarrow> ('e, nat) outcome" where "le_u64 b k = le_u 8 b k"
definition put_u64 :: "bytes \<Rightarrow> nat \<Rightarrow> nat \<Rightarrow> ('e, bytes) outcome" where "put_u64 b k v = put_u 8 b k v"

definition le_i64 :: "bytes \<Rightarrow> nat \<Rightarrow> ('e, int) outcome" where
  "le_i64 b k = (if k + 8 \<le> length b then Ok (i64_from_le (window k 8 b)) else Panic)"

definition put_i64 :: "bytes \<Rightarrow> nat \<Rightarrow> int \<Rightarrow> ('e, bytes) outcome" where
  "put_i64 b k v = (if k + 8 \<le> length b then Ok (patch k (i64_to_le v) b) else Panic)"

definition fill_zero :: "nat \<Rightarrow> nat \<Rightarrow> bytes \<Rightarrow> ('e, bytes) outcome" where
  "fill_zero k n b = (if k + n \<le> length b then Ok (patch k (replicate n 0) b) else Panic)"

lemma le_u8_window: "le_u8 b k = le_u 1 b k"
proof (cases "k < length b")
  case True
  then have "window k 1 b = [b ! k]" by (simp add: window_def take_Suc_conv_app_nth Cons_nth_drop_Suc [symmetric])
  then show ?thesis using True by (simp add: le_u8_def le_u_def)
qed (simp add: le_u8_def le_u_def)

lemma put_u8_patch: "put_u8 b k v = put_u 1 b k v"
  by (auto simp: put_u8_def put_u_def patch_def upd_conv_take_nth_drop)

lemmas le_defs = le_u8_window le_u16_def le_u32_def le_u64_def
lemmas put_defs = put_u8_patch put_u16_def put_u32_def put_u64_def

text \<open>In range, a read is the value of the window and a write is a patch.\<close>

lemma access_in_range [buffer_simps]:
  "k + n \<le> length b \<Longrightarrow> le_u n b k = Ok (from_le (window k n b))"
  "k + n \<le> length b \<Longrightarrow> put_u n b k v = Ok (patch k (to_le n v) b)"
  "k + 8 \<le> length b \<Longrightarrow> le_i64 b k = Ok (i64_from_le (window k 8 b))"
  "k + 8 \<le> length b \<Longrightarrow> put_i64 b k p = Ok (patch k (i64_to_le p) b)"
  by (simp_all add: le_u_def put_u_def le_i64_def put_i64_def)

lemma fill_zero_in_range: "k + n \<le> length b \<Longrightarrow> fill_zero k n b = Ok (patch k (replicate n 0) b)"
  by (simp add: fill_zero_def)

lemma fill_zero_front: "n \<le> length b \<Longrightarrow> fill_zero 0 n b = Ok (replicate n 0 @ drop n b)"
  by (simp add: fill_zero_def patch_def)

lemma patch_append [simp]: "k + length bs \<le> length a \<Longrightarrow> patch k bs (a @ c) = patch k bs a @ c"
  by (simp add: patch_def)

lemma le_u_bound: "le_u n b k = Ok v \<Longrightarrow> v < 256 ^ n"
  using from_le_bound [of "window k n b"] by (auto simp: le_u_def split: if_splits)

lemma in_i64_from_le: "length bs = 8 \<Longrightarrow> in_i64 (i64_from_le bs)"
  using from_le_bound [of bs] by (auto simp: i64_from_le_def in_i64_def Let_def)

end
