(* ===== verification/Wire.thy ===== *)
theory Wire
  imports Bytes
begin

text \<open>
  The wire codec of \<open>crates/wire\<close>: errors (\<open>error.rs\<close>) and the generated encoders and
  decoders (\<open>generated.rs\<close>). A decoder is the borrowed buffer with its root length; each
  accessor is a bounds-checked read at the offset the source uses, so a malformed buffer that
  slips past \<open>wrap\<close> shows up as \<open>Panic\<close>. An encoder returns the bytes written and the buffer.
\<close>

section \<open>Errors, constants and enumerations\<close>

datatype wire_error =
    ShortBuffer nat nat
  | SchemaMismatch nat nat
  | TemplateMismatch nat nat
  | BlockTooSmall string nat nat
  | UnknownTemplate nat
  | InvalidEnum string nat
  | GroupOverflow string

abbreviation (input) SCHEMA_ID :: nat where "SCHEMA_ID \<equiv> 1"
abbreviation (input) SCHEMA_VERSION :: nat where "SCHEMA_VERSION \<equiv> 1"
abbreviation (input) PACKET_HEADER_LEN :: nat where "PACKET_HEADER_LEN \<equiv> 24"
abbreviation (input) MESSAGE_HEADER_LEN :: nat where "MESSAGE_HEADER_LEN \<equiv> 8"
abbreviation (input) GROUP_SIZE_ENCODING_LEN :: nat where "GROUP_SIZE_ENCODING_LEN \<equiv> 4"

definition PACKET_FLAG_SNAPSHOT :: nat where "PACKET_FLAG_SNAPSHOT = 1"
definition SNAPSHOT_FLAG_LAST_FRAGMENT :: nat where "SNAPSHOT_FLAG_LAST_FRAGMENT = 1"
definition SNAPSHOT_FLAG_CYCLE_END :: nat where "SNAPSHOT_FLAG_CYCLE_END = 2"
definition SNAPSHOT_FLAG_CYCLE_START :: nat where "SNAPSHOT_FLAG_CYCLE_START = 4"

abbreviation (input) TEMPLATE_ADD_ORDER :: nat where "TEMPLATE_ADD_ORDER \<equiv> 1"
abbreviation (input) TEMPLATE_MODIFY_ORDER :: nat where "TEMPLATE_MODIFY_ORDER \<equiv> 2"
abbreviation (input) TEMPLATE_DELETE_ORDER :: nat where "TEMPLATE_DELETE_ORDER \<equiv> 3"
abbreviation (input) TEMPLATE_TRADE :: nat where "TEMPLATE_TRADE \<equiv> 4"
abbreviation (input) TEMPLATE_SNAPSHOT :: nat where "TEMPLATE_SNAPSHOT \<equiv> 5"
abbreviation (input) TEMPLATE_HEARTBEAT :: nat where "TEMPLATE_HEARTBEAT \<equiv> 6"
abbreviation (input) TEMPLATE_SEQUENCE_RESET :: nat where "TEMPLATE_SEQUENCE_RESET \<equiv> 7"
abbreviation (input) TEMPLATE_NEW_ORDER :: nat where "TEMPLATE_NEW_ORDER \<equiv> 8"
abbreviation (input) TEMPLATE_CANCEL_ORDER :: nat where "TEMPLATE_CANCEL_ORDER \<equiv> 9"
abbreviation (input) TEMPLATE_EXEC_REPORT :: nat where "TEMPLATE_EXEC_REPORT \<equiv> 10"
abbreviation (input) TEMPLATE_RECONCILE_REQUEST :: nat where "TEMPLATE_RECONCILE_REQUEST \<equiv> 11"

datatype side = Bid | Ask

definition Side_from_u8 :: "nat \<Rightarrow> (wire_error, side) outcome" where
  "Side_from_u8 v = (if v = 0 then Ok Bid else if v = 1 then Ok Ask else Err (InvalidEnum ''Side'' v))"

fun Side_to_u8 :: "side \<Rightarrow> nat" where
  "Side_to_u8 Bid = 0"
| "Side_to_u8 Ask = 1"

datatype modify_reason = Reduce | Replace

definition ModifyReason_from_u8 :: "nat \<Rightarrow> (wire_error, modify_reason) outcome" where
  "ModifyReason_from_u8 v = (if v = 0 then Ok Reduce else if v = 1 then Ok Replace
     else Err (InvalidEnum ''ModifyReason'' v))"

fun ModifyReason_to_u8 :: "modify_reason \<Rightarrow> nat" where
  "ModifyReason_to_u8 Reduce = 0"
| "ModifyReason_to_u8 Replace = 1"

datatype exec_type = Acknowledged | PartialFill | Fill | Canceled | Rejected | OrderStatus | StatusComplete

definition ExecType_from_u8 :: "nat \<Rightarrow> (wire_error, exec_type) outcome" where
  "ExecType_from_u8 v = (if v = 0 then Ok Acknowledged else if v = 1 then Ok PartialFill
     else if v = 2 then Ok Fill else if v = 3 then Ok Canceled else if v = 4 then Ok Rejected
     else if v = 5 then Ok OrderStatus else if v = 6 then Ok StatusComplete
     else Err (InvalidEnum ''ExecType'' v))"

fun ExecType_to_u8 :: "exec_type \<Rightarrow> nat" where
  "ExecType_to_u8 Acknowledged = 0"
| "ExecType_to_u8 PartialFill = 1"
| "ExecType_to_u8 Fill = 2"
| "ExecType_to_u8 Canceled = 3"
| "ExecType_to_u8 Rejected = 4"
| "ExecType_to_u8 OrderStatus = 5"
| "ExecType_to_u8 StatusComplete = 6"

datatype reject_reason = NotRejected | UnknownSymbol | MaxOrderQuantity | MaxNotional | PriceCollar
  | OpenOrderLimit | PositionLimit | DuplicateClientOrderId | UnknownOrderReason | QueueFull | InvalidQuantity

definition RejectReason_from_u8 :: "nat \<Rightarrow> (wire_error, reject_reason) outcome" where
  "RejectReason_from_u8 v = (if v = 0 then Ok NotRejected else if v = 1 then Ok UnknownSymbol
     else if v = 2 then Ok MaxOrderQuantity else if v = 3 then Ok MaxNotional
     else if v = 4 then Ok PriceCollar else if v = 5 then Ok OpenOrderLimit
     else if v = 6 then Ok PositionLimit else if v = 7 then Ok DuplicateClientOrderId
     else if v = 8 then Ok UnknownOrderReason else if v = 9 then Ok QueueFull
     else if v = 10 then Ok InvalidQuantity else Err (InvalidEnum ''RejectReason'' v))"

fun RejectReason_to_u8 :: "reject_reason \<Rightarrow> nat" where
  "RejectReason_to_u8 NotRejected = 0"
| "RejectReason_to_u8 UnknownSymbol = 1"
| "RejectReason_to_u8 MaxOrderQuantity = 2"
| "RejectReason_to_u8 MaxNotional = 3"
| "RejectReason_to_u8 PriceCollar = 4"
| "RejectReason_to_u8 OpenOrderLimit = 5"
| "RejectReason_to_u8 PositionLimit = 6"
| "RejectReason_to_u8 DuplicateClientOrderId = 7"
| "RejectReason_to_u8 UnknownOrderReason = 8"
| "RejectReason_to_u8 QueueFull = 9"
| "RejectReason_to_u8 InvalidQuantity = 10"

section \<open>Packet header\<close>

definition PacketHeader_schema_id :: "bytes \<Rightarrow> (wire_error, nat) outcome" where
  "PacketHeader_schema_id buf = le_u16 buf 0"

definition PacketHeader_version :: "bytes \<Rightarrow> (wire_error, nat) outcome" where
  "PacketHeader_version buf = le_u16 buf 2"

definition PacketHeader_message_count :: "bytes \<Rightarrow> (wire_error, nat) outcome" where
  "PacketHeader_message_count buf = le_u16 buf 4"

definition PacketHeader_channel :: "bytes \<Rightarrow> (wire_error, nat) outcome" where
  "PacketHeader_channel buf = le_u8 buf 6"

definition PacketHeader_flags :: "bytes \<Rightarrow> (wire_error, nat) outcome" where
  "PacketHeader_flags buf = le_u8 buf 7"

definition PacketHeader_first_sequence :: "bytes \<Rightarrow> (wire_error, nat) outcome" where
  "PacketHeader_first_sequence buf = le_u64 buf 8"

definition PacketHeader_send_timestamp_ns :: "bytes \<Rightarrow> (wire_error, nat) outcome" where
  "PacketHeader_send_timestamp_ns buf = le_u64 buf 16"

definition PacketHeader_is_snapshot :: "bytes \<Rightarrow> (wire_error, bool) outcome" where
  "PacketHeader_is_snapshot buf = obind (PacketHeader_flags buf)
     (\<lambda>f. Ok (and f PACKET_FLAG_SNAPSHOT \<noteq> 0))"

definition PacketHeader_wrap :: "bytes \<Rightarrow> (wire_error, bytes) outcome" where
  "PacketHeader_wrap buf =
     (if length buf < PACKET_HEADER_LEN then Err (ShortBuffer PACKET_HEADER_LEN (length buf))
      else obind (PacketHeader_schema_id buf) (\<lambda>id.
        if id \<noteq> SCHEMA_ID then Err (SchemaMismatch SCHEMA_ID id) else Ok buf))"

definition encode_packet_header :: "bytes \<Rightarrow> nat \<Rightarrow> nat \<Rightarrow> nat \<Rightarrow> nat \<Rightarrow> (wire_error, nat \<times> bytes) outcome" where
  "encode_packet_header buf channel flags first_sequence send_timestamp_ns =
     (if length buf < PACKET_HEADER_LEN then Err (ShortBuffer PACKET_HEADER_LEN (length buf))
      else obind (fill_zero 0 PACKET_HEADER_LEN buf) (\<lambda>b.
           obind (put_u16 b 0 SCHEMA_ID) (\<lambda>b.
           obind (put_u16 b 2 SCHEMA_VERSION) (\<lambda>b.
           obind (put_u16 b 4 0) (\<lambda>b.
           obind (put_u8 b 6 channel) (\<lambda>b.
           obind (put_u8 b 7 flags) (\<lambda>b.
           obind (put_u64 b 8 first_sequence) (\<lambda>b.
           obind (put_u64 b 16 send_timestamp_ns) (\<lambda>b.
           Ok (PACKET_HEADER_LEN, b))))))))))"

definition patch_packet_channel :: "bytes \<Rightarrow> nat \<Rightarrow> (wire_error, bytes) outcome" where
  "patch_packet_channel buf channel =
     (if length buf < PACKET_HEADER_LEN then Err (ShortBuffer PACKET_HEADER_LEN (length buf))
      else put_u8 buf 6 channel)"

definition patch_snapshot_flags :: "bytes \<Rightarrow> nat \<Rightarrow> (wire_error, bytes) outcome" where
  "patch_snapshot_flags buf flags = (let OFFSET = MESSAGE_HEADER_LEN + 10 in
     if length buf \<le> OFFSET then Err (ShortBuffer (OFFSET + 1) (length buf))
     else put_u8 buf OFFSET flags)"

definition patch_message_count :: "bytes \<Rightarrow> nat \<Rightarrow> (wire_error, bytes) outcome" where
  "patch_message_count buf count =
     (if length buf < PACKET_HEADER_LEN then Err (ShortBuffer PACKET_HEADER_LEN (length buf))
      else put_u16 buf 4 count)"

section \<open>Message header and fixed blocks\<close>

definition MessageHeader_wrap :: "bytes \<Rightarrow> (wire_error, bytes) outcome" where
  "MessageHeader_wrap buf =
     (if length buf < MESSAGE_HEADER_LEN then Err (ShortBuffer MESSAGE_HEADER_LEN (length buf)) else Ok buf)"

definition MessageHeader_block_length :: "bytes \<Rightarrow> (wire_error, nat) outcome" where
  "MessageHeader_block_length buf = le_u16 buf 0"

definition MessageHeader_template_id :: "bytes \<Rightarrow> (wire_error, nat) outcome" where
  "MessageHeader_template_id buf = le_u16 buf 2"

definition MessageHeader_schema_id :: "bytes \<Rightarrow> (wire_error, nat) outcome" where
  "MessageHeader_schema_id buf = le_u16 buf 4"

definition MessageHeader_version :: "bytes \<Rightarrow> (wire_error, nat) outcome" where
  "MessageHeader_version buf = le_u16 buf 6"

definition write_message_header :: "bytes \<Rightarrow> nat \<Rightarrow> nat \<Rightarrow> (wire_error, bytes) outcome" where
  "write_message_header buf block_length template_id =
     obind (put_u16 buf 0 block_length) (\<lambda>b.
     obind (put_u16 b 2 template_id) (\<lambda>b.
     obind (put_u16 b 4 SCHEMA_ID) (\<lambda>b.
     put_u16 b 6 SCHEMA_VERSION)))"

text \<open>The decoder structs all hold the borrowed buffer and the root length read from it.\<close>

record decoder =
  dec_buf :: bytes
  dec_root_len :: nat

text \<open>The body every generated \<open>wrap\<close> of a fixed-block message shares.\<close>

definition wrap_block :: "nat \<Rightarrow> nat \<Rightarrow> string \<Rightarrow> bytes \<Rightarrow> (wire_error, decoder) outcome" where
  "wrap_block TEMPLATE_ID BLOCK_LENGTH name buf =
     obind (MessageHeader_wrap buf) (\<lambda>hdr.
     obind (MessageHeader_template_id hdr) (\<lambda>tid.
     if tid \<noteq> TEMPLATE_ID then Err (TemplateMismatch TEMPLATE_ID tid)
     else obind (MessageHeader_block_length hdr) (\<lambda>root_len.
     if root_len < BLOCK_LENGTH then Err (BlockTooSmall name BLOCK_LENGTH root_len)
     else let need = MESSAGE_HEADER_LEN + root_len in
          if length buf < need then Err (ShortBuffer need (length buf))
          else Ok \<lparr>dec_buf = buf, dec_root_len = root_len\<rparr>)))"

definition block_total_len :: "decoder \<Rightarrow> nat" where
  "block_total_len d = MESSAGE_HEADER_LEN + dec_root_len d"

section \<open>Feed messages\<close>

subsection \<open>AddOrder\<close>

definition AddOrder_wrap :: "bytes \<Rightarrow> (wire_error, decoder) outcome" where
  "AddOrder_wrap buf = wrap_block 1 24 ''AddOrder'' buf"

definition AddOrder_order_id :: "decoder \<Rightarrow> (wire_error, nat) outcome" where
  "AddOrder_order_id d = le_u64 (dec_buf d) MESSAGE_HEADER_LEN"

definition AddOrder_price :: "decoder \<Rightarrow> (wire_error, int) outcome" where
  "AddOrder_price d = le_i64 (dec_buf d) (MESSAGE_HEADER_LEN + 8)"

definition AddOrder_quantity :: "decoder \<Rightarrow> (wire_error, nat) outcome" where
  "AddOrder_quantity d = le_u32 (dec_buf d) (MESSAGE_HEADER_LEN + 16)"

definition AddOrder_symbol_id :: "decoder \<Rightarrow> (wire_error, nat) outcome" where
  "AddOrder_symbol_id d = le_u16 (dec_buf d) (MESSAGE_HEADER_LEN + 20)"

definition AddOrder_side_raw :: "decoder \<Rightarrow> (wire_error, nat) outcome" where
  "AddOrder_side_raw d = le_u8 (dec_buf d) (MESSAGE_HEADER_LEN + 22)"

definition AddOrder_side :: "decoder \<Rightarrow> (wire_error, side) outcome" where
  "AddOrder_side d = obind (AddOrder_side_raw d) Side_from_u8"

definition encode_add_order :: "bytes \<Rightarrow> nat \<Rightarrow> int \<Rightarrow> nat \<Rightarrow> nat \<Rightarrow> side
    \<Rightarrow> (wire_error, nat \<times> bytes) outcome" where
  "encode_add_order buf order_id price quantity symbol_id side = (let LEN = MESSAGE_HEADER_LEN + 24 in
     if length buf < LEN then Err (ShortBuffer LEN (length buf))
     else obind (fill_zero 0 LEN buf) (\<lambda>b.
          obind (write_message_header b 24 TEMPLATE_ADD_ORDER) (\<lambda>b.
          obind (put_u64 b MESSAGE_HEADER_LEN order_id) (\<lambda>b.
          obind (put_i64 b (MESSAGE_HEADER_LEN + 8) price) (\<lambda>b.
          obind (put_u32 b (MESSAGE_HEADER_LEN + 16) quantity) (\<lambda>b.
          obind (put_u16 b (MESSAGE_HEADER_LEN + 20) symbol_id) (\<lambda>b.
          obind (put_u8 b (MESSAGE_HEADER_LEN + 22) (Side_to_u8 side)) (\<lambda>b.
          Ok (LEN, b)))))))))"

subsection \<open>ModifyOrder\<close>

definition ModifyOrder_wrap :: "bytes \<Rightarrow> (wire_error, decoder) outcome" where
  "ModifyOrder_wrap buf = wrap_block 2 24 ''ModifyOrder'' buf"

definition ModifyOrder_order_id :: "decoder \<Rightarrow> (wire_error, nat) outcome" where
  "ModifyOrder_order_id d = le_u64 (dec_buf d) MESSAGE_HEADER_LEN"

definition ModifyOrder_new_price :: "decoder \<Rightarrow> (wire_error, int) outcome" where
  "ModifyOrder_new_price d = le_i64 (dec_buf d) (MESSAGE_HEADER_LEN + 8)"

definition ModifyOrder_new_quantity :: "decoder \<Rightarrow> (wire_error, nat) outcome" where
  "ModifyOrder_new_quantity d = le_u32 (dec_buf d) (MESSAGE_HEADER_LEN + 16)"

definition ModifyOrder_symbol_id :: "decoder \<Rightarrow> (wire_error, nat) outcome" where
  "ModifyOrder_symbol_id d = le_u16 (dec_buf d) (MESSAGE_HEADER_LEN + 20)"

definition ModifyOrder_side_raw :: "decoder \<Rightarrow> (wire_error, nat) outcome" where
  "ModifyOrder_side_raw d = le_u8 (dec_buf d) (MESSAGE_HEADER_LEN + 22)"

definition ModifyOrder_side :: "decoder \<Rightarrow> (wire_error, side) outcome" where
  "ModifyOrder_side d = obind (ModifyOrder_side_raw d) Side_from_u8"

definition ModifyOrder_reason_raw :: "decoder \<Rightarrow> (wire_error, nat) outcome" where
  "ModifyOrder_reason_raw d = le_u8 (dec_buf d) (MESSAGE_HEADER_LEN + 23)"

definition ModifyOrder_reason :: "decoder \<Rightarrow> (wire_error, modify_reason) outcome" where
  "ModifyOrder_reason d = obind (ModifyOrder_reason_raw d) ModifyReason_from_u8"

definition encode_modify_order :: "bytes \<Rightarrow> nat \<Rightarrow> int \<Rightarrow> nat \<Rightarrow> nat \<Rightarrow> side \<Rightarrow> modify_reason
    \<Rightarrow> (wire_error, nat \<times> bytes) outcome" where
  "encode_modify_order buf order_id new_price new_quantity symbol_id side reason = (let LEN = MESSAGE_HEADER_LEN + 24 in
     if length buf < LEN then Err (ShortBuffer LEN (length buf))
     else obind (fill_zero 0 LEN buf) (\<lambda>b.
          obind (write_message_header b 24 TEMPLATE_MODIFY_ORDER) (\<lambda>b.
          obind (put_u64 b MESSAGE_HEADER_LEN order_id) (\<lambda>b.
          obind (put_i64 b (MESSAGE_HEADER_LEN + 8) new_price) (\<lambda>b.
          obind (put_u32 b (MESSAGE_HEADER_LEN + 16) new_quantity) (\<lambda>b.
          obind (put_u16 b (MESSAGE_HEADER_LEN + 20) symbol_id) (\<lambda>b.
          obind (put_u8 b (MESSAGE_HEADER_LEN + 22) (Side_to_u8 side)) (\<lambda>b.
          obind (put_u8 b (MESSAGE_HEADER_LEN + 23) (ModifyReason_to_u8 reason)) (\<lambda>b.
          Ok (LEN, b))))))))))"

subsection \<open>DeleteOrder\<close>

definition DeleteOrder_wrap :: "bytes \<Rightarrow> (wire_error, decoder) outcome" where
  "DeleteOrder_wrap buf = wrap_block 3 12 ''DeleteOrder'' buf"

definition DeleteOrder_order_id :: "decoder \<Rightarrow> (wire_error, nat) outcome" where
  "DeleteOrder_order_id d = le_u64 (dec_buf d) MESSAGE_HEADER_LEN"

definition DeleteOrder_symbol_id :: "decoder \<Rightarrow> (wire_error, nat) outcome" where
  "DeleteOrder_symbol_id d = le_u16 (dec_buf d) (MESSAGE_HEADER_LEN + 8)"

definition DeleteOrder_side_raw :: "decoder \<Rightarrow> (wire_error, nat) outcome" where
  "DeleteOrder_side_raw d = le_u8 (dec_buf d) (MESSAGE_HEADER_LEN + 10)"

definition DeleteOrder_side :: "decoder \<Rightarrow> (wire_error, side) outcome" where
  "DeleteOrder_side d = obind (DeleteOrder_side_raw d) Side_from_u8"

definition encode_delete_order :: "bytes \<Rightarrow> nat \<Rightarrow> nat \<Rightarrow> side
    \<Rightarrow> (wire_error, nat \<times> bytes) outcome" where
  "encode_delete_order buf order_id symbol_id side = (let LEN = MESSAGE_HEADER_LEN + 12 in
     if length buf < LEN then Err (ShortBuffer LEN (length buf))
     else obind (fill_zero 0 LEN buf) (\<lambda>b.
          obind (write_message_header b 12 TEMPLATE_DELETE_ORDER) (\<lambda>b.
          obind (put_u64 b MESSAGE_HEADER_LEN order_id) (\<lambda>b.
          obind (put_u16 b (MESSAGE_HEADER_LEN + 8) symbol_id) (\<lambda>b.
          obind (put_u8 b (MESSAGE_HEADER_LEN + 10) (Side_to_u8 side)) (\<lambda>b.
          Ok (LEN, b)))))))"

subsection \<open>Trade\<close>

definition Trade_wrap :: "bytes \<Rightarrow> (wire_error, decoder) outcome" where
  "Trade_wrap buf = wrap_block 4 40 ''Trade'' buf"

definition Trade_trade_id :: "decoder \<Rightarrow> (wire_error, nat) outcome" where
  "Trade_trade_id d = le_u64 (dec_buf d) MESSAGE_HEADER_LEN"

definition Trade_aggressor_order_id :: "decoder \<Rightarrow> (wire_error, nat) outcome" where
  "Trade_aggressor_order_id d = le_u64 (dec_buf d) (MESSAGE_HEADER_LEN + 8)"

definition Trade_resting_order_id :: "decoder \<Rightarrow> (wire_error, nat) outcome" where
  "Trade_resting_order_id d = le_u64 (dec_buf d) (MESSAGE_HEADER_LEN + 16)"

definition Trade_price :: "decoder \<Rightarrow> (wire_error, int) outcome" where
  "Trade_price d = le_i64 (dec_buf d) (MESSAGE_HEADER_LEN + 24)"

definition Trade_quantity :: "decoder \<Rightarrow> (wire_error, nat) outcome" where
  "Trade_quantity d = le_u32 (dec_buf d) (MESSAGE_HEADER_LEN + 32)"

definition Trade_symbol_id :: "decoder \<Rightarrow> (wire_error, nat) outcome" where
  "Trade_symbol_id d = le_u16 (dec_buf d) (MESSAGE_HEADER_LEN + 36)"

definition Trade_aggressor_side_raw :: "decoder \<Rightarrow> (wire_error, nat) outcome" where
  "Trade_aggressor_side_raw d = le_u8 (dec_buf d) (MESSAGE_HEADER_LEN + 38)"

definition Trade_aggressor_side :: "decoder \<Rightarrow> (wire_error, side) outcome" where
  "Trade_aggressor_side d = obind (Trade_aggressor_side_raw d) Side_from_u8"

definition encode_trade :: "bytes \<Rightarrow> nat \<Rightarrow> nat \<Rightarrow> nat \<Rightarrow> int \<Rightarrow> nat \<Rightarrow> nat \<Rightarrow> side
    \<Rightarrow> (wire_error, nat \<times> bytes) outcome" where
  "encode_trade buf trade_id aggressor_order_id resting_order_id price quantity symbol_id aggressor_side = (let LEN = MESSAGE_HEADER_LEN + 40 in
     if length buf < LEN then Err (ShortBuffer LEN (length buf))
     else obind (fill_zero 0 LEN buf) (\<lambda>b.
          obind (write_message_header b 40 TEMPLATE_TRADE) (\<lambda>b.
          obind (put_u64 b MESSAGE_HEADER_LEN trade_id) (\<lambda>b.
          obind (put_u64 b (MESSAGE_HEADER_LEN + 8) aggressor_order_id) (\<lambda>b.
          obind (put_u64 b (MESSAGE_HEADER_LEN + 16) resting_order_id) (\<lambda>b.
          obind (put_i64 b (MESSAGE_HEADER_LEN + 24) price) (\<lambda>b.
          obind (put_u32 b (MESSAGE_HEADER_LEN + 32) quantity) (\<lambda>b.
          obind (put_u16 b (MESSAGE_HEADER_LEN + 36) symbol_id) (\<lambda>b.
          obind (put_u8 b (MESSAGE_HEADER_LEN + 38) (Side_to_u8 aggressor_side)) (\<lambda>b.
          Ok (LEN, b)))))))))))"

subsection \<open>Heartbeat\<close>

definition Heartbeat_wrap :: "bytes \<Rightarrow> (wire_error, decoder) outcome" where
  "Heartbeat_wrap buf = wrap_block 6 8 ''Heartbeat'' buf"

definition Heartbeat_last_sequence :: "decoder \<Rightarrow> (wire_error, nat) outcome" where
  "Heartbeat_last_sequence d = le_u64 (dec_buf d) MESSAGE_HEADER_LEN"

definition encode_heartbeat :: "bytes \<Rightarrow> nat
    \<Rightarrow> (wire_error, nat \<times> bytes) outcome" where
  "encode_heartbeat buf last_sequence = (let LEN = MESSAGE_HEADER_LEN + 8 in
     if length buf < LEN then Err (ShortBuffer LEN (length buf))
     else obind (fill_zero 0 LEN buf) (\<lambda>b.
          obind (write_message_header b 8 TEMPLATE_HEARTBEAT) (\<lambda>b.
          obind (put_u64 b MESSAGE_HEADER_LEN last_sequence) (\<lambda>b.
          Ok (LEN, b)))))"

subsection \<open>SequenceReset\<close>

definition SequenceReset_wrap :: "bytes \<Rightarrow> (wire_error, decoder) outcome" where
  "SequenceReset_wrap buf = wrap_block 7 8 ''SequenceReset'' buf"

definition SequenceReset_new_sequence :: "decoder \<Rightarrow> (wire_error, nat) outcome" where
  "SequenceReset_new_sequence d = le_u64 (dec_buf d) MESSAGE_HEADER_LEN"

definition encode_sequence_reset :: "bytes \<Rightarrow> nat
    \<Rightarrow> (wire_error, nat \<times> bytes) outcome" where
  "encode_sequence_reset buf new_sequence = (let LEN = MESSAGE_HEADER_LEN + 8 in
     if length buf < LEN then Err (ShortBuffer LEN (length buf))
     else obind (fill_zero 0 LEN buf) (\<lambda>b.
          obind (write_message_header b 8 TEMPLATE_SEQUENCE_RESET) (\<lambda>b.
          obind (put_u64 b MESSAGE_HEADER_LEN new_sequence) (\<lambda>b.
          Ok (LEN, b)))))"

subsection \<open>Snapshot\<close>

definition Snapshot_last_sequence :: "decoder \<Rightarrow> (wire_error, nat) outcome" where
  "Snapshot_last_sequence d = le_u64 (dec_buf d) MESSAGE_HEADER_LEN"

definition Snapshot_symbol_id :: "decoder \<Rightarrow> (wire_error, nat) outcome" where
  "Snapshot_symbol_id d = le_u16 (dec_buf d) (MESSAGE_HEADER_LEN + 8)"

definition Snapshot_flags :: "decoder \<Rightarrow> (wire_error, nat) outcome" where
  "Snapshot_flags d = le_u8 (dec_buf d) (MESSAGE_HEADER_LEN + 10)"

definition Snapshot_orders_block_length :: "decoder \<Rightarrow> (wire_error, nat) outcome" where
  "Snapshot_orders_block_length d = le_u16 (dec_buf d) (MESSAGE_HEADER_LEN + dec_root_len d)"

definition Snapshot_orders_count :: "decoder \<Rightarrow> (wire_error, nat) outcome" where
  "Snapshot_orders_count d = le_u16 (dec_buf d) (MESSAGE_HEADER_LEN + dec_root_len d + 2)"

definition Snapshot_total_len :: "decoder \<Rightarrow> (wire_error, nat) outcome" where
  "Snapshot_total_len d =
     obind (Snapshot_orders_count d) (\<lambda>n.
     obind (Snapshot_orders_block_length d) (\<lambda>bl.
     Ok (MESSAGE_HEADER_LEN + dec_root_len d + GROUP_SIZE_ENCODING_LEN + n * bl)))"

definition Snapshot_wrap :: "bytes \<Rightarrow> (wire_error, decoder) outcome" where
  "Snapshot_wrap buf =
     obind (wrap_block 5 12 ''Snapshot'' buf) (\<lambda>d.
     let with_group_header = MESSAGE_HEADER_LEN + dec_root_len d + GROUP_SIZE_ENCODING_LEN in
     if length buf < with_group_header then Err (ShortBuffer with_group_header (length buf))
     else obind (Snapshot_total_len d) (\<lambda>total.
          if length buf < total then Err (ShortBuffer total (length buf)) else Ok d))"

text \<open>An entry decoder is the sub-slice of one group entry.\<close>

definition SnapshotOrder_order_id :: "bytes \<Rightarrow> (wire_error, nat) outcome" where
  "SnapshotOrder_order_id e = le_u64 e 0"

definition SnapshotOrder_price :: "bytes \<Rightarrow> (wire_error, int) outcome" where
  "SnapshotOrder_price e = le_i64 e 8"

definition SnapshotOrder_quantity :: "bytes \<Rightarrow> (wire_error, nat) outcome" where
  "SnapshotOrder_quantity e = le_u32 e 16"

definition SnapshotOrder_side_raw :: "bytes \<Rightarrow> (wire_error, nat) outcome" where
  "SnapshotOrder_side_raw e = le_u8 e 20"

definition SnapshotOrder_side :: "bytes \<Rightarrow> (wire_error, side) outcome" where
  "SnapshotOrder_side e = obind (SnapshotOrder_side_raw e) Side_from_u8"

record orders_iter =
  it_buf :: bytes
  it_pos :: nat
  it_block_len :: nat
  it_remaining :: nat

definition Snapshot_orders :: "decoder \<Rightarrow> (wire_error, orders_iter) outcome" where
  "Snapshot_orders d =
     obind (Snapshot_orders_block_length d) (\<lambda>bl.
     obind (Snapshot_orders_count d) (\<lambda>n.
     Ok \<lparr>it_buf = dec_buf d, it_pos = MESSAGE_HEADER_LEN + dec_root_len d + GROUP_SIZE_ENCODING_LEN,
         it_block_len = bl, it_remaining = n\<rparr>))"

definition SnapshotOrdersIter_next :: "orders_iter \<Rightarrow> (wire_error, (bytes \<times> orders_iter) option) outcome" where
  "SnapshotOrdersIter_next it =
     (if it_remaining it = 0 then Ok None
      else let start = it_pos it; pos' = it_pos it + it_block_len it in
        if pos' \<le> length (it_buf it)
        then Ok (Some (window start (it_block_len it) (it_buf it),
                       it\<lparr>it_pos := pos', it_remaining := it_remaining it - 1\<rparr>))
        else Panic)"

record snapshot_encoder =
  se_buf :: bytes
  se_pos :: nat
  se_count :: nat

definition SnapshotEncoder_start :: "bytes \<Rightarrow> nat \<Rightarrow> nat \<Rightarrow> nat \<Rightarrow> (wire_error, snapshot_encoder) outcome" where
  "SnapshotEncoder_start buf last_sequence symbol_id flags =
     (let HEAD = MESSAGE_HEADER_LEN + 12 + GROUP_SIZE_ENCODING_LEN in
      if length buf < HEAD then Err (ShortBuffer HEAD (length buf))
      else obind (fill_zero 0 HEAD buf) (\<lambda>b.
           obind (write_message_header b 12 TEMPLATE_SNAPSHOT) (\<lambda>b.
           obind (put_u64 b MESSAGE_HEADER_LEN last_sequence) (\<lambda>b.
           obind (put_u16 b (MESSAGE_HEADER_LEN + 8) symbol_id) (\<lambda>b.
           obind (put_u8 b (MESSAGE_HEADER_LEN + 10) flags) (\<lambda>b.
           obind (put_u16 b (MESSAGE_HEADER_LEN + 12) 24) (\<lambda>b.
           Ok \<lparr>se_buf = b, se_pos = HEAD, se_count = 0\<rparr>)))))))"

definition SnapshotEncoder_push_order ::
    "snapshot_encoder \<Rightarrow> nat \<Rightarrow> int \<Rightarrow> nat \<Rightarrow> side \<Rightarrow> (wire_error, snapshot_encoder) outcome" where
  "SnapshotEncoder_push_order se order_id price quantity side =
     (let ENTRY = 24; base = se_pos se in
      if length (se_buf se) < base + ENTRY
      then Err (ShortBuffer (base + ENTRY) (length (se_buf se)))
      else if se_count se = u16_max then Err (GroupOverflow ''orders'')
      else obind (fill_zero base ENTRY (se_buf se)) (\<lambda>b.
           obind (put_u64 b base order_id) (\<lambda>b.
           obind (put_i64 b (base + 8) price) (\<lambda>b.
           obind (put_u32 b (base + 16) quantity) (\<lambda>b.
           obind (put_u8 b (base + 20) (Side_to_u8 side)) (\<lambda>b.
           Ok (se\<lparr>se_buf := b, se_pos := base + ENTRY, se_count := se_count se + 1\<rparr>)))))))"

definition SnapshotEncoder_finish :: "snapshot_encoder \<Rightarrow> (wire_error, nat \<times> bytes) outcome" where
  "SnapshotEncoder_finish se =
     obind (put_u16 (se_buf se) (MESSAGE_HEADER_LEN + 12 + 2) (se_count se)) (\<lambda>b. Ok (se_pos se, b))"

section \<open>Order-path messages\<close>

subsection \<open>NewOrder\<close>

definition NewOrder_wrap :: "bytes \<Rightarrow> (wire_error, decoder) outcome" where
  "NewOrder_wrap buf = wrap_block 8 24 ''NewOrder'' buf"

definition NewOrder_client_order_id :: "decoder \<Rightarrow> (wire_error, nat) outcome" where
  "NewOrder_client_order_id d = le_u64 (dec_buf d) MESSAGE_HEADER_LEN"

definition NewOrder_price :: "decoder \<Rightarrow> (wire_error, int) outcome" where
  "NewOrder_price d = le_i64 (dec_buf d) (MESSAGE_HEADER_LEN + 8)"

definition NewOrder_quantity :: "decoder \<Rightarrow> (wire_error, nat) outcome" where
  "NewOrder_quantity d = le_u32 (dec_buf d) (MESSAGE_HEADER_LEN + 16)"

definition NewOrder_symbol_id :: "decoder \<Rightarrow> (wire_error, nat) outcome" where
  "NewOrder_symbol_id d = le_u16 (dec_buf d) (MESSAGE_HEADER_LEN + 20)"

definition NewOrder_side_raw :: "decoder \<Rightarrow> (wire_error, nat) outcome" where
  "NewOrder_side_raw d = le_u8 (dec_buf d) (MESSAGE_HEADER_LEN + 22)"

definition NewOrder_side :: "decoder \<Rightarrow> (wire_error, side) outcome" where
  "NewOrder_side d = obind (NewOrder_side_raw d) Side_from_u8"

definition encode_new_order :: "bytes \<Rightarrow> nat \<Rightarrow> int \<Rightarrow> nat \<Rightarrow> nat \<Rightarrow> side
    \<Rightarrow> (wire_error, nat \<times> bytes) outcome" where
  "encode_new_order buf client_order_id price quantity symbol_id side = (let LEN = MESSAGE_HEADER_LEN + 24 in
     if length buf < LEN then Err (ShortBuffer LEN (length buf))
     else obind (fill_zero 0 LEN buf) (\<lambda>b.
          obind (write_message_header b 24 TEMPLATE_NEW_ORDER) (\<lambda>b.
          obind (put_u64 b MESSAGE_HEADER_LEN client_order_id) (\<lambda>b.
          obind (put_i64 b (MESSAGE_HEADER_LEN + 8) price) (\<lambda>b.
          obind (put_u32 b (MESSAGE_HEADER_LEN + 16) quantity) (\<lambda>b.
          obind (put_u16 b (MESSAGE_HEADER_LEN + 20) symbol_id) (\<lambda>b.
          obind (put_u8 b (MESSAGE_HEADER_LEN + 22) (Side_to_u8 side)) (\<lambda>b.
          Ok (LEN, b)))))))))"

subsection \<open>CancelOrder\<close>

definition CancelOrder_wrap :: "bytes \<Rightarrow> (wire_error, decoder) outcome" where
  "CancelOrder_wrap buf = wrap_block 9 24 ''CancelOrder'' buf"

definition CancelOrder_client_order_id :: "decoder \<Rightarrow> (wire_error, nat) outcome" where
  "CancelOrder_client_order_id d = le_u64 (dec_buf d) MESSAGE_HEADER_LEN"

definition CancelOrder_orig_client_order_id :: "decoder \<Rightarrow> (wire_error, nat) outcome" where
  "CancelOrder_orig_client_order_id d = le_u64 (dec_buf d) (MESSAGE_HEADER_LEN + 8)"

definition CancelOrder_symbol_id :: "decoder \<Rightarrow> (wire_error, nat) outcome" where
  "CancelOrder_symbol_id d = le_u16 (dec_buf d) (MESSAGE_HEADER_LEN + 16)"

definition CancelOrder_side_raw :: "decoder \<Rightarrow> (wire_error, nat) outcome" where
  "CancelOrder_side_raw d = le_u8 (dec_buf d) (MESSAGE_HEADER_LEN + 18)"

definition CancelOrder_side :: "decoder \<Rightarrow> (wire_error, side) outcome" where
  "CancelOrder_side d = obind (CancelOrder_side_raw d) Side_from_u8"

definition encode_cancel_order :: "bytes \<Rightarrow> nat \<Rightarrow> nat \<Rightarrow> nat \<Rightarrow> side
    \<Rightarrow> (wire_error, nat \<times> bytes) outcome" where
  "encode_cancel_order buf client_order_id orig_client_order_id symbol_id side = (let LEN = MESSAGE_HEADER_LEN + 24 in
     if length buf < LEN then Err (ShortBuffer LEN (length buf))
     else obind (fill_zero 0 LEN buf) (\<lambda>b.
          obind (write_message_header b 24 TEMPLATE_CANCEL_ORDER) (\<lambda>b.
          obind (put_u64 b MESSAGE_HEADER_LEN client_order_id) (\<lambda>b.
          obind (put_u64 b (MESSAGE_HEADER_LEN + 8) orig_client_order_id) (\<lambda>b.
          obind (put_u16 b (MESSAGE_HEADER_LEN + 16) symbol_id) (\<lambda>b.
          obind (put_u8 b (MESSAGE_HEADER_LEN + 18) (Side_to_u8 side)) (\<lambda>b.
          Ok (LEN, b))))))))"

subsection \<open>ExecReport\<close>

definition ExecReport_wrap :: "bytes \<Rightarrow> (wire_error, decoder) outcome" where
  "ExecReport_wrap buf = wrap_block 10 48 ''ExecReport'' buf"

definition ExecReport_client_order_id :: "decoder \<Rightarrow> (wire_error, nat) outcome" where
  "ExecReport_client_order_id d = le_u64 (dec_buf d) MESSAGE_HEADER_LEN"

definition ExecReport_exchange_order_id :: "decoder \<Rightarrow> (wire_error, nat) outcome" where
  "ExecReport_exchange_order_id d = le_u64 (dec_buf d) (MESSAGE_HEADER_LEN + 8)"

definition ExecReport_trade_id :: "decoder \<Rightarrow> (wire_error, nat) outcome" where
  "ExecReport_trade_id d = le_u64 (dec_buf d) (MESSAGE_HEADER_LEN + 16)"

definition ExecReport_price :: "decoder \<Rightarrow> (wire_error, int) outcome" where
  "ExecReport_price d = le_i64 (dec_buf d) (MESSAGE_HEADER_LEN + 24)"

definition ExecReport_quantity :: "decoder \<Rightarrow> (wire_error, nat) outcome" where
  "ExecReport_quantity d = le_u32 (dec_buf d) (MESSAGE_HEADER_LEN + 32)"

definition ExecReport_leaves_quantity :: "decoder \<Rightarrow> (wire_error, nat) outcome" where
  "ExecReport_leaves_quantity d = le_u32 (dec_buf d) (MESSAGE_HEADER_LEN + 36)"

definition ExecReport_symbol_id :: "decoder \<Rightarrow> (wire_error, nat) outcome" where
  "ExecReport_symbol_id d = le_u16 (dec_buf d) (MESSAGE_HEADER_LEN + 40)"

definition ExecReport_side_raw :: "decoder \<Rightarrow> (wire_error, nat) outcome" where
  "ExecReport_side_raw d = le_u8 (dec_buf d) (MESSAGE_HEADER_LEN + 42)"

definition ExecReport_side :: "decoder \<Rightarrow> (wire_error, side) outcome" where
  "ExecReport_side d = obind (ExecReport_side_raw d) Side_from_u8"

definition ExecReport_exec_type_raw :: "decoder \<Rightarrow> (wire_error, nat) outcome" where
  "ExecReport_exec_type_raw d = le_u8 (dec_buf d) (MESSAGE_HEADER_LEN + 43)"

definition ExecReport_exec_type :: "decoder \<Rightarrow> (wire_error, exec_type) outcome" where
  "ExecReport_exec_type d = obind (ExecReport_exec_type_raw d) ExecType_from_u8"

definition ExecReport_reject_reason_raw :: "decoder \<Rightarrow> (wire_error, nat) outcome" where
  "ExecReport_reject_reason_raw d = le_u8 (dec_buf d) (MESSAGE_HEADER_LEN + 44)"

definition ExecReport_reject_reason :: "decoder \<Rightarrow> (wire_error, reject_reason) outcome" where
  "ExecReport_reject_reason d = obind (ExecReport_reject_reason_raw d) RejectReason_from_u8"

definition encode_exec_report :: "bytes \<Rightarrow> nat \<Rightarrow> nat \<Rightarrow> nat \<Rightarrow> int \<Rightarrow> nat \<Rightarrow> nat \<Rightarrow> nat \<Rightarrow> side \<Rightarrow> exec_type \<Rightarrow> reject_reason
    \<Rightarrow> (wire_error, nat \<times> bytes) outcome" where
  "encode_exec_report buf client_order_id exchange_order_id trade_id price quantity leaves_quantity symbol_id side exec_type reject_reason = (let LEN = MESSAGE_HEADER_LEN + 48 in
     if length buf < LEN then Err (ShortBuffer LEN (length buf))
     else obind (fill_zero 0 LEN buf) (\<lambda>b.
          obind (write_message_header b 48 TEMPLATE_EXEC_REPORT) (\<lambda>b.
          obind (put_u64 b MESSAGE_HEADER_LEN client_order_id) (\<lambda>b.
          obind (put_u64 b (MESSAGE_HEADER_LEN + 8) exchange_order_id) (\<lambda>b.
          obind (put_u64 b (MESSAGE_HEADER_LEN + 16) trade_id) (\<lambda>b.
          obind (put_i64 b (MESSAGE_HEADER_LEN + 24) price) (\<lambda>b.
          obind (put_u32 b (MESSAGE_HEADER_LEN + 32) quantity) (\<lambda>b.
          obind (put_u32 b (MESSAGE_HEADER_LEN + 36) leaves_quantity) (\<lambda>b.
          obind (put_u16 b (MESSAGE_HEADER_LEN + 40) symbol_id) (\<lambda>b.
          obind (put_u8 b (MESSAGE_HEADER_LEN + 42) (Side_to_u8 side)) (\<lambda>b.
          obind (put_u8 b (MESSAGE_HEADER_LEN + 43) (ExecType_to_u8 exec_type)) (\<lambda>b.
          obind (put_u8 b (MESSAGE_HEADER_LEN + 44) (RejectReason_to_u8 reject_reason)) (\<lambda>b.
          Ok (LEN, b))))))))))))))"

subsection \<open>ReconcileRequest\<close>

definition ReconcileRequest_wrap :: "bytes \<Rightarrow> (wire_error, decoder) outcome" where
  "ReconcileRequest_wrap buf = wrap_block 11 16 ''ReconcileRequest'' buf"

definition ReconcileRequest_request_id :: "decoder \<Rightarrow> (wire_error, nat) outcome" where
  "ReconcileRequest_request_id d = le_u64 (dec_buf d) MESSAGE_HEADER_LEN"

definition encode_reconcile_request :: "bytes \<Rightarrow> nat
    \<Rightarrow> (wire_error, nat \<times> bytes) outcome" where
  "encode_reconcile_request buf request_id = (let LEN = MESSAGE_HEADER_LEN + 16 in
     if length buf < LEN then Err (ShortBuffer LEN (length buf))
     else obind (fill_zero 0 LEN buf) (\<lambda>b.
          obind (write_message_header b 16 TEMPLATE_RECONCILE_REQUEST) (\<lambda>b.
          obind (put_u64 b MESSAGE_HEADER_LEN request_id) (\<lambda>b.
          Ok (LEN, b)))))"

section \<open>Message dispatch\<close>

datatype message =
    AddOrder decoder
  | ModifyOrder decoder
  | DeleteOrder decoder
  | Trade decoder
  | Snapshot decoder
  | Heartbeat decoder
  | SequenceReset decoder

fun Message_total_len :: "message \<Rightarrow> (wire_error, nat) outcome" where
  "Message_total_len (AddOrder d) = Ok (block_total_len d)"
| "Message_total_len (ModifyOrder d) = Ok (block_total_len d)"
| "Message_total_len (DeleteOrder d) = Ok (block_total_len d)"
| "Message_total_len (Trade d) = Ok (block_total_len d)"
| "Message_total_len (Snapshot d) = Snapshot_total_len d"
| "Message_total_len (Heartbeat d) = Ok (block_total_len d)"
| "Message_total_len (SequenceReset d) = Ok (block_total_len d)"

definition decode_message :: "bytes \<Rightarrow> (wire_error, message) outcome" where
  "decode_message buf =
     obind (MessageHeader_wrap buf) (\<lambda>hdr.
     obind (MessageHeader_schema_id hdr) (\<lambda>sid.
     if sid \<noteq> SCHEMA_ID then Err (SchemaMismatch SCHEMA_ID sid)
     else obind (MessageHeader_template_id hdr) (\<lambda>tid.
       if tid = TEMPLATE_ADD_ORDER then obind (AddOrder_wrap buf) (\<lambda>d. Ok (AddOrder d))
       else if tid = TEMPLATE_MODIFY_ORDER then obind (ModifyOrder_wrap buf) (\<lambda>d. Ok (ModifyOrder d))
       else if tid = TEMPLATE_DELETE_ORDER then obind (DeleteOrder_wrap buf) (\<lambda>d. Ok (DeleteOrder d))
       else if tid = TEMPLATE_TRADE then obind (Trade_wrap buf) (\<lambda>d. Ok (Trade d))
       else if tid = TEMPLATE_SNAPSHOT then obind (Snapshot_wrap buf) (\<lambda>d. Ok (Snapshot d))
       else if tid = TEMPLATE_HEARTBEAT then obind (Heartbeat_wrap buf) (\<lambda>d. Ok (Heartbeat d))
       else if tid = TEMPLATE_SEQUENCE_RESET then obind (SequenceReset_wrap buf) (\<lambda>d. Ok (SequenceReset d))
       else Err (UnknownTemplate tid))))"

datatype order_path_message =
    NewOrder decoder
  | CancelOrder decoder
  | ExecReport decoder
  | ReconcileRequest decoder

definition decode_order_path_message :: "bytes \<Rightarrow> (wire_error, order_path_message) outcome" where
  "decode_order_path_message buf =
     obind (MessageHeader_wrap buf) (\<lambda>hdr.
     obind (MessageHeader_schema_id hdr) (\<lambda>sid.
     if sid \<noteq> SCHEMA_ID then Err (SchemaMismatch SCHEMA_ID sid)
     else obind (MessageHeader_template_id hdr) (\<lambda>tid.
       if tid = TEMPLATE_NEW_ORDER then obind (NewOrder_wrap buf) (\<lambda>d. Ok (NewOrder d))
       else if tid = TEMPLATE_CANCEL_ORDER then obind (CancelOrder_wrap buf) (\<lambda>d. Ok (CancelOrder d))
       else if tid = TEMPLATE_EXEC_REPORT then obind (ExecReport_wrap buf) (\<lambda>d. Ok (ExecReport d))
       else if tid = TEMPLATE_RECONCILE_REQUEST then obind (ReconcileRequest_wrap buf) (\<lambda>d. Ok (ReconcileRequest d))
       else Err (UnknownTemplate tid))))"

section \<open>Facts\<close>

lemma Side_round_trip [simp]: "Side_from_u8 (Side_to_u8 s) = Ok s"
  by (cases s) (simp_all add: Side_from_u8_def)

lemma Side_code_bound [simp]: "Side_to_u8 s < 256"
  by (cases s) simp_all

lemma ModifyReason_round_trip [simp]: "ModifyReason_from_u8 (ModifyReason_to_u8 r) = Ok r"
  by (cases r) (simp_all add: ModifyReason_from_u8_def)

lemma ModifyReason_code_bound [simp]: "ModifyReason_to_u8 r < 256"
  by (cases r) simp_all

lemma ExecType_round_trip [simp]: "ExecType_from_u8 (ExecType_to_u8 x) = Ok x"
  by (cases x) (simp_all add: ExecType_from_u8_def)

lemma ExecType_code_bound [simp]: "ExecType_to_u8 x < 256"
  by (cases x) simp_all

lemma RejectReason_round_trip [simp]: "RejectReason_from_u8 (RejectReason_to_u8 q) = Ok q"
  by (cases q) (simp_all add: RejectReason_from_u8_def)

lemma RejectReason_code_bound [simp]: "RejectReason_to_u8 q < 256"
  by (cases q) simp_all

lemma enum_from_u8_no_panic [simp]:
  "Side_from_u8 v \<noteq> Panic" "ModifyReason_from_u8 v \<noteq> Panic"
  "ExecType_from_u8 v \<noteq> Panic" "RejectReason_from_u8 v \<noteq> Panic"
  by (simp_all add: Side_from_u8_def ModifyReason_from_u8_def ExecType_from_u8_def RejectReason_from_u8_def)

lemmas message_header_defs = MessageHeader_wrap_def MessageHeader_template_id_def
  MessageHeader_block_length_def MessageHeader_schema_id_def MessageHeader_version_def

lemmas wrap_defs = AddOrder_wrap_def ModifyOrder_wrap_def DeleteOrder_wrap_def Trade_wrap_def
  Heartbeat_wrap_def SequenceReset_wrap_def NewOrder_wrap_def CancelOrder_wrap_def ExecReport_wrap_def
  ReconcileRequest_wrap_def

lemma wrap_block_Ok_iff:
  "wrap_block t bl nm buf = Ok d \<longleftrightarrow>
     8 \<le> length buf \<and> from_le (window 2 2 buf) = t \<and> bl \<le> from_le (window 0 2 buf) \<and>
     8 + from_le (window 0 2 buf) \<le> length buf \<and>
     d = \<lparr>dec_buf = buf, dec_root_len = from_le (window 0 2 buf)\<rparr>"
  by (auto simp: wrap_block_def message_header_defs le_u16_def le_u_def Let_def)

lemma wrap_block_no_panic [simp]: "wrap_block t bl nm buf \<noteq> Panic"
  by (auto simp: wrap_block_def message_header_defs le_u16_def le_u_def Let_def)

lemma wrap_block_bounds:
  assumes "wrap_block t bl nm buf = Ok d"
  shows "dec_buf d = buf" and "8 + bl \<le> length (dec_buf d)" and "8 + dec_root_len d \<le> length buf"
  using assms by (auto simp: wrap_block_Ok_iff)

lemma Snapshot_wrap_no_panic [simp]: "Snapshot_wrap buf \<noteq> Panic"
  by (auto simp: Snapshot_wrap_def Let_def outcome_simps wrap_block_Ok_iff Snapshot_total_len_def
      Snapshot_orders_count_def Snapshot_orders_block_length_def le_u16_def le_u_def split: if_splits)

lemma Snapshot_wrap_bounds:
  assumes "Snapshot_wrap buf = Ok d"
  shows "dec_buf d = buf" and "20 \<le> length buf" and "12 + dec_root_len d \<le> length buf"
    and "\<exists>n bl. Snapshot_orders_count d = Ok n \<and> Snapshot_orders_block_length d = Ok bl \<and>
           12 + dec_root_len d + n * bl \<le> length buf"
  using assms
  by (auto simp: Snapshot_wrap_def Let_def outcome_simps wrap_block_Ok_iff Snapshot_total_len_def
      Snapshot_orders_count_def Snapshot_orders_block_length_def le_u16_def le_u_def split: if_splits)

lemma le_u_no_panic [simp]: "le_u n b k \<noteq> Panic \<longleftrightarrow> k + n \<le> length b"
  by (simp add: le_u_def)

lemma le_i64_no_panic [simp]: "le_i64 b k \<noteq> Panic \<longleftrightarrow> k + 8 \<le> length b"
  by (simp add: le_i64_def)

lemma Message_total_len_bound:
  assumes "decode_message buf = Ok m"
  obtains n where "Message_total_len m = Ok n" and "8 \<le> n" and "n \<le> length buf"
proof -
  have "\<exists>n. Message_total_len m = Ok n \<and> 8 \<le> n \<and> n \<le> length buf"
    using assms
    by (auto simp: decode_message_def outcome_simps wrap_defs block_total_len_def wrap_block_Ok_iff
        Snapshot_wrap_def Let_def split: if_splits) 
       (auto simp: Snapshot_total_len_def Snapshot_orders_count_def Snapshot_orders_block_length_def
        outcome_simps)
  then show thesis using that by blast
qed

lemma decode_message_no_panic [simp]: "decode_message buf \<noteq> Panic"
  by (auto simp: decode_message_def outcome_simps wrap_defs message_header_defs le_u16_def le_u_def
      split: if_splits)

lemma decode_order_path_message_no_panic [simp]: "decode_order_path_message buf \<noteq> Panic"
  by (auto simp: decode_order_path_message_def outcome_simps wrap_defs message_header_defs le_u16_def le_u_def
      split: if_splits)

end
