(* ===== verification/Packet.thy ===== *)
theory Packet
  imports Wire
begin

text \<open>
  Datagrams: \<open>PacketWriter\<close> and \<open>PacketReader\<close> of \<open>crates/wire/src/generated.rs\<close>, the abstract
  feed events a datagram carries, and the round trip between them. \<open>feed_event\<close> is the
  specification-level content of a message; \<open>view_event\<close> reads it back through the accessors of
  the decoder, and \<open>event_image\<close> is the byte image an encoder leaves.
\<close>

section \<open>Packet reader\<close>

record packet_iter =
  pi_buf :: bytes
  pi_pos :: nat
  pi_sequence :: nat
  pi_remaining :: nat
  pi_failed :: bool

definition PacketReader_new :: "bytes \<Rightarrow> (wire_error, bytes) outcome" where
  "PacketReader_new buf = PacketHeader_wrap buf"

definition PacketReader_messages :: "bytes \<Rightarrow> (wire_error, packet_iter) outcome" where
  "PacketReader_messages buf =
     obind (PacketHeader_first_sequence buf) (\<lambda>sq.
     obind (PacketHeader_message_count buf) (\<lambda>n.
     Ok \<lparr>pi_buf = buf, pi_pos = PACKET_HEADER_LEN, pi_sequence = sq, pi_remaining = n, pi_failed = False\<rparr>))"

text \<open>\<open>next\<close> yields nothing, an item that is a sequenced message, or an item that is an error.\<close>

definition PacketMessageIter_next ::
    "packet_iter \<Rightarrow> (wire_error, ((wire_error + nat \<times> message) option \<times> packet_iter)) outcome" where
  "PacketMessageIter_next it =
     (if pi_failed it \<or> pi_remaining it = 0 then Ok (None, it)
      else if pi_pos it > length (pi_buf it) then Panic
      else case decode_message (drop (pi_pos it) (pi_buf it)) of
        Ok msg \<Rightarrow> obind (Message_total_len msg) (\<lambda>n.
          Ok (Some (Inr (pi_sequence it, msg)),
              it\<lparr>pi_pos := pi_pos it + n, pi_sequence := wrap_add_u64 (pi_sequence it) 1,
                 pi_remaining := pi_remaining it - 1\<rparr>))
      | Err e \<Rightarrow> Ok (Some (Inl e), it\<lparr>pi_failed := True\<rparr>)
      | Panic \<Rightarrow> Panic)"

text \<open>A \<open>for\<close> loop over the iterator sees this list of items.\<close>

function packet_items :: "packet_iter \<Rightarrow> (wire_error, (wire_error + nat \<times> message) list) outcome" where
  "packet_items it =
     (case PacketMessageIter_next it of
        Ok (None, _) \<Rightarrow> Ok []
      | Ok (Some x, it') \<Rightarrow> obind (packet_items it') (\<lambda>xs. Ok (x # xs))
      | Err e \<Rightarrow> Err e
      | Panic \<Rightarrow> Panic)"
  by pat_completeness auto
termination
  by (relation "measure (\<lambda>it. pi_remaining it + (if pi_failed it then 0 else 1))")
     (auto simp: PacketMessageIter_next_def outcome_simps split: if_splits outcome.splits)

declare packet_items.simps [simp del]

definition datagram_items :: "bytes \<Rightarrow> (wire_error, (wire_error + nat \<times> message) list) outcome" where
  "datagram_items buf = obind (PacketReader_new buf) (\<lambda>b. obind (PacketReader_messages b) packet_items)"

section \<open>Packet writer\<close>

record packet_writer =
  pw_buf :: bytes
  pw_pos :: nat
  pw_count :: nat

definition PacketWriter_new :: "bytes \<Rightarrow> nat \<Rightarrow> nat \<Rightarrow> nat \<Rightarrow> nat \<Rightarrow> (wire_error, packet_writer) outcome" where
  "PacketWriter_new buf channel flags first_sequence send_timestamp_ns =
     obind (encode_packet_header buf channel flags first_sequence send_timestamp_ns) (\<lambda>(_, b).
     Ok \<lparr>pw_buf = b, pw_pos = PACKET_HEADER_LEN, pw_count = 0\<rparr>)"

definition PacketWriter_remaining :: "packet_writer \<Rightarrow> nat" where
  "PacketWriter_remaining w = length (pw_buf w) - pw_pos w"

definition PacketWriter_commit :: "packet_writer \<Rightarrow> nat \<Rightarrow> (wire_error, packet_writer) outcome" where
  "PacketWriter_commit w n =
     (if pw_pos w + n > length (pw_buf w) then Err (ShortBuffer (pw_pos w + n) (length (pw_buf w)))
      else if pw_count w = u16_max then Err (GroupOverflow ''packet'')
      else Ok (w\<lparr>pw_pos := pw_pos w + n, pw_count := pw_count w + 1\<rparr>))"

text \<open>The shape of every append method: encode into the tail, then advance.\<close>

definition pw_append ::
    "(bytes \<Rightarrow> (wire_error, nat \<times> bytes) outcome) \<Rightarrow> packet_writer \<Rightarrow> (wire_error, packet_writer) outcome" where
  "pw_append enc w =
     (if pw_pos w > length (pw_buf w) then Panic
      else obind (enc (drop (pw_pos w) (pw_buf w))) (\<lambda>(n, tail).
        Ok (w\<lparr>pw_buf := take (pw_pos w) (pw_buf w) @ tail, pw_pos := pw_pos w + n,
              pw_count := (pw_count w + 1) mod 2 ^ 16\<rparr>)))"

definition PacketWriter_add_order :: "packet_writer \<Rightarrow> nat \<Rightarrow> int \<Rightarrow> nat \<Rightarrow> nat \<Rightarrow> side
    \<Rightarrow> (wire_error, packet_writer) outcome" where
  "PacketWriter_add_order w order_id price quantity symbol_id side =
     pw_append (\<lambda>b. encode_add_order b order_id price quantity symbol_id side) w"

definition PacketWriter_modify_order :: "packet_writer \<Rightarrow> nat \<Rightarrow> int \<Rightarrow> nat \<Rightarrow> nat \<Rightarrow> side \<Rightarrow> modify_reason
    \<Rightarrow> (wire_error, packet_writer) outcome" where
  "PacketWriter_modify_order w order_id new_price new_quantity symbol_id side reason =
     pw_append (\<lambda>b. encode_modify_order b order_id new_price new_quantity symbol_id side reason) w"

definition PacketWriter_delete_order :: "packet_writer \<Rightarrow> nat \<Rightarrow> nat \<Rightarrow> side
    \<Rightarrow> (wire_error, packet_writer) outcome" where
  "PacketWriter_delete_order w order_id symbol_id side =
     pw_append (\<lambda>b. encode_delete_order b order_id symbol_id side) w"

definition PacketWriter_trade :: "packet_writer \<Rightarrow> nat \<Rightarrow> nat \<Rightarrow> nat \<Rightarrow> int \<Rightarrow> nat \<Rightarrow> nat \<Rightarrow> side
    \<Rightarrow> (wire_error, packet_writer) outcome" where
  "PacketWriter_trade w trade_id aggressor_order_id resting_order_id price quantity symbol_id aggressor_side =
     pw_append (\<lambda>b. encode_trade b trade_id aggressor_order_id resting_order_id price quantity
       symbol_id aggressor_side) w"

definition PacketWriter_heartbeat :: "packet_writer \<Rightarrow> nat \<Rightarrow> (wire_error, packet_writer) outcome" where
  "PacketWriter_heartbeat w last_sequence = pw_append (\<lambda>b. encode_heartbeat b last_sequence) w"

definition PacketWriter_sequence_reset :: "packet_writer \<Rightarrow> nat \<Rightarrow> (wire_error, packet_writer) outcome" where
  "PacketWriter_sequence_reset w new_sequence = pw_append (\<lambda>b. encode_sequence_reset b new_sequence) w"

definition PacketWriter_finish :: "packet_writer \<Rightarrow> (wire_error, nat \<times> bytes) outcome" where
  "PacketWriter_finish w = obind (put_u16 (pw_buf w) 4 (pw_count w)) (\<lambda>b. Ok (pw_pos w, b))"

section \<open>Feed events\<close>

datatype feed_event =
    EvAdd nat int nat nat side
  | EvModify nat int nat nat side modify_reason
  | EvDelete nat nat side
  | EvTrade nat nat nat int nat nat side
  | EvHeartbeat nat
  | EvReset nat

fun view_event :: "message \<Rightarrow> (wire_error, feed_event) outcome" where
  "view_event (AddOrder d) =
     obind (AddOrder_order_id d) (\<lambda>i. obind (AddOrder_price d) (\<lambda>p. obind (AddOrder_quantity d) (\<lambda>q.
     obind (AddOrder_symbol_id d) (\<lambda>y. obind (AddOrder_side d) (\<lambda>s. Ok (EvAdd i p q y s))))))"
| "view_event (ModifyOrder d) =
     obind (ModifyOrder_order_id d) (\<lambda>i. obind (ModifyOrder_new_price d) (\<lambda>p.
     obind (ModifyOrder_new_quantity d) (\<lambda>q. obind (ModifyOrder_symbol_id d) (\<lambda>y.
     obind (ModifyOrder_side d) (\<lambda>s. obind (ModifyOrder_reason d) (\<lambda>r. Ok (EvModify i p q y s r)))))))"
| "view_event (DeleteOrder d) =
     obind (DeleteOrder_order_id d) (\<lambda>i. obind (DeleteOrder_symbol_id d) (\<lambda>y.
     obind (DeleteOrder_side d) (\<lambda>s. Ok (EvDelete i y s))))"
| "view_event (Trade d) =
     obind (Trade_trade_id d) (\<lambda>t. obind (Trade_aggressor_order_id d) (\<lambda>a. obind (Trade_resting_order_id d) (\<lambda>r.
     obind (Trade_price d) (\<lambda>p. obind (Trade_quantity d) (\<lambda>q. obind (Trade_symbol_id d) (\<lambda>y.
     obind (Trade_aggressor_side d) (\<lambda>s. Ok (EvTrade t a r p q y s))))))))"
| "view_event (Heartbeat d) = obind (Heartbeat_last_sequence d) (\<lambda>n. Ok (EvHeartbeat n))"
| "view_event (SequenceReset d) = obind (SequenceReset_new_sequence d) (\<lambda>n. Ok (EvReset n))"
| "view_event (Snapshot d) = Err (UnknownTemplate TEMPLATE_SNAPSHOT)"

fun event_wf :: "feed_event \<Rightarrow> bool" where
  "event_wf (EvAdd i p q y s) \<longleftrightarrow> i \<le> u64_max \<and> in_i64 p \<and> q \<le> u32_max \<and> y \<le> u16_max"
| "event_wf (EvModify i p q y s r) \<longleftrightarrow> i \<le> u64_max \<and> in_i64 p \<and> q \<le> u32_max \<and> y \<le> u16_max"
| "event_wf (EvDelete i y s) \<longleftrightarrow> i \<le> u64_max \<and> y \<le> u16_max"
| "event_wf (EvTrade t a r p q y s) \<longleftrightarrow> t \<le> u64_max \<and> a \<le> u64_max \<and> r \<le> u64_max \<and> in_i64 p \<and>
     q \<le> u32_max \<and> y \<le> u16_max"
| "event_wf (EvHeartbeat n) \<longleftrightarrow> n \<le> u64_max"
| "event_wf (EvReset n) \<longleftrightarrow> n \<le> u64_max"

text \<open>The writer method that appends an event.\<close>

fun write_event :: "feed_event \<Rightarrow> packet_writer \<Rightarrow> (wire_error, packet_writer) outcome" where
  "write_event (EvAdd i p q y s) w = PacketWriter_add_order w i p q y s"
| "write_event (EvModify i p q y s r) w = PacketWriter_modify_order w i p q y s r"
| "write_event (EvDelete i y s) w = PacketWriter_delete_order w i y s"
| "write_event (EvTrade t a r p q y s) w = PacketWriter_trade w t a r p q y s"
| "write_event (EvHeartbeat n) w = PacketWriter_heartbeat w n"
| "write_event (EvReset n) w = PacketWriter_sequence_reset w n"

section \<open>Byte images\<close>

definition header_image :: "nat \<Rightarrow> nat \<Rightarrow> nat \<Rightarrow> bytes" where
  "header_image bl tid n = patch 6 (to_le 2 SCHEMA_VERSION) (patch 4 (to_le 2 SCHEMA_ID)
     (patch 2 (to_le 2 tid) (patch 0 (to_le 2 bl) (replicate n 0))))"

fun event_len :: "feed_event \<Rightarrow> nat" where
  "event_len (EvAdd i p q y s) = 32"
| "event_len (EvModify i p q y s r) = 32"
| "event_len (EvDelete i y s) = 20"
| "event_len (EvTrade t a r p q y s) = 48"
| "event_len (EvHeartbeat n) = 16"
| "event_len (EvReset n) = 16"

fun event_image :: "feed_event \<Rightarrow> bytes" where
  "event_image (EvAdd i p q y s) =
     patch 30 (to_le 1 (Side_to_u8 s)) (patch 28 (to_le 2 y) (patch 24 (to_le 4 q)
       (patch 16 (i64_to_le p) (patch 8 (to_le 8 i) (header_image 24 1 32)))))"
| "event_image (EvModify i p q y s r) =
     patch 31 (to_le 1 (ModifyReason_to_u8 r)) (patch 30 (to_le 1 (Side_to_u8 s)) (patch 28 (to_le 2 y)
       (patch 24 (to_le 4 q) (patch 16 (i64_to_le p) (patch 8 (to_le 8 i) (header_image 24 2 32))))))"
| "event_image (EvDelete i y s) =
     patch 18 (to_le 1 (Side_to_u8 s)) (patch 16 (to_le 2 y) (patch 8 (to_le 8 i) (header_image 12 3 20)))"
| "event_image (EvTrade t a r p q y s) =
     patch 46 (to_le 1 (Side_to_u8 s)) (patch 44 (to_le 2 y) (patch 40 (to_le 4 q) (patch 32 (i64_to_le p)
       (patch 24 (to_le 8 r) (patch 16 (to_le 8 a) (patch 8 (to_le 8 t) (header_image 40 4 48)))))))"
| "event_image (EvHeartbeat n) = patch 8 (to_le 8 n) (header_image 8 6 16)"
| "event_image (EvReset n) = patch 8 (to_le 8 n) (header_image 8 7 16)"

lemma length_header_image [simp]: "8 \<le> n \<Longrightarrow> length (header_image bl tid n) = n"
  by (simp add: header_image_def)

lemma length_event_image [simp]: "length (event_image ev) = event_len ev"
  by (cases ev) (simp_all)

lemma event_len_ge [simp]: "8 \<le> event_len ev"
  by (cases ev) simp_all

lemma write_message_header_image:
  assumes "8 \<le> n"
  shows "write_message_header (replicate n 0 @ rest) bl tid = Ok (header_image bl tid n @ rest)"
  using assms by (simp add: write_message_header_def header_image_def put_u16_def access_in_range)

lemmas encoder_defs = encode_add_order_def encode_modify_order_def encode_delete_order_def encode_trade_def
  encode_heartbeat_def encode_sequence_reset_def

lemmas feed_accessor_defs = AddOrder_order_id_def AddOrder_price_def AddOrder_quantity_def
  AddOrder_symbol_id_def AddOrder_side_raw_def AddOrder_side_def ModifyOrder_order_id_def
  ModifyOrder_new_price_def ModifyOrder_new_quantity_def ModifyOrder_symbol_id_def ModifyOrder_side_raw_def
  ModifyOrder_side_def ModifyOrder_reason_raw_def ModifyOrder_reason_def DeleteOrder_order_id_def
  DeleteOrder_symbol_id_def DeleteOrder_side_raw_def DeleteOrder_side_def Trade_trade_id_def
  Trade_aggressor_order_id_def Trade_resting_order_id_def Trade_price_def Trade_quantity_def
  Trade_symbol_id_def Trade_aggressor_side_raw_def Trade_aggressor_side_def Heartbeat_last_sequence_def
  SequenceReset_new_sequence_def

fun encode_event :: "bytes \<Rightarrow> feed_event \<Rightarrow> (wire_error, nat \<times> bytes) outcome" where
  "encode_event b (EvAdd i p q y s) = encode_add_order b i p q y s"
| "encode_event b (EvModify i p q y s r) = encode_modify_order b i p q y s r"
| "encode_event b (EvDelete i y s) = encode_delete_order b i y s"
| "encode_event b (EvTrade t a r p q y s) = encode_trade b t a r p q y s"
| "encode_event b (EvHeartbeat n) = encode_heartbeat b n"
| "encode_event b (EvReset n) = encode_sequence_reset b n"

lemma write_event_append: "write_event ev w = pw_append (\<lambda>b. encode_event b ev) w"
  by (cases ev) (simp_all add: PacketWriter_add_order_def PacketWriter_modify_order_def
    PacketWriter_delete_order_def PacketWriter_trade_def PacketWriter_heartbeat_def PacketWriter_sequence_reset_def)

lemma encode_event_image:
  "encode_event b ev =
     (if length b < event_len ev then Err (ShortBuffer (event_len ev) (length b))
      else Ok (event_len ev, event_image ev @ drop (event_len ev) b))"
  by (cases ev)
     (simp_all add: encoder_defs Let_def access_in_range fill_zero_front write_message_header_image put_defs)

lemma window_header_image [simp]:
  assumes "8 \<le> n"
  shows "window 0 2 (header_image bl tid n) = to_le 2 bl"
    and "window 2 2 (header_image bl tid n) = to_le 2 tid"
    and "window 4 2 (header_image bl tid n) = to_le 2 SCHEMA_ID"
    and "window 6 2 (header_image bl tid n) = to_le 2 SCHEMA_VERSION"
  using assms by (simp_all add: header_image_def buffer_simps)

lemmas image_simps = le_defs access_in_range buffer_simps window_append1


fun event_template :: "feed_event \<Rightarrow> nat" where
  "event_template (EvAdd i p q y s) = 1"
| "event_template (EvModify i p q y s r) = 2"
| "event_template (EvDelete i y s) = 3"
| "event_template (EvTrade t a r p q y s) = 4"
| "event_template (EvHeartbeat n) = 6"
| "event_template (EvReset n) = 7"

fun event_message :: "feed_event \<Rightarrow> decoder \<Rightarrow> message" where
  "event_message (EvAdd i p q y s) d = AddOrder d"
| "event_message (EvModify i p q y s r) d = ModifyOrder d"
| "event_message (EvDelete i y s) d = DeleteOrder d"
| "event_message (EvTrade t a r p q y s) d = Trade d"
| "event_message (EvHeartbeat n) d = Heartbeat d"
| "event_message (EvReset n) d = SequenceReset d"

lemma event_image_header:
  "window 0 2 (event_image ev) = to_le 2 (event_len ev - 8)"
  "window 2 2 (event_image ev) = to_le 2 (event_template ev)"
  "window 4 2 (event_image ev) = to_le 2 SCHEMA_ID"
  by (cases ev; simp add: buffer_simps)+

lemma decode_by_header:
  assumes "event_len ev \<le> length b" "from_le (window 0 2 b) = event_len ev - 8"
    and "from_le (window 2 2 b) = event_template ev" "from_le (window 4 2 b) = SCHEMA_ID"
  shows "decode_message b = Ok (event_message ev \<lparr>dec_buf = b, dec_root_len = event_len ev - 8\<rparr>)"
  using assms
  by (cases ev; simp add: decode_message_def wrap_defs wrap_block_def Let_def message_header_defs le_u16_def
      access_in_range)

lemma decode_event_image:
  "decode_message (event_image ev @ rest) =
     Ok (event_message ev \<lparr>dec_buf = event_image ev @ rest, dec_root_len = event_len ev - 8\<rparr>)"
proof (rule decode_by_header)
  show "event_len ev \<le> length (event_image ev @ rest)" by simp
  have "8 \<le> event_len ev" by simp
  then have win: "window k 2 (event_image ev @ rest) = window k 2 (event_image ev)" if "k \<le> 6" for k
    using that event_len_ge [of ev] by (intro window_append1) (unfold length_event_image, linarith)
  show "from_le (window 0 2 (event_image ev @ rest)) = event_len ev - 8"
    by (simp only: win event_image_header) (cases ev; simp)
  show "from_le (window 2 2 (event_image ev @ rest)) = event_template ev"
    by (simp only: win event_image_header) (cases ev; simp)
  show "from_le (window 4 2 (event_image ev @ rest)) = SCHEMA_ID"
    by (simp only: win event_image_header) simp
qed

lemma view_event_image:
  assumes "event_wf ev"
  shows "view_event (event_message ev \<lparr>dec_buf = event_image ev @ rest, dec_root_len = n\<rparr>) = Ok ev"
  using assms by (cases ev) (simp_all add: feed_accessor_defs image_simps unat_octet)

lemma total_len_event_image:
  "Message_total_len (event_message ev \<lparr>dec_buf = event_image ev @ rest, dec_root_len = event_len ev - 8\<rparr>)
     = Ok (event_len ev)"
  by (cases ev) (simp_all add: block_total_len_def)


section \<open>Whole datagrams\<close>

definition packet_header_image :: "nat \<Rightarrow> nat \<Rightarrow> nat \<Rightarrow> nat \<Rightarrow> nat \<Rightarrow> bytes" where
  "packet_header_image ch fl fs ts n =
     patch 16 (to_le 8 ts) (patch 8 (to_le 8 fs) (patch 7 (to_le 1 fl) (patch 6 (to_le 1 ch)
       (patch 4 (to_le 2 n) (patch 2 (to_le 2 SCHEMA_VERSION) (patch 0 (to_le 2 SCHEMA_ID) (replicate 24 0)))))))"

lemma length_packet_header_image [simp]: "length (packet_header_image ch fl fs ts n) = 24"
  by (simp add: packet_header_image_def)

lemma patch_twice: "k + length bs \<le> length b \<Longrightarrow> length cs = length bs \<Longrightarrow> patch k cs (patch k bs b) = patch k cs b"
  by (simp add: patch_def)

lemma patch_commute:
  assumes "k + length bs \<le> j" "j + length cs \<le> length b"
  shows "patch k bs (patch j cs b) = patch j cs (patch k bs b)"
proof -
  have "take j (patch k bs b) = patch k bs (take j b)" using assms by (intro take_patch) auto
  moreover have "patch k bs (patch j cs b) = patch k bs (take j b) @ cs @ drop (j + length cs) b"
    using assms by (simp add: patch_def [of j])
  ultimately show ?thesis using assms by (simp add: patch_def [of j])
qed

lemma packet_header_image_recount:
  "patch 4 (to_le 2 m) (packet_header_image ch fl fs ts n) = packet_header_image ch fl fs ts m"
  by (simp add: packet_header_image_def patch_twice patch_commute [where k = 4 and j = 16]
      patch_commute [where k = 4 and j = 8] patch_commute [where k = 4 and j = 7]
      patch_commute [where k = 4 and j = 6])

lemma encode_packet_header_image:
  "24 \<le> length buf \<Longrightarrow> encode_packet_header buf ch fl fs ts = Ok (24, packet_header_image ch fl fs ts 0 @ drop 24 buf)"
  by (simp add: encode_packet_header_def packet_header_image_def access_in_range fill_zero_front put_defs)

lemma packet_header_image_fields:
  assumes "ch \<le> u8_max" "fl \<le> u8_max" "fs \<le> u64_max" "ts \<le> u64_max" "n \<le> u16_max"
  shows "PacketHeader_wrap (packet_header_image ch fl fs ts n @ rest) = Ok (packet_header_image ch fl fs ts n @ rest)"
    and "PacketHeader_message_count (packet_header_image ch fl fs ts n @ rest) = Ok n"
    and "PacketHeader_channel (packet_header_image ch fl fs ts n @ rest) = Ok ch"
    and "PacketHeader_flags (packet_header_image ch fl fs ts n @ rest) = Ok fl"
    and "PacketHeader_first_sequence (packet_header_image ch fl fs ts n @ rest) = Ok fs"
    and "PacketHeader_send_timestamp_ns (packet_header_image ch fl fs ts n @ rest) = Ok ts"
  using assms
  by (simp_all add: PacketHeader_wrap_def PacketHeader_schema_id_def PacketHeader_message_count_def
      PacketHeader_channel_def PacketHeader_flags_def PacketHeader_first_sequence_def
      PacketHeader_send_timestamp_ns_def image_simps)
     (simp_all add: packet_header_image_def image_simps unat_octet)

definition pw_holds :: "packet_writer \<Rightarrow> bytes \<Rightarrow> feed_event list \<Rightarrow> bool" where
  "pw_holds w hdr evs \<longleftrightarrow> length hdr = 24 \<and> pw_pos w = 24 + sum_list (map event_len evs) \<and>
     pw_pos w \<le> length (pw_buf w) \<and> take (pw_pos w) (pw_buf w) = hdr @ concat (map event_image evs) \<and>
     pw_count w = length evs mod 2 ^ 16"

lemma write_event_short:
  "pw_pos w \<le> length (pw_buf w) \<Longrightarrow> PacketWriter_remaining w < event_len ev \<Longrightarrow>
     write_event ev w = Err (ShortBuffer (event_len ev) (PacketWriter_remaining w))"
  by (simp add: write_event_append pw_append_def encode_event_image PacketWriter_remaining_def)

lemma write_event_fits:
  assumes "pw_holds w hdr evs" and "event_len ev \<le> PacketWriter_remaining w"
  obtains w' where "write_event ev w = Ok w'" and "pw_holds w' hdr (evs @ [ev])"
    and "length (pw_buf w') = length (pw_buf w)"
proof -
  let ?p = "pw_pos w" and ?b = "pw_buf w" and ?l = "event_len ev"
  let ?w = "w\<lparr>pw_buf := take ?p ?b @ event_image ev @ drop (?p + ?l) ?b, pw_pos := ?p + ?l,
              pw_count := (pw_count w + 1) mod 2 ^ 16\<rparr>"
  have fit: "?p \<le> length ?b" "?p + ?l \<le> length ?b"
    using assms by (auto simp: pw_holds_def PacketWriter_remaining_def)
  then have "write_event ev w = Ok ?w"
    by (simp add: write_event_append pw_append_def encode_event_image add.commute)
  moreover have "pw_holds ?w hdr (evs @ [ev])"
    using assms(1) fit by (auto simp: pw_holds_def mod_simps)
  moreover have "length (pw_buf ?w) = length ?b" using fit by simp
  ultimately show thesis by (rule that)
qed

lemma packet_items_events:
  assumes "\<forall>ev\<in>set evs. event_wf ev" "drop pos buf = concat (map event_image evs) @ rest"
    and "pos \<le> length buf" "sq + length evs \<le> u64_max"
  shows "\<exists>ms. packet_items \<lparr>pi_buf = buf, pi_pos = pos, pi_sequence = sq, pi_remaining = length evs,
           pi_failed = False\<rparr> = Ok (map Inr ms) \<and>
         map fst ms = [sq..<sq + length evs] \<and> map (\<lambda>m. view_event (snd m)) ms = map Ok evs"
  using assms
proof (induction evs arbitrary: pos sq)
  case Nil
  show ?case by (subst packet_items.simps) (simp add: PacketMessageIter_next_def)
next
  case (Cons ev evs)
  let ?m = "event_message ev \<lparr>dec_buf = drop pos buf, dec_root_len = event_len ev - 8\<rparr>"
  let ?it = "\<lparr>pi_buf = buf, pi_pos = pos + event_len ev, pi_sequence = sq + 1,
              pi_remaining = length evs, pi_failed = False\<rparr>"
  have d: "drop pos buf = event_image ev @ concat (map event_image evs) @ rest" using Cons.prems by simp
  have dec: "decode_message (drop pos buf) = Ok ?m" unfolding d by (rule decode_event_image)
  have tot: "Message_total_len ?m = Ok (event_len ev)" unfolding d by (rule total_len_event_image)
  have view: "view_event ?m = Ok ev" unfolding d by (rule view_event_image) (use Cons.prems in simp)
  have step: "PacketMessageIter_next \<lparr>pi_buf = buf, pi_pos = pos, pi_sequence = sq,
      pi_remaining = length (ev # evs), pi_failed = False\<rparr> = Ok (Some (Inr (sq, ?m)), ?it)"
    using Cons.prems(3,4) by (simp add: PacketMessageIter_next_def dec tot)
  have "length (drop pos buf) \<ge> event_len ev" unfolding d by simp
  then have pos: "pos + event_len ev \<le> length buf" using event_len_ge [of ev] by (simp del: event_len_ge)
  have "drop (pos + event_len ev) buf = drop (event_len ev) (drop pos buf)" by (simp add: add.commute)
  also have "\<dots> = concat (map event_image evs) @ rest" unfolding d by simp
  finally have rest: "drop (pos + event_len ev) buf = concat (map event_image evs) @ rest" .
  obtain ms where ms: "packet_items ?it = Ok (map Inr ms)"
      "map fst ms = [sq + 1..<sq + 1 + length evs]" "map (\<lambda>m. view_event (snd m)) ms = map Ok evs"
    using Cons.IH [OF _ rest pos, of "sq + 1"] Cons.prems by auto
  have "packet_items \<lparr>pi_buf = buf, pi_pos = pos, pi_sequence = sq, pi_remaining = length (ev # evs),
      pi_failed = False\<rparr> = Ok (map Inr ((sq, ?m) # ms))"
    using ms(1) by (subst packet_items.simps) (simp only: step outcome.case prod.case option.case, simp)
  moreover have "map fst ((sq, ?m) # ms) = [sq..<sq + length (ev # evs)]"
    using ms(2) by (simp add: upt_conv_Cons del: upt_Suc)
  moreover have "map (\<lambda>m. view_event (snd m)) ((sq, ?m) # ms) = map Ok (ev # evs)"
    using ms(3) view by simp
  ultimately show ?case by blast
qed

definition datagram_image :: "nat \<Rightarrow> nat \<Rightarrow> nat \<Rightarrow> nat \<Rightarrow> feed_event list \<Rightarrow> bytes" where
  "datagram_image ch fl fs ts evs =
     packet_header_image ch fl fs ts (length evs) @ concat (map event_image evs)"

lemma PacketWriter_new_holds:
  assumes "24 \<le> length buf"
  obtains w where "PacketWriter_new buf ch fl fs ts = Ok w" and "pw_holds w (packet_header_image ch fl fs ts 0) []"
    and "length (pw_buf w) = length buf"
  using assms by (simp add: PacketWriter_new_def encode_packet_header_image pw_holds_def)

lemma write_events_hold:
  assumes "pw_holds w hdr evs" "sum_list (map event_len new) \<le> PacketWriter_remaining w"
  shows "\<exists>w'. ofold write_event new w = Ok w' \<and> pw_holds w' hdr (evs @ new) \<and>
           length (pw_buf w') = length (pw_buf w)"
  using assms
proof (induction new arbitrary: w evs)
  case (Cons ev new)
  then obtain v where v: "write_event ev w = Ok v" "pw_holds v hdr (evs @ [ev])"
      "length (pw_buf v) = length (pw_buf w)"
    using write_event_fits [of w hdr evs ev] by auto
  have "sum_list (map event_len new) \<le> PacketWriter_remaining v"
    using Cons.prems v by (auto simp: PacketWriter_remaining_def pw_holds_def)
  then show ?case using Cons.IH [OF v(2)] v by auto
qed auto

lemma PacketWriter_finish_image:
  assumes "pw_holds w (packet_header_image ch fl fs ts 0) evs" "length evs \<le> u16_max"
  obtains b where "PacketWriter_finish w = Ok (pw_pos w, b)" and "length b = length (pw_buf w)"
    and "take (pw_pos w) b = datagram_image ch fl fs ts evs"
proof -
  have w: "24 \<le> pw_pos w" "pw_pos w \<le> length (pw_buf w)" "pw_count w = length evs"
      "take (pw_pos w) (pw_buf w) = packet_header_image ch fl fs ts 0 @ concat (map event_image evs)"
    using assms by (auto simp: pw_holds_def)
  let ?b = "patch 4 (to_le 2 (length evs)) (pw_buf w)"
  have "PacketWriter_finish w = Ok (pw_pos w, ?b)"
    using w by (simp add: PacketWriter_finish_def put_u16_def access_in_range)
  moreover have "length ?b = length (pw_buf w)" using w by simp
  moreover have "take (pw_pos w) ?b = datagram_image ch fl fs ts evs"
    using w by (simp add: take_patch datagram_image_def packet_header_image_recount)
  ultimately show thesis by (rule that)
qed

lemma datagram_image_items:
  assumes "\<forall>ev\<in>set evs. event_wf ev" "length evs \<le> u16_max" "ch \<le> u8_max" "fl \<le> u8_max"
    and "fs + length evs \<le> u64_max" "ts \<le> u64_max"
  obtains ms where "datagram_items (datagram_image ch fl fs ts evs) = Ok (map Inr ms)"
    and "map fst ms = [fs..<fs + length evs]" and "map (\<lambda>m. view_event (snd m)) ms = map Ok evs"
proof -
  let ?d = "datagram_image ch fl fs ts evs"
  have "PacketReader_new ?d = Ok ?d" "PacketHeader_first_sequence ?d = Ok fs"
      "PacketHeader_message_count ?d = Ok (length evs)"
    using assms by (simp_all add: PacketReader_new_def datagram_image_def packet_header_image_fields)
  then have "datagram_items ?d = packet_items \<lparr>pi_buf = ?d, pi_pos = 24, pi_sequence = fs,
      pi_remaining = length evs, pi_failed = False\<rparr>"
    by (simp add: datagram_items_def PacketReader_messages_def)
  moreover have "drop 24 ?d = concat (map event_image evs) @ []" "24 \<le> length ?d"
    by (simp_all add: datagram_image_def)
  ultimately show thesis using packet_items_events [of evs 24 ?d "[]" fs] assms that by auto
qed

lemma view_event_no_panic:
  assumes "decode_message buf = Ok m"
  shows "view_event m \<noteq> Panic"
  using assms
  by (auto simp: decode_message_def outcome_simps wrap_defs wrap_block_Ok_iff feed_accessor_defs le_defs
      access_in_range split: if_splits)

lemma packet_items_shape:
  assumes "pi_pos it \<le> length (pi_buf it)" "\<not> pi_failed it" "pi_sequence it \<le> u64_max"
  shows "\<exists>ms es. packet_items it = Ok (map Inr ms @ map Inl es) \<and> length es \<le> 1 \<and>
     map fst ms = map (\<lambda>i. wrap_add_u64 (pi_sequence it) i) [0..<length ms] \<and>
     length ms \<le> pi_remaining it \<and> (es = [] \<longleftrightarrow> length ms = pi_remaining it) \<and>
     list_all (\<lambda>m. view_event (snd m) \<noteq> Panic) ms"
  using assms
proof (induction "pi_remaining it" arbitrary: it)
  case 0
  then have "packet_items it = Ok []" by (subst packet_items.simps) (simp add: PacketMessageIter_next_def)
  with 0 show ?case by (intro exI [of _ "[]"]) simp
next
  case (Suc n)
  show ?case
  proof (cases "decode_message (drop (pi_pos it) (pi_buf it))")
    case (Ok m)
    obtain l where l: "Message_total_len m = Ok l" "l \<le> length (drop (pi_pos it) (pi_buf it))"
      using Message_total_len_bound [OF Ok] by metis
    let ?it = "it\<lparr>pi_pos := pi_pos it + l, pi_sequence := wrap_add_u64 (pi_sequence it) 1,
                  pi_remaining := pi_remaining it - 1\<rparr>"
    have items: "packet_items it = obind (packet_items ?it) (\<lambda>xs. Ok (Inr (pi_sequence it, m) # xs))"
      using Suc Ok l by (subst packet_items.simps) (simp add: PacketMessageIter_next_def)
    have "n = pi_remaining ?it" "pi_pos ?it \<le> length (pi_buf ?it)" "\<not> pi_failed ?it"
        "pi_sequence ?it \<le> u64_max"
      using Suc l by auto
    from Suc.hyps(1) [OF this] obtain ms es where ms: "packet_items ?it = Ok (map Inr ms @ map Inl es)"
        "length es \<le> 1" "map fst ms = map (wrap_add_u64 (pi_sequence ?it)) [0..<length ms]"
        "length ms \<le> pi_remaining ?it" "es = [] \<longleftrightarrow> length ms = pi_remaining ?it"
        "list_all (\<lambda>m. view_event (snd m) \<noteq> Panic) ms"
      by blast
    have "map fst ((pi_sequence it, m) # ms)
        = map (wrap_add_u64 (pi_sequence it)) [0..<length ((pi_sequence it, m) # ms)]"
      using ms(3) Suc.prems(3)
      by (simp add: upt_conv_Cons map_Suc_upt [symmetric] del: upt_Suc) (simp add: wrap_add_u64_def mod_simps)
    moreover have "packet_items it = Ok (map Inr ((pi_sequence it, m) # ms) @ map Inl es)"
      using items ms(1) by simp
    ultimately show ?thesis
      using ms Suc.hyps(2) view_event_no_panic [OF Ok]
      by (intro exI [of _ "(pi_sequence it, m) # ms"] exI [of _ es]) auto
  next
    case (Err e)
    have "packet_items (it\<lparr>pi_failed := True\<rparr>) = Ok []"
      by (subst packet_items.simps) (simp add: PacketMessageIter_next_def)
    then have "packet_items it = Ok [Inl e]"
      using Suc Err by (subst packet_items.simps) (simp add: PacketMessageIter_next_def)
    then show ?thesis using Suc.hyps(2) by (intro exI [of _ "[]"] exI [of _ "[e]"]) auto
  qed simp
qed

section \<open>Properties\<close>

text \<open>C27: round trip of a whole datagram. Starting a \<open>PacketWriter\<close> on a buffer with enough room,
  appending any list of well-formed feed events with the writer's methods and finishing always
  succeeds; the datagram it leaves decodes with \<open>PacketReader\<close> to exactly those events, in order,
  message \<open>i\<close> carrying sequence \<open>firstSequence + i\<close>, with the channel, flags and timestamp written.\<close>

theorem datagram_round_trip:
  assumes "\<forall>ev\<in>set evs. event_wf ev" "length evs \<le> u16_max" "ch \<le> u8_max" "fl \<le> u8_max"
    and "fs + length evs \<le> u64_max" "ts \<le> u64_max"
    and "24 + sum_list (map event_len evs) \<le> length buf"
  shows "\<exists>w n b ms. obind (PacketWriter_new buf ch fl fs ts) (ofold write_event evs) = Ok w \<and>
     PacketWriter_finish w = Ok (n, b) \<and> n = 24 + sum_list (map event_len evs) \<and> length b = length buf \<and>
     PacketHeader_channel (take n b) = Ok ch \<and> PacketHeader_flags (take n b) = Ok fl \<and>
     PacketHeader_send_timestamp_ns (take n b) = Ok ts \<and>
     datagram_items (take n b) = Ok (map Inr ms) \<and>
     map fst ms = [fs..<fs + length evs] \<and> map (\<lambda>m. view_event (snd m)) ms = map Ok evs"
proof -
  obtain w0 where w0: "PacketWriter_new buf ch fl fs ts = Ok w0"
      "pw_holds w0 (packet_header_image ch fl fs ts 0) []" "length (pw_buf w0) = length buf"
    using PacketWriter_new_holds [of buf ch fl fs ts] assms by auto
  have "sum_list (map event_len evs) \<le> PacketWriter_remaining w0"
    using w0 assms by (auto simp: PacketWriter_remaining_def pw_holds_def)
  from write_events_hold [OF w0(2) this] obtain w where w: "ofold write_event evs w0 = Ok w"
      "pw_holds w (packet_header_image ch fl fs ts 0) evs" "length (pw_buf w) = length buf"
    using w0 by auto
  obtain b where b: "PacketWriter_finish w = Ok (pw_pos w, b)" "length b = length buf"
      "take (pw_pos w) b = datagram_image ch fl fs ts evs"
    using PacketWriter_finish_image [OF w(2)] assms w(3) by metis
  obtain ms where ms: "datagram_items (datagram_image ch fl fs ts evs) = Ok (map Inr ms)"
      "map fst ms = [fs..<fs + length evs]" "map (\<lambda>m. view_event (snd m)) ms = map Ok evs"
    using datagram_image_items [of evs ch fl fs ts] assms by metis
  have "pw_pos w = 24 + sum_list (map event_len evs)" using w(2) by (simp add: pw_holds_def)
  moreover have "PacketHeader_channel (take (pw_pos w) b) = Ok ch" "PacketHeader_flags (take (pw_pos w) b) = Ok fl"
      "PacketHeader_send_timestamp_ns (take (pw_pos w) b) = Ok ts"
    using assms by (simp_all add: b(3) datagram_image_def packet_header_image_fields)
  ultimately show ?thesis using w0(1) w(1) b ms by (intro exI [of _ w] exI [of _ "pw_pos w"] exI [of _ b] exI [of _ ms]) simp
qed

theorem datagram_round_trip_witness:
  "\<exists>w n b ms. obind (PacketWriter_new (replicate 100 0) 1 0 7 42)
       (ofold write_event [EvAdd 5 (- 3) 10 1 Ask, EvDelete 5 1 Ask]) = Ok w \<and>
     PacketWriter_finish w = Ok (n, b) \<and> n = 76 \<and> length b = 100 \<and>
     PacketHeader_channel (take n b) = Ok 1 \<and> PacketHeader_flags (take n b) = Ok 0 \<and>
     PacketHeader_send_timestamp_ns (take n b) = Ok 42 \<and> datagram_items (take n b) = Ok (map Inr ms) \<and>
     map fst ms = [7, 8] \<and>
     map (\<lambda>m. view_event (snd m)) ms = [Ok (EvAdd 5 (- 3) 10 1 Ask), Ok (EvDelete 5 1 Ask)]"
  using datagram_round_trip [of "[EvAdd 5 (- 3) 10 1 Ask, EvDelete 5 1 Ask]" 1 0 7 42 "replicate 100 0"]
  by (simp add: in_i64_def upt_rec)

text \<open>C29: decoding is total on arbitrary bytes. Whatever buffer arrives, walking it never panics:
  either the packet header is refused, or the items are messages with consecutive sequence numbers
  from \<open>firstSequence\<close> followed by at most one error, and the error is absent exactly when all
  \<open>messageCount\<close> messages were decoded (a truncated datagram never looks like a short one). The
  field accessors of the decoded messages do not panic either.\<close>

theorem datagram_items_total:
  "case datagram_items buf of
     Panic \<Rightarrow> False
   | Err e \<Rightarrow> PacketHeader_wrap buf = Err e
   | Ok xs \<Rightarrow> \<exists>fs n ms es. PacketHeader_first_sequence buf = Ok fs \<and> PacketHeader_message_count buf = Ok n \<and>
       xs = map Inr ms @ map Inl es \<and> length es \<le> 1 \<and> length ms \<le> n \<and> (es = [] \<longleftrightarrow> length ms = n) \<and>
       map fst ms = map (\<lambda>i. (fs + i) mod 2 ^ 64) [0..<length ms] \<and>
       list_all (\<lambda>m. view_event (snd m) \<noteq> Panic) ms"
proof (cases "PacketHeader_wrap buf")
  case (Ok b)
  then have b: "b = buf" "24 \<le> length buf"
    by (auto simp: PacketHeader_wrap_def outcome_simps split: if_splits)
  define fs n where "fs = from_le (window 8 8 buf)" and "n = from_le (window 4 2 buf)"
  have hdr: "PacketHeader_first_sequence buf = Ok fs" "PacketHeader_message_count buf = Ok n"
    using b by (simp_all add: PacketHeader_first_sequence_def PacketHeader_message_count_def
        le_defs access_in_range fs_def n_def)
  have "fs \<le> u64_max" using from_le_bound [of "window 8 8 buf"] b by (simp add: fs_def)
  then obtain ms es where "datagram_items buf = Ok (map Inr ms @ map Inl es)" "length es \<le> 1"
      "map fst ms = map (wrap_add_u64 fs) [0..<length ms]" "length ms \<le> n"
      "es = [] \<longleftrightarrow> length ms = n" "list_all (\<lambda>m. view_event (snd m) \<noteq> Panic) ms"
    using packet_items_shape [of "\<lparr>pi_buf = buf, pi_pos = 24, pi_sequence = fs, pi_remaining = n,
        pi_failed = False\<rparr>"] b Ok hdr
    by (auto simp add: datagram_items_def PacketReader_new_def PacketReader_messages_def)
  then show ?thesis using hdr
    by (simp add: wrap_add_u64_def [abs_def]) (intro exI [of _ ms] exI [of _ es], simp)
next
  case (Err e)
  then show ?thesis by (simp add: datagram_items_def PacketReader_new_def)
next
  case Panic
  then show ?thesis
    by (auto simp: PacketHeader_wrap_def PacketHeader_schema_id_def le_u16_def access_in_range split: if_splits)
qed

end
