(* ===== verification/OrderCodec.thy ===== *)
theory OrderCodec
  imports Packet
begin

text \<open>
  The order-path messages of \<open>crates/wire/src/generated.rs\<close>, one per shared-memory ring slot:
  round trips through \<open>decode_order_path_message\<close>, and the separation of the two wires.
\<close>

datatype order_event =
    OpNew nat int nat nat side
  | OpCancel nat nat nat side
  | OpExec nat nat nat int nat nat nat side exec_type reject_reason
  | OpReconcile nat

fun encode_order_event :: "bytes \<Rightarrow> order_event \<Rightarrow> (wire_error, nat \<times> bytes) outcome" where
  "encode_order_event b (OpNew c p q y s) = encode_new_order b c p q y s"
| "encode_order_event b (OpCancel c g y s) = encode_cancel_order b c g y s"
| "encode_order_event b (OpExec c x t p q l y s e r) = encode_exec_report b c x t p q l y s e r"
| "encode_order_event b (OpReconcile i) = encode_reconcile_request b i"

fun view_order_event :: "order_path_message \<Rightarrow> (wire_error, order_event) outcome" where
  "view_order_event (NewOrder d) =
     obind (NewOrder_client_order_id d) (\<lambda>c. obind (NewOrder_price d) (\<lambda>p. obind (NewOrder_quantity d) (\<lambda>q.
     obind (NewOrder_symbol_id d) (\<lambda>y. obind (NewOrder_side d) (\<lambda>s. Ok (OpNew c p q y s))))))"
| "view_order_event (CancelOrder d) =
     obind (CancelOrder_client_order_id d) (\<lambda>c. obind (CancelOrder_orig_client_order_id d) (\<lambda>g.
     obind (CancelOrder_symbol_id d) (\<lambda>y. obind (CancelOrder_side d) (\<lambda>s. Ok (OpCancel c g y s)))))"
| "view_order_event (ExecReport d) =
     obind (ExecReport_client_order_id d) (\<lambda>c. obind (ExecReport_exchange_order_id d) (\<lambda>x.
     obind (ExecReport_trade_id d) (\<lambda>t. obind (ExecReport_price d) (\<lambda>p. obind (ExecReport_quantity d) (\<lambda>q.
     obind (ExecReport_leaves_quantity d) (\<lambda>l. obind (ExecReport_symbol_id d) (\<lambda>y.
     obind (ExecReport_side d) (\<lambda>s. obind (ExecReport_exec_type d) (\<lambda>e.
     obind (ExecReport_reject_reason d) (\<lambda>r. Ok (OpExec c x t p q l y s e r)))))))))))"
| "view_order_event (ReconcileRequest d) = obind (ReconcileRequest_request_id d) (\<lambda>i. Ok (OpReconcile i))"

fun order_event_wf :: "order_event \<Rightarrow> bool" where
  "order_event_wf (OpNew c p q y s) \<longleftrightarrow> c \<le> u64_max \<and> in_i64 p \<and> q \<le> u32_max \<and> y \<le> u16_max"
| "order_event_wf (OpCancel c g y s) \<longleftrightarrow> c \<le> u64_max \<and> g \<le> u64_max \<and> y \<le> u16_max"
| "order_event_wf (OpExec c x t p q l y s e r) \<longleftrightarrow> c \<le> u64_max \<and> x \<le> u64_max \<and> t \<le> u64_max \<and> in_i64 p \<and>
     q \<le> u32_max \<and> l \<le> u32_max \<and> y \<le> u16_max"
| "order_event_wf (OpReconcile i) \<longleftrightarrow> i \<le> u64_max"

fun order_event_len :: "order_event \<Rightarrow> nat" where
  "order_event_len (OpNew c p q y s) = 32"
| "order_event_len (OpCancel c g y s) = 32"
| "order_event_len (OpExec c x t p q l y s e r) = 56"
| "order_event_len (OpReconcile i) = 24"

fun order_event_template :: "order_event \<Rightarrow> nat" where
  "order_event_template (OpNew c p q y s) = 8"
| "order_event_template (OpCancel c g y s) = 9"
| "order_event_template (OpExec c x t p q l y s e r) = 10"
| "order_event_template (OpReconcile i) = 11"

fun order_event_image :: "order_event \<Rightarrow> bytes" where
  "order_event_image (OpNew c p q y s) =
     patch 30 (to_le 1 (Side_to_u8 s)) (patch 28 (to_le 2 y) (patch 24 (to_le 4 q)
       (patch 16 (i64_to_le p) (patch 8 (to_le 8 c) (header_image 24 8 32)))))"
| "order_event_image (OpCancel c g y s) =
     patch 26 (to_le 1 (Side_to_u8 s)) (patch 24 (to_le 2 y) (patch 16 (to_le 8 g)
       (patch 8 (to_le 8 c) (header_image 24 9 32))))"
| "order_event_image (OpExec c x t p q l y s e r) =
     patch 52 (to_le 1 (RejectReason_to_u8 r)) (patch 51 (to_le 1 (ExecType_to_u8 e))
       (patch 50 (to_le 1 (Side_to_u8 s)) (patch 48 (to_le 2 y) (patch 44 (to_le 4 l) (patch 40 (to_le 4 q)
       (patch 32 (i64_to_le p) (patch 24 (to_le 8 t) (patch 16 (to_le 8 x) (patch 8 (to_le 8 c)
       (header_image 48 10 56))))))))))"
| "order_event_image (OpReconcile i) = patch 8 (to_le 8 i) (header_image 16 11 24)"

fun order_event_message :: "order_event \<Rightarrow> decoder \<Rightarrow> order_path_message" where
  "order_event_message (OpNew c p q y s) d = NewOrder d"
| "order_event_message (OpCancel c g y s) d = CancelOrder d"
| "order_event_message (OpExec c x t p q l y s e r) d = ExecReport d"
| "order_event_message (OpReconcile i) d = ReconcileRequest d"

lemmas order_encoder_defs = encode_new_order_def encode_cancel_order_def encode_exec_report_def
  encode_reconcile_request_def

lemmas order_accessor_defs = NewOrder_client_order_id_def NewOrder_price_def NewOrder_quantity_def
  NewOrder_symbol_id_def NewOrder_side_raw_def NewOrder_side_def CancelOrder_client_order_id_def
  CancelOrder_orig_client_order_id_def CancelOrder_symbol_id_def CancelOrder_side_raw_def
  CancelOrder_side_def ExecReport_client_order_id_def ExecReport_exchange_order_id_def
  ExecReport_trade_id_def ExecReport_price_def ExecReport_quantity_def ExecReport_leaves_quantity_def
  ExecReport_symbol_id_def ExecReport_side_raw_def ExecReport_side_def ExecReport_exec_type_raw_def
  ExecReport_exec_type_def ExecReport_reject_reason_raw_def ExecReport_reject_reason_def
  ReconcileRequest_request_id_def

lemma length_order_event_image [simp]: "length (order_event_image ev) = order_event_len ev"
  by (cases ev) simp_all

lemma order_event_len_ge: "8 \<le> order_event_len ev"
  by (cases ev) simp_all

lemma encode_order_event_image:
  "encode_order_event b ev =
     (if length b < order_event_len ev then Err (ShortBuffer (order_event_len ev) (length b))
      else Ok (order_event_len ev, order_event_image ev @ drop (order_event_len ev) b))"
  by (cases ev)
     (simp_all add: order_encoder_defs Let_def access_in_range fill_zero_front write_message_header_image put_defs)

lemma order_event_image_header:
  "window 0 2 (order_event_image ev) = to_le 2 (order_event_len ev - 8)"
  "window 2 2 (order_event_image ev) = to_le 2 (order_event_template ev)"
  "window 4 2 (order_event_image ev) = to_le 2 SCHEMA_ID"
  by (cases ev; simp add: buffer_simps)+

lemma decode_order_by_header:
  assumes "order_event_len ev \<le> length b" "from_le (window 0 2 b) = order_event_len ev - 8"
    and "from_le (window 2 2 b) = order_event_template ev" "from_le (window 4 2 b) = SCHEMA_ID"
  shows "decode_order_path_message b =
     Ok (order_event_message ev \<lparr>dec_buf = b, dec_root_len = order_event_len ev - 8\<rparr>)"
  using assms
  by (cases ev; simp add: decode_order_path_message_def wrap_defs wrap_block_def Let_def message_header_defs
      le_u16_def access_in_range)

lemma order_image_windows:
  "from_le (window 0 2 (order_event_image ev @ rest)) = order_event_len ev - 8"
  "from_le (window 2 2 (order_event_image ev @ rest)) = order_event_template ev"
  "from_le (window 4 2 (order_event_image ev @ rest)) = SCHEMA_ID"
proof -
  have win: "window k 2 (order_event_image ev @ rest) = window k 2 (order_event_image ev)" if "k \<le> 6" for k
    using that order_event_len_ge [of ev] by (intro window_append1) simp
  show "from_le (window 0 2 (order_event_image ev @ rest)) = order_event_len ev - 8"
    by (simp only: win order_event_image_header) (cases ev; simp)
  show "from_le (window 2 2 (order_event_image ev @ rest)) = order_event_template ev"
    by (simp only: win order_event_image_header) (cases ev; simp)
  show "from_le (window 4 2 (order_event_image ev @ rest)) = SCHEMA_ID"
    by (simp only: win order_event_image_header) simp
qed

lemma view_order_event_image:
  assumes "order_event_wf ev"
  shows "view_order_event (order_event_message ev \<lparr>dec_buf = order_event_image ev @ rest, dec_root_len = n\<rparr>) = Ok ev"
  using assms by (cases ev) (simp_all add: order_accessor_defs image_simps unat_octet)

section \<open>Properties\<close>

text \<open>C33: order-path round trip and separation of the wires. An encoder refuses a short buffer with the
  length it needs; otherwise what it writes decodes to the same order-path message, and the feed
  decoder refuses it as an unknown template, so neither wire reads the other's traffic.\<close>

theorem order_path_round_trip:
  assumes "order_event_wf ev"
  shows "case encode_order_event buf ev of
      Ok (n, b) \<Rightarrow> n = order_event_len ev \<and> length b = length buf \<and>
        (\<exists>m. decode_order_path_message b = Ok m \<and> view_order_event m = Ok ev) \<and>
        decode_message b = Err (UnknownTemplate (order_event_template ev))
    | Err e \<Rightarrow> length buf < order_event_len ev \<and> e = ShortBuffer (order_event_len ev) (length buf)
    | Panic \<Rightarrow> False"
proof (cases "length buf < order_event_len ev")
  case False
  let ?b = "order_event_image ev @ drop (order_event_len ev) buf"
  have dec: "decode_order_path_message ?b =
      Ok (order_event_message ev \<lparr>dec_buf = ?b, dec_root_len = order_event_len ev - 8\<rparr>)"
    by (rule decode_order_by_header) (simp_all only: order_image_windows, simp)
  have "MessageHeader_wrap ?b = Ok ?b" "MessageHeader_schema_id ?b = Ok 1"
      "MessageHeader_template_id ?b = Ok (order_event_template ev)"
    using order_event_len_ge [of ev] order_image_windows [of ev "drop (order_event_len ev) buf"]
    by (auto simp: message_header_defs le_u16_def le_u_def)
  then have "decode_message ?b = Err (UnknownTemplate (order_event_template ev))"
    by (cases ev) (simp_all add: decode_message_def)
  then show ?thesis
    using False dec view_order_event_image [OF assms] by (auto simp: encode_order_event_image)
qed (simp add: encode_order_event_image)

theorem order_path_round_trip_witness:
  "\<exists>n b m. encode_order_event (replicate 64 0) (OpExec 7 8 9 (- 5) 10 0 2 Ask Fill NotRejected) = Ok (n, b) \<and>
     decode_order_path_message b = Ok m \<and> view_order_event m = Ok (OpExec 7 8 9 (- 5) 10 0 2 Ask Fill NotRejected) \<and>
     decode_message b = Err (UnknownTemplate 10)"
  using order_path_round_trip [of "OpExec 7 8 9 (- 5) 10 0 2 Ask Fill NotRejected" "replicate 64 0"]
  by (auto simp: in_i64_def split: outcome.splits)

end
