(* ===== verification/SnapshotCodec.thy ===== *)
theory SnapshotCodec
  imports Packet
begin

text \<open>
  The repeating group of \<open>Snapshot\<close>: \<open>SnapshotEncoder\<close> against \<open>SnapshotDecoder\<close> and its
  iterator (\<open>crates/wire/src/generated.rs\<close>). The encoder's two-phase protocol is shown to produce
  a buffer the decoder reads back entry by entry, and the behaviour of the decoder on a foreign
  entry length is made explicit.
\<close>

section \<open>Walking the group\<close>

function orders_entries :: "orders_iter \<Rightarrow> (wire_error, bytes list) outcome" where
  "orders_entries it =
     (case SnapshotOrdersIter_next it of
        Ok None \<Rightarrow> Ok []
      | Ok (Some (e, it')) \<Rightarrow> obind (orders_entries it') (\<lambda>es. Ok (e # es))
      | Err x \<Rightarrow> Err x
      | Panic \<Rightarrow> Panic)"
  by pat_completeness auto
termination
  by (relation "measure it_remaining")
     (auto simp: SnapshotOrdersIter_next_def Let_def split: if_splits)

declare orders_entries.simps [simp del]

definition snapshot_entries :: "decoder \<Rightarrow> (wire_error, bytes list) outcome" where
  "snapshot_entries d = obind (Snapshot_orders d) orders_entries"

text \<open>One resting order as a group entry carries it.\<close>

datatype snapshot_order = SnapOrder (so_id: nat) (so_price: int) (so_qty: nat) (so_side: side)

definition snap_order_wf :: "snapshot_order \<Rightarrow> bool" where
  "snap_order_wf x \<longleftrightarrow> so_id x \<le> u64_max \<and> in_i64 (so_price x) \<and> so_qty x \<le> u32_max"

definition view_entry :: "bytes \<Rightarrow> (wire_error, snapshot_order) outcome" where
  "view_entry e = obind (SnapshotOrder_order_id e) (\<lambda>i. obind (SnapshotOrder_price e) (\<lambda>p.
     obind (SnapshotOrder_quantity e) (\<lambda>q. obind (SnapshotOrder_side e) (\<lambda>s. Ok (SnapOrder i p q s)))))"

definition push_snap_order :: "snapshot_order \<Rightarrow> snapshot_encoder \<Rightarrow> (wire_error, snapshot_encoder) outcome" where
  "push_snap_order x se = SnapshotEncoder_push_order se (so_id x) (so_price x) (so_qty x) (so_side x)"

definition encode_snapshot :: "bytes \<Rightarrow> nat \<Rightarrow> nat \<Rightarrow> nat \<Rightarrow> snapshot_order list \<Rightarrow> (wire_error, nat \<times> bytes) outcome" where
  "encode_snapshot buf last_sequence symbol_id flags xs =
     obind (SnapshotEncoder_start buf last_sequence symbol_id flags) (\<lambda>se.
     obind (ofold push_snap_order xs se) SnapshotEncoder_finish)"

section \<open>Images\<close>

definition snapshot_head_image :: "nat \<Rightarrow> nat \<Rightarrow> nat \<Rightarrow> nat \<Rightarrow> bytes" where
  "snapshot_head_image ls y fl n = patch 22 (to_le 2 n) (patch 20 (to_le 2 24) (patch 18 (to_le 1 fl)
     (patch 16 (to_le 2 y) (patch 8 (to_le 8 ls) (header_image 12 5 24)))))"

definition entry_image :: "snapshot_order \<Rightarrow> bytes" where
  "entry_image x = patch 20 (to_le 1 (Side_to_u8 (so_side x))) (patch 16 (to_le 4 (so_qty x))
     (patch 8 (i64_to_le (so_price x)) (patch 0 (to_le 8 (so_id x)) (replicate 24 0))))"

lemma length_snapshot_images [simp]:
  "length (snapshot_head_image ls y fl n) = 24" "length (entry_image x) = 24"
  by (simp_all add: snapshot_head_image_def entry_image_def)

lemma patch_append_right:
  "length a \<le> k \<Longrightarrow> patch k bs (a @ c) = a @ patch (k - length a) bs c"
  by (simp add: patch_def)

lemma view_entry_image: "snap_order_wf x \<Longrightarrow> view_entry (entry_image x) = Ok x"
  by (cases x) (simp add: view_entry_def SnapshotOrder_order_id_def SnapshotOrder_price_def
      SnapshotOrder_quantity_def SnapshotOrder_side_def SnapshotOrder_side_raw_def image_simps
      entry_image_def snap_order_wf_def unat_octet)

definition se_holds :: "snapshot_encoder \<Rightarrow> bytes \<Rightarrow> snapshot_order list \<Rightarrow> bool" where
  "se_holds se hdr xs \<longleftrightarrow> length hdr = 24 \<and> se_pos se = 24 + 24 * length xs \<and> se_pos se \<le> length (se_buf se) \<and>
     take (se_pos se) (se_buf se) = hdr @ concat (map entry_image xs) \<and> se_count se = length xs"

lemma patch_window_id: "window k (length bs) b = bs \<Longrightarrow> patch k bs b = b"
  by (metis append.assoc append_take_drop_id drop_drop add.commute patch_def window_def)

lemma snapshot_head_image_zero:
  "snapshot_head_image ls y fl 0 = patch 20 (to_le 2 24) (patch 18 (to_le 1 fl)
     (patch 16 (to_le 2 y) (patch 8 (to_le 8 ls) (header_image 12 5 24))))"
  unfolding snapshot_head_image_def
  by (rule patch_window_id) (simp add: buffer_simps header_image_def, simp add: window_def numeral_2_eq_2)

lemma SnapshotEncoder_start_holds:
  assumes "24 \<le> length buf"
  obtains se where "SnapshotEncoder_start buf ls y fl = Ok se" and "length (se_buf se) = length buf"
    and "se_holds se (snapshot_head_image ls y fl 0) []"
  using assms
  by (simp add: SnapshotEncoder_start_def Let_def fill_zero_front write_message_header_image
        access_in_range put_defs se_holds_def snapshot_head_image_zero)

lemma put_relative:
  assumes "length pre = p"
  shows "n \<le> length e \<Longrightarrow> put_u n (pre @ e @ rest) p v = Ok (pre @ patch 0 (to_le n v) e @ rest)"
    and "j + n \<le> length e \<Longrightarrow> put_u n (pre @ e @ rest) (p + j) v = Ok (pre @ patch j (to_le n v) e @ rest)"
    and "j + 8 \<le> length e \<Longrightarrow> put_i64 (pre @ e @ rest) (p + j) i = Ok (pre @ patch j (i64_to_le i) e @ rest)"
  using assms by (auto simp: put_u_def put_i64_def patch_append_right)

lemma push_snap_order_holds:
  assumes "se_holds se hdr xs" "24 \<le> length (se_buf se) - se_pos se" "length xs < u16_max"
  obtains se' where "push_snap_order x se = Ok se'" and "se_holds se' hdr (xs @ [x])"
    and "length (se_buf se') = length (se_buf se)"
proof -
  define p pre rest where "p = se_pos se" and "pre = take p (se_buf se)" and "rest = drop (p + 24) (se_buf se)"
  let ?se = "se\<lparr>se_buf := pre @ entry_image x @ rest, se_pos := p + 24, se_count := se_count se + 1\<rparr>"
  have fit: "p + 24 \<le> length (se_buf se)" "se_count se \<noteq> u16_max"
    using assms by (auto simp: p_def se_holds_def)
  then have len: "length pre = p" by (simp add: pre_def)
  have "fill_zero p 24 (se_buf se) = (Ok (pre @ replicate 24 0 @ rest) :: (wire_error, bytes) outcome)"
    using fit by (simp add: fill_zero_in_range patch_def pre_def rest_def)
  then have "push_snap_order x se = Ok ?se"
    using fit unfolding push_snap_order_def SnapshotEncoder_push_order_def p_def [symmetric] Let_def
    by (simp add: put_defs put_relative [OF len] entry_image_def)
  moreover have "se_holds ?se hdr (xs @ [x])"
    using assms(1) len by (auto simp: se_holds_def pre_def p_def)
  moreover have "length (se_buf ?se) = length (se_buf se)"
    using len fit by (simp add: rest_def)
  ultimately show thesis by (rule that)
qed

lemma push_all_holds:
  assumes "se_holds se hdr xs" "24 * length ys \<le> length (se_buf se) - se_pos se" "length xs + length ys \<le> u16_max"
  shows "\<exists>se'. ofold push_snap_order ys se = Ok se' \<and> se_holds se' hdr (xs @ ys) \<and>
           length (se_buf se') = length (se_buf se)"
  using assms
proof (induction ys arbitrary: se xs)
  case (Cons y ys)
  then obtain v where v: "push_snap_order y se = Ok v" "se_holds v hdr (xs @ [y])"
      "length (se_buf v) = length (se_buf se)"
    using push_snap_order_holds [of se hdr xs y] by auto
  have "24 * length ys \<le> length (se_buf v) - se_pos v"
    using Cons.prems v by (auto simp: se_holds_def)
  then show ?case using Cons.IH [OF v(2)] Cons.prems v by auto
qed auto

lemma snapshot_head_image_recount:
  "patch 22 (to_le 2 m) (snapshot_head_image ls y fl n) = snapshot_head_image ls y fl m"
  by (simp add: snapshot_head_image_def patch_twice)

definition snapshot_image :: "nat \<Rightarrow> nat \<Rightarrow> nat \<Rightarrow> snapshot_order list \<Rightarrow> bytes" where
  "snapshot_image ls y fl xs = snapshot_head_image ls y fl (length xs) @ concat (map entry_image xs)"

lemma length_snapshot_image [simp]: "length (snapshot_image ls y fl xs) = 24 + 24 * length xs"
  by (induction xs) (auto simp: snapshot_image_def)

lemma encode_snapshot_image:
  assumes "24 + 24 * length xs \<le> length buf" "length xs \<le> u16_max"
  obtains b where "encode_snapshot buf ls y fl xs = Ok (24 + 24 * length xs, b)" and "length b = length buf"
    and "take (24 + 24 * length xs) b = snapshot_image ls y fl xs"
proof -
  obtain s0 where s0: "SnapshotEncoder_start buf ls y fl = Ok s0" "length (se_buf s0) = length buf"
      "se_holds s0 (snapshot_head_image ls y fl 0) []"
    using SnapshotEncoder_start_holds [of buf ls y fl] assms by auto
  then have "24 * length xs \<le> length (se_buf s0) - se_pos s0" using assms by (simp add: se_holds_def)
  from push_all_holds [OF s0(3) this] obtain se where se: "ofold push_snap_order xs s0 = Ok se"
      "se_holds se (snapshot_head_image ls y fl 0) xs" "length (se_buf se) = length buf"
    using assms s0 by auto
  let ?n = "24 + 24 * length xs" and ?b = "patch 22 (to_le 2 (length xs)) (se_buf se)"
  have pos: "se_pos se = ?n" "se_count se = length xs"
      "take ?n (se_buf se) = snapshot_head_image ls y fl 0 @ concat (map entry_image xs)"
    using se(2) by (auto simp: se_holds_def)
  have "encode_snapshot buf ls y fl xs = Ok (?n, ?b)"
    using s0 se pos assms
    by (simp add: encode_snapshot_def SnapshotEncoder_finish_def put_u16_def access_in_range)
  moreover have "length ?b = length buf" using se assms by simp
  moreover have "take ?n ?b = snapshot_image ls y fl xs"
    using se assms pos by (simp add: take_patch snapshot_image_def snapshot_head_image_recount)
  ultimately show thesis by (rule that)
qed

lemma snapshot_head_fields:
  fixes rest :: bytes
  assumes "ls \<le> u64_max" "y \<le> u16_max" "fl \<le> u8_max" "n \<le> u16_max"
  defines "b \<equiv> snapshot_head_image ls y fl n @ rest"
  shows "from_le (window 0 2 b) = 12" "from_le (window 2 2 b) = 5" "from_le (window 4 2 b) = 1"
    "from_le (window 8 8 b) = ls" "from_le (window 16 2 b) = y" "from_le (window 18 1 b) = fl"
    "from_le (window 20 2 b) = 24" "from_le (window 22 2 b) = n"
  using assms(1-4) unfolding b_def
  by (simp_all add: buffer_simps window_append1 snapshot_head_image_def unat_octet)

lemma orders_entries_image:
  assumes "drop pos buf = concat (map entry_image xs) @ rest" "pos \<le> length buf"
  shows "orders_entries \<lparr>it_buf = buf, it_pos = pos, it_block_len = 24, it_remaining = length xs\<rparr>
     = Ok (map entry_image xs)"
  using assms
proof (induction xs arbitrary: pos)
  case Nil
  show ?case by (subst orders_entries.simps) (simp add: SnapshotOrdersIter_next_def)
next
  case (Cons x xs)
  have d: "drop pos buf = entry_image x @ concat (map entry_image xs) @ rest" using Cons.prems by simp
  then have "length (drop pos buf) \<ge> 24" by simp
  then have pos: "pos + 24 \<le> length buf" using Cons.prems(2) by simp
  have win: "window pos 24 buf = entry_image x" by (simp add: window_def d)
  have "drop (pos + 24) buf = drop 24 (drop pos buf)" by (simp add: add.commute)
  then have rest: "drop (pos + 24) buf = concat (map entry_image xs) @ rest" by (simp add: d)
  show ?case using pos win Cons.IH [OF rest pos]
    by (subst orders_entries.simps) (simp add: SnapshotOrdersIter_next_def Let_def)
qed

lemma Snapshot_wrap_image:
  fixes rest :: bytes
  assumes "ls \<le> u64_max" "y \<le> u16_max" "fl \<le> u8_max" "length xs \<le> u16_max"
  defines "d \<equiv> \<lparr>dec_buf = snapshot_image ls y fl xs @ rest, dec_root_len = 12\<rparr>"
  shows "decode_message (dec_buf d) = Ok (Snapshot d)"
    and "Message_total_len (Snapshot d) = Ok (24 + 24 * length xs)"
    and "Snapshot_last_sequence d = Ok ls" "Snapshot_symbol_id d = Ok y" "Snapshot_flags d = Ok fl"
    and "snapshot_entries d = Ok (map entry_image xs)"
proof -
  let ?tail = "concat (map entry_image xs) @ rest"
  let ?b = "snapshot_head_image ls y fl (length xs) @ ?tail"
  have b: "dec_buf d = ?b" "dec_root_len d = 12" by (simp_all add: d_def snapshot_image_def)
  have dd: "\<lparr>dec_buf = ?b, dec_root_len = 12\<rparr> = d" by (simp add: d_def snapshot_image_def)
  have len: "length ?b = 24 + 24 * length xs + length rest"
    using length_snapshot_image [of ls y fl xs] unfolding snapshot_image_def by simp
  note f = snapshot_head_fields [OF assms(1-4), of ?tail]
    snapshot_head_fields [OF assms(1-4), of "[]", unfolded append_Nil2]
  have acc: "Snapshot_orders_count d = Ok (length xs)" "Snapshot_orders_block_length d = Ok 24"
    unfolding Snapshot_orders_count_def Snapshot_orders_block_length_def b
    by (simp_all add: le_u16_def access_in_range f)
  show tot: "Message_total_len (Snapshot d) = Ok (24 + 24 * length xs)"
    by (simp add: Snapshot_total_len_def acc b)
  have "wrap_block 5 12 ''Snapshot'' ?b = Ok d"
    using len by (simp only: wrap_block_Ok_iff f dd) simp
  then have "Snapshot_wrap ?b = Ok d" using tot b len by (simp add: Snapshot_wrap_def Let_def)
  then show "decode_message (dec_buf d) = Ok (Snapshot d)" unfolding b
    by (simp add: decode_message_def message_header_defs le_u16_def access_in_range f)
  show "Snapshot_last_sequence d = Ok ls" "Snapshot_symbol_id d = Ok y" "Snapshot_flags d = Ok fl"
    unfolding Snapshot_last_sequence_def Snapshot_symbol_id_def Snapshot_flags_def b
    by (simp_all add: le_defs access_in_range f f [unfolded One_nat_def])
  show "snapshot_entries d = Ok (map entry_image xs)"
    using orders_entries_image [of 24 ?b xs rest] len
    by (simp add: snapshot_entries_def Snapshot_orders_def acc b)
qed

section \<open>Properties\<close>

text \<open>C30: snapshot round trip. Encoding a fragment with \<open>start\<close>, one \<open>push_order\<close> per resting order
  and \<open>finish\<close> succeeds whenever it fits, and the decoder reads back the root fields and every entry,
  in order, whatever bytes follow it in the datagram.\<close>

theorem snapshot_round_trip:
  assumes "list_all snap_order_wf xs" "length xs \<le> u16_max" "24 + 24 * length xs \<le> length buf"
    and "ls \<le> u64_max" "y \<le> u16_max" "fl \<le> u8_max"
  shows "\<exists>n b d. encode_snapshot buf ls y fl xs = Ok (n, b) \<and> n = 24 + 24 * length xs \<and>
     decode_message b = Ok (Snapshot d) \<and> Message_total_len (Snapshot d) = Ok n \<and>
     Snapshot_last_sequence d = Ok ls \<and> Snapshot_symbol_id d = Ok y \<and> Snapshot_flags d = Ok fl \<and>
     (\<exists>es. snapshot_entries d = Ok es \<and> map view_entry es = map Ok xs)"
proof -
  let ?n = "24 + 24 * length xs"
  obtain b where b: "encode_snapshot buf ls y fl xs = Ok (?n, b)" "length b = length buf"
      "take ?n b = snapshot_image ls y fl xs"
    using encode_snapshot_image [OF assms(3,2)] by metis
  have eq: "b = snapshot_image ls y fl xs @ drop ?n b" using append_take_drop_id [of ?n b] b(3) by simp
  note facts = Snapshot_wrap_image [OF assms(4-6,2), of "drop ?n b", folded eq]
  have "map view_entry (map entry_image xs) = map Ok xs"
    using assms(1) by (simp add: list_all_iff view_entry_image)
  then show ?thesis using b(1) facts by auto
qed

theorem snapshot_round_trip_witness:
  "\<exists>n b d. encode_snapshot (replicate 60 7) 99 3 5 [SnapOrder 4 (- 250) 10 Bid] = Ok (n, b) \<and> n = 48 \<and>
     decode_message b = Ok (Snapshot d) \<and> Message_total_len (Snapshot d) = Ok n \<and>
     Snapshot_last_sequence d = Ok 99 \<and> Snapshot_symbol_id d = Ok 3 \<and> Snapshot_flags d = Ok 5 \<and>
     (\<exists>es. snapshot_entries d = Ok es \<and> map view_entry es = [Ok (SnapOrder 4 (- 250) 10 Bid)])"
  using snapshot_round_trip [of "[SnapOrder 4 (- 250) 10 Bid]" "replicate 60 7" 99 3 5]
  by (simp add: snap_order_wf_def in_i64_def)

text \<open>C34: what \<open>SnapshotDecoder::wrap\<close> does not check. After a successful \<open>wrap\<close> the group iterator
  itself never panics and yields \<open>numInGroup\<close> entries of the entry length the wire announces, but
  that length is not compared with the schema's 24 bytes: reading an entry panics exactly when the
  announced length is below 21.\<close>

theorem snapshot_entries_of_wrapped:
  assumes "Snapshot_wrap buf = Ok d"
  shows "\<exists>n bl es. Snapshot_orders_count d = Ok n \<and> Snapshot_orders_block_length d = Ok bl \<and>
     snapshot_entries d = Ok es \<and> length es = n \<and>
     list_all (\<lambda>e. length e = bl \<and> (view_entry e = Panic \<longleftrightarrow> bl < 21)) es"
proof -
  obtain n bl where n: "Snapshot_orders_count d = Ok n" "Snapshot_orders_block_length d = Ok bl"
      "12 + dec_root_len d + n * bl \<le> length buf"
    using Snapshot_wrap_bounds(4) [OF assms] by auto
  have b: "dec_buf d = buf" using Snapshot_wrap_bounds(1) [OF assms] .
  have "\<exists>es. orders_entries \<lparr>it_buf = buf, it_pos = p, it_block_len = bl, it_remaining = n\<rparr> = Ok es \<and>
      length es = n \<and> list_all (\<lambda>e. length e = bl) es" if "p + n * bl \<le> length buf" for p
    using that
  proof (induction n arbitrary: p)
    case 0
    show ?case by (subst orders_entries.simps) (simp add: SnapshotOrdersIter_next_def)
  next
    case (Suc n)
    then have "p + bl + n * bl \<le> length buf" by simp
    from Suc.IH [OF this] Suc.prems show ?case
      by (subst orders_entries.simps) (auto simp: SnapshotOrdersIter_next_def Let_def)
  qed
  from this [of "12 + dec_root_len d"] n(3) obtain es where es: "snapshot_entries d = Ok es" "length es = n"
      "list_all (\<lambda>e. length e = bl) es"
    by (auto simp: snapshot_entries_def Snapshot_orders_def n b add.commute)
  have "view_entry e = Panic \<longleftrightarrow> length e < 21" for e
    by (auto simp: view_entry_def SnapshotOrder_order_id_def SnapshotOrder_price_def
        SnapshotOrder_quantity_def SnapshotOrder_side_def SnapshotOrder_side_raw_def le_defs le_u_def le_i64_def
        outcome_simps)
  then show ?thesis using n es by (auto simp: list_all_iff)
qed

definition short_entry_datagram :: bytes where
  "short_entry_datagram = patch 20 (to_le 2 4) (snapshot_head_image 99 3 7 1) @ replicate 4 0"

theorem snapshot_entries_of_wrapped_witness:
  "\<exists>d e. Snapshot_wrap short_entry_datagram = Ok d \<and> snapshot_entries d = Ok [e] \<and> view_entry e = Panic"
proof -
  let ?d = "\<lparr>dec_buf = short_entry_datagram, dec_root_len = 12\<rparr>"
  have w: "Snapshot_wrap short_entry_datagram = Ok ?d"
    by code_simp
  moreover have "Snapshot_orders_count ?d = Ok 1" "Snapshot_orders_block_length ?d = Ok 4" by code_simp+
  ultimately show ?thesis
    using snapshot_entries_of_wrapped [OF w] by (auto simp: length_Suc_conv)
qed

end
