(* ===== verification/OrdMap.thy ===== *)
theory OrdMap
  imports Prelude "HOL-Library.AList" "HOL-Library.Multiset"
begin

text \<open>
  The ordered map of the Rust standard library (\<open>BTreeMap\<close>, and the sorted vectors used in its
  place) as an association list in strictly ascending key order, with the contract its clients rely
  on as a locale, and the decomposition of a stable sort into groups that relates a map of queues to
  a priority order.
\<close>

section \<open>The contract\<close>

locale ordered_map =
  fixes get :: "'k :: linorder \<Rightarrow> 'm \<Rightarrow> 'v option"
    and insert :: "'k \<Rightarrow> 'v \<Rightarrow> 'm \<Rightarrow> 'm"
    and remove :: "'k \<Rightarrow> 'm \<Rightarrow> 'm"
    and entries :: "'m \<Rightarrow> ('k \<times> 'v) list"
    and invar :: "'m \<Rightarrow> bool"
  assumes get_insert: "invar m \<Longrightarrow> get j (insert k v m) = (if j = k then Some v else get j m)"
    and get_remove: "invar m \<Longrightarrow> get j (remove k m) = (if j = k then None else get j m)"
    and invar_insert: "invar m \<Longrightarrow> invar (insert k v m)"
    and invar_remove: "invar m \<Longrightarrow> invar (remove k m)"
    and entries_get: "invar m \<Longrightarrow> (k, v) \<in> set (entries m) \<longleftrightarrow> get k m = Some v"
    and entries_sorted: "invar m \<Longrightarrow> sorted_wrt (<) (map fst (entries m))"
begin

lemma entries_unique:
  assumes "invar m" "invar n" "\<And>k. get k m = get k n"
  shows "entries m = entries n"
proof (rule map_sorted_distinct_set_unique [where f = fst])
  have set_eq: "set (entries m) = set (entries n)"
    using assms entries_get by auto
  show "inj_on fst (set (entries m) \<union> set (entries n))"
    using entries_get assms by (auto simp: inj_on_def set_eq)
  show "sorted (map fst (entries m))" "distinct (map fst (entries m))"
    "sorted (map fst (entries n))" "distinct (map fst (entries n))"
    using entries_sorted assms by (auto simp: strict_sorted_iff)
  show "set (entries m) = set (entries n)" by (rule set_eq)
qed

lemma keys_of_entries: "invar m \<Longrightarrow> k \<in> fst ` set (entries m) \<longleftrightarrow> get k m \<noteq> None"
  using entries_get by force

lemma update_twice: "invar m \<Longrightarrow> entries (insert k v (insert k w m)) = entries (insert k v m)"
  by (rule entries_unique) (simp_all add: invar_insert get_insert)

lemma insert_commute:
  "invar m \<Longrightarrow> j \<noteq> k \<Longrightarrow> entries (insert j v (insert k w m)) = entries (insert k w (insert j v m))"
  by (rule entries_unique) (auto simp: invar_insert get_insert)

end

section \<open>Sorted association lists\<close>

type_synonym ('k, 'v) omap = "('k \<times> 'v) list"

primrec om_get :: "'k \<Rightarrow> ('k, 'v) omap \<Rightarrow> 'v option" where
  "om_get k [] = None"
| "om_get k (e # m) = (if fst e = k then Some (snd e) else om_get k m)"

fun om_insert :: "'k :: linorder \<Rightarrow> 'v \<Rightarrow> ('k, 'v) omap \<Rightarrow> ('k, 'v) omap" where
  "om_insert k v [] = [(k, v)]"
| "om_insert k v ((j, w) # m) =
     (if k < j then (k, v) # (j, w) # m else if k = j then (k, v) # m else (j, w) # om_insert k v m)"

definition om_remove :: "'k \<Rightarrow> ('k, 'v) omap \<Rightarrow> ('k, 'v) omap" where
  "om_remove k m = filter (\<lambda>e. fst e \<noteq> k) m"

definition om_invar :: "('k :: linorder, 'v) omap \<Rightarrow> bool" where
  "om_invar m \<longleftrightarrow> sorted_wrt (<) (map fst m)"

lemma om_get_map_of: "om_get k m = map_of m k"
  by (induction m) auto

lemma fst_om_insert: "fst ` set (om_insert k v m) = insert k (fst ` set m)"
  by (induction k v m rule: om_insert.induct) auto

lemma om_invar_insert: "om_invar m \<Longrightarrow> om_invar (om_insert k v m)"
proof (induction k v m rule: om_insert.induct)
  case (2 k v j w m)
  have "x \<in> insert k (fst ` set m)" if "x \<in> fst ` set (om_insert k v m)" for x
    using that by (simp add: fst_om_insert)
  with 2 show ?case by (fastforce simp: om_invar_def)
qed (simp add: om_invar_def)

lemma om_get_insert: "om_get j (om_insert k v m) = (if j = k then Some v else om_get j m)"
  by (induction k v m rule: om_insert.induct) auto

lemma om_get_remove: "om_get j (om_remove k m) = (if j = k then None else om_get j m)"
  by (induction m) (auto simp: om_remove_def)

lemma om_invar_remove: "om_invar m \<Longrightarrow> om_invar (om_remove k m)"
  by (auto simp: om_invar_def om_remove_def sorted_wrt_map sorted_wrt_filter)

interpretation om: ordered_map om_get om_insert om_remove "\<lambda>m. m" om_invar
proof unfold_locales
  fix m :: "('a, 'b) omap" and k v
  assume inv: "om_invar m"
  then show "(k, v) \<in> set m \<longleftrightarrow> om_get k m = Some v"
    by (simp add: om_get_map_of om_invar_def strict_sorted_iff)
  show "sorted_wrt (<) (map fst m)" using inv by (simp add: om_invar_def)
qed (simp_all add: om_get_insert om_get_remove om_invar_insert om_invar_remove)

lemma om_invar_Nil [simp]: "om_invar []"
  by (simp add: om_invar_def)

lemma om_ext: "om_invar m \<Longrightarrow> om_invar n \<Longrightarrow> (\<And>k. om_get k m = om_get k n) \<Longrightarrow> m = n"
  by (rule om.entries_unique)

section \<open>A stable sort is its groups in key order\<close>

lemma filter_groups:
  assumes "distinct ks"
  shows "filter (\<lambda>x. f x = k) (concat (map (\<lambda>j. filter (\<lambda>x. f x = j) xs) ks)) =
     (if k \<in> set ks then filter (\<lambda>x. f x = k) xs else [])"
  using assms
proof (induction ks)
  case (Cons a ks)
  have "filter (\<lambda>x. f x = k) (filter (\<lambda>x. f x = a) xs) = (if k = a then filter (\<lambda>x. f x = k) xs else [])"
    by (induction xs) auto
  with Cons show ?case by auto
qed simp

lemma mset_groups:
  assumes "distinct ks"
  shows "mset (concat (map (\<lambda>j. filter (\<lambda>x. f x = j) xs) ks)) = mset (filter (\<lambda>x. f x \<in> set ks) xs)"
  using assms
proof (induction ks)
  case (Cons a ks)
  have "mset (filter (\<lambda>x. f x = a) xs) + mset (filter (\<lambda>x. f x \<in> set ks) xs)
      = mset (filter (\<lambda>x. f x \<in> set (a # ks)) xs)"
    using Cons.prems by (induction xs) auto
  with Cons show ?case by simp
qed simp

lemma sort_key_groups:
  fixes f :: "'a \<Rightarrow> 'k :: linorder"
  assumes "sorted_wrt (<) ks" "f ` set xs \<subseteq> set ks"
  shows "concat (map (\<lambda>k. filter (\<lambda>x. f x = k) xs) ks) = sort_key f xs"
proof (rule properties_for_sort_key [symmetric])
  let ?ys = "concat (map (\<lambda>k. filter (\<lambda>x. f x = k) xs) ks)"
  have dist: "distinct ks" using assms(1) by (simp add: strict_sorted_iff)
  have "filter (\<lambda>x. f x \<in> set ks) xs = xs" using assms(2) by (auto intro: filter_True)
  then show "mset ?ys = mset xs" by (simp only: mset_groups [OF dist])
  show "filter (\<lambda>x. f k = f x) ?ys = filter (\<lambda>x. f k = f x) xs" if "k \<in> set ?ys" for k
    using that filter_groups [OF dist, of f "f k" xs] by (auto simp: eq_commute [of "f k"])
  have "sorted (map f (filter (\<lambda>x. f x = a) xs))" for a by (induction xs) auto
  then show "sorted (map f ?ys)"
    using assms(1) by (induction ks) (auto simp: sorted_append)
qed

end
