(* ===== verification/BookSpec.thy ===== *)
theory BookSpec
  imports Wire OrdMap
begin

text \<open>
  What an order book promises. The book data types of \<open>crates/book/src/reference.rs\<close>, the
  \<open>OrderBook\<close> trait of \<open>crates/book/src/view.rs\<close> as a record of operations, an abstract
  specification (the resting orders in arrival order) and the refinement contract an implementation
  meets, as a locale.
\<close>

section \<open>Data\<close>

datatype book_error =
    DuplicateOrderId nat
  | UnknownOrderId nat
  | ReduceWouldIncrease nat nat nat
  | ZeroQuantity nat
  | SlabFull nat nat
  | PriceOutOfRange nat int
  | PriceOffGrid nat int

record resting_order =
  ro_order_id :: nat
  ro_price :: int
  ro_quantity :: nat
  ro_side :: side

record level =
  lv_price :: int
  lv_quantity :: nat
  lv_order_count :: nat

text \<open>The \<open>OrderBook\<close> trait: an implementation is a value of this record. A mutating operation
  returns the book it leaves, also when it refuses. The visiting operations return what the callback
  is handed, in order.\<close>

record 'b book_ops =
  ob_add :: "'b \<Rightarrow> nat \<Rightarrow> side \<Rightarrow> int \<Rightarrow> nat \<Rightarrow> 'b \<times> (book_error, unit) outcome"
  ob_delete :: "'b \<Rightarrow> nat \<Rightarrow> 'b \<times> (book_error, resting_order) outcome"
  ob_reduce :: "'b \<Rightarrow> nat \<Rightarrow> nat \<Rightarrow> 'b \<times> (book_error, unit) outcome"
  ob_replace :: "'b \<Rightarrow> nat \<Rightarrow> int \<Rightarrow> nat \<Rightarrow> 'b \<times> (book_error, unit) outcome"
  ob_get :: "'b \<Rightarrow> nat \<Rightarrow> resting_order option"
  ob_len :: "'b \<Rightarrow> nat"
  ob_level_count :: "'b \<Rightarrow> side \<Rightarrow> nat \<Rightarrow> nat"
  ob_for_each_level :: "'b \<Rightarrow> side \<Rightarrow> nat \<Rightarrow> level list"
  ob_for_each_order :: "'b \<Rightarrow> side \<Rightarrow> resting_order list"
  ob_clear :: "'b \<Rightarrow> 'b"

section \<open>Abstract specification\<close>

text \<open>The abstract book: every resting order, oldest first.\<close>

type_synonym spec_book = "resting_order list"

definition spec_get :: "nat \<Rightarrow> spec_book \<Rightarrow> resting_order option" where
  "spec_get i bs = find (\<lambda>x. ro_order_id x = i) bs"

definition spec_drop :: "nat \<Rightarrow> spec_book \<Rightarrow> spec_book" where
  "spec_drop i bs = filter (\<lambda>x. ro_order_id x \<noteq> i) bs"

definition spec_add :: "nat \<Rightarrow> side \<Rightarrow> int \<Rightarrow> nat \<Rightarrow> spec_book \<Rightarrow> (book_error, spec_book) outcome" where
  "spec_add i s p q bs =
     (if q = 0 then Err (ZeroQuantity i)
      else if spec_get i bs \<noteq> None then Err (DuplicateOrderId i)
      else Ok (bs @ [\<lparr>ro_order_id = i, ro_price = p, ro_quantity = q, ro_side = s\<rparr>]))"

definition spec_delete :: "nat \<Rightarrow> spec_book \<Rightarrow> (book_error, resting_order \<times> spec_book) outcome" where
  "spec_delete i bs = (case spec_get i bs of None \<Rightarrow> Err (UnknownOrderId i) | Some x \<Rightarrow> Ok (x, spec_drop i bs))"

definition spec_reduce :: "nat \<Rightarrow> nat \<Rightarrow> spec_book \<Rightarrow> (book_error, spec_book) outcome" where
  "spec_reduce i q bs =
     (case spec_get i bs of
        None \<Rightarrow> Err (UnknownOrderId i)
      | Some x \<Rightarrow>
          if q = 0 then Err (ZeroQuantity i)
          else if q > ro_quantity x then Err (ReduceWouldIncrease i (ro_quantity x) q)
          else Ok (map (\<lambda>x. if ro_order_id x = i then x\<lparr>ro_quantity := q\<rparr> else x) bs))"

definition spec_replace :: "nat \<Rightarrow> int \<Rightarrow> nat \<Rightarrow> spec_book \<Rightarrow> (book_error, spec_book) outcome" where
  "spec_replace i p q bs =
     (if q = 0 then Err (ZeroQuantity i)
      else case spec_get i bs of
        None \<Rightarrow> Err (UnknownOrderId i)
      | Some x \<Rightarrow> Ok (spec_drop i bs @ [x\<lparr>ro_price := p, ro_quantity := q\<rparr>]))"

text \<open>Price-time priority: best price first, oldest first within a price.\<close>

fun price_rank :: "side \<Rightarrow> int \<Rightarrow> int" where
  "price_rank Bid p = - p"
| "price_rank Ask p = p"

definition spec_side :: "side \<Rightarrow> spec_book \<Rightarrow> spec_book" where
  "spec_side s bs = filter (\<lambda>x. ro_side x = s) bs"

definition spec_queue :: "side \<Rightarrow> spec_book \<Rightarrow> resting_order list" where
  "spec_queue s bs = sort_key (\<lambda>x. price_rank s (ro_price x)) (spec_side s bs)"

definition spec_wf :: "spec_book \<Rightarrow> bool" where
  "spec_wf bs \<longleftrightarrow> distinct (map ro_order_id bs) \<and> list_all (\<lambda>x. 0 < ro_quantity x) bs"

text \<open>Aggregated levels of a queue, in its order.\<close>

definition spec_levels :: "side \<Rightarrow> spec_book \<Rightarrow> level list" where
  "spec_levels s bs = map (\<lambda>p. \<lparr>lv_price = p,
       lv_quantity = sum_list (map ro_quantity (filter (\<lambda>x. ro_price x = p) (spec_queue s bs))),
       lv_order_count = min (length (filter (\<lambda>x. ro_price x = p) (spec_queue s bs))) u32_max\<rparr>)
     (remdups_adj (map ro_price (spec_queue s bs)))"

definition capacity_error :: "book_error \<Rightarrow> bool" where
  "capacity_error e \<longleftrightarrow> (case e of SlabFull _ _ \<Rightarrow> True | PriceOutOfRange _ _ \<Rightarrow> True | PriceOffGrid _ _ \<Rightarrow> True | _ \<Rightarrow> False)"

section \<open>Facts of the specification\<close>

lemma spec_get_None_iff: "spec_get i bs = None \<longleftrightarrow> i \<notin> ro_order_id ` set bs"
  by (auto simp: spec_get_def find_None_iff)

lemma spec_get_SomeD: "spec_get i bs = Some x \<Longrightarrow> x \<in> set bs \<and> ro_order_id x = i"
  by (auto simp: spec_get_def find_Some_iff)

lemma spec_get_Some_iff:
  "distinct (map ro_order_id bs) \<Longrightarrow> spec_get i bs = Some x \<longleftrightarrow> x \<in> set bs \<and> ro_order_id x = i"
  by (induction bs) (auto simp: spec_get_def)

lemma spec_get_single: "spec_get i [x] = (if ro_order_id x = i then Some x else None)"
  by (simp add: spec_get_def)

lemma spec_get_append: "spec_get i (bs @ cs) = (case spec_get i bs of None \<Rightarrow> spec_get i cs | Some x \<Rightarrow> Some x)"
  by (induction bs) (auto simp: spec_get_def)

lemma spec_get_drop: "spec_get i (spec_drop j bs) = (if i = j then None else spec_get i bs)"
  by (induction bs) (auto simp: spec_get_def spec_drop_def)

lemma set_spec_drop [simp]: "set (spec_drop i bs) = {x \<in> set bs. ro_order_id x \<noteq> i}"
  by (auto simp: spec_drop_def)

lemma spec_wf_drop: "spec_wf bs \<Longrightarrow> spec_wf (spec_drop i bs)"
  by (auto simp: spec_wf_def spec_drop_def list_all_iff distinct_map_filter)

lemma spec_drop_absent: "i \<notin> ro_order_id ` set bs \<Longrightarrow> spec_drop i bs = bs"
  by (auto simp: spec_drop_def intro!: filter_True)

lemma spec_wf_append:
  "spec_wf (bs @ [x]) \<longleftrightarrow> spec_wf bs \<and> ro_order_id x \<notin> ro_order_id ` set bs \<and> 0 < ro_quantity x"
  by (auto simp: spec_wf_def)

lemma spec_wf_map_qty:
  assumes "spec_wf bs" "0 < q"
  shows "spec_wf (map (\<lambda>x. if ro_order_id x = i then x\<lparr>ro_quantity := q\<rparr> else x) bs)"
proof -
  have "map ro_order_id (map (\<lambda>x. if ro_order_id x = i then x\<lparr>ro_quantity := q\<rparr> else x) bs) = map ro_order_id bs"
    by (simp add: comp_def if_distrib cong: if_cong)
  with assms show ?thesis by (auto simp: spec_wf_def list_all_iff simp del: map_map)
qed

lemma spec_ops_wf:
  assumes "spec_wf bs"
  shows "spec_add i s p q bs = Ok cs \<Longrightarrow> spec_wf cs"
    and "spec_delete i bs = Ok (x, cs) \<Longrightarrow> spec_wf cs"
    and "spec_reduce i q bs = Ok cs \<Longrightarrow> spec_wf cs"
    and "spec_replace i p q bs = Ok cs \<Longrightarrow> spec_wf cs"
  using assms
  by (auto simp: spec_add_def spec_delete_def spec_reduce_def spec_replace_def spec_wf_append spec_wf_drop
      spec_get_None_iff spec_wf_map_qty dest!: spec_get_SomeD split: if_splits option.splits)

lemma spec_ops_no_panic [simp]:
  "spec_add i s p q bs \<noteq> Panic" "spec_delete i bs \<noteq> Panic"
  "spec_reduce i q bs \<noteq> Panic" "spec_replace i p q bs \<noteq> Panic"
  by (auto simp: spec_add_def spec_delete_def spec_reduce_def spec_replace_def split: option.splits)

lemma set_spec_queue [simp]: "set (spec_queue s bs) = {x \<in> set bs. ro_side x = s}"
  by (auto simp: spec_queue_def spec_side_def)

lemma spec_queue_Nil [simp]: "spec_queue s [] = []"
  by (simp add: spec_queue_def spec_side_def)

lemma spec_queue_sorted: "sorted (map (\<lambda>x. price_rank s (ro_price x)) (spec_queue s bs))"
  by (simp add: spec_queue_def)

lemma spec_queue_best:
  assumes "x \<in> set bs" "ro_side x = s" "spec_queue s bs = f # fs"
  shows "price_rank s (ro_price f) \<le> price_rank s (ro_price x)"
  using spec_queue_sorted [of s bs] assms set_spec_queue [of s bs] by auto

lemma spec_queue_time:
  "filter (\<lambda>x. ro_price x = p) (spec_queue s bs) = filter (\<lambda>x. ro_price x = p) (spec_side s bs)"
proof -
  have "price_rank s a = price_rank s b \<longleftrightarrow> a = b" for a b by (cases s) auto
  then show ?thesis
    using sort_key_stable [of "\<lambda>x. price_rank s (ro_price x)" "price_rank s p" "spec_side s bs"]
    by (simp add: spec_queue_def)
qed

section \<open>The contract\<close>

text \<open>An implementation refines the specification through a relation \<open>rel\<close>. A successful operation
  matches the specification's; a refusal leaves an equivalent book, and is the specification's own
  refusal up to the capacity limits of a \<open>capped\<close> book (and, for \<open>reduce\<close>, up to which of two violated conditions is named).
  Prices and quantities are filed within the range \<open>within\<close> that the implementation's arithmetic is made for.\<close>

locale order_book =
  fixes ops :: "'b book_ops"
    and rel :: "'b \<Rightarrow> spec_book \<Rightarrow> bool"
    and capped :: bool
    and within :: "int \<Rightarrow> nat \<Rightarrow> bool"
  assumes rel_wf: "rel b bs \<Longrightarrow> spec_wf bs"
    and add_sim: "rel b bs \<Longrightarrow> within p q \<Longrightarrow> ob_add ops b i s p q = (b', r) \<Longrightarrow>
       (case r of Ok _ \<Rightarrow> \<exists>cs. spec_add i s p q bs = Ok cs \<and> rel b' cs
        | Err e \<Rightarrow> rel b' bs \<and> (spec_add i s p q bs = Err e \<or> capped \<and> capacity_error e) | Panic \<Rightarrow> False)"
    and delete_sim: "rel b bs \<Longrightarrow> ob_delete ops b i = (b', d) \<Longrightarrow>
       (case d of Ok x \<Rightarrow> \<exists>cs. spec_delete i bs = Ok (x, cs) \<and> rel b' cs
        | Err e \<Rightarrow> rel b' bs \<and> spec_delete i bs = Err e | Panic \<Rightarrow> False)"
    and reduce_sim: "rel b bs \<Longrightarrow> ob_reduce ops b i q = (b', r) \<Longrightarrow>
       (case r of Ok _ \<Rightarrow> \<exists>cs. spec_reduce i q bs = Ok cs \<and> rel b' cs
        | Err e \<Rightarrow> rel b' bs \<and> (\<exists>e'. spec_reduce i q bs = Err e') | Panic \<Rightarrow> False)"
    and replace_sim: "rel b bs \<Longrightarrow> within p q \<Longrightarrow> ob_replace ops b i p q = (b', r) \<Longrightarrow>
       (case r of Ok _ \<Rightarrow> \<exists>cs. spec_replace i p q bs = Ok cs \<and> rel b' cs
        | Err e \<Rightarrow> rel b' bs \<and> (spec_replace i p q bs = Err e \<or> capped \<and> capacity_error e) | Panic \<Rightarrow> False)"
    and get_sim: "rel b bs \<Longrightarrow> ob_get ops b i = spec_get i bs"
    and len_sim: "rel b bs \<Longrightarrow> ob_len ops b = length bs"
    and orders_sim: "rel b bs \<Longrightarrow> ob_for_each_order ops b s = spec_queue s bs"
    and clear_sim: "rel b bs \<Longrightarrow> rel (ob_clear ops b) []"
begin

lemma empty_iff: "rel b bs \<Longrightarrow> ob_len ops b = 0 \<longleftrightarrow> bs = []"
  by (simp add: len_sim)

lemma same_spec_same_view:
  "rel b bs \<Longrightarrow> rel b' bs \<Longrightarrow> ob_for_each_order ops b s = ob_for_each_order ops b' s"
  by (simp add: orders_sim)

lemma add_then_get:
  assumes "rel b bs" "within p q" "ob_add ops b i s p q = (b', Ok ())"
  shows "ob_get ops b' i = Some \<lparr>ro_order_id = i, ro_price = p, ro_quantity = q, ro_side = s\<rparr>"
proof -
  obtain cs where cs: "spec_add i s p q bs = Ok cs" "rel b' cs" using add_sim [OF assms] by auto
  then show ?thesis
    by (auto simp: get_sim spec_add_def spec_get_append split: if_splits) (simp add: spec_get_def)
qed

lemma delete_then_get:
  assumes "rel b bs" "ob_delete ops b i = (b', Ok x)"
  shows "ob_get ops b' i = None" and "ob_get ops b i = Some x"
  using delete_sim [OF assms] assms(1)
  by (auto simp: get_sim spec_delete_def spec_get_drop split: option.splits)

end

end
