(* ===== verification/RefBook.thy ===== *)
theory RefBook
  imports BookSpec
begin

text \<open>
  The reference book of \<open>crates/book/src/reference.rs\<close>: a hash map of resting orders and one
  price-ordered map of queues per side, kept redundant by every operation. The hash map is an
  association list with distinct keys (its iteration order is never observed); a \<open>BTreeMap\<close> is an
  \<open>omap\<close>. The book is shown to refine the abstract specification exactly, errors included.
\<close>

section \<open>State\<close>

record refbook =
  rb_orders :: "(nat \<times> resting_order) list"
  rb_bids :: "(int, nat list) omap"
  rb_asks :: "(int, nat list) omap"

definition refbook_new :: refbook where
  "refbook_new = \<lparr>rb_orders = [], rb_bids = [], rb_asks = []\<rparr>"

fun rb_side :: "side \<Rightarrow> refbook \<Rightarrow> (int, nat list) omap" where
  "rb_side Bid b = rb_bids b"
| "rb_side Ask b = rb_asks b"

fun rb_set_side :: "side \<Rightarrow> (int, nat list) omap \<Rightarrow> refbook \<Rightarrow> refbook" where
  "rb_set_side Bid m b = b\<lparr>rb_bids := m\<rparr>"
| "rb_set_side Ask m b = b\<lparr>rb_asks := m\<rparr>"

text \<open>\<open>levels.entry(price).or_default().push_back(order_id)\<close>\<close>

definition level_push :: "int \<Rightarrow> nat \<Rightarrow> (int, nat list) omap \<Rightarrow> (int, nat list) omap" where
  "level_push p i m = om_insert p ((case om_get p m of None \<Rightarrow> [] | Some q \<Rightarrow> q) @ [i]) m"

section \<open>Operations\<close>

definition rb_unlink :: "(int, nat list) omap \<Rightarrow> int \<Rightarrow> nat \<Rightarrow> (int, nat list) omap" where
  "rb_unlink levels p i =
     (case om_get p levels of
        None \<Rightarrow> levels
      | Some queue \<Rightarrow>
          let queue' = remove1 i queue in
          if queue' = [] then om_remove p levels else om_insert p queue' levels)"

definition rb_add :: "refbook \<Rightarrow> nat \<Rightarrow> side \<Rightarrow> int \<Rightarrow> nat \<Rightarrow> refbook \<times> (book_error, unit) outcome" where
  "rb_add b order_id side price quantity =
     (if quantity = 0 then (b, Err (ZeroQuantity order_id))
      else if map_of (rb_orders b) order_id \<noteq> None then (b, Err (DuplicateOrderId order_id))
      else let b1 = b\<lparr>rb_orders := AList.update order_id
                 \<lparr>ro_order_id = order_id, ro_price = price, ro_quantity = quantity, ro_side = side\<rparr> (rb_orders b)\<rparr>
           in (rb_set_side side (level_push price order_id (rb_side side b1)) b1, Ok ()))"

definition rb_delete :: "refbook \<Rightarrow> nat \<Rightarrow> refbook \<times> (book_error, resting_order) outcome" where
  "rb_delete b order_id =
     (case map_of (rb_orders b) order_id of
        None \<Rightarrow> (b, Err (UnknownOrderId order_id))
      | Some order \<Rightarrow>
          let b1 = b\<lparr>rb_orders := AList.delete order_id (rb_orders b)\<rparr> in
          (rb_set_side (ro_side order) (rb_unlink (rb_side (ro_side order) b1) (ro_price order) order_id) b1,
           Ok order))"

definition rb_reduce :: "refbook \<Rightarrow> nat \<Rightarrow> nat \<Rightarrow> refbook \<times> (book_error, unit) outcome" where
  "rb_reduce b order_id new_quantity =
     (case map_of (rb_orders b) order_id of
        None \<Rightarrow> (b, Err (UnknownOrderId order_id))
      | Some order \<Rightarrow>
          if new_quantity = 0 then (b, Err (ZeroQuantity order_id))
          else if new_quantity > ro_quantity order
          then (b, Err (ReduceWouldIncrease order_id (ro_quantity order) new_quantity))
          else (b\<lparr>rb_orders := AList.update order_id (order\<lparr>ro_quantity := new_quantity\<rparr>) (rb_orders b)\<rparr>, Ok ()))"

definition rb_replace :: "refbook \<Rightarrow> nat \<Rightarrow> int \<Rightarrow> nat \<Rightarrow> refbook \<times> (book_error, unit) outcome" where
  "rb_replace b order_id new_price new_quantity =
     (if new_quantity = 0 then (b, Err (ZeroQuantity order_id))
      else case map_of (rb_orders b) order_id of
        None \<Rightarrow> (b, Err (UnknownOrderId order_id))
      | Some order \<Rightarrow>
          let side = ro_side order;
              b1 = rb_set_side side (rb_unlink (rb_side side b) (ro_price order) order_id) b;
              updated = order\<lparr>ro_price := new_price, ro_quantity := new_quantity\<rparr>;
              b2 = b1\<lparr>rb_orders := AList.update order_id updated (rb_orders b1)\<rparr>
          in (rb_set_side side (level_push new_price order_id (rb_side side b2)) b2, Ok ()))"

definition rb_get :: "refbook \<Rightarrow> nat \<Rightarrow> resting_order option" where
  "rb_get b order_id = map_of (rb_orders b) order_id"

definition rb_len :: "refbook \<Rightarrow> nat" where
  "rb_len b = length (rb_orders b)"

definition rb_clear :: "refbook \<Rightarrow> refbook" where
  "rb_clear b = \<lparr>rb_orders = [], rb_bids = [], rb_asks = []\<rparr>"

text \<open>Levels best first: bids are walked from the highest price, asks from the lowest.\<close>

fun rb_levels_best_first :: "refbook \<Rightarrow> side \<Rightarrow> (int, nat list) omap" where
  "rb_levels_best_first b Bid = rev (rb_bids b)"
| "rb_levels_best_first b Ask = rb_asks b"

definition rb_front :: "refbook \<Rightarrow> side \<Rightarrow> (int \<times> nat) option" where
  "rb_front b side =
     (case rb_levels_best_first b side of
        [] \<Rightarrow> None
      | (price, queue) # _ \<Rightarrow> (case queue of [] \<Rightarrow> None | i # _ \<Rightarrow> Some (price, i)))"

definition rb_emit_level :: "refbook \<Rightarrow> int \<times> nat list \<Rightarrow> level" where
  "rb_emit_level b e = (case e of (price, queue) \<Rightarrow>
     \<lparr>lv_price = price, lv_quantity = sum_list (map ro_quantity (List.map_filter (rb_get b) queue)),
      lv_order_count = min (length queue) u32_max\<rparr>)"

definition rb_for_each_level :: "refbook \<Rightarrow> side \<Rightarrow> nat \<Rightarrow> level list" where
  "rb_for_each_level b side depth =
     (let ls = rb_levels_best_first b side in
      map (rb_emit_level b) (if depth = 0 then ls else take depth ls))"

definition rb_level_count :: "refbook \<Rightarrow> side \<Rightarrow> nat \<Rightarrow> nat" where
  "rb_level_count b side depth = (let n = length (rb_side side b) in if depth = 0 then n else min n depth)"

definition rb_best_bid :: "refbook \<Rightarrow> level option" where
  "rb_best_bid b = (case rb_for_each_level b Bid 1 of [] \<Rightarrow> None | l # _ \<Rightarrow> Some l)"

definition rb_best_ask :: "refbook \<Rightarrow> level option" where
  "rb_best_ask b = (case rb_for_each_level b Ask 1 of [] \<Rightarrow> None | l # _ \<Rightarrow> Some l)"

definition rb_orders_in_queue_order :: "refbook \<Rightarrow> side \<Rightarrow> resting_order list" where
  "rb_orders_in_queue_order b side =
     concat (map (\<lambda>(price, queue). List.map_filter (rb_get b) queue) (rb_levels_best_first b side))"

definition rb_side_ok :: "refbook \<Rightarrow> side \<Rightarrow> bool" where
  "rb_side_ok b s = list_all (\<lambda>(price, queue). queue \<noteq> [] \<and>
     list_all (\<lambda>i. case rb_get b i of None \<Rightarrow> False
       | Some x \<Rightarrow> ro_price x = price \<and> ro_side x = s \<and> ro_quantity x \<noteq> 0) queue) (rb_side s b)"

definition rb_check_invariants :: "refbook \<Rightarrow> bool" where
  "rb_check_invariants b =
     (rb_side_ok b Bid \<and> rb_side_ok b Ask \<and>
      sum_list (map (\<lambda>e. length (snd e)) (rb_bids b)) + sum_list (map (\<lambda>e. length (snd e)) (rb_asks b)) = rb_len b)"

definition refbook_ops :: "refbook book_ops" where
  "refbook_ops = \<lparr>ob_add = rb_add, ob_delete = rb_delete, ob_reduce = rb_reduce, ob_replace = rb_replace,
     ob_get = rb_get, ob_len = rb_len, ob_level_count = rb_level_count, ob_for_each_level = rb_for_each_level,
     ob_for_each_order = rb_orders_in_queue_order, ob_clear = rb_clear\<rparr>"

section \<open>Histories\<close>

text \<open>A sequence of book operations, run on the reference book and on the specification, with the
  result of every call.\<close>

datatype book_call =
    CallAdd nat side int nat
  | CallDelete nat
  | CallReduce nat nat
  | CallReplace nat int nat
  | CallClear

type_synonym call_result = "(book_error, resting_order option) outcome"

fun rb_call :: "book_call \<Rightarrow> refbook \<Rightarrow> refbook \<times> call_result" where
  "rb_call (CallAdd i s p q) b = (case rb_add b i s p q of (b', r) \<Rightarrow> (b', obind r (\<lambda>_. Ok None)))"
| "rb_call (CallDelete i) b = (case rb_delete b i of (b', r) \<Rightarrow> (b', obind r (\<lambda>x. Ok (Some x))))"
| "rb_call (CallReduce i q) b = (case rb_reduce b i q of (b', r) \<Rightarrow> (b', obind r (\<lambda>_. Ok None)))"
| "rb_call (CallReplace i p q) b = (case rb_replace b i p q of (b', r) \<Rightarrow> (b', obind r (\<lambda>_. Ok None)))"
| "rb_call CallClear b = (rb_clear b, Ok None)"

fun spec_call :: "book_call \<Rightarrow> spec_book \<Rightarrow> spec_book \<times> call_result" where
  "spec_call (CallAdd i s p q) bs = (case spec_add i s p q bs of Ok cs \<Rightarrow> (cs, Ok None) | Err e \<Rightarrow> (bs, Err e) | Panic \<Rightarrow> (bs, Panic))"
| "spec_call (CallDelete i) bs = (case spec_delete i bs of Ok (x, cs) \<Rightarrow> (cs, Ok (Some x)) | Err e \<Rightarrow> (bs, Err e) | Panic \<Rightarrow> (bs, Panic))"
| "spec_call (CallReduce i q) bs = (case spec_reduce i q bs of Ok cs \<Rightarrow> (cs, Ok None) | Err e \<Rightarrow> (bs, Err e) | Panic \<Rightarrow> (bs, Panic))"
| "spec_call (CallReplace i p q) bs = (case spec_replace i p q bs of Ok cs \<Rightarrow> (cs, Ok None) | Err e \<Rightarrow> (bs, Err e) | Panic \<Rightarrow> (bs, Panic))"
| "spec_call CallClear bs = ([], Ok None)"

fun run_calls :: "(book_call \<Rightarrow> 'b \<Rightarrow> 'b \<times> call_result) \<Rightarrow> book_call list \<Rightarrow> 'b \<Rightarrow> 'b \<times> call_result list" where
  "run_calls f [] b = (b, [])"
| "run_calls f (c # cs) b = (case f c b of (b1, r) \<Rightarrow> case run_calls f cs b1 of (b2, rs) \<Rightarrow> (b2, r # rs))"

section \<open>Refinement\<close>

definition level_group :: "side \<Rightarrow> int \<Rightarrow> spec_book \<Rightarrow> nat list" where
  "level_group s p bs = map ro_order_id (filter (\<lambda>x. ro_side x = s \<and> ro_price x = p) bs)"

definition nonempty :: "'a list \<Rightarrow> 'a list option" where
  "nonempty xs = (if xs = [] then None else Some xs)"

definition levels_rel :: "side \<Rightarrow> (int, nat list) omap \<Rightarrow> spec_book \<Rightarrow> bool" where
  "levels_rel s m bs \<longleftrightarrow> om_invar m \<and> (\<forall>p. om_get p m = nonempty (level_group s p bs))"

definition refbook_rel :: "refbook \<Rightarrow> spec_book \<Rightarrow> bool" where
  "refbook_rel b bs \<longleftrightarrow> spec_wf bs \<and> distinct (map fst (rb_orders b)) \<and>
     (\<forall>i. map_of (rb_orders b) i = spec_get i bs) \<and>
     levels_rel Bid (rb_bids b) bs \<and> levels_rel Ask (rb_asks b) bs"

lemma rb_side_set_side [simp]:
  "rb_side s (rb_set_side t m b) = (if s = t then m else rb_side s b)"
  "rb_orders (rb_set_side t m b) = rb_orders b"
  "rb_side s (b\<lparr>rb_orders := os\<rparr>) = rb_side s b"
  by (cases s; cases t; simp)+

lemma refbook_rel_iff:
  "refbook_rel b bs \<longleftrightarrow> spec_wf bs \<and> distinct (map fst (rb_orders b)) \<and>
     (\<forall>i. map_of (rb_orders b) i = spec_get i bs) \<and> (\<forall>s. levels_rel s (rb_side s b) bs)"
proof -
  have "(\<forall>s. levels_rel s (rb_side s b) bs) \<longleftrightarrow> levels_rel Bid (rb_bids b) bs \<and> levels_rel Ask (rb_asks b) bs"
    by (metis rb_side.simps side.exhaust)
  then show ?thesis by (simp add: refbook_rel_def)
qed

lemma level_group_append:
  "level_group s p (bs @ [x]) = level_group s p bs @ (if ro_side x = s \<and> ro_price x = p then [ro_order_id x] else [])"
  by (simp add: level_group_def)

lemma level_group_drop:
  assumes "distinct (map ro_order_id bs)"
  shows "level_group s p (spec_drop i bs) = remove1 i (level_group s p bs)"
proof -
  have "distinct (level_group s p bs)"
    using assms by (simp add: level_group_def distinct_map_filter)
  moreover have "level_group s p (spec_drop i bs) = filter (\<lambda>j. j \<noteq> i) (level_group s p bs)"
    by (simp add: level_group_def spec_drop_def filter_map comp_def) (meson)
  ultimately show ?thesis by (simp add: distinct_remove1_removeAll removeAll_filter_not_eq eq_commute)
qed

lemma level_group_drop_other:
  assumes "distinct (map ro_order_id bs)" "x \<in> set bs" "ro_side x \<noteq> s \<or> ro_price x \<noteq> p"
  shows "level_group s p (spec_drop (ro_order_id x) bs) = level_group s p bs"
proof -
  have "ro_order_id x \<notin> set (level_group s p bs)"
    using assms by (auto simp: level_group_def distinct_map inj_on_def)
  then show ?thesis using assms(1) by (simp add: level_group_drop remove1_idem)
qed

lemma levels_rel_push:
  assumes "levels_rel s m bs" "ro_side x = s"
  shows "levels_rel s (level_push (ro_price x) (ro_order_id x) m) (bs @ [x])"
  using assms
  by (auto simp: levels_rel_def level_push_def om_get_insert om_invar_insert level_group_append nonempty_def)

lemma levels_rel_append_other: "levels_rel s m bs \<Longrightarrow> ro_side x \<noteq> s \<Longrightarrow> levels_rel s m (bs @ [x])"
  by (auto simp: levels_rel_def level_group_append)

lemma levels_rel_unlink:
  assumes "levels_rel s m bs" "distinct (map ro_order_id bs)" "x \<in> set bs" "ro_side x = s"
  shows "levels_rel s (rb_unlink m (ro_price x) (ro_order_id x)) (spec_drop (ro_order_id x) bs)"
proof -
  let ?i = "ro_order_id x" and ?p = "ro_price x"
  have inv: "om_invar m" and get: "\<And>p. om_get p m = nonempty (level_group s p bs)"
    using assms(1) by (auto simp: levels_rel_def)
  have "level_group s ?p bs \<noteq> []" using assms(3,4) by (auto simp: level_group_def filter_empty_conv)
  then have q: "om_get ?p m = Some (level_group s ?p bs)" by (simp add: get nonempty_def)
  have other: "level_group s p (spec_drop ?i bs) = level_group s p bs" if "p \<noteq> ?p" for p
    using level_group_drop_other [OF assms(2,3)] that by auto
  have own: "level_group s ?p (spec_drop ?i bs) = remove1 ?i (level_group s ?p bs)"
    by (rule level_group_drop [OF assms(2)])
  have "om_get p (rb_unlink m ?p ?i) = nonempty (level_group s p (spec_drop ?i bs))" for p
    using q get other own by (cases "p = ?p") (auto simp: rb_unlink_def Let_def om_get_remove om_get_insert nonempty_def)
  moreover have "om_invar (rb_unlink m ?p ?i)"
    using inv q by (auto simp: rb_unlink_def Let_def om_invar_insert om_invar_remove)
  ultimately show ?thesis by (simp add: levels_rel_def)
qed

lemma levels_rel_drop_other:
  assumes "levels_rel s m bs" "distinct (map ro_order_id bs)" "x \<in> set bs" "ro_side x \<noteq> s"
  shows "levels_rel s m (spec_drop (ro_order_id x) bs)"
  using assms level_group_drop_other [OF assms(2,3)] by (auto simp: levels_rel_def)

lemma level_group_map_qty:
  "level_group s p (map (\<lambda>x. if ro_order_id x = i then x\<lparr>ro_quantity := q\<rparr> else x) bs) = level_group s p bs"
  by (induction bs) (auto simp: level_group_def)

lemma spec_get_map_qty:
  "spec_get j (map (\<lambda>x. if ro_order_id x = i then x\<lparr>ro_quantity := q\<rparr> else x) bs) =
     (if j = i then map_option (\<lambda>x. x\<lparr>ro_quantity := q\<rparr>) (spec_get j bs) else spec_get j bs)"
  by (induction bs) (auto simp: spec_get_def)

lemma rel_parts:
  assumes "refbook_rel b bs"
  shows "spec_wf bs" "distinct (map ro_order_id bs)" "distinct (map fst (rb_orders b))"
    "map_of (rb_orders b) i = spec_get i bs" "levels_rel s (rb_side s b) bs"
  using assms by (auto simp: refbook_rel_iff spec_wf_def)

lemma update_get: "map_of (AList.update k v m) j = (if j = k then Some v else map_of m j)"
  by (simp add: update_conv')

lemma delete_get: "map_of (AList.delete k m) j = (if j = k then None else map_of m j)"
  by (simp add: delete_conv')

lemmas hash_simps = update_get delete_get distinct_update distinct_delete

lemma rb_add_rel:
  assumes "refbook_rel b bs"
  shows "case spec_add i s p q bs of
      Ok cs \<Rightarrow> (\<exists>b'. rb_add b i s p q = (b', Ok ()) \<and> refbook_rel b' cs)
    | Err e \<Rightarrow> rb_add b i s p q = (b, Err e)
    | Panic \<Rightarrow> False"
proof (cases "q = 0 \<or> spec_get i bs \<noteq> None")
  case True
  with rel_parts(4) [OF assms, of i] show ?thesis by (auto simp: spec_add_def rb_add_def)
next
  case False
  let ?x = "\<lparr>ro_order_id = i, ro_price = p, ro_quantity = q, ro_side = s\<rparr>"
  let ?b = "rb_set_side s (level_push p i (rb_side s b)) (b\<lparr>rb_orders := AList.update i ?x (rb_orders b)\<rparr>)"
  have "levels_rel t (rb_side t ?b) (bs @ [?x])" for t
    using levels_rel_push [of s "rb_side s b" bs ?x] levels_rel_append_other [of t "rb_side t b" bs ?x]
      rel_parts(5) [OF assms] by (cases "t = s") auto
  moreover have "spec_wf (bs @ [?x])"
    using False rel_parts(1) [OF assms] by (auto simp: spec_wf_append spec_get_None_iff)
  moreover have "map_of (rb_orders ?b) j = spec_get j (bs @ [?x])" for j
    using False rel_parts(4) [OF assms] by (auto simp: hash_simps spec_get_append spec_get_single split: option.splits)
  ultimately have "refbook_rel ?b (bs @ [?x])"
    using rel_parts(3) [OF assms] by (simp add: refbook_rel_iff hash_simps)
  moreover have "rb_add b i s p q = (?b, Ok ())"
    using False rel_parts(4) [OF assms, of i] by (simp add: rb_add_def Let_def)
  ultimately show ?thesis using False by (auto simp: spec_add_def)
qed

lemma rb_delete_rel:
  assumes "refbook_rel b bs"
  shows "case spec_delete i bs of
      Ok (x, cs) \<Rightarrow> (\<exists>b'. rb_delete b i = (b', Ok x) \<and> refbook_rel b' cs)
    | Err e \<Rightarrow> rb_delete b i = (b, Err e)
    | Panic \<Rightarrow> False"
proof (cases "spec_get i bs")
  case None
  with rel_parts(4) [OF assms, of i] show ?thesis by (simp add: spec_delete_def rb_delete_def)
next
  case (Some x)
  then have x: "x \<in> set bs" "i = ro_order_id x" by (auto dest: spec_get_SomeD)
  let ?s = "ro_side x"
  let ?b = "rb_set_side ?s (rb_unlink (rb_side ?s b) (ro_price x) i) (b\<lparr>rb_orders := AList.delete i (rb_orders b)\<rparr>)"
  have "levels_rel t (rb_side t ?b) (spec_drop i bs)" for t
    using levels_rel_unlink [OF rel_parts(5,2) [OF assms] x(1), of ?s]
      levels_rel_drop_other [OF rel_parts(5,2) [OF assms] x(1), of t] x(2)
    by (cases "t = ?s") auto
  then have "refbook_rel ?b (spec_drop i bs)"
    using rel_parts [OF assms] by (simp add: refbook_rel_iff hash_simps spec_wf_drop spec_get_drop)
  moreover have "rb_delete b i = (?b, Ok x)"
    using Some rel_parts(4) [OF assms, of i] by (simp add: rb_delete_def Let_def)
  ultimately show ?thesis using Some by (simp add: spec_delete_def)
qed

lemma rb_reduce_rel:
  assumes "refbook_rel b bs"
  shows "case spec_reduce i q bs of
      Ok cs \<Rightarrow> (\<exists>b'. rb_reduce b i q = (b', Ok ()) \<and> refbook_rel b' cs)
    | Err e \<Rightarrow> rb_reduce b i q = (b, Err e)
    | Panic \<Rightarrow> False"
proof (cases "spec_get i bs")
  case None
  with rel_parts(4) [OF assms, of i] show ?thesis by (simp add: spec_reduce_def rb_reduce_def)
next
  case (Some x)
  let ?cs = "map (\<lambda>x. if ro_order_id x = i then x\<lparr>ro_quantity := q\<rparr> else x) bs"
  let ?b = "b\<lparr>rb_orders := AList.update i (x\<lparr>ro_quantity := q\<rparr>) (rb_orders b)\<rparr>"
  have "levels_rel t (rb_side t ?b) ?cs" for t
    using rel_parts(5) [OF assms, of t] by (simp add: levels_rel_def level_group_map_qty)
  moreover have "map_of (rb_orders ?b) j = spec_get j ?cs" for j
    using rel_parts(4) [OF assms, of j] Some by (simp add: hash_simps spec_get_map_qty)
  ultimately have "refbook_rel ?b ?cs" if "0 < q"
    using that rel_parts(1,3) [OF assms] by (simp add: refbook_rel_iff hash_simps spec_wf_map_qty)
  then show ?thesis using Some rel_parts(4) [OF assms, of i] by (auto simp: spec_reduce_def rb_reduce_def)
qed

lemma rb_replace_rel:
  assumes "refbook_rel b bs"
  shows "case spec_replace i p q bs of
      Ok cs \<Rightarrow> (\<exists>b'. rb_replace b i p q = (b', Ok ()) \<and> refbook_rel b' cs)
    | Err e \<Rightarrow> rb_replace b i p q = (b, Err e)
    | Panic \<Rightarrow> False"
proof (cases "spec_get i bs")
  case None
  with rel_parts(4) [OF assms, of i] show ?thesis by (simp add: spec_replace_def rb_replace_def)
next
  case (Some x)
  then have x: "x \<in> set bs" "i = ro_order_id x" by (auto dest: spec_get_SomeD)
  let ?s = "ro_side x" and ?y = "x\<lparr>ro_price := p, ro_quantity := q\<rparr>"
  let ?m = "rb_unlink (rb_side ?s b) (ro_price x) i"
  let ?b1 = "rb_set_side ?s ?m b"
  let ?b2 = "?b1\<lparr>rb_orders := AList.update i ?y (rb_orders ?b1)\<rparr>"
  let ?b = "rb_set_side ?s (level_push p i (rb_side ?s ?b2)) ?b2"
  let ?cs = "spec_drop i bs @ [?y]"
  have m: "levels_rel ?s ?m (spec_drop i bs)"
    using levels_rel_unlink [OF rel_parts(5,2) [OF assms] x(1), of ?s] x(2) by simp
  have "levels_rel t (rb_side t ?b) ?cs" for t
    using levels_rel_push [OF m, of ?y] x(2)
      levels_rel_append_other [OF levels_rel_drop_other [OF rel_parts(5,2) [OF assms] x(1)], of t ?y]
    by (cases "t = ?s") auto
  moreover have "map_of (rb_orders ?b) j = spec_get j ?cs" for j
    using rel_parts(4) [OF assms, of j] x(2) Some
    by (auto simp: hash_simps spec_get_append spec_get_drop spec_get_single split: option.splits)
  moreover have "spec_wf ?cs" if "0 < q"
    using that x(2) rel_parts(1) [OF assms] by (auto simp: spec_wf_append spec_wf_drop)
  ultimately have "refbook_rel ?b ?cs" if "0 < q"
    using that rel_parts(3) [OF assms] by (simp add: refbook_rel_iff hash_simps)
  then show ?thesis
    using Some rel_parts(4) [OF assms, of i] by (auto simp: spec_replace_def rb_replace_def Let_def)
qed


subsection \<open>Views\<close>

lemma rb_len_rel:
  assumes "refbook_rel b bs"
  shows "rb_len b = length bs"
proof -
  have "i \<in> fst ` set (rb_orders b) \<longleftrightarrow> i \<in> ro_order_id ` set bs" for i
    using rel_parts(4) [OF assms, of i] spec_get_None_iff [of i bs] map_of_eq_None_iff [of "rb_orders b" i] by auto
  then have "fst ` set (rb_orders b) = ro_order_id ` set bs" by blast
  then have "card (set (map fst (rb_orders b))) = card (set (map ro_order_id bs))" by simp
  then show ?thesis
    using rel_parts(2,3) [OF assms] by (simp only: rb_len_def distinct_card length_map)
qed

lemma map_filter_group:
  assumes "refbook_rel b bs"
  shows "List.map_filter (rb_get b) (level_group s p bs) = filter (\<lambda>x. ro_side x = s \<and> ro_price x = p) bs"
proof -
  have own: "rb_get b (ro_order_id x) = Some x" if "x \<in> set bs" for x
    using that spec_get_Some_iff [OF rel_parts(2) [OF assms]] by (simp add: rb_get_def rel_parts(4) [OF assms])
  have "List.map_filter (rb_get b) (map ro_order_id xs) = xs" if "set xs \<subseteq> set bs" for xs
    using that by (induction xs) (auto simp: map_filter_simps own)
  then show ?thesis by (simp add: level_group_def)
qed

lemma levels_rel_entry:
  assumes "levels_rel s m bs" "(p, q) \<in> set m"
  shows "q = level_group s p bs" "q \<noteq> []"
  using assms om.entries_get [of m p q] by (auto simp: levels_rel_def nonempty_def split: if_splits)

lemma levels_rel_keys:
  assumes "levels_rel s m bs"
  shows "fst ` set m = ro_price ` set (spec_side s bs)"
proof -
  have "p \<in> fst ` set m \<longleftrightarrow> level_group s p bs \<noteq> []" for p
    using om.keys_of_entries [of m p] assms by (auto simp: levels_rel_def nonempty_def)
  moreover have "level_group s p bs \<noteq> [] \<longleftrightarrow> p \<in> ro_price ` set (spec_side s bs)" for p
    by (auto simp: level_group_def spec_side_def filter_empty_conv)
  ultimately show ?thesis by blast
qed

lemma queue_by_levels:
  assumes "refbook_rel b bs" "levels_rel s m bs" "set ls \<subseteq> set m"
  shows "concat (map (\<lambda>(p, q). List.map_filter (rb_get b) q) ls) =
     concat (map (\<lambda>p. filter (\<lambda>x. ro_price x = p) (spec_side s bs)) (map fst ls))"
proof -
  have "(case e of (p, q) \<Rightarrow> List.map_filter (rb_get b) q) = filter (\<lambda>x. ro_price x = fst e) (spec_side s bs)"
    if "e \<in> set m" for e
    using levels_rel_entry(1) [OF assms(2), of "fst e" "snd e"] that
      map_filter_group [OF assms(1), of s "fst e"]
    by (simp add: case_prod_beta spec_side_def conj_commute)
  with assms(3) show ?thesis by (induction ls) auto
qed

lemma rb_queue_rel:
  assumes "refbook_rel b bs"
  shows "rb_orders_in_queue_order b s = spec_queue s bs"
proof (cases s)
  case Ask
  have m: "levels_rel Ask (rb_asks b) bs" using rel_parts(5) [OF assms, of Ask] by simp
  then have "sorted_wrt (<) (map fst (rb_asks b))" by (simp add: levels_rel_def om_invar_def)
  from sort_key_groups [OF this, of ro_price "spec_side Ask bs"] levels_rel_keys [OF m]
  show ?thesis using Ask queue_by_levels [OF assms m, where ls = "rb_asks b"]
    by (simp add: rb_orders_in_queue_order_def spec_queue_def)
next
  case Bid
  have m: "levels_rel Bid (rb_bids b) bs" using rel_parts(5) [OF assms, of Bid] by simp
  let ?ks = "map uminus (map fst (rev (rb_bids b)))"
  have "sorted_wrt (<) (map fst (rb_bids b))" using m by (simp add: levels_rel_def om_invar_def)
  then have "sorted_wrt (<) ?ks" by (simp add: sorted_wrt_map sorted_wrt_rev rev_map [symmetric])
  moreover have "(\<lambda>x. - ro_price x) ` set (spec_side Bid bs) \<subseteq> set ?ks"
  proof -
    have "ro_price ` set (spec_side Bid bs) = set (map fst (rev (rb_bids b)))" using levels_rel_keys [OF m] by simp
    then have "uminus ` ro_price ` set (spec_side Bid bs) = set ?ks" by (simp only: set_map)
    then show ?thesis by (simp only: image_image order_refl)
  qed
  ultimately have "concat (map (\<lambda>k. filter (\<lambda>x. - ro_price x = k) (spec_side Bid bs)) ?ks)
      = sort_key (\<lambda>x. - ro_price x) (spec_side Bid bs)"
    by (rule sort_key_groups)
  then show ?thesis using Bid queue_by_levels [OF assms m, where ls = "rev (rb_bids b)"]
    by (simp add: rb_orders_in_queue_order_def spec_queue_def comp_def)
qed

lemma rb_front_rel:
  assumes "refbook_rel b bs"
  shows "rb_front b s = (case spec_queue s bs of [] \<Rightarrow> None | x # _ \<Rightarrow> Some (ro_price x, ro_order_id x))"
proof -
  let ?ls = "rb_levels_best_first b s"
  have m: "levels_rel s (rb_side s b) bs" by (rule rel_parts(5) [OF assms])
  have set_ls: "set ?ls = set (rb_side s b)" by (cases s) auto
  have q: "spec_queue s bs = concat (map (\<lambda>(p, q). List.map_filter (rb_get b) q) ?ls)"
    using rb_queue_rel [OF assms, of s] by (simp add: rb_orders_in_queue_order_def)
  show ?thesis
  proof (cases ?ls)
    case Nil
    then show ?thesis using q by (simp add: rb_front_def)
  next
    case (Cons e es)
    have "(fst e, snd e) \<in> set (rb_side s b)" using Cons set_ls by auto
    from levels_rel_entry [OF m this] obtain p i js where e: "e = (p, i # js)" "i # js = level_group s p bs"
      by (cases e; cases "snd e") auto
    then have "List.map_filter (rb_get b) (i # js) = filter (\<lambda>x. ro_side x = s \<and> ro_price x = p) bs"
      using map_filter_group [OF assms] by simp
    moreover obtain x xs where f: "filter (\<lambda>x. ro_side x = s \<and> ro_price x = p) bs = x # xs" "i = ro_order_id x"
      using e(2) by (auto simp: level_group_def map_eq_Cons_conv Cons_eq_map_conv)
    moreover have "ro_price x = p" using Cons_eq_filterD [OF f(1) [symmetric]] by auto
    ultimately show ?thesis using q Cons e(1) by (simp add: rb_front_def)
  qed
qed

lemma remdups_adj_groups:
  assumes "sorted_wrt (<) ks \<or> sorted_wrt (>) (ks :: int list)" "\<And>k. k \<in> set ks \<Longrightarrow> filter (\<lambda>x. f x = k) xs \<noteq> []"
  shows "remdups_adj (map f (concat (map (\<lambda>k. filter (\<lambda>x. f x = k) xs) ks))) = ks"
proof -
  have dist: "distinct ks"
    using assms(1) by (auto simp: strict_sorted_iff distinct_conv_nth sorted_wrt_iff_nth_less neq_iff)
  have const: "map f (filter (\<lambda>x. f x = k) xs) = replicate (length (filter (\<lambda>x. f x = k) xs)) k" for k
    by (induction xs) auto
  have step: "remdups_adj (replicate (Suc n) k @ ys) = k # remdups_adj ys" if "k \<notin> set ys" for n and k :: int and ys
    using that by (induction n) (cases ys; auto)+
  show ?thesis using dist assms(2)
  proof (induction ks)
    case (Cons k ks)
    let ?rest = "map f (concat (map (\<lambda>k. filter (\<lambda>x. f x = k) xs) ks))"
    obtain n where n: "length (filter (\<lambda>x. f x = k) xs) = Suc n" using Cons.prems(2) [of k] by (cases "filter (\<lambda>x. f x = k) xs") auto
    have "k \<notin> set ?rest" using Cons.prems(1) by auto
    then show ?case using Cons step [of k ?rest n] const [of k] n by simp
  qed simp
qed

lemma best_first_facts:
  assumes "refbook_rel b bs"
  shows "set (rb_levels_best_first b s) = set (rb_side s b)"
    and "sorted_wrt (<) (map fst (rb_levels_best_first b s)) \<or> sorted_wrt (>) (map fst (rb_levels_best_first b s))"
    and "length (rb_levels_best_first b s) = length (rb_side s b)"
proof -
  have "sorted_wrt (<) (map fst (rb_side s b))"
    using rel_parts(5) [OF assms, of s] by (simp add: levels_rel_def om_invar_def)
  then show "sorted_wrt (<) (map fst (rb_levels_best_first b s)) \<or> sorted_wrt (>) (map fst (rb_levels_best_first b s))"
    by (cases s) (auto simp: rev_map [symmetric] sorted_wrt_rev)
  show "set (rb_levels_best_first b s) = set (rb_side s b)" by (cases s) auto
  show "length (rb_levels_best_first b s) = length (rb_side s b)" by (cases s) auto
qed

lemma rb_emit_level_rel:
  assumes "refbook_rel b bs" "e \<in> set (rb_side s b)"
  shows "rb_emit_level b e = \<lparr>lv_price = fst e,
     lv_quantity = sum_list (map ro_quantity (filter (\<lambda>x. ro_price x = fst e) (spec_queue s bs))),
     lv_order_count = min (length (filter (\<lambda>x. ro_price x = fst e) (spec_queue s bs))) u32_max\<rparr>"
proof -
  have q: "snd e = level_group s (fst e) bs"
    using levels_rel_entry(1) [OF rel_parts(5) [OF assms(1)], of "fst e" "snd e" s] assms(2) by simp
  have "List.map_filter (rb_get b) (snd e) = filter (\<lambda>x. ro_price x = fst e) (spec_queue s bs)"
    by (simp add: q map_filter_group [OF assms(1)] spec_queue_time spec_side_def conj_commute)
  moreover have "length (snd e) = length (filter (\<lambda>x. ro_price x = fst e) (spec_queue s bs))"
    by (simp add: q level_group_def spec_queue_time spec_side_def conj_commute)
  ultimately show ?thesis by (simp add: rb_emit_level_def case_prod_beta)
qed

lemma rb_levels_rel:
  assumes "refbook_rel b bs"
  shows "map (rb_emit_level b) (rb_levels_best_first b s) = spec_levels s bs"
proof -
  let ?ls = "rb_levels_best_first b s"
  have m: "levels_rel s (rb_side s b) bs" by (rule rel_parts(5) [OF assms])
  have sub: "set ?ls \<subseteq> set (rb_side s b)" using best_first_facts(1) [OF assms] by simp
  have "spec_queue s bs = concat (map (\<lambda>p. filter (\<lambda>x. ro_price x = p) (spec_side s bs)) (map fst ?ls))"
    using queue_by_levels [OF assms m sub] rb_queue_rel [OF assms, of s]
    by (simp add: rb_orders_in_queue_order_def)
  moreover have "filter (\<lambda>x. ro_price x = k) (spec_side s bs) \<noteq> []" if "k \<in> set (map fst ?ls)" for k
    using that levels_rel_keys [OF m] best_first_facts(1) [OF assms, of s] by (auto simp: filter_empty_conv)
  ultimately have "remdups_adj (map ro_price (spec_queue s bs)) = map fst ?ls"
    using remdups_adj_groups [OF best_first_facts(2) [OF assms], of s ro_price "spec_side s bs"] by simp
  then show ?thesis
    using rb_emit_level_rel [OF assms] sub by (auto simp: spec_levels_def intro!: map_cong)
qed

lemma rb_for_each_level_rel:
  "refbook_rel b bs \<Longrightarrow>
     rb_for_each_level b s depth = (if depth = 0 then spec_levels s bs else take depth (spec_levels s bs))"
  by (simp add: rb_for_each_level_def Let_def rb_levels_rel [symmetric] take_map)

lemma rb_level_count_rel:
  "refbook_rel b bs \<Longrightarrow> rb_level_count b s depth = length (rb_for_each_level b s depth)"
  by (simp add: rb_level_count_def rb_for_each_level_def Let_def best_first_facts(3))

lemma count_filed:
  assumes "refbook_rel b bs"
  shows "sum_list (map (\<lambda>e. length (snd e)) (rb_side s b)) = length (spec_side s bs)"
proof -
  let ?ls = "rb_levels_best_first b s"
  have e: "length (snd e) = length (List.map_filter (rb_get b) (snd e))" if "e \<in> set ?ls" for e
  proof -
    have "snd e = level_group s (fst e) bs"
      using that best_first_facts(1) [OF assms, of s] levels_rel_entry(1) [OF rel_parts(5) [OF assms], of "fst e" "snd e" s]
      by simp
    then show ?thesis by (simp add: map_filter_group [OF assms]) (simp add: level_group_def)
  qed
  have "sum_list (map (\<lambda>e. length (snd e)) ?ls) = length (rb_orders_in_queue_order b s)"
    using e by (simp add: rb_orders_in_queue_order_def length_concat comp_def case_prod_beta cong: map_cong)
  moreover have "sum_list (map (\<lambda>e. length (snd e)) ?ls) = sum_list (map (\<lambda>e. length (snd e)) (rb_side s b))"
    by (cases s) (simp_all add: rev_map [symmetric] sum_list_rev)
  ultimately show ?thesis by (simp add: rb_queue_rel [OF assms] spec_queue_def)
qed

lemma rb_check_rel:
  assumes "refbook_rel b bs"
  shows "rb_check_invariants b"
proof -
  have "rb_side_ok b s" for s
    unfolding rb_side_ok_def list_all_iff
  proof (intro ballI, clarify)
    fix p q assume pq: "(p, q) \<in> set (rb_side s b)"
    note ent = levels_rel_entry [OF rel_parts(5) [OF assms] pq]
    have "\<exists>x. rb_get b i = Some x \<and> ro_price x = p \<and> ro_side x = s \<and> ro_quantity x \<noteq> 0"
      if mem: "i \<in> set q" for i
    proof -
      obtain x where x: "x \<in> set bs" "i = ro_order_id x" "ro_side x = s" "ro_price x = p"
        using mem by (auto simp: ent(1) level_group_def)
      then have "rb_get b i = Some x"
        using spec_get_Some_iff [OF rel_parts(2) [OF assms]] by (simp add: rb_get_def rel_parts(4) [OF assms])
      then show ?thesis using x rel_parts(1) [OF assms] by (auto simp: spec_wf_def list_all_iff)
    qed
    then show "q \<noteq> [] \<and> (\<forall>i\<in>set q. case rb_get b i of None \<Rightarrow> False
       | Some x \<Rightarrow> ro_price x = p \<and> ro_side x = s \<and> ro_quantity x \<noteq> 0)"
      using ent by fastforce
  qed
  moreover have "length (spec_side Bid bs) + length (spec_side Ask bs) = length bs"
  proof -
    have "spec_side Ask bs = filter (\<lambda>x. ro_side x \<noteq> Bid) bs"
      unfolding spec_side_def by (rule filter_cong) (auto intro: side.exhaust [of "ro_side _"])
    then show ?thesis using sum_length_filter_compl [of "\<lambda>x. ro_side x = Bid" bs] by (simp add: spec_side_def)
  qed
  ultimately show ?thesis
    using count_filed [OF assms, of Bid] count_filed [OF assms, of Ask] rb_len_rel [OF assms]
    by (simp add: rb_check_invariants_def)
qed

lemma rel_new: "refbook_rel refbook_new []"
  by (simp add: refbook_rel_def refbook_new_def spec_wf_def spec_get_def levels_rel_def level_group_def nonempty_def)

interpretation ref: order_book refbook_ops refbook_rel False "\<lambda>_ _. True"
proof unfold_locales
  fix b bs i s p q b' r
  assume rel: "refbook_rel b bs"
  then show "spec_wf bs" by (rule rel_parts)
  show "ob_add refbook_ops b i s p q = (b', r) \<Longrightarrow>
       (case r of Ok _ \<Rightarrow> \<exists>cs. spec_add i s p q bs = Ok cs \<and> refbook_rel b' cs
        | Err e \<Rightarrow> refbook_rel b' bs \<and> (spec_add i s p q bs = Err e \<or> False \<and> capacity_error e) | Panic \<Rightarrow> False)"
    using rb_add_rel [OF rel, of i s p q] rel by (auto simp: refbook_ops_def split: outcome.splits)
  show "ob_reduce refbook_ops b i q = (b', r) \<Longrightarrow>
       (case r of Ok _ \<Rightarrow> \<exists>cs. spec_reduce i q bs = Ok cs \<and> refbook_rel b' cs
        | Err e \<Rightarrow> refbook_rel b' bs \<and> (\<exists>e'. spec_reduce i q bs = Err e') | Panic \<Rightarrow> False)"
    using rb_reduce_rel [OF rel, of i q] rel by (auto simp: refbook_ops_def split: outcome.splits)
  show "ob_replace refbook_ops b i p q = (b', r) \<Longrightarrow>
       (case r of Ok _ \<Rightarrow> \<exists>cs. spec_replace i p q bs = Ok cs \<and> refbook_rel b' cs
        | Err e \<Rightarrow> refbook_rel b' bs \<and> (spec_replace i p q bs = Err e \<or> False \<and> capacity_error e) | Panic \<Rightarrow> False)"
    using rb_replace_rel [OF rel, of i p q] rel by (auto simp: refbook_ops_def split: outcome.splits)
  show "ob_get refbook_ops b i = spec_get i bs"
    using rel_parts(4) [OF rel] by (simp add: refbook_ops_def rb_get_def)
  show "ob_len refbook_ops b = length bs" using rb_len_rel [OF rel] by (simp add: refbook_ops_def)
  show "ob_for_each_order refbook_ops b s = spec_queue s bs" using rb_queue_rel [OF rel] by (simp add: refbook_ops_def)
  show "refbook_rel (ob_clear refbook_ops b) []"
    using rel_new by (simp add: refbook_ops_def rb_clear_def refbook_new_def)
next
  fix b bs i b' d
  assume "refbook_rel b bs" "ob_delete refbook_ops b i = (b', d)"
  then show "case d of Ok x \<Rightarrow> \<exists>cs. spec_delete i bs = Ok (x, cs) \<and> refbook_rel b' cs
        | Err e \<Rightarrow> refbook_rel b' bs \<and> spec_delete i bs = Err e | Panic \<Rightarrow> False"
    using rb_delete_rel [of b bs i] by (auto simp: refbook_ops_def split: outcome.splits)
qed

lemma call_rel:
  assumes "refbook_rel b bs" "rb_call c b = (b', r)" "spec_call c bs = (cs, r')"
  shows "r = r' \<and> refbook_rel b' cs"
proof (cases c)
  case (CallAdd i s p q)
  then show ?thesis using assms rb_add_rel [OF assms(1), of i s p q] by (auto split: outcome.splits)
next
  case (CallDelete i)
  then show ?thesis using assms rb_delete_rel [OF assms(1), of i] by (auto split: outcome.splits)
next
  case (CallReduce i q)
  then show ?thesis using assms rb_reduce_rel [OF assms(1), of i q] by (auto split: outcome.splits)
next
  case (CallReplace i p q)
  then show ?thesis using assms rb_replace_rel [OF assms(1), of i p q] by (auto split: outcome.splits)
next
  case CallClear
  then show ?thesis using assms rel_new by (auto simp: rb_clear_def refbook_new_def)
qed

lemma run_calls_rel:
  assumes "refbook_rel b bs"
  shows "snd (run_calls rb_call cs b) = snd (run_calls spec_call cs bs) \<and>
     refbook_rel (fst (run_calls rb_call cs b)) (fst (run_calls spec_call cs bs))"
  using assms
proof (induction cs arbitrary: b bs)
  case (Cons c cs)
  obtain b1 r bs1 r' where step: "rb_call c b = (b1, r)" "spec_call c bs = (bs1, r')" by fastforce
  from call_rel [OF Cons.prems this] Cons.IH [of b1 bs1] step show ?case
    by (auto simp: case_prod_beta)
qed simp

section \<open>Properties\<close>

text \<open>C3: the reference book refines the abstract book. Along any sequence of add, delete, reduce,
  replace and clear calls on a new book, every call returns exactly what the specification returns,
  errors included, and at the end every view agrees: lookups, the number of orders, the front of
  each side, the aggregated levels at any depth with their count, and the full queue order of each
  side. The book's own \<open>check_invariants\<close> accepts the state.\<close>

theorem reference_book_refines_spec:
  "case run_calls rb_call calls refbook_new of (b, rs) \<Rightarrow>
     case run_calls spec_call calls [] of (bs, ss) \<Rightarrow>
       rs = ss \<and> spec_wf bs \<and> rb_check_invariants b \<and> rb_len b = length bs \<and>
       (\<forall>i. rb_get b i = spec_get i bs) \<and>
       (\<forall>s. rb_orders_in_queue_order b s = spec_queue s bs \<and>
            rb_front b s = (case spec_queue s bs of [] \<Rightarrow> None | x # _ \<Rightarrow> Some (ro_price x, ro_order_id x)) \<and>
            (\<forall>depth. rb_for_each_level b s depth =
                 (if depth = 0 then spec_levels s bs else take depth (spec_levels s bs)) \<and>
               rb_level_count b s depth = length (rb_for_each_level b s depth)))"
proof -
  obtain b rs bs ss where run: "run_calls rb_call calls refbook_new = (b, rs)" "run_calls spec_call calls [] = (bs, ss)"
    by fastforce
  then have rel: "refbook_rel b bs" "rs = ss" using run_calls_rel [OF rel_new, of calls] by auto
  show ?thesis using rel_parts [OF rel(1)]
    by (simp add: run rel(2) rb_check_rel [OF rel(1)] rb_len_rel [OF rel(1)] rb_get_def rb_queue_rel [OF rel(1)]
        rb_front_rel [OF rel(1)] rb_for_each_level_rel [OF rel(1)] rb_level_count_rel [OF rel(1)])
qed

text \<open>Price-time priority. On any reachable reference book, the order \<open>front\<close> names is resting on
  that side, no order on the side has a better price, and every order at the same price arrived (or
  last lost its priority) later.\<close>

lemma reference_front_priority:
  assumes "refbook_rel b bs" "rb_front b s = Some (p, i)"
  shows "\<exists>earlier x later. bs = earlier @ x # later \<and> ro_order_id x = i \<and> ro_price x = p \<and> ro_side x = s \<and>
     list_all (\<lambda>y. ro_side y = s \<longrightarrow> price_rank s p < price_rank s (ro_price y)) earlier \<and>
     list_all (\<lambda>y. ro_side y = s \<longrightarrow> price_rank s p \<le> price_rank s (ro_price y)) later"
proof -
  obtain x xs where q: "spec_queue s bs = x # xs" and px: "p = ro_price x" "i = ro_order_id x"
    using assms by (auto simp: rb_front_rel split: list.splits)
  have best: "price_rank s p \<le> price_rank s (ro_price y)" if "y \<in> set bs" "ro_side y = s" for y
    using spec_queue_best [OF that q] px by simp
  have "filter (\<lambda>y. ro_price y = p) (spec_side s bs) = x # filter (\<lambda>y. ro_price y = p) xs"
    using spec_queue_time [of p s bs] q px by simp
  then have "x # filter (\<lambda>y. ro_price y = p) xs = filter (\<lambda>y. ro_side y = s \<and> ro_price y = p) bs"
    by (simp add: spec_side_def conj_commute)
  from Cons_eq_filterD [OF this] obtain us vs where split: "bs = us @ x # vs"
      "\<forall>u\<in>set us. \<not> (ro_side u = s \<and> ro_price u = p)" "ro_side x = s"
    by auto
  have "list_all (\<lambda>y. ro_side y = s \<longrightarrow> price_rank s p < price_rank s (ro_price y)) us"
    using split best by (cases s) (fastforce simp: list_all_iff)+
  moreover have "list_all (\<lambda>y. ro_side y = s \<longrightarrow> price_rank s p \<le> price_rank s (ro_price y)) vs"
    using split best by (auto simp: list_all_iff)
  ultimately show ?thesis using split px by blast
qed

end
