(* ===== verification/Apply.thy ===== *)
theory Apply
  imports SnapshotCodec RefBook
begin

text \<open>
  Turning decoded messages into book changes (\<open>crates/book/src/apply.rs\<close>), over any book that meets
  the \<open>order_book\<close> contract. A set of books is an ordered map from symbol ids; \<open>get_or_create\<close>
  inserts a new book, which stays even when the operation that follows refuses.
\<close>

section \<open>Sets of books\<close>

type_synonym 'b books = "(nat, 'b) omap"

definition get_or_create :: "'b \<Rightarrow> nat \<Rightarrow> 'b books \<Rightarrow> 'b \<times> 'b books" where
  "get_or_create new symbol_id bks =
     (case om_get symbol_id bks of Some b \<Rightarrow> (b, bks) | None \<Rightarrow> (new, om_insert symbol_id new bks))"

definition books_clear_symbol :: "'b book_ops \<Rightarrow> nat \<Rightarrow> 'b books \<Rightarrow> 'b books" where
  "books_clear_symbol ops symbol_id bks =
     (case om_get symbol_id bks of None \<Rightarrow> bks | Some b \<Rightarrow> om_insert symbol_id (ob_clear ops b) bks)"

definition books_clear_all :: "'b book_ops \<Rightarrow> 'b books \<Rightarrow> 'b books" where
  "books_clear_all ops bks = map (\<lambda>(y, b). (y, ob_clear ops b)) bks"

definition books_total_orders :: "'b book_ops \<Rightarrow> 'b books \<Rightarrow> nat" where
  "books_total_orders ops bks = sum_list (map (\<lambda>(y, b). ob_len ops b) bks)"

section \<open>Applying messages\<close>

datatype apply_error =
    BookErr nat book_error
  | WireErr wire_error
  | SnapshotOverlap nat nat

text \<open>\<open>accessor()?\<close> in a function that has already reached \<open>st\<close>.\<close>

definition with_read :: "'s \<Rightarrow> (wire_error, 'a) outcome \<Rightarrow> ('a \<Rightarrow> 's \<times> (apply_error, 'r) outcome)
    \<Rightarrow> 's \<times> (apply_error, 'r) outcome" where
  "with_read st r k = (case r of Ok x \<Rightarrow> k x | Err e \<Rightarrow> (st, Err (WireErr e)) | Panic \<Rightarrow> (st, Panic))"

definition store_book :: "nat \<Rightarrow> 'b books \<Rightarrow> 'b \<times> (book_error, 'r) outcome \<Rightarrow> 'b books \<times> (apply_error, unit) outcome" where
  "store_book symbol_id bks br =
     (case br of (b', r) \<Rightarrow> (om_insert symbol_id b' bks, map_err (BookErr symbol_id) (obind r (\<lambda>_. Ok ()))))"

fun add_snapshot_orders :: "'b book_ops \<Rightarrow> nat \<Rightarrow> bytes list \<Rightarrow> 'b \<Rightarrow> 'b \<times> (apply_error, unit) outcome" where
  "add_snapshot_orders ops symbol_id [] book = (book, Ok ())"
| "add_snapshot_orders ops symbol_id (e # es) book =
     with_read book (SnapshotOrder_side e) (\<lambda>side.
     with_read book (SnapshotOrder_order_id e) (\<lambda>order_id.
     with_read book (SnapshotOrder_price e) (\<lambda>price.
     with_read book (SnapshotOrder_quantity e) (\<lambda>quantity.
     case ob_add ops book order_id side price quantity of
       (book', Ok _) \<Rightarrow> add_snapshot_orders ops symbol_id es book'
     | (book', Err (DuplicateOrderId i)) \<Rightarrow> (book', Err (SnapshotOverlap symbol_id i))
     | (book', Err e') \<Rightarrow> (book', Err (BookErr symbol_id e'))
     | (book', Panic) \<Rightarrow> (book', Panic)))))"

definition apply_snapshot_orders :: "'b book_ops \<Rightarrow> 'b \<Rightarrow> 'b books \<Rightarrow> decoder \<Rightarrow> 'b books \<times> (apply_error, unit) outcome" where
  "apply_snapshot_orders ops new bks d =
     with_read bks (Snapshot_symbol_id d) (\<lambda>symbol_id.
     case get_or_create new symbol_id bks of (book, bks1) \<Rightarrow>
     with_read bks1 (snapshot_entries d) (\<lambda>es.
     case add_snapshot_orders ops symbol_id es book of
       (book', r) \<Rightarrow> (om_insert symbol_id book' bks1, r)))"

definition apply_snapshot :: "'b book_ops \<Rightarrow> 'b \<Rightarrow> 'b books \<Rightarrow> decoder \<Rightarrow> 'b books \<times> (apply_error, unit) outcome" where
  "apply_snapshot ops new bks d =
     with_read bks (Snapshot_symbol_id d) (\<lambda>symbol_id.
     apply_snapshot_orders ops new (books_clear_symbol ops symbol_id bks) d)"

fun apply_message :: "'b book_ops \<Rightarrow> 'b \<Rightarrow> 'b books \<Rightarrow> message \<Rightarrow> 'b books \<times> (apply_error, unit) outcome" where
  "apply_message ops new bks (AddOrder d) =
     with_read bks (AddOrder_symbol_id d) (\<lambda>symbol_id.
     with_read bks (AddOrder_side d) (\<lambda>side.
     case get_or_create new symbol_id bks of (book, bks1) \<Rightarrow>
     with_read bks1 (AddOrder_order_id d) (\<lambda>order_id.
     with_read bks1 (AddOrder_price d) (\<lambda>price.
     with_read bks1 (AddOrder_quantity d) (\<lambda>quantity.
     store_book symbol_id bks1 (ob_add ops book order_id side price quantity))))))"
| "apply_message ops new bks (ModifyOrder d) =
     with_read bks (ModifyOrder_symbol_id d) (\<lambda>symbol_id.
     case get_or_create new symbol_id bks of (book, bks1) \<Rightarrow>
     with_read bks1 (ModifyOrder_reason d) (\<lambda>reason.
     with_read bks1 (ModifyOrder_order_id d) (\<lambda>order_id.
     case reason of
       Reduce \<Rightarrow> with_read bks1 (ModifyOrder_new_quantity d) (\<lambda>new_quantity.
         store_book symbol_id bks1 (ob_reduce ops book order_id new_quantity))
     | Replace \<Rightarrow> with_read bks1 (ModifyOrder_new_price d) (\<lambda>new_price.
         with_read bks1 (ModifyOrder_new_quantity d) (\<lambda>new_quantity.
         store_book symbol_id bks1 (ob_replace ops book order_id new_price new_quantity))))))"
| "apply_message ops new bks (DeleteOrder d) =
     with_read bks (DeleteOrder_symbol_id d) (\<lambda>symbol_id.
     case get_or_create new symbol_id bks of (book, bks1) \<Rightarrow>
     with_read bks1 (DeleteOrder_order_id d) (\<lambda>order_id.
     store_book symbol_id bks1 (ob_delete ops book order_id)))"
| "apply_message ops new bks (Trade d) = (bks, Ok ())"
| "apply_message ops new bks (Heartbeat d) = (bks, Ok ())"
| "apply_message ops new bks (SequenceReset d) = (bks, Ok ())"
| "apply_message ops new bks (Snapshot d) = apply_snapshot_orders ops new bks d"

lemma with_read_Ok [simp]: "with_read st (Ok x) k = k x"
  by (simp add: with_read_def)

section \<open>The abstract effect of a feed event\<close>

type_synonym spec_books = "nat \<Rightarrow> spec_book"

fun spec_apply :: "feed_event \<Rightarrow> spec_books \<Rightarrow> (book_error, spec_books) outcome" where
  "spec_apply (EvAdd i p q y s) sp = obind (spec_add i s p q (sp y)) (\<lambda>bs. Ok (sp(y := bs)))"
| "spec_apply (EvModify i p q y s Reduce) sp = obind (spec_reduce i q (sp y)) (\<lambda>bs. Ok (sp(y := bs)))"
| "spec_apply (EvModify i p q y s Replace) sp = obind (spec_replace i p q (sp y)) (\<lambda>bs. Ok (sp(y := bs)))"
| "spec_apply (EvDelete i y s) sp = obind (spec_delete i (sp y)) (\<lambda>(_, bs). Ok (sp(y := bs)))"
| "spec_apply (EvTrade t a r p q y s) sp = Ok sp"
| "spec_apply (EvHeartbeat n) sp = Ok sp"
| "spec_apply (EvReset n) sp = Ok sp"

definition books_rel :: "('b \<Rightarrow> spec_book \<Rightarrow> bool) \<Rightarrow> 'b books \<Rightarrow> spec_books \<Rightarrow> bool" where
  "books_rel rel bks sp \<longleftrightarrow> om_invar bks \<and>
     (\<forall>y. (om_get y bks = None \<longrightarrow> sp y = []) \<and> (\<forall>b. om_get y bks = Some b \<longrightarrow> rel b (sp y)))"

lemma books_rel_invar: "books_rel rel bks sp \<Longrightarrow> om_invar bks"
  by (simp add: books_rel_def)

lemma books_rel_insert:
  "books_rel rel bks sp \<Longrightarrow> rel b bs \<Longrightarrow> books_rel rel (om_insert y b bks) (sp(y := bs))"
  by (auto simp: books_rel_def om_get_insert om_invar_insert)

lemma books_rel_empty: "books_rel rel [] (\<lambda>_. [])"
  by (simp add: books_rel_def)

section \<open>Snapshot fragments\<close>

definition so_resting :: "snapshot_order \<Rightarrow> resting_order" where
  "so_resting x = \<lparr>ro_order_id = so_id x, ro_price = so_price x, ro_quantity = so_qty x, ro_side = so_side x\<rparr>"

definition resting_so :: "resting_order \<Rightarrow> snapshot_order" where
  "resting_so x = SnapOrder (ro_order_id x) (ro_price x) (ro_quantity x) (ro_side x)"

definition fragment_of :: "nat \<Rightarrow> snapshot_order list \<Rightarrow> decoder \<Rightarrow> bool" where
  "fragment_of y xs d \<longleftrightarrow> Snapshot_symbol_id d = Ok y \<and>
     (\<exists>es. snapshot_entries d = Ok es \<and> map view_entry es = map Ok xs)"

fun apply_all :: "'b book_ops \<Rightarrow> 'b \<Rightarrow> 'b books \<Rightarrow> message list \<Rightarrow> 'b books \<times> (apply_error, unit) outcome" where
  "apply_all ops new bks [] = (bks, Ok ())"
| "apply_all ops new bks (m # ms) =
     (case apply_message ops new bks m of (bks', Ok _) \<Rightarrow> apply_all ops new bks' ms | (bks', r) \<Rightarrow> (bks', r))"

lemma so_resting_inverse [simp]: "so_resting (resting_so x) = x" "resting_so (so_resting z) = z"
  by (simp_all add: so_resting_def resting_so_def)

text \<open>A snapshot lists each side in queue order; re-adding the orders in that order reproduces both queues.\<close>

lemma spec_queue_of_queues:
  "spec_queue s (spec_queue Bid bs @ spec_queue Ask bs) = spec_queue s bs"
proof -
  have "spec_side s (spec_queue t bs) = (if s = t then spec_queue t bs else [])" for t
    using set_spec_queue [of t bs] by (auto simp: spec_side_def intro!: filter_True filter_False)
  then have "spec_side s (spec_queue Bid bs @ spec_queue Ask bs) = spec_queue s bs"
    by (cases s) (simp_all add: spec_side_def)
  moreover have "sort_key (\<lambda>x. price_rank s (ro_price x)) (spec_queue s bs) = spec_queue s bs"
    by (rule properties_for_sort_key) (simp_all add: spec_queue_sorted)
  ultimately show ?thesis by (simp add: spec_queue_def [of s "_ @ _"])
qed

lemma mset_spec_queues: "mset (spec_queue Bid bs @ spec_queue Ask bs) = mset bs"
proof -
  have "filter (\<lambda>x. ro_side x = Ask) bs = filter (\<lambda>x. ro_side x \<noteq> Bid) bs"
    by (rule filter_cong) (auto intro: side.exhaust [of "ro_side _"])
  then show ?thesis
    by (simp add: spec_queue_def spec_side_def mset_filter multiset_partition [of "mset bs" "\<lambda>x. ro_side x = Bid", symmetric])
qed

lemma spec_wf_queues: "spec_wf bs \<Longrightarrow> spec_wf (spec_queue Bid bs @ spec_queue Ask bs)"
  using mset_eq_imp_distinct_iff [of "map ro_order_id (spec_queue Bid bs @ spec_queue Ask bs)" "map ro_order_id bs"]
    mset_eq_setD [OF mset_spec_queues [of bs]] mset_spec_queues [of bs]
  by (simp only: spec_wf_def list_all_iff mset_map) simp

section \<open>A set of books over the contract\<close>

text \<open>The prices and quantities an event asks the book to file.\<close>

fun event_within :: "(int \<Rightarrow> nat \<Rightarrow> bool) \<Rightarrow> feed_event \<Rightarrow> bool" where
  "event_within ok (EvAdd i p q y s) = ok p q"
| "event_within ok (EvModify i p q y s Replace) = ok p q"
| "event_within ok ev = True"

lemma event_within_all: "(\<And>p q. ok p q) \<Longrightarrow> event_within ok ev"
  by (cases "(ok, ev)" rule: event_within.cases) auto

definition book_refusal :: "apply_error \<Rightarrow> bool" where
  "book_refusal e = (case e of BookErr y c \<Rightarrow> capacity_error c | _ \<Rightarrow> False)"

locale book_set = order_book ops rel capped within
  for ops :: "'b book_ops" and rel :: "'b \<Rightarrow> spec_book \<Rightarrow> bool" and capped :: bool and within :: "int \<Rightarrow> nat \<Rightarrow> bool" +
  fixes new :: 'b
  assumes rel_new_book: "rel new []"
begin

lemma get_or_create_sim:
  assumes "books_rel rel bks sp" "get_or_create new y bks = (b, bks1)"
  shows "rel b (sp y)" "books_rel rel bks1 sp"
proof -
  have y: "om_get y bks = None \<Longrightarrow> sp y = []" "\<And>b. om_get y bks = Some b \<Longrightarrow> rel b (sp y)"
    using assms(1) by (auto simp: books_rel_def)
  show "rel b (sp y)" using y assms(2) rel_new_book by (auto simp: get_or_create_def split: option.splits)
  show "books_rel rel bks1 sp"
  proof (cases "om_get y bks")
    case None
    then have "sp(y := []) = sp" using y by (simp add: fun_upd_idem)
    then show ?thesis using None assms books_rel_insert [OF assms(1) rel_new_book, of y]
      by (auto simp: get_or_create_def)
  next
    case (Some a)
    then show ?thesis using assms by (simp add: get_or_create_def)
  qed
qed

lemma store_sim:
  assumes "books_rel rel bks sp" "case r of Ok _ \<Rightarrow> \<exists>bs. sop = Ok bs \<and> rel b' bs
        | Err e \<Rightarrow> rel b' (sp y) \<and> ((\<exists>e'. sop = Err e') \<or> capped \<and> capacity_error e) | Panic \<Rightarrow> False"
    and "store_book y bks (b', r) = (bks', r')"
  shows "case r' of Ok _ \<Rightarrow> \<exists>bs. sop = Ok bs \<and> books_rel rel bks' (sp(y := bs))
        | Err e \<Rightarrow> books_rel rel bks' sp \<and> ((\<exists>e'. sop = Err e') \<or> capped \<and> book_refusal e) | Panic \<Rightarrow> False"
  using assms books_rel_insert [OF assms(1), of b' "sp y" y] books_rel_insert [OF assms(1), of b']
  by (cases r) (auto simp: store_book_def fun_upd_triv book_refusal_def)

lemma apply_message_sim:
  assumes rel: "books_rel rel bks sp" and view: "view_event m = Ok ev" and ok: "event_within within ev"
    and app: "apply_message ops new bks m = (bks', r)"
  shows "case r of Ok _ \<Rightarrow> \<exists>sp'. spec_apply ev sp = Ok sp' \<and> books_rel rel bks' sp'
     | Err e \<Rightarrow> books_rel rel bks' sp \<and> ((\<exists>e'. spec_apply ev sp = Err e') \<or> capped \<and> book_refusal e)
     | Panic \<Rightarrow> False"
proof (cases m)
  case (AddOrder d)
  with view obtain i p q y s where ev: "ev = EvAdd i p q y s" "AddOrder_order_id d = Ok i" "AddOrder_price d = Ok p"
      "AddOrder_quantity d = Ok q" "AddOrder_symbol_id d = Ok y" "AddOrder_side d = Ok s"
    by (auto simp: outcome_simps)
  obtain b bks1 where g: "get_or_create new y bks = (b, bks1)" by fastforce
  obtain b' r' where a: "ob_add ops b i s p q = (b', r')" by fastforce
  note sim = get_or_create_sim [OF rel g]
  have "store_book y bks1 (b', r') = (bks', r)" using app AddOrder ev g a by simp
  from store_sim [OF sim(2) _ this, of "spec_add i s p q (sp y)"] add_sim [OF sim(1) _ a] ok
  show ?thesis unfolding ev by (cases r') (auto simp: outcome_simps split: outcome.splits)
next
  case (ModifyOrder d)
  with view obtain i p q y s k where ev: "ev = EvModify i p q y s k" "ModifyOrder_order_id d = Ok i"
      "ModifyOrder_new_price d = Ok p" "ModifyOrder_new_quantity d = Ok q" "ModifyOrder_symbol_id d = Ok y"
      "ModifyOrder_reason d = Ok k"
    by (auto simp: outcome_simps)
  obtain b bks1 where g: "get_or_create new y bks = (b, bks1)" by fastforce
  note sim = get_or_create_sim [OF rel g]
  show ?thesis
  proof (cases k)
    case Reduce
    obtain b' r' where a: "ob_reduce ops b i q = (b', r')" by fastforce
    have "store_book y bks1 (b', r') = (bks', r)" using app ModifyOrder ev g a Reduce by simp
    from store_sim [OF sim(2) _ this, of "spec_reduce i q (sp y)"] reduce_sim [OF sim(1) a]
    show ?thesis unfolding ev Reduce by (cases r') (auto simp: outcome_simps split: outcome.splits)
  next
    case Replace
    obtain b' r' where a: "ob_replace ops b i p q = (b', r')" by fastforce
    have "store_book y bks1 (b', r') = (bks', r)" using app ModifyOrder ev g a Replace by simp
    from store_sim [OF sim(2) _ this, of "spec_replace i p q (sp y)"] replace_sim [OF sim(1) _ a] ok
    show ?thesis unfolding ev Replace by (cases r') (auto simp: outcome_simps split: outcome.splits)
  qed
next
  case (DeleteOrder d)
  with view obtain i y s where ev: "ev = EvDelete i y s" "DeleteOrder_order_id d = Ok i"
      "DeleteOrder_symbol_id d = Ok y"
    by (auto simp: outcome_simps)
  obtain b bks1 where g: "get_or_create new y bks = (b, bks1)" by fastforce
  obtain b' r' where a: "ob_delete ops b i = (b', r')" by fastforce
  note sim = get_or_create_sim [OF rel g]
  have "store_book y bks1 (b', r') = (bks', r)" using app DeleteOrder ev g a by simp
  from store_sim [OF sim(2) _ this, of "obind (spec_delete i (sp y)) (\<lambda>(_, bs). Ok bs)"] delete_sim [OF sim(1) a]
  show ?thesis unfolding ev by (cases r') (auto simp: outcome_simps split: outcome.splits)
qed (use rel view app in \<open>auto simp: outcome_simps\<close>)

lemma clear_symbol_sim:
  "books_rel rel bks sp \<Longrightarrow> books_rel rel (books_clear_symbol ops y bks) (sp(y := []))"
  using clear_sim by (auto simp: books_clear_symbol_def books_rel_def om_get_insert om_invar_insert split: option.splits)

lemma clear_all_sim:
  assumes "books_rel rel bks sp"
  shows "books_rel rel (books_clear_all ops bks) (\<lambda>_. [])"
proof -
  have "om_get y (books_clear_all ops bks) = map_option (ob_clear ops) (om_get y bks)" for y
    unfolding books_clear_all_def by (induction bks) auto
  moreover have "map fst (books_clear_all ops bks) = map fst bks"
    by (auto simp: books_clear_all_def)
  ultimately show ?thesis using assms clear_sim unfolding books_rel_def om_invar_def by fastforce
qed

end

text \<open>A book without capacity limits: every refusal is the specification's.\<close>

locale unbounded_book_set = book_set +
  assumes uncapped: "\<not> capped" and unlimited: "within p q"
begin

lemma apply_message_exact:
  assumes "books_rel rel bks sp" "view_event m = Ok ev"
  shows "case spec_apply ev sp of
      Ok sp' \<Rightarrow> (\<exists>bks'. apply_message ops new bks m = (bks', Ok ()) \<and> books_rel rel bks' sp')
    | Err e \<Rightarrow> (\<exists>bks' e'. apply_message ops new bks m = (bks', Err e') \<and> books_rel rel bks' sp)
    | Panic \<Rightarrow> False"
proof -
  obtain bks' r where app: "apply_message ops new bks m = (bks', r)" by fastforce
  have "spec_apply ev sp \<noteq> Panic"
    by (cases "(ev, sp)" rule: spec_apply.cases) (auto simp: outcome_simps)
  with apply_message_sim [OF assms event_within_all [OF unlimited] app] uncapped app show ?thesis
    by (auto split: outcome.splits)
qed

lemma apply_all_exact:
  assumes "books_rel rel bks sp" "map view_event ms = map Ok evs" "ofold spec_apply evs sp = Ok sp'"
  shows "\<exists>bks'. apply_all ops new bks ms = (bks', Ok ()) \<and> books_rel rel bks' sp'"
  using assms
proof (induction evs arbitrary: bks sp ms)
  case (Cons ev evs)
  obtain m ms' where m: "ms = m # ms'" "view_event m = Ok ev" "map view_event ms' = map Ok evs"
    using Cons.prems(2) by (cases ms) auto
  obtain sp1 where sp1: "spec_apply ev sp = Ok sp1" "ofold spec_apply evs sp1 = Ok sp'"
    using Cons.prems(3) by (auto simp: outcome_simps)
  obtain bks1 where "apply_message ops new bks m = (bks1, Ok ())" "books_rel rel bks1 sp1"
    using apply_message_exact [OF Cons.prems(1) m(2)] sp1(1) by auto
  with Cons.IH [OF _ m(3) sp1(2)] m(1) show ?case by simp
qed auto

lemma add_snapshot_sim:
  assumes "rel b bs" "map view_entry es = map Ok xs" "spec_wf (bs @ map so_resting xs)"
  shows "\<exists>b'. add_snapshot_orders ops y es b = (b', Ok ()) \<and> rel b' (bs @ map so_resting xs)"
  using assms
proof (induction xs arbitrary: es b bs)
  case (Cons x xs)
  obtain e es' where es: "es = e # es'" "view_entry e = Ok x" "map view_entry es' = map Ok xs"
    using Cons.prems(2) by (cases es) auto
  then have rd: "SnapshotOrder_side e = Ok (so_side x)" "SnapshotOrder_order_id e = Ok (so_id x)"
      "SnapshotOrder_price e = Ok (so_price x)" "SnapshotOrder_quantity e = Ok (so_qty x)"
    by (auto simp: view_entry_def outcome_simps)
  obtain b1 r where a: "ob_add ops b (so_id x) (so_side x) (so_price x) (so_qty x) = (b1, r)" by fastforce
  have "spec_wf (bs @ [so_resting x])" using Cons.prems(3) by (auto simp: spec_wf_def)
  then have sp: "spec_add (so_id x) (so_side x) (so_price x) (so_qty x) bs = Ok (bs @ [so_resting x])"
    by (auto simp: spec_add_def spec_wf_append spec_get_None_iff so_resting_def)
  with add_sim [OF Cons.prems(1) unlimited a] uncapped a
  have b1: "r = Ok ()" "rel b1 (bs @ [so_resting x])" by (auto split: outcome.splits)
  from Cons.IH [OF b1(2) es(3)] Cons.prems(3)
  show ?case by (simp add: es(1) rd a b1)
qed auto

lemma apply_fragment_sim:
  assumes "books_rel rel bks sp" "fragment_of y xs d" "spec_wf (sp y @ map so_resting xs)"
  shows "\<exists>bks'. apply_snapshot_orders ops new bks d = (bks', Ok ()) \<and>
     books_rel rel bks' (sp(y := sp y @ map so_resting xs))"
proof -
  obtain es where d: "Snapshot_symbol_id d = Ok y" "snapshot_entries d = Ok es" "map view_entry es = map Ok xs"
    using assms(2) by (auto simp: fragment_of_def)
  obtain b bks1 where g: "get_or_create new y bks = (b, bks1)" by fastforce
  note sim = get_or_create_sim [OF assms(1) g]
  obtain b' where "add_snapshot_orders ops y es b = (b', Ok ())" "rel b' (sp y @ map so_resting xs)"
    using add_snapshot_sim [OF sim(1) d(3) assms(3)] by blast
  then show ?thesis using d g books_rel_insert [OF sim(2)] by (simp add: apply_snapshot_orders_def)
qed

lemma apply_cycle_sim:
  assumes "books_rel rel bks sp" "list_all2 (fragment_of y) xss ds" "spec_wf (sp y @ map so_resting (concat xss))"
  shows "\<exists>bks'. apply_all ops new bks (map Snapshot ds) = (bks', Ok ()) \<and>
     books_rel rel bks' (sp(y := sp y @ map so_resting (concat xss)))"
  using assms(2,1,3)
proof (induction xss ds arbitrary: bks sp rule: list_all2_induct)
  case Nil
  then show ?case by (auto simp: fun_upd_triv)
next
  case (Cons xs xss d ds)
  have "spec_wf (sp y @ map so_resting xs)" using Cons.prems(2) by (auto simp: spec_wf_def)
  from apply_fragment_sim [OF Cons.prems(1) Cons.hyps(1) this] obtain bks1
    where b1: "apply_snapshot_orders ops new bks d = (bks1, Ok ())"
      "books_rel rel bks1 (sp(y := sp y @ map so_resting xs))" by blast
  from Cons.IH [OF b1(2), unfolded fun_upd_upd fun_upd_same] Cons.prems(2) b1(1) show ?case by simp
qed

lemma apply_snapshot_cycle_sim:
  assumes "books_rel rel bks sp" "list_all2 (fragment_of y) (xs # xss) (d # ds)"
    and "spec_wf (map so_resting (concat (xs # xss)))"
  shows "\<exists>bks' bks''. apply_snapshot ops new bks d = (bks', Ok ()) \<and>
     apply_all ops new bks' (map Snapshot ds) = (bks'', Ok ()) \<and>
     books_rel rel bks'' (sp(y := map so_resting (concat (xs # xss))))"
proof -
  have d: "Snapshot_symbol_id d = Ok y" "fragment_of y xs d" using assms(2) by (auto simp: fragment_of_def)
  have "spec_wf ((sp(y := [])) y @ map so_resting xs)" using assms(3) by (auto simp: spec_wf_def)
  from apply_fragment_sim [OF clear_symbol_sim [OF assms(1)] d(2) this, unfolded fun_upd_upd fun_upd_same]
  obtain bks'
    where b: "apply_snapshot ops new bks d = (bks', Ok ())" "books_rel rel bks' (sp(y := map so_resting xs))"
    by (auto simp: apply_snapshot_def d)
  from apply_cycle_sim [OF b(2), of y xss ds, unfolded fun_upd_upd fun_upd_same] assms(2,3) b(1)
  show ?thesis by auto
qed

end

interpretation refset: unbounded_book_set refbook_ops refbook_rel False "\<lambda>_ _. True" refbook_new
  by unfold_locales (simp_all add: rel_new)

section \<open>Properties\<close>

text \<open>Applying a feed message to a set of reference books refines its abstract effect on the symbol
  it names: the books follow the specification when the event fits, and are left equivalent, with an
  error, when it does not. Applying a decoded message never panics.\<close>

lemma apply_message_refines:
  assumes "books_rel refbook_rel bks sp" "view_event m = Ok ev"
  shows "case spec_apply ev sp of
      Ok sp' \<Rightarrow> (\<exists>bks'. apply_message refbook_ops refbook_new bks m = (bks', Ok ()) \<and> books_rel refbook_rel bks' sp')
    | Err e \<Rightarrow> (\<exists>bks' e'. apply_message refbook_ops refbook_new bks m = (bks', Err e') \<and> books_rel refbook_rel bks' sp)
    | Panic \<Rightarrow> False"
  using assms by (rule refset.apply_message_exact)

text \<open>C28: a snapshot restores price-time priority exactly. Applying the first fragment of a symbol's
  snapshot with \<open>apply_snapshot\<close> and the rest with \<open>apply_message\<close>, where the fragments list the
  source book's bids and then its asks in queue order, succeeds on any state of the receiving books
  and leaves that symbol with exactly the source's queues; every other symbol is untouched.\<close>

theorem snapshot_restores_priority:
  assumes "books_rel refbook_rel bks sp" "spec_wf bs" "list_all2 (fragment_of y) (xs # xss) (d # ds)"
    and "concat (xs # xss) = map resting_so (spec_queue Bid bs @ spec_queue Ask bs)"
  shows "\<exists>bks1 bks2 q. apply_snapshot refbook_ops refbook_new bks d = (bks1, Ok ()) \<and>
     apply_all refbook_ops refbook_new bks1 (map Snapshot ds) = (bks2, Ok ()) \<and>
     books_rel refbook_rel bks2 (sp(y := q)) \<and>
     (\<forall>s. rb_orders_in_queue_order (fst (get_or_create refbook_new y bks2)) s = spec_queue s bs)"
proof -
  let ?q = "spec_queue Bid bs @ spec_queue Ask bs"
  have q: "map so_resting (concat (xs # xss)) = ?q" unfolding assms(4) by (simp add: comp_def)
  have "spec_wf (map so_resting (concat (xs # xss)))" unfolding q by (rule spec_wf_queues [OF assms(2)])
  from refset.apply_snapshot_cycle_sim [OF assms(1,3) this, unfolded q] obtain bks1 bks2
    where run: "apply_snapshot refbook_ops refbook_new bks d = (bks1, Ok ())"
      "apply_all refbook_ops refbook_new bks1 (map Snapshot ds) = (bks2, Ok ())"
      "books_rel refbook_rel bks2 (sp(y := ?q))" by blast
  have "refbook_rel (fst (get_or_create refbook_new y bks2)) ((sp(y := ?q)) y)"
    by (rule refset.get_or_create_sim(1) [OF run(3)]) (rule surjective_pairing)
  then have "rb_orders_in_queue_order (fst (get_or_create refbook_new y bks2)) s = spec_queue s bs" for s
    by (simp add: rb_queue_rel spec_queue_of_queues)
  then show ?thesis using run by blast
qed

definition sample_side_book :: spec_book where
  "sample_side_book = [\<lparr>ro_order_id = 1, ro_price = 100, ro_quantity = 5, ro_side = Bid\<rparr>,
     \<lparr>ro_order_id = 2, ro_price = 101, ro_quantity = 7, ro_side = Bid\<rparr>,
     \<lparr>ro_order_id = 3, ro_price = 103, ro_quantity = 1, ro_side = Ask\<rparr>]"

definition sample_fragment :: "nat \<Rightarrow> snapshot_order list \<Rightarrow> decoder" where
  "sample_fragment fl xs = \<lparr>dec_buf = snapshot_image 40 1 fl xs @ [], dec_root_len = 12\<rparr>"

lemma fragment_of_sample:
  "fl \<le> u8_max \<Longrightarrow> length xs \<le> u16_max \<Longrightarrow> list_all snap_order_wf xs \<Longrightarrow> fragment_of 1 xs (sample_fragment fl xs)"
  using Snapshot_wrap_image(4,6) [of 40 1 fl xs "[]"]
  by (simp add: fragment_of_def sample_fragment_def list_all_iff view_entry_image)

theorem snapshot_restores_priority_witness:
  "\<exists>bks1 bks2 q. apply_snapshot refbook_ops refbook_new []
       (sample_fragment 4 [SnapOrder 2 101 7 Bid, SnapOrder 1 100 5 Bid]) = (bks1, Ok ()) \<and>
     apply_all refbook_ops refbook_new bks1 [Snapshot (sample_fragment 3 [SnapOrder 3 103 1 Ask])] = (bks2, Ok ()) \<and>
     books_rel refbook_rel bks2 ((\<lambda>_. [])(1 := q)) \<and>
     (\<forall>s. rb_orders_in_queue_order (fst (get_or_create refbook_new 1 bks2)) s = spec_queue s sample_side_book)"
proof -
  let ?a = "[SnapOrder 2 101 7 Bid, SnapOrder 1 100 5 Bid]" and ?b = "[SnapOrder 3 103 1 Ask]"
  have f: "fragment_of 1 ?a (sample_fragment 4 ?a)" "fragment_of 1 ?b (sample_fragment 3 ?b)"
    by (rule fragment_of_sample; simp add: snap_order_wf_def in_i64_def)+
  have "concat [?a, ?b] = map resting_so (spec_queue Bid sample_side_book @ spec_queue Ask sample_side_book)"
    by code_simp
  moreover have "spec_wf sample_side_book" by code_simp
  ultimately show ?thesis
    using snapshot_restores_priority [OF books_rel_empty, of sample_side_book 1 ?a "[?b]" "sample_fragment 4 ?a"
        "[sample_fragment 3 ?b]"] f by simp
qed

end
