(* ===== verification/Rng.thy ===== *)
theory Rng
  imports Complex_Main "HOL-Library.Word" Prelude
begin

text \<open>
  The deterministic generator of \<open>crates/matching-engine/src/rng.rs\<close> (SplitMix64). The state is a
  64-bit word; a probability is a rational: the source compares a 53-bit integer divided by \<open>2^53\<close>
  with it, which is exact in a double.
\<close>

unbundle bit_operations_syntax

definition rng_next_u64 :: "64 word \<Rightarrow> 64 word \<times> 64 word" where
  "rng_next_u64 state =
     (let state' = state + 0x9E3779B97F4A7C15;
          z = (state' XOR drop_bit 30 state') * 0xBF58476D1CE4E5B9;
          z = (z XOR drop_bit 27 z) * 0x94D049BB133111EB
      in (state', z XOR drop_bit 31 z))"

definition rng_below :: "nat \<Rightarrow> 64 word \<Rightarrow> 64 word \<times> nat" where
  "rng_below n state = (if n = 0 then (state, 0)
     else case rng_next_u64 state of (state', z) \<Rightarrow> (state', unat z mod n))"

definition rng_range_inclusive :: "nat \<Rightarrow> nat \<Rightarrow> 64 word \<Rightarrow> 64 word \<times> nat" where
  "rng_range_inclusive lo hi state = (if hi \<le> lo then (state, lo)
     else case rng_below (wrap_add_u64 (hi - lo) 1) state of (state', k) \<Rightarrow> (state', wrap_add_u64 lo k))"

definition rng_chance :: "rat \<Rightarrow> 64 word \<Rightarrow> 64 word \<times> bool" where
  "rng_chance p state =
     (if p \<le> 0 then (state, False)
      else if p \<ge> 1 then (state, True)
      else case rng_next_u64 state of (state', z) \<Rightarrow>
        (state', of_nat (unat (drop_bit 11 z)) / 2 ^ 53 < p))"

lemma rng_below_bound: "0 < n \<Longrightarrow> snd (rng_below n state) < n"
  by (simp add: rng_below_def case_prod_beta)

lemma rng_range_inclusive_bounds:
  assumes "lo \<le> hi" "hi \<le> u64_max"
  shows "lo \<le> snd (rng_range_inclusive lo hi state)" and "snd (rng_range_inclusive lo hi state) \<le> hi"
proof -
  have "lo \<le> snd (rng_range_inclusive lo hi state) \<and> snd (rng_range_inclusive lo hi state) \<le> hi"
  proof (cases "hi \<le> lo \<or> hi - lo = u64_max")
    case True
    then show ?thesis using assms rng_below_bound [of "wrap_add_u64 (hi - lo) 1" state]
      by (auto simp: rng_range_inclusive_def rng_below_def wrap_add_u64_def)
  next
    case False
    then have n: "wrap_add_u64 (hi - lo) 1 = hi - lo + 1" using assms by (intro wrap_add_u64_exact) auto
    then have "snd (rng_below (hi - lo + 1) state) < hi - lo + 1" by (intro rng_below_bound) simp
    then show ?thesis using False assms n
      by (auto simp: rng_range_inclusive_def case_prod_beta)
  qed
  then show "lo \<le> snd (rng_range_inclusive lo hi state)" "snd (rng_range_inclusive lo hi state) \<le> hi" by auto
qed

lemma rng_chance_extremes:
  "p \<le> 0 \<Longrightarrow> rng_chance p state = (state, False)" "1 \<le> p \<Longrightarrow> rng_chance p state = (state, True)"
  by (auto simp: rng_chance_def)

end
