(* ===== verification/Feed.thy ===== *)
theory Feed
  imports Apply Rng
begin

text \<open>
  The feed publisher of \<open>crates/matching-engine/src/feed.rs\<close>: it batches messages into datagrams,
  sequences them, sends each datagram on two arms (less what the loss injector drops), replays it
  into a shadow book when self-checking, and offers it to the replay uplink. The clock and the
  sockets are the environment: \<open>fp_env\<close> gives, for each flush, the time read, whether each send
  succeeds and whether the uplink queue takes the datagram. What the sockets carried is the log
  \<open>fp_sent_a\<close>, \<open>fp_sent_b\<close>.
\<close>

section \<open>State\<close>

datatype drop_mode = Independent | Exclusive | Correlated

datatype io_error =
    IoWire wire_error
  | IoMessageTooLarge nat
  | IoSend
  | IoSelfCheckDecode wire_error
  | IoSelfCheckApply nat apply_error
  | IoSnapshotTooSmall
  | IoBook book_error
  | IoCallback

record feed_stats =
  fst_messages :: nat
  fst_datagrams :: nat
  fst_bytes :: nat
  fst_size_flushes :: nat
  fst_timer_flushes :: nat
  fst_snapshot_datagrams :: nat
  fst_dropped_a :: nat
  fst_dropped_b :: nat
  fst_dropped_both :: nat
  fst_messages_lost_both :: nat

record send_env =
  env_now_ns :: nat
  env_send_a :: bool
  env_send_b :: bool
  env_uplink_takes :: bool

record feed_publisher =
  fp_buf :: bytes
  fp_pos :: nat
  fp_count :: nat
  fp_first_seq :: nat
  fp_next_seq :: nat
  fp_batch_size :: nat
  fp_stats :: feed_stats
  fp_drop_rate :: rat
  fp_drop_mode :: drop_mode
  fp_drop_rng :: "64 word"
  fp_snapshot_buf :: bytes
  fp_snapshot_seq :: nat
  fp_uplink :: "bytes list option"
  fp_uplink_dropped :: nat
  fp_shadow :: "refbook books option"
  fp_sent_a :: "bytes list"
  fp_sent_b :: "bytes list"
  fp_env :: "nat \<Rightarrow> send_env"
  fp_env_used :: nat

definition feed_stats_zero :: feed_stats where
  "feed_stats_zero = \<lparr>fst_messages = 0, fst_datagrams = 0, fst_bytes = 0, fst_size_flushes = 0,
     fst_timer_flushes = 0, fst_snapshot_datagrams = 0, fst_dropped_a = 0, fst_dropped_b = 0,
     fst_dropped_both = 0, fst_messages_lost_both = 0\<rparr>"

definition FeedPublisher_new :: "(nat \<Rightarrow> send_env) \<Rightarrow> nat \<Rightarrow> nat \<Rightarrow> feed_publisher" where
  "FeedPublisher_new env batch_size max_datagram_bytes =
     \<lparr>fp_buf = replicate max_datagram_bytes 0, fp_pos = PACKET_HEADER_LEN, fp_count = 0, fp_first_seq = 1,
      fp_next_seq = 1, fp_batch_size = max batch_size 1, fp_stats = feed_stats_zero, fp_drop_rate = 0,
      fp_drop_mode = Independent, fp_drop_rng = 0x01050B1055100000,
      fp_snapshot_buf = replicate max_datagram_bytes 0, fp_snapshot_seq = 1, fp_uplink = None,
      fp_uplink_dropped = 0, fp_shadow = None, fp_sent_a = [], fp_sent_b = [], fp_env = env, fp_env_used = 0\<rparr>"

definition set_loss :: "rat \<Rightarrow> drop_mode \<Rightarrow> 64 word \<Rightarrow> feed_publisher \<Rightarrow> feed_publisher" where
  "set_loss rate mode seed fp =
     fp\<lparr>fp_drop_rate := (if rate < 0 then 0 else if rate > 1 then 1 else rate), fp_drop_mode := mode,
        fp_drop_rng := seed\<rparr>"

definition set_uplink :: "feed_publisher \<Rightarrow> feed_publisher" where
  "set_uplink fp = fp\<lparr>fp_uplink := Some []\<rparr>"

definition enable_self_check :: "feed_publisher \<Rightarrow> feed_publisher" where
  "enable_self_check fp = fp\<lparr>fp_shadow := Some []\<rparr>"

definition fp_last_sequence :: "feed_publisher \<Rightarrow> nat" where
  "fp_last_sequence fp = fp_next_seq fp - 1"

section \<open>Operations\<close>

type_synonym 'a feed_op = "(feed_publisher, io_error, 'a) mut_method"

definition drop_arms :: "feed_publisher \<Rightarrow> feed_publisher \<times> bool \<times> bool" where
  "drop_arms fp =
     (if fp_drop_rate fp \<le> 0 then (fp, False, False)
      else case fp_drop_mode fp of
        Independent \<Rightarrow>
          (case rng_chance (fp_drop_rate fp) (fp_drop_rng fp) of (r1, a) \<Rightarrow>
           case rng_chance (fp_drop_rate fp) r1 of (r2, b) \<Rightarrow> (fp\<lparr>fp_drop_rng := r2\<rparr>, a, b))
      | Exclusive \<Rightarrow>
          (case rng_chance (fp_drop_rate fp) (fp_drop_rng fp) of (r1, lost) \<Rightarrow>
           if lost then (case rng_chance (1 / 2) r1 of (r2, first) \<Rightarrow>
             (fp\<lparr>fp_drop_rng := r2\<rparr>, first, \<not> first))
           else (fp\<lparr>fp_drop_rng := r1\<rparr>, False, False))
      | Correlated \<Rightarrow>
          (case rng_chance (fp_drop_rate fp) (fp_drop_rng fp) of (r1, lost) \<Rightarrow>
           (fp\<lparr>fp_drop_rng := r1\<rparr>, lost, lost)))"

text \<open>One arm of the send loop: skip a dropped datagram, otherwise patch the channel and send.\<close>

definition send_arm_a :: "nat \<Rightarrow> bool \<Rightarrow> send_env \<Rightarrow> unit feed_op" where
  "send_arm_a len dropped env fp =
     (if dropped
      then (fp\<lparr>fp_stats := (fp_stats fp)\<lparr>fst_dropped_a := fst_dropped_a (fp_stats fp) + 1\<rparr>\<rparr>, Ok ())
      else case patch_packet_channel (fp_buf fp) 0 of
        Ok b \<Rightarrow> if env_send_a env then (fp\<lparr>fp_buf := b, fp_sent_a := fp_sent_a fp @ [take len b]\<rparr>, Ok ())
                else (fp\<lparr>fp_buf := b\<rparr>, Err IoSend)
      | Err e \<Rightarrow> (fp, Err (IoWire e))
      | Panic \<Rightarrow> (fp, Panic))"

definition send_arm_b :: "nat \<Rightarrow> bool \<Rightarrow> send_env \<Rightarrow> unit feed_op" where
  "send_arm_b len dropped env fp =
     (if dropped
      then (fp\<lparr>fp_stats := (fp_stats fp)\<lparr>fst_dropped_b := fst_dropped_b (fp_stats fp) + 1\<rparr>\<rparr>, Ok ())
      else case patch_packet_channel (fp_buf fp) 1 of
        Ok b \<Rightarrow> if env_send_b env then (fp\<lparr>fp_buf := b, fp_sent_b := fp_sent_b fp @ [take len b]\<rparr>, Ok ())
                else (fp\<lparr>fp_buf := b\<rparr>, Err IoSend)
      | Err e \<Rightarrow> (fp, Err (IoWire e))
      | Panic \<Rightarrow> (fp, Panic))"

text \<open>The header is written once, before either arm is considered.\<close>

definition write_flush_header :: "nat \<Rightarrow> unit feed_op" where
  "write_flush_header now_ns fp =
     (case encode_packet_header (fp_buf fp) 0 0 (fp_first_seq fp) now_ns of
        Ok (_, b) \<Rightarrow> (case patch_message_count b (fp_count fp) of
            Ok b' \<Rightarrow> (fp\<lparr>fp_buf := b'\<rparr>, Ok ())
          | Err e \<Rightarrow> (fp\<lparr>fp_buf := b\<rparr>, Err (IoWire e)) | Panic \<Rightarrow> (fp, Panic))
      | Err e \<Rightarrow> (fp, Err (IoWire e)) | Panic \<Rightarrow> (fp, Panic))"

text \<open>The self-check: decode the datagram and apply it to the shadow book.\<close>

fun shadow_apply :: "(wire_error + nat \<times> message) list \<Rightarrow> refbook books \<Rightarrow> refbook books \<times> (io_error, unit) outcome" where
  "shadow_apply [] sh = (sh, Ok ())"
| "shadow_apply (Inl e # ms) sh = (sh, Err (IoSelfCheckDecode e))"
| "shadow_apply (Inr (sq, msg) # ms) sh =
     (case apply_message refbook_ops refbook_new sh msg of
        (sh', Ok _) \<Rightarrow> shadow_apply ms sh'
      | (sh', Err e) \<Rightarrow> (sh', Err (IoSelfCheckApply sq e))
      | (sh', Panic) \<Rightarrow> (sh', Panic))"

definition self_check :: "nat \<Rightarrow> unit feed_op" where
  "self_check len fp =
     (case fp_shadow fp of
        None \<Rightarrow> (fp, Ok ())
      | Some sh \<Rightarrow>
          (case datagram_items (take len (fp_buf fp)) of
             Ok items \<Rightarrow> (case shadow_apply items sh of (sh', r) \<Rightarrow> (fp\<lparr>fp_shadow := Some sh'\<rparr>, r))
           | Err e \<Rightarrow> (fp, Err (IoWire e))
           | Panic \<Rightarrow> (fp, Panic)))"

definition offer_uplink :: "nat \<Rightarrow> send_env \<Rightarrow> feed_publisher \<Rightarrow> feed_publisher" where
  "offer_uplink len env fp =
     (case fp_uplink fp of
        None \<Rightarrow> fp
      | Some sent \<Rightarrow>
          if env_uplink_takes env then fp\<lparr>fp_uplink := Some (sent @ [take len (fp_buf fp)])\<rparr>
          else fp\<lparr>fp_uplink_dropped := fp_uplink_dropped fp + 1\<rparr>)"

definition count_flush :: "nat \<Rightarrow> bool \<Rightarrow> bool \<Rightarrow> feed_publisher \<Rightarrow> feed_publisher" where
  "count_flush len da db fp =
     fp\<lparr>fp_stats := (fp_stats fp)\<lparr>fst_datagrams := fst_datagrams (fp_stats fp) + 1,
            fst_bytes := fst_bytes (fp_stats fp) + len * (of_bool (\<not> da) + of_bool (\<not> db))\<rparr>,
        fp_pos := PACKET_HEADER_LEN, fp_count := 0, fp_first_seq := fp_next_seq fp\<rparr>"

definition note_double_loss :: "bool \<Rightarrow> bool \<Rightarrow> feed_publisher \<Rightarrow> feed_publisher" where
  "note_double_loss da db fp =
     (if da \<and> db then fp\<lparr>fp_stats := (fp_stats fp)\<lparr>fst_dropped_both := fst_dropped_both (fp_stats fp) + 1,
            fst_messages_lost_both := fst_messages_lost_both (fp_stats fp) + fp_count fp\<rparr>\<rparr> else fp)"

definition flush :: "unit feed_op" where
  "flush fp =
     (if fp_count fp = 0 then (fp, Ok ())
      else let env = fp_env fp (fp_env_used fp); len = fp_pos fp;
               fp = fp\<lparr>fp_env_used := fp_env_used fp + 1\<rparr> in
        (case drop_arms fp of (fp, da, db) \<Rightarrow>
          sbind (write_flush_header (env_now_ns env)) (\<lambda>_.
          sbind (send_arm_a len da env) (\<lambda>_.
          sbind (send_arm_b len db env) (\<lambda>_.
          sbind (self_check len) (\<lambda>_.
          sbind (supdate (offer_uplink len env)) (\<lambda>_.
          supdate (count_flush len da db))))))
          (note_double_loss da db fp)))"

definition flush_on_timer :: "unit feed_op" where
  "flush_on_timer fp =
     (if fp_count fp = 0 then (fp, Ok ())
      else flush (fp\<lparr>fp_stats := (fp_stats fp)\<lparr>fst_timer_flushes := fst_timer_flushes (fp_stats fp) + 1\<rparr>\<rparr>))"

text \<open>Encoding into the tail of the buffer.\<close>

definition encode_tail :: "(bytes \<Rightarrow> (wire_error, nat \<times> bytes) outcome) \<Rightarrow> feed_publisher \<Rightarrow> (wire_error, nat \<times> bytes) outcome" where
  "encode_tail encode fp =
     (if fp_pos fp > length (fp_buf fp) then Panic
      else obind (encode (drop (fp_pos fp) (fp_buf fp))) (\<lambda>(n, tail).
        Ok (n, take (fp_pos fp) (fp_buf fp) @ tail)))"

definition commit_message :: "nat \<Rightarrow> bytes \<Rightarrow> nat feed_op" where
  "commit_message n b fp =
     (fp\<lparr>fp_buf := b, fp_pos := fp_pos fp + n, fp_count := (fp_count fp + 1) mod 2 ^ 16,
         fp_next_seq := wrap_add_u64 (fp_next_seq fp) 1,
         fp_stats := (fp_stats fp)\<lparr>fst_messages := fst_messages (fp_stats fp) + 1\<rparr>\<rparr>, Ok (fp_next_seq fp))"

definition emit :: "(bytes \<Rightarrow> (wire_error, nat \<times> bytes) outcome) \<Rightarrow> nat feed_op" where
  "emit encode =
     sbind (\<lambda>fp. if fp_count fp \<ge> fp_batch_size fp then flush fp else (fp, Ok ())) (\<lambda>_.
     sbind (supdate (\<lambda>fp. if fp_count fp = 0 then fp\<lparr>fp_first_seq := fp_next_seq fp\<rparr> else fp)) (\<lambda>_ fp.
     case encode_tail encode fp of
       Ok (n, b) \<Rightarrow> commit_message n b fp
     | Err (ShortBuffer needed got) \<Rightarrow>
         if fp_count fp = 0 then (fp, Err (IoMessageTooLarge (length (fp_buf fp))))
         else sbind flush (\<lambda>_ fp.
                let fp = fp\<lparr>fp_first_seq := fp_next_seq fp\<rparr> in
                case encode_tail encode fp of
                  Ok (n, b) \<Rightarrow> commit_message n b fp
                | Err e \<Rightarrow> (fp, Err (IoWire e))
                | Panic \<Rightarrow> (fp, Panic))
              (fp\<lparr>fp_stats := (fp_stats fp)\<lparr>fst_size_flushes := fst_size_flushes (fp_stats fp) + 1\<rparr>\<rparr>)
     | Err e \<Rightarrow> (fp, Err (IoWire e))
     | Panic \<Rightarrow> (fp, Panic)))"

definition fp_add_order :: "nat \<Rightarrow> int \<Rightarrow> nat \<Rightarrow> nat \<Rightarrow> side \<Rightarrow> nat feed_op" where
  "fp_add_order order_id price quantity symbol_id side =
     emit (\<lambda>b. encode_add_order b order_id price quantity symbol_id side)"

definition fp_modify_order :: "nat \<Rightarrow> int \<Rightarrow> nat \<Rightarrow> nat \<Rightarrow> side \<Rightarrow> modify_reason \<Rightarrow> nat feed_op" where
  "fp_modify_order order_id new_price new_quantity symbol_id side reason =
     emit (\<lambda>b. encode_modify_order b order_id new_price new_quantity symbol_id side reason)"

definition fp_delete_order :: "nat \<Rightarrow> nat \<Rightarrow> side \<Rightarrow> nat feed_op" where
  "fp_delete_order order_id symbol_id side = emit (\<lambda>b. encode_delete_order b order_id symbol_id side)"

definition fp_trade :: "nat \<Rightarrow> nat \<Rightarrow> nat \<Rightarrow> int \<Rightarrow> nat \<Rightarrow> nat \<Rightarrow> side \<Rightarrow> nat feed_op" where
  "fp_trade trade_id aggressor_order_id resting_order_id price quantity symbol_id aggressor_side =
     emit (\<lambda>b. encode_trade b trade_id aggressor_order_id resting_order_id price quantity symbol_id aggressor_side)"

definition fp_heartbeat :: "nat \<Rightarrow> nat feed_op" where
  "fp_heartbeat last_sequence = emit (\<lambda>b. encode_heartbeat b last_sequence)"

text \<open>The publisher method that announces an event.\<close>

fun emit_event :: "feed_event \<Rightarrow> nat feed_op" where
  "emit_event (EvAdd i p q y s) = fp_add_order i p q y s"
| "emit_event (EvModify i p q y s r) = fp_modify_order i p q y s r"
| "emit_event (EvDelete i y s) = fp_delete_order i y s"
| "emit_event (EvTrade t a r p q y s) = fp_trade t a r p q y s"
| "emit_event (EvHeartbeat n) = fp_heartbeat n"
| "emit_event (EvReset n) = emit (\<lambda>b. encode_sequence_reset b n)"

section \<open>The invariant\<close>

text \<open>The history of a publisher: the batches it has flushed. \<open>bt_up\<close> says whether the uplink took it.\<close>

record batch =
  bt_first :: nat
  bt_ts :: nat
  bt_events :: "feed_event list"
  bt_drop_a :: bool
  bt_drop_b :: bool
  bt_up :: bool

definition batch_image :: "nat \<Rightarrow> batch \<Rightarrow> bytes" where
  "batch_image ch t = datagram_image ch 0 (bt_first t) (bt_ts t) (bt_events t)"

definition batch_events :: "batch list \<Rightarrow> feed_event list" where
  "batch_events bs = concat (map bt_events bs)"

fun batches_from :: "nat \<Rightarrow> batch list \<Rightarrow> bool" where
  "batches_from n [] = True"
| "batches_from n (t # bs) \<longleftrightarrow> bt_first t = n \<and> bt_events t \<noteq> [] \<and> length (bt_events t) \<le> u16_max \<and>
     bt_ts t \<le> u64_max \<and> batches_from (n + length (bt_events t)) bs"

definition shadow_inv :: "refbook books option \<Rightarrow> feed_event list \<Rightarrow> bool" where
  "shadow_inv sh evs \<longleftrightarrow> (case sh of None \<Rightarrow> True
     | Some b \<Rightarrow> (\<exists>sp. ofold spec_apply evs (\<lambda>_. []) = Ok sp \<and> books_rel refbook_rel b sp))"

definition uplink_inv :: "bytes list option \<Rightarrow> batch list \<Rightarrow> bool" where
  "uplink_inv up bs \<longleftrightarrow> (case up of None \<Rightarrow> True
     | Some sent \<Rightarrow> sent = map (\<lambda>t. batch_image (of_bool (\<not> bt_drop_b t)) t) (filter bt_up bs))"

text \<open>What each loss mode may do to a datagram.\<close>

definition loss_allowed :: "rat \<Rightarrow> drop_mode \<Rightarrow> bool \<Rightarrow> bool \<Rightarrow> bool" where
  "loss_allowed rate mode a b \<longleftrightarrow> (rate \<le> 0 \<longrightarrow> \<not> a \<and> \<not> b) \<and> (mode = Exclusive \<longrightarrow> \<not> (a \<and> b)) \<and>
     (mode = Correlated \<longrightarrow> a = b)"

definition loss_inv :: "feed_publisher \<Rightarrow> batch list \<Rightarrow> bool" where
  "loss_inv fp bs \<longleftrightarrow>
     list_all (\<lambda>t. loss_allowed (fp_drop_rate fp) (fp_drop_mode fp) (bt_drop_a t) (bt_drop_b t)) bs"

definition feed_inv :: "feed_publisher \<Rightarrow> batch list \<Rightarrow> feed_event list \<Rightarrow> bool" where
  "feed_inv fp bs pend \<longleftrightarrow>
     fp_pos fp = 24 + sum_list (map event_len pend) \<and> fp_pos fp \<le> length (fp_buf fp) \<and>
     take (fp_pos fp - 24) (drop 24 (fp_buf fp)) = concat (map event_image pend) \<and>
     fp_count fp = length pend \<and> length pend \<le> fp_batch_size fp \<and>
     1 \<le> fp_batch_size fp \<and> fp_batch_size fp \<le> u16_max \<and>
     fp_next_seq fp = 1 + length (batch_events bs @ pend) \<and> fp_next_seq fp \<le> u64_max \<and>
     (pend \<noteq> [] \<longrightarrow> fp_first_seq fp = 1 + length (batch_events bs)) \<and>
     list_all event_wf (batch_events bs @ pend) \<and> batches_from 1 bs \<and>
     fp_sent_a fp = map (batch_image 0) (filter (\<lambda>t. \<not> bt_drop_a t) bs) \<and>
     fp_sent_b fp = map (batch_image 1) (filter (\<lambda>t. \<not> bt_drop_b t) bs) \<and>
     uplink_inv (fp_uplink fp) bs \<and> shadow_inv (fp_shadow fp) (batch_events bs) \<and> loss_inv fp bs \<and>
     list_all (\<lambda>t. 24 + sum_list (map event_len (bt_events t)) \<le> length (fp_buf fp)) bs"

definition env_ok :: "feed_publisher \<Rightarrow> bool" where
  "env_ok fp \<longleftrightarrow> (\<forall>k. env_now_ns (fp_env fp k) \<le> u64_max \<and> env_send_a (fp_env fp k) \<and> env_send_b (fp_env fp k))"

definition applicable :: "feed_publisher \<Rightarrow> feed_event list \<Rightarrow> bool" where
  "applicable fp evs \<longleftrightarrow> fp_shadow fp = None \<or> is_Ok (ofold spec_apply evs (\<lambda>_. []))"

lemma batch_events_append [simp]:
  "batch_events [] = []" "batch_events (bs @ cs) = batch_events bs @ batch_events cs"
  "batch_events [t] = bt_events t"
  by (simp_all add: batch_events_def)

lemma batches_from_append:
  "batches_from n (bs @ cs) \<longleftrightarrow> batches_from n bs \<and> batches_from (n + length (batch_events bs)) cs"
  by (induction bs arbitrary: n) (auto simp: batch_events_def add.assoc)

lemma drop_arms_eq:
  "\<exists>r da db. drop_arms fp = (fp\<lparr>fp_drop_rng := r\<rparr>, da, db) \<and> loss_allowed (fp_drop_rate fp) (fp_drop_mode fp) da db"
proof (cases "fp_drop_rate fp \<le> 0")
  case True
  then have "drop_arms fp = (fp\<lparr>fp_drop_rng := fp_drop_rng fp\<rparr>, False, False)" by (simp add: drop_arms_def)
  moreover have "loss_allowed (fp_drop_rate fp) (fp_drop_mode fp) False False" by (simp add: loss_allowed_def)
  ultimately show ?thesis by blast
next
  case False
  then show ?thesis by (auto simp: drop_arms_def loss_allowed_def case_prod_beta split: drop_mode.splits)
qed

lemma packet_header_image_rechannel:
  "patch 6 (to_le 1 c) (packet_header_image ch fl fs ts n) = packet_header_image c fl fs ts n"
  by (simp add: packet_header_image_def patch_twice patch_commute [where k = 6 and j = 16]
      patch_commute [where k = 6 and j = 8] patch_commute [where k = 6 and j = 7])

lemma patch_packet_channel_image:
  "patch_packet_channel (packet_header_image ch fl fs ts n @ rest) c = Ok (packet_header_image c fl fs ts n @ rest)"
  by (simp add: patch_packet_channel_def put_u8_patch access_in_range packet_header_image_rechannel [simplified])

lemma shadow_apply_ok:
  assumes "books_rel refbook_rel sh sp" "map (\<lambda>m. view_event (snd m)) ms = map Ok evs" "ofold spec_apply evs sp = Ok sp'"
  shows "\<exists>sh'. shadow_apply (map Inr ms) sh = (sh', Ok ()) \<and> books_rel refbook_rel sh' sp'"
  using assms
proof (induction evs arbitrary: ms sh sp)
  case (Cons ev evs)
  obtain k m ms' where m: "ms = (k, m) # ms'" "view_event m = Ok ev" "map (\<lambda>m. view_event (snd m)) ms' = map Ok evs"
    using Cons.prems(2) by (cases ms) auto
  obtain sp1 where sp1: "spec_apply ev sp = Ok sp1" "ofold spec_apply evs sp1 = Ok sp'"
    using Cons.prems(3) by (auto simp: outcome_simps)
  obtain sh1 where "apply_message refbook_ops refbook_new sh m = (sh1, Ok ())" "books_rel refbook_rel sh1 sp1"
    using refset.apply_message_exact [OF Cons.prems(1) m(2)] sp1(1) by auto
  with Cons.IH [OF _ m(3) sp1(2)] m(1) show ?case by simp
qed auto


lemma write_flush_header_image:
  assumes "24 \<le> length (fp_buf fp)"
  shows "write_flush_header ts fp =
     (fp\<lparr>fp_buf := packet_header_image 0 0 (fp_first_seq fp) ts (fp_count fp) @ drop 24 (fp_buf fp)\<rparr>, Ok ())"
  using assms
  by (simp add: write_flush_header_def encode_packet_header_image patch_message_count_def put_u16_def access_in_range
      packet_header_image_recount)

lemma send_arm_a_image:
  assumes "fp_buf fp = packet_header_image 0 fl fs ts n @ rest" "env_send_a env"
  shows "send_arm_a len da env fp =
     (fp\<lparr>fp_sent_a := fp_sent_a fp @ (if da then [] else [take len (packet_header_image 0 fl fs ts n @ rest)]),
         fp_stats := fp_stats (fst (send_arm_a len da env fp))\<rparr>, Ok ())"
proof -
  have "fp\<lparr>fp_buf := packet_header_image 0 fl fs ts n @ rest\<rparr> = fp" unfolding assms(1) [symmetric] by simp
  then show ?thesis
    using assms by (cases da) (simp_all add: send_arm_a_def patch_packet_channel_image)
qed

lemma send_arm_b_image:
  assumes "fp_buf fp = packet_header_image 0 fl fs ts n @ rest" "env_send_b env"
  shows "send_arm_b len db env fp =
     (fp\<lparr>fp_buf := packet_header_image (of_bool (\<not> db)) fl fs ts n @ rest,
         fp_sent_b := fp_sent_b fp @ (if db then [] else [take len (packet_header_image 1 fl fs ts n @ rest)]),
         fp_stats := fp_stats (fst (send_arm_b len db env fp))\<rparr>, Ok ())"
proof -
  have "fp\<lparr>fp_buf := packet_header_image 0 fl fs ts n @ rest\<rparr> = fp" unfolding assms(1) [symmetric] by simp
  then show ?thesis
    using assms by (cases db) (simp_all add: send_arm_b_def patch_packet_channel_image)
qed

lemma note_double_loss_eq:
  "note_double_loss da db fp = fp\<lparr>fp_stats := fp_stats (note_double_loss da db fp)\<rparr>"
  by (simp add: note_double_loss_def)

lemma self_check_ok:
  assumes "take len (fp_buf fp) = datagram_image c 0 fs ts pend" "list_all event_wf pend" "length pend \<le> u16_max"
    and "c \<le> u8_max" "fs + length pend \<le> u64_max" "ts \<le> u64_max"
    and "shadow_inv (fp_shadow fp) evs" "applicable fp (evs @ pend)"
  obtains sh where "self_check len fp = (fp\<lparr>fp_shadow := sh\<rparr>, Ok ())" "shadow_inv sh (evs @ pend)"
    "sh = None \<longleftrightarrow> fp_shadow fp = None"
proof (cases "fp_shadow fp")
  case None
  then have "self_check len fp = (fp\<lparr>fp_shadow := None\<rparr>, Ok ())"
    by (simp add: self_check_def)
  then show thesis using that None by (simp add: shadow_inv_def)
next
  case (Some b)
  then obtain sp where sp: "ofold spec_apply evs (\<lambda>_. []) = Ok sp" "books_rel refbook_rel b sp"
    using assms(7) by (auto simp: shadow_inv_def)
  obtain sp' where sp': "ofold spec_apply pend sp = Ok sp'"
    using assms(8) Some sp(1) by (auto simp: applicable_def ofold_append is_Ok_iff)
  obtain ms where ms: "datagram_items (datagram_image c 0 fs ts pend) = Ok (map Inr ms)"
      "map (\<lambda>m. view_event (snd m)) ms = map Ok pend"
    using datagram_image_items [of pend c 0 fs ts] assms(2-6) by (auto simp: list_all_iff)
  obtain b' where b': "shadow_apply (map Inr ms) b = (b', Ok ())" "books_rel refbook_rel b' sp'"
    using shadow_apply_ok [OF sp(2) ms(2) sp'] by auto
  have "self_check len fp = (fp\<lparr>fp_shadow := Some b'\<rparr>, Ok ())"
    by (simp add: self_check_def Some assms(1) ms(1) b'(1))
  moreover have "shadow_inv (Some b') (evs @ pend)" using b'(2) sp(1) sp' by (simp add: shadow_inv_def ofold_append)
  ultimately show thesis using that Some by simp
qed

lemma offer_uplink_eq:
  "offer_uplink len env fp = fp\<lparr>fp_uplink := fp_uplink (offer_uplink len env fp),
     fp_uplink_dropped := fp_uplink_dropped (offer_uplink len env fp)\<rparr>"
  "fp_uplink (offer_uplink len env fp) = (case fp_uplink fp of None \<Rightarrow> None
       | Some sent \<Rightarrow> Some (sent @ (if env_uplink_takes env then [take len (fp_buf fp)] else [])))"
  by (cases "fp_uplink fp"; simp add: offer_uplink_def)+

lemma flush_ok:
  assumes inv: "feed_inv fp bs pend" and pend: "pend \<noteq> []" and env: "env_ok fp"
    and app: "applicable fp (batch_events bs @ pend)"
  obtains fp' t where "flush fp = (fp', Ok ())" "feed_inv fp' (bs @ [t]) []" "bt_events t = pend"
    "fp_env fp' = fp_env fp" "fp_next_seq fp' = fp_next_seq fp" "length (fp_buf fp') = length (fp_buf fp)"
    "fp_shadow fp' = None \<longleftrightarrow> fp_shadow fp = None" "fp_batch_size fp' = fp_batch_size fp"
    "fp_drop_rate fp' = fp_drop_rate fp" "fp_drop_mode fp' = fp_drop_mode fp"
    "fp_uplink fp' = None \<longleftrightarrow> fp_uplink fp = None"
proof -
  let ?env = "fp_env fp (fp_env_used fp)" and ?len = "fp_pos fp" and ?fs = "fp_first_seq fp"
  let ?ts = "env_now_ns ?env" and ?n = "length pend" and ?rest = "drop 24 (fp_buf fp)"
  have e: "?ts \<le> u64_max" "env_send_a ?env" "env_send_b ?env" using env by (auto simp: env_ok_def)
  have i: "24 \<le> length (fp_buf fp)" "?len = 24 + sum_list (map event_len pend)" "?len \<le> length (fp_buf fp)"
      "take (?len - 24) ?rest = concat (map event_image pend)" "fp_count fp = ?n"
      "?fs = 1 + length (batch_events bs)" "?n \<le> u16_max" "list_all event_wf pend"
      "?fs + ?n \<le> u64_max" "batches_from 1 bs" "shadow_inv (fp_shadow fp) (batch_events bs)"
    using inv pend by (auto simp: feed_inv_def)
  have img: "take ?len (packet_header_image c 0 ?fs ?ts ?n @ ?rest) = datagram_image c 0 ?fs ?ts pend" for c
    using i(2,4) by (simp add: datagram_image_def)
  obtain r da db where drop: "drop_arms (fp\<lparr>fp_env_used := fp_env_used fp + 1\<rparr>)
      = (fp\<lparr>fp_env_used := fp_env_used fp + 1, fp_drop_rng := r\<rparr>, da, db)"
      "loss_allowed (fp_drop_rate fp) (fp_drop_mode fp) da db"
    using drop_arms_eq [of "fp\<lparr>fp_env_used := fp_env_used fp + 1\<rparr>"] by auto
  define fp0 where "fp0 = note_double_loss da db (fp\<lparr>fp_env_used := fp_env_used fp + 1, fp_drop_rng := r\<rparr>)"
  define st0 where "st0 = fp_stats fp0"
  have fp0: "fp0 = fp\<lparr>fp_env_used := fp_env_used fp + 1, fp_drop_rng := r, fp_stats := st0\<rparr>"
    unfolding st0_def fp0_def by (rule note_double_loss_eq)
  define fp1 where "fp1 = fp0\<lparr>fp_buf := packet_header_image 0 0 ?fs ?ts ?n @ ?rest\<rparr>"
  have s1: "write_flush_header ?ts fp0 = (fp1, Ok ())"
    using write_flush_header_image [of fp0 ?ts] i(1,5) by (simp add: fp0 fp1_def)
  define st1 where "st1 = fp_stats (fst (send_arm_a ?len da ?env fp1))"
  define fp2 where "fp2 = fp1\<lparr>fp_sent_a := fp_sent_a fp @ (if da then [] else [datagram_image 0 0 ?fs ?ts pend]), fp_stats := st1\<rparr>"
  have b1: "fp_buf fp1 = packet_header_image 0 0 ?fs ?ts ?n @ ?rest" "fp_sent_a fp1 = fp_sent_a fp"
    by (simp_all add: fp1_def fp0)
  have s2: "send_arm_a ?len da ?env fp1 = (fp2, Ok ())"
    by (rule trans [OF send_arm_a_image [OF b1(1) e(2)]]) (simp only: fp2_def st1_def b1(2) img)
  have b2: "fp_buf fp2 = packet_header_image 0 0 ?fs ?ts ?n @ ?rest" "fp_sent_b fp2 = fp_sent_b fp"
    by (simp_all add: fp2_def fp1_def fp0)
  define st2 where "st2 = fp_stats (fst (send_arm_b ?len db ?env fp2))"
  define fp3 where "fp3 = fp2\<lparr>fp_buf := packet_header_image (of_bool (\<not> db)) 0 ?fs ?ts ?n @ ?rest,
      fp_sent_b := fp_sent_b fp @ (if db then [] else [datagram_image 1 0 ?fs ?ts pend]), fp_stats := st2\<rparr>"
  have s3: "send_arm_b ?len db ?env fp2 = (fp3, Ok ())"
    by (rule trans [OF send_arm_b_image [OF b2(1) e(3)]]) (simp only: fp3_def st2_def b2(2) img)
  have fp3: "take ?len (fp_buf fp3) = datagram_image (of_bool (\<not> db)) 0 ?fs ?ts pend"
      "fp_shadow fp3 = fp_shadow fp" "fp_uplink fp3 = fp_uplink fp"
  proof -
    have "fp_buf fp3 = packet_header_image (of_bool (\<not> db)) 0 ?fs ?ts ?n @ ?rest" by (simp add: fp3_def)
    then show "take ?len (fp_buf fp3) = datagram_image (of_bool (\<not> db)) 0 ?fs ?ts pend" by (simp only: img)
  qed (simp_all add: fp3_def fp2_def fp1_def fp0)
  have sh3: "shadow_inv (fp_shadow fp3) (batch_events bs)" using i(11) by (simp add: fp3)
  have app3: "applicable fp3 (batch_events bs @ pend)" using app by (simp add: applicable_def fp3)
  have ch: "(of_bool (\<not> db) :: nat) \<le> u8_max" by (cases db) simp_all
  from self_check_ok [OF fp3(1) i(8) i(7) ch i(9) e(1) sh3 app3] obtain sh
    where s4: "self_check ?len fp3 = (fp3\<lparr>fp_shadow := sh\<rparr>, Ok ())"
      "shadow_inv sh (batch_events bs @ pend)" "sh = None \<longleftrightarrow> fp_shadow fp = None"
    unfolding fp3(2) by blast
  define fp4 where "fp4 = fp3\<lparr>fp_shadow := sh\<rparr>"
  define up k where "up = fp_uplink (offer_uplink ?len ?env fp4)" and "k = fp_uplink_dropped (offer_uplink ?len ?env fp4)"
  have s5: "offer_uplink ?len ?env fp4 = fp4\<lparr>fp_uplink := up, fp_uplink_dropped := k\<rparr>"
    unfolding up_def k_def by (rule offer_uplink_eq(1))
  have up: "up = (case fp_uplink fp of None \<Rightarrow> None | Some sent \<Rightarrow> Some (sent @
         (if env_uplink_takes ?env then [datagram_image (of_bool (\<not> db)) 0 ?fs ?ts pend] else [])))"
  proof -
    have "fp_buf fp4 = fp_buf fp3" "fp_uplink fp4 = fp_uplink fp" by (simp_all add: fp4_def fp3)
    then show ?thesis unfolding up_def offer_uplink_eq(2) by (simp only: fp3(1))
  qed
  define fq where "fq = count_flush ?len da db (fp4\<lparr>fp_uplink := up, fp_uplink_dropped := k\<rparr>)"
  have flush: "flush fp = (fq, Ok ())"
  proof -
    have "fp_count fp \<noteq> 0" using i(5) pend by simp
    then show ?thesis unfolding flush_def
      by (simp only: if_False Let_def drop(1) prod.case fp0_def [symmetric] sbind_Ok s1 s2 s3 s4(1) fp4_def [symmetric]
          smethod_simps s5 fq_def)
  qed
  have proj: "fp_pos fq = 24" "fp_count fq = 0" "fp_next_seq fq = fp_next_seq fp"
      "fp_batch_size fq = fp_batch_size fp" "length (fp_buf fq) = length (fp_buf fp)"
      "fp_sent_a fq = fp_sent_a fp @ (if da then [] else [datagram_image 0 0 ?fs ?ts pend])"
      "fp_sent_b fq = fp_sent_b fp @ (if db then [] else [datagram_image 1 0 ?fs ?ts pend])"
      "fp_uplink fq = up" "fp_shadow fq = sh" "fp_env fq = fp_env fp"
      "fp_drop_rate fq = fp_drop_rate fp" "fp_drop_mode fq = fp_drop_mode fp"
    using i(1) by (simp_all add: fq_def count_flush_def fp4_def fp3_def fp2_def fp1_def fp0)
  define t where "t = \<lparr>bt_first = ?fs, bt_ts = ?ts, bt_events = pend, bt_drop_a = da, bt_drop_b = db,
      bt_up = env_uplink_takes ?env\<rparr>"
  have "batches_from 1 (bs @ [t])" using i e pend by (simp add: batches_from_append t_def)
  moreover have "uplink_inv up (bs @ [t])" using inv
    by (cases "fp_uplink fp") (auto simp: up feed_inv_def uplink_inv_def t_def batch_image_def)
  moreover have "loss_inv fq (bs @ [t])" using inv drop(2)
    by (simp add: feed_inv_def loss_inv_def proj t_def)
  ultimately have "feed_inv fq (bs @ [t]) []" using inv s4(2) i(1)
    by (simp add: feed_inv_def proj t_def batch_image_def)
  moreover have "up = None \<longleftrightarrow> fp_uplink fp = None" by (simp add: up split: option.split)
  ultimately show thesis using that [of fq t] flush s4(3) proj by (simp add: t_def)
qed

subsection \<open>Emitting\<close>

lemma emit_event_encode: "emit_event ev = emit (\<lambda>b. encode_event b ev)"
  by (cases ev) (simp_all add: fp_add_order_def fp_modify_order_def fp_delete_order_def fp_trade_def fp_heartbeat_def)

definition same_setup :: "feed_publisher \<Rightarrow> feed_publisher \<Rightarrow> bool" where
  "same_setup fp fp' \<longleftrightarrow> fp_env fp' = fp_env fp \<and> length (fp_buf fp') = length (fp_buf fp) \<and>
     (fp_shadow fp' = None \<longleftrightarrow> fp_shadow fp = None) \<and> fp_batch_size fp' = fp_batch_size fp \<and>
     fp_drop_rate fp' = fp_drop_rate fp \<and> fp_drop_mode fp' = fp_drop_mode fp \<and>
     (fp_uplink fp' = None \<longleftrightarrow> fp_uplink fp = None)"

lemma same_setup_refl [simp]: "same_setup fp fp"
  by (simp add: same_setup_def)

lemma same_setup_trans: "same_setup a b \<Longrightarrow> same_setup b c \<Longrightarrow> same_setup a c"
  by (simp add: same_setup_def)

lemma same_setup_env: "same_setup a b \<Longrightarrow> env_ok b = env_ok a"
  by (simp add: same_setup_def env_ok_def)

lemma same_setup_applicable: "same_setup a b \<Longrightarrow> applicable b evs = applicable a evs"
  by (simp add: same_setup_def applicable_def)

lemma length_images [simp]: "length (concat (map event_image evs)) = sum_list (map event_len evs)"
  by (induction evs) auto

text \<open>The event fits behind the pending ones.\<close>

lemma commit_event:
  assumes inv: "feed_inv fp bs pend" and room: "fp_pos fp + event_len ev \<le> length (fp_buf fp)"
    and first: "fp_first_seq fp = 1 + length (batch_events bs)" and batch: "length pend < fp_batch_size fp"
    and wf: "event_wf ev" "fp_next_seq fp < u64_max"
  obtains n b fp' where "encode_tail (\<lambda>b. encode_event b ev) fp = Ok (n, b)"
    "commit_message n b fp = (fp', Ok (fp_next_seq fp))" "feed_inv fp' bs (pend @ [ev])" "same_setup fp fp'"
    "fp_next_seq fp' = fp_next_seq fp + 1"
proof -
  let ?n = "event_len ev" and ?p = "fp_pos fp"
  let ?b = "take ?p (fp_buf fp) @ event_image ev @ drop (?p + ?n) (fp_buf fp)"
  let ?fp = "fst (commit_message ?n ?b fp)"
  have i: "?p \<le> length (fp_buf fp)" "24 \<le> ?p" using inv by (auto simp: feed_inv_def)
  have "encode_tail (\<lambda>b. encode_event b ev) fp = Ok (?n, ?b)"
    using i room by (simp add: encode_tail_def encode_event_image add.commute)
  moreover have "commit_message ?n ?b fp = (?fp, Ok (fp_next_seq fp))" by (simp add: commit_message_def)
  moreover have "take (?p + ?n - 24) (drop 24 ?b) = concat (map event_image (pend @ [ev]))"
  proof -
    have "drop 24 ?b = drop 24 (take ?p (fp_buf fp)) @ event_image ev @ drop (?p + ?n) (fp_buf fp)"
      using i by simp
    moreover have "drop 24 (take ?p (fp_buf fp)) = concat (map event_image pend)"
      using inv by (auto simp: feed_inv_def drop_take)
    moreover have "length (drop 24 (take ?p (fp_buf fp))) = ?p - 24" using i by simp
    ultimately show ?thesis using i by simp
  qed
  then have "feed_inv ?fp bs (pend @ [ev])"
    using inv room first batch wf i by (auto simp: feed_inv_def commit_message_def loss_inv_def)
  moreover have "same_setup fp ?fp" using i room by (simp add: same_setup_def commit_message_def)
  moreover have "fp_next_seq ?fp = fp_next_seq fp + 1" using wf(2) by (simp add: commit_message_def)
  ultimately show thesis by (rule that)
qed

lemma feed_inv_first_seq:
  "feed_inv fp bs pend \<Longrightarrow> feed_inv (if fp_count fp = 0 then fp\<lparr>fp_first_seq := fp_next_seq fp\<rparr> else fp) bs pend"
  by (auto simp: feed_inv_def loss_inv_def)

lemma feed_inv_first_seq_val:
  "feed_inv fp bs pend \<Longrightarrow>
     fp_first_seq (if fp_count fp = 0 then fp\<lparr>fp_first_seq := fp_next_seq fp\<rparr> else fp) = 1 + length (batch_events bs)"
  by (auto simp: feed_inv_def)

lemma event_len_le: "event_len ev \<le> 48"
  by (cases ev) simp_all

lemma emit_event_ok:
  assumes inv: "feed_inv fp bs pend" and env: "env_ok fp" and buf: "72 \<le> length (fp_buf fp)"
    and wf: "event_wf ev" "fp_next_seq fp < u64_max" and app: "applicable fp (batch_events bs @ pend)"
  obtains fp' bs' pend' where "emit_event ev fp = (fp', Ok (fp_next_seq fp))" "feed_inv fp' bs' pend'"
    "batch_events bs' @ pend' = batch_events bs @ pend @ [ev]" "same_setup fp fp'" "fp_next_seq fp' = fp_next_seq fp + 1"
    "\<exists>more. bs' = bs @ more"
proof -
  let ?enc = "\<lambda>b. encode_event b ev"
  let ?fix = "\<lambda>fp. if fp_count fp = 0 then fp\<lparr>fp_first_seq := fp_next_seq fp\<rparr> else fp"
  obtain fp1 bs1 pend1 where p1: "(if fp_count fp \<ge> fp_batch_size fp then flush fp else (fp, Ok ())) = (fp1, Ok ())"
      "feed_inv fp1 bs1 pend1" "batch_events bs1 @ pend1 = batch_events bs @ pend" "same_setup fp fp1"
      "fp_next_seq fp1 = fp_next_seq fp" "length pend1 < fp_batch_size fp1" "\<exists>more. bs1 = bs @ more"
  proof (cases "fp_count fp \<ge> fp_batch_size fp")
    case True
    then have "pend \<noteq> []" using inv by (auto simp: feed_inv_def)
    from flush_ok [OF inv this env app] obtain fp' t where f: "flush fp = (fp', Ok ())" "feed_inv fp' (bs @ [t]) []"
        "bt_events t = pend" "same_setup fp fp'" "fp_next_seq fp' = fp_next_seq fp"
      unfolding same_setup_def by metis
    then show thesis using that [of fp' "bs @ [t]" "[]"] True by (auto simp: feed_inv_def)
  next
    case False
    then show thesis using that [of fp bs pend] inv by (auto simp: feed_inv_def)
  qed
  define fp2 where "fp2 = ?fix fp1"
  have inv2: "feed_inv fp2 bs1 pend1" and first2: "fp_first_seq fp2 = 1 + length (batch_events bs1)"
    unfolding fp2_def using feed_inv_first_seq [OF p1(2)] feed_inv_first_seq_val [OF p1(2)] by auto
  have same2: "same_setup fp fp2" "fp_next_seq fp2 = fp_next_seq fp" "length pend1 < fp_batch_size fp2"
    using p1(4-6) by (auto simp: fp2_def same_setup_def)
  have emit: "emit_event ev fp = (case encode_tail ?enc fp2 of
       Ok (n, b) \<Rightarrow> commit_message n b fp2
     | Err (ShortBuffer needed got) \<Rightarrow>
         if fp_count fp2 = 0 then (fp2, Err (IoMessageTooLarge (length (fp_buf fp2))))
         else sbind flush (\<lambda>_ fp.
                let fp = fp\<lparr>fp_first_seq := fp_next_seq fp\<rparr> in
                case encode_tail ?enc fp of
                  Ok (n, b) \<Rightarrow> commit_message n b fp
                | Err e \<Rightarrow> (fp, Err (IoWire e))
                | Panic \<Rightarrow> (fp, Panic))
              (fp2\<lparr>fp_stats := (fp_stats fp2)\<lparr>fst_size_flushes := fst_size_flushes (fp_stats fp2) + 1\<rparr>\<rparr>)
     | Err e \<Rightarrow> (fp2, Err (IoWire e))
     | Panic \<Rightarrow> (fp2, Panic))"
  proof -
    have "sbind (\<lambda>fp. if fp_count fp \<ge> fp_batch_size fp then flush fp else (fp, Ok ())) k fp = k () fp1"
      for k :: "unit \<Rightarrow> nat feed_op" using p1(1) by (simp add: sbind_def)
    then show ?thesis unfolding emit_event_encode emit_def by (simp only: smethod_simps(2) fp2_def [symmetric])
  qed
  show thesis
  proof (cases "fp_pos fp2 + event_len ev \<le> length (fp_buf fp2)")
    case True
    from commit_event [OF inv2 True first2 same2(3) wf(1)] wf(2) same2(2) obtain n b fp' where c:
        "encode_tail ?enc fp2 = Ok (n, b)" "commit_message n b fp2 = (fp', Ok (fp_next_seq fp2))"
        "feed_inv fp' bs1 (pend1 @ [ev])" "same_setup fp2 fp'" "fp_next_seq fp' = fp_next_seq fp2 + 1"
      by metis
    then show thesis using that [of fp' bs1 "pend1 @ [ev]"] emit p1(3,7) same2 same_setup_trans by simp
  next
    case False
    have pos: "fp_pos fp2 \<le> length (fp_buf fp2)" using inv2 by (simp add: feed_inv_def)
    have "fp_count fp2 \<noteq> 0"
    proof
      assume "fp_count fp2 = 0"
      then have "fp_pos fp2 = 24" using inv2 by (auto simp: feed_inv_def loss_inv_def)
      then show False using False buf same2(1) event_len_le [of ev] by (simp add: same_setup_def)
    qed
    then have ne: "pend1 \<noteq> []" using inv2 by (auto simp: feed_inv_def loss_inv_def)
    let ?fp3 = "fp2\<lparr>fp_stats := (fp_stats fp2)\<lparr>fst_size_flushes := fst_size_flushes (fp_stats fp2) + 1\<rparr>\<rparr>"
    have inv3: "feed_inv ?fp3 bs1 pend1" using inv2 by (auto simp: feed_inv_def loss_inv_def)
    have same3: "same_setup fp ?fp3" using same2(1) by (simp add: same_setup_def)
    have "applicable ?fp3 (batch_events bs1 @ pend1)"
      using app p1(3) same_setup_applicable [OF same3] by simp
    from flush_ok [OF inv3 ne _ this] env same_setup_env [OF same3] obtain fp4 t where f:
        "flush ?fp3 = (fp4, Ok ())" "feed_inv fp4 (bs1 @ [t]) []" "bt_events t = pend1" "same_setup ?fp3 fp4"
        "fp_next_seq fp4 = fp_next_seq ?fp3"
      unfolding same_setup_def by metis
    define fp5 where "fp5 = fp4\<lparr>fp_first_seq := fp_next_seq fp4\<rparr>"
    have inv5: "feed_inv fp5 (bs1 @ [t]) []" "fp_first_seq fp5 = 1 + length (batch_events (bs1 @ [t]))"
      using f(2) by (auto simp: fp5_def feed_inv_def loss_inv_def)
    have same5: "same_setup fp fp5" "fp_next_seq fp5 = fp_next_seq fp"
      using same_setup_trans [OF same3 f(4)] f(5) same2(2) by (auto simp: fp5_def same_setup_def)
    have room: "fp_pos fp5 + event_len ev \<le> length (fp_buf fp5)"
      using inv5 buf same5(1) event_len_le [of ev] by (simp add: feed_inv_def same_setup_def)
    have "length ([] :: feed_event list) < fp_batch_size fp5" using inv5(1) by (simp add: feed_inv_def)
    from commit_event [OF inv5(1) room inv5(2) this wf(1)] wf(2) same5(2) obtain n b fp' where c:
        "encode_tail ?enc fp5 = Ok (n, b)" "commit_message n b fp5 = (fp', Ok (fp_next_seq fp5))"
        "feed_inv fp' (bs1 @ [t]) ([] @ [ev])" "same_setup fp5 fp'" "fp_next_seq fp' = fp_next_seq fp5 + 1"
      by metis
    have "encode_tail ?enc fp2 = Err (ShortBuffer (event_len ev) (length (fp_buf fp2) - fp_pos fp2))"
      using False pos by (simp add: encode_tail_def encode_event_image)
    then have "emit_event ev fp = (fp', Ok (fp_next_seq fp))"
      using emit \<open>fp_count fp2 \<noteq> 0\<close> f(1) c same5 by (simp add: sbind_Ok fp5_def [symmetric] Let_def)
    moreover have "\<exists>more. bs1 @ [t] = bs @ more" using p1(7) by auto
    ultimately show thesis using that [of fp' "bs1 @ [t]" "[ev]"] p1(3) f(3) c same5 same_setup_trans by auto
  qed
qed

subsection \<open>Whole runs\<close>

fun emit_all :: "feed_event list \<Rightarrow> nat list feed_op" where
  "emit_all [] = sreturn []"
| "emit_all (ev # evs) = sbind (emit_event ev) (\<lambda>sq. sbind (emit_all evs) (\<lambda>sqs. sreturn (sq # sqs)))"

lemma emit_all_ok:
  assumes "feed_inv fp bs pend" "env_ok fp" "72 \<le> length (fp_buf fp)" "list_all event_wf evs"
    and "fp_next_seq fp + length evs \<le> u64_max" "applicable fp (batch_events bs @ pend @ evs)"
  shows "\<exists>fp' bs' pend'. emit_all evs fp = (fp', Ok [fp_next_seq fp..<fp_next_seq fp + length evs]) \<and>
     feed_inv fp' bs' pend' \<and> batch_events bs' @ pend' = batch_events bs @ pend @ evs \<and> same_setup fp fp' \<and>
     fp_next_seq fp' = fp_next_seq fp + length evs \<and> (\<exists>more. bs' = bs @ more)"
  using assms
proof (induction evs arbitrary: fp bs pend)
  case (Cons ev evs)
  have app: "applicable fp (batch_events bs @ pend)"
    using Cons.prems(6) by (auto simp: applicable_def ofold_append outcome_simps)
  obtain fp1 bs1 pend1 where e: "emit_event ev fp = (fp1, Ok (fp_next_seq fp))" "feed_inv fp1 bs1 pend1"
      "batch_events bs1 @ pend1 = batch_events bs @ pend @ [ev]" "same_setup fp fp1"
      "fp_next_seq fp1 = fp_next_seq fp + 1" "\<exists>more. bs1 = bs @ more"
    using emit_event_ok [OF Cons.prems(1-3) _ _ app, of ev] Cons.prems(4,5) by auto
  have "applicable fp1 (batch_events bs1 @ pend1 @ evs)"
    using Cons.prems(6) e(3) same_setup_applicable [OF e(4)] by (metis append.assoc append_Cons append_Nil)
  with Cons.IH [OF e(2)] Cons.prems(2-5) e(4,5) same_setup_env [OF e(4)]
  obtain fp' bs' pend' where r: "emit_all evs fp1 = (fp', Ok [fp_next_seq fp1..<fp_next_seq fp1 + length evs])"
      "feed_inv fp' bs' pend'" "batch_events bs' @ pend' = batch_events bs1 @ pend1 @ evs" "same_setup fp1 fp'"
      "fp_next_seq fp' = fp_next_seq fp1 + length evs" "\<exists>more. bs' = bs1 @ more"
    by (auto simp: same_setup_def)
  have "emit_all (ev # evs) fp = (fp', Ok [fp_next_seq fp..<fp_next_seq fp + length (ev # evs)])"
    using e(1,5) r(1) by (simp add: sbind_Ok upt_conv_Cons del: upt_Suc)
  moreover have "batch_events bs' @ pend' = batch_events bs @ pend @ (ev # evs)"
    using r(3) e(3) by (metis append.assoc append_Cons append_Nil)
  ultimately show ?case using r(2,4,5,6) e(4,5,6) same_setup_trans by fastforce
next
  case Nil
  then show ?case by (intro exI [of _ fp] exI [of _ bs] exI [of _ pend]) simp
qed

lemma flush_ok_any:
  assumes inv: "feed_inv fp bs pend" and env: "env_ok fp" and app: "applicable fp (batch_events bs @ pend)"
  obtains fp' bs' where "flush fp = (fp', Ok ())" "feed_inv fp' bs' []" "batch_events bs' = batch_events bs @ pend"
    "same_setup fp fp'" "fp_next_seq fp' = fp_next_seq fp"
proof (cases "pend = []")
  case True
  then have "flush fp = (fp, Ok ())" using inv by (simp add: flush_def feed_inv_def)
  then show thesis using that [of fp bs] True inv by simp
next
  case False
  from flush_ok [OF inv this env app] obtain fp' t where "flush fp = (fp', Ok ())" "feed_inv fp' (bs @ [t]) []"
      "bt_events t = pend" "same_setup fp fp'" "fp_next_seq fp' = fp_next_seq fp"
    unfolding same_setup_def by metis
  then show thesis using that [of fp' "bs @ [t]"] by simp
qed

lemma feed_inv_new:
  assumes "batch_size \<le> u16_max" "24 \<le> max_bytes"
  shows "feed_inv (FeedPublisher_new env batch_size max_bytes) [] []"
  using assms by (simp add: feed_inv_def FeedPublisher_new_def uplink_inv_def shadow_inv_def loss_inv_def)

lemma feed_inv_configure:
  assumes "feed_inv fp [] pend"
  shows "feed_inv (set_loss rate mode seed fp) [] pend" "feed_inv (set_uplink fp) [] pend"
    "feed_inv (enable_self_check fp) [] pend"
  using assms books_rel_empty
  by (auto simp: feed_inv_def set_loss_def set_uplink_def enable_self_check_def uplink_inv_def shadow_inv_def loss_inv_def)

subsection \<open>Reading a sent log back\<close>

fun view_items :: "(wire_error + nat \<times> message) list \<Rightarrow> (wire_error, (nat \<times> feed_event) list) outcome" where
  "view_items [] = Ok []"
| "view_items (Inl e # xs) = Err e"
| "view_items (Inr (sq, m) # xs) = obind (view_event m) (\<lambda>ev. obind (view_items xs) (\<lambda>evs. Ok ((sq, ev) # evs)))"

fun read_datagrams :: "bytes list \<Rightarrow> (wire_error, (nat \<times> feed_event) list) outcome" where
  "read_datagrams [] = Ok []"
| "read_datagrams (d # ds) = obind (datagram_items d) (\<lambda>items. obind (view_items items) (\<lambda>xs.
     obind (read_datagrams ds) (\<lambda>ys. Ok (xs @ ys))))"

definition batch_pairs :: "batch \<Rightarrow> (nat \<times> feed_event) list" where
  "batch_pairs t = zip [bt_first t..<bt_first t + length (bt_events t)] (bt_events t)"

definition batch_valid :: "batch \<Rightarrow> bool" where
  "batch_valid t \<longleftrightarrow> list_all event_wf (bt_events t) \<and> length (bt_events t) \<le> u16_max \<and>
     bt_first t + length (bt_events t) \<le> u64_max \<and> bt_ts t \<le> u64_max"

lemma view_items_pairs:
  "map fst ms = sqs \<Longrightarrow> map (\<lambda>m. view_event (snd m)) ms = map Ok evs \<Longrightarrow> view_items (map Inr ms) = Ok (zip sqs evs)"
proof (induction ms arbitrary: sqs evs)
  case (Cons m ms)
  then show ?case by (cases m; cases evs) auto
qed auto

lemma read_batches:
  assumes "list_all batch_valid ts" "\<And>t. ch t \<le> u8_max"
  shows "read_datagrams (map (\<lambda>t. batch_image (ch t) t) ts) = Ok (concat (map batch_pairs ts))"
  using assms(1)
proof (induction ts)
  case (Cons t ts)
  then obtain ms where "datagram_items (batch_image (ch t) t) = Ok (map Inr ms)"
      "map fst ms = [bt_first t..<bt_first t + length (bt_events t)]"
      "map (\<lambda>m. view_event (snd m)) ms = map Ok (bt_events t)"
    using datagram_image_items [of "bt_events t" "ch t" 0 "bt_first t" "bt_ts t"] assms(2) [of t]
    by (auto simp: batch_valid_def batch_image_def list_all_iff)
  with Cons view_items_pairs [of ms] show ?case by (simp add: batch_pairs_def)
qed simp

lemma batches_valid:
  assumes "batches_from n bs" "list_all event_wf (batch_events bs)" "n + length (batch_events bs) \<le> u64_max"
  shows "list_all batch_valid bs" and "concat (map batch_pairs bs) = zip [n..<n + length (batch_events bs)] (batch_events bs)"
proof -
  have "list_all batch_valid bs \<and> concat (map batch_pairs bs) = zip [n..<n + length (batch_events bs)] (batch_events bs)"
    using assms
  proof (induction bs arbitrary: n)
    case (Cons t bs)
    let ?l = "length (bt_events t)"
    have ev: "batch_events (t # bs) = bt_events t @ batch_events bs" by (simp add: batch_events_def)
    have "[n..<n + length (batch_events (t # bs))] = [n..<n + ?l] @ [n + ?l..<n + ?l + length (batch_events bs)]"
      unfolding ev using upt_add_eq_append [of n "n + ?l" "length (batch_events bs)"] by (simp add: add.assoc)
    with Cons.IH [of "n + ?l"] Cons.prems show ?case
      by (simp add: ev batch_valid_def batch_pairs_def)
  qed (simp add: batch_events_def)
  then show "list_all batch_valid bs" "concat (map batch_pairs bs) = zip [n..<n + length (batch_events bs)] (batch_events bs)"
    by auto
qed

section \<open>Properties\<close>

text \<open>C4: the feed carries exactly what was published. Emitting any well-formed events through a
  publisher with working sockets always succeeds and hands out the sequences 1, 2, 3, \<dots> in order;
  after the final flush the events are cut into consecutive batches, each arm's datagrams decode to
  exactly the batches the loss injector did not drop on that arm, and the batches together are the
  published events with their sequences. Under \<open>Exclusive\<close> loss no batch is missing from both arms.\<close>

theorem feed_carries_published_events:
  assumes "list_all event_wf evs" "length evs < u64_max" "batch_size \<le> u16_max" "72 \<le> max_bytes"
    and "\<forall>k. env_now_ns (env k) \<le> u64_max \<and> env_send_a (env k) \<and> env_send_b (env k)"
  shows "\<exists>fp fp' bs. emit_all evs (set_loss rate mode seed (FeedPublisher_new env batch_size max_bytes))
       = (fp, Ok [1..<1 + length evs]) \<and> flush fp = (fp', Ok ()) \<and>
     batch_events bs = evs \<and> concat (map batch_pairs bs) = zip [1..<1 + length evs] evs \<and>
     read_datagrams (fp_sent_a fp') = Ok (concat (map batch_pairs (filter (\<lambda>t. \<not> bt_drop_a t) bs))) \<and>
     read_datagrams (fp_sent_b fp') = Ok (concat (map batch_pairs (filter (\<lambda>t. \<not> bt_drop_b t) bs))) \<and>
     (mode = Exclusive \<longrightarrow> list_all (\<lambda>t. \<not> (bt_drop_a t \<and> bt_drop_b t)) bs) \<and>
     (rate \<le> 0 \<longrightarrow> list_all (\<lambda>t. \<not> bt_drop_a t \<and> \<not> bt_drop_b t) bs)"
proof -
  let ?fp0 = "set_loss rate mode seed (FeedPublisher_new env batch_size max_bytes)"
  have inv: "feed_inv ?fp0 [] []" using feed_inv_configure(1) feed_inv_new assms(3,4) by simp
  have p: "env_ok ?fp0" "72 \<le> length (fp_buf ?fp0)" "fp_next_seq ?fp0 = 1" "fp_shadow ?fp0 = None"
      "fp_drop_mode ?fp0 = mode" "rate \<le> 0 \<Longrightarrow> fp_drop_rate ?fp0 \<le> 0"
    using assms by (auto simp: set_loss_def FeedPublisher_new_def env_ok_def)
  have app: "\<And>evs. applicable ?fp0 evs" using p(4) by (simp add: applicable_def)
  obtain fp bs pend where e: "emit_all evs ?fp0 = (fp, Ok [1..<1 + length evs])" "feed_inv fp bs pend"
      "batch_events bs @ pend = evs" "same_setup ?fp0 fp"
    using emit_all_ok [OF inv p(1,2) assms(1) _ app] assms(2) p(3) by auto
  obtain fp' bs' where f: "flush fp = (fp', Ok ())" "feed_inv fp' bs' []" "batch_events bs' = evs" "same_setup fp fp'"
    using flush_ok_any [OF e(2)] same_setup_env [OF e(4)] same_setup_applicable [OF e(4)] app p(1) e(3) by metis
  have i: "batches_from 1 bs'" "list_all event_wf (batch_events bs')" "1 + length (batch_events bs') \<le> u64_max"
      "fp_sent_a fp' = map (batch_image 0) (filter (\<lambda>t. \<not> bt_drop_a t) bs')"
      "fp_sent_b fp' = map (batch_image 1) (filter (\<lambda>t. \<not> bt_drop_b t) bs')" "loss_inv fp' bs'"
    using f(2) by (auto simp: feed_inv_def)
  note v = batches_valid [OF i(1-3)]
  have "read_datagrams (fp_sent_a fp') = Ok (concat (map batch_pairs (filter (\<lambda>t. \<not> bt_drop_a t) bs')))"
    using read_batches [of "filter (\<lambda>t. \<not> bt_drop_a t) bs'" "\<lambda>_. 0"] v(1) i(4) by (auto simp: list_all_iff)
  moreover have "read_datagrams (fp_sent_b fp') = Ok (concat (map batch_pairs (filter (\<lambda>t. \<not> bt_drop_b t) bs')))"
    using read_batches [of "filter (\<lambda>t. \<not> bt_drop_b t) bs'" "\<lambda>_. 1"] v(1) i(5) by (auto simp: list_all_iff)
  moreover have "fp_drop_mode fp' = mode" "rate \<le> 0 \<Longrightarrow> fp_drop_rate fp' \<le> 0"
    using e(4) f(4) p(5,6) by (auto simp: same_setup_def)
  then have "mode = Exclusive \<Longrightarrow> list_all (\<lambda>t. \<not> (bt_drop_a t \<and> bt_drop_b t)) bs'"
      "rate \<le> 0 \<Longrightarrow> list_all (\<lambda>t. \<not> bt_drop_a t \<and> \<not> bt_drop_b t) bs'"
    using i(6) by (auto simp: loss_inv_def loss_allowed_def list_all_iff)
  ultimately show ?thesis using e(1) f(1,3) v(2) by blast
qed

theorem feed_carries_published_events_witness:
  "\<exists>fp fp' bs. emit_all [EvAdd 1 100 5 1 Bid, EvTrade 1 2 1 100 5 1 Ask, EvDelete 1 1 Bid]
       (set_loss (1 / 2) Exclusive 7 (FeedPublisher_new (\<lambda>_. \<lparr>env_now_ns = 9, env_send_a = True, env_send_b = True,
          env_uplink_takes = True\<rparr>) 2 100)) = (fp, Ok [1, 2, 3]) \<and> flush fp = (fp', Ok ()) \<and>
     batch_events bs = [EvAdd 1 100 5 1 Bid, EvTrade 1 2 1 100 5 1 Ask, EvDelete 1 1 Bid] \<and>
     list_all (\<lambda>t. \<not> (bt_drop_a t \<and> bt_drop_b t)) bs"
  using feed_carries_published_events [of "[EvAdd 1 100 5 1 Bid, EvTrade 1 2 1 100 5 1 Ask, EvDelete 1 1 Bid]" 2 100
      "\<lambda>_. \<lparr>env_now_ns = 9, env_send_a = True, env_send_b = True, env_uplink_takes = True\<rparr>" "1 / 2" Exclusive 7]
  by (auto simp: in_i64_def upt_rec)

end
