(* ===== verification/Engine.thy ===== *)
theory Engine
  imports Feed
begin

text \<open>
  The matching engine of \<open>crates/matching-engine/src/engine.rs\<close>: every book change goes through
  \<open>publish\<close>, which applies it to the engine's reference books and announces it on the feed;
  \<open>submit_reported\<close> matches an incoming order in price-time priority and rests what is left. The
  state is the engine with its feed publisher. The \<open>on_sequence\<close> callback (digest checkpoints) is a
  parameter \<open>cb\<close> that may fail; the fills handed to \<open>on_fill\<close> are returned as a list.
\<close>

section \<open>State\<close>

record fill =
  fl_trade_id :: nat
  fl_price :: int
  fl_quantity :: nat
  fl_leaves :: nat

record passive_fill =
  pf_resting_order_id :: nat
  pf_trade_id :: nat
  pf_price :: int
  pf_quantity :: nat
  pf_leaves :: nat
  pf_symbol_id :: nat
  pf_side :: side

record submit_outcome =
  su_order_id :: nat
  su_filled :: nat
  su_resting :: nat

datatype change =
    ChAdd nat side int nat
  | ChReduce nat side int nat
  | ChReplace nat side int nat
  | ChDelete nat side
  | ChTrade nat nat nat int nat side

record symbol_state =
  sy_id :: nat
  sy_tick_size :: int
  sy_mid :: int
  sy_live :: "nat list"

record engine_stats =
  es_orders_submitted :: nat
  es_trades :: nat
  es_shares_traded :: nat
  es_cancels :: nat
  es_modifies :: nat
  es_aggressive_fills :: nat

record engine =
  en_books :: "refbook books"
  en_symbols :: "symbol_state list"
  en_next_order_id :: nat
  en_next_trade_id :: nat
  en_stats :: engine_stats
  en_watched :: "nat list"
  en_passive_fills :: "passive_fill list"
  en_passive_fills_dropped :: nat

text \<open>\<open>Vec::swap_remove\<close> at the position of an id.\<close>

fun position :: "nat \<Rightarrow> nat list \<Rightarrow> nat option" where
  "position i [] = None"
| "position i (x # xs) = (if x = i then Some 0 else map_option Suc (position i xs))"

definition swap_remove :: "nat \<Rightarrow> 'a list \<Rightarrow> 'a list" where
  "swap_remove pos xs = butlast (xs[pos := last xs])"

definition remove_live :: "nat \<Rightarrow> symbol_state \<Rightarrow> symbol_state" where
  "remove_live order_id s =
     (case position order_id (sy_live s) of None \<Rightarrow> s | Some pos \<Rightarrow> s\<lparr>sy_live := swap_remove pos (sy_live s)\<rparr>)"

text \<open>A configured symbol: id, tick size, reference price.\<close>

definition engine_new :: "(nat \<times> int \<times> int) list \<Rightarrow> engine" where
  "engine_new symbols =
     \<lparr>en_books = [],
      en_symbols = map (\<lambda>(i, tick, ref). \<lparr>sy_id = i, sy_tick_size = tick, sy_mid = ref, sy_live = []\<rparr>) symbols,
      en_next_order_id = 1, en_next_trade_id = 1,
      en_stats = \<lparr>es_orders_submitted = 0, es_trades = 0, es_shares_traded = 0, es_cancels = 0, es_modifies = 0,
        es_aggressive_fills = 0\<rparr>,
      en_watched = [], en_passive_fills = [], en_passive_fills_dropped = 0\<rparr>"

text \<open>The watch list is kept sorted; a binary search on it is membership.\<close>

definition watch_order :: "nat \<Rightarrow> engine \<Rightarrow> engine" where
  "watch_order order_id e =
     (if order_id \<in> set (en_watched e) then e else e\<lparr>en_watched := insort order_id (en_watched e)\<rparr>)"

definition unwatch_order :: "nat \<Rightarrow> engine \<Rightarrow> engine" where
  "unwatch_order order_id e = e\<lparr>en_watched := remove1 order_id (en_watched e)\<rparr>"

definition take_passive_fills :: "engine \<Rightarrow> engine \<times> passive_fill list" where
  "take_passive_fills e = (e\<lparr>en_passive_fills := []\<rparr>, en_passive_fills e)"

definition symbol_index :: "nat \<Rightarrow> engine \<Rightarrow> nat option" where
  "symbol_index symbol_id e = position symbol_id (map sy_id (en_symbols e))"

fun opposite :: "side \<Rightarrow> side" where
  "opposite Bid = Ask"
| "opposite Ask = Bid"

section \<open>Publishing a change\<close>

type_synonym 'a engine_op = "(engine \<times> feed_publisher, io_error, 'a) mut_method"

definition cur_book :: "nat \<Rightarrow> engine \<Rightarrow> refbook" where
  "cur_book symbol_id e = fst (get_or_create refbook_new symbol_id (en_books e))"

definition touch_book :: "nat \<Rightarrow> engine \<Rightarrow> engine" where
  "touch_book symbol_id e = e\<lparr>en_books := snd (get_or_create refbook_new symbol_id (en_books e))\<rparr>"

text \<open>Apply an operation to the symbol's book; announce it only if the book took it.\<close>

definition book_then_feed :: "nat \<Rightarrow> (refbook \<Rightarrow> refbook \<times> (book_error, 'a) outcome) \<Rightarrow> nat feed_op \<Rightarrow> nat engine_op" where
  "book_then_feed symbol_id upd announce st =
     (case st of (e, fp) \<Rightarrow>
      case upd (cur_book symbol_id e) of
        (book', r) \<Rightarrow>
          (let e' = e\<lparr>en_books := om_insert symbol_id book' (en_books (touch_book symbol_id e))\<rparr> in
           case r of
             Ok _ \<Rightarrow> (case announce fp of (fp', q) \<Rightarrow> ((e', fp'), q))
           | Err x \<Rightarrow> ((e', fp), Err (IoBook x))
           | Panic \<Rightarrow> ((e', fp), Panic)))"

fun publish :: "nat \<Rightarrow> change \<Rightarrow> nat engine_op" where
  "publish symbol_id (ChAdd order_id side price quantity) st =
     book_then_feed symbol_id (\<lambda>b. rb_add b order_id side price quantity)
       (fp_add_order order_id price quantity symbol_id side) st"
| "publish symbol_id (ChReduce order_id side price new_quantity) st =
     book_then_feed symbol_id (\<lambda>b. rb_reduce b order_id new_quantity)
       (fp_modify_order order_id price new_quantity symbol_id side Reduce) st"
| "publish symbol_id (ChReplace order_id side new_price new_quantity) st =
     book_then_feed symbol_id (\<lambda>b. rb_replace b order_id new_price new_quantity)
       (fp_modify_order order_id new_price new_quantity symbol_id side Replace) st"
| "publish symbol_id (ChDelete order_id side) st =
     book_then_feed symbol_id (\<lambda>b. rb_delete b order_id) (fp_delete_order order_id symbol_id side) st"
| "publish symbol_id (ChTrade trade_id aggressor resting price quantity aggressor_side) st =
     (case st of (e, fp) \<Rightarrow>
      case fp_trade trade_id aggressor resting price quantity symbol_id aggressor_side fp of
        (fp', q) \<Rightarrow> ((touch_book symbol_id e, fp'), q))"

section \<open>Matching\<close>

abbreviation (input) MAX_PASSIVE_FILLS :: nat where "MAX_PASSIVE_FILLS \<equiv> 1024"

type_synonym seq_callback = "engine \<Rightarrow> nat \<Rightarrow> (io_error, unit) outcome"

definition on_sequence :: "seq_callback \<Rightarrow> nat \<Rightarrow> unit engine_op" where
  "on_sequence cb sq st = (st, cb (fst st) sq)"

definition on_engine :: "(engine \<Rightarrow> engine) \<Rightarrow> unit engine_op" where
  "on_engine f = supdate (\<lambda>(e, fp). (f e, fp))"

fun crosses :: "side \<Rightarrow> int \<Rightarrow> int \<Rightarrow> bool" where
  "crosses Bid price best_price \<longleftrightarrow> price \<ge> best_price"
| "crosses Ask price best_price \<longleftrightarrow> price \<le> best_price"

definition forget_live :: "nat \<Rightarrow> nat \<Rightarrow> engine \<Rightarrow> engine" where
  "forget_live symbol_id order_id e =
     (case symbol_index symbol_id e of None \<Rightarrow> e
      | Some idx \<Rightarrow> e\<lparr>en_symbols := (en_symbols e)[idx := remove_live order_id (en_symbols e ! idx)]\<rparr>)"

definition count_trade :: "nat \<Rightarrow> engine \<Rightarrow> engine" where
  "count_trade qty e = e\<lparr>en_stats := (en_stats e)\<lparr>es_trades := wrap_add_u64 (es_trades (en_stats e)) 1,
     es_shares_traded := wrap_add_u64 (es_shares_traded (en_stats e)) qty\<rparr>\<rparr>"

definition record_passive :: "passive_fill \<Rightarrow> engine \<Rightarrow> engine" where
  "record_passive pf e =
     (if pf_resting_order_id pf \<in> set (en_watched e)
      then if length (en_passive_fills e) < MAX_PASSIVE_FILLS
           then e\<lparr>en_passive_fills := en_passive_fills e @ [pf]\<rparr>
           else e\<lparr>en_passive_fills_dropped := wrap_add_u64 (en_passive_fills_dropped e) 1\<rparr>
      else e)"

definition take_trade_id :: "engine \<Rightarrow> engine" where
  "take_trade_id e = e\<lparr>en_next_trade_id := wrap_add_u64 (en_next_trade_id e) 1\<rparr>"

text \<open>One turn of the matching loop: \<open>None\<close> ends it, \<open>Some f\<close> is a fill.\<close>

definition match_step :: "seq_callback \<Rightarrow> nat \<Rightarrow> side \<Rightarrow> int \<Rightarrow> nat \<Rightarrow> nat \<Rightarrow> fill option engine_op" where
  "match_step cb symbol_id side price order_id remaining st =
     (case st of (e, fp) \<Rightarrow>
      let book = cur_book symbol_id e; e = touch_book symbol_id e in
      case rb_front book (opposite side) of
        None \<Rightarrow> ((e, fp), Ok None)
      | Some (best_price, resting_id) \<Rightarrow>
          if \<not> crosses side price best_price then ((e, fp), Ok None)
          else case rb_get book resting_id of
            None \<Rightarrow> ((e, fp), Panic)
          | Some resting \<Rightarrow>
              let qty = min remaining (ro_quantity resting); trade_id = en_next_trade_id e;
                  fully_filled = (qty = ro_quantity resting);
                  change = (if fully_filled then ChDelete resting_id (opposite side)
                            else ChReduce resting_id (opposite side) (ro_price resting) (ro_quantity resting - qty))
              in sbind (publish symbol_id (ChTrade trade_id order_id resting_id best_price qty side)) (\<lambda>sq.
                 sbind (on_sequence cb sq) (\<lambda>_.
                 sbind (publish symbol_id change) (\<lambda>sq.
                 sbind (on_sequence cb sq) (\<lambda>_.
                 sbind (on_engine (\<lambda>e. if fully_filled then forget_live symbol_id resting_id e else e)) (\<lambda>_.
                 sbind (on_engine (count_trade qty)) (\<lambda>_.
                 sbind (on_engine (record_passive \<lparr>pf_resting_order_id = resting_id, pf_trade_id = trade_id,
                          pf_price = best_price, pf_quantity = qty, pf_leaves = ro_quantity resting - qty,
                          pf_symbol_id = symbol_id, pf_side = opposite side\<rparr>)) (\<lambda>_.
                 sreturn (Some \<lparr>fl_trade_id = trade_id, fl_price = best_price, fl_quantity = qty,
                                fl_leaves = remaining - qty\<rparr>))))))))
                 (take_trade_id e, fp))"

lemma get_or_create_get: "om_get y (snd (get_or_create n y bks)) = Some (fst (get_or_create n y bks))"
  by (auto simp: get_or_create_def om_get_insert split: option.splits)

lemma cur_book_simps [simp]:
  "cur_book y (e\<lparr>en_books := om_insert y b m\<rparr>) = b" "cur_book y (touch_book y e) = cur_book y e"
  using get_or_create_get [of y refbook_new "en_books e"]
  by (simp_all add: cur_book_def touch_book_def get_or_create_def om_get_insert split: option.splits)

lemma cur_book_other [simp]:
  "cur_book y (on_books e) = cur_book y e" if "en_books (on_books e) = en_books e" for on_books
  using that by (simp add: cur_book_def)

lemma bookkeeping_books [simp]:
  "en_books (forget_live y i e) = en_books e" "en_books (count_trade q e) = en_books e"
  "en_books (record_passive pf e) = en_books e" "en_books (take_trade_id e) = en_books e"
  by (auto simp: forget_live_def count_trade_def record_passive_def take_trade_id_def split: option.splits)

lemma length_AList_delete: "map_of al k = Some v \<Longrightarrow> length (AList.delete k al) < length al"
  unfolding AList.delete_eq by (rule length_filter_less [of "(k, v)"]) (auto dest: map_of_SomeD)

lemma rb_delete_len: "rb_delete b i = (b', Ok x) \<Longrightarrow> rb_len b' < rb_len b"
  by (auto simp: rb_delete_def rb_len_def Let_def dest: length_AList_delete split: option.splits)

lemma publish_trade_book:
  "publish y (ChTrade t a i p q s) st = (st', r) \<Longrightarrow> cur_book y (fst st') = cur_book y (fst st)"
  by (auto split: prod.splits)

lemma publish_delete_len:
  assumes "publish y (ChDelete i s) st = (st', Ok sq)"
  shows "rb_len (cur_book y (fst st')) < rb_len (cur_book y (fst st))"
proof -
  obtain e fp where st: "st = (e, fp)" by fastforce
  obtain b r where d: "rb_delete (cur_book y e) i = (b, r)" by fastforce
  have "cur_book y (fst st') = b" "\<exists>x. r = Ok x"
    using assms d by (auto simp: st book_then_feed_def Let_def split: outcome.splits prod.splits)
  then show ?thesis using rb_delete_len d by (auto simp: st)
qed

lemma on_engine_simp [simp]: "on_engine f st = ((f (fst st), snd st), Ok ())"
  by (simp add: on_engine_def case_prod_beta)

lemma match_step_decreases:
  assumes "match_step cb y side price oid r st = (st', Ok (Some f))" "0 < r"
  shows "r - fl_quantity f = 0 \<or> rb_len (cur_book y (fst st')) < rb_len (cur_book y (fst st))"
proof -
  obtain e fp where st: "st = (e, fp)" by fastforce
  obtain bp i x where b: "rb_front (cur_book y e) (opposite side) = Some (bp, i)" "crosses side price bp"
      "rb_get (cur_book y e) i = Some x"
    using assms(1) by (auto simp: match_step_def st Let_def split: option.splits if_splits)
  let ?q = "min r (ro_quantity x)"
  show ?thesis
  proof (cases "?q = ro_quantity x")
    case True
    obtain st1 sq1 st2 sq2 st3 where p: "publish y (ChTrade (en_next_trade_id (touch_book y e)) oid i bp ?q side)
        (take_trade_id (touch_book y e), fp) = (st1, Ok sq1)" "on_sequence cb sq1 st1 = (st2, Ok ())"
        "publish y (ChDelete i (opposite side)) st2 = (st3, Ok sq2)"
        "cur_book y (fst st') = cur_book y (fst st3)"
      using assms(1) True
      by (auto simp: match_step_def st Let_def b outcome_simps on_sequence_def simp del: publish.simps)
    have "cur_book y (fst st1) = cur_book y e" using publish_trade_book [OF p(1)] by simp
    then show ?thesis using publish_delete_len [OF p(3)] p(2,4) by (simp add: st on_sequence_def)
  next
    case False
    then have "?q = r" by (simp add: min_def split: if_splits)
    then have "fl_quantity f = r"
      using assms(1) by (auto simp: match_step_def st Let_def b outcome_simps simp del: publish.simps split: if_splits)
    then show ?thesis by simp
  qed
qed

function match_loop :: "seq_callback \<Rightarrow> nat \<Rightarrow> side \<Rightarrow> int \<Rightarrow> nat \<Rightarrow> nat \<Rightarrow> (fill list \<times> nat) engine_op" where
  "match_loop cb symbol_id side price order_id remaining st =
     (if remaining = 0 then (st, Ok ([], 0))
      else case match_step cb symbol_id side price order_id remaining st of
        (st', Ok None) \<Rightarrow> (st', Ok ([], remaining))
      | (st', Ok (Some f)) \<Rightarrow>
          (case match_loop cb symbol_id side price order_id (remaining - fl_quantity f) st' of
             (st'', Ok (fs, r)) \<Rightarrow> (st'', Ok (f # fs, r))
           | (st'', Err x) \<Rightarrow> (st'', Err x)
           | (st'', Panic) \<Rightarrow> (st'', Panic))
      | (st', Err x) \<Rightarrow> (st', Err x)
      | (st', Panic) \<Rightarrow> (st', Panic))"
  by pat_completeness auto
termination
  apply (relation "measure (\<lambda>(cb, y, side, price, oid, r, st). if r = 0 then 0 else Suc (rb_len (cur_book y (fst st))))")
  subgoal by simp
  subgoal premises prems for cb symbol_id side price order_id remaining st
    using prems by (auto dest!: match_step_decreases [OF sym])
  done

declare match_loop.simps [simp del]

definition rest_live :: "nat \<Rightarrow> nat \<Rightarrow> engine \<Rightarrow> engine" where
  "rest_live symbol_id order_id e =
     (case symbol_index symbol_id e of None \<Rightarrow> e
      | Some idx \<Rightarrow> e\<lparr>en_symbols := (en_symbols e)[idx := (en_symbols e ! idx)
           \<lparr>sy_live := sy_live (en_symbols e ! idx) @ [order_id]\<rparr>]\<rparr>)"

definition begin_submit :: "engine \<Rightarrow> engine" where
  "begin_submit e = e\<lparr>en_next_order_id := wrap_add_u64 (en_next_order_id e) 1,
     en_stats := (en_stats e)\<lparr>es_orders_submitted := wrap_add_u64 (es_orders_submitted (en_stats e)) 1\<rparr>\<rparr>"

definition count_aggressive :: "engine \<Rightarrow> engine" where
  "count_aggressive e = e\<lparr>en_stats := (en_stats e)\<lparr>es_aggressive_fills := wrap_add_u64 (es_aggressive_fills (en_stats e)) 1\<rparr>\<rparr>"

definition submit_reported :: "seq_callback \<Rightarrow> nat \<Rightarrow> side \<Rightarrow> int \<Rightarrow> nat \<Rightarrow> bool \<Rightarrow> (submit_outcome \<times> fill list) engine_op" where
  "submit_reported cb symbol_id side price quantity generator_may_recycle st =
     (let order_id = en_next_order_id (fst st) in
      sbind (on_engine begin_submit) (\<lambda>_.
      sbind (match_loop cb symbol_id side price order_id quantity) (\<lambda>(fills, remaining).
      sbind (on_engine (\<lambda>e. if fills \<noteq> [] then count_aggressive e else e)) (\<lambda>_.
      sbind (if remaining > 0
             then sbind (publish symbol_id (ChAdd order_id side price remaining)) (\<lambda>sq.
                  sbind (on_sequence cb sq) (\<lambda>_.
                  on_engine (\<lambda>e. if generator_may_recycle then rest_live symbol_id order_id e else e)))
             else sreturn ()) (\<lambda>_.
      sreturn (\<lparr>su_order_id = order_id, su_filled = quantity - remaining, su_resting = remaining\<rparr>, fills))))) st)"

definition submit :: "seq_callback \<Rightarrow> nat \<Rightarrow> side \<Rightarrow> int \<Rightarrow> nat \<Rightarrow> unit engine_op" where
  "submit cb symbol_id side price quantity =
     sbind (submit_reported cb symbol_id side price quantity True) (\<lambda>_. sreturn ())"

definition cancel_reported :: "seq_callback \<Rightarrow> nat \<Rightarrow> nat \<Rightarrow> nat option engine_op" where
  "cancel_reported cb symbol_id order_id st =
     (case st of (e, fp) \<Rightarrow>
      case rb_get (cur_book symbol_id e) order_id of
        None \<Rightarrow> ((touch_book symbol_id e, fp), Ok None)
      | Some resting \<Rightarrow>
          sbind (publish symbol_id (ChDelete order_id (ro_side resting))) (\<lambda>sq.
          sbind (on_sequence cb sq) (\<lambda>_.
          sbind (on_engine (forget_live symbol_id order_id)) (\<lambda>_.
          sbind (on_engine (\<lambda>e. e\<lparr>en_stats := (en_stats e)\<lparr>es_cancels := wrap_add_u64 (es_cancels (en_stats e)) 1\<rparr>\<rparr>)) (\<lambda>_.
          sreturn (Some (ro_quantity resting))))))
          (touch_book symbol_id e, fp))"

definition cancel :: "seq_callback \<Rightarrow> nat \<Rightarrow> nat \<Rightarrow> unit engine_op" where
  "cancel cb symbol_id order_id = sbind (cancel_reported cb symbol_id order_id) (\<lambda>_. sreturn ())"

definition amend :: "seq_callback \<Rightarrow> nat \<Rightarrow> nat \<Rightarrow> int option \<Rightarrow> nat \<Rightarrow> unit engine_op" where
  "amend cb symbol_id order_id new_price new_quantity st =
     (case st of (e, fp) \<Rightarrow>
      case rb_get (cur_book symbol_id e) order_id of
        None \<Rightarrow> ((touch_book symbol_id e, fp), Ok ())
      | Some resting \<Rightarrow>
          let price = (case new_price of None \<Rightarrow> ro_price resting | Some p \<Rightarrow> p);
              change = (if price = ro_price resting \<and> new_quantity < ro_quantity resting
                        then ChReduce order_id (ro_side resting) (ro_price resting) new_quantity
                        else ChReplace order_id (ro_side resting) price new_quantity)
          in sbind (publish symbol_id change) (\<lambda>sq.
             sbind (on_sequence cb sq) (\<lambda>_.
             on_engine (\<lambda>e. e\<lparr>en_stats := (en_stats e)\<lparr>es_modifies := wrap_add_u64 (es_modifies (en_stats e)) 1\<rparr>\<rparr>)))
             (touch_book symbol_id e, fp))"

section \<open>The feed as the engine sees it\<close>

locale event_feed =
  fixes ready :: "'f \<Rightarrow> feed_event list \<Rightarrow> bool"
    and announce :: "feed_event \<Rightarrow> 'f \<Rightarrow> 'f \<times> (io_error, nat) outcome"
  assumes announce_ok: "ready f evs \<Longrightarrow> event_wf ev \<Longrightarrow> Suc (length evs) < u64_max \<Longrightarrow>
       is_Ok (ofold spec_apply evs (\<lambda>_. [])) \<Longrightarrow>
       \<exists>f'. announce ev f = (f', Ok (Suc (length evs))) \<and> ready f' (evs @ [ev])"
    and ready_wf: "ready f evs \<Longrightarrow> list_all event_wf evs"
begin

lemma announce_keeps_replay:
  assumes "ready f evs" "ofold spec_apply evs (\<lambda>_. []) = Ok sp" "spec_apply ev sp = Ok sp'"
    and "event_wf ev" "Suc (length evs) < u64_max"
  obtains f' where "announce ev f = (f', Ok (Suc (length evs)))" "ready f' (evs @ [ev])"
    "ofold spec_apply (evs @ [ev]) (\<lambda>_. []) = Ok sp'"
  using announce_ok [OF assms(1,4,5)] assms(2,3) by (auto simp: ofold_append)

end

definition feed_ready :: "rat \<times> drop_mode \<Rightarrow> feed_publisher \<Rightarrow> feed_event list \<Rightarrow> bool" where
  "feed_ready cfg fp evs \<longleftrightarrow> (fp_drop_rate fp, fp_drop_mode fp) = cfg \<and> env_ok fp \<and> 72 \<le> length (fp_buf fp) \<and>
     (\<exists>bs pend. feed_inv fp bs pend \<and> batch_events bs @ pend = evs)"

interpretation fd: event_feed "feed_ready cfg" emit_event for cfg
proof unfold_locales
  fix fp evs ev
  assume r: "feed_ready cfg fp evs" and ev: "event_wf ev" "Suc (length evs) < u64_max" "is_Ok (ofold spec_apply evs (\<lambda>_. []))"
  obtain bs pend where i: "feed_inv fp bs pend" "batch_events bs @ pend = evs" using r by (auto simp: feed_ready_def)
  have n: "fp_next_seq fp = Suc (length evs)" using i by (auto simp: feed_inv_def)
  have "applicable fp (batch_events bs @ pend)" using ev(3) i(2) by (simp add: applicable_def)
  moreover have "env_ok fp" "72 \<le> length (fp_buf fp)" "fp_next_seq fp < u64_max"
    using r n ev(2) by (auto simp: feed_ready_def)
  ultimately obtain fp' bs' pend' where e: "emit_event ev fp = (fp', Ok (fp_next_seq fp))" "feed_inv fp' bs' pend'"
    "batch_events bs' @ pend' = batch_events bs @ pend @ [ev]" "same_setup fp fp'"
    using emit_event_ok [OF i(1) _ _ ev(1)] by metis
  have "batch_events bs' @ pend' = evs @ [ev]" using e(3) i(2) by (metis append.assoc)
  with e n show "\<exists>f'. emit_event ev fp = (f', Ok (Suc (length evs))) \<and> feed_ready cfg f' (evs @ [ev])"
    using r same_setup_env [of fp fp'] by (auto simp: feed_ready_def same_setup_def)
next
  fix fp evs assume "feed_ready cfg fp evs"
  then show "list_all event_wf evs" by (auto simp: feed_ready_def feed_inv_def)
qed

section \<open>The engine invariant\<close>

fun change_event :: "nat \<Rightarrow> change \<Rightarrow> feed_event" where
  "change_event y (ChAdd i s p q) = EvAdd i p q y s"
| "change_event y (ChReduce i s p q) = EvModify i p q y s Reduce"
| "change_event y (ChReplace i s p q) = EvModify i p q y s Replace"
| "change_event y (ChDelete i s) = EvDelete i y s"
| "change_event y (ChTrade t a r p q s) = EvTrade t a r p q y s"

text \<open>After the events \<open>evs\<close> have been published, the engine's books are what a consumer gets by
  applying those events.\<close>

definition engine_inv :: "rat \<times> drop_mode \<Rightarrow> engine \<times> feed_publisher \<Rightarrow> feed_event list \<Rightarrow> spec_books \<Rightarrow> bool" where
  "engine_inv cfg st evs sp \<longleftrightarrow> feed_ready cfg (snd st) evs \<and> ofold spec_apply evs (\<lambda>_. []) = Ok sp \<and>
     books_rel refbook_rel (en_books (fst st)) sp \<and> en_next_trade_id (fst st) \<le> u64_max \<and>
     en_next_order_id (fst st) \<le> u64_max \<and>
     (\<forall>y. \<forall>x\<in>set (sp y). ro_order_id x < en_next_order_id (fst st))"

definition order_wf :: "resting_order \<Rightarrow> bool" where
  "order_wf x \<longleftrightarrow> ro_order_id x \<le> u64_max \<and> in_i64 (ro_price x) \<and> ro_quantity x \<le> u32_max"

lemma spec_apply_orders_wf:
  assumes "spec_apply ev sp = Ok sp'" "event_wf ev" "\<forall>y. \<forall>x\<in>set (sp y). order_wf x"
  shows "\<forall>y. \<forall>x\<in>set (sp' y). order_wf x"
  using assms
  by (cases "(ev, sp)" rule: spec_apply.cases)
     (auto simp: outcome_simps spec_add_def spec_reduce_def spec_replace_def spec_delete_def order_wf_def
       dest!: spec_get_SomeD split: if_splits option.splits)

lemma replay_orders_wf:
  assumes "ofold spec_apply evs (\<lambda>_. []) = Ok sp" "list_all event_wf evs" "x \<in> set (sp y)"
  shows "order_wf x"
proof -
  have "\<forall>y. \<forall>x\<in>set (sp y). order_wf x"
    by (rule ofold_invariant [OF assms(1)])
       (use assms(2) spec_apply_orders_wf in \<open>auto simp: list_all_iff\<close>)
  then show ?thesis using assms(3) by blast
qed

lemma books_rel_wf: "books_rel refbook_rel bks sp \<Longrightarrow> spec_wf (sp y)"
  using ref.rel_wf by (cases "om_get y bks") (auto simp: books_rel_def spec_wf_def)

lemma cur_book_rel: "books_rel refbook_rel (en_books e) sp \<Longrightarrow> refbook_rel (cur_book y e) (sp y)"
  unfolding cur_book_def by (erule refset.get_or_create_sim(1)) (rule surjective_pairing)

lemma touch_book_rel: "books_rel refbook_rel (en_books e) sp \<Longrightarrow> books_rel refbook_rel (en_books (touch_book y e)) sp"
  using refset.get_or_create_sim(2) [OF _ surjective_pairing, of "en_books e" sp y] by (simp add: touch_book_def)

lemma book_then_feed_eq:
  assumes "books_rel refbook_rel (en_books e) sp" "f (cur_book y e) = (b', Ok x)" "refbook_rel b' bs"
    and "announce fp = (fp', Ok sq)"
  shows "\<exists>e'. book_then_feed y f announce (e, fp) = ((e', fp'), Ok sq) \<and>
     books_rel refbook_rel (en_books e') (sp(y := bs)) \<and> e' = e\<lparr>en_books := en_books e'\<rparr>"
  using assms books_rel_insert [OF touch_book_rel [OF assms(1)] assms(3), of y y]
  by (auto simp: book_then_feed_def Let_def)

lemma publish_ok:
  assumes inv: "engine_inv cfg (e, fp) evs sp" and sp: "spec_apply (change_event y ch) sp = Ok sp'"
    and wf: "event_wf (change_event y ch)" "Suc (length evs) < u64_max"
    and ids: "\<forall>y. \<forall>x\<in>set (sp' y). ro_order_id x < en_next_order_id e"
  obtains e' fp' where "publish y ch (e, fp) = ((e', fp'), Ok (Suc (length evs)))"
    "engine_inv cfg (e', fp') (evs @ [change_event y ch]) sp'" "e' = e\<lparr>en_books := en_books e'\<rparr>"
proof -
  have i: "feed_ready cfg fp evs" "ofold spec_apply evs (\<lambda>_. []) = Ok sp" "books_rel refbook_rel (en_books e) sp"
    using inv by (auto simp: engine_inv_def)
  obtain fp' where f: "emit_event (change_event y ch) fp = (fp', Ok (Suc (length evs)))"
      "feed_ready cfg fp' (evs @ [change_event y ch])"
      "ofold spec_apply (evs @ [change_event y ch]) (\<lambda>_. []) = Ok sp'"
    using fd.announce_keeps_replay [OF i(1,2) sp wf] by metis
  note rel = cur_book_rel [OF i(3), of y]
  have "\<exists>e'. publish y ch (e, fp) = ((e', fp'), Ok (Suc (length evs))) \<and>
      books_rel refbook_rel (en_books e') sp' \<and> e' = e\<lparr>en_books := en_books e'\<rparr>"
  proof (cases ch)
    case (ChAdd o_id s p q)
    then obtain bs where bs: "spec_add o_id s p q (sp y) = Ok bs" "sp' = sp(y := bs)" using sp by (auto simp: outcome_simps)
    with rb_add_rel [OF rel, of o_id s p q] obtain b where "rb_add (cur_book y e) o_id s p q = (b, Ok ())" "refbook_rel b bs"
      by auto
    then show ?thesis using book_then_feed_eq [OF i(3), where f = "\<lambda>b. rb_add b o_id s p q" and b' = b and bs = bs] ChAdd f(1) bs(2)
      by simp
  next
    case (ChReduce o_id s p q)
    then obtain bs where bs: "spec_reduce o_id q (sp y) = Ok bs" "sp' = sp(y := bs)" using sp by (auto simp: outcome_simps)
    with rb_reduce_rel [OF rel, of o_id q] obtain b where "rb_reduce (cur_book y e) o_id q = (b, Ok ())" "refbook_rel b bs"
      by auto
    then show ?thesis using book_then_feed_eq [OF i(3), where f = "\<lambda>b. rb_reduce b o_id q" and b' = b and bs = bs] ChReduce f(1) bs(2)
      by simp
  next
    case (ChReplace o_id s p q)
    then obtain bs where bs: "spec_replace o_id p q (sp y) = Ok bs" "sp' = sp(y := bs)" using sp by (auto simp: outcome_simps)
    with rb_replace_rel [OF rel, of o_id p q] obtain b where "rb_replace (cur_book y e) o_id p q = (b, Ok ())" "refbook_rel b bs"
      by auto
    then show ?thesis using book_then_feed_eq [OF i(3), where f = "\<lambda>b. rb_replace b o_id p q" and b' = b and bs = bs] ChReplace f(1) bs(2)
      by simp
  next
    case (ChDelete o_id s)
    then obtain x bs where bs: "spec_delete o_id (sp y) = Ok (x, bs)" "sp' = sp(y := bs)" using sp by (auto simp: outcome_simps)
    with rb_delete_rel [OF rel, of o_id] obtain b where "rb_delete (cur_book y e) o_id = (b, Ok x)" "refbook_rel b bs"
      by auto
    then show ?thesis using book_then_feed_eq [OF i(3), where f = "\<lambda>b. rb_delete b o_id" and b' = b and bs = bs] ChDelete f(1) bs(2)
      by simp
  next
    case (ChTrade t a r p q s)
    then show ?thesis using sp f(1) touch_book_rel [OF i(3)] by (auto simp: touch_book_def)
  qed
  then obtain e' where e': "publish y ch (e, fp) = ((e', fp'), Ok (Suc (length evs)))"
      "books_rel refbook_rel (en_books e') sp'" "e' = e\<lparr>en_books := en_books e'\<rparr>" by blast
  have "en_next_trade_id e' = en_next_trade_id e" "en_next_order_id e' = en_next_order_id e"
    by (subst e'(3), simp)+
  then have "engine_inv cfg (e', fp') (evs @ [change_event y ch]) sp'"
    using inv f(2,3) e'(2) ids by (simp add: engine_inv_def)
  then show thesis using that e'(1,3) by blast
qed

end
