(* ===== verification/Matching.thy ===== *)
theory Matching
  imports Engine
begin

text \<open>
  Matching in price-time priority. The greedy allocation that specifies it, the proof that the
  matching loop of \<open>Engine\<close> computes that allocation and publishes it message by message, the effect of
  submitting, cancelling and amending on the queues the engine's own books show, and runs of the
  engine from its empty state: they never panic, keep every book uncrossed unless an order is
  re-priced, and put on the feed exactly the changes that rebuild the engine's books.
\<close>

section \<open>Matching against the specification\<close>

text \<open>Greedy allocation of a quantity over a queue: each entry is the resting order, the quantity
  traded with it and what is left of the incoming order afterwards.\<close>

fun allocate :: "nat \<Rightarrow> resting_order list \<Rightarrow> (resting_order \<times> nat \<times> nat) list" where
  "allocate r [] = []"
| "allocate r (x # xs) =
     (if r = 0 then [] else (x, min r (ro_quantity x), r - ro_quantity x) # allocate (r - ro_quantity x) xs)"

text \<open>The queue that remains.\<close>

fun consumed :: "nat \<Rightarrow> resting_order list \<Rightarrow> resting_order list" where
  "consumed r [] = []"
| "consumed r (x # xs) =
     (if r = 0 then x # xs else if ro_quantity x \<le> r then consumed (r - ro_quantity x) xs
      else x\<lparr>ro_quantity := ro_quantity x - r\<rparr> # xs)"

definition crossing :: "side \<Rightarrow> int \<Rightarrow> resting_order list \<Rightarrow> resting_order list" where
  "crossing s p q = takeWhile (\<lambda>x. crosses s p (ro_price x)) q"

definition beyond :: "side \<Rightarrow> int \<Rightarrow> resting_order list \<Rightarrow> resting_order list" where
  "beyond s p q = dropWhile (\<lambda>x. crosses s p (ro_price x)) q"

lemma consumed_0 [simp]: "consumed 0 xs = xs"
  by (cases xs) auto

lemma allocate_0 [simp]: "allocate 0 xs = []"
  by (cases xs) auto

lemma sort_key_map:
  assumes "\<And>x. f (g x) = f x"
  shows "sort_key f (map g xs) = map g (sort_key f xs)"
proof -
  have "insort_key f (g x) (map g ys) = map g (insort_key f x ys)" for x ys
    by (induction ys) (auto simp: assms)
  then show ?thesis by (induction xs) auto
qed

lemma spec_queue_drop: "spec_queue s (spec_drop i bs) = filter (\<lambda>x. ro_order_id x \<noteq> i) (spec_queue s bs)"
proof -
  have "spec_side s (spec_drop i bs) = filter (\<lambda>x. ro_order_id x \<noteq> i) (spec_side s bs)"
    by (simp add: spec_side_def spec_drop_def conj_commute)
  then show ?thesis by (simp add: spec_queue_def filter_sort)
qed

lemma spec_queue_map_qty:
  "spec_queue s (map (\<lambda>x. if ro_order_id x = i then x\<lparr>ro_quantity := q\<rparr> else x) bs) =
     map (\<lambda>x. if ro_order_id x = i then x\<lparr>ro_quantity := q\<rparr> else x) (spec_queue s bs)"
proof -
  let ?g = "\<lambda>x. if ro_order_id x = i then x\<lparr>ro_quantity := q\<rparr> else x"
  have "spec_side s (map ?g bs) = map ?g (spec_side s bs)" by (induction bs) (auto simp: spec_side_def)
  then show ?thesis by (simp add: spec_queue_def sort_key_map)
qed

lemma spec_queue_distinct: "distinct (map ro_order_id bs) \<Longrightarrow> distinct (map ro_order_id (spec_queue s bs))"
proof -
  assume d: "distinct (map ro_order_id bs)"
  have "mset (map ro_order_id (spec_queue s bs)) = mset (map ro_order_id (spec_side s bs))"
    by (simp add: spec_queue_def)
  moreover have "distinct (map ro_order_id (spec_side s bs))"
    using d by (simp add: spec_side_def distinct_map_filter)
  ultimately show ?thesis using mset_eq_imp_distinct_iff by blast
qed

lemma queue_other_side:
  assumes "distinct (map ro_order_id bs)" "x \<in> set bs" "ro_side x \<noteq> s"
  shows "ro_order_id x \<notin> ro_order_id ` set (spec_queue s bs)"
  using assms by (auto simp: distinct_map inj_on_def)

text \<open>Removing or reducing the order at the front of one side.\<close>

lemma queue_after_front:
  assumes wf: "spec_wf bs" and q: "spec_queue s bs = x # xs"
  shows "spec_queue s (spec_drop (ro_order_id x) bs) = xs"
    and "spec_queue (opposite s) (spec_drop (ro_order_id x) bs) = spec_queue (opposite s) bs"
    and "spec_queue s (map (\<lambda>z. if ro_order_id z = ro_order_id x then z\<lparr>ro_quantity := n\<rparr> else z) bs)
           = x\<lparr>ro_quantity := n\<rparr> # xs"
    and "spec_queue (opposite s) (map (\<lambda>z. if ro_order_id z = ro_order_id x then z\<lparr>ro_quantity := n\<rparr> else z) bs)
           = spec_queue (opposite s) bs"
    and "spec_get (ro_order_id x) bs = Some x" and "ro_side x = s" and "x \<in> set bs"
proof -
  have d: "distinct (map ro_order_id bs)" using wf by (simp add: spec_wf_def)
  have x: "x \<in> set bs" "ro_side x = s" using q set_spec_queue [of s bs] by auto
  then show "ro_side x = s" "x \<in> set bs" by auto
  show "spec_get (ro_order_id x) bs = Some x" using spec_get_Some_iff [OF d] x by simp
  have "ro_side x \<noteq> opposite s" using x by (cases s) auto
  then have other: "ro_order_id x \<notin> ro_order_id ` set (spec_queue (opposite s) bs)"
    using queue_other_side [OF d x(1)] by blast
  have own: "ro_order_id x \<notin> ro_order_id ` set xs" using spec_queue_distinct [OF d, of s] q by auto
  show "spec_queue s (spec_drop (ro_order_id x) bs) = xs"
    unfolding spec_queue_drop q using own by (simp add: filter_id_conv) (metis image_eqI)
  show "spec_queue (opposite s) (spec_drop (ro_order_id x) bs) = spec_queue (opposite s) bs"
    unfolding spec_queue_drop filter_id_conv using other by (metis image_eqI)
  have id: "map (\<lambda>z. if ro_order_id z = ro_order_id x then z\<lparr>ro_quantity := n\<rparr> else z) zs = zs"
    if "ro_order_id x \<notin> ro_order_id ` set zs" for zs
    using that by (intro map_idI) (metis image_eqI)
  show "spec_queue s (map (\<lambda>z. if ro_order_id z = ro_order_id x then z\<lparr>ro_quantity := n\<rparr> else z) bs)
           = x\<lparr>ro_quantity := n\<rparr> # xs"
    unfolding spec_queue_map_qty q using id [OF own] by simp
  show "spec_queue (opposite s) (map (\<lambda>z. if ro_order_id z = ro_order_id x then z\<lparr>ro_quantity := n\<rparr> else z) bs)
           = spec_queue (opposite s) bs"
    unfolding spec_queue_map_qty using id [OF other] by simp
qed

lemma engine_inv_bookkeeping:
  assumes "engine_inv cfg (e, fp) evs sp" "en_books e' = en_books e" "en_next_trade_id e' = en_next_trade_id e"
    and "en_next_order_id e' = en_next_order_id e"
  shows "engine_inv cfg (e', fp) evs sp"
  using assms by (simp add: engine_inv_def)

lemma bookkeeping_ids [simp]:
  "en_next_trade_id (forget_live y i e) = en_next_trade_id e" "en_next_order_id (forget_live y i e) = en_next_order_id e"
  "en_next_trade_id (count_trade q e) = en_next_trade_id e" "en_next_order_id (count_trade q e) = en_next_order_id e"
  "en_next_trade_id (record_passive pf e) = en_next_trade_id e" "en_next_order_id (record_passive pf e) = en_next_order_id e"
  "en_next_order_id (take_trade_id e) = en_next_order_id e" "en_next_trade_id (touch_book y e) = en_next_trade_id e"
  "en_next_order_id (touch_book y e) = en_next_order_id e"
  by (auto simp: forget_live_def count_trade_def record_passive_def take_trade_id_def touch_book_def split: option.splits)

lemma engine_inv_touch: "engine_inv cfg (e, fp) evs sp \<Longrightarrow> engine_inv cfg (touch_book y e, fp) evs sp"
  using touch_book_rel by (simp add: engine_inv_def)

lemma engine_inv_trade_id: "engine_inv cfg (e, fp) evs sp \<Longrightarrow> engine_inv cfg (take_trade_id e, fp) evs sp"
  by (simp add: engine_inv_def) (simp add: take_trade_id_def)

definition callback_ok :: "seq_callback \<Rightarrow> bool" where
  "callback_ok cb \<longleftrightarrow> (\<forall>e sq. cb e sq = Ok ())"

text \<open>A callback that succeeds along \<open>evs\<close>: after each of its events, on every engine whose books are what the events so far build.\<close>

definition callback_on :: "seq_callback \<Rightarrow> feed_event list \<Rightarrow> bool" where
  "callback_on cb evs \<longleftrightarrow> (\<forall>k e sp. 0 < k \<and> k \<le> length evs \<and> ofold spec_apply (take k evs) (\<lambda>_. []) = Ok sp \<and>
     books_rel refbook_rel (en_books e) sp \<longrightarrow> cb e k = Ok ())"

lemma callback_ok_on: "callback_ok cb \<Longrightarrow> callback_on cb evs"
  by (simp add: callback_ok_def callback_on_def)

lemma callback_on_prefix:
  assumes "callback_on cb (evs @ later)"
  shows "callback_on cb evs"
  unfolding callback_on_def
proof (intro allI impI)
  fix k :: nat and e :: engine and sp
  assume "0 < k \<and> k \<le> length evs \<and> ofold spec_apply (take k evs) (\<lambda>_. []) = Ok sp \<and> books_rel refbook_rel (en_books e) sp"
  then show "cb e k = Ok ()" using assms [unfolded callback_on_def, rule_format, of k sp e] by simp
qed

lemma on_sequence_on:
  assumes "engine_inv cfg (e, fp) evs sp" "evs \<noteq> []" "callback_on cb (evs @ later)"
  shows "on_sequence cb (length evs) (e, fp) = ((e, fp), Ok ())"
  using callback_on_prefix [OF assms(3)] assms(1,2) by (auto simp: callback_on_def engine_inv_def on_sequence_def)

lemma match_step_stop:
  assumes inv: "engine_inv cfg (e, fp) evs sp"
    and "\<forall>x xs. spec_queue (opposite side) (sp y) = x # xs \<longrightarrow> \<not> crosses side price (ro_price x)"
  shows "match_step cb y side price oid r (e, fp) = ((touch_book y e, fp), Ok None)"
proof -
  have "refbook_rel (cur_book y e) (sp y)" using inv by (auto simp: engine_inv_def intro: cur_book_rel)
  then show ?thesis using assms(2)
    by (cases "spec_queue (opposite side) (sp y)") (auto simp: match_step_def rb_front_rel Let_def)
qed


lemma next_trade_id_touch [simp]: "en_next_trade_id (take_trade_id e) = wrap_add_u64 (en_next_trade_id e) 1"
  by (simp add: take_trade_id_def)

text \<open>The orders that are left after a fill of \<open>r\<close> against \<open>x\<close>.\<close>

definition after_fill :: "nat \<Rightarrow> resting_order \<Rightarrow> spec_book \<Rightarrow> spec_book" where
  "after_fill r x bs =
     (if ro_quantity x \<le> r then spec_drop (ro_order_id x) bs
      else map (\<lambda>z. if ro_order_id z = ro_order_id x then z\<lparr>ro_quantity := ro_quantity x - r\<rparr> else z) bs)"

definition fill_events :: "nat \<Rightarrow> nat \<Rightarrow> side \<Rightarrow> nat \<Rightarrow> nat \<Rightarrow> resting_order \<Rightarrow> feed_event list" where
  "fill_events t y s oid r x =
     [EvTrade t oid (ro_order_id x) (ro_price x) (min r (ro_quantity x)) y s,
      if ro_quantity x \<le> r then EvDelete (ro_order_id x) y (opposite s)
      else EvModify (ro_order_id x) (ro_price x) (ro_quantity x - r) y (opposite s) Reduce]"

lemma after_fill_ids: "ro_order_id ` set (after_fill r x bs) \<subseteq> ro_order_id ` set bs"
  by (auto simp: after_fill_def intro: rev_image_eqI)

lemma match_step_fill:
  assumes inv: "engine_inv cfg (e, fp) evs sp" and cb: "callback_on cb (evs @ fill_events (en_next_trade_id e) y s oid r x)"
    and q: "spec_queue (opposite s) (sp y) = x # xs"
    and c: "crosses s p (ro_price x)" "0 < r" and wf: "oid \<le> u64_max" "y \<le> u16_max" "length evs + 2 < u64_max"
  obtains e' fp' where "match_step cb y s p oid r (e, fp) =
      ((e', fp'), Ok (Some \<lparr>fl_trade_id = en_next_trade_id e, fl_price = ro_price x, fl_quantity = min r (ro_quantity x),
         fl_leaves = r - min r (ro_quantity x)\<rparr>))"
    "engine_inv cfg (e', fp') (evs @ fill_events (en_next_trade_id e) y s oid r x) (sp(y := after_fill r x (sp y)))"
    "en_next_order_id e' = en_next_order_id e" "en_next_trade_id e' = wrap_add_u64 (en_next_trade_id e) 1"
proof -
  have i: "ofold spec_apply evs (\<lambda>_. []) = Ok sp" "books_rel refbook_rel (en_books e) sp" "list_all event_wf evs"
      "en_next_trade_id e \<le> u64_max"
    using inv fd.ready_wf [where cfg = cfg] by (auto simp: engine_inv_def)
  have bw: "spec_wf (sp y)" by (rule books_rel_wf [OF i(2)])
  note front = queue_after_front [OF bw q]
  have rel: "refbook_rel (cur_book y e) (sp y)" by (rule cur_book_rel [OF i(2)])
  have xwf: "order_wf x" by (rule replay_orders_wf [OF i(1,3) front(7)])
  have xq: "0 < ro_quantity x" using bw front(7) by (auto simp: spec_wf_def list_all_iff)
  define e0 where "e0 = take_trade_id (touch_book y e)"
  define tr where "tr = ChTrade (en_next_trade_id e) oid (ro_order_id x) (ro_price x) (min r (ro_quantity x)) s"
  define ch where "ch = (if min r (ro_quantity x) = ro_quantity x then ChDelete (ro_order_id x) (opposite s)
      else ChReduce (ro_order_id x) (opposite s) (ro_price x) (ro_quantity x - min r (ro_quantity x)))"
  have evs: "[change_event y tr, change_event y ch] = fill_events (en_next_trade_id e) y s oid r x"
    by (auto simp: tr_def ch_def fill_events_def min_def)
  have inv0: "engine_inv cfg (e0, fp) evs sp" unfolding e0_def by (intro engine_inv_trade_id engine_inv_touch inv)
  have ids: "\<forall>y. \<forall>x\<in>set (sp y). ro_order_id x < en_next_order_id e" using inv by (simp add: engine_inv_def)
  have "min r (ro_quantity x) \<le> u32_max" using xwf by (auto simp: order_wf_def intro: min.coboundedI2)
  then have "event_wf (change_event y tr)" using xwf wf i(4) by (simp add: tr_def order_wf_def)
  then obtain e1 fp1 where p1: "publish y tr (e0, fp) = ((e1, fp1), Ok (Suc (length evs)))"
      "engine_inv cfg (e1, fp1) (evs @ [change_event y tr]) sp" "e1 = e0\<lparr>en_books := en_books e1\<rparr>"
    using publish_ok [OF inv0, of y tr sp] wf ids by (auto simp: tr_def e0_def simp del: publish.simps)
  have n1: "en_next_order_id e1 = en_next_order_id e" "en_next_trade_id e1 = wrap_add_u64 (en_next_trade_id e) 1"
    by (subst p1(3), simp add: e0_def)+
  have sa: "spec_apply (change_event y ch) sp = Ok (sp(y := after_fill r x (sp y)))"
    using front(5) c(2) xq
    by (auto simp: ch_def after_fill_def outcome_simps spec_delete_def spec_reduce_def min_def)
  have ew: "event_wf (change_event y ch)" using xwf wf by (auto simp: ch_def order_wf_def)
  have "\<forall>z. \<forall>w\<in>set ((sp(y := after_fill r x (sp y))) z). ro_order_id w < en_next_order_id e"
    using ids after_fill_ids [of r x "sp y"] by (auto simp: subset_iff image_iff)
  then have ids1: "\<forall>z. \<forall>w\<in>set ((sp(y := after_fill r x (sp y))) z). ro_order_id w < en_next_order_id e1" using n1 by simp
  have "Suc (length (evs @ [change_event y tr])) < u64_max" using wf by simp
  from publish_ok [OF p1(2) sa ew this ids1] obtain e2 fp2 where p2: "publish y ch (e1, fp1) = ((e2, fp2), Ok (Suc (Suc (length evs))))"
      "engine_inv cfg (e2, fp2) (evs @ [change_event y tr, change_event y ch]) (sp(y := after_fill r x (sp y)))"
      "e2 = e1\<lparr>en_books := en_books e2\<rparr>"
    by (metis append.assoc append_Cons append_Nil length_append_singleton)
  have n2: "en_next_order_id e2 = en_next_order_id e" "en_next_trade_id e2 = wrap_add_u64 (en_next_trade_id e) 1"
    using n1 by (subst p2(3), simp)+
  have cbs: "on_sequence cb (Suc (length evs)) (e1, fp1) = ((e1, fp1), Ok ())" "on_sequence cb (Suc (Suc (length evs))) (e2, fp2) = ((e2, fp2), Ok ())"
    using on_sequence_on [OF p1(2), of cb "[change_event y ch]"] on_sequence_on [OF p2(2), of cb "[]"] cb by (simp_all add: evs [symmetric])
  define pf where "pf = \<lparr>pf_resting_order_id = ro_order_id x, pf_trade_id = en_next_trade_id e,
      pf_price = ro_price x, pf_quantity = min r (ro_quantity x), pf_leaves = ro_quantity x - min r (ro_quantity x),
      pf_symbol_id = y, pf_side = opposite s\<rparr>"
  define e3 where "e3 = record_passive pf (count_trade (min r (ro_quantity x))
      (if min r (ro_quantity x) = ro_quantity x then forget_live y (ro_order_id x) e2 else e2))"
  have "match_step cb y s p oid r (e, fp) = ((e3, fp2), Ok (Some \<lparr>fl_trade_id = en_next_trade_id e, fl_price = ro_price x,
      fl_quantity = min r (ro_quantity x), fl_leaves = r - min r (ro_quantity x)\<rparr>))"
  proof -
    have f: "rb_front (cur_book y e) (opposite s) = Some (ro_price x, ro_order_id x)" using rb_front_rel [OF rel] q by simp
    have g: "rb_get (cur_book y e) (ro_order_id x) = Some x" using ref.get_sim [OF rel] front(5) by (simp add: refbook_ops_def)
    show ?thesis
      unfolding match_step_def prod.case Let_def f option.case g if_not_P [OF notnotD] using c(1) p1(1) p2(1)
      by (simp add: e0_def [symmetric] tr_def [symmetric] ch_def [symmetric] pf_def [symmetric] cbs outcome_simps e3_def del: publish.simps)
  qed
  moreover have "engine_inv cfg (e3, fp2) (evs @ fill_events (en_next_trade_id e) y s oid r x) (sp(y := after_fill r x (sp y)))"
    unfolding evs [symmetric] by (rule engine_inv_bookkeeping [OF p2(2)]) (auto simp: e3_def)
  ultimately show thesis using that n2 by (auto simp: e3_def)
qed


lemma opposite_opposite [simp]: "opposite (opposite s) = s"
  by (cases s) auto

lemma opposite_neq [simp]: "opposite s \<noteq> s" "s \<noteq> opposite s"
  by (cases s; simp)+

text \<open>The messages a match publishes: one trade and one book change for each fill.\<close>

fun match_events :: "nat \<Rightarrow> nat \<Rightarrow> side \<Rightarrow> nat \<Rightarrow> nat \<Rightarrow> resting_order list \<Rightarrow> feed_event list" where
  "match_events t y s oid r [] = []"
| "match_events t y s oid r (x # xs) =
     (if r = 0 then []
      else fill_events t y s oid r x @ match_events (wrap_add_u64 t 1) y s oid (r - ro_quantity x) xs)"

lemma match_events_0 [simp]: "match_events t y s oid 0 xs = []"
  by (cases xs) auto

lemma match_events_length: "length (match_events t y s oid r xs) \<le> 2 * length xs"
proof (induction xs arbitrary: t r)
  case (Cons x xs)
  show ?case using Cons [of "wrap_add_u64 t 1" "r - ro_quantity x"] by (simp add: fill_events_def)
qed simp

abbreviation fill_terms :: "fill \<Rightarrow> int \<times> nat \<times> nat" where
  "fill_terms f \<equiv> (fl_price f, fl_quantity f, fl_leaves f)"

abbreviation alloc_terms :: "resting_order \<times> nat \<times> nat \<Rightarrow> int \<times> nat \<times> nat" where
  "alloc_terms a \<equiv> (ro_price (fst a), snd a)"

definition total_quantity :: "resting_order list \<Rightarrow> nat" where
  "total_quantity xs = sum_list (map ro_quantity xs)"

lemma total_quantity_simps [simp]:
  "total_quantity [] = 0" "total_quantity (x # xs) = ro_quantity x + total_quantity xs"
  "total_quantity (xs @ ys) = total_quantity xs + total_quantity ys"
  by (simp_all add: total_quantity_def)

text \<open>The book \<open>bs'\<close> that matching \<open>r\<close> at limit \<open>p\<close> leaves of \<open>bs\<close>.\<close>

definition matched :: "side \<Rightarrow> int \<Rightarrow> nat \<Rightarrow> spec_book \<Rightarrow> spec_book \<Rightarrow> bool" where
  "matched s p r bs bs' \<longleftrightarrow>
     spec_queue (opposite s) bs' = consumed r (crossing s p (spec_queue (opposite s) bs)) @ beyond s p (spec_queue (opposite s) bs) \<and>
     spec_queue s bs' = spec_queue s bs"

text \<open>The loop's result, the engine having published \<open>evs\<close> and holding the books \<open>sp\<close>.\<close>

definition loop_result :: "rat \<times> drop_mode \<Rightarrow> nat \<Rightarrow> side \<Rightarrow> int \<Rightarrow> nat \<Rightarrow> nat \<Rightarrow> engine \<Rightarrow> feed_event list \<Rightarrow> spec_books \<Rightarrow>
    engine \<times> feed_publisher \<Rightarrow> fill list \<Rightarrow> nat \<Rightarrow> spec_book \<Rightarrow> bool" where
  "loop_result cfg y s p oid r e evs sp st' fills r' bs' \<longleftrightarrow>
     (let c = crossing s p (spec_queue (opposite s) (sp y)) in
      r' = r - total_quantity c \<and> map fill_terms fills = map alloc_terms (allocate r c) \<and>
      engine_inv cfg st' (evs @ match_events (en_next_trade_id e) y s oid r c) (sp(y := bs')) \<and>
      matched s p r (sp y) bs' \<and> en_next_order_id (fst st') = en_next_order_id e)"

lemma crossing_beyond [simp]: "crossing s p q @ beyond s p q = q"
  by (simp add: crossing_def beyond_def)

lemma crossing_beyond_Cons [simp]:
  "crossing s p [] = []" "beyond s p [] = []"
  "crossing s p (x # xs) = (if crosses s p (ro_price x) then x # crossing s p xs else [])"
  "beyond s p (x # xs) = (if crosses s p (ro_price x) then beyond s p xs else x # xs)"
  by (simp_all add: crossing_def beyond_def)

lemma match_loop_stop:
  assumes inv: "engine_inv cfg (e, fp) evs sp" and stop: "r = 0 \<or> crossing s p (spec_queue (opposite s) (sp y)) = []"
  shows "\<exists>st'. match_loop cb y s p oid r (e, fp) = (st', Ok ([], r)) \<and> loop_result cfg y s p oid r e evs sp st' [] r (sp y)"
proof -
  have b: "crossing s p (spec_queue (opposite s) (sp y)) @ beyond s p (spec_queue (opposite s) (sp y)) = spec_queue (opposite s) (sp y)"
    by simp
  show ?thesis
  proof (cases "r = 0")
    case True
    then show ?thesis using inv b by (simp add: match_loop.simps loop_result_def matched_def Let_def fun_upd_triv del: fun_upd_apply)
  next
    case False
    then have c: "crossing s p (spec_queue (opposite s) (sp y)) = []" using stop by blast
    have "match_step cb y s p oid r (e, fp) = ((touch_book y e, fp), Ok None)"
      by (rule match_step_stop [OF inv]) (use c in \<open>auto split: if_splits\<close>)
    then show ?thesis using engine_inv_touch [OF inv, of y] c False b
      by (simp add: match_loop.simps loop_result_def matched_def Let_def fun_upd_triv del: fun_upd_apply)
  qed
qed

lemma match_loop_on:
  assumes "engine_inv cfg (e, fp) evs sp"
    and "callback_on cb (evs @ match_events (en_next_trade_id e) y s oid r (crossing s p (spec_queue (opposite s) (sp y))))"
    and "oid \<le> u64_max" "y \<le> u16_max"
    and "length evs + 2 * length (spec_queue (opposite s) (sp y)) < u64_max"
  shows "\<exists>st' fills r' bs'. match_loop cb y s p oid r (e, fp) = (st', Ok (fills, r')) \<and>
     loop_result cfg y s p oid r e evs sp st' fills r' bs'"
  using assms
proof (induction "spec_queue (opposite s) (sp y)" arbitrary: e fp evs sp r)
  case Nil
  then show ?case using match_loop_stop [OF Nil(2), of r s p y cb oid] by (metis crossing_beyond_Cons(1))
next
  case (Cons x xs)
  note q = Cons(2) [symmetric]
  show ?case
  proof (cases "r = 0 \<or> \<not> crosses s p (ro_price x)")
    case True
    then have "r = 0 \<or> crossing s p (spec_queue (opposite s) (sp y)) = []" by (auto simp: q)
    then show ?thesis using match_loop_stop [OF Cons(3), of r s p y cb oid] by metis
  next
    case False
    then have c: "crosses s p (ro_price x)" "0 < r" by auto
    define f where "f = \<lparr>fl_trade_id = en_next_trade_id e, fl_price = ro_price x, fl_quantity = min r (ro_quantity x),
         fl_leaves = r - min r (ro_quantity x)\<rparr>"
    define evs1 where "evs1 = evs @ fill_events (en_next_trade_id e) y s oid r x"
    define sp1 where "sp1 = sp(y := after_fill r x (sp y))"
    have len: "length evs1 = length evs + 2" by (simp add: evs1_def fill_events_def)
    obtain e1 fp1 where st: "match_step cb y s p oid r (e, fp) = ((e1, fp1), Ok (Some f))"
        "engine_inv cfg (e1, fp1) evs1 sp1" "en_next_order_id e1 = en_next_order_id e"
        "en_next_trade_id e1 = wrap_add_u64 (en_next_trade_id e) 1"
    proof -
      have "callback_on cb (evs @ fill_events (en_next_trade_id e) y s oid r x)"
        by (rule callback_on_prefix) (use Cons(4) c in \<open>simp add: q\<close>)
      from match_step_fill [OF Cons(3) this q c Cons(5,6)] show thesis using that Cons(7) q by (auto simp: f_def evs1_def sp1_def)
    qed
    have "books_rel refbook_rel (en_books e) sp" using Cons(3) by (simp add: engine_inv_def)
    note front = queue_after_front [OF books_rel_wf [OF this, of y] q]
    show ?thesis
    proof (cases "ro_quantity x \<le> r")
      case True
      have q1: "spec_queue (opposite s) (sp1 y) = xs" "spec_queue s (sp1 y) = spec_queue s (sp y)"
        using front(1,2) True by (auto simp: sp1_def after_fill_def)
      obtain st' fills r' bs' where l: "match_loop cb y s p oid (r - ro_quantity x) (e1, fp1) = (st', Ok (fills, r'))"
          "loop_result cfg y s p oid (r - ro_quantity x) e1 evs1 sp1 st' fills r' bs'"
      proof -
        have "callback_on cb (evs1 @ match_events (en_next_trade_id e1) y s oid (r - ro_quantity x) (crossing s p (spec_queue (opposite s) (sp1 y))))"
          using Cons(4) c unfolding q q1 st(4) by (simp add: evs1_def)
        from Cons(1) [OF q1(1) [symmetric] st(2) this Cons(5,6)] show thesis using that Cons(7) q q1 len by fastforce
      qed
      have fq: "fl_quantity f = ro_quantity x" using True by (simp add: f_def)
      have "match_loop cb y s p oid r (e, fp) = (st', Ok (f # fills, r'))"
        using c l(1) st(1) fq by (simp add: match_loop.simps [of cb y s p oid r])
      moreover have "loop_result cfg y s p oid r e evs sp st' (f # fills) r' bs'"
        using l(2) q q1 c True st(3,4)
        by (auto simp: loop_result_def matched_def Let_def f_def evs1_def sp1_def min_def)
      ultimately show ?thesis by blast
    next
      case False
      have q1: "spec_queue (opposite s) (sp1 y) = x\<lparr>ro_quantity := ro_quantity x - r\<rparr> # xs"
          "spec_queue s (sp1 y) = spec_queue s (sp y)"
        using front(3,4) False by (auto simp: sp1_def after_fill_def)
      have "match_loop cb y s p oid r (e, fp) = ((e1, fp1), Ok ([f], 0))"
        using c False st(1) by (simp add: match_loop.simps f_def min_def)
      moreover have "loop_result cfg y s p oid r e evs sp (e1, fp1) [f] 0 (sp1 y)"
        using st q q1 c False by (auto simp: loop_result_def matched_def Let_def f_def evs1_def sp1_def min_def)
      ultimately show ?thesis by blast
    qed
  qed
qed


lemma sbind_on_engine: "sbind (on_engine f) k st = k () (f (fst st), snd st)"
  by (simp add: sbind_def)

lemma set_by_side: "set bs = set (spec_queue s bs) \<union> set (spec_queue (opposite s) bs)"
proof -
  have "ro_side x = s \<or> ro_side x = opposite s" for x by (cases "ro_side x"; cases s) auto
  then show ?thesis by auto
qed

lemma consumed_ids: "ro_order_id ` set (consumed r xs) \<subseteq> ro_order_id ` set xs"
  by (induction r xs rule: consumed.induct) auto

lemma matched_ids:
  assumes "matched s p r bs bs'"
  shows "ro_order_id ` set bs' \<subseteq> ro_order_id ` set bs"
proof -
  let ?q = "spec_queue (opposite s) bs"
  have "set ?q = set (crossing s p ?q) \<union> set (beyond s p ?q)" by (metis crossing_beyond set_append)
  moreover have "set bs' = set (spec_queue s bs) \<union> (set (consumed r (crossing s p ?q)) \<union> set (beyond s p ?q))"
    unfolding set_by_side [of bs' s] using assms by (simp add: matched_def del: set_spec_queue)
  ultimately show ?thesis using consumed_ids [of r "crossing s p ?q"] unfolding set_by_side [of bs s]
    by (simp add: image_Un del: set_spec_queue) blast
qed

section \<open>Submitting an order\<close>

lemma sort_key_snoc:
  fixes f :: "'a \<Rightarrow> int"
  shows "sort_key f (xs @ [x]) = takeWhile (\<lambda>z. f z \<le> f x) (sort_key f xs) @ [x] @ dropWhile (\<lambda>z. f z \<le> f x) (sort_key f xs)"
proof -
  define t where "t = takeWhile (\<lambda>z. f z \<le> f x) (sort_key f xs)"
  define d where "d = dropWhile (\<lambda>z. f z \<le> f x) (sort_key f xs)"
  have td: "t @ d = sort_key f xs" by (simp add: t_def d_def)
  have st: "sorted (map f t)" "sorted (map f d)"
    using sorted_sort_key [of f xs] unfolding td [symmetric] by (simp_all add: sorted_append)
  have tk: "\<forall>z\<in>set t. f z \<le> f x" by (auto simp: t_def dest: set_takeWhileD)
  have "d \<noteq> [] \<Longrightarrow> f x < f (hd d)" unfolding d_def using hd_dropWhile [of "\<lambda>z. f z \<le> f x" "sort_key f xs"] by simp
  then have dr: "\<forall>z\<in>set d. f x < f z" using st(2) by (cases d) auto
  have "sort_key f (xs @ [x]) = t @ [x] @ d"
  proof (rule properties_for_sort_key)
    have "mset (t @ [x] @ d) = mset (t @ d) + {#x#}" by simp
    then show "mset (t @ [x] @ d) = mset (xs @ [x])" unfolding td by simp
    show "sorted (map f (t @ [x] @ d))" using st tk dr by (force simp: sorted_append)
    fix k
    have nd: "filter (\<lambda>z. f k = f z) d = []" if "f k = f x" using that dr by (auto simp: filter_empty_conv)
    have "filter (\<lambda>z. f k = f z) (t @ d) = filter (\<lambda>z. f k = f z) xs"
      unfolding td using sort_key_stable [of f "f k" xs] by (simp add: eq_commute)
    then show "filter (\<lambda>z. f k = f z) (t @ [x] @ d) = filter (\<lambda>z. f k = f z) (xs @ [x])" using nd by auto
  qed
  then show ?thesis by (simp add: t_def d_def)
qed

text \<open>A newly rested order takes its place behind every order at a price as good as its own.\<close>

definition queue_rest :: "resting_order \<Rightarrow> resting_order list \<Rightarrow> resting_order list" where
  "queue_rest x q =
     takeWhile (\<lambda>z. price_rank (ro_side x) (ro_price z) \<le> price_rank (ro_side x) (ro_price x)) q @ [x] @
     dropWhile (\<lambda>z. price_rank (ro_side x) (ro_price z) \<le> price_rank (ro_side x) (ro_price x)) q"

lemma spec_queue_snoc:
  "spec_queue s (bs @ [x]) = (if ro_side x = s then queue_rest x (spec_queue s bs) else spec_queue s bs)"
proof (cases "ro_side x = s")
  case True
  then have "spec_side s (bs @ [x]) = spec_side s bs @ [x]" by (simp add: spec_side_def)
  then show ?thesis using True by (simp only: spec_queue_def queue_rest_def sort_key_snoc refl if_True)
qed (simp add: spec_queue_def spec_side_def)

lemma set_queue_rest: "set (queue_rest x q) = insert x (set q)"
  by (metis (no_types, lifting) Un_commute Un_insert_right queue_rest_def append_Cons append_Nil list.simps(15) set_append takeWhile_dropWhile_id)

definition rested :: "nat \<Rightarrow> side \<Rightarrow> int \<Rightarrow> nat \<Rightarrow> resting_order" where
  "rested oid s p r = \<lparr>ro_order_id = oid, ro_price = p, ro_quantity = r, ro_side = s\<rparr>"

definition submit_events :: "nat \<Rightarrow> nat \<Rightarrow> side \<Rightarrow> int \<Rightarrow> nat \<Rightarrow> nat \<Rightarrow> resting_order list \<Rightarrow> feed_event list" where
  "submit_events t y s p oid r q =
     match_events t y s oid r (crossing s p q) @
     (if total_quantity (crossing s p q) < r then [EvAdd oid p (r - total_quantity (crossing s p q)) y s] else [])"

lemma submit_reported_on:
  assumes inv: "engine_inv cfg (e, fp) evs sp"
    and cb: "callback_on cb (evs @ submit_events (en_next_trade_id e) y s p (en_next_order_id e) q (spec_queue (opposite s) (sp y)))"
    and wf: "y \<le> u16_max" "in_i64 p" "q \<le> u32_max"
    and bnd: "en_next_order_id e < u64_max" "length evs + 2 * length (spec_queue (opposite s) (sp y)) + 1 < u64_max"
  defines "c \<equiv> crossing s p (spec_queue (opposite s) (sp y))"
  shows "\<exists>st' fills bs'. submit_reported cb y s p q g (e, fp) =
       (st', Ok (\<lparr>su_order_id = en_next_order_id e, su_filled = min q (total_quantity c),
                 su_resting = q - total_quantity c\<rparr>, fills)) \<and>
     map fill_terms fills = map alloc_terms (allocate q c) \<and>
     engine_inv cfg st' (evs @ submit_events (en_next_trade_id e) y s p (en_next_order_id e) q (spec_queue (opposite s) (sp y)))
       (sp(y := bs')) \<and>
     spec_queue (opposite s) bs' = consumed q c @ beyond s p (spec_queue (opposite s) (sp y)) \<and>
     spec_queue s bs' = (if total_quantity c < q
        then queue_rest (rested (en_next_order_id e) s p (q - total_quantity c)) (spec_queue s (sp y))
        else spec_queue s (sp y)) \<and>
     en_next_order_id (fst st') = en_next_order_id e + 1"
proof -
  define oid where "oid = en_next_order_id e"
  define e0 where "e0 = begin_submit e"
  have nid: "en_next_order_id e0 = oid + 1" "en_next_trade_id e0 = en_next_trade_id e" "en_books e0 = en_books e"
    using bnd(1) by (auto simp: e0_def begin_submit_def oid_def wrap_add_u64_def)
  have ids: "\<forall>y. \<forall>x\<in>set (sp y). ro_order_id x < oid" using inv by (simp add: engine_inv_def oid_def)
  have inv0: "engine_inv cfg (e0, fp) evs sp"
    using inv nid ids bnd(1) by (auto simp: engine_inv_def oid_def intro: less_SucI)
  have oid: "oid \<le> u64_max" using bnd(1) by (simp add: oid_def)
  have "length evs + 2 * length (spec_queue (opposite s) (sp y)) < u64_max" using bnd(2) by simp
  moreover have "callback_on cb (evs @ match_events (en_next_trade_id e0) y s oid q (crossing s p (spec_queue (opposite s) (sp y))))"
    using cb by (intro callback_on_prefix [of cb "evs @ _"]) (simp add: submit_events_def nid oid_def)
  ultimately obtain st1 fills r bs1
    where l: "match_loop cb y s p oid q (e0, fp) = (st1, Ok (fills, r))" "loop_result cfg y s p oid q e0 evs sp st1 fills r bs1"
    using match_loop_on [OF inv0 _ oid wf(1), of cb s q p] by blast
  have le: "loop_result cfg y s p oid q e0 evs sp (fst st1, snd st1) fills r bs1" using l(2) by simp
  define e1 where "e1 = (if fills \<noteq> [] then count_aggressive (fst st1) else fst st1)"
  define E where "E = evs @ match_events (en_next_trade_id e) y s oid q c"
  have r: "r = q - total_quantity c" "map fill_terms fills = map alloc_terms (allocate q c)" "matched s p q (sp y) bs1"
      "engine_inv cfg (fst st1, snd st1) E (sp(y := bs1))" "en_next_order_id (fst st1) = oid + 1"
    using le nid(1,2) by (auto simp: loop_result_def Let_def c_def [symmetric] E_def)
  have inv1: "engine_inv cfg (e1, snd st1) E (sp(y := bs1))" "en_next_order_id e1 = oid + 1"
    using engine_inv_bookkeeping [OF r(4), of e1] r(5) by (auto simp: e1_def count_aggressive_def)
  have run: "submit_reported cb y s p q g (e, fp) =
      sbind (if r > 0 then sbind (publish y (ChAdd oid s p r)) (\<lambda>sq. sbind (on_sequence cb sq)
                (\<lambda>_. on_engine (\<lambda>e. if g then rest_live y oid e else e)))
             else sreturn ()) (\<lambda>_. sreturn (\<lparr>su_order_id = oid, su_filled = q - r, su_resting = r\<rparr>, fills)) (e1, snd st1)"
    unfolding submit_reported_def Let_def fst_conv oid_def [symmetric]
    by (simp only: sbind_on_engine sbind_Ok [where m = "match_loop cb y s p oid q", OF l(1)] fst_conv snd_conv e0_def [symmetric] prod.case e1_def)
  have fr: "q - r = min q (total_quantity c)" using r(1) by simp
  show ?thesis
  proof (cases "r = 0")
    case True
    then have "\<not> total_quantity c < q" using r(1) by simp
    then show ?thesis using True run inv1 r fr
      by (auto simp: oid_def c_def submit_events_def E_def matched_def)
  next
    case False
    then have t: "total_quantity c < q" using r(1) by simp
    define bs' where "bs' = bs1 @ [rested oid s p r]"
    have fresh: "oid \<notin> ro_order_id ` set bs1" using matched_ids [OF r(3)] ids by force
    have "\<forall>z. \<forall>w\<in>set ((sp(y := bs')) z). ro_order_id w < oid + 1"
      using ids matched_ids [OF r(3)] by (auto simp: bs'_def rested_def subset_iff image_iff less_Suc_eq)
    then have ids': "\<forall>z. \<forall>w\<in>set ((sp(y := bs')) z). ro_order_id w < en_next_order_id e1" using inv1(2) by simp
    have sa: "spec_apply (change_event y (ChAdd oid s p r)) (sp(y := bs1)) = Ok (sp(y := bs'))"
      using fresh False by (auto simp: outcome_simps spec_add_def bs'_def rested_def spec_get_None_iff)
    have ew: "event_wf (change_event y (ChAdd oid s p r))" using wf oid r(1) by simp
    have "length c \<le> length (spec_queue (opposite s) (sp y))" unfolding c_def crossing_def by (rule length_takeWhile_le)
    then have "Suc (length E) < u64_max"
      using bnd(2) match_events_length [of "en_next_trade_id e" y s oid q c] by (simp add: E_def)
    from publish_ok [OF inv1(1) sa ew this ids'] obtain e2 fp2 where p:
        "publish y (ChAdd oid s p r) (e1, snd st1) = ((e2, fp2), Ok (Suc (length E)))"
        "engine_inv cfg (e2, fp2) (E @ [change_event y (ChAdd oid s p r)]) (sp(y := bs'))" "e2 = e1\<lparr>en_books := en_books e2\<rparr>"
      by blast
    have "en_next_order_id e2 = oid + 1" using inv1(2) by (subst p(3)) simp
    define e3 where "e3 = (if g then rest_live y oid e2 else e2)"
    have e3: "engine_inv cfg (e3, fp2) (E @ [change_event y (ChAdd oid s p r)]) (sp(y := bs'))" "en_next_order_id e3 = oid + 1"
      using engine_inv_bookkeeping [OF p(2), of e3] \<open>en_next_order_id e2 = oid + 1\<close>
      by (auto simp: e3_def rest_live_def split: option.splits)
    have cbs: "on_sequence cb (Suc (length E)) (e2, fp2) = ((e2, fp2), Ok ())"
      using on_sequence_on [OF p(2), of cb "[]"] cb t r(1) by (simp add: submit_events_def E_def oid_def c_def)
    have "submit_reported cb y s p q g (e, fp) =
        ((e3, fp2), Ok (\<lparr>su_order_id = oid, su_filled = q - r, su_resting = r\<rparr>, fills))"
      unfolding run using False p(1) by (simp add: sbind_def cbs e3_def del: publish.simps)
    moreover have "spec_queue s bs' = queue_rest (rested oid s p r) (spec_queue s (sp y))"
        "spec_queue (opposite s) bs' = consumed q c @ beyond s p (spec_queue (opposite s) (sp y))"
      using r(3) by (simp_all add: bs'_def spec_queue_snoc matched_def c_def rested_def)
    ultimately show ?thesis using e3 r(1,2) t fr
      by (auto simp: oid_def [symmetric] submit_events_def E_def c_def [symmetric])
  qed
qed

lemmas submit_reported_ok = submit_reported_on [OF _ callback_ok_on]

section \<open>Cancelling and amending\<close>

lemma inv_get: "engine_inv cfg (e, fp) evs sp \<Longrightarrow> rb_get (cur_book y e) i = spec_get i (sp y)"
  using ref.get_sim [OF cur_book_rel, of e sp y i] by (simp add: engine_inv_def refbook_ops_def)

lemma spec_get_order_wf:
  assumes "engine_inv cfg (e, fp) evs sp" "spec_get i (sp y) = Some x"
  shows "order_wf x" "x \<in> set (sp y)" "ro_order_id x = i"
proof -
  show x: "x \<in> set (sp y)" "ro_order_id x = i" using spec_get_SomeD [OF assms(2)] by auto
  have "ofold spec_apply evs (\<lambda>_. []) = Ok sp" "list_all event_wf evs"
    using assms(1) fd.ready_wf [where cfg = cfg] by (auto simp: engine_inv_def)
  then show "order_wf x" using x(1) by (rule replay_orders_wf)
qed

lemma cancel_reported_on:
  assumes inv: "engine_inv cfg (e, fp) evs sp" and cb: "\<And>x. spec_get i (sp y) = Some x \<Longrightarrow> callback_on cb (evs @ [EvDelete i y (ro_side x)])"
    and wf: "y \<le> u16_max" "Suc (length evs) < u64_max"
  shows "case spec_get i (sp y) of
     None \<Rightarrow> \<exists>st'. cancel_reported cb y i (e, fp) = (st', Ok None) \<and> engine_inv cfg st' evs sp \<and>
        en_next_order_id (fst st') = en_next_order_id e
   | Some x \<Rightarrow> \<exists>st'. cancel_reported cb y i (e, fp) = (st', Ok (Some (ro_quantity x))) \<and>
       engine_inv cfg st' (evs @ [EvDelete i y (ro_side x)]) (sp(y := spec_drop i (sp y))) \<and>
       en_next_order_id (fst st') = en_next_order_id e"
proof (cases "spec_get i (sp y)")
  case None
  then show ?thesis using engine_inv_touch [OF inv, of y] by (simp add: cancel_reported_def inv_get [OF inv])
next
  case (Some x)
  note x = spec_get_order_wf [OF inv Some]
  let ?ch = "ChDelete i (ro_side x)"
  have sa: "spec_apply (change_event y ?ch) sp = Ok (sp(y := spec_drop i (sp y)))"
    using Some by (simp add: outcome_simps spec_delete_def)
  have ew: "event_wf (change_event y ?ch)" using x wf by (simp add: order_wf_def)
  have ids: "\<forall>z. \<forall>w\<in>set ((sp(y := spec_drop i (sp y))) z). ro_order_id w < en_next_order_id (touch_book y e)"
    using inv by (auto simp: engine_inv_def)
  from publish_ok [OF engine_inv_touch [OF inv] sa ew wf(2) ids] obtain e1 fp1 where
    p: "publish y ?ch (touch_book y e, fp) = ((e1, fp1), Ok (Suc (length evs)))"
      "engine_inv cfg (e1, fp1) (evs @ [change_event y ?ch]) (sp(y := spec_drop i (sp y)))"
      "e1 = (touch_book y e)\<lparr>en_books := en_books e1\<rparr>" by blast
  have n: "en_next_order_id e1 = en_next_order_id e" by (subst p(3)) simp
  define e2 where "e2 = (forget_live y i e1)\<lparr>en_stats := (en_stats (forget_live y i e1))
      \<lparr>es_cancels := wrap_add_u64 (es_cancels (en_stats (forget_live y i e1))) 1\<rparr>\<rparr>"
  have "engine_inv cfg (e2, fp1) (evs @ [change_event y ?ch]) (sp(y := spec_drop i (sp y)))"
    by (rule engine_inv_bookkeeping [OF p(2)]) (simp_all add: e2_def)
  moreover have "cancel_reported cb y i (e, fp) = ((e2, fp1), Ok (Some (ro_quantity x)))"
    using Some p(1) on_sequence_on [OF p(2), of cb "[]"] cb [OF Some]
    by (simp add: cancel_reported_def inv_get [OF inv] sbind_def e2_def del: publish.simps)
  ultimately show ?thesis using Some n by (simp add: e2_def)
qed

lemmas cancel_reported_ok = cancel_reported_on [OF _ callback_ok_on]

text \<open>What an amendment makes of the book: a smaller size at the same price keeps the order's place,
  anything else sends it to the back of its queue.\<close>

definition amended :: "resting_order \<Rightarrow> int \<Rightarrow> nat \<Rightarrow> spec_book \<Rightarrow> spec_book" where
  "amended x p q bs =
     (if p = ro_price x \<and> q < ro_quantity x
      then map (\<lambda>z. if ro_order_id z = ro_order_id x then z\<lparr>ro_quantity := q\<rparr> else z) bs
      else spec_drop (ro_order_id x) bs @ [x\<lparr>ro_price := p, ro_quantity := q\<rparr>])"

definition amend_event :: "nat \<Rightarrow> resting_order \<Rightarrow> int \<Rightarrow> nat \<Rightarrow> feed_event" where
  "amend_event y x p q =
     EvModify (ro_order_id x) p q y (ro_side x) (if p = ro_price x \<and> q < ro_quantity x then Reduce else Replace)"

abbreviation amend_price :: "int option \<Rightarrow> resting_order \<Rightarrow> int" where
  "amend_price np x \<equiv> (case np of None \<Rightarrow> ro_price x | Some p \<Rightarrow> p)"

lemma publish_refused:
  assumes inv: "engine_inv cfg (e, fp) evs sp" and x: "spec_get i (sp y) = Some x"
  shows "\<exists>st'. publish y (ChReduce i s p 0) (e, fp) = (st', Err (IoBook (ZeroQuantity i))) \<and> engine_inv cfg st' evs sp \<and>
       en_next_order_id (fst st') = en_next_order_id e"
    and "\<exists>st'. publish y (ChReplace i s p 0) (e, fp) = (st', Err (IoBook (ZeroQuantity i))) \<and> engine_inv cfg st' evs sp \<and>
       en_next_order_id (fst st') = en_next_order_id e"
proof -
  have br: "books_rel refbook_rel (en_books e) sp" using inv by (simp add: engine_inv_def)
  have ins: "books_rel refbook_rel (om_insert y b (en_books (touch_book y e))) sp" if "refbook_rel b (sp y)" for b
    using books_rel_insert [OF touch_book_rel [OF br] that, of y y] by (simp add: fun_upd_triv)
  have rd: "spec_reduce i 0 (sp y) = Err (ZeroQuantity i)" "spec_replace i p 0 (sp y) = Err (ZeroQuantity i)"
    using x by (auto simp: spec_reduce_def spec_replace_def)
  obtain b1 b2 where b: "rb_reduce (cur_book y e) i 0 = (b1, Err (ZeroQuantity i))" "refbook_rel b1 (sp y)"
      "rb_replace (cur_book y e) i p 0 = (b2, Err (ZeroQuantity i))" "refbook_rel b2 (sp y)"
    using rb_reduce_rel [OF cur_book_rel [OF br], of y i 0] rb_replace_rel [OF cur_book_rel [OF br], of y i p 0] rd
      cur_book_rel [OF br, of y] by auto
  show "\<exists>st'. publish y (ChReduce i s p 0) (e, fp) = (st', Err (IoBook (ZeroQuantity i))) \<and> engine_inv cfg st' evs sp \<and>
       en_next_order_id (fst st') = en_next_order_id e"
    using b(1) ins [OF b(2)] inv by (auto simp: book_then_feed_def Let_def engine_inv_def)
  show "\<exists>st'. publish y (ChReplace i s p 0) (e, fp) = (st', Err (IoBook (ZeroQuantity i))) \<and> engine_inv cfg st' evs sp \<and>
       en_next_order_id (fst st') = en_next_order_id e"
    using b(3) ins [OF b(4)] inv by (auto simp: book_then_feed_def Let_def engine_inv_def)
qed

lemma amend_on:
  assumes inv: "engine_inv cfg (e, fp) evs sp"
    and cb: "\<And>x. spec_get i (sp y) = Some x \<Longrightarrow> 0 < q \<Longrightarrow> callback_on cb (evs @ [amend_event y x (amend_price np x) q])"
    and wf: "y \<le> u16_max" "Suc (length evs) < u64_max"
    and args: "pred_option in_i64 np" "q \<le> u32_max"
  shows "case spec_get i (sp y) of
     None \<Rightarrow> \<exists>st'. amend cb y i np q (e, fp) = (st', Ok ()) \<and> engine_inv cfg st' evs sp \<and>
       en_next_order_id (fst st') = en_next_order_id e
   | Some x \<Rightarrow>
      if q = 0 then \<exists>st'. amend cb y i np q (e, fp) = (st', Err (IoBook (ZeroQuantity i))) \<and> engine_inv cfg st' evs sp \<and>
        en_next_order_id (fst st') = en_next_order_id e
      else \<exists>st'. amend cb y i np q (e, fp) = (st', Ok ()) \<and>
        engine_inv cfg st' (evs @ [amend_event y x (amend_price np x) q]) (sp(y := amended x (amend_price np x) q (sp y))) \<and>
        en_next_order_id (fst st') = en_next_order_id e"
proof (cases "spec_get i (sp y)")
  case None
  then show ?thesis using engine_inv_touch [OF inv, of y] by (simp add: amend_def inv_get [OF inv])
next
  case (Some x)
  note x = spec_get_order_wf [OF inv Some]
  note inv' = engine_inv_touch [OF inv, of y]
  define p where "p = amend_price np x"
  define ch where "ch = (if p = ro_price x \<and> q < ro_quantity x
      then ChReduce i (ro_side x) (ro_price x) q else ChReplace i (ro_side x) p q)"
  have run: "amend cb y i np q (e, fp) = sbind (publish y ch) (\<lambda>sq. sbind (on_sequence cb sq) (\<lambda>_.
      on_engine (\<lambda>e. e\<lparr>en_stats := (en_stats e)\<lparr>es_modifies := wrap_add_u64 (es_modifies (en_stats e)) 1\<rparr>\<rparr>))) (touch_book y e, fp)"
    unfolding amend_def prod.case inv_get [OF inv] Some option.case Let_def p_def [symmetric] ch_def [symmetric] ..
  show ?thesis
  proof (cases "q = 0")
    case True
    have "\<exists>st'. publish y ch (touch_book y e, fp) = (st', Err (IoBook (ZeroQuantity i))) \<and> engine_inv cfg st' evs sp \<and>
        en_next_order_id (fst st') = en_next_order_id (touch_book y e)"
    proof (cases "p = ro_price x \<and> q < ro_quantity x")
      case c: True
      show ?thesis unfolding ch_def if_P [OF c] unfolding True by (rule publish_refused(1) [OF inv' Some])
    next
      case c: False
      show ?thesis unfolding ch_def if_not_P [OF c] unfolding True by (rule publish_refused(2) [OF inv' Some])
    qed
    then show ?thesis using run Some True by (auto simp: sbind_def)
  next
    case False
    have ce: "change_event y ch = amend_event y x p q" using x(3) by (auto simp: ch_def amend_event_def)
    have sa: "spec_apply (change_event y ch) sp = Ok (sp(y := amended x p q (sp y)))"
      using Some False x(3) by (auto simp: ch_def amended_def outcome_simps spec_reduce_def spec_replace_def)
    have pw: "in_i64 p" using args(1) x(1) by (auto simp: p_def order_wf_def split: option.splits)
    have ew: "event_wf (change_event y ch)" using x wf args pw by (auto simp: ch_def order_wf_def)
    have "\<forall>z. \<forall>w\<in>set (sp z). ro_order_id w < en_next_order_id e" using inv by (auto simp: engine_inv_def)
    then have ids: "\<forall>z. \<forall>w\<in>set ((sp(y := amended x p q (sp y))) z). ro_order_id w < en_next_order_id (touch_book y e)"
      using x(2) by (auto simp: amended_def)
    from publish_ok [OF inv' sa ew wf(2) ids] obtain e1 fp1 where
      pb: "publish y ch (touch_book y e, fp) = ((e1, fp1), Ok (Suc (length evs)))"
        "engine_inv cfg (e1, fp1) (evs @ [change_event y ch]) (sp(y := amended x p q (sp y)))"
        "e1 = (touch_book y e)\<lparr>en_books := en_books e1\<rparr>" by blast
    have n: "en_next_order_id e1 = en_next_order_id e" by (subst pb(3)) simp
    define e2 where "e2 = e1\<lparr>en_stats := (en_stats e1)\<lparr>es_modifies := wrap_add_u64 (es_modifies (en_stats e1)) 1\<rparr>\<rparr>"
    have "engine_inv cfg (e2, fp1) (evs @ [amend_event y x p q]) (sp(y := amended x p q (sp y)))"
      unfolding ce [symmetric] by (rule engine_inv_bookkeeping [OF pb(2)]) (simp_all add: e2_def)
    moreover have "amend cb y i np q (e, fp) = ((e2, fp1), Ok ())"
      using on_sequence_on [OF pb(2), of cb "[]"] cb [OF Some] False unfolding run ce by (simp add: sbind_def pb(1) e2_def p_def)
    ultimately show ?thesis using Some False n by (simp add: e2_def p_def)
  qed
qed

lemmas amend_ok = amend_on [OF _ callback_ok_on]

section \<open>Consequences\<close>

lemma allocate_total: "sum_list (map (\<lambda>a. fst (snd a)) (allocate r xs)) = min r (total_quantity xs)"
  by (induction r xs rule: allocate.induct) auto

lemma consumed_total: "total_quantity (consumed r xs) = total_quantity xs - r"
  by (induction r xs rule: consumed.induct) auto

lemma consumed_all: "total_quantity xs < r \<Longrightarrow> consumed r xs = []"
  by (induction r xs rule: consumed.induct) auto

lemma allocate_positive: "list_all (\<lambda>x. 0 < ro_quantity x) xs \<Longrightarrow> list_all (\<lambda>a. 0 < fst (snd a)) (allocate r xs)"
  by (induction r xs rule: allocate.induct) auto

lemma consumed_prices: "ro_price ` set (consumed r xs) \<subseteq> ro_price ` set xs"
  by (induction r xs rule: consumed.induct) auto

lemma beyond_no_cross:
  assumes "x \<in> set (beyond s p (spec_queue (opposite s) bs))"
  shows "\<not> crosses s p (ro_price x)"
proof -
  let ?q = "spec_queue (opposite s) bs"
  have "sorted (map (\<lambda>x. price_rank (opposite s) (ro_price x)) (crossing s p ?q @ beyond s p ?q))"
    using spec_queue_sorted by simp
  then have srt: "sorted (map (\<lambda>x. price_rank (opposite s) (ro_price x)) (beyond s p ?q))"
    unfolding map_append sorted_append by blast
  obtain b bs' where b: "beyond s p ?q = b # bs'" using assms by (cases "beyond s p ?q") auto
  have "\<not> crosses s p (ro_price b)" using b unfolding beyond_def by (metis dropWhile_eq_Cons_conv)
  then show ?thesis using srt assms unfolding b by (cases s) auto
qed

text \<open>No bid is priced at or above an ask.\<close>

definition uncrossed :: "spec_book \<Rightarrow> bool" where
  "uncrossed bs \<longleftrightarrow> (\<forall>b\<in>set (spec_queue Bid bs). \<forall>a\<in>set (spec_queue Ask bs). ro_price b < ro_price a)"

lemma uncrossed_by_side:
  "uncrossed bs \<longleftrightarrow> (\<forall>x\<in>set (spec_queue s bs). \<forall>z\<in>set (spec_queue (opposite s) bs). \<not> crosses s (ro_price x) (ro_price z))"
  unfolding uncrossed_def by (cases s) (auto simp: not_le simp del: set_spec_queue)

lemma uncrossed_submit:
  assumes un: "uncrossed bs"
    and opp: "spec_queue (opposite s) bs' = consumed q (crossing s p (spec_queue (opposite s) bs)) @ beyond s p (spec_queue (opposite s) bs)"
    and own: "spec_queue s bs' = (if total_quantity (crossing s p (spec_queue (opposite s) bs)) < q
        then queue_rest (rested oid s p r) (spec_queue s bs) else spec_queue s bs)"
  shows "uncrossed bs'"
proof -
  let ?c = "crossing s p (spec_queue (opposite s) bs)" and ?b = "beyond s p (spec_queue (opposite s) bs)"
  have "set ?c \<union> set ?b = set (spec_queue (opposite s) bs)" by (metis crossing_beyond set_append)
  then have sub: "ro_price ` set (spec_queue (opposite s) bs') \<subseteq> ro_price ` set (spec_queue (opposite s) bs)"
    using consumed_prices [of q ?c] unfolding opp set_append image_Un by blast
  have old: "\<not> crosses s (ro_price x) (ro_price z)"
    if x: "x \<in> set (spec_queue s bs)" and z: "z \<in> set (spec_queue (opposite s) bs')" for x z
  proof -
    obtain w where "w \<in> set (spec_queue (opposite s) bs)" "ro_price z = ro_price w" using sub z by blast
    then show ?thesis using un x unfolding uncrossed_by_side [of bs s] by metis
  qed
  have new: "\<not> crosses s p (ro_price z)"
    if "total_quantity ?c < q" "z \<in> set (spec_queue (opposite s) bs')" for z
  proof -
    have "consumed q ?c = []" using that(1) by (rule consumed_all)
    then show ?thesis using that(2) beyond_no_cross unfolding opp by auto
  qed
  show ?thesis unfolding uncrossed_by_side [of bs' s] own using old new
    by (auto simp: set_queue_rest rested_def simp del: set_spec_queue)
qed


lemma uncrossed_delete: "uncrossed bs \<Longrightarrow> uncrossed (spec_drop i bs)"
  by (auto simp: uncrossed_def)

lemma uncrossed_reduce:
  "uncrossed bs \<Longrightarrow> uncrossed (map (\<lambda>z. if ro_order_id z = i then z\<lparr>ro_quantity := q\<rparr> else z) bs)"
  by (auto simp: uncrossed_def)


lemma uncrossed_amend: "uncrossed bs \<Longrightarrow> x \<in> set bs \<Longrightarrow> uncrossed (amended x (ro_price x) q bs)"
  by (auto simp: uncrossed_def amended_def)

section \<open>Runs of the engine\<close>

datatype engine_call =
    CallSubmit nat side int nat bool
  | CallCancel nat nat
  | CallAmend nat nat "int option" nat

fun serve_call :: "seq_callback \<Rightarrow> engine_call \<Rightarrow> unit engine_op" where
  "serve_call cb (CallSubmit y s p q g) = sbind (submit_reported cb y s p q g) (\<lambda>_. sreturn ())"
| "serve_call cb (CallCancel y i) = cancel cb y i"
| "serve_call cb (CallAmend y i np q) = amend cb y i np q"

text \<open>Serve a list of calls; a call that returns an error does not stop the engine's owner.\<close>

fun serve_calls :: "seq_callback \<Rightarrow> engine_call list \<Rightarrow> engine \<times> feed_publisher \<Rightarrow> (engine \<times> feed_publisher) \<times> bool" where
  "serve_calls cb [] st = (st, True)"
| "serve_calls cb (c # cs) st =
     (case serve_call cb c st of (st', Panic) \<Rightarrow> (st', False) | (st', _) \<Rightarrow> serve_calls cb cs st')"

fun call_wf :: "engine_call \<Rightarrow> bool" where
  "call_wf (CallSubmit y s p q g) \<longleftrightarrow> y \<le> u16_max \<and> in_i64 p \<and> q \<le> u32_max"
| "call_wf (CallCancel y i) \<longleftrightarrow> y \<le> u16_max"
| "call_wf (CallAmend y i np q) \<longleftrightarrow> y \<le> u16_max \<and> pred_option in_i64 np \<and> q \<le> u32_max"

text \<open>Calls that never move an order to another price.\<close>

fun keeps_price :: "engine_call \<Rightarrow> bool" where
  "keeps_price (CallAmend y i np q) \<longleftrightarrow> np = None"
| "keeps_price c \<longleftrightarrow> True"

definition small_books :: "nat \<Rightarrow> engine \<Rightarrow> feed_event list \<Rightarrow> spec_books \<Rightarrow> bool" where
  "small_books k e evs sp \<longleftrightarrow> (\<forall>y. length (sp y) \<le> k) \<and> length evs \<le> k * (2 * k + 1) \<and> en_next_order_id e \<le> k + 1"

lemma length_by_side: "length bs = length (spec_queue s bs) + length (spec_queue (opposite s) bs)"
proof -
  have "length (spec_side s bs) + length (spec_side (opposite s) bs) = length bs"
  proof (induction bs)
    case (Cons x bs)
    then show ?case by (cases "ro_side x"; cases s) (auto simp: spec_side_def)
  qed (simp add: spec_side_def)
  then show ?thesis by (simp add: spec_queue_def)
qed

lemma length_consumed: "length (consumed r xs) \<le> length xs"
  by (induction r xs rule: consumed.induct) auto

lemma length_queue_rest: "length (queue_rest x q) = Suc (length q)"
  by (metis (no_types, lifting) queue_rest_def length_append length_Cons append_Cons append_Nil add_Suc_right takeWhile_dropWhile_id)

lemma length_crossing_beyond: "length (crossing s p q) + length (beyond s p q) = length q"
  by (metis crossing_beyond length_append)

lemma length_submit_events: "length (submit_events t y s p oid r q) \<le> 2 * length q + 1"
  using match_events_length [of t y s oid r "crossing s p q"] length_crossing_beyond [of s p q]
  by (auto simp: submit_events_def)

lemma length_amended: "spec_wf bs \<Longrightarrow> x \<in> set bs \<Longrightarrow> length (amended x p q bs) \<le> length bs"
proof -
  assume "x \<in> set bs"
  then have "length (spec_drop (ro_order_id x) bs) < length bs"
    unfolding spec_drop_def by (rule length_filter_less) simp
  then show ?thesis by (simp add: amended_def)
qed

lemma small_events: "k < 2147483648 \<Longrightarrow> n \<le> k * (2 * k + 1) \<Longrightarrow> n + 2 * k + 1 < u64_max"
proof -
  assume k: "k < 2147483648" and n: "n \<le> k * (2 * k + 1)"
  have "k * (2 * k + 1) \<le> 2147483648 * (2 * 2147483648 + 1)" using k by (intro mult_mono) auto
  then show ?thesis using k n by simp
qed

lemma small_step: "n \<le> k * (2 * k + 1) \<Longrightarrow> m \<le> 2 * k + 1 \<Longrightarrow> n + m \<le> Suc k * (2 * Suc k + 1)"
  by simp

lemma small_booksI:
  assumes "small_books k e evs sp" "length bs \<le> Suc k" "length new \<le> 2 * k + 1" "en_next_order_id e' \<le> en_next_order_id e + 1"
  shows "small_books (Suc k) e' (evs @ new) (sp(y := bs))"
  using assms small_step [of "length evs" k "length new"] by (auto simp: small_books_def le_SucI)

lemma small_books_idle: "small_books k e evs sp \<Longrightarrow> en_next_order_id e' \<le> en_next_order_id e \<Longrightarrow> small_books (Suc k) e' evs sp"
  using small_step [of "length evs" k 0] by (auto simp: small_books_def le_SucI)

lemma small_bounds:
  assumes "small_books k e evs sp" "k < 2147483648"
  shows "length (sp y) \<le> k" "length evs + 2 * k + 1 < u64_max" "en_next_order_id e < u64_max"
  using assms small_events [of k "length evs"] by (auto simp: small_books_def)

lemma submit_call:
  fixes s :: side
  assumes inv: "engine_inv cfg (e, fp) evs sp" and cb: "callback_ok cb" and wf: "y \<le> u16_max" "in_i64 p" "q \<le> u32_max"
    and k: "small_books k e evs sp" "k < 2147483648"
  defines "Q \<equiv> spec_queue (opposite s) (sp y)"
  defines "c \<equiv> crossing s p Q"
  obtains st' fills bs' where
    "submit_reported cb y s p q g (e, fp) = (st', Ok (\<lparr>su_order_id = en_next_order_id e, su_filled = min q (total_quantity c),
       su_resting = q - total_quantity c\<rparr>, fills))"
    "map fill_terms fills = map alloc_terms (allocate q c)"
    "engine_inv cfg st' (evs @ submit_events (en_next_trade_id e) y s p (en_next_order_id e) q Q) (sp(y := bs'))"
    "small_books (Suc k) (fst st') (evs @ submit_events (en_next_trade_id e) y s p (en_next_order_id e) q Q) (sp(y := bs'))"
    "uncrossed (sp y) \<Longrightarrow> uncrossed bs'" "en_next_order_id (fst st') = en_next_order_id e + 1"
proof -
  note sb = small_bounds [OF k]
  have lQ: "length (sp y) = length (spec_queue s (sp y)) + length Q" unfolding Q_def by (rule length_by_side)
  have "length evs + 2 * length (spec_queue (opposite s) (sp y)) + 1 < u64_max" using sb(1) [of y] sb(2) lQ by (simp add: Q_def)
  from submit_reported_ok [OF inv cb wf sb(3) this, of g] obtain st' fills bs' where
    r: "submit_reported cb y s p q g (e, fp) = (st', Ok (\<lparr>su_order_id = en_next_order_id e, su_filled = min q (total_quantity c),
           su_resting = q - total_quantity c\<rparr>, fills))"
      "map fill_terms fills = map alloc_terms (allocate q c)"
      "engine_inv cfg st' (evs @ submit_events (en_next_trade_id e) y s p (en_next_order_id e) q Q) (sp(y := bs'))"
      "spec_queue (opposite s) bs' = consumed q c @ beyond s p Q"
      "spec_queue s bs' = (if total_quantity c < q
         then queue_rest (rested (en_next_order_id e) s p (q - total_quantity c)) (spec_queue s (sp y)) else spec_queue s (sp y))"
      "en_next_order_id (fst st') = en_next_order_id e + 1"
    unfolding c_def Q_def by blast
  have "length bs' \<le> Suc (length (sp y))"
    unfolding length_by_side [of bs' s] lQ r(4,5)
    using length_consumed [of q c] length_crossing_beyond [of s p Q] by (auto simp: length_queue_rest c_def)
  then have "small_books (Suc k) (fst st') (evs @ submit_events (en_next_trade_id e) y s p (en_next_order_id e) q Q) (sp(y := bs'))"
    using length_submit_events [of "en_next_trade_id e" y s p "en_next_order_id e" q Q] sb(1) [of y] lQ r(6)
    by (intro small_booksI [OF k(1)]) auto
  moreover have "uncrossed (sp y) \<Longrightarrow> uncrossed bs'"
    by (rule uncrossed_submit [OF _ r(4) [unfolded c_def Q_def] r(5) [unfolded c_def Q_def]])
  ultimately show thesis using that r(1-3,6) by blast
qed

lemma cancel_call:
  assumes inv: "engine_inv cfg (e, fp) evs sp" and cb: "callback_ok cb" and y: "y \<le> u16_max"
    and k: "small_books k e evs sp" "k < 2147483648"
  obtains st' where "cancel_reported cb y i (e, fp) = (st', Ok (map_option ro_quantity (spec_get i (sp y))))"
    "en_next_order_id (fst st') = en_next_order_id e"
    "case spec_get i (sp y) of
       None \<Rightarrow> engine_inv cfg st' evs sp \<and> small_books (Suc k) (fst st') evs sp
     | Some x \<Rightarrow> engine_inv cfg st' (evs @ [EvDelete i y (ro_side x)]) (sp(y := spec_drop i (sp y))) \<and>
         small_books (Suc k) (fst st') (evs @ [EvDelete i y (ro_side x)]) (sp(y := spec_drop i (sp y)))"
proof (cases "spec_get i (sp y)")
  case None
  then show thesis
    using that cancel_reported_ok [OF inv cb y, of i] small_bounds(2) [OF k] small_books_idle [OF k(1)] by fastforce
next
  case (Some x)
  then obtain st' where a: "cancel_reported cb y i (e, fp) = (st', Ok (Some (ro_quantity x)))"
      "engine_inv cfg st' (evs @ [EvDelete i y (ro_side x)]) (sp(y := spec_drop i (sp y)))"
      "en_next_order_id (fst st') = en_next_order_id e" using cancel_reported_ok [OF inv cb y, of i] small_bounds(2) [OF k] by auto
  have "small_books (Suc k) (fst st') (evs @ [EvDelete i y (ro_side x)]) (sp(y := spec_drop i (sp y)))"
    using le_trans [OF length_filter_le small_bounds(1) [OF k], of _ y] a(3)
    by (intro small_booksI [OF k(1)]) (auto simp: spec_drop_def le_SucI)
  then show thesis using that a Some by simp
qed

text \<open>The messages a call publishes, on an engine \<open>e\<close> that holds the books \<open>sp\<close>.\<close>

fun call_events :: "engine \<Rightarrow> spec_books \<Rightarrow> engine_call \<Rightarrow> feed_event list" where
  "call_events e sp (CallSubmit y s p q g) =
     submit_events (en_next_trade_id e) y s p (en_next_order_id e) q (spec_queue (opposite s) (sp y))"
| "call_events e sp (CallCancel y i) = (case spec_get i (sp y) of None \<Rightarrow> [] | Some x \<Rightarrow> [EvDelete i y (ro_side x)])"
| "call_events e sp (CallAmend y i np q) =
     (case spec_get i (sp y) of Some x \<Rightarrow> if q = 0 then [] else [amend_event y x (amend_price np x) q] | None \<Rightarrow> [])"

text \<open>One call: it never panics, extends the published events, and keeps the books uncrossed unless
  it re-prices an order.\<close>

lemma serve_call_ok:
  assumes inv: "engine_inv cfg st evs sp" and cb: "callback_ok cb" and c: "call_wf c"
    and k: "small_books k (fst st) evs sp" "k < 2147483648"
  defines "new \<equiv> call_events (fst st) sp c"
  shows "\<exists>st' r sp'. serve_call cb c st = (st', r) \<and> r \<noteq> Panic \<and> engine_inv cfg st' (evs @ new) sp' \<and>
     small_books (Suc k) (fst st') (evs @ new) sp' \<and>
     (keeps_price c \<longrightarrow> (\<forall>y. uncrossed (sp y)) \<longrightarrow> (\<forall>y. uncrossed (sp' y)))"
proof -
  obtain e fp where st: "st = (e, fp)" by fastforce
  note inv = inv [unfolded st]
  have kk: "small_books k e evs sp" using k by (simp add: st)
  note sb = small_bounds [OF kk k(2)]
  have bwf: "spec_wf (sp y)" for y using inv books_rel_wf by (auto simp: engine_inv_def)
  show ?thesis
  proof (cases c)
    case (CallSubmit y s p q g)
    have w: "y \<le> u16_max" "in_i64 p" "q \<le> u32_max" using c CallSubmit by auto
    have new: "new = submit_events (en_next_trade_id e) y s p (en_next_order_id e) q (spec_queue (opposite s) (sp y))"
      by (simp add: new_def st CallSubmit)
    obtain st' out fills bs' where
      r: "submit_reported cb y s p q g (e, fp) = (st', Ok (out, fills))" "engine_inv cfg st' (evs @ new) (sp(y := bs'))"
        "small_books (Suc k) (fst st') (evs @ new) (sp(y := bs'))" "uncrossed (sp y) \<Longrightarrow> uncrossed bs'"
      unfolding new by (rule submit_call [OF inv cb w kk k(2), of s g]) blast
    have "\<forall>z. uncrossed (sp z) \<Longrightarrow> \<forall>z. uncrossed ((sp(y := bs')) z)" using r(4) by simp
    moreover have "serve_call cb c st = (st', Ok ())" using r(1) by (simp add: CallSubmit st sbind_def)
    ultimately show ?thesis using r(2,3) by blast
  next
    case (CallCancel y i)
    have y: "y \<le> u16_max" using c CallCancel by simp
    obtain st' x sp' where
      r: "cancel_reported cb y i (e, fp) = (st', Ok x)" "engine_inv cfg st' (evs @ new) sp'"
         "small_books (Suc k) (fst st') (evs @ new) sp'" "\<forall>z. uncrossed (sp z) \<Longrightarrow> \<forall>z. uncrossed (sp' z)"
    proof (rule cancel_call [OF inv cb y kk k(2), of i])
      fix st' assume a: "cancel_reported cb y i (e, fp) = (st', Ok (map_option ro_quantity (spec_get i (sp y))))"
        "case spec_get i (sp y) of
           None \<Rightarrow> engine_inv cfg st' evs sp \<and> small_books (Suc k) (fst st') evs sp
         | Some x \<Rightarrow> engine_inv cfg st' (evs @ [EvDelete i y (ro_side x)]) (sp(y := spec_drop i (sp y))) \<and>
             small_books (Suc k) (fst st') (evs @ [EvDelete i y (ro_side x)]) (sp(y := spec_drop i (sp y)))"
      show thesis
      proof (cases "spec_get i (sp y)")
        case None
        then show thesis using that [OF a(1), of sp] a(2) by (simp add: new_def CallCancel)
      next
        case (Some x)
        then show thesis
          using that [OF a(1), of "sp(y := spec_drop i (sp y))"] a(2) uncrossed_delete by (simp add: new_def CallCancel)
      qed
    qed
    have "serve_call cb c st = (st', Ok ())" using r(1) by (simp add: CallCancel cancel_def st sbind_def)
    then show ?thesis using r(2-4) by blast
  next
    case (CallAmend y i np q)
    have w: "y \<le> u16_max" "pred_option in_i64 np" "q \<le> u32_max" using c CallAmend by auto
    have "Suc (length evs) < u64_max" using sb(2) by simp
    note am = amend_ok [OF inv cb w(1) this w(2,3), of i]
    show ?thesis
    proof (cases "spec_get i (sp y)")
      case None
      then obtain st' where "amend cb y i np q (e, fp) = (st', Ok ())" "engine_inv cfg st' evs sp"
          "en_next_order_id (fst st') = en_next_order_id e" using am by auto
      moreover have "evs @ new = evs" using None by (simp add: new_def CallAmend)
      ultimately show ?thesis using small_books_idle [OF kk] by (metis CallAmend serve_call.simps(3) outcome.distinct(3) st order_refl)
    next
      case (Some x)
      note x = spec_get_order_wf [OF inv Some]
      show ?thesis
      proof (cases "q = 0")
        case True
        then obtain st' where "amend cb y i np q (e, fp) = (st', Err (IoBook (ZeroQuantity i)))" "engine_inv cfg st' evs sp"
            "en_next_order_id (fst st') = en_next_order_id e" using am Some by auto
        moreover have "evs @ new = evs" using Some True by (simp add: new_def CallAmend)
        ultimately show ?thesis using small_books_idle [OF kk] by (metis CallAmend serve_call.simps(3) outcome.distinct(5) st order_refl)
      next
        case False
        let ?p = "amend_price np x"
        have new: "new = [amend_event y x ?p q]" using Some False by (simp add: new_def CallAmend)
        obtain st' where a: "amend cb y i np q (e, fp) = (st', Ok ())"
            "engine_inv cfg st' (evs @ new) (sp(y := amended x ?p q (sp y)))"
            "en_next_order_id (fst st') = en_next_order_id e" using am Some False unfolding new by auto
        have "length (amended x ?p q (sp y)) \<le> length (sp y)" by (rule length_amended [OF bwf x(2)])
        then have "small_books (Suc k) (fst st') (evs @ new) (sp(y := amended x ?p q (sp y)))"
          using sb(1) [of y] a(3) unfolding new by (intro small_booksI [OF kk]) auto
        moreover have "keeps_price c \<Longrightarrow> \<forall>z. uncrossed (sp z) \<Longrightarrow> \<forall>z. uncrossed ((sp(y := amended x ?p q (sp y))) z)"
          using uncrossed_amend [OF _ x(2)] by (simp add: CallAmend)
        moreover have "serve_call cb c st = (st', Ok ())" using a(1) by (simp add: CallAmend st)
        ultimately show ?thesis using a(2) by blast
      qed
    qed
  qed
qed


lemma serve_calls_ok:
  assumes "engine_inv cfg st evs sp" "callback_ok cb" "list_all call_wf cs"
    and "small_books k (fst st) evs sp" "k + length cs \<le> 2147483648"
  shows "\<exists>st' new sp'. serve_calls cb cs st = (st', True) \<and> engine_inv cfg st' (evs @ new) sp' \<and>
     (list_all keeps_price cs \<longrightarrow> (\<forall>y. uncrossed (sp y)) \<longrightarrow> (\<forall>y. uncrossed (sp' y))) \<and>
     length (evs @ new) + 2 < u64_max"
  using assms
proof (induction cs arbitrary: st evs sp k)
  case Nil
  have "length evs \<le> k * (2 * k + 1)" "k \<le> 2147483648" using Nil by (auto simp: small_books_def)
  moreover have "k * (2 * k + 1) \<le> 2147483648 * (2 * 2147483648 + 1)" using Nil by (intro mult_mono) auto
  ultimately have "length evs + 2 < u64_max" by simp
  then show ?case using Nil by (metis append_Nil2 serve_calls.simps(1))
next
  case (Cons c cs)
  have "call_wf c" "k < 2147483648" using Cons.prems by auto
  from serve_call_ok [OF Cons.prems(1,2) this(1) Cons.prems(4) this(2)] obtain st1 r new1 sp1 where
    c: "serve_call cb c st = (st1, r)" "r \<noteq> Panic" "engine_inv cfg st1 (evs @ new1) sp1"
       "small_books (Suc k) (fst st1) (evs @ new1) sp1"
       "keeps_price c \<longrightarrow> (\<forall>y. uncrossed (sp y)) \<longrightarrow> (\<forall>y. uncrossed (sp1 y))" by blast
  have "list_all call_wf cs" "Suc k + length cs \<le> 2147483648" using Cons.prems by auto
  from Cons.IH [OF c(3) Cons.prems(2) this(1) c(4) this(2)] obtain st2 new2 sp2 where
    d: "serve_calls cb cs st1 = (st2, True)" "engine_inv cfg st2 ((evs @ new1) @ new2) sp2"
       "list_all keeps_price cs \<longrightarrow> (\<forall>y. uncrossed (sp1 y)) \<longrightarrow> (\<forall>y. uncrossed (sp2 y))"
       "length ((evs @ new1) @ new2) + 2 < u64_max" by blast
  have "serve_calls cb (c # cs) st = (st2, True)" using c(1,2) d(1) by (cases r) auto
  moreover have "list_all keeps_price (c # cs) \<longrightarrow> (\<forall>y. uncrossed (sp y)) \<longrightarrow> (\<forall>y. uncrossed (sp2 y))"
    using c(5) d(3) by simp
  ultimately show ?case using d(2,4) unfolding append.assoc by blast
qed

text \<open>A publisher as the engine is given one: configured sockets that work, nothing sent yet.\<close>

definition fresh_feed :: "rat \<times> drop_mode \<Rightarrow> feed_publisher \<Rightarrow> bool" where
  "fresh_feed cfg fp \<longleftrightarrow> (fp_drop_rate fp, fp_drop_mode fp) = cfg \<and> feed_inv fp [] [] \<and> env_ok fp \<and> 72 \<le> length (fp_buf fp)"

lemma fresh_feedI:
  assumes "batch_size \<le> u16_max" "72 \<le> max_bytes"
    and "\<forall>k. env_now_ns (env k) \<le> u64_max \<and> env_send_a (env k) \<and> env_send_b (env k)"
  shows "fresh_feed (max 0 (min 1 rate), mode) (set_loss rate mode seed (FeedPublisher_new env batch_size max_bytes))"
  using assms feed_inv_configure(1) [OF feed_inv_new, of batch_size max_bytes]
  by (simp add: fresh_feed_def) (simp add: set_loss_def FeedPublisher_new_def env_ok_def)

lemma engine_inv_new: "fresh_feed cfg fp \<Longrightarrow> engine_inv cfg (engine_new syms, fp) [] (\<lambda>_. [])"
  using books_rel_empty by (auto simp: engine_inv_def feed_ready_def fresh_feed_def engine_new_def)

lemma small_books_new: "small_books 0 (engine_new syms) [] (\<lambda>_. [])"
  by (simp add: small_books_def engine_new_def)

lemma run_from_new:
  assumes "fresh_feed cfg fp" "callback_ok cb" "list_all call_wf cs" "length cs \<le> 2147483648"
  obtains e' fp' evs sp where "serve_calls cb cs (engine_new syms, fp) = ((e', fp'), True)"
    "engine_inv cfg (e', fp') evs sp" "list_all keeps_price cs \<longrightarrow> (\<forall>y. uncrossed (sp y))" "length evs + 2 < u64_max"
proof -
  from serve_calls_ok [OF engine_inv_new [OF assms(1)] assms(2,3), of 0 syms] small_books_new [of syms] assms(4)
  obtain st' new sp' where "serve_calls cb cs (engine_new syms, fp) = (st', True)" "engine_inv cfg st' new sp'"
     "list_all keeps_price cs \<longrightarrow> (\<forall>y. uncrossed (sp' y))" "length new + 2 < u64_max"
    by (auto simp: uncrossed_def)
  then show thesis using that by (cases st') blast
qed

text \<open>What the engine's own book shows.\<close>

definition engine_queue :: "nat \<Rightarrow> side \<Rightarrow> engine \<Rightarrow> resting_order list" where
  "engine_queue y s e = rb_orders_in_queue_order (cur_book y e) s"

lemma engine_queue_spec: "engine_inv cfg (e, fp) evs sp \<Longrightarrow> engine_queue y s e = spec_queue s (sp y)"
  unfolding engine_queue_def by (rule rb_queue_rel) (auto simp: engine_inv_def intro: cur_book_rel)


text \<open>A consumer with no loss: decode each datagram in turn and apply its messages.\<close>

fun follow_datagrams :: "bytes list \<Rightarrow> refbook books \<Rightarrow> refbook books option" where
  "follow_datagrams [] bks = Some bks"
| "follow_datagrams (d # ds) bks =
     (case datagram_items d of
        Ok items \<Rightarrow> (case shadow_apply items bks of (bks', Ok _) \<Rightarrow> follow_datagrams ds bks' | _ \<Rightarrow> None)
      | _ \<Rightarrow> None)"

lemma follow_copies:
  assumes "list_all2 (\<lambda>t d. \<exists>ch\<le>u8_max. d = batch_image ch t) ts ds" "list_all batch_valid ts"
    and "books_rel refbook_rel bks sp" "ofold spec_apply (batch_events ts) sp = Ok sp'"
  shows "\<exists>bks'. follow_datagrams ds bks = Some bks' \<and> books_rel refbook_rel bks' sp'"
  using assms
proof (induction ts ds arbitrary: bks sp rule: list_all2_induct)
  case Nil
  then show ?case by (simp add: batch_events_def)
next
  case (Cons t ts d ds)
  have ev: "batch_events (t # ts) = bt_events t @ batch_events ts" by (simp add: batch_events_def)
  obtain sp1 where sp1: "ofold spec_apply (bt_events t) sp = Ok sp1" "ofold spec_apply (batch_events ts) sp1 = Ok sp'"
    using Cons.prems(3) unfolding ev by (auto simp: ofold_append outcome_simps)
  obtain ch where d: "ch \<le> u8_max" "d = batch_image ch t" using Cons.hyps(1) by auto
  have "batch_valid t" using Cons.prems(1) by simp
  then obtain ms where ms: "datagram_items d = Ok (map Inr ms)"
      "map (\<lambda>m. view_event (snd m)) ms = map Ok (bt_events t)"
    using datagram_image_items [of "bt_events t" ch 0 "bt_first t" "bt_ts t"] d
    unfolding batch_valid_def batch_image_def list_all_iff by (metis (no_types, lifting) zero_le)
  obtain b1 where b1: "shadow_apply (map Inr ms) bks = (b1, Ok ())" "books_rel refbook_rel b1 sp1"
    using shadow_apply_ok [OF Cons.prems(2) ms(2) sp1(1)] by auto
  show ?case using Cons.IH [OF _ b1(2) sp1(2)] Cons.prems(1) ms(1) b1(1) by simp
qed

lemma follow_batches:
  assumes "list_all batch_valid ts" "ch \<le> u8_max" "books_rel refbook_rel bks sp" "ofold spec_apply (batch_events ts) sp = Ok sp'"
  shows "\<exists>bks'. follow_datagrams (map (batch_image ch) ts) bks = Some bks' \<and> books_rel refbook_rel bks' sp'"
  by (rule follow_copies [OF _ assms(1,3,4)]) (use assms(2) in \<open>auto simp: list_all2_map2 intro: list_all2_refl\<close>)

lemma flush_engine:
  assumes "engine_inv cfg (e, fp) evs sp" "length evs + 2 < u64_max"
  obtains fp' bs where "flush fp = (fp', Ok ())" "feed_inv fp' bs []" "batch_events bs = evs" "list_all batch_valid bs"
    "(fp_drop_rate fp', fp_drop_mode fp') = cfg"
proof -
  have r: "feed_ready cfg fp evs" "ofold spec_apply evs (\<lambda>_. []) = Ok sp" using assms(1) by (auto simp: engine_inv_def)
  then obtain bs pend where i: "env_ok fp" "feed_inv fp bs pend" "batch_events bs @ pend = evs"
      "(fp_drop_rate fp, fp_drop_mode fp) = cfg" by (auto simp: feed_ready_def)
  have "applicable fp (batch_events bs @ pend)" using r(2) i(3) by (simp add: applicable_def)
  from flush_ok_any [OF i(2) i(1) this] obtain fp' bs' where
    f: "flush fp = (fp', Ok ())" "feed_inv fp' bs' []" "batch_events bs' = evs" "same_setup fp fp'" using i(3) by metis
  have "list_all batch_valid bs'" using f(2) by (intro batches_valid(1) [of 1]) (auto simp: feed_inv_def)
  then show thesis using that f i(4) by (auto simp: same_setup_def)
qed

lemma follow_lossless:
  assumes "engine_inv (0, mode) (e, fp) evs sp" "length evs + 2 < u64_max"
  obtains fp' ba bb where "flush fp = (fp', Ok ())" "follow_datagrams (fp_sent_a fp') [] = Some ba" "books_rel refbook_rel ba sp"
    "follow_datagrams (fp_sent_b fp') [] = Some bb" "books_rel refbook_rel bb sp"
proof -
  obtain fp' bs where f: "flush fp = (fp', Ok ())" "feed_inv fp' bs []" "batch_events bs = evs" "list_all batch_valid bs"
      "(fp_drop_rate fp', fp_drop_mode fp') = (0, mode)"
    by (rule flush_engine [OF assms])
  have "list_all (\<lambda>t. \<not> bt_drop_a t \<and> \<not> bt_drop_b t) bs"
    using f(2,5) by (auto simp: feed_inv_def loss_inv_def loss_allowed_def list_all_iff)
  then have "filter (\<lambda>t. \<not> bt_drop_a t) bs = bs" "filter (\<lambda>t. \<not> bt_drop_b t) bs = bs" by (auto simp: list_all_iff)
  then have sent: "fp_sent_a fp' = map (batch_image 0) bs" "fp_sent_b fp' = map (batch_image 1) bs"
    using f(2) by (auto simp: feed_inv_def)
  have rp: "ofold spec_apply (batch_events bs) (\<lambda>_. []) = Ok sp" using assms(1) f(3) by (simp add: engine_inv_def)
  obtain ba where "follow_datagrams (fp_sent_a fp') [] = Some ba" "books_rel refbook_rel ba sp"
    using follow_batches [OF f(4) _ books_rel_empty rp, of 0] sent by auto
  moreover obtain bb where "follow_datagrams (fp_sent_b fp') [] = Some bb" "books_rel refbook_rel bb sp"
    using follow_batches [OF f(4) _ books_rel_empty rp, of 1] sent by auto
  ultimately show thesis using that f(1) by blast
qed

lemma submit_reported_queues:
  assumes "engine_inv cfg (e, fp) evs sp" "callback_ok cb" "y \<le> u16_max" "in_i64 p" "q \<le> u32_max"
    and "en_next_order_id e < u64_max" "length evs + 2 * length (engine_queue y (opposite s) e) + 1 < u64_max"
  defines "opp \<equiv> engine_queue y (opposite s) e"
  defines "c \<equiv> crossing s p opp"
  obtains e' fp' fills sp' where "submit_reported cb y s p q g (e, fp) = ((e', fp'), Ok
       (\<lparr>su_order_id = en_next_order_id e, su_filled = min q (total_quantity c), su_resting = q - total_quantity c\<rparr>, fills))"
    "map fill_terms fills = map alloc_terms (allocate q c)"
    "engine_queue y (opposite s) e' = consumed q c @ beyond s p opp"
    "engine_queue y s e' = (if 0 < q - total_quantity c
       then queue_rest (rested (en_next_order_id e) s p (q - total_quantity c)) (engine_queue y s e) else engine_queue y s e)"
    "\<forall>z t. z \<noteq> y \<longrightarrow> engine_queue z t e' = engine_queue z t e"
    "engine_inv cfg (e', fp') (evs @ submit_events (en_next_trade_id e) y s p (en_next_order_id e) q opp) sp'"
    "en_next_order_id e' = en_next_order_id e + 1"
proof -
  note eq = engine_queue_spec [OF assms(1)]
  from submit_reported_ok [OF assms(1-6), of s g] assms(7) obtain st' fills bs' where
    r: "submit_reported cb y s p q g (e, fp) = (st', Ok (\<lparr>su_order_id = en_next_order_id e,
          su_filled = min q (total_quantity c), su_resting = q - total_quantity c\<rparr>, fills))"
      "map fill_terms fills = map alloc_terms (allocate q c)"
      "engine_inv cfg st' (evs @ submit_events (en_next_trade_id e) y s p (en_next_order_id e) q opp) (sp(y := bs'))"
      "spec_queue (opposite s) bs' = consumed q c @ beyond s p opp"
      "spec_queue s bs' = (if total_quantity c < q
         then queue_rest (rested (en_next_order_id e) s p (q - total_quantity c)) (engine_queue y s e) else engine_queue y s e)"
      "en_next_order_id (fst st') = en_next_order_id e + 1"
    unfolding eq opp_def c_def by blast
  obtain e' fp' where st: "st' = (e', fp')" by fastforce
  note eq' = engine_queue_spec [OF r(3) [unfolded st]]
  have "\<forall>z t. z \<noteq> y \<longrightarrow> engine_queue z t e' = engine_queue z t e" by (simp add: eq' eq)
  moreover have "engine_queue y t e' = spec_queue t bs'" for t by (simp add: eq')
  ultimately show thesis using that r unfolding st zero_less_diff by simp
qed

lemma total_queue_rest: "total_quantity (queue_rest x q) = ro_quantity x + total_quantity q"
proof -
  have "total_quantity q = total_quantity (takeWhile P q) + total_quantity (dropWhile P q)" for P
    unfolding total_quantity_simps(3) [symmetric] takeWhile_dropWhile_id ..
  then show ?thesis by (simp add: queue_rest_def)
qed

lemma allocate_orders: "set (map fst (allocate r xs)) \<subseteq> set xs"
  by (induction r xs rule: allocate.induct) auto

lemma allocate_fills:
  assumes "map fill_terms fills = map alloc_terms (allocate q c)" "list_all (\<lambda>x. 0 < ro_quantity x) c"
    and "\<forall>x\<in>set c. crosses s p (ro_price x)"
  shows "sum_list (map fl_quantity fills) = min q (total_quantity c)"
    and "list_all (\<lambda>f. 0 < fl_quantity f \<and> crosses s p (fl_price f)) fills"
proof -
  have q: "map fl_quantity fills = map (\<lambda>a. fst (snd a)) (allocate q c)" and p: "map fl_price fills = map (\<lambda>a. ro_price (fst a)) (allocate q c)"
    using arg_cong [OF assms(1), of "map (\<lambda>t. fst (snd t))"] arg_cong [OF assms(1), of "map fst"] by (simp_all add: comp_def)
  show "sum_list (map fl_quantity fills) = min q (total_quantity c)" unfolding q by (rule allocate_total)
  have "list_all (\<lambda>x. 0 < x) (map fl_quantity fills)" unfolding q using allocate_positive [OF assms(2), of q] by (simp add: list_all_iff)
  moreover have "list_all (crosses s p) (map fl_price fills)" unfolding p using allocate_orders [of q c] assms(3) by (auto simp: list_all_iff)
  ultimately show "list_all (\<lambda>f. 0 < fl_quantity f \<and> crosses s p (fl_price f)) fills" by (auto simp: list_all_iff)
qed

text \<open>A small book for the concrete instances: two asks, the better one newer.\<close>

definition sample_feed :: feed_publisher where
  "sample_feed = set_loss 0 Independent 7 (FeedPublisher_new
     (\<lambda>_. \<lparr>env_now_ns = 9, env_send_a = True, env_send_b = True, env_uplink_takes = True\<rparr>) 4 96)"

definition no_checkpoint :: seq_callback where
  "no_checkpoint e sq = Ok ()"

lemma no_checkpoint_ok [simp]: "callback_ok no_checkpoint"
  by (simp add: callback_ok_def no_checkpoint_def)

lemma sample_feed_fresh: "fresh_feed (0, Independent) sample_feed"
  unfolding sample_feed_def using fresh_feedI [of 4 96 _ 0 Independent 7] by simp

lemma engine_new_queue [simp]: "engine_queue y s (engine_new syms) = []"
  using engine_queue_spec [OF engine_inv_new [OF sample_feed_fresh]] by simp

lemma sample_asks:
  "\<exists>e fp evs sp. engine_inv (0, Independent) (e, fp) evs sp \<and> length evs = 2 \<and> en_next_order_id e = 3 \<and>
     engine_queue 7 Bid e = [] \<and> engine_queue 7 Ask e = [rested 2 Ask 103 4, rested 1 Ask 105 10]"
proof -
  have e0: "en_next_order_id (engine_new []) = 1" by (simp add: engine_new_def)
  obtain e1 fp1 sp1 where a: "engine_queue 7 Bid e1 = []" "engine_queue 7 Ask e1 = [rested 1 Ask 105 10]" "en_next_order_id e1 = 2"
      "engine_inv (0, Independent) (e1, fp1) [EvAdd 1 105 10 7 Ask] sp1"
    by (rule submit_reported_queues [OF engine_inv_new [OF sample_feed_fresh] no_checkpoint_ok, of 7 105 10 "[]" Ask False])
       (simp_all add: e0 in_i64_def queue_rest_def submit_events_def)
  obtain e2 fp2 sp2 where b: "engine_queue 7 Bid e2 = []" "engine_queue 7 Ask e2 = [rested 2 Ask 103 4, rested 1 Ask 105 10]" "en_next_order_id e2 = 3"
      "engine_inv (0, Independent) (e2, fp2) [EvAdd 1 105 10 7 Ask, EvAdd 2 103 4 7 Ask] sp2"
    by (rule submit_reported_queues [OF a(4) no_checkpoint_ok, of 7 103 4 Ask False])
       (simp_all add: a in_i64_def queue_rest_def submit_events_def rested_def)
  then show ?thesis by (intro exI conjI) (assumption | simp)+
qed

section \<open>Properties\<close>

text \<open>C1: an incoming order is matched in price-time priority. Submitting \<open>q\<close> at limit \<open>p\<close> walks the
  opposite queue (best price first, oldest first within a price) while the price crosses: the fills
  are the greedy allocation of \<open>q\<close> over the crossing orders, each at the resting order's price and with
  the quantity then left; the opposite queue afterwards is what the allocation leaves; the remainder,
  if any, rests behind every order at a price as good as its own and the rest of its side is
  unchanged. The published messages are one trade and one change for each fill, then the add. The
  engine's books stay equal to what its published messages build.\<close>

theorem submit_price_time_priority:
  assumes "engine_inv cfg (e, fp) evs sp" "callback_ok cb" "y \<le> u16_max" "in_i64 p" "q \<le> u32_max"
    and "en_next_order_id e < u64_max" "length evs + 2 * length (engine_queue y (opposite s) e) + 1 < u64_max"
  shows "\<exists>e' fp' fills sp'. let opp = engine_queue y (opposite s) e; c = crossing s p opp; left = q - total_quantity c in
     submit_reported cb y s p q g (e, fp) = ((e', fp'), Ok
       (\<lparr>su_order_id = en_next_order_id e, su_filled = min q (total_quantity c), su_resting = left\<rparr>, fills)) \<and>
     map fill_terms fills = map alloc_terms (allocate q c) \<and>
     engine_queue y (opposite s) e' = consumed q c @ beyond s p opp \<and>
     engine_queue y s e' = (if 0 < left then queue_rest (rested (en_next_order_id e) s p left) (engine_queue y s e)
                            else engine_queue y s e) \<and>
     (\<forall>z t. z \<noteq> y \<longrightarrow> engine_queue z t e' = engine_queue z t e) \<and>
     engine_inv cfg (e', fp') (evs @ submit_events (en_next_trade_id e) y s p (en_next_order_id e) q opp) sp'"
  unfolding Let_def by (rule submit_reported_queues [OF assms, of g]) (intro exI conjI; assumption)

theorem submit_price_time_priority_witness:
  "\<exists>e fp e' fp' fills. engine_queue 7 Ask e = [rested 2 Ask 103 4, rested 1 Ask 105 10] \<and>
     submit_reported no_checkpoint 7 Bid 105 6 False (e, fp) = ((e', fp'), Ok
       (\<lparr>su_order_id = 3, su_filled = 6, su_resting = 0\<rparr>, fills)) \<and>
     map fill_terms fills = [(103, 4, 2), (105, 2, 0)] \<and>
     engine_queue 7 Ask e' = [rested 1 Ask 105 8] \<and> engine_queue 7 Bid e' = []"
proof -
  obtain e fp evs sp where i: "engine_inv (0, Independent) (e, fp) evs sp" "length evs = 2" "en_next_order_id e = 3"
      "engine_queue 7 Bid e = []" "engine_queue 7 Ask e = [rested 2 Ask 103 4, rested 1 Ask 105 10]"
    using sample_asks by blast
  have "\<exists>e' fp' fills. submit_reported no_checkpoint 7 Bid 105 6 False (e, fp) = ((e', fp'), Ok
       (\<lparr>su_order_id = 3, su_filled = 6, su_resting = 0\<rparr>, fills)) \<and>
     map fill_terms fills = [(103, 4, 2), (105, 2, 0)] \<and>
     engine_queue 7 Ask e' = [rested 1 Ask 105 8] \<and> engine_queue 7 Bid e' = []"
    using submit_price_time_priority [OF i(1) no_checkpoint_ok, of 7 105 6 Bid False] i(2-5)
    by (simp add: Let_def in_i64_def rested_def) (elim exE conjE, intro exI conjI, assumption+)
  then show ?thesis by (elim exE conjE) (intro exI conjI, rule i(5), assumption+)
qed

text \<open>C26: no quantity is created or lost by a match. The fills add up to the reported filled quantity,
  filled and resting add up to the order, every fill is positive and no larger than the order, and the
  opposite side shrinks by exactly what was filled.\<close>

theorem submit_conserves_quantity:
  assumes "engine_inv cfg (e, fp) evs sp" "callback_ok cb" "y \<le> u16_max" "in_i64 p" "q \<le> u32_max"
    and "en_next_order_id e < u64_max" "length evs + 2 * length (engine_queue y (opposite s) e) + 1 < u64_max"
  shows "\<exists>e' fp' outcome fills. submit_reported cb y s p q g (e, fp) = ((e', fp'), Ok (outcome, fills)) \<and>
     sum_list (map fl_quantity fills) = su_filled outcome \<and> su_filled outcome + su_resting outcome = q \<and>
     list_all (\<lambda>f. 0 < fl_quantity f \<and> crosses s p (fl_price f)) fills \<and>
     total_quantity (engine_queue y (opposite s) e') + su_filled outcome = total_quantity (engine_queue y (opposite s) e) \<and>
     total_quantity (engine_queue y s e') = total_quantity (engine_queue y s e) + su_resting outcome"
proof -
  let ?opp = "engine_queue y (opposite s) e"
  let ?c = "crossing s p ?opp"
  obtain e' fp' fills where
    r: "submit_reported cb y s p q g (e, fp) = ((e', fp'), Ok
       (\<lparr>su_order_id = en_next_order_id e, su_filled = min q (total_quantity ?c), su_resting = q - total_quantity ?c\<rparr>, fills))"
      "map fill_terms fills = map alloc_terms (allocate q ?c)"
      "engine_queue y (opposite s) e' = consumed q ?c @ beyond s p ?opp"
      "engine_queue y s e' = (if 0 < q - total_quantity ?c
         then queue_rest (rested (en_next_order_id e) s p (q - total_quantity ?c)) (engine_queue y s e) else engine_queue y s e)"
    by (rule submit_reported_queues [OF assms, of g]) (erule (3) that)
  have "spec_wf (sp y)" using assms(1) books_rel_wf by (auto simp: engine_inv_def)
  then have "list_all (\<lambda>x. 0 < ro_quantity x) ?opp"
    unfolding engine_queue_spec [OF assms(1)] by (auto simp: spec_wf_def list_all_iff)
  then have "list_all (\<lambda>x. 0 < ro_quantity x) ?c" "\<forall>x\<in>set ?c. crosses s p (ro_price x)"
    unfolding crossing_def by (auto simp: list_all_iff dest: set_takeWhileD)
  note f = allocate_fills [OF r(2) this]
  have "total_quantity ?opp = total_quantity ?c + total_quantity (beyond s p ?opp)"
    unfolding total_quantity_simps(3) [symmetric] crossing_beyond ..
  then have "total_quantity (engine_queue y (opposite s) e') + min q (total_quantity ?c) = total_quantity ?opp"
    by (simp add: r(3) consumed_total)
  moreover have "total_quantity (engine_queue y s e') = total_quantity (engine_queue y s e) + (q - total_quantity ?c)"
    by (auto simp: r(4) total_queue_rest rested_def)
  ultimately show ?thesis using r(1) f by (intro exI conjI) (assumption | simp)+
qed


theorem submit_conserves_quantity_witness:
  "\<exists>e fp e' fp' out fills. submit_reported no_checkpoint 7 Bid 104 6 False (e, fp) = ((e', fp'), Ok (out, fills)) \<and>
     sum_list (map fl_quantity fills) = su_filled out \<and> su_filled out + su_resting out = 6 \<and>
     total_quantity (engine_queue 7 Ask e') + su_filled out = 14 \<and> total_quantity (engine_queue 7 Bid e') = su_resting out"
proof -
  obtain e fp evs sp where i: "engine_inv (0, Independent) (e, fp) evs sp" "length evs = 2" "en_next_order_id e = 3"
      "engine_queue 7 Bid e = []" "engine_queue 7 Ask e = [rested 2 Ask 103 4, rested 1 Ask 105 10]"
    using sample_asks by blast
  have t: "total_quantity (engine_queue 7 Ask e) = 14" "length (engine_queue 7 Ask e) = 2" by (simp_all add: i(5) rested_def)
  show ?thesis
    using submit_conserves_quantity [OF i(1) no_checkpoint_ok, of 7 104 6 Bid False] i(2-4) t
    by (simp add: in_i64_def) blast
qed

text \<open>C25: a book never crosses through submitting, cancelling or resizing. From an empty engine, serve
  any well-formed calls (up to $2^{31}$ of them) in which no amendment changes a price: none of them
  panics and every book ends with its best bid strictly below its best ask.\<close>

theorem engine_books_stay_uncrossed:
  assumes "fresh_feed cfg fp" "callback_ok cb" "list_all call_wf cs" "length cs \<le> 2147483648" "list_all keeps_price cs"
  shows "\<exists>e' fp'. serve_calls cb cs (engine_new syms, fp) = ((e', fp'), True) \<and>
     (\<forall>y. \<forall>b\<in>set (engine_queue y Bid e'). \<forall>a\<in>set (engine_queue y Ask e'). ro_price b < ro_price a)"
proof -
  obtain e' fp' evs sp where r: "serve_calls cb cs (engine_new syms, fp) = ((e', fp'), True)"
      "engine_inv cfg (e', fp') evs sp" "\<forall>y. uncrossed (sp y)"
    using run_from_new [OF assms(1-4)] assms(5) by metis
  then show ?thesis using engine_queue_spec [OF r(2)] unfolding uncrossed_def by metis
qed

theorem engine_books_stay_uncrossed_witness:
  "\<exists>e' fp'. serve_calls no_checkpoint [CallSubmit 7 Ask 105 10 False, CallSubmit 7 Bid 106 4 False, CallAmend 7 1 None 3,
       CallSubmit 7 Bid 104 9 True, CallCancel 7 9] (engine_new [], sample_feed) = ((e', fp'), True) \<and>
     (\<forall>y. \<forall>b\<in>set (engine_queue y Bid e'). \<forall>a\<in>set (engine_queue y Ask e'). ro_price b < ro_price a)"
  by (rule engine_books_stay_uncrossed [OF sample_feed_fresh]) (simp_all add: in_i64_def)


text \<open>C31: cancelling an order the book holds removes exactly it, announces the delete and reports its open quantity;
  cancelling anything else reports nothing and publishes nothing. Amending a resting order to a
  smaller size at its own price keeps its place in the queue; any other amendment with a positive
  size re-queues it at the back of its (new) price; size zero is refused with the book and the feed
  unchanged.\<close>

theorem cancel_and_amend_effect:
  assumes "engine_inv cfg (e, fp) evs sp" "callback_ok cb" "y \<le> u16_max" "Suc (length evs) < u64_max"
    and "pred_option in_i64 np" "q \<le> u32_max" "rb_get (cur_book y e) i = Some x" "spec_queue (ro_side x) (sp y) = us @ x # vs"
  defines "p \<equiv> amend_price np x"
  shows "(\<exists>e1 fp1 sp1. cancel_reported cb y i (e, fp) = ((e1, fp1), Ok (Some (ro_quantity x))) \<and>
       engine_queue y (ro_side x) e1 = us @ vs \<and> engine_inv cfg (e1, fp1) (evs @ [EvDelete i y (ro_side x)]) sp1) \<and>
     (if q = 0 then \<exists>e2 fp2. amend cb y i np q (e, fp) = ((e2, fp2), Err (IoBook (ZeroQuantity i))) \<and>
        engine_inv cfg (e2, fp2) evs sp
      else \<exists>e2 fp2 sp2. amend cb y i np q (e, fp) = ((e2, fp2), Ok ()) \<and>
        engine_queue y (ro_side x) e2 = (if p = ro_price x \<and> q < ro_quantity x then us @ x\<lparr>ro_quantity := q\<rparr> # vs
           else queue_rest (x\<lparr>ro_price := p, ro_quantity := q\<rparr>) (us @ vs)) \<and>
        engine_inv cfg (e2, fp2) (evs @ [amend_event y x p q]) sp2)"
proof -
  have x: "spec_get i (sp y) = Some x" using assms(7) inv_get [OF assms(1)] by simp
  note xs = spec_get_order_wf [OF assms(1) x]
  have bwf: "spec_wf (sp y)" using assms(1) books_rel_wf by (auto simp: engine_inv_def)
  then have "distinct (map ro_order_id (us @ x # vs))"
    unfolding assms(8) [symmetric] by (intro spec_queue_distinct) (simp add: spec_wf_def)
  then have nd: "i \<notin> ro_order_id ` set us" "i \<notin> ro_order_id ` set vs" using xs(3) by auto
  have fl: "filter (\<lambda>z. ro_order_id z \<noteq> i) us = us" "filter (\<lambda>z. ro_order_id z \<noteq> i) vs = vs"
    using nd by (auto simp: filter_id_conv)
  have mp: "map (\<lambda>z. if ro_order_id z = i then z\<lparr>ro_quantity := q\<rparr> else z) us = us"
      "map (\<lambda>z. if ro_order_id z = i then z\<lparr>ro_quantity := q\<rparr> else z) vs = vs"
    using nd by (intro map_idI; metis image_eqI)+
  have qd: "spec_queue (ro_side x) (spec_drop i (sp y)) = us @ vs" unfolding spec_queue_drop assms(8) using xs(3) fl by simp
  have qa: "spec_queue (ro_side x) (amended x p q (sp y)) = (if p = ro_price x \<and> q < ro_quantity x then us @ x\<lparr>ro_quantity := q\<rparr> # vs
          else queue_rest (x\<lparr>ro_price := p, ro_quantity := q\<rparr>) (us @ vs))"
    using xs(3) qd mp by (simp add: amended_def spec_queue_map_qty assms(8) spec_queue_snoc)
  have "\<exists>e1 fp1 sp1. cancel_reported cb y i (e, fp) = ((e1, fp1), Ok (Some (ro_quantity x))) \<and>
       engine_queue y (ro_side x) e1 = us @ vs \<and> engine_inv cfg (e1, fp1) (evs @ [EvDelete i y (ro_side x)]) sp1"
    using cancel_reported_ok [OF assms(1-4), of i] x qd engine_queue_spec by fastforce
  moreover have "\<exists>e2 fp2. amend cb y i np q (e, fp) = ((e2, fp2), Err (IoBook (ZeroQuantity i))) \<and>
       engine_inv cfg (e2, fp2) evs sp" if "q = 0"
    using amend_ok [OF assms(1-6), of i] x that by auto
  moreover have "\<exists>e2 fp2 sp2. amend cb y i np q (e, fp) = ((e2, fp2), Ok ()) \<and>
       engine_queue y (ro_side x) e2 = spec_queue (ro_side x) (amended x p q (sp y)) \<and>
       engine_inv cfg (e2, fp2) (evs @ [amend_event y x p q]) sp2" if "q \<noteq> 0"
    using amend_ok [OF assms(1-6), of i] x that engine_queue_spec by (fastforce simp: p_def)
  ultimately show ?thesis unfolding qa by simp
qed

theorem cancel_and_amend_effect_witness:
  "\<exists>e fp e1 fp1 e2 fp2. engine_queue 7 Ask e = [rested 2 Ask 103 4, rested 1 Ask 105 10] \<and>
     cancel_reported no_checkpoint 7 1 (e, fp) = ((e1, fp1), Ok (Some 10)) \<and>
     engine_queue 7 Ask e1 = [rested 2 Ask 103 4] \<and>
     amend no_checkpoint 7 1 (Some 101) 5 (e, fp) = ((e2, fp2), Ok ()) \<and>
     engine_queue 7 Ask e2 = [rested 1 Ask 101 5, rested 2 Ask 103 4]"
proof -
  obtain e fp evs sp where i: "engine_inv (0, Independent) (e, fp) evs sp" "length evs = 2" "en_next_order_id e = 3"
      "engine_queue 7 Bid e = []" "engine_queue 7 Ask e = [rested 2 Ask 103 4, rested 1 Ask 105 10]"
    using sample_asks by blast
  have q: "spec_queue Ask (sp 7) = [rested 2 Ask 103 4] @ rested 1 Ask 105 10 # []"
    using i(5) engine_queue_spec [OF i(1)] by simp
  then have "rested 1 Ask 105 10 \<in> set (sp 7)" by (metis (no_types, lifting) in_set_conv_decomp mem_Collect_eq set_spec_queue)
  moreover have "spec_wf (sp 7)" using i(1) books_rel_wf by (auto simp: engine_inv_def)
  ultimately have g: "rb_get (cur_book 7 e) 1 = Some (rested 1 Ask 105 10)"
    unfolding inv_get [OF i(1)] by (subst spec_get_Some_iff) (auto simp: spec_wf_def rested_def)
  have q': "spec_queue (ro_side (rested 1 Ask 105 10)) (sp 7) = [rested 2 Ask 103 4] @ rested 1 Ask 105 10 # []"
    using q by (simp add: rested_def)
  show ?thesis
    using cancel_and_amend_effect [OF i(1) no_checkpoint_ok _ _ _ _ g q', of "Some 101" 5] i(2,5)
    by (simp add: in_i64_def rested_def queue_rest_def) blast
qed


text \<open>C32: an amendment is not matched. In any state of the engine, let a resting order be amended to another price that crosses the best price of
  the opposite side. The call succeeds and publishes a replacement and no trade, the order goes to the back of its new price, the opposite side
  keeps every order it had, and the book is left crossed.\<close>

theorem amend_can_cross_the_book:
  assumes inv: "engine_inv cfg (e, fp) evs sp" and cb: "callback_ok cb" and wf: "y \<le> u16_max" "Suc (length evs) < u64_max"
    and args: "in_i64 p" "0 < q" "q \<le> u32_max" and x: "spec_get i (sp y) = Some x"
    and best: "engine_queue y (opposite (ro_side x)) e = b # rest" "crosses (ro_side x) p (ro_price b)" "p \<noteq> ro_price x"
  shows "\<exists>e' fp' sp'. amend cb y i (Some p) q (e, fp) = ((e', fp'), Ok ()) \<and>
     engine_inv cfg (e', fp') (evs @ [EvModify i p q y (ro_side x) Replace]) sp' \<and>
     engine_queue y (opposite (ro_side x)) e' = b # rest \<and>
     engine_queue y (ro_side x) e' = queue_rest (x\<lparr>ro_price := p, ro_quantity := q\<rparr>) (filter (\<lambda>z. ro_order_id z \<noteq> i) (engine_queue y (ro_side x) e)) \<and>
     \<not> uncrossed (sp' y)"
proof -
  let ?s = "ro_side x"
  let ?x = "x\<lparr>ro_price := p, ro_quantity := q\<rparr>"
  have am: "amended x p q (sp y) = spec_drop (ro_order_id x) (sp y) @ [?x]" "amend_event y x p q = EvModify i p q y ?s Replace"
    using spec_get_order_wf(3) [OF inv x] best(3) by (simp_all add: amended_def amend_event_def)
  obtain e' fp' where r: "amend cb y i (Some p) q (e, fp) = ((e', fp'), Ok ())"
      "engine_inv cfg (e', fp') (evs @ [EvModify i p q y ?s Replace]) (sp(y := spec_drop i (sp y) @ [?x]))"
    using amend_ok [OF inv cb wf, of "Some p" q i] args x am spec_get_order_wf(3) [OF inv x] by auto
  note q0 = engine_queue_spec [OF inv]
  note q1 = engine_queue_spec [OF r(2)]
  have wf0: "spec_wf (sp y)" using inv books_rel_wf by (auto simp: engine_inv_def)
  have d: "distinct (map ro_order_id (sp y))" using wf0 by (simp add: spec_wf_def)
  have "i \<notin> ro_order_id ` set (spec_queue (opposite ?s) (sp y))"
    using queue_other_side [OF d spec_get_order_wf(2) [OF inv x], of "opposite ?s"] spec_get_order_wf(3) [OF inv x] by simp
  then have opp: "engine_queue y (opposite ?s) e' = b # rest"
    using best(1) unfolding q0 q1 by (simp add: spec_queue_snoc spec_queue_drop filter_id_conv) (metis image_eqI)
  have own: "engine_queue y ?s e' = queue_rest ?x (filter (\<lambda>z. ro_order_id z \<noteq> i) (engine_queue y ?s e))"
    unfolding q0 q1 by (simp add: spec_queue_snoc spec_queue_drop)
  have "?x \<in> set (engine_queue y ?s e')" unfolding own by (simp add: set_queue_rest)
  moreover have "b \<in> set (engine_queue y (opposite ?s) e')" by (simp add: opp)
  ultimately have "\<not> uncrossed ((sp(y := spec_drop i (sp y) @ [?x])) y)"
    using best(2) unfolding q1 uncrossed_by_side [of _ ?s] by (intro notI) (drule (1) bspec, drule (1) bspec, simp)
  then show ?thesis using r opp own by blast
qed

text \<open>A bid at 100 and an ask at 105, amended to 99.\<close>

theorem amend_can_cross_the_book_witness:
  "\<exists>e fp e' fp' sp'. engine_queue 7 Bid e = [rested 2 Bid 100 4] \<and> engine_queue 7 Ask e = [rested 1 Ask 105 10] \<and>
     amend no_checkpoint 7 1 (Some 99) 10 (e, fp) = ((e', fp'), Ok ()) \<and>
     engine_queue 7 Bid e' = [rested 2 Bid 100 4] \<and> engine_queue 7 Ask e' = [rested 1 Ask 99 10] \<and> \<not> uncrossed (sp' 7) \<and>
     engine_inv (0, Independent) (e', fp') [EvAdd 1 105 10 7 Ask, EvAdd 2 100 4 7 Bid, EvModify 1 99 10 7 Ask Replace] sp'"
proof -
  have e0: "en_next_order_id (engine_new []) = 1" by (simp add: engine_new_def)
  obtain e1 fp1 sp1 where a: "engine_queue 7 Bid e1 = []" "engine_queue 7 Ask e1 = [rested 1 Ask 105 10]" "en_next_order_id e1 = 2"
      "engine_inv (0, Independent) (e1, fp1) [EvAdd 1 105 10 7 Ask] sp1"
    by (rule submit_reported_queues [OF engine_inv_new [OF sample_feed_fresh] no_checkpoint_ok, of 7 105 10 "[]" Ask False])
       (simp_all add: e0 in_i64_def queue_rest_def submit_events_def)
  obtain e fp sp where b: "engine_queue 7 Bid e = [rested 2 Bid 100 4]" "engine_queue 7 Ask e = [rested 1 Ask 105 10]"
      "engine_inv (0, Independent) (e, fp) [EvAdd 1 105 10 7 Ask, EvAdd 2 100 4 7 Bid] sp"
    by (rule submit_reported_queues [OF a(4) no_checkpoint_ok, of 7 100 4 Bid False])
       (simp_all add: a in_i64_def queue_rest_def submit_events_def rested_def)
  have q: "spec_queue Ask (sp 7) = [rested 1 Ask 105 10]" using b engine_queue_spec [OF b(3)] by simp
  have "spec_wf (sp 7)" using b(3) books_rel_wf by (auto simp: engine_inv_def)
  moreover have "rested 1 Ask 105 10 \<in> set (sp 7)" using set_spec_queue [of Ask "sp 7"] q by auto
  ultimately have g: "spec_get 1 (sp 7) = Some (rested 1 Ask 105 10)"
    by (subst spec_get_Some_iff) (auto simp: spec_wf_def rested_def)
  have "ro_side (rested 1 Ask 105 10) = Ask" "ro_price (rested 1 Ask 105 10) = 105" "ro_price (rested 2 Bid 100 4) = 100"
      "(rested 1 Ask 105 10)\<lparr>ro_price := 99, ro_quantity := 10\<rparr> = rested 1 Ask 99 10" "ro_order_id (rested 1 Ask 105 10) = 1"
    by (simp_all add: rested_def)
  note x = this
  have "engine_queue 7 (opposite (ro_side (rested 1 Ask 105 10))) e = rested 2 Bid 100 4 # []"
      "crosses (ro_side (rested 1 Ask 105 10)) 99 (ro_price (rested 2 Bid 100 4))" "99 \<noteq> ro_price (rested 1 Ask 105 10)"
    using b(1) unfolding x by simp_all
  from amend_can_cross_the_book [OF b(3) no_checkpoint_ok _ _ _ _ _ g this, of 10] obtain e' fp' sp' where
    r: "amend no_checkpoint 7 1 (Some 99) 10 (e, fp) = ((e', fp'), Ok ())" "\<not> uncrossed (sp' 7)" "engine_queue 7 Bid e' = [rested 2 Bid 100 4]"
      "engine_inv (0, Independent) (e', fp') ([EvAdd 1 105 10 7 Ask, EvAdd 2 100 4 7 Bid] @ [EvModify 1 99 10 7 Ask Replace]) sp'"
      "engine_queue 7 Ask e' = queue_rest (rested 1 Ask 99 10) (filter (\<lambda>z. ro_order_id z \<noteq> 1) [rested 1 Ask 105 10])"
    unfolding x opposite.simps b(2) by (auto simp: in_i64_def)
  have "engine_queue 7 Ask e' = [rested 1 Ask 99 10]" unfolding r(5) by (simp add: rested_def queue_rest_def)
  with r(1-4) b(1,2) show ?thesis unfolding append.simps by blast
qed

text \<open>C2: the feed is a faithful account of the engine's books. From an empty engine and a fresh publisher
  without injected loss, serve any well-formed calls and flush: nothing panics, and a consumer that
  decodes the datagrams sent on arm A (or arm B) in order and applies their messages to empty books
  succeeds and ends with exactly the engine's queues, for every symbol and side.\<close>

theorem engine_feed_replay:
  assumes "fresh_feed (0, mode) fp" "callback_ok cb" "list_all call_wf cs" "length cs \<le> 2147483648"
  shows "\<exists>e' fp' fp'' bks_a bks_b. serve_calls cb cs (engine_new syms, fp) = ((e', fp'), True) \<and> flush fp' = (fp'', Ok ()) \<and>
     follow_datagrams (fp_sent_a fp'') [] = Some bks_a \<and> follow_datagrams (fp_sent_b fp'') [] = Some bks_b \<and>
     (\<forall>y s. rb_orders_in_queue_order (fst (get_or_create refbook_new y bks_a)) s = engine_queue y s e' \<and>
            rb_orders_in_queue_order (fst (get_or_create refbook_new y bks_b)) s = engine_queue y s e')"
proof -
  obtain e' fp' evs sp where r: "serve_calls cb cs (engine_new syms, fp) = ((e', fp'), True)"
      "engine_inv (0, mode) (e', fp') evs sp" "length evs + 2 < u64_max"
    using run_from_new [OF assms] by metis
  obtain fp'' ba bb where f: "flush fp' = (fp'', Ok ())" "follow_datagrams (fp_sent_a fp'') [] = Some ba" "books_rel refbook_rel ba sp"
      "follow_datagrams (fp_sent_b fp'') [] = Some bb" "books_rel refbook_rel bb sp"
    by (rule follow_lossless [OF r(2,3)])
  have "rb_orders_in_queue_order (fst (get_or_create refbook_new y bks)) s = engine_queue y s e'"
    if "books_rel refbook_rel bks sp" for bks y s
    unfolding engine_queue_spec [OF r(2)] using refset.get_or_create_sim(1) [OF that surjective_pairing] by (rule rb_queue_rel)
  then show ?thesis using r(1) f by (intro exI [of _ e'] exI [of _ fp'] exI [of _ fp''] exI [of _ ba] exI [of _ bb]) simp
qed

theorem engine_feed_replay_witness:
  "\<exists>e' fp' fp'' bks_a bks_b. serve_calls no_checkpoint [CallSubmit 7 Ask 105 10 False, CallSubmit 7 Bid 106 4 True]
       (engine_new [(7, 1, 100)], sample_feed) = ((e', fp'), True) \<and> flush fp' = (fp'', Ok ()) \<and>
     follow_datagrams (fp_sent_a fp'') [] = Some bks_a \<and> follow_datagrams (fp_sent_b fp'') [] = Some bks_b \<and>
     (\<forall>y s. rb_orders_in_queue_order (fst (get_or_create refbook_new y bks_a)) s = engine_queue y s e' \<and>
            rb_orders_in_queue_order (fst (get_or_create refbook_new y bks_b)) s = engine_queue y s e')"
  by (rule engine_feed_replay [OF sample_feed_fresh]) (simp_all add: in_i64_def)

end
