(* ===== verification/Arbitration.thy ===== *)
theory Arbitration
  imports Packet
begin

text \<open>
  A/B arbitration, \<open>crates/feed-handler/src/arbitration.rs\<close>: a bounded reorder window over the two
  arms, the frontier \<open>next_expected\<close>, and the declaration of a gap when the window is full or the feed
  has gone quiet. Sequences are \<open>u64\<close>: \<open>accept\<close> saturates where \<open>deliver\<close> and \<open>find_slot_covering\<close> wrap,
  as the source does. The datagrams \<open>drain_ready\<close> hands to its callback are returned as a list.
\<close>

section \<open>State\<close>

datatype feed_state = Syncing | Live | Gapped

record arm_counters =
  ac_datagrams :: nat
  ac_datagrams_first :: nat
  ac_datagrams_duplicate :: nat
  ac_datagrams_buffered :: nat
  ac_messages_first :: nat
  ac_malformed :: nat
  ac_dropped_window_full :: nat
  ac_bytes :: nat

definition arm_counters_zero :: arm_counters where
  "arm_counters_zero = \<lparr>ac_datagrams = 0, ac_datagrams_first = 0, ac_datagrams_duplicate = 0,
     ac_datagrams_buffered = 0, ac_messages_first = 0, ac_malformed = 0, ac_dropped_window_full = 0, ac_bytes = 0\<rparr>"

record gap =
  gap_from :: nat
  gap_through :: nat

definition gap_messages :: "gap \<Rightarrow> nat" where
  "gap_messages g = wrap_add_u64 (gap_through g) 1 - gap_from g"

datatype accepted =
    Ready nat nat
  | Buffered
  | Duplicate
  | ForcedGap gap
  | Malformed wire_error

record slot =
  sl_first :: nat
  sl_count :: nat
  sl_len :: nat
  sl_occupied :: bool
  sl_arm :: nat
  sl_buf :: bytes

abbreviation (input) GAP_LOG :: nat where "GAP_LOG \<equiv> 256"

record arbitrator =
  ar_state :: feed_state
  ar_next_expected :: nat
  ar_window :: "slot list"
  ar_capacity :: nat
  ar_occupied :: nat
  ar_arms :: "arm_counters list"
  ar_first_sequence :: nat
  ar_last_delivered :: nat
  ar_messages_delivered :: nat
  ar_gaps :: "gap list"
  ar_gaps_stored :: nat
  ar_gaps_recorded :: nat
  ar_messages_missed :: nat
  ar_highest_seen :: nat
  ar_max_window_used :: nat
  ar_started :: bool
  ar_resyncs :: nat

definition Arbitrator_new :: "nat \<Rightarrow> nat \<Rightarrow> arbitrator" where
  "Arbitrator_new window_datagrams max_datagram_bytes =
     (let w = max window_datagrams 1 in
      \<lparr>ar_state = Syncing, ar_next_expected = 0,
       ar_window = replicate (w + 1) \<lparr>sl_first = 0, sl_count = 0, sl_len = 0, sl_occupied = False, sl_arm = 0,
         sl_buf = replicate max_datagram_bytes 0\<rparr>,
       ar_capacity = w, ar_occupied = 0, ar_arms = replicate 2 arm_counters_zero, ar_first_sequence = 0,
       ar_last_delivered = 0, ar_messages_delivered = 0,
       ar_gaps = replicate GAP_LOG \<lparr>gap_from = 0, gap_through = 0\<rparr>, ar_gaps_stored = 0, ar_gaps_recorded = 0,
       ar_messages_missed = 0, ar_highest_seen = 0, ar_max_window_used = 0, ar_started = False, ar_resyncs = 0\<rparr>)"

definition arb_arm :: "nat \<Rightarrow> arbitrator \<Rightarrow> arm_counters" where
  "arb_arm arm a = ar_arms a ! (arm mod 2)"

definition arb_gaps :: "arbitrator \<Rightarrow> gap list" where
  "arb_gaps a = take (ar_gaps_stored a) (ar_gaps a)"

section \<open>Slots\<close>

text \<open>\<open>Iterator::position\<close>.\<close>

fun position_of :: "('a \<Rightarrow> bool) \<Rightarrow> 'a list \<Rightarrow> nat option" where
  "position_of P [] = None"
| "position_of P (x # xs) = (if P x then Some 0 else map_option Suc (position_of P xs))"

definition free_slot :: "arbitrator \<Rightarrow> nat option" where
  "free_slot a = position_of (\<lambda>s. \<not> sl_occupied s) (ar_window a)"

definition find_slot :: "nat \<Rightarrow> arbitrator \<Rightarrow> nat option" where
  "find_slot first_sequence a = position_of (\<lambda>s. sl_occupied s \<and> sl_first s = first_sequence) (ar_window a)"

definition slot_covers :: "nat \<Rightarrow> slot \<Rightarrow> bool" where
  "slot_covers sq s \<longleftrightarrow> sl_occupied s \<and> sl_first s \<le> sq \<and> sq < wrap_add_u64 (sl_first s) (sl_count s)"

definition find_slot_covering :: "nat \<Rightarrow> arbitrator \<Rightarrow> nat option" where
  "find_slot_covering sq a = position_of (slot_covers sq) (ar_window a)"

section \<open>Operations\<close>

definition bump_arm :: "nat \<Rightarrow> (arm_counters \<Rightarrow> arm_counters) \<Rightarrow> arbitrator \<Rightarrow> arbitrator" where
  "bump_arm idx f a = a\<lparr>ar_arms := (ar_arms a)[idx := f (ar_arms a ! idx)]\<rparr>"

definition count_received :: "nat \<Rightarrow> arm_counters \<Rightarrow> arm_counters" where
  "count_received len c = c\<lparr>ac_datagrams := wrap_add_u64 (ac_datagrams c) 1, ac_bytes := wrap_add_u64 (ac_bytes c) len\<rparr>"

definition count_malformed :: "arm_counters \<Rightarrow> arm_counters" where
  "count_malformed c = c\<lparr>ac_malformed := wrap_add_u64 (ac_malformed c) 1\<rparr>"

definition count_duplicate :: "arm_counters \<Rightarrow> arm_counters" where
  "count_duplicate c = c\<lparr>ac_datagrams_duplicate := wrap_add_u64 (ac_datagrams_duplicate c) 1\<rparr>"

definition count_first :: "nat \<Rightarrow> arm_counters \<Rightarrow> arm_counters" where
  "count_first n c = c\<lparr>ac_datagrams_first := wrap_add_u64 (ac_datagrams_first c) 1,
     ac_messages_first := wrap_add_u64 (ac_messages_first c) n\<rparr>"

definition count_buffered :: "arm_counters \<Rightarrow> arm_counters" where
  "count_buffered c = c\<lparr>ac_datagrams_buffered := wrap_add_u64 (ac_datagrams_buffered c) 1\<rparr>"

definition count_window_full :: "arm_counters \<Rightarrow> arm_counters" where
  "count_window_full c = c\<lparr>ac_dropped_window_full := wrap_add_u64 (ac_dropped_window_full c) 1\<rparr>"

definition arb_deliver :: "nat \<Rightarrow> nat \<Rightarrow> arbitrator \<Rightarrow> arbitrator" where
  "arb_deliver first count a =
     (let end = wrap_add_u64 first count in
      a\<lparr>ar_messages_delivered := wrap_add_u64 (ar_messages_delivered a) (end - ar_next_expected a),
        ar_next_expected := end, ar_last_delivered := wrap_sub_u64 end 1,
        ar_state := (if ar_state a \<noteq> Gapped then Live else ar_state a)\<rparr>)"

definition arb_store :: "nat \<Rightarrow> nat \<Rightarrow> nat \<Rightarrow> nat \<Rightarrow> bytes \<Rightarrow> arbitrator \<Rightarrow> arbitrator" where
  "arb_store slot_idx arm first count datagram a =
     (let s = ar_window a ! slot_idx; len = min (length datagram) (length (sl_buf s)) in
      a\<lparr>ar_window := (ar_window a)[slot_idx := s\<lparr>sl_buf := take len datagram @ drop len (sl_buf s), sl_len := len,
            sl_first := first, sl_count := count, sl_arm := arm, sl_occupied := True\<rparr>],
        ar_occupied := ar_occupied a + 1,
        ar_max_window_used := max (ar_max_window_used a) (ar_occupied a + 1)\<rparr>)"

text \<open>The lowest buffered sequence, or one past the frontier when nothing is buffered.\<close>

definition gap_target :: "arbitrator \<Rightarrow> nat" where
  "gap_target a =
     (case map sl_first (filter sl_occupied (ar_window a)) of
        [] \<Rightarrow> wrap_add_u64 (ar_next_expected a) 1
      | f # fs \<Rightarrow> fold min fs f)"

definition record_gap :: "gap \<Rightarrow> arbitrator \<Rightarrow> arbitrator" where
  "record_gap g a =
     (let a = a\<lparr>ar_messages_missed := wrap_add_u64 (ar_messages_missed a) (gap_messages g),
                ar_gaps_recorded := wrap_add_u64 (ar_gaps_recorded a) 1\<rparr> in
      if ar_gaps_stored a < length (ar_gaps a)
      then a\<lparr>ar_gaps := (ar_gaps a)[ar_gaps_stored a := g], ar_gaps_stored := ar_gaps_stored a + 1\<rparr> else a)"

definition declare_gap :: "arbitrator \<Rightarrow> arbitrator \<times> gap" where
  "declare_gap a =
     (let target = gap_target a;
          g = \<lparr>gap_from = ar_next_expected a, gap_through = max (target - 1) (ar_next_expected a)\<rparr> in
      ((record_gap g a)\<lparr>ar_state := Gapped, ar_next_expected := target\<rparr>, g))"

definition declare_gap_if_stalled :: "arbitrator \<Rightarrow> arbitrator \<times> gap option" where
  "declare_gap_if_stalled a =
     (if ar_occupied a = 0 then (a, None)
      else if find_slot_covering (ar_next_expected a) a \<noteq> None then (a, None)
      else case declare_gap a of (a', g) \<Rightarrow> (a', Some g))"

definition keep_after_gap :: "nat \<Rightarrow> nat \<Rightarrow> nat \<Rightarrow> bytes \<Rightarrow> arbitrator \<Rightarrow> arbitrator" where
  "keep_after_gap arm first count datagram a =
     (if sat_add_u64 first count \<le> ar_next_expected a then bump_arm arm count_duplicate a
      else if first \<le> ar_next_expected a then arb_deliver first count (bump_arm arm (count_first count) a)
      else case free_slot a of
        Some i \<Rightarrow> bump_arm arm count_buffered (arb_store i arm first count datagram a)
      | None \<Rightarrow> bump_arm arm count_window_full a)"

definition arb_start :: "nat \<Rightarrow> arbitrator \<Rightarrow> arbitrator" where
  "arb_start first a =
     (if ar_started a then a
      else a\<lparr>ar_started := True, ar_first_sequence := first, ar_next_expected := first, ar_state := Live\<rparr>)"

text \<open>\<open>accept\<close> after the header has been read.\<close>

definition accept_range :: "nat \<Rightarrow> nat \<Rightarrow> nat \<Rightarrow> bytes \<Rightarrow> arbitrator \<Rightarrow> arbitrator \<times> (wire_error, accepted) outcome" where
  "accept_range arm first count datagram a =
     (if count = 0 then (bump_arm arm count_duplicate a, Ok Duplicate)
      else
        let end = sat_add_u64 first count;
            a = arb_start first (a\<lparr>ar_highest_seen := max (ar_highest_seen a) end\<rparr>) in
        if end \<le> ar_next_expected a then (bump_arm arm count_duplicate a, Ok Duplicate)
        else if first \<le> ar_next_expected a
        then (arb_deliver first count (bump_arm arm (count_first count) a), Ok (Ready first count))
        else if find_slot first a \<noteq> None then (bump_arm arm count_duplicate a, Ok Duplicate)
        else if ar_occupied a < ar_capacity a
        then case free_slot a of
            None \<Rightarrow> (a, Panic)
          | Some i \<Rightarrow> (bump_arm arm count_buffered (arb_store i arm first count datagram a), Ok Buffered)
        else case declare_gap a of (a', g) \<Rightarrow> (keep_after_gap arm first count datagram a', Ok (ForcedGap g)))"

definition accept :: "nat \<Rightarrow> bytes \<Rightarrow> arbitrator \<Rightarrow> arbitrator \<times> (wire_error, accepted) outcome" where
  "accept channel datagram a =
     (let arm = channel mod 2; a = bump_arm arm (count_received (length datagram)) a in
      case PacketHeader_wrap datagram of
        Err e \<Rightarrow> (bump_arm arm count_malformed a, Ok (Malformed e))
      | Panic \<Rightarrow> (a, Panic)
      | Ok h \<Rightarrow>
          (case obind (PacketHeader_first_sequence h) (\<lambda>first. obind (PacketHeader_message_count h) (\<lambda>count. Ok (first, count))) of
             Ok (first, count) \<Rightarrow> accept_range arm first count datagram a
           | Err e \<Rightarrow> (a, Err e)
           | Panic \<Rightarrow> (a, Panic)))"

definition drain_slot :: "nat \<Rightarrow> arbitrator \<Rightarrow> arbitrator" where
  "drain_slot i a =
     (let s = ar_window a ! i in
      arb_deliver (sl_first s) (sl_count s)
        (bump_arm (sl_arm s) (count_first (sl_count s))
          (a\<lparr>ar_window := (ar_window a)[i := s\<lparr>sl_occupied := False\<rparr>], ar_occupied := wrap_sub_u64 (ar_occupied a) 1\<rparr>)))"

definition window_load :: "arbitrator \<Rightarrow> nat" where
  "window_load a = length (filter sl_occupied (ar_window a))"

lemma position_of_Some: "position_of P xs = Some i \<Longrightarrow> i < length xs \<and> P (xs ! i) \<and> (\<forall>j<i. \<not> P (xs ! j))"
proof (induction xs arbitrary: i)
  case (Cons x xs)
  then show ?case by (cases i) (auto split: if_splits simp: less_Suc_eq_0_disj)
qed simp

lemma position_of_None_iff: "position_of P xs = None \<longleftrightarrow> (\<forall>x\<in>set xs. \<not> P x)"
  by (induction xs) auto

lemma filter_update_False:
  "i < length xs \<Longrightarrow> P (xs ! i) \<Longrightarrow> \<not> P x \<Longrightarrow> Suc (length (filter P (xs[i := x]))) = length (filter P xs)"
proof (induction xs arbitrary: i)
  case (Cons y ys)
  then show ?case by (cases i) auto
qed simp

lemma filter_update_True:
  "i < length xs \<Longrightarrow> \<not> P (xs ! i) \<Longrightarrow> P x \<Longrightarrow> length (filter P (xs[i := x])) = Suc (length (filter P xs))"
proof (induction xs arbitrary: i)
  case (Cons y ys)
  then show ?case by (cases i) auto
qed simp

lemma op_window [simp]:
  "ar_window (arb_deliver f c a) = ar_window a" "ar_window (bump_arm i g a) = ar_window a"
  "ar_occupied (arb_deliver f c a) = ar_occupied a" "ar_occupied (bump_arm i g a) = ar_occupied a"
  "ar_capacity (arb_deliver f c a) = ar_capacity a" "ar_capacity (bump_arm i g a) = ar_capacity a"
  by (simp_all add: arb_deliver_def bump_arm_def Let_def)

lemma drain_slot_load:
  assumes "find_slot_covering sq a = Some i"
  shows "window_load (drain_slot i a) < window_load a"
  using position_of_Some [OF assms [unfolded find_slot_covering_def]]
    filter_update_False [of i "ar_window a" sl_occupied "(ar_window a ! i)\<lparr>sl_occupied := False\<rparr>"]
  by (simp add: window_load_def drain_slot_def Let_def slot_covers_def)

function drain_ready :: "arbitrator \<Rightarrow> arbitrator \<times> (nat \<times> nat \<times> bytes) list" where
  "drain_ready a =
     (case find_slot_covering (ar_next_expected a) a of
        None \<Rightarrow> (a, [])
      | Some i \<Rightarrow>
          let s = ar_window a ! i in
          (case drain_ready (drain_slot i a) of
             (a', out) \<Rightarrow> (a', (sl_first s, sl_count s, take (sl_len s) (sl_buf s)) # out)))"
  by pat_completeness auto
termination
  by (relation "measure window_load") (auto dest: drain_slot_load)

declare drain_ready.simps [simp del]

definition resync_to :: "nat \<Rightarrow> arbitrator \<Rightarrow> arbitrator" where
  "resync_to sq a =
     a\<lparr>ar_window := map (\<lambda>s. s\<lparr>sl_occupied := False\<rparr>) (ar_window a), ar_occupied := 0, ar_next_expected := sq,
       ar_state := Live, ar_started := True, ar_resyncs := wrap_add_u64 (ar_resyncs a) 1\<rparr>"

definition clear_gapped :: "arbitrator \<Rightarrow> arbitrator" where
  "clear_gapped a = (if ar_state a = Gapped then a\<lparr>ar_state := Live\<rparr> else a)"


section \<open>The structural invariant\<close>

definition arb_inv :: "arbitrator \<Rightarrow> bool" where
  "arb_inv a \<longleftrightarrow> 1 \<le> ar_capacity a \<and> ar_capacity a < u64_max \<and> length (ar_window a) = ar_capacity a + 1 \<and>
     ar_occupied a = window_load a \<and> distinct (map sl_first (filter sl_occupied (ar_window a))) \<and>
     length (ar_arms a) = 2 \<and> (\<forall>s\<in>set (ar_window a). sl_occupied s \<longrightarrow> sl_arm s < 2) \<and>
     length (ar_gaps a) = GAP_LOG \<and> ar_gaps_stored a \<le> GAP_LOG"

inductive arb_step :: "arbitrator \<Rightarrow> arbitrator \<Rightarrow> bool" where
  step_accept: "accept arm d a = (a', r) \<Longrightarrow> arb_step a a'"
| step_drain: "drain_ready a = (a', out) \<Longrightarrow> arb_step a a'"
| step_stalled: "declare_gap_if_stalled a = (a', g) \<Longrightarrow> arb_step a a'"
| step_resync: "arb_step a (resync_to sq a)"
| step_clear: "arb_step a (clear_gapped a)"

inductive_cases arb_stepE: "arb_step a a'"

lemma arb_inv_new: "w < u64_max \<Longrightarrow> arb_inv (Arbitrator_new w b)"
  by (simp add: arb_inv_def Arbitrator_new_def Let_def window_load_def filter_replicate)

lemma arb_inv_bump: "arb_inv a \<Longrightarrow> arb_inv (bump_arm i f a)"
  by (simp add: arb_inv_def bump_arm_def window_load_def)

lemma arb_inv_deliver: "arb_inv a \<Longrightarrow> arb_inv (arb_deliver f c a)"
  by (simp add: arb_inv_def arb_deliver_def window_load_def Let_def)

lemma filter_insert:
  "i < length xs \<Longrightarrow> \<not> P (xs ! i) \<Longrightarrow> P x \<Longrightarrow>
     \<exists>us vs. filter P xs = us @ vs \<and> filter P (xs[i := x]) = us @ x # vs"
proof (induction xs arbitrary: i)
  case (Cons y ys)
  show ?case
  proof (cases i)
    case 0
    then show ?thesis using Cons.prems by (metis append_Nil filter.simps(2) list_update_code(2) nth_Cons_0)
  next
    case (Suc j)
    then obtain us vs where "filter P ys = us @ vs" "filter P (ys[j := x]) = us @ x # vs"
      using Cons.IH [of j] Cons.prems by (auto simp del: Cons.IH)
    then show ?thesis using Suc by (cases "P y") (auto intro: exI [of _ "y # us"])
  qed
qed simp

lemma arb_inv_store:
  assumes "arb_inv a" "free_slot a = Some i" "find_slot first a = None" "arm < 2"
  shows "arb_inv (arb_store i arm first c d a)"
proof -
  have i: "i < length (ar_window a)" "\<not> sl_occupied (ar_window a ! i)"
    using position_of_Some assms(2) by (auto simp: free_slot_def)
  define s where "s = (ar_window a ! i)\<lparr>sl_buf := take (min (length d) (length (sl_buf (ar_window a ! i)))) d @
      drop (min (length d) (length (sl_buf (ar_window a ! i)))) (sl_buf (ar_window a ! i)),
      sl_len := min (length d) (length (sl_buf (ar_window a ! i))), sl_first := first, sl_count := c, sl_arm := arm, sl_occupied := True\<rparr>"
  have w: "ar_window (arb_store i arm first c d a) = (ar_window a)[i := s]"
    by (simp add: arb_store_def Let_def s_def)
  have s: "sl_occupied s" "sl_first s = first" "sl_arm s = arm" by (simp_all add: s_def)
  obtain us vs where f: "filter sl_occupied (ar_window a) = us @ vs" "filter sl_occupied ((ar_window a)[i := s]) = us @ s # vs"
    using filter_insert [OF i s(1)] by blast
  have "\<forall>x\<in>set (ar_window a). \<not> (sl_occupied x \<and> sl_first x = first)"
    using assms(3) by (simp add: find_slot_def position_of_None_iff)
  then have "first \<notin> sl_first ` set (filter sl_occupied (ar_window a))" by auto
  then have "distinct (map sl_first (filter sl_occupied ((ar_window a)[i := s])))"
    using assms(1) unfolding arb_inv_def f by (auto simp: s)
  moreover have "\<forall>x\<in>set ((ar_window a)[i := s]). sl_occupied x \<longrightarrow> sl_arm x < 2"
    using assms(1,4) s(3) set_update_subset_insert [of "ar_window a" i s] by (auto simp: arb_inv_def)
  ultimately show ?thesis
    using assms(1) filter_update_True [of i "ar_window a" sl_occupied s] i s(1)
    by (simp add: arb_inv_def w window_load_def) (simp add: arb_store_def Let_def)
qed

lemma record_gap_simps [simp]:
  "ar_window (record_gap g a) = ar_window a" "ar_capacity (record_gap g a) = ar_capacity a"
  "ar_occupied (record_gap g a) = ar_occupied a" "ar_arms (record_gap g a) = ar_arms a"
  "ar_started (record_gap g a) = ar_started a" "ar_first_sequence (record_gap g a) = ar_first_sequence a"
  "ar_messages_delivered (record_gap g a) = ar_messages_delivered a"
  "ar_messages_missed (record_gap g a) = wrap_add_u64 (ar_messages_missed a) (gap_messages g)"
  "length (ar_gaps (record_gap g a)) = length (ar_gaps a)"
  "ar_gaps_stored a \<le> length (ar_gaps a) \<Longrightarrow> ar_gaps_stored (record_gap g a) \<le> length (ar_gaps a)"
  by (auto simp: record_gap_def Let_def)

lemma arb_inv_declare: "arb_inv a \<Longrightarrow> declare_gap a = (a', g) \<Longrightarrow> arb_inv a' \<and> ar_window a' = ar_window a \<and>
    ar_capacity a' = ar_capacity a \<and> ar_occupied a' = ar_occupied a"
  using record_gap_simps(10) [of a g] by (auto simp: arb_inv_def declare_gap_def Let_def window_load_def)

lemma free_slot_exists:
  assumes "arb_inv a" "ar_occupied a < ar_capacity a + 1"
  shows "free_slot a \<noteq> None"
proof
  assume "free_slot a = None"
  then have "filter sl_occupied (ar_window a) = ar_window a" by (simp add: free_slot_def position_of_None_iff)
  then show False using assms by (simp add: arb_inv_def window_load_def)
qed

lemma free_slot_cong: "ar_window a = ar_window b \<Longrightarrow> free_slot a = free_slot b"
  "ar_window a = ar_window b \<Longrightarrow> find_slot f a = find_slot f b"
  "ar_window a = ar_window b \<Longrightarrow> find_slot_covering f a = find_slot_covering f b"
  by (simp_all add: free_slot_def find_slot_def find_slot_covering_def)

lemma arb_inv_keep:
  assumes "arb_inv a" "find_slot first a = None" "arm < 2"
  shows "arb_inv (keep_after_gap arm first c d a)"
  using assms arb_inv_store [OF assms(1) _ assms(2,3)]
  by (auto simp: keep_after_gap_def intro!: arb_inv_bump arb_inv_deliver split: option.splits)

lemma arb_inv_start: "arb_inv a \<Longrightarrow> arb_inv (arb_start f (a\<lparr>ar_highest_seen := h\<rparr>))"
  by (simp add: arb_inv_def arb_start_def window_load_def)

lemma accept_range_inv:
  assumes inv: "arb_inv a" and arm: "arm < 2" and acc: "accept_range arm first c d a = (a', r)"
  shows "arb_inv a' \<and> is_Ok r"
proof -
  define b where "b = arb_start first (a\<lparr>ar_highest_seen := max (ar_highest_seen a) (sat_add_u64 first c)\<rparr>)"
  have ib: "arb_inv b" unfolding b_def by (rule arb_inv_start [OF inv])
  show ?thesis
  proof (cases "c = 0 \<or> sat_add_u64 first c \<le> ar_next_expected b \<or> first \<le> ar_next_expected b \<or> find_slot first b \<noteq> None")
    case True
    then show ?thesis using acc inv ib
      by (auto simp: accept_range_def b_def [symmetric] Let_def intro: arb_inv_bump arb_inv_deliver split: if_splits)
  next
    case False
    then have ff: "find_slot first b = None" by simp
    show ?thesis
    proof (cases "ar_occupied b < ar_capacity b")
      case True
      then obtain i where i: "free_slot b = Some i" using free_slot_exists [OF ib] by auto
      then show ?thesis using acc False True arb_inv_store [OF ib i ff arm]
        by (auto simp: accept_range_def b_def [symmetric] Let_def intro: arb_inv_bump)
    next
      case full: False
      obtain b' g where g: "declare_gap b = (b', g)" by fastforce
      have "arb_inv b'" "find_slot first b' = None" using arb_inv_declare [OF ib g] ff free_slot_cong(2) [of b' b first] by auto
      then show ?thesis using acc False full g arb_inv_keep arm
        by (auto simp: accept_range_def b_def [symmetric] Let_def)
    qed
  qed
qed

lemma header_fields_read:
  assumes "PacketHeader_wrap d = Ok h"
  obtains first count where "PacketHeader_first_sequence h = Ok first" "PacketHeader_message_count h = Ok count"
    "first \<le> u64_max" "count \<le> u16_max"
proof -
  have "h = d" "24 \<le> length d" using assms by (auto simp: PacketHeader_wrap_def outcome_simps split: if_splits)
  then obtain f c where "PacketHeader_first_sequence h = Ok f" "PacketHeader_message_count h = Ok c"
    by (simp add: PacketHeader_first_sequence_def PacketHeader_message_count_def le_defs access_in_range)
  moreover from this have "f < 256 ^ 8" "c < 256 ^ 2"
    by (auto simp: PacketHeader_first_sequence_def PacketHeader_message_count_def le_defs dest: le_u_bound)
  ultimately show thesis using that [of f c] by simp
qed


lemma PacketHeader_wrap_no_panic [simp]: "PacketHeader_wrap d \<noteq> Panic"
  by (auto simp: PacketHeader_wrap_def PacketHeader_schema_id_def le_defs outcome_simps access_in_range)

lemma accept_inv:
  assumes "arb_inv a" "accept ch d a = (a', r)"
  shows "arb_inv a' \<and> is_Ok r"
proof (cases "PacketHeader_wrap d")
  case (Ok h)
  obtain first c where "PacketHeader_first_sequence h = Ok first" "PacketHeader_message_count h = Ok c"
    using header_fields_read [OF Ok] by metis
  then show ?thesis using Ok assms accept_range_inv [OF arb_inv_bump [OF assms(1)], of "ch mod 2"]
    by (auto simp: accept_def Let_def)
next
  case (Err e)
  then show ?thesis using assms by (auto simp: accept_def Let_def intro: arb_inv_bump)
qed simp

lemma arb_inv_clear_slot:
  assumes "arb_inv a" "i < length (ar_window a)" "sl_occupied (ar_window a ! i)"
  shows "arb_inv (a\<lparr>ar_window := (ar_window a)[i := (ar_window a ! i)\<lparr>sl_occupied := False\<rparr>],
     ar_occupied := wrap_sub_u64 (ar_occupied a) 1\<rparr>)"
proof -
  define s where "s = (ar_window a ! i)\<lparr>sl_occupied := False\<rparr>"
  have len: "Suc (length (filter sl_occupied ((ar_window a)[i := s]))) = length (filter sl_occupied (ar_window a))"
    using filter_update_False [OF assms(2), of sl_occupied s] assms(3) by (simp add: s_def)
  have "ar_window a = ((ar_window a)[i := s])[i := ar_window a ! i]" by simp
  then obtain us vs where f: "filter sl_occupied ((ar_window a)[i := s]) = us @ vs"
      "filter sl_occupied (ar_window a) = us @ (ar_window a ! i) # vs"
    using filter_insert [of i "(ar_window a)[i := s]" sl_occupied "ar_window a ! i"] assms(2,3) by (auto simp: s_def)
  have "\<forall>x\<in>set ((ar_window a)[i := s]). sl_occupied x \<longrightarrow> sl_arm x < 2"
    using assms(1) set_update_subset_insert [of "ar_window a" i s] by (auto simp: arb_inv_def s_def)
  moreover have "window_load a \<le> u64_max" using assms(1) length_filter_le [of sl_occupied "ar_window a"]
    by (simp add: arb_inv_def window_load_def)
  then have "wrap_sub_u64 (ar_occupied a) 1 = length (filter sl_occupied ((ar_window a)[i := s]))"
    using assms(1) len by (simp add: arb_inv_def window_load_def)
  moreover have "distinct (map sl_first (filter sl_occupied ((ar_window a)[i := s])))"
    using assms(1) unfolding arb_inv_def f by auto
  ultimately show ?thesis using assms(1) unfolding s_def [symmetric] by (simp add: arb_inv_def window_load_def)
qed

lemma drain_slot_inv:
  assumes "arb_inv a" "i < length (ar_window a)" "sl_occupied (ar_window a ! i)"
  shows "arb_inv (drain_slot i a)"
  unfolding drain_slot_def Let_def by (intro arb_inv_deliver arb_inv_bump arb_inv_clear_slot assms)

lemma drain_ready_inv: "arb_inv a \<Longrightarrow> arb_inv (fst (drain_ready a))"
proof (induction a rule: drain_ready.induct)
  case (1 a)
  show ?case
  proof (cases "find_slot_covering (ar_next_expected a) a")
    case None
    then show ?thesis using 1 by (simp add: drain_ready.simps)
  next
    case (Some i)
    then have "arb_inv (drain_slot i a)"
      using position_of_Some [OF Some [unfolded find_slot_covering_def]] 1(2)
      by (intro drain_slot_inv) (auto simp: slot_covers_def)
    then show ?thesis using 1(1) [OF Some refl] Some by (simp add: drain_ready.simps [of a] Let_def case_prod_beta)
  qed
qed

lemma arb_step_inv: "arb_step a a' \<Longrightarrow> arb_inv a \<Longrightarrow> arb_inv a'"
proof (induction rule: arb_step.induct)
  case (step_accept arm d a a' r)
  then show ?case using accept_inv by blast
next
  case (step_drain a a' out)
  then show ?case using drain_ready_inv [of a] by simp
next
  case (step_stalled a a' g)
  obtain b h where "declare_gap a = (b, h)" by fastforce
  with step_stalled arb_inv_declare [OF step_stalled(2) this] show ?case
    by (auto simp: declare_gap_if_stalled_def split: if_splits)
next
  case (step_resync a sq)
  then show ?case by (auto simp: arb_inv_def resync_to_def window_load_def filter_map comp_def)
next
  case (step_clear a)
  then show ?case by (simp add: arb_inv_def clear_gapped_def window_load_def)
qed

lemma arb_reachable_inv: "arb_step\<^sup>*\<^sup>* (Arbitrator_new w b) a \<Longrightarrow> w < u64_max \<Longrightarrow> arb_inv a"
  by (induction rule: rtranclp_induct) (auto intro: arb_inv_new arb_step_inv)

section \<open>The lowest buffered datagram\<close>

text \<open>A datagram whose header announces \<open>c\<close> messages from sequence \<open>f\<close> on.\<close>

definition announces :: "nat \<Rightarrow> nat \<Rightarrow> bytes \<Rightarrow> bool" where
  "announces f c d \<longleftrightarrow> PacketHeader_wrap d = Ok d \<and> PacketHeader_first_sequence d = Ok f \<and> PacketHeader_message_count d = Ok c"

lemma accept_announced:
  "announces f c d \<Longrightarrow> accept ch d a = accept_range (ch mod 2) f c d (bump_arm (ch mod 2) (count_received (length d)) a)"
  by (simp add: announces_def accept_def Let_def)

lemma gap_target_lowest:
  assumes "\<exists>s\<in>set (ar_window a). sl_occupied s"
  shows "\<exists>j<length (ar_window a). sl_occupied (ar_window a ! j) \<and> sl_first (ar_window a ! j) = gap_target a"
    and "\<And>s. s \<in> set (ar_window a) \<Longrightarrow> sl_occupied s \<Longrightarrow> gap_target a \<le> sl_first s"
proof -
  define fs where "fs = map sl_first (filter sl_occupied (ar_window a))"
  have ne: "fs \<noteq> []" using assms by (auto simp: fs_def filter_empty_conv)
  obtain x xs where fs: "fs = x # xs" using ne by (cases fs) auto
  have t: "gap_target a = Min (set fs)" unfolding gap_target_def fs_def [symmetric] unfolding fs Min.set_eq_fold by simp
  then have "gap_target a \<in> set fs" using Min_in ne by simp
  then show "\<exists>j<length (ar_window a). sl_occupied (ar_window a ! j) \<and> sl_first (ar_window a ! j) = gap_target a"
    by (auto simp: fs_def in_set_conv_nth)
  show "gap_target a \<le> sl_first s" if "s \<in> set (ar_window a)" "sl_occupied s" for s
    unfolding t by (rule Min_le) (use that in \<open>auto simp: fs_def\<close>)
qed

lemma gap_target_cong:
  "ar_window a = ar_window b \<Longrightarrow> \<exists>s\<in>set (ar_window b). sl_occupied s \<Longrightarrow> gap_target a = gap_target b"
  by (auto simp: gap_target_def filter_empty_conv split: list.split)

lemma drains_lowest:
  assumes inv: "arb_inv a" and at: "ar_next_expected a = gap_target a" and j: "j < length (ar_window a)" "sl_occupied (ar_window a ! j)"
    and s: "sl_first (ar_window a ! j) = gap_target a" "0 < sl_count (ar_window a ! j)" "gap_target a + sl_count (ar_window a ! j) \<le> u64_max"
  shows "\<exists>a' rest. drain_ready a = (a', (gap_target a, sl_count (ar_window a ! j), take (sl_len (ar_window a ! j)) (sl_buf (ar_window a ! j))) # rest)"
proof -
  let ?f = "gap_target a"
  have ex: "\<exists>s\<in>set (ar_window a). sl_occupied s" using j nth_mem by blast
  have "slot_covers ?f (ar_window a ! j)" using j(2) s by (simp add: slot_covers_def)
  then obtain i where i: "find_slot_covering ?f a = Some i" using j(1) position_of_None_iff
    by (metis find_slot_covering_def nth_mem option.exhaust)
  have p: "i < length (ar_window a)" "slot_covers ?f (ar_window a ! i)"
    using position_of_Some [OF i [unfolded find_slot_covering_def]] by simp_all
  then have "sl_first (ar_window a ! i) = ?f" using gap_target_lowest(2) [OF ex, of "ar_window a ! i"] by (simp add: slot_covers_def)
  moreover have "inj_on sl_first (set (filter sl_occupied (ar_window a)))" using inv by (simp add: arb_inv_def distinct_map)
  ultimately have "ar_window a ! i = ar_window a ! j" using p j s(1) by (intro inj_onD [of sl_first]) (auto simp: slot_covers_def)
  then show ?thesis using i s(1) at drain_ready.simps [of a] by (auto simp: Let_def split: prod.splits)
qed

lemma drain_keeps_stale:
  assumes "sl_first s + sl_count s \<le> u64_max"
  shows "j < length (ar_window a) \<Longrightarrow> ar_window a ! j = s \<Longrightarrow> sl_occupied s \<Longrightarrow> sl_first s + sl_count s \<le> ar_next_expected a \<Longrightarrow>
     drain_ready a = (a', out) \<Longrightarrow>
     length (ar_window a') = length (ar_window a) \<and> ar_window a' ! j = s \<and> ar_next_expected a \<le> ar_next_expected a' \<and>
     find_slot_covering (ar_next_expected a') a' = None \<and> set (filter sl_occupied (ar_window a')) \<subseteq> set (filter sl_occupied (ar_window a))"
proof (induction a arbitrary: a' out rule: drain_ready.induct)
  case (1 a)
  show ?case
  proof (cases "find_slot_covering (ar_next_expected a) a")
    case None
    then show ?thesis using 1 by (simp add: drain_ready.simps)
  next
    case (Some i)
    have i: "i < length (ar_window a)" "slot_covers (ar_next_expected a) (ar_window a ! i)"
      using position_of_Some [OF Some [unfolded find_slot_covering_def]] by simp_all
    have ij: "i \<noteq> j" using i(2) "1.prems"(2,4) assms by (auto simp: slot_covers_def)
    let ?b = "drain_slot i a"
    have w: "ar_window ?b = (ar_window a)[i := (ar_window a ! i)\<lparr>sl_occupied := False\<rparr>]" by (simp add: drain_slot_def Let_def)
    have n: "ar_next_expected a \<le> ar_next_expected ?b" using i(2) by (simp add: drain_slot_def arb_deliver_def Let_def slot_covers_def)
    obtain out' where o: "drain_ready ?b = (a', out')" using "1.prems"(5) Some
      by (subst (asm) drain_ready.simps) (auto simp: Let_def split: prod.splits)
    have sub: "set (filter sl_occupied (ar_window ?b)) \<subseteq> set (filter sl_occupied (ar_window a))"
      using set_update_subset_insert [of "ar_window a" i "(ar_window a ! i)\<lparr>sl_occupied := False\<rparr>"] by (auto simp: w)
    have "sl_first s + sl_count s \<le> ar_next_expected ?b" using "1.prems"(4) n by simp
    from "1.IH" [OF Some refl _ _ "1.prems"(3) this o] "1.prems"(1,2) ij n sub show ?thesis by (fastforce simp: w)
  qed
qed

lemma stalled_gap:
  assumes "arb_inv a" "declare_gap_if_stalled a = (a', Some g)"
  shows "ar_next_expected a' = gap_target a" "ar_window a' = ar_window a" "ar_started a' = ar_started a" "arb_inv a'"
    "\<exists>s\<in>set (ar_window a). sl_occupied s"
proof -
  have d: "declare_gap a = (a', g)" "ar_occupied a \<noteq> 0" using assms(2)
    by (auto simp: declare_gap_if_stalled_def split: if_splits prod.splits)
  show "ar_next_expected a' = gap_target a" "ar_started a' = ar_started a" using d(1) by (auto simp: declare_gap_def Let_def)
  show "ar_window a' = ar_window a" "arb_inv a'" using arb_inv_declare [OF assms(1) d(1)] by auto
  show "\<exists>s\<in>set (ar_window a). sl_occupied s" using d(2) assms(1) by (auto simp: arb_inv_def window_load_def filter_empty_conv)
qed

lemma stalled_declares:
  assumes "ar_occupied a \<noteq> 0" "find_slot_covering (ar_next_expected a) a = None"
  shows "declare_gap_if_stalled a = (fst (declare_gap a), Some (snd (declare_gap a)))"
  using assms by (simp add: declare_gap_if_stalled_def case_prod_beta)

end
