(* ===== verification/Reorder.thy ===== *)
theory Reorder
  imports Arbitration
begin

text \<open>
  What arbitration delivers of an aligned stream. Both arms carry the same batches: batch \<open>k\<close> covers the
  sequences from \<open>B k\<close> up to \<open>B (k + 1)\<close>. The abstract machine keeps the index of the next batch and the
  set of batches held; the refinement shows that a receive round of the arbitrator (\<open>accept\<close>, then
  \<open>drain_ready\<close>) is a round of the abstract machine, for any datagrams that carry batches of the
  stream, in any order and with any loss.
\<close>

section \<open>The abstract machine\<close>

text \<open>The first index from \<open>n\<close> on that is not held.\<close>

definition run_end :: "nat \<Rightarrow> nat set \<Rightarrow> nat" where
  "run_end n H = (LEAST m. n \<le> m \<and> m \<notin> H)"

definition spec_round :: "nat \<Rightarrow> nat \<Rightarrow> nat \<times> nat set \<Rightarrow> nat \<times> nat set \<times> nat list \<times> (nat \<times> nat) option" where
  "spec_round cap k st =
     (case st of (n, H) \<Rightarrow>
      if k < n \<or> k \<in> H then (n, H, [], None)
      else if k = n then let m = run_end (n + 1) H in (m, H - {..<m}, [n..<m], None)
      else if card H < cap then (n, insert k H, [], None)
      else let g = Min H; H' = (if k < g then H else insert k H); m = run_end g H' in
           (m, H' - {..<m}, [g..<m], Some (n, g)))"

definition spec_ok :: "nat \<Rightarrow> nat \<times> nat set \<Rightarrow> bool" where
  "spec_ok cap st \<longleftrightarrow> (case st of (n, H) \<Rightarrow> finite H \<and> card H \<le> cap \<and> (\<forall>k\<in>H. n < k))"

lemma run_end_props:
  assumes "finite H"
  shows "n \<le> run_end n H" "run_end n H \<notin> H" "\<And>k. n \<le> k \<Longrightarrow> k < run_end n H \<Longrightarrow> k \<in> H"
proof -
  obtain b where "\<forall>k\<in>H. k < b" using assms finite_nat_set_iff_bounded by blast
  then have "n \<le> max n b \<and> max n b \<notin> H" by auto
  then have "n \<le> run_end n H \<and> run_end n H \<notin> H" unfolding run_end_def by (rule LeastI)
  then show "n \<le> run_end n H" "run_end n H \<notin> H" by auto
  show "\<And>k. n \<le> k \<Longrightarrow> k < run_end n H \<Longrightarrow> k \<in> H" unfolding run_end_def using not_less_Least by blast
qed

lemma run_end_eqI: "n \<notin> H \<Longrightarrow> run_end n H = n"
  by (auto simp: run_end_def intro: Least_equality)

lemma run_end_step:
  assumes "finite H" "n \<in> H"
  shows "run_end n H = run_end (Suc n) (H - {n})"
  unfolding run_end_def using assms by (metis Diff_iff Suc_leD Suc_leI insert_iff le_neq_implies_less nat_less_le not_less_eq_eq singletonD)

lemma spec_round_ok:
  assumes ok: "spec_ok cap (n, H)" and cap: "1 \<le> cap" and r: "spec_round cap k (n, H) = (n', H', ks, g)"
  shows "spec_ok cap (n', H')" and "n \<le> n'"
    and "g = None \<Longrightarrow> ks = [n..<n']" and "g = Some (i, j) \<Longrightarrow> i = n \<and> n < j \<and> j < n' \<and> ks = [j..<n']"
proof -
  have H: "finite H" "card H \<le> cap" "\<forall>k\<in>H. n < k" using ok by (auto simp: spec_ok_def)
  have drained: "finite (K - {..<run_end m K}) \<and> (\<forall>k\<in>K - {..<run_end m K}. run_end m K < k)" if "finite K" for K m
    using run_end_props(2) [OF that, of m] that by (metis Diff_iff finite_Diff lessThan_iff linorder_neqE_nat)
  have less: "card (K - {..<run_end m K}) < card K" if "finite K" "m \<in> K" for K m
  proof -
    have "m < run_end m K" using run_end_props(1,2) [OF that(1), of m] that(2) le_neq_implies_less by metis
    then have "K - {..<run_end m K} \<subset> K" using that(2) by blast
    then show ?thesis using that(1) psubset_card_mono by blast
  qed
  show "spec_ok cap (n', H')"
  proof -
    have "card (H - {..<run_end (n + 1) H}) \<le> cap" using H card_mono [OF H(1), of "H - {..<run_end (n + 1) H}"] by simp
    moreover have "card (insert k H - {..<run_end (Min H) (insert k H)}) \<le> cap" if "\<not> card H < cap" "k \<notin> H"
    proof -
      have "H \<noteq> {}" using that cap by auto
      then have "Min H \<in> insert k H" using Min_in [OF H(1)] by simp
      then show ?thesis using less [of "insert k H" "Min H"] H card_insert_disjoint [OF H(1) that(2)] by simp
    qed
    moreover have "card (H - {..<run_end (Min H) H}) \<le> cap"
      using H card_mono [OF H(1), of "H - {..<run_end (Min H) H}"] by simp
    ultimately show ?thesis
      using r H drained [of H] drained [of "insert k H"]
      by (auto simp: spec_round_def spec_ok_def Let_def split: if_splits)
  qed
  have mn: "n < Min H \<and> Min H \<in> H" if "\<not> card H < cap"
  proof -
    have "H \<noteq> {}" using that cap by auto
    then show ?thesis using H Min_in [OF H(1)] by blast
  qed
  have gm: "Min H < run_end (Min H) K" if "finite K" "Min H \<in> K" for K
    using run_end_props(1,2) [OF that(1), of "Min H"] that(2) le_neq_implies_less by metis
  show "n \<le> n'"
    using r run_end_props(1) [OF H(1), of "n + 1"] mn gm [of H] gm [of "insert k H"] H(1)
    by (auto simp: spec_round_def Let_def split: if_splits)
  show "g = None \<Longrightarrow> ks = [n..<n']"
    using r by (auto simp: spec_round_def Let_def split: if_splits)
  show "g = Some (i, j) \<Longrightarrow> i = n \<and> n < j \<and> j < n' \<and> ks = [j..<n']"
    using r mn gm [of H] gm [of "insert k H"] H(1) by (auto simp: spec_round_def Let_def split: if_splits)
qed


section \<open>A receive round\<close>

text \<open>One datagram off a socket: offer it, then release what it unblocked. The result lists the
  datagrams handed on, in order.\<close>

definition receive_round :: "nat \<Rightarrow> bytes \<Rightarrow> arbitrator \<Rightarrow> arbitrator \<times> (wire_error, accepted) outcome \<times> bytes list" where
  "receive_round arm d a =
     (case accept arm d a of (a1, r) \<Rightarrow>
      case drain_ready a1 of (a2, out) \<Rightarrow>
        (a2, r, (case r of Ok (Ready _ _) \<Rightarrow> [d] | _ \<Rightarrow> []) @ map (\<lambda>x. snd (snd x)) out))"

fun receive_all :: "(nat \<times> bytes) list \<Rightarrow> arbitrator \<Rightarrow> arbitrator \<times> bytes list" where
  "receive_all [] a = (a, [])"
| "receive_all ((arm, d) # xs) a =
     (case receive_round arm d a of (a', _, out) \<Rightarrow>
      case receive_all xs a' of (a'', outs) \<Rightarrow> (a'', out @ outs))"

text \<open>How far arrivals may run ahead: each at most \<open>cap\<close> batches past the first one still missing.\<close>

fun bounded_lag :: "nat \<Rightarrow> nat set \<Rightarrow> nat list \<Rightarrow> bool" where
  "bounded_lag cap R [] \<longleftrightarrow> True"
| "bounded_lag cap R (k # ks) \<longleftrightarrow> k \<le> run_end 0 R + cap \<and> bounded_lag cap (insert k R) ks"

text \<open>The batches inside a list of gaps, each a half-open range of indices.\<close>

definition gap_indices :: "(nat \<times> nat) list \<Rightarrow> nat set" where
  "gap_indices gs = (\<Union>(i, j)\<in>set gs. {i..<j})"

lemma gap_indices_simps [simp]:
  "gap_indices [] = {}" "gap_indices [(i, j)] = {i..<j}" "gap_indices (gs @ hs) = gap_indices gs \<union> gap_indices hs"
  by (auto simp: gap_indices_def)

lemma run_end_mono: "finite R \<Longrightarrow> n \<le> m \<Longrightarrow> {n..<m} \<subseteq> R \<Longrightarrow> run_end n R = run_end m R"
proof (induction "m - n" arbitrary: n)
  case (Suc x)
  then have "n \<in> R" "{Suc n..<m} \<subseteq> R" by auto
  then have "run_end n R = run_end (Suc n) R"
    using Suc.prems(1) unfolding run_end_def by (metis Suc_leD Suc_leI le_neq_implies_less)
  moreover have "run_end (Suc n) R = run_end m R" using Suc(2-4) \<open>{Suc n..<m} \<subseteq> R\<close> by (intro Suc(1)) auto
  ultimately show ?case by simp
qed simp

text \<open>What the abstract machine makes of the set \<open>R\<close> of batches received so far, nothing lost.\<close>

definition lag_ok :: "nat \<Rightarrow> nat set \<Rightarrow> bool" where
  "lag_ok cap R \<longleftrightarrow> finite R \<and> (\<forall>k\<in>R. k \<le> run_end 0 R + cap)"

definition ahead :: "nat set \<Rightarrow> nat set" where
  "ahead R = {k \<in> R. run_end 0 R < k}"

lemma lag_spec_ok: "lag_ok cap R \<Longrightarrow> spec_ok cap (run_end 0 R, ahead R)"
proof -
  assume l: "lag_ok cap R"
  then have "ahead R \<subseteq> {run_end 0 R + 1..run_end 0 R + cap}" by (auto simp: lag_ok_def ahead_def)
  then have "card (ahead R) \<le> card {run_end 0 R + 1..run_end 0 R + cap}" by (intro card_mono) auto
  then show ?thesis using l by (auto simp: spec_ok_def ahead_def lag_ok_def)
qed

lemma lag_round:
  assumes l: "lag_ok cap R" and k: "k \<le> run_end 0 R + cap"
  shows "spec_round cap k (run_end 0 R, ahead R) =
       (run_end 0 (insert k R), ahead (insert k R), [run_end 0 R..<run_end 0 (insert k R)], None)"
    and "lag_ok cap (insert k R)"
proof -
  let ?n = "run_end 0 R"
  have R: "finite R" "\<forall>k\<in>R. k \<le> ?n + cap" using l by (auto simp: lag_ok_def)
  have n: "?n \<notin> R" "\<And>j. j < ?n \<Longrightarrow> j \<in> R" using run_end_props [OF R(1)] by auto
  have base: "{0..<?n} \<subseteq> R" using n by auto
  have e: "run_end 0 (insert k R) = run_end ?n (insert k R)" using R(1) base by (intro run_end_mono) auto
  have "?n \<le> run_end 0 (insert k R)" unfolding e using R(1) run_end_props(1) by simp
  then show "lag_ok cap (insert k R)" using R k by (auto simp: lag_ok_def intro: le_trans)
  consider "k \<in> R" | "k = ?n" | "?n < k" "k \<notin> R" using n by (meson linorder_neqE_nat)
  then show "spec_round cap k (run_end 0 R, ahead R) =
       (run_end 0 (insert k R), ahead (insert k R), [?n..<run_end 0 (insert k R)], None)"
  proof cases
    case 1
    then have "k \<noteq> ?n" "insert k R = R" using n by auto
    moreover from this have "k < ?n \<or> k \<in> ahead R" using 1 by (auto simp: ahead_def)
    ultimately show ?thesis by (simp add: spec_round_def)
  next
    case 2
    have m: "run_end 0 (insert k R) = run_end (Suc ?n) (insert k R)"
      unfolding e using R(1) 2 by (intro run_end_mono) auto
    also have "\<dots> = run_end (Suc ?n) (ahead R)"
      unfolding run_end_def ahead_def 2 by (rule arg_cong [where f = Least]) (auto simp: Suc_le_eq)
    finally have r: "run_end 0 (insert k R) = run_end (Suc ?n) (ahead R)" .
    have fa: "finite (ahead R)" using R(1) by (simp add: ahead_def)
    have "ahead (insert k R) = ahead R - {..<run_end (Suc ?n) (ahead R)}"
      using run_end_props [OF fa, of "Suc ?n"] 2 unfolding ahead_def [of "insert k R"] r
      by (auto simp: ahead_def not_less Suc_le_eq) (metis le_neq_implies_less less_le_trans)+
    moreover have "?n \<notin> ahead R" by (simp add: ahead_def)
    ultimately show ?thesis using 2 r by (simp add: spec_round_def Let_def)
  next
    case 3
    have r: "run_end 0 (insert k R) = ?n" unfolding e using 3 n(1) by (intro run_end_eqI) simp
    have "ahead R \<subseteq> {?n + 1..?n + cap} - {k}" using R 3 by (auto simp: ahead_def)
    then have "card (ahead R) \<le> card ({?n + 1..?n + cap} - {k})" by (intro card_mono) auto
    also have "\<dots> < cap" using 3 k by (simp add: card_Diff_singleton_if)
    finally show ?thesis using 3 r by (auto simp: spec_round_def ahead_def)
  qed
qed

section \<open>The arbitrator on an aligned stream\<close>

lemma keep_capacity [simp]:
  "ar_capacity (arb_store i arm f c d a) = ar_capacity a" "ar_capacity (keep_after_gap arm f c d a) = ar_capacity a"
  "ar_capacity (fst (declare_gap a)) = ar_capacity a" "ar_capacity (arb_start f a) = ar_capacity a"
  by (simp_all add: arb_store_def keep_after_gap_def declare_gap_def arb_start_def Let_def split: option.splits)

lemma accept_capacity: "ar_capacity (fst (accept arm d a)) = ar_capacity a"
proof -
  have "ar_capacity (fst (accept_range m f c d a)) = ar_capacity a" for m f c a
    using keep_capacity(3) by (auto simp: accept_range_def Let_def case_prod_beta split: option.splits)
  then show ?thesis by (simp add: accept_def Let_def split: outcome.splits prod.splits)
qed

lemma drain_capacity: "ar_capacity (fst (drain_ready a)) = ar_capacity a"
proof (induction a rule: drain_ready.induct)
  case (1 a)
  show ?case using 1 by (cases "find_slot_covering (ar_next_expected a) a")
    (simp_all add: drain_ready.simps [of a] Let_def case_prod_beta drain_slot_def)
qed

definition slot_of :: "(nat \<Rightarrow> nat) \<Rightarrow> (nat \<Rightarrow> bytes \<Rightarrow> bool) \<Rightarrow> slot \<Rightarrow> nat \<Rightarrow> bool" where
  "slot_of B carries s k \<longleftrightarrow> sl_occupied s \<and> sl_first s = B k \<and> sl_count s = B (Suc k) - B k \<and>
     carries k (take (sl_len s) (sl_buf s))"

definition window_holds :: "(nat \<Rightarrow> nat) \<Rightarrow> (nat \<Rightarrow> bytes \<Rightarrow> bool) \<Rightarrow> nat \<Rightarrow> slot list \<Rightarrow> nat set \<Rightarrow> bool" where
  "window_holds B carries L w H \<longleftrightarrow> H = {k. \<exists>s\<in>set w. slot_of B carries s k} \<and>
     (\<forall>s\<in>set w. sl_occupied s \<longrightarrow> (\<exists>k. slot_of B carries s k)) \<and> (\<forall>s\<in>set w. L \<le> length (sl_buf s))"

text \<open>The arbitrator stands before batch \<open>n\<close> and holds the batches \<open>H\<close>.\<close>

definition arb_at :: "(nat \<Rightarrow> nat) \<Rightarrow> (nat \<Rightarrow> bytes \<Rightarrow> bool) \<Rightarrow> nat \<Rightarrow> arbitrator \<Rightarrow> nat \<Rightarrow> nat set \<Rightarrow> bool" where
  "arb_at B carries L a n H \<longleftrightarrow> arb_inv a \<and> ar_started a \<and> ar_next_expected a = B n \<and>
     window_holds B carries L (ar_window a) H \<and>
     ar_first_sequence a + ar_messages_delivered a + ar_messages_missed a = B n \<and>
     ar_gaps_recorded a \<le> ar_messages_missed a \<and> (ar_gaps_recorded a = 0 \<longrightarrow> ar_messages_missed a = 0) \<and>
     ar_state a = (if ar_gaps_recorded a = 0 then Live else Gapped)"

lemma distinct_filter_nth:
  assumes "distinct (map f (filter P xs))" "i < length xs" "j < length xs" "P (xs ! i)" "P (xs ! j)" "f (xs ! i) = f (xs ! j)"
  shows "i = j"
  using assms
proof (induction xs arbitrary: i j)
  case (Cons x xs)
  then show ?case by (cases i; cases j) (auto simp: image_iff split: if_splits)
qed simp

lemma set_update_iff:
  assumes "i < length w"
  shows "t \<in> set (w[i := x]) \<longleftrightarrow> t = x \<or> (\<exists>j<length w. j \<noteq> i \<and> t = w ! j)"
proof
  assume "t \<in> set (w[i := x])"
  then obtain j where "j < length w" "t = w[i := x] ! j" by (auto simp: in_set_conv_nth)
  then show "t = x \<or> (\<exists>j<length w. j \<noteq> i \<and> t = w ! j)" by (cases "j = i") auto
next
  assume "t = x \<or> (\<exists>j<length w. j \<noteq> i \<and> t = w ! j)"
  then show "t \<in> set (w[i := x])"
    using assms set_update_memI [OF assms] by (metis length_list_update nth_list_update_neq nth_mem)
qed

definition same_progress :: "arbitrator \<Rightarrow> arbitrator \<Rightarrow> bool" where
  "same_progress a a' \<longleftrightarrow> ar_started a' = ar_started a \<and> ar_next_expected a' = ar_next_expected a \<and>
     ar_first_sequence a' = ar_first_sequence a \<and> ar_messages_delivered a' = ar_messages_delivered a \<and>
     ar_messages_missed a' = ar_messages_missed a \<and> ar_gaps_recorded a' = ar_gaps_recorded a \<and> ar_state a' = ar_state a"

locale aligned_stream =
  fixes B :: "nat \<Rightarrow> nat" and N :: nat and L :: nat and carries :: "nat \<Rightarrow> bytes \<Rightarrow> bool"
  assumes B_step: "k < N \<Longrightarrow> B k < B (Suc k)"
    and B_bound: "B N \<le> u64_max"
    and carries_range: "carries k d \<Longrightarrow> k < N \<and> length d \<le> L"
    and carries_header: "carries k d \<Longrightarrow> PacketHeader_wrap d = Ok d \<and> PacketHeader_first_sequence d = Ok (B k) \<and>
       PacketHeader_message_count d = Ok (B (Suc k) - B k)"
begin

lemma B_less: "i < j \<Longrightarrow> j \<le> N \<Longrightarrow> B i < B j"
proof (induction j)
  case (Suc j)
  then have "B j < B (Suc j)" by (intro B_step) simp
  then show ?case using Suc by (cases "i = j") auto
qed simp

lemma B_le: "i \<le> j \<Longrightarrow> j \<le> N \<Longrightarrow> B i \<le> B j"
  using B_less [of i j] by (cases "i = j") auto

lemma B_eq_iff: "i \<le> N \<Longrightarrow> j \<le> N \<Longrightarrow> B i = B j \<longleftrightarrow> i = j"
  using B_less [of i j] B_less [of j i] by (metis less_irrefl linorder_neqE_nat)

lemma B_max: "i \<le> N \<Longrightarrow> B i \<le> u64_max"
  using B_le [of i N] B_bound by simp

lemma B_end: "k < N \<Longrightarrow> B k + (B (Suc k) - B k) = B (Suc k)"
  using B_step [of k] by simp

lemma slot_of_range: "slot_of B carries s k \<Longrightarrow> k < N"
  using carries_range by (auto simp: slot_of_def)

lemma slot_of_unique: "slot_of B carries s k \<Longrightarrow> slot_of B carries s j \<Longrightarrow> k = j"
  using B_eq_iff [of k j] slot_of_range [of s k] slot_of_range [of s j] by (auto simp: slot_of_def)

lemma slot_covers_iff:
  assumes "slot_of B carries s k" "n \<le> N"
  shows "slot_covers (B n) s \<longleftrightarrow> k = n"
proof -
  have k: "k < N" using assms(1) by (rule slot_of_range)
  have "wrap_add_u64 (sl_first s) (sl_count s) = B (Suc k)"
    using assms(1) B_end [OF k] B_max [of "Suc k"] k by (simp add: slot_of_def)
  then have "slot_covers (B n) s \<longleftrightarrow> B k \<le> B n \<and> B n < B (Suc k)"
    using assms(1) by (simp add: slot_covers_def slot_of_def)
  also have "\<dots> \<longleftrightarrow> k = n"
    using k assms(2) B_less [of n k] B_le [of "Suc k" n] B_step [of k]
    by (metis Suc_leI less_imp_le_nat linorder_neqE_nat not_le order_refl)
  finally show ?thesis .
qed

lemma holds_range: "window_holds B carries L w H \<Longrightarrow> H \<subseteq> {..<N}"
  using slot_of_range by (auto simp: window_holds_def)

lemma holds_firsts: "window_holds B carries L w H \<Longrightarrow> B ` H = set (map sl_first (filter sl_occupied w))"
proof -
  assume w: "window_holds B carries L w H"
  show ?thesis
  proof (intro set_eqI iffI)
    fix x assume "x \<in> B ` H"
    then obtain s k where "s \<in> set w" "slot_of B carries s k" "x = B k" using w by (auto simp: window_holds_def)
    then show "x \<in> set (map sl_first (filter sl_occupied w))" by (auto simp: slot_of_def image_iff)
  next
    fix x assume "x \<in> set (map sl_first (filter sl_occupied w))"
    then obtain s where s: "s \<in> set w" "sl_occupied s" "x = sl_first s" by auto
    then obtain k where "slot_of B carries s k" using w by (auto simp: window_holds_def)
    then show "x \<in> B ` H" using s w by (auto simp: window_holds_def slot_of_def)
  qed
qed

lemma at_finite: "arb_at B carries L a n H \<Longrightarrow> finite H \<and> H \<subseteq> {..<N} \<and> card H = ar_occupied a"
proof -
  assume at: "arb_at B carries L a n H"
  then have w: "window_holds B carries L (ar_window a) H" by (simp add: arb_at_def)
  have sub: "H \<subseteq> {..<N}" by (rule holds_range [OF w])
  then have fin: "finite H" using finite_subset by blast
  have "inj_on B H" using sub B_eq_iff by (auto simp: inj_on_def subset_iff less_imp_le)
  then have "card H = card (set (map sl_first (filter sl_occupied (ar_window a))))"
    unfolding holds_firsts [OF w, symmetric] by (simp add: card_image)
  also have "\<dots> = length (filter sl_occupied (ar_window a))"
    using at distinct_card [of "map sl_first (filter sl_occupied (ar_window a))"] by (simp add: arb_at_def arb_inv_def)
  finally show ?thesis using sub fin at by (simp add: arb_at_def arb_inv_def window_load_def)
qed

lemma find_slot_holds:
  assumes "window_holds B carries L (ar_window a) H" "k < N"
  shows "find_slot (B k) a = None \<longleftrightarrow> k \<notin> H"
proof -
  have "B k \<in> B ` H \<longleftrightarrow> k \<in> H" using holds_range [OF assms(1)] assms(2) B_eq_iff by (auto simp: image_iff subset_iff)
  then show ?thesis unfolding holds_firsts [OF assms(1)] by (auto simp: find_slot_def position_of_None_iff image_iff)
qed

lemma covering_holds:
  assumes w: "window_holds B carries L (ar_window a) H" and n: "n \<le> N"
  shows "find_slot_covering (B n) a = None \<longleftrightarrow> n \<notin> H"
proof -
  have "slot_covers (B n) s \<longleftrightarrow> slot_of B carries s n" if s: "s \<in> set (ar_window a)" for s
  proof
    assume c: "slot_covers (B n) s"
    then obtain k where "slot_of B carries s k" using w s by (auto simp: window_holds_def slot_covers_def)
    then show "slot_of B carries s n" using slot_covers_iff n c by blast
  qed (use slot_covers_iff n in blast)
  then show ?thesis using w by (auto simp: window_holds_def find_slot_covering_def position_of_None_iff)
qed

text \<open>Clearing the slot of batch \<open>n\<close>.\<close>

lemma holds_clear:
  assumes w: "window_holds B carries L w H" and i: "i < length w" "slot_of B carries (w ! i) n"
    and d: "distinct (map sl_first (filter sl_occupied w))"
  shows "window_holds B carries L (w[i := (w ! i)\<lparr>sl_occupied := False\<rparr>]) (H - {n})"
proof -
  let ?w = "w[i := (w ! i)\<lparr>sl_occupied := False\<rparr>]"
  have occ: "s \<in> set ?w \<and> sl_occupied s \<longleftrightarrow> (\<exists>j<length w. j \<noteq> i \<and> s = w ! j \<and> sl_occupied s)" for s
    unfolding set_update_iff [OF i(1)] by auto
  have other: "k \<noteq> n" if "j < length w" "j \<noteq> i" "slot_of B carries (w ! j) k" for j k
    using distinct_filter_nth [OF d that(1) i(1)] that i(2) by (auto simp: slot_of_def)
  have "H - {n} = {k. \<exists>s\<in>set ?w. slot_of B carries s k}"
  proof (intro set_eqI iffI)
    fix k assume k: "k \<in> H - {n}"
    then obtain j where j: "j < length w" "slot_of B carries (w ! j) k" using w by (auto simp: window_holds_def in_set_conv_nth)
    then have "j \<noteq> i" using k i(2) slot_of_unique by blast
    then have "w ! j \<in> set ?w" using occ [of "w ! j"] j by (auto simp: slot_of_def)
    then show "k \<in> {k. \<exists>s\<in>set ?w. slot_of B carries s k}" using j(2) by blast
  next
    fix k assume "k \<in> {k. \<exists>s\<in>set ?w. slot_of B carries s k}"
    then obtain s where s: "s \<in> set ?w" "slot_of B carries s k" by blast
    then have "s \<in> set ?w \<and> sl_occupied s" by (simp add: slot_of_def)
    then obtain j where "j < length w" "j \<noteq> i" "s = w ! j" unfolding occ by blast
    with s(2) have "j < length w" "j \<noteq> i" "slot_of B carries (w ! j) k" by auto
    then show "k \<in> H - {n}" using w other by (auto simp: window_holds_def)
  qed
  moreover have "\<forall>s\<in>set ?w. sl_occupied s \<longrightarrow> (\<exists>k. slot_of B carries s k)"
    using w occ by (metis nth_mem window_holds_def)
  moreover have "\<forall>s\<in>set ?w. L \<le> length (sl_buf s)"
    using w i(1) set_update_subset_insert [of w i "(w ! i)\<lparr>sl_occupied := False\<rparr>"] by (auto simp: window_holds_def)
  ultimately show ?thesis by (simp add: window_holds_def)
qed

text \<open>Storing batch \<open>k\<close> in a free slot.\<close>

lemma holds_store:
  assumes w: "window_holds B carries L (ar_window a) H" and i: "free_slot a = Some i" and d: "carries k d"
  shows "window_holds B carries L (ar_window (arb_store i arm (B k) (B (Suc k) - B k) d a)) (insert k H)"
proof -
  have free: "i < length (ar_window a)" "\<not> sl_occupied (ar_window a ! i)"
    using position_of_Some i by (auto simp: free_slot_def)
  have len: "length d \<le> length (sl_buf (ar_window a ! i))"
    using w carries_range [OF d] free(1) by (auto simp: window_holds_def intro: le_trans)
  define s where "s = (ar_window a ! i)\<lparr>sl_buf := d @ drop (length d) (sl_buf (ar_window a ! i)), sl_len := length d,
      sl_first := B k, sl_count := B (Suc k) - B k, sl_arm := arm, sl_occupied := True\<rparr>"
  have ws: "ar_window (arb_store i arm (B k) (B (Suc k) - B k) d a) = (ar_window a)[i := s]"
    using len by (simp add: arb_store_def Let_def s_def min_def)
  have s: "slot_of B carries s k" "length (sl_buf s) = length (sl_buf (ar_window a ! i))"
    using d len by (simp_all add: slot_of_def s_def)
  have mem: "t \<in> set ((ar_window a)[i := s]) \<longleftrightarrow> t = s \<or> (\<exists>j<length (ar_window a). j \<noteq> i \<and> t = ar_window a ! j)" for t
    by (rule set_update_iff [OF free(1)])
  have H: "m \<in> H \<longleftrightarrow> (\<exists>j<length (ar_window a). j \<noteq> i \<and> slot_of B carries (ar_window a ! j) m)" for m
  proof -
    have "\<not> slot_of B carries (ar_window a ! i) m" using free(2) by (simp add: slot_of_def)
    then have "(\<exists>t\<in>set (ar_window a). slot_of B carries t m) \<longleftrightarrow>
        (\<exists>j<length (ar_window a). j \<noteq> i \<and> slot_of B carries (ar_window a ! j) m)" by (metis in_set_conv_nth)
    then show ?thesis using w by (simp add: window_holds_def)
  qed
  have "(\<exists>t\<in>set ((ar_window a)[i := s]). slot_of B carries t m) \<longleftrightarrow> m = k \<or> m \<in> H" for m
    unfolding H Bex_def mem using s(1) slot_of_unique by blast
  then have "insert k H = {m. \<exists>t\<in>set ((ar_window a)[i := s]). slot_of B carries t m}" by blast
  moreover have "\<forall>t\<in>set ((ar_window a)[i := s]). sl_occupied t \<longrightarrow> (\<exists>m. slot_of B carries t m)"
    using w mem s(1) by (auto simp: window_holds_def)
  moreover have "\<forall>t\<in>set ((ar_window a)[i := s]). L \<le> length (sl_buf t)"
    using w mem s(2) free(1) by (auto simp: window_holds_def)
  ultimately show ?thesis by (simp add: window_holds_def ws)
qed

lemma at_wrap_up:
  assumes at: "arb_at B carries L a n H" and inv: "arb_inv a'" and w: "window_holds B carries L (ar_window a') H'"
    and p: "same_progress a a'" and n: "n < N"
  shows "arb_at B carries L (arb_deliver (B n) (B (Suc n) - B n) a') (Suc n) H'"
proof -
  have e: "wrap_add_u64 (B n) (B (Suc n) - B n) = B (Suc n)" using B_end [OF n] B_max [of "Suc n"] n by simp
  have "ar_messages_delivered a + (B (Suc n) - B n) \<le> u64_max"
    using at B_max [of "Suc n"] B_end [OF n] n unfolding arb_at_def by linarith
  then have md: "wrap_add_u64 (ar_messages_delivered a) (B (Suc n) - B n) = ar_messages_delivered a + (B (Suc n) - B n)"
    by (rule wrap_add_u64_exact)
  let ?d = "arb_deliver (B n) (B (Suc n) - B n) a'"
  have f: "ar_started ?d = ar_started a" "ar_next_expected ?d = B (Suc n)" "ar_first_sequence ?d = ar_first_sequence a"
      "ar_messages_delivered ?d = ar_messages_delivered a + (B (Suc n) - B n)" "ar_messages_missed ?d = ar_messages_missed a"
      "ar_gaps_recorded ?d = ar_gaps_recorded a" "ar_state ?d = (if ar_state a \<noteq> Gapped then Live else ar_state a)"
    using p at md e by (simp_all add: arb_deliver_def Let_def same_progress_def arb_at_def)
  have "ar_first_sequence a + (ar_messages_delivered a + (B (Suc n) - B n)) + ar_messages_missed a = B (Suc n)"
    using at B_step [OF n] unfolding arb_at_def by linarith
  then show ?thesis using at w arb_inv_deliver [OF inv, of "B n" "B (Suc n) - B n"]
    unfolding arb_at_def f op_window by auto
qed

lemma drain_slot_at:
  assumes at: "arb_at B carries L a n H" and i: "i < length (ar_window a)" "slot_of B carries (ar_window a ! i) n"
  shows "arb_at B carries L (drain_slot i a) (Suc n) (H - {n})"
proof -
  have n: "n < N" using i(2) by (rule slot_of_range)
  have inv: "arb_inv a" and w: "window_holds B carries L (ar_window a) H"
    and d: "distinct (map sl_first (filter sl_occupied (ar_window a)))"
    using at by (auto simp: arb_at_def arb_inv_def)
  have s: "sl_first (ar_window a ! i) = B n" "sl_count (ar_window a ! i) = B (Suc n) - B n" "sl_occupied (ar_window a ! i)"
    using i(2) by (auto simp: slot_of_def)
  let ?b = "bump_arm (sl_arm (ar_window a ! i)) (count_first (B (Suc n) - B n))
      (a\<lparr>ar_window := (ar_window a)[i := (ar_window a ! i)\<lparr>sl_occupied := False\<rparr>], ar_occupied := wrap_sub_u64 (ar_occupied a) 1\<rparr>)"
  have "arb_inv ?b" by (intro arb_inv_bump arb_inv_clear_slot inv i s)
  moreover have "window_holds B carries L (ar_window ?b) (H - {n})" using holds_clear [OF w i d] by simp
  moreover have "same_progress a ?b" by (simp add: same_progress_def bump_arm_def)
  ultimately show ?thesis unfolding drain_slot_def Let_def s by (rule at_wrap_up [OF at _ _ _ n])
qed

lemma drain_ready_at:
  assumes "arb_at B carries L a n H" "n \<le> N" "\<forall>k\<in>H. n \<le> k"
  shows "\<exists>a' out. drain_ready a = (a', out) \<and> arb_at B carries L a' (run_end n H) (H - {..<run_end n H}) \<and>
     list_all2 (\<lambda>k x. carries k (snd (snd x))) [n..<run_end n H] out \<and> run_end n H \<le> N \<and>
     ar_gaps_recorded a' = ar_gaps_recorded a"
  using assms
proof (induction a arbitrary: n H rule: drain_ready.induct)
  case (1 a)
  note at = 1(2)
  have w: "window_holds B carries L (ar_window a) H" and ne: "ar_next_expected a = B n" using at by (auto simp: arb_at_def)
  have fin: "finite H" "H \<subseteq> {..<N}" using at_finite [OF at] by auto
  show ?case
  proof (cases "n \<in> H")
    case False
    then have "run_end n H = n" "H - {..<n} = H" using run_end_eqI 1(4) by (auto simp: not_less)
    then show ?thesis using covering_holds [OF w 1(3)] False at ne 1(3) by (simp add: drain_ready.simps)
  next
    case True
    then obtain i where c: "find_slot_covering (B n) a = Some i" using covering_holds [OF w 1(3)] by auto
    then have i: "i < length (ar_window a)" "slot_covers (B n) (ar_window a ! i)"
      using position_of_Some by (auto simp: find_slot_covering_def)
    then obtain k where "slot_of B carries (ar_window a ! i) k" using w by (auto simp: window_holds_def slot_covers_def)
    then have k: "slot_of B carries (ar_window a ! i) n" using slot_covers_iff 1(3) i(2) by blast
    have n: "n < N" using k by (rule slot_of_range)
    have at': "arb_at B carries L (drain_slot i a) (Suc n) (H - {n})" by (rule drain_slot_at [OF at i(1) k])
    have "\<forall>j\<in>H - {n}. Suc n \<le> j" using 1(4) by (simp add: Suc_le_eq le_neq_implies_less)
    from 1(1) [OF c [folded ne] refl at' _ this] n obtain a' out where r:
        "drain_ready (drain_slot i a) = (a', out)"
        "arb_at B carries L a' (run_end (Suc n) (H - {n})) (H - {n} - {..<run_end (Suc n) (H - {n})})"
        "list_all2 (\<lambda>k x. carries k (snd (snd x))) [Suc n..<run_end (Suc n) (H - {n})] out"
        "run_end (Suc n) (H - {n}) \<le> N" "ar_gaps_recorded a' = ar_gaps_recorded (drain_slot i a)"
      by auto
    have e: "run_end (Suc n) (H - {n}) = run_end n H" using run_end_step [OF fin(1) True] by simp
    have lt: "n < run_end n H" using run_end_props(1) [of "H - {n}" "Suc n"] fin(1) e by simp
    then have "H - {n} - {..<run_end n H} = H - {..<run_end n H}" by auto
    moreover have "[n..<run_end n H] = n # [Suc n..<run_end n H]" using lt by (rule upt_conv_Cons)
    moreover have "carries n (take (sl_len (ar_window a ! i)) (sl_buf (ar_window a ! i)))" using k by (simp add: slot_of_def)
    moreover have "ar_gaps_recorded (drain_slot i a) = ar_gaps_recorded a"
      by (simp add: drain_slot_def Let_def arb_deliver_def bump_arm_def)
    ultimately show ?thesis using r c ne e by (simp add: drain_ready.simps [of a] Let_def)
  qed
qed

lemma at_same:
  "arb_at B carries L a n H \<Longrightarrow> arb_inv a' \<Longrightarrow> ar_window a' = ar_window a \<Longrightarrow> same_progress a a' \<Longrightarrow> arb_at B carries L a' n H"
  by (simp add: arb_at_def same_progress_def)

lemma at_bump: "arb_at B carries L a n H \<Longrightarrow> arb_at B carries L (bump_arm i f a) n H"
  by (rule at_same [where a = a]) (auto simp: arb_at_def same_progress_def bump_arm_def intro: arb_inv_bump [unfolded bump_arm_def])

lemma at_seen: "arb_at B carries L a n H \<Longrightarrow> arb_at B carries L (a\<lparr>ar_highest_seen := h\<rparr>) n H"
  by (rule at_same [where a = a]) (auto simp: arb_at_def same_progress_def arb_inv_def window_load_def)

lemma at_store:
  assumes at: "arb_at B carries L a n H" and i: "free_slot a = Some i" and d: "carries k d" "k \<notin> H" and arm: "arm < 2"
  shows "arb_at B carries L (arb_store i arm (B k) (B (Suc k) - B k) d a) n (insert k H)"
proof -
  have w: "window_holds B carries L (ar_window a) H" and inv: "arb_inv a" using at by (auto simp: arb_at_def)
  have "find_slot (B k) a = None" using find_slot_holds [OF w] carries_range [OF d(1)] d(2) by simp
  then have "arb_inv (arb_store i arm (B k) (B (Suc k) - B k) d a)" using arb_inv_store [OF inv i _ arm] by simp
  then show ?thesis using at holds_store [OF w i d(1), of arm] by (auto simp: arb_at_def) (auto simp: arb_store_def Let_def)
qed

lemma gap_target_at:
  assumes at: "arb_at B carries L a n H" and H: "H \<noteq> {}"
  shows "gap_target a = B (Min H)"
proof -
  have w: "window_holds B carries L (ar_window a) H" using at by (simp add: arb_at_def)
  have fin: "finite H" "H \<subseteq> {..<N}" using at_finite [OF at] by auto
  have "set (map sl_first (filter sl_occupied (ar_window a))) \<noteq> {}" using H unfolding holds_firsts [OF w, symmetric] by simp
  then obtain f fs where f: "map sl_first (filter sl_occupied (ar_window a)) = f # fs"
    by (cases "map sl_first (filter sl_occupied (ar_window a))") auto
  have "gap_target a = Min (set (map sl_first (filter sl_occupied (ar_window a))))"
    unfolding gap_target_def f list.case Min.set_eq_fold ..
  also have "\<dots> = Min (B ` H)" by (simp only: holds_firsts [OF w])
  also have "\<dots> = B (Min H)"
  proof (rule Min_eqI)
    show "finite (B ` H)" "B (Min H) \<in> B ` H" using fin H Min_in by auto
    fix y assume "y \<in> B ` H"
    then obtain k where "k \<in> H" "y = B k" by blast
    then show "B (Min H) \<le> y" using B_le [of "Min H" k] fin Min_le [OF fin(1)] by (auto simp: subset_iff)
  qed
  finally show ?thesis .
qed

lemma declare_gap_at:
  assumes at: "arb_at B carries L a n H" and H: "H \<noteq> {}" "\<forall>k\<in>H. n < k"
  shows "\<exists>a'. declare_gap a = (a', \<lparr>gap_from = B n, gap_through = B (Min H) - 1\<rparr>) \<and> arb_at B carries L a' (Min H) H \<and>
     ar_window a' = ar_window a \<and> ar_gaps_recorded a' = ar_gaps_recorded a + 1"
proof -
  let ?g = "\<lparr>gap_from = B n, gap_through = B (Min H) - 1\<rparr>"
  have m: "Min H \<in> H" "n < Min H" "Min H < N" using at_finite [OF at] H Min_in by (auto simp: subset_iff)
  have lt: "B n < B (Min H)" "B (Min H) \<le> u64_max" using B_less B_max m by auto
  have gm: "gap_messages ?g = B (Min H) - B n" using lt by (simp add: gap_messages_def)
  have ar: "ar_next_expected a = B n" "ar_first_sequence a + ar_messages_delivered a + ar_messages_missed a = B n"
      "ar_gaps_recorded a \<le> ar_messages_missed a" and inv: "arb_inv a"
    using at by (auto simp: arb_at_def)
  have dg: "declare_gap a = ((record_gap ?g a)\<lparr>ar_state := Gapped, ar_next_expected := B (Min H)\<rparr>, ?g)"
    using max_absorb1 [of "B n" "B (Min H) - 1"] lt
    unfolding declare_gap_def Let_def gap_target_at [OF at H(1)] ar(1) by simp
  have gr: "ar_gaps_recorded (record_gap ?g a) = ar_gaps_recorded a + 1"
    using ar lt by (simp add: record_gap_def Let_def)
  have "wrap_add_u64 (ar_messages_missed a) (gap_messages ?g) = ar_messages_missed a + (B (Min H) - B n)"
    unfolding gm using ar lt by (intro wrap_add_u64_exact) linarith
  then have "arb_at B carries L ((record_gap ?g a)\<lparr>ar_state := Gapped, ar_next_expected := B (Min H)\<rparr>) (Min H) H"
    using at ar lt gr conjunct1 [OF arb_inv_declare [OF inv dg]] by (auto simp: arb_at_def)
  then show ?thesis using dg gr by simp
qed

lemma accept_header:
  assumes "carries k d"
  shows "accept arm d a = accept_range (arm mod 2) (B k) (B (Suc k) - B k) d (bump_arm (arm mod 2) (count_received (length d)) a)"
  using carries_header [OF assms] by (simp add: accept_def Let_def)

lemma accept_at:
  assumes at: "arb_at B carries L a n H" and ok: "spec_ok (ar_capacity a) (n, H)" and d: "carries k d" and n: "n \<le> N"
  shows "\<exists>a1 r. accept arm d a = (a1, Ok r) \<and>
    (if k < n \<or> k \<in> H then r = Duplicate \<and> arb_at B carries L a1 n H \<and> ar_gaps_recorded a1 = ar_gaps_recorded a
     else if k = n then r = Ready (B n) (B (Suc n) - B n) \<and> arb_at B carries L a1 (Suc n) H \<and> ar_gaps_recorded a1 = ar_gaps_recorded a
     else if card H < ar_capacity a then r = Buffered \<and> arb_at B carries L a1 n (insert k H) \<and> ar_gaps_recorded a1 = ar_gaps_recorded a
     else r = ForcedGap \<lparr>gap_from = B n, gap_through = B (Min H) - 1\<rparr> \<and>
        arb_at B carries L a1 (Min H) (if k < Min H then H else insert k H) \<and> ar_gaps_recorded a1 = ar_gaps_recorded a + 1)"
proof -
  have k: "k < N" using carries_range [OF d] by simp
  have H: "finite H" "card H = ar_occupied a" "\<forall>j\<in>H. n < j" "card H \<le> ar_capacity a"
    using at_finite [OF at] ok by (auto simp: spec_ok_def)
  define m where "m = arm mod 2"
  have m: "m < 2" by (simp add: m_def)
  define b where "b = (bump_arm m (count_received (length d)) a)
      \<lparr>ar_highest_seen := max (ar_highest_seen (bump_arm m (count_received (length d)) a)) (B (Suc k))\<rparr>"
  have ab: "arb_at B carries L b n H" unfolding b_def by (intro at_seen at_bump at)
  have bf: "ar_occupied b = card H" "ar_capacity b = ar_capacity a" "ar_gaps_recorded b = ar_gaps_recorded a"
    using H by (simp_all add: b_def) (simp add: bump_arm_def)
  have bn: "ar_next_expected b = B n" "ar_started b" and wb: "window_holds B carries L (ar_window b) H" and ib: "arb_inv b"
    using ab by (auto simp: arb_at_def)
  have e: "sat_add_u64 (B k) (B (Suc k) - B k) = B (Suc k)" "B (Suc k) - B k \<noteq> 0"
    using B_end [OF k] B_max [of "Suc k"] B_step [OF k] k by auto
  have st: "arb_start (B k) b = b" using bn by (simp add: arb_start_def)
  have acc: "accept arm d a = (if B (Suc k) \<le> B n then (bump_arm m count_duplicate b, Ok Duplicate)
        else if B k \<le> B n
        then (arb_deliver (B k) (B (Suc k) - B k) (bump_arm m (count_first (B (Suc k) - B k)) b), Ok (Ready (B k) (B (Suc k) - B k)))
        else if find_slot (B k) b \<noteq> None then (bump_arm m count_duplicate b, Ok Duplicate)
        else if ar_occupied b < ar_capacity b
        then case free_slot b of
            None \<Rightarrow> (b, Panic)
          | Some i \<Rightarrow> (bump_arm m count_buffered (arb_store i m (B k) (B (Suc k) - B k) d b), Ok Buffered)
        else case declare_gap b of (b', g) \<Rightarrow> (keep_after_gap m (B k) (B (Suc k) - B k) d b', Ok (ForcedGap g)))"
    unfolding accept_header [OF d] accept_range_def e(1) m_def [symmetric] Let_def b_def [symmetric] st bn
    using e(2) by simp
  have c1: "B (Suc k) \<le> B n \<longleftrightarrow> k < n" using B_le [of "Suc k" n] B_less [of n "Suc k"] n k by (metis Suc_leI not_le not_less_eq)
  have c2: "B k \<le> B n \<longleftrightarrow> k \<le> n" using B_le [of k n] B_less [of n k] n k by (metis less_imp_le not_le)
  have c3: "find_slot (B k) b \<noteq> None \<longleftrightarrow> k \<in> H" using find_slot_holds [OF wb k] by simp
  consider "k < n" | "k = n" | "n < k" "k \<in> H" | "n < k" "k \<notin> H" "card H < ar_capacity a" | "n < k" "k \<notin> H" "card H = ar_capacity a"
    using H(4) by linarith
  then show ?thesis
  proof cases
    case 1
    then show ?thesis using acc c1 at_bump [OF ab, of m count_duplicate] bf(3) by (simp add: bump_arm_def)
  next
    case 2
    have "n \<notin> H" using H(3) by auto
    moreover have "arb_at B carries L (arb_deliver (B n) (B (Suc n) - B n) (bump_arm m (count_first (B (Suc n) - B n)) b)) (Suc n) H"
      using k 2 wb arb_inv_bump [OF ib, of m "count_first (B (Suc n) - B n)"]
      by (intro at_wrap_up [OF ab]) (auto simp: same_progress_def bump_arm_def)
    ultimately show ?thesis using acc c1 c2 2 bf(3) by (simp add: arb_deliver_def bump_arm_def Let_def)
  next
    case 3
    then show ?thesis using acc c1 c2 c3 at_bump [OF ab, of m count_duplicate] bf(3) by (simp add: bump_arm_def)
  next
    case 4
    then obtain i where i: "free_slot b = Some i" using free_slot_exists [OF ib] bf by auto
    have "arb_at B carries L (bump_arm m count_buffered (arb_store i m (B k) (B (Suc k) - B k) d b)) n (insert k H)"
      by (intro at_bump at_store [OF ab i d 4(2) m])
    then show ?thesis using acc c1 c2 c3 4 bf i by (simp add: bump_arm_def arb_store_def Let_def)
  next
    case 5
    have ne: "H \<noteq> {}" using 5(3) at by (auto simp: arb_at_def arb_inv_def)
    obtain b' where g: "declare_gap b = (b', \<lparr>gap_from = B n, gap_through = B (Min H) - 1\<rparr>)"
        "arb_at B carries L b' (Min H) H" "ar_window b' = ar_window b" "ar_gaps_recorded b' = ar_gaps_recorded b + 1"
      using declare_gap_at [OF ab ne H(3)] by blast
    have mn: "Min H \<in> H" "Min H < N" using Min_in [OF H(1) ne] at_finite [OF at] by auto
    have "k \<noteq> Min H" using mn(1) 5(2) by auto
    have bn': "ar_next_expected b' = B (Min H)" and ib': "arb_inv b'" using g(2) by (auto simp: arb_at_def)
    have keep: "arb_at B carries L (keep_after_gap m (B k) (B (Suc k) - B k) d b') (Min H) (if k < Min H then H else insert k H) \<and>
        ar_gaps_recorded (keep_after_gap m (B k) (B (Suc k) - B k) d b') = ar_gaps_recorded b'"
    proof (cases "k < Min H")
      case True
      then have "B (Suc k) \<le> B (Min H)" using B_le [of "Suc k" "Min H"] mn(2) by simp
      then show ?thesis using True at_bump [OF g(2), of m count_duplicate] e(1) bn' by (simp add: keep_after_gap_def) (simp add: bump_arm_def)
    next
      case False
      then have "\<not> B (Suc k) \<le> B (Min H)" "\<not> B k \<le> B (Min H)"
        using B_less [of "Min H" k] B_less [of "Min H" "Suc k"] k \<open>k \<noteq> Min H\<close> by auto
      moreover have "ar_occupied b' < ar_capacity b' + 1" using 5(3) bf arb_inv_declare [OF ib g(1)] by linarith
      then obtain i where i: "free_slot b' = Some i" using free_slot_exists [OF ib'] by blast
      moreover have "arb_at B carries L (bump_arm m count_buffered (arb_store i m (B k) (B (Suc k) - B k) d b')) (Min H) (insert k H)"
        by (intro at_bump at_store [OF g(2) i d 5(2) m])
      ultimately show ?thesis using False e(1) bn'
        by (simp add: keep_after_gap_def) (simp add: bump_arm_def arb_store_def Let_def)
    qed
    then show ?thesis using acc c1 c2 c3 5 bf g by auto
  qed
qed

text \<open>A round of the arbitrator is a round of the abstract machine, and hands on the datagrams of the
  batches it delivers.\<close>

lemma round_at:
  assumes at: "arb_at B carries L a n H" and ok: "spec_ok (ar_capacity a) (n, H)" and d: "carries k d" and n: "n \<le> N"
    and r: "spec_round (ar_capacity a) k (n, H) = (n', H', ks, g)"
  shows "\<exists>a' res out. receive_round arm d a = (a', Ok res, out) \<and> arb_at B carries L a' n' H' \<and> n' \<le> N \<and>
     list_all2 carries ks out \<and> ar_capacity a' = ar_capacity a \<and>
     (case g of None \<Rightarrow> ar_gaps_recorded a' = ar_gaps_recorded a \<and> (\<forall>h. res \<noteq> ForcedGap h)
      | Some (i, j) \<Rightarrow> ar_gaps_recorded a' = ar_gaps_recorded a + 1 \<and>
          res = ForcedGap \<lparr>gap_from = B i, gap_through = B j - 1\<rparr>)"
proof -
  have H: "finite H" "\<forall>j\<in>H. n < j" "card H \<le> ar_capacity a" using ok by (auto simp: spec_ok_def)
  have k: "k < N" using carries_range [OF d] by simp
  have cap: "1 \<le> ar_capacity a" using at by (simp add: arb_at_def arb_inv_def)
  obtain a1 res where acc: "accept arm d a = (a1, Ok res)" and cases:
    "if k < n \<or> k \<in> H then res = Duplicate \<and> arb_at B carries L a1 n H \<and> ar_gaps_recorded a1 = ar_gaps_recorded a
     else if k = n then res = Ready (B n) (B (Suc n) - B n) \<and> arb_at B carries L a1 (Suc n) H \<and> ar_gaps_recorded a1 = ar_gaps_recorded a
     else if card H < ar_capacity a then res = Buffered \<and> arb_at B carries L a1 n (insert k H) \<and> ar_gaps_recorded a1 = ar_gaps_recorded a
     else res = ForcedGap \<lparr>gap_from = B n, gap_through = B (Min H) - 1\<rparr> \<and>
        arb_at B carries L a1 (Min H) (if k < Min H then H else insert k H) \<and> ar_gaps_recorded a1 = ar_gaps_recorded a + 1"
    using accept_at [OF at ok d n, of arm] by blast
  define n1 where "n1 = (if k < n \<or> k \<in> H then n else if k = n then Suc n else if card H < ar_capacity a then n else Min H)"
  define H1 where "H1 = (if k < n \<or> k \<in> H \<or> k = n then H else if card H < ar_capacity a \<or> \<not> k < Min H then insert k H else H)"
  have at1: "arb_at B carries L a1 n1 H1" using cases by (auto simp: n1_def H1_def split: if_splits)
  have mn: "n < Min H \<and> Min H \<in> H" if "\<not> card H < ar_capacity a"
  proof -
    have "H \<noteq> {}" using that cap by auto
    then show ?thesis using H Min_in [OF H(1)] by blast
  qed
  have H1: "\<forall>j\<in>H1. n1 \<le> j" "n1 \<le> N"
    using H mn k n at_finite [OF at] by (auto simp: n1_def H1_def not_less Suc_le_eq subset_iff less_imp_le)
  obtain a2 out where dr: "drain_ready a1 = (a2, out)" "arb_at B carries L a2 (run_end n1 H1) (H1 - {..<run_end n1 H1})"
      "list_all2 (\<lambda>k x. carries k (snd (snd x))) [n1..<run_end n1 H1] out" "run_end n1 H1 \<le> N"
      "ar_gaps_recorded a2 = ar_gaps_recorded a1"
    using drain_ready_at [OF at1 H1(2,1)] by blast
  have cp: "ar_capacity a2 = ar_capacity a" using accept_capacity [of arm d a] drain_capacity [of a1] acc dr(1) by simp
  have rr: "receive_round arm d a = (a2, Ok res, (case res of Ready _ _ \<Rightarrow> [d] | _ \<Rightarrow> []) @ map (\<lambda>x. snd (snd x)) out)"
    by (simp add: receive_round_def acc dr(1))
  have out: "list_all2 carries [n1..<run_end n1 H1] (map (\<lambda>x. snd (snd x)) out)" using dr(3) by (simp add: list_all2_map2)
  have idle: "run_end n K = n" "K - {..<n} = K" if "\<forall>j\<in>K. n < j" for K using that run_end_eqI [of n K] by auto
  have nH: "n \<notin> H" using H(2) by auto
  consider "k < n \<or> k \<in> H" | "k = n" | "n < k" "k \<notin> H" "card H < ar_capacity a" | "n < k" "k \<notin> H" "\<not> card H < ar_capacity a"
    by linarith
  then show ?thesis
  proof cases
    case 1
    then have "n1 = n" "H1 = H" "res = Duplicate" "ar_gaps_recorded a1 = ar_gaps_recorded a" "n' = n" "H' = H" "ks = []" "g = None"
      using cases r by (auto simp: n1_def H1_def spec_round_def)
    then show ?thesis using rr dr out cp idle [OF H(2)] n by simp
  next
    case 2
    then have v: "n1 = Suc n" "H1 = H" "res = Ready (B n) (B (Suc n) - B n)" "ar_gaps_recorded a1 = ar_gaps_recorded a"
        "n' = run_end (Suc n) H" "H' = H - {..<run_end (Suc n) H}" "ks = [n..<run_end (Suc n) H]" "g = None"
      using cases r nH by (auto simp: n1_def H1_def spec_round_def Let_def)
    have "[n..<run_end (Suc n) H] = n # [Suc n..<run_end (Suc n) H]"
      using run_end_props(1) [OF H(1), of "Suc n"] by (intro upt_conv_Cons) simp
    then show ?thesis using rr dr out cp v d 2 by simp
  next
    case 3
    then have v: "n1 = n" "H1 = insert k H" "res = Buffered" "ar_gaps_recorded a1 = ar_gaps_recorded a"
        "n' = n" "H' = insert k H" "ks = []" "g = None"
      using cases r by (auto simp: n1_def H1_def spec_round_def)
    have "\<forall>j\<in>insert k H. n < j" using 3(1) H(2) by simp
    then show ?thesis using rr dr out cp v idle [of "insert k H"] n by simp
  next
    case 4
    define K where "K = (if k < Min H then H else insert k H)"
    have v: "n1 = Min H" "H1 = K" "res = ForcedGap \<lparr>gap_from = B n, gap_through = B (Min H) - 1\<rparr>"
        "ar_gaps_recorded a1 = ar_gaps_recorded a + 1" "n' = run_end (Min H) K" "H' = K - {..<run_end (Min H) K}"
        "ks = [Min H..<run_end (Min H) K]" "g = Some (n, Min H)"
      using 4 cases r by (auto simp: n1_def H1_def K_def spec_round_def Let_def split: if_splits)
    then show ?thesis using rr dr out cp by simp
  qed
qed

lemma first_round:
  assumes d: "carries k d" and a: "arb_inv a" "\<not> ar_started a" "ar_occupied a = 0" "\<forall>s\<in>set (ar_window a). L \<le> length (sl_buf s)"
    and z: "ar_messages_delivered a = 0" "ar_messages_missed a = 0" "ar_gaps_recorded a = 0"
  shows "\<exists>a'. receive_round arm d a = (a', Ok (Ready (B k) (B (Suc k) - B k)), [d]) \<and> arb_at B carries L a' (Suc k) {} \<and>
     ar_capacity a' = ar_capacity a \<and> ar_gaps_recorded a' = 0 \<and> ar_first_sequence a' = B k"
proof -
  have k: "k < N" using carries_range [OF d] by simp
  define b where "b = bump_arm (arm mod 2) (count_received (length d)) a"
  have "filter sl_occupied (ar_window a) = []" using a(1,3) by (simp add: arb_inv_def window_load_def)
  then have w: "window_holds B carries L (ar_window a) {}" using a(4) by (auto simp: window_holds_def slot_of_def filter_empty_conv)
  have ib: "arb_inv b" unfolding b_def by (rule arb_inv_bump [OF a(1)])
  define c where "c = b\<lparr>ar_highest_seen := max (ar_highest_seen b) (B (Suc k)), ar_started := True, ar_first_sequence := B k,
      ar_next_expected := B k, ar_state := Live\<rparr>"
  have ic: "arb_inv c" using ib by (simp add: c_def arb_inv_def window_load_def)
  have ac: "arb_at B carries L c k {}" using ic w z by (simp add: arb_at_def) (simp add: c_def b_def bump_arm_def)
  define a1 where "a1 = arb_deliver (B k) (B (Suc k) - B k) (bump_arm (arm mod 2) (count_first (B (Suc k) - B k)) c)"
  have e: "sat_add_u64 (B k) (B (Suc k) - B k) = B (Suc k)" "B (Suc k) - B k \<noteq> 0" "\<not> B (Suc k) \<le> B k"
    using B_end [OF k] B_max [of "Suc k"] B_step [OF k] k by auto
  have "arb_start (B k) (b\<lparr>ar_highest_seen := max (ar_highest_seen b) (B (Suc k))\<rparr>) = c"
    using a(2) by (simp add: arb_start_def c_def b_def bump_arm_def)
  then have acc: "accept arm d a = (a1, Ok (Ready (B k) (B (Suc k) - B k)))"
    unfolding accept_header [OF d] b_def [symmetric] accept_range_def e(1) Let_def using e(2,3)
    by (simp add: a1_def) (simp add: c_def)
  have cw: "window_holds B carries L (ar_window (bump_arm (arm mod 2) (count_first (B (Suc k) - B k)) c)) {}"
    using w by (simp add: c_def b_def)
  have at1: "arb_at B carries L a1 (Suc k) {}" unfolding a1_def
    by (rule at_wrap_up [OF ac arb_inv_bump [OF ic] cw _ k]) (simp add: same_progress_def bump_arm_def)
  have "find_slot_covering (ar_next_expected a1) a1 = None"
    using covering_holds [of a1 "{}" "Suc k"] at1 k by (simp add: arb_at_def)
  then have "drain_ready a1 = (a1, [])" by (simp add: drain_ready.simps)
  then have "receive_round arm d a = (a1, Ok (Ready (B k) (B (Suc k) - B k)), [d])" by (simp add: receive_round_def acc)
  moreover have "ar_capacity a1 = ar_capacity a" "ar_gaps_recorded a1 = 0" "ar_first_sequence a1 = B k"
    using z by (simp_all add: a1_def arb_deliver_def c_def b_def bump_arm_def Let_def)
  ultimately show ?thesis using at1 by blast
qed

text \<open>Every run: batches come out at most once and in order, and what does not come out lies in a
  declared gap.\<close>

lemma run_in_order:
  assumes "arb_at B carries L a n H" "spec_ok (ar_capacity a) (n, H)" "n \<le> N" "list_all2 (\<lambda>k x. carries k (snd x)) ks xs"
  shows "\<exists>a' n' H' out ds gs. receive_all xs a = (a', out) \<and> arb_at B carries L a' n' H' \<and> n' \<le> N \<and> n \<le> n' \<and>
     list_all2 carries ds out \<and> sorted_wrt (<) ds \<and> ar_gaps_recorded a' = ar_gaps_recorded a + length gs \<and>
     set ds \<union> gap_indices gs = {n..<n'} \<and> set ds \<inter> gap_indices gs = {}"
  using assms
proof (induction xs arbitrary: ks a n H)
  case Nil
  then show ?case by (intro exI [of _ a] exI [of _ n] exI [of _ H] exI [of _ "[]"]) auto
next
  case (Cons x xs)
  obtain arm d where x: "x = (arm, d)" by fastforce
  obtain k ks' where ks: "ks = k # ks'" "carries k d" "list_all2 (\<lambda>k x. carries k (snd x)) ks' xs"
    using Cons.prems(4) x by (cases ks) auto
  obtain n1 H1 ds1 g where r: "spec_round (ar_capacity a) k (n, H) = (n1, H1, ds1, g)" by (metis prod_cases4)
  have cap: "1 \<le> ar_capacity a" using Cons.prems(1) by (simp add: arb_at_def arb_inv_def)
  note so = spec_round_ok [OF Cons.prems(2) cap r]
  obtain a1 res out1 where rr: "receive_round arm d a = (a1, Ok res, out1)" "arb_at B carries L a1 n1 H1" "n1 \<le> N"
      "list_all2 carries ds1 out1" "ar_capacity a1 = ar_capacity a"
      "ar_gaps_recorded a1 = ar_gaps_recorded a + (case g of None \<Rightarrow> 0 | Some _ \<Rightarrow> 1)"
    using round_at [OF Cons.prems(1,2) ks(2) Cons.prems(3) r, of arm] by (auto split: option.splits)
  from Cons.IH [OF rr(2) so(1) [folded rr(5)] rr(3) ks(3)] obtain a' n' H' out ds gs where i:
      "receive_all xs a1 = (a', out)" "arb_at B carries L a' n' H'" "n' \<le> N" "n1 \<le> n'" "list_all2 carries ds out"
      "sorted_wrt (<) ds" "ar_gaps_recorded a' = ar_gaps_recorded a1 + length gs"
      "set ds \<union> gap_indices gs = {n1..<n'}" "set ds \<inter> gap_indices gs = {}"
    by blast
  define gs1 where "gs1 = (case g of None \<Rightarrow> [] | Some p \<Rightarrow> [p])"
  have seg: "set ds1 \<union> gap_indices gs1 = {n..<n1} \<and> set ds1 \<inter> gap_indices gs1 = {} \<and>
      sorted_wrt (<) ds1 \<and> length gs1 = (case g of None \<Rightarrow> 0 | Some _ \<Rightarrow> 1)"
  proof (cases g)
    case None
    then show ?thesis using so(3) by (simp add: gs1_def)
  next
    case (Some p)
    obtain i j where p: "p = (i, j)" by fastforce
    have v: "i = n" "n < j" "j < n1" "ds1 = [j..<n1]" using so(4) [of i j] Some p by auto
    then have "{j..<n1} \<union> {n..<j} = {n..<n1}" "{j..<n1} \<inter> {n..<j} = {}" by auto
    then show ?thesis using v Some p by (simp add: gs1_def)
  qed
  then have seg: "set ds1 \<union> gap_indices gs1 = {n..<n1}" "set ds1 \<inter> gap_indices gs1 = {}" "sorted_wrt (<) ds1"
    "length gs1 = (case g of None \<Rightarrow> 0 | Some _ \<Rightarrow> 1)" by auto
  have below: "set ds1 \<subseteq> {n..<n1}" "gap_indices gs1 \<subseteq> {n..<n1}" "set ds \<subseteq> {n1..<n'}" "gap_indices gs \<subseteq> {n1..<n'}"
    using seg(1) i(8) by blast+
  have "sorted_wrt (<) (ds1 @ ds)" using seg(3) i(6) below(1,3) by (force simp: sorted_wrt_append)
  moreover have "set (ds1 @ ds) \<union> gap_indices (gs1 @ gs) = {n..<n'}"
  proof -
    have "{n..<n'} = {n..<n1} \<union> {n1..<n'}" using so(2) i(4) by auto
    then show ?thesis unfolding set_append gap_indices_simps using seg(1) i(8) by blast
  qed
  moreover have "set (ds1 @ ds) \<inter> gap_indices (gs1 @ gs) = {}"
  proof -
    have "{n..<n1} \<inter> {n1..<n'} = {}" by auto
    then have "set ds1 \<inter> gap_indices gs = {}" "set ds \<inter> gap_indices gs1 = {}"
      using below by blast+
    then show ?thesis using seg(2) i(9) unfolding set_append gap_indices_simps by blast
  qed
  moreover have "receive_all (x # xs) a = (a', out1 @ out)" using rr(1) i(1) by (simp add: x)
  moreover have "list_all2 carries (ds1 @ ds) (out1 @ out)" using rr(4) i(5) by (rule list_all2_appendI)
  moreover have "ar_gaps_recorded a' = ar_gaps_recorded a + length (gs1 @ gs)" using i(7) rr(6) seg(4) by simp
  moreover have "n \<le> n'" using so(2) i(4) by simp
  ultimately show ?case using i(2,3) by blast
qed

lemma run_within_lag:
  assumes "arb_at B carries L a (run_end 0 R) (ahead R)" "run_end 0 R \<le> N" "lag_ok (ar_capacity a) R"
    and "ar_gaps_recorded a = 0" "bounded_lag (ar_capacity a) R ks" "list_all2 (\<lambda>k x. carries k (snd x)) ks xs"
  shows "\<exists>a' out. receive_all xs a = (a', out) \<and> arb_at B carries L a' (run_end 0 (R \<union> set ks)) (ahead (R \<union> set ks)) \<and>
     run_end 0 (R \<union> set ks) \<le> N \<and> list_all2 carries [run_end 0 R..<run_end 0 (R \<union> set ks)] out \<and>
     ar_gaps_recorded a' = 0 \<and> run_end 0 R \<le> run_end 0 (R \<union> set ks)"
  using assms
proof (induction xs arbitrary: ks a R)
  case Nil
  then show ?case by simp
next
  case (Cons x xs)
  obtain arm d where x: "x = (arm, d)" by fastforce
  obtain k ks' where ks: "ks = k # ks'" "carries k d" "list_all2 (\<lambda>k x. carries k (snd x)) ks' xs"
    using Cons.prems(6) x by (cases ks) auto
  have lag: "k \<le> run_end 0 R + ar_capacity a" "bounded_lag (ar_capacity a) (insert k R) ks'" using Cons.prems(5) ks(1) by auto
  note r = lag_round [OF Cons.prems(3) lag(1)]
  note ok = lag_spec_ok [OF Cons.prems(3)]
  obtain a1 res out1 where rr: "receive_round arm d a = (a1, Ok res, out1)"
      "arb_at B carries L a1 (run_end 0 (insert k R)) (ahead (insert k R))" "run_end 0 (insert k R) \<le> N"
      "list_all2 carries [run_end 0 R..<run_end 0 (insert k R)] out1" "ar_capacity a1 = ar_capacity a" "ar_gaps_recorded a1 = 0"
    using round_at [OF Cons.prems(1) ok ks(2) Cons.prems(2) r(1), of arm] Cons.prems(4) by auto
  have le: "run_end 0 R \<le> run_end 0 (insert k R)"
    using spec_round_ok(2) [OF ok _ r(1)] Cons.prems(1) by (simp add: arb_at_def arb_inv_def)
  from Cons.IH [OF rr(2,3) r(2) [folded rr(5)] rr(6) lag(2) [folded rr(5)] ks(3)] obtain a' out where i: "receive_all xs a1 = (a', out)"
      "arb_at B carries L a' (run_end 0 (insert k R \<union> set ks')) (ahead (insert k R \<union> set ks'))"
      "run_end 0 (insert k R \<union> set ks') \<le> N" "list_all2 carries [run_end 0 (insert k R)..<run_end 0 (insert k R \<union> set ks')] out"
      "ar_gaps_recorded a' = 0" "run_end 0 (insert k R) \<le> run_end 0 (insert k R \<union> set ks')"
    by blast
  have un: "R \<union> set ks = insert k R \<union> set ks'" by (auto simp: ks(1))
  have "[run_end 0 R..<run_end 0 (R \<union> set ks)] =
      [run_end 0 R..<run_end 0 (insert k R)] @ [run_end 0 (insert k R)..<run_end 0 (R \<union> set ks)]"
    using upt_add_eq_append [OF le, of "run_end 0 (R \<union> set ks) - run_end 0 (insert k R)"] i(6) unfolding un by simp
  then have "list_all2 carries [run_end 0 R..<run_end 0 (R \<union> set ks)] (out1 @ out)"
    using list_all2_appendI [OF rr(4) i(4)] unfolding un by simp
  moreover have "receive_all (x # xs) a = (a', out1 @ out)" using rr(1) i(1) by (simp add: x)
  moreover have "run_end 0 R \<le> run_end 0 (R \<union> set ks)" using le i(6) unfolding un by simp
  ultimately show ?case using i(2,3,5) unfolding un by blast
qed

end

end
