(* ===== verification/ArmStream.thy ===== *)
theory ArmStream
  imports Matching Reorder
begin

text \<open>
  The publisher's two arms meet the arbitrator. The batches of \<open>FeedPublisher\<close> (any publisher state with nothing
  pending) are an aligned stream in the sense of \<open>Reorder\<close>, so the laws of that interface hold for the
  datagrams the engine really sends.
\<close>

section \<open>Batches as an aligned stream\<close>

definition stream_ok :: "batch list \<Rightarrow> bool" where
  "stream_ok bs \<longleftrightarrow> batches_from 1 bs \<and> list_all event_wf (batch_events bs) \<and> 1 + length (batch_events bs) \<le> u64_max"

text \<open>The first sequence of batch \<open>k\<close>; on anything but a stream the interface is inhabited trivially.\<close>

definition stream_start :: "batch list \<Rightarrow> nat \<Rightarrow> nat" where
  "stream_start bs k = 1 + length (batch_events (take k bs))"

definition stream_len :: "batch list \<Rightarrow> nat" where
  "stream_len bs = (if stream_ok bs then length bs else 0)"

text \<open>A datagram that carries batch \<open>k\<close>, from either arm.\<close>

definition copy_of :: "batch list \<Rightarrow> nat \<Rightarrow> bytes \<Rightarrow> bool" where
  "copy_of bs k d \<longleftrightarrow> k < length bs \<and> (d = batch_image 0 (bs ! k) \<or> d = batch_image 1 (bs ! k))"

definition carries_batch :: "batch list \<Rightarrow> nat \<Rightarrow> nat \<Rightarrow> bytes \<Rightarrow> bool" where
  "carries_batch bs L k d \<longleftrightarrow> stream_ok bs \<and> length d \<le> L \<and> copy_of bs k d"

lemma batches_from_nth:
  "batches_from n bs \<Longrightarrow> k < length bs \<Longrightarrow> bt_first (bs ! k) = n + length (batch_events (take k bs)) \<and>
     bt_events (bs ! k) \<noteq> [] \<and> length (bt_events (bs ! k)) \<le> u16_max \<and> bt_ts (bs ! k) \<le> u64_max"
proof (induction bs arbitrary: n k)
  case (Cons t bs)
  then show ?case by (cases k) (auto simp: batch_events_def)
qed simp

lemma stream_start_Suc: "k < length bs \<Longrightarrow> stream_start bs (Suc k) = stream_start bs k + length (bt_events (bs ! k))"
  by (simp add: stream_start_def batch_events_def take_Suc_conv_app_nth)

lemma stream_start_le: "stream_start bs k \<le> 1 + length (batch_events bs)"
proof -
  have "batch_events bs = batch_events (take k bs) @ batch_events (drop k bs)"
    unfolding batch_events_def by (metis append_take_drop_id concat_append map_append)
  then show ?thesis by (simp add: stream_start_def)
qed

interpretation arms: aligned_stream "stream_start bs" "stream_len bs" L "carries_batch bs L" for bs L
proof
  show "stream_start bs k < stream_start bs (Suc k)" if "k < stream_len bs" for k
    using that batches_from_nth [of 1 bs k] by (simp add: stream_len_def stream_start_Suc stream_ok_def split: if_splits)
  show "stream_start bs (stream_len bs) \<le> u64_max"
    using stream_start_le [of bs "length bs"] by (auto simp: stream_len_def stream_ok_def stream_start_def batch_events_def)
  show "k < stream_len bs \<and> length d \<le> L" if "carries_batch bs L k d" for k d
    using that by (simp add: carries_batch_def copy_of_def stream_len_def)
  show "PacketHeader_wrap d = Ok d \<and> PacketHeader_first_sequence d = Ok (stream_start bs k) \<and>
      PacketHeader_message_count d = Ok (stream_start bs (Suc k) - stream_start bs k)" if c: "carries_batch bs L k d" for k d
  proof -
    have k: "k < length bs" "stream_ok bs" using c by (auto simp: carries_batch_def copy_of_def)
    then have n: "bt_first (bs ! k) = stream_start bs k" "length (bt_events (bs ! k)) \<le> u16_max" "bt_ts (bs ! k) \<le> u64_max"
      using batches_from_nth [of 1 bs k] by (auto simp: stream_ok_def stream_start_def)
    have "stream_start bs k \<le> u64_max" using stream_start_le [of bs k] k(2) by (simp add: stream_ok_def)
    then show ?thesis using c n stream_start_Suc [OF k(1)] packet_header_image_fields
      by (auto simp: carries_batch_def copy_of_def batch_image_def datagram_image_def)
  qed
qed

text \<open>What a socket may hand over: a datagram the publisher sent on that arm.\<close>

definition arrival_of :: "batch list \<Rightarrow> nat \<Rightarrow> nat \<times> bytes \<Rightarrow> bool" where
  "arrival_of bs k x \<longleftrightarrow> k < length bs \<and>
     (x = (0, batch_image 0 (bs ! k)) \<and> \<not> bt_drop_a (bs ! k) \<or> x = (1, batch_image 1 (bs ! k)) \<and> \<not> bt_drop_b (bs ! k))"

definition from_arms :: "feed_publisher \<Rightarrow> (nat \<times> bytes) list \<Rightarrow> bool" where
  "from_arms fp xs \<longleftrightarrow> list_all (\<lambda>(arm, d). arm = 0 \<and> d \<in> set (fp_sent_a fp) \<or> arm = 1 \<and> d \<in> set (fp_sent_b fp)) xs"

lemma feed_stream_ok: "feed_inv fp bs [] \<Longrightarrow> stream_ok bs"
  by (auto simp: feed_inv_def stream_ok_def)


definition fits :: "nat \<Rightarrow> (nat \<times> bytes) list \<Rightarrow> bool" where
  "fits L xs \<longleftrightarrow> list_all (\<lambda>x. length (snd x) \<le> L) xs"

lemma arrivals_carry:
  assumes "stream_ok bs" "list_all2 (arrival_of bs) ks xs" "fits L xs"
  shows "list_all2 (\<lambda>k x. carries_batch bs L k (snd x)) ks xs"
  using assms(2,3)
proof (induction rule: list_all2_induct)
  case (Cons k ks x xs)
  then have "carries_batch bs L k (snd x)" using assms(1) by (auto simp: fits_def arrival_of_def carries_batch_def copy_of_def)
  then show ?case using Cons by (simp add: fits_def)
qed simp

lemma new_arbitrator:
  "\<not> ar_started (Arbitrator_new w L)" "ar_occupied (Arbitrator_new w L) = 0" "\<forall>s\<in>set (ar_window (Arbitrator_new w L)). L \<le> length (sl_buf s)"
  "ar_messages_delivered (Arbitrator_new w L) = 0" "ar_messages_missed (Arbitrator_new w L) = 0" "ar_gaps_recorded (Arbitrator_new w L) = 0"
  "ar_capacity (Arbitrator_new w L) = max w 1"
  by (simp_all add: Arbitrator_new_def Let_def)
lemma first_arrival:
  assumes "carries_batch bs L k d" "w < u64_max"
  obtains a where "receive_round arm d (Arbitrator_new w L) =
      (a, Ok (Ready (stream_start bs k) (stream_start bs (Suc k) - stream_start bs k)), [d])"
    "arb_at (stream_start bs) (carries_batch bs L) L a (Suc k) {}" "ar_capacity a = max w 1" "ar_gaps_recorded a = 0"
    "ar_first_sequence a = stream_start bs k"
  using arms.first_round [OF assms(1) arb_inv_new [OF assms(2)] new_arbitrator(1-6), of arm] new_arbitrator(7) by auto

lemma carries_copies: "list_all2 (carries_batch bs L) ks ds \<Longrightarrow> list_all2 (copy_of bs) ks ds"
  by (erule list_all2_mono) (simp add: carries_batch_def)

lemma arb_step_capacity: "arb_step a a' \<Longrightarrow> ar_capacity a' = ar_capacity a"
proof (induction rule: arb_step.induct)
  case (step_accept arm d a a' r)
  then show ?case using accept_capacity [of arm d a] by simp
next
  case (step_drain a a' out)
  then show ?case using drain_capacity [of a] by simp
next
  case (step_stalled a a' g)
  then show ?case by (auto simp: declare_gap_if_stalled_def split: if_splits prod.splits) (metis fst_conv keep_capacity(3))
qed (simp_all add: resync_to_def clear_gapped_def)

lemma arb_reachable_capacity: "arb_step\<^sup>*\<^sup>* (Arbitrator_new w b) a \<Longrightarrow> ar_capacity a = max w 1"
  by (induction rule: rtranclp_induct) (simp_all add: new_arbitrator arb_step_capacity)

text \<open>A batch of one heartbeat, as a datagram.\<close>

definition beat :: "nat \<Rightarrow> nat \<Rightarrow> bytes" where
  "beat ch k = datagram_image ch 0 k 7 [EvHeartbeat 9]"

lemma accept_beat:
  assumes "ch \<le> 1" "k \<le> u64_max"
  shows "accept arm (beat ch k) a = accept_range (arm mod 2) k 1 (beat ch k) (bump_arm (arm mod 2) (count_received (length (beat ch k))) a)"
  using assms by (simp add: accept_def beat_def datagram_image_def packet_header_image_fields Let_def)

lemma announces_beat: "k \<le> u64_max \<Longrightarrow> ch \<le> u8_max \<Longrightarrow> announces k 1 (beat ch k)"
  by (simp add: announces_def beat_def datagram_image_def packet_header_image_fields)

lemma length_beat: "length (beat ch k) = 40"
  by (simp add: beat_def datagram_image_def)

lemmas run_defs = Let_def Arbitrator_new_def accept_range_def arb_start_def bump_arm_def
   sat_add_u64_def arb_deliver_def wrap_add_u64_def wrap_sub_u64_def find_slot_def find_slot_covering_def slot_covers_def
   free_slot_def arb_store_def count_first_def count_buffered_def count_duplicate_def count_received_def
   declare_gap_if_stalled_def declare_gap_def gap_target_def record_gap_def gap_messages_def
   drain_ready.simps drain_slot_def keep_after_gap_def

lemma replicate_small: "replicate 3 x = [x, x, x]" "replicate 2 x = [x, x]"
  by (simp_all add: numeral_eq_Suc)

lemma run_end_singleton: "run_end 0 {0} = Suc 0" "ahead {0} = {}"
proof -
  have "run_end 0 {0} = run_end (Suc 0) ({0} - {0})" by (rule run_end_step) auto
  then show "run_end 0 {0} = Suc 0" by (simp add: run_end_eqI)
  then show "ahead {0} = {}" by (auto simp: ahead_def)
qed

lemma run_end_all: "run_end 0 {..<n} = n"
  using run_end_mono [of "{..<n}" 0 n] run_end_eqI [of n "{..<n}"] by (simp add: lessThan_atLeast0)

lemma receive_within_lag:
  assumes ok: "stream_ok bs" and arr: "list_all2 (arrival_of bs) (0 # ks) xs" and f: "fits L xs" and w: "w < u64_max"
    and lag: "bounded_lag (max w 1) {0} ks"
  obtains a out where "receive_all xs (Arbitrator_new w L) = (a, out)" "ar_gaps_recorded a = 0" "ar_messages_missed a = 0"
    "list_all2 (copy_of bs) [0..<run_end 0 (insert 0 (set ks))] out"
    "ar_next_expected a = stream_start bs (run_end 0 (insert 0 (set ks)))" "ar_state a = Live"
proof -
  from arrivals_carry [OF ok arr f] have c0: "list_all2 (\<lambda>k x. carries_batch bs L k (snd x)) (0 # ks) xs" .
  then obtain arm d xs' where xs: "xs = (arm, d) # xs'" and c: "carries_batch bs L 0 d"
      and cs: "list_all2 (\<lambda>k x. carries_batch bs L k (snd x)) ks xs'"
    by (cases xs) auto
  obtain a where r: "receive_round arm d (Arbitrator_new w L) =
      (a, Ok (Ready (stream_start bs 0) (stream_start bs (Suc 0) - stream_start bs 0)), [d])"
    "arb_at (stream_start bs) (carries_batch bs L) L a (Suc 0) {}" "ar_capacity a = max w 1" "ar_gaps_recorded a = 0"
    by (rule first_arrival [OF c w, of arm])
  let ?n = "run_end 0 (insert 0 (set ks))"
  have "Suc 0 \<le> stream_len bs" using arms.carries_range [OF c] by simp
  moreover have "lag_ok (ar_capacity a) {0}" by (simp add: lag_ok_def)
  ultimately obtain a' out where q: "receive_all xs' a = (a', out)" "arb_at (stream_start bs) (carries_batch bs L) L a' ?n (ahead (insert 0 (set ks)))"
      "list_all2 (carries_batch bs L) [Suc 0..<?n] out" "ar_gaps_recorded a' = 0" "Suc 0 \<le> ?n"
    using arms.run_within_lag [of bs L a "{0}" ks xs'] r(2-4) lag cs unfolding run_end_singleton by auto
  have "[0..<?n] = 0 # [Suc 0..<?n]" using q(5) by (simp add: upt_conv_Cons)
  then have "list_all2 (carries_batch bs L) [0..<?n] (d # out)" using q(3) c by simp
  from carries_copies [OF this] show thesis
    using that [of a' "d # out"] q r(1) by (simp add: xs arb_at_def)
qed

lemma copies_of_prefix:
  assumes "list_all2 (copy_of bs) [0..<length bs] out"
  shows "list_all2 (\<lambda>t d. \<exists>ch\<le>u8_max. d = batch_image ch t) bs out"
proof -
  have "length out = length bs" using list_all2_lengthD [OF assms] by simp
  moreover have "0 \<le> u8_max" "1 \<le> u8_max" by simp_all
  ultimately show ?thesis using assms unfolding list_all2_conv_all_nth copy_of_def
    by (metis (no_types, lifting) add_0 diff_zero length_upt nth_upt)
qed

lemma arrival_index_unique:
  assumes "stream_ok bs" "arrival_of bs j x" "arrival_of bs k x"
  shows "j = k"
proof -
  have c: "carries_batch bs (length (snd x)) i (snd x)" if "arrival_of bs i x" for i
    using that assms(1) by (auto simp: carries_batch_def arrival_of_def copy_of_def)
  have "stream_start bs j = stream_start bs k"
    using arms.carries_header [OF c [OF assms(2)]] arms.carries_header [OF c [OF assms(3)]] by simp
  then show ?thesis
    using arms.B_less [of _ _ bs] arms.carries_range [OF c [OF assms(2)]] arms.carries_range [OF c [OF assms(3)]]
    by (metis less_imp_le linorder_neqE_nat nat_neq_iff)
qed

lemma all_batches_arrive:
  assumes inv: "feed_inv fp bs []" and ex: "fp_drop_rate fp \<le> 0 \<or> fp_drop_mode fp = Exclusive" and arr: "list_all2 (arrival_of bs) ks xs"
    and sent: "\<forall>d\<in>set (fp_sent_a fp). (0, d) \<in> set xs" "\<forall>d\<in>set (fp_sent_b fp). (1, d) \<in> set xs"
  shows "set ks = {..<length bs}"
proof
  show "set ks \<subseteq> {..<length bs}" using arr by (auto simp: list_all2_conv_all_nth in_set_conv_nth arrival_of_def)
  show "{..<length bs} \<subseteq> set ks"
  proof
    fix k
    assume "k \<in> {..<length bs}"
    then have k: "k < length bs" "bs ! k \<in> set bs" by auto
    then have "\<not> (bt_drop_a (bs ! k) \<and> bt_drop_b (bs ! k))"
      using inv ex by (auto simp: feed_inv_def loss_inv_def loss_allowed_def list_all_iff)
    then have "\<exists>x\<in>set xs. arrival_of bs k x"
      using k inv sent by (auto simp: feed_inv_def arrival_of_def)
    then obtain i where "i < length xs" "arrival_of bs k (xs ! i)" by (auto simp: in_set_conv_nth)
    moreover from this have "arrival_of bs (ks ! i) (xs ! i)" "i < length ks" using arr by (auto simp: list_all2_conv_all_nth)
    ultimately show "k \<in> set ks" using arrival_index_unique [OF feed_stream_ok [OF inv]] by (metis nth_mem)
  qed
qed

section \<open>Sample feeds\<close>

definition lossy_feed :: feed_publisher where
  "lossy_feed = set_loss (1 / 2) Exclusive 7 (FeedPublisher_new
     (\<lambda>_. \<lparr>env_now_ns = 9, env_send_a = True, env_send_b = True, env_uplink_takes = True\<rparr>) 4 96)"

lemma lossy_feed_fresh: "fresh_feed (1 / 2, Exclusive) lossy_feed"
  unfolding lossy_feed_def using fresh_feedI [of 4 96 _ "1 / 2" Exclusive 7] by simp

lemma one_order_feed:
  assumes "serve_calls no_checkpoint [CallSubmit 7 Ask 105 10 False] (engine_new [], lossy_feed) = ((e', fp'), True)"
    and "flush fp' = (fp'', Ok ())" "feed_inv fp'' bs []"
  obtains t ev where "bs = [t]" "bt_events t = [ev]" "\<not> (bt_drop_a t \<and> bt_drop_b t)" "engine_queue 7 Ask e' = [rested 1 Ask 105 10]"
proof -
  have e0: "en_next_order_id (engine_new []) = 1" by (simp add: engine_new_def)
  obtain e1 fp1 sp1 fills out where a: "submit_reported no_checkpoint 7 Ask 105 10 False (engine_new [], lossy_feed) = ((e1, fp1), Ok (out, fills))"
      "engine_queue 7 Ask e1 = [rested 1 Ask 105 10]" "engine_inv (1 / 2, Exclusive) (e1, fp1) [EvAdd 1 105 10 7 Ask] sp1"
    by (rule submit_reported_queues [OF engine_inv_new [OF lossy_feed_fresh] no_checkpoint_ok, of 7 105 10 "[]" Ask False])
       (simp_all add: e0 in_i64_def queue_rest_def submit_events_def)
  then have e: "e1 = e'" "fp1 = fp'" using assms(1) by (auto simp: submit_def sbind_def)
  obtain fq bs' where f: "flush fp' = (fq, Ok ())" "feed_inv fq bs' []" "batch_events bs' = [EvAdd 1 105 10 7 Ask]"
      "(fp_drop_rate fq, fp_drop_mode fq) = (1 / 2, Exclusive)"
    by (rule flush_engine [OF a(3) [unfolded e]]) simp_all
  have fq: "fq = fp''" using f(1) assms(2) by simp
  then have len: "length (batch_events bs) = 1" using f(2,3) assms(3) by (auto simp: feed_inv_def)
  have bf: "batches_from 1 bs" using assms(3) by (simp add: feed_inv_def)
  obtain t bs1 where bs: "bs = t # bs1" using len by (cases bs) (auto simp: batch_events_def)
  have "length (bt_events t) + length (batch_events bs1) = 1" "bt_events t \<noteq> []" using bf len by (auto simp: bs batch_events_def)
  then have l: "length (bt_events t) = 1" "batch_events bs1 = []" by (cases "bt_events t"; simp)+
  then obtain ev where "bt_events t = [ev]" by (auto simp: length_Suc_conv)
  moreover have "bs1 = []" using bf l(2) by (cases bs1) (auto simp: bs batch_events_def)
  moreover have "\<not> (bt_drop_a t \<and> bt_drop_b t)" using assms(3) f(4) fq by (auto simp: bs feed_inv_def loss_inv_def loss_allowed_def)
  ultimately show thesis using that bs a(2) e by simp
qed




lemma arb_inv_receive: "arb_inv a \<Longrightarrow> receive_all xs a = (a', out) \<Longrightarrow> arb_inv a'"
proof (induction xs arbitrary: a out)
  case (Cons x xs)
  obtain ch d where x: "x = (ch, d)" by fastforce
  obtain a1 r out1 where rr: "receive_round ch d a = (a1, r, out1)" by (metis prod_cases3)
  obtain b v where acc: "accept ch d a = (b, v)" by fastforce
  have "arb_inv b" using accept_inv [OF Cons.prems(1) acc] by simp
  then have "arb_inv a1" using rr acc drain_ready_inv [of b] by (auto simp: receive_round_def split: prod.splits outcome.splits)
  then show ?case using Cons.IH [of a1] Cons.prems(2) rr by (auto simp: x split: prod.splits outcome.splits)
qed simp

section \<open>Properties\<close>

text \<open>C35: whatever is offered, in whatever state, arbitration neither panics nor grows. After any sequence of accepts, drains, stall declarations,
  resynchronisations and clears from a fresh arbitrator, accepting any bytes on any arm returns a verdict; the occupied count is the number of
  occupied slots, at most one more than the configured window, and the gap log stays within its 256 entries.\<close>

theorem arbitrator_never_panics:
  assumes "arb_step\<^sup>*\<^sup>* (Arbitrator_new w b) a" "w < u64_max"
  shows "\<exists>a' r. accept arm d a = (a', Ok r) \<and> ar_occupied a' = window_load a' \<and> ar_occupied a' \<le> max w 1 + 1 \<and>
     length (arb_gaps a') \<le> GAP_LOG \<and> length (ar_arms a') = 2"
proof -
  obtain a' o' where acc: "accept arm d a = (a', o')" by fastforce
  have i: "arb_inv a'" "is_Ok o'" using accept_inv [OF arb_reachable_inv [OF assms] acc] by auto
  then obtain r where r: "o' = Ok r" by (cases o') auto
  have "ar_capacity a' = max w 1" using accept_capacity [of arm d a] arb_reachable_capacity [OF assms(1)] acc by simp
  moreover have "window_load a' \<le> length (ar_window a')" by (simp add: window_load_def)
  ultimately show ?thesis using i(1) acc r by (simp add: arb_inv_def arb_gaps_def)
qed

theorem arbitrator_never_panics_witness:
  "\<exists>a a' r. arb_step\<^sup>*\<^sup>* (Arbitrator_new 3 64) a \<and> a = resync_to 9 (Arbitrator_new 3 64) \<and> accept 5 [1, 2, 3] a = (a', Ok r) \<and>
     ar_occupied a' \<le> 4"
proof -
  have s: "arb_step\<^sup>*\<^sup>* (Arbitrator_new 3 64) (resync_to 9 (Arbitrator_new 3 64))" by (intro r_into_rtranclp step_resync)
  then show ?thesis using arbitrator_never_panics [OF s, of 5 "[1, 2, 3]"] by auto
qed



text \<open>C15: a datagram that reaches the handler on one arm is enough. Serve any calls on an empty engine whose publisher drops datagrams
  with any rate, but never a batch on both arms (\<open>Exclusive\<close> loss), and flush. Whatever the order in which the datagrams sent arrive, and however
  often, as long as the first is the first batch and none runs ahead of the first one missing by more than the reorder window: the arbitrator
  declares no gap, hands on every batch exactly once and in order, and applying what it hands on rebuilds the engine's queues.\<close>

theorem engine_to_books_over_two_arms:
  assumes "fresh_feed (rate, Exclusive) fp" "callback_ok cb" "list_all call_wf cs" "length cs \<le> 2147483648"
  shows "\<exists>e' fp' fp'' bs. serve_calls cb cs (engine_new syms, fp) = ((e', fp'), True) \<and> flush fp' = (fp'', Ok ()) \<and> feed_inv fp'' bs [] \<and>
     (\<forall>ks xs w L. list_all2 (arrival_of bs) (0 # ks) xs \<and> bounded_lag (max w 1) {0} ks \<and> fits L xs \<and> w < u64_max \<and>
        (\<forall>d\<in>set (fp_sent_a fp''). (0, d) \<in> set xs) \<and> (\<forall>d\<in>set (fp_sent_b fp''). (1, d) \<in> set xs) \<longrightarrow>
        (\<exists>a out bks. receive_all xs (Arbitrator_new w L) = (a, out) \<and> ar_gaps_recorded a = 0 \<and> ar_state a = Live \<and>
           list_all2 (copy_of bs) [0..<length bs] out \<and> follow_datagrams out [] = Some bks \<and>
           (\<forall>y s. rb_orders_in_queue_order (fst (get_or_create refbook_new y bks)) s = engine_queue y s e')))"
proof -
  obtain e' fp' evs sp where r: "serve_calls cb cs (engine_new syms, fp) = ((e', fp'), True)"
      "engine_inv (rate, Exclusive) (e', fp') evs sp" "length evs + 2 < u64_max"
    using run_from_new [OF assms] by metis
  obtain fp'' bs where f: "flush fp' = (fp'', Ok ())" "feed_inv fp'' bs []" "batch_events bs = evs" "list_all batch_valid bs"
      "(fp_drop_rate fp'', fp_drop_mode fp'') = (rate, Exclusive)"
    by (rule flush_engine [OF r(2,3)])
  have rp: "ofold spec_apply (batch_events bs) (\<lambda>_. []) = Ok sp" using r(2) f(3) by (simp add: engine_inv_def)
  have "\<exists>a out bks. receive_all xs (Arbitrator_new w L) = (a, out) \<and> ar_gaps_recorded a = 0 \<and> ar_state a = Live \<and>
           list_all2 (copy_of bs) [0..<length bs] out \<and> follow_datagrams out [] = Some bks \<and>
           (\<forall>y s. rb_orders_in_queue_order (fst (get_or_create refbook_new y bks)) s = engine_queue y s e')"
    if h: "list_all2 (arrival_of bs) (0 # ks) xs" "bounded_lag (max w 1) {0} ks" "fits L xs" "w < u64_max"
        "\<forall>d\<in>set (fp_sent_a fp''). (0, d) \<in> set xs" "\<forall>d\<in>set (fp_sent_b fp''). (1, d) \<in> set xs" for ks xs w L
  proof -
    have "set (0 # ks) = {..<length bs}" using all_batches_arrive [OF f(2) _ h(1,5,6)] f(5) by simp
    then have n: "run_end 0 (insert 0 (set ks)) = length bs" by (simp add: run_end_all)
    obtain a out where a: "receive_all xs (Arbitrator_new w L) = (a, out)" "ar_gaps_recorded a = 0" "ar_state a = Live"
        "list_all2 (copy_of bs) [0..<length bs] out"
      by (rule receive_within_lag [OF feed_stream_ok [OF f(2)] h(1,3,4,2)]) (simp add: n)
    obtain bks where b: "follow_datagrams out [] = Some bks" "books_rel refbook_rel bks sp"
      using follow_copies [OF copies_of_prefix [OF a(4)] f(4) books_rel_empty rp] by auto
    have "rb_orders_in_queue_order (fst (get_or_create refbook_new y bks)) s = engine_queue y s e'" for y s
      unfolding engine_queue_spec [OF r(2)] using refset.get_or_create_sim(1) [OF b(2) surjective_pairing] by (rule rb_queue_rel)
    then show ?thesis using a b by blast
  qed
  then show ?thesis using r(1) f(1,2) by blast
qed

theorem engine_to_books_over_two_arms_witness:
  "\<exists>e' fp' fp'' xs a out bks. serve_calls no_checkpoint [CallSubmit 7 Ask 105 10 False] (engine_new [], lossy_feed) = ((e', fp'), True) \<and>
     flush fp' = (fp'', Ok ()) \<and> from_arms fp'' xs \<and> receive_all xs (Arbitrator_new 8 96) = (a, out) \<and> ar_gaps_recorded a = 0 \<and>
     follow_datagrams out [] = Some bks \<and>
     rb_orders_in_queue_order (fst (get_or_create refbook_new 7 bks)) Ask = [rested 1 Ask 105 10]"
proof -
  obtain e' fp' fp'' bs where r: "serve_calls no_checkpoint [CallSubmit 7 Ask 105 10 False] (engine_new [], lossy_feed) = ((e', fp'), True)"
      "flush fp' = (fp'', Ok ())" "feed_inv fp'' bs []" and
    all: "\<And>ks xs w L. list_all2 (arrival_of bs) (0 # ks) xs \<and> bounded_lag (max w 1) {0} ks \<and> fits L xs \<and> w < u64_max \<and>
        (\<forall>d\<in>set (fp_sent_a fp''). (0, d) \<in> set xs) \<and> (\<forall>d\<in>set (fp_sent_b fp''). (1, d) \<in> set xs) \<longrightarrow>
        (\<exists>a out bks. receive_all xs (Arbitrator_new w L) = (a, out) \<and> ar_gaps_recorded a = 0 \<and> ar_state a = Live \<and>
           list_all2 (copy_of bs) [0..<length bs] out \<and> follow_datagrams out [] = Some bks \<and>
           (\<forall>y s. rb_orders_in_queue_order (fst (get_or_create refbook_new y bks)) s = engine_queue y s e'))"
    using engine_to_books_over_two_arms [OF lossy_feed_fresh no_checkpoint_ok, of "[CallSubmit 7 Ask 105 10 False]" "[]"]
    by (simp add: in_i64_def) blast
  obtain t ev where t: "bs = [t]" "bt_events t = [ev]" "\<not> (bt_drop_a t \<and> bt_drop_b t)" "engine_queue 7 Ask e' = [rested 1 Ask 105 10]"
    by (rule one_order_feed [OF r])
  define xs where "xs = (if bt_drop_a t then [] else [(0, batch_image 0 t)]) @ (if bt_drop_b t then [] else [(1::nat, batch_image 1 t)])"
  have sent: "fp_sent_a fp'' = (if bt_drop_a t then [] else [batch_image 0 t])" "fp_sent_b fp'' = (if bt_drop_b t then [] else [batch_image 1 t])"
    using r(3) by (auto simp: feed_inv_def t(1))
  have "list_all2 (arrival_of bs) (replicate (length xs) 0) xs" using t(1) by (auto simp: xs_def arrival_of_def)
  moreover have "replicate (length xs) 0 = 0 # replicate (length xs - 1) (0::nat)" using t(3) by (auto simp: xs_def)
  moreover have "bounded_lag 8 {0} (replicate (length xs - 1) 0)" by (auto simp: xs_def)
  moreover have "fits 96 xs"
    using t(2) event_len_le [of ev] by (auto simp: fits_def xs_def batch_image_def datagram_image_def)
  moreover have "(\<forall>d\<in>set (fp_sent_a fp''). (0, d) \<in> set xs) \<and> (\<forall>d\<in>set (fp_sent_b fp''). (1, d) \<in> set xs)"
    unfolding sent xs_def by simp
  ultimately obtain a out bks where "receive_all xs (Arbitrator_new 8 96) = (a, out)" "ar_gaps_recorded a = 0" "follow_datagrams out [] = Some bks"
       "\<forall>y s. rb_orders_in_queue_order (fst (get_or_create refbook_new y bks)) s = engine_queue y s e'"
    using all [of "replicate (length xs - 1) 0" xs 8 96] by auto
  moreover have "from_arms fp'' xs" using sent by (auto simp: from_arms_def xs_def)
  ultimately show ?thesis using r(1,2) t(4) by metis
qed



text \<open>C40: the datagram that forces a gap is dropped when it precedes what is buffered. In any state with a full window, let a datagram arrive that lies
  beyond the frontier and before everything buffered. Everything up to the lowest buffered sequence is declared lost, the messages that have
  just arrived among them; the datagram is neither delivered nor stored, the frontier passes it, and it is counted as a duplicate.\<close>

theorem forced_gap_discards_a_live_datagram:
  assumes inv: "arb_inv a" "ar_started a" "ar_occupied a = ar_capacity a" and d: "announces f c d" "0 < c"
    and before: "ar_next_expected a < f" "f + c \<le> gap_target a" "gap_target a \<le> u64_max"
  shows "\<exists>a' g. accept ch d a = (a', Ok (ForcedGap g)) \<and> gap_from g = ar_next_expected a \<and> gap_through g = gap_target a - 1 \<and>
     {f..<f + c} \<subseteq> {gap_from g..gap_through g} \<and> ar_messages_missed a' = wrap_add_u64 (ar_messages_missed a) (gap_target a - ar_next_expected a) \<and>
     ar_window a' = ar_window a \<and> ar_next_expected a' = gap_target a \<and>
     ac_datagrams_duplicate (arb_arm ch a') = wrap_add_u64 (ac_datagrams_duplicate (arb_arm ch a)) 1 \<and>
     ac_dropped_window_full (arb_arm ch a') = ac_dropped_window_full (arb_arm ch a)"
proof -
  define m where "m = ch mod 2"
  define b where "b = (bump_arm m (count_received (length d)) a)\<lparr>ar_highest_seen := max (ar_highest_seen a) (f + c)\<rparr>"
  have m: "m < 2" "length (ar_arms a) = 2" using inv(1) by (simp_all add: m_def arb_inv_def)
  have "window_load a \<noteq> 0" using inv(1,3) by (simp add: arb_inv_def)
  then have ex: "\<exists>s\<in>set (ar_window a). sl_occupied s" by (auto simp: window_load_def filter_empty_conv)
  have w: "ar_window b = ar_window a" "ar_next_expected b = ar_next_expected a" "gap_target b = gap_target a"
    using gap_target_cong [of b a] ex by (simp_all add: b_def bump_arm_def)
  have "find_slot f b = None" unfolding find_slot_def position_of_None_iff w(1)
    using gap_target_lowest(2) [OF ex] before(2) d(2) by fastforce
  moreover have "sat_add_u64 f c = f + c" using before(2,3) by simp
  ultimately have acc: "accept ch d a = (keep_after_gap m f c d (fst (declare_gap b)), Ok (ForcedGap (snd (declare_gap b))))"
    unfolding accept_announced [OF d(1)] m_def [symmetric]
    using d(2) before(1) inv(2,3) by (simp add: accept_range_def Let_def b_def arb_start_def bump_arm_def case_prod_beta)
  let ?g = "\<lparr>gap_from = ar_next_expected a, gap_through = gap_target a - 1\<rparr>"
  have "max (gap_target a - 1) (ar_next_expected a) = gap_target a - 1" using before by simp
  then have g: "declare_gap b = ((record_gap ?g b)\<lparr>ar_state := Gapped, ar_next_expected := gap_target a\<rparr>, ?g)"
    by (simp add: declare_gap_def Let_def w(2,3))
  define a' where "a' = bump_arm m count_duplicate ((record_gap ?g b)\<lparr>ar_state := Gapped, ar_next_expected := gap_target a\<rparr>)"
  have "keep_after_gap m f c d (fst (declare_gap b)) = a'" using before by (simp add: keep_after_gap_def g a'_def)
  then have r: "accept ch d a = (a', Ok (ForcedGap ?g))" using acc g by simp
  have arms: "ar_arms b = (ar_arms a)[m := count_received (length d) (ar_arms a ! m)]" "ar_messages_missed b = ar_messages_missed a"
    by (simp_all add: b_def bump_arm_def)
  have "arb_arm ch a' = count_duplicate (count_received (length d) (arb_arm ch a))"
    using m by (simp add: a'_def bump_arm_def arb_arm_def m_def [symmetric] arms)
  moreover have "ar_messages_missed a' = wrap_add_u64 (ar_messages_missed a) (gap_target a - ar_next_expected a)"
    using before by (simp add: a'_def bump_arm_def arms gap_messages_def)
  moreover have "ar_window a' = ar_window a" "ar_next_expected a' = gap_target a" by (simp_all add: a'_def w(1)) (simp add: bump_arm_def)
  moreover have "{f..<f + c} \<subseteq> {ar_next_expected a..gap_target a - 1}" using before by auto
  ultimately show ?thesis using r
    by (intro exI [of _ a'] exI [of _ ?g]) (simp add: count_duplicate_def count_received_def)
qed

text \<open>A window of one that holds 4; the datagram that arrives is 3.\<close>

theorem forced_gap_discards_a_live_datagram_witness:
  "\<exists>a a' g. receive_all [(0, beat 0 1), (0, beat 0 4)] (Arbitrator_new 1 64) = (a, [beat 0 1]) \<and>
     accept 0 (beat 0 3) a = (a', Ok (ForcedGap g)) \<and> gap_from g = 2 \<and> gap_through g = 3 \<and> ar_messages_missed a' = 2 \<and>
     ar_next_expected a' = 4 \<and> ac_datagrams_duplicate (arb_arm 0 a') = 1"
proof -
  obtain a where a: "receive_all [(0, beat 0 1), (0, beat 0 4)] (Arbitrator_new 1 64) = (a, [beat 0 1])" "ar_started a"
      "ar_occupied a = ar_capacity a" "ar_next_expected a = 2" "gap_target a = 4" "ar_messages_missed a = 0" "ac_datagrams_duplicate (arb_arm 0 a) = 0"
    by (simp add: receive_round_def accept_beat length_beat replicate_small run_defs arb_arm_def arm_counters_zero_def)
  from forced_gap_discards_a_live_datagram [OF arb_inv_receive [OF arb_inv_new a(1)] a(2,3) announces_beat [of 3 0], of 0]
  show ?thesis using a by auto
qed

end
