(* ===== verification/Recovery.thy ===== *)
theory Recovery
  imports Packet
begin

text \<open>
  Recovery after a gap, \<open>crates/feed-handler/src/recovery.rs\<close>: live traffic is held in a bounded buffer until a
  snapshot or a replay closes the hole, and the part of it the answer did not cover is then handed on.
  \<open>Instant\<close> and \<open>Duration\<close> are naturals (nanoseconds). The calls of the \<open>(skip_below, bytes)\<close> callbacks are
  returned as a list, in order.
\<close>

section \<open>State\<close>

datatype recovery_state =
    Idle
  | AwaitingSnapshot nat
  | Reconciling nat

record recovery_stats =
  rs_attempts :: nat
  rs_completed :: nat
  rs_failed :: nat
  rs_datagrams_buffered :: nat
  rs_messages_skipped :: nat
  rs_messages_replayed :: nat
  rs_snapshots_seen :: nat
  rs_by_replay :: nat
  rs_by_snapshot :: nat
  rs_replay_refused :: nat
  rs_replay_messages :: nat
  rs_snapshots_discarded :: nat
  rs_last_recovery_millis :: nat
  rs_worst_recovery_millis :: nat

definition recovery_stats_zero :: recovery_stats where
  "recovery_stats_zero = \<lparr>rs_attempts = 0, rs_completed = 0, rs_failed = 0, rs_datagrams_buffered = 0, rs_messages_skipped = 0,
     rs_messages_replayed = 0, rs_snapshots_seen = 0, rs_by_replay = 0, rs_by_snapshot = 0, rs_replay_refused = 0,
     rs_replay_messages = 0, rs_snapshots_discarded = 0, rs_last_recovery_millis = 0, rs_worst_recovery_millis = 0\<rparr>"

record drain_outcome =
  do_complete_through :: nat
  do_unverified_messages :: nat

record held =
  hs_first :: nat
  hs_count :: nat
  hs_len :: nat
  hs_buf :: bytes

record recovery_buffer =
  rc_state :: recovery_state
  rc_held :: "held list"
  rc_occupied :: nat
  rc_capacity :: nat
  rc_started :: "nat option"
  rc_deadline :: nat
  rc_stats :: recovery_stats

datatype recovery_failure =
    BufferFull nat
  | TimedOut nat

definition RecoveryBuffer_new :: "nat \<Rightarrow> nat \<Rightarrow> nat \<Rightarrow> recovery_buffer" where
  "RecoveryBuffer_new capacity max_datagram_bytes deadline =
     (let capacity = max capacity 1 in
      \<lparr>rc_state = Idle,
       rc_held = replicate capacity \<lparr>hs_first = 0, hs_count = 0, hs_len = 0, hs_buf = replicate max_datagram_bytes 0\<rparr>,
       rc_occupied = 0, rc_capacity = capacity, rc_started = None, rc_deadline = deadline, rc_stats = recovery_stats_zero\<rparr>)"

definition is_recovering :: "recovery_buffer \<Rightarrow> bool" where
  "is_recovering b \<longleftrightarrow> rc_state b \<noteq> Idle"

text \<open>The slots in use, and the bytes of one.\<close>

definition held_slots :: "recovery_buffer \<Rightarrow> held list" where
  "held_slots b = take (rc_occupied b) (rc_held b)"

definition held_bytes :: "held \<Rightarrow> bytes" where
  "held_bytes s = take (hs_len s) (hs_buf s)"

definition held_end :: "held \<Rightarrow> nat" where
  "held_end s = wrap_add_u64 (hs_first s) (hs_count s)"

section \<open>Operations\<close>

definition rc_begin :: "nat \<Rightarrow> nat \<Rightarrow> recovery_buffer \<Rightarrow> recovery_buffer" where
  "rc_begin gap_from now b =
     (if is_recovering b then b
      else b\<lparr>rc_state := AwaitingSnapshot gap_from, rc_started := Some now, rc_occupied := 0,
             rc_stats := (rc_stats b)\<lparr>rs_attempts := wrap_add_u64 (rs_attempts (rc_stats b)) 1\<rparr>\<rparr>)"

definition hold :: "nat \<Rightarrow> nat \<Rightarrow> bytes \<Rightarrow> (recovery_buffer, recovery_failure, unit) mut_method" where
  "hold first_sequence count datagram b =
     (if rc_occupied b = rc_capacity b then (b, Err (BufferFull (rc_capacity b)))
      else if length (rc_held b) \<le> rc_occupied b then (b, Panic)
      else
        let slot = rc_held b ! rc_occupied b; len = min (length datagram) (length (hs_buf slot)) in
        (b\<lparr>rc_held := (rc_held b)[rc_occupied b := slot\<lparr>hs_buf := take len datagram @ drop len (hs_buf slot), hs_len := len,
              hs_first := first_sequence, hs_count := count\<rparr>],
           rc_occupied := rc_occupied b + 1,
           rc_stats := (rc_stats b)\<lparr>rs_datagrams_buffered := wrap_add_u64 (rs_datagrams_buffered (rc_stats b)) 1\<rparr>\<rparr>, Ok ()))"

definition check_deadline :: "nat \<Rightarrow> recovery_buffer \<Rightarrow> (recovery_failure, unit) outcome" where
  "check_deadline now b =
     (case rc_started b of
        None \<Rightarrow> Ok ()
      | Some started \<Rightarrow> if is_recovering b \<and> rc_deadline b \<le> now - started then Err (TimedOut (rc_deadline b)) else Ok ())"

definition snapshot_is_usable :: "nat \<Rightarrow> recovery_buffer \<Rightarrow> bool" where
  "snapshot_is_usable last_sequence b =
     (case rc_state b of AwaitingSnapshot gap_from \<Rightarrow> gap_from \<le> wrap_add_u64 last_sequence 1 | _ \<Rightarrow> False)"

definition adopt_snapshot :: "nat \<Rightarrow> recovery_buffer \<Rightarrow> recovery_buffer" where
  "adopt_snapshot last_sequence b =
     b\<lparr>rc_stats := (rc_stats b)\<lparr>rs_snapshots_seen := wrap_add_u64 (rs_snapshots_seen (rc_stats b)) 1,
          rs_by_snapshot := wrap_add_u64 (rs_by_snapshot (rc_stats b)) 1\<rparr>,
       rc_state := Reconciling (wrap_add_u64 last_sequence 1)\<rparr>"

definition rc_gap_from :: "recovery_buffer \<Rightarrow> nat option" where
  "rc_gap_from b = (case rc_state b of AwaitingSnapshot gap_from \<Rightarrow> Some gap_from | _ \<Rightarrow> None)"

definition adopt_replay :: "nat \<Rightarrow> nat \<Rightarrow> recovery_buffer \<Rightarrow> recovery_buffer \<times> bool" where
  "adopt_replay through messages b =
     (case rc_state b of
        AwaitingSnapshot _ \<Rightarrow>
          (b\<lparr>rc_stats := (rc_stats b)\<lparr>rs_by_replay := wrap_add_u64 (rs_by_replay (rc_stats b)) 1,
               rs_replay_messages := wrap_add_u64 (rs_replay_messages (rc_stats b)) messages\<rparr>,
             rc_state := Reconciling (wrap_add_u64 through 1)\<rparr>, True)
      | _ \<Rightarrow> (b, False))"

definition note_replay_refused :: "recovery_buffer \<Rightarrow> recovery_buffer" where
  "note_replay_refused b = b\<lparr>rc_stats := (rc_stats b)\<lparr>rs_replay_refused := wrap_add_u64 (rs_replay_refused (rc_stats b)) 1\<rparr>\<rparr>"

text \<open>The loop of \<open>replay\<close>: the skipped counter, the replayed count and the calls made.\<close>

fun replay_slots :: "nat \<Rightarrow> held list \<Rightarrow> nat \<times> nat \<Rightarrow> (nat \<times> nat) \<times> (nat \<times> bytes) list" where
  "replay_slots from [] acc = (acc, [])"
| "replay_slots from (slot # slots) (skipped, replayed) =
     (if held_end slot \<le> from then replay_slots from slots (wrap_add_u64 skipped (hs_count slot), replayed)
      else
        let skipped_here = from - hs_first slot in
        case replay_slots from slots
            (wrap_add_u64 skipped skipped_here, wrap_add_u64 replayed (wrap_sub_u64 (hs_count slot) skipped_here)) of
          (acc, calls) \<Rightarrow> (acc, (from, held_bytes slot) # calls))"

definition rc_replay :: "recovery_buffer \<Rightarrow> recovery_buffer \<times> nat \<times> (nat \<times> bytes) list" where
  "rc_replay b =
     (case rc_state b of
        Reconciling from \<Rightarrow>
          (case replay_slots from (held_slots b) (rs_messages_skipped (rc_stats b), 0) of
             ((skipped, replayed), calls) \<Rightarrow>
               (b\<lparr>rc_stats := (rc_stats b)\<lparr>rs_messages_skipped := skipped,
                    rs_messages_replayed := wrap_add_u64 (rs_messages_replayed (rc_stats b)) replayed\<rparr>\<rparr>, replayed, calls))
      | _ \<Rightarrow> (b, 0, []))"

definition rc_reset :: "recovery_buffer \<Rightarrow> recovery_buffer" where
  "rc_reset b = b\<lparr>rc_state := Idle, rc_started := None, rc_occupied := 0\<rparr>"

definition rc_complete :: "nat \<Rightarrow> recovery_buffer \<Rightarrow> recovery_buffer \<times> nat" where
  "rc_complete now b =
     (let elapsed = (case rc_started b of Some s \<Rightarrow> now - s | None \<Rightarrow> 0);
          millis = (elapsed div 1000000) mod 2 ^ 64;
          st = rc_stats b in
      (rc_reset (b\<lparr>rc_stats := st\<lparr>rs_completed := wrap_add_u64 (rs_completed st) 1, rs_last_recovery_millis := millis,
         rs_worst_recovery_millis := max (rs_worst_recovery_millis st) millis\<rparr>\<rparr>), elapsed))"

definition rc_fail :: "recovery_buffer \<Rightarrow> recovery_buffer" where
  "rc_fail b = rc_reset (b\<lparr>rc_stats := (rc_stats b)\<lparr>rs_failed := wrap_add_u64 (rs_failed (rc_stats b)) 1\<rparr>\<rparr>)"

definition first_held_sequence :: "recovery_buffer \<Rightarrow> nat option" where
  "first_held_sequence b = (case map hs_first (held_slots b) of [] \<Rightarrow> None | f # fs \<Rightarrow> Some (fold min fs f))"

fun discontinuity :: "nat \<Rightarrow> held list \<Rightarrow> (nat \<times> nat) option" where
  "discontinuity expected [] = None"
| "discontinuity expected (slot # slots) =
     (if expected < hs_first slot then Some (expected, hs_first slot - 1)
      else discontinuity (max expected (held_end slot)) slots)"

definition held_discontinuity :: "nat \<Rightarrow> recovery_buffer \<Rightarrow> (nat \<times> nat) option" where
  "held_discontinuity from b = discontinuity from (held_slots b)"

definition reopen :: "nat \<Rightarrow> recovery_buffer \<Rightarrow> recovery_buffer" where
  "reopen gap_from b = b\<lparr>rc_state := AwaitingSnapshot gap_from\<rparr>"

record drain_run =
  dr_expected :: nat
  dr_drained :: nat
  dr_unverified :: nat
  dr_replayed :: nat
  dr_skipped :: nat

text \<open>The loop of \<open>drain_contiguous\<close> over the slots in use; \<open>dr_drained\<close> counts those it consumed.\<close>

fun drain_slots :: "nat \<Rightarrow> held list \<Rightarrow> drain_run \<Rightarrow> drain_run \<times> (nat \<times> bytes) list" where
  "drain_slots covered_from [] r = (r, [])"
| "drain_slots covered_from (slot # slots) r =
     (if dr_expected r < hs_first slot then (r, [])
      else if dr_expected r < held_end slot then
        (case drain_slots covered_from slots
            (r\<lparr>dr_replayed := wrap_add_u64 (dr_replayed r) (wrap_sub_u64 (held_end slot) (dr_expected r)),
               dr_expected := held_end slot, dr_drained := dr_drained r + 1\<rparr>) of
           (r', calls) \<Rightarrow> (r', (dr_expected r, held_bytes slot) # calls))
      else
        drain_slots covered_from slots
          (r\<lparr>dr_skipped := wrap_add_u64 (dr_skipped r) (hs_count slot),
             dr_unverified := (if covered_from \<le> hs_first slot then dr_unverified r
                               else wrap_add_u64 (dr_unverified r) (hs_count slot)),
             dr_drained := dr_drained r + 1\<rparr>))"

definition rotate_left :: "nat \<Rightarrow> 'a list \<Rightarrow> 'a list" where
  "rotate_left k xs = drop k xs @ take k xs"

definition drain_contiguous :: "nat \<times> nat \<Rightarrow> recovery_buffer \<Rightarrow> recovery_buffer \<times> drain_outcome \<times> (nat \<times> bytes) list" where
  "drain_contiguous covered b =
     (case drain_slots (fst covered) (held_slots b)
         \<lparr>dr_expected = wrap_add_u64 (snd covered) 1, dr_drained = 0, dr_unverified = 0,
          dr_replayed = rs_messages_replayed (rc_stats b), dr_skipped = rs_messages_skipped (rc_stats b)\<rparr> of
       (r, calls) \<Rightarrow>
         (b\<lparr>rc_held := (if 0 < dr_drained r then rotate_left (dr_drained r) (held_slots b) @ drop (rc_occupied b) (rc_held b)
                       else rc_held b),
            rc_occupied := rc_occupied b - dr_drained r,
            rc_stats := (rc_stats b)\<lparr>rs_messages_replayed := dr_replayed r, rs_messages_skipped := dr_skipped r\<rparr>\<rparr>,
          \<lparr>do_complete_through = dr_expected r, do_unverified_messages = dr_unverified r\<rparr>, calls))"

section \<open>What a call applies\<close>

text \<open>The sequences of a datagram, and those a consumer told to skip below \<open>skip\<close> applies.\<close>

definition datagram_sequences :: "bytes \<Rightarrow> nat list" where
  "datagram_sequences d = (case datagram_items d of Ok items \<Rightarrow> concat (map (\<lambda>i. case i of Inr (q, _) \<Rightarrow> [q] | Inl _ \<Rightarrow> []) items) | _ \<Rightarrow> [])"

definition applied_from :: "nat \<times> bytes \<Rightarrow> nat list" where
  "applied_from c = filter (\<lambda>q. fst c \<le> q) (datagram_sequences (snd c))"

text \<open>A slot whose bytes carry the sequences it claims, and slots in stream order.\<close>

definition slot_ok :: "held \<Rightarrow> bool" where
  "slot_ok s \<longleftrightarrow> hs_first s + hs_count s \<le> u64_max \<and> datagram_sequences (held_bytes s) = [hs_first s..<hs_first s + hs_count s]"

definition in_order :: "held list \<Rightarrow> bool" where
  "in_order ss \<longleftrightarrow> list_all slot_ok ss \<and> sorted_wrt (\<lambda>s t. hs_first s + hs_count s \<le> hs_first t) ss"

definition held_reach :: "nat \<Rightarrow> held list \<Rightarrow> nat" where
  "held_reach e ss = fold (\<lambda>s e. max e (hs_first s + hs_count s)) ss e"

definition held_messages :: "held list \<Rightarrow> nat" where
  "held_messages ss = sum_list (map hs_count ss)"

lemma filter_upt_ge: "filter (\<lambda>q. k \<le> q) [i..<j] = [max k i..<j]"
  by (induction j) (auto simp: max_def)

lemma slot_ok_simps:
  assumes "slot_ok s"
  shows "held_end s = hs_first s + hs_count s" "applied_from (k, held_bytes s) = [max k (hs_first s)..<hs_first s + hs_count s]"
  using assms by (simp_all add: slot_ok_def held_end_def applied_from_def filter_upt_ge)

lemma held_reach_simps [simp]:
  "held_reach e [] = e" "held_reach e (s # ss) = held_reach (max e (hs_first s + hs_count s)) ss"
  by (simp_all add: held_reach_def)

lemma held_reach_ge: "e \<le> held_reach e ss"
proof (induction ss arbitrary: e)
  case (Cons s ss)
  then have "max e (hs_first s + hs_count s) \<le> held_reach (max e (hs_first s + hs_count s)) ss" by blast
  then show ?case by simp
qed simp

lemma in_order_Cons [simp]: "in_order (s # ss) \<longleftrightarrow> slot_ok s \<and> (\<forall>t\<in>set ss. hs_first s + hs_count s \<le> hs_first t) \<and> in_order ss"
  by (auto simp: in_order_def)

lemma upt_glue: "i \<le> j \<Longrightarrow> j \<le> k \<Longrightarrow> [i..<j] @ [j..<k] = [i..<k]"
  using upt_add_eq_append [of i j "k - j"] by simp

text \<open>Behind the reconcile point everything is skipped; from there on nothing is.\<close>

lemma replay_slots_exact:
  assumes "in_order ss" "discontinuity e ss = None" "from \<le> e" "e = from \<or> (\<forall>s\<in>set ss. e \<le> hs_first s)"
    and "sk + rp + held_messages ss \<le> u64_max"
  shows "\<exists>sk' rp' calls. replay_slots from ss (sk, rp) = ((sk', rp'), calls) \<and>
     concat (map applied_from calls) = [e..<held_reach e ss] \<and> rp' = rp + (held_reach e ss - e) \<and>
     sk' + rp' = sk + rp + held_messages ss \<and> sk \<le> sk'"
  using assms
proof (induction ss arbitrary: e sk rp)
  case Nil
  then show ?case by (simp add: held_messages_def)
next
  case (Cons s ss)
  have s: "slot_ok s" "in_order ss" "\<forall>t\<in>set ss. hs_first s + hs_count s \<le> hs_first t" using Cons.prems(1) by auto
  note sm = slot_ok_simps [OF s(1)]
  have le: "hs_first s \<le> e" "discontinuity (max e (held_end s)) ss = None"
    using Cons.prems(2) by (auto split: if_splits)
  have hm: "held_messages (s # ss) = hs_count s + held_messages ss" by (simp add: held_messages_def)
  show ?case
  proof (cases "held_end s \<le> from")
    case True
    then have "max e (held_end s) = e" using Cons.prems(3) by simp
    moreover have "e = from \<or> (\<forall>t\<in>set ss. e \<le> hs_first t)" using Cons.prems(4) by auto
    ultimately show ?thesis
      using Cons.IH [OF s(2), of e "sk + hs_count s" rp] le(2) Cons.prems(3,5) True hm sm(1) by (auto simp: max_def)
  next
    case False
    define x where "x = hs_first s + hs_count s"
    have e: "max from (hs_first s) = e" "e < x \<or> e = x"
      using Cons.prems(3,4) le(1) False sm(1) by (auto simp: x_def)
    then have ex: "max e x = x" by auto
    have here: "from - hs_first s \<le> hs_count s" "hs_count s \<le> u64_max"
      using False sm(1) s(1) by (auto simp: slot_ok_def)
    have w: "wrap_sub_u64 (hs_count s) (from - hs_first s) = hs_count s - (from - hs_first s)" using here by simp
    have d: "hs_count s - (from - hs_first s) = x - e" using e(1) le(1) here by (auto simp: x_def max_def split: if_splits)
    have ih: "\<exists>sk' rp' calls. replay_slots from ss (sk + (from - hs_first s), rp + (x - e)) = ((sk', rp'), calls) \<and>
       concat (map applied_from calls) = [x..<held_reach x ss] \<and> rp' = rp + (x - e) + (held_reach x ss - x) \<and>
       sk' + rp' = sk + (from - hs_first s) + (rp + (x - e)) + held_messages ss \<and> sk + (from - hs_first s) \<le> sk'"
      using le(2) sm(1) ex s(3) e(2) here d Cons.prems(3,5) hm by (intro Cons.IH [OF s(2)]) (auto simp: x_def)
    have ap: "applied_from (from, held_bytes s) = [e..<x]" unfolding sm(2) e(1) x_def ..
    have rng: "x \<le> held_reach x ss" "e \<le> x" using held_reach_ge e(2) by auto
    have b: "sk + (from - hs_first s) \<le> u64_max" "rp + (x - e) \<le> u64_max" using Cons.prems(5) here hm d by auto
    from ih obtain sk' rp' calls where i: "replay_slots from ss (sk + (from - hs_first s), rp + (x - e)) = ((sk', rp'), calls)"
       "concat (map applied_from calls) = [x..<held_reach x ss]" "rp' = rp + (x - e) + (held_reach x ss - x)"
       "sk' + rp' = sk + (from - hs_first s) + (rp + (x - e)) + held_messages ss" "sk + (from - hs_first s) \<le> sk'" by blast
    have "replay_slots from (s # ss) (sk, rp) = ((sk', rp'), (from, held_bytes s) # calls)"
      using False b w d i(1) by (simp add: Let_def)
    moreover have "concat (map applied_from ((from, held_bytes s) # calls)) = [e..<held_reach e (s # ss)]"
      using i(2) ap ex upt_glue [OF rng(2,1)] by (simp add: x_def)
    moreover have "rp' = rp + (held_reach e (s # ss) - e)" using i(3) rng ex by (simp add: x_def)
    moreover have "sk' + rp' = sk + rp + held_messages (s # ss)" using i(4) hm here d by simp
    moreover have "sk \<le> sk'" using i(5) by simp
    ultimately show ?thesis by blast
  qed
qed


lemma drain_slots_exact:
  assumes "in_order ss" "dr_expected r = e" "e0 \<le> e" "e = e0 \<or> (\<forall>s\<in>set ss. e \<le> hs_first s)"
    and "dr_replayed r + dr_skipped r + held_messages ss \<le> u64_max" "dr_unverified r + held_messages ss \<le> u64_max"
  shows "\<exists>us vs r' calls. ss = us @ vs \<and> drain_slots cf ss r = (r', calls) \<and>
     concat (map applied_from calls) = [e..<dr_expected r'] \<and> dr_expected r' = held_reach e us \<and>
     dr_drained r' = dr_drained r + length us \<and> (vs = [] \<or> dr_expected r' < hs_first (hd vs)) \<and>
     dr_replayed r' = dr_replayed r + (dr_expected r' - e) \<and>
     dr_unverified r' = dr_unverified r + held_messages (filter (\<lambda>s. hs_first s < cf \<and> hs_first s + hs_count s \<le> e0) us) \<and>
     discontinuity e ss = (if vs = [] then None else Some (dr_expected r', hs_first (hd vs) - 1))"
  using assms
proof (induction ss arbitrary: e r)
  case Nil
  then show ?case by (simp add: held_messages_def)
next
  case (Cons s ss)
  have s: "slot_ok s" "in_order ss" "\<forall>t\<in>set ss. hs_first s + hs_count s \<le> hs_first t" using Cons.prems(1) by auto
  note sm = slot_ok_simps [OF s(1)]
  have hm: "held_messages (x # xs) = hs_count x + held_messages xs" for x xs by (simp add: held_messages_def)
  have bnd: "hs_first s + hs_count s \<le> u64_max" using s(1) by (simp add: slot_ok_def)
  consider "e < hs_first s" | "hs_first s \<le> e" "e < held_end s" | "hs_first s \<le> e" "held_end s \<le> e" by linarith
  then show ?case
  proof cases
    case 1
    then show ?thesis using Cons.prems(2)
      by (intro exI [of _ "[]"] exI [of _ "s # ss"] exI [of _ r]) (simp add: held_messages_def)
  next
    case 2
    define x where "x = hs_first s + hs_count s"
    have x: "held_end s = x" "max e x = x" "e < x" using 2 sm(1) by (auto simp: x_def)
    let ?r = "r\<lparr>dr_replayed := dr_replayed r + (x - e), dr_expected := x, dr_drained := dr_drained r + 1\<rparr>"
    have xe: "x - e \<le> hs_count s" using 2(1) by (auto simp: x_def)
    have "\<exists>us vs r' calls. ss = us @ vs \<and> drain_slots cf ss ?r = (r', calls) \<and>
       concat (map applied_from calls) = [x..<dr_expected r'] \<and> dr_expected r' = held_reach x us \<and>
       dr_drained r' = dr_drained ?r + length us \<and> (vs = [] \<or> dr_expected r' < hs_first (hd vs)) \<and>
       dr_replayed r' = dr_replayed ?r + (dr_expected r' - x) \<and>
       dr_unverified r' = dr_unverified ?r + held_messages (filter (\<lambda>s. hs_first s < cf \<and> hs_first s + hs_count s \<le> e0) us) \<and>
       discontinuity x ss = (if vs = [] then None else Some (dr_expected r', hs_first (hd vs) - 1))"
      using s(3) Cons.prems(5,6) hm xe Cons.prems(3) x(3) by (intro Cons.IH [OF s(2)]) (auto simp: x_def)
    then obtain us vs r' calls where i: "ss = us @ vs" "drain_slots cf ss ?r = (r', calls)"
       "concat (map applied_from calls) = [x..<dr_expected r']" "dr_expected r' = held_reach x us"
       "dr_drained r' = dr_drained ?r + length us" "vs = [] \<or> dr_expected r' < hs_first (hd vs)"
       "dr_replayed r' = dr_replayed ?r + (dr_expected r' - x)"
       "dr_unverified r' = dr_unverified ?r + held_messages (filter (\<lambda>s. hs_first s < cf \<and> hs_first s + hs_count s \<le> e0) us)"
       "discontinuity x ss = (if vs = [] then None else Some (dr_expected r', hs_first (hd vs) - 1))" by blast
    have ge: "x \<le> dr_expected r'" using i(4) held_reach_ge by simp
    have "wrap_add_u64 (dr_replayed r) (wrap_sub_u64 x e) = dr_replayed r + (x - e)"
      using x(3) bnd Cons.prems(5) hm xe by (simp add: x_def)
    then have "drain_slots cf (s # ss) r = (r', (e, held_bytes s) # calls)" using 2 x Cons.prems(2) i(2) by simp
    moreover have "max e (hs_first s) = e" using 2(1) by simp
    then have "applied_from (e, held_bytes s) = [e..<x]" unfolding sm(2) x_def by simp
    then have "concat (map applied_from ((e, held_bytes s) # calls)) = [e..<dr_expected r']"
      using i(3) upt_glue [of e x "dr_expected r'"] x(3) ge by simp
    moreover have "discontinuity e (s # ss) = (if vs = [] then None else Some (dr_expected r', hs_first (hd vs) - 1))"
      using 2(1) x i(9) by simp
    moreover have "held_messages (filter (\<lambda>s. hs_first s < cf \<and> hs_first s + hs_count s \<le> e0) (s # us)) =
        held_messages (filter (\<lambda>s. hs_first s < cf \<and> hs_first s + hs_count s \<le> e0) us)"
      using x(3) Cons.prems(3) by (simp add: x_def)
    ultimately show ?thesis using i x ge
      by (intro exI [of _ "s # us"] exI [of _ vs] exI [of _ r'] exI [of _ "(e, held_bytes s) # calls"]) (simp add: x_def)
  next
    case 3
    let ?c = "if cf \<le> hs_first s then 0 else hs_count s"
    let ?r = "r\<lparr>dr_skipped := dr_skipped r + hs_count s, dr_unverified := dr_unverified r + ?c, dr_drained := dr_drained r + 1\<rparr>"
    let ?P = "\<lambda>s. hs_first s < cf \<and> hs_first s + hs_count s \<le> e0"
    have me: "max e (held_end s) = e" "max e (hs_first s + hs_count s) = e" using 3(2) sm(1) by auto
    have z: "hs_count s = 0" if "e \<noteq> e0" using that Cons.prems(4) 3 sm(1) by auto
    have "\<exists>us vs r' calls. ss = us @ vs \<and> drain_slots cf ss ?r = (r', calls) \<and>
       concat (map applied_from calls) = [e..<dr_expected r'] \<and> dr_expected r' = held_reach e us \<and>
       dr_drained r' = dr_drained ?r + length us \<and> (vs = [] \<or> dr_expected r' < hs_first (hd vs)) \<and>
       dr_replayed r' = dr_replayed ?r + (dr_expected r' - e) \<and>
       dr_unverified r' = dr_unverified ?r + held_messages (filter ?P us) \<and>
       discontinuity e ss = (if vs = [] then None else Some (dr_expected r', hs_first (hd vs) - 1))"
      using Cons.prems(2-6) hm by (intro Cons.IH [OF s(2)]) auto
    then obtain us vs r' calls where i: "ss = us @ vs" "drain_slots cf ss ?r = (r', calls)"
       "concat (map applied_from calls) = [e..<dr_expected r']" "dr_expected r' = held_reach e us"
       "dr_drained r' = dr_drained ?r + length us" "vs = [] \<or> dr_expected r' < hs_first (hd vs)"
       "dr_replayed r' = dr_replayed ?r + (dr_expected r' - e)"
       "dr_unverified r' = dr_unverified ?r + held_messages (filter ?P us)"
       "discontinuity e ss = (if vs = [] then None else Some (dr_expected r', hs_first (hd vs) - 1))" by blast
    have "drain_slots cf (s # ss) r = (r', calls)"
      using 3 Cons.prems(2,5,6) hm i(2) by (simp split: if_splits)
    moreover have "held_messages (filter ?P (s # us)) = ?c + held_messages (filter ?P us)"
      using z 3 sm(1) hm by auto
    ultimately show ?thesis using i me 3(1)
      by (intro exI [of _ "s # us"] exI [of _ vs] exI [of _ r'] exI [of _ calls]) simp
  qed
qed


section \<open>The machine\<close>

definition rc_inv :: "recovery_buffer \<Rightarrow> bool" where
  "rc_inv b \<longleftrightarrow> 1 \<le> rc_capacity b \<and> length (rc_held b) = rc_capacity b \<and> rc_occupied b \<le> rc_capacity b"

inductive rc_step :: "recovery_buffer \<Rightarrow> recovery_buffer \<Rightarrow> bool" where
  rstep_begin: "rc_step b (rc_begin g now b)"
| rstep_hold: "hold f c d b = (b', r) \<Longrightarrow> rc_step b b'"
| rstep_snapshot: "rc_step b (adopt_snapshot q b)"
| rstep_adopt: "adopt_replay q n b = (b', ok) \<Longrightarrow> rc_step b b'"
| rstep_refused: "rc_step b (note_replay_refused b)"
| rstep_replay: "rc_replay b = (b', n, calls) \<Longrightarrow> rc_step b b'"
| rstep_complete: "rc_complete now b = (b', t) \<Longrightarrow> rc_step b b'"
| rstep_fail: "rc_step b (rc_fail b)"
| rstep_reopen: "rc_step b (reopen g b)"
| rstep_drain: "drain_contiguous cv b = (b', r, calls) \<Longrightarrow> rc_step b b'"

lemma rc_inv_new: "rc_inv (RecoveryBuffer_new c m t)"
  by (simp add: rc_inv_def RecoveryBuffer_new_def Let_def)

lemma held_slots_length: "rc_inv b \<Longrightarrow> length (held_slots b) = rc_occupied b"
  by (simp add: rc_inv_def held_slots_def)

lemma rc_step_inv: "rc_step b b' \<Longrightarrow> rc_inv b \<Longrightarrow> rc_inv b' \<and> rc_capacity b' = rc_capacity b"
proof (induction rule: rc_step.induct)
  case (rstep_hold f c d b b' r)
  then show ?case by (auto simp: hold_def rc_inv_def Let_def split: if_splits)
next
  case (rstep_replay b b' n calls)
  then show ?case by (auto simp: rc_replay_def rc_inv_def split: recovery_state.splits prod.splits)
next
  case (rstep_drain cv b b' r calls)
  then show ?case using held_slots_length [of b]
    by (auto simp: drain_contiguous_def rc_inv_def rotate_left_def split: prod.splits if_splits)
qed (auto simp: rc_inv_def rc_begin_def adopt_snapshot_def adopt_replay_def note_replay_refused_def rc_complete_def rc_reset_def
      rc_fail_def reopen_def Let_def split: recovery_state.splits)

lemma rc_reachable_inv: "rc_step\<^sup>*\<^sup>* (RecoveryBuffer_new c m t) b \<Longrightarrow> rc_inv b \<and> rc_capacity b = max c 1"
proof (induction rule: rtranclp_induct)
  case base
  then show ?case using rc_inv_new by (simp add: RecoveryBuffer_new_def Let_def)
next
  case (step b b')
  then show ?case using rc_step_inv by auto
qed

text \<open>Holding appends; a datagram that fits its slot is held unchanged.\<close>

lemma hold_appends:
  assumes "rc_inv b" "rc_occupied b < rc_capacity b" "\<forall>s\<in>set (rc_held b). length d \<le> length (hs_buf s)"
  obtains b' s where "hold f c d b = (b', Ok ())" "held_slots b' = held_slots b @ [s]" "hs_first s = f" "hs_count s = c"
    "held_bytes s = d" "rc_inv b'" "rc_capacity b' = rc_capacity b" "rc_occupied b' = Suc (rc_occupied b)" "rc_state b' = rc_state b"
    "\<forall>s\<in>set (rc_held b'). length d \<le> length (hs_buf s)"
proof -
  define s0 where "s0 = rc_held b ! rc_occupied b"
  have i: "rc_occupied b < length (rc_held b)" using assms(1,2) by (simp add: rc_inv_def)
  then have m: "s0 \<in> set (rc_held b)" by (simp add: s0_def)
  define s where "s = s0\<lparr>hs_buf := d @ drop (length d) (hs_buf s0), hs_len := length d, hs_first := f, hs_count := c\<rparr>"
  define b' where "b' = b\<lparr>rc_held := (rc_held b)[rc_occupied b := s], rc_occupied := rc_occupied b + 1,
     rc_stats := (rc_stats b)\<lparr>rs_datagrams_buffered := wrap_add_u64 (rs_datagrams_buffered (rc_stats b)) 1\<rparr>\<rparr>"
  have "length d \<le> length (hs_buf s0)" using assms(3) m by blast
  then have "hold f c d b = (b', Ok ())" using assms(2) i by (simp add: hold_def b'_def s_def s0_def Let_def min_absorb1)
  moreover have "held_slots b' = held_slots b @ [s]"
    using i by (simp add: held_slots_def b'_def take_Suc_conv_app_nth)
  moreover have "hs_first s = f" "hs_count s = c" "held_bytes s = d" by (simp_all add: s_def held_bytes_def)
  moreover have "rc_inv b'" using assms(1,2) by (simp add: rc_inv_def b'_def)
  moreover have "\<forall>t\<in>set (rc_held b'). length d \<le> length (hs_buf t)"
    using assms(3) set_update_subset_insert [of "rc_held b" "rc_occupied b" s] by (auto simp: b'_def s_def)
  ultimately show thesis using that [of b' s] by (simp add: b'_def)
qed

lemma drain_contiguous_slots:
  assumes "rc_inv b" "drain_slots (fst cv) (held_slots b) r0 = (r, calls)" "held_slots b = us @ vs" "dr_drained r = length us"
    and "r0 = \<lparr>dr_expected = wrap_add_u64 (snd cv) 1, dr_drained = 0, dr_unverified = 0,
          dr_replayed = rs_messages_replayed (rc_stats b), dr_skipped = rs_messages_skipped (rc_stats b)\<rparr>"
  obtains b' where "drain_contiguous cv b = (b', \<lparr>do_complete_through = dr_expected r, do_unverified_messages = dr_unverified r\<rparr>, calls)"
    "held_slots b' = vs" "rc_state b' = rc_state b"
proof -
  define b' where "b' = fst (drain_contiguous cv b)"
  have dc: "drain_contiguous cv b = (b', \<lparr>do_complete_through = dr_expected r, do_unverified_messages = dr_unverified r\<rparr>, calls)"
    using assms(2) by (simp add: b'_def drain_contiguous_def assms(5))
  have "length us + length vs = rc_occupied b" using held_slots_length [OF assms(1)] assms(3) by simp
  then have occ: "rc_occupied b - length us = length vs" by simp
  have "held_slots b' = vs"
  proof (cases "us = []")
    case True
    then show ?thesis using assms(2,4) assms(3) by (simp add: b'_def drain_contiguous_def assms(5) held_slots_def)
  next
    case False
    then show ?thesis using assms(2,4) occ
      by (simp add: b'_def drain_contiguous_def assms(5) held_slots_def [of "_\<lparr>rc_held := _\<rparr>"] assms(3) rotate_left_def)
         (simp add: held_slots_def)
  qed
  then show thesis using that dc assms(2) by (simp add: b'_def drain_contiguous_def assms(5))
qed


text \<open>What may happen while a recovery waits: further gaps, held traffic, refused replays.\<close>

inductive wait_step :: "recovery_buffer \<Rightarrow> recovery_buffer \<Rightarrow> bool" where
  wait_begin: "wait_step b (rc_begin g now b)"
| wait_hold: "hold f c d b = (b', r) \<Longrightarrow> wait_step b b'"
| wait_refused: "wait_step b (note_replay_refused b)"

lemma wait_keeps_clock:
  assumes "wait_step\<^sup>*\<^sup>* b b'" "is_recovering b"
  shows "rc_state b' = rc_state b \<and> rc_started b' = rc_started b \<and> rc_deadline b' = rc_deadline b"
  using assms
proof (induction rule: rtranclp_induct)
  case (step b1 b2)
  then have "is_recovering b1" by (simp add: is_recovering_def)
  with step.hyps(2) have "rc_state b2 = rc_state b1 \<and> rc_started b2 = rc_started b1 \<and> rc_deadline b2 = rc_deadline b1"
    by (cases rule: wait_step.cases) (auto simp: rc_begin_def hold_def note_replay_refused_def Let_def split: if_splits)
  with step show ?case by simp
qed simp

lemma sequences_of_items: "datagram_items d = Ok (map Inr ms) \<Longrightarrow> datagram_sequences d = map fst ms"
proof -
  have "concat (map (\<lambda>i. case i of Inr (q, _) \<Rightarrow> [q] | Inl (_ :: wire_error) \<Rightarrow> []) (map Inr ms)) = map fst ms" for ms :: "(nat \<times> message) list"
    by (induction ms) auto
  then show "datagram_items d = Ok (map Inr ms) \<Longrightarrow> datagram_sequences d = map fst ms" by (simp add: datagram_sequences_def)
qed

lemma datagram_sequences_image:
  assumes "list_all event_wf evs" "ch \<le> u8_max" "fl \<le> u8_max" "fs + length evs \<le> u64_max" "ts \<le> u64_max" "length evs \<le> u16_max"
  shows "datagram_sequences (datagram_image ch fl fs ts evs) = [fs..<fs + length evs]"
proof -
  obtain ms where "datagram_items (datagram_image ch fl fs ts evs) = Ok (map Inr ms)" "map fst ms = [fs..<fs + length evs]"
    by (rule datagram_image_items [of evs ch fl fs ts]) (use assms in \<open>auto simp: list_all_iff\<close>)
  then show ?thesis using sequences_of_items by metis
qed

lemma rc_replay_exact:
  assumes "rc_state b = Reconciling k" "in_order (held_slots b)" "held_discontinuity k b = None"
    and "rs_messages_skipped (rc_stats b) + held_messages (held_slots b) \<le> u64_max"
    and "rs_messages_replayed (rc_stats b) + held_messages (held_slots b) \<le> u64_max"
  shows "\<exists>b' calls. rc_replay b = (b', held_reach k (held_slots b) - k, calls) \<and>
     concat (map applied_from calls) = [k..<held_reach k (held_slots b)] \<and>
     rs_messages_skipped (rc_stats b') + rs_messages_replayed (rc_stats b') =
       rs_messages_skipped (rc_stats b) + rs_messages_replayed (rc_stats b) + held_messages (held_slots b)"
proof -
  from replay_slots_exact [OF assms(2), of k k "rs_messages_skipped (rc_stats b)" 0] assms(3,4)
  obtain sk rp calls where r: "replay_slots k (held_slots b) (rs_messages_skipped (rc_stats b), 0) = ((sk, rp), calls)"
      "concat (map applied_from calls) = [k..<held_reach k (held_slots b)]" "rp = held_reach k (held_slots b) - k"
      "sk + rp = rs_messages_skipped (rc_stats b) + held_messages (held_slots b)" "rs_messages_skipped (rc_stats b) \<le> sk"
    by (auto simp: held_discontinuity_def)
  then have "rs_messages_replayed (rc_stats b) + rp \<le> u64_max" using assms(5) by linarith
  then show ?thesis using assms(1) r by (simp add: rc_replay_def)
qed

lemma replay_slots_calls: "snd ` set (snd (replay_slots k ss acc)) \<subseteq> held_bytes ` set ss"
proof (induction k ss acc rule: replay_slots.induct)
  case (2 k s ss sk rp)
  show ?case
  proof (cases "held_end s \<le> k")
    case True
    then show ?thesis using 2(1) by auto
  next
    case False
    then show ?thesis using 2(2) [OF False refl] by (auto simp: Let_def case_prod_beta)
  qed
qed simp

text \<open>Two heartbeats held behind a gap, then a jump.\<close>

definition held_beat :: "nat \<Rightarrow> nat \<Rightarrow> held" where
  "held_beat f c = \<lparr>hs_first = f, hs_count = c, hs_len = length (datagram_image 0 0 f 7 (replicate c (EvHeartbeat 9))),
     hs_buf = datagram_image 0 0 f 7 (replicate c (EvHeartbeat 9))\<rparr>"

definition sample_recovery :: "recovery_state \<Rightarrow> held list \<Rightarrow> recovery_buffer" where
  "sample_recovery st hs = (RecoveryBuffer_new (length hs) 128 1000)\<lparr>rc_state := st, rc_started := Some 5, rc_held := hs, rc_occupied := length hs\<rparr>"

lemma held_beat_ok: "f + c \<le> u64_max \<Longrightarrow> c \<le> 100 \<Longrightarrow> slot_ok (held_beat f c)"
  using datagram_sequences_image [of "replicate c (EvHeartbeat 9)" 0 0 f 7]
  by (simp add: slot_ok_def held_beat_def held_bytes_def list_all_length)

lemma sample_recovery_simps [simp]:
  "rc_state (sample_recovery st hs) = st" "held_slots (sample_recovery st hs) = hs" "rc_stats (sample_recovery st hs) = recovery_stats_zero"
  "hs \<noteq> [] \<Longrightarrow> rc_inv (sample_recovery st hs)" "hs_first (held_beat f c) = f" "hs_count (held_beat f c) = c"
  by (simp_all add: sample_recovery_def held_slots_def RecoveryBuffer_new_def Let_def rc_inv_def held_beat_def Suc_le_eq)

section \<open>Properties\<close>

text \<open>Reconciling neither skips nor repeats a message. Once a snapshot or a replay covers everything below \<open>k\<close>, and the held
  datagrams are in stream order without a hole after \<open>k\<close>, replaying them applies exactly the sequences from \<open>k\<close> to the end
  of the held traffic, each once and in order, also when a datagram straddles the boundary; the count returned is their number, and every
  held message is counted either as skipped or as replayed.\<close>

lemma replay_applies_each_once:
  assumes "rc_state b = Reconciling k" "in_order (held_slots b)" "held_discontinuity k b = None"
    and "rs_messages_skipped (rc_stats b) + held_messages (held_slots b) \<le> u64_max"
    and "rs_messages_replayed (rc_stats b) + held_messages (held_slots b) \<le> u64_max"
  shows "\<exists>b' calls. rc_replay b = (b', held_reach k (held_slots b) - k, calls) \<and>
     concat (map applied_from calls) = [k..<held_reach k (held_slots b)] \<and>
     rs_messages_skipped (rc_stats b') + rs_messages_replayed (rc_stats b') =
       rs_messages_skipped (rc_stats b) + rs_messages_replayed (rc_stats b) + held_messages (held_slots b)"
  by (rule rc_replay_exact [OF assms])

text \<open>A hole inside the held traffic is never papered over. When the held datagrams are in stream order, draining behind a range
  that is covered through \<open>t\<close> applies exactly the sequences from \<open>t + 1\<close> to the first hole, each once, and keeps everything after the hole
  held; the sequence it reports complete is the start of the hole that \<open>held_discontinuity\<close> names. The messages it reports as unverified are
  exactly those of the datagrams that lie below the covered range, so there are none when the covered range starts at zero.\<close>

lemma drain_contiguous_stops_at_the_hole:
  assumes "rc_inv b" "in_order (held_slots b)" "t < u64_max"
    and "rs_messages_replayed (rc_stats b) + rs_messages_skipped (rc_stats b) + held_messages (held_slots b) \<le> u64_max"
  shows "\<exists>b' c u calls us vs. drain_contiguous (cf, t) b = (b', \<lparr>do_complete_through = c, do_unverified_messages = u\<rparr>, calls) \<and>
     held_slots b = us @ vs \<and> held_slots b' = vs \<and> concat (map applied_from calls) = [t + 1..<c] \<and> c = held_reach (t + 1) us \<and>
     held_discontinuity (t + 1) b = (if vs = [] then None else Some (c, hs_first (hd vs) - 1)) \<and>
     (vs = [] \<or> c < hs_first (hd vs)) \<and> rc_state b' = rc_state b \<and>
     u = held_messages (filter (\<lambda>s. hs_first s < cf \<and> hs_first s + hs_count s \<le> t + 1) us)"
proof -
  let ?r = "\<lparr>dr_expected = wrap_add_u64 (snd (cf, t)) 1, dr_drained = 0, dr_unverified = 0,
          dr_replayed = rs_messages_replayed (rc_stats b), dr_skipped = rs_messages_skipped (rc_stats b)\<rparr>"
  have e: "dr_expected ?r = t + 1" using assms(3) by simp
  obtain us vs r calls where d: "held_slots b = us @ vs" "drain_slots (fst (cf, t)) (held_slots b) ?r = (r, calls)"
      "concat (map applied_from calls) = [t + 1..<dr_expected r]" "dr_expected r = held_reach (t + 1) us"
      "dr_drained r = length us" "vs = [] \<or> dr_expected r < hs_first (hd vs)"
      "dr_unverified r = held_messages (filter (\<lambda>s. hs_first s < cf \<and> hs_first s + hs_count s \<le> t + 1) us)"
      "discontinuity (t + 1) (held_slots b) = (if vs = [] then None else Some (dr_expected r, hs_first (hd vs) - 1))"
  proof -
    have "t + 1 = t + 1 \<or> (\<forall>s\<in>set (held_slots b). t + 1 \<le> hs_first s)" "dr_unverified ?r + held_messages (held_slots b) \<le> u64_max"
      "dr_replayed ?r + dr_skipped ?r + held_messages (held_slots b) \<le> u64_max" using assms(4) by simp_all
    from drain_slots_exact [OF assms(2) e le_refl this(1,3,2), of cf] show thesis
      by (elim exE conjE) (rule that; simp)
  qed
  obtain b' where "drain_contiguous (cf, t) b = (b', \<lparr>do_complete_through = dr_expected r, do_unverified_messages = dr_unverified r\<rparr>, calls)"
      "held_slots b' = vs" "rc_state b' = rc_state b"
    by (rule drain_contiguous_slots [OF assms(1) d(2,1,5) refl])
  then show ?thesis using d(1,3,4,6,7,8) unfolding held_discontinuity_def
    by (intro exI [of _ b'] exI [of _ "dr_expected r"] exI [of _ "dr_unverified r"] exI [of _ calls] exI [of _ us] exI [of _ vs]) simp
qed

text \<open>The recovery buffer is bounded and says when it is full. In every state reachable from a new buffer, holding a datagram never panics: it
  is refused exactly when as many datagrams are held as the buffer was sized for, and otherwise appended, cut to the slot's
  size, behind the ones already held.\<close>

lemma recovery_buffer_bounded:
  assumes "rc_step\<^sup>*\<^sup>* (RecoveryBuffer_new n m t) b"
  shows "length (held_slots b) \<le> max n 1 \<and>
     (if length (held_slots b) = max n 1 then hold f c d b = (b, Err (BufferFull (max n 1)))
      else \<exists>b' s. hold f c d b = (b', Ok ()) \<and> held_slots b' = held_slots b @ [s] \<and> hs_first s = f \<and> hs_count s = c \<and>
             held_bytes s = take (length (hs_buf s)) d)"
proof -
  have i: "rc_inv b" "rc_capacity b = max n 1" using rc_reachable_inv [OF assms] by auto
  note l = held_slots_length [OF i(1)]
  have le: "rc_occupied b \<le> max n 1" using i by (simp add: rc_inv_def)
  show ?thesis
  proof (cases "rc_occupied b = max n 1")
    case True
    then show ?thesis using l i(2) by (simp add: hold_def)
  next
    case False
    then have o: "rc_occupied b < length (rc_held b)" "rc_occupied b \<noteq> rc_capacity b" using le i by (auto simp: rc_inv_def)
    define s0 where "s0 = rc_held b ! rc_occupied b"
    define len where "len = min (length d) (length (hs_buf s0))"
    define s where "s = s0\<lparr>hs_buf := take len d @ drop len (hs_buf s0), hs_len := len, hs_first := f, hs_count := c\<rparr>"
    define b' where "b' = fst (hold f c d b)"
    have "hold f c d b = (b', Ok ())" using o by (simp add: b'_def hold_def Let_def)
    moreover have "held_slots b' = held_slots b @ [s]"
      using o by (simp add: b'_def hold_def Let_def s_def len_def s0_def held_slots_def take_Suc_conv_app_nth)
    moreover have "held_bytes s = take (length (hs_buf s)) d" by (auto simp: s_def held_bytes_def len_def min_def)
    moreover have "hs_first s = f" "hs_count s = c" by (simp_all add: s_def)
    ultimately show ?thesis using False l le by auto
  qed
qed

text \<open>C36: a recovery that is not answered ends. However much traffic is held, however many further gaps are declared and however many
  replays are refused in the meantime, the clock of a recovery begun at \<open>t0\<close> keeps running: the deadline check reports the time-out
  exactly from \<open>t0\<close> plus the deadline on, and failing the recovery leaves the buffer idle and empty, ready to begin again.\<close>

theorem recovery_times_out:
  assumes "\<not> is_recovering b" "wait_step\<^sup>*\<^sup>* (rc_begin g t0 b) b'"
  shows "rc_state b' = AwaitingSnapshot g \<and>
     check_deadline now b' = (if rc_deadline b \<le> now - t0 then Err (TimedOut (rc_deadline b)) else Ok ()) \<and>
     \<not> is_recovering (rc_fail b') \<and> held_slots (rc_fail b') = []"
proof -
  have "is_recovering (rc_begin g t0 b)" using assms(1) by (simp add: rc_begin_def is_recovering_def)
  from wait_keeps_clock [OF assms(2) this] show ?thesis
    using assms(1) by (simp add: check_deadline_def rc_begin_def is_recovering_def rc_fail_def rc_reset_def held_slots_def)
qed

theorem recovery_times_out_witness:
  "check_deadline 105 (rc_begin 9 50 (rc_begin 3 5 (RecoveryBuffer_new 4 64 100))) = Err (TimedOut 100)"
proof -
  let ?b = "RecoveryBuffer_new 4 64 100"
  have "wait_step\<^sup>*\<^sup>* (rc_begin 3 5 ?b) (rc_begin 9 50 (rc_begin 3 5 ?b))" by (intro r_into_rtranclp wait_begin)
  moreover have "\<not> is_recovering ?b" "rc_deadline ?b = 100" by (simp_all add: is_recovering_def RecoveryBuffer_new_def Let_def)
  ultimately show ?thesis using recovery_times_out [of ?b 3 5 _ 105] by simp
qed

end
