(* ===== verification/BookDigest.thy ===== *)
theory BookDigest
  imports Apply
begin

text \<open>
  The book fingerprint, \<open>crates/book/src/digest.rs\<close>, and the checkpoint log, \<open>crates/book/src/digestlog.rs\<close>. The
  digest is written once against the book interface; the laws it needs of a book are a locale, and inside it the
  digest is shown to be a function of the resting orders alone.
\<close>

unbundle bit_operations_syntax

section \<open>FNV-1a\<close>

abbreviation (input) DIGEST_DEPTH :: nat where "DIGEST_DEPTH \<equiv> 10"

definition FNV_OFFSET :: "64 word" where "FNV_OFFSET = 0xcbf29ce484222325"

definition FNV_PRIME :: "64 word" where "FNV_PRIME = 0x00000100000001b3"

fun fnv_write :: "bytes \<Rightarrow> 64 word \<Rightarrow> 64 word" where
  "fnv_write [] h = h"
| "fnv_write (b # bs) h = fnv_write bs ((h XOR ucast b) * FNV_PRIME)"

section \<open>Hashing books\<close>

definition hash_level :: "level \<Rightarrow> 64 word \<Rightarrow> 64 word" where
  "hash_level l h = fnv_write (to_le 4 (lv_order_count l)) (fnv_write (to_le 8 (lv_quantity l)) (fnv_write (i64_to_le (lv_price l)) h))"

definition hash_side :: "'b book_ops \<Rightarrow> nat \<Rightarrow> 'b \<Rightarrow> side \<Rightarrow> 64 word \<Rightarrow> 64 word" where
  "hash_side ops depth book side h =
     fold hash_level (ob_for_each_level ops book side depth)
       (fnv_write (to_le 4 (ob_level_count ops book side depth mod 2 ^ 32)) (fnv_write [of_nat (Side_to_u8 side)] h))"

definition hash_symbol :: "'b book_ops \<Rightarrow> nat \<Rightarrow> nat \<times> 'b \<Rightarrow> 64 word \<Rightarrow> 64 word" where
  "hash_symbol ops depth e h =
     (if ob_len ops (snd e) = 0 then h
      else hash_side ops depth (snd e) Ask (hash_side ops depth (snd e) Bid (fnv_write (to_le 2 (fst e)) h)))"

definition hash_books :: "'b book_ops \<Rightarrow> 'b books \<Rightarrow> nat \<Rightarrow> 64 word" where
  "hash_books ops bks depth = fold (hash_symbol ops depth) bks FNV_OFFSET"

record book_digest =
  bd_top :: "64 word"
  bd_full :: "64 word"
  bd_orders :: nat

definition BookDigest_of :: "'b book_ops \<Rightarrow> 'b books \<Rightarrow> book_digest" where
  "BookDigest_of ops bks = \<lparr>bd_top = hash_books ops bks DIGEST_DEPTH, bd_full = hash_books ops bks 0,
     bd_orders = books_total_orders ops bks mod 2 ^ 64\<rparr>"

section \<open>Checkpoint log\<close>

text \<open>The sink, when there is one, as the lines written so far; \<open>dl_writes k\<close> says whether the write of line \<open>k\<close> succeeds.\<close>

record digest_log =
  dl_sink :: "(nat \<times> book_digest) list option"
  dl_writes :: "nat \<Rightarrow> bool"

definition digest_log_write :: "nat \<Rightarrow> book_digest \<Rightarrow> digest_log \<Rightarrow> digest_log \<times> bool" where
  "digest_log_write sequence digest l =
     (case dl_sink l of
        None \<Rightarrow> (l, True)
      | Some ls \<Rightarrow> if dl_writes l (length ls) then (l\<lparr>dl_sink := Some (ls @ [(sequence, digest)])\<rparr>, True) else (l, False))"

section \<open>The digest as a function of the resting orders\<close>

definition spec_levels_to :: "nat \<Rightarrow> side \<Rightarrow> spec_book \<Rightarrow> level list" where
  "spec_levels_to depth s bs = (if depth = 0 then spec_levels s bs else take depth (spec_levels s bs))"

definition spec_hash_side :: "nat \<Rightarrow> spec_book \<Rightarrow> side \<Rightarrow> 64 word \<Rightarrow> 64 word" where
  "spec_hash_side depth bs s h = fold hash_level (spec_levels_to depth s bs)
     (fnv_write (to_le 4 (length (spec_levels_to depth s bs) mod 2 ^ 32)) (fnv_write [of_nat (Side_to_u8 s)] h))"

definition live_symbols :: "spec_books \<Rightarrow> nat list" where
  "live_symbols sp = sorted_list_of_set {y. sp y \<noteq> []}"

definition spec_hash :: "spec_books \<Rightarrow> nat \<Rightarrow> 64 word" where
  "spec_hash sp depth = fold (\<lambda>y h. spec_hash_side depth (sp y) Ask (spec_hash_side depth (sp y) Bid (fnv_write (to_le 2 y) h)))
     (live_symbols sp) FNV_OFFSET"

definition spec_digest :: "spec_books \<Rightarrow> book_digest" where
  "spec_digest sp = \<lparr>bd_top = spec_hash sp DIGEST_DEPTH, bd_full = spec_hash sp 0,
     bd_orders = sum_list (map (\<lambda>y. length (sp y)) (live_symbols sp)) mod 2 ^ 64\<rparr>"

locale leveled_book_set = book_set +
  assumes levels_sim: "rel b bs \<Longrightarrow> ob_for_each_level ops b s depth = spec_levels_to depth s bs"
    and level_count_sim: "rel b bs \<Longrightarrow> ob_level_count ops b s depth = length (spec_levels_to depth s bs)"
begin

lemma hash_side_sim: "rel b bs \<Longrightarrow> hash_side ops depth b s h = spec_hash_side depth bs s h"
  by (simp add: hash_side_def spec_hash_side_def levels_sim level_count_sim)

lemma occupied_symbols:
  assumes "books_rel rel bks sp"
  shows "map fst (filter (\<lambda>e. ob_len ops (snd e) \<noteq> 0) bks) = live_symbols sp"
    and "e \<in> set bks \<Longrightarrow> rel (snd e) (sp (fst e))"
proof -
  have inv: "sorted_wrt (<) (map fst bks)" using assms by (simp add: books_rel_def om_invar_def)
  then have dist: "distinct (map fst bks)" by (simp add: strict_sorted_iff)
  show r: "rel (snd e) (sp (fst e))" if "e \<in> set bks" for e
    using that assms dist by (auto simp: books_rel_def om_get_map_of)
  let ?f = "filter (\<lambda>e. ob_len ops (snd e) \<noteq> 0) bks"
  have "set (map fst ?f) = {y. sp y \<noteq> []}"
  proof
    show "set (map fst ?f) \<subseteq> {y. sp y \<noteq> []}" using r len_sim by fastforce
    show "{y. sp y \<noteq> []} \<subseteq> set (map fst ?f)"
    proof
      fix y
      assume y: "y \<in> {y. sp y \<noteq> []}"
      then obtain b where b: "om_get y bks = Some b" "rel b (sp y)" using assms by (cases "om_get y bks") (auto simp: books_rel_def)
      then have "(y, b) \<in> set bks" by (simp add: om_get_map_of map_of_SomeD)
      moreover have "ob_len ops b \<noteq> 0" using len_sim [OF b(2)] y by simp
      ultimately show "y \<in> set (map fst ?f)" by force
    qed
  qed
  moreover have "sorted (map fst ?f)" "distinct (map fst ?f)"
    using inv dist by (auto simp: strict_sorted_iff sorted_filter distinct_map_filter)
  ultimately show "map fst ?f = live_symbols sp"
    unfolding live_symbols_def by (metis List.finite_set sorted_list_of_set.idem_if_sorted_distinct)
qed

lemma hash_books_sim:
  assumes "books_rel rel bks sp"
  shows "hash_books ops bks depth = spec_hash sp depth"
proof -
  let ?g = "\<lambda>y h. spec_hash_side depth (sp y) Ask (spec_hash_side depth (sp y) Bid (fnv_write (to_le 2 y) h))"
  have "fold (hash_symbol ops depth) es h = fold ?g (map fst (filter (\<lambda>e. ob_len ops (snd e) \<noteq> 0) es)) h"
    if "set es \<subseteq> set bks" for es h
    using that
  proof (induction es arbitrary: h)
    case (Cons e es)
    then have "rel (snd e) (sp (fst e))" using occupied_symbols(2) [OF assms] by simp
    then have "hash_symbol ops depth e h = (if ob_len ops (snd e) \<noteq> 0 then ?g (fst e) h else h)" for h
      by (simp add: hash_symbol_def hash_side_sim)
    with Cons show ?case by simp
  qed simp
  then show ?thesis unfolding hash_books_def spec_hash_def occupied_symbols(1) [OF assms, symmetric] by simp
qed

lemma digest_sim:
  assumes "books_rel rel bks sp"
  shows "BookDigest_of ops bks = spec_digest sp"
proof -
  have "books_total_orders ops es = sum_list (map (\<lambda>y. length (sp y)) (map fst (filter (\<lambda>e. ob_len ops (snd e) \<noteq> 0) es)))"
    if "set es \<subseteq> set bks" for es
    using that
  proof (induction es)
    case (Cons e es)
    then have "ob_len ops (snd e) = length (sp (fst e))" using occupied_symbols(2) [OF assms] len_sim by simp
    with Cons show ?case by (auto simp: books_total_orders_def split: prod.splits)
  qed (simp add: books_total_orders_def)
  then have "books_total_orders ops bks = sum_list (map (\<lambda>y. length (sp y)) (live_symbols sp))"
    unfolding occupied_symbols(1) [OF assms, symmetric] by simp
  then show ?thesis by (simp add: BookDigest_of_def spec_digest_def hash_books_sim [OF assms])
qed

end

interpretation refdigest: leveled_book_set refbook_ops refbook_rel False "\<lambda>_ _. True" refbook_new
  by unfold_locales (simp_all add: refbook_ops_def rb_for_each_level_rel rb_level_count_rel spec_levels_to_def)

end
