(* ===== verification/Handler.thy ===== *)
theory Handler
  imports ArmStream Recovery BookDigest
begin

text \<open>
  The feed handler, \<open>crates/feed-handler/src/main.rs\<close> and \<open>stats.rs\<close>: applying the messages of a datagram, adopting a
  snapshot cycle, applying a replay answer, and what the receive loop does with one datagram, with a quiet pass, and with the replay
  channel. The sockets, the clock, the replay thread and the log file are inputs; the book implementation is a parameter, as the
  source is generic in it.
\<close>

section \<open>Statistics\<close>

record handler_stats =
  hs_messages :: nat
  hs_trades :: nat
  hs_shares_traded :: nat
  hs_first_sequence :: nat
  hs_last_sequence :: nat
  hs_bad_datagrams :: nat
  hs_apply_errors :: nat
  hs_unverified_drops :: nat
  hs_apply_errors_after_gap :: nat
  hs_joined_mid_stream :: bool
  hs_recoveries :: nat
  hs_recovery_failures :: nat
  hs_recoveries_abandoned :: nat
  hs_snapshots_discarded :: nat
  hs_applied_high :: nat
  hs_sequence_jumps :: nat
  hs_first_jump :: "(nat \<times> nat) option"
  hs_duplicate_applies :: nat
  hs_first_duplicate :: "(nat \<times> nat) option"
  hs_replay_requested :: nat

definition handler_stats_zero :: handler_stats where
  "handler_stats_zero = \<lparr>hs_messages = 0, hs_trades = 0, hs_shares_traded = 0, hs_first_sequence = 0, hs_last_sequence = 0,
     hs_bad_datagrams = 0, hs_apply_errors = 0, hs_unverified_drops = 0, hs_apply_errors_after_gap = 0, hs_joined_mid_stream = False,
     hs_recoveries = 0, hs_recovery_failures = 0, hs_recoveries_abandoned = 0, hs_snapshots_discarded = 0, hs_applied_high = 0,
     hs_sequence_jumps = 0, hs_first_jump = None, hs_duplicate_applies = 0, hs_first_duplicate = None, hs_replay_requested = 0\<rparr>"

definition is_clean :: "handler_stats \<Rightarrow> arbitrator \<Rightarrow> bool \<Rightarrow> bool" where
  "is_clean st arb recovering \<longleftrightarrow> ar_state arb \<noteq> Gapped \<and> \<not> recovering \<and> hs_recoveries_abandoned st = 0 \<and>
     hs_bad_datagrams st = 0 \<and> hs_apply_errors st = 0 \<and> ac_dropped_window_full (arb_arm 0 arb) = 0 \<and>
     ac_dropped_window_full (arb_arm 1 arb) = 0 \<and> hs_unverified_drops st = 0 \<and> hs_sequence_jumps st = 0 \<and>
     hs_duplicate_applies st = 0"

section \<open>State\<close>

text \<open>The variables of the receive loop, and what it is configured with.\<close>

record 'b handler =
  hd_books :: "'b books"
  hd_stats :: handler_stats
  hd_log :: digest_log
  hd_arb :: arbitrator
  hd_rec :: recovery_buffer
  hd_in_cycle :: bool
  hd_started :: bool
  hd_join_retries :: nat

record 'b handler_cfg =
  hc_ops :: "'b book_ops"
  hc_new :: 'b
  hc_digest_interval :: nat
  hc_message_limit :: nat
  hc_window :: nat
  hc_buffer :: nat
  hc_timeout :: nat
  hc_gap_timeout :: nat
  hc_datagram_bytes :: nat

datatype handler_error =
    LogWriteFailed
  | CannotBuildBook

type_synonym ('b, 'a) handler_op = "('b handler, handler_error, 'a) mut_method"

definition handler_new :: "'b handler_cfg \<Rightarrow> digest_log \<Rightarrow> 'b books \<Rightarrow> 'b handler" where
  "handler_new cfg dlog bks =
     \<lparr>hd_books = bks, hd_stats = handler_stats_zero, hd_log = dlog,
      hd_arb = Arbitrator_new (hc_window cfg) (max (hc_datagram_bytes cfg) 65536),
      hd_rec = RecoveryBuffer_new (hc_buffer cfg) (max (hc_datagram_bytes cfg) 65536) (hc_timeout cfg),
      hd_in_cycle = False, hd_started = False, hd_join_retries = 0\<rparr>"

definition on_stats :: "(handler_stats \<Rightarrow> handler_stats) \<Rightarrow> 'b handler \<Rightarrow> 'b handler" where
  "on_stats f h = h\<lparr>hd_stats := f (hd_stats h)\<rparr>"

section \<open>Consuming a datagram\<close>

definition note_jump :: "bool \<Rightarrow> nat \<Rightarrow> handler_stats \<Rightarrow> handler_stats" where
  "note_jump gapped sq st =
     (if \<not> gapped \<and> hs_applied_high st \<noteq> 0 \<and> wrap_add_u64 (hs_applied_high st) 1 < sq
      then st\<lparr>hs_sequence_jumps := wrap_add_u64 (hs_sequence_jumps st) 1,
              hs_first_jump := (case hs_first_jump st of None \<Rightarrow> Some (hs_applied_high st, sq) | j \<Rightarrow> j)\<rparr>
      else st)"

definition note_duplicate :: "nat \<Rightarrow> handler_stats \<Rightarrow> handler_stats" where
  "note_duplicate sq st =
     (if hs_applied_high st \<noteq> 0 \<and> sq \<le> hs_applied_high st
      then st\<lparr>hs_duplicate_applies := wrap_add_u64 (hs_duplicate_applies st) 1,
              hs_first_duplicate := (case hs_first_duplicate st of None \<Rightarrow> Some (sq, hs_applied_high st) | d \<Rightarrow> d)\<rparr>
      else st)"

definition note_applied :: "nat \<Rightarrow> handler_stats \<Rightarrow> handler_stats" where
  "note_applied sq st =
     st\<lparr>hs_applied_high := max (hs_applied_high st) sq, hs_messages := wrap_add_u64 (hs_messages st) 1, hs_last_sequence := sq\<rparr>"

definition note_apply_error :: "bool \<Rightarrow> handler_stats \<Rightarrow> handler_stats" where
  "note_apply_error gapped st =
     (if gapped \<or> hs_joined_mid_stream st
      then st\<lparr>hs_apply_errors_after_gap := wrap_add_u64 (hs_apply_errors_after_gap st) 1\<rparr>
      else st\<lparr>hs_apply_errors := wrap_add_u64 (hs_apply_errors st) 1\<rparr>)"

definition note_trade :: "nat \<Rightarrow> handler_stats \<Rightarrow> handler_stats" where
  "note_trade quantity st =
     st\<lparr>hs_trades := wrap_add_u64 (hs_trades st) 1, hs_shares_traded := wrap_add_u64 (hs_shares_traded st) quantity\<rparr>"

definition apply_one :: "'b handler_cfg \<Rightarrow> bool \<Rightarrow> message \<Rightarrow> ('b, unit) handler_op" where
  "apply_one cfg gapped msg h =
     (case apply_message (hc_ops cfg) (hc_new cfg) (hd_books h) msg of
        (bks, Ok _) \<Rightarrow> (h\<lparr>hd_books := bks\<rparr>, Ok ())
      | (bks, Err _) \<Rightarrow> (on_stats (note_apply_error gapped) (h\<lparr>hd_books := bks\<rparr>), Ok ())
      | (bks, Panic) \<Rightarrow> (h\<lparr>hd_books := bks\<rparr>, Panic))"

definition count_trade_message :: "message \<Rightarrow> ('b, unit) handler_op" where
  "count_trade_message msg h =
     (case msg of
        Trade d \<Rightarrow> (case Trade_quantity d of Ok q \<Rightarrow> (on_stats (note_trade q) h, Ok ()) | _ \<Rightarrow> (h, Panic))
      | _ \<Rightarrow> (h, Ok ()))"

definition checkpoint :: "'b handler_cfg \<Rightarrow> nat \<Rightarrow> ('b, unit) handler_op" where
  "checkpoint cfg sq h =
     (if 0 < hc_digest_interval cfg \<and> sq mod hc_digest_interval cfg = 0
      then case digest_log_write sq (BookDigest_of (hc_ops cfg) (hd_books h)) (hd_log h) of
             (l, True) \<Rightarrow> (h\<lparr>hd_log := l\<rparr>, Ok ())
           | (l, False) \<Rightarrow> (h\<lparr>hd_log := l\<rparr>, Err LogWriteFailed)
      else (h, Ok ()))"

definition consume_message :: "'b handler_cfg \<Rightarrow> bool \<Rightarrow> nat \<Rightarrow> message \<Rightarrow> ('b, unit) handler_op" where
  "consume_message cfg gapped sq msg h =
     sbind (apply_one cfg gapped msg) (\<lambda>_. sbind (count_trade_message msg) (\<lambda>_. checkpoint cfg sq))
       (on_stats (\<lambda>st. note_applied sq (note_duplicate sq (note_jump gapped sq st))) h)"

definition count_bad :: "'b handler \<Rightarrow> 'b handler" where
  "count_bad h = on_stats (\<lambda>st. st\<lparr>hs_bad_datagrams := wrap_add_u64 (hs_bad_datagrams st) 1\<rparr>) h"

fun consume_items :: "'b handler_cfg \<Rightarrow> bool \<Rightarrow> nat \<Rightarrow> nat \<Rightarrow> (wire_error + nat \<times> message) list \<Rightarrow> bool \<Rightarrow> ('b, bool) handler_op" where
  "consume_items cfg gapped skip_below skip_above [] any h = (h, Ok any)"
| "consume_items cfg gapped skip_below skip_above (Inl e # ms) any h = (count_bad h, Ok any)"
| "consume_items cfg gapped skip_below skip_above (Inr (sq, msg) # ms) any h =
     (if sq < skip_below \<or> skip_above < sq then consume_items cfg gapped skip_below skip_above ms any h
      else case consume_message cfg gapped sq msg h of
             (h', Ok _) \<Rightarrow> consume_items cfg gapped skip_below skip_above ms True h'
           | (h', Err e) \<Rightarrow> (h', Err e)
           | (h', Panic) \<Rightarrow> (h', Panic))"

definition consume :: "'b handler_cfg \<Rightarrow> bool \<Rightarrow> nat \<Rightarrow> nat \<Rightarrow> bytes \<Rightarrow> ('b, bool) handler_op" where
  "consume cfg gapped skip_below skip_above datagram h =
     (case datagram_items datagram of
        Ok ms \<Rightarrow> consume_items cfg gapped skip_below skip_above ms False h
      | Err e \<Rightarrow> (count_bad h, Ok False)
      | Panic \<Rightarrow> (h, Panic))"

text \<open>The callbacks of \<open>drain_ready\<close>, \<open>replay\<close> and \<open>drain_contiguous\<close>: consume until the first failure, which is raised at the end.\<close>

fun consume_calls :: "'b handler_cfg \<Rightarrow> bool \<Rightarrow> (nat \<times> bytes) list \<Rightarrow> ('b, unit) handler_op" where
  "consume_calls cfg gapped [] h = (h, Ok ())"
| "consume_calls cfg gapped ((skip_below, d) # cs) h =
     (case consume cfg gapped skip_below u64_max d h of
        (h', Ok _) \<Rightarrow> consume_calls cfg gapped cs h'
      | (h', Err e) \<Rightarrow> (h', Err e)
      | (h', Panic) \<Rightarrow> (h', Panic))"

definition drain_into_books :: "'b handler_cfg \<Rightarrow> ('b, unit) handler_op" where
  "drain_into_books cfg h =
     (case drain_ready (hd_arb h) of
        (a, out) \<Rightarrow> consume_calls cfg (ar_state (hd_arb h) = Gapped) (map (\<lambda>x. (0, snd (snd x))) out) (h\<lparr>hd_arb := a\<rparr>))"

section \<open>Replay answers\<close>

record replay_result =
  rr_from :: nat
  rr_through :: nat
  rr_datagrams :: "bytes list"

record coverage =
  cv_messages :: nat
  cv_through :: nat
  cv_contiguous :: bool

definition extend_coverage :: "nat \<Rightarrow> bytes \<Rightarrow> coverage \<Rightarrow> (handler_error, coverage) outcome" where
  "extend_coverage through datagram c =
     (case PacketHeader_wrap datagram of
        Ok hdr \<Rightarrow>
          (case obind (PacketHeader_first_sequence hdr) (\<lambda>f. obind (PacketHeader_message_count hdr) (\<lambda>n. Ok (f, n))) of
             Ok (first, n) \<Rightarrow>
               (let end = wrap_add_u64 first n; c = c\<lparr>cv_messages := wrap_add_u64 (cv_messages c) n\<rparr> in
                Ok (if cv_contiguous c \<and> first \<le> wrap_add_u64 (cv_through c) 1
                    then c\<lparr>cv_through := min (max (cv_through c) (end - 1)) through\<rparr>
                    else c\<lparr>cv_contiguous := False\<rparr>))
           | _ \<Rightarrow> Panic)
      | Err e \<Rightarrow> Ok c
      | Panic \<Rightarrow> Panic)"

fun apply_answer :: "'b handler_cfg \<Rightarrow> nat \<Rightarrow> nat \<Rightarrow> bytes list \<Rightarrow> coverage \<Rightarrow> ('b, coverage) handler_op" where
  "apply_answer cfg f t [] c h = (h, Ok c)"
| "apply_answer cfg f t (d # ds) c h =
     (case consume cfg False f t d h of
        (h', Ok _) \<Rightarrow>
          (case extend_coverage t d c of
             Ok c' \<Rightarrow> apply_answer cfg f t ds c' h'
           | Err e \<Rightarrow> (h', Err e)
           | Panic \<Rightarrow> (h', Panic))
      | (h', Err e) \<Rightarrow> (h', Err e)
      | (h', Panic) \<Rightarrow> (h', Panic))"

definition count_unverified :: "nat \<Rightarrow> 'b handler \<Rightarrow> 'b handler" where
  "count_unverified n h =
     (if 0 < n then on_stats (\<lambda>st. st\<lparr>hs_unverified_drops := wrap_add_u64 (hs_unverified_drops st) n\<rparr>) h else h)"

text \<open>The held traffic before a new hole is applied and dropped, and the recovery stays open for the hole.\<close>

definition drain_and_reopen :: "'b handler_cfg \<Rightarrow> nat \<times> nat \<Rightarrow> nat \<Rightarrow> ('b, nat) handler_op" where
  "drain_and_reopen cfg covered hole_from h =
     (case drain_contiguous covered (hd_rec h) of
        (b, outcome, calls) \<Rightarrow>
          (case consume_calls cfg False calls (h\<lparr>hd_rec := b\<rparr>) of
             (h', Ok _) \<Rightarrow> (h'\<lparr>hd_rec := reopen hole_from (hd_rec h')\<rparr>, Ok (do_unverified_messages outcome))
           | (h', Err e) \<Rightarrow> (h', Err e)
           | (h', Panic) \<Rightarrow> (h', Panic)))"

definition replay_held :: "'b handler_cfg \<Rightarrow> ('b, unit) handler_op" where
  "replay_held cfg h =
     (case rc_replay (hd_rec h) of (b, n, calls) \<Rightarrow> consume_calls cfg False calls (h\<lparr>hd_rec := b\<rparr>))"

definition finish_recovery :: "nat \<Rightarrow> 'b handler \<Rightarrow> 'b handler" where
  "finish_recovery now h =
     on_stats (\<lambda>st. st\<lparr>hs_recoveries := wrap_add_u64 (hs_recoveries st) 1\<rparr>) (h\<lparr>hd_rec := fst (rc_complete now (hd_rec h))\<rparr>)"

definition apply_replay :: "'b handler_cfg \<Rightarrow> nat \<Rightarrow> replay_result \<Rightarrow> ('b, bool) handler_op" where
  "apply_replay cfg now result h =
     (if \<not> is_recovering (hd_rec h) then (h, Ok False)
      else case apply_answer cfg (rr_from result) (rr_through result) (rr_datagrams result)
              \<lparr>cv_messages = 0, cv_through = rr_from result - 1, cv_contiguous = True\<rparr> h of
        (h, Err e) \<Rightarrow> (h, Err e)
      | (h, Panic) \<Rightarrow> (h, Panic)
      | (h, Ok c) \<Rightarrow>
          if cv_through c < rr_from result then (h, Ok False)
          else case held_discontinuity (wrap_add_u64 (cv_through c) 1) (hd_rec h) of
            Some (hole_from, hole_through) \<Rightarrow>
              (case drain_and_reopen cfg (rr_from result, cv_through c) hole_from h of
                 (h, Ok n) \<Rightarrow> (count_unverified n h, Ok False)
               | (h, Err e) \<Rightarrow> (h, Err e)
               | (h, Panic) \<Rightarrow> (h, Panic))
          | None \<Rightarrow>
              (case adopt_replay (cv_through c) (cv_messages c) (hd_rec h) of
                 (b, False) \<Rightarrow> (h\<lparr>hd_rec := b\<rparr>, Ok False)
               | (b, True) \<Rightarrow>
                   (case replay_held cfg (h\<lparr>hd_rec := b\<rparr>) of
                      (h, Ok _) \<Rightarrow> (finish_recovery now (h\<lparr>hd_arb := clear_gapped (hd_arb h)\<rparr>), Ok True)
                    | (h, Err e) \<Rightarrow> (h, Err e)
                    | (h, Panic) \<Rightarrow> (h, Panic))))"

section \<open>Snapshot cycles\<close>

definition is_snapshot_datagram :: "bytes \<Rightarrow> bool" where
  "is_snapshot_datagram datagram \<longleftrightarrow>
     (case PacketHeader_wrap datagram of Ok hdr \<Rightarrow> PacketHeader_is_snapshot hdr = Ok True | _ \<Rightarrow> False)"

definition count_discarded :: "'b handler \<Rightarrow> 'b handler" where
  "count_discarded h = on_stats (\<lambda>st. st\<lparr>hs_snapshots_discarded := wrap_add_u64 (hs_snapshots_discarded st) 1\<rparr>) h"

text \<open>The last fragment of a cycle has been applied: adopt it, move the arbitrator, and replay what was held. The result says whether
  the loop over the datagram's messages goes on.\<close>

definition finish_cycle :: "'b handler_cfg \<Rightarrow> nat \<Rightarrow> nat \<Rightarrow> ('b, bool) handler_op" where
  "finish_cycle cfg now last_sequence h =
     (case held_discontinuity (wrap_add_u64 last_sequence 1) (hd_rec h) of
        Some (hole_from, hole_through) \<Rightarrow>
          (case drain_and_reopen cfg (0, last_sequence) hole_from h of
             (h, Ok _) \<Rightarrow> (h\<lparr>hd_in_cycle := False\<rparr>, Ok False)
           | (h, Err e) \<Rightarrow> (h, Err e)
           | (h, Panic) \<Rightarrow> (h, Panic))
      | None \<Rightarrow>
          (case replay_held cfg (on_stats (\<lambda>st. st\<lparr>hs_applied_high := max (hs_applied_high st) last_sequence\<rparr>)
              (h\<lparr>hd_rec := adopt_snapshot last_sequence (hd_rec h), hd_arb := resync_to (wrap_add_u64 last_sequence 1) (hd_arb h)\<rparr>)) of
             (h, Ok _) \<Rightarrow> (finish_recovery now (h\<lparr>hd_in_cycle := False\<rparr>), Ok True)
           | (h, Err e) \<Rightarrow> (h, Err e)
           | (h, Panic) \<Rightarrow> (h, Panic)))"

definition snapshot_fragment :: "'b handler_cfg \<Rightarrow> nat \<Rightarrow> message \<Rightarrow> nat \<Rightarrow> nat \<Rightarrow> ('b, bool) handler_op" where
  "snapshot_fragment cfg now msg last_sequence flags h =
     (if \<not> snapshot_is_usable last_sequence (hd_rec h) then (count_discarded h, Ok True)
      else
        let cycle_start = (flags AND SNAPSHOT_FLAG_CYCLE_START \<noteq> 0) in
        if \<not> cycle_start \<and> \<not> hd_in_cycle h then (count_discarded h, Ok True)
        else
          let h = (if cycle_start then h\<lparr>hd_books := books_clear_all (hc_ops cfg) (hd_books h), hd_in_cycle := True\<rparr> else h) in
          case apply_message (hc_ops cfg) (hc_new cfg) (hd_books h) msg of
            (bks, Panic) \<Rightarrow> (h\<lparr>hd_books := bks\<rparr>, Panic)
          | (bks, Err e) \<Rightarrow>
              (on_stats (\<lambda>st. st\<lparr>hs_apply_errors := wrap_add_u64 (hs_apply_errors st) 1\<rparr>) (h\<lparr>hd_books := bks, hd_in_cycle := False\<rparr>), Ok False)
          | (bks, Ok _) \<Rightarrow>
              if flags AND SNAPSHOT_FLAG_CYCLE_END = 0 then (h\<lparr>hd_books := bks\<rparr>, Ok True)
              else finish_cycle cfg now last_sequence (h\<lparr>hd_books := bks\<rparr>))"

fun snapshot_items :: "'b handler_cfg \<Rightarrow> nat \<Rightarrow> (wire_error + nat \<times> message) list \<Rightarrow> ('b, unit) handler_op" where
  "snapshot_items cfg now [] h = (h, Ok ())"
| "snapshot_items cfg now (Inl e # ms) h = (count_bad h, Ok ())"
| "snapshot_items cfg now (Inr (sq, msg) # ms) h =
     (case msg of
        Snapshot d \<Rightarrow>
          (case obind (Snapshot_last_sequence d) (\<lambda>l. obind (Snapshot_flags d) (\<lambda>f. Ok (l, f))) of
             Ok (last_sequence, flags) \<Rightarrow>
               (case snapshot_fragment cfg now msg last_sequence flags h of
                  (h', Ok True) \<Rightarrow> snapshot_items cfg now ms h'
                | (h', Ok False) \<Rightarrow> (h', Ok ())
                | (h', Err e) \<Rightarrow> (h', Err e)
                | (h', Panic) \<Rightarrow> (h', Panic))
           | _ \<Rightarrow> (h, Panic))
      | _ \<Rightarrow> snapshot_items cfg now ms h)"

definition handle_snapshot :: "'b handler_cfg \<Rightarrow> nat \<Rightarrow> bytes \<Rightarrow> ('b, unit) handler_op" where
  "handle_snapshot cfg now datagram h =
     (if \<not> is_recovering (hd_rec h) then (h, Ok ())
      else case datagram_items datagram of
        Ok ms \<Rightarrow> snapshot_items cfg now ms h
      | Err e \<Rightarrow> (count_bad h, Ok ())
      | Panic \<Rightarrow> (h, Panic))"

section \<open>The receive loop\<close>

definition reached_limit :: "'b handler_cfg \<Rightarrow> 'b handler \<Rightarrow> bool" where
  "reached_limit cfg h \<longleftrightarrow> 0 < hc_message_limit cfg \<and> \<not> is_recovering (hd_rec h) \<and>
     hc_message_limit cfg \<le> ar_messages_delivered (hd_arb h)"

abbreviation (input) MAX_INITIAL_JOIN_RETRIES :: nat where "MAX_INITIAL_JOIN_RETRIES \<equiv> 8"

text \<open>A recovery that ran out of buffer: an initial join is tried again a bounded number of times.\<close>

definition recovery_overflow :: "nat \<Rightarrow> ('b, unit) handler_op" where
  "recovery_overflow now h =
     (let h = on_stats (\<lambda>st. st\<lparr>hs_recovery_failures := wrap_add_u64 (hs_recovery_failures st) 1\<rparr>) (h\<lparr>hd_rec := rc_fail (hd_rec h)\<rparr>) in
      if hs_joined_mid_stream (hd_stats h) \<and> rs_completed (rc_stats (hd_rec h)) = 0
      then if hd_join_retries h < MAX_INITIAL_JOIN_RETRIES
           then (h\<lparr>hd_join_retries := hd_join_retries h + 1, hd_rec := rc_begin 1 now (hd_rec h)\<rparr>, Ok ())
           else (h, Err CannotBuildBook)
      else (on_stats (\<lambda>st. st\<lparr>hs_recoveries_abandoned := wrap_add_u64 (hs_recoveries_abandoned st) 1\<rparr>) h, Ok ()))"

definition begin_stream :: "nat \<Rightarrow> nat \<Rightarrow> 'b handler \<Rightarrow> 'b handler" where
  "begin_stream first now h =
     (if hd_started h then h
      else
        let h = on_stats (\<lambda>st. st\<lparr>hs_first_sequence := first\<rparr>) (h\<lparr>hd_started := True\<rparr>) in
        if first \<noteq> 1
        then on_stats (\<lambda>st. st\<lparr>hs_joined_mid_stream := True\<rparr>) (h\<lparr>hd_rec := rc_begin 1 now (hd_rec h)\<rparr>)
        else h)"

definition take_ready :: "'b handler_cfg \<Rightarrow> nat \<Rightarrow> nat \<Rightarrow> nat \<Rightarrow> bytes \<Rightarrow> ('b, unit) handler_op" where
  "take_ready cfg now first n datagram h =
     (let h = begin_stream first now h in
      if is_recovering (hd_rec h)
      then case hold first n datagram (hd_rec h) of
             (b, Ok _) \<Rightarrow> (h\<lparr>hd_rec := b\<rparr>, Ok ())
           | (b, Err e) \<Rightarrow> recovery_overflow now (h\<lparr>hd_rec := b\<rparr>)
           | (b, Panic) \<Rightarrow> (h\<lparr>hd_rec := b\<rparr>, Panic)
      else case consume cfg (ar_state (hd_arb h) = Gapped) 0 u64_max datagram h of
             (h', Ok _) \<Rightarrow> (h', Ok ())
           | (h', Err e) \<Rightarrow> (h', Err e)
           | (h', Panic) \<Rightarrow> (h', Panic))"

text \<open>The drain closure while recovering: hold until the buffer refuses, then count what is lost.\<close>

fun hold_drained :: "(nat \<times> nat \<times> bytes) list \<Rightarrow> recovery_buffer \<Rightarrow> recovery_buffer \<times> (recovery_failure, nat option) outcome" where
  "hold_drained [] b = (b, Ok None)"
| "hold_drained ((first, n, d) # xs) b =
     (case hold first n d b of
        (b', Ok _) \<Rightarrow> hold_drained xs b'
      | (b', Err e) \<Rightarrow> (b', Ok (Some (fold (\<lambda>x k. wrap_add_u64 k (fst (snd x))) xs n)))
      | (b', Panic) \<Rightarrow> (b', Panic))"

definition drain_into_buffer :: "nat \<Rightarrow> ('b, unit) handler_op" where
  "drain_into_buffer now h =
     (case drain_ready (hd_arb h) of
        (a, out) \<Rightarrow>
          (case hold_drained out (hd_rec h) of
             (b, Ok None) \<Rightarrow> (h\<lparr>hd_arb := a, hd_rec := b\<rparr>, Ok ())
           | (b, Ok (Some lost)) \<Rightarrow> recovery_overflow now (count_unverified lost (h\<lparr>hd_arb := a, hd_rec := b\<rparr>))
           | (b, _) \<Rightarrow> (h\<lparr>hd_arb := a, hd_rec := b\<rparr>, Panic)))"

definition on_verdict :: "'b handler_cfg \<Rightarrow> nat \<Rightarrow> bytes \<Rightarrow> accepted \<Rightarrow> ('b, bool) handler_op" where
  "on_verdict cfg now datagram verdict h =
     (case verdict of
        Ready first n \<Rightarrow>
          (case take_ready cfg now first n datagram h of
             (h', Ok _) \<Rightarrow> (h', Ok (reached_limit cfg h'))
           | (h', Err e) \<Rightarrow> (h', Err e)
           | (h', Panic) \<Rightarrow> (h', Panic))
      | ForcedGap g \<Rightarrow> (h\<lparr>hd_rec := rc_begin (gap_from g) now (hd_rec h)\<rparr>, Ok False)
      | Buffered \<Rightarrow> (h, Ok False)
      | Duplicate \<Rightarrow> (h, Ok False)
      | Malformed e \<Rightarrow> (count_bad h, Ok False))"

text \<open>One datagram off a socket. The result says whether the loop is left.\<close>

definition receive_datagram :: "'b handler_cfg \<Rightarrow> nat \<Rightarrow> nat \<Rightarrow> bytes \<Rightarrow> ('b, bool) handler_op" where
  "receive_datagram cfg now channel datagram h =
     (if is_snapshot_datagram datagram
      then case handle_snapshot cfg now datagram h of (h', r) \<Rightarrow> (h', obind r (\<lambda>_. Ok False))
      else case accept channel datagram (hd_arb h) of
        (a, Ok verdict) \<Rightarrow>
          (case on_verdict cfg now datagram verdict (h\<lparr>hd_arb := a\<rparr>) of
             (h1, Ok False) \<Rightarrow>
               (case (if is_recovering (hd_rec h1) then drain_into_buffer now h1 else drain_into_books cfg h1) of
                  (h2, Ok _) \<Rightarrow> (h2, Ok (reached_limit cfg h2))
                | (h2, Err e) \<Rightarrow> (h2, Err e)
                | (h2, Panic) \<Rightarrow> (h2, Panic))
           | (h1, r) \<Rightarrow> (h1, r))
      | (a, _) \<Rightarrow> (h\<lparr>hd_arb := a\<rparr>, Panic))"

text \<open>A pass that read nothing. \<open>quiet_for\<close> is the time since the last incremental datagram.\<close>

definition quiet_pass :: "'b handler_cfg \<Rightarrow> nat \<Rightarrow> nat \<Rightarrow> ('b, unit) handler_op" where
  "quiet_pass cfg now quiet_for h =
     (case (if is_recovering (hd_rec h) then (h, Ok ()) else drain_into_books cfg h) of
        (h1, Ok _) \<Rightarrow>
          (let h2 = (if hc_gap_timeout cfg \<le> quiet_for
                     then case declare_gap_if_stalled (hd_arb h1) of
                            (a, Some g) \<Rightarrow> h1\<lparr>hd_arb := a, hd_rec := rc_begin (gap_from g) now (hd_rec h1)\<rparr>
                          | (a, None) \<Rightarrow> h1\<lparr>hd_arb := a\<rparr>
                     else h1)
           in case check_deadline now (hd_rec h2) of
                Ok _ \<Rightarrow> (h2, Ok ())
              | Err e \<Rightarrow>
                  (on_stats (\<lambda>st. st\<lparr>hs_recovery_failures := wrap_add_u64 (hs_recovery_failures st) 1,
                       hs_recoveries_abandoned := wrap_add_u64 (hs_recoveries_abandoned st) 1\<rparr>)
                     (h2\<lparr>hd_rec := rc_fail (hd_rec h2)\<rparr>), Ok ())
              | Panic \<Rightarrow> (h2, Panic))
      | (h1, Err e) \<Rightarrow> (h1, Err e)
      | (h1, Panic) \<Rightarrow> (h1, Panic))"

text \<open>What the replay thread may have sent: an answer, or that it was refused, failed or disconnected.\<close>

definition poll_replay :: "'b handler_cfg \<Rightarrow> nat \<Rightarrow> replay_result option \<Rightarrow> ('b, unit) handler_op" where
  "poll_replay cfg now answer h =
     (case answer of
        Some r \<Rightarrow> (case apply_replay cfg now r h of (h', res) \<Rightarrow> (h', obind res (\<lambda>_. Ok ())))
      | None \<Rightarrow> (h\<lparr>hd_rec := note_replay_refused (hd_rec h)\<rparr>, Ok ()))"

definition replay_range :: "nat option \<Rightarrow> 'b handler \<Rightarrow> (nat \<times> nat) option" where
  "replay_range last_replay_from h =
     (case rc_gap_from (hd_rec h) of
        None \<Rightarrow> None
      | Some f \<Rightarrow>
          let through = ar_next_expected (hd_arb h) - 1 in
          if f \<le> through \<and> last_replay_from \<noteq> Some f then Some (f, through) else None)"

end
