(* ===== verification/HandlerRun.thy ===== *)
theory HandlerRun
  imports Handler
begin

text \<open>
  What the handler does to its books. A stream is a function from sequences to feed events; a datagram of the stream carries a range of them. The
  books are in step with the stream through sequence \<open>n\<close> when they hold what the events up to \<open>n\<close> build and nothing suspicious has been counted.
\<close>

section \<open>Books in step with a stream\<close>

definition stream_range :: "(nat \<Rightarrow> feed_event) \<Rightarrow> nat \<Rightarrow> nat \<Rightarrow> bytes \<Rightarrow> bool" where
  "stream_range ev i j d \<longleftrightarrow> j \<le> u64_max \<and> (\<exists>ms. datagram_items d = Ok (map Inr ms) \<and> map fst ms = [i..<j] \<and>
     map (\<lambda>m. view_event (snd m)) ms = map (\<lambda>q. Ok (ev q)) [i..<j])"

definition stream_datagram :: "(nat \<Rightarrow> feed_event) \<Rightarrow> bytes \<Rightarrow> bool" where
  "stream_datagram ev d \<longleftrightarrow> (\<exists>i j. stream_range ev i j d)"

definition spec_run :: "(nat \<Rightarrow> feed_event) \<Rightarrow> nat list \<Rightarrow> spec_books \<Rightarrow> (book_error, spec_books) outcome" where
  "spec_run ev qs sp = ofold spec_apply (map ev qs) sp"

definition quiet_stats :: "handler_stats \<Rightarrow> bool" where
  "quiet_stats st \<longleftrightarrow> hs_recoveries_abandoned st = 0 \<and> hs_bad_datagrams st = 0 \<and> hs_apply_errors st = 0 \<and> hs_unverified_drops st = 0 \<and>
     hs_sequence_jumps st = 0 \<and> hs_duplicate_applies st = 0"

definition log_ok :: "digest_log \<Rightarrow> bool" where
  "log_ok l \<longleftrightarrow> (\<forall>k. dl_writes l k)"

definition in_step :: "('b \<Rightarrow> spec_book \<Rightarrow> bool) \<Rightarrow> 'b handler \<Rightarrow> spec_books \<Rightarrow> nat \<Rightarrow> bool" where
  "in_step rel h sp n \<longleftrightarrow> books_rel rel (hd_books h) sp \<and> hs_applied_high (hd_stats h) = n \<and> quiet_stats (hd_stats h) \<and> log_ok (hd_log h)"

text \<open>What consuming leaves alone.\<close>

definition same_control :: "'b handler \<Rightarrow> 'b handler \<Rightarrow> bool" where
  "same_control h h' \<longleftrightarrow> hd_arb h' = hd_arb h \<and> hd_rec h' = hd_rec h \<and> hd_in_cycle h' = hd_in_cycle h \<and> hd_started h' = hd_started h \<and>
     hd_join_retries h' = hd_join_retries h"

lemma same_control_refl [simp]: "same_control h h"
  by (simp add: same_control_def)

lemma same_control_trans: "same_control h h' \<Longrightarrow> same_control h' h'' \<Longrightarrow> same_control h h''"
  by (simp add: same_control_def)

lemma spec_run_simps [simp]:
  "spec_run ev [] sp = Ok sp" "spec_run ev (q # qs) sp = obind (spec_apply (ev q) sp) (spec_run ev qs)"
  by (simp_all add: spec_run_def [abs_def])

lemma spec_run_append: "spec_run ev (xs @ ys) sp = obind (spec_run ev xs sp) (spec_run ev ys)"
  by (simp add: spec_run_def [abs_def] ofold_append)

lemma append_upt: "xs @ ys = [i..<j] \<Longrightarrow> xs = [i..<i + length xs] \<and> ys = [i + length xs..<j]"
proof (induction xs arbitrary: i)
  case (Cons x xs)
  then have "[i..<j] = x # (xs @ ys)" by simp
  then have "i < j" "x = i" "xs @ ys = [Suc i..<j]" unfolding upt_eq_Cons_conv by auto
  moreover have "[i..<i + length (x # xs)] = i # [Suc i..<Suc i + length xs]" by (simp add: upt_conv_Cons del: upt_Suc)
  ultimately show ?case using Cons.IH [of "Suc i"] by (simp del: upt_Suc)
qed simp

lemma stream_range_sequences:
  assumes "stream_range ev i j d"
  shows "datagram_sequences d = [i..<j]"
proof -
  obtain ms where "datagram_items d = Ok (map Inr ms)" "map fst ms = [i..<j]" using assms by (auto simp: stream_range_def)
  then show ?thesis using sequences_of_items by metis
qed

lemma consume_items_filter:
  "list_all (\<lambda>m. fst m \<le> u64_max) ms \<Longrightarrow>
     consume_items cfg gapped lo hi (map Inr ms) any h =
     consume_items cfg gapped 0 u64_max (map Inr (filter (\<lambda>m. lo \<le> fst m \<and> fst m \<le> hi) ms)) any h"
proof (induction ms arbitrary: any h)
  case (Cons m ms)
  then show ?case by (cases m) (auto split: prod.splits outcome.splits)
qed simp

lemma note_next:
  assumes "quiet_stats st" "hs_applied_high st < u64_max" "sq = Suc (hs_applied_high st)"
  shows "quiet_stats (note_applied sq (note_duplicate sq (note_jump gapped sq st)))"
    "hs_applied_high (note_applied sq (note_duplicate sq (note_jump gapped sq st))) = sq"
  using assms by (simp_all add: quiet_stats_def note_applied_def note_duplicate_def note_jump_def)

text \<open>What is known of the digest log, along a stream: \<open>J sp n l\<close> for the log \<open>l\<close> once the events up to \<open>n\<close> have built \<open>sp\<close>. It has to survive the
  checkpoint after each event.\<close>

definition checkpointed :: "'b handler_cfg \<Rightarrow> nat \<Rightarrow> 'b books \<Rightarrow> digest_log \<Rightarrow> digest_log" where
  "checkpointed cfg sq bks l =
     (if 0 < hc_digest_interval cfg \<and> sq mod hc_digest_interval cfg = 0 then fst (digest_log_write sq (BookDigest_of (hc_ops cfg) bks) l) else l)"

lemma checkpoint_ok:
  assumes "log_ok (hd_log h)"
  shows "checkpoint cfg sq h = (h\<lparr>hd_log := checkpointed cfg sq (hd_books h) (hd_log h)\<rparr>, Ok ())" "log_ok (checkpointed cfg sq (hd_books h) (hd_log h))"
  using assms by (auto simp: checkpoint_def checkpointed_def digest_log_write_def log_ok_def split: option.splits)

definition log_kept :: "'b handler_cfg \<Rightarrow> ('b \<Rightarrow> spec_book \<Rightarrow> bool) \<Rightarrow> (nat \<Rightarrow> feed_event) \<Rightarrow> (spec_books \<Rightarrow> nat \<Rightarrow> digest_log \<Rightarrow> bool) \<Rightarrow> bool" where
  "log_kept cfg rel ev J \<longleftrightarrow> (\<forall>sp n sp' bks l. J sp n l \<and> log_ok l \<and> spec_apply (ev (Suc n)) sp = Ok sp' \<and> books_rel rel bks sp' \<longrightarrow>
     J sp' (Suc n) (checkpointed cfg (Suc n) bks l))"

definition follows :: "(spec_books \<Rightarrow> nat \<Rightarrow> digest_log \<Rightarrow> bool) \<Rightarrow> ('b \<Rightarrow> spec_book \<Rightarrow> bool) \<Rightarrow> 'b handler \<Rightarrow> spec_books \<Rightarrow> nat \<Rightarrow> bool" where
  "follows J rel h sp n \<longleftrightarrow> in_step rel h sp n \<and> J sp n (hd_log h)"

lemma log_kept_any: "log_kept cfg rel ev (\<lambda>_ _ _. True)" "follows (\<lambda>_ _ _. True) rel h sp n \<longleftrightarrow> in_step rel h sp n"
  by (simp_all add: log_kept_def follows_def)

context unbounded_book_set
begin

lemma consume_message_step:
  assumes "follows J rel h sp n" "hc_ops cfg = ops" "hc_new cfg = new" "log_kept cfg rel ev J"
    and "n < u64_max" "view_event msg = Ok (ev (Suc n))" "spec_apply (ev (Suc n)) sp = Ok sp'"
  shows "\<exists>h'. consume_message cfg gapped (Suc n) msg h = (h', Ok ()) \<and> follows J rel h' sp' (Suc n) \<and> same_control h h'"
proof -
  define st where "st = note_applied (Suc n) (note_duplicate (Suc n) (note_jump gapped (Suc n) (hd_stats h)))"
  have st: "quiet_stats st" "hs_applied_high st = Suc n" using note_next [of "hd_stats h" "Suc n"] assms(1,5)
    by (auto simp: st_def in_step_def follows_def)
  have br: "books_rel rel (hd_books h) sp" "log_ok (hd_log h)" "J sp n (hd_log h)" using assms(1) by (auto simp: in_step_def follows_def)
  obtain bks where b: "apply_message ops new (hd_books h) msg = (bks, Ok ())" "books_rel rel bks sp'"
    using apply_message_exact [OF br(1) assms(6)] assms(7) by auto
  define h1 where "h1 = h\<lparr>hd_stats := st, hd_books := bks\<rparr>"
  have a1: "apply_one cfg gapped msg (on_stats (\<lambda>s. note_applied (Suc n) (note_duplicate (Suc n) (note_jump gapped (Suc n) s))) h) = (h1, Ok ())"
    using b(1) assms(2,3) by (simp add: apply_one_def on_stats_def h1_def st_def)
  obtain st2 where t: "count_trade_message msg h1 = (h1\<lparr>hd_stats := st2\<rparr>, Ok ())" "quiet_stats st2" "hs_applied_high st2 = Suc n"
  proof (cases msg)
    case (Trade d)
    then obtain q where "Trade_quantity d = Ok q" using assms(6) by (auto simp: outcome_simps)
    then show ?thesis using st Trade that [of "note_trade q st"]
      by (simp add: count_trade_message_def on_stats_def h1_def note_trade_def quiet_stats_def)
  qed (use st that [of st] in \<open>simp_all add: count_trade_message_def h1_def\<close>)
  define l where "l = checkpointed cfg (Suc n) bks (hd_log h)"
  have "checkpoint cfg (Suc n) (h1\<lparr>hd_stats := st2\<rparr>) = (h1\<lparr>hd_stats := st2\<rparr>\<lparr>hd_log := l\<rparr>, Ok ())" "log_ok l"
    using checkpoint_ok [of "h1\<lparr>hd_stats := st2\<rparr>" cfg "Suc n"] br(2) by (simp_all add: h1_def l_def)
  moreover have "J sp' (Suc n) l" using assms(4,7) br(2,3) b(2) unfolding log_kept_def l_def by blast
  ultimately show ?thesis using a1 t b(2)
    by (auto simp: consume_message_def sbind_def in_step_def follows_def same_control_def h1_def)
qed

lemma consume_items_run:
  assumes "follows J rel h sp n" "hc_ops cfg = ops" "hc_new cfg = new" "log_kept cfg rel ev J"
    and "map fst ms = [Suc n..<j]" "Suc n < j \<longrightarrow> j \<le> Suc u64_max"
    and "map (\<lambda>m. view_event (snd m)) ms = map (\<lambda>q. Ok (ev q)) [Suc n..<j]" "spec_run ev [Suc n..<j] sp = Ok sp'"
  shows "\<exists>h' any'. consume_items cfg gapped 0 u64_max (map Inr ms) any h = (h', Ok any') \<and> follows J rel h' sp' (max n (j - 1)) \<and> same_control h h'"
  using assms
proof (induction ms arbitrary: h sp n any)
  case Nil
  then have "[Suc n..<j] = []" by simp
  then have "max n (j - 1) = n" by auto
  then show ?case using Nil by auto
next
  case (Cons m ms)
  then have j: "Suc n < j" by (cases "Suc n < j") auto
  obtain q msg where m: "m = (q, msg)" by fastforce
  have u: "[Suc n..<j] = Suc n # [Suc (Suc n)..<j]" using j by (simp add: upt_conv_Cons)
  have c: "q = Suc n" "map fst ms = [Suc (Suc n)..<j]" "view_event msg = Ok (ev (Suc n))"
      "map (\<lambda>m. view_event (snd m)) ms = map (\<lambda>q. Ok (ev q)) [Suc (Suc n)..<j]"
    using Cons.prems(5,7) unfolding u by (simp_all add: m)
  obtain sp1 where sp1: "spec_apply (ev (Suc n)) sp = Ok sp1" "spec_run ev [Suc (Suc n)..<j] sp1 = Ok sp'"
    using Cons.prems(8) unfolding u by (auto simp: outcome_simps)
  have "n < u64_max" using j Cons.prems(6) by simp
  then obtain h1 where h1: "consume_message cfg gapped (Suc n) msg h = (h1, Ok ())" "follows J rel h1 sp1 (Suc n)" "same_control h h1"
    using consume_message_step [OF Cons.prems(1-4) _ c(3) sp1(1), of gapped] by auto
  obtain h' any' where "consume_items cfg gapped 0 u64_max (map Inr ms) True h1 = (h', Ok any')" "follows J rel h' sp' (max (Suc n) (j - 1))" "same_control h1 h'"
    using Cons.IH [OF h1(2) Cons.prems(2-4) c(2) _ c(4) sp1(2), of True] Cons.prems(6) j by auto
  moreover have "max (Suc n) (j - 1) = max n (j - 1)" using j by simp
  ultimately show ?case using h1 \<open>n < u64_max\<close> by (auto simp: m c(1) intro: same_control_trans)
qed

lemma consume_range_log:
  assumes "follows J rel h sp n" "hc_ops cfg = ops" "hc_new cfg = new" "log_kept cfg rel ev J" "stream_range ev i j d"
    and "filter (\<lambda>q. lo \<le> q \<and> q \<le> hi) [i..<j] = [Suc n..<m]" "spec_run ev [Suc n..<m] sp = Ok sp'"
  shows "\<exists>h' any. consume cfg gapped lo hi d h = (h', Ok any) \<and> follows J rel h' sp' (max n (m - 1)) \<and> same_control h h'"
proof -
  obtain ms where d: "datagram_items d = Ok (map Inr ms)" "map fst ms = [i..<j]" "j \<le> u64_max"
      "map (\<lambda>m. view_event (snd m)) ms = map (\<lambda>q. Ok (ev q)) [i..<j]"
    using assms(5) by (auto simp: stream_range_def)
  let ?P = "\<lambda>q. lo \<le> q \<and> q \<le> hi"
  let ?f = "filter (\<lambda>m. ?P (fst m)) ms"
  have "map fst ?f = filter ?P (map fst ms)" by (simp add: filter_map comp_def)
  then have "map fst ?f = filter ?P [i..<j]" unfolding d(2) .
  then have f1: "map fst ?f = [Suc n..<m]" using assms(6) by simp
  have "list_all (\<lambda>m. view_event (snd m) = Ok (ev (fst m))) ms"
  proof -
    have "map (\<lambda>m. view_event (snd m)) ms = map (\<lambda>q. Ok (ev q)) (map fst ms)" unfolding d(2,4) ..
    then show ?thesis by (simp add: list_all_iff)
  qed
  then have "map (\<lambda>m. view_event (snd m)) ?f = map (\<lambda>m. Ok (ev (fst m))) ?f" by (auto simp: list_all_iff)
  also have "\<dots> = map (\<lambda>q. Ok (ev q)) (map fst ?f)" by simp
  finally have f2: "map (\<lambda>m. view_event (snd m)) ?f = map (\<lambda>q. Ok (ev q)) [Suc n..<m]" unfolding f1 .
  have q: "q \<le> u64_max" if "q \<in> set [i..<j]" for q using that d(3) by simp
  have "m \<le> Suc u64_max" if "Suc n < m"
  proof -
    have "m - 1 \<in> set (filter ?P [i..<j])" unfolding assms(6) using that by auto
    then show ?thesis using q [of "m - 1"] by auto
  qed
  moreover have "list_all (\<lambda>m. fst m \<le> u64_max) ms"
    using q d(2) by (metis (no_types, lifting) list_all_iff image_eqI list.set_map)
  ultimately show ?thesis
    using consume_items_run [OF assms(1-4) f1 _ f2 assms(7), of gapped False] consume_items_filter [of ms cfg gapped lo hi False h] d(1)
    by (auto simp: consume_def)
qed

lemmas consume_range = consume_range_log [where J = "\<lambda>_ _ _. True", unfolded log_kept_any(2), OF _ _ _ log_kept_any(1)]

lemma consume_calls_log:
  assumes "follows J rel h sp n" "hc_ops cfg = ops" "hc_new cfg = new" "log_kept cfg rel ev J" "list_all (\<lambda>c. stream_datagram ev (snd c)) calls"
    and "concat (map applied_from calls) = [Suc n..<m]" "spec_run ev [Suc n..<m] sp = Ok sp'"
  shows "\<exists>h'. consume_calls cfg gapped calls h = (h', Ok ()) \<and> follows J rel h' sp' (max n (m - 1)) \<and> same_control h h'"
  using assms
proof (induction calls arbitrary: h sp n)
  case Nil
  then have "[Suc n..<m] = []" by simp
  then have "max n (m - 1) = n" by auto
  then show ?case using Nil by auto
next
  case (Cons c cs)
  obtain skip d where c: "c = (skip, d)" by fastforce
  obtain i j where r: "stream_range ev i j d" using Cons.prems(5) by (auto simp: c stream_datagram_def)
  have j: "j \<le> u64_max" using r by (simp add: stream_range_def)
  define len where "len = length (applied_from c)"
  have "applied_from c @ concat (map applied_from cs) = [Suc n..<m]" using Cons.prems(6) by simp
  from append_upt [OF this] have a: "applied_from c = [Suc n..<Suc n + len]" "concat (map applied_from cs) = [Suc (n + len)..<m]"
    by (simp_all add: len_def)
  have split: "[Suc n..<m] = [Suc n..<Suc n + len] @ [Suc (n + len)..<m]" using a Cons.prems(6) by simp
  then obtain sp1 where sp1: "spec_run ev [Suc n..<Suc n + len] sp = Ok sp1" "spec_run ev [Suc (n + len)..<m] sp1 = Ok sp'"
    using Cons.prems(7) by (auto simp: spec_run_append outcome_simps)
  have "filter (\<lambda>q. skip \<le> q \<and> q \<le> u64_max) [i..<j] = applied_from c"
    using stream_range_sequences [OF r] j unfolding applied_from_def by (auto simp: c intro!: filter_cong)
  then obtain h1 any where h1: "consume cfg gapped skip u64_max d h = (h1, Ok any)" "follows J rel h1 sp1 (n + len)" "same_control h h1"
    using consume_range_log [OF Cons.prems(1-4) r _ sp1(1), of skip u64_max gapped] a(1) by (auto simp: max_def)
  obtain h' where h': "consume_calls cfg gapped cs h1 = (h', Ok ())" "follows J rel h' sp' (max (n + len) (m - 1))" "same_control h1 h'"
    using Cons.IH [OF h1(2) Cons.prems(2-4) _ a(2) sp1(2)] Cons.prems(5) by auto
  have "length [Suc n..<m] = len + length [Suc (n + len)..<m]" unfolding split by simp
  then have "max (n + len) (m - 1) = max n (m - 1)" by (cases "len = 0") auto
  then show ?case using h1 h' by (auto simp: c intro: same_control_trans)
qed

lemmas consume_calls_run = consume_calls_log [where J = "\<lambda>_ _ _. True", unfolded log_kept_any(2), OF _ _ _ log_kept_any(1)]

lemma consume_calls_prefix:
  assumes "follows J rel h sp n" "hc_ops cfg = ops" "hc_new cfg = new" "log_kept cfg rel ev J" "list_all (\<lambda>c. stream_datagram ev (snd c)) (cs @ ds)"
    and "concat (map applied_from (cs @ ds)) = [Suc n..<m]" "spec_run ev [Suc n..<m] sp = Ok sp'"
  obtains h1 sp1 n1 where "consume_calls cfg gapped cs h = (h1, Ok ())" "follows J rel h1 sp1 n1" "same_control h h1"
    "concat (map applied_from ds) = [Suc n1..<m]" "spec_run ev [Suc n1..<m] sp1 = Ok sp'" "max n1 (m - 1) = max n (m - 1)"
proof -
  define len where "len = length (concat (map applied_from cs))"
  have "concat (map applied_from cs) @ concat (map applied_from ds) = [Suc n..<m]" using assms(6) by simp
  from append_upt [OF this] have a: "concat (map applied_from cs) = [Suc n..<Suc n + len]" "concat (map applied_from ds) = [Suc (n + len)..<m]"
    by (simp_all add: len_def)
  have split: "[Suc n..<m] = [Suc n..<Suc n + len] @ [Suc (n + len)..<m]" using a assms(6) by simp
  then obtain sp1 where sp1: "spec_run ev [Suc n..<Suc n + len] sp = Ok sp1" "spec_run ev [Suc (n + len)..<m] sp1 = Ok sp'"
    using assms(7) by (auto simp: spec_run_append outcome_simps)
  obtain h1 where h1: "consume_calls cfg gapped cs h = (h1, Ok ())" "follows J rel h1 sp1 (max n (Suc n + len - 1))" "same_control h h1"
    using consume_calls_log [OF assms(1-4) _ a(1) sp1(1), of gapped] assms(5) by auto
  have m: "max n (Suc n + len - 1) = n + len" by simp
  have "length [Suc n..<m] = len + length [Suc (n + len)..<m]" unfolding split by simp
  then have "max (n + len) (m - 1) = max n (m - 1)" by (cases "len = 0") auto
  then show thesis using that [OF h1(1) h1(2) [unfolded m] h1(3) a(2) sp1(2)] by simp
qed

lemma receive_in_step:
  assumes "follows J rel h sp n" "hc_ops cfg = ops" "hc_new cfg = new" and kept: "log_kept cfg rel ev J" and lim: "hc_message_limit cfg = 0" "\<not> is_recovering (hd_rec h)"
    and rr: "receive_round ch d (hd_arb h) = (a', Ok res, out)"
    and v: "case res of Ready f c \<Rightarrow> hd_started h \<or> f = 1 | Buffered \<Rightarrow> True | Duplicate \<Rightarrow> True | _ \<Rightarrow> False"
    and ns: "\<not> is_snapshot_datagram d" and outs: "list_all (stream_datagram ev) out"
      "concat (map datagram_sequences out) = [Suc n..<m]" and run: "spec_run ev [Suc n..<m] sp = Ok sp'"
  shows "\<exists>h'. receive_datagram cfg now ch d h = (h', Ok False) \<and> hd_arb h' = a' \<and> \<not> is_recovering (hd_rec h') \<and>
     follows J rel h' sp' (max n (m - 1)) \<and> (hd_started h' \<longleftrightarrow> hd_started h \<or> (\<exists>f c. res = Ready f c))"
proof -
  obtain a1 xs where acc: "accept ch d (hd_arb h) = (a1, Ok res)" "drain_ready a1 = (a', xs)"
      "out = (case res of Ready _ _ \<Rightarrow> [d] | _ \<Rightarrow> []) @ map (\<lambda>x. snd (snd x)) xs"
    using rr by (auto simp: receive_round_def split: prod.splits outcome.splits)
  let ?cs = "case res of Ready _ _ \<Rightarrow> [(0, d)] | _ \<Rightarrow> []"
  let ?ds = "map (\<lambda>x. (0, snd (snd x))) xs"
  have ap: "applied_from (0, x) = datagram_sequences x" for x by (simp add: applied_from_def)
  have calls: "concat (map applied_from (?cs @ ?ds)) = [Suc n..<m]" "list_all (\<lambda>c. stream_datagram ev (snd c)) (?cs @ ?ds)"
    using outs unfolding acc(3) by (auto simp: ap comp_def list_all_iff split: accepted.splits)
  define h0 where "h0 = (case res of Ready f c \<Rightarrow> begin_stream f now (h\<lparr>hd_arb := a1\<rparr>) | _ \<Rightarrow> h\<lparr>hd_arb := a1\<rparr>)"
  have h0: "follows J rel h0 sp n" "hd_arb h0 = a1" "hd_rec h0 = hd_rec h" "hd_started h0 \<longleftrightarrow> hd_started h \<or> (\<exists>f c. res = Ready f c)"
    using assms(1) v by (auto simp: h0_def begin_stream_def Let_def in_step_def quiet_stats_def on_stats_def follows_def split: accepted.splits)
  obtain h1 sp1 n1 where h1: "consume_calls cfg (ar_state a1 = Gapped) ?cs h0 = (h1, Ok ())" "follows J rel h1 sp1 n1" "same_control h0 h1"
      "concat (map applied_from ?ds) = [Suc n1..<m]" "spec_run ev [Suc n1..<m] sp1 = Ok sp'" "max n1 (m - 1) = max n (m - 1)"
    by (rule consume_calls_prefix [OF h0(1) assms(2,3) kept calls(2,1) run, of "ar_state a1 = Gapped"])
  have c1: "hd_arb h1 = a1" "hd_rec h1 = hd_rec h" "hd_started h1 \<longleftrightarrow> hd_started h0" using h1(3) h0(2,3) by (auto simp: same_control_def)
  have ov: "on_verdict cfg now d res (h\<lparr>hd_arb := a1\<rparr>) = (h1, Ok False)"
    using v h1(1) lim h0(2,3)
    by (auto simp: on_verdict_def take_ready_def h0_def reached_limit_def Let_def split: accepted.splits prod.splits outcome.splits)
  have st: "follows J rel (h1\<lparr>hd_arb := a'\<rparr>) sp1 n1" using h1(2) by (simp add: in_step_def follows_def)
  obtain h2 where h2: "consume_calls cfg (ar_state a1 = Gapped) ?ds (h1\<lparr>hd_arb := a'\<rparr>) = (h2, Ok ())" "follows J rel h2 sp' (max n1 (m - 1))"
      "same_control (h1\<lparr>hd_arb := a'\<rparr>) h2"
    using consume_calls_log [OF st assms(2,3) kept _ h1(4,5), of "ar_state a1 = Gapped"] calls(2) by auto
  have "drain_into_books cfg h1 = (h2, Ok ())" using acc(2) c1(1) h2(1) by (simp add: drain_into_books_def)
  then have "receive_datagram cfg now ch d h = (h2, Ok False)"
    using lim ns acc(1) ov c1(2) by (simp add: receive_datagram_def reached_limit_def)
  then show ?thesis using h2(2,3) h1(6) c1 h0(4) lim(2) by (auto simp: same_control_def)
qed

end

section \<open>A publisher's stream\<close>

definition ev_of :: "batch list \<Rightarrow> nat \<Rightarrow> feed_event" where
  "ev_of bs q = batch_events bs ! (q - 1)"

lemma map_ev_of:
  assumes "a + l \<le> length (batch_events bs)"
  shows "map (ev_of bs) [1 + a..<1 + a + l] = take l (drop a (batch_events bs))"
  using assms by (intro nth_equalityI) (simp_all add: ev_of_def del: upt_Suc)

lemma copy_stream_range:
  assumes "stream_ok bs" "copy_of bs k d"
  shows "stream_range (ev_of bs) (stream_start bs k) (stream_start bs (Suc k)) d"
proof -
  have k: "k < length bs" using assms(2) by (simp add: copy_of_def)
  let ?a = "length (batch_events (take k bs))"
  let ?l = "length (bt_events (bs ! k))"
  note b = batches_from_nth [of 1 bs k]
  have bf: "bt_first (bs ! k) = stream_start bs k" "?l \<le> u16_max" "bt_ts (bs ! k) \<le> u64_max"
    using b assms(1) k by (auto simp: stream_ok_def stream_start_def)
  have nx: "stream_start bs (Suc k) = stream_start bs k + ?l" by (rule stream_start_Suc [OF k])
  have le: "stream_start bs (Suc k) \<le> u64_max" using stream_start_le [of bs "Suc k"] assms(1) by (simp add: stream_ok_def)
  have dec: "batch_events bs = batch_events (take k bs) @ bt_events (bs ! k) @ batch_events (drop (Suc k) bs)"
    using id_take_nth_drop [OF k] by (simp add: batch_events_def) (metis concat.simps(2) concat_append list.simps(9) map_append)
  have wf: "\<forall>ev\<in>set (bt_events (bs ! k)). event_wf ev" using assms(1) dec by (simp add: stream_ok_def list_all_iff)
  have "map (ev_of bs) [1 + ?a..<1 + ?a + ?l] = bt_events (bs ! k)" by (subst map_ev_of) (simp_all add: dec del: upt_Suc)
  then have ev: "map (ev_of bs) [stream_start bs k..<stream_start bs (Suc k)] = bt_events (bs ! k)"
    unfolding nx unfolding stream_start_def .
  obtain ch where ch: "ch \<le> u8_max" "d = batch_image ch (bs ! k)" using assms(2) that [of 0] that [of 1] by (auto simp: copy_of_def)
  obtain ms where "datagram_items d = Ok (map Inr ms)" "map fst ms = [stream_start bs k..<stream_start bs k + ?l]"
      "map (\<lambda>m. view_event (snd m)) ms = map Ok (bt_events (bs ! k))"
    by (rule datagram_image_items [of "bt_events (bs ! k)" ch 0 "stream_start bs k" "bt_ts (bs ! k)"])
       (use ch bf le nx wf in \<open>auto simp: batch_image_def\<close>)
  moreover have "map Ok (bt_events (bs ! k)) = map (\<lambda>q. Ok (ev_of bs q)) [stream_start bs k..<stream_start bs (Suc k)]"
    unfolding ev [symmetric] by simp
  ultimately show ?thesis using le unfolding stream_range_def nx by metis
qed

lemma stream_start_mono: "n \<le> m \<Longrightarrow> stream_start bs n \<le> stream_start bs m"
proof -
  assume "n \<le> m"
  then have "take m bs = take n bs @ take (m - n) (drop n bs)" using take_add [of n "m - n" bs] by simp
  then show ?thesis by (simp add: stream_start_def batch_events_def)
qed

lemma copies_sequences:
  assumes "stream_ok bs" "list_all2 (copy_of bs) [n..<m] out" "n \<le> m"
  shows "list_all (stream_datagram (ev_of bs)) out \<and> concat (map datagram_sequences out) = [stream_start bs n..<stream_start bs m]"
  using assms(2,3)
proof (induction out arbitrary: n rule: list.induct)
  case Nil
  have "n = m" using Nil.prems list_all2_lengthD [of "copy_of bs" "[n..<m]" "[]"] by simp
  then show ?case by simp
next
  case (Cons d out)
  then have n: "n < m" "copy_of bs n d" "list_all2 (copy_of bs) [Suc n..<m] out"
    by (auto simp: list_all2_Cons2 upt_eq_Cons_conv)
  have k: "n < length bs" using n(2) by (simp add: copy_of_def)
  note r = copy_stream_range [OF assms(1) n(2)]
  have "stream_start bs (Suc n) \<le> stream_start bs m" using n(1) by (intro stream_start_mono) simp
  moreover have "stream_start bs n \<le> stream_start bs (Suc n)" by (simp add: stream_start_Suc [OF k])
  ultimately show ?case using Cons.IH [OF n(3)] n(1) r stream_range_sequences [OF r]
    by (auto simp: stream_datagram_def upt_glue)
qed

section \<open>Datagrams lost for want of room\<close>

definition window_drops :: "arbitrator \<Rightarrow> nat list" where
  "window_drops a = map ac_dropped_window_full (ar_arms a)"

lemma window_drops_bump:
  "(\<And>c. ac_dropped_window_full (f c) = ac_dropped_window_full c) \<Longrightarrow> window_drops (bump_arm i f a) = window_drops a"
  by (cases "i < length (ar_arms a)") (simp_all add: window_drops_def bump_arm_def map_update list_update_same_conv list_update_beyond)

lemma count_keeps_drops [simp]:
  "ac_dropped_window_full (count_received n c) = ac_dropped_window_full c" "ac_dropped_window_full (count_first n c) = ac_dropped_window_full c"
  "ac_dropped_window_full (count_duplicate c) = ac_dropped_window_full c" "ac_dropped_window_full (count_buffered c) = ac_dropped_window_full c"
  "ac_dropped_window_full (count_malformed c) = ac_dropped_window_full c"
  by (simp_all add: count_received_def count_first_def count_duplicate_def count_buffered_def count_malformed_def)

lemma accept_not_malformed:
  assumes "PacketHeader_wrap d = Ok hdr"
  shows "accept ch d a \<noteq> (a', Ok (Malformed e))"
proof -
  have "accept_range m f c x b \<noteq> (b', Ok (Malformed e))" for m f c x b b'
    by (auto simp: accept_range_def Let_def split: if_splits option.splits prod.splits)
  then show ?thesis using assms by (auto simp: accept_def Let_def split: outcome.splits prod.splits)
qed

lemma accept_drops:
  assumes "accept ch d a = (a', Ok res)" "\<And>g. res \<noteq> ForcedGap g"
  shows "window_drops a' = window_drops a"
proof -
  have s: "window_drops (arb_deliver f c b) = window_drops b" "window_drops (arb_store i m f c x b) = window_drops b"
      "window_drops (arb_start f b) = window_drops b" "window_drops (b\<lparr>ar_highest_seen := k\<rparr>) = window_drops b" for f c b i m x k
    by (simp_all add: window_drops_def arb_deliver_def arb_store_def arb_start_def Let_def)
  have "window_drops b' = window_drops b" if "accept_range m f c x b = (b', Ok res)" for m f c x b b'
    using that assms(2) by (auto simp: accept_range_def Let_def s window_drops_bump split: if_splits option.splits prod.splits)
  then show ?thesis using assms(1)
    by (auto simp: accept_def Let_def window_drops_bump split: outcome.splits)
qed

lemma drain_drops: "window_drops (fst (drain_ready a)) = window_drops a"
proof (induction a rule: drain_ready.induct)
  case (1 a)
  have "window_drops (drain_slot i a) = window_drops a" for i
  proof -
    have "window_drops (arb_deliver f c b) = window_drops b" "window_drops (b\<lparr>ar_window := w, ar_occupied := k\<rparr>) = window_drops b" for f c b w k
      by (simp_all add: window_drops_def arb_deliver_def Let_def)
    then show ?thesis by (simp add: drain_slot_def Let_def window_drops_bump)
  qed
  then show ?case using 1 by (cases "find_slot_covering (ar_next_expected a) a") (simp_all add: drain_ready.simps [of a] Let_def case_prod_beta)
qed

lemma round_drops:
  assumes "receive_round ch d a = (a', Ok res, out)" "\<And>g. res \<noteq> ForcedGap g"
  shows "window_drops a' = window_drops a"
proof -
  obtain a1 xs where "accept ch d a = (a1, Ok res)" "drain_ready a1 = (a', xs)"
    using assms(1) by (auto simp: receive_round_def split: prod.splits outcome.splits)
  then show ?thesis using accept_drops [OF _ assms(2)] drain_drops [of a1] by (metis fst_conv)
qed

section \<open>The receive loop on two arms\<close>

fun receive_datagrams :: "'b handler_cfg \<Rightarrow> (nat \<times> nat \<times> bytes) list \<Rightarrow> ('b, unit) handler_op" where
  "receive_datagrams cfg [] h = (h, Ok ())"
| "receive_datagrams cfg ((now, ch, d) # xs) h =
     (case receive_datagram cfg now ch d h of
        (h', Ok stop) \<Rightarrow> if stop then (h', Ok ()) else receive_datagrams cfg xs h'
      | (h', Err e) \<Rightarrow> (h', Err e)
      | (h', Panic) \<Rightarrow> (h', Panic))"

lemma image_not_snapshot:
  assumes "stream_ok bs" "copy_of bs k d"
  shows "\<not> is_snapshot_datagram d"
proof -
  have k: "k < length bs" using assms(2) by (simp add: copy_of_def)
  note b = batches_from_nth [of 1 bs k]
  have "bt_first (bs ! k) \<le> u64_max" "length (bt_events (bs ! k)) \<le> u16_max" "bt_ts (bs ! k) \<le> u64_max"
    using b assms(1) k stream_start_le [of bs k] by (auto simp: stream_ok_def stream_start_def)
  then show ?thesis using assms(2) packet_header_image_fields
    by (auto simp: copy_of_def batch_image_def datagram_image_def is_snapshot_datagram_def PacketHeader_is_snapshot_def)
qed

lemma spec_run_prefix:
  "spec_run ev [1..<k] sp0 = Ok sp1 \<Longrightarrow> 1 \<le> k \<Longrightarrow> k \<le> m \<Longrightarrow> spec_run ev [1..<m] sp0 = spec_run ev [k..<m] sp1"
  using spec_run_append [of ev "[1..<k]" "[k..<m]" sp0] upt_glue [of 1 k m] by simp

text \<open>Where the run stands: the arbitrator before batch \<open>n\<close>, the books in step through the sequence before it.\<close>

definition live_at :: "(spec_books \<Rightarrow> nat \<Rightarrow> digest_log \<Rightarrow> bool) \<Rightarrow> batch list \<Rightarrow> nat \<Rightarrow> refbook handler \<Rightarrow> nat set \<Rightarrow> bool" where
  "live_at J bs L h R \<longleftrightarrow> arb_at (stream_start bs) (carries_batch bs L) L (hd_arb h) (run_end 0 R) (ahead R) \<and> ar_gaps_recorded (hd_arb h) = 0 \<and>
     set (window_drops (hd_arb h)) \<subseteq> {0} \<and> \<not> is_recovering (hd_rec h) \<and> hd_started h \<and> run_end 0 R \<le> stream_len bs \<and>
     (\<exists>sp. spec_run (ev_of bs) [1..<stream_start bs (run_end 0 R)] (\<lambda>_. []) = Ok sp \<and>
        follows J refbook_rel h sp (stream_start bs (run_end 0 R) - 1))"

lemma live_step:
  assumes ok: "stream_ok bs" "spec_run (ev_of bs) [1..<1 + length (batch_events bs)] (\<lambda>_. []) = Ok spN"
    and cfg: "hc_ops cfg = refbook_ops" "hc_new cfg = refbook_new" "log_kept cfg refbook_rel (ev_of bs) J" "hc_message_limit cfg = 0"
    and round: "receive_round ch d (hd_arb h) = (a', Ok res, out)" "\<And>g. res \<noteq> ForcedGap g" "\<And>e. res \<noteq> Malformed e"
    and fst: "\<And>f c. res = Ready f c \<Longrightarrow> hd_started h \<or> f = 1" "hd_started h \<or> (\<exists>f c. res = Ready f c)"
    and d: "copy_of bs k d" and outs: "list_all2 (copy_of bs) [n..<m] out" "n \<le> m"
    and h: "\<not> is_recovering (hd_rec h)" "spec_run (ev_of bs) [1..<stream_start bs n] (\<lambda>_. []) = Ok sp"
      "follows J refbook_rel h sp (stream_start bs n - 1)"
  shows "\<exists>h' sp'. receive_datagram cfg now ch d h = (h', Ok False) \<and> hd_arb h' = a' \<and> \<not> is_recovering (hd_rec h') \<and> hd_started h' \<and>
     spec_run (ev_of bs) [1..<stream_start bs m] (\<lambda>_. []) = Ok sp' \<and> follows J refbook_rel h' sp' (stream_start bs m - 1)"
proof -
  have B: "1 \<le> stream_start bs n" by (simp add: stream_start_def)
  have Bm: "stream_start bs n \<le> stream_start bs m" by (rule stream_start_mono [OF outs(2)])
  note q = copies_sequences [OF ok(1) outs]
  have "\<exists>sp'. spec_run (ev_of bs) [1..<stream_start bs m] (\<lambda>_. []) = Ok sp'"
  proof -
    have "stream_start bs m \<le> 1 + length (batch_events bs)" by (rule stream_start_le)
    then have "[1..<1 + length (batch_events bs)] = [1..<stream_start bs m] @ [stream_start bs m..<1 + length (batch_events bs)]"
      using B Bm by (subst upt_glue) auto
    then show ?thesis using ok(2) by (auto simp: spec_run_append outcome_simps)
  qed
  then obtain sp' where sp': "spec_run (ev_of bs) [1..<stream_start bs m] (\<lambda>_. []) = Ok sp'" by blast
  have s: "Suc (stream_start bs n - 1) = stream_start bs n" using B by simp
  have r: "spec_run (ev_of bs) [stream_start bs n..<stream_start bs m] sp = Ok sp'" using spec_run_prefix [OF h(2) B Bm] sp' by simp
  have v: "case res of Ready f c \<Rightarrow> hd_started h \<or> f = 1 | Buffered \<Rightarrow> True | Duplicate \<Rightarrow> True | _ \<Rightarrow> False"
    using round(2,3) fst(1) by (cases res) auto
  have mx: "max (stream_start bs n - 1) (stream_start bs m - 1) = stream_start bs m - 1" using Bm by simp
  obtain h' where "receive_datagram cfg now ch d h = (h', Ok False)" "hd_arb h' = a'" "\<not> is_recovering (hd_rec h')"
      "follows J refbook_rel h' sp' (stream_start bs m - 1)" "hd_started h' \<longleftrightarrow> hd_started h \<or> (\<exists>f c. res = Ready f c)"
    using refset.receive_in_step [OF h(3) cfg h(1) round(1) v image_not_snapshot [OF ok(1) d] conjunct1 [OF q], of "stream_start bs m" sp' now] q r
    unfolding s mx by blast
  then show ?thesis using sp' fst(2) by blast
qed

lemma run_live:
  assumes ok: "stream_ok bs" "spec_run (ev_of bs) [1..<1 + length (batch_events bs)] (\<lambda>_. []) = Ok spN"
    and cfg: "hc_ops cfg = refbook_ops" "hc_new cfg = refbook_new" "log_kept cfg refbook_rel (ev_of bs) J" "hc_message_limit cfg = 0"
  shows "live_at J bs L h R \<Longrightarrow> lag_ok (ar_capacity (hd_arb h)) R \<Longrightarrow> bounded_lag (ar_capacity (hd_arb h)) R ks \<Longrightarrow>
     list_all2 (\<lambda>k x. carries_batch bs L k (snd (snd x))) ks xs \<Longrightarrow>
     \<exists>h'. receive_datagrams cfg xs h = (h', Ok ()) \<and> live_at J bs L h' (R \<union> set ks)"
proof (induction xs arbitrary: ks h R)
  case Nil
  then show ?case by simp
next
  case (Cons x xs)
  obtain now ch d where x: "x = (now, ch, d)" by (metis prod_cases3)
  obtain k ks' where ks: "ks = k # ks'" "carries_batch bs L k d" "list_all2 (\<lambda>k x. carries_batch bs L k (snd (snd x))) ks' xs"
    using Cons.prems(4) x by (cases ks) auto
  let ?n = "run_end 0 R"
  let ?m = "run_end 0 (insert k R)"
  obtain sp where l: "arb_at (stream_start bs) (carries_batch bs L) L (hd_arb h) ?n (ahead R)" "ar_gaps_recorded (hd_arb h) = 0"
      "set (window_drops (hd_arb h)) \<subseteq> {0}" "\<not> is_recovering (hd_rec h)" "hd_started h" "?n \<le> stream_len bs"
      "spec_run (ev_of bs) [1..<stream_start bs ?n] (\<lambda>_. []) = Ok sp" "follows J refbook_rel h sp (stream_start bs ?n - 1)"
    using Cons.prems(1) by (auto simp: live_at_def)
  have lag: "k \<le> ?n + ar_capacity (hd_arb h)" "bounded_lag (ar_capacity (hd_arb h)) (insert k R) ks'" using Cons.prems(3) ks(1) by auto
  note r = lag_round [OF Cons.prems(2) lag(1)]
  note sok = lag_spec_ok [OF Cons.prems(2)]
  obtain a' res out where rr: "receive_round ch d (hd_arb h) = (a', Ok res, out)" "\<And>g. res \<noteq> ForcedGap g"
      "arb_at (stream_start bs) (carries_batch bs L) L a' ?m (ahead (insert k R))" "?m \<le> stream_len bs"
      "list_all2 (carries_batch bs L) [?n..<?m] out" "ar_capacity a' = ar_capacity (hd_arb h)" "ar_gaps_recorded a' = 0"
    using arms.round_at [OF l(1) sok ks(2) l(6) r(1), of ch] l(2) by auto
  have le: "?n \<le> ?m" using spec_round_ok(2) [OF sok _ r(1)] l(1) by (simp add: arb_at_def arb_inv_def)
  have nm: "res \<noteq> Malformed e" for e
    using rr(1) arms.carries_header [OF ks(2)] accept_not_malformed by (fastforce simp: receive_round_def split: prod.splits)
  have c: "copy_of bs k d" using ks(2) by (simp add: carries_batch_def)
  obtain h' sp' where h': "receive_datagram cfg now ch d h = (h', Ok False)" "hd_arb h' = a'" "\<not> is_recovering (hd_rec h')" "hd_started h'"
      "spec_run (ev_of bs) [1..<stream_start bs ?m] (\<lambda>_. []) = Ok sp'" "follows J refbook_rel h' sp' (stream_start bs ?m - 1)"
    using live_step [OF ok cfg rr(1,2) nm _ _ c carries_copies [OF rr(5)] le l(4,7,8), of now] l(5) by blast
  have "live_at J bs L h' (insert k R)"
    using h' rr(3,4,7) round_drops [OF rr(1,2)] l(3) by (auto simp: live_at_def)
  from Cons.IH [OF this _ _ ks(3)] r(2) lag(2) rr(6) h'(2)
  obtain h'' where "receive_datagrams cfg xs h' = (h'', Ok ())" "live_at J bs L h'' (insert k R \<union> set ks')" by auto
  then show ?case using h'(1) by (simp add: x ks(1))
qed

lemma first_live:
  assumes ok: "stream_ok bs" "spec_run (ev_of bs) [1..<1 + length (batch_events bs)] (\<lambda>_. []) = Ok spN"
    and cfg: "hc_ops cfg = refbook_ops" "hc_new cfg = refbook_new" "log_kept cfg refbook_rel (ev_of bs) J" "hc_message_limit cfg = 0"
    and w: "hc_window cfg < u64_max" "log_ok dlog" "J (\<lambda>_. []) 0 dlog" and L: "L = max (hc_datagram_bytes cfg) 65536" and c: "carries_batch bs L 0 d"
  obtains h where "receive_datagram cfg now ch d (handler_new cfg dlog []) = (h, Ok False)" "live_at J bs L h {0}"
    "ar_capacity (hd_arb h) = max (hc_window cfg) 1"
proof -
  let ?h0 = "handler_new cfg dlog [] :: refbook handler"
  have h0: "hd_arb ?h0 = Arbitrator_new (hc_window cfg) L" "\<not> is_recovering (hd_rec ?h0)" "\<not> hd_started ?h0"
    by (simp_all add: handler_new_def L is_recovering_def RecoveryBuffer_new_def Let_def)
  have st: "follows J refbook_rel ?h0 (\<lambda>_. []) (stream_start bs 0 - 1)"
    using w(2,3) books_rel_empty
    by (simp add: follows_def in_step_def handler_new_def handler_stats_zero_def quiet_stats_def stream_start_def batch_events_def)
  have s0: "spec_run (ev_of bs) [1..<stream_start bs 0] (\<lambda>_. []) = Ok (\<lambda>_. [])" by (simp add: stream_start_def batch_events_def)
  obtain a where a: "receive_round ch d (Arbitrator_new (hc_window cfg) L) =
      (a, Ok (Ready (stream_start bs 0) (stream_start bs (Suc 0) - stream_start bs 0)), [d])"
    "arb_at (stream_start bs) (carries_batch bs L) L a (Suc 0) {}" "ar_capacity a = max (hc_window cfg) 1" "ar_gaps_recorded a = 0"
    by (rule first_arrival [OF c w(1), of ch])
  have cp: "copy_of bs 0 d" "list_all2 (copy_of bs) [0..<Suc 0] [d]" using c by (simp_all add: carries_batch_def)
  have B0: "stream_start bs 0 = 1" by (simp add: stream_start_def batch_events_def)
  obtain h sp where h: "receive_datagram cfg now ch d ?h0 = (h, Ok False)" "hd_arb h = a" "\<not> is_recovering (hd_rec h)" "hd_started h"
      "spec_run (ev_of bs) [1..<stream_start bs (Suc 0)] (\<lambda>_. []) = Ok sp" "follows J refbook_rel h sp (stream_start bs (Suc 0) - 1)"
    using live_step [OF ok cfg a(1) [folded h0(1)] _ _ _ _ cp(1,2) _ h0(2) s0 st, of now] B0 by auto
  have "window_drops (Arbitrator_new (hc_window cfg) L) = [0, 0]"
    by (simp add: window_drops_def Arbitrator_new_def Let_def arm_counters_zero_def numeral_2_eq_2)
  then have "set (window_drops a) \<subseteq> {0}" using round_drops [OF a(1)] by simp
  moreover have "Suc 0 \<le> stream_len bs" using arms.carries_range [OF c] by simp
  ultimately have "live_at J bs L h {0}" using h a(2,4) by (auto simp: live_at_def run_end_singleton)
  then show thesis using that h(1,2) a(3) by simp
qed

lemma live_end:
  assumes "live_at J bs L h R" "run_end 0 R = length bs" "spec_run (ev_of bs) [1..<1 + length (batch_events bs)] (\<lambda>_. []) = Ok sp"
  shows "is_clean (hd_stats h) (hd_arb h) (is_recovering (hd_rec h))" "books_rel refbook_rel (hd_books h) sp" "J sp (length (batch_events bs)) (hd_log h)"
proof -
  obtain sp' where l: "arb_at (stream_start bs) (carries_batch bs L) L (hd_arb h) (length bs) (ahead R)" "ar_gaps_recorded (hd_arb h) = 0"
      "set (window_drops (hd_arb h)) \<subseteq> {0}" "\<not> is_recovering (hd_rec h)"
      "spec_run (ev_of bs) [1..<stream_start bs (length bs)] (\<lambda>_. []) = Ok sp'" "follows J refbook_rel h sp' (stream_start bs (length bs) - 1)"
    using assms(1) unfolding live_at_def assms(2) by auto
  have "stream_start bs (length bs) = 1 + length (batch_events bs)" by (simp add: stream_start_def)
  then have "sp' = sp" using l(5) assms(3) by simp
  then show "J sp (length (batch_events bs)) (hd_log h)" using l(6) by (simp add: follows_def stream_start_def)
  show "books_rel refbook_rel (hd_books h) sp" using \<open>sp' = sp\<close> l(6) by (simp add: in_step_def follows_def)
  have a: "length (ar_arms (hd_arb h)) = 2" "ar_state (hd_arb h) = Live" using l(1,2) by (auto simp: arb_at_def arb_inv_def)
  then have "ar_arms (hd_arb h) ! (i mod 2) \<in> set (ar_arms (hd_arb h))" for i by (intro nth_mem) simp
  then have "ac_dropped_window_full (arb_arm i (hd_arb h)) = 0" for i using l(3) by (auto simp: arb_arm_def window_drops_def)
  then show "is_clean (hd_stats h) (hd_arb h) (is_recovering (hd_rec h))"
    using l(4,6) a(2) by (simp add: is_clean_def follows_def in_step_def quiet_stats_def)
qed

lemma run_over_arms:
  assumes feed: "feed_inv fp bs []" "fp_drop_mode fp = Exclusive"
    and run: "spec_run (ev_of bs) [1..<1 + length (batch_events bs)] (\<lambda>_. []) = Ok sp"
    and cfg: "hc_ops cfg = refbook_ops" "hc_new cfg = refbook_new" "log_kept cfg refbook_rel (ev_of bs) J" "hc_message_limit cfg = 0"
    and w: "hc_window cfg < u64_max" "log_ok dlog" "J (\<lambda>_. []) 0 dlog"
    and a: "list_all2 (arrival_of bs) (0 # ks) (map snd xs)" "bounded_lag (max (hc_window cfg) 1) {0} ks" "fits (max (hc_datagram_bytes cfg) 65536) (map snd xs)"
      "\<forall>d\<in>set (fp_sent_a fp). (0, d) \<in> set (map snd xs)" "\<forall>d\<in>set (fp_sent_b fp). (1, d) \<in> set (map snd xs)"
  obtains h where "receive_datagrams cfg xs (handler_new cfg dlog []) = (h, Ok ())" "is_clean (hd_stats h) (hd_arb h) (is_recovering (hd_rec h))"
    "books_rel refbook_rel (hd_books h) sp" "J sp (length (batch_events bs)) (hd_log h)"
proof -
  note ok = feed_stream_ok [OF feed(1)]
  let ?L = "max (hc_datagram_bytes cfg) 65536"
  have "set (0 # ks) = {..<length bs}" using all_batches_arrive [OF feed(1) _ a(1,4,5)] feed(2) by simp
  then have n: "run_end 0 ({0} \<union> set ks) = length bs" by (simp add: run_end_all)
  from arrivals_carry [OF ok a(1,3)] have "list_all2 (\<lambda>k x. carries_batch bs ?L k (snd (snd x))) (0 # ks) xs" by (simp add: list_all2_map2)
  then obtain now ch d xs' where xs: "xs = (now, ch, d) # xs'" "carries_batch bs ?L 0 d"
      "list_all2 (\<lambda>k x. carries_batch bs ?L k (snd (snd x))) ks xs'"
    by (cases xs) auto
  obtain h where h: "receive_datagram cfg now ch d (handler_new cfg dlog []) = (h, Ok False)" "live_at J bs ?L h {0}"
      "ar_capacity (hd_arb h) = max (hc_window cfg) 1"
    by (rule first_live [OF ok run cfg w refl xs(2)])
  have "lag_ok (ar_capacity (hd_arb h)) {0}" by (simp add: lag_ok_def)
  then obtain h' where h': "receive_datagrams cfg xs' h = (h', Ok ())" "live_at J bs ?L h' ({0} \<union> set ks)"
    using run_live [OF ok run cfg h(2) _ _ xs(3)] a(2) h(3) by auto
  note e = live_end [OF h'(2) n run]
  show thesis using that [OF _ e] h(1) h'(1) by (simp add: xs(1))
qed

definition sample_cfg :: "refbook handler_cfg" where
  "sample_cfg = \<lparr>hc_ops = refbook_ops, hc_new = refbook_new, hc_digest_interval = 1, hc_message_limit = 0, hc_window = 8, hc_buffer = 4,
     hc_timeout = 1000, hc_gap_timeout = 50, hc_datagram_bytes = 96\<rparr>"

definition open_log :: digest_log where
  "open_log = \<lparr>dl_sink = Some [], dl_writes = (\<lambda>_. True)\<rparr>"

text \<open>What arrives of a single batch.\<close>

lemma one_batch_arrivals:
  assumes feed: "feed_inv fp [t] []" and t: "bt_events t = [ev]" "\<not> (bt_drop_a t \<and> bt_drop_b t)"
  obtains ks and xs :: "(nat \<times> nat \<times> bytes) list" where "list_all2 (arrival_of [t]) (0 # ks) (map snd xs)" "bounded_lag 8 {0} ks" "fits 65536 (map snd xs)"
    "\<forall>d\<in>set (fp_sent_a fp). (0, d) \<in> set (map snd xs)" "\<forall>d\<in>set (fp_sent_b fp). (1, d) \<in> set (map snd xs)" "from_arms fp (map snd xs)"
proof -
  define ys where "ys = (if bt_drop_a t then [] else [(0, batch_image 0 t)]) @ (if bt_drop_b t then [] else [(1::nat, batch_image 1 t)])"
  define xs where "xs = map (\<lambda>y. (5::nat, y)) ys"
  have xs: "map snd xs = ys" by (simp add: xs_def comp_def)
  have sent: "fp_sent_a fp = (if bt_drop_a t then [] else [batch_image 0 t])" "fp_sent_b fp = (if bt_drop_b t then [] else [batch_image 1 t])"
    using feed by (auto simp: feed_inv_def)
  have "list_all2 (arrival_of [t]) (replicate (length ys) 0) ys" by (auto simp: ys_def arrival_of_def)
  moreover have "replicate (length ys) 0 = 0 # replicate (length ys - 1) (0::nat)" using t(2) by (auto simp: ys_def)
  ultimately have "list_all2 (arrival_of [t]) (0 # replicate (length ys - 1) 0) (map snd xs)" by (simp add: xs)
  moreover have "bounded_lag 8 {0} (replicate (length ys - 1) 0)" by (auto simp: ys_def)
  moreover have "fits 65536 (map snd xs)" using t(1) event_len_le [of ev] by (auto simp: xs fits_def ys_def batch_image_def datagram_image_def)
  moreover have "\<forall>d\<in>set (fp_sent_a fp). (0, d) \<in> set (map snd xs)" "\<forall>d\<in>set (fp_sent_b fp). (1, d) \<in> set (map snd xs)" unfolding sent xs ys_def by simp_all
  moreover have "from_arms fp (map snd xs)" unfolding xs using sent by (auto simp: from_arms_def ys_def)
  ultimately show thesis by (rule that)
qed

section \<open>Properties\<close>

text \<open>C14: the handler ends clean, holding the engine's books. Serve any calls on an empty engine whose publisher loses datagrams at any rate but never
  on both arms, and flush. Feed the receive loop the datagrams sent, in any order and however often, as long as the first is the first
  batch and none runs ahead of the first one missing by more than the reorder window. The loop never fails and never leaves the live state: the run is
  clean (no gap, no recovery, no bad datagram, no message that does not apply, no jump and no message applied twice), every queue is the
  engine's, and the digest is the engine's digest.\<close>

theorem handler_run_is_clean:
  assumes "fresh_feed (rate, Exclusive) fp" "callback_ok cb" "list_all call_wf cs" "length cs \<le> 2147483648"
    and cfg: "hc_ops cfg = refbook_ops" "hc_new cfg = refbook_new" "hc_message_limit cfg = 0"
    and w: "hc_window cfg < u64_max" "log_ok dlog"
  shows "\<exists>e' fp' fp'' bs. serve_calls cb cs (engine_new syms, fp) = ((e', fp'), True) \<and> flush fp' = (fp'', Ok ()) \<and> feed_inv fp'' bs [] \<and>
     (\<forall>ks xs. list_all2 (arrival_of bs) (0 # ks) (map snd xs) \<and> bounded_lag (max (hc_window cfg) 1) {0} ks \<and>
        fits (max (hc_datagram_bytes cfg) 65536) (map snd xs) \<and>
        (\<forall>d\<in>set (fp_sent_a fp''). (0, d) \<in> set (map snd xs)) \<and> (\<forall>d\<in>set (fp_sent_b fp''). (1, d) \<in> set (map snd xs)) \<longrightarrow>
        (\<exists>h'. receive_datagrams cfg xs (handler_new cfg dlog []) = (h', Ok ()) \<and>
           is_clean (hd_stats h') (hd_arb h') (is_recovering (hd_rec h')) \<and>
           (\<forall>y s. rb_orders_in_queue_order (fst (get_or_create refbook_new y (hd_books h'))) s = engine_queue y s e') \<and>
           BookDigest_of refbook_ops (hd_books h') = BookDigest_of refbook_ops (en_books e')))"
proof -
  obtain e' fp' evs sp where r: "serve_calls cb cs (engine_new syms, fp) = ((e', fp'), True)"
      "engine_inv (rate, Exclusive) (e', fp') evs sp" "length evs + 2 < u64_max"
    using run_from_new [OF assms(1-4)] by metis
  obtain fp'' bs where f: "flush fp' = (fp'', Ok ())" "feed_inv fp'' bs []" "batch_events bs = evs" "list_all batch_valid bs"
      "(fp_drop_rate fp'', fp_drop_mode fp'') = (rate, Exclusive)"
    by (rule flush_engine [OF r(2,3)])
  have en: "books_rel refbook_rel (en_books e') sp" "ofold spec_apply evs (\<lambda>_. []) = Ok sp" using r(2) by (auto simp: engine_inv_def)
  have "map (ev_of bs) [1..<1 + length evs] = evs" using map_ev_of [of 0 "length evs" bs] f(3) by simp
  then have run: "spec_run (ev_of bs) [1..<1 + length (batch_events bs)] (\<lambda>_. []) = Ok sp" using en(2) f(3) by (simp add: spec_run_def)
  have "\<exists>h'. receive_datagrams cfg xs (handler_new cfg dlog []) = (h', Ok ()) \<and> is_clean (hd_stats h') (hd_arb h') (is_recovering (hd_rec h')) \<and>
       (\<forall>y s. rb_orders_in_queue_order (fst (get_or_create refbook_new y (hd_books h'))) s = engine_queue y s e') \<and>
       BookDigest_of refbook_ops (hd_books h') = BookDigest_of refbook_ops (en_books e')"
    if a: "list_all2 (arrival_of bs) (0 # ks) (map snd xs)" "bounded_lag (max (hc_window cfg) 1) {0} ks"
      "fits (max (hc_datagram_bytes cfg) 65536) (map snd xs)"
      "\<forall>d\<in>set (fp_sent_a fp''). (0, d) \<in> set (map snd xs)" "\<forall>d\<in>set (fp_sent_b fp''). (1, d) \<in> set (map snd xs)" for ks xs
  proof -
    obtain h' where h': "receive_datagrams cfg xs (handler_new cfg dlog []) = (h', Ok ())" "is_clean (hd_stats h') (hd_arb h') (is_recovering (hd_rec h'))"
        "books_rel refbook_rel (hd_books h') sp"
      by (rule run_over_arms [OF f(2) _ run cfg(1,2) log_kept_any(1) cfg(3) w TrueI a]) (use f(5) in auto)
    have "rb_orders_in_queue_order (fst (get_or_create refbook_new y (hd_books h'))) s = engine_queue y s e'" for y s
      unfolding engine_queue_spec [OF r(2)] using refset.get_or_create_sim(1) [OF h'(3) surjective_pairing] by (rule rb_queue_rel)
    moreover have "BookDigest_of refbook_ops (hd_books h') = BookDigest_of refbook_ops (en_books e')"
      using refdigest.digest_sim h'(3) en(1) by metis
    ultimately show ?thesis using h'(1,2) by blast
  qed
  then show ?thesis using r(1) f(1,2) by blast
qed

theorem handler_run_is_clean_witness:
  "\<exists>e' fp' fp'' xs h'. serve_calls no_checkpoint [CallSubmit 7 Ask 105 10 False] (engine_new [], lossy_feed) = ((e', fp'), True) \<and>
     flush fp' = (fp'', Ok ()) \<and> from_arms fp'' (map snd xs) \<and> receive_datagrams sample_cfg xs (handler_new sample_cfg open_log []) = (h', Ok ()) \<and>
     is_clean (hd_stats h') (hd_arb h') (is_recovering (hd_rec h')) \<and>
     rb_orders_in_queue_order (fst (get_or_create refbook_new 7 (hd_books h'))) Ask = [rested 1 Ask 105 10] \<and>
     BookDigest_of refbook_ops (hd_books h') = BookDigest_of refbook_ops (en_books e')"
proof -
  have c: "hc_ops sample_cfg = refbook_ops" "hc_new sample_cfg = refbook_new" "hc_message_limit sample_cfg = 0" "hc_window sample_cfg < u64_max"
      "log_ok open_log" "max (hc_window sample_cfg) 1 = 8" "max (hc_datagram_bytes sample_cfg) 65536 = 65536"
    by (simp_all add: sample_cfg_def open_log_def log_ok_def)
  obtain e' fp' fp'' bs where r: "serve_calls no_checkpoint [CallSubmit 7 Ask 105 10 False] (engine_new [], lossy_feed) = ((e', fp'), True)"
      "flush fp' = (fp'', Ok ())" "feed_inv fp'' bs []" and
    all: "\<And>ks xs. list_all2 (arrival_of bs) (0 # ks) (map snd xs) \<and> bounded_lag 8 {0} ks \<and> fits 65536 (map snd xs) \<and>
        (\<forall>d\<in>set (fp_sent_a fp''). (0, d) \<in> set (map snd xs)) \<and> (\<forall>d\<in>set (fp_sent_b fp''). (1, d) \<in> set (map snd xs)) \<longrightarrow>
        (\<exists>h'. receive_datagrams sample_cfg xs (handler_new sample_cfg open_log []) = (h', Ok ()) \<and>
           is_clean (hd_stats h') (hd_arb h') (is_recovering (hd_rec h')) \<and>
           (\<forall>y s. rb_orders_in_queue_order (fst (get_or_create refbook_new y (hd_books h'))) s = engine_queue y s e') \<and>
           BookDigest_of refbook_ops (hd_books h') = BookDigest_of refbook_ops (en_books e'))"
    using handler_run_is_clean [OF lossy_feed_fresh no_checkpoint_ok, of "[CallSubmit 7 Ask 105 10 False]" sample_cfg open_log "[]"]
    unfolding c(6,7) using c(1-5) by (simp add: in_i64_def del: receive_datagrams.simps) blast
  obtain t ev where t: "bs = [t]" "bt_events t = [ev]" "\<not> (bt_drop_a t \<and> bt_drop_b t)" "engine_queue 7 Ask e' = [rested 1 Ask 105 10]"
    by (rule one_order_feed [OF r])
  obtain ks and xs :: "(nat \<times> nat \<times> bytes) list" where a: "list_all2 (arrival_of [t]) (0 # ks) (map snd xs)" "bounded_lag 8 {0} ks" "fits 65536 (map snd xs)"
      "\<forall>d\<in>set (fp_sent_a fp''). (0, d) \<in> set (map snd xs)" "\<forall>d\<in>set (fp_sent_b fp''). (1, d) \<in> set (map snd xs)" "from_arms fp'' (map snd xs)"
    by (rule one_batch_arrivals [OF r(3) [unfolded t(1)] t(2,3)])
  with all [of ks xs] t(1) obtain h' where "receive_datagrams sample_cfg xs (handler_new sample_cfg open_log []) = (h', Ok ())"
      "is_clean (hd_stats h') (hd_arb h') (is_recovering (hd_rec h'))" "BookDigest_of refbook_ops (hd_books h') = BookDigest_of refbook_ops (en_books e')"
      "\<forall>y s. rb_orders_in_queue_order (fst (get_or_create refbook_new y (hd_books h'))) s = engine_queue y s e'"
    by auto
  then show ?thesis using r(1,2) t(4) a(6) by metis
qed

end
