(* ===== verification/HandlerRecovery.thy ===== *)
theory HandlerRecovery
  imports HandlerRun
begin

text \<open>
  How the handler closes a gap: by a replay answer, which fills the hole in place, or by a snapshot cycle, which replaces the books. Both end by
  replaying the traffic held in the meantime.
\<close>

section \<open>Replaying held traffic\<close>

definition held_ok :: "(nat \<Rightarrow> feed_event) \<Rightarrow> recovery_buffer \<Rightarrow> bool" where
  "held_ok ev b \<longleftrightarrow> in_order (held_slots b) \<and> list_all (\<lambda>s. stream_datagram ev (held_bytes s)) (held_slots b) \<and>
     rs_messages_skipped (rc_stats b) + held_messages (held_slots b) \<le> u64_max \<and>
     rs_messages_replayed (rc_stats b) + held_messages (held_slots b) \<le> u64_max"

context unbounded_book_set
begin

lemma replay_held_run:
  assumes "in_step rel h sp n" "hc_ops cfg = ops" "hc_new cfg = new" "held_ok ev (hd_rec h)" "rc_state (hd_rec h) = Reconciling (Suc n)"
    and "held_discontinuity (Suc n) (hd_rec h) = None" "spec_run ev [Suc n..<held_reach (Suc n) (held_slots (hd_rec h))] sp = Ok sp'"
  shows "\<exists>h' b. replay_held cfg h = (h', Ok ()) \<and> in_step rel h' sp' (held_reach (Suc n) (held_slots (hd_rec h)) - 1) \<and>
     same_control (h\<lparr>hd_rec := b\<rparr>) h'"
proof -
  let ?m = "held_reach (Suc n) (held_slots (hd_rec h))"
  obtain b calls where r: "rc_replay (hd_rec h) = (b, ?m - Suc n, calls)" "concat (map applied_from calls) = [Suc n..<?m]"
    using rc_replay_exact [OF assms(5) _ assms(6)] assms(4) by (auto simp: held_ok_def)
  have "calls = snd (replay_slots (Suc n) (held_slots (hd_rec h)) (rs_messages_skipped (rc_stats (hd_rec h)), 0))"
    using r(1) assms(5) by (auto simp: rc_replay_def split: prod.splits)
  then have "list_all (\<lambda>c. stream_datagram ev (snd c)) calls"
    using replay_slots_calls [of "Suc n" "held_slots (hd_rec h)"] assms(4) by (fastforce simp: held_ok_def list_all_iff)
  moreover have "in_step rel (h\<lparr>hd_rec := b\<rparr>) sp n" using assms(1) by (simp add: in_step_def)
  moreover have "max n (?m - 1) = ?m - 1" using held_reach_ge [of "Suc n" "held_slots (hd_rec h)"] by simp
  ultimately obtain h' where "consume_calls cfg False calls (h\<lparr>hd_rec := b\<rparr>) = (h', Ok ())" "in_step rel h' sp' (?m - 1)"
      "same_control (h\<lparr>hd_rec := b\<rparr>) h'"
    using consume_calls_run [OF _ assms(2,3) _ r(2) assms(7), of "h\<lparr>hd_rec := b\<rparr>" False] by auto
  then show ?thesis using r(1) by (auto simp: replay_held_def)
qed

end

section \<open>A replay answer\<close>

definition answer_datagram :: "(nat \<Rightarrow> feed_event) \<Rightarrow> nat \<Rightarrow> nat \<Rightarrow> bytes \<Rightarrow> bool" where
  "answer_datagram ev i j d \<longleftrightarrow> stream_range ev i j d \<and> i < j \<and> PacketHeader_wrap d = Ok d \<and> PacketHeader_first_sequence d = Ok i \<and>
     PacketHeader_message_count d = Ok (j - i)"

text \<open>The datagrams of an answer to the request \<open>f\<close> to \<open>t\<close> that still has to cover from \<open>k\<close> on: whole datagrams in
  order without a hole; the first may begin before \<open>f\<close> and the last may end after \<open>t\<close>.\<close>

fun answer_covers :: "(nat \<Rightarrow> feed_event) \<Rightarrow> nat \<Rightarrow> nat \<Rightarrow> nat \<Rightarrow> bytes list \<Rightarrow> bool" where
  "answer_covers ev f k t [] \<longleftrightarrow> t < k"
| "answer_covers ev f k t (d # ds) \<longleftrightarrow>
     (\<exists>i j. answer_datagram ev i j d \<and> i \<le> k \<and> (k = f \<or> i = k) \<and> answer_covers ev f (max k j) t ds)"

lemma filter_upt_between: "filter (\<lambda>q. lo \<le> q \<and> q \<le> hi) [i..<j] = [max lo i..<min j (Suc hi)]"
proof (induction j)
  case (Suc j)
  then show ?case by (auto simp: min_def max_def not_le le_Suc_eq)
qed simp

lemma extend_coverage_step:
  assumes "answer_datagram ev i j d" "i \<le> k" "k = f \<or> i = k" "1 \<le> f" "f \<le> k" "f \<le> t" "t < u64_max"
    and "cv_through c = min k (Suc t) - 1" "cv_contiguous c \<or> t < k"
  shows "\<exists>c'. extend_coverage t d c = Ok c' \<and> cv_through c' = min (max k j) (Suc t) - 1 \<and> (cv_contiguous c' \<or> t < max k j)"
proof -
  have h: "PacketHeader_wrap d = Ok d" "PacketHeader_first_sequence d = Ok i" "PacketHeader_message_count d = Ok (j - i)" "i < j" "j \<le> u64_max"
    using assms(1) by (auto simp: answer_datagram_def stream_range_def)
  have e: "wrap_add_u64 i (j - i) = j" using h(4,5) by simp
  have "cv_through c + 1 \<le> u64_max" using assms(8,7) by auto
  then have w: "wrap_add_u64 (cv_through c) 1 = cv_through c + 1" by simp
  define c' where "c' = (let c = c\<lparr>cv_messages := wrap_add_u64 (cv_messages c) (j - i)\<rparr> in
     if cv_contiguous c \<and> i \<le> cv_through c + 1 then c\<lparr>cv_through := min (max (cv_through c) (j - 1)) t\<rparr> else c\<lparr>cv_contiguous := False\<rparr>)"
  have "extend_coverage t d c = Ok c'" unfolding extend_coverage_def using h e w by (simp add: c'_def Let_def)
  moreover have "cv_through c' = min (max k j) (Suc t) - 1 \<and> (cv_contiguous c' \<or> t < max k j)"
  proof (cases "t < k")
    case True
    then have "cv_through c = t" using assms(8) by simp
    then show ?thesis using True h(4) by (auto simp: c'_def Let_def)
  next
    case False
    then have "cv_contiguous c" "cv_through c = k - 1" using assms(8,9) by auto
    then show ?thesis using False assms(2,4,5) h(4) by (auto simp: c'_def Let_def)
  qed
  ultimately show ?thesis by blast
qed

context unbounded_book_set
begin

lemma apply_answer_run:
  assumes "hc_ops cfg = ops" "hc_new cfg = new" "1 \<le> f" "f \<le> t" "t < u64_max"
  shows "answer_covers ev f k t ds \<Longrightarrow> f \<le> k \<Longrightarrow> in_step rel h sp (min k (Suc t) - 1) \<Longrightarrow>
     cv_through c = min k (Suc t) - 1 \<Longrightarrow> cv_contiguous c \<or> t < k \<Longrightarrow> spec_run ev [min k (Suc t)..<Suc t] sp = Ok sp' \<Longrightarrow>
     \<exists>h' c'. apply_answer cfg f t ds c h = (h', Ok c') \<and> in_step rel h' sp' t \<and> same_control h h' \<and> cv_through c' = t"
proof (induction ds arbitrary: k h sp c)
  case Nil
  then show ?case by simp
next
  case (Cons d ds)
  obtain i j where d: "answer_datagram ev i j d" "i \<le> k" "k = f \<or> i = k" "answer_covers ev f (max k j) t ds" using Cons.prems(1) by auto
  define n where "n = min k (Suc t) - 1"
  have n: "Suc n = min k (Suc t)" using assms(3) Cons.prems(2) by (simp add: n_def)
  define m where "m = min j (Suc t)"
  have sr: "stream_range ev i j d" "i < j" using d(1) by (auto simp: answer_datagram_def)
  have fl: "filter (\<lambda>q. f \<le> q \<and> q \<le> t) [i..<j] = [Suc n..<m]"
  proof (cases "k \<le> t")
    case True
    then have "max f i = Suc n" using d(2,3) Cons.prems(2) n by auto
    then show ?thesis by (simp add: filter_upt_between m_def)
  next
    case False
    then have "i = k" "Suc n = Suc t" using d(3) assms(4) n by auto
    then show ?thesis using False Cons.prems(2) by (simp add: filter_upt_between m_def)
  qed
  have mx: "max n (m - 1) = min (max k j) (Suc t) - 1" "Suc n \<le> min (max k j) (Suc t)" using n sr(2) d(2) by (auto simp: m_def n_def min_def max_def)
  have nm: "[Suc n..<m] = [Suc n..<min (max k j) (Suc t)]"
  proof (cases "Suc n < m")
    case True
    then have "m = min (max k j) (Suc t)" using n by (auto simp: m_def min_def max_def split: if_splits)
    then show ?thesis by simp
  next
    case False
    then have "min (max k j) (Suc t) = Suc n" using n by (auto simp: m_def min_def max_def split: if_splits)
    then show ?thesis using False by simp
  qed
  have "[Suc n..<Suc t] = [Suc n..<m] @ [min (max k j) (Suc t)..<Suc t]" unfolding nm using mx(2) by (intro upt_glue [symmetric]) auto
  then obtain sp1 where sp1: "spec_run ev [Suc n..<m] sp = Ok sp1" "spec_run ev [min (max k j) (Suc t)..<Suc t] sp1 = Ok sp'"
    using Cons.prems(6) unfolding n [symmetric] by (auto simp: spec_run_append outcome_simps simp del: upt_Suc)
  obtain h1 any where h1: "consume cfg False f t d h = (h1, Ok any)" "in_step rel h1 sp1 (min (max k j) (Suc t) - 1)" "same_control h h1"
    using consume_range [OF Cons.prems(3) [folded n_def] assms(1,2) sr(1) fl sp1(1), of False] unfolding mx(1) by blast
  obtain c' where c': "extend_coverage t d c = Ok c'" "cv_through c' = min (max k j) (Suc t) - 1" "cv_contiguous c' \<or> t < max k j"
    using extend_coverage_step [OF d(1-3) assms(3) Cons.prems(2) assms(4,5) Cons.prems(4,5)] by blast
  have "f \<le> max k j" using Cons.prems(2) by simp
  from Cons.IH [OF d(4) this h1(2) c'(2,3) sp1(2)] h1 c'(1) show ?case by (auto intro: same_control_trans)
qed

lemma apply_replay_run:
  assumes cfg: "hc_ops cfg = ops" "hc_new cfg = new"
    and st: "in_step rel h sp (f - 1)" "rc_state (hd_rec h) = AwaitingSnapshot g" "held_ok ev (hd_rec h)"
    and ans: "1 \<le> f" "f \<le> t" "t < u64_max" "answer_covers ev f f t ds" "held_discontinuity (t + 1) (hd_rec h) = None"
    and run: "spec_run ev [f..<held_reach (t + 1) (held_slots (hd_rec h))] sp = Ok sp'"
  shows "\<exists>h'. apply_replay cfg now \<lparr>rr_from = f, rr_through = t, rr_datagrams = ds\<rparr> h = (h', Ok True) \<and>
     in_step rel h' sp' (held_reach (t + 1) (held_slots (hd_rec h)) - 1) \<and> \<not> is_recovering (hd_rec h') \<and>
     hd_arb h' = clear_gapped (hd_arb h)"
proof -
  let ?m = "held_reach (t + 1) (held_slots (hd_rec h))"
  have ge: "t + 1 \<le> ?m" by (rule held_reach_ge)
  have "[f..<?m] = [f..<Suc t] @ [Suc t..<?m]" using upt_glue [of f "Suc t" ?m] ge ans(2) by simp
  then obtain sp1 where sp1: "spec_run ev [f..<Suc t] sp = Ok sp1" "spec_run ev [Suc t..<?m] sp1 = Ok sp'"
    using run by (auto simp: spec_run_append outcome_simps simp del: upt_Suc)
  have mf: "min f (Suc t) = f" using ans(2) by simp
  obtain h1 c where h1: "apply_answer cfg f t ds \<lparr>cv_messages = 0, cv_through = f - 1, cv_contiguous = True\<rparr> h = (h1, Ok c)"
      "in_step rel h1 sp1 t" "same_control h h1" "cv_through c = t"
    using apply_answer_run [OF cfg ans(1-4) le_refl, of h sp "\<lparr>cv_messages = 0, cv_through = f - 1, cv_contiguous = True\<rparr>" sp1] st(1) sp1(1)
    unfolding mf by auto
  have rec: "hd_rec h1 = hd_rec h" "hd_arb h1 = hd_arb h" using h1(3) by (auto simp: same_control_def)
  define b where "b = fst (adopt_replay t (cv_messages c) (hd_rec h))"
  have b: "adopt_replay t (cv_messages c) (hd_rec h) = (b, True)" "rc_state b = Reconciling (Suc t)" "held_slots b = held_slots (hd_rec h)"
      "rs_messages_skipped (rc_stats b) = rs_messages_skipped (rc_stats (hd_rec h))"
      "rs_messages_replayed (rc_stats b) = rs_messages_replayed (rc_stats (hd_rec h))"
    using st(2) ans(3) by (simp_all add: b_def adopt_replay_def held_slots_def)
  have s2: "in_step rel (h1\<lparr>hd_rec := b\<rparr>) sp1 t" using h1(2) by (simp add: in_step_def)
  have hb: "held_ok ev b" "held_discontinuity (Suc t) b = None"
    using st(3) ans(5) b by (simp_all add: held_ok_def held_discontinuity_def)
  obtain h2 b' where h2: "replay_held cfg (h1\<lparr>hd_rec := b\<rparr>) = (h2, Ok ())" "in_step rel h2 sp' (?m - 1)"
      "same_control (h1\<lparr>hd_rec := b\<rparr>\<lparr>hd_rec := b'\<rparr>) h2"
    using replay_held_run [OF s2 cfg, of ev sp'] hb b(2,3) sp1(2) by auto
  have "hd_arb h2 = hd_arb h" using h2(3) rec(2) by (simp add: same_control_def)
  moreover have "is_recovering (hd_rec h)" using st(2) by (simp add: is_recovering_def)
  moreover have "wrap_add_u64 t 1 = Suc t" using ans(3) by simp
  ultimately have "apply_replay cfg now \<lparr>rr_from = f, rr_through = t, rr_datagrams = ds\<rparr> h =
      (finish_recovery now (h2\<lparr>hd_arb := clear_gapped (hd_arb h2)\<rparr>), Ok True)"
    using h1(1,4) rec ans(2,5) b(1) h2(1) by (simp add: apply_replay_def)
  moreover have "in_step rel (finish_recovery now (h2\<lparr>hd_arb := clear_gapped (hd_arb h2)\<rparr>)) sp' (?m - 1)"
    using h2(2) by (simp add: in_step_def finish_recovery_def on_stats_def quiet_stats_def)
  moreover have "\<not> is_recovering (hd_rec (finish_recovery now (h2\<lparr>hd_arb := clear_gapped (hd_arb h2)\<rparr>)))"
    by (simp add: finish_recovery_def on_stats_def rc_complete_def rc_reset_def is_recovering_def Let_def)
  ultimately show ?thesis using \<open>hd_arb h2 = hd_arb h\<close> by (auto simp: finish_recovery_def on_stats_def)
qed

end


section \<open>A snapshot cycle\<close>

context unbounded_book_set
begin

lemma finish_cycle_run:
  assumes cfg: "hc_ops cfg = ops" "hc_new cfg = new"
    and st: "books_rel rel (hd_books h) sp" "quiet_stats (hd_stats h)" "log_ok (hd_log h)" "hs_applied_high (hd_stats h) \<le> l" "held_ok ev (hd_rec h)"
    and snap: "l < u64_max" "held_discontinuity (l + 1) (hd_rec h) = None"
    and run: "spec_run ev [l + 1..<held_reach (l + 1) (held_slots (hd_rec h))] sp = Ok sp'"
  obtains h' where "finish_cycle cfg now l h = (h', Ok True)" "in_step rel h' sp' (held_reach (l + 1) (held_slots (hd_rec h)) - 1)"
    "\<not> is_recovering (hd_rec h')" "hd_arb h' = resync_to (l + 1) (hd_arb h)" "\<not> hd_in_cycle h'"
proof -
  define b where "b = adopt_snapshot l (hd_rec h)"
  have b: "rc_state b = Reconciling (Suc l)" "held_slots b = held_slots (hd_rec h)" "held_ok ev b" "held_discontinuity (Suc l) b = None"
    using snap st(5) by (simp_all add: b_def adopt_snapshot_def held_slots_def held_ok_def held_discontinuity_def)
  define h1 where "h1 = on_stats (\<lambda>st. st\<lparr>hs_applied_high := max (hs_applied_high st) l\<rparr>)
     (h\<lparr>hd_rec := b, hd_arb := resync_to (l + 1) (hd_arb h)\<rparr>)"
  have h1: "in_step rel h1 sp l" "hd_rec h1 = b"
    using st by (simp_all add: h1_def in_step_def on_stats_def quiet_stats_def)
  obtain h2 b' where h2: "replay_held cfg h1 = (h2, Ok ())" "in_step rel h2 sp' (held_reach (Suc l) (held_slots b) - 1)"
      "same_control (h1\<lparr>hd_rec := b'\<rparr>) h2"
    using replay_held_run [OF h1(1) cfg, of ev sp'] h1(2) b run by auto
  define h3 where "h3 = finish_recovery now (h2\<lparr>hd_in_cycle := False\<rparr>)"
  have "finish_cycle cfg now l h = (h3, Ok True)"
    using snap h2(1) by (simp add: finish_cycle_def h1_def b_def h3_def)
  moreover have "in_step rel h3 sp' (held_reach (l + 1) (held_slots (hd_rec h)) - 1)"
    using h2(2) b(2) by (simp add: h3_def in_step_def finish_recovery_def on_stats_def quiet_stats_def)
  moreover have "\<not> is_recovering (hd_rec h3)" "\<not> hd_in_cycle h3"
    by (simp_all add: h3_def finish_recovery_def on_stats_def rc_complete_def rc_reset_def is_recovering_def Let_def)
  moreover have "hd_arb h3 = resync_to (l + 1) (hd_arb h)"
    using h2(3) by (simp add: h3_def finish_recovery_def on_stats_def same_control_def h1_def)
  ultimately show thesis using that by blast
qed

end

text \<open>After \<open>resync_to\<close> the window is empty, so the first datagram above the frontier is stored and nothing can be drained.\<close>

lemma position_of_update:
  assumes "\<forall>y\<in>set xs. \<not> P y" "\<not> P x"
  shows "position_of P (xs[i := x]) = None"
  using assms set_update_subset_insert [of xs i x] by (auto simp: position_of_None_iff)

lemma resync_stores:
  assumes inv: "arb_inv a" and f: "k < f" "0 < c" "f + c \<le> u64_max"
    and hdr: "PacketHeader_wrap d = Ok d" "PacketHeader_first_sequence d = Ok f" "PacketHeader_message_count d = Ok c"
  obtains a' where "accept ch d (resync_to k a) = (a', Ok Buffered)" "ar_next_expected a' = k" "ar_occupied a' = 1" "ar_state a' = Live"
    "find_slot_covering k a' = None" "gap_target a' = f"
proof -
  let ?r = "resync_to k a"
  let ?b = "(bump_arm (ch mod 2) (count_received (length d)) ?r)\<lparr>ar_highest_seen := max (ar_highest_seen ?r) (f + c)\<rparr>"
  have w: "ar_window ?b = map (\<lambda>s. s\<lparr>sl_occupied := False\<rparr>) (ar_window a)" by (simp add: resync_to_def bump_arm_def)
  have len: "0 < length (ar_window a)" "1 \<le> ar_capacity a" using inv by (auto simp: arb_inv_def)
  have fs: "free_slot ?b = Some 0" unfolding free_slot_def w using len(1) by (cases "ar_window a") auto
  have nf: "find_slot f ?b = None" unfolding find_slot_def w by (simp add: position_of_None_iff)
  define a' where "a' = bump_arm (ch mod 2) count_buffered (arb_store 0 (ch mod 2) f c d ?b)"
  have b: "ar_started ?b" "ar_next_expected ?b = k" "ar_occupied ?b = 0" "ar_capacity ?b = ar_capacity a" "ar_state ?b = Live"
    by (simp_all add: resync_to_def bump_arm_def)
  have st: "arb_start f ?b = ?b" using b(1) by (simp add: arb_start_def)
  have se: "sat_add_u64 f c = f + c" using f(3) by (simp add: sat_add_u64_def)
  have hs: "ar_highest_seen (bump_arm (ch mod 2) (count_received (length d)) ?r) = ar_highest_seen ?r" by (simp add: bump_arm_def)
  have "accept ch d ?r = (a', Ok Buffered)"
    using hdr f b len nf fs by (simp add: accept_def accept_range_def Let_def se st hs a'_def del: bump_arm_def)
  moreover define s where "s = (let s0 = (ar_window a ! 0)\<lparr>sl_occupied := False\<rparr>; n = min (length d) (length (sl_buf s0)) in
      s0\<lparr>sl_buf := take n d @ drop n (sl_buf s0), sl_len := n, sl_first := f, sl_count := c, sl_arm := ch mod 2, sl_occupied := True\<rparr>)"
  have w': "ar_window a' = (map (\<lambda>s. s\<lparr>sl_occupied := False\<rparr>) (ar_window a))[0 := s]"
    using len(1) by (simp add: a'_def arb_store_def Let_def w s_def)
  moreover have s: "sl_first s = f" "sl_occupied s" by (simp_all add: s_def Let_def)
  moreover have "ar_next_expected a' = k" "ar_occupied a' = 1" "ar_state a' = Live"
    using b by (simp_all add: a'_def arb_store_def Let_def bump_arm_def)
  moreover have "find_slot_covering k a' = None"
    unfolding find_slot_covering_def w' using len(1) f(1) s(1) by (intro position_of_update) (simp_all add: slot_covers_def)
  moreover have "filter sl_occupied (ar_window a') = [s]"
    unfolding w' using len(1) s(2) by (cases "ar_window a") (auto simp: filter_empty_conv)
  then have "gap_target a' = f" using s(1) by (simp add: gap_target_def)
  ultimately show thesis using that by blast
qed


lemma stranded_pass:
  assumes inv: "arb_inv a" and h: "hd_arb h = resync_to k a" "\<not> is_recovering (hd_rec h)" "hc_message_limit cfg = 0"
    and d: "answer_datagram ev f j d" "\<not> is_snapshot_datagram d" "k < f"
  obtains h1 where "receive_datagram cfg now ch d h = (h1, Ok False)" "hd_books h1 = hd_books h" "hd_stats h1 = hd_stats h"
    "hd_log h1 = hd_log h" "ar_next_expected (hd_arb h1) = k" "hc_gap_timeout cfg \<le> quiet \<Longrightarrow>
       \<exists>h2. quiet_pass cfg later quiet h1 = (h2, Ok ()) \<and> hd_books h2 = hd_books h \<and> ar_state (hd_arb h2) = Gapped \<and>
          ar_next_expected (hd_arb h2) = f"
proof -
  have hdr: "0 < j - f" "f + (j - f) \<le> u64_max" "PacketHeader_wrap d = Ok d" "PacketHeader_first_sequence d = Ok f" "PacketHeader_message_count d = Ok (j - f)"
    using d(1) by (auto simp: answer_datagram_def stream_range_def)
  obtain a' where a': "accept ch d (resync_to k a) = (a', Ok Buffered)" "ar_next_expected a' = k" "ar_occupied a' = 1" "ar_state a' = Live"
      "find_slot_covering k a' = None" "gap_target a' = f"
    by (rule resync_stores [OF inv d(3) hdr, of ch])
  have dr: "drain_ready a' = (a', [])" using a'(2,5) by (subst drain_ready.simps) simp
  define h1 where "h1 = h\<lparr>hd_arb := a'\<rparr>"
  have db: "drain_into_books cfg h1 = (h1, Ok ())" using dr by (simp add: drain_into_books_def h1_def)
  have "receive_datagram cfg now ch d h = (h1, Ok False)"
    using d(2) a'(1) h db by (simp add: receive_datagram_def on_verdict_def reached_limit_def h1_def)
  moreover have "\<exists>h2. quiet_pass cfg later quiet h1 = (h2, Ok ()) \<and> hd_books h2 = hd_books h \<and> ar_state (hd_arb h2) = Gapped \<and>
          ar_next_expected (hd_arb h2) = f"
    if q: "hc_gap_timeout cfg \<le> quiet"
  proof -
    define g where "g = \<lparr>gap_from = k, gap_through = max (f - 1) k\<rparr>"
    define a2 where "a2 = (record_gap g a')\<lparr>ar_state := Gapped, ar_next_expected := f\<rparr>"
    have g: "declare_gap_if_stalled a' = (a2, Some g)"
      using a' by (simp add: declare_gap_if_stalled_def declare_gap_def Let_def g_def a2_def)
    have "\<not> is_recovering (hd_rec h1)" "hd_arb h1 = a'" using h(2) by (simp_all add: h1_def)
    moreover have "check_deadline later b \<noteq> Panic" for b by (auto simp: check_deadline_def split: option.splits)
    ultimately show ?thesis using q db g h(2)
      by (auto simp: quiet_pass_def Let_def a2_def g_def rc_begin_def on_stats_def h1_def split: outcome.splits)
  qed
  ultimately show thesis using that [of h1] a'(2) by (simp add: h1_def)
qed

section \<open>Sample states\<close>

abbreviation (input) beats :: "nat \<Rightarrow> feed_event" where "beats \<equiv> \<lambda>_. EvHeartbeat 9"

definition sample_handler :: "held list \<Rightarrow> refbook handler" where
  "sample_handler hs = (handler_new sample_cfg open_log [])\<lparr>hd_rec := sample_recovery (AwaitingSnapshot 7) hs,
     hd_stats := handler_stats_zero\<lparr>hs_applied_high := 6\<rparr>, hd_started := True\<rparr>"

lemma beats_run [simp]: "spec_run beats qs sp = Ok sp"
  by (induction qs) simp_all

lemma held_beat_datagram:
  assumes "0 < c" "c \<le> 100" "f + c \<le> u64_max"
  shows "answer_datagram beats f (f + c) (held_bytes (held_beat f c))" "\<not> is_snapshot_datagram (held_bytes (held_beat f c))"
proof -
  let ?d = "datagram_image 0 0 f 7 (replicate c (EvHeartbeat 9))"
  have b: "held_bytes (held_beat f c) = ?d" by (simp add: held_bytes_def held_beat_def)
  have r: "replicate (j - i) x = map (\<lambda>_. x) [i..<j]" for i j and x :: feed_event by (simp add: map_replicate_const)
  obtain ms where "datagram_items ?d = Ok (map Inr ms)" "map fst ms = [f..<f + c]"
      "map (\<lambda>m. view_event (snd m)) ms = map Ok (replicate c (EvHeartbeat 9))"
    by (rule datagram_image_items [of "replicate c (EvHeartbeat 9)" 0 0 f 7]) (use assms in auto)
  moreover have "map Ok (replicate c (EvHeartbeat 9)) = map (\<lambda>q. Ok (EvHeartbeat 9)) [f..<f + c]"
    by (simp add: map_replicate_const)
  ultimately have "stream_range beats f (f + c) ?d" using assms(3) unfolding stream_range_def by metis
  then show "answer_datagram beats f (f + c) (held_bytes (held_beat f c))"
    using assms packet_header_image_fields [of 0 0 f 7 c] by (simp add: answer_datagram_def b datagram_image_def)
  show "\<not> is_snapshot_datagram (held_bytes (held_beat f c))"
    using assms packet_header_image_fields [of 0 0 f 7 c]
    by (simp add: b datagram_image_def is_snapshot_datagram_def PacketHeader_is_snapshot_def)
qed

lemma sample_held_ok: "held_ok beats (hd_rec (sample_handler [held_beat 9 2, held_beat 11 2]))"
proof -
  have "stream_datagram beats (held_bytes (held_beat f 2))" if "f \<le> 20" for f
    using held_beat_datagram(1) [of 2 f] that by (auto simp: answer_datagram_def stream_datagram_def)
  then show ?thesis
    by (simp add: held_ok_def sample_handler_def held_beat_ok held_messages_def recovery_stats_zero_def) (simp add: in_order_def)
qed

lemma sample_in_step: "in_step refbook_rel (sample_handler hs) (\<lambda>_. []) 6"
  using books_rel_empty
  by (simp add: in_step_def sample_handler_def handler_new_def quiet_stats_def handler_stats_zero_def log_ok_def open_log_def)

section \<open>Properties\<close>

text \<open>C18: a replay answer fills the hole where it is. Suppose the books are in step with the stream through \<open>f - 1\<close>, a recovery is
  open, and the service answers the request \<open>f\<close> to \<open>t\<close> with whole datagrams of the stream without a hole, the first possibly beginning before
  \<open>f\<close> and the last possibly ending after \<open>t\<close>. When the traffic held meanwhile continues after \<open>t\<close> without a hole (it may also overlap the answer),
  applying the answer succeeds and leaves the books in step through the end of the held traffic: every message applied once and in order, no jump and no
  duplicate counted, the recovery closed, and the arbitrator's frontier untouched with its gap flag cleared.\<close>

theorem replay_fills_the_hole:
  assumes "hc_ops cfg = refbook_ops" "hc_new cfg = refbook_new"
    and "in_step refbook_rel h sp (f - 1)" "rc_state (hd_rec h) = AwaitingSnapshot g" "held_ok ev (hd_rec h)"
    and "1 \<le> f" "f \<le> t" "t < u64_max" "answer_covers ev f f t ds" "held_discontinuity (t + 1) (hd_rec h) = None"
    and "spec_run ev [f..<held_reach (t + 1) (held_slots (hd_rec h))] sp = Ok sp'"
  shows "\<exists>h'. apply_replay cfg now \<lparr>rr_from = f, rr_through = t, rr_datagrams = ds\<rparr> h = (h', Ok True) \<and>
     in_step refbook_rel h' sp' (held_reach (t + 1) (held_slots (hd_rec h)) - 1) \<and> \<not> is_recovering (hd_rec h') \<and>
     hd_arb h' = clear_gapped (hd_arb h)"
  by (rule refset.apply_replay_run [OF assms])

theorem replay_fills_the_hole_witness:
  "\<exists>h'. apply_replay sample_cfg 20 \<lparr>rr_from = 7, rr_through = 9, rr_datagrams = [held_bytes (held_beat 5 4), held_bytes (held_beat 9 2)]\<rparr>
       (sample_handler [held_beat 9 2, held_beat 11 2]) = (h', Ok True) \<and>
     in_step refbook_rel h' (\<lambda>_. []) 12 \<and> \<not> is_recovering (hd_rec h')"
proof -
  let ?h = "sample_handler [held_beat 9 2, held_beat 11 2]"
  have "answer_datagram beats 5 9 (held_bytes (held_beat 5 4))" "answer_datagram beats 9 11 (held_bytes (held_beat 9 2))"
    using held_beat_datagram(1) [of 4 5] held_beat_datagram(1) [of 2 9] by simp_all
  then have a: "answer_covers beats 7 7 9 [held_bytes (held_beat 5 4), held_bytes (held_beat 9 2)]" by force
  have h: "in_step refbook_rel ?h (\<lambda>_. []) (7 - 1)" using sample_in_step by simp
  have s: "held_slots (hd_rec ?h) = [held_beat 9 2, held_beat 11 2]" "rc_state (hd_rec ?h) = AwaitingSnapshot 7"
    by (simp_all add: sample_handler_def)
  have "held_discontinuity (9 + 1) (hd_rec ?h) = None" using s by (simp add: held_discontinuity_def held_end_def)
  from replay_fills_the_hole [OF _ _ h s(2) sample_held_ok _ _ _ a this, of sample_cfg "\<lambda>_. []" 20] show ?thesis
    by (auto simp: s sample_cfg_def)
qed

text \<open>C19: recovering from a snapshot strands the live stream behind it. When the last fragment of a cycle has been applied and the traffic held in
  the meantime continues after the snapshot's sequence \<open>l\<close> without a hole, the books end in step through the end of the held traffic and the recovery
  is closed; but the arbitrator's frontier has been set to \<open>l + 1\<close>, not past the held traffic. So the next live datagram, the one that starts where the
  held traffic ended, is not applied: it is buffered behind messages that have all been applied already. Once the feed has been quiet for the gap time-out
  the handler declares those messages lost and is gapped again.\<close>

theorem snapshot_recovery_strands_the_live_stream:
  assumes cfg: "hc_ops cfg = refbook_ops" "hc_new cfg = refbook_new" "hc_message_limit cfg = 0"
    and st: "books_rel refbook_rel (hd_books h) sp" "quiet_stats (hd_stats h)" "log_ok (hd_log h)" "hs_applied_high (hd_stats h) \<le> l"
      "held_ok ev (hd_rec h)" "arb_inv (hd_arb h)"
    and snap: "l < u64_max" "held_discontinuity (l + 1) (hd_rec h) = None"
    and run: "spec_run ev [l + 1..<m] sp = Ok sp'" "m = held_reach (l + 1) (held_slots (hd_rec h))"
    and live: "answer_datagram ev m j d" "\<not> is_snapshot_datagram d" "l + 1 < m" "hc_gap_timeout cfg \<le> quiet"
  shows "\<exists>h' h1 h2. finish_cycle cfg now l h = (h', Ok True) \<and> in_step refbook_rel h' sp' (m - 1) \<and> \<not> is_recovering (hd_rec h') \<and>
     receive_datagram cfg now ch d h' = (h1, Ok False) \<and> in_step refbook_rel h1 sp' (m - 1) \<and> ar_next_expected (hd_arb h1) = l + 1 \<and>
     quiet_pass cfg later quiet h1 = (h2, Ok ()) \<and> hd_books h2 = hd_books h' \<and> ar_state (hd_arb h2) = Gapped"
proof -
  obtain h' where h': "finish_cycle cfg now l h = (h', Ok True)" "in_step refbook_rel h' sp' (m - 1)" "\<not> is_recovering (hd_rec h')"
      "hd_arb h' = resync_to (l + 1) (hd_arb h)"
    by (rule refset.finish_cycle_run [OF cfg(1,2) st(1-5) snap, of sp' now]) (use run in auto)
  obtain h1 where h1: "receive_datagram cfg now ch d h' = (h1, Ok False)" "hd_books h1 = hd_books h'" "hd_stats h1 = hd_stats h'"
      "hd_log h1 = hd_log h'" "ar_next_expected (hd_arb h1) = l + 1"
      "\<exists>h2. quiet_pass cfg later quiet h1 = (h2, Ok ()) \<and> hd_books h2 = hd_books h' \<and> ar_state (hd_arb h2) = Gapped"
    by (rule stranded_pass [OF st(6) h'(4,3) cfg(3) live(1-3), of now ch quiet later]) (use live(4) in auto)
  then show ?thesis using h' by (auto simp: in_step_def)
qed

theorem snapshot_recovery_strands_the_live_stream_witness:
  "\<exists>h' h1 h2. finish_cycle sample_cfg 20 8 (sample_handler [held_beat 9 2, held_beat 11 2]) = (h', Ok True) \<and>
     in_step refbook_rel h' (\<lambda>_. []) 12 \<and> receive_datagram sample_cfg 20 1 (held_bytes (held_beat 13 2)) h' = (h1, Ok False) \<and>
     in_step refbook_rel h1 (\<lambda>_. []) 12 \<and> ar_next_expected (hd_arb h1) = 9 \<and>
     quiet_pass sample_cfg 90 60 h1 = (h2, Ok ()) \<and> ar_state (hd_arb h2) = Gapped"
proof -
  let ?h = "sample_handler [held_beat 9 2, held_beat 11 2]"
  have i: "books_rel refbook_rel (hd_books ?h) (\<lambda>_. [])" "quiet_stats (hd_stats ?h)" "log_ok (hd_log ?h)" "hs_applied_high (hd_stats ?h) \<le> 8"
    using sample_in_step by (simp_all add: in_step_def)
  have a: "arb_inv (hd_arb ?h)" by (simp add: sample_handler_def handler_new_def arb_inv_new sample_cfg_def)
  have s: "held_slots (hd_rec ?h) = [held_beat 9 2, held_beat 11 2]" by (simp add: sample_handler_def)
  then have d: "held_discontinuity (8 + 1) (hd_rec ?h) = None" "13 = held_reach (8 + 1) (held_slots (hd_rec ?h))"
    by (simp_all add: held_discontinuity_def held_end_def)
  have l: "answer_datagram beats 13 (13 + 2) (held_bytes (held_beat 13 2))" "\<not> is_snapshot_datagram (held_bytes (held_beat 13 2))"
    by (rule held_beat_datagram; simp)+
  from snapshot_recovery_strands_the_live_stream [OF _ _ _ i sample_held_ok a _ d(1) _ d(2) l, of sample_cfg "\<lambda>_. []" 60 20 1 90] show ?thesis
    by (auto simp: sample_cfg_def)
qed

end
