(* ===== verification/SnapshotFeed.thy ===== *)
theory SnapshotFeed
  imports Feed
begin

text \<open>
  The snapshot cycle of the publisher, \<open>publish_snapshot\<close> and \<open>send_snapshot_datagram\<close> of \<open>crates/matching-engine/src/feed.rs\<close>: after a flush,
  every symbol's resting orders in queue order, cut into fragments that fit a datagram, on both arms, with the flags that mark the start and
  the end of the cycle. As in \<open>Feed\<close>, the clock and the sockets are the environment.
\<close>

section \<open>Operations\<close>

record snapshot_cycle =
  sc_sequence :: nat
  sc_last_sequence :: nat
  sc_datagrams :: nat
  sc_orders :: nat
  sc_symbols :: nat

text \<open>Push orders until the encoder refuses one; the second component counts those taken.\<close>

fun push_fitting :: "resting_order list \<Rightarrow> snapshot_encoder \<Rightarrow> nat \<Rightarrow> (wire_error, snapshot_encoder \<times> nat) outcome" where
  "push_fitting [] se packed = Ok (se, packed)"
| "push_fitting (x # xs) se packed =
     (case SnapshotEncoder_push_order se (ro_order_id x) (ro_price x) (ro_quantity x) (ro_side x) of
        Ok se' \<Rightarrow> push_fitting xs se' (packed + 1)
      | Err _ \<Rightarrow> Ok (se, packed)
      | Panic \<Rightarrow> Panic)"

definition write_fragment :: "nat \<Rightarrow> nat \<Rightarrow> resting_order list \<Rightarrow> (nat \<times> nat) feed_op" where
  "write_fragment last_sequence symbol_id orders fp =
     (if length (fp_snapshot_buf fp) < PACKET_HEADER_LEN then (fp, Panic)
      else case SnapshotEncoder_start (drop PACKET_HEADER_LEN (fp_snapshot_buf fp)) last_sequence symbol_id 0 of
        Err e \<Rightarrow> (fp, Err (IoWire e))
      | Panic \<Rightarrow> (fp, Panic)
      | Ok se \<Rightarrow>
          (case obind (push_fitting orders se 0) (\<lambda>(se, packed). obind (SnapshotEncoder_finish se) (\<lambda>(n, b). Ok (n, packed, b))) of
             Ok (n, packed, b) \<Rightarrow>
               (fp\<lparr>fp_snapshot_buf := take PACKET_HEADER_LEN (fp_snapshot_buf fp) @ b\<rparr>, Ok (n, packed))
           | Err e \<Rightarrow> (fp, Err (IoWire e))
           | Panic \<Rightarrow> (fp, Panic)))"

definition fragment_flags :: "bool \<Rightarrow> bool \<Rightarrow> bool \<Rightarrow> nat" where
  "fragment_flags first_of_cycle last_fragment is_last_symbol =
     or (if first_of_cycle then SNAPSHOT_FLAG_CYCLE_START else 0)
       (if last_fragment then or SNAPSHOT_FLAG_LAST_FRAGMENT (if is_last_symbol then SNAPSHOT_FLAG_CYCLE_END else 0) else 0)"

definition write_fragment_flags :: "nat \<Rightarrow> unit feed_op" where
  "write_fragment_flags flags fp =
     (if flags = 0 then (fp, Ok ())
      else if length (fp_snapshot_buf fp) < PACKET_HEADER_LEN then (fp, Panic)
      else case patch_snapshot_flags (drop PACKET_HEADER_LEN (fp_snapshot_buf fp)) flags of
        Ok b \<Rightarrow> (fp\<lparr>fp_snapshot_buf := take PACKET_HEADER_LEN (fp_snapshot_buf fp) @ b\<rparr>, Ok ())
      | Err e \<Rightarrow> (fp, Err (IoWire e))
      | Panic \<Rightarrow> (fp, Panic))"

definition write_snapshot_header :: "nat \<Rightarrow> nat \<Rightarrow> unit feed_op" where
  "write_snapshot_header sq now_ns fp =
     (case encode_packet_header (fp_snapshot_buf fp) 0 PACKET_FLAG_SNAPSHOT sq now_ns of
        Ok (_, b) \<Rightarrow> (case patch_message_count b 1 of
            Ok b' \<Rightarrow> (fp\<lparr>fp_snapshot_buf := b'\<rparr>, Ok ())
          | Err e \<Rightarrow> (fp\<lparr>fp_snapshot_buf := b\<rparr>, Err (IoWire e)) | Panic \<Rightarrow> (fp, Panic))
      | Err e \<Rightarrow> (fp, Err (IoWire e)) | Panic \<Rightarrow> (fp, Panic))"

definition send_snapshot_arm :: "nat \<Rightarrow> bool \<Rightarrow> (bytes \<Rightarrow> feed_publisher \<Rightarrow> feed_publisher) \<Rightarrow> nat \<Rightarrow> unit feed_op" where
  "send_snapshot_arm channel send_ok sent len fp =
     (case patch_packet_channel (fp_snapshot_buf fp) channel of
        Ok b \<Rightarrow>
          if length b < len then (fp\<lparr>fp_snapshot_buf := b\<rparr>, Panic)
          else if send_ok then (sent (take len b) (fp\<lparr>fp_snapshot_buf := b\<rparr>), Ok ())
          else (fp\<lparr>fp_snapshot_buf := b\<rparr>, Err IoSend)
      | Err e \<Rightarrow> (fp, Err (IoWire e))
      | Panic \<Rightarrow> (fp, Panic))"

definition send_snapshot_datagram :: "nat \<Rightarrow> unit feed_op" where
  "send_snapshot_datagram len fp =
     (let env = fp_env fp (fp_env_used fp); sq = fp_snapshot_seq fp in
      sbind (write_snapshot_header sq (env_now_ns env)) (\<lambda>_.
      sbind (send_snapshot_arm 0 (env_send_a env) (\<lambda>d fp. fp\<lparr>fp_sent_a := fp_sent_a fp @ [d]\<rparr>) len) (\<lambda>_.
      sbind (send_snapshot_arm 1 (env_send_b env) (\<lambda>d fp. fp\<lparr>fp_sent_b := fp_sent_b fp @ [d]\<rparr>) len) (\<lambda>_.
      supdate (\<lambda>fp. fp\<lparr>fp_stats := (fp_stats fp)\<lparr>fst_snapshot_datagrams := fst_snapshot_datagrams (fp_stats fp) + 1\<rparr>\<rparr>))))
      (fp\<lparr>fp_env_used := fp_env_used fp + 1, fp_snapshot_seq := wrap_add_u64 sq 1\<rparr>))"

text \<open>The fragments of one symbol, from the order at index \<open>written\<close> on.\<close>

function publish_fragments :: "nat \<Rightarrow> nat \<Rightarrow> bool \<Rightarrow> resting_order list \<Rightarrow> nat \<Rightarrow> bool \<Rightarrow> snapshot_cycle \<Rightarrow> snapshot_cycle feed_op" where
  "publish_fragments last_sequence symbol_id is_last_symbol orders written first_of_cycle cycle fp =
     (case write_fragment last_sequence symbol_id (drop written orders) fp of
        (fp, Err e) \<Rightarrow> (fp, Err e)
      | (fp, Panic) \<Rightarrow> (fp, Panic)
      | (fp, Ok (n, packed)) \<Rightarrow>
          if packed = 0 \<and> orders \<noteq> [] then (fp, Err IoSnapshotTooSmall)
          else
            let last_fragment = (length orders \<le> written + packed) in
            case sbind (write_fragment_flags (fragment_flags first_of_cycle last_fragment is_last_symbol))
                (\<lambda>_. send_snapshot_datagram (PACKET_HEADER_LEN + n)) fp of
              (fp, Err e) \<Rightarrow> (fp, Err e)
            | (fp, Panic) \<Rightarrow> (fp, Panic)
            | (fp, Ok _) \<Rightarrow>
                let cycle = cycle\<lparr>sc_datagrams := sc_datagrams cycle + 1, sc_orders := sc_orders cycle + packed\<rparr> in
                if last_fragment then (fp, Ok cycle)
                else publish_fragments last_sequence symbol_id is_last_symbol orders (written + packed) False cycle fp)"
  by pat_completeness auto
termination
  by (relation "measure (\<lambda>(_, _, _, orders, written, _, _, _). length orders - written)") auto

declare publish_fragments.simps [simp del]

fun publish_symbols :: "nat \<Rightarrow> refbook books \<Rightarrow> bool \<Rightarrow> snapshot_cycle \<Rightarrow> snapshot_cycle feed_op" where
  "publish_symbols last_sequence [] first_of_cycle cycle fp = (fp, Ok cycle)"
| "publish_symbols last_sequence ((symbol_id, book) # rest) first_of_cycle cycle fp =
     (case publish_fragments last_sequence symbol_id (rest = [])
          (rb_orders_in_queue_order book Bid @ rb_orders_in_queue_order book Ask) 0 first_of_cycle
          (cycle\<lparr>sc_symbols := sc_symbols cycle + 1\<rparr>) fp of
        (fp, Ok cycle) \<Rightarrow> publish_symbols last_sequence rest False cycle fp
      | (fp, Err e) \<Rightarrow> (fp, Err e)
      | (fp, Panic) \<Rightarrow> (fp, Panic))"

definition publish_snapshot :: "refbook books \<Rightarrow> snapshot_cycle feed_op" where
  "publish_snapshot bks =
     sbind flush (\<lambda>_ fp.
       publish_symbols (fp_last_sequence fp) bks True
         \<lparr>sc_sequence = fp_snapshot_seq fp, sc_last_sequence = fp_last_sequence fp, sc_datagrams = 0, sc_orders = 0, sc_symbols = 0\<rparr> fp)"

section \<open>What goes on the wire\<close>

record fragment =
  fg_seq :: nat
  fg_ts :: nat
  fg_symbol :: nat
  fg_flags :: nat
  fg_orders :: "resting_order list"

definition fragment_image :: "nat \<Rightarrow> nat \<Rightarrow> fragment \<Rightarrow> bytes" where
  "fragment_image ls ch f = packet_header_image ch PACKET_FLAG_SNAPSHOT (fg_seq f) (fg_ts f) 1 @
     snapshot_image ls (fg_symbol f) (fg_flags f) (map resting_so (fg_orders f))"

definition fragment_fits :: "fragment \<Rightarrow> bool" where
  "fragment_fits f \<longleftrightarrow> fg_seq f \<le> u64_max \<and> fg_ts f \<le> u64_max \<and> length (fg_orders f) \<le> u16_max"

lemma push_fitting_holds:
  assumes "se_holds se hdr ys" "length ys \<le> u16_max"
  shows "\<exists>k se'. push_fitting xs se p = Ok (se', p + k) \<and> k \<le> length xs \<and> se_holds se' hdr (ys @ map resting_so (take k xs)) \<and>
     length (se_buf se') = length (se_buf se) \<and> length ys + k \<le> u16_max \<and>
     (xs \<noteq> [] \<and> se_pos se + 24 \<le> length (se_buf se) \<and> length ys < u16_max \<longrightarrow> 0 < k)"
  using assms
proof (induction xs arbitrary: se ys p)
  case Nil
  then show ?case by auto
next
  case (Cons x xs)
  have ps: "push_snap_order (resting_so x) se = SnapshotEncoder_push_order se (ro_order_id x) (ro_price x) (ro_quantity x) (ro_side x)"
    by (simp add: push_snap_order_def resting_so_def)
  have pos: "se_pos se \<le> length (se_buf se)" "se_count se = length ys" using Cons.prems(1) by (auto simp: se_holds_def)
  show ?case
  proof (cases "se_pos se + 24 \<le> length (se_buf se) \<and> length ys < u16_max")
    case True
    then have "24 \<le> length (se_buf se) - se_pos se" "length ys < u16_max" by auto
    then obtain se1 where s: "push_snap_order (resting_so x) se = Ok se1" "se_holds se1 hdr (ys @ [resting_so x])"
        "length (se_buf se1) = length (se_buf se)"
      using push_snap_order_holds [OF Cons.prems(1), of "resting_so x"] by blast
    have "length (ys @ [resting_so x]) \<le> u16_max" using True by simp
    from Cons.IH [OF s(2) this, of "p + 1"] obtain k se' where k: "push_fitting xs se1 (p + 1) = Ok (se', p + 1 + k)" "k \<le> length xs"
        "se_holds se' hdr ((ys @ [resting_so x]) @ map resting_so (take k xs))" "length (se_buf se') = length (se_buf se1)"
        "length (ys @ [resting_so x]) + k \<le> u16_max" by blast
    then show ?thesis using s ps by (intro exI [of _ "Suc k"] exI [of _ se']) simp
  next
    case False
    then have "\<exists>e. SnapshotEncoder_push_order se (ro_order_id x) (ro_price x) (ro_quantity x) (ro_side x) = Err e"
      using pos Cons.prems(2) by (auto simp: SnapshotEncoder_push_order_def Let_def)
    then show ?thesis using False Cons.prems by (intro exI [of _ 0] exI [of _ se]) auto
  qed
qed

lemma snapshot_image_reflag:
  "patch 18 (to_le 1 fl) (snapshot_image ls y 0 xs @ rest) = snapshot_image ls y fl xs @ rest"
proof -
  have "patch 18 (to_le 1 fl) (snapshot_head_image ls y 0 n) = snapshot_head_image ls y fl n" for n
    by (simp add: snapshot_head_image_def patch_twice patch_commute [where k = 18 and j = 22] patch_commute [where k = 18 and j = 20])
  then show ?thesis by (simp add: snapshot_image_def)
qed

lemma write_fragment_image:
  assumes "72 \<le> length (fp_snapshot_buf fp)"
  obtains k B where "write_fragment ls y xs fp = (fp\<lparr>fp_snapshot_buf := B\<rparr>, Ok (24 + 24 * k, k))" "length B = length (fp_snapshot_buf fp)"
    "take (24 + 24 * k) (drop 24 B) = snapshot_image ls y 0 (map resting_so (take k xs))" "k \<le> length xs" "k \<le> u16_max" "xs \<noteq> [] \<longrightarrow> 0 < k"
    "48 + 24 * k \<le> length B"
proof -
  let ?b = "drop 24 (fp_snapshot_buf fp)"
  have "24 \<le> length ?b" using assms by simp
  then obtain s0 where s0: "SnapshotEncoder_start ?b ls y 0 = Ok s0" "length (se_buf s0) = length ?b" "se_holds s0 (snapshot_head_image ls y 0 0) []"
    using SnapshotEncoder_start_holds [of ?b ls y 0] by blast
  obtain k se where k: "push_fitting xs s0 0 = Ok (se, k)" "k \<le> length xs" "se_holds se (snapshot_head_image ls y 0 0) (map resting_so (take k xs))"
      "length (se_buf se) = length ?b" "k \<le> u16_max" "xs \<noteq> [] \<longrightarrow> 0 < k"
    using push_fitting_holds [OF s0(3), of xs 0] s0(2,3) assms by (auto simp: se_holds_def)
  let ?n = "24 + 24 * k" and ?c = "patch 22 (to_le 2 k) (se_buf se)"
  have pos: "se_pos se = ?n" "se_count se = k" "?n \<le> length (se_buf se)"
      "take ?n (se_buf se) = snapshot_head_image ls y 0 0 @ concat (map entry_image (map resting_so (take k xs)))"
    using k(2,3) by (auto simp: se_holds_def)
  have fin: "SnapshotEncoder_finish se = Ok (?n, ?c)" using pos by (simp add: SnapshotEncoder_finish_def put_u16_def access_in_range)
  have img: "take ?n ?c = snapshot_image ls y 0 (map resting_so (take k xs))"
    using pos k(2) by (simp add: take_patch snapshot_image_def snapshot_head_image_recount min_absorb2)
  let ?B = "take 24 (fp_snapshot_buf fp) @ ?c"
  have "length ?c = length ?b" using k(4) pos(3) by simp
  then have len: "length ?B = length (fp_snapshot_buf fp)" "drop 24 ?B = ?c" using assms by simp_all
  have "write_fragment ls y xs fp = (fp\<lparr>fp_snapshot_buf := ?B\<rparr>, Ok (?n, k))"
    using assms s0(1) k(1) fin by (simp add: write_fragment_def)
  then show thesis by (rule that) (use len img k(2,5,6) pos(3) k(4) assms in auto)
qed

lemma write_flags_image:
  assumes "take (24 + 24 * length zs) (drop 24 (fp_snapshot_buf fp)) = snapshot_image ls y 0 zs" "48 + 24 * length zs \<le> length (fp_snapshot_buf fp)"
  obtains B where "write_fragment_flags fl fp = (fp\<lparr>fp_snapshot_buf := B\<rparr>, Ok ())" "length B = length (fp_snapshot_buf fp)"
    "take (24 + 24 * length zs) (drop 24 B) = snapshot_image ls y fl zs"
proof (cases "fl = 0")
  case True
  show thesis by (rule that [of "fp_snapshot_buf fp"]) (use assms True in \<open>simp_all add: write_fragment_flags_def\<close>)
next
  case False
  let ?b = "drop 24 (fp_snapshot_buf fp)"
  let ?B = "take 24 (fp_snapshot_buf fp) @ patch 18 (to_le 1 fl) ?b"
  have "?b = snapshot_image ls y 0 zs @ drop (24 + 24 * length zs) ?b" using assms(1) by (metis append_take_drop_id)
  then have eq: "patch 18 (to_le 1 fl) ?b = snapshot_image ls y fl zs @ drop (24 + 24 * length zs) ?b" by (metis snapshot_image_reflag)
  have "write_fragment_flags fl fp = (fp\<lparr>fp_snapshot_buf := ?B\<rparr>, Ok ())"
    using False assms(2) by (simp add: write_fragment_flags_def patch_snapshot_flags_def put_u8_patch access_in_range Let_def)
  moreover have "length ?B = length (fp_snapshot_buf fp)" using assms(2) by simp
  moreover have "drop 24 ?B = patch 18 (to_le 1 fl) ?b" using assms(2) by simp
  then have "take (24 + 24 * length zs) (drop 24 ?B) = snapshot_image ls y fl zs" unfolding eq by simp
  ultimately show thesis by (rule that)
qed

text \<open>What publishing snapshot datagrams leaves alone.\<close>

definition snapshot_only :: "feed_publisher \<Rightarrow> feed_publisher \<Rightarrow> bool" where
  "snapshot_only fp fp' \<longleftrightarrow> fp_env fp' = fp_env fp \<and> length (fp_snapshot_buf fp') = length (fp_snapshot_buf fp) \<and> fp_next_seq fp' = fp_next_seq fp \<and>
     fp_buf fp' = fp_buf fp \<and> fp_pos fp' = fp_pos fp \<and> fp_count fp' = fp_count fp \<and> fp_uplink fp' = fp_uplink fp \<and> fp_shadow fp' = fp_shadow fp"

lemma send_snapshot_image:
  assumes "take n (drop 24 (fp_snapshot_buf fp)) = img" "24 + n \<le> length (fp_snapshot_buf fp)" "env_ok fp"
    and "fp_snapshot_seq fp \<le> u64_max"
  obtains fp' ts where "send_snapshot_datagram (24 + n) fp = (fp', Ok ())" "snapshot_only fp fp'" "fp_snapshot_seq fp' \<le> u64_max" "ts \<le> u64_max"
    "fp_sent_a fp' = fp_sent_a fp @ [packet_header_image 0 PACKET_FLAG_SNAPSHOT (fp_snapshot_seq fp) ts 1 @ img]"
    "fp_sent_b fp' = fp_sent_b fp @ [packet_header_image 1 PACKET_FLAG_SNAPSHOT (fp_snapshot_seq fp) ts 1 @ img]"
proof -
  let ?env = "fp_env fp (fp_env_used fp)" and ?sq = "fp_snapshot_seq fp" and ?rest = "drop 24 (fp_snapshot_buf fp)"
  have e: "env_now_ns ?env \<le> u64_max" "env_send_a ?env" "env_send_b ?env" using assms(3) by (auto simp: env_ok_def)
  let ?ts = "env_now_ns ?env"
  let ?H = "\<lambda>ch. packet_header_image ch PACKET_FLAG_SNAPSHOT ?sq ?ts 1"
  have hd: "write_snapshot_header ?sq ?ts f = (f\<lparr>fp_snapshot_buf := ?H 0 @ ?rest\<rparr>, Ok ())" if "fp_snapshot_buf f = fp_snapshot_buf fp" for f
    using assms(2) that by (simp add: write_snapshot_header_def encode_packet_header_image patch_message_count_def put_u16_def access_in_range
        packet_header_image_recount)
  have t: "take (24 + n) (?H ch @ ?rest) = ?H ch @ img" for ch using assms(1) by simp
  have arm: "send_snapshot_arm c True sent (24 + n) f = (sent (?H c @ img) (f\<lparr>fp_snapshot_buf := ?H c @ ?rest\<rparr>), Ok ())"
    if "fp_snapshot_buf f = ?H ch @ ?rest" for f c ch sent
    using that t assms(2) by (simp add: send_snapshot_arm_def patch_packet_channel_image)
  define fp' where "fp' = fst (send_snapshot_datagram (24 + n) fp)"
  have r: "send_snapshot_datagram (24 + n) fp = (fp', Ok ())"
    unfolding fp'_def send_snapshot_datagram_def Let_def sbind_def using e by (simp add: hd arm supdate_def)
  have f: "fp' = fp\<lparr>fp_env_used := fp_env_used fp + 1, fp_snapshot_seq := wrap_add_u64 ?sq 1, fp_snapshot_buf := ?H 1 @ ?rest,
      fp_sent_a := fp_sent_a fp @ [?H 0 @ img], fp_sent_b := fp_sent_b fp @ [?H 1 @ img],
      fp_stats := (fp_stats fp)\<lparr>fst_snapshot_datagrams := fst_snapshot_datagrams (fp_stats fp) + 1\<rparr>\<rparr>"
    unfolding fp'_def send_snapshot_datagram_def Let_def sbind_def using e by (simp add: hd arm supdate_def)
  show thesis by (rule that [OF r, of ?ts]) (use e(1) assms(2) wrap_add_u64_bound [of ?sq 1] in \<open>simp_all add: f snapshot_only_def\<close>)
qed


lemma snapshot_only_trans: "snapshot_only a b \<Longrightarrow> snapshot_only b c \<Longrightarrow> snapshot_only a c"
  by (simp add: snapshot_only_def)

lemma snapshot_only_env: "snapshot_only a b \<Longrightarrow> env_ok b = env_ok a"
  by (simp add: snapshot_only_def env_ok_def)

text \<open>One fragment: as many orders as fit, with the flags, on both arms.\<close>

lemma publish_fragment_ok:
  assumes "72 \<le> length (fp_snapshot_buf fp)" "env_ok fp" "fp_snapshot_seq fp \<le> u64_max"
  obtains k f fp1 fp' where "write_fragment ls y xs fp = (fp1, Ok (24 + 24 * k, k))"
    "sbind (write_fragment_flags (fl k)) (\<lambda>_. send_snapshot_datagram (PACKET_HEADER_LEN + (24 + 24 * k))) fp1 = (fp', Ok ())"
    "k \<le> length xs" "xs \<noteq> [] \<longrightarrow> 0 < k" "fg_symbol f = y" "fg_flags f = fl k" "fg_orders f = take k xs" "fragment_fits f"
    "snapshot_only fp fp'" "fp_snapshot_seq fp' \<le> u64_max"
    "fp_sent_a fp' = fp_sent_a fp @ [fragment_image ls 0 f]" "fp_sent_b fp' = fp_sent_b fp @ [fragment_image ls 1 f]"
proof -
  obtain k B where w: "write_fragment ls y xs fp = (fp\<lparr>fp_snapshot_buf := B\<rparr>, Ok (24 + 24 * k, k))" "length B = length (fp_snapshot_buf fp)"
      "take (24 + 24 * k) (drop 24 B) = snapshot_image ls y 0 (map resting_so (take k xs))" "k \<le> length xs" "k \<le> u16_max" "xs \<noteq> [] \<longrightarrow> 0 < k"
      "48 + 24 * k \<le> length B"
    by (rule write_fragment_image [OF assms(1)])
  let ?zs = "map resting_so (take k xs)" and ?fp1 = "fp\<lparr>fp_snapshot_buf := B\<rparr>"
  have l: "length ?zs = k" using w(4) by simp
  obtain C where c: "write_fragment_flags (fl k) ?fp1 = (?fp1\<lparr>fp_snapshot_buf := C\<rparr>, Ok ())" "length C = length B"
      "take (24 + 24 * k) (drop 24 C) = snapshot_image ls y (fl k) ?zs"
    using write_flags_image [of ?zs ?fp1 ls y "fl k"] w(3,7) l by auto
  let ?fp2 = "?fp1\<lparr>fp_snapshot_buf := C\<rparr>"
  obtain fp' ts where s: "send_snapshot_datagram (24 + (24 + 24 * k)) ?fp2 = (fp', Ok ())" "snapshot_only ?fp2 fp'" "fp_snapshot_seq fp' \<le> u64_max"
      "ts \<le> u64_max"
      "fp_sent_a fp' = fp_sent_a fp @ [packet_header_image 0 PACKET_FLAG_SNAPSHOT (fp_snapshot_seq fp) ts 1 @ snapshot_image ls y (fl k) ?zs]"
      "fp_sent_b fp' = fp_sent_b fp @ [packet_header_image 1 PACKET_FLAG_SNAPSHOT (fp_snapshot_seq fp) ts 1 @ snapshot_image ls y (fl k) ?zs]"
    using send_snapshot_image [of "24 + 24 * k" ?fp2 "snapshot_image ls y (fl k) ?zs"] c(2,3) w(7) assms(2,3) by (auto simp: env_ok_def)
  define f where "f = \<lparr>fg_seq = fp_snapshot_seq fp, fg_ts = ts, fg_symbol = y, fg_flags = fl k, fg_orders = take k xs\<rparr>"
  have sd: "sbind (write_fragment_flags (fl k)) (\<lambda>_. send_snapshot_datagram (PACKET_HEADER_LEN + (24 + 24 * k))) ?fp1 = (fp', Ok ())"
    using c(1) s(1) by (simp add: sbind_def)
  have so: "snapshot_only fp fp'" using s(2) c(2) w(2) by (simp add: snapshot_only_def)
  have ff: "fragment_fits f" using assms(3) s(4) w(4,5) by (simp add: fragment_fits_def f_def)
  show thesis
    by (rule that [OF w(1) sd w(4,6) _ _ _ ff so s(3)]) (use s(5,6) in \<open>simp_all add: f_def fragment_image_def\<close>)
qed

text \<open>The fragments of a symbol: its orders in sequence, and the flags by position.\<close>

definition symbol_fragments :: "nat \<Rightarrow> bool \<Rightarrow> bool \<Rightarrow> resting_order list \<Rightarrow> fragment list \<Rightarrow> bool" where
  "symbol_fragments y first is_last xs fs \<longleftrightarrow> fs \<noteq> [] \<and> list_all (\<lambda>f. fg_symbol f = y \<and> fragment_fits f) fs \<and> concat (map fg_orders fs) = xs \<and>
     map fg_flags fs = map (\<lambda>i. fragment_flags (first \<and> i = 0) (Suc i = length fs) is_last) [0..<length fs]"

lemma symbol_fragments_single:
  "fg_symbol f = y \<Longrightarrow> fragment_fits f \<Longrightarrow> fg_flags f = fragment_flags first True is_last \<Longrightarrow> symbol_fragments y first is_last (fg_orders f) [f]"
  by (simp add: symbol_fragments_def)

lemma symbol_fragments_Cons:
  assumes "fg_symbol f = y" "fragment_fits f" "fg_flags f = fragment_flags first False is_last" "symbol_fragments y False is_last xs fs"
  shows "symbol_fragments y first is_last (fg_orders f @ xs) (f # fs)"
proof -
  have "[0..<length (f # fs)] = 0 # map Suc [0..<length fs]" by (simp add: upt_conv_Cons map_Suc_upt del: upt_Suc)
  then show ?thesis using assms by (simp add: symbol_fragments_def comp_def del: upt_Suc)
qed

lemma publish_fragments_ok:
  assumes "72 \<le> length (fp_snapshot_buf fp)" "env_ok fp" "fp_snapshot_seq fp \<le> u64_max" "w \<le> length xs" "xs \<noteq> [] \<longrightarrow> w < length xs"
  shows "\<exists>fs fp' cyc'. publish_fragments ls y is_last xs w first cyc fp = (fp', Ok cyc') \<and> symbol_fragments y first is_last (drop w xs) fs \<and>
     snapshot_only fp fp' \<and> fp_snapshot_seq fp' \<le> u64_max \<and> cyc' = cyc\<lparr>sc_datagrams := sc_datagrams cyc + length fs, sc_orders := sc_orders cyc + length (drop w xs)\<rparr> \<and>
     fp_sent_a fp' = fp_sent_a fp @ map (fragment_image ls 0) fs \<and> fp_sent_b fp' = fp_sent_b fp @ map (fragment_image ls 1) fs"
  using assms
proof (induction "length xs - w" arbitrary: w fp first cyc rule: less_induct)
  case less
  obtain k f fp1 fp' where p: "write_fragment ls y (drop w xs) fp = (fp1, Ok (24 + 24 * k, k))"
      "sbind (write_fragment_flags (fragment_flags first (length xs \<le> w + k) is_last)) (\<lambda>_. send_snapshot_datagram (PACKET_HEADER_LEN + (24 + 24 * k))) fp1 = (fp', Ok ())"
      "k \<le> length (drop w xs)" "drop w xs \<noteq> [] \<longrightarrow> 0 < k" "fg_symbol f = y" "fg_flags f = fragment_flags first (length xs \<le> w + k) is_last"
      "fg_orders f = take k (drop w xs)" "fragment_fits f"
      "snapshot_only fp fp'" "fp_snapshot_seq fp' \<le> u64_max"
      "fp_sent_a fp' = fp_sent_a fp @ [fragment_image ls 0 f]" "fp_sent_b fp' = fp_sent_b fp @ [fragment_image ls 1 f]"
    by (rule publish_fragment_ok [OF less.prems(1-3), of ls y "drop w xs" "\<lambda>k. fragment_flags first (length xs \<le> w + k) is_last"])
  let ?cyc = "cyc\<lparr>sc_datagrams := sc_datagrams cyc + 1, sc_orders := sc_orders cyc + k\<rparr>"
  have go: "\<not> (k = 0 \<and> xs \<noteq> [])" using p(4) less.prems(5) by auto
  show ?case
  proof (cases "length xs \<le> w + k")
    case True
    then have "fg_orders f = drop w xs" using p(3,7) by simp
    then have "symbol_fragments y first is_last (drop w xs) [f]" using symbol_fragments_single [OF p(5,8)] p(6) True by simp
    moreover have "publish_fragments ls y is_last xs w first cyc fp = (fp', Ok ?cyc)"
      using p(1,2) go True by (subst publish_fragments.simps) (simp add: Let_def)
    moreover have "k = length (drop w xs)" using True p(3) by simp
    ultimately show ?thesis using p(9-12) by (intro exI [of _ "[f]"] exI [of _ fp'] exI [of _ ?cyc]) simp
  next
    case False
    then have "0 < k" using p(4) by auto
    then have "length xs - (w + k) < length xs - w" using False by simp
    moreover have "72 \<le> length (fp_snapshot_buf fp')" "env_ok fp'" using p(9) less.prems(1,2) snapshot_only_env [OF p(9)] by (auto simp: snapshot_only_def)
    ultimately obtain fs fp'' where r: "publish_fragments ls y is_last xs (w + k) False ?cyc fp' = (fp'',
          Ok (?cyc\<lparr>sc_datagrams := sc_datagrams ?cyc + length fs, sc_orders := sc_orders ?cyc + length (drop (w + k) xs)\<rparr>))"
        "symbol_fragments y False is_last (drop (w + k) xs) fs" "snapshot_only fp' fp''" "fp_snapshot_seq fp'' \<le> u64_max"
        "fp_sent_a fp'' = fp_sent_a fp' @ map (fragment_image ls 0) fs" "fp_sent_b fp'' = fp_sent_b fp' @ map (fragment_image ls 1) fs"
      using less.hyps [of "w + k" fp' False ?cyc] p(10) False by auto
    have "symbol_fragments y first is_last (take k (drop w xs) @ drop (w + k) xs) (f # fs)"
      using symbol_fragments_Cons [OF p(5,8) _ r(2), of first] p(6,7) False by simp
    moreover have "take k (drop w xs) @ drop (w + k) xs = drop w xs" by (metis add.commute append_take_drop_id drop_drop)
    moreover have "publish_fragments ls y is_last xs w first cyc fp = publish_fragments ls y is_last xs (w + k) False ?cyc fp'"
      using p(1,2) \<open>0 < k\<close> False by (subst publish_fragments.simps) (simp add: Let_def)
    ultimately show ?thesis using r p(9-12) False
      by (intro exI [of _ "f # fs"] exI [of _ fp'']) (auto intro: snapshot_only_trans)
  qed
qed

section \<open>The cycle\<close>

definition book_orders :: "refbook \<Rightarrow> resting_order list" where
  "book_orders b = rb_orders_in_queue_order b Bid @ rb_orders_in_queue_order b Ask"

definition orders_of :: "nat \<Rightarrow> fragment list \<Rightarrow> resting_order list" where
  "orders_of y fs = concat (map fg_orders (filter (\<lambda>f. fg_symbol f = y) fs))"

text \<open>A cycle carries every symbol's orders in queue order; only its first fragment is marked as the start, and only its last as the end.\<close>

definition cycle_of :: "refbook books \<Rightarrow> bool \<Rightarrow> fragment list \<Rightarrow> bool" where
  "cycle_of bks first fs \<longleftrightarrow> list_all (\<lambda>f. fragment_fits f \<and> fg_symbol f \<in> set (map fst bks)) fs \<and>
     (\<forall>y. orders_of y fs = (case om_get y bks of None \<Rightarrow> [] | Some b \<Rightarrow> book_orders b)) \<and> (bks \<noteq> [] \<longrightarrow> fs \<noteq> []) \<and>
     (\<forall>i<length fs. fg_flags (fs ! i) \<le> u8_max \<and> (and (fg_flags (fs ! i)) SNAPSHOT_FLAG_CYCLE_START \<noteq> 0 \<longleftrightarrow> first \<and> i = 0) \<and>
        (and (fg_flags (fs ! i)) SNAPSHOT_FLAG_CYCLE_END \<noteq> 0 \<longleftrightarrow> Suc i = length fs))"

lemma fragment_flags_bits:
  "and (fragment_flags a b c) SNAPSHOT_FLAG_CYCLE_START \<noteq> 0 \<longleftrightarrow> a"
  "and (fragment_flags a b c) SNAPSHOT_FLAG_CYCLE_END \<noteq> 0 \<longleftrightarrow> b \<and> c" "fragment_flags a b c \<le> u8_max"
  by (cases a; cases b; cases c;
      simp add: fragment_flags_def SNAPSHOT_FLAG_CYCLE_START_def SNAPSHOT_FLAG_CYCLE_END_def SNAPSHOT_FLAG_LAST_FRAGMENT_def)+

lemma orders_of_append: "orders_of y (fs @ gs) = orders_of y fs @ orders_of y gs"
  by (simp add: orders_of_def)

lemma orders_of_symbol:
  assumes "symbol_fragments y first is_last xs fs"
  shows "orders_of z fs = (if z = y then xs else [])"
proof -
  have "\<forall>f\<in>set fs. fg_symbol f = y" "concat (map fg_orders fs) = xs" using assms by (auto simp: symbol_fragments_def list_all_iff)
  then show ?thesis by (auto simp: orders_of_def filter_empty_conv)
qed

lemma symbol_fragments_nth:
  assumes "symbol_fragments y first is_last xs fs" "i < length fs"
  shows "fg_flags (fs ! i) = fragment_flags (first \<and> i = 0) (Suc i = length fs) is_last"
proof -
  have "map fg_flags fs ! i = map (\<lambda>i. fragment_flags (first \<and> i = 0) (Suc i = length fs) is_last) [0..<length fs] ! i"
    using assms(1) by (simp add: symbol_fragments_def)
  then show ?thesis using assms(2) by simp
qed

lemma cycle_of_Cons:
  assumes s: "symbol_fragments y first (rest = []) (book_orders b) fs" and r: "cycle_of rest False gs" and inv: "om_invar ((y, b) # rest)"
  shows "cycle_of ((y, b) # rest) first (fs @ gs)"
proof -
  have g0: "rest = [] \<Longrightarrow> gs = []" using r by (cases gs) (auto simp: cycle_of_def)
  have fs: "fs \<noteq> []" "list_all (\<lambda>f. fg_symbol f = y \<and> fragment_fits f) fs" using s by (auto simp: symbol_fragments_def)
  have ny: "om_get y rest = None" using inv by (auto simp: om_invar_def om_get_map_of map_of_eq_None_iff)
  have o: "orders_of z (fs @ gs) = (case om_get z ((y, b) # rest) of None \<Rightarrow> [] | Some b \<Rightarrow> book_orders b)" for z
    using orders_of_symbol [OF s, of z] r ny by (auto simp: orders_of_append cycle_of_def)
  have "fg_flags ((fs @ gs) ! i) \<le> u8_max \<and> (and (fg_flags ((fs @ gs) ! i)) SNAPSHOT_FLAG_CYCLE_START \<noteq> 0 \<longleftrightarrow> first \<and> i = 0) \<and>
        (and (fg_flags ((fs @ gs) ! i)) SNAPSHOT_FLAG_CYCLE_END \<noteq> 0 \<longleftrightarrow> Suc i = length (fs @ gs))" if i: "i < length (fs @ gs)" for i
  proof (cases "i < length fs")
    case True
    then have "fg_flags ((fs @ gs) ! i) = fragment_flags (first \<and> i = 0) (Suc i = length fs) (rest = [])"
      using symbol_fragments_nth [OF s True] by (simp add: nth_append)
    moreover have "rest \<noteq> [] \<Longrightarrow> gs \<noteq> []" using r by (auto simp: cycle_of_def)
    ultimately show ?thesis using g0 True by (simp only: fragment_flags_bits) (cases gs; auto)
  next
    case False
    then have j: "i - length fs < length gs" "(fs @ gs) ! i = gs ! (i - length fs)" "i \<noteq> 0"
      using i fs(1) by (cases fs; auto simp: nth_append)+
    have "fg_flags (gs ! j) \<le> u8_max \<and> (and (fg_flags (gs ! j)) SNAPSHOT_FLAG_CYCLE_START \<noteq> 0 \<longleftrightarrow> False \<and> j = 0) \<and>
        (and (fg_flags (gs ! j)) SNAPSHOT_FLAG_CYCLE_END \<noteq> 0 \<longleftrightarrow> Suc j = length gs)" if "j < length gs" for j
      using r that unfolding cycle_of_def by blast
    from this [OF j(1)] show ?thesis unfolding j(2) using False j(3) by auto
  qed
  then show ?thesis using fs o r unfolding cycle_of_def by (auto simp: list_all_iff)
qed

lemma om_invar_tl: "om_invar (e # m) \<Longrightarrow> om_invar m"
  by (cases e) (simp add: om_invar_def)

lemma publish_symbols_ok:
  assumes "72 \<le> length (fp_snapshot_buf fp)" "env_ok fp" "fp_snapshot_seq fp \<le> u64_max" "om_invar bks"
  shows "\<exists>fs fp' cyc'. publish_symbols ls bks first cyc fp = (fp', Ok cyc') \<and> cycle_of bks first fs \<and>
     snapshot_only fp fp' \<and> sc_datagrams cyc' = sc_datagrams cyc + length fs \<and> sc_symbols cyc' = sc_symbols cyc + length bks \<and>
     sc_orders cyc' = sc_orders cyc + sum_list (map (\<lambda>e. length (book_orders (snd e))) bks) \<and>
     sc_sequence cyc' = sc_sequence cyc \<and> sc_last_sequence cyc' = sc_last_sequence cyc \<and>
     fp_sent_a fp' = fp_sent_a fp @ map (fragment_image ls 0) fs \<and> fp_sent_b fp' = fp_sent_b fp @ map (fragment_image ls 1) fs"
  using assms
proof (induction bks arbitrary: fp first cyc)
  case Nil
  then show ?case by (auto simp: cycle_of_def orders_of_def snapshot_only_def)
next
  case (Cons e rest)
  obtain y b where e: "e = (y, b)" by fastforce
  let ?cyc = "cyc\<lparr>sc_symbols := sc_symbols cyc + 1\<rparr>"
  obtain fs fp1 cyc1 where p: "publish_fragments ls y (rest = []) (book_orders b) 0 first ?cyc fp = (fp1, Ok cyc1)"
      "symbol_fragments y first (rest = []) (drop 0 (book_orders b)) fs" "snapshot_only fp fp1" "fp_snapshot_seq fp1 \<le> u64_max"
      "cyc1 = ?cyc\<lparr>sc_datagrams := sc_datagrams ?cyc + length fs, sc_orders := sc_orders ?cyc + length (drop 0 (book_orders b))\<rparr>"
      "fp_sent_a fp1 = fp_sent_a fp @ map (fragment_image ls 0) fs" "fp_sent_b fp1 = fp_sent_b fp @ map (fragment_image ls 1) fs"
    using publish_fragments_ok [OF Cons.prems(1-3), of 0 "book_orders b" ls y "rest = []" first ?cyc] by auto
  have l: "72 \<le> length (fp_snapshot_buf fp1)" "env_ok fp1" using p(3) Cons.prems(1,2) snapshot_only_env [OF p(3)] by (auto simp: snapshot_only_def)
  obtain gs fp2 cyc2 where q: "publish_symbols ls rest False cyc1 fp1 = (fp2, Ok cyc2)" "cycle_of rest False gs" "snapshot_only fp1 fp2"
      "sc_datagrams cyc2 = sc_datagrams cyc1 + length gs" "sc_symbols cyc2 = sc_symbols cyc1 + length rest"
      "sc_orders cyc2 = sc_orders cyc1 + sum_list (map (\<lambda>e. length (book_orders (snd e))) rest)"
      "sc_sequence cyc2 = sc_sequence cyc1" "sc_last_sequence cyc2 = sc_last_sequence cyc1"
      "fp_sent_a fp2 = fp_sent_a fp1 @ map (fragment_image ls 0) gs" "fp_sent_b fp2 = fp_sent_b fp1 @ map (fragment_image ls 1) gs"
    using Cons.IH [OF l p(4) om_invar_tl [OF Cons.prems(4)], of False cyc1] by blast
  have "publish_symbols ls (e # rest) first cyc fp = (fp2, Ok cyc2)" using p(1) q(1) by (simp add: e book_orders_def)
  moreover have "cycle_of (e # rest) first (fs @ gs)" using cycle_of_Cons [OF _ q(2), of y first b fs] p(2) Cons.prems(4) by (simp add: e)
  ultimately show ?case using snapshot_only_trans [OF p(3) q(3)] p(5-7) q(4-10)
    by (intro exI [of _ "fs @ gs"] exI [of _ fp2] exI [of _ cyc2]) (simp add: e)
qed

definition snapshot_part :: "feed_publisher \<Rightarrow> bytes \<times> nat" where
  "snapshot_part fp = (fp_snapshot_buf fp, fp_snapshot_seq fp)"

lemma sbind_keeps:
  assumes "\<And>s. f (fst (m s)) = f s" "\<And>x s. f (fst (k x s)) = f s"
  shows "f (fst (sbind m k s)) = f s"
proof (cases "m s")
  case (Pair s' r)
  then show ?thesis using assms(1) [of s] assms(2) by (cases r) (simp_all add: sbind_def)
qed

lemma flush_stages_keep_snapshot:
  "snapshot_part (fst (write_flush_header t fp)) = snapshot_part fp" "snapshot_part (fst (send_arm_a n da env fp)) = snapshot_part fp"
  "snapshot_part (fst (send_arm_b n db env fp)) = snapshot_part fp" "snapshot_part (fst (self_check n fp)) = snapshot_part fp"
  "snapshot_part (offer_uplink n env fp) = snapshot_part fp" "snapshot_part (count_flush n da db fp) = snapshot_part fp"
  "snapshot_part (note_double_loss da db fp) = snapshot_part fp" "snapshot_part (fst (drop_arms fp)) = snapshot_part fp"
  by (simp_all add: snapshot_part_def write_flush_header_def send_arm_a_def send_arm_b_def self_check_def offer_uplink_def count_flush_def
      note_double_loss_def drop_arms_def split: outcome.splits option.splits prod.splits drop_mode.splits)

lemma flush_keeps_snapshot: "snapshot_part (fst (flush fp)) = snapshot_part fp"
proof -
  let ?env = "fp_env fp (fp_env_used fp)"
  let ?f0 = "fp\<lparr>fp_env_used := fp_env_used fp + 1\<rparr>"
  obtain fp1 da db where d: "drop_arms ?f0 = (fp1, da, db)" by (metis prod_cases3)
  then have p: "snapshot_part fp1 = snapshot_part fp" using flush_stages_keep_snapshot(8) [of ?f0] by (simp add: snapshot_part_def)
  have "snapshot_part (fst (sbind (write_flush_header (env_now_ns ?env)) (\<lambda>_. sbind (send_arm_a (fp_pos fp) da ?env) (\<lambda>_.
      sbind (send_arm_b (fp_pos fp) db ?env) (\<lambda>_. sbind (self_check (fp_pos fp)) (\<lambda>_.
      sbind (supdate (offer_uplink (fp_pos fp) ?env)) (\<lambda>_. supdate (count_flush (fp_pos fp) da db)))))) x)) = snapshot_part x" for x
    by (intro sbind_keeps) (simp_all add: flush_stages_keep_snapshot supdate_def)
  then show ?thesis using d p by (simp add: flush_def Let_def flush_stages_keep_snapshot)
qed

lemma publish_snapshot_ok:
  assumes "feed_inv fp bs pend" "env_ok fp" "applicable fp (batch_events bs @ pend)"
    and "72 \<le> length (fp_snapshot_buf fp)" "fp_snapshot_seq fp \<le> u64_max" "om_invar bks"
  obtains fp1 bs1 fp' cyc fs where "flush fp = (fp1, Ok ())" "feed_inv fp1 bs1 []" "batch_events bs1 = batch_events bs @ pend"
    "publish_snapshot bks fp = (fp', Ok cyc)" "cycle_of bks True fs" "snapshot_only fp1 fp'"
    "cyc = \<lparr>sc_sequence = fp_snapshot_seq fp, sc_last_sequence = length (batch_events bs @ pend), sc_datagrams = length fs,
       sc_orders = sum_list (map (\<lambda>e. length (book_orders (snd e))) bks), sc_symbols = length bks\<rparr>"
    "fp_sent_a fp' = fp_sent_a fp1 @ map (fragment_image (length (batch_events bs @ pend)) 0) fs"
    "fp_sent_b fp' = fp_sent_b fp1 @ map (fragment_image (length (batch_events bs @ pend)) 1) fs"
proof -
  obtain fp1 bs1 where f: "flush fp = (fp1, Ok ())" "feed_inv fp1 bs1 []" "batch_events bs1 = batch_events bs @ pend" "same_setup fp fp1"
    using flush_ok_any [OF assms(1-3)] by metis
  have n: "fp_last_sequence fp1 = length (batch_events bs @ pend)" using f(2,3) by (simp add: fp_last_sequence_def feed_inv_def)
  have k: "fp_snapshot_buf fp1 = fp_snapshot_buf fp" "fp_snapshot_seq fp1 = fp_snapshot_seq fp"
    using flush_keeps_snapshot [of fp] f(1) by (simp_all add: snapshot_part_def)
  have "72 \<le> length (fp_snapshot_buf fp1)" "env_ok fp1" "fp_snapshot_seq fp1 \<le> u64_max" using assms k same_setup_env [OF f(4)] by simp_all
  from publish_symbols_ok [OF this assms(6), of "length (batch_events bs @ pend)" True
      "\<lparr>sc_sequence = fp_snapshot_seq fp, sc_last_sequence = length (batch_events bs @ pend), sc_datagrams = 0, sc_orders = 0, sc_symbols = 0\<rparr>"]
  show thesis using f(1) n k(2) by (elim exE conjE) (rule that [OF f(1-3)]; simp add: publish_snapshot_def sbind_def)
qed

end
