(* ===== verification/SnapshotCycle.thy ===== *)
theory SnapshotCycle
  imports HandlerRecovery SnapshotFeed
begin

text \<open>
  A snapshot cycle from the publisher to a recovering handler: the fragments of one arm, received in order, replace the handler's books by the
  publisher's, and the traffic held in the meantime brings them up to the live stream.
\<close>

section \<open>Reading a fragment\<close>

lemma fragment_read:
  assumes "fragment_fits f" "fg_symbol f \<le> u16_max" "fg_flags f \<le> u8_max" "ls \<le> u64_max" "ch \<le> 1"
    and "list_all (\<lambda>x. snap_order_wf (resting_so x)) (fg_orders f)"
  obtains d where "is_snapshot_datagram (fragment_image ls ch f)" "datagram_items (fragment_image ls ch f) = Ok [Inr (fg_seq f, Snapshot d)]"
    "Snapshot_last_sequence d = Ok ls" "Snapshot_flags d = Ok (fg_flags f)" "fragment_of (fg_symbol f) (map resting_so (fg_orders f)) d"
proof -
  let ?xs = "map resting_so (fg_orders f)" and ?i = "fragment_image ls ch f"
  define d where "d = \<lparr>dec_buf = snapshot_image ls (fg_symbol f) (fg_flags f) ?xs @ [], dec_root_len = 12\<rparr>"
  have b: "fg_seq f \<le> u64_max" "fg_ts f \<le> u64_max" "length ?xs \<le> u16_max" "ch \<le> u8_max" using assms(1,5) by (simp_all add: fragment_fits_def)
  note s = Snapshot_wrap_image [OF assms(4,2,3) b(3), of "[]", folded d_def]
  note h = packet_header_image_fields [OF b(4), of PACKET_FLAG_SNAPSHOT "fg_seq f" "fg_ts f" 1 "snapshot_image ls (fg_symbol f) (fg_flags f) ?xs",
      folded fragment_image_def]
  have fl: "PACKET_FLAG_SNAPSHOT \<le> u8_max" by (simp add: PACKET_FLAG_SNAPSHOT_def)
  have hs: "PacketHeader_wrap ?i = Ok ?i" "PacketHeader_message_count ?i = Ok 1" "PacketHeader_flags ?i = Ok PACKET_FLAG_SNAPSHOT"
      "PacketHeader_first_sequence ?i = Ok (fg_seq f)"
    using h fl b by simp_all
  have dr: "drop 24 ?i = dec_buf d" "24 \<le> length ?i" by (simp_all add: fragment_image_def d_def)
  let ?it = "\<lparr>pi_buf = ?i, pi_pos = 24, pi_sequence = fg_seq f, pi_remaining = 1, pi_failed = False\<rparr>"
  let ?it2 = "\<lparr>pi_buf = ?i, pi_pos = 24 + (24 + 24 * length ?xs), pi_sequence = wrap_add_u64 (fg_seq f) 1, pi_remaining = 0, pi_failed = False\<rparr>"
  have "PacketMessageIter_next ?it = Ok (Some (Inr (fg_seq f, Snapshot d)), ?it2)"
    using s(1,2) dr by (simp add: PacketMessageIter_next_def)
  moreover have "packet_items ?it2 = Ok []" by (subst packet_items.simps) (simp add: PacketMessageIter_next_def)
  ultimately have "packet_items ?it = Ok [Inr (fg_seq f, Snapshot d)]" by (subst packet_items.simps) simp
  then have it: "datagram_items ?i = Ok [Inr (fg_seq f, Snapshot d)]"
    using hs by (simp add: datagram_items_def PacketReader_new_def PacketReader_messages_def)
  have sn: "is_snapshot_datagram ?i" using hs by (simp add: is_snapshot_datagram_def PacketHeader_is_snapshot_def PACKET_FLAG_SNAPSHOT_def)
  have "map view_entry (map entry_image ?xs) = map Ok ?xs" using assms(6) by (simp add: list_all_iff view_entry_image)
  then have "fragment_of (fg_symbol f) ?xs d" using s(4,6) by (auto simp: fragment_of_def)
  then show thesis using that [OF sn it s(3,5)] by simp
qed

section \<open>A cycle at the handler\<close>

lemma spec_wf_prefix: "spec_wf (xs @ ys) \<Longrightarrow> spec_wf xs"
  by (simp add: spec_wf_def)

context unbounded_book_set
begin

lemma fragment_applied:
  assumes cfg: "hc_ops cfg = ops" "hc_new cfg = new"
    and f: "fragment_fits f" "fg_symbol f \<le> u16_max" "fg_flags f \<le> u8_max" "ls < u64_max" "ch \<le> 1"
      "list_all (\<lambda>x. snap_order_wf (resting_so x)) (fg_orders f)"
    and h: "rc_state (hd_rec h) = AwaitingSnapshot g" "g \<le> ls + 1" "books_rel rel (hd_books h) spc"
    and c: "and (fg_flags f) SNAPSHOT_FLAG_CYCLE_START \<noteq> 0 \<longleftrightarrow> first" "first \<or> hd_in_cycle h"
    and wf: "spec_wf ((if first then [] else spc (fg_symbol f)) @ fg_orders f)"
  obtains bks where "books_rel rel bks ((if first then \<lambda>_. [] else spc)(fg_symbol f := (if first then [] else spc (fg_symbol f)) @ fg_orders f))"
    "receive_datagram cfg now arm (fragment_image ls ch f) h =
       (let h1 = h\<lparr>hd_books := bks, hd_in_cycle := True\<rparr> in
        if and (fg_flags f) SNAPSHOT_FLAG_CYCLE_END = 0 then (h1, Ok False)
        else case finish_cycle cfg now ls h1 of (h', r) \<Rightarrow> (h', obind r (\<lambda>_. Ok False)))"
proof -
  let ?y = "fg_symbol f" and ?sp = "if first then \<lambda>_. [] else spc"
  have ls: "ls \<le> u64_max" using f(4) by simp
  obtain d where d: "is_snapshot_datagram (fragment_image ls ch f)" "datagram_items (fragment_image ls ch f) = Ok [Inr (fg_seq f, Snapshot d)]"
    "Snapshot_last_sequence d = Ok ls" "Snapshot_flags d = Ok (fg_flags f)" "fragment_of ?y (map resting_so (fg_orders f)) d"
    by (rule fragment_read [OF f(1-3) ls f(5,6)])
  define h0 where "h0 = (if first then h\<lparr>hd_books := books_clear_all (hc_ops cfg) (hd_books h), hd_in_cycle := True\<rparr> else h)"
  have h0: "books_rel rel (hd_books h0) ?sp" "h0\<lparr>hd_books := b\<rparr> = h\<lparr>hd_books := b, hd_in_cycle := True\<rparr>" for b
    using clear_all_sim [OF h(3)] h(3) c(2) cfg(1) by (auto simp: h0_def)
  have "map so_resting (map resting_so (fg_orders f)) = fg_orders f" by (simp add: comp_def)
  then obtain bks where b: "apply_snapshot_orders ops new (hd_books h0) d = (bks, Ok ())" "books_rel rel bks (?sp(?y := ?sp ?y @ fg_orders f))"
    using apply_fragment_sim [OF h0(1) d(5)] wf by (cases first) auto
  have us: "snapshot_is_usable ls (hd_rec h)" "is_recovering (hd_rec h)" using h(1,2) f(4) by (simp_all add: snapshot_is_usable_def is_recovering_def)
  have fr: "snapshot_fragment cfg now (Snapshot d) ls (fg_flags f) h =
      (if and (fg_flags f) SNAPSHOT_FLAG_CYCLE_END = 0 then (h\<lparr>hd_books := bks, hd_in_cycle := True\<rparr>, Ok True)
       else finish_cycle cfg now ls (h\<lparr>hd_books := bks, hd_in_cycle := True\<rparr>))"
  proof -
    have sw: "h\<lparr>hd_in_cycle := True, hd_books := bks\<rparr> = h\<lparr>hd_books := bks, hd_in_cycle := True\<rparr>"
        "hd_in_cycle h \<Longrightarrow> h\<lparr>hd_books := bks\<rparr> = h\<lparr>hd_books := bks, hd_in_cycle := True\<rparr>" by simp_all
    show ?thesis using us(1) c b(1) cfg h0(2) [of bks] unfolding snapshot_fragment_def Let_def h0_def
      by (cases first) (simp_all add: sw(1) sw(2) [symmetric])
  qed
  have "books_rel rel bks (?sp(?y := (if first then [] else spc ?y) @ fg_orders f))" using b(2) by (cases first) simp_all
  moreover have "receive_datagram cfg now arm (fragment_image ls ch f) h =
       (let h1 = h\<lparr>hd_books := bks, hd_in_cycle := True\<rparr> in
        if and (fg_flags f) SNAPSHOT_FLAG_CYCLE_END = 0 then (h1, Ok False)
        else case finish_cycle cfg now ls h1 of (h', r) \<Rightarrow> (h', obind r (\<lambda>_. Ok False)))"
    using d us(2) fr
    by (auto simp: receive_datagram_def handle_snapshot_def Let_def split: prod.splits outcome.splits bool.splits)
  ultimately show thesis by (rule that)
qed

lemma cycle_run:
  assumes cfg: "hc_ops cfg = ops" "hc_new cfg = new" and b: "ls < u64_max" "ch \<le> 1"
    and fin: "\<And>bks now. books_rel rel bks S \<Longrightarrow> \<exists>h'. finish_cycle cfg now ls (h\<lparr>hd_books := bks, hd_in_cycle := True\<rparr>) = (h', Ok True) \<and> P h'"
    and rec: "rc_state (hd_rec h) = AwaitingSnapshot g" "g \<le> ls + 1"
  shows "fs \<noteq> [] \<Longrightarrow> map (\<lambda>x. snd (snd x)) xs = map (fragment_image ls ch) fs \<Longrightarrow>
     list_all (\<lambda>f. fragment_fits f \<and> fg_symbol f \<le> u16_max \<and> fg_flags f \<le> u8_max \<and> list_all (\<lambda>x. snap_order_wf (resting_so x)) (fg_orders f)) fs \<Longrightarrow>
     \<forall>i<length fs. (and (fg_flags (fs ! i)) SNAPSHOT_FLAG_CYCLE_START \<noteq> 0 \<longleftrightarrow> first \<and> i = 0) \<and>
        (and (fg_flags (fs ! i)) SNAPSHOT_FLAG_CYCLE_END \<noteq> 0 \<longleftrightarrow> Suc i = length fs) \<Longrightarrow>
     first \<or> ic \<Longrightarrow> books_rel rel bk spc \<Longrightarrow>
     (\<And>y. S y = (if first then [] else spc y) @ orders_of y fs) \<Longrightarrow> (\<And>y. spec_wf (S y)) \<Longrightarrow>
     \<exists>h'. receive_datagrams cfg xs (h\<lparr>hd_books := bk, hd_in_cycle := ic\<rparr>) = (h', Ok ()) \<and> P h'"
proof (induction fs arbitrary: xs first ic bk spc)
  case Nil
  then show ?case by simp
next
  case (Cons f fs)
  obtain now arm xs' where x: "xs = (now, arm, fragment_image ls ch f) # xs'" "map (\<lambda>x. snd (snd x)) xs' = map (fragment_image ls ch) fs"
    using Cons.prems(2) by (cases xs) auto
  let ?h = "h\<lparr>hd_books := bk, hd_in_cycle := ic\<rparr>" and ?y = "fg_symbol f"
  let ?s = "\<lambda>y. if first then [] else spc y"
  have f: "fragment_fits f" "?y \<le> u16_max" "fg_flags f \<le> u8_max" "list_all (\<lambda>x. snap_order_wf (resting_so x)) (fg_orders f)"
    using Cons.prems(3) by auto
  have fl: "and (fg_flags f) SNAPSHOT_FLAG_CYCLE_START \<noteq> 0 \<longleftrightarrow> first" "and (fg_flags f) SNAPSHOT_FLAG_CYCLE_END \<noteq> 0 \<longleftrightarrow> fs = []"
    using Cons.prems(4) [rule_format, of 0] by auto
  have o: "orders_of y (f # fs) = (if y = ?y then fg_orders f else []) @ orders_of y fs" for y by (simp add: orders_of_def)
  have wf: "spec_wf (?s ?y @ fg_orders f)"
    using Cons.prems(8) [of ?y] spec_wf_prefix [of "?s ?y @ fg_orders f" "orders_of ?y fs"] unfolding Cons.prems(7) o by simp
  have r: "rc_state (hd_rec ?h) = AwaitingSnapshot g" "books_rel rel (hd_books ?h) spc" "first \<or> hd_in_cycle ?h"
    using rec(1) Cons.prems(5,6) by simp_all
  obtain bks where k: "books_rel rel bks ((if first then \<lambda>_. [] else spc)(?y := ?s ?y @ fg_orders f))"
    "receive_datagram cfg now arm (fragment_image ls ch f) ?h =
       (let h1 = ?h\<lparr>hd_books := bks, hd_in_cycle := True\<rparr> in
        if and (fg_flags f) SNAPSHOT_FLAG_CYCLE_END = 0 then (h1, Ok False)
        else case finish_cycle cfg now ls h1 of (h', r) \<Rightarrow> (h', obind r (\<lambda>_. Ok False)))"
    by (rule fragment_applied [OF cfg f(1-3) b f(4) r(1) rec(2) r(2) fl(1) r(3) wf])
  define sp1 where "sp1 = (if first then \<lambda>_. [] else spc)(?y := ?s ?y @ fg_orders f)"
  have k1: "books_rel rel bks sp1" using k(1) by (simp only: sp1_def)
  have S: "S y = sp1 y @ orders_of y fs" for y unfolding Cons.prems(7) o sp1_def by simp
  have hh: "?h\<lparr>hd_books := bks, hd_in_cycle := True\<rparr> = h\<lparr>hd_books := bks, hd_in_cycle := True\<rparr>" by simp
  show ?case
  proof (cases "fs = []")
    case True
    then have "S = sp1" using S by (auto simp: orders_of_def)
    then obtain h' where "finish_cycle cfg now ls (h\<lparr>hd_books := bks, hd_in_cycle := True\<rparr>) = (h', Ok True)" "P h'" using fin [of bks now] k1 by auto
    moreover have "xs' = []" using x(2) True by simp
    moreover have "and (fg_flags f) SNAPSHOT_FLAG_CYCLE_END \<noteq> 0" using fl(2) True by simp
    ultimately show ?thesis using k(2) by (simp add: x(1) hh)
  next
    case False
    have "and (fg_flags f) SNAPSHOT_FLAG_CYCLE_END = 0" using fl(2) False by simp
    then have st: "receive_datagrams cfg xs ?h = receive_datagrams cfg xs' (h\<lparr>hd_books := bks, hd_in_cycle := True\<rparr>)" using k(2) by (simp add: x(1) hh)
    have "(and (fg_flags (fs ! i)) SNAPSHOT_FLAG_CYCLE_START \<noteq> 0 \<longleftrightarrow> False \<and> i = 0) \<and>
        (and (fg_flags (fs ! i)) SNAPSHOT_FLAG_CYCLE_END \<noteq> 0 \<longleftrightarrow> Suc i = length fs)" if "i < length fs" for i
      using Cons.prems(4) [rule_format, of "Suc i"] that by simp
    then show ?thesis unfolding st using Cons.IH [OF False x(2), of False True bks sp1] Cons.prems(3,8) k1 S by simp
  qed
qed

end

text \<open>The reference book only depends on the two queues, so a book rebuilt in queue order is the original.\<close>

lemma refbook_rel_queues:
  assumes "refbook_rel b (spec_queue Bid bs @ spec_queue Ask bs)" "spec_wf bs"
  shows "refbook_rel b bs"
proof -
  let ?q = "spec_queue Bid bs @ spec_queue Ask bs"
  have ms: "set ?q = set bs" using mset_spec_queues [of bs] mset_eq_setD by blast
  have "spec_get i ?q = spec_get i bs" for i
  proof -
    have "distinct (map ro_order_id bs)" "distinct (map ro_order_id ?q)" using assms(2) spec_wf_queues [OF assms(2)] by (simp_all add: spec_wf_def)
    then show ?thesis using ms by (metis spec_get_Some_iff not_None_eq)
  qed
  moreover have "level_group s p ?q = level_group s p bs" for s p
  proof -
    have f: "filter (\<lambda>x. ro_side x = s \<and> ro_price x = p) (spec_queue t bs) =
        (if t = s then filter (\<lambda>x. ro_side x = s \<and> ro_price x = p) bs else [])" for t
    proof (cases "t = s")
      case True
      have r: "price_rank s x = price_rank s p \<longleftrightarrow> x = p" for x by (cases s) auto
      have "filter (\<lambda>x. ro_side x = s \<and> ro_price x = p) (spec_queue s bs) = filter (\<lambda>x. price_rank s (ro_price x) = price_rank s p) (spec_queue s bs)"
        using set_spec_queue [of s bs] by (intro filter_cong) (auto simp: r)
      also have "\<dots> = filter (\<lambda>x. price_rank s (ro_price x) = price_rank s p) (spec_side s bs)"
        unfolding spec_queue_def by (rule sort_key_stable)
      also have "\<dots> = filter (\<lambda>x. ro_side x = s \<and> ro_price x = p) bs" by (simp add: spec_side_def r conj_commute)
      finally show ?thesis using True by simp
    next
      case False
      then show ?thesis using set_spec_queue [of t bs] by (auto simp: filter_empty_conv)
    qed
    show ?thesis using f [of Bid] f [of Ask] by (cases s) (simp_all add: level_group_def)
  qed
  ultimately show ?thesis using assms by (simp add: refbook_rel_def levels_rel_def)
qed

lemma books_rel_queues:
  assumes "books_rel refbook_rel b (\<lambda>y. spec_queue Bid (sp y) @ spec_queue Ask (sp y))" "\<And>y. spec_wf (sp y)"
  shows "books_rel refbook_rel b sp"
proof -
  have "sp y = []" if "spec_queue Bid (sp y) @ spec_queue Ask (sp y) = []" for y
    using mset_spec_queues [of "sp y"] that by simp
  then show ?thesis using assms refbook_rel_queues unfolding books_rel_def by blast
qed

section \<open>Sample states\<close>

definition one_ask :: "refbook books" where
  "one_ask = [(7, fst (rb_add refbook_new 5 Ask 250 10))]"

definition calm_env :: "nat \<Rightarrow> send_env" where
  "calm_env k = \<lparr>env_now_ns = 3, env_send_a = True, env_send_b = True, env_uplink_takes = True\<rparr>"

definition joining_handler :: "refbook handler" where
  "joining_handler = (handler_new sample_cfg open_log [])\<lparr>hd_rec := rc_begin 1 5 (RecoveryBuffer_new 4 96 1000), hd_started := True\<rparr>"

lemma one_ask_rel: "books_rel refbook_rel one_ask ((\<lambda>_. [])(7 := [\<lparr>ro_order_id = 5, ro_price = 250, ro_quantity = 10, ro_side = Ask\<rparr>]))"
proof -
  let ?x = "\<lparr>ro_order_id = 5, ro_price = 250, ro_quantity = 10, ro_side = Ask\<rparr>"
  have "rb_add refbook_new 5 Ask 250 10 = (fst (rb_add refbook_new 5 Ask 250 10), Ok ())"
    by (simp add: rb_add_def refbook_new_def)
  from ref.add_sim [OF rel_new TrueI] this have "refbook_rel (fst (rb_add refbook_new 5 Ask 250 10)) [?x]"
    by (fastforce simp: refbook_ops_def spec_add_def spec_get_def)
  from books_rel_insert [where y = 7 and sp = "\<lambda>_. []" and bks = "[]" and rel = refbook_rel, OF books_rel_empty this] show ?thesis by (simp add: one_ask_def)
qed

section \<open>Properties\<close>

text \<open>C17: a snapshot cycle rebuilds the publisher's books at a recovering handler. Publishing a snapshot of any books succeeds on a working publisher whose
  datagrams have room for one order: it flushes, and puts the same fragments on both arms, in numbers the returned cycle reports, stating the
  last sequence \<open>l\<close> published. A handler in recovery from a gap not after \<open>l + 1\<close>, whatever its books hold, that receives one arm's fragments in order and whose held
  traffic continues after \<open>l\<close> without a hole, never fails: it discards its books, takes over the publisher's with their price-time priority, applies
  the held messages after \<open>l\<close> once each, and closes the recovery.\<close>

theorem snapshot_cycle_recovers:
  assumes pub: "feed_inv fp bs pend" "env_ok fp" "applicable fp (batch_events bs @ pend)" "72 \<le> length (fp_snapshot_buf fp)" "fp_snapshot_seq fp \<le> u64_max"
    and books: "books_rel refbook_rel bks sp" "bks \<noteq> []" "\<forall>y. \<forall>x\<in>set (sp y). order_wf x" "\<forall>y\<in>set (map fst bks). y \<le> u16_max"
    and cfg: "hc_ops cfg = refbook_ops" "hc_new cfg = refbook_new" and ch: "ch \<le> 1"
    and l: "l = length (batch_events bs @ pend)" "m = held_reach (l + 1) (held_slots (hd_rec h))"
    and hnd: "rc_state (hd_rec h) = AwaitingSnapshot g" "g \<le> l + 1" "books_rel refbook_rel (hd_books h) old" "quiet_stats (hd_stats h)" "log_ok (hd_log h)"
      "hs_applied_high (hd_stats h) \<le> l" "held_ok ev (hd_rec h)" "held_discontinuity (l + 1) (hd_rec h) = None"
    and run: "spec_run ev [l + 1..<m] sp = Ok sp'"
  shows "\<exists>fp1 fp' cyc fs. flush fp = (fp1, Ok ()) \<and> publish_snapshot bks fp = (fp', Ok cyc) \<and> sc_last_sequence cyc = l \<and>
     sc_datagrams cyc = length fs \<and> sc_symbols cyc = length bks \<and>
     fp_sent_a fp' = fp_sent_a fp1 @ map (fragment_image l 0) fs \<and> fp_sent_b fp' = fp_sent_b fp1 @ map (fragment_image l 1) fs \<and>
     (\<forall>xs. map (\<lambda>x. snd (snd x)) xs = map (fragment_image l ch) fs \<longrightarrow>
        (\<exists>h'. receive_datagrams cfg xs h = (h', Ok ()) \<and> in_step refbook_rel h' sp' (m - 1) \<and> \<not> is_recovering (hd_rec h')))"
proof -
  obtain fp1 bs1 fp' cyc fs where p: "flush fp = (fp1, Ok ())" "feed_inv fp1 bs1 []" "batch_events bs1 = batch_events bs @ pend"
    "publish_snapshot bks fp = (fp', Ok cyc)" "cycle_of bks True fs" "snapshot_only fp1 fp'"
    "cyc = \<lparr>sc_sequence = fp_snapshot_seq fp, sc_last_sequence = length (batch_events bs @ pend), sc_datagrams = length fs,
       sc_orders = sum_list (map (\<lambda>e. length (book_orders (snd e))) bks), sc_symbols = length bks\<rparr>"
    "fp_sent_a fp' = fp_sent_a fp1 @ map (fragment_image (length (batch_events bs @ pend)) 0) fs"
    "fp_sent_b fp' = fp_sent_b fp1 @ map (fragment_image (length (batch_events bs @ pend)) 1) fs"
    by (rule publish_snapshot_ok [OF pub books_rel_invar [OF books(1)]])
  have lb: "l < u64_max" using pub(1) l(1) by (auto simp: feed_inv_def)
  have wf: "spec_wf (sp y)" for y by (rule books_rel_wf [OF books(1)])
  let ?S = "\<lambda>y. spec_queue Bid (sp y) @ spec_queue Ask (sp y)"
  have q: "orders_of y fs = ?S y" for y
  proof (cases "om_get y bks")
    case None
    then have "sp y = []" using books(1) by (simp add: books_rel_def)
    then show ?thesis using p(5) None by (simp add: cycle_of_def spec_queue_def spec_side_def)
  next
    case (Some b)
    then have "refbook_rel b (sp y)" using books(1) by (simp add: books_rel_def)
    then show ?thesis using p(5) Some by (simp add: cycle_of_def book_orders_def rb_queue_rel)
  qed
  have ok: "list_all (\<lambda>f. fragment_fits f \<and> fg_symbol f \<le> u16_max \<and> fg_flags f \<le> u8_max \<and> list_all (\<lambda>x. snap_order_wf (resting_so x)) (fg_orders f)) fs"
  proof -
    have "snap_order_wf (resting_so x)" if "f \<in> set fs" "x \<in> set (fg_orders f)" for f x
    proof -
      have "x \<in> set (orders_of (fg_symbol f) fs)" using that by (auto simp: orders_of_def)
      then have "x \<in> set (sp (fg_symbol f))" unfolding q by (auto simp: set_spec_queue)
      then show ?thesis using books(3) by (auto simp: order_wf_def snap_order_wf_def resting_so_def)
    qed
    moreover have "fg_flags f \<le> u8_max" if "f \<in> set fs" for f using p(5) that by (auto simp: cycle_of_def in_set_conv_nth)
    moreover have "fragment_fits f \<and> fg_symbol f \<le> u16_max" if "f \<in> set fs" for f using p(5) books(4) that unfolding cycle_of_def list_all_iff by blast
    ultimately show ?thesis by (auto simp: list_all_iff)
  qed
  have "\<exists>h'. receive_datagrams cfg xs h = (h', Ok ()) \<and> in_step refbook_rel h' sp' (m - 1) \<and> \<not> is_recovering (hd_rec h')"
    if xs: "map (\<lambda>x. snd (snd x)) xs = map (fragment_image l ch) fs" for xs
  proof -
    have fin: "\<exists>h'. finish_cycle cfg now l (h\<lparr>hd_books := bk, hd_in_cycle := True\<rparr>) = (h', Ok True) \<and>
        (in_step refbook_rel h' sp' (m - 1) \<and> \<not> is_recovering (hd_rec h'))" if "books_rel refbook_rel bk ?S" for bk now
    proof -
      have br: "books_rel refbook_rel (hd_books (h\<lparr>hd_books := bk, hd_in_cycle := True\<rparr>)) sp" using books_rel_queues [OF that wf] by simp
      show ?thesis
        by (rule refset.finish_cycle_run [OF cfg br _ _ _ _ lb, of ev sp' now]) (use hnd l(2) run in auto)
    qed
    have h: "h\<lparr>hd_books := hd_books h, hd_in_cycle := hd_in_cycle h\<rparr> = h" by simp
    have fl: "\<forall>i<length fs. (and (fg_flags (fs ! i)) SNAPSHOT_FLAG_CYCLE_START \<noteq> 0 \<longleftrightarrow> True \<and> i = 0) \<and>
        (and (fg_flags (fs ! i)) SNAPSHOT_FLAG_CYCLE_END \<noteq> 0 \<longleftrightarrow> Suc i = length fs)" using p(5) unfolding cycle_of_def by blast
    have ne: "fs \<noteq> []" using p(5) books(2) by (simp add: cycle_of_def)
    have "\<exists>h'. receive_datagrams cfg xs (h\<lparr>hd_books := hd_books h, hd_in_cycle := hd_in_cycle h\<rparr>) = (h', Ok ()) \<and>
        (in_step refbook_rel h' sp' (m - 1) \<and> \<not> is_recovering (hd_rec h'))"
      by (rule refset.cycle_run [OF cfg lb ch fin hnd(1,2) ne xs ok fl _ hnd(3)]) (use q spec_wf_queues [OF wf] in auto)
    then show ?thesis unfolding h .
  qed
  then show ?thesis using p(1,4,7-9) l(1) by (intro exI [of _ fp1] exI [of _ fp'] exI [of _ cyc] exI [of _ fs]) simp
qed

theorem snapshot_cycle_recovers_witness:
  "\<exists>fp1 fp' cyc fs. flush (FeedPublisher_new calm_env 4 128) = (fp1, Ok ()) \<and> publish_snapshot one_ask (FeedPublisher_new calm_env 4 128) = (fp', Ok cyc) \<and> sc_last_sequence cyc = 0 \<and>
     fp_sent_a fp' = fp_sent_a fp1 @ map (fragment_image 0 0) fs \<and>
     (\<exists>h'. receive_datagrams sample_cfg (map (\<lambda>f. (9, 0, fragment_image 0 0 f)) fs) joining_handler = (h', Ok ()) \<and>
        rb_orders_in_queue_order (fst (get_or_create refbook_new 7 (hd_books h'))) Ask = [\<lparr>ro_order_id = 5, ro_price = 250, ro_quantity = 10, ro_side = Ask\<rparr>] \<and>
        \<not> is_recovering (hd_rec h'))"
proof -
  let ?fp = "FeedPublisher_new calm_env 4 128" and ?h = joining_handler
  let ?sp = "((\<lambda>_. [])(7 := [\<lparr>ro_order_id = 5, ro_price = 250, ro_quantity = 10, ro_side = Ask\<rparr>])) :: spec_books"
  have fi: "feed_inv ?fp [] []" by (rule feed_inv_new) simp_all
  have e: "env_ok ?fp" "applicable ?fp (batch_events [] @ [])" "72 \<le> length (fp_snapshot_buf ?fp)" "fp_snapshot_seq ?fp \<le> u64_max"
    by (simp_all add: env_ok_def calm_env_def FeedPublisher_new_def applicable_def)
  have b: "one_ask \<noteq> []" "\<forall>y. \<forall>x\<in>set (?sp y). order_wf x" "\<forall>y\<in>set (map fst one_ask). y \<le> u16_max"
    by (simp_all add: one_ask_def order_wf_def in_i64_def)
  have c: "hc_ops sample_cfg = refbook_ops" "hc_new sample_cfg = refbook_new" "(0::nat) \<le> 1" "0 = length (batch_events [] @ [])"
    by (simp_all add: sample_cfg_def)
  have s: "held_slots (hd_rec ?h) = []" "rc_state (hd_rec ?h) = AwaitingSnapshot 1"
    by (simp_all add: joining_handler_def rc_begin_def is_recovering_def RecoveryBuffer_new_def Let_def held_slots_def)
  have st: "rc_stats (hd_rec ?h) = recovery_stats_zero\<lparr>rs_attempts := 1\<rparr>"
    by (simp add: joining_handler_def rc_begin_def is_recovering_def RecoveryBuffer_new_def Let_def recovery_stats_zero_def)
  have m: "1 = held_reach (0 + 1) (held_slots (hd_rec ?h))" "held_discontinuity (0 + 1) (hd_rec ?h) = None" "held_ok beats (hd_rec ?h)"
    using s st by (simp_all add: held_discontinuity_def held_ok_def in_order_def held_messages_def recovery_stats_zero_def)
  have h: "books_rel refbook_rel (hd_books ?h) (\<lambda>_. [])" "quiet_stats (hd_stats ?h)" "log_ok (hd_log ?h)" "hs_applied_high (hd_stats ?h) \<le> 0"
    using books_rel_empty by (simp_all add: joining_handler_def handler_new_def handler_stats_zero_def quiet_stats_def open_log_def log_ok_def)
  have r: "spec_run beats [0 + 1..<1] ?sp = Ok ?sp" "(1::nat) \<le> 0 + 1" by simp_all
  have "\<exists>fp1 fp' cyc fs. flush ?fp = (fp1, Ok ()) \<and> publish_snapshot one_ask ?fp = (fp', Ok cyc) \<and> sc_last_sequence cyc = 0 \<and>
     fp_sent_a fp' = fp_sent_a fp1 @ map (fragment_image 0 0) fs \<and> (\<forall>xs. map (\<lambda>x. snd (snd x)) xs = map (fragment_image 0 0) fs \<longrightarrow>
        (\<exists>h'. receive_datagrams sample_cfg xs ?h = (h', Ok ()) \<and> in_step refbook_rel h' ?sp (1 - 1) \<and> \<not> is_recovering (hd_rec h')))"
    using snapshot_cycle_recovers [OF fi e one_ask_rel b c m(1) s(2) r(2) h m(3,2) r(1)] by (elim exE conjE) (intro exI conjI; assumption)
  then
  obtain fp1 fp' cyc fs where p: "flush ?fp = (fp1, Ok ())" "publish_snapshot one_ask ?fp = (fp', Ok cyc)" "sc_last_sequence cyc = 0" "fp_sent_a fp' = fp_sent_a fp1 @ map (fragment_image 0 0) fs" and
    all: "\<And>xs. map (\<lambda>x. snd (snd x)) xs = map (fragment_image 0 0) fs \<Longrightarrow>
        \<exists>h'. receive_datagrams sample_cfg xs ?h = (h', Ok ()) \<and> in_step refbook_rel h' ?sp (1 - 1) \<and> \<not> is_recovering (hd_rec h')" by blast
  obtain h' where h': "receive_datagrams sample_cfg (map (\<lambda>f. (9, 0, fragment_image 0 0 f)) fs) ?h = (h', Ok ())" "in_step refbook_rel h' ?sp (1 - 1)"
      "\<not> is_recovering (hd_rec h')"
    using all [of "map (\<lambda>f. (9, 0, fragment_image 0 0 f)) fs"] by (auto simp: comp_def)
  have "books_rel refbook_rel (hd_books h') ?sp" using h'(2) by (simp add: in_step_def)
  from refset.get_or_create_sim(1) [OF this surjective_pairing, of 7]
  have "rb_orders_in_queue_order (fst (get_or_create refbook_new 7 (hd_books h'))) Ask = spec_queue Ask (?sp 7)" by (rule rb_queue_rel)
  then show ?thesis using p h' by (auto simp: spec_queue_def spec_side_def)
qed

end
