(* ===== verification/Tick.thy ===== *)
theory Tick
  imports Prelude "HOL-Library.Signed_Division"
begin

text \<open>
  The price window of \<open>crates/book/src/tick.rs\<close>: \<open>capacity\<close> slots of \<open>tick\<close> size above an
  anchor. The arithmetic is that of \<open>i64\<close>, wrapping where the source does (\<open>wrap_i64\<close>), with the
  truncated division and remainder of Rust (\<open>sdiv\<close>, \<open>smod\<close>). The lemmas are stated for the window
  and price ranges \<open>ti_ok\<close> and \<open>price_ok\<close>, inside which no wrap-around occurs.
\<close>

section \<open>The window\<close>

record tick_index =
  ti_anchor :: int
  ti_tick :: int
  ti_capacity :: nat

datatype tick_slot = At nat | Outside | OffGrid

definition centred_on :: "int \<Rightarrow> int \<Rightarrow> nat \<Rightarrow> tick_index" where
  "centred_on price tick0 capacity0 =
     (let tick = max tick0 1; capacity = max capacity0 2; half = wrap_i64 (int (capacity div 2))
      in \<lparr>ti_anchor = wrap_i64 (price - wrap_i64 (half * tick)), ti_tick = tick, ti_capacity = capacity\<rparr>)"

definition price_at :: "tick_index \<Rightarrow> nat \<Rightarrow> int" where
  "price_at ti index = wrap_i64 (ti_anchor ti + wrap_i64 (wrap_i64 (int index) * ti_tick ti))"

definition ti_slot :: "tick_index \<Rightarrow> int \<Rightarrow> tick_slot" where
  "ti_slot ti price =
     (let offset = wrap_i64 (price - ti_anchor ti) in
      if offset smod ti_tick ti \<noteq> 0 then OffGrid
      else let index = offset sdiv ti_tick ti in
           if index < 0 \<or> nat index \<ge> ti_capacity ti then Outside else At (nat index))"

definition ti_contains :: "tick_index \<Rightarrow> int \<Rightarrow> bool" where
  "ti_contains ti price = (case ti_slot ti price of At _ \<Rightarrow> True | _ \<Rightarrow> False)"

definition rebase_for :: "tick_index \<Rightarrow> int \<Rightarrow> (int \<times> int) option \<Rightarrow> (tick_index \<times> int) option" where
  "rebase_for ti price keep =
     (if wrap_i64 (price - ti_anchor ti) smod ti_tick ti \<noteq> 0 then None
      else let (low, high) = (case keep of Some (lo, hi) \<Rightarrow> (min lo price, max hi price) | None \<Rightarrow> (price, price));
               span = wrap_i64 (wrap_i64 (high - low) sdiv ti_tick ti + 1)
           in if span > wrap_i64 (int (ti_capacity ti)) then None
              else let slack = wrap_i64 (wrap_i64 (int (ti_capacity ti)) - span);
                       anchor = wrap_i64 (low - wrap_i64 ((wrap_i64 (slack + 1) sdiv 2) * ti_tick ti))
                   in Some (ti\<lparr>ti_anchor := anchor\<rparr>, wrap_i64 (anchor - ti_anchor ti) sdiv ti_tick ti))"

text \<open>\<open>new_hi as usize\<close> reads a negative \<open>i64\<close> modulo \<open>2 ^ 64\<close>.\<close>

definition shift_preserves :: "tick_index \<Rightarrow> int \<Rightarrow> nat option \<Rightarrow> nat option \<Rightarrow> bool" where
  "shift_preserves ti shift lowest highest =
     (case (lowest, highest) of
        (Some lo, Some hi) \<Rightarrow>
          let new_lo = wrap_i64 (wrap_i64 (int lo) - shift); new_hi = wrap_i64 (wrap_i64 (int hi) - shift)
          in new_lo \<ge> 0 \<and> nat (new_hi mod 2 ^ 64) < ti_capacity ti
      | _ \<Rightarrow> True)"

section \<open>Ranges without wrap-around\<close>

definition price_ok :: "int \<Rightarrow> bool" where
  "price_ok p \<longleftrightarrow> \<bar>p\<bar> \<le> 2 ^ 61"

definition ti_ok :: "tick_index \<Rightarrow> bool" where
  "ti_ok ti \<longleftrightarrow> 1 \<le> ti_tick ti \<and> 2 \<le> ti_capacity ti \<and> int (ti_capacity ti) * ti_tick ti \<le> 2 ^ 61 \<and>
     \<bar>ti_anchor ti\<bar> \<le> 2 ^ 62"

lemma pow2_eval [width_simps]:
  "(2 :: int) ^ 61 = 2305843009213693952" "(2 :: int) ^ 62 = 4611686018427387904"
  "(2 :: int) ^ 63 = 9223372036854775808"
  by simp_all

lemma smod_zero_iff: "0 < t \<Longrightarrow> (x :: int) smod t = 0 \<longleftrightarrow> t dvd x"
  by (auto simp: signed_modulo_int_def sgn_if dvd_eq_mod_eq_0 [symmetric])

lemma sdiv_exact: "0 < t \<Longrightarrow> (k * t :: int) sdiv t = k"
  by (simp add: signed_divide_int_eq_divide_int)

lemma sdiv_nonneg: "0 \<le> k \<Longrightarrow> 0 < t \<Longrightarrow> (k :: int) sdiv t = k div t"
  by (auto simp: signed_divide_int_eq_divide_int sgn_if)

lemma cell_product_bounds:
  assumes "ti_ok ti" "0 \<le> k" "k \<le> int (ti_capacity ti)"
  shows "0 \<le> k * ti_tick ti" "k * ti_tick ti \<le> 2 ^ 61" "k \<le> 2 ^ 61"
proof -
  have t: "1 \<le> ti_tick ti" and c: "int (ti_capacity ti) * ti_tick ti \<le> 2 ^ 61" using assms(1) by (auto simp: ti_ok_def)
  show "0 \<le> k * ti_tick ti" using assms t by simp
  have "k * ti_tick ti \<le> int (ti_capacity ti) * ti_tick ti" using assms t by (intro mult_right_mono) auto
  with c show *: "k * ti_tick ti \<le> 2 ^ 61" by linarith
  have "k * 1 \<le> k * ti_tick ti" using assms t by (intro mult_left_mono) auto
  with * show "k \<le> 2 ^ 61" by linarith
qed

lemma ti_ok_capacity: "ti_ok ti \<Longrightarrow> int (ti_capacity ti) \<le> 2 ^ 61"
  using cell_product_bounds(3) [of ti "int (ti_capacity ti)"] by simp

lemma price_at_exact:
  assumes "ti_ok ti" "i < ti_capacity ti"
  shows "price_at ti i = ti_anchor ti + int i * ti_tick ti"
proof -
  have b: "0 \<le> int i * ti_tick ti" "int i * ti_tick ti \<le> 2 ^ 61" "int i \<le> 2 ^ 61"
    using cell_product_bounds [of ti "int i"] assms by simp_all
  moreover have "\<bar>ti_anchor ti\<bar> \<le> 2 ^ 62" using assms by (simp add: ti_ok_def)
  ultimately have "in_i64 (int i)" "in_i64 (int i * ti_tick ti)" "in_i64 (ti_anchor ti + int i * ti_tick ti)"
    by (auto simp: in_i64_def abs_le_iff)
  then show ?thesis by (simp add: price_at_def)
qed

lemma offset_exact: "ti_ok ti \<Longrightarrow> price_ok p \<Longrightarrow> wrap_i64 (p - ti_anchor ti) = p - ti_anchor ti"
  by (rule wrap_i64_exact) (auto simp: ti_ok_def price_ok_def in_i64_def abs_le_iff)

lemma ti_slot_iff:
  assumes "ti_ok ti" "price_ok p"
  shows "ti_slot ti p = At i \<longleftrightarrow> i < ti_capacity ti \<and> p = ti_anchor ti + int i * ti_tick ti"
    and "ti_slot ti p = OffGrid \<longleftrightarrow> \<not> ti_tick ti dvd p - ti_anchor ti"
proof -
  have t: "0 < ti_tick ti" using assms by (simp add: ti_ok_def)
  have slot: "ti_slot ti p = (if \<not> ti_tick ti dvd p - ti_anchor ti then OffGrid
      else let index = (p - ti_anchor ti) sdiv ti_tick ti in
           if index < 0 \<or> nat index \<ge> ti_capacity ti then Outside else At (nat index))"
    by (simp add: ti_slot_def offset_exact [OF assms] smod_zero_iff [OF t])
  show off: "ti_slot ti p = OffGrid \<longleftrightarrow> \<not> ti_tick ti dvd p - ti_anchor ti" by (simp add: slot Let_def)
  show "ti_slot ti p = At i \<longleftrightarrow> i < ti_capacity ti \<and> p = ti_anchor ti + int i * ti_tick ti"
  proof (cases "ti_tick ti dvd p - ti_anchor ti")
    case True
    then obtain k where k: "p - ti_anchor ti = k * ti_tick ti" by (metis dvdE mult.commute)
    then have "ti_slot ti p = (if k < 0 \<or> nat k \<ge> ti_capacity ti then Outside else At (nat k))"
      using t by (simp add: slot Let_def sdiv_exact)
    moreover have "p = ti_anchor ti + int i * ti_tick ti \<longleftrightarrow> k = int i" using k t by auto
    ultimately show ?thesis by auto
  next
    case False
    moreover have "p \<noteq> ti_anchor ti + int i * ti_tick ti" using False by auto
    ultimately show ?thesis using off by auto
  qed
qed

lemma ti_slot_At_price: "ti_ok ti \<Longrightarrow> price_ok p \<Longrightarrow> ti_slot ti p = At i \<longleftrightarrow> i < ti_capacity ti \<and> price_at ti i = p"
  by (auto simp: ti_slot_iff price_at_exact)

lemma price_at_mono:
  "ti_ok ti \<Longrightarrow> i < ti_capacity ti \<Longrightarrow> j < ti_capacity ti \<Longrightarrow> price_at ti i < price_at ti j \<longleftrightarrow> i < j"
  by (auto simp: price_at_exact ti_ok_def)

lemma price_at_inj:
  "ti_ok ti \<Longrightarrow> i < ti_capacity ti \<Longrightarrow> j < ti_capacity ti \<Longrightarrow> price_at ti i = price_at ti j \<longleftrightarrow> i = j"
  by (auto simp: price_at_exact ti_ok_def)

lemma centred_on_ok:
  assumes "price_ok p" "int (max capacity 2) * max tick 1 \<le> 2 ^ 61"
  shows "ti_ok (centred_on p tick capacity)"
proof -
  let ?t = "max tick 1" and ?c = "max capacity 2"
  let ?ti = "\<lparr>ti_anchor = 0, ti_tick = ?t, ti_capacity = ?c\<rparr>"
  have ok: "ti_ok ?ti" using assms by (simp add: ti_ok_def)
  have h: "0 \<le> int (?c div 2) * ?t" "int (?c div 2) * ?t \<le> 2 ^ 61" "int (?c div 2) \<le> 2 ^ 61"
    using cell_product_bounds [OF ok, of "int (?c div 2)"] by (auto simp: zdiv_int)
  from this(3) have "in_i64 (int (?c div 2))" by (simp add: in_i64_def)
  moreover have "in_i64 (int (?c div 2) * ?t)" using h(1,2) unfolding in_i64_def width_simps by linarith
  moreover have "in_i64 (p - int (?c div 2) * ?t)"
    using h(1,2) assms(1) unfolding in_i64_def price_ok_def abs_le_iff width_simps by linarith
  ultimately have "ti_anchor (centred_on p tick capacity) = p - int (?c div 2) * ?t"
    by (simp add: centred_on_def Let_def)
  moreover have "\<bar>p - int (?c div 2) * ?t\<bar> \<le> 2 ^ 62" using h(1,2) assms(1) unfolding price_ok_def abs_le_iff width_simps by linarith
  ultimately show ?thesis using assms(2) by (simp add: ti_ok_def centred_on_def Let_def)
qed

section \<open>Sliding the window\<close>

text \<open>The prices a rebase has to cover: the occupied extent and the new price.\<close>

definition cover_low :: "int \<Rightarrow> (int \<times> int) option \<Rightarrow> int" where
  "cover_low p keep = (case keep of Some (lo, hi) \<Rightarrow> min lo p | None \<Rightarrow> p)"

definition cover_high :: "int \<Rightarrow> (int \<times> int) option \<Rightarrow> int" where
  "cover_high p keep = (case keep of Some (lo, hi) \<Rightarrow> max hi p | None \<Rightarrow> p)"

definition keep_ok :: "(int \<times> int) option \<Rightarrow> bool" where
  "keep_ok keep = (case keep of Some (lo, hi) \<Rightarrow> price_ok lo \<and> price_ok hi \<and> lo \<le> hi | None \<Rightarrow> True)"

definition slack_anchor :: "tick_index \<Rightarrow> int \<Rightarrow> int \<Rightarrow> int" where
  "slack_anchor ti low high =
     low - ((int (ti_capacity ti) - ((high - low) div ti_tick ti + 1) + 1) div 2) * ti_tick ti"

lemma cover_ok:
  assumes "keep_ok keep" "price_ok p"
  shows "price_ok (cover_low p keep)" "price_ok (cover_high p keep)" "cover_low p keep \<le> p" "p \<le> cover_high p keep"
  using assms by (auto simp: keep_ok_def cover_low_def cover_high_def price_ok_def split: option.splits)

lemma rebase_for_eq:
  assumes ok: "ti_ok ti" "price_ok p" "keep_ok keep"
  shows "rebase_for ti p keep =
     (let low = cover_low p keep; high = cover_high p keep; anchor = slack_anchor ti low high in
      if \<not> ti_tick ti dvd p - ti_anchor ti \<or> (high - low) div ti_tick ti + 1 > int (ti_capacity ti) then None
      else Some (ti\<lparr>ti_anchor := anchor\<rparr>, (anchor - ti_anchor ti) sdiv ti_tick ti)) \<and>
     (let low = cover_low p keep; high = cover_high p keep; anchor = slack_anchor ti low high in
      (high - low) div ti_tick ti + 1 \<le> int (ti_capacity ti) \<longrightarrow>
        anchor \<le> low \<and> - (2 ^ 62) \<le> anchor)"
proof -
  let ?l = "cover_low p keep" and ?h = "cover_high p keep" and ?t = "ti_tick ti" and ?c = "int (ti_capacity ti)"
  have t: "1 \<le> ?t" and an: "\<bar>ti_anchor ti\<bar> \<le> 2 ^ 62" using ok(1) by (auto simp: ti_ok_def)
  have lh: "- (2 ^ 61) \<le> ?l" "?l \<le> 2 ^ 61" "- (2 ^ 61) \<le> ?h" "?h \<le> 2 ^ 61" "?l \<le> ?h"
    using cover_ok [OF ok(3,2)] by (auto simp: price_ok_def abs_le_iff)
  let ?d = "(?h - ?l) div ?t"
  have d0: "0 \<le> ?d" using lh t by (simp add: pos_imp_zdiv_nonneg_iff)
  have "?d \<le> ?h - ?l" using lh t by (intro order_trans [OF zdiv_mono2 [of "?h - ?l" 1 ?t]]) auto
  with lh have d1: "?d \<le> 2 ^ 62" unfolding width_simps by linarith
  have c: "2 \<le> ?c" "?c \<le> 2 ^ 61" using ti_ok_capacity [OF ok(1)] ok(1) by (auto simp: ti_ok_def)
  let ?m = "(?c - (?d + 1) + 1) div 2"
  have pair: "(case keep of Some (lo, hi) \<Rightarrow> (min lo p, max hi p) | None \<Rightarrow> (p, p)) = (?l, ?h)"
    by (auto simp: cover_low_def cover_high_def split: option.splits)
  have w: "wrap_i64 (?h - ?l) = ?h - ?l" "wrap_i64 (?d + 1) = ?d + 1" "wrap_i64 ?c = ?c"
    using lh d0 d1 c by (intro wrap_i64_exact; simp add: in_i64_def)+
  have sd: "(?h - ?l) sdiv ?t = ?d" using lh t by (simp add: sdiv_nonneg)
  have fit: "wrap_i64 (?c - (?d + 1)) = ?c - (?d + 1)" "wrap_i64 (?c - (?d + 1) + 1) = ?c - (?d + 1) + 1"
     "(?c - (?d + 1) + 1) sdiv 2 = ?m" "wrap_i64 (?m * ?t) = ?m * ?t" "wrap_i64 (?l - ?m * ?t) = ?l - ?m * ?t"
     "wrap_i64 (?l - ?m * ?t - ti_anchor ti) = ?l - ?m * ?t - ti_anchor ti" "?l - ?m * ?t \<le> ?l" "- (2 ^ 62) \<le> ?l - ?m * ?t"
    if "?d + 1 \<le> ?c"
  proof -
    have m: "0 \<le> ?m * ?t" "?m * ?t \<le> 2 ^ 61"
      using cell_product_bounds [OF ok(1), of ?m] that d0 by auto
    show "wrap_i64 (?c - (?d + 1)) = ?c - (?d + 1)" "wrap_i64 (?c - (?d + 1) + 1) = ?c - (?d + 1) + 1"
      using that d0 c by (intro wrap_i64_exact; simp add: in_i64_def)+
    show "(?c - (?d + 1) + 1) sdiv 2 = ?m" using that by (simp add: sdiv_nonneg)
    show "wrap_i64 (?m * ?t) = ?m * ?t" "wrap_i64 (?l - ?m * ?t) = ?l - ?m * ?t"
     "wrap_i64 (?l - ?m * ?t - ti_anchor ti) = ?l - ?m * ?t - ti_anchor ti"
      using m lh an unfolding abs_le_iff width_simps by (intro wrap_i64_exact; unfold in_i64_def width_simps; linarith)+
    show "?l - ?m * ?t \<le> ?l" "- (2 ^ 62) \<le> ?l - ?m * ?t" using m lh unfolding width_simps by linarith+
  qed
  have first: "wrap_i64 (p - ti_anchor ti) smod ?t \<noteq> 0 \<longleftrightarrow> \<not> ?t dvd p - ti_anchor ti"
    using offset_exact [OF ok(1,2)] smod_zero_iff [of ?t] t by simp
  have anchor: "slack_anchor ti ?l ?h = ?l - ?m * ?t" by (simp add: slack_anchor_def)
  show ?thesis
  proof (cases "?d + 1 \<le> ?c")
    case True
    show ?thesis unfolding rebase_for_def pair first
      by (simp only: Let_def case_prod_conv sd w fit [OF True] anchor) (use True in auto)
  next
    case False
    then show ?thesis unfolding rebase_for_def pair first by (simp add: Let_def sd w)
  qed
qed

definition keep_grid :: "tick_index \<Rightarrow> (int \<times> int) option \<Rightarrow> bool" where
  "keep_grid ti keep = (case keep of Some (lo, hi) \<Rightarrow> ti_tick ti dvd lo - ti_anchor ti \<and> ti_tick ti dvd hi - ti_anchor ti
     | None \<Rightarrow> True)"

lemma cover_grid:
  assumes "keep_grid ti keep" "ti_tick ti dvd p - ti_anchor ti"
  shows "ti_tick ti dvd cover_low p keep - ti_anchor ti" "ti_tick ti dvd cover_high p keep - ti_anchor ti"
  using assms by (auto simp: keep_grid_def cover_low_def cover_high_def min_def max_def split: option.splits)

lemma slack_anchor_covers:
  assumes t: "0 < ti_tick ti" and lh: "low \<le> high" "ti_tick ti dvd high - low"
    and fit: "(high - low) div ti_tick ti + 1 \<le> int (ti_capacity ti)"
  shows "high < slack_anchor ti low high + int (ti_capacity ti) * ti_tick ti"
    and "ti_tick ti dvd low - slack_anchor ti low high"
proof -
  let ?t = "ti_tick ti" and ?c = "int (ti_capacity ti)"
  obtain d where d: "high - low = d * ?t" using lh(2) by (metis dvdE mult.commute)
  then have dd: "(high - low) div ?t = d" using t by simp
  let ?m = "(?c - (d + 1) + 1) div 2"
  have a: "slack_anchor ti low high = low - ?m * ?t" by (simp add: slack_anchor_def dd)
  have "?m + d + 1 \<le> ?c" using fit dd by linarith
  then have "(?m + d + 1) * ?t \<le> ?c * ?t" using t by (intro mult_right_mono) auto
  moreover have "(?m + d + 1) * ?t = ?m * ?t + d * ?t + ?t" by (simp add: algebra_simps)
  ultimately have "?m * ?t + d * ?t + ?t \<le> ?c * ?t" by linarith
  then show "high < slack_anchor ti low high + ?c * ?t" using a d t by linarith
  show "?t dvd low - slack_anchor ti low high" by (simp add: a)
qed

lemma rebase_for_Some:
  assumes ok: "ti_ok ti" "price_ok p" "keep_ok keep" "keep_grid ti keep"
    and eq: "rebase_for ti p keep = Some (ti', shift)"
  shows "ti_ok ti'" "ti_tick ti' = ti_tick ti" "ti_capacity ti' = ti_capacity ti"
    "ti_anchor ti' = ti_anchor ti + shift * ti_tick ti"
    "ti_anchor ti' \<le> cover_low p keep" "cover_high p keep < ti_anchor ti' + int (ti_capacity ti) * ti_tick ti"
    "ti_tick ti dvd p - ti_anchor ti"
proof -
  let ?l = "cover_low p keep" and ?h = "cover_high p keep"
  let ?a = "slack_anchor ti ?l ?h"
  have t: "0 < ti_tick ti" using ok(1) by (simp add: ti_ok_def)
  have grid: "ti_tick ti dvd p - ti_anchor ti" and fit: "(?h - ?l) div ti_tick ti + 1 \<le> int (ti_capacity ti)"
    and ti': "ti' = ti\<lparr>ti_anchor := ?a\<rparr>" "shift = (?a - ti_anchor ti) sdiv ti_tick ti"
    and b: "?a \<le> ?l" "- (2 ^ 62) \<le> ?a"
    using eq rebase_for_eq [OF ok(1-3)] by (auto simp: Let_def split: if_splits)
  note cg = cover_grid [OF ok(4) grid] and co = cover_ok [OF ok(3,2)]
  have lh: "?l \<le> ?h" "ti_tick ti dvd ?h - ?l" using co(3,4) dvd_diff [OF cg(2,1)] by auto
  note cov = slack_anchor_covers [OF t lh fit]
  have "ti_tick ti dvd ?a - ti_anchor ti" using dvd_diff [OF cg(1) cov(2)] by simp
  then obtain k where k: "?a - ti_anchor ti = k * ti_tick ti" by (metis dvdE mult.commute)
  then have "shift = k" using ti'(2) t by (simp add: sdiv_exact)
  with k ti' show "ti_anchor ti' = ti_anchor ti + shift * ti_tick ti" by simp
  show "ti_anchor ti' \<le> ?l" "?h < ti_anchor ti' + int (ti_capacity ti) * ti_tick ti" "ti_tick ti dvd p - ti_anchor ti"
    "ti_tick ti' = ti_tick ti" "ti_capacity ti' = ti_capacity ti"
    using b cov(1) grid ti' by auto
  have "\<bar>?a\<bar> \<le> 2 ^ 62" using b co(1) unfolding abs_le_iff price_ok_def width_simps by linarith
  then show "ti_ok ti'" using ok(1) ti' by (simp add: ti_ok_def)
qed

lemma in_window_slot:
  assumes "ti_ok ti" "price_ok p" "ti_tick ti dvd p - ti_anchor ti"
    "ti_anchor ti \<le> p" "p < ti_anchor ti + int (ti_capacity ti) * ti_tick ti"
  shows "\<exists>i < ti_capacity ti. ti_slot ti p = At i \<and> p = ti_anchor ti + int i * ti_tick ti"
proof -
  have t: "0 < ti_tick ti" using assms(1) by (simp add: ti_ok_def)
  obtain k where k: "p - ti_anchor ti = k * ti_tick ti" using assms(3) by (metis dvdE mult.commute)
  have "0 \<le> k * ti_tick ti" "k * ti_tick ti < int (ti_capacity ti) * ti_tick ti" using k assms(4,5) by linarith+
  then have "0 \<le> k" "k < int (ti_capacity ti)" using t by (auto simp: zero_le_mult_iff)
  then have "nat k < ti_capacity ti \<and> p = ti_anchor ti + int (nat k) * ti_tick ti" using k by auto
  then show ?thesis using ti_slot_iff(1) [OF assms(1,2)] by blast
qed

lemma rebase_for_moves:
  assumes "ti_ok ti" "price_ok p" "keep_ok keep" "keep_grid ti keep" "rebase_for ti p keep = Some (ti', shift)"
    and "i < ti_capacity ti" "cover_low p keep \<le> price_at ti i" "price_at ti i \<le> cover_high p keep"
  shows "0 \<le> int i - shift" "int i - shift < int (ti_capacity ti)" "price_at ti' (nat (int i - shift)) = price_at ti i"
proof -
  note r = rebase_for_Some [OF assms(1-5)]
  have t: "0 < ti_tick ti" using assms(1) by (simp add: ti_ok_def)
  have p: "price_at ti i = ti_anchor ti' + (int i - shift) * ti_tick ti"
    using r(4) price_at_exact [OF assms(1,6)] by (simp add: algebra_simps)
  have "0 \<le> (int i - shift) * ti_tick ti" "(int i - shift) * ti_tick ti < int (ti_capacity ti) * ti_tick ti"
    using p r(5,6) assms(7,8) by linarith+
  then show b: "0 \<le> int i - shift" "int i - shift < int (ti_capacity ti)" using t by (auto simp: zero_le_mult_iff)
  then have "nat (int i - shift) < ti_capacity ti'" using r(3) by simp
  from price_at_exact [OF r(1) this] show "price_at ti' (nat (int i - shift)) = price_at ti i"
    using p b r(2) by simp
qed

lemma rebase_for_None:
  assumes ok: "ti_ok ti" "price_ok p" "keep_ok keep" "keep_grid ti keep"
  shows "rebase_for ti p keep = None \<longleftrightarrow> ti_slot ti p = OffGrid \<or>
      \<not> (\<exists>a. ti_tick ti dvd a - ti_anchor ti \<and> a \<le> cover_low p keep \<and>
          cover_high p keep < a + int (ti_capacity ti) * ti_tick ti)"
proof (cases "ti_tick ti dvd p - ti_anchor ti")
  case grid: True
  have t: "0 < ti_tick ti" using ok(1) by (simp add: ti_ok_def)
  let ?l = "cover_low p keep" and ?h = "cover_high p keep"
  note cg = cover_grid [OF ok(4) grid] and co = cover_ok [OF ok(3,2)]
  have lh: "?l \<le> ?h" "ti_tick ti dvd ?h - ?l" using co(3,4) dvd_diff [OF cg(2,1)] by auto
  have "(\<exists>a. ti_tick ti dvd a - ti_anchor ti \<and> a \<le> ?l \<and> ?h < a + int (ti_capacity ti) * ti_tick ti) \<longleftrightarrow>
      (?h - ?l) div ti_tick ti + 1 \<le> int (ti_capacity ti)" (is "?cov \<longleftrightarrow> ?fit")
  proof
    assume ?cov
    then have "?h - ?l < int (ti_capacity ti) * ti_tick ti" by auto
    then have "(?h - ?l) div ti_tick ti * ti_tick ti < int (ti_capacity ti) * ti_tick ti" using lh(2) by simp
    then show ?fit using t by simp
  next
    assume ?fit
    note cov = slack_anchor_covers [OF t lh this]
    have "ti_tick ti dvd slack_anchor ti ?l ?h - ti_anchor ti" using dvd_diff [OF cg(1) cov(2)] by simp
    moreover have "slack_anchor ti ?l ?h \<le> ?l" using \<open>?fit\<close> rebase_for_eq [OF ok(1-3)] by (simp add: Let_def)
    ultimately show ?cov using cov(1) by blast
  qed
  with grid show ?thesis using rebase_for_eq [OF ok(1-3)] ti_slot_iff(2) [OF ok(1,2)] by (simp add: Let_def not_less)
qed (use rebase_for_eq [OF ok(1-3)] ti_slot_iff(2) [OF ok(1,2)] in \<open>simp add: Let_def\<close>)

lemma rebase_for_contains:
  assumes ok: "ti_ok ti" "price_ok p" "keep_ok keep" "keep_grid ti keep" and eq: "rebase_for ti p keep = Some (ti', shift)"
  shows "\<exists>i < ti_capacity ti. ti_slot ti' p = At i"
proof -
  note r = rebase_for_Some [OF ok eq]
  have "p - ti_anchor ti' = (p - ti_anchor ti) - shift * ti_tick ti" using r(4) by simp
  then have "ti_tick ti' dvd p - ti_anchor ti'" using r(2) dvd_diff [OF r(7), of "shift * ti_tick ti"] by (simp only: dvd_triv_right)
  then show ?thesis using in_window_slot [OF r(1) ok(2)] r(2,3,5,6) cover_ok(3,4) [OF ok(3,2)] by fastforce
qed

lemma rebase_for_extent:
  assumes ok: "ti_ok ti" "price_ok p" "keep_ok keep" "keep_grid ti keep" and eq: "rebase_for ti p keep = Some (ti', shift)"
    and lh: "h < ti_capacity ti" "keep = Some (price_at ti l, price_at ti h)" and j: "l \<le> j" "j \<le> h"
  shows "0 \<le> int j - shift" "int j - shift < int (ti_capacity ti)" "price_at ti' (nat (int j - shift)) = price_at ti j"
proof -
  have "cover_low p keep \<le> price_at ti j" "price_at ti j \<le> cover_high p keep"
    using lh j price_at_mono [OF ok(1), of j h] price_at_mono [OF ok(1), of l j]
      price_at_inj [OF ok(1), of j h] price_at_inj [OF ok(1), of l j]
    by (auto simp: cover_low_def cover_high_def le_less)
  from rebase_for_moves [OF ok eq _ this] lh j
  show "0 \<le> int j - shift" "int j - shift < int (ti_capacity ti)" "price_at ti' (nat (int j - shift)) = price_at ti j"
    by auto
qed

section \<open>Properties\<close>

text \<open>C8: the price window loses nothing. For a window and prices in the range where \<open>i64\<close> cannot
  wrap, \<open>slot\<close> finds an index exactly for the prices of the window and \<open>price_at\<close> inverts it; and
  \<open>rebase_for\<close> refuses exactly when the price is off the tick grid or no window of this many slots
  covers the price and the occupied extent. When it succeeds, the new window holds the new price and
  the whole extent, and every slot of the extent moves by the returned shift, keeping its price.\<close>

theorem tick_window_round_trip_and_rebase:
  assumes ok: "ti_ok ti" "price_ok p" and lh: "l \<le> h" "h < ti_capacity ti"
    and keep: "keep = Some (price_at ti l, price_at ti h)" "keep_ok keep"
  shows "(\<forall>i. ti_slot ti p = At i \<longleftrightarrow> i < ti_capacity ti \<and> price_at ti i = p) \<and>
     (case rebase_for ti p keep of
        None \<Rightarrow> ti_slot ti p = OffGrid \<or>
          \<not> (\<exists>a. ti_tick ti dvd a - ti_anchor ti \<and> a \<le> min (price_at ti l) p \<and>
              max (price_at ti h) p < a + int (ti_capacity ti) * ti_tick ti)
      | Some (ti', shift) \<Rightarrow> ti_slot ti p \<noteq> OffGrid \<and> ti_contains ti' p \<and>
          shift_preserves ti' shift (Some l) (Some h) \<and>
          (\<forall>j\<in>{l..h}. price_at ti' (nat (int j - shift)) = price_at ti j))"
proof -
  have grid: "keep_grid ti keep" using ok(1) lh by (simp add: keep_grid_def keep price_at_exact)
  have cover: "cover_low p keep = min (price_at ti l) p" "cover_high p keep = max (price_at ti h) p"
    by (simp_all add: keep cover_low_def cover_high_def)
  have some: "ti_slot ti p \<noteq> OffGrid \<and> ti_contains ti' p \<and> shift_preserves ti' shift (Some l) (Some h) \<and>
      (\<forall>j\<in>{l..h}. price_at ti' (nat (int j - shift)) = price_at ti j)"
    if eq: "rebase_for ti p keep = Some (ti', shift)" for ti' shift
  proof -
    note mv = rebase_for_extent [OF ok keep(2) grid eq lh(2) keep(1)]
    have w: "wrap_i64 (int j) = int j" "wrap_i64 (int j - shift) = int j - shift" "(int j - shift) mod 2 ^ 64 = int j - shift"
      if "l \<le> j" "j \<le> h" for j
      using mv(1,2) [OF that] that lh(2) ti_ok_capacity [OF ok(1)] by (simp_all add: in_i64_def)
    have "shift_preserves ti' shift (Some l) (Some h)"
      using w [of l] w [of h] mv(1) [of l] mv(1,2) [of h] lh(1) rebase_for_Some(3) [OF ok keep(2) grid eq]
      by (simp add: shift_preserves_def Let_def)
    moreover have "ti_contains ti' p" using rebase_for_contains [OF ok keep(2) grid eq] by (auto simp: ti_contains_def)
    moreover have "ti_slot ti p \<noteq> OffGrid" using rebase_for_None [OF ok keep(2) grid] eq by auto
    ultimately show ?thesis using mv(3) by auto
  qed
  show ?thesis
  proof (cases "rebase_for ti p keep")
    case None
    then show ?thesis using ti_slot_At_price [OF ok] rebase_for_None [OF ok keep(2) grid] by (simp add: cover)
  next
    case (Some r)
    then show ?thesis using ti_slot_At_price [OF ok] some by (cases r) simp
  qed
qed

theorem tick_window_round_trip_and_rebase_witness:
  "rebase_for (centred_on 1000 5 8) 1040 (Some (price_at (centred_on 1000 5 8) 2, price_at (centred_on 1000 5 8) 4)) = None \<and>
   rebase_for (centred_on 1000 5 8) 1020 (Some (price_at (centred_on 1000 5 8) 2, price_at (centred_on 1000 5 8) 4)) =
     Some (\<lparr>ti_anchor = 985, ti_tick = 5, ti_capacity = 8\<rparr>, 1) \<and>
   ti_contains \<lparr>ti_anchor = 985, ti_tick = 5, ti_capacity = 8\<rparr> 1020"
proof -
  let ?ti = "centred_on 1000 5 8"
  have ti: "?ti = \<lparr>ti_anchor = 980, ti_tick = 5, ti_capacity = 8\<rparr>" by code_simp
  have pr: "price_at ?ti 2 = 990" "price_at ?ti 4 = 1000" by (simp_all only: ti) code_simp+
  have ok: "ti_ok ?ti" "price_ok 1020" "keep_ok (Some (price_at ?ti 2, price_at ?ti 4))"
    by (simp_all add: pr) (simp_all add: ti ti_ok_def price_ok_def keep_ok_def)
  have r: "rebase_for ?ti 1040 (Some (price_at ?ti 2, price_at ?ti 4)) = None"
    "rebase_for ?ti 1020 (Some (price_at ?ti 2, price_at ?ti 4)) = Some (\<lparr>ti_anchor = 985, ti_tick = 5, ti_capacity = 8\<rparr>, 1)"
    by (simp_all only: pr ti) code_simp+
  have "2 \<le> (4 :: nat)" "4 < ti_capacity ?ti" by (simp_all add: ti)
  from tick_window_round_trip_and_rebase [OF ok(1,2) this refl ok(3)] r show ?thesis by simp
qed

end
