(* ===== verification/MboMap.thy ===== *)
theory MboMap
  imports BookSpec
begin

text \<open>
  The order-id map of \<open>crates/book/src/mbo.rs\<close>: a flat array with a power-of-two length, linear
  probing from a SplitMix hash and backward-shift deletion. \<open>map_find\<close> bounds its own loop; the
  loops of \<open>map_insert\<close> and \<open>map_remove_at\<close> run until they meet an empty slot, so they are
  partial functions into \<open>option\<close>, where \<open>None\<close> is a loop that never ends. The lemmas show that
  with one slot free every probe ends, and that the array is a finite map.
\<close>

unbundle bit_operations_syntax

abbreviation NIL :: nat where "NIL \<equiv> u32_max"

section \<open>The array and its loops\<close>

record map_entry =
  me_order_id :: nat
  me_node :: nat

definition map_entry_default :: map_entry where
  "map_entry_default = \<lparr>me_order_id = 0, me_node = NIL\<rparr>"

definition mbo_hash :: "nat \<Rightarrow> nat \<Rightarrow> nat" where
  "mbo_hash map_mask order_id =
     (let z0 = word_of_nat order_id :: 64 word;
          z1 = (z0 XOR drop_bit 30 z0) * 0xBF58476D1CE4E5B9;
          z2 = (z1 XOR drop_bit 27 z1) * 0x94D049BB133111EB
      in unat (z2 XOR drop_bit 31 z2) AND map_mask)"

definition map_next :: "nat \<Rightarrow> nat \<Rightarrow> nat" where
  "map_next map_mask i = (i + 1) AND map_mask"

function map_find_loop :: "map_entry list \<Rightarrow> nat \<Rightarrow> nat \<Rightarrow> nat \<Rightarrow> nat \<Rightarrow> (book_error, nat option \<times> nat) outcome" where
  "map_find_loop es map_mask order_id i probes =
     (if length es \<le> i then Panic
      else let entry = es ! i in
        if me_node entry = NIL then Ok (None, probes)
        else if me_order_id entry = order_id then Ok (Some i, probes)
        else if probes + 1 > length es then Ok (None, probes + 1)
        else map_find_loop es map_mask order_id (map_next map_mask i) (probes + 1))"
  by pat_completeness auto
termination by (relation "measure (\<lambda>(es, _, _, _, probes). length es - probes)") auto

declare map_find_loop.simps [simp del]

definition map_probe :: "map_entry list \<Rightarrow> nat \<Rightarrow> nat \<Rightarrow> (book_error, nat option \<times> nat) outcome" where
  "map_probe es map_mask order_id = map_find_loop es map_mask order_id (mbo_hash map_mask order_id) 0"

partial_function (option) map_free_slot :: "map_entry list \<Rightarrow> nat \<Rightarrow> nat \<Rightarrow> (book_error, nat) outcome option" where
  "map_free_slot es map_mask i =
     (if length es \<le> i then Some Panic
      else if me_node (es ! i) \<noteq> NIL then map_free_slot es map_mask (map_next map_mask i)
      else Some (Ok i))"

text \<open>A call that never returns is \<open>Panic\<close>, as a call that aborts is: the caller never continues.\<close>

definition map_insert :: "map_entry list \<Rightarrow> nat \<Rightarrow> nat \<Rightarrow> nat \<Rightarrow> (book_error, map_entry list) outcome" where
  "map_insert es map_mask order_id node =
     (case map_free_slot es map_mask (mbo_hash map_mask order_id) of
        Some (Ok i) \<Rightarrow> Ok (es[i := \<lparr>me_order_id = order_id, me_node = node\<rparr>])
      | _ \<Rightarrow> Panic)"

definition map_stays :: "nat \<Rightarrow> nat \<Rightarrow> nat \<Rightarrow> bool" where
  "map_stays hole j home = (if hole \<le> j then home > hole \<and> home \<le> j else home > hole \<or> home \<le> j)"

partial_function (option) map_shift :: "nat \<Rightarrow> map_entry list \<Rightarrow> nat \<Rightarrow> nat \<Rightarrow> (book_error, map_entry list) outcome option" where
  "map_shift map_mask es hole j0 =
     (let j = map_next map_mask j0 in
      if length es \<le> j then Some Panic
      else let entry = es ! j in
        if me_node entry = NIL then Some (Ok es)
        else if map_stays hole j (mbo_hash map_mask (me_order_id entry)) then map_shift map_mask es hole j
        else map_shift map_mask (es[hole := entry, j := map_entry_default]) j j)"

definition map_remove_at :: "map_entry list \<Rightarrow> nat \<Rightarrow> nat \<Rightarrow> (book_error, map_entry list) outcome" where
  "map_remove_at es map_mask hole =
     (if length es \<le> hole then Panic
      else case map_shift map_mask (es[hole := map_entry_default]) hole hole of Some r \<Rightarrow> r | None \<Rightarrow> Panic)"

declare map_free_slot.simps [code] map_shift.simps [code]

section \<open>Cyclic distance\<close>

definition cdist :: "nat \<Rightarrow> nat \<Rightarrow> nat \<Rightarrow> nat" where
  "cdist n a b = (if a \<le> b then b - a else n + b - a)"

definition occ :: "map_entry list \<Rightarrow> nat \<Rightarrow> bool" where
  "occ es i \<longleftrightarrow> i < length es \<and> me_node (es ! i) \<noteq> NIL"

definition mask_ok :: "map_entry list \<Rightarrow> nat \<Rightarrow> bool" where
  "mask_ok es map_mask \<longleftrightarrow> (\<exists>k. length es = 2 ^ k \<and> map_mask = 2 ^ k - 1)"

lemma map_next_eq:
  assumes "mask_ok es map_mask" "i < length es"
  shows "map_next map_mask i = (if i + 1 = length es then 0 else i + 1)"
  using assms by (auto simp: map_next_def mask_ok_def and_mask_mod simp del: One_nat_def)

lemma map_next_less: "mask_ok es map_mask \<Longrightarrow> i < length es \<Longrightarrow> map_next map_mask i < length es"
  by (auto simp: map_next_eq)

lemma hash_less: "mask_ok es map_mask \<Longrightarrow> mbo_hash map_mask k < length es"
  by (auto simp: mask_ok_def mbo_hash_def Let_def and_mask_mod simp del: One_nat_def)

lemma mask_ok_length: "length es' = length es \<Longrightarrow> mask_ok es' map_mask \<longleftrightarrow> mask_ok es map_mask"
  by (simp add: mask_ok_def)

lemma occ_less: "occ es i \<Longrightarrow> i < length es"
  by (simp add: occ_def)

lemma cdist_less: "a < n \<Longrightarrow> b < n \<Longrightarrow> cdist n a b < n"
  by (auto simp: cdist_def)

lemma cdist_inj: "a < n \<Longrightarrow> x < n \<Longrightarrow> y < n \<Longrightarrow> cdist n a x = cdist n a y \<longleftrightarrow> x = y"
  by (auto simp: cdist_def)

lemma cdist_self [simp]: "cdist n a a = 0"
  by (simp add: cdist_def)

lemma cdist_to_next:
  assumes "mask_ok es map_mask" "i < length es" "e < length es" "i \<noteq> e"
  shows "cdist (length es) (map_next map_mask i) e < cdist (length es) i e"
  using assms by (auto simp: map_next_eq [OF assms(1,2)] cdist_def)

lemma cdist_of_next:
  assumes "mask_ok es map_mask" "i < length es" "h < length es" "map_next map_mask i \<noteq> h"
  shows "cdist (length es) h (map_next map_mask i) = cdist (length es) h i + 1"
  using assms(2-4) by (auto simp: map_next_eq [OF assms(1,2)] cdist_def split: if_splits)

lemma cdist_before_home:
  assumes "mask_ok es map_mask" "i < length es" "h < length es" "map_next map_mask i = h"
  shows "cdist (length es) h i + 1 = length es"
  using assms(2-4) by (auto simp: map_next_eq [OF assms(1,2)] cdist_def split: if_splits)

section \<open>The invariant\<close>

definition home_of :: "nat \<Rightarrow> map_entry list \<Rightarrow> nat \<Rightarrow> nat" where
  "home_of map_mask es i = mbo_hash map_mask (me_order_id (es ! i))"

text \<open>No slot between an entry's home and the entry is empty.\<close>

definition probe_chain :: "nat \<Rightarrow> map_entry list \<Rightarrow> bool" where
  "probe_chain map_mask es \<longleftrightarrow> (\<forall>m x. occ es m \<longrightarrow> x < length es \<longrightarrow>
     cdist (length es) (home_of map_mask es m) x < cdist (length es) (home_of map_mask es m) m \<longrightarrow> occ es x)"

definition ids_distinct :: "map_entry list \<Rightarrow> bool" where
  "ids_distinct es \<longleftrightarrow> (\<forall>a b. occ es a \<longrightarrow> occ es b \<longrightarrow> me_order_id (es ! a) = me_order_id (es ! b) \<longrightarrow> a = b)"

definition map_wf :: "nat \<Rightarrow> map_entry list \<Rightarrow> bool" where
  "map_wf map_mask es \<longleftrightarrow> mask_ok es map_mask \<and> probe_chain map_mask es \<and> ids_distinct es"

definition map_used :: "map_entry list \<Rightarrow> nat" where
  "map_used es = length (filter (\<lambda>e. me_node e \<noteq> NIL) es)"

definition map_content :: "map_entry list \<Rightarrow> nat \<Rightarrow> nat option" where
  "map_content es = map_of (map (\<lambda>e. (me_order_id e, me_node e)) (filter (\<lambda>e. me_node e \<noteq> NIL) es))"

lemma empty_entry_exists: "map_used es < length es \<Longrightarrow> \<exists>e < length es. \<not> occ es e"
proof (rule ccontr)
  assume "map_used es < length es" "\<not> (\<exists>e < length es. \<not> occ es e)"
  then have "\<forall>x \<in> set es. me_node x \<noteq> NIL" by (auto simp: occ_def in_set_conv_nth)
  with \<open>map_used es < length es\<close> show False by (simp add: map_used_def filter_True)
qed

lemma content_iff:
  assumes "ids_distinct es"
  shows "map_content es k = Some n \<longleftrightarrow> (\<exists>i. occ es i \<and> es ! i = \<lparr>me_order_id = k, me_node = n\<rparr>)" (is "?l \<longleftrightarrow> ?r")
proof
  assume ?l
  then obtain e where e: "e \<in> set es" "me_node e \<noteq> NIL" "me_order_id e = k" "me_node e = n"
    by (auto simp: map_content_def dest!: map_of_SomeD)
  then obtain i where "i < length es" "es ! i = e" by (auto simp: in_set_conv_nth)
  with e show ?r by (intro exI [of _ i]) (auto simp: occ_def)
next
  assume ?r
  then obtain i where i: "occ es i" "es ! i = \<lparr>me_order_id = k, me_node = n\<rparr>" by auto
  let ?xs = "filter (\<lambda>e. me_node e \<noteq> NIL) es"
  have "distinct (map me_order_id ?xs)"
  proof -
    have "me_order_id (es ! a) \<noteq> me_order_id (es ! b)" if "a < length es" "b < length es" "a \<noteq> b" "occ es a" "occ es b" for a b
      using assms that by (auto simp: ids_distinct_def)
    then show ?thesis
    proof (induction es)
      case (Cons e es)
      have IH: "distinct (map me_order_id (filter (\<lambda>e. me_node e \<noteq> NIL) es))"
        using Cons.prems [of "Suc _" "Suc _"] by (intro Cons.IH) (auto simp: occ_def)
      have "me_order_id e \<noteq> me_order_id d" if "me_node e \<noteq> NIL" "d \<in> set es" "me_node d \<noteq> NIL" for d
      proof -
        obtain j where "j < length es" "es ! j = d" using \<open>d \<in> set es\<close> by (auto simp: in_set_conv_nth)
        then show ?thesis using Cons.prems [of 0 "Suc j"] that by (auto simp: occ_def)
      qed
      with IH show ?case by auto
    qed simp
  qed
  moreover have "(k, n) \<in> set (map (\<lambda>e. (me_order_id e, me_node e)) ?xs)"
    using i by (auto simp: occ_def in_set_conv_nth image_iff intro!: bexI [of _ "es ! i"])
  ultimately show ?l by (auto simp: map_content_def comp_def intro!: map_of_is_SomeI)
qed

lemma content_None:
  assumes "ids_distinct es"
  shows "map_content es k = None \<longleftrightarrow> (\<forall>i. occ es i \<longrightarrow> me_order_id (es ! i) \<noteq> k)"
proof -
  have "map_content es k \<noteq> None \<longleftrightarrow> (\<exists>i. occ es i \<and> me_order_id (es ! i) = k)"
    using content_iff [OF assms, of k] by (metis map_entry.surjective map_entry.select_convs(1) not_None_eq old.unit.exhaust)
  then show ?thesis by auto
qed

section \<open>Lookup\<close>

lemma find_loop_ok:
  assumes wf: "map_wf map_mask es" and e: "e < length es" "\<not> occ es e"
  shows "i < length es \<Longrightarrow> probes = cdist (length es) (mbo_hash map_mask k) i \<Longrightarrow>
     (\<And>x. x < length es \<Longrightarrow> cdist (length es) (mbo_hash map_mask k) x < probes \<Longrightarrow> occ es x \<and> me_order_id (es ! x) \<noteq> k) \<Longrightarrow>
     \<exists>r p. map_find_loop es map_mask k i probes = Ok (r, p) \<and>
       (case r of Some m \<Rightarrow> occ es m \<and> me_order_id (es ! m) = k | None \<Rightarrow> \<forall>m. occ es m \<longrightarrow> me_order_id (es ! m) \<noteq> k)"
proof (induction "length es - probes" arbitrary: i probes rule: less_induct)
  case less
  let ?n = "length es" and ?h = "mbo_hash map_mask k"
  have m: "mask_ok es map_mask" and chain: "probe_chain map_mask es" using wf by (auto simp: map_wf_def)
  have h: "?h < ?n" by (rule hash_less [OF m])
  have p: "probes < ?n" using cdist_less [OF h less.prems(1)] less.prems(2) by simp
  consider (empty) "\<not> occ es i" | (hit) "occ es i" "me_order_id (es ! i) = k"
    | (on) "occ es i" "me_order_id (es ! i) \<noteq> k" by blast
  then show ?case
  proof cases
    case empty
    have "me_order_id (es ! x) \<noteq> k" if x: "occ es x" for x
    proof
      assume k: "me_order_id (es ! x) = k"
      have xn: "x < ?n" using x by (rule occ_less)
      have "x \<noteq> i" using x empty by auto
      then have "cdist ?n ?h x \<noteq> cdist ?n ?h i" using cdist_inj [OF h xn less.prems(1)] by simp
      moreover have "\<not> cdist ?n ?h i < cdist ?n ?h x"
        using chain x empty less.prems(1) k unfolding probe_chain_def home_of_def by blast
      ultimately have "cdist ?n ?h x < probes" using less.prems(2) by simp
      then show False using less.prems(3) [OF xn] k by simp
    qed
    moreover have "map_find_loop es map_mask k i probes = Ok (None, probes)"
      using empty less.prems(1) by (subst map_find_loop.simps) (simp add: occ_def)
    ultimately show ?thesis by auto
  next
    case hit
    then have "map_find_loop es map_mask k i probes = Ok (Some i, probes)"
      by (subst map_find_loop.simps) (simp add: occ_def)
    with hit show ?thesis by auto
  next
    case on
    let ?j = "map_next map_mask i"
    have step: "map_find_loop es map_mask k i probes = map_find_loop es map_mask k ?j (probes + 1)"
      using on p by (subst map_find_loop.simps) (simp add: occ_def)
    have below: "occ es x \<and> me_order_id (es ! x) \<noteq> k" if "x < ?n" "cdist ?n ?h x < probes + 1" for x
    proof (cases "x = i")
      case False
      then have "cdist ?n ?h x \<noteq> cdist ?n ?h i" using cdist_inj [OF h that(1) less.prems(1)] by simp
      then show ?thesis using that less.prems(2,3) by simp
    qed (use on in simp)
    have "?j \<noteq> ?h"
    proof
      assume "?j = ?h"
      then have "probes + 1 = ?n" using cdist_before_home [OF m less.prems(1) h] less.prems(2) by simp
      then show False using below [OF e(1)] cdist_less [OF h e(1)] e(2) by simp
    qed
    then have "probes + 1 = cdist ?n ?h ?j" using cdist_of_next [OF m less.prems(1) h] less.prems(2) by simp
    from less.hyps [OF _ map_next_less [OF m less.prems(1)] this below] p step show ?thesis by simp
  qed
qed

lemma map_probe_ok:
  assumes "map_wf map_mask es" "map_used es < length es"
  shows "\<exists>r p. map_probe es map_mask k = Ok (r, p) \<and>
     (case r of Some m \<Rightarrow> occ es m \<and> me_order_id (es ! m) = k | None \<Rightarrow> \<forall>m. occ es m \<longrightarrow> me_order_id (es ! m) \<noteq> k)"
proof -
  obtain e where e: "e < length es" "\<not> occ es e" using empty_entry_exists [OF assms(2)] by auto
  have "mbo_hash map_mask k < length es" using assms(1) hash_less by (simp add: map_wf_def)
  from find_loop_ok [OF assms(1) e this, of 0 k] show ?thesis by (simp add: map_probe_def)
qed

section \<open>Insertion\<close>

lemma free_slot_ok:
  assumes m: "mask_ok es map_mask" and e: "e < length es" "\<not> occ es e"
  shows "i < length es \<Longrightarrow> \<exists>f. map_free_slot es map_mask i = Some (Ok f) \<and> f < length es \<and> \<not> occ es f \<and>
     (\<forall>x < length es. cdist (length es) i x < cdist (length es) i f \<longrightarrow> occ es x)"
proof (induction "cdist (length es) i e" arbitrary: i rule: less_induct)
  case less
  show ?case
  proof (cases "occ es i")
    case False
    then have "map_free_slot es map_mask i = Some (Ok i)"
      using less.prems by (subst map_free_slot.simps) (simp add: occ_def)
    with False less.prems show ?thesis by auto
  next
    case True
    let ?j = "map_next map_mask i" and ?n = "length es"
    have ne: "i \<noteq> e" using True e by auto
    have j: "?j < ?n" by (rule map_next_less [OF m less.prems])
    obtain f where f: "map_free_slot es map_mask ?j = Some (Ok f)" "f < ?n" "\<not> occ es f"
      "\<forall>x < ?n. cdist ?n ?j x < cdist ?n ?j f \<longrightarrow> occ es x"
      using less.hyps [OF cdist_to_next [OF m less.prems e(1) ne] j] by auto
    have "map_free_slot es map_mask i = Some (Ok f)"
      using True f(1) less.prems by (subst map_free_slot.simps) (simp add: occ_def)
    moreover have "occ es x" if "x < ?n" "cdist ?n i x < cdist ?n i f" for x
    proof (cases "x = i")
      case False
      have "i \<noteq> f" using True f by auto
      have "cdist ?n ?j x < cdist ?n ?j f"
        using that False \<open>i \<noteq> f\<close> less.prems f(2) by (auto simp: map_next_eq [OF m less.prems] cdist_def split: if_splits)
      then show ?thesis using f(4) that by blast
    qed (use True in simp)
    ultimately show ?thesis using f by blast
  qed
qed

lemma occ_update: "i < length es \<Longrightarrow> occ (es[i := e]) x \<longleftrightarrow> (if x = i then me_node e \<noteq> NIL else occ es x)"
  by (auto simp: occ_def nth_list_update)

lemma map_used_update:
  assumes "i < length es"
  shows "map_used (es[i := e]) + (if occ es i then 1 else 0) = map_used es + (if me_node e \<noteq> NIL then 1 else 0)"
  using assms
proof (induction es arbitrary: i)
  case (Cons a es)
  then show ?case
  proof (cases i)
    case (Suc j)
    then have "occ (a # es) i = occ es j" by (simp add: occ_def)
    with Cons Suc show ?thesis by (auto simp: map_used_def split: if_splits)
  qed (auto simp: map_used_def occ_def)
qed simp

lemma content_eqI:
  assumes "ids_distinct es" "\<And>k n. f k = Some n \<longleftrightarrow> (\<exists>i. occ es i \<and> es ! i = \<lparr>me_order_id = k, me_node = n\<rparr>)"
  shows "map_content es = f"
proof
  fix k show "map_content es k = f k"
    using content_iff [OF assms(1), of k] assms(2) [of k] by (metis not_None_eq)
qed

lemma map_insert_ok:
  assumes wf: "map_wf map_mask es" and used: "map_used es < length es"
    and new: "map_content es k = None" and n: "n \<noteq> NIL"
  shows "\<exists>es'. map_insert es map_mask k n = Ok es' \<and> map_wf map_mask es' \<and> length es' = length es \<and>
     map_used es' = map_used es + 1 \<and> map_content es' = (map_content es)(k \<mapsto> n)"
proof -
  let ?h = "mbo_hash map_mask k" and ?e = "\<lparr>me_order_id = k, me_node = n\<rparr>" and ?N = "length es"
  have m: "mask_ok es map_mask" and ch: "probe_chain map_mask es" and ids: "ids_distinct es" using wf by (auto simp: map_wf_def)
  obtain z where z: "z < ?N" "\<not> occ es z" using empty_entry_exists [OF used] by auto
  obtain f where f: "map_free_slot es map_mask ?h = Some (Ok f)" "f < ?N" "\<not> occ es f"
      "\<And>x. x < ?N \<Longrightarrow> cdist ?N ?h x < cdist ?N ?h f \<Longrightarrow> occ es x"
    using free_slot_ok [OF m z hash_less [OF m, of k]] by blast
  let ?es = "es[f := ?e]"
  have "probe_chain map_mask ?es"
    using ch f(2-4) n unfolding probe_chain_def
    by (auto simp: occ_update [OF f(2)] home_of_def nth_list_update)
  moreover have ids': "ids_distinct ?es"
    using ids new f(2) content_None [OF ids, of k]
    by (auto simp: ids_distinct_def occ_update nth_list_update split: if_splits)
  moreover have "mask_ok ?es map_mask" using m by (simp add: mask_ok_def)
  moreover have "map_used ?es = map_used es + 1" using map_used_update [OF f(2), of ?e] f(3) n by simp
  moreover have "map_content ?es = (map_content es)(k \<mapsto> n)"
  proof (rule content_eqI [OF ids'])
    fix j n'
    have "occ ?es i \<and> ?es ! i = \<lparr>me_order_id = j, me_node = n'\<rparr> \<longleftrightarrow>
        (if i = f then j = k \<and> n' = n else occ es i \<and> es ! i = \<lparr>me_order_id = j, me_node = n'\<rparr>)" for i
      using n by (auto simp: occ_update [OF f(2)] nth_list_update [OF f(2)])
    moreover have "\<not> occ es f" "j = k \<Longrightarrow> occ es i \<Longrightarrow> es ! i \<noteq> \<lparr>me_order_id = j, me_node = n'\<rparr>" for i
      using f(3) new content_None [OF ids, of k] by auto
    ultimately have "(\<exists>i. occ ?es i \<and> ?es ! i = \<lparr>me_order_id = j, me_node = n'\<rparr>) \<longleftrightarrow>
        (if j = k then n' = n else \<exists>i. occ es i \<and> es ! i = \<lparr>me_order_id = j, me_node = n'\<rparr>)" by metis
    then show "((map_content es)(k \<mapsto> n)) j = Some n' \<longleftrightarrow> (\<exists>i. occ ?es i \<and> ?es ! i = \<lparr>me_order_id = j, me_node = n'\<rparr>)"
      using content_iff [OF ids, of j n'] by auto
  qed
  ultimately show ?thesis using f(1) by (auto simp: map_insert_def map_wf_def)
qed

section \<open>Backward-shift deletion\<close>

lemma map_stays_iff:
  assumes "hole < n" "j < n" "home < n" "hole \<noteq> j"
  shows "map_stays hole j home \<longleftrightarrow> \<not> cdist n home hole < cdist n home j"
  using assms by (auto simp: map_stays_def cdist_def)

text \<open>The loop invariant. The hole is the only gap a probe chain may have, and the entries already
  passed (those cyclically between the hole and \<open>j\<close>) do not reach back over it.\<close>

definition shift_inv :: "nat \<Rightarrow> map_entry list \<Rightarrow> nat \<Rightarrow> nat \<Rightarrow> bool" where
  "shift_inv map_mask es hole j \<longleftrightarrow> mask_ok es map_mask \<and> ids_distinct es \<and> hole < length es \<and> j < length es \<and> \<not> occ es hole \<and>
     (\<forall>m x. occ es m \<longrightarrow> x < length es \<longrightarrow>
        cdist (length es) (home_of map_mask es m) x < cdist (length es) (home_of map_mask es m) m \<longrightarrow> occ es x \<or> x = hole) \<and>
     (\<forall>m. m < length es \<longrightarrow> m \<noteq> hole \<longrightarrow> cdist (length es) hole m \<le> cdist (length es) hole j \<longrightarrow>
        occ es m \<and> \<not> cdist (length es) (home_of map_mask es m) hole < cdist (length es) (home_of map_mask es m) m)"

lemma shift_invD:
  assumes "shift_inv map_mask es hole j"
  shows "mask_ok es map_mask" "ids_distinct es" "hole < length es" "j < length es" "\<not> occ es hole"
    "occ es m \<Longrightarrow> x < length es \<Longrightarrow>
        cdist (length es) (home_of map_mask es m) x < cdist (length es) (home_of map_mask es m) m \<Longrightarrow> occ es x \<or> x = hole"
    "m < length es \<Longrightarrow> m \<noteq> hole \<Longrightarrow> cdist (length es) hole m \<le> cdist (length es) hole j \<Longrightarrow> occ es m"
    "m < length es \<Longrightarrow> m \<noteq> hole \<Longrightarrow> cdist (length es) hole m \<le> cdist (length es) hole j \<Longrightarrow>
        \<not> cdist (length es) (home_of map_mask es m) hole < cdist (length es) (home_of map_mask es m) m"
  using assms unfolding shift_inv_def by blast+

lemma home_less: "mask_ok es map_mask \<Longrightarrow> home_of map_mask es m < length es"
  by (simp add: home_of_def hash_less)

lemma shift_next:
  assumes inv: "shift_inv map_mask es hole j" and e: "e < length es" "\<not> occ es e" "e \<noteq> hole"
  shows "map_next map_mask j \<noteq> hole" "cdist (length es) hole (map_next map_mask j) = cdist (length es) hole j + 1" "j \<noteq> e"
proof -
  note I = shift_invD [OF inv]
  have far: "\<not> cdist (length es) hole e \<le> cdist (length es) hole j" using I(7) e by blast
  then show "j \<noteq> e" by auto
  show nh: "map_next map_mask j \<noteq> hole"
    using far cdist_before_home [OF I(1,4,3)] cdist_less [OF I(3) e(1)] by linarith
  show "cdist (length es) hole (map_next map_mask j) = cdist (length es) hole j + 1"
    by (rule cdist_of_next [OF I(1,4,3) nh])
qed

lemma shift_stop:
  assumes inv: "shift_inv map_mask es hole j" and e: "e < length es" "\<not> occ es e" "e \<noteq> hole"
    and stop: "\<not> occ es (map_next map_mask j)"
  shows "map_wf map_mask es"
proof -
  note I = shift_invD [OF inv]
  let ?n = "length es" and ?j = "map_next map_mask j"
  note nx = shift_next [OF inv e]
  have j: "?j < ?n" by (rule map_next_less [OF I(1,4)])
  have "occ es x" if m: "occ es m" and x: "x < ?n" and d: "cdist ?n (home_of map_mask es m) x < cdist ?n (home_of map_mask es m) m" for m x
  proof (rule ccontr)
    assume no: "\<not> occ es x"
    with I(6) [OF m x d] have xh: "x = hole" by simp
    let ?g = "home_of map_mask es m"
    have g: "?g < ?n" by (rule home_less [OF I(1)])
    have mn: "m < ?n" and mh: "m \<noteq> hole" "m \<noteq> ?j" using m I(5) stop by (auto simp: occ_less)
    have "\<not> cdist ?n hole m \<le> cdist ?n hole j" using I(8) [OF mn mh(1)] d xh by auto
    moreover have "cdist ?n hole m \<noteq> cdist ?n hole ?j" using cdist_inj [OF I(3) mn j] mh(2) by simp
    ultimately have "cdist ?n hole ?j < cdist ?n hole m" using nx(2) by linarith
    then have "cdist ?n ?g ?j < cdist ?n ?g m"
      using d xh mn g j I(3) nx(1) by (auto simp: cdist_def split: if_splits)
    from I(6) [OF m j this] stop nx(1) show False by simp
  qed
  then show ?thesis using I(1,2) by (auto simp: map_wf_def probe_chain_def)
qed

lemma shift_stay:
  assumes inv: "shift_inv map_mask es hole j" and e: "e < length es" "\<not> occ es e" "e \<noteq> hole"
    and occ: "occ es (map_next map_mask j)"
    and stays: "map_stays hole (map_next map_mask j) (home_of map_mask es (map_next map_mask j))"
  shows "shift_inv map_mask es hole (map_next map_mask j)"
proof -
  note I = shift_invD [OF inv]
  note nx = shift_next [OF inv e]
  let ?n = "length es" and ?j = "map_next map_mask j"
  have j: "?j < ?n" by (rule map_next_less [OF I(1,4)])
  have "occ es m \<and> \<not> cdist ?n (home_of map_mask es m) hole < cdist ?n (home_of map_mask es m) m"
    if "m < ?n" "m \<noteq> hole" "cdist ?n hole m \<le> cdist ?n hole ?j" for m
  proof (cases "m = ?j")
    case True
    then show ?thesis using occ stays map_stays_iff [OF I(3) j home_less [OF I(1)]] nx(1) by auto
  next
    case False
    then have "cdist ?n hole m \<noteq> cdist ?n hole ?j" using cdist_inj [OF I(3) that(1) j] by simp
    then have "cdist ?n hole m \<le> cdist ?n hole j" using that(3) nx(2) by linarith
    then show ?thesis using I(7,8) that by blast
  qed
  then show ?thesis using I(1-6) j unfolding shift_inv_def by blast
qed

lemma shift_move:
  assumes inv: "shift_inv map_mask es hole j" and e: "e < length es" "\<not> occ es e" "e \<noteq> hole"
    and occ: "occ es (map_next map_mask j)"
    and stays: "\<not> map_stays hole (map_next map_mask j) (home_of map_mask es (map_next map_mask j))"
  defines "es' \<equiv> es[hole := es ! map_next map_mask j, map_next map_mask j := map_entry_default]"
  shows "shift_inv map_mask es' (map_next map_mask j) (map_next map_mask j)" "\<not> occ es' e"
    "map_used es' = map_used es" "map_content es' = map_content es" "length es' = length es"
proof -
  note I = shift_invD [OF inv]
  note nx = shift_next [OF inv e]
  let ?n = "length es" and ?j = "map_next map_mask j"
  have j: "?j < ?n" by (rule map_next_less [OF I(1,4)])
  show len: "length es' = ?n" by (simp add: es'_def)
  have occ': "occ es' x \<longleftrightarrow> x = hole \<or> x \<noteq> ?j \<and> occ es x" for x
    using I(3) j occ nx(1) unfolding es'_def
    by (auto simp: occ_update map_entry_default_def) (auto simp: occ_def)
  have nth': "es' ! x = (if x = ?j then map_entry_default else if x = hole then es ! ?j else es ! x)" for x
    using I(3) j by (simp add: es'_def nth_list_update)
  show "\<not> occ es' e" using e by (simp add: occ')
  have "map_used (es[hole := es ! ?j]) = map_used es + 1"
    using map_used_update [OF I(3), of "es ! ?j"] I(5) occ occ_def [of es ?j] by simp
  moreover have "map_used es' + 1 = map_used (es[hole := es ! ?j])"
    using map_used_update [of ?j "es[hole := es ! ?j]" map_entry_default] j occ I(3) nx(1)
    by (simp add: es'_def occ_update map_entry_default_def)
  ultimately show "map_used es' = map_used es" by simp
  have src: "\<exists>y. occ es y \<and> es' ! x = es ! y \<and> (x = hole \<longrightarrow> y = ?j) \<and> (x \<noteq> hole \<longrightarrow> y = x \<and> x \<noteq> ?j)" if "occ es' x" for x
    using that occ nx(1) by (cases "x = hole") (auto simp: occ' nth')
  have ids': "ids_distinct es'"
    using I(2) src unfolding ids_distinct_def by metis
  then show "map_content es' = map_content es"
  proof (rule content_eqI)
    fix k n
    have "(\<exists>i. occ es i \<and> es ! i = \<lparr>me_order_id = k, me_node = n\<rparr>) \<longleftrightarrow> (\<exists>i. occ es' i \<and> es' ! i = \<lparr>me_order_id = k, me_node = n\<rparr>)"
    proof
      assume "\<exists>i. occ es i \<and> es ! i = \<lparr>me_order_id = k, me_node = n\<rparr>"
      then obtain i where "occ es i" "es ! i = \<lparr>me_order_id = k, me_node = n\<rparr>" by auto
      then have "occ es' (if i = ?j then hole else i)" "es' ! (if i = ?j then hole else i) = \<lparr>me_order_id = k, me_node = n\<rparr>"
        using I(5) nx(1) by (auto simp: occ' nth')
      then show "\<exists>i. occ es' i \<and> es' ! i = \<lparr>me_order_id = k, me_node = n\<rparr>" by blast
    qed (use src in metis)
    then show "map_content es k = Some n \<longleftrightarrow> (\<exists>i. occ es' i \<and> es' ! i = \<lparr>me_order_id = k, me_node = n\<rparr>)"
      using content_iff [OF I(2)] by simp
  qed
  have home': "home_of map_mask es' m = home_of map_mask es (if m = hole then ?j else m)" if "occ es' m" for m
    using that nx(1) by (auto simp: home_of_def occ' nth')
  have "occ es' x \<or> x = ?j" if "occ es' m" "x < ?n"
      "cdist ?n (home_of map_mask es' m) x < cdist ?n (home_of map_mask es' m) m" for m x
  proof (cases "m = hole")
    case True
    let ?g = "home_of map_mask es ?j"
    have g: "?g < ?n" by (rule home_less [OF I(1)])
    have "cdist ?n ?g hole < cdist ?n ?g ?j" using stays map_stays_iff [OF I(3) j g] nx(1) by auto
    then have "cdist ?n ?g x < cdist ?n ?g ?j" using that(3) home' [OF that(1)] True by simp
    from I(6) [OF occ that(2) this] show ?thesis by (auto simp: occ')
  next
    case False
    then have "occ es m" "home_of map_mask es' m = home_of map_mask es m" using that(1) home' [OF that(1)] by (auto simp: occ')
    then show ?thesis using I(6) [of m x] that(2,3) by (auto simp: occ')
  qed
  moreover have "\<not> occ es' ?j" using nx(1) by (simp add: occ')
  moreover have "\<not> (m < ?n \<and> m \<noteq> ?j \<and> cdist ?n ?j m \<le> cdist ?n ?j ?j)" for m
    using j by (auto simp: cdist_def split: if_splits)
  ultimately show "shift_inv map_mask es' ?j ?j"
    using I(1) ids' j unfolding shift_inv_def len mask_ok_length [OF len] by blast
qed

lemma map_shift_ok:
  assumes "shift_inv map_mask es hole j" "e < length es" "\<not> occ es e" "e \<noteq> hole"
  shows "\<exists>es'. map_shift map_mask es hole j = Some (Ok es') \<and> map_wf map_mask es' \<and> length es' = length es \<and>
     map_used es' = map_used es \<and> map_content es' = map_content es"
  using assms
proof (induction "cdist (length es) j e" arbitrary: es hole j rule: less_induct)
  case less
  note I = shift_invD [OF less.prems(1)] and nx = shift_next [OF less.prems]
  let ?j = "map_next map_mask j"
  have j: "?j < length es" by (rule map_next_less [OF I(1,4)])
  have closer: "cdist (length es) ?j e < cdist (length es) j e" by (rule cdist_to_next [OF I(1,4) less.prems(2) nx(3)])
  consider (stop) "\<not> occ es ?j" | (stay) "occ es ?j" "map_stays hole ?j (home_of map_mask es ?j)"
    | (move) "occ es ?j" "\<not> map_stays hole ?j (home_of map_mask es ?j)" by blast
  then show ?case
  proof cases
    case stop
    then have "map_shift map_mask es hole j = Some (Ok es)" using j by (subst map_shift.simps) (simp add: Let_def occ_def)
    then show ?thesis using shift_stop [OF less.prems stop] by simp
  next
    case stay
    then have "map_shift map_mask es hole j = map_shift map_mask es hole ?j"
      using j by (subst map_shift.simps) (simp add: Let_def occ_def home_of_def)
    then show ?thesis using less.hyps [OF closer shift_stay [OF less.prems stay] less.prems(2-4)] by simp
  next
    case move
    let ?es = "es[hole := es ! ?j, ?j := map_entry_default]"
    note mv = shift_move [OF less.prems move]
    have "map_shift map_mask es hole j = map_shift map_mask ?es ?j ?j"
      using j move by (subst map_shift.simps) (simp add: Let_def occ_def home_of_def)
    moreover have "e \<noteq> ?j" using move(1) less.prems(3) by auto
    ultimately show ?thesis
      using less.hyps [of ?es ?j ?j] closer mv less.prems(2) by simp
  qed
qed

lemma map_remove_ok:
  assumes wf: "map_wf map_mask es" and used: "map_used es < length es" and at: "occ es i"
  shows "\<exists>es'. map_remove_at es map_mask i = Ok es' \<and> map_wf map_mask es' \<and> length es' = length es \<and>
     map_used es' + 1 = map_used es \<and> map_content es' = (map_content es)(me_order_id (es ! i) := None)"
proof -
  have m: "mask_ok es map_mask" and ch: "probe_chain map_mask es" and ids: "ids_distinct es" using wf by (auto simp: map_wf_def)
  have i: "i < length es" using at by (rule occ_less)
  let ?es = "es[i := map_entry_default]"
  obtain e where e: "e < length es" "\<not> occ es e" using empty_entry_exists [OF used] by auto
  have occ': "occ ?es x \<longleftrightarrow> x \<noteq> i \<and> occ es x" for x using i by (simp add: occ_update map_entry_default_def)
  have ids': "ids_distinct ?es" using ids by (auto simp: ids_distinct_def occ')
  have none: "m = i" if "m < length es" "cdist (length es) i m \<le> cdist (length es) i i" for m
    using that i by (auto simp: cdist_def split: if_splits)
  have home': "m \<noteq> i \<Longrightarrow> home_of map_mask ?es m = home_of map_mask es m" for m by (simp add: home_of_def)
  have "shift_inv map_mask ?es i i"
    unfolding shift_inv_def
  proof (intro conjI allI impI)
    show "mask_ok ?es map_mask" "ids_distinct ?es" "i < length ?es" "i < length ?es" "\<not> occ ?es i"
      using m ids' i by (simp_all add: mask_ok_def occ')
    show "occ ?es x \<or> x = i" if "occ ?es a" "x < length ?es"
        "cdist (length ?es) (home_of map_mask ?es a) x < cdist (length ?es) (home_of map_mask ?es a) a" for a x
      using that ch home' unfolding occ' probe_chain_def by auto
  qed (use none in auto)
  from map_shift_ok [OF this, of e] e at obtain es' where es': "map_shift map_mask ?es i i = Some (Ok es')"
      "map_wf map_mask es'" "length es' = length es" "map_used es' = map_used ?es" "map_content es' = map_content ?es"
    by (auto simp: occ')
  have "map_content ?es = (map_content es)(me_order_id (es ! i) := None)"
  proof (rule content_eqI [OF ids'])
    fix k n
    have one: "x = i" if "occ es x" "me_order_id (es ! x) = me_order_id (es ! i)" for x
      using ids at that by (auto simp: ids_distinct_def)
    have "(\<exists>x. occ ?es x \<and> ?es ! x = \<lparr>me_order_id = k, me_node = n\<rparr>) \<longleftrightarrow>
        k \<noteq> me_order_id (es ! i) \<and> (\<exists>x. occ es x \<and> es ! x = \<lparr>me_order_id = k, me_node = n\<rparr>)"
    proof -
      have "occ ?es x \<and> ?es ! x = \<lparr>me_order_id = k, me_node = n\<rparr> \<longleftrightarrow>
          k \<noteq> me_order_id (es ! i) \<and> occ es x \<and> es ! x = \<lparr>me_order_id = k, me_node = n\<rparr>" for x
        using one [of x] by (cases "x = i") (auto simp: occ')
      then show ?thesis by blast
    qed
    then show "((map_content es)(me_order_id (es ! i) := None)) k = Some n \<longleftrightarrow>
        (\<exists>x. occ ?es x \<and> ?es ! x = \<lparr>me_order_id = k, me_node = n\<rparr>)"
      using content_iff [OF ids, of k n] by auto
  qed
  moreover have "map_used ?es + 1 = map_used es"
    using map_used_update [OF i, of map_entry_default] at by (simp add: map_entry_default_def)
  ultimately show ?thesis using es' i by (auto simp: map_remove_at_def)
qed

section \<open>The contract of the map\<close>

text \<open>What the book relies on: a lookup finds the position of an id exactly when it is mapped, and an
  insertion or a removal at a found position ends and changes the mapping at that id only.\<close>

locale id_table =
  fixes lookup :: "'t \<Rightarrow> nat \<Rightarrow> (book_error, nat option \<times> nat) outcome"
    and node_at :: "'t \<Rightarrow> nat \<Rightarrow> nat"
    and put :: "'t \<Rightarrow> nat \<Rightarrow> nat \<Rightarrow> (book_error, 't) outcome"
    and remove_at :: "'t \<Rightarrow> nat \<Rightarrow> (book_error, 't) outcome"
    and invar :: "'t \<Rightarrow> bool"
    and content :: "'t \<Rightarrow> nat \<Rightarrow> nat option"
    and used :: "'t \<Rightarrow> nat"
    and room :: "'t \<Rightarrow> nat"
  assumes lookup_ok: "invar t \<Longrightarrow> used t < room t \<Longrightarrow>
       \<exists>r p. lookup t k = Ok (r, p) \<and> map_option (node_at t) r = content t k"
    and put_ok: "invar t \<Longrightarrow> used t < room t \<Longrightarrow> content t k = None \<Longrightarrow> n \<noteq> NIL \<Longrightarrow>
       \<exists>t'. put t k n = Ok t' \<and> invar t' \<and> room t' = room t \<and> used t' = used t + 1 \<and> content t' = (content t)(k \<mapsto> n)"
    and remove_ok: "invar t \<Longrightarrow> used t < room t \<Longrightarrow> lookup t k = Ok (Some m, p) \<Longrightarrow>
       \<exists>t'. remove_at t m = Ok t' \<and> invar t' \<and> room t' = room t \<and> used t' + 1 = used t \<and> content t' = (content t)(k := None)"
    and used_dom: "invar t \<Longrightarrow> used t = card (dom (content t)) \<and> finite (dom (content t))"
begin

lemma lookup_cases:
  assumes "invar t" "used t < room t"
  obtains (absent) p where "lookup t k = Ok (None, p)" "content t k = None"
    | (found) m p where "lookup t k = Ok (Some m, p)" "content t k = Some (node_at t m)"
  using lookup_ok [OF assms, of k] by (metis map_option_is_None option.exhaust option.simps(9))

lemma room_for:
  assumes "invar t" "dom (content t) \<subseteq> K" "finite K" "card K < room t"
  shows "used t < room t"
  using used_dom [OF assms(1)] card_mono [OF assms(3,2)] assms(4) by linarith

end

lemma map_used_card:
  assumes "ids_distinct es"
  shows "map_used es = card (dom (map_content es)) \<and> finite (dom (map_content es))"
proof -
  let ?I = "{i. occ es i}"
  have fin: "finite ?I" by (rule finite_subset [of _ "{..< length es}"]) (auto simp: occ_def)
  have dom: "dom (map_content es) = (\<lambda>i. me_order_id (es ! i)) ` ?I"
    using content_None [OF assms] by (auto simp: dom_def)
  have "inj_on (\<lambda>i. me_order_id (es ! i)) ?I" using assms by (auto simp: inj_on_def ids_distinct_def)
  then have "card (dom (map_content es)) = card ?I" by (simp add: dom card_image)
  moreover have "map_used es = card ?I" by (simp add: map_used_def length_filter_conv_card occ_def)
  ultimately show ?thesis using fin by (simp add: dom)
qed

interpretation tbl: id_table "\<lambda>es. map_probe es map_mask" "\<lambda>es m. me_node (es ! m)"
    "\<lambda>es. map_insert es map_mask" "\<lambda>es. map_remove_at es map_mask" "map_wf map_mask" map_content map_used length
  for map_mask
proof unfold_locales
  fix t k
  assume wf: "map_wf map_mask t" "map_used t < length t"
  have ids: "ids_distinct t" using wf by (simp add: map_wf_def)
  from map_probe_ok [OF wf, of k] obtain r p where r: "map_probe t map_mask k = Ok (r, p)"
      "case r of Some m \<Rightarrow> occ t m \<and> me_order_id (t ! m) = k | None \<Rightarrow> \<forall>m. occ t m \<longrightarrow> me_order_id (t ! m) \<noteq> k"
    by blast
  have "map_option (\<lambda>m. me_node (t ! m)) r = map_content t k"
    using r(2) content_None [OF ids, of k] content_iff [OF ids, of k]
    by (auto split: option.splits) (metis map_entry.surjective old.unit.exhaust)
  with r(1) show "\<exists>r p. map_probe t map_mask k = Ok (r, p) \<and> map_option (\<lambda>m. me_node (t ! m)) r = map_content t k" by blast
next
  fix t k m p
  assume wf: "map_wf map_mask t" "map_used t < length t" and found: "map_probe t map_mask k = Ok (Some m, p)"
  then have "occ t m" "me_order_id (t ! m) = k" using map_probe_ok [OF wf, of k] by auto
  with map_remove_ok [OF wf, of m] show "\<exists>t'. map_remove_at t map_mask m = Ok t' \<and> map_wf map_mask t' \<and> length t' = length t \<and>
      map_used t' + 1 = map_used t \<and> map_content t' = (map_content t)(k := None)" by auto
qed (use map_insert_ok map_used_card in \<open>auto simp: map_wf_def\<close>)

lemma map_wf_empty: "map_wf (2 ^ b - 1) (replicate (2 ^ b) map_entry_default)"
  by (auto simp: map_wf_def mask_ok_def probe_chain_def ids_distinct_def occ_def map_entry_default_def)

lemma map_content_empty [simp]: "map_content (replicate n map_entry_default) = Map.empty"
  by (simp add: map_content_def map_entry_default_def)

lemma map_used_empty [simp]: "map_used (replicate n map_entry_default) = 0"
  by (simp add: map_used_def map_entry_default_def)

section \<open>Histories of the map\<close>

datatype table_op = TPut nat nat | TDel nat

fun table_step :: "nat \<Rightarrow> table_op \<Rightarrow> map_entry list \<Rightarrow> (book_error, map_entry list) outcome" where
  "table_step map_mask (TPut k n) es = obind (map_probe es map_mask k) (\<lambda>(r, _).
     case r of None \<Rightarrow> map_insert es map_mask k n | Some _ \<Rightarrow> Ok es)"
| "table_step map_mask (TDel k) es = obind (map_probe es map_mask k) (\<lambda>(r, _).
     case r of None \<Rightarrow> Ok es | Some m \<Rightarrow> map_remove_at es map_mask m)"

fun table_spec :: "table_op \<Rightarrow> (nat \<Rightarrow> nat option) \<Rightarrow> nat \<Rightarrow> nat option" where
  "table_spec (TPut k n) f = (if f k = None then f(k \<mapsto> n) else f)"
| "table_spec (TDel k) f = f(k := None)"

fun put_keys :: "table_op list \<Rightarrow> nat list" where
  "put_keys [] = []"
| "put_keys (TPut k n # xs) = k # put_keys xs"
| "put_keys (TDel k # xs) = put_keys xs"

fun puts_ok :: "table_op list \<Rightarrow> bool" where
  "puts_ok [] = True"
| "puts_ok (TPut k n # xs) = (n \<noteq> NIL \<and> puts_ok xs)"
| "puts_ok (TDel k # xs) = puts_ok xs"

lemma table_run:
  assumes "map_wf map_mask es" "dom (map_content es) \<union> set (put_keys xs) \<subseteq> K" "finite K" "card K < length es" "puts_ok xs"
  shows "\<exists>es'. ofold (table_step map_mask) xs es = Ok es' \<and> map_wf map_mask es' \<and> length es' = length es \<and>
     dom (map_content es') \<subseteq> K \<and> map_content es' = fold table_spec xs (map_content es)"
  using assms
proof (induction xs arbitrary: es)
  case (Cons x xs)
  have used: "map_used es < length es" using tbl.room_for [OF Cons.prems(1) _ Cons.prems(3,4)] Cons.prems(2) by blast
  have "\<exists>es1. table_step map_mask x es = Ok es1 \<and> map_wf map_mask es1 \<and> length es1 = length es \<and>
      map_content es1 = table_spec x (map_content es)"
  proof (cases x)
    case (TPut k n)
    show ?thesis
    proof (cases rule: tbl.lookup_cases [OF Cons.prems(1) used, of k])
      case (1 p)
      then show ?thesis using tbl.put_ok [OF Cons.prems(1) used 1(2), of n] TPut Cons.prems(5) by auto
    qed (use TPut Cons.prems(1) in simp)
  next
    case (TDel k)
    show ?thesis
    proof (cases rule: tbl.lookup_cases [OF Cons.prems(1) used, of k])
      case (1 p)
      then show ?thesis using TDel Cons.prems(1) by (simp add: fun_upd_idem)
    next
      case (2 m p)
      then show ?thesis using tbl.remove_ok [OF Cons.prems(1) used 2(1)] TDel by auto
    qed
  qed
  then obtain es1 where es1: "table_step map_mask x es = Ok es1" "map_wf map_mask es1" "length es1 = length es"
      "map_content es1 = table_spec x (map_content es)" by blast
  have "dom (map_content es1) \<union> set (put_keys xs) \<subseteq> K" using Cons.prems(2) es1(4) by (cases x) (auto split: if_splits)
  moreover have "puts_ok xs" using Cons.prems(5) by (cases x) auto
  ultimately show ?case using Cons.IH [OF es1(2)] Cons.prems(3,4) es1 by auto
qed (use assms in auto)

section \<open>Properties\<close>

text \<open>C7: the probing loops of the order-id map end and the array is a finite map. On a table of
  \<open>2 ^ b\<close> slots, any sequence of insertions of absent ids and deletions of present ones, over fewer
  than \<open>2 ^ b\<close> distinct ids, runs to its end: no probe loop spins and no index is out of range. After
  it a lookup finds exactly the ids the finite map has, each with its node, whatever the collisions
  and backward shifts were.\<close>

theorem order_id_map_terminates_and_maps:
  assumes "puts_ok ops" "card (set (put_keys ops)) < 2 ^ b"
  shows "\<exists>es. ofold (table_step (2 ^ b - 1)) ops (replicate (2 ^ b) map_entry_default) = Ok es \<and>
     (\<forall>k. \<exists>r p. map_probe es (2 ^ b - 1) k = Ok (r, p) \<and>
        map_option (\<lambda>m. me_node (es ! m)) r = fold table_spec ops Map.empty k)"
proof -
  let ?K = "set (put_keys ops)" and ?e = "replicate (2 ^ b) map_entry_default"
  obtain es where es: "ofold (table_step (2 ^ b - 1)) ops ?e = Ok es" "map_wf (2 ^ b - 1) es" "length es = 2 ^ b"
      "dom (map_content es) \<subseteq> ?K" "map_content es = fold table_spec ops Map.empty"
    using table_run [OF map_wf_empty, of b ops ?K] assms by auto
  have "map_used es < length es" using tbl.room_for [OF es(2,4)] es(3) assms(2) by simp
  then show ?thesis using tbl.lookup_ok [OF es(2)] es(1,5) by auto
qed

definition sample_table_ops :: "table_op list" where
  "sample_table_ops = [TPut 7 0, TPut 9 1, TPut 12 2, TDel 9, TPut 30 3, TDel 7]"

theorem order_id_map_terminates_and_maps_witness:
  "\<exists>es. ofold (table_step (2 ^ 3 - 1)) sample_table_ops (replicate (2 ^ 3) map_entry_default) = Ok es \<and>
     (\<forall>k. \<exists>r p. map_probe es (2 ^ 3 - 1) k = Ok (r, p) \<and>
        map_option (\<lambda>m. me_node (es ! m)) r = fold table_spec sample_table_ops Map.empty k)"
  by (rule order_id_map_terminates_and_maps) (simp_all add: sample_table_ops_def)

end
