(* ===== verification/Mbo.thy ===== *)
theory Mbo
  imports Tick MboMap
begin

text \<open>
  The fast book of \<open>crates/book/src/mbo.rs\<close>: price levels in a dense array over a sliding window
  (\<open>Tick\<close>), orders in a slab whose unused nodes form a free list, an intrusive doubly linked queue
  per level, and the open-addressed id map (\<open>MboMap\<close>). State and operations as the source has them:
  a method that takes \<open>&mut self\<close> is a \<open>mut_method\<close>; a node or level index out of range and a
  loop that never ends are \<open>Panic\<close>. The \<open>bids\<close> and \<open>asks\<close> arrays are created with one cell per slot of
  the window and never resized, so the scans over \<open>0..capacity\<close> read them in range (\<open>mbo_shape\<close>).
\<close>

section \<open>State\<close>

record node =
  nd_order_id :: nat
  nd_price :: int
  nd_quantity :: nat
  nd_side :: side
  nd_slot :: nat
  nd_next :: nat
  nd_prev :: nat

definition node_default :: node where
  "node_default = \<lparr>nd_order_id = 0, nd_price = 0, nd_quantity = 0, nd_side = Bid, nd_slot = NIL, nd_next = NIL, nd_prev = NIL\<rparr>"

record level_cell =
  lc_quantity :: nat
  lc_orders :: nat
  lc_head :: nat
  lc_tail :: nat

definition cell_default :: level_cell where
  "cell_default = \<lparr>lc_quantity = 0, lc_orders = 0, lc_head = NIL, lc_tail = NIL\<rparr>"

definition cell_empty :: "level_cell \<Rightarrow> bool" where
  "cell_empty c \<longleftrightarrow> lc_orders c = 0"

record mbo_capacity =
  mc_levels :: nat
  mc_orders :: nat
  mc_reference_price :: int
  mc_tick :: int

definition mbo_capacity_new :: "int \<Rightarrow> int \<Rightarrow> mbo_capacity" where
  "mbo_capacity_new reference_price tick =
     \<lparr>mc_levels = 4096, mc_orders = 2 ^ 16, mc_reference_price = reference_price, mc_tick = tick\<rparr>"

record mbo_stats =
  ms_rebases :: nat
  ms_extra_probes :: nat
  ms_lookups :: nat
  ms_peak_orders :: nat

record mbo =
  mb_index :: tick_index
  mb_bids :: "level_cell list"
  mb_asks :: "level_cell list"
  mb_nodes :: "node list"
  mb_free_head :: nat
  mb_map :: "map_entry list"
  mb_map_mask :: nat
  mb_live :: nat
  mb_best_bid :: "nat option"
  mb_best_ask :: "nat option"
  mb_bid_levels :: nat
  mb_ask_levels :: nat
  mb_stats :: mbo_stats

text \<open>\<open>usize::next_power_of_two\<close>; in the release profile it is 0 when the power does not fit.\<close>

function power_at_least :: "nat \<Rightarrow> nat \<Rightarrow> nat" where
  "power_at_least n p = (if p = 0 \<or> n \<le> p then p else power_at_least n (2 * p))"
  by pat_completeness auto
termination by (relation "measure (\<lambda>(n, p). n - p)") auto

declare power_at_least.simps [simp del]

definition next_power_of_two :: "nat \<Rightarrow> nat" where
  "next_power_of_two n = (let p = power_at_least n 1 in if p < 2 ^ 64 then p else 0)"

text \<open>The free list, threaded through every node front to back.\<close>

definition fresh_nodes :: "nat \<Rightarrow> node list" where
  "fresh_nodes n = map (\<lambda>i. node_default\<lparr>nd_next := (if i + 1 < n then (i + 1) mod 2 ^ 32 else NIL)\<rparr>) [0..<n]"

definition mbo_new :: "mbo_capacity \<Rightarrow> mbo" where
  "mbo_new cap =
     (let levels = max (mc_levels cap) 4; orders = max (mc_orders cap) 4;
          map_len = next_power_of_two ((orders * 4) mod 2 ^ 64)
      in \<lparr>mb_index = centred_on (mc_reference_price cap) (mc_tick cap) levels,
          mb_bids = replicate levels cell_default, mb_asks = replicate levels cell_default,
          mb_nodes = fresh_nodes orders, mb_free_head = 0,
          mb_map = replicate map_len map_entry_default, mb_map_mask = wrap_sub_u64 map_len 1, mb_live = 0,
          mb_best_bid = None, mb_best_ask = None, mb_bid_levels = 0, mb_ask_levels = 0,
          mb_stats = \<lparr>ms_rebases = 0, ms_extra_probes = 0, ms_lookups = 0, ms_peak_orders = 0\<rparr>\<rparr>)"

definition mbo_clear :: "mbo \<Rightarrow> mbo" where
  "mbo_clear b = b\<lparr>mb_bids := map (\<lambda>_. cell_default) (mb_bids b), mb_asks := map (\<lambda>_. cell_default) (mb_asks b),
     mb_nodes := fresh_nodes (length (mb_nodes b)), mb_map := map (\<lambda>_. map_entry_default) (mb_map b),
     mb_free_head := 0, mb_live := 0, mb_best_bid := None, mb_best_ask := None, mb_bid_levels := 0, mb_ask_levels := 0\<rparr>"

section \<open>Cells, nodes and counters\<close>

type_synonym 'a mbo_method = "(mbo, book_error, 'a) mut_method"

fun side_cells :: "side \<Rightarrow> mbo \<Rightarrow> level_cell list" where
  "side_cells Bid b = mb_bids b"
| "side_cells Ask b = mb_asks b"

fun set_side_cells :: "side \<Rightarrow> level_cell list \<Rightarrow> mbo \<Rightarrow> mbo" where
  "set_side_cells Bid cs b = b\<lparr>mb_bids := cs\<rparr>"
| "set_side_cells Ask cs b = b\<lparr>mb_asks := cs\<rparr>"

definition read_cell :: "side \<Rightarrow> nat \<Rightarrow> level_cell mbo_method" where
  "read_cell s i b = (b, if i < length (side_cells s b) then Ok (side_cells s b ! i) else Panic)"

definition modify_cell :: "side \<Rightarrow> nat \<Rightarrow> (level_cell \<Rightarrow> level_cell) \<Rightarrow> unit mbo_method" where
  "modify_cell s i f b = (if i < length (side_cells s b)
     then (set_side_cells s ((side_cells s b)[i := f (side_cells s b ! i)]) b, Ok ()) else (b, Panic))"

definition read_node :: "nat \<Rightarrow> node mbo_method" where
  "read_node n b = (b, if n < length (mb_nodes b) then Ok (mb_nodes b ! n) else Panic)"

definition modify_node :: "nat \<Rightarrow> (node \<Rightarrow> node) \<Rightarrow> unit mbo_method" where
  "modify_node n f b = (if n < length (mb_nodes b)
     then (b\<lparr>mb_nodes := (mb_nodes b)[n := f (mb_nodes b ! n)]\<rparr>, Ok ()) else (b, Panic))"

definition wrap_inc_u32 :: "nat \<Rightarrow> nat" where
  "wrap_inc_u32 n = (n + 1) mod 2 ^ 32"

definition wrap_dec_u32 :: "nat \<Rightarrow> nat" where
  "wrap_dec_u32 n = (n + (2 ^ 32 - 1)) mod 2 ^ 32"

fun level_opened :: "side \<Rightarrow> mbo \<Rightarrow> mbo" where
  "level_opened Bid b = b\<lparr>mb_bid_levels := wrap_inc_u32 (mb_bid_levels b)\<rparr>"
| "level_opened Ask b = b\<lparr>mb_ask_levels := wrap_inc_u32 (mb_ask_levels b)\<rparr>"

fun level_closed :: "side \<Rightarrow> mbo \<Rightarrow> mbo" where
  "level_closed Bid b = b\<lparr>mb_bid_levels := wrap_dec_u32 (mb_bid_levels b)\<rparr>"
| "level_closed Ask b = b\<lparr>mb_ask_levels := wrap_dec_u32 (mb_ask_levels b)\<rparr>"

fun side_levels :: "side \<Rightarrow> mbo \<Rightarrow> nat" where
  "side_levels Bid b = mb_bid_levels b"
| "side_levels Ask b = mb_ask_levels b"

fun best_slot :: "side \<Rightarrow> mbo \<Rightarrow> nat option" where
  "best_slot Bid b = mb_best_bid b"
| "best_slot Ask b = mb_best_ask b"

definition map_find :: "nat \<Rightarrow> nat option mbo_method" where
  "map_find order_id b =
     (case map_probe (mb_map b) (mb_map_mask b) order_id of
        Ok (r, probes) \<Rightarrow>
          (b\<lparr>mb_stats := (mb_stats b)\<lparr>ms_lookups := wrap_add_u64 (ms_lookups (mb_stats b)) 1,
                ms_extra_probes := wrap_add_u64 (ms_extra_probes (mb_stats b)) probes\<rparr>\<rparr>, Ok r)
      | _ \<Rightarrow> (b, Panic))"

definition put_id :: "nat \<Rightarrow> nat \<Rightarrow> unit mbo_method" where
  "put_id order_id n b = (case map_insert (mb_map b) (mb_map_mask b) order_id n of
     Ok es \<Rightarrow> (b\<lparr>mb_map := es\<rparr>, Ok ()) | _ \<Rightarrow> (b, Panic))"

definition remove_id_at :: "nat \<Rightarrow> unit mbo_method" where
  "remove_id_at i b = (case map_remove_at (mb_map b) (mb_map_mask b) i of
     Ok es \<Rightarrow> (b\<lparr>mb_map := es\<rparr>, Ok ()) | _ \<Rightarrow> (b, Panic))"

definition map_node_at :: "nat \<Rightarrow> nat mbo_method" where
  "map_node_at i b = (b, if i < length (mb_map b) then Ok (me_node (mb_map b ! i)) else Panic)"

section \<open>The price window\<close>

definition mbo_slot_of :: "mbo \<Rightarrow> int \<Rightarrow> nat option" where
  "mbo_slot_of b price = (case ti_slot (mb_index b) price of At i \<Rightarrow> Some i | _ \<Rightarrow> None)"

definition occupied_extent :: "mbo \<Rightarrow> nat option \<times> nat option" where
  "occupied_extent b =
     (let cap = ti_capacity (mb_index b);
          occupied = (\<lambda>i. \<not> cell_empty (mb_bids b ! i) \<or> \<not> cell_empty (mb_asks b ! i))
      in (find occupied [0..<cap], find occupied (rev [0..<cap])))"

text \<open>The in-place moves of \<open>rebase\<close>, front to back for a positive shift and back to front for a
  negative one.\<close>

definition shift_cells :: "nat \<Rightarrow> int \<Rightarrow> level_cell list \<Rightarrow> level_cell list" where
  "shift_cells cap shift cells =
     (if shift > 0 then
        fold (\<lambda>i cs. cs[i := (if i + nat shift < cap then cs ! (i + nat shift) else cell_default)]) [0..<cap] cells
      else if shift < 0 then
        fold (\<lambda>i cs. cs[i := (if i \<ge> nat (- shift) then cs ! (i - nat (- shift)) else cell_default)]) (rev [0..<cap]) cells
      else cells)"

definition shift_node :: "int \<Rightarrow> node \<Rightarrow> node" where
  "shift_node shift n = (if nd_slot n \<noteq> NIL then n\<lparr>nd_slot := nat (wrap_i64 (int (nd_slot n) - shift) mod 2 ^ 32)\<rparr> else n)"

definition shift_best :: "int \<Rightarrow> nat \<Rightarrow> nat" where
  "shift_best shift i = nat (wrap_i64 (wrap_i64 (int i) - shift) mod 2 ^ 64)"

definition rebase :: "nat \<Rightarrow> int \<Rightarrow> unit mbo_method" where
  "rebase order_id price b =
     (let keep = (case occupied_extent b of
            (Some l, Some h) \<Rightarrow> Some (price_at (mb_index b) l, price_at (mb_index b) h) | _ \<Rightarrow> None)
      in case rebase_for (mb_index b) price keep of
           None \<Rightarrow> (b, Err (PriceOutOfRange order_id price))
         | Some (moved, shift) \<Rightarrow>
             let cap = ti_capacity (mb_index b);
                 b1 = b\<lparr>mb_bids := shift_cells cap shift (mb_bids b), mb_asks := shift_cells cap shift (mb_asks b)\<rparr>;
                 b2 = (if shift \<noteq> 0 then b1\<lparr>mb_nodes := map (shift_node shift) (mb_nodes b1),
                         mb_best_bid := map_option (shift_best shift) (mb_best_bid b1),
                         mb_best_ask := map_option (shift_best shift) (mb_best_ask b1)\<rparr> else b1)
             in (b2\<lparr>mb_index := moved, mb_stats := (mb_stats b2)\<lparr>ms_rebases := wrap_add_u64 (ms_rebases (mb_stats b2)) 1\<rparr>\<rparr>, Ok ()))"

definition slot_for :: "nat \<Rightarrow> int \<Rightarrow> nat mbo_method" where
  "slot_for order_id price b =
     (case ti_slot (mb_index b) price of
        At i \<Rightarrow> (b, Ok i)
      | OffGrid \<Rightarrow> (b, Err (PriceOffGrid order_id price))
      | Outside \<Rightarrow> sbind (rebase order_id price) (\<lambda>_ b'.
          case ti_slot (mb_index b') price of At i \<Rightarrow> (b', Ok i) | _ \<Rightarrow> (b', Err (PriceOutOfRange order_id price))) b)"

fun note_occupied :: "side \<Rightarrow> nat \<Rightarrow> mbo \<Rightarrow> mbo" where
  "note_occupied Bid slot b =
     (if (case mb_best_bid b of None \<Rightarrow> True | Some x \<Rightarrow> slot > x) then b\<lparr>mb_best_bid := Some slot\<rparr> else b)"
| "note_occupied Ask slot b =
     (if (case mb_best_ask b of None \<Rightarrow> True | Some x \<Rightarrow> slot < x) then b\<lparr>mb_best_ask := Some slot\<rparr> else b)"

fun rescan_best :: "side \<Rightarrow> mbo \<Rightarrow> mbo" where
  "rescan_best Bid b =
     (let start = (case mb_best_bid b of None \<Rightarrow> ti_capacity (mb_index b) - 1 | Some x \<Rightarrow> x)
      in b\<lparr>mb_best_bid := find (\<lambda>i. \<not> cell_empty (mb_bids b ! i)) (rev [0..<start + 1])\<rparr>)"
| "rescan_best Ask b =
     (let start = (case mb_best_ask b of None \<Rightarrow> 0 | Some x \<Rightarrow> x)
      in b\<lparr>mb_best_ask := find (\<lambda>i. \<not> cell_empty (mb_asks b ! i)) [start..<ti_capacity (mb_index b)]\<rparr>)"

section \<open>Level queues and the slab\<close>

definition link_back :: "side \<Rightarrow> nat \<Rightarrow> nat \<Rightarrow> unit mbo_method" where
  "link_back side slot n =
     sbind (read_cell side slot) (\<lambda>c.
       let tail = lc_tail c in
       if tail = NIL then
         sbind (modify_cell side slot (\<lambda>c. c\<lparr>lc_head := n, lc_tail := n\<rparr>)) (\<lambda>_.
           modify_node n (\<lambda>x. x\<lparr>nd_prev := NIL, nd_next := NIL\<rparr>))
       else
         sbind (modify_cell side slot (\<lambda>c. c\<lparr>lc_tail := n\<rparr>)) (\<lambda>_.
         sbind (modify_node tail (\<lambda>x. x\<lparr>nd_next := n\<rparr>)) (\<lambda>_.
           modify_node n (\<lambda>x. x\<lparr>nd_prev := tail, nd_next := NIL\<rparr>))))"

definition unlink :: "side \<Rightarrow> nat \<Rightarrow> nat \<Rightarrow> unit mbo_method" where
  "unlink side slot n =
     sbind (read_node n) (\<lambda>x.
     let prev = nd_prev x; next = nd_next x in
     sbind (if prev \<noteq> NIL then modify_node prev (\<lambda>y. y\<lparr>nd_next := next\<rparr>) else sreturn ()) (\<lambda>_.
     sbind (if next \<noteq> NIL then modify_node next (\<lambda>y. y\<lparr>nd_prev := prev\<rparr>) else sreturn ()) (\<lambda>_.
     sbind (modify_cell side slot (\<lambda>c. if lc_head c = n then c\<lparr>lc_head := next\<rparr> else c)) (\<lambda>_.
     sbind (modify_cell side slot (\<lambda>c. if lc_tail c = n then c\<lparr>lc_tail := prev\<rparr> else c)) (\<lambda>_.
       modify_node n (\<lambda>y. y\<lparr>nd_prev := NIL, nd_next := NIL\<rparr>))))))"

definition take_node :: "nat \<Rightarrow> nat mbo_method" where
  "take_node order_id b =
     (if mb_free_head b = NIL then (b, Err (SlabFull order_id (length (mb_nodes b))))
      else let n = mb_free_head b in
        sbind (read_node n) (\<lambda>x. sbind (supdate (\<lambda>b. b\<lparr>mb_free_head := nd_next x\<rparr>)) (\<lambda>_. sreturn n)) b)"

definition give_node :: "nat \<Rightarrow> unit mbo_method" where
  "give_node n b =
     sbind (modify_node n (\<lambda>_. node_default\<lparr>nd_next := mb_free_head b\<rparr>)) (\<lambda>_. supdate (\<lambda>b. b\<lparr>mb_free_head := n\<rparr>)) b"

definition take_from_level :: "side \<Rightarrow> nat \<Rightarrow> nat \<Rightarrow> unit mbo_method" where
  "take_from_level side slot quantity = modify_cell side slot
     (\<lambda>c. c\<lparr>lc_quantity := wrap_sub_u64 (lc_quantity c) quantity, lc_orders := wrap_dec_u32 (lc_orders c)\<rparr>)"

definition put_on_level :: "side \<Rightarrow> nat \<Rightarrow> nat \<Rightarrow> unit mbo_method" where
  "put_on_level side slot quantity = modify_cell side slot
     (\<lambda>c. c\<lparr>lc_quantity := wrap_add_u64 (lc_quantity c) quantity, lc_orders := wrap_inc_u32 (lc_orders c)\<rparr>)"

section \<open>Operations\<close>

definition mbo_add :: "mbo \<Rightarrow> nat \<Rightarrow> side \<Rightarrow> int \<Rightarrow> nat \<Rightarrow> mbo \<times> (book_error, unit) outcome" where
  "mbo_add b order_id side price quantity =
     (if quantity = 0 then (b, Err (ZeroQuantity order_id))
      else sbind (map_find order_id) (\<lambda>found.
        if found \<noteq> None then sfail (DuplicateOrderId order_id)
        else sbind (slot_for order_id price) (\<lambda>slot.
        sbind (take_node order_id) (\<lambda>n.
        sbind (modify_node n (\<lambda>_. \<lparr>nd_order_id = order_id, nd_price = price, nd_quantity = quantity, nd_side = side,
            nd_slot = slot mod 2 ^ 32, nd_next = NIL, nd_prev = NIL\<rparr>)) (\<lambda>_.
        sbind (read_cell side slot) (\<lambda>c.
        let was_empty = cell_empty c in
        sbind (link_back side slot n) (\<lambda>_.
        sbind (put_on_level side slot quantity) (\<lambda>_.
        sbind (supdate (if was_empty then level_opened side else (\<lambda>b. b))) (\<lambda>_.
        sbind (put_id order_id n) (\<lambda>_.
        supdate (\<lambda>b. let live = wrap_add_u64 (mb_live b) 1 in
          note_occupied side slot (b\<lparr>mb_live := live,
            mb_stats := (mb_stats b)\<lparr>ms_peak_orders := max (ms_peak_orders (mb_stats b)) live\<rparr>\<rparr>))))))))))) b)"

definition order_of :: "node \<Rightarrow> resting_order" where
  "order_of n = \<lparr>ro_order_id = nd_order_id n, ro_price = nd_price n, ro_quantity = nd_quantity n, ro_side = nd_side n\<rparr>"

definition close_level :: "side \<Rightarrow> nat \<Rightarrow> mbo \<Rightarrow> mbo" where
  "close_level side slot b = (if best_slot side b = Some slot then rescan_best side b else b)"

definition mbo_delete :: "mbo \<Rightarrow> nat \<Rightarrow> mbo \<times> (book_error, resting_order) outcome" where
  "mbo_delete b order_id =
     sbind (map_find order_id) (\<lambda>found.
       case found of
         None \<Rightarrow> sfail (UnknownOrderId order_id)
       | Some map_i \<Rightarrow>
           sbind (map_node_at map_i) (\<lambda>n.
           sbind (read_node n) (\<lambda>x.
           let slot = nd_slot x in
           sbind (unlink (nd_side x) slot n) (\<lambda>_.
           sbind (take_from_level (nd_side x) slot (nd_quantity x)) (\<lambda>_.
           sbind (read_cell (nd_side x) slot) (\<lambda>c.
           let emptied = cell_empty c in
           sbind (remove_id_at map_i) (\<lambda>_.
           sbind (give_node n) (\<lambda>_.
           sbind (supdate (\<lambda>b. b\<lparr>mb_live := wrap_sub_u64 (mb_live b) 1\<rparr>)) (\<lambda>_.
           sbind (supdate (\<lambda>b. if emptied then close_level (nd_side x) slot (level_closed (nd_side x) b) else b)) (\<lambda>_.
             sreturn (order_of x))))))))))) b"

definition mbo_reduce :: "mbo \<Rightarrow> nat \<Rightarrow> nat \<Rightarrow> mbo \<times> (book_error, unit) outcome" where
  "mbo_reduce b order_id new_quantity =
     (if new_quantity = 0 then (b, Err (ZeroQuantity order_id))
      else sbind (map_find order_id) (\<lambda>found.
        case found of
          None \<Rightarrow> sfail (UnknownOrderId order_id)
        | Some map_i \<Rightarrow>
            sbind (map_node_at map_i) (\<lambda>n.
            sbind (read_node n) (\<lambda>x.
            if new_quantity > nd_quantity x then sfail (ReduceWouldIncrease order_id (nd_quantity x) new_quantity)
            else sbind (modify_node n (\<lambda>y. y\<lparr>nd_quantity := new_quantity\<rparr>)) (\<lambda>_.
              modify_cell (nd_side x) (nd_slot x)
                (\<lambda>c. c\<lparr>lc_quantity := wrap_sub_u64 (lc_quantity c) (nd_quantity x - new_quantity)\<rparr>))))) b)"

definition mbo_replace :: "mbo \<Rightarrow> nat \<Rightarrow> int \<Rightarrow> nat \<Rightarrow> mbo \<times> (book_error, unit) outcome" where
  "mbo_replace b order_id new_price new_quantity =
     (if new_quantity = 0 then (b, Err (ZeroQuantity order_id))
      else sbind (map_find order_id) (\<lambda>found.
        case found of
          None \<Rightarrow> sfail (UnknownOrderId order_id)
        | Some map_i \<Rightarrow>
            sbind (map_node_at map_i) (\<lambda>n.
            sbind (read_node n) (\<lambda>x.
            sbind (slot_for order_id new_price) (\<lambda>new_slot.
            sbind (read_node n) (\<lambda>x'.
            let old_slot = nd_slot x' in
            sbind (unlink (nd_side x) old_slot n) (\<lambda>_.
            sbind (take_from_level (nd_side x) old_slot (nd_quantity x)) (\<lambda>_.
            sbind (read_cell (nd_side x) old_slot) (\<lambda>c.
            let emptied = cell_empty c in
            sbind (supdate (if emptied then level_closed (nd_side x) else (\<lambda>b. b))) (\<lambda>_.
            sbind (read_cell (nd_side x) new_slot) (\<lambda>c'.
            let filled = cell_empty c' in
            sbind (modify_node n (\<lambda>y. y\<lparr>nd_price := new_price, nd_quantity := new_quantity, nd_slot := new_slot mod 2 ^ 32\<rparr>)) (\<lambda>_.
            sbind (link_back (nd_side x) new_slot n) (\<lambda>_.
            sbind (put_on_level (nd_side x) new_slot new_quantity) (\<lambda>_.
            sbind (supdate (if filled then level_opened (nd_side x) else (\<lambda>b. b))) (\<lambda>_.
            supdate (\<lambda>b. let b' = note_occupied (nd_side x) new_slot b in
              if emptied then close_level (nd_side x) old_slot b' else b'))))))))))))))) b)"

section \<open>Reading the book\<close>

fun get_loop :: "mbo \<Rightarrow> nat \<Rightarrow> nat \<Rightarrow> nat \<Rightarrow> (book_error, resting_order option) outcome" where
  "get_loop b order_id 0 i = Ok None"
| "get_loop b order_id (Suc k) i =
     (if length (mb_map b) \<le> i then Panic
      else let e = mb_map b ! i in
        if me_node e = NIL then Ok None
        else if me_order_id e = order_id
        then (if me_node e < length (mb_nodes b) then Ok (Some (order_of (mb_nodes b ! me_node e))) else Panic)
        else get_loop b order_id k (map_next (mb_map_mask b) i))"

definition mbo_get :: "mbo \<Rightarrow> nat \<Rightarrow> (book_error, resting_order option) outcome" where
  "mbo_get b order_id = get_loop b order_id (length (mb_map b) + 1) (mbo_hash (mb_map_mask b) order_id)"

definition mbo_front :: "mbo \<Rightarrow> side \<Rightarrow> (book_error, (int \<times> nat) option) outcome" where
  "mbo_front b side =
     (case best_slot side b of
        None \<Rightarrow> Ok None
      | Some slot \<Rightarrow>
          if length (side_cells side b) \<le> slot then Panic
          else let cell = side_cells side b ! slot in
            if lc_head cell = NIL then Ok None
            else if length (mb_nodes b) \<le> lc_head cell then Panic
            else Ok (Some (price_at (mb_index b) slot, nd_order_id (mb_nodes b ! lc_head cell))))"

definition mbo_level_count :: "mbo \<Rightarrow> side \<Rightarrow> nat \<Rightarrow> nat" where
  "mbo_level_count b side depth = (let n = side_levels side b in if depth = 0 then n else min n depth)"

fun level_slots :: "mbo \<Rightarrow> side \<Rightarrow> nat list" where
  "level_slots b Bid = (case mb_best_bid b of None \<Rightarrow> [] | Some start \<Rightarrow> rev [0..<min start (ti_capacity (mb_index b) - 1) + 1])"
| "level_slots b Ask = (case mb_best_ask b of None \<Rightarrow> []
     | Some start \<Rightarrow> [start..<min (ti_capacity (mb_index b)) (length (mb_asks b))])"

definition mbo_for_each_level :: "mbo \<Rightarrow> side \<Rightarrow> nat \<Rightarrow> level list" where
  "mbo_for_each_level b side depth =
     (let cells = side_cells side b;
          ls = map (\<lambda>i. \<lparr>lv_price = price_at (mb_index b) i, lv_quantity = lc_quantity (cells ! i), lv_order_count = lc_orders (cells ! i)\<rparr>)
                 (filter (\<lambda>i. \<not> cell_empty (cells ! i)) (level_slots b side))
      in if depth = 0 then ls else take depth ls)"

definition mbo_best_bid :: "mbo \<Rightarrow> level option" where
  "mbo_best_bid b = (case mbo_for_each_level b Bid 1 of [] \<Rightarrow> None | l # _ \<Rightarrow> Some l)"

definition mbo_best_ask :: "mbo \<Rightarrow> level option" where
  "mbo_best_ask b = (case mbo_for_each_level b Ask 1 of [] \<Rightarrow> None | l # _ \<Rightarrow> Some l)"

partial_function (option) walk_queue :: "node list \<Rightarrow> nat \<Rightarrow> (book_error, resting_order list) outcome option" where
  "walk_queue ns n =
     (if n = NIL then Some (Ok [])
      else if length ns \<le> n then Some Panic
      else Option.bind (walk_queue ns (nd_next (ns ! n))) (\<lambda>r. Some (obind r (\<lambda>xs. Ok (order_of (ns ! n) # xs)))))"

declare walk_queue.simps [code]

fun walk_slots :: "level_cell list \<Rightarrow> node list \<Rightarrow> nat list \<Rightarrow> (book_error, resting_order list) outcome" where
  "walk_slots cells ns [] = Ok []"
| "walk_slots cells ns (i # is) =
     (if length cells \<le> i then Panic
      else case walk_queue ns (lc_head (cells ! i)) of
          None \<Rightarrow> Panic
        | Some r \<Rightarrow> obind r (\<lambda>xs. obind (walk_slots cells ns is) (\<lambda>ys. Ok (xs @ ys))))"

fun order_slots :: "mbo \<Rightarrow> side \<Rightarrow> nat list" where
  "order_slots b Bid = (case mb_best_bid b of None \<Rightarrow> [] | Some start \<Rightarrow> rev [0..<min start (ti_capacity (mb_index b) - 1) + 1])"
| "order_slots b Ask = (case mb_best_ask b of None \<Rightarrow> [] | Some start \<Rightarrow> start # [start + 1..<ti_capacity (mb_index b)])"

definition mbo_for_each_order :: "mbo \<Rightarrow> side \<Rightarrow> (book_error, resting_order list) outcome" where
  "mbo_for_each_order b side = walk_slots (side_cells side b) (mb_nodes b) (order_slots b side)"

text \<open>\<open>check_invariants\<close>: the walk of one level carries the count, the quantity and the previous node,
  and gives up when the count passes the slab, so it ends on a cyclic list too. The result is whether
  the method returns \<open>Ok\<close>.\<close>

function check_level :: "mbo \<Rightarrow> side \<Rightarrow> nat \<Rightarrow> nat \<Rightarrow> nat \<Rightarrow> nat \<Rightarrow> nat \<Rightarrow> (nat \<times> nat \<times> nat) option" where
  "check_level b side i n in_level qty prev =
     (if n = NIL then Some (in_level, qty, prev)
      else if length (mb_nodes b) \<le> n then None
      else let x = mb_nodes b ! n in
        if nd_slot x \<noteq> i \<or> nd_side x \<noteq> side \<or> nd_prev x \<noteq> prev \<or> nd_quantity x = 0 then None
        else (case mbo_get b (nd_order_id x) of
            Ok (Some _) \<Rightarrow>
              if in_level + 1 > length (mb_nodes b) then None
              else check_level b side i (nd_next x) (in_level + 1) (wrap_add_u64 qty (nd_quantity x)) n
          | _ \<Rightarrow> None))"
  by pat_completeness auto
termination by (relation "measure (\<lambda>(b, _, _, _, in_level, _, _). length (mb_nodes b) - in_level)") auto

declare check_level.simps [simp del]

definition check_cell :: "mbo \<Rightarrow> side \<Rightarrow> nat \<Rightarrow> bool" where
  "check_cell b side i = (let cell = side_cells side b ! i in
     case check_level b side i (lc_head cell) 0 0 NIL of
       None \<Rightarrow> False
     | Some (in_level, qty, prev) \<Rightarrow> lc_tail cell = prev \<and> in_level = lc_orders cell \<and> qty = lc_quantity cell)"

definition check_side :: "mbo \<Rightarrow> side \<Rightarrow> bool" where
  "check_side b side = (list_all (check_cell b side) [0..<length (side_cells side b)] \<and>
     length (filter (\<lambda>c. \<not> cell_empty c) (side_cells side b)) = mbo_level_count b side 0)"

definition mbo_check_invariants :: "mbo \<Rightarrow> bool" where
  "mbo_check_invariants b =
     (let cap = ti_capacity (mb_index b) in
      check_side b Bid \<and> check_side b Ask \<and>
      sum_list (map lc_orders (mb_bids b)) + sum_list (map lc_orders (mb_asks b)) = mb_live b \<and>
      mb_best_bid b = find (\<lambda>i. \<not> cell_empty (mb_bids b ! i)) (rev [0..<cap]) \<and>
      mb_best_ask b = find (\<lambda>i. \<not> cell_empty (mb_asks b ! i)) [0..<cap] \<and>
      length (filter (\<lambda>e. me_node e \<noteq> NIL) (mb_map b)) = mb_live b)"

text \<open>The trait implementation. A reader that panics has no value to return; it is read as the empty
  result here, and the refinement shows that no reader panics.\<close>

definition returned :: "'a \<Rightarrow> (book_error, 'a) outcome \<Rightarrow> 'a" where
  "returned d r = (case r of Ok x \<Rightarrow> x | _ \<Rightarrow> d)"

definition mbo_ops :: "mbo book_ops" where
  "mbo_ops = \<lparr>ob_add = mbo_add, ob_delete = mbo_delete, ob_reduce = mbo_reduce, ob_replace = mbo_replace,
     ob_get = (\<lambda>b i. returned None (mbo_get b i)), ob_len = mb_live, ob_level_count = mbo_level_count,
     ob_for_each_level = mbo_for_each_level, ob_for_each_order = (\<lambda>b s. returned [] (mbo_for_each_order b s)),
     ob_clear = mbo_clear\<rparr>"

end
