(* ===== verification/MboQueue.thy ===== *)
theory MboQueue
  imports Mbo
begin

text \<open>
  The intrusive lists of the fast book: the doubly linked queue of a level and the free list, as
  chains of slab indices, with what \<open>link_back\<close>, \<open>unlink\<close>, \<open>take_node\<close> and \<open>give_node\<close> do to them.
\<close>

section \<open>Chains in the slab\<close>

definition first_of :: "nat list \<Rightarrow> nat \<Rightarrow> nat" where
  "first_of xs q = (case xs of [] \<Rightarrow> q | x # _ \<Rightarrow> x)"

definition last_of :: "nat list \<Rightarrow> nat \<Rightarrow> nat" where
  "last_of xs p = (if xs = [] then p else last xs)"

lemma first_of_simps [simp]: "first_of [] q = q" "first_of (x # xs) q = x" "first_of (xs @ ys) q = first_of xs (first_of ys q)"
  by (simp_all add: first_of_def split: list.split)

lemma last_of_simps [simp]: "last_of [] p = p" "last_of (x # xs) p = last_of xs x" "last_of (xs @ ys) p = last_of ys (last_of xs p)"
  by (auto simp: last_of_def)

text \<open>A doubly linked segment: \<open>p\<close> before its first node, \<open>q\<close> after its last.\<close>

fun seg :: "node list \<Rightarrow> nat \<Rightarrow> nat list \<Rightarrow> nat \<Rightarrow> bool" where
  "seg ns p [] q = True"
| "seg ns p (x # xs) q = (x < length ns \<and> nd_prev (ns ! x) = p \<and> nd_next (ns ! x) = first_of xs q \<and> seg ns x xs q)"

fun free_chain :: "node list \<Rightarrow> nat \<Rightarrow> nat list \<Rightarrow> bool" where
  "free_chain ns h [] = (h = NIL)"
| "free_chain ns h (x # xs) = (h = x \<and> x < length ns \<and> nd_slot (ns ! x) = NIL \<and> free_chain ns (nd_next (ns ! x)) xs)"

lemma seg_append: "seg ns p (xs @ ys) q \<longleftrightarrow> seg ns p xs (first_of ys q) \<and> seg ns (last_of xs p) ys q"
  by (induction xs arbitrary: p) auto

lemma seg_less: "seg ns p xs q \<Longrightarrow> x \<in> set xs \<Longrightarrow> x < length ns"
  by (induction xs arbitrary: p) auto

lemma seg_cong:
  assumes "length ns' = length ns" "\<And>x. x \<in> set xs \<Longrightarrow> nd_next (ns' ! x) = nd_next (ns ! x) \<and> nd_prev (ns' ! x) = nd_prev (ns ! x)"
  shows "seg ns' p xs q = seg ns p xs q"
  using assms by (induction xs arbitrary: p) auto

lemma free_chain_less: "free_chain ns h xs \<Longrightarrow> x \<in> set xs \<Longrightarrow> x < length ns \<and> nd_slot (ns ! x) = NIL"
  by (induction xs arbitrary: h) auto

lemma free_chain_cong:
  assumes "length ns' = length ns" "\<And>x. x \<in> set xs \<Longrightarrow> ns' ! x = ns ! x"
  shows "free_chain ns' h xs = free_chain ns h xs"
  using assms by (induction xs arbitrary: h) auto

lemma seg_relink_last:
  assumes "seg ns p xs q" "distinct xs" "length ns' = length ns"
    "\<And>x. x \<in> set xs \<Longrightarrow> nd_prev (ns' ! x) = nd_prev (ns ! x)"
    "\<And>x. x \<in> set xs \<Longrightarrow> nd_next (ns' ! x) = (if x = last xs then q' else nd_next (ns ! x))"
  shows "seg ns' p xs q'"
  using assms
proof (induction xs arbitrary: p)
  case (Cons x xs)
  show ?case
  proof (cases xs)
    case Nil
    then show ?thesis using Cons.prems by simp
  next
    case (Cons y ys)
    have "last (x # xs) = last xs" "x \<noteq> last xs" using Cons Cons.prems(2) by (auto simp: Cons)
    then have "seg ns' x xs q'" using Cons.prems by (intro Cons.IH) auto
    with Cons Cons.prems \<open>x \<noteq> last xs\<close> show ?thesis by auto
  qed
qed simp

lemma seg_relink_first:
  assumes "seg ns p xs q" "distinct xs" "length ns' = length ns"
    "\<And>x. x \<in> set xs \<Longrightarrow> nd_next (ns' ! x) = nd_next (ns ! x)"
    "\<And>x. x \<in> set xs \<Longrightarrow> nd_prev (ns' ! x) = (if x = hd xs then p' else nd_prev (ns ! x))"
  shows "seg ns' p' xs q"
proof (cases xs)
  case (Cons y ys)
  then have "seg ns' y ys q = seg ns y ys q" using assms by (intro seg_cong) auto
  with Cons assms show ?thesis by auto
qed simp

text \<open>A change of links only, and only on the nodes of \<open>S\<close>.\<close>

definition nd_data :: "node \<Rightarrow> nat \<times> int \<times> nat \<times> side \<times> nat" where
  "nd_data x = (nd_order_id x, nd_price x, nd_quantity x, nd_side x, nd_slot x)"

definition relinked :: "nat set \<Rightarrow> node list \<Rightarrow> node list \<Rightarrow> bool" where
  "relinked S ns ns' \<longleftrightarrow> length ns' = length ns \<and> (\<forall>m. m \<notin> S \<longrightarrow> ns' ! m = ns ! m) \<and> (\<forall>m. nd_data (ns' ! m) = nd_data (ns ! m))"

lemma relinked_refl: "relinked S ns ns"
  by (simp add: relinked_def)

lemma relinked_trans: "relinked S ns ns' \<Longrightarrow> relinked S ns' ns'' \<Longrightarrow> relinked S ns ns''"
  by (simp add: relinked_def)

lemma relinked_update: "n \<in> S \<Longrightarrow> nd_data v = nd_data (ns ! n) \<Longrightarrow> n < length ns \<Longrightarrow> relinked S ns (ns[n := v])"
  by (auto simp: relinked_def nth_list_update)

lemma order_of_data: "nd_data x = nd_data y \<Longrightarrow> order_of x = order_of y"
  by (simp add: nd_data_def order_of_def)

lemma nth_update_if: "n < length ns \<Longrightarrow> ns[n := v] ! m = (if m = n then v else ns ! m)"
  by simp

section \<open>Frame of the state\<close>

definition mb_rest :: "mbo \<Rightarrow> _" where
  "mb_rest b = (mb_index b, mb_free_head b, mb_map b, mb_map_mask b, mb_live b, mb_best_bid b, mb_best_ask b,
     mb_bid_levels b, mb_ask_levels b, mb_stats b)"

lemma side_cells_set [simp]:
  "side_cells s (set_side_cells t cs b) = (if s = t then cs else side_cells s b)"
  "mb_nodes (set_side_cells t cs b) = mb_nodes b" "side_cells s (b\<lparr>mb_nodes := ns\<rparr>) = side_cells s b"
  "mb_rest (set_side_cells t cs b) = mb_rest b" "mb_rest (b\<lparr>mb_nodes := ns\<rparr>) = mb_rest b"
  "mb_free_head (set_side_cells t cs b) = mb_free_head b"
  by (cases s; cases t; simp add: mb_rest_def)+

text \<open>What an operation on one level leaves: new nodes and one new cell, everything else as it was.\<close>

definition level_step :: "side \<Rightarrow> nat \<Rightarrow> mbo \<Rightarrow> mbo \<Rightarrow> node list \<Rightarrow> level_cell \<Rightarrow> bool" where
  "level_step s i b b' ns c \<longleftrightarrow> mb_nodes b' = ns \<and> mb_rest b' = mb_rest b \<and>
     (\<forall>t. side_cells t b' = (if t = s then (side_cells s b)[i := c] else side_cells t b))"

lemma link_back_ok:
  assumes i: "i < length (side_cells s b)" and q: "seg (mb_nodes b) NIL q NIL" "distinct q" "n \<notin> set q"
    and n: "n < length (mb_nodes b)" "length (mb_nodes b) \<le> NIL"
    and hd: "lc_head (side_cells s b ! i) = first_of q NIL" "lc_tail (side_cells s b ! i) = last_of q NIL"
  shows "\<exists>b' ns'. link_back s i n b = (b', Ok ()) \<and>
     level_step s i b b' ns' ((side_cells s b ! i)\<lparr>lc_head := first_of (q @ [n]) NIL, lc_tail := n\<rparr>) \<and>
     relinked (insert n (set q)) (mb_nodes b) ns' \<and> seg ns' NIL (q @ [n]) NIL"
proof (cases "q = []")
  case True
  let ?ns = "(mb_nodes b)[n := (mb_nodes b ! n)\<lparr>nd_prev := NIL, nd_next := NIL\<rparr>]"
  let ?c = "(side_cells s b ! i)\<lparr>lc_head := n, lc_tail := n\<rparr>"
  have "link_back s i n b = (set_side_cells s ((side_cells s b)[i := ?c]) b \<lparr>mb_nodes := ?ns\<rparr>, Ok ())"
    using i n hd True by (simp add: link_back_def sbind_def read_cell_def modify_cell_def modify_node_def)
  moreover have "level_step s i b (set_side_cells s ((side_cells s b)[i := ?c]) b \<lparr>mb_nodes := ?ns\<rparr>) ?ns ?c"
    by (simp add: level_step_def)
  moreover have "relinked (insert n (set q)) (mb_nodes b) ?ns"
    using n by (auto simp: relinked_def nd_data_def nth_list_update)
  moreover have "seg ?ns NIL (q @ [n]) NIL" using True n by simp
  ultimately show ?thesis using True by force
next
  case False
  let ?t = "last q"
  have t: "lc_tail (side_cells s b ! i) = ?t" "?t \<in> set q" using hd(2) False by (auto simp: last_of_def)
  have tl: "?t < length (mb_nodes b)" "?t \<noteq> NIL" "?t \<noteq> n" using seg_less [OF q(1) t(2)] n t(2) q(3) by auto
  let ?ns1 = "(mb_nodes b)[?t := (mb_nodes b ! ?t)\<lparr>nd_next := n\<rparr>]"
  let ?ns = "?ns1[n := (mb_nodes b ! n)\<lparr>nd_prev := ?t, nd_next := NIL\<rparr>]"
  let ?c = "(side_cells s b ! i)\<lparr>lc_tail := n\<rparr>"
  have "link_back s i n b = (set_side_cells s ((side_cells s b)[i := ?c]) b \<lparr>mb_nodes := ?ns\<rparr>, Ok ())"
    using i n t(1) tl by (simp add: link_back_def Let_def sbind_def read_cell_def modify_cell_def modify_node_def)
  moreover have "level_step s i b (set_side_cells s ((side_cells s b)[i := ?c]) b \<lparr>mb_nodes := ?ns\<rparr>) ?ns ?c"
    by (simp add: level_step_def)
  moreover have nth: "?ns ! m = (if m = n then (mb_nodes b ! n)\<lparr>nd_prev := ?t, nd_next := NIL\<rparr>
      else if m = ?t then (mb_nodes b ! ?t)\<lparr>nd_next := n\<rparr> else mb_nodes b ! m)" for m
    using n tl by (simp add: nth_list_update)
  have rl: "relinked (insert n (set q)) (mb_nodes b) ?ns"
    unfolding relinked_def nth using t(2) by (auto simp: nd_data_def)
  have "seg ?ns NIL q n"
    by (rule seg_relink_last [OF q(1,2)]) (use q(3) in \<open>auto simp add: nth simp del: nth_list_update_eq\<close>)
  then have sg: "seg ?ns NIL (q @ [n]) NIL" using n False by (simp add: seg_append nth last_of_def)
  moreover have "first_of (q @ [n]) NIL = lc_head (side_cells s b ! i)" using hd(1) False by (cases q) auto
  ultimately show ?thesis using rl by (intro exI conjI) auto
qed

lemma nth_seg:
  assumes "seg ns p (xs @ n # ys) q"
  shows "nd_prev (ns ! n) = last_of xs p" "nd_next (ns ! n) = first_of ys q" "n < length ns"
  using assms by (simp_all add: seg_append)

lemma last_of_in: "xs \<noteq> [] \<Longrightarrow> last_of xs p \<in> set xs"
  by (simp add: last_of_def)

lemma first_of_in: "ys \<noteq> [] \<Longrightarrow> first_of ys q \<in> set ys"
  by (cases ys) auto

lemma first_of_mid: "distinct (xs @ n # ys) \<Longrightarrow> first_of (xs @ n # ys) q = n \<longleftrightarrow> xs = []"
  by (cases xs) auto

lemma last_of_mid: "distinct (xs @ n # ys) \<Longrightarrow> last_of (xs @ n # ys) q = n \<longleftrightarrow> ys = []"
  using last_of_in [of ys n] by (cases "ys = []") auto

lemma ends_of_rest:
  "xs \<noteq> [] \<Longrightarrow> first_of (xs @ n # ys) q = first_of (xs @ ys) q" "ys \<noteq> [] \<Longrightarrow> last_of (xs @ n # ys) q = last_of (xs @ ys) q"
  by (cases xs, auto) (cases ys, auto)

lemma unlink_ok:
  assumes i: "i < length (side_cells s b)" and q: "seg (mb_nodes b) NIL (xs @ n # ys) NIL" "distinct (xs @ n # ys)"
    and len: "length (mb_nodes b) \<le> NIL"
    and hd: "lc_head (side_cells s b ! i) = first_of (xs @ n # ys) NIL" "lc_tail (side_cells s b ! i) = last_of (xs @ n # ys) NIL"
  shows "\<exists>b' ns'. unlink s i n b = (b', Ok ()) \<and>
     level_step s i b b' ns' ((side_cells s b ! i)\<lparr>lc_head := first_of (xs @ ys) NIL, lc_tail := last_of (xs @ ys) NIL\<rparr>) \<and>
     relinked (set (xs @ n # ys)) (mb_nodes b) ns' \<and> seg ns' NIL (xs @ ys) NIL"
proof -
  let ?ns = "mb_nodes b" and ?p = "last_of xs NIL" and ?x = "first_of ys NIL" and ?c = "side_cells s b ! i"
  note nq = nth_seg [OF q(1)]
  have lt: "m < length ?ns" if "m \<in> set (xs @ n # ys)" for m using seg_less [OF q(1) that] .
  have notnil: "m \<noteq> NIL" if "m \<in> set (xs @ n # ys)" for m using lt [OF that] len by simp
  have pNIL: "?p = NIL \<longleftrightarrow> xs = []" using notnil last_of_in [of xs NIL] by (cases "xs = []") auto
  have xNIL: "?x = NIL \<longleftrightarrow> ys = []" using notnil first_of_in [of ys NIL] by (cases "ys = []") auto
  have pin: "xs \<noteq> [] \<Longrightarrow> ?p \<in> set xs" by (rule last_of_in)
  have xin: "ys \<noteq> [] \<Longrightarrow> ?x \<in> set ys" by (rule first_of_in)
  define ns1 where "ns1 = (if xs \<noteq> [] then ?ns[?p := (?ns ! ?p)\<lparr>nd_next := ?x\<rparr>] else ?ns)"
  define ns2 where "ns2 = (if ys \<noteq> [] then ns1[?x := (ns1 ! ?x)\<lparr>nd_prev := ?p\<rparr>] else ns1)"
  define ns3 where "ns3 = ns2[n := (ns2 ! n)\<lparr>nd_prev := NIL, nd_next := NIL\<rparr>]"
  let ?c1 = "if lc_head ?c = n then ?c\<lparr>lc_head := ?x\<rparr> else ?c"
  let ?c2 = "if lc_tail ?c1 = n then ?c1\<lparr>lc_tail := ?p\<rparr> else ?c1"
  let ?b = "set_side_cells s ((side_cells s b)[i := ?c1]) (b\<lparr>mb_nodes := ns2\<rparr>)"
  let ?b' = "(set_side_cells s ((side_cells s ?b)[i := ?c2]) ?b)\<lparr>mb_nodes := ns3\<rparr>"
  have ranges: "n < length ?ns" "xs \<noteq> [] \<Longrightarrow> ?p < length ?ns" "ys \<noteq> [] \<Longrightarrow> ?x < length ?ns"
    using lt pin xin by auto
  have lens: "length ns1 = length ?ns" "length ns2 = length ?ns" "length ns3 = length ?ns"
    by (simp_all add: ns1_def ns2_def ns3_def)
  have run: "unlink s i n b = (?b', Ok ())"
    using i ranges pNIL xNIL nq lens
    by (simp add: unlink_def Let_def sbind_def read_node_def modify_cell_def modify_node_def ns1_def ns2_def ns3_def)
  have rl: "relinked (set (xs @ n # ys)) ?ns ns3"
  proof -
    have "relinked (set (xs @ n # ys)) ?ns ns1" unfolding ns1_def
      using pin ranges by (auto intro!: relinked_update simp: relinked_refl nd_data_def)
    moreover have "relinked (set (xs @ n # ys)) ns1 ns2" unfolding ns2_def
      using xin ranges lens by (auto intro!: relinked_update simp: relinked_refl nd_data_def)
    moreover have "relinked (set (xs @ n # ys)) ns2 ns3" unfolding ns3_def
      using ranges lens by (auto intro!: relinked_update simp: nd_data_def)
    ultimately show ?thesis by (metis relinked_trans)
  qed
  have px: "xs \<noteq> [] \<Longrightarrow> ys \<noteq> [] \<Longrightarrow> ?p \<noteq> ?x" "xs \<noteq> [] \<Longrightarrow> ?p \<noteq> n" "ys \<noteq> [] \<Longrightarrow> ?x \<noteq> n"
    using pin xin q(2) by auto
  have next1: "nd_next (ns1 ! m) = (if xs \<noteq> [] \<and> m = ?p then ?x else nd_next (?ns ! m))" "nd_prev (ns1 ! m) = nd_prev (?ns ! m)" for m
    using ranges by (auto simp: ns1_def nth_update_if)
  have next2: "nd_next (ns2 ! m) = nd_next (ns1 ! m)" "nd_prev (ns2 ! m) = (if ys \<noteq> [] \<and> m = ?x then ?p else nd_prev (ns1 ! m))" for m
    using ranges lens by (auto simp: ns2_def nth_update_if)
  have links: "nd_next (ns3 ! m) = (if m = n then NIL else if xs \<noteq> [] \<and> m = ?p then ?x else nd_next (?ns ! m))"
    "nd_prev (ns3 ! m) = (if m = n then NIL else if ys \<noteq> [] \<and> m = ?x then ?p else nd_prev (?ns ! m))" for m
    using ranges lens by (auto simp: ns3_def nth_update_if next1 next2)
  have sep: "m \<in> set xs \<Longrightarrow> ys \<noteq> [] \<Longrightarrow> m \<noteq> ?x" "m \<in> set ys \<Longrightarrow> xs \<noteq> [] \<Longrightarrow> m \<noteq> ?p" for m
    using pin xin q(2) by auto
  have "seg ns3 NIL xs ?x"
    by (rule seg_relink_last [of _ _ _ n]) (use q links lens(3) sep in \<open>auto simp: seg_append last_of_def\<close>)
  moreover have "seg ns3 ?p ys NIL"
  proof (rule seg_relink_first [of ?ns n])
    show "seg ?ns n ys NIL" "distinct ys" "length ns3 = length ?ns" using q lens by (auto simp: seg_append)
    fix m assume m: "m \<in> set ys"
    then have "m \<noteq> n" "ys \<noteq> []" "?x = hd ys" using q(2) by (auto simp: first_of_def split: list.splits)
    then show "nd_next (ns3 ! m) = nd_next (?ns ! m)" "nd_prev (ns3 ! m) = (if m = hd ys then ?p else nd_prev (?ns ! m))"
      using links [of m] sep(2) [OF m] by auto
  qed
  ultimately have "seg ns3 NIL (xs @ ys) NIL" by (simp add: seg_append)
  moreover have "?c2 = ?c\<lparr>lc_head := first_of (xs @ ys) NIL, lc_tail := last_of (xs @ ys) NIL\<rparr>"
  proof -
    have "lc_head ?c = n \<longleftrightarrow> xs = []" "lc_tail ?c = n \<longleftrightarrow> ys = []"
      using first_of_mid [OF q(2)] last_of_mid [OF q(2)] unfolding hd by blast+
    moreover have "xs \<noteq> [] \<Longrightarrow> lc_head ?c = first_of (xs @ ys) NIL" "ys \<noteq> [] \<Longrightarrow> lc_tail ?c = last_of (xs @ ys) NIL"
      unfolding hd by (rule ends_of_rest, assumption)+
    ultimately show ?thesis by (cases "xs = []"; cases "ys = []") simp_all
  qed
  moreover have "level_step s i b ?b' ns3 ?c2" by (simp add: level_step_def)
  ultimately show ?thesis using run rl by (intro exI [of _ ?b'] exI [of _ ns3]) simp
qed

lemma take_node_ok:
  assumes "free_chain (mb_nodes b) (mb_free_head b) F" "length (mb_nodes b) \<le> NIL"
  shows "take_node k b = (case F of [] \<Rightarrow> (b, Err (SlabFull k (length (mb_nodes b))))
     | n # F' \<Rightarrow> (b\<lparr>mb_free_head := nd_next (mb_nodes b ! n)\<rparr>, Ok n))"
  using assms by (cases F) (auto simp: take_node_def Let_def sbind_def read_node_def)

lemma give_node_ok:
  "n < length (mb_nodes b) \<Longrightarrow>
    give_node n b = (b\<lparr>mb_nodes := (mb_nodes b)[n := node_default\<lparr>nd_next := mb_free_head b\<rparr>], mb_free_head := n\<rparr>, Ok ())"
  by (simp add: give_node_def sbind_def modify_node_def)

lemma free_chain_give:
  assumes "free_chain ns h F" "n \<notin> set F" "n < length ns"
  shows "free_chain (ns[n := node_default\<lparr>nd_next := h\<rparr>]) n (n # F)"
proof -
  have "free_chain (ns[n := node_default\<lparr>nd_next := h\<rparr>]) h F = free_chain ns h F"
    by (rule free_chain_cong) (use assms(2) in \<open>auto intro!: nth_list_update_neq\<close>)
  then show ?thesis using assms by (simp add: node_default_def)
qed

lemma fresh_nodes_chain_from:
  "n \<le> NIL \<Longrightarrow> k < n \<Longrightarrow> free_chain (fresh_nodes n) k [k..<n]"
proof (induction "n - k" arbitrary: k)
  case (Suc d)
  have u: "[k..<n] = k # [k + 1..<n]" using Suc.prems by (simp add: upt_conv_Cons)
  show ?case
  proof (cases "k + 1 < n")
    case True
    then have "free_chain (fresh_nodes n) (k + 1) [k + 1..<n]" using Suc by (intro Suc.hyps) auto
    with True show ?thesis using Suc.prems unfolding u by (simp add: fresh_nodes_def node_default_def)
  next
    case False
    then show ?thesis using Suc.prems unfolding u by (simp add: fresh_nodes_def node_default_def)
  qed
qed simp

lemma fresh_nodes_chain: "0 < n \<Longrightarrow> n \<le> NIL \<Longrightarrow> free_chain (fresh_nodes n) 0 [0..<n]"
  using fresh_nodes_chain_from [of n 0] by simp

lemma walk_queue_ok:
  assumes "seg ns p q NIL" "length ns \<le> NIL"
  shows "walk_queue ns (first_of q NIL) = Some (Ok (map (\<lambda>n. order_of (ns ! n)) q))"
  using assms
proof (induction q arbitrary: p)
  case (Cons n q)
  then show ?case by (subst walk_queue.simps) auto
qed (subst walk_queue.simps, simp)

end
