(* ===== verification/MboLevels.thy ===== *)
theory MboLevels
  imports MboQueue
begin

text \<open>
  The level structure of the fast book. \<open>levels_ok\<close> relates the slab and the level arrays to the
  queue \<open>Q s i\<close> of slab indices of every slot; detaching a node from its level, attaching one, and
  sliding the window preserve it. \<open>best_ok\<close> and \<open>count_ok\<close> say what the cached touch and the level
  counters are.
\<close>

section \<open>Structure\<close>

type_synonym queues = "side \<Rightarrow> nat \<Rightarrow> nat list"

definition node_ok :: "tick_index \<Rightarrow> side \<Rightarrow> nat \<Rightarrow> node \<Rightarrow> bool" where
  "node_ok ti s i x \<longleftrightarrow> nd_slot x = i \<and> nd_side x = s \<and> nd_price x = price_at ti i \<and> price_ok (nd_price x) \<and>
     0 < nd_quantity x \<and> nd_quantity x \<le> u32_max"

definition cell_ok :: "node list \<Rightarrow> level_cell \<Rightarrow> nat list \<Rightarrow> bool" where
  "cell_ok ns c q \<longleftrightarrow> lc_head c = first_of q NIL \<and> lc_tail c = last_of q NIL \<and> lc_orders c = length q \<and>
     lc_quantity c = sum_list (map (\<lambda>n. nd_quantity (ns ! n)) q)"

definition levels_ok :: "tick_index \<Rightarrow> node list \<Rightarrow> (side \<Rightarrow> level_cell list) \<Rightarrow> queues \<Rightarrow> bool" where
  "levels_ok ti ns cells Q \<longleftrightarrow> ti_ok ti \<and> ti_capacity ti < NIL \<and> 0 < length ns \<and> length ns \<le> NIL \<and>
     (\<forall>s. length (cells s) = ti_capacity ti) \<and>
     (\<forall>s. \<forall>i < ti_capacity ti. distinct (Q s i) \<and> seg ns NIL (Q s i) NIL \<and>
        (\<forall>n \<in> set (Q s i). node_ok ti s i (ns ! n)) \<and> cell_ok ns (cells s ! i) (Q s i))"

definition set_queue :: "queues \<Rightarrow> side \<Rightarrow> nat \<Rightarrow> nat list \<Rightarrow> queues" where
  "set_queue Q s i q = (\<lambda>t j. if t = s \<and> j = i then q else Q t j)"

abbreviation cells_of :: "mbo \<Rightarrow> side \<Rightarrow> level_cell list" where
  "cells_of b \<equiv> \<lambda>s. side_cells s b"

lemma levels_okD:
  assumes "levels_ok ti ns cells Q"
  shows "ti_ok ti" "ti_capacity ti < NIL" "length ns \<le> NIL" "length (cells s) = ti_capacity ti"
    "i < ti_capacity ti \<Longrightarrow> distinct (Q s i)" "i < ti_capacity ti \<Longrightarrow> seg ns NIL (Q s i) NIL"
    "i < ti_capacity ti \<Longrightarrow> n \<in> set (Q s i) \<Longrightarrow> node_ok ti s i (ns ! n)" "i < ti_capacity ti \<Longrightarrow> cell_ok ns (cells s ! i) (Q s i)"
    "i < ti_capacity ti \<Longrightarrow> n \<in> set (Q s i) \<Longrightarrow> n < length ns" "0 < length ns"
  using assms seg_less unfolding levels_ok_def by blast+

lemma queues_disjoint:
  "levels_ok ti ns cells Q \<Longrightarrow> i < ti_capacity ti \<Longrightarrow> j < ti_capacity ti \<Longrightarrow> n \<in> set (Q s i) \<Longrightarrow> n \<in> set (Q t j) \<Longrightarrow> t = s \<and> j = i"
  using levels_okD(7) [of ti ns cells Q i n s] levels_okD(7) [of ti ns cells Q j n t] by (auto simp: node_ok_def)

lemma node_ok_data: "nd_data x = nd_data y \<Longrightarrow> node_ok ti s i x = node_ok ti s i y"
  by (simp add: nd_data_def node_ok_def)

lemma cell_ok_data: "(\<And>n. n \<in> set q \<Longrightarrow> nd_quantity (ns' ! n) = nd_quantity (ns ! n)) \<Longrightarrow> cell_ok ns' c q = cell_ok ns c q"
  by (simp add: cell_ok_def cong: map_cong)

lemma relinked_quantity: "relinked S ns ns' \<Longrightarrow> nd_quantity (ns' ! n) = nd_quantity (ns ! n)"
  by (simp add: relinked_def nd_data_def)

lemma quantity_bound: "\<forall>n \<in> set q. f n \<le> (k :: nat) \<Longrightarrow> sum_list (map f q) \<le> length q * k"
  by (induction q) (auto intro: add_mono)

lemma queue_quantity_bound:
  assumes "levels_ok ti ns cells Q" "i < ti_capacity ti"
  shows "length (Q s i) \<le> length ns" "sum_list (map (\<lambda>n. nd_quantity (ns ! n)) (Q s i)) \<le> length (Q s i) * u32_max"
proof -
  have "set (Q s i) \<subseteq> {..<length ns}" using levels_okD(9) [OF assms] by auto
  then have "card (set (Q s i)) \<le> length ns" using card_mono [of "{..<length ns}"] by simp
  then show "length (Q s i) \<le> length ns" using distinct_card [OF levels_okD(5) [OF assms]] by simp
  have "\<forall>n \<in> set (Q s i). nd_quantity (ns ! n) \<le> u32_max" using levels_okD(7) [OF assms] by (auto simp: node_ok_def)
  then show "sum_list (map (\<lambda>n. nd_quantity (ns ! n)) (Q s i)) \<le> length (Q s i) * u32_max"
    by (rule quantity_bound)
qed

lemma levels_ok_update:
  assumes ok: "levels_ok ti ns cells Q" and i: "i < ti_capacity ti"
    and len: "length ns' = length ns"
    and others: "\<And>t j n. j < ti_capacity ti \<Longrightarrow> (t, j) \<noteq> (s, i) \<Longrightarrow> n \<in> set (Q t j) \<Longrightarrow> ns' ! n = ns ! n"
    and cells: "\<And>t. cells' t = (if t = s then (cells s)[i := c] else cells t)"
    and q: "distinct q" "seg ns' NIL q NIL" "\<And>n. n \<in> set q \<Longrightarrow> node_ok ti s i (ns' ! n)" "cell_ok ns' c q"
  shows "levels_ok ti ns' cells' (set_queue Q s i q)"
proof -
  note D = levels_okD [OF ok]
  have "distinct (set_queue Q s i q t j) \<and> seg ns' NIL (set_queue Q s i q t j) NIL \<and>
      (\<forall>n \<in> set (set_queue Q s i q t j). node_ok ti t j (ns' ! n)) \<and> cell_ok ns' (cells' t ! j) (set_queue Q s i q t j)"
    if j: "j < ti_capacity ti" for t j
  proof (cases "(t, j) = (s, i)")
    case True
    then show ?thesis using q i D(4) by (simp add: set_queue_def cells)
  next
    case False
    have same: "ns' ! n = ns ! n" if "n \<in> set (Q t j)" for n by (rule others [OF j False that])
    have "seg ns' NIL (Q t j) NIL" using seg_cong [OF len, of "Q t j"] same D(6) [OF j] by simp
    moreover have "cell_ok ns' (cells t ! j) (Q t j)" using cell_ok_data [of "Q t j" ns' ns] same D(8) [OF j] by simp
    moreover have "cells' t ! j = cells t ! j" using False by (auto simp: cells)
    ultimately show ?thesis using False D(5,7) [OF j] same by (auto simp: set_queue_def)
  qed
  moreover have "length (cells' t) = ti_capacity ti" for t using D(4) by (simp add: cells)
  ultimately show ?thesis using D(1-3,10) len unfolding levels_ok_def by simp
qed

lemma wrap_dec_u32_exact [simp]: "0 < n \<Longrightarrow> n \<le> u32_max \<Longrightarrow> wrap_dec_u32 n = n - 1"
  by (cases n) (simp_all add: wrap_dec_u32_def)

lemma wrap_inc_u32_exact [simp]: "n < u32_max \<Longrightarrow> wrap_inc_u32 n = n + 1"
  by (simp add: wrap_inc_u32_def)

section \<open>Detaching and attaching\<close>

lemma detach_ok:
  assumes ok: "levels_ok (mb_index b) (mb_nodes b) (cells_of b) Q" and i: "i < ti_capacity (mb_index b)"
    and q: "Q s i = xs @ n # ys"
  shows "\<exists>b1 b2. unlink s i n b = (b1, Ok ()) \<and> take_from_level s i (nd_quantity (mb_nodes b ! n)) b1 = (b2, Ok ()) \<and>
     mb_rest b2 = mb_rest b \<and> relinked (set (Q s i)) (mb_nodes b) (mb_nodes b2) \<and>
     levels_ok (mb_index b) (mb_nodes b2) (cells_of b2) (set_queue Q s i (xs @ ys))"
proof -
  let ?ns = "mb_nodes b" and ?c = "side_cells s b ! i"
  note D = levels_okD [OF ok] and C = levels_okD(8) [OF ok i, of s, unfolded cell_ok_def q]
  have il: "i < length (side_cells s b)" using i D(4) by simp
  have dist: "distinct (xs @ n # ys)" and sg: "seg ?ns NIL (xs @ n # ys) NIL" using D(5,6) [OF i, of s] q by simp_all
  obtain b1 ns1 where b1: "unlink s i n b = (b1, Ok ())"
      "level_step s i b b1 ns1 (?c\<lparr>lc_head := first_of (xs @ ys) NIL, lc_tail := last_of (xs @ ys) NIL\<rparr>)"
      "relinked (set (xs @ n # ys)) ?ns ns1" "seg ns1 NIL (xs @ ys) NIL"
    using unlink_ok [OF il sg dist D(3)] C by blast
  let ?c1 = "?c\<lparr>lc_head := first_of (xs @ ys) NIL, lc_tail := last_of (xs @ ys) NIL\<rparr>"
  let ?c2 = "?c1\<lparr>lc_quantity := wrap_sub_u64 (lc_quantity ?c1) (nd_quantity (?ns ! n)), lc_orders := wrap_dec_u32 (lc_orders ?c1)\<rparr>"
  let ?b2 = "set_side_cells s ((side_cells s b1)[i := ?c2]) b1"
  have t: "take_from_level s i (nd_quantity (?ns ! n)) b1 = (?b2, Ok ())"
    using b1(2) il by (simp add: take_from_level_def modify_cell_def level_step_def)
  have bound: "length (Q s i) \<le> length ?ns" "sum_list (map (\<lambda>m. nd_quantity (?ns ! m)) (Q s i)) \<le> length (Q s i) * u32_max"
    by (rule queue_quantity_bound [OF ok i])+
  have "length (Q s i) * u32_max \<le> u32_max * u32_max" using bound(1) D(3) by (intro mult_right_mono) auto
  then have tot: "sum_list (map (\<lambda>m. nd_quantity (?ns ! m)) (Q s i)) \<le> u64_max" using bound(2) by simp
  have cell: "cell_ok ns1 ?c2 (xs @ ys)"
    using C bound(1) tot D(3) q relinked_quantity [OF b1(3)] by (simp add: cell_ok_def)
  have same: "ns1 ! m = ?ns ! m" if "j < ti_capacity (mb_index b)" "(t, j) \<noteq> (s, i)" "m \<in> set (Q t j)" for t j m
    using queues_disjoint [OF ok i that(1), of m s t] that b1(3) q by (auto simp: relinked_def)
  have node: "node_ok (mb_index b) s i (ns1 ! m)" if "m \<in> set (xs @ ys)" for m
    using D(7) [OF i, of m s] that q b1(3) node_ok_data [of "ns1 ! m" "?ns ! m"] by (auto simp: relinked_def)
  have "levels_ok (mb_index b) ns1 (cells_of ?b2) (set_queue Q s i (xs @ ys))"
    by (rule levels_ok_update [OF ok i _ _ _ _ _ _ cell])
       (use b1 dist same node in \<open>auto simp: level_step_def relinked_def\<close>)
  moreover have "mb_rest ?b2 = mb_rest b" "mb_nodes ?b2 = ns1" using b1(2) by (simp_all add: level_step_def)
  ultimately show ?thesis using b1(1,3) t q by auto
qed

lemma attach_ok:
  assumes ok: "levels_ok (mb_index b) (mb_nodes b) (cells_of b) Q" and i: "i < ti_capacity (mb_index b)"
    and n: "n < length (mb_nodes b)" "\<And>t j. j < ti_capacity (mb_index b) \<Longrightarrow> n \<notin> set (Q t j)"
    and node: "node_ok (mb_index b) s i (mb_nodes b ! n)"
  shows "\<exists>b1 b2. link_back s i n b = (b1, Ok ()) \<and> put_on_level s i (nd_quantity (mb_nodes b ! n)) b1 = (b2, Ok ()) \<and>
     mb_rest b2 = mb_rest b \<and> relinked (insert n (set (Q s i))) (mb_nodes b) (mb_nodes b2) \<and>
     levels_ok (mb_index b) (mb_nodes b2) (cells_of b2) (set_queue Q s i (Q s i @ [n]))"
proof -
  let ?ns = "mb_nodes b" and ?c = "side_cells s b ! i" and ?q = "Q s i"
  note D = levels_okD [OF ok] and C = levels_okD(8) [OF ok i, of s, unfolded cell_ok_def]
  have il: "i < length (side_cells s b)" using i D(4) by simp
  obtain b1 ns1 where b1: "link_back s i n b = (b1, Ok ())"
      "level_step s i b b1 ns1 (?c\<lparr>lc_head := first_of (?q @ [n]) NIL, lc_tail := n\<rparr>)"
      "relinked (insert n (set ?q)) ?ns ns1" "seg ns1 NIL (?q @ [n]) NIL"
    using link_back_ok [OF il D(6,5) [OF i] n(2) [OF i] n(1) D(3)] C by blast
  let ?c1 = "?c\<lparr>lc_head := first_of (?q @ [n]) NIL, lc_tail := n\<rparr>"
  let ?c2 = "?c1\<lparr>lc_quantity := wrap_add_u64 (lc_quantity ?c1) (nd_quantity (?ns ! n)), lc_orders := wrap_inc_u32 (lc_orders ?c1)\<rparr>"
  let ?b2 = "set_side_cells s ((side_cells s b1)[i := ?c2]) b1"
  have t: "put_on_level s i (nd_quantity (?ns ! n)) b1 = (?b2, Ok ())"
    using b1(2) il by (simp add: put_on_level_def modify_cell_def level_step_def)
  have "insert n (set ?q) \<subseteq> {..<length ?ns}" using n(1) D(9) [OF i] by auto
  then have "card (insert n (set ?q)) \<le> length ?ns" using card_mono [of "{..<length ?ns}"] by simp
  then have len: "Suc (length ?q) \<le> length ?ns" using n(2) [OF i, of s] distinct_card [OF D(5) [OF i, of s]] by simp
  have "nd_quantity (?ns ! n) \<le> u32_max" using node by (simp add: node_ok_def)
  then have "sum_list (map (\<lambda>m. nd_quantity (?ns ! m)) ?q) + nd_quantity (?ns ! n) \<le> Suc (length ?q) * u32_max"
    using queue_quantity_bound(2) [OF ok i, of s] by simp
  also have "\<dots> \<le> u32_max * u32_max" using len D(3) by (intro mult_right_mono) auto
  finally have tot: "sum_list (map (\<lambda>m. nd_quantity (?ns ! m)) ?q) + nd_quantity (?ns ! n) \<le> u64_max" by simp
  have cell: "cell_ok ns1 ?c2 (?q @ [n])"
    using C len tot D(3) relinked_quantity [OF b1(3)] by (simp add: cell_ok_def)
  have same: "ns1 ! m = ?ns ! m" if "j < ti_capacity (mb_index b)" "(t, j) \<noteq> (s, i)" "m \<in> set (Q t j)" for t j m
  proof -
    have "m \<notin> set ?q" "m \<noteq> n" using queues_disjoint [OF ok i that(1), of m s t] n(2) [OF that(1), of t] that by auto
    then show ?thesis using b1(3) by (simp add: relinked_def)
  qed
  have node': "node_ok (mb_index b) s i (ns1 ! m)" if "m \<in> set (?q @ [n])" for m
    using D(7) [OF i, of m s] that node b1(3) node_ok_data [of "ns1 ! m" "?ns ! m"] by (auto simp: relinked_def)
  have "levels_ok (mb_index b) ns1 (cells_of ?b2) (set_queue Q s i (?q @ [n]))"
    by (rule levels_ok_update [OF ok i _ _ _ _ _ _ cell])
       (use b1 D(5) [OF i, of s] n(2) [OF i, of s] same node' in \<open>auto simp: level_step_def relinked_def\<close>)
  moreover have "mb_rest ?b2 = mb_rest b" "mb_nodes ?b2 = ns1" using b1(2) by (simp_all add: level_step_def)
  ultimately show ?thesis using b1(1,3) t by auto
qed

section \<open>The touch and the level counters\<close>

fun better :: "side \<Rightarrow> nat \<Rightarrow> nat \<Rightarrow> bool" where
  "better Bid i j = (i > j)"
| "better Ask i j = (i < j)"

fun scan_order :: "side \<Rightarrow> nat \<Rightarrow> nat list" where
  "scan_order Bid n = rev [0..<n]"
| "scan_order Ask n = [0..<n]"

definition touch :: "side \<Rightarrow> nat \<Rightarrow> (nat \<Rightarrow> nat list) \<Rightarrow> nat option" where
  "touch s cap f = find (\<lambda>i. f i \<noteq> []) (scan_order s cap)"

lemma find_snoc: "find P (xs @ [x]) = (case find P xs of None \<Rightarrow> if P x then Some x else None | Some y \<Rightarrow> Some y)"
  by (induction xs) auto

lemma find_up_Some: "find P [a..<n] = Some x \<longleftrightarrow> a \<le> x \<and> x < n \<and> P x \<and> (\<forall>j. a \<le> j \<longrightarrow> j < x \<longrightarrow> \<not> P j)"
proof (induction n arbitrary: x)
  case (Suc n)
  show ?case
  proof (cases "find P [a..<n]")
    case None
    then have "\<forall>j. a \<le> j \<longrightarrow> j < n \<longrightarrow> \<not> P j" by (auto simp: find_None_iff)
    then show ?thesis using None by (auto simp: find_snoc less_Suc_eq)
  next
    case (Some y)
    then have "a \<le> y \<and> y < n \<and> P y \<and> (\<forall>j. a \<le> j \<longrightarrow> j < y \<longrightarrow> \<not> P j)" using Suc.IH by simp
    then show ?thesis using Some by (auto simp: find_snoc) (metis not_less_iff_gr_or_eq)+
  qed
qed simp

lemma find_down_Some: "find P (rev [0..<n]) = Some x \<longleftrightarrow> x < n \<and> P x \<and> (\<forall>j. x < j \<longrightarrow> j < n \<longrightarrow> \<not> P j)"
  by (induction n) (auto simp: less_Suc_eq)

lemma touch_Some: "touch s cap f = Some x \<longleftrightarrow> x < cap \<and> f x \<noteq> [] \<and> (\<forall>j < cap. f j \<noteq> [] \<longrightarrow> \<not> better s j x)"
proof (cases s)
  case Ask
  then show ?thesis by (auto simp: touch_def find_up_Some not_less) (metis leD less_trans)
qed (auto simp: touch_def find_down_Some not_less)

lemma touch_None: "touch s cap f = None \<longleftrightarrow> (\<forall>j < cap. f j = [])"
  by (cases s) (auto simp: touch_def find_None_iff)

definition best_ok :: "tick_index \<Rightarrow> (side \<Rightarrow> nat option) \<Rightarrow> queues \<Rightarrow> bool" where
  "best_ok ti best Q \<longleftrightarrow> (\<forall>s. best s = touch s (ti_capacity ti) (Q s))"

definition count_ok :: "tick_index \<Rightarrow> (side \<Rightarrow> nat) \<Rightarrow> queues \<Rightarrow> bool" where
  "count_ok ti levels Q \<longleftrightarrow> (\<forall>s. levels s = card {i. i < ti_capacity ti \<and> Q s i \<noteq> []})"

text \<open>A candidate touch: nothing occupied is better. A rescan from it finds the touch.\<close>

definition touch_bound :: "side \<Rightarrow> nat \<Rightarrow> (nat \<Rightarrow> nat list) \<Rightarrow> nat option \<Rightarrow> bool" where
  "touch_bound s cap f v = (case v of None \<Rightarrow> \<forall>j < cap. f j = [] | Some x \<Rightarrow> x < cap \<and> (\<forall>j < cap. f j \<noteq> [] \<longrightarrow> \<not> better s j x))"

lemma touch_bound_exact: "touch_bound s cap f v \<Longrightarrow> (\<And>x. v = Some x \<Longrightarrow> f x \<noteq> []) \<Longrightarrow> v = touch s cap f"
  by (cases v) (auto simp: touch_bound_def eq_commute [of _ "touch s cap f"] touch_Some touch_None)

abbreviation best_of :: "mbo \<Rightarrow> side \<Rightarrow> nat option" where
  "best_of b \<equiv> \<lambda>s. best_slot s b"

abbreviation counts_of :: "mbo \<Rightarrow> side \<Rightarrow> nat" where
  "counts_of b \<equiv> \<lambda>s. side_levels s b"

definition mb_core :: "mbo \<Rightarrow> _" where
  "mb_core b = (mb_index b, mb_nodes b, mb_bids b, mb_asks b, mb_free_head b, mb_map b, mb_map_mask b, mb_live b)"

lemma core_eqD:
  assumes "mb_core b' = mb_core b"
  shows "mb_index b' = mb_index b" "mb_nodes b' = mb_nodes b" "side_cells s b' = side_cells s b"
    "mb_free_head b' = mb_free_head b" "mb_map b' = mb_map b" "mb_map_mask b' = mb_map_mask b" "mb_live b' = mb_live b"
  using assms by (cases s; simp add: mb_core_def)+

lemma touch_updates [simp]:
  "mb_core (note_occupied s i b) = mb_core b" "mb_core (rescan_best s b) = mb_core b" "mb_core (close_level s i b) = mb_core b"
  "mb_core (level_opened s b) = mb_core b" "mb_core (level_closed s b) = mb_core b"
  "side_levels t (note_occupied s i b) = side_levels t b" "side_levels t (rescan_best s b) = side_levels t b"
  "side_levels t (close_level s i b) = side_levels t b"
  "best_slot t (level_opened s b) = best_slot t b" "best_slot t (level_closed s b) = best_slot t b"
  "side_levels t (level_opened s b) = (if t = s then wrap_inc_u32 (side_levels t b) else side_levels t b)"
  "side_levels t (level_closed s b) = (if t = s then wrap_dec_u32 (side_levels t b) else side_levels t b)"
  by (cases s; cases t; simp add: mb_core_def close_level_def Let_def)+

lemma other_side_touch [simp]:
  "t \<noteq> s \<Longrightarrow> best_slot t (note_occupied s i b) = best_slot t b" "t \<noteq> s \<Longrightarrow> best_slot t (close_level s i b) = best_slot t b"
  by (cases s; cases t; simp add: close_level_def Let_def)+

lemma note_occupied_bound:
  assumes "touch_bound s cap f (best_slot s b)" "i < cap"
  shows "touch_bound s cap (f(i := q)) (best_slot s (note_occupied s i b))"
    "best_slot s (note_occupied s i b) = Some x \<Longrightarrow> x = i \<or> best_slot s b = Some x"
  using assms by (cases s; auto simp: touch_bound_def split: option.splits if_splits)+

lemma rescan_touch:
  assumes "touch_bound s cap f (best_slot s b)" "cap = ti_capacity (mb_index b)" "0 < cap"
    and "\<And>i. i < cap \<Longrightarrow> cell_empty (side_cells s b ! i) \<longleftrightarrow> f i = []"
  shows "best_slot s (rescan_best s b) = touch s cap f"
proof (cases s)
  case Bid
  let ?start = "case mb_best_bid b of None \<Rightarrow> cap - 1 | Some x \<Rightarrow> x"
  have st: "?start < cap" "\<And>j. j < cap \<Longrightarrow> f j \<noteq> [] \<Longrightarrow> j \<le> ?start"
    using assms(1,3) Bid by (auto simp: touch_bound_def not_less split: option.splits)
  have "find (\<lambda>i. \<not> cell_empty (mb_bids b ! i)) (rev [0..<?start + 1]) = touch Bid cap f" (is "?l = _")
  proof (cases ?l)
    case None
    then have "\<forall>j \<le> ?start. cell_empty (mb_bids b ! j)" by (auto simp: find_None_iff simp del: upt_Suc)
    then have "f j = []" if "j < cap" for j
      using st(2) [OF that] assms(4) [OF that] Bid by auto
    then show ?thesis using None touch_None by metis
  next
    case (Some x)
    then have "touch Bid cap f = Some x"
      using st assms(4) Bid unfolding find_down_Some touch_Some by (auto simp: not_less) (meson le_less_linear less_Suc_eq_le)
    then show ?thesis using Some by simp
  qed
  then show ?thesis unfolding assms(2) Bid by (simp add: Let_def del: upt_Suc)
next
  case Ask
  let ?start = "case mb_best_ask b of None \<Rightarrow> 0 | Some x \<Rightarrow> x"
  have st: "?start < cap" "\<And>j. j < cap \<Longrightarrow> f j \<noteq> [] \<Longrightarrow> ?start \<le> j"
    using assms(1,3) Ask by (auto simp: touch_bound_def not_less split: option.splits)
  have "find (\<lambda>i. \<not> cell_empty (mb_asks b ! i)) [?start..<cap] = touch Ask cap f" (is "?l = _")
  proof (cases ?l)
    case None
    then have "f j = []" if "j < cap" for j
      using st(2) [OF that] assms(4) Ask that by (auto simp: find_None_iff)
    then show ?thesis using None touch_None by metis
  next
    case (Some x)
    then have x: "?start \<le> x" "x < cap" "\<not> cell_empty (mb_asks b ! x)" and lo: "\<And>j. ?start \<le> j \<Longrightarrow> j < x \<Longrightarrow> cell_empty (mb_asks b ! j)"
      unfolding find_up_Some by auto
    have "f j = []" if "j < x" for j
    proof (rule ccontr)
      assume f: "f j \<noteq> []"
      have "j < cap" using that x(2) by simp
      then show False using lo [OF st(2) [OF _ f] that] assms(4) [of j] Ask f by simp
    qed
    then have "touch Ask cap f = Some x"
      using x assms(4) [OF x(2)] Ask unfolding touch_Some by auto
    then show ?thesis using Some by simp
  qed
  then show ?thesis using Ask assms(2) by (simp add: Let_def)
qed

lemma cell_empty_iff: "levels_ok ti ns cells Q \<Longrightarrow> i < ti_capacity ti \<Longrightarrow> cell_empty (cells s ! i) \<longleftrightarrow> Q s i = []"
  using levels_okD(8) [of ti ns cells Q i s] by (simp add: cell_ok_def cell_empty_def)

lemma count_bound: "card {i. i < n \<and> P i} \<le> n"
  using card_mono [of "{..<n}" "{i. i < n \<and> P i}"] by auto

lemma count_update:
  assumes "i < (n :: nat)"
  shows "card {j. j < n \<and> (f(i := q)) j \<noteq> []} + (if f i \<noteq> [] then 1 else 0) = card {j. j < n \<and> f j \<noteq> []} + (if q \<noteq> [] then (1 :: nat) else 0)"
proof -
  let ?R = "{j. j < n \<and> j \<noteq> i \<and> f j \<noteq> []}"
  have fin: "finite ?R" by (rule finite_subset [of _ "{..<n}"]) auto
  have ni: "i \<notin> ?R" by simp
  have "{j. j < n \<and> (f(i := q)) j \<noteq> []} = (if q \<noteq> [] then insert i ?R else ?R)" using assms by auto
  moreover have "{j. j < n \<and> f j \<noteq> []} = (if f i \<noteq> [] then insert i ?R else ?R)" using assms by auto
  ultimately show ?thesis using card_insert_disjoint [OF fin ni] by (simp split: if_split)
qed

lemma set_queue_fun: "set_queue Q s i q t = (if t = s then (Q s)(i := q) else Q t)"
  by (auto simp: set_queue_def)

end
