(* ===== verification/MboWindow.thy ===== *)
theory MboWindow
  imports MboLevels
begin

text \<open>
  Sliding the price window of the fast book: the in-place moves of the level arrays, the occupied
  extent, and that a rebase keeps the level structure, the touch and the level counters, moving every
  queue with its price. When it refuses, no window of this many slots covers what it would have to.
\<close>

section \<open>Moving the level arrays\<close>

lemma shift_down_fold:
  assumes "k \<le> length cells" "0 < d"
  shows "length (fold (\<lambda>i cs. cs[i := (if i + d < length cells then cs ! (i + d) else e)]) [0..<k] cells) = length cells \<and>
    (\<forall>i < length cells. fold (\<lambda>i cs. cs[i := (if i + d < length cells then cs ! (i + d) else e)]) [0..<k] cells ! i =
      (if i < k then (if i + d < length cells then cells ! (i + d) else e) else cells ! i))"
  using assms(1)
proof (induction k)
  case (Suc k)
  then show ?case using assms(2) by (auto simp: nth_list_update less_Suc_eq)
qed simp

lemma shift_up_fold:
  assumes "k \<le> length cells" "0 < d"
  shows "length (fold (\<lambda>i cs. cs[i := (if i \<ge> d then cs ! (i - d) else e)]) (rev [k..<length cells]) cells) = length cells \<and>
    (\<forall>i < length cells. fold (\<lambda>i cs. cs[i := (if i \<ge> d then cs ! (i - d) else e)]) (rev [k..<length cells]) cells ! i =
      (if i \<ge> k then (if i \<ge> d then cells ! (i - d) else e) else cells ! i))"
  using assms(1)
proof (induction "length cells - k" arbitrary: k)
  case (Suc m)
  then have "rev [k..<length cells] = rev [k + 1..<length cells] @ [k]" by (simp add: upt_conv_Cons)
  moreover have "m = length cells - (k + 1)" "k + 1 \<le> length cells" using Suc by auto
  ultimately show ?case using Suc.hyps(1) [of "k + 1"] assms(2) by (auto simp: nth_list_update)
qed simp

lemma shift_cells_nth:
  assumes "length cells = cap"
  shows "length (shift_cells cap shift cells) = cap"
    "i < cap \<Longrightarrow> shift_cells cap shift cells ! i =
       (if 0 \<le> int i + shift \<and> int i + shift < int cap then cells ! nat (int i + shift) else cell_default)"
proof -
  note dn = shift_down_fold [of "length cells" cells "nat shift" cell_default]
  note up = shift_up_fold [of 0 cells "nat (- shift)" cell_default]
  show "length (shift_cells cap shift cells) = cap"
    using assms dn up by (auto simp: shift_cells_def)
  assume i: "i < cap"
  consider "shift > 0" | "shift < 0" | "shift = 0" by linarith
  then show "shift_cells cap shift cells ! i =
       (if 0 \<le> int i + shift \<and> int i + shift < int cap then cells ! nat (int i + shift) else cell_default)"
  proof cases
    case 1
    then have "nat (int i + shift) = i + nat shift" "i + nat shift < cap \<longleftrightarrow> int i + shift < int cap" by auto
    then show ?thesis using 1 dn assms i by (simp add: shift_cells_def)
  next
    case 2
    then have "nat (int i + shift) = i - nat (- shift)" "nat (- shift) \<le> i \<longleftrightarrow> 0 \<le> int i + shift" by auto
    then show ?thesis using 2 up assms i by (simp add: shift_cells_def)
  qed (use assms i in \<open>simp add: shift_cells_def\<close>)
qed

section \<open>The occupied extent\<close>

definition occupied :: "nat \<Rightarrow> queues \<Rightarrow> nat \<Rightarrow> bool" where
  "occupied cap Q i \<longleftrightarrow> i < cap \<and> (\<exists>s. Q s i \<noteq> [])"

lemma extent_cases:
  assumes ok: "levels_ok (mb_index b) (mb_nodes b) (cells_of b) Q"
  defines "cap \<equiv> ti_capacity (mb_index b)"
  obtains (none) "occupied_extent b = (None, None)" "\<And>i. \<not> occupied cap Q i"
    | (some) l h where "occupied_extent b = (Some l, Some h)" "l \<le> h" "occupied cap Q l" "occupied cap Q h"
        "\<And>i. occupied cap Q i \<Longrightarrow> l \<le> i \<and> i \<le> h"
proof -
  let ?P = "\<lambda>i. \<not> cell_empty (mb_bids b ! i) \<or> \<not> cell_empty (mb_asks b ! i)"
  have P: "?P i \<longleftrightarrow> occupied cap Q i" if "i < cap" for i
    using cell_empty_iff [OF ok, of i Bid] cell_empty_iff [OF ok, of i Ask] that
    by (auto simp: occupied_def cap_def) (metis side.exhaust)
  have ext: "occupied_extent b = (find ?P [0..<cap], find ?P (rev [0..<cap]))" by (simp add: occupied_extent_def cap_def Let_def)
  show thesis
  proof (cases "find ?P [0..<cap]")
    case None
    then have no: "\<not> ?P i" if "i < cap" for i using that by (auto simp: find_None_iff)
    then have "find ?P (rev [0..<cap]) = None" by (auto simp: find_None_iff)
    moreover have "\<not> occupied cap Q i" for i using no P by (auto simp: occupied_def)
    ultimately show thesis using none ext None by simp
  next
    case (Some l)
    then have l: "l < cap" "?P l" "\<And>j. j < l \<Longrightarrow> \<not> ?P j" by (auto simp: find_up_Some)
    then obtain h where h: "find ?P (rev [0..<cap]) = Some h"
      by (cases "find ?P (rev [0..<cap])") (auto simp: find_None_iff)
    then have hh: "h < cap" "?P h" "\<And>j. h < j \<Longrightarrow> j < cap \<Longrightarrow> \<not> ?P j" by (auto simp: find_down_Some)
    have "l \<le> i \<and> i \<le> h" if "occupied cap Q i" for i
    proof -
      have "i < cap" using that by (simp add: occupied_def)
      then show ?thesis using l(3) [of i] hh(3) [of i] P [of i] that by (meson not_less)
    qed
    moreover have "occupied cap Q l" "occupied cap Q h" using P l(1,2) hh(1,2) by blast+
    ultimately show thesis using some [of l h] ext Some h by auto
  qed
qed

section \<open>Rebase\<close>

definition slide :: "nat \<Rightarrow> int \<Rightarrow> queues \<Rightarrow> queues" where
  "slide cap shift Q = (\<lambda>s i. if 0 \<le> int i + shift \<and> int i + shift < int cap then Q s (nat (int i + shift)) else [])"

text \<open>A window move that loses nothing: every occupied slot stays inside, at its price.\<close>

definition safe_move :: "tick_index \<Rightarrow> tick_index \<Rightarrow> int \<Rightarrow> queues \<Rightarrow> bool" where
  "safe_move ti ti' shift Q \<longleftrightarrow> ti_ok ti' \<and> ti_capacity ti' = ti_capacity ti \<and>
     (\<forall>i. occupied (ti_capacity ti) Q i \<longrightarrow> 0 \<le> int i - shift \<and> int i - shift < int (ti_capacity ti) \<and>
        price_at ti' (nat (int i - shift)) = price_at ti i)"

lemma occupied_price:
  assumes "levels_ok ti ns cells Q" "occupied (ti_capacity ti) Q i"
  shows "i < ti_capacity ti \<and> price_ok (price_at ti i)"
proof -
  obtain s where s: "i < ti_capacity ti" "Q s i \<noteq> []" using assms(2) by (auto simp: occupied_def)
  then have "node_ok ti s i (ns ! hd (Q s i))" using levels_okD(7) [OF assms(1) s(1)] by simp
  then show ?thesis using s(1) unfolding node_ok_def by metis
qed

definition book_keep :: "mbo \<Rightarrow> (int \<times> int) option" where
  "book_keep b = (case occupied_extent b of
     (Some l, Some h) \<Rightarrow> Some (price_at (mb_index b) l, price_at (mb_index b) h) | _ \<Rightarrow> None)"

lemma book_keep_ok:
  assumes ok: "levels_ok (mb_index b) (mb_nodes b) (cells_of b) Q"
  shows "keep_ok (book_keep b)" "keep_grid (mb_index b) (book_keep b)"
proof -
  have ti: "ti_ok (mb_index b)" by (rule levels_okD(1) [OF ok])
  have "keep_ok (book_keep b) \<and> keep_grid (mb_index b) (book_keep b)"
  proof (cases rule: extent_cases [OF ok])
    case (2 l h)
    have p: "l < ti_capacity (mb_index b)" "price_ok (price_at (mb_index b) l)" "h < ti_capacity (mb_index b)" "price_ok (price_at (mb_index b) h)"
      using occupied_price [OF ok 2(3)] occupied_price [OF ok 2(4)] by auto
    have le: "price_at (mb_index b) l \<le> price_at (mb_index b) h"
      using price_at_mono [OF ti p(3) p(1)] 2(2) by (simp add: not_less [symmetric])
    have "keep_ok (book_keep b)" using p le by (simp add: book_keep_def 2 keep_ok_def)
    moreover have "keep_grid (mb_index b) (book_keep b)" using p by (simp add: book_keep_def 2 keep_grid_def price_at_exact [OF ti])
    ultimately show ?thesis ..
  qed (simp_all add: book_keep_def keep_ok_def keep_grid_def)
  then show "keep_ok (book_keep b)" "keep_grid (mb_index b) (book_keep b)" by auto
qed

lemma rebase_safe:
  assumes ok: "levels_ok (mb_index b) (mb_nodes b) (cells_of b) Q" and p: "price_ok p"
    and eq: "rebase_for (mb_index b) p (book_keep b) = Some (ti', shift)"
  shows "safe_move (mb_index b) ti' shift Q"
proof -
  note K = book_keep_ok [OF ok] and ti = levels_okD(1) [OF ok]
  note r = rebase_for_Some [OF ti p K eq]
  have "0 \<le> int i - shift \<and> int i - shift < int (ti_capacity (mb_index b)) \<and> price_at ti' (nat (int i - shift)) = price_at (mb_index b) i"
    if occ: "occupied (ti_capacity (mb_index b)) Q i" for i
  proof (cases rule: extent_cases [OF ok])
    case 1
    then show ?thesis using occ by blast
  next
    case (2 l h)
    have "h < ti_capacity (mb_index b)" using 2(4) by (simp add: occupied_def)
    moreover have "book_keep b = Some (price_at (mb_index b) l, price_at (mb_index b) h)" by (simp add: book_keep_def 2)
    ultimately show ?thesis using rebase_for_extent [OF ti p K eq] 2(5) [OF occ] by simp
  qed
  then show ?thesis using r(1,3) by (auto simp: safe_move_def)
qed

lemma slide_moved:
  assumes "safe_move ti ti' shift Q" "i < ti_capacity ti" "Q s i \<noteq> []"
  shows "\<exists>j < ti_capacity ti. int j = int i - shift \<and> slide (ti_capacity ti) shift Q s j = Q s i \<and> price_at ti' j = price_at ti i"
  using assms by (intro exI [of _ "nat (int i - shift)"]) (auto simp: safe_move_def occupied_def slide_def)

lemma slide_source:
  assumes "safe_move ti ti' shift Q" "j < ti_capacity ti" "slide (ti_capacity ti) shift Q s j \<noteq> []"
  shows "\<exists>i < ti_capacity ti. int j = int i - shift \<and> slide (ti_capacity ti) shift Q s j = Q s i \<and> Q s i \<noteq> [] \<and> price_at ti' j = price_at ti i"
proof -
  have r: "0 \<le> int j + shift" "int j + shift < int (ti_capacity ti)" and eq: "slide (ti_capacity ti) shift Q s j = Q s (nat (int j + shift))"
    using assms(3) by (auto simp: slide_def split: if_splits)
  let ?i = "nat (int j + shift)"
  have "?i < ti_capacity ti" "int ?i - shift = int j" using r by auto
  moreover have "price_at ti' j = price_at ti ?i"
    using assms(1,3) r eq \<open>?i < ti_capacity ti\<close> \<open>int ?i - shift = int j\<close> by (auto simp: safe_move_def occupied_def)
  ultimately show ?thesis using eq assms(3) by (intro exI [of _ ?i]) auto
qed

lemma shift_node_slot:
  assumes "safe_move ti ti' shift Q" "ti_capacity ti < NIL" "occupied (ti_capacity ti) Q i" "nd_slot x = i"
  shows "shift_node shift x = x\<lparr>nd_slot := nat (int i - shift)\<rparr>"
proof -
  have m: "0 \<le> int i - shift" "int i - shift < int (ti_capacity ti)" and i: "i < ti_capacity ti"
    using assms(1,3) by (auto simp: safe_move_def occupied_def)
  then have "in_i64 (int i - shift)" "(int i - shift) mod 2 ^ 32 = int i - shift" using assms(2) by (auto simp: in_i64_def)
  then show ?thesis using assms(2,4) i by (simp add: shift_node_def)
qed

lemma levels_ok_slide:
  assumes ok: "levels_ok ti ns cells Q" and mv: "safe_move ti ti' shift Q"
  defines "cap \<equiv> ti_capacity ti"
  assumes ns': "ns' = map (shift_node shift) ns \<or> shift = 0 \<and> ns' = ns"
    and cells': "\<And>s. cells' s = shift_cells cap shift (cells s)"
  shows "levels_ok ti' ns' cells' (slide cap shift Q)"
proof -
  note D = levels_okD [OF ok]
  have cap': "ti_capacity ti' = cap" and ti': "ti_ok ti'" using mv by (auto simp: safe_move_def cap_def)
  have len: "length ns' = length ns" using ns' by auto
  have nth: "ns' ! n = (ns ! n)\<lparr>nd_slot := nat (int i - shift)\<rparr>" if "i < cap" "n \<in> set (Q s i)" for s i n
  proof -
    have occ: "occupied (ti_capacity ti) Q i" using that by (auto simp: occupied_def cap_def intro!: exI [of _ s])
    have sl: "nd_slot (ns ! n) = i" and n: "n < length ns"
      using that D(7) [of i n s] D(9) [of i n s] by (auto simp: node_ok_def cap_def)
    show ?thesis
    proof (cases "ns' = map (shift_node shift) ns")
      case True
      then show ?thesis using n shift_node_slot [OF mv D(2) occ sl] by simp
    next
      case False
      then have "shift = 0" "ns' = ns" using ns' by auto
      then show ?thesis using sl by simp
    qed
  qed
  have "distinct (slide cap shift Q s j) \<and> seg ns' NIL (slide cap shift Q s j) NIL \<and>
      (\<forall>n \<in> set (slide cap shift Q s j). node_ok ti' s j (ns' ! n)) \<and> cell_ok ns' (cells' s ! j) (slide cap shift Q s j)"
    if j: "j < cap" for s j
  proof -
    have cell: "cells' s ! j = (if 0 \<le> int j + shift \<and> int j + shift < int cap then cells s ! nat (int j + shift) else cell_default)"
      using shift_cells_nth(2) [of "cells s" cap j shift] D(4) j by (simp add: cells' cap_def)
    show ?thesis
    proof (cases "0 \<le> int j + shift \<and> int j + shift < int cap")
      case True
      let ?i = "nat (int j + shift)"
      have i: "?i < cap" "nat (int ?i - shift) = j" using True by auto
      have q: "slide cap shift Q s j = Q s ?i" using True by (simp add: slide_def)
      have nth': "ns' ! n = (ns ! n)\<lparr>nd_slot := j\<rparr>" if "n \<in> set (Q s ?i)" for n using nth [OF i(1) that] i(2) by simp
      have "seg ns' NIL (Q s ?i) NIL = seg ns NIL (Q s ?i) NIL" by (rule seg_cong [OF len]) (simp add: nth')
      moreover have "cell_ok ns' (cells s ! ?i) (Q s ?i) = cell_ok ns (cells s ! ?i) (Q s ?i)" by (rule cell_ok_data) (simp add: nth')
      moreover have "node_ok ti' s j (ns' ! n)" if n: "n \<in> set (Q s ?i)" for n
      proof -
        have "occupied (ti_capacity ti) Q ?i" using i(1) n by (auto simp: occupied_def cap_def intro!: exI [of _ s])
        then have "price_at ti' j = price_at ti ?i" using mv i(2) by (auto simp: safe_move_def)
        then show ?thesis using D(7) [of ?i n s] i(1) n nth' [OF n] by (auto simp: node_ok_def cap_def)
      qed
      ultimately show ?thesis using D(5,6,8) [of ?i s] i(1) True unfolding q cell by (simp add: cap_def)
    next
      case False
      then show ?thesis by (auto simp: slide_def cell cell_ok_def cell_default_def)
    qed
  qed
  then show ?thesis using D(2,3,4,10) ti' cap' len shift_cells_nth(1) [OF D(4), of shift]
    unfolding levels_ok_def by (auto simp: cells' cap_def)
qed

lemma touch_slide:
  assumes "safe_move ti ti' shift Q"
  shows "touch s (ti_capacity ti) (slide (ti_capacity ti) shift Q s) = map_option (\<lambda>i. nat (int i - shift)) (touch s (ti_capacity ti) (Q s))"
proof (cases "touch s (ti_capacity ti) (Q s)")
  case None
  then have "slide (ti_capacity ti) shift Q s j = []" if "j < ti_capacity ti" for j
    using slide_source [OF assms that, of s] by (auto simp: touch_None)
  then show ?thesis using None touch_None by (metis option.map_disc_iff)
next
  case (Some x)
  then have x: "x < ti_capacity ti" "Q s x \<noteq> []" "\<And>j. j < ti_capacity ti \<Longrightarrow> Q s j \<noteq> [] \<Longrightarrow> \<not> better s j x"
    by (auto simp: touch_Some)
  obtain y where y: "y < ti_capacity ti" "int y = int x - shift" "slide (ti_capacity ti) shift Q s y = Q s x"
    using slide_moved [OF assms x(1,2)] by blast
  have "\<not> better s j y" if "j < ti_capacity ti" "slide (ti_capacity ti) shift Q s j \<noteq> []" for j
    using slide_source [OF assms that] x(3) y(2) by (cases s) fastforce+
  then have "touch s (ti_capacity ti) (slide (ti_capacity ti) shift Q s) = Some y" using y x(2) by (simp add: touch_Some)
  then show ?thesis using Some y(2) by auto
qed

lemma count_slide:
  assumes "safe_move ti ti' shift Q"
  shows "card {i. i < ti_capacity ti \<and> slide (ti_capacity ti) shift Q s i \<noteq> []} = card {i. i < ti_capacity ti \<and> Q s i \<noteq> []}"
proof -
  let ?g = "\<lambda>i. nat (int i - shift)" and ?A = "{i. i < ti_capacity ti \<and> Q s i \<noteq> []}"
  have "{i. i < ti_capacity ti \<and> slide (ti_capacity ti) shift Q s i \<noteq> []} = ?g ` ?A"
  proof (intro set_eqI iffI)
    fix j assume "j \<in> {i. i < ti_capacity ti \<and> slide (ti_capacity ti) shift Q s i \<noteq> []}"
    then obtain i where "i < ti_capacity ti" "int j = int i - shift" "Q s i \<noteq> []" using slide_source [OF assms] by blast
    then show "j \<in> ?g ` ?A" by (intro image_eqI [of _ _ i]) auto
  next
    fix j assume "j \<in> ?g ` ?A"
    then obtain i where i: "i < ti_capacity ti" "Q s i \<noteq> []" "j = ?g i" by auto
    obtain k where "k < ti_capacity ti" "int k = int i - shift" "slide (ti_capacity ti) shift Q s k = Q s i"
      using slide_moved [OF assms i(1,2)] by blast
    moreover from this have "k = j" using i(3) by simp
    ultimately show "j \<in> {i. i < ti_capacity ti \<and> slide (ti_capacity ti) shift Q s i \<noteq> []}" using i(2) by simp
  qed
  moreover have "inj_on ?g ?A"
  proof (rule inj_onI)
    fix a c assume a: "a \<in> ?A" and c: "c \<in> ?A" and eq: "?g a = ?g c"
    have "0 \<le> int a - shift" "0 \<le> int c - shift" using assms a c by (auto simp: safe_move_def occupied_def)
    then show "a = c" using eq by simp
  qed
  ultimately show ?thesis by (simp add: card_image)
qed

lemma shift_best_exact:
  assumes "safe_move ti ti' shift Q" "ti_capacity ti < NIL" "touch s (ti_capacity ti) (Q s) = Some i"
  shows "shift_best shift i = nat (int i - shift)"
proof -
  have i: "i < ti_capacity ti" "Q s i \<noteq> []" using assms(3) by (auto simp: touch_Some)
  then have m: "0 \<le> int i - shift" "int i - shift < int (ti_capacity ti)" using assms(1) by (auto simp: safe_move_def occupied_def)
  then have "in_i64 (int i)" "in_i64 (int i - shift)" "(int i - shift) mod 2 ^ 64 = int i - shift"
    using i(1) assms(2) by (auto simp: in_i64_def)
  then show ?thesis by (simp add: shift_best_def)
qed

text \<open>What a rebase leaves: the same queues at the same prices in a window that holds the new price,
  and everything but the window, the arrays and the slot numbers as it was.\<close>

definition rebased :: "mbo \<Rightarrow> mbo \<Rightarrow> queues \<Rightarrow> queues \<Rightarrow> bool" where
  "rebased b b' Q Q' \<longleftrightarrow>
     ti_capacity (mb_index b') = ti_capacity (mb_index b) \<and> length (mb_nodes b') = length (mb_nodes b) \<and>
     (mb_free_head b', mb_map b', mb_map_mask b', mb_live b') = (mb_free_head b, mb_map b, mb_map_mask b, mb_live b) \<and>
     (\<forall>n < length (mb_nodes b). nd_next (mb_nodes b' ! n) = nd_next (mb_nodes b ! n) \<and>
        order_of (mb_nodes b' ! n) = order_of (mb_nodes b ! n) \<and> (nd_slot (mb_nodes b ! n) = NIL \<longrightarrow> mb_nodes b' ! n = mb_nodes b ! n)) \<and>
     (\<forall>s. \<forall>i < ti_capacity (mb_index b). Q s i \<noteq> [] \<longrightarrow>
        (\<exists>j < ti_capacity (mb_index b). Q' s j = Q s i \<and> price_at (mb_index b') j = price_at (mb_index b) i)) \<and>
     (\<forall>s. \<forall>j < ti_capacity (mb_index b). Q' s j \<noteq> [] \<longrightarrow>
        (\<exists>i < ti_capacity (mb_index b). Q' s j = Q s i \<and> price_at (mb_index b') j = price_at (mb_index b) i))"

lemma shift_node_frame:
  "nd_next (shift_node d x) = nd_next x" "order_of (shift_node d x) = order_of x" "nd_slot x = NIL \<Longrightarrow> shift_node d x = x"
  by (simp_all add: shift_node_def order_of_def)

lemma rebase_ok:
  assumes ok: "levels_ok (mb_index b) (mb_nodes b) (cells_of b) Q" and best: "best_ok (mb_index b) (best_of b) Q"
    and cnt: "count_ok (mb_index b) (counts_of b) Q" and p: "price_ok p"
    and eq: "rebase_for (mb_index b) p (book_keep b) = Some (ti', shift)"
  shows "\<exists>b' Q'. rebase k p b = (b', Ok ()) \<and> mb_index b' = ti' \<and> rebased b b' Q Q' \<and>
     levels_ok ti' (mb_nodes b') (cells_of b') Q' \<and> best_ok ti' (best_of b') Q' \<and> count_ok ti' (counts_of b') Q'"
proof -
  let ?cap = "ti_capacity (mb_index b)"
  let ?b' = "fst (rebase k p b)" and ?Q = "slide ?cap shift Q"
  have mv: "safe_move (mb_index b) ti' shift Q" by (rule rebase_safe [OF ok p eq])
  have cap': "ti_capacity ti' = ?cap" using mv by (simp add: safe_move_def)
  have eq': "rebase_for (mb_index b) p (case occupied_extent b of
      (Some l, Some h) \<Rightarrow> Some (price_at (mb_index b) l, price_at (mb_index b) h) | _ \<Rightarrow> None) = Some (ti', shift)"
    using eq by (simp add: book_keep_def)
  have run: "rebase k p b = (?b', Ok ())" and fields: "mb_index ?b' = ti'"
     "(mb_free_head ?b', mb_map ?b', mb_map_mask ?b', mb_live ?b') = (mb_free_head b, mb_map b, mb_map_mask b, mb_live b)"
     "mb_nodes ?b' = (if shift \<noteq> 0 then map (shift_node shift) (mb_nodes b) else mb_nodes b)"
     "cells_of ?b' s = shift_cells ?cap shift (cells_of b s)" "counts_of ?b' s = counts_of b s"
     "best_of ?b' s = (if shift \<noteq> 0 then map_option (shift_best shift) (best_of b s) else best_of b s)" for s
    using eq' by (cases s; simp add: rebase_def Let_def)+
  have lv: "levels_ok ti' (mb_nodes ?b') (cells_of ?b') ?Q"
    by (rule levels_ok_slide [OF ok mv]) (simp_all add: fields)
  have "best_of ?b' s = touch s ?cap (?Q s)" for s
    unfolding touch_slide [OF mv] fields using best shift_best_exact [OF mv levels_okD(2) [OF ok], of s]
    by (cases "touch s ?cap (Q s)") (auto simp: best_ok_def)
  then have "best_ok ti' (best_of ?b') ?Q" by (simp add: best_ok_def cap')
  moreover have "count_ok ti' (counts_of ?b') ?Q"
    using cnt by (simp add: count_ok_def cap' fields(5) count_slide [OF mv])
  moreover have "rebased b ?b' Q ?Q"
    unfolding rebased_def
  proof (intro conjI allI impI)
    show "\<exists>j < ?cap. ?Q s j = Q s i \<and> price_at (mb_index ?b') j = price_at (mb_index b) i" if "i < ?cap" "Q s i \<noteq> []" for s i
      using slide_moved [OF mv that] by (auto simp: fields)
    show "\<exists>i < ?cap. ?Q s j = Q s i \<and> price_at (mb_index ?b') j = price_at (mb_index b) i" if "j < ?cap" "?Q s j \<noteq> []" for s j
      using slide_source [OF mv that] by (auto simp: fields)
  qed (use fields cap' in \<open>auto simp: shift_node_frame\<close>)
  ultimately show ?thesis using run fields(1) lv by blast
qed

lemma rebase_refused:
  assumes "rebase_for (mb_index b) p (book_keep b) = None"
  shows "rebase k p b = (b, Err (PriceOutOfRange k p))"
proof -
  have "rebase_for (mb_index b) p (case occupied_extent b of
      (Some l, Some h) \<Rightarrow> Some (price_at (mb_index b) l, price_at (mb_index b) h) | _ \<Rightarrow> None) = None"
    using assms by (simp add: book_keep_def)
  then show ?thesis by (simp add: rebase_def Let_def)
qed

lemma rebased_refl: "rebased b b Q Q"
  by (auto simp: rebased_def)

text \<open>The slot for a price: found in the window, or in the window a rebase leaves, or refused with
  the book untouched.\<close>

lemma slot_for_ok:
  assumes ok: "levels_ok (mb_index b) (mb_nodes b) (cells_of b) Q" and best: "best_ok (mb_index b) (best_of b) Q"
    and cnt: "count_ok (mb_index b) (counts_of b) Q" and p: "price_ok p"
  obtains (found) i b' Q' where "slot_for k p b = (b', Ok i)" "i < ti_capacity (mb_index b)" "price_at (mb_index b') i = p" "rebased b b' Q Q'"
      "levels_ok (mb_index b') (mb_nodes b') (cells_of b') Q'" "best_ok (mb_index b') (best_of b') Q'" "count_ok (mb_index b') (counts_of b') Q'"
    | (off_grid) "slot_for k p b = (b, Err (PriceOffGrid k p))" "\<not> ti_tick (mb_index b) dvd p - ti_anchor (mb_index b)"
    | (refused) "slot_for k p b = (b, Err (PriceOutOfRange k p))" "ti_tick (mb_index b) dvd p - ti_anchor (mb_index b)"
        "rebase_for (mb_index b) p (book_keep b) = None"
proof (cases "ti_slot (mb_index b) p")
  case (At i)
  then have "slot_for k p b = (b, Ok i)" by (simp add: slot_for_def)
  then show ?thesis using At ti_slot_At_price [OF levels_okD(1) [OF ok] p] found rebased_refl ok best cnt by metis
next
  case OffGrid
  then show ?thesis using off_grid ti_slot_iff(2) [OF levels_okD(1) [OF ok] p] by (simp add: slot_for_def)
next
  case Outside
  then have grid: "ti_tick (mb_index b) dvd p - ti_anchor (mb_index b)"
    using ti_slot_iff(2) [OF levels_okD(1) [OF ok] p] by auto
  show ?thesis
  proof (cases "rebase_for (mb_index b) p (book_keep b)")
    case None
    then show ?thesis using refused grid Outside rebase_refused [OF None] by (simp add: slot_for_def sbind_def)
  next
    case (Some r)
    obtain ti' shift where r: "r = (ti', shift)" by (cases r)
    obtain b' Q' where b': "rebase k p b = (b', Ok ())" "mb_index b' = ti'" "rebased b b' Q Q'"
        "levels_ok ti' (mb_nodes b') (cells_of b') Q'" "best_ok ti' (best_of b') Q'" "count_ok ti' (counts_of b') Q'"
      using rebase_ok [OF ok best cnt p Some [unfolded r]] by blast
    obtain i where i: "i < ti_capacity (mb_index b)" "ti_slot ti' p = At i"
      using rebase_for_contains [OF levels_okD(1) [OF ok] p book_keep_ok [OF ok] Some [unfolded r]] by blast
    have "slot_for k p b = (b', Ok i)" using Outside b'(1,2) i(2) by (simp add: slot_for_def sbind_def)
    then show ?thesis using found i b' ti_slot_At_price [OF levels_okD(1) [OF b'(4)] p] by metis
  qed
qed

end
