(* ===== verification/MboInv.thy ===== *)
theory MboInv
  imports MboWindow
begin

text \<open>
  The invariant of the fast book: levels, touch, counters, free list and id map are views of one set
  of queued nodes; and the relation to the abstract book, level by level.
\<close>

section \<open>The invariant\<close>

definition queued :: "nat \<Rightarrow> queues \<Rightarrow> nat set" where
  "queued cap Q = {n. \<exists>s. \<exists>i < cap. n \<in> set (Q s i)}"

definition ids_ok :: "map_entry list \<Rightarrow> node list \<Rightarrow> nat set \<Rightarrow> bool" where
  "ids_ok es ns N \<longleftrightarrow> (\<forall>k n. map_content es k = Some n \<longleftrightarrow> n \<in> N \<and> nd_order_id (ns ! n) = k)"

definition mbo_inv :: "mbo \<Rightarrow> queues \<Rightarrow> nat list \<Rightarrow> bool" where
  "mbo_inv b Q F \<longleftrightarrow> levels_ok (mb_index b) (mb_nodes b) (cells_of b) Q \<and>
     best_ok (mb_index b) (best_of b) Q \<and> count_ok (mb_index b) (counts_of b) Q \<and>
     free_chain (mb_nodes b) (mb_free_head b) F \<and> distinct F \<and>
     set F \<union> queued (ti_capacity (mb_index b)) Q = {..<length (mb_nodes b)} \<and>
     map_wf (mb_map_mask b) (mb_map b) \<and> length (mb_nodes b) < length (mb_map b) \<and>
     ids_ok (mb_map b) (mb_nodes b) (queued (ti_capacity (mb_index b)) Q) \<and> mb_live b = map_used (mb_map b)"

definition orders_match :: "tick_index \<Rightarrow> node list \<Rightarrow> queues \<Rightarrow> spec_book \<Rightarrow> bool" where
  "orders_match ti ns Q bs \<longleftrightarrow>
     (\<forall>s. \<forall>i < ti_capacity ti. map (\<lambda>n. order_of (ns ! n)) (Q s i) = filter (\<lambda>x. ro_side x = s \<and> ro_price x = price_at ti i) bs) \<and>
     (\<forall>x \<in> set bs. \<exists>i < ti_capacity ti. price_at ti i = ro_price x)"

definition mbo_rel :: "mbo \<Rightarrow> spec_book \<Rightarrow> bool" where
  "mbo_rel b bs \<longleftrightarrow> spec_wf bs \<and> (\<exists>Q F. mbo_inv b Q F \<and> orders_match (mb_index b) (mb_nodes b) Q bs)"

lemma mbo_invD:
  assumes "mbo_inv b Q F"
  shows "levels_ok (mb_index b) (mb_nodes b) (cells_of b) Q" "best_ok (mb_index b) (best_of b) Q"
    "count_ok (mb_index b) (counts_of b) Q" "free_chain (mb_nodes b) (mb_free_head b) F" "distinct F"
    "set F \<union> queued (ti_capacity (mb_index b)) Q = {..<length (mb_nodes b)}" "map_wf (mb_map_mask b) (mb_map b)"
    "length (mb_nodes b) < length (mb_map b)" "ids_ok (mb_map b) (mb_nodes b) (queued (ti_capacity (mb_index b)) Q)"
    "mb_live b = map_used (mb_map b)"
  using assms by (simp_all add: mbo_inv_def)

lemma queued_find:
  assumes "levels_ok ti ns cells Q" "n \<in> queued (ti_capacity ti) Q"
  shows "nd_slot (ns ! n) < ti_capacity ti" "n \<in> set (Q (nd_side (ns ! n)) (nd_slot (ns ! n)))" "n < length ns"
    "node_ok ti (nd_side (ns ! n)) (nd_slot (ns ! n)) (ns ! n)"
proof -
  obtain s i where si: "i < ti_capacity ti" "n \<in> set (Q s i)" using assms(2) by (auto simp: queued_def)
  note ok = levels_okD(7) [OF assms(1) si]
  then have "nd_slot (ns ! n) = i" "nd_side (ns ! n) = s" by (auto simp: node_ok_def)
  with si ok levels_okD(9) [OF assms(1) si]
  show "nd_slot (ns ! n) < ti_capacity ti" "n \<in> set (Q (nd_side (ns ! n)) (nd_slot (ns ! n)))" "n < length ns"
    "node_ok ti (nd_side (ns ! n)) (nd_slot (ns ! n)) (ns ! n)" by auto
qed

lemma queued_slot:
  "levels_ok ti ns cells Q \<Longrightarrow> n \<in> queued (ti_capacity ti) Q \<Longrightarrow> nd_slot (ns ! n) < ti_capacity ti \<and> nd_slot (ns ! n) \<noteq> NIL"
  using queued_find(1) [of ti ns cells Q n] levels_okD(2) [of ti ns cells Q] by simp

lemma free_not_queued:
  "levels_ok ti ns cells Q \<Longrightarrow> free_chain ns h F \<Longrightarrow> n \<in> set F \<Longrightarrow> n \<notin> queued (ti_capacity ti) Q"
  using free_chain_less queued_slot by blast

lemma used_room:
  assumes "mbo_inv b Q F"
  shows "map_used (mb_map b) \<le> length (mb_nodes b)" "map_used (mb_map b) < length (mb_map b)"
    "map_used (mb_map b) = card (queued (ti_capacity (mb_index b)) Q)"
proof -
  note I = mbo_invD [OF assms]
  let ?N = "queued (ti_capacity (mb_index b)) Q" and ?m = "map_content (mb_map b)"
  have sub: "?N \<subseteq> {..<length (mb_nodes b)}" using I(6) by blast
  have ids: "ids_distinct (mb_map b)" using I(7) by (simp add: map_wf_def)
  have dom: "dom ?m = (\<lambda>n. nd_order_id (mb_nodes b ! n)) ` ?N"
    using I(9) unfolding ids_ok_def by (auto simp: dom_def image_iff)
  have inj: "inj_on (\<lambda>n. nd_order_id (mb_nodes b ! n)) ?N"
    using I(9) unfolding ids_ok_def inj_on_def by (metis option.inject)
  show eq: "map_used (mb_map b) = card ?N" using map_used_card [OF ids] card_image [OF inj] by (simp add: dom)
  show "map_used (mb_map b) \<le> length (mb_nodes b)" using card_mono [OF _ sub] eq by simp
  then show "map_used (mb_map b) < length (mb_map b)" using I(8) by simp
qed

lemma id_unique:
  assumes "ids_ok es ns N" "n \<in> N" "m \<in> N" "nd_order_id (ns ! n) = nd_order_id (ns ! m)"
  shows "n = m"
  using assms unfolding ids_ok_def by (metis option.inject)

lemma orders_matchD:
  assumes "orders_match ti ns Q bs"
  shows "i < ti_capacity ti \<Longrightarrow> map (\<lambda>n. order_of (ns ! n)) (Q s i) = filter (\<lambda>x. ro_side x = s \<and> ro_price x = price_at ti i) bs"
    "x \<in> set bs \<Longrightarrow> \<exists>i < ti_capacity ti. price_at ti i = ro_price x"
  using assms by (auto simp: orders_match_def)

lemma match_get:
  assumes inv: "mbo_inv b Q F" and wf: "spec_wf bs" and mt: "orders_match (mb_index b) (mb_nodes b) Q bs"
  shows "spec_get k bs = map_option (\<lambda>n. order_of (mb_nodes b ! n)) (map_content (mb_map b) k)"
proof -
  note I = mbo_invD [OF inv]
  have dist: "distinct (map ro_order_id bs)" using wf by (simp add: spec_wf_def)
  show ?thesis
  proof (cases "map_content (mb_map b) k")
    case (Some n)
    then have n: "n \<in> queued (ti_capacity (mb_index b)) Q" "nd_order_id (mb_nodes b ! n) = k"
      using I(9) by (auto simp: ids_ok_def)
    then obtain s i where "i < ti_capacity (mb_index b)" "n \<in> set (Q s i)" by (auto simp: queued_def)
    then have "order_of (mb_nodes b ! n) \<in> set (filter (\<lambda>x. ro_side x = s \<and> ro_price x = price_at (mb_index b) i) bs)"
      by (simp flip: orders_matchD(1) [OF mt])
    then have "order_of (mb_nodes b ! n) \<in> set bs" by simp
    moreover have "ro_order_id (order_of (mb_nodes b ! n)) = k" using n(2) by (simp add: order_of_def)
    ultimately show ?thesis using Some spec_get_Some_iff [OF dist] by simp
  next
    case None
    have "spec_get k bs = None"
    proof (rule ccontr)
      assume "spec_get k bs \<noteq> None"
      then obtain x where x: "x \<in> set bs" "ro_order_id x = k" using spec_get_SomeD by blast
      then obtain i where i: "i < ti_capacity (mb_index b)" "price_at (mb_index b) i = ro_price x" using orders_matchD(2) [OF mt] by blast
      then have "x \<in> set (map (\<lambda>n. order_of (mb_nodes b ! n)) (Q (ro_side x) i))"
        using x(1) unfolding orders_matchD(1) [OF mt i(1)] by simp
      then obtain n where "n \<in> set (Q (ro_side x) i)" "x = order_of (mb_nodes b ! n)" by auto
      then have "n \<in> queued (ti_capacity (mb_index b)) Q" "nd_order_id (mb_nodes b ! n) = k"
        using i(1) x(2) by (auto simp: queued_def order_of_def)
      then have "map_content (mb_map b) k = Some n" using I(9) unfolding ids_ok_def by blast
      then show False using None by simp
    qed
    then show ?thesis using None by simp
  qed
qed

lemma match_length:
  assumes inv: "mbo_inv b Q F" and wf: "spec_wf bs" and mt: "orders_match (mb_index b) (mb_nodes b) Q bs"
  shows "mb_live b = length bs"
proof -
  have dist: "distinct (map ro_order_id bs)" using wf by (simp add: spec_wf_def)
  have "dom (map_content (mb_map b)) = {k. spec_get k bs \<noteq> None}" using match_get [OF assms] by (auto simp: dom_def)
  also have "\<dots> = set (map ro_order_id bs)" using spec_get_None_iff by auto
  finally have "card (dom (map_content (mb_map b))) = length bs" using distinct_card [OF dist] by simp
  then show ?thesis using mbo_invD(7,10) [OF inv] map_used_card by (simp add: map_wf_def)
qed

section \<open>Frame\<close>

definition same_book :: "mbo \<Rightarrow> mbo \<Rightarrow> bool" where
  "same_book b b' \<longleftrightarrow> mb_core b' = mb_core b \<and> best_of b' = best_of b \<and> counts_of b' = counts_of b"

lemma same_bookD:
  assumes "same_book b b'"
  shows "mb_index b' = mb_index b" "mb_nodes b' = mb_nodes b" "side_cells s b' = side_cells s b"
    "mb_free_head b' = mb_free_head b" "mb_map b' = mb_map b" "mb_map_mask b' = mb_map_mask b" "mb_live b' = mb_live b"
    "best_slot s b' = best_slot s b" "side_levels s b' = side_levels s b"
  using assms core_eqD [of b' b] fun_cong [of "best_of b'" "best_of b" s] fun_cong [of "counts_of b'" "counts_of b" s]
  unfolding same_book_def by auto

lemma same_book_inv: "same_book b b' \<Longrightarrow> mbo_inv b' Q F = mbo_inv b Q F"
  using same_bookD [of b b'] by (simp add: mbo_inv_def)

lemma same_book_rel: "same_book b b' \<Longrightarrow> mbo_rel b' bs = mbo_rel b bs"
  by (simp add: mbo_rel_def same_book_inv same_bookD)

lemma find_ok:
  assumes inv: "mbo_inv b Q F"
  obtains (absent) b1 where "map_find k b = (b1, Ok None)" "same_book b b1" "map_content (mb_map b) k = None"
    | (present) b1 m n p where "map_find k b = (b1, Ok (Some m))" "same_book b b1" "map_probe (mb_map b) (mb_map_mask b) k = Ok (Some m, p)"
        "m < length (mb_map b)" "me_node (mb_map b ! m) = n" "map_content (mb_map b) k = Some n"
proof -
  note I = mbo_invD [OF inv] and room = used_room(2) [OF inv]
  let ?b = "\<lambda>p. b\<lparr>mb_stats := (mb_stats b)\<lparr>ms_lookups := wrap_add_u64 (ms_lookups (mb_stats b)) 1,
                ms_extra_probes := wrap_add_u64 (ms_extra_probes (mb_stats b)) p\<rparr>\<rparr>"
  have same: "same_book b (?b p)" for p
  proof -
    have "best_slot s (?b p) = best_slot s b" "side_levels s (?b p) = side_levels s b" for s by (cases s; simp)+
    then show ?thesis by (simp add: same_book_def mb_core_def)
  qed
  show thesis
  proof (cases rule: tbl.lookup_cases [OF I(7) room, of k])
    case (1 p)
    then show thesis using absent [of "?b p"] same by (simp add: map_find_def)
  next
    case (2 m p)
    have "occ (mb_map b) m" using map_probe_ok [OF I(7) room, of k] 2(1) by auto
    then have "m < length (mb_map b)" by (rule occ_less)
    then show thesis using present [of "?b p" m p] same 2 by (simp add: map_find_def)
  qed
qed

section \<open>Detaching and attaching: the other views\<close>

lemma queued_set_queue:
  assumes "i < cap"
  shows "queued cap (set_queue Q s i q) = set q \<union> {n. \<exists>t j. j < cap \<and> (t, j) \<noteq> (s, i) \<and> n \<in> set (Q t j)}"
proof (intro set_eqI iffI)
  fix n assume "n \<in> queued cap (set_queue Q s i q)"
  then obtain t j where "j < cap" "n \<in> set (set_queue Q s i q t j)" by (auto simp: queued_def)
  then have "n \<in> set q \<or> j < cap \<and> (t, j) \<noteq> (s, i) \<and> n \<in> set (Q t j)"
    by (cases "(t, j) = (s, i)") (auto simp: set_queue_def)
  then show "n \<in> set q \<union> {n. \<exists>t j. j < cap \<and> (t, j) \<noteq> (s, i) \<and> n \<in> set (Q t j)}"
    unfolding Un_iff mem_Collect_eq by iprover
next
  fix n assume "n \<in> set q \<union> {n. \<exists>t j. j < cap \<and> (t, j) \<noteq> (s, i) \<and> n \<in> set (Q t j)}"
  then consider "n \<in> set q" | t j where "j < cap" "(t, j) \<noteq> (s, i)" "n \<in> set (Q t j)"
    unfolding Un_iff mem_Collect_eq by iprover
  then show "n \<in> queued cap (set_queue Q s i q)"
  proof cases
    case 1
    then have "n \<in> set (set_queue Q s i q s i)" by (simp add: set_queue_def)
    then show ?thesis using assms unfolding queued_def by blast
  next
    case (2 t j)
    then have "n \<in> set (set_queue Q s i q t j)" by (auto simp: set_queue_def)
    then show ?thesis using 2(1) unfolding queued_def by blast
  qed
qed

lemma queued_detach:
  assumes ok: "levels_ok ti ns cells Q" and i: "i < ti_capacity ti" and q: "Q s i = xs @ n # ys"
  shows "queued (ti_capacity ti) (set_queue Q s i (xs @ ys)) = queued (ti_capacity ti) Q - {n}"
proof -
  let ?R = "{m. \<exists>t j. j < ti_capacity ti \<and> (t, j) \<noteq> (s, i) \<and> m \<in> set (Q t j)}"
  have "set_queue Q s i (xs @ n # ys) = Q" using q by (auto simp: set_queue_def fun_eq_iff)
  then have old: "queued (ti_capacity ti) Q = set (xs @ n # ys) \<union> ?R" using queued_set_queue [OF i, of Q s "xs @ n # ys"] by simp
  have "n \<notin> ?R" using queues_disjoint [OF ok i, of _ n s] q by fastforce
  moreover have "n \<notin> set (xs @ ys)" using levels_okD(5) [OF ok i, of s] q by simp
  ultimately show ?thesis unfolding old queued_set_queue [OF i] by auto
qed

lemma queued_attach:
  assumes "i < cap"
  shows "queued cap (set_queue Q s i (Q s i @ [n])) = insert n (queued cap Q)"
proof -
  have "set_queue Q s i (Q s i) = Q" by (auto simp: set_queue_def fun_eq_iff)
  then have "queued cap Q = set (Q s i) \<union> {m. \<exists>t j. j < cap \<and> (t, j) \<noteq> (s, i) \<and> m \<in> set (Q t j)}"
    using queued_set_queue [OF assms, of Q s "Q s i"] by simp
  then show ?thesis using queued_set_queue [OF assms, of Q s "Q s i @ [n]"] by auto
qed

lemma match_detach:
  assumes ok: "levels_ok ti ns cells Q" and i: "i < ti_capacity ti" and q: "Q s i = xs @ n # ys"
    and ids: "ids_ok es ns (queued (ti_capacity ti) Q)" and mt: "orders_match ti ns Q bs"
    and data: "\<And>m. m \<in> queued (ti_capacity ti) Q \<Longrightarrow> m \<noteq> n \<Longrightarrow> order_of (ns' ! m) = order_of (ns ! m)"
  shows "orders_match ti ns' (set_queue Q s i (xs @ ys)) (spec_drop (nd_order_id (ns ! n)) bs)"
  unfolding orders_match_def
proof (intro conjI allI impI ballI)
  let ?k = "nd_order_id (ns ! n)"
  have nq: "n \<in> queued (ti_capacity ti) Q" using i q unfolding queued_def by (auto intro!: exI [of _ s] exI [of _ i])
  fix t j assume j: "j < ti_capacity ti"
  have inq: "m \<in> queued (ti_capacity ti) Q" if "m \<in> set (Q t j)" for m using j that by (auto simp: queued_def)
  have key: "nd_order_id (ns ! m) \<noteq> ?k \<longleftrightarrow> m \<noteq> n" if "m \<in> set (Q t j)" for m
    using id_unique [OF ids inq [OF that] nq] by auto
  have "filter (\<lambda>m. m \<noteq> n) (Q t j) = set_queue Q s i (xs @ ys) t j"
  proof (cases "(t, j) = (s, i)")
    case True
    have "n \<notin> set (xs @ ys)" using levels_okD(5) [OF ok i, of s] q by simp
    then have "filter (\<lambda>m. m \<noteq> n) xs = xs" "filter (\<lambda>m. m \<noteq> n) ys = ys" by (auto intro: filter_True)
    then show ?thesis using True q by (simp add: set_queue_def)
  next
    case False
    then have "n \<notin> set (Q t j)" using queues_disjoint [OF ok i j, of n s t] q by auto
    then have "filter (\<lambda>m. m \<noteq> n) (Q t j) = Q t j" by (auto intro: filter_True)
    then show ?thesis using False by (auto simp: set_queue_def)
  qed
  then have "map (\<lambda>m. order_of (ns' ! m)) (set_queue Q s i (xs @ ys) t j) = map (\<lambda>m. order_of (ns ! m)) (filter (\<lambda>m. m \<noteq> n) (Q t j))"
    using data inq by (auto simp flip: \<open>filter _ _ = _\<close>)
  also have "\<dots> = filter (\<lambda>x. ro_order_id x \<noteq> ?k) (map (\<lambda>m. order_of (ns ! m)) (Q t j))"
    using key by (simp add: filter_map comp_def order_of_def cong: filter_cong)
  also have "\<dots> = filter (\<lambda>x. ro_side x = t \<and> ro_price x = price_at ti j) (spec_drop ?k bs)"
    by (simp add: orders_matchD(1) [OF mt j] spec_drop_def conj_ac)
  finally show "map (\<lambda>m. order_of (ns' ! m)) (set_queue Q s i (xs @ ys) t j) =
      filter (\<lambda>x. ro_side x = t \<and> ro_price x = price_at ti j) (spec_drop ?k bs)" .
qed (use orders_matchD(2) [OF mt] in simp)

lemma match_attach:
  assumes i: "i < ti_capacity ti" and ok: "ti_ok ti" and mt: "orders_match ti ns Q bs"
    and data: "\<And>m. m \<in> queued (ti_capacity ti) Q \<Longrightarrow> order_of (ns' ! m) = order_of (ns ! m)"
    and x: "order_of (ns' ! n) = x" "ro_side x = s" "ro_price x = price_at ti i"
  shows "orders_match ti ns' (set_queue Q s i (Q s i @ [n])) (bs @ [x])"
  unfolding orders_match_def
proof (intro conjI allI impI ballI)
  fix t j assume j: "j < ti_capacity ti"
  have "map (\<lambda>m. order_of (ns' ! m)) (Q t j) = map (\<lambda>m. order_of (ns ! m)) (Q t j)"
    using data j by (auto simp: queued_def)
  moreover have "ro_side x = t \<and> ro_price x = price_at ti j \<longleftrightarrow> (t, j) = (s, i)"
    using x price_at_inj [OF ok i j] by auto
  ultimately show "map (\<lambda>m. order_of (ns' ! m)) (set_queue Q s i (Q s i @ [n]) t j) =
      filter (\<lambda>x. ro_side x = t \<and> ro_price x = price_at ti j) (bs @ [x])"
    using orders_matchD(1) [OF mt j] x(1) by (auto simp: set_queue_def)
qed (use orders_matchD(2) [OF mt] i x(3) in auto)

lemma close_level_touch:
  assumes "touch_bound s cap f (best_slot s b)" "cap = ti_capacity (mb_index b)" "0 < cap"
    and "\<And>i. i < cap \<Longrightarrow> cell_empty (side_cells s b ! i) \<longleftrightarrow> f i = []"
    and "\<And>x. best_slot s b = Some x \<Longrightarrow> x \<noteq> i \<Longrightarrow> f x \<noteq> []"
  shows "best_slot s (close_level s i b) = touch s cap f"
proof (cases "best_slot s b = Some i")
  case True
  then show ?thesis using rescan_touch [OF assms(1-4)] by (simp add: close_level_def)
next
  case False
  then have "f x \<noteq> []" if "best_slot s b = Some x" for x using assms(5) [OF that] that by auto
  then show ?thesis using touch_bound_exact [OF assms(1)] False by (simp add: close_level_def)
qed

lemma touch_bound_exact_ok: "touch_bound s cap f (touch s cap f)"
proof (cases "touch s cap f")
  case None
  then have "\<forall>j < cap. f j = []" using touch_None by metis
  then show ?thesis unfolding None by (simp add: touch_bound_def)
next
  case (Some x)
  then have "x < cap \<and> (\<forall>j < cap. f j \<noteq> [] \<longrightarrow> \<not> better s j x)" using touch_Some by metis
  then show ?thesis unfolding Some by (simp add: touch_bound_def)
qed

lemma touch_bound_shrink: "touch_bound s cap f v \<Longrightarrow> (\<And>j. f' j \<noteq> [] \<Longrightarrow> f j \<noteq> []) \<Longrightarrow> touch_bound s cap f' v"
  by (auto simp: touch_bound_def split: option.splits)

lemma count_closed:
  assumes "count_ok ti lv Q" "i < ti_capacity ti" "Q s i \<noteq> []" "ti_capacity ti < NIL"
  shows "count_ok ti (\<lambda>t. if t = s \<and> q = [] then wrap_dec_u32 (lv t) else lv t) (set_queue Q s i q)"
proof -
  have "lv s = card {j. j < ti_capacity ti \<and> Q s j \<noteq> []}" using assms(1) by (simp add: count_ok_def)
  moreover have "card {j. j < ti_capacity ti \<and> Q s j \<noteq> []} \<le> ti_capacity ti" by (rule count_bound)
  ultimately show ?thesis using count_update [OF assms(2), of "Q s" q] assms
    by (auto simp: count_ok_def set_queue_fun simp del: fun_upd_apply)
qed

lemma count_opened:
  assumes "count_ok ti lv Q" "i < ti_capacity ti" "q \<noteq> []" "ti_capacity ti < NIL"
  shows "count_ok ti (\<lambda>t. if t = s \<and> Q s i = [] then wrap_inc_u32 (lv t) else lv t) (set_queue Q s i q)"
proof -
  have "lv s = card {j. j < ti_capacity ti \<and> Q s j \<noteq> []}" using assms(1) by (simp add: count_ok_def)
  moreover have "card {j. j < ti_capacity ti \<and> Q s j \<noteq> []} \<le> ti_capacity ti" by (rule count_bound)
  ultimately show ?thesis using count_update [OF assms(2), of "Q s" q] assms
    by (auto simp: count_ok_def set_queue_fun simp del: fun_upd_apply)
qed

lemma levels_ok_loose:
  assumes ok: "levels_ok ti ns cells Q" and n: "n \<notin> queued (ti_capacity ti) Q"
  shows "levels_ok ti (ns[n := v]) cells Q"
proof -
  have cap: "0 < ti_capacity ti" using levels_okD(1) [OF ok] by (simp add: ti_ok_def)
  note D = levels_okD [OF ok]
  have same: "ns[n := v] ! m = ns ! m" if "j < ti_capacity ti" "m \<in> set (Q t j)" for t j m
  proof -
    have "m \<noteq> n" using n that by (auto simp: queued_def)
    then show ?thesis by simp
  qed
  have "levels_ok ti (ns[n := v]) cells (set_queue Q Bid 0 (Q Bid 0))"
  proof (rule levels_ok_update [OF ok cap])
    show "seg (ns[n := v]) NIL (Q Bid 0) NIL"
      using seg_cong [of "ns[n := v]" ns "Q Bid 0"] same [OF cap] D(6) [OF cap] by simp
    show "cell_ok (ns[n := v]) (cells Bid ! 0) (Q Bid 0)"
      using cell_ok_data [of "Q Bid 0" "ns[n := v]" ns] same [OF cap] D(8) [OF cap] by simp
  qed (use same cap D(5,7) [OF cap] in auto)
  moreover have "set_queue Q Bid 0 (Q Bid 0) = Q" by (auto simp: set_queue_def fun_eq_iff)
  ultimately show ?thesis by simp
qed

end
