(* ===== verification/MboRefine.thy ===== *)
theory MboRefine
  imports MboInv
begin

text \<open>
  Every operation of the fast book preserves its invariant and matches the abstract book.
\<close>

section \<open>Shared steps\<close>

lemma view_frame [simp]:
  "best_slot s (b\<lparr>mb_map := es\<rparr>) = best_slot s b" "best_slot s (b\<lparr>mb_nodes := ns\<rparr>) = best_slot s b"
  "best_slot s (b\<lparr>mb_free_head := h\<rparr>) = best_slot s b" "best_slot s (b\<lparr>mb_live := l\<rparr>) = best_slot s b"
  "best_slot s (b\<lparr>mb_stats := st\<rparr>) = best_slot s b"
  "side_levels s (b\<lparr>mb_map := es\<rparr>) = side_levels s b" "side_levels s (b\<lparr>mb_nodes := ns\<rparr>) = side_levels s b"
  "side_levels s (b\<lparr>mb_free_head := h\<rparr>) = side_levels s b" "side_levels s (b\<lparr>mb_live := l\<rparr>) = side_levels s b"
  "side_levels s (b\<lparr>mb_stats := st\<rparr>) = side_levels s b"
  "side_cells s (b\<lparr>mb_map := es\<rparr>) = side_cells s b" "side_cells s (b\<lparr>mb_free_head := h\<rparr>) = side_cells s b"
  "side_cells s (b\<lparr>mb_live := l\<rparr>) = side_cells s b" "side_cells s (b\<lparr>mb_stats := st\<rparr>) = side_cells s b"
  by (cases s; simp)+

lemma node_facts:
  assumes inv: "mbo_inv b Q F" and get: "map_content (mb_map b) k = Some n"
  obtains s i xs ys where "n < length (mb_nodes b)" "nd_order_id (mb_nodes b ! n) = k" "nd_side (mb_nodes b ! n) = s"
    "nd_slot (mb_nodes b ! n) = i" "i < ti_capacity (mb_index b)" "Q s i = xs @ n # ys" "n \<in> queued (ti_capacity (mb_index b)) Q"
    "node_ok (mb_index b) s i (mb_nodes b ! n)" "n \<noteq> NIL"
proof -
  note I = mbo_invD [OF inv]
  have n: "n \<in> queued (ti_capacity (mb_index b)) Q" "nd_order_id (mb_nodes b ! n) = k" using I(9) get by (auto simp: ids_ok_def)
  note f = queued_find [OF I(1) n(1)]
  obtain xs ys where "Q (nd_side (mb_nodes b ! n)) (nd_slot (mb_nodes b ! n)) = xs @ n # ys" using f(2) by (meson split_list)
  then show thesis using that f n levels_okD(3) [OF I(1)] by simp
qed

lemma free_relinked:
  assumes "levels_ok ti ns cells Q" "free_chain ns h F" "relinked S ns ns'" "S \<subseteq> queued (ti_capacity ti) Q"
  shows "free_chain ns' h F"
proof -
  have "ns' ! x = ns ! x" if "x \<in> set F" for x
    using free_not_queued [OF assms(1,2) that] assms(3,4) by (auto simp: relinked_def)
  then show ?thesis using free_chain_cong [of ns' ns F h] assms(2,3) by (simp add: relinked_def)
qed

lemma relinked_order: "relinked S ns ns' \<Longrightarrow> order_of (ns' ! m) = order_of (ns ! m)"
  by (rule order_of_data) (simp add: relinked_def)

lemma free_chain_update: "n \<notin> set F \<Longrightarrow> free_chain (ns[n := v]) h F = free_chain ns h F"
  by (rule free_chain_cong) (auto intro!: nth_list_update_neq)

lemma queue_in_queued: "i < cap \<Longrightarrow> set (Q s i) \<subseteq> queued cap Q"
  by (auto simp: queued_def)

lemma rest_eqD:
  assumes "mb_rest b' = mb_rest b"
  shows "mb_index b' = mb_index b" "mb_free_head b' = mb_free_head b" "mb_map b' = mb_map b" "mb_map_mask b' = mb_map_mask b"
    "mb_live b' = mb_live b" "best_slot s b' = best_slot s b" "side_levels s b' = side_levels s b"
  using assms by (cases s; simp add: mb_rest_def)+

lemma ids_same: "ids_ok es ns N \<Longrightarrow> (\<And>m. m \<in> N \<Longrightarrow> nd_order_id (ns' ! m) = nd_order_id (ns ! m)) \<Longrightarrow> ids_ok es ns' N"
  by (auto simp: ids_ok_def)

lemma ids_remove:
  assumes ok: "ids_ok es ns N" and n: "n \<in> N" and es': "map_content es' = (map_content es)(nd_order_id (ns ! n) := None)"
    and same: "\<And>m. m \<in> N \<Longrightarrow> m \<noteq> n \<Longrightarrow> nd_order_id (ns' ! m) = nd_order_id (ns ! m)"
  shows "ids_ok es' ns' (N - {n})"
  unfolding ids_ok_def
proof (intro allI)
  fix k m
  have u: "m = n" if "m \<in> N" "nd_order_id (ns ! m) = nd_order_id (ns ! n)" using id_unique [OF ok that(1) n that(2)] .
  have "map_content es k = Some m \<longleftrightarrow> m \<in> N \<and> nd_order_id (ns ! m) = k" using ok by (simp add: ids_ok_def)
  then show "map_content es' k = Some m \<longleftrightarrow> m \<in> N - {n} \<and> nd_order_id (ns' ! m) = k"
    using u same [of m] by (cases "m = n") (auto simp: es')
qed

lemma ids_put:
  assumes ok: "ids_ok es ns N" and n: "n \<notin> N" "nd_order_id (ns' ! n) = k" and es': "map_content es' = (map_content es)(k \<mapsto> n)"
    and new: "map_content es k = None"
    and same: "\<And>m. m \<in> N \<Longrightarrow> nd_order_id (ns' ! m) = nd_order_id (ns ! m)"
  shows "ids_ok es' ns' (insert n N)"
  unfolding ids_ok_def
proof (intro allI)
  fix j m
  have c: "map_content es j = Some m \<longleftrightarrow> m \<in> N \<and> nd_order_id (ns ! m) = j" for j m using ok by (simp add: ids_ok_def)
  show "map_content es' j = Some m \<longleftrightarrow> m \<in> insert n N \<and> nd_order_id (ns' ! m) = j"
    using c [of j m] c [of k m] n new same [of m] by (cases "m = n"; cases "j = k") (auto simp: es')
qed

lemma best_detach:
  assumes best: "best_ok ti (best_of b) Q" and lv: "levels_ok ti ns cells (set_queue Q s i [])" and i: "i < ti_capacity ti"
    and q: "Q s i \<noteq> []" and ti: "mb_index b = ti" "side_cells s b = cells s"
  shows "best_ok ti (best_of (close_level s i b)) (set_queue Q s i [])"
  unfolding best_ok_def
proof
  fix t
  let ?cap = "ti_capacity ti" and ?Q = "set_queue Q s i []"
  have b: "best_slot u b = touch u ?cap (Q u)" for u using best by (simp add: best_ok_def)
  show "best_slot t (close_level s i b) = touch t ?cap (?Q t)"
  proof (cases "t = s")
    case True
    have "best_slot s (close_level s i b) = touch s ?cap (?Q s)"
    proof (rule close_level_touch)
      show "touch_bound s ?cap (?Q s) (best_slot s b)" unfolding b
        by (rule touch_bound_shrink [OF touch_bound_exact_ok]) (auto simp: set_queue_def split: if_splits)
      show "?cap = ti_capacity (mb_index b)" "0 < ?cap" using ti i by auto
      show "cell_empty (side_cells s b ! j) \<longleftrightarrow> ?Q s j = []" if "j < ?cap" for j
        using cell_empty_iff [OF lv that, of s] ti(2) by simp
      show "?Q s y \<noteq> []" if "best_slot s b = Some y" "y \<noteq> i" for y
        using that by (simp add: b set_queue_def touch_Some)
    qed
    with True show ?thesis by simp
  next
    case False
    then show ?thesis using b by (simp add: set_queue_fun)
  qed
qed

lemma best_kept:
  assumes best: "best_ok ti best Q" and q: "Q s i \<noteq> []" "q \<noteq> []"
  shows "best_ok ti best (set_queue Q s i q)"
proof -
  have "set_queue Q s i q t j = [] \<longleftrightarrow> Q t j = []" for t j using q by (simp add: set_queue_def)
  then show ?thesis using best by (simp add: best_ok_def touch_def)
qed

lemma maybe_closed:
  "side_cells t ((if c then level_closed s else (\<lambda>b. b)) b) = side_cells t b"
  "mb_nodes ((if c then level_closed s else (\<lambda>b. b)) b) = mb_nodes b"
  by (cases c; cases s; cases t; simp)+

section \<open>Delete\<close>

lemma mbo_delete_ok:
  assumes rel: "mbo_rel b bs" and get: "spec_get k bs = Some x"
  shows "\<exists>b'. mbo_delete b k = (b', Ok x) \<and> mbo_rel b' (spec_drop k bs)"
proof -
  obtain Q F where inv: "mbo_inv b Q F" and wf: "spec_wf bs" and mt: "orders_match (mb_index b) (mb_nodes b) Q bs"
    using rel by (auto simp: mbo_rel_def)
  note I = mbo_invD [OF inv]
  let ?ns = "mb_nodes b" and ?ti = "mb_index b" and ?cap = "ti_capacity (mb_index b)"
  obtain n where cn: "map_content (mb_map b) k = Some n" and x: "x = order_of (?ns ! n)" using match_get [OF inv wf mt, of k] get by (cases "map_content (mb_map b) k") auto
  obtain b1 m p where f: "map_find k b = (b1, Ok (Some m))" "same_book b b1" "map_probe (mb_map b) (mb_map_mask b) k = Ok (Some m, p)"
      "m < length (mb_map b)" "me_node (mb_map b ! m) = n"
    by (cases rule: find_ok [OF inv, of k]) (auto simp: cn)
  note S = same_bookD [OF f(2)]
  obtain s i xs ys where N: "n < length ?ns" "nd_order_id (?ns ! n) = k" "nd_side (?ns ! n) = s" "nd_slot (?ns ! n) = i" "i < ?cap"
      "Q s i = xs @ n # ys" "n \<in> queued ?cap Q" "node_ok ?ti s i (?ns ! n)" "n \<noteq> NIL"
    by (rule node_facts [OF inv cn])
  have ok1: "levels_ok (mb_index b1) (mb_nodes b1) (cells_of b1) Q" using I(1) by (simp add: S)
  obtain b2 b3 where d: "unlink s i n b1 = (b2, Ok ())" "take_from_level s i (nd_quantity (?ns ! n)) b2 = (b3, Ok ())"
      "mb_rest b3 = mb_rest b1" "relinked (set (Q s i)) ?ns (mb_nodes b3)"
      "levels_ok ?ti (mb_nodes b3) (cells_of b3) (set_queue Q s i (xs @ ys))"
    using detach_ok [OF ok1, of i s xs n ys] N(5,6) by (auto simp: S)
  note R = rest_eqD [OF d(3)]
  obtain es where es: "map_remove_at (mb_map b) (mb_map_mask b) m = Ok es" "map_wf (mb_map_mask b) es" "length es = length (mb_map b)"
      "map_used es + 1 = map_used (mb_map b)" "map_content es = (map_content (mb_map b))(k := None)"
    using tbl.remove_ok [OF I(7) used_room(2) [OF inv] f(3)] by blast
  let ?Q = "set_queue Q s i (xs @ ys)" and ?c = "side_cells s b3 ! i"
  have c: "cell_empty ?c \<longleftrightarrow> xs @ ys = []" using cell_empty_iff [OF d(5) N(5), of s] by (simp add: set_queue_def)
  have il: "i < length (side_cells s b3)" using levels_okD(4) [OF d(5), of s] N(5) by simp
  let ?ns' = "(mb_nodes b3)[n := node_default\<lparr>nd_next := mb_free_head b\<rparr>]"
  let ?b6 = "b3\<lparr>mb_map := es, mb_nodes := ?ns', mb_free_head := n, mb_live := wrap_sub_u64 (mb_live b) 1\<rparr>"
  let ?b7 = "if xs @ ys = [] then close_level s i (level_closed s ?b6) else ?b6"
  have n3: "n < length (mb_nodes b3)" using N(1) d(4) by (simp add: relinked_def)
  have run: "mbo_delete b k = (?b7, Ok x)"
    using f(1,4,5) d(1,2) N(1,3,4) il c es(1) n3 x R(2-5)
    by (simp add: mbo_delete_def sbind_def map_node_at_def read_node_def S Let_def read_cell_def remove_id_at_def give_node_ok)
  have core: "mb_core ?b7 = mb_core ?b6" by simp
  note C = core_eqD [OF core]
  have fields: "mb_index ?b7 = ?ti" "mb_nodes ?b7 = ?ns'" "side_cells t ?b7 = side_cells t b3" "mb_free_head ?b7 = n"
      "mb_map ?b7 = es" "mb_map_mask ?b7 = mb_map_mask b" "mb_live ?b7 = wrap_sub_u64 (mb_live b) 1" for t
    by (simp_all only: C) (cases t; simp add: R S)+
  have out: "n \<notin> queued ?cap ?Q" using queued_detach [OF I(1) N(5,6)] by simp
  have lv: "levels_ok ?ti ?ns' (cells_of b3) ?Q" by (rule levels_ok_loose [OF d(5) out])
  have used: "0 < map_used (mb_map b)" "map_used (mb_map b) \<le> u64_max"
    using es(4) used_room(1) [OF inv] levels_okD(3) [OF I(1)] by auto
  have "free_chain (mb_nodes b3) (mb_free_head b) F"
    by (rule free_relinked [OF I(1,4) d(4) queue_in_queued [OF N(5)]])
  then have fr: "free_chain ?ns' n (n # F)" using free_not_queued [OF I(1,4)] N(7) n3 by (intro free_chain_give) auto
  have "mbo_inv ?b7 ?Q (n # F)"
    unfolding mbo_inv_def fields
  proof (intro conjI)
    show "levels_ok ?ti ?ns' (cells_of b3) ?Q" by (rule lv)
    show "free_chain ?ns' n (n # F)" by (rule fr)
    show "distinct (n # F)" using I(5) free_not_queued [OF I(1,4)] N(7) by auto
    show "set (n # F) \<union> queued ?cap ?Q = {..<length ?ns'}"
      using I(6) N(7) queued_detach [OF I(1) N(5,6)] d(4) by (auto simp: relinked_def)
    show "map_wf (mb_map_mask b) es" "length ?ns' < length es" using es(2,3) I(8) d(4) by (simp_all add: relinked_def)
    show "ids_ok es ?ns' (queued ?cap ?Q)"
      unfolding queued_detach [OF I(1) N(5,6)]
      by (rule ids_remove [OF I(9) N(7)]) (use N(2) d(4) es(5) in \<open>auto simp: relinked_def nd_data_def\<close>)
    show "wrap_sub_u64 (mb_live b) 1 = map_used es" using es(4) I(10) used by simp
    show "count_ok ?ti (counts_of ?b7) ?Q"
    proof -
      have "counts_of ?b7 = (\<lambda>t. if t = s \<and> xs @ ys = [] then wrap_dec_u32 (side_levels t b) else side_levels t b)"
        by (rule ext) (simp add: R(7) S(9))
      then show ?thesis using count_closed [OF I(3) N(5) _ levels_okD(2) [OF I(1)], of s "xs @ ys"] N(6) by simp
    qed
    show "best_ok ?ti (best_of ?b7) ?Q"
    proof -
      have "best_slot t ?b6 = best_slot t b" for t by (simp add: R(6) S(8))
      then have b6: "best_ok ?ti (best_of (level_closed s ?b6)) Q" "best_ok ?ti (best_of ?b6) Q" using I(2) by simp_all
      have ti: "mb_index (level_closed s ?b6) = ?ti" "side_cells s (level_closed s ?b6) = side_cells s b3"
        using R(1) S(1) by (cases s; simp)+
      have q: "Q s i \<noteq> []" using N(6) by simp
      show ?thesis
      proof (cases "xs @ ys = []")
        case True
        then show ?thesis using best_detach [OF b6(1) lv [unfolded True] N(5) q ti] by simp
      next
        case False
        then show ?thesis using best_kept [OF b6(2) q False] by auto
      qed
    qed
  qed
  moreover have "orders_match ?ti ?ns' ?Q (spec_drop k bs)"
  proof -
    have "order_of (?ns' ! m) = order_of (?ns ! m)" if "m \<noteq> n" for m using relinked_order [OF d(4), of m] that by simp
    then show ?thesis using match_detach [OF I(1) N(5,6) I(9) mt, of ?ns'] N(2) by simp
  qed
  ultimately have "mbo_rel ?b7 (spec_drop k bs)" unfolding mbo_rel_def fields using spec_wf_drop [OF wf] by blast
  then show ?thesis using run by blast
qed

section \<open>Add\<close>

lemma rebased_queued: "rebased b b' Q Q' \<Longrightarrow> queued (ti_capacity (mb_index b)) Q' = queued (ti_capacity (mb_index b)) Q"
proof (intro set_eqI iffI)
  let ?cap = "ti_capacity (mb_index b)"
  assume rb: "rebased b b' Q Q'"
  fix n
  { assume "n \<in> queued ?cap Q'"
    then obtain s j where j: "j < ?cap" "n \<in> set (Q' s j)" by (auto simp: queued_def)
    then have "Q' s j \<noteq> []" by auto
    then obtain i where "i < ?cap" "Q' s j = Q s i" using rb j(1) unfolding rebased_def by blast
    then show "n \<in> queued ?cap Q" using j(2) unfolding queued_def mem_Collect_eq by metis }
  { assume "n \<in> queued ?cap Q"
    then obtain s i where i: "i < ?cap" "n \<in> set (Q s i)" by (auto simp: queued_def)
    then have "Q s i \<noteq> []" by auto
    then obtain j where "j < ?cap" "Q' s j = Q s i" using rb i(1) unfolding rebased_def by blast
    then show "n \<in> queued ?cap Q'" using i(2) unfolding queued_def mem_Collect_eq by metis }
qed

lemma rebasedD:
  assumes "rebased b b' Q Q'"
  shows "ti_capacity (mb_index b') = ti_capacity (mb_index b)" "length (mb_nodes b') = length (mb_nodes b)"
    "mb_free_head b' = mb_free_head b" "mb_map b' = mb_map b" "mb_map_mask b' = mb_map_mask b" "mb_live b' = mb_live b"
    "n < length (mb_nodes b) \<Longrightarrow> nd_next (mb_nodes b' ! n) = nd_next (mb_nodes b ! n)"
    "n < length (mb_nodes b) \<Longrightarrow> order_of (mb_nodes b' ! n) = order_of (mb_nodes b ! n)"
    "n < length (mb_nodes b) \<Longrightarrow> nd_slot (mb_nodes b ! n) = NIL \<Longrightarrow> mb_nodes b' ! n = mb_nodes b ! n"
  using assms unfolding rebased_def by auto

lemma order_of_id: "order_of x = order_of y \<Longrightarrow> nd_order_id x = nd_order_id y \<and> nd_quantity x = nd_quantity y \<and> nd_side x = nd_side y \<and> nd_price x = nd_price y"
  by (simp add: order_of_def)

lemma rebased_inv:
  assumes inv: "mbo_inv b Q F" and rb: "rebased b b' Q Q'"
    and new: "levels_ok (mb_index b') (mb_nodes b') (cells_of b') Q'" "best_ok (mb_index b') (best_of b') Q'" "count_ok (mb_index b') (counts_of b') Q'"
  shows "mbo_inv b' Q' F"
proof -
  note I = mbo_invD [OF inv] and R = rebasedD [OF rb] and Q = rebased_queued [OF rb]
  have less: "n < length (mb_nodes b)" if "n \<in> queued (ti_capacity (mb_index b)) Q" for n using queued_find(3) [OF I(1) that] .
  have "free_chain (mb_nodes b') (mb_free_head b) F"
    using free_chain_cong [of "mb_nodes b'" "mb_nodes b" F "mb_free_head b"] R(2,9) free_chain_less [OF I(4)] I(4) by auto
  moreover have "ids_ok (mb_map b) (mb_nodes b') (queued (ti_capacity (mb_index b)) Q)"
    by (rule ids_same [OF I(9)]) (use R(8) less order_of_id in blast)
  ultimately show ?thesis using I new by (simp add: mbo_inv_def R(1-6) Q)
qed

lemma rebased_match:
  assumes inv: "mbo_inv b Q F" and rb: "rebased b b' Q Q'" and ok': "ti_ok (mb_index b')"
    and mt: "orders_match (mb_index b) (mb_nodes b) Q bs"
  shows "orders_match (mb_index b') (mb_nodes b') Q' bs"
proof -
  note I = mbo_invD [OF inv] and R = rebasedD [OF rb]
  let ?cap = "ti_capacity (mb_index b)"
  have fwd: "\<exists>j < ?cap. Q' s j = Q s i \<and> price_at (mb_index b') j = price_at (mb_index b) i" if "i < ?cap" "Q s i \<noteq> []" for s i
    using rb that unfolding rebased_def by blast
  have bwd: "\<exists>i < ?cap. Q' s j = Q s i \<and> price_at (mb_index b') j = price_at (mb_index b) i" if "j < ?cap" "Q' s j \<noteq> []" for s j
    using rb that unfolding rebased_def by blast
  have place: "\<exists>j < ?cap. Q' (ro_side x) j \<noteq> [] \<and> price_at (mb_index b') j = ro_price x" if x: "x \<in> set bs" for x
  proof -
    obtain i where i: "i < ?cap" "price_at (mb_index b) i = ro_price x" using orders_matchD(2) [OF mt x] by blast
    have "x \<in> set (map (\<lambda>n. order_of (mb_nodes b ! n)) (Q (ro_side x) i))"
      unfolding orders_matchD(1) [OF mt i(1)] using x i(2) by simp
    then have "Q (ro_side x) i \<noteq> []" by auto
    then show ?thesis using fwd [OF i(1), of "ro_side x"] i(2) by auto
  qed
  have "map (\<lambda>n. order_of (mb_nodes b' ! n)) (Q' s j) = filter (\<lambda>x. ro_side x = s \<and> ro_price x = price_at (mb_index b') j) bs"
    if j: "j < ?cap" for s j
  proof (cases "Q' s j = []")
    case True
    have "\<not> (ro_side x = s \<and> ro_price x = price_at (mb_index b') j)" if x: "x \<in> set bs" for x
    proof
      assume sx: "ro_side x = s \<and> ro_price x = price_at (mb_index b') j"
      obtain k where k: "k < ?cap" "Q' s k \<noteq> []" "price_at (mb_index b') k = price_at (mb_index b') j" using place [OF x] sx by metis
      then have "k = j" using price_at_inj [OF ok', of k j] j R(1) by simp
      then show False using k(2) True by simp
    qed
    then show ?thesis using True by (simp add: filter_empty_conv)
  next
    case False
    obtain i where i: "i < ?cap" "Q' s j = Q s i" "price_at (mb_index b') j = price_at (mb_index b) i" using bwd [OF j False] by blast
    have "map (\<lambda>n. order_of (mb_nodes b' ! n)) (Q s i) = map (\<lambda>n. order_of (mb_nodes b ! n)) (Q s i)"
      using R(8) levels_okD(9) [OF I(1) i(1)] by auto
    then show ?thesis using orders_matchD(1) [OF mt i(1)] i by simp
  qed
  then show ?thesis using place unfolding orders_match_def R(1) by blast
qed

lemma best_attach:
  assumes best: "best_ok ti (best_of b) Q" and i: "i < ti_capacity ti" and q: "q \<noteq> []"
  shows "best_ok ti (best_of (note_occupied s i b)) (set_queue Q s i q)"
  unfolding best_ok_def
proof
  fix t
  have b: "best_slot u b = touch u (ti_capacity ti) (Q u)" for u using best by (simp add: best_ok_def)
  show "best_slot t (note_occupied s i b) = touch t (ti_capacity ti) (set_queue Q s i q t)"
  proof (cases "t = s")
    case True
    have tb: "touch_bound s (ti_capacity ti) (Q s) (best_slot s b)" by (simp add: b touch_bound_exact_ok)
    note nb = note_occupied_bound [OF tb i]
    have "((Q s)(i := q)) x \<noteq> []" if "best_slot s (note_occupied s i b) = Some x" for x
      using nb(2) [OF that] q by (auto simp: b touch_Some)
    from touch_bound_exact [OF nb(1) this] show ?thesis using True by (simp only: set_queue_fun simp_thms if_True)
  next
    case False
    then show ?thesis using b by (simp add: set_queue_fun)
  qed
qed

lemma note_occupied_cong:
  assumes "\<And>u. best_slot u c = best_slot u b"
  shows "best_slot t (note_occupied s i c) = best_slot t (note_occupied s i b)"
  using assms [of Bid] assms [of Ask] by (cases s; cases t) auto

text \<open>The book after a successful insertion of a free node into a level.\<close>

lemma add_placed:
  fixes s :: side
  assumes inv: "mbo_inv b Q (n # F)" and wf: "spec_wf bs" and mt: "orders_match (mb_index b) (mb_nodes b) Q bs"
    and i: "i < ti_capacity (mb_index b)" "price_at (mb_index b) i = p" and ok: "price_ok p" "0 < q" "q \<le> u32_max"
    and new: "map_content (mb_map b) k = None"
  defines "x \<equiv> \<lparr>nd_order_id = k, nd_price = p, nd_quantity = q, nd_side = s, nd_slot = i mod 2 ^ 32, nd_next = NIL, nd_prev = NIL\<rparr>"
  defines "b4 \<equiv> b\<lparr>mb_free_head := nd_next (mb_nodes b ! n), mb_nodes := (mb_nodes b)[n := x]\<rparr>"
  shows "\<exists>b5 b6 es. link_back s i n b4 = (b5, Ok ()) \<and> put_on_level s i q b5 = (b6, Ok ()) \<and>
     mb_rest b6 = mb_rest b4 \<and> map_insert (mb_map b) (mb_map_mask b) k n = Ok es \<and>
     (\<forall>b9. mb_core b9 = mb_core (b6\<lparr>mb_map := es, mb_live := mb_live b + 1\<rparr>) \<longrightarrow>
        best_of b9 = best_of (note_occupied s i b) \<longrightarrow>
        counts_of b9 = (\<lambda>t. if t = s \<and> Q s i = [] then wrap_inc_u32 (side_levels t b) else side_levels t b) \<longrightarrow>
        mbo_rel b9 (bs @ [\<lparr>ro_order_id = k, ro_price = p, ro_quantity = q, ro_side = s\<rparr>]))"
proof -
  note I = mbo_invD [OF inv]
  let ?ti = "mb_index b" and ?cap = "ti_capacity (mb_index b)" and ?ns = "mb_nodes b"
  have nF: "n < length ?ns" "nd_slot (?ns ! n) = NIL" using I(4) by auto
  have out: "n \<notin> queued ?cap Q" by (rule free_not_queued [OF I(1,4)]) simp
  have slot: "i mod 2 ^ 32 = i" using i(1) levels_okD(2) [OF I(1)] by simp
  have b4: "mb_nodes b4 = ?ns[n := x]" "mb_index b4 = ?ti" "side_cells t b4 = side_cells t b" "mb_map b4 = mb_map b" for t
    by (simp_all add: b4_def)
  have ok4: "levels_ok (mb_index b4) (mb_nodes b4) (cells_of b4) Q" unfolding b4 by (rule levels_ok_loose [OF I(1) out])
  have x4: "mb_nodes b4 ! n = x" "n < length (mb_nodes b4)" using nF by (simp_all add: b4)
  have node: "node_ok (mb_index b4) s i (mb_nodes b4 ! n)" unfolding x4 using i ok slot by (simp add: node_ok_def x_def b4)
  obtain b5 b6 where at: "link_back s i n b4 = (b5, Ok ())" "put_on_level s i q b5 = (b6, Ok ())" "mb_rest b6 = mb_rest b4"
      "relinked (insert n (set (Q s i))) (mb_nodes b4) (mb_nodes b6)"
      "levels_ok ?ti (mb_nodes b6) (cells_of b6) (set_queue Q s i (Q s i @ [n]))"
  proof -
    have "i < ti_capacity (mb_index b4)" "\<And>t j. j < ti_capacity (mb_index b4) \<Longrightarrow> n \<notin> set (Q t j)" "nd_quantity (mb_nodes b4 ! n) = q"
      using i(1) out unfolding x4 by (auto simp: b4 queued_def x_def)
    then show thesis using attach_ok [OF ok4 _ x4(2) _ node] that unfolding b4(2) by metis
  qed
  let ?Q = "set_queue Q s i (Q s i @ [n])"
  obtain es where es: "map_insert (mb_map b) (mb_map_mask b) k n = Ok es" "map_wf (mb_map_mask b) es" "length es = length (mb_map b)"
      "map_used es = map_used (mb_map b) + 1" "map_content es = (map_content (mb_map b))(k \<mapsto> n)"
    using tbl.put_ok [OF I(7) used_room(2) [OF inv] new, of n] nF(1) levels_okD(3) [OF I(1)] by auto
  have len6: "length (mb_nodes b6) = length ?ns" using at(4) by (simp add: relinked_def b4)
  have ord6: "order_of (mb_nodes b6 ! m) = (if m = n then order_of x else order_of (?ns ! m))" for m
    using relinked_order [OF at(4), of m] nF(1) by (simp add: b4)
  have ordx: "order_of x = \<lparr>ro_order_id = k, ro_price = p, ro_quantity = q, ro_side = s\<rparr>" by (simp add: order_of_def x_def)
  have nth6: "nd_order_id (mb_nodes b6 ! m) = (if m = n then k else nd_order_id (?ns ! m))" for m
    using ord6 [of m] by (auto simp: order_of_def x_def split: if_splits)
  have "free_chain ?ns (nd_next (?ns ! n)) F" using I(4) by simp
  then have "free_chain (mb_nodes b4) (nd_next (?ns ! n)) F"
    using free_chain_update [of n F] I(5) by (simp add: b4)
  then have fr: "free_chain (mb_nodes b6) (nd_next (?ns ! n)) F"
  proof -
    have "mb_nodes b6 ! m = mb_nodes b4 ! m" if "m \<in> set F" for m
    proof -
      have "m \<notin> queued ?cap Q" by (rule free_not_queued [OF I(1,4)]) (simp add: that)
      then have "m \<notin> insert n (set (Q s i))" using I(5) that queue_in_queued [OF i(1), of Q s] by auto
      then show ?thesis using at(4) by (simp add: relinked_def)
    qed
    then show ?thesis using \<open>free_chain (mb_nodes b4) _ F\<close> free_chain_cong [of "mb_nodes b6" "mb_nodes b4" F] at(4) by (simp add: relinked_def)
  qed
  have qd: "queued ?cap ?Q = insert n (queued ?cap Q)" by (rule queued_attach [OF i(1)])
  have rel: "mbo_rel b9 (bs @ [\<lparr>ro_order_id = k, ro_price = p, ro_quantity = q, ro_side = s\<rparr>])"
    if c9: "mb_core b9 = mb_core (b6\<lparr>mb_map := es, mb_live := mb_live b + 1\<rparr>)" and best9: "best_of b9 = best_of (note_occupied s i b)"
      and cnt9: "counts_of b9 = (\<lambda>t. if t = s \<and> Q s i = [] then wrap_inc_u32 (side_levels t b) else side_levels t b)" for b9
  proof -
    note C = core_eqD [OF c9] and R = rest_eqD [OF at(3)]
    have fields: "mb_index b9 = ?ti" "mb_nodes b9 = mb_nodes b6" "side_cells t b9 = side_cells t b6" "mb_free_head b9 = nd_next (?ns ! n)"
        "mb_map b9 = es" "mb_map_mask b9 = mb_map_mask b" "mb_live b9 = mb_live b + 1" for t
      using R by (simp_all add: C b4_def)
    have "mbo_inv b9 ?Q F"
      unfolding mbo_inv_def fields best9 cnt9
    proof (intro conjI)
      show "levels_ok ?ti (mb_nodes b6) (cells_of b6) ?Q" by (rule at(5))
      show "best_ok ?ti (best_of (note_occupied s i b)) ?Q" by (rule best_attach [OF I(2) i(1)]) simp
      show "count_ok ?ti (\<lambda>t. if t = s \<and> Q s i = [] then wrap_inc_u32 (side_levels t b) else side_levels t b) ?Q"
        by (rule count_opened [OF I(3) i(1)]) (use levels_okD(2) [OF I(1)] in auto)
      show "free_chain (mb_nodes b6) (nd_next (?ns ! n)) F" by (rule fr)
      show "distinct F" "set F \<union> queued ?cap ?Q = {..<length (mb_nodes b6)}" using I(5,6) by (auto simp: qd len6)
      show "map_wf (mb_map_mask b) es" "length (mb_nodes b6) < length es" using es I(8) len6 by simp_all
      show "ids_ok es (mb_nodes b6) (queued ?cap ?Q)"
        unfolding qd by (rule ids_put [OF I(9) out _ es(5) new]) (use out in \<open>auto simp: nth6\<close>)
      show "mb_live b + 1 = map_used es" using es(4) I(10) by simp
    qed
    moreover have "orders_match ?ti (mb_nodes b6) ?Q (bs @ [\<lparr>ro_order_id = k, ro_price = p, ro_quantity = q, ro_side = s\<rparr>])"
      by (rule match_attach [OF i(1) levels_okD(1) [OF I(1)] mt]) (use out i(2) ordx in \<open>auto simp: ord6\<close>)
    moreover have "spec_get k bs = None" using match_get [OF _ wf mt] inv new by (metis option.map_disc_iff)
    ultimately show ?thesis using wf ok(2) unfolding mbo_rel_def fields
      by (auto simp: spec_wf_append spec_get_None_iff)
  qed
  show ?thesis using at(1-3) es(1) rel by blast
qed

text \<open>Why the fast book may refuse an order the specification takes: the price is off the tick grid, no
  window of the ladder's size holds it together with every resting order, or the slab is full.\<close>

definition add_refusal :: "mbo \<Rightarrow> spec_book \<Rightarrow> nat \<Rightarrow> int \<Rightarrow> book_error option" where
  "add_refusal b bs k p =
     (if \<not> ti_tick (mb_index b) dvd p - ti_anchor (mb_index b) then Some (PriceOffGrid k p)
      else if \<exists>x \<in> set bs. int (ti_capacity (mb_index b)) * ti_tick (mb_index b) \<le> \<bar>p - ro_price x\<bar> then Some (PriceOutOfRange k p)
      else if length bs = length (mb_nodes b) then Some (SlabFull k (length (mb_nodes b)))
      else None)"

lemma add_refusal_capacity: "add_refusal b bs k p = Some e \<Longrightarrow> capacity_error e"
  by (auto simp: add_refusal_def capacity_error_def split: if_splits)

lemma rebase_for_tick: "rebase_for ti p keep = Some (ti', shift) \<Longrightarrow> ti_tick ti' = ti_tick ti"
  by (auto simp: rebase_for_def Let_def split: prod.splits if_splits)

lemma rebase_tick: "ti_tick (mb_index (fst (rebase k p b))) = ti_tick (mb_index b)"
proof -
  have keep: "rebase_for (mb_index b) p (case occupied_extent b of
      (Some l, Some h) \<Rightarrow> Some (price_at (mb_index b) l, price_at (mb_index b) h) | _ \<Rightarrow> None) = rebase_for (mb_index b) p (book_keep b)"
    by (simp add: book_keep_def)
  show ?thesis
  proof (cases "rebase_for (mb_index b) p (book_keep b)")
    case None
    then show ?thesis using rebase_refused by simp
  next
    case (Some r)
    then show ?thesis using rebase_for_tick by (cases r) (simp add: rebase_def keep Let_def)
  qed
qed

lemma slot_for_grid:
  assumes "slot_for k p b = (b', Ok i)" "ti_ok (mb_index b)" "price_ok p"
  shows "ti_tick (mb_index b') = ti_tick (mb_index b)" "ti_tick (mb_index b) dvd p - ti_anchor (mb_index b)"
proof -
  show "ti_tick (mb_index b') = ti_tick (mb_index b)"
    using assms(1) rebase_tick [of k p b] by (auto simp: slot_for_def sbind_def split: tick_slot.splits outcome.splits prod.splits)
  show "ti_tick (mb_index b) dvd p - ti_anchor (mb_index b)"
    using assms(1) ti_slot_iff(2) [OF assms(2,3)] by (auto simp: slot_for_def)
qed

lemma window_near:
  assumes ti: "ti_ok ti" and i: "i < ti_capacity ti" "j < ti_capacity ti"
  shows "\<bar>price_at ti i - price_at ti j\<bar> < int (ti_capacity ti) * ti_tick ti"
proof -
  have t: "0 < ti_tick ti" using ti by (simp add: ti_ok_def)
  have "\<bar>price_at ti i - price_at ti j\<bar> = \<bar>int i - int j\<bar> * ti_tick ti"
    using t by (simp add: price_at_exact [OF ti i(1)] price_at_exact [OF ti i(2)] flip: left_diff_distrib) (simp add: abs_mult)
  also have "\<dots> < int (ti_capacity ti) * ti_tick ti" using t i by (intro mult_strict_right_mono) auto
  finally show ?thesis .
qed

lemma match_at:
  assumes "mbo_inv b Q F" and mt: "orders_match (mb_index b) (mb_nodes b) Q bs" and occ: "occupied (ti_capacity (mb_index b)) Q i"
  shows "\<exists>x \<in> set bs. ro_price x = price_at (mb_index b) i"
proof -
  obtain s where s: "i < ti_capacity (mb_index b)" "Q s i \<noteq> []" using occ by (auto simp: occupied_def)
  then have "filter (\<lambda>x. ro_side x = s \<and> ro_price x = price_at (mb_index b) i) bs \<noteq> []"
    unfolding orders_matchD(1) [OF mt s(1), symmetric] by simp
  then show ?thesis by (auto simp: filter_empty_conv)
qed

lemma refused_far:
  assumes inv: "mbo_inv b Q F" and mt: "orders_match (mb_index b) (mb_nodes b) Q bs" and p: "price_ok p"
    and grid: "ti_tick (mb_index b) dvd p - ti_anchor (mb_index b)" and none: "rebase_for (mb_index b) p (book_keep b) = None"
  shows "\<exists>x \<in> set bs. int (ti_capacity (mb_index b)) * ti_tick (mb_index b) \<le> \<bar>p - ro_price x\<bar>"
proof -
  let ?ti = "mb_index b" and ?w = "int (ti_capacity (mb_index b)) * ti_tick (mb_index b)"
  have ok: "levels_ok ?ti (mb_nodes b) (cells_of b) Q" by (rule mbo_invD(1) [OF inv])
  have ti: "ti_ok ?ti" by (rule levels_okD(1) [OF ok])
  then have w: "0 < ?w" by (simp add: ti_ok_def)
  note K = book_keep_ok [OF ok]
  have no: "\<not> (a \<le> cover_low p (book_keep b) \<and> cover_high p (book_keep b) < a + ?w)" if "ti_tick ?ti dvd a - ti_anchor ?ti" for a
    using none rebase_for_None [OF ti p K] grid ti_slot_iff(2) [OF ti p] that by blast
  show ?thesis
  proof (cases rule: extent_cases [OF ok])
    case 1
    then show ?thesis using no [OF grid] w by (simp add: book_keep_def cover_low_def cover_high_def)
  next
    case (2 l h)
    let ?lo = "price_at ?ti l" and ?hi = "price_at ?ti h"
    have lh: "l < ti_capacity ?ti" "h < ti_capacity ?ti" using 2 by (auto simp: occupied_def)
    have g: "ti_tick ?ti dvd ?lo - ti_anchor ?ti" by (simp add: price_at_exact [OF ti] lh)
    have "\<not> (max ?hi p < ?lo + ?w)" if "?lo \<le> p" using no [OF g] that by (simp add: book_keep_def 2 cover_low_def cover_high_def)
    moreover have "\<not> (max ?hi p < p + ?w)" if "p \<le> ?lo" using no [OF grid] that by (simp add: book_keep_def 2 cover_low_def cover_high_def)
    moreover have "?hi < ?lo + ?w" using window_near [OF ti lh(2,1)] by linarith
    ultimately have "?w \<le> \<bar>p - ?lo\<bar> \<or> ?w \<le> \<bar>p - ?hi\<bar>" using w by (cases "?lo \<le> p") auto
    then show ?thesis using match_at [OF inv mt 2(3)] match_at [OF inv mt 2(4)] by metis
  qed
qed

lemma slab_full_iff:
  assumes inv: "mbo_inv b Q F" and wf: "spec_wf bs" and mt: "orders_match (mb_index b) (mb_nodes b) Q bs"
  shows "length bs = length (mb_nodes b) \<longleftrightarrow> F = []"
proof -
  note I = mbo_invD [OF inv]
  let ?N = "queued (ti_capacity (mb_index b)) Q"
  have "length bs = card ?N" using match_length [OF inv wf mt] I(10) used_room(3) [OF inv] by simp
  moreover have "set F \<inter> ?N = {}" "finite ?N" using I(6) free_not_queued [OF I(1,4)] by (auto intro: finite_subset)
  moreover have "card (set F \<union> ?N) = length (mb_nodes b)" using I(6) by simp
  ultimately show ?thesis by (auto simp: card_Un_disjoint)
qed

lemma mbo_add_ok:
  assumes rel: "mbo_rel b bs" and ok: "price_ok p" "q \<le> u32_max" and run: "mbo_add b k s p q = (b', r)"
  shows "case r of Ok _ \<Rightarrow> add_refusal b bs k p = None \<and> (\<exists>cs. spec_add k s p q bs = Ok cs \<and> mbo_rel b' cs)
     | Err e \<Rightarrow> mbo_rel b' bs \<and> (case spec_add k s p q bs of Err e' \<Rightarrow> e = e' | _ \<Rightarrow> add_refusal b bs k p = Some e) | Panic \<Rightarrow> False"
proof (cases "q = 0")
  case True
  then show ?thesis using run rel by (auto simp: mbo_add_def spec_add_def)
next
  case False
  obtain Q F where inv: "mbo_inv b Q F" and wf: "spec_wf bs" and mt: "orders_match (mb_index b) (mb_nodes b) Q bs"
    using rel by (auto simp: mbo_rel_def)
  note I = mbo_invD [OF inv] and get = match_get [OF inv wf mt, of k]
  show ?thesis
  proof (cases rule: find_ok [OF inv, of k])
    case (2 b1 m n p)
    then show ?thesis using run False get rel same_book_rel [OF 2(2)] by (auto simp: mbo_add_def sbind_def spec_add_def)
  next
    case (1 b1)
    note S = same_bookD [OF 1(2)]
    have inv1: "mbo_inv b1 Q F" and rel1: "mbo_rel b1 bs" and mt1: "orders_match (mb_index b1) (mb_nodes b1) Q bs"
      using same_book_inv [OF 1(2)] same_book_rel [OF 1(2)] inv rel mt by (auto simp: S)
    note I1 = mbo_invD [OF inv1]
    have spec: "spec_add k s p q bs = Ok (bs @ [\<lparr>ro_order_id = k, ro_price = p, ro_quantity = q, ro_side = s\<rparr>])"
      using False get \<open>map_content (mb_map b) k = None\<close> by (simp add: spec_add_def)
    show ?thesis
    proof (cases rule: slot_for_ok [OF I1(1-3) ok(1), of k])
      case (1 i b2 Q2)
      have inv2: "mbo_inv b2 Q2 F" by (rule rebased_inv [OF inv1 1(4-7)])
      have mt2: "orders_match (mb_index b2) (mb_nodes b2) Q2 bs" by (rule rebased_match [OF inv1 1(4) levels_okD(1) [OF 1(5)] mt1])
      note I2 = mbo_invD [OF inv2]
      have cap2: "i < ti_capacity (mb_index b2)" using 1(2) rebasedD(1) [OF 1(4)] by simp
      note G = slot_for_grid [OF 1(1) levels_okD(1) [OF I1(1)] ok(1)]
      have len2: "length (mb_nodes b2) = length (mb_nodes b)" using rebasedD(2) [OF 1(4)] S by simp
      have near: "\<bar>p - ro_price x\<bar> < int (ti_capacity (mb_index b)) * ti_tick (mb_index b)" if x: "x \<in> set bs" for x
      proof -
        obtain j where "j < ti_capacity (mb_index b2)" "price_at (mb_index b2) j = ro_price x"
          using mt2 x unfolding orders_match_def by blast
        then show ?thesis using window_near [OF levels_okD(1) [OF I2(1)] cap2] 1(3) G(1) rebasedD(1) [OF 1(4)] S by metis
      qed
      have room: "add_refusal b bs k p = (if F = [] then Some (SlabFull k (length (mb_nodes b))) else None)"
        using slab_full_iff [OF inv wf mt] G(2) S near by (force simp: add_refusal_def not_le)
      have tk: "take_node k b2 = (case F of [] \<Rightarrow> (b2, Err (SlabFull k (length (mb_nodes b2))))
          | n # F' \<Rightarrow> (b2\<lparr>mb_free_head := nd_next (mb_nodes b2 ! n)\<rparr>, Ok n))"
        by (rule take_node_ok [OF I2(4) levels_okD(3) [OF I2(1)]])
      show ?thesis
      proof (cases F)
        case Nil
        then have "b' = b2" "r = Err (SlabFull k (length (mb_nodes b2)))"
          using run False \<open>map_find k b = (b1, Ok None)\<close> 1(1) tk by (auto simp: mbo_add_def sbind_def)
        then show ?thesis using inv2 mt2 wf room len2 spec Nil by (auto simp: mbo_rel_def)
      next
        case (Cons n F')
        have new2: "map_content (mb_map b2) k = None"
          using \<open>map_content (mb_map b) k = None\<close> rebasedD(4) [OF 1(4)] S(5) by simp
        let ?x = "\<lparr>nd_order_id = k, nd_price = p, nd_quantity = q, nd_side = s, nd_slot = i mod 2 ^ 32, nd_next = NIL, nd_prev = NIL\<rparr>"
        let ?b4 = "b2\<lparr>mb_free_head := nd_next (mb_nodes b2 ! n), mb_nodes := (mb_nodes b2)[n := ?x]\<rparr>"
        obtain b5 b6 es where at: "link_back s i n ?b4 = (b5, Ok ())" "put_on_level s i q b5 = (b6, Ok ())" "mb_rest b6 = mb_rest ?b4"
            "map_insert (mb_map b2) (mb_map_mask b2) k n = Ok es" and
            fin: "\<And>b9. mb_core b9 = mb_core (b6\<lparr>mb_map := es, mb_live := mb_live b2 + 1\<rparr>) \<Longrightarrow> best_of b9 = best_of (note_occupied s i b2) \<Longrightarrow>
              counts_of b9 = (\<lambda>t. if t = s \<and> Q2 s i = [] then wrap_inc_u32 (side_levels t b2) else side_levels t b2) \<Longrightarrow>
              mbo_rel b9 (bs @ [\<lparr>ro_order_id = k, ro_price = p, ro_quantity = q, ro_side = s\<rparr>])"
          using add_placed [OF inv2 [unfolded Cons] wf mt2 cap2 1(3) ok(1) _ ok(2) new2] False by blast
        note R = rest_eqD [OF at(3)]
        have nl: "n < length (mb_nodes b2)" using I2(4) Cons by simp
        have il: "i < length (side_cells s b2)" using levels_okD(4) [OF I2(1)] cap2 by simp
        have ce: "cell_empty (side_cells s b2 ! i) \<longleftrightarrow> Q2 s i = []" by (rule cell_empty_iff [OF I2(1) cap2])
        have live: "wrap_add_u64 (mb_live b2) 1 = mb_live b2 + 1"
          using I2(10) used_room(1) [OF inv2] levels_okD(3) [OF I2(1)] by simp
        let ?b7 = "(if Q2 s i = [] then level_opened s else (\<lambda>b. b)) b6"
        let ?b8 = "?b7\<lparr>mb_map := es\<rparr>"
        let ?b9 = "note_occupied s i (?b8\<lparr>mb_live := mb_live b2 + 1, mb_stats := (mb_stats ?b8)\<lparr>ms_peak_orders := max (ms_peak_orders (mb_stats ?b8)) (mb_live b2 + 1)\<rparr>\<rparr>)"
        have m7: "mb_map ?b7 = mb_map b2" "mb_map_mask ?b7 = mb_map_mask b2" "mb_live ?b8 = mb_live b2"
          using R core_eqD [OF touch_updates(4) [of s b6]] by simp_all
        have r: "b' = ?b9 \<and> r = Ok ()"
          using run False \<open>map_find k b = (b1, Ok None)\<close> 1(1) tk Cons nl il ce at(1,2,4) m7 live
          by (simp add: mbo_add_def sbind_def modify_node_def read_cell_def Let_def put_id_def)
        have "mbo_rel ?b9 (bs @ [\<lparr>ro_order_id = k, ro_price = p, ro_quantity = q, ro_side = s\<rparr>])"
        proof (rule fin)
          show "mb_core ?b9 = mb_core (b6\<lparr>mb_map := es, mb_live := mb_live b2 + 1\<rparr>)"
            by (cases s) (simp_all add: mb_core_def)
          show "counts_of ?b9 = (\<lambda>t. if t = s \<and> Q2 s i = [] then wrap_inc_u32 (side_levels t b2) else side_levels t b2)"
            by (rule ext) (simp add: R(7))
          show "best_of ?b9 = best_of (note_occupied s i b2)"
            by (intro ext note_occupied_cong) (simp add: R(6))
        qed
        then show ?thesis using r spec room Cons by simp
      qed
    next
      case 2
      then show ?thesis using run False \<open>map_find k b = (b1, Ok None)\<close> rel1 spec S by (auto simp: mbo_add_def sbind_def add_refusal_def)
    next
      case 3
      then show ?thesis using run False \<open>map_find k b = (b1, Ok None)\<close> rel1 spec S refused_far [OF inv1 mt1 ok(1)]
        by (auto simp: mbo_add_def sbind_def add_refusal_def)
    qed
  qed
qed

section \<open>Reduce\<close>

lemma reduce_placed:
  assumes inv: "mbo_inv b Q F" and wf: "spec_wf bs" and mt: "orders_match (mb_index b) (mb_nodes b) Q bs"
    and cn: "map_content (mb_map b) k = Some n" and q: "0 < q" "q \<le> nd_quantity (mb_nodes b ! n)"
  defines "x \<equiv> mb_nodes b ! n"
  defines "b2 \<equiv> b\<lparr>mb_nodes := (mb_nodes b)[n := x\<lparr>nd_quantity := q\<rparr>]\<rparr>"
  shows "\<exists>b3. modify_cell (nd_side x) (nd_slot x) (\<lambda>c. c\<lparr>lc_quantity := wrap_sub_u64 (lc_quantity c) (nd_quantity x - q)\<rparr>) b2 = (b3, Ok ()) \<and>
     mbo_rel b3 (map (\<lambda>y. if ro_order_id y = k then y\<lparr>ro_quantity := q\<rparr> else y) bs)"
proof -
  note I = mbo_invD [OF inv]
  let ?ti = "mb_index b" and ?cap = "ti_capacity (mb_index b)" and ?ns = "mb_nodes b" and ?ns' = "(mb_nodes b)[n := x\<lparr>nd_quantity := q\<rparr>]"
  obtain s i xs ys where N: "n < length ?ns" "nd_order_id (?ns ! n) = k" "nd_side (?ns ! n) = s" "nd_slot (?ns ! n) = i" "i < ?cap"
      "Q s i = xs @ n # ys" "n \<in> queued ?cap Q" "node_ok ?ti s i (?ns ! n)" "n \<noteq> NIL"
    by (rule node_facts [OF inv cn])
  let ?c = "side_cells s b ! i"
  let ?c' = "?c\<lparr>lc_quantity := wrap_sub_u64 (lc_quantity ?c) (nd_quantity x - q)\<rparr>"
  let ?b3 = "set_side_cells s ((side_cells s b)[i := ?c']) b2"
  have il: "i < length (side_cells s b)" using levels_okD(4) [OF I(1)] N(5) by simp
  have run: "modify_cell (nd_side x) (nd_slot x) (\<lambda>c. c\<lparr>lc_quantity := wrap_sub_u64 (lc_quantity c) (nd_quantity x - q)\<rparr>) b2 = (?b3, Ok ())"
    using N(3,4) il by (simp add: modify_cell_def x_def b2_def)
  note C = levels_okD(8) [OF I(1) N(5), of s, unfolded cell_ok_def N(6)]
  have dist: "n \<notin> set xs" "n \<notin> set ys" using levels_okD(5) [OF I(1) N(5), of s] N(6) by auto
  have nth: "?ns' ! m = (if m = n then x\<lparr>nd_quantity := q\<rparr> else ?ns ! m)" for m using N(1) by simp
  have links: "nd_next (?ns' ! m) = nd_next (?ns ! m)" "nd_prev (?ns' ! m) = nd_prev (?ns ! m)" for m
    unfolding nth by (simp_all add: x_def)
  have dat: "nd_slot (?ns' ! m) = nd_slot (?ns ! m)" "nd_side (?ns' ! m) = nd_side (?ns ! m)" "nd_price (?ns' ! m) = nd_price (?ns ! m)"
    "nd_order_id (?ns' ! m) = nd_order_id (?ns ! m)" "nd_quantity (?ns' ! m) = (if m = n then q else nd_quantity (?ns ! m))" for m
    unfolding nth by (simp_all add: x_def)
  have sums: "map (\<lambda>m. nd_quantity (?ns' ! m)) xs = map (\<lambda>m. nd_quantity (?ns ! m)) xs"
      "map (\<lambda>m. nd_quantity (?ns' ! m)) ys = map (\<lambda>m. nd_quantity (?ns ! m)) ys" "nd_quantity (?ns' ! n) = q"
    using dist by (auto simp: nth)
  have "length (Q s i) * u32_max \<le> u32_max * u32_max"
    using queue_quantity_bound(1) [OF I(1) N(5), of s] levels_okD(3) [OF I(1)] by (intro mult_right_mono) auto
  then have "sum_list (map (\<lambda>m. nd_quantity (?ns ! m)) (xs @ n # ys)) \<le> u64_max"
    using queue_quantity_bound(2) [OF I(1) N(5), of s] N(6) by simp
  then have "lc_quantity ?c' = sum_list (map (\<lambda>m. nd_quantity (?ns' ! m)) (xs @ n # ys))"
    using C q unfolding map_append list.map sum_list_append sum_list_simps sums by (simp add: x_def)
  then have cell: "cell_ok ?ns' ?c' (Q s i)" using C N(6) by (simp add: cell_ok_def)
  have "levels_ok ?ti ?ns' (cells_of ?b3) (set_queue Q s i (Q s i))"
  proof (rule levels_ok_update [OF I(1) N(5) _ _ _ _ _ _ cell])
    show "?ns' ! m = ?ns ! m" if "j < ?cap" "(t, j) \<noteq> (s, i)" "m \<in> set (Q t j)" for t j m
      using queues_disjoint [OF I(1) N(5) that(1), of n s t] that N(6) by (auto simp: nth)
    show "seg ?ns' NIL (Q s i) NIL"
      using seg_cong [of ?ns' ?ns "Q s i" NIL NIL] levels_okD(6) [OF I(1) N(5), of s] links by simp
    show "node_ok ?ti s i (?ns' ! m)" if "m \<in> set (Q s i)" for m
      using levels_okD(7) [OF I(1) N(5) that] q unfolding node_ok_def dat by auto
  qed (use levels_okD(5) [OF I(1) N(5)] in \<open>auto simp: b2_def\<close>)
  moreover have "set_queue Q s i (Q s i) = Q" by (auto simp: set_queue_def fun_eq_iff)
  ultimately have lv: "levels_ok ?ti ?ns' (cells_of ?b3) Q" by simp
  have rest: "mb_rest ?b3 = mb_rest b" by (simp add: b2_def)
  note R = rest_eqD [OF rest]
  have ns3: "mb_nodes ?b3 = ?ns'" by (simp add: b2_def)
  have fr: "free_chain ?ns' (mb_free_head b) F"
    using free_chain_update [of n F] free_not_queued [OF I(1,4)] N(7) I(4) by auto
  have ids: "ids_ok (mb_map b) ?ns' (queued ?cap Q)" by (rule ids_same [OF I(9)]) (rule dat(4))
  have inv3: "mbo_inv ?b3 Q F"
    unfolding mbo_inv_def R ns3 using I lv fr ids by simp
  let ?u = "\<lambda>y. if ro_order_id y = k then y\<lparr>ro_quantity := q\<rparr> else y"
  have ord: "order_of (?ns' ! m) = ?u (order_of (?ns ! m))" if "m \<in> queued ?cap Q" for m
  proof (cases "m = n")
    case True
    then show ?thesis using N(2) unfolding order_of_def dat by simp
  next
    case False
    then have "nd_order_id (?ns ! m) \<noteq> k" using id_unique [OF I(9) that N(7)] N(2) by metis
    then show ?thesis using False unfolding order_of_def dat by simp
  qed
  have "orders_match ?ti ?ns' Q (map ?u bs)"
    unfolding orders_match_def
  proof (intro conjI allI impI ballI)
    fix t j assume j: "j < ?cap"
    have "map (\<lambda>m. order_of (?ns' ! m)) (Q t j) = map ?u (map (\<lambda>m. order_of (?ns ! m)) (Q t j))"
      unfolding map_map comp_def by (rule map_cong [OF refl]) (use ord queue_in_queued [OF j] in blast)
    also have "\<dots> = filter (\<lambda>y. ro_side y = t \<and> ro_price y = price_at ?ti j) (map ?u bs)"
      unfolding orders_matchD(1) [OF mt j] filter_map comp_def by (simp cong: filter_cong)
    finally show "map (\<lambda>m. order_of (?ns' ! m)) (Q t j) = filter (\<lambda>y. ro_side y = t \<and> ro_price y = price_at ?ti j) (map ?u bs)" .
  next
    fix y assume "y \<in> set (map ?u bs)"
    then obtain z where "z \<in> set bs" "ro_price y = ro_price z" by auto
    then show "\<exists>j < ?cap. price_at ?ti j = ro_price y" using orders_matchD(2) [OF mt] by auto
  qed
  then have "mbo_rel ?b3 (map ?u bs)"
    unfolding mbo_rel_def R ns3 using inv3 spec_wf_map_qty [OF wf q(1)] by blast
  then show ?thesis using run by blast
qed

lemma mbo_reduce_ok:
  assumes rel: "mbo_rel b bs" and run: "mbo_reduce b k q = (b', r)"
  shows "case r of Ok _ \<Rightarrow> \<exists>cs. spec_reduce k q bs = Ok cs \<and> mbo_rel b' cs
     | Err e \<Rightarrow> mbo_rel b' bs \<and> (\<exists>e'. spec_reduce k q bs = Err e') | Panic \<Rightarrow> False"
proof (cases "q = 0")
  case True
  then show ?thesis using run rel by (auto simp: mbo_reduce_def spec_reduce_def split: option.splits)
next
  case False
  obtain Q F where inv: "mbo_inv b Q F" and wf: "spec_wf bs" and mt: "orders_match (mb_index b) (mb_nodes b) Q bs"
    using rel by (auto simp: mbo_rel_def)
  note get = match_get [OF inv wf mt, of k]
  show ?thesis
  proof (cases rule: find_ok [OF inv, of k])
    case (1 b1)
    then show ?thesis using run False get rel same_book_rel [OF 1(2)] by (auto simp: mbo_reduce_def sbind_def spec_reduce_def)
  next
    case (2 b1 m n p)
    note S = same_bookD [OF 2(2)]
    have inv1: "mbo_inv b1 Q F" and rel1: "mbo_rel b1 bs" and mt1: "orders_match (mb_index b1) (mb_nodes b1) Q bs"
        and cn1: "map_content (mb_map b1) k = Some n"
      using same_book_inv [OF 2(2)] same_book_rel [OF 2(2)] inv rel mt 2(6) by (auto simp: S)
    have nl: "n < length (mb_nodes b)" by (rule node_facts [OF inv 2(6)])
    have g: "spec_get k bs = Some (order_of (mb_nodes b ! n))" using get 2(6) by simp
    show ?thesis
    proof (cases "q > nd_quantity (mb_nodes b ! n)")
      case True
      then show ?thesis using run False 2(1,4,5) nl g rel1
        by (auto simp: mbo_reduce_def sbind_def map_node_at_def read_node_def S spec_reduce_def order_of_def)
    next
      case le: False
      then have "0 < q" "q \<le> nd_quantity (mb_nodes b1 ! n)" using False by (auto simp: S)
      from reduce_placed [OF inv1 wf mt1 cn1 this] obtain b3 where
        "modify_cell (nd_side (mb_nodes b1 ! n)) (nd_slot (mb_nodes b1 ! n)) (\<lambda>c. c\<lparr>lc_quantity := wrap_sub_u64 (lc_quantity c) (nd_quantity (mb_nodes b1 ! n) - q)\<rparr>)
            (b1\<lparr>mb_nodes := (mb_nodes b1)[n := (mb_nodes b1 ! n)\<lparr>nd_quantity := q\<rparr>]\<rparr>) = (b3, Ok ())"
        and rel3: "mbo_rel b3 (map (\<lambda>y. if ro_order_id y = k then y\<lparr>ro_quantity := q\<rparr> else y) bs)" by blast
      then have "b' = b3 \<and> r = Ok ()" using run False 2(1,4,5) nl le
        by (auto simp: mbo_reduce_def sbind_def map_node_at_def read_node_def modify_node_def S)
      then show ?thesis using rel3 g False le by (auto simp: spec_reduce_def order_of_def)
    qed
  qed
qed

section \<open>Replace\<close>

lemma best_move:
  assumes best: "\<And>u. best_slot u b = touch u (ti_capacity ti) (Q u)" and i: "i < ti_capacity ti" "j < ti_capacity ti"
    and q: "Q s j \<noteq> []" "q' \<noteq> []" and lv: "levels_ok ti ns (cells_of b) (set_queue (set_queue Q s j q) s i q')" and ti: "mb_index b = ti"
  shows "best_ok ti (best_of (if q = [] then close_level s j (note_occupied s i b) else note_occupied s i b))
     (set_queue (set_queue Q s j q) s i q')"
  unfolding best_ok_def
proof
  fix t
  let ?cap = "ti_capacity ti" and ?Q = "set_queue (set_queue Q s j q) s i q'" and ?b = "note_occupied s i b"
  note C = core_eqD [OF touch_updates(1) [of s i b]]
  show "best_slot t (if q = [] then close_level s j ?b else ?b) = touch t ?cap (?Q t)"
  proof (cases "t = s")
    case True
    have "touch_bound s ?cap (set_queue Q s j q s) (best_slot s b)" unfolding best
      by (rule touch_bound_shrink [OF touch_bound_exact_ok]) (use q(1) in \<open>auto simp: set_queue_def split: if_splits\<close>)
    note nb = note_occupied_bound(1) [OF this i(1), where q = q'] note_occupied_bound(2) [OF this i(1)]
    have Qs: "?Q s = (set_queue Q s j q s)(i := q')" by (rule ext) (simp add: set_queue_def)
    have tb: "touch_bound s ?cap (?Q s) (best_slot s ?b)" unfolding Qs by (rule nb(1))
    have keep: "?Q s y \<noteq> []" if "best_slot s ?b = Some y" "y \<noteq> j \<or> q \<noteq> []" for y
      using nb(2) [OF that(1)] that(2) q(2) by (auto simp: best touch_Some set_queue_def)
    show ?thesis
    proof (cases "q = []")
      case empty: True
      have "best_slot s (close_level s j ?b) = touch s ?cap (?Q s)"
      proof (rule close_level_touch [OF tb])
        show "?cap = ti_capacity (mb_index ?b)" "0 < ?cap" using i C(1) ti by auto
        show "cell_empty (side_cells s ?b ! y) \<longleftrightarrow> ?Q s y = []" if "y < ?cap" for y
          using cell_empty_iff [OF lv that, of s] C(3) by simp
      qed (use keep in blast)
      then show ?thesis using True empty by simp
    next
      case False
      have "best_slot s ?b = touch s ?cap (?Q s)" by (rule touch_bound_exact [OF tb]) (use keep False in blast)
      then show ?thesis using True False by simp
    qed
  next
    case False
    then show ?thesis using best by (simp add: set_queue_fun)
  qed
qed

lemma replace_placed:
  assumes inv: "mbo_inv b Q F" and wf: "spec_wf bs" and mt: "orders_match (mb_index b) (mb_nodes b) Q bs"
    and cn: "map_content (mb_map b) k = Some n" and i: "i < ti_capacity (mb_index b)" "price_at (mb_index b) i = p"
    and ok: "price_ok p" "0 < q" "q \<le> u32_max"
  defines "x \<equiv> mb_nodes b ! n" and "s \<equiv> nd_side (mb_nodes b ! n)" and "j \<equiv> nd_slot (mb_nodes b ! n)"
  shows "\<exists>b3 b4 b7 b8 e. unlink s j n b = (b3, Ok ()) \<and> take_from_level s j (nd_quantity x) b3 = (b4, Ok ()) \<and>
     j < length (side_cells s b4) \<and> (cell_empty (side_cells s b4 ! j) \<longleftrightarrow> e) \<and> i < length (side_cells s b4) \<and> n < length (mb_nodes b4) \<and>
     (let b5 = (if e then level_closed s else (\<lambda>b. b)) b4;
          b6 = b5\<lparr>mb_nodes := (mb_nodes b4)[n := (mb_nodes b4 ! n)\<lparr>nd_price := p, nd_quantity := q, nd_slot := i mod 2 ^ 32\<rparr>]\<rparr>;
          b9 = (if cell_empty (side_cells s b4 ! i) then level_opened s else (\<lambda>b. b)) b8;
          b10 = note_occupied s i b9
      in link_back s i n b6 = (b7, Ok ()) \<and> put_on_level s i q b7 = (b8, Ok ()) \<and>
         mbo_rel (if e then close_level s j b10 else b10) (spec_drop k bs @ [(order_of x)\<lparr>ro_price := p, ro_quantity := q\<rparr>]))"
proof -
  note I = mbo_invD [OF inv]
  let ?ti = "mb_index b" and ?cap = "ti_capacity (mb_index b)" and ?ns = "mb_nodes b"
  obtain s' j' xs ys where "n < length ?ns" "nd_order_id (?ns ! n) = k" "nd_side (?ns ! n) = s'" "nd_slot (?ns ! n) = j'" "j' < ?cap"
      "Q s' j' = xs @ n # ys" "n \<in> queued ?cap Q" "node_ok ?ti s' j' (?ns ! n)" "n \<noteq> NIL"
    by (rule node_facts [OF inv cn])
  then have N: "n < length ?ns" "nd_order_id (?ns ! n) = k" "j < ?cap" "Q s j = xs @ n # ys" "n \<in> queued ?cap Q"
    by (auto simp: s_def j_def)
  let ?Q3 = "set_queue Q s j (xs @ ys)"
  obtain b3 b4 where d: "unlink s j n b = (b3, Ok ())" "take_from_level s j (nd_quantity x) b3 = (b4, Ok ())"
      "mb_rest b4 = mb_rest b" "relinked (set (Q s j)) ?ns (mb_nodes b4)" "levels_ok ?ti (mb_nodes b4) (cells_of b4) ?Q3"
    using detach_ok [OF I(1) N(3,4)] unfolding x_def by blast
  note R4 = rest_eqD [OF d(3)]
  let ?e = "xs @ ys = []" and ?y = "(mb_nodes b4 ! n)\<lparr>nd_price := p, nd_quantity := q, nd_slot := i mod 2 ^ 32\<rparr>"
  define b5 where "b5 = (if ?e then level_closed s else (\<lambda>b. b)) b4"
  let ?b6 = "b5\<lparr>mb_nodes := (mb_nodes b4)[n := ?y]\<rparr>"
  have c5: "mb_core b5 = mb_core b4" by (simp add: b5_def)
  have v5: "best_slot t b5 = best_slot t b4" "side_levels t b5 = (if t = s \<and> ?e then wrap_dec_u32 (side_levels t b4) else side_levels t b4)" for t
    by (simp_all add: b5_def)
  note C5 = core_eqD [OF c5]
  have len4: "length (mb_nodes b4) = length ?ns" using d(4) by (simp add: relinked_def)
  have data4: "nd_data (mb_nodes b4 ! m) = nd_data (?ns ! m)" for m using d(4) by (simp add: relinked_def)
  have out: "n \<notin> queued ?cap ?Q3" using queued_detach [OF I(1) N(3,4)] by simp
  have slot: "i mod 2 ^ 32 = i" using i(1) levels_okD(2) [OF I(1)] by simp
  have ok6: "levels_ok (mb_index ?b6) (mb_nodes ?b6) (cells_of ?b6) ?Q3"
    using levels_ok_loose [OF d(5) out, of ?y] by (simp add: C5 R4)
  have y6: "mb_nodes ?b6 ! n = ?y" "n < length (mb_nodes ?b6)" using N(1) len4 by simp_all
  have node: "node_ok (mb_index ?b6) s i (mb_nodes ?b6 ! n)"
    unfolding y6 using ok i slot data4 [of n] by (simp add: node_ok_def C5 R4 nd_data_def s_def)
  have free6: "i < ti_capacity (mb_index ?b6)" "\<And>t m. m < ti_capacity (mb_index ?b6) \<Longrightarrow> n \<notin> set (?Q3 t m)"
    "nd_quantity (mb_nodes ?b6 ! n) = q" using i(1) out unfolding y6 by (auto simp: C5 R4 queued_def)
  let ?Q4 = "set_queue ?Q3 s i (?Q3 s i @ [n])"
  obtain b7 b8 where a: "link_back s i n ?b6 = (b7, Ok ())" "put_on_level s i q b7 = (b8, Ok ())" "mb_rest b8 = mb_rest ?b6"
      "relinked (insert n (set (?Q3 s i))) (mb_nodes ?b6) (mb_nodes b8)" "levels_ok (mb_index ?b6) (mb_nodes b8) (cells_of b8) ?Q4"
    using attach_ok [OF ok6 free6(1) y6(2) free6(2) node] unfolding free6(3) by blast
  note R8 = rest_eqD [OF a(3)]
  let ?f = "cell_empty (side_cells s b4 ! i)"
  let ?b9 = "(if ?f then level_opened s else (\<lambda>b. b)) b8"
  let ?b11 = "if ?e then close_level s j (note_occupied s i ?b9) else note_occupied s i ?b9"
  have f: "?f \<longleftrightarrow> ?Q3 s i = []" by (rule cell_empty_iff [OF d(5) i(1)])
  have e: "cell_empty (side_cells s b4 ! j) \<longleftrightarrow> ?e" using cell_empty_iff [OF d(5) N(3), of s] by (simp add: set_queue_def)
  have lens: "j < length (side_cells s b4)" "i < length (side_cells s b4)" using levels_okD(4) [OF d(5)] N(3) i(1) by simp_all
  have c11: "mb_core ?b11 = mb_core b8" by simp
  note C = core_eqD [OF c11]
  have ti6: "mb_index ?b6 = ?ti" by (simp add: C5 R4)
  have fields: "mb_index ?b11 = ?ti" "mb_nodes ?b11 = mb_nodes b8" "side_cells t ?b11 = side_cells t b8" "mb_free_head ?b11 = mb_free_head b"
      "mb_map ?b11 = mb_map b" "mb_map_mask ?b11 = mb_map_mask b" "mb_live ?b11 = mb_live b" for t
    unfolding C R8 using C5 R4 by simp_all
  have len8: "length (mb_nodes b8) = length ?ns" using a(4) len4 by (simp add: relinked_def)
  have ord8: "order_of (mb_nodes b8 ! m) = (if m = n then order_of ?y else order_of (?ns ! m))" for m
    using relinked_order [OF a(4), of m] relinked_order [OF d(4), of m] N(1) len4 by simp
  have ordy: "order_of ?y = (order_of x)\<lparr>ro_price := p, ro_quantity := q\<rparr>" using data4 [of n] by (simp add: order_of_def nd_data_def x_def)
  have qd: "queued ?cap ?Q4 = queued ?cap Q"
    using queued_attach [OF i(1), of ?Q3 s n] queued_detach [OF I(1) N(3,4)] N(5) by auto
  have same8: "mb_nodes b8 ! m = ?ns ! m" if "m \<in> set F" for m
  proof -
    have m: "m \<notin> queued ?cap Q" by (rule free_not_queued [OF I(1,4) that])
    then have "m \<noteq> n" "m \<notin> set (Q s j)" "m \<notin> set (?Q3 s i)"
      using N(3,4,5) i(1) queue_in_queued [OF N(3), of Q s] queue_in_queued [OF i(1), of Q s] by (auto simp: set_queue_def split: if_splits)
    then show ?thesis using a(4) d(4) by (simp add: relinked_def)
  qed
  have "free_chain (mb_nodes b8) (mb_free_head b) F" using free_chain_cong [OF len8 same8] I(4) by simp
  moreover have "ids_ok (mb_map b) (mb_nodes b8) (queued ?cap ?Q4)"
    unfolding qd by (rule ids_same [OF I(9)]) (use ord8 data4 in \<open>fastforce simp: order_of_def nd_data_def split: if_splits\<close>)
  moreover have "levels_ok ?ti (mb_nodes b8) (cells_of b8) ?Q4" using a(5) ti6 by simp
  moreover have "best_ok ?ti (best_of ?b11) ?Q4"
  proof (rule best_move)
    show "best_slot u ?b9 = touch u ?cap (Q u)" for u using I(2) by (simp add: R8 R4 v5 best_ok_def)
    have c9: "mb_core ?b9 = mb_core b8" by simp
    show "levels_ok ?ti (mb_nodes b8) (cells_of ?b9) ?Q4" unfolding core_eqD(3) [OF c9] using a(5) ti6 by simp
    show "mb_index ?b9 = ?ti" unfolding core_eqD(1) [OF c9] R8(1) by (rule ti6)
  qed (use i N in auto)
  moreover have "count_ok ?ti (counts_of ?b11) ?Q4"
  proof -
    have cap: "ti_capacity ?ti < NIL" by (rule levels_okD(2) [OF I(1)])
    have "Q s j \<noteq> []" using N(4) by simp
    note cc = count_closed [OF I(3) N(3) this cap, of "xs @ ys"]
    have "?Q3 s i @ [n] \<noteq> []" by simp
    note co = count_opened [OF cc i(1) this cap]
    have "counts_of ?b11 = (\<lambda>t. if t = s \<and> ?Q3 s i = [] then wrap_inc_u32 (if t = s \<and> ?e then wrap_dec_u32 (side_levels t b) else side_levels t b)
        else if t = s \<and> ?e then wrap_dec_u32 (side_levels t b) else side_levels t b)"
      by (rule ext) (simp add: R8 R4 v5 f)
    then show ?thesis using co [of s] by simp
  qed
  ultimately have "mbo_inv ?b11 ?Q4 F"
    unfolding mbo_inv_def fields using I(5,6,7,8,10) len8 qd by simp
  moreover have "orders_match ?ti (mb_nodes b8) ?Q4 (spec_drop k bs @ [(order_of x)\<lparr>ro_price := p, ro_quantity := q\<rparr>])"
  proof (rule match_attach [OF i(1) levels_okD(1) [OF I(1)]])
    show "orders_match ?ti (mb_nodes b4) ?Q3 (spec_drop k bs)"
      using match_detach [OF I(1) N(3,4) I(9) mt] relinked_order [OF d(4)] N(2) by simp
    show "order_of (mb_nodes b8 ! m) = order_of (mb_nodes b4 ! m)" if "m \<in> queued ?cap ?Q3" for m
      using ord8 [of m] relinked_order [OF d(4), of m] that out by auto
    show "order_of (mb_nodes b8 ! n) = (order_of x)\<lparr>ro_price := p, ro_quantity := q\<rparr>" using ord8 [of n] ordy by simp
  qed (use i(2) in \<open>auto simp: order_of_def x_def s_def\<close>)
  moreover have "spec_wf (spec_drop k bs @ [(order_of x)\<lparr>ro_price := p, ro_quantity := q\<rparr>])"
    using spec_wf_drop [OF wf] ok(2) N(2) by (auto simp: spec_wf_append order_of_def x_def)
  ultimately have "mbo_rel ?b11 (spec_drop k bs @ [(order_of x)\<lparr>ro_price := p, ro_quantity := q\<rparr>])"
    unfolding mbo_rel_def fields by blast
  moreover have "n < length (mb_nodes b4)" using N(1) len4 by simp
  ultimately show ?thesis using d(1,2) lens e a(1,2) unfolding Let_def b5_def
    by (intro exI [of _ b3] exI [of _ b4] exI [of _ b7] exI [of _ b8] exI [of _ ?e] conjI) assumption+
qed

lemma mbo_replace_ok:
  assumes rel: "mbo_rel b bs" and ok: "price_ok p" "q \<le> u32_max" and run: "mbo_replace b k p q = (b', r)"
  shows "case r of Ok _ \<Rightarrow> \<exists>cs. spec_replace k p q bs = Ok cs \<and> mbo_rel b' cs
     | Err e \<Rightarrow> mbo_rel b' bs \<and> (spec_replace k p q bs = Err e \<or> capacity_error e) | Panic \<Rightarrow> False"
proof (cases "q = 0")
  case True
  then show ?thesis using run rel by (auto simp: mbo_replace_def spec_replace_def)
next
  case False
  obtain Q F where inv: "mbo_inv b Q F" and wf: "spec_wf bs" and mt: "orders_match (mb_index b) (mb_nodes b) Q bs"
    using rel by (auto simp: mbo_rel_def)
  note get = match_get [OF inv wf mt, of k]
  show ?thesis
  proof (cases rule: find_ok [OF inv, of k])
    case (1 b1)
    then show ?thesis using run False get rel same_book_rel [OF 1(2)] by (auto simp: mbo_replace_def sbind_def spec_replace_def)
  next
    case found: (2 b1 m n pr)
    note S = same_bookD [OF found(2)]
    have inv1: "mbo_inv b1 Q F" and rel1: "mbo_rel b1 bs" and mt1: "orders_match (mb_index b1) (mb_nodes b1) Q bs"
      using same_book_inv [OF found(2)] same_book_rel [OF found(2)] inv rel mt by (auto simp: S)
    note I1 = mbo_invD [OF inv1]
    have nl: "n < length (mb_nodes b)" by (rule node_facts [OF inv found(6)])
    have g: "spec_get k bs = Some (order_of (mb_nodes b ! n))" using get found(6) by simp
    note enter = run [unfolded mbo_replace_def sbind_def] False found(1,4,5) nl
    show ?thesis
    proof (cases rule: slot_for_ok [OF I1(1-3) ok(1), of k])
      case (1 i b2 Q2)
      have inv2: "mbo_inv b2 Q2 F" by (rule rebased_inv [OF inv1 1(4-7)])
      have mt2: "orders_match (mb_index b2) (mb_nodes b2) Q2 bs" by (rule rebased_match [OF inv1 1(4) levels_okD(1) [OF 1(5)] mt1])
      note RB = rebasedD [OF 1(4)]
      have cap2: "i < ti_capacity (mb_index b2)" using 1(2) RB(1) by simp
      have cn2: "map_content (mb_map b2) k = Some n" using found(6) RB(4) S(5) by simp
      have ord2: "order_of (mb_nodes b2 ! n) = order_of (mb_nodes b ! n)" using RB(8) [of n] nl S(2) by simp
      note od = order_of_id [OF ord2]
      have nl2: "n < length (mb_nodes b2)" using nl RB(2) S(2) by simp
      let ?s = "nd_side (mb_nodes b2 ! n)" and ?j = "nd_slot (mb_nodes b2 ! n)"
      obtain b3 b4 b7 b8 e where pl: "unlink ?s ?j n b2 = (b3, Ok ())" "take_from_level ?s ?j (nd_quantity (mb_nodes b2 ! n)) b3 = (b4, Ok ())"
          "?j < length (side_cells ?s b4)" "cell_empty (side_cells ?s b4 ! ?j) \<longleftrightarrow> e" "i < length (side_cells ?s b4)" "n < length (mb_nodes b4)"
          "let b5 = (if e then level_closed ?s else (\<lambda>b. b)) b4;
              b6 = b5\<lparr>mb_nodes := (mb_nodes b4)[n := (mb_nodes b4 ! n)\<lparr>nd_price := p, nd_quantity := q, nd_slot := i mod 2 ^ 32\<rparr>]\<rparr>;
              b9 = (if cell_empty (side_cells ?s b4 ! i) then level_opened ?s else (\<lambda>b. b)) b8;
              b10 = note_occupied ?s i b9
            in link_back ?s i n b6 = (b7, Ok ()) \<and> put_on_level ?s i q b7 = (b8, Ok ()) \<and>
             mbo_rel (if e then close_level ?s ?j b10 else b10) (spec_drop k bs @ [(order_of (mb_nodes b2 ! n))\<lparr>ro_price := p, ro_quantity := q\<rparr>])"
        using replace_placed [OF inv2 wf mt2 cn2 cap2 1(3) ok(1) _ ok(2)] False by blast
      let ?b10 = "note_occupied ?s i ((if cell_empty (side_cells ?s b4 ! i) then level_opened ?s else (\<lambda>b. b)) b8)"
      have lk: "link_back ?s i n ((if e then level_closed ?s else (\<lambda>b. b)) b4\<lparr>mb_nodes := (mb_nodes b4)[n := (mb_nodes b4 ! n)\<lparr>nd_price := p, nd_quantity := q, nd_slot := i mod 2 ^ 32\<rparr>]\<rparr>) = (b7, Ok ())"
          "put_on_level ?s i q b7 = (b8, Ok ())"
        and rel': "mbo_rel (if e then close_level ?s ?j ?b10 else ?b10) (spec_drop k bs @ [(order_of (mb_nodes b2 ! n))\<lparr>ro_price := p, ro_quantity := q\<rparr>])"
        using pl(7) by (simp_all add: Let_def)
      have sd: "?s = nd_side (mb_nodes b ! n)" using od by simp
      have "b' = (if e then close_level ?s ?j ?b10 else ?b10) \<and> r = Ok ()"
        using enter 1(1) pl(1-6) [unfolded sd] lk [unfolded sd] nl2 od unfolding sd
        by (simp add: map_node_at_def read_node_def S Let_def read_cell_def modify_node_def maybe_closed)
      then show ?thesis using rel' g False ord2 by (simp add: spec_replace_def)
    next
      case 2
      then show ?thesis using enter rel1
        by (auto simp: map_node_at_def read_node_def S capacity_error_def)
    next
      case 3
      then show ?thesis using enter rel1
        by (auto simp: map_node_at_def read_node_def S capacity_error_def)
    qed
  qed
qed

end
