(* ===== verification/MboViews.thy ===== *)
theory MboViews
  imports MboRefine RefBook
begin

text \<open>
  The readers of the fast book agree with the abstract book, a new or cleared book is empty, and the
  book's own \<open>check_invariants\<close> accepts every state the invariant describes.
\<close>

section \<open>Lookup\<close>

lemma get_loop_find:
  assumes "\<And>m. occ (mb_map b) m \<Longrightarrow> me_node (mb_map b ! m) < length (mb_nodes b)"
  shows "map_find_loop (mb_map b) (mb_map_mask b) k i probes = Ok (r, p) \<Longrightarrow> probes \<le> length (mb_map b) \<Longrightarrow>
     get_loop b k (length (mb_map b) + 1 - probes) i = Ok (map_option (\<lambda>m. order_of (mb_nodes b ! me_node (mb_map b ! m))) r)"
proof (induction "length (mb_map b) - probes" arbitrary: probes i rule: less_induct)
  case less
  let ?es = "mb_map b"
  have fuel: "length ?es + 1 - probes = Suc (length ?es - probes)" using less.prems(2) by simp
  have step: "map_find_loop ?es (mb_map_mask b) k i probes = Ok (r, p)" by (rule less.prems(1))
  show ?case
  proof (cases "length ?es \<le> i \<or> me_node (?es ! i) = NIL \<or> me_order_id (?es ! i) = k")
    case True
    then show ?thesis using step assms [of i] unfolding fuel
      by (subst (asm) map_find_loop.simps) (auto simp: Let_def occ_def split: if_splits)
  next
    case False
    show ?thesis
    proof (cases "probes + 1 > length ?es")
      case True
      then have "r = None" "length ?es - probes = 0" using False step less.prems(2)
        by (subst (asm) map_find_loop.simps, auto simp: Let_def)+
      then show ?thesis using False unfolding fuel by (simp add: Let_def)
    next
      case small: False
      then have "map_find_loop ?es (mb_map_mask b) k (map_next (mb_map_mask b) i) (probes + 1) = Ok (r, p)"
        using False step by (subst (asm) map_find_loop.simps) (auto simp: Let_def)
      from less.hyps [OF _ this] small have "get_loop b k (length ?es - probes) (map_next (mb_map_mask b) i) =
          Ok (map_option (\<lambda>m. order_of (mb_nodes b ! me_node (?es ! m))) r)" by simp
      then show ?thesis using False unfolding fuel by (simp add: Let_def)
    qed
  qed
qed

lemma mbo_get_ok:
  assumes rel: "mbo_rel b bs"
  shows "mbo_get b k = Ok (spec_get k bs)"
proof -
  obtain Q F where inv: "mbo_inv b Q F" and wf: "spec_wf bs" and mt: "orders_match (mb_index b) (mb_nodes b) Q bs"
    using rel by (auto simp: mbo_rel_def)
  note I = mbo_invD [OF inv]
  have ids: "ids_distinct (mb_map b)" using I(7) by (simp add: map_wf_def)
  have range: "me_node (mb_map b ! m) < length (mb_nodes b)" if "occ (mb_map b) m" for m
  proof -
    have "map_content (mb_map b) (me_order_id (mb_map b ! m)) = Some (me_node (mb_map b ! m))"
      using that content_iff [OF ids] by auto
    then show ?thesis using node_facts [OF inv] by metis
  qed
  obtain r p where pr: "map_probe (mb_map b) (mb_map_mask b) k = Ok (r, p)" "map_option (\<lambda>m. me_node (mb_map b ! m)) r = map_content (mb_map b) k"
    using tbl.lookup_ok [OF I(7) used_room(2) [OF inv]] by blast
  have "mbo_get b k = Ok (map_option (\<lambda>m. order_of (mb_nodes b ! me_node (mb_map b ! m))) r)"
    using get_loop_find [OF range, of k "mbo_hash (mb_map_mask b) k" 0 r p] pr(1) by (simp add: mbo_get_def map_probe_def)
  also have "map_option (\<lambda>m. order_of (mb_nodes b ! me_node (mb_map b ! m))) r = spec_get k bs"
    unfolding match_get [OF inv wf mt] pr(2) [symmetric] by (simp add: option.map_comp comp_def)
  finally show ?thesis .
qed

section \<open>The queue order\<close>

lemma slots_facts:
  assumes inv: "mbo_inv b Q F"
  shows "sorted_wrt (<) (map (\<lambda>i. price_rank s (price_at (mb_index b) i)) (order_slots b s))"
    "\<And>i. i \<in> set (order_slots b s) \<Longrightarrow> i < ti_capacity (mb_index b)"
    "\<And>i. i < ti_capacity (mb_index b) \<Longrightarrow> Q s i \<noteq> [] \<Longrightarrow> i \<in> set (order_slots b s)"
    "level_slots b s = order_slots b s" "distinct (order_slots b s)"
proof -
  note I = mbo_invD [OF inv] and ok = levels_okD(1) [OF mbo_invD(1) [OF inv]]
  let ?cap = "ti_capacity (mb_index b)"
  have best: "best_slot s b = touch s ?cap (Q s)" using I(2) by (simp add: best_ok_def)
  have len: "length (mb_asks b) = ?cap" using levels_okD(4) [OF I(1), of Ask] by simp
  have shape: "order_slots b s = (case best_slot s b of None \<Rightarrow> [] | Some x \<Rightarrow> (if s = Bid then rev [0..<x + 1] else [x..<?cap]))"
  proof (cases "best_slot s b")
    case (Some x)
    then have "x < ?cap" using touch_Some [of s ?cap "Q s" x] best by simp
    then show ?thesis using Some by (cases s) (auto simp: min_absorb1 upt_conv_Cons simp del: upt_Suc)
  qed (cases s; simp)
  have x: "x < ?cap" "\<And>j. j < ?cap \<Longrightarrow> Q s j \<noteq> [] \<Longrightarrow> \<not> better s j x" if "best_slot s b = Some x" for x
    using touch_Some [of s ?cap "Q s" x] best that by auto
  show range: "i < ?cap" if "i \<in> set (order_slots b s)" for i
  proof (cases "best_slot s b")
    case None
    then show ?thesis using that by (simp add: shape)
  next
    case (Some y)
    then show ?thesis using that x(1) [OF Some] by (auto simp: shape split: if_splits)
  qed
  show "i \<in> set (order_slots b s)" if i: "i < ?cap" "Q s i \<noteq> []" for i
  proof (cases "best_slot s b")
    case None
    then show ?thesis using touch_None [of s ?cap "Q s"] best i by simp
  next
    case (Some y)
    then show ?thesis using x(2) [OF Some i] i(1) by (cases s) (auto simp: shape simp del: upt_Suc)
  qed
  show dist: "distinct (order_slots b s)" by (auto simp: shape split: option.splits simp del: upt_Suc)
  show "level_slots b s = order_slots b s"
  proof (cases "best_slot s b")
    case (Some y)
    then show ?thesis using x(1) [OF Some] len by (cases s) (auto simp: min_absorb1 upt_conv_Cons simp del: upt_Suc)
  qed (cases s; simp)
  have mono: "price_at (mb_index b) i < price_at (mb_index b) j" if "i < j" "j < ?cap" for i j
    using price_at_mono [OF ok, of i j] that by simp
  show "sorted_wrt (<) (map (\<lambda>i. price_rank s (price_at (mb_index b) i)) (order_slots b s))"
  proof (cases "best_slot s b")
    case (Some y)
    have "sorted_wrt (\<lambda>i j. price_rank s (price_at (mb_index b) i) < price_rank s (price_at (mb_index b) j)) (order_slots b s)"
    proof (cases s)
      case Bid
      have sl: "order_slots b s = rev [0..<y + 1]" unfolding shape Some using Bid by simp
      have "sorted_wrt (\<lambda>i j. j < i) (rev [0..<y + 1])" by (simp add: sorted_wrt_rev del: upt_Suc)
      then show ?thesis unfolding sl
        by (rule sorted_wrt_mono_rel [rotated]) (use Bid mono x(1) [OF Some] in auto)
    next
      case Ask
      have sl: "order_slots b s = [y..<?cap]" unfolding shape Some using Ask by simp
      have "sorted_wrt (<) [y..<?cap]" by simp
      then show ?thesis unfolding sl
        by (rule sorted_wrt_mono_rel [rotated]) (use Ask mono in auto)
    qed
    then show ?thesis by (simp add: sorted_wrt_map)
  qed (simp add: shape)
qed

lemma rank_inj: "price_rank s p = price_rank s q \<longleftrightarrow> p = q"
  by (cases s) auto

lemma slots_queue:
  assumes inv: "mbo_inv b Q F" and mt: "orders_match (mb_index b) (mb_nodes b) Q bs"
  shows "concat (map (\<lambda>i. map (\<lambda>n. order_of (mb_nodes b ! n)) (Q s i)) (order_slots b s)) = spec_queue s bs"
    "spec_queue s bs = concat (map (\<lambda>p. filter (\<lambda>x. ro_price x = p) (spec_side s bs)) (map (price_at (mb_index b)) (order_slots b s)))"
proof -
  note S = slots_facts [OF inv, where s = s]
  let ?f = "\<lambda>x. price_rank s (ro_price x)" and ?ks = "map (\<lambda>i. price_rank s (price_at (mb_index b) i)) (order_slots b s)"
  have grp: "map (\<lambda>n. order_of (mb_nodes b ! n)) (Q s i) = filter (\<lambda>x. ?f x = price_rank s (price_at (mb_index b) i)) (spec_side s bs)"
    if "i \<in> set (order_slots b s)" for i
    using orders_matchD(1) [OF mt S(2) [OF that], of s] by (simp add: spec_side_def rank_inj conj_commute)
  have sub: "?f ` set (spec_side s bs) \<subseteq> set ?ks"
  proof
    fix v assume "v \<in> ?f ` set (spec_side s bs)"
    then obtain x where x: "x \<in> set bs" "ro_side x = s" "v = ?f x" by (auto simp: spec_side_def)
    obtain i where i: "i < ti_capacity (mb_index b)" "price_at (mb_index b) i = ro_price x" using orders_matchD(2) [OF mt x(1)] by blast
    have "x \<in> set (filter (\<lambda>x. ro_side x = s \<and> ro_price x = price_at (mb_index b) i) bs)" using x i by simp
    then have "Q s i \<noteq> []" unfolding orders_matchD(1) [OF mt i(1), of s, symmetric] by auto
    then have "i \<in> set (order_slots b s)" by (rule S(3) [OF i(1)])
    then show "v \<in> set ?ks" using x(3) i(2) by (auto simp: image_iff intro!: bexI [of _ i])
  qed
  have q: "spec_queue s bs = concat (map (\<lambda>k. filter (\<lambda>x. ?f x = k) (spec_side s bs)) ?ks)"
    using sort_key_groups [OF S(1) sub] by (simp add: spec_queue_def)
  show "concat (map (\<lambda>i. map (\<lambda>n. order_of (mb_nodes b ! n)) (Q s i)) (order_slots b s)) = spec_queue s bs"
    unfolding q using grp by (simp add: comp_def cong: map_cong)
  show "spec_queue s bs = concat (map (\<lambda>p. filter (\<lambda>x. ro_price x = p) (spec_side s bs)) (map (price_at (mb_index b)) (order_slots b s)))"
    unfolding q by (simp add: comp_def rank_inj)
qed

lemma walk_slots_ok:
  assumes ok: "levels_ok ti ns cells Q" and slots: "\<And>i. i \<in> set js \<Longrightarrow> i < ti_capacity ti"
  shows "walk_slots (cells s) ns js = Ok (concat (map (\<lambda>i. map (\<lambda>n. order_of (ns ! n)) (Q s i)) js))"
  using slots
proof (induction js)
  case (Cons i js)
  have i: "i < ti_capacity ti" using Cons.prems by simp
  have "lc_head (cells s ! i) = first_of (Q s i) NIL" using levels_okD(8) [OF ok i, of s] by (simp add: cell_ok_def)
  then have "walk_queue ns (lc_head (cells s ! i)) = Some (Ok (map (\<lambda>n. order_of (ns ! n)) (Q s i)))"
    using walk_queue_ok [OF levels_okD(6) [OF ok i, of s] levels_okD(3) [OF ok]] by simp
  then show ?case using Cons.IH Cons.prems i levels_okD(4) [OF ok, of s] by (simp add: not_le)
qed simp

lemma mbo_for_each_order_ok:
  assumes "mbo_rel b bs"
  shows "mbo_for_each_order b s = Ok (spec_queue s bs)"
proof -
  obtain Q F where inv: "mbo_inv b Q F" and mt: "orders_match (mb_index b) (mb_nodes b) Q bs"
    using assms by (auto simp: mbo_rel_def)
  show ?thesis
    using walk_slots_ok [OF mbo_invD(1) [OF inv] slots_facts(2) [OF inv, where s = s], where s = s] slots_queue(1) [OF inv mt, of s]
    by (simp add: mbo_for_each_order_def)
qed

section \<open>Levels\<close>

lemma level_of_slot:
  assumes inv: "mbo_inv b Q F" and mt: "orders_match (mb_index b) (mb_nodes b) Q bs" and i: "i < ti_capacity (mb_index b)"
  shows "sum_list (map ro_quantity (filter (\<lambda>x. ro_price x = price_at (mb_index b) i) (spec_queue s bs))) = lc_quantity (side_cells s b ! i)"
    "min (length (filter (\<lambda>x. ro_price x = price_at (mb_index b) i) (spec_queue s bs))) u32_max = lc_orders (side_cells s b ! i)"
proof -
  note I = mbo_invD [OF inv]
  have f: "filter (\<lambda>x. ro_price x = price_at (mb_index b) i) (spec_queue s bs) = map (\<lambda>n. order_of (mb_nodes b ! n)) (Q s i)"
    using orders_matchD(1) [OF mt i, of s] by (simp add: spec_queue_time spec_side_def conj_commute)
  note C = levels_okD(8) [OF I(1) i, of s, unfolded cell_ok_def]
  have q: "ro_quantity (order_of x) = nd_quantity x" for x by (simp add: order_of_def)
  show "sum_list (map ro_quantity (filter (\<lambda>x. ro_price x = price_at (mb_index b) i) (spec_queue s bs))) = lc_quantity (side_cells s b ! i)"
    using C by (simp add: f comp_def q)
  show "min (length (filter (\<lambda>x. ro_price x = price_at (mb_index b) i) (spec_queue s bs))) u32_max = lc_orders (side_cells s b ! i)"
    using C queue_quantity_bound(1) [OF I(1) i, of s] levels_okD(3) [OF I(1)] by (simp add: f)
qed

lemma concat_filter: "(\<And>i. i \<in> set xs \<Longrightarrow> \<not> P i \<Longrightarrow> f i = []) \<Longrightarrow> concat (map f xs) = concat (map f (filter P xs))"
  by (induction xs) auto

lemma mbo_levels_ok:
  assumes rel: "mbo_rel b bs"
  shows "mbo_for_each_level b s depth = (if depth = 0 then spec_levels s bs else take depth (spec_levels s bs))"
    "mbo_level_count b s depth = length (mbo_for_each_level b s depth)"
proof -
  obtain Q F where inv: "mbo_inv b Q F" and mt: "orders_match (mb_index b) (mb_nodes b) Q bs"
    using rel by (auto simp: mbo_rel_def)
  note I = mbo_invD [OF inv] and S = slots_facts [OF inv, where s = s]
  let ?ti = "mb_index b" and ?P = "\<lambda>i. \<not> cell_empty (side_cells s b ! i)" and ?os = "order_slots b s"
  have P: "?P i \<longleftrightarrow> Q s i \<noteq> []" if "i \<in> set ?os" for i using cell_empty_iff [OF I(1) S(2) [OF that], of s] by simp
  let ?ks = "map (price_at ?ti) (filter ?P ?os)"
  have ne: "filter (\<lambda>x. ro_price x = price_at ?ti i) (spec_side s bs) = [] \<longleftrightarrow> Q s i = []" if "i \<in> set ?os" for i
    using orders_matchD(1) [OF mt S(2) [OF that], of s] by (metis (no_types, lifting) filter_filter spec_side_def conj_commute filter_cong map_is_Nil_conv)
  have "concat (map (\<lambda>p. filter (\<lambda>x. ro_price x = p) (spec_side s bs)) (map (price_at ?ti) ?os)) =
      concat (map (\<lambda>p. filter (\<lambda>x. ro_price x = p) (spec_side s bs)) ?ks)"
    unfolding filter_map [symmetric] comp_def map_map using ne P by (auto intro!: concat_filter simp: comp_def)
  then have q: "spec_queue s bs = concat (map (\<lambda>p. filter (\<lambda>x. ro_price x = p) (spec_side s bs)) ?ks)" using slots_queue(2) [OF inv mt, of s] by simp
  have srt: "sorted_wrt (<) ?ks \<or> sorted_wrt (>) ?ks"
  proof -
    have "sorted_wrt (\<lambda>i j. price_rank s (price_at ?ti i) < price_rank s (price_at ?ti j)) (filter ?P ?os)"
      using S(1) by (simp add: sorted_wrt_map sorted_wrt_filter)
    then show ?thesis by (cases s) (simp_all add: sorted_wrt_map)
  qed
  have "remdups_adj (map ro_price (spec_queue s bs)) = ?ks"
    unfolding q by (rule remdups_adj_groups [OF srt]) (use ne P in auto)
  then have "spec_levels s bs = map (\<lambda>i. \<lparr>lv_price = price_at ?ti i, lv_quantity = lc_quantity (side_cells s b ! i),
      lv_order_count = lc_orders (side_cells s b ! i)\<rparr>) (filter ?P ?os)"
    using level_of_slot [OF inv mt S(2)] by (simp add: spec_levels_def)
  then show lv: "mbo_for_each_level b s depth = (if depth = 0 then spec_levels s bs else take depth (spec_levels s bs))" for depth
    by (simp add: mbo_for_each_level_def Let_def S(4))
  have "set (filter ?P ?os) = {i. i < ti_capacity ?ti \<and> Q s i \<noteq> []}" using P S(2,3) by auto
  then have "length (filter ?P ?os) = card {i. i < ti_capacity ?ti \<and> Q s i \<noteq> []}"
    using distinct_card [OF distinct_filter [OF S(5)], of ?P] by simp
  then have "side_levels s b = length (mbo_for_each_level b s 0)"
    using I(3) by (simp add: count_ok_def mbo_for_each_level_def Let_def S(4))
  then show "mbo_level_count b s depth = length (mbo_for_each_level b s depth)"
    by (simp add: mbo_level_count_def Let_def lv min.commute)
qed

lemma mbo_front_ok:
  assumes rel: "mbo_rel b bs"
  shows "mbo_front b s = Ok (case spec_queue s bs of [] \<Rightarrow> None | x # _ \<Rightarrow> Some (ro_price x, ro_order_id x))"
proof -
  obtain Q F where inv: "mbo_inv b Q F" and mt: "orders_match (mb_index b) (mb_nodes b) Q bs"
    using rel by (auto simp: mbo_rel_def)
  note I = mbo_invD [OF inv]
  have best: "best_slot s b = touch s (ti_capacity (mb_index b)) (Q s)" using I(2) by (simp add: best_ok_def)
  show ?thesis
  proof (cases "best_slot s b")
    case None
    then have "order_slots b s = []" by (cases s) auto
    then have "spec_queue s bs = []" using slots_queue(1) [OF inv mt, of s] by simp
    then show ?thesis using None by (simp add: mbo_front_def)
  next
    case (Some i)
    then have i: "i < ti_capacity (mb_index b)" "Q s i \<noteq> []" using touch_Some [of s _ "Q s" i] best by auto
    obtain n ns where q: "Q s i = n # ns" using i(2) by (cases "Q s i") auto
    obtain js where js: "order_slots b s = i # js" using Some i(1) by (cases s) (auto simp: min_absorb1)
    have head: "lc_head (side_cells s b ! i) = n" using levels_okD(8) [OF I(1) i(1), of s] q by (simp add: cell_ok_def)
    have n: "n < length (mb_nodes b)" using levels_okD(9) [OF I(1) i(1), of n s] q by simp
    have nn: "n \<noteq> NIL" using n levels_okD(3) [OF I(1)] by simp
    have "node_ok (mb_index b) s i (mb_nodes b ! n)" using levels_okD(7) [OF I(1) i(1), of n s] q by simp
    then have "nd_price (mb_nodes b ! n) = price_at (mb_index b) i" by (simp add: node_ok_def)
    moreover have "\<exists>xs. spec_queue s bs = order_of (mb_nodes b ! n) # xs" by (simp flip: slots_queue(1) [OF inv mt, of s] add: js q)
    ultimately show ?thesis using Some head n nn i(1) levels_okD(4) [OF I(1), of s]
      by (auto simp: mbo_front_def order_of_def not_le)
  qed
qed

section \<open>Empty books\<close>

lemma power_at_least_ok:
  assumes "0 < p"
  shows "n \<le> power_at_least n p \<and> (power_at_least n p = p \<or> power_at_least n p < 2 * n) \<and> (\<exists>k. power_at_least n p = p * 2 ^ k)"
  using assms
proof (induction n p rule: power_at_least.induct)
  case (1 n p)
  show ?case
  proof (cases "n \<le> p")
    case True
    then have "power_at_least n p = p" by (subst power_at_least.simps) simp
    then show ?thesis using True by (auto intro: exI [of _ 0])
  next
    case False
    then have eq: "power_at_least n p = power_at_least n (2 * p)" using 1(2) by (subst power_at_least.simps) simp
    from 1(1) 1(2) False obtain k where "n \<le> power_at_least n (2 * p)"
        "power_at_least n (2 * p) = 2 * p \<or> power_at_least n (2 * p) < 2 * n" "power_at_least n (2 * p) = 2 * p * 2 ^ k" by auto
    then show ?thesis unfolding eq using False by (auto intro: exI [of _ "Suc k"])
  qed
qed

lemma next_power_of_two_ok:
  assumes "0 < n" "n < 2 ^ 63"
  shows "\<exists>k. next_power_of_two n = 2 ^ k \<and> n \<le> 2 ^ k \<and> (2 :: nat) ^ k < 2 ^ 64"
proof -
  obtain k where k: "n \<le> power_at_least n 1" "power_at_least n 1 = 1 \<or> power_at_least n 1 < 2 * n" "power_at_least n 1 = 2 ^ k"
    using power_at_least_ok [of 1 n] by (metis mult_1 zero_less_one)
  have "power_at_least n 1 < 2 ^ 64" using k(2) assms by auto
  then show ?thesis using k by (intro exI [of _ k]) (simp add: next_power_of_two_def Let_def)
qed

lemma empty_rel:
  assumes ti: "ti_ok (mb_index b)" "ti_capacity (mb_index b) < NIL" and n: "0 < n" "n \<le> NIL" "n < length (mb_map b)"
    and cells: "\<And>s. side_cells s b = replicate (ti_capacity (mb_index b)) cell_default"
    and nodes: "mb_nodes b = fresh_nodes n" "mb_free_head b = 0"
    and map: "mb_map b = replicate l map_entry_default" "mask_ok (mb_map b) (mb_map_mask b)" "mb_live b = 0"
    and views: "\<And>s. best_slot s b = None" "\<And>s. side_levels s b = 0"
  shows "mbo_rel b []"
proof -
  let ?Q = "\<lambda>_ _. [] :: nat list"
  have len: "length (mb_nodes b) = n" by (simp add: nodes fresh_nodes_def)
  have "levels_ok (mb_index b) (mb_nodes b) (cells_of b) ?Q"
    using ti n len by (simp add: levels_ok_def cells cell_ok_def cell_default_def)
  moreover have "best_ok (mb_index b) (best_of b) ?Q"
    unfolding best_ok_def using touch_None [of _ "ti_capacity (mb_index b)" "?Q undefined"] views(1) by (metis (no_types, lifting) touch_None)
  moreover have "count_ok (mb_index b) (counts_of b) ?Q" by (simp add: count_ok_def views)
  moreover have "free_chain (mb_nodes b) (mb_free_head b) [0..<n]" using fresh_nodes_chain [OF n(1,2)] by (simp add: nodes)
  moreover have "map_wf (mb_map_mask b) (mb_map b)"
    using map(2) by (auto simp: map_wf_def map(1) probe_chain_def ids_distinct_def occ_def map_entry_default_def)
  moreover have "queued (ti_capacity (mb_index b)) ?Q = {}" by (simp add: queued_def)
  ultimately have "mbo_inv b ?Q [0..<n]"
    unfolding mbo_inv_def using n len map(3) by (auto simp: ids_ok_def map(1))
  then show ?thesis by (auto simp: mbo_rel_def spec_wf_def orders_match_def)
qed

text \<open>A sizing the book can be built from: it fits the 32-bit node and slot numbers and keeps the
  window arithmetic inside \<open>i64\<close>.\<close>

definition capacity_ok :: "mbo_capacity \<Rightarrow> bool" where
  "capacity_ok cap \<longleftrightarrow> price_ok (mc_reference_price cap) \<and> max (mc_levels cap) 4 < NIL \<and> max (mc_orders cap) 4 \<le> NIL \<and>
     int (max (mc_levels cap) 4) * max (mc_tick cap) 1 \<le> 2 ^ 61"

lemma mbo_new_rel:
  assumes "capacity_ok cap"
  shows "mbo_rel (mbo_new cap) []"
proof -
  let ?l = "max (mc_levels cap) 4" and ?o = "max (mc_orders cap) 4"
  have "0 < ?o * 4" "?o * 4 < 2 ^ 63" using assms by (auto simp: capacity_ok_def)
  from next_power_of_two_ok [OF this] obtain k where
    k: "next_power_of_two (?o * 4) = 2 ^ k" "?o * 4 \<le> 2 ^ k" "(2 :: nat) ^ k < 2 ^ 64" by blast
  have m: "(?o * 4) mod 2 ^ 64 = ?o * 4" using assms by (simp add: capacity_ok_def)
  have mask: "wrap_sub_u64 (2 ^ k) 1 = 2 ^ k - 1" using k(3) by (intro wrap_sub_u64_exact) auto
  have ml: "max (max (mc_levels cap) 4) 2 = ?l" by simp
  show ?thesis
  proof (rule empty_rel [where n = ?o and l = "2 ^ k"])
    show "ti_ok (mb_index (mbo_new cap))"
      using centred_on_ok [of "mc_reference_price cap" ?l "mc_tick cap"] assms by (simp add: mbo_new_def Let_def capacity_ok_def ml)
    show "ti_capacity (mb_index (mbo_new cap)) < NIL" using assms by (simp add: mbo_new_def Let_def capacity_ok_def centred_on_def ml)
    show "side_cells s (mbo_new cap) = replicate (ti_capacity (mb_index (mbo_new cap))) cell_default" for s
      by (cases s) (simp_all add: mbo_new_def Let_def centred_on_def ml)
    show "mb_map (mbo_new cap) = replicate (2 ^ k) map_entry_default" using k(1) m by (simp add: mbo_new_def Let_def)
    show "mask_ok (mb_map (mbo_new cap)) (mb_map_mask (mbo_new cap))"
      using k(1) m mask by (auto simp: mbo_new_def Let_def mask_ok_def)
    have "4 \<le> ?o" by simp
    then have "?o < ?o * 4" by linarith
    with k(2) have "?o < 2 ^ k" by linarith
    then show "?o < length (mb_map (mbo_new cap))" using k(1) m by (simp add: mbo_new_def Let_def)
    show "best_slot s (mbo_new cap) = None" "side_levels s (mbo_new cap) = 0" for s by (cases s; simp add: mbo_new_def Let_def)+
  qed (use assms in \<open>simp_all add: mbo_new_def Let_def capacity_ok_def\<close>)
qed

lemma mbo_clear_rel:
  assumes "mbo_rel b bs"
  shows "mbo_rel (mbo_clear b) []"
proof -
  obtain Q F where inv: "mbo_inv b Q F" using assms by (auto simp: mbo_rel_def)
  note I = mbo_invD [OF inv] and D = levels_okD [OF mbo_invD(1) [OF inv]]
  show ?thesis
  proof (rule empty_rel [where n = "length (mb_nodes b)" and l = "length (mb_map b)"])
    show "side_cells s (mbo_clear b) = replicate (ti_capacity (mb_index (mbo_clear b))) cell_default" for s
      using D(4) [of s] by (cases s) (simp_all add: mbo_clear_def map_replicate_const)
    show "mask_ok (mb_map (mbo_clear b)) (mb_map_mask (mbo_clear b))"
      using I(7) by (simp add: mbo_clear_def map_wf_def mask_ok_def)
    show "best_slot s (mbo_clear b) = None" "side_levels s (mbo_clear b) = 0" for s by (cases s; simp add: mbo_clear_def)+
  qed (use D(1,2,3,10) I(8) in \<open>simp_all add: mbo_clear_def map_replicate_const\<close>)
qed

section \<open>The self-check\<close>

lemma check_level_ok:
  assumes "seg (mb_nodes b) NIL (xs @ ys) NIL" "length (mb_nodes b) \<le> NIL" "length (xs @ ys) \<le> length (mb_nodes b)"
    "\<forall>n \<in> set ys. nd_slot (mb_nodes b ! n) = i \<and> nd_side (mb_nodes b ! n) = s \<and> 0 < nd_quantity (mb_nodes b ! n) \<and>
       (\<exists>x. mbo_get b (nd_order_id (mb_nodes b ! n)) = Ok (Some x))"
    "sum_list (map (\<lambda>n. nd_quantity (mb_nodes b ! n)) (xs @ ys)) \<le> u64_max"
  shows "check_level b s i (first_of ys NIL) (length xs) (sum_list (map (\<lambda>n. nd_quantity (mb_nodes b ! n)) xs)) (last_of xs NIL) =
     Some (length (xs @ ys), sum_list (map (\<lambda>n. nd_quantity (mb_nodes b ! n)) (xs @ ys)), last_of (xs @ ys) NIL)"
  using assms
proof (induction ys arbitrary: xs)
  case Nil
  then show ?case by (subst check_level.simps) simp
next
  case (Cons n ys)
  have n: "n < length (mb_nodes b)" "nd_prev (mb_nodes b ! n) = last_of xs NIL" "nd_next (mb_nodes b ! n) = first_of ys NIL"
    using Cons.prems(1) by (auto simp: seg_append)
  have IH: "check_level b s i (first_of ys NIL) (length (xs @ [n])) (sum_list (map (\<lambda>n. nd_quantity (mb_nodes b ! n)) (xs @ [n]))) (last_of (xs @ [n]) NIL) =
     Some (length ((xs @ [n]) @ ys), sum_list (map (\<lambda>n. nd_quantity (mb_nodes b ! n)) ((xs @ [n]) @ ys)), last_of ((xs @ [n]) @ ys) NIL)"
    using Cons.prems by (intro Cons.IH) auto
  obtain x where "mbo_get b (nd_order_id (mb_nodes b ! n)) = Ok (Some x)" using Cons.prems(4) by auto
  then show ?case using n IH Cons.prems(2-5)
    by (subst check_level.simps) (simp add: Let_def)
qed

lemma check_cell_ok:
  assumes rel: "mbo_rel b bs" and inv: "mbo_inv b Q F" and i: "i < ti_capacity (mb_index b)"
  shows "check_cell b s i"
proof -
  note I = mbo_invD [OF inv]
  let ?q = "Q s i" and ?ns = "mb_nodes b"
  note C = levels_okD(8) [OF I(1) i, of s, unfolded cell_ok_def]
  have "length ?q * u32_max \<le> u32_max * u32_max"
    using queue_quantity_bound(1) [OF I(1) i, of s] levels_okD(3) [OF I(1)] by (intro mult_right_mono) auto
  then have tot: "sum_list (map (\<lambda>n. nd_quantity (?ns ! n)) ?q) \<le> u64_max" using queue_quantity_bound(2) [OF I(1) i, of s] by simp
  have "\<forall>n \<in> set ?q. nd_slot (?ns ! n) = i \<and> nd_side (?ns ! n) = s \<and> 0 < nd_quantity (?ns ! n) \<and>
       (\<exists>x. mbo_get b (nd_order_id (?ns ! n)) = Ok (Some x))"
  proof (intro ballI conjI)
    fix n assume n: "n \<in> set ?q"
    then show "nd_slot (?ns ! n) = i" "nd_side (?ns ! n) = s" "0 < nd_quantity (?ns ! n)"
      using levels_okD(7) [OF I(1) i n] by (auto simp: node_ok_def)
    have "n \<in> queued (ti_capacity (mb_index b)) Q" using n queue_in_queued [OF i] by blast
    then have "map_content (mb_map b) (nd_order_id (?ns ! n)) = Some n" using I(9) by (simp add: ids_ok_def)
    obtain Q' F' where r: "mbo_inv b Q' F'" "spec_wf bs" "orders_match (mb_index b) ?ns Q' bs" using rel by (auto simp: mbo_rel_def)
    show "\<exists>x. mbo_get b (nd_order_id (?ns ! n)) = Ok (Some x)"
      using mbo_get_ok [OF rel] match_get [OF r] \<open>map_content _ _ = Some n\<close> by simp
  qed
  from check_level_ok [of b "[]" ?q i s] this levels_okD(3,6) [OF I(1)] i queue_quantity_bound(1) [OF I(1) i, of s] tot
  have "check_level b s i (first_of ?q NIL) 0 0 NIL = Some (length ?q, sum_list (map (\<lambda>n. nd_quantity (?ns ! n)) ?q), last_of ?q NIL)" by simp
  then show ?thesis using C by (simp add: check_cell_def Let_def)
qed

lemma side_orders_sum:
  assumes inv: "mbo_inv b Q F" and mt: "orders_match (mb_index b) (mb_nodes b) Q bs"
  shows "sum_list (map lc_orders (side_cells s b)) = length (spec_side s bs)"
proof -
  note I = mbo_invD [OF inv] and S = slots_facts [OF inv, where s = s]
  let ?cap = "ti_capacity (mb_index b)" and ?f = "\<lambda>i. length (Q s i)"
  have len: "length (side_cells s b) = ?cap" by (rule levels_okD(4) [OF I(1)])
  have "map lc_orders (side_cells s b) = map ?f [0..<?cap]"
    using levels_okD(8) [OF I(1)] len by (auto simp: list_eq_iff_nth_eq cell_ok_def)
  then have "sum_list (map lc_orders (side_cells s b)) = (\<Sum>i\<in>{..<?cap}. ?f i)" by (simp add: sum_list_distinct_conv_sum_set atLeast0LessThan)
  also have "\<dots> = (\<Sum>i\<in>set (order_slots b s). ?f i)" using S(2,3) by (intro sum.mono_neutral_right) auto
  also have "\<dots> = sum_list (map ?f (order_slots b s))" by (rule sum_list_distinct_conv_sum_set [OF S(5), symmetric])
  also have "\<dots> = length (spec_queue s bs)" by (simp flip: slots_queue(1) [OF inv mt, of s] add: length_concat comp_def)
  finally show ?thesis by (simp add: spec_queue_def)
qed

lemma mbo_check_ok:
  assumes rel: "mbo_rel b bs"
  shows "mbo_check_invariants b"
proof -
  obtain Q F where inv: "mbo_inv b Q F" and wf: "spec_wf bs" and mt: "orders_match (mb_index b) (mb_nodes b) Q bs"
    using rel by (auto simp: mbo_rel_def)
  note I = mbo_invD [OF inv]
  let ?cap = "ti_capacity (mb_index b)"
  have len: "length (side_cells s b) = ?cap" for s by (rule levels_okD(4) [OF I(1)])
  have ce: "cell_empty (side_cells s b ! i) \<longleftrightarrow> Q s i = []" if "i < ?cap" for s i by (rule cell_empty_iff [OF I(1) that])
  have side: "check_side b s" for s
  proof -
    have "length (filter (\<lambda>c. \<not> cell_empty c) (side_cells s b)) = card {i. i < ?cap \<and> Q s i \<noteq> []}"
      unfolding length_filter_conv_card len using ce by (metis (no_types, lifting))
    then show ?thesis using I(3) check_cell_ok [OF rel inv] len by (simp add: check_side_def list_all_iff mbo_level_count_def count_ok_def Let_def)
  qed
  have "mb_best_bid b = touch Bid ?cap (Q Bid)" "mb_best_ask b = touch Ask ?cap (Q Ask)"
    using I(2) unfolding best_ok_def by (metis best_slot.simps)+
  moreover have "touch Bid ?cap (Q Bid) = find (\<lambda>i. \<not> cell_empty (mb_bids b ! i)) (rev [0..<?cap])"
    "touch Ask ?cap (Q Ask) = find (\<lambda>i. \<not> cell_empty (mb_asks b ! i)) [0..<?cap]"
    unfolding touch_def scan_order.simps using ce [of _ Bid] ce [of _ Ask] by (auto intro!: find_cong)
  moreover have "length bs = length (spec_side Bid bs) + length (spec_side Ask bs)"
  proof -
    have "filter (\<lambda>x. ro_side x = Ask) bs = filter (\<lambda>x. ro_side x \<noteq> Bid) bs"
    proof (rule filter_cong [OF refl])
      fix x :: resting_order
      show "(ro_side x = Ask) = (ro_side x \<noteq> Bid)" by (cases "ro_side x") simp_all
    qed
    then show ?thesis unfolding spec_side_def using sum_length_filter_compl [of "\<lambda>x. ro_side x = Bid" bs] by simp
  qed
  moreover have "length (filter (\<lambda>e. me_node e \<noteq> NIL) (mb_map b)) = mb_live b" using I(10) by (simp add: map_used_def)
  ultimately show ?thesis
    using side side_orders_sum [OF inv mt, of Bid] side_orders_sum [OF inv mt, of Ask] match_length [OF inv wf mt]
    by (simp add: mbo_check_invariants_def Let_def)
qed

end
