(* ===== verification/MboHistory.thy ===== *)
theory MboHistory
  imports MboViews
begin

text \<open>
  Histories of calls on any book that meets the contract, and the fast book as such a book. Inside the
  contract a whole history is compared with the specification run on the calls the book did not refuse.
  \<open>MboBook\<close> meets the contract on prices its tick arithmetic can represent, and the properties compare
  it with the reference book call by call.
\<close>

section \<open>Calls\<close>

fun ops_call :: "'b book_ops \<Rightarrow> book_call \<Rightarrow> 'b \<Rightarrow> 'b \<times> call_result" where
  "ops_call ops (CallAdd i s p q) b = (case ob_add ops b i s p q of (b', r) \<Rightarrow> (b', obind r (\<lambda>_. Ok None)))"
| "ops_call ops (CallDelete i) b = (case ob_delete ops b i of (b', r) \<Rightarrow> (b', obind r (\<lambda>x. Ok (Some x))))"
| "ops_call ops (CallReduce i q) b = (case ob_reduce ops b i q of (b', r) \<Rightarrow> (b', obind r (\<lambda>_. Ok None)))"
| "ops_call ops (CallReplace i p q) b = (case ob_replace ops b i p q of (b', r) \<Rightarrow> (b', obind r (\<lambda>_. Ok None)))"
| "ops_call ops CallClear b = (ob_clear ops b, Ok None)"

lemma ops_call_reference: "ops_call refbook_ops c b = rb_call c b"
  by (cases c) (simp_all add: refbook_ops_def)

text \<open>A call is within a book's range when the price and quantity it files are. A result is a refusal
  when it reports a lack of room.\<close>

fun call_within :: "(int \<Rightarrow> nat \<Rightarrow> bool) \<Rightarrow> book_call \<Rightarrow> bool" where
  "call_within ok (CallAdd i s p q) = ok p q"
| "call_within ok (CallReplace i p q) = ok p q"
| "call_within ok c = True"

definition refused :: "call_result \<Rightarrow> bool" where
  "refused r = (case r of Err e \<Rightarrow> capacity_error e | _ \<Rightarrow> False)"

definition honoured :: "book_call list \<Rightarrow> call_result list \<Rightarrow> (book_call \<times> call_result) list" where
  "honoured cs rs = filter (\<lambda>(c, r). \<not> refused r) (zip cs rs)"

text \<open>Two books agree on a call when they return the same result. A failed \<open>reduce\<close> fails in both, but
  which of several errors is reported is left open: the two implementations test in a different order.\<close>

fun agrees :: "book_call \<times> call_result \<Rightarrow> call_result \<Rightarrow> bool" where
  "agrees (CallReduce i q, Err e) (Err e') = True"
| "agrees (c, r) r' = (r = r')"

lemma agrees_refl [simp]: "agrees (c, r) r"
  by (cases c; cases r) auto

section \<open>Histories over the contract\<close>

context order_book
begin

lemma call_agrees:
  assumes rel: "rel b bs" and ok: "call_within within c" and run: "ops_call ops c b = (b', r)" and spec: "spec_call c bs = (cs, r')"
  shows "r \<noteq> Panic" "refused r \<Longrightarrow> rel b' bs" "\<not> refused r \<Longrightarrow> agrees (c, r) r' \<and> rel b' cs"
proof -
  have "r \<noteq> Panic \<and> (refused r \<longrightarrow> rel b' bs) \<and> (\<not> refused r \<longrightarrow> agrees (c, r) r' \<and> rel b' cs)"
  proof (cases c)
    case (CallAdd i s p q)
    obtain d where d: "ob_add ops b i s p q = (b', d)" "r = obind d (\<lambda>_. Ok None)" using run CallAdd by (auto split: prod.splits)
    show ?thesis using add_sim [OF rel _ d(1)] ok d(2) spec CallAdd by (auto simp: refused_def spec_add_def split: outcome.splits if_splits)
  next
    case (CallDelete i)
    obtain d where d: "ob_delete ops b i = (b', d)" "r = obind d (\<lambda>x. Ok (Some x))" using run CallDelete by (auto split: prod.splits)
    show ?thesis using delete_sim [OF rel d(1)] d(2) spec CallDelete
      by (auto simp: refused_def spec_delete_def capacity_error_def split: outcome.splits option.splits)
  next
    case (CallReduce i q)
    obtain d where d: "ob_reduce ops b i q = (b', d)" "r = obind d (\<lambda>_. Ok None)" using run CallReduce by (auto split: prod.splits)
    show ?thesis using reduce_sim [OF rel d(1)] d(2) spec CallReduce by (auto simp: refused_def split: outcome.splits)
  next
    case (CallReplace i p q)
    obtain d where d: "ob_replace ops b i p q = (b', d)" "r = obind d (\<lambda>_. Ok None)" using run CallReplace by (auto split: prod.splits)
    show ?thesis using replace_sim [OF rel _ d(1)] ok d(2) spec CallReplace by (auto simp: refused_def split: outcome.splits)
  next
    case CallClear
    then show ?thesis using run spec clear_sim [OF rel] by (auto simp: refused_def)
  qed
  then show "r \<noteq> Panic" "refused r \<Longrightarrow> rel b' bs" "\<not> refused r \<Longrightarrow> agrees (c, r) r' \<and> rel b' cs" by auto
qed

text \<open>A history on the book, and the specification run on the calls the book did not refuse.\<close>

lemma history_agrees:
  assumes "rel b bs" "list_all (call_within within) calls" "run_calls (ops_call ops) calls b = (b', rs)"
    "run_calls spec_call (map fst (honoured calls rs)) bs = (bs', ss)"
  shows "Panic \<notin> set rs \<and> list_all2 agrees (honoured calls rs) ss \<and> rel b' bs'"
  using assms
proof (induction calls arbitrary: b bs rs ss)
  case (Cons c calls)
  obtain b1 r rs' where run: "ops_call ops c b = (b1, r)" "run_calls (ops_call ops) calls b1 = (b', rs')" "rs = r # rs'"
    using Cons.prems(3) by (auto split: prod.splits)
  obtain cs r' where spec: "spec_call c bs = (cs, r')" by fastforce
  note step = call_agrees [OF Cons.prems(1) _ run(1) spec]
  show ?case
  proof (cases "refused r")
    case True
    then have "run_calls spec_call (map fst (honoured calls rs')) bs = (bs', ss)"
      using Cons.prems(4) run(3) by (simp add: honoured_def)
    with Cons.IH [OF step(2) _ run(2)] True step(1) Cons.prems(2) show ?thesis by (simp add: honoured_def run(3))
  next
    case False
    obtain ss' where ss: "run_calls spec_call (map fst (honoured calls rs')) cs = (bs', ss')" "ss = r' # ss'"
      using Cons.prems(4) run(3) spec False by (auto simp: honoured_def split: prod.splits)
    with Cons.IH [OF _ _ run(2) ss(1)] False step(1,3) Cons.prems(2) show ?thesis by (auto simp: honoured_def run(3))
  qed
qed (simp add: honoured_def)

end

definition mbo_within :: "int \<Rightarrow> nat \<Rightarrow> bool" where
  "mbo_within p q \<longleftrightarrow> price_ok p \<and> q \<le> u32_max"

lemma mbo_delete_sim:
  assumes rel: "mbo_rel b bs" and run: "mbo_delete b i = (b', d)"
  shows "case d of Ok x \<Rightarrow> \<exists>cs. spec_delete i bs = Ok (x, cs) \<and> mbo_rel b' cs
     | Err e \<Rightarrow> mbo_rel b' bs \<and> spec_delete i bs = Err e | Panic \<Rightarrow> False"
proof (cases "spec_get i bs")
  case None
  obtain Q F where inv: "mbo_inv b Q F" and wf: "spec_wf bs" and mt: "orders_match (mb_index b) (mb_nodes b) Q bs"
    using rel by (auto simp: mbo_rel_def)
  note get = match_get [OF inv wf mt, of i]
  show ?thesis
  proof (cases rule: find_ok [OF inv, of i])
    case (1 b1)
    then show ?thesis using run None rel same_book_rel [OF 1(2)] by (auto simp: mbo_delete_def sbind_def spec_delete_def sfail_def)
  next
    case (2 b1 m n p)
    then show ?thesis using get None by auto
  qed
next
  case (Some x)
  from mbo_delete_ok [OF rel this] run show ?thesis by (auto simp: spec_delete_def Some)
qed

interpretation fast: order_book mbo_ops mbo_rel True mbo_within
proof unfold_locales
  fix b bs i s p q b' r
  assume rel: "mbo_rel b bs"
  then show "spec_wf bs" by (simp add: mbo_rel_def)
  show "ob_get mbo_ops b i = spec_get i bs" "ob_for_each_order mbo_ops b s = spec_queue s bs"
    using mbo_get_ok [OF rel] mbo_for_each_order_ok [OF rel] by (simp_all add: mbo_ops_def returned_def)
  show "ob_len mbo_ops b = length bs"
    using rel match_length by (auto simp: mbo_rel_def mbo_ops_def)
  show "mbo_rel (ob_clear mbo_ops b) []" using mbo_clear_rel [OF rel] by (simp add: mbo_ops_def)
  show "case r of Ok _ \<Rightarrow> \<exists>cs. spec_reduce i q bs = Ok cs \<and> mbo_rel b' cs
        | Err e \<Rightarrow> mbo_rel b' bs \<and> (\<exists>e'. spec_reduce i q bs = Err e') | Panic \<Rightarrow> False" if "ob_reduce mbo_ops b i q = (b', r)"
    using mbo_reduce_ok [OF rel] that by (simp add: mbo_ops_def)
  assume within: "mbo_within p q"
  show "case r of Ok _ \<Rightarrow> \<exists>cs. spec_add i s p q bs = Ok cs \<and> mbo_rel b' cs
        | Err e \<Rightarrow> mbo_rel b' bs \<and> (spec_add i s p q bs = Err e \<or> True \<and> capacity_error e) | Panic \<Rightarrow> False"
    if "ob_add mbo_ops b i s p q = (b', r)"
    using mbo_add_ok [OF rel, of p q i s b' r] add_refusal_capacity [of b bs i p] that within
    by (auto simp: mbo_ops_def mbo_within_def split: outcome.splits)
  show "case r of Ok _ \<Rightarrow> \<exists>cs. spec_replace i p q bs = Ok cs \<and> mbo_rel b' cs
        | Err e \<Rightarrow> mbo_rel b' bs \<and> (spec_replace i p q bs = Err e \<or> True \<and> capacity_error e) | Panic \<Rightarrow> False"
    if "ob_replace mbo_ops b i p q = (b', r)"
    using mbo_replace_ok [OF rel, of p q i b' r] that within by (auto simp: mbo_ops_def mbo_within_def split: outcome.splits)
qed (simp_all add: mbo_ops_def mbo_delete_sim)

section \<open>Properties\<close>

text \<open>C5: the fast book is the reference book. For any configuration in range and any sequence of add,
  delete, reduce, replace and clear calls whose prices and quantities are in range, no call panics;
  the calls the fast book does not refuse for lack of room return what the reference book returns on
  those same calls (a failed reduce may name a different error); and afterwards every view is the same:
  lookups, the number of orders, the queue order and the front of each side, the aggregated levels at
  any depth and their count. The fast book's own \<open>check_invariants\<close> accepts the state.\<close>

theorem fast_book_matches_reference:
  assumes "capacity_ok cap" "list_all (call_within mbo_within) calls"
  shows "case run_calls (ops_call mbo_ops) calls (mbo_new cap) of (m, rs) \<Rightarrow>
     case run_calls rb_call (map fst (honoured calls rs)) refbook_new of (b, ss) \<Rightarrow>
       Panic \<notin> set rs \<and> list_all2 agrees (honoured calls rs) ss \<and> mbo_check_invariants m \<and> mb_live m = rb_len b \<and>
       (\<forall>i. mbo_get m i = Ok (rb_get b i)) \<and>
       (\<forall>s. mbo_for_each_order m s = Ok (rb_orders_in_queue_order b s) \<and> mbo_front m s = Ok (rb_front b s) \<and>
            (\<forall>depth. mbo_for_each_level m s depth = rb_for_each_level b s depth \<and>
               mbo_level_count m s depth = rb_level_count b s depth))"
proof -
  obtain m rs where run: "run_calls (ops_call mbo_ops) calls (mbo_new cap) = (m, rs)" by fastforce
  let ?hs = "map fst (honoured calls rs)"
  obtain b ss bs ts where runs: "run_calls rb_call ?hs refbook_new = (b, ss)" "run_calls spec_call ?hs [] = (bs, ts)" by fastforce
  have ref: "ss = ts" "refbook_rel b bs" using run_calls_rel [OF rel_new, of ?hs] runs by auto
  have hist: "Panic \<notin> set rs \<and> list_all2 agrees (honoured calls rs) ss \<and> mbo_rel m bs"
    using fast.history_agrees [OF mbo_new_rel [OF assms(1)] assms(2) run runs(2)] ref(1) by simp
  then have rel: "mbo_rel m bs" by simp
  have len: "mb_live m = rb_len b" using fast.len_sim [OF rel] rb_len_rel [OF ref(2)] by (simp add: mbo_ops_def)
  show ?thesis
    by (simp add: run runs hist len mbo_check_ok [OF rel] mbo_get_ok [OF rel] mbo_for_each_order_ok [OF rel] mbo_front_ok [OF rel]
        mbo_levels_ok [OF rel] rb_get_def rel_parts(4) [OF ref(2)] rb_queue_rel [OF ref(2)] rb_front_rel [OF ref(2)]
        rb_for_each_level_rel [OF ref(2)] rb_level_count_rel [OF ref(2)])
qed

definition sample_capacity :: mbo_capacity where
  "sample_capacity = \<lparr>mc_levels = 8, mc_orders = 4, mc_reference_price = 1000, mc_tick = 5\<rparr>"

definition sample_history :: "book_call list" where
  "sample_history = [CallAdd 11 Bid 995 3, CallAdd 12 Bid 995 4, CallAdd 13 Ask 1003 2, CallReplace 11 1000 6, CallReduce 12 1, CallDelete 12]"

theorem fast_book_matches_reference_witness:
  "case run_calls (ops_call mbo_ops) sample_history (mbo_new sample_capacity) of (m, rs) \<Rightarrow>
     case run_calls rb_call (map fst (honoured sample_history rs)) refbook_new of (b, ss) \<Rightarrow>
       Panic \<notin> set rs \<and> mbo_get m 11 = Ok (rb_get b 11) \<and> mbo_front m Bid = Ok (rb_front b Bid)"
proof -
  have "capacity_ok sample_capacity" by (simp add: capacity_ok_def sample_capacity_def price_ok_def)
  moreover have "list_all (call_within mbo_within) sample_history" by (simp add: sample_history_def mbo_within_def price_ok_def)
  ultimately show ?thesis using fast_book_matches_reference [of sample_capacity sample_history] by (auto split: prod.splits)
qed

text \<open>C9: when the fast book refuses an order, and that a refusal changes nothing. On a fast book holding
  the orders \<open>bs\<close>, \<open>add\<close> succeeds exactly when the quantity is positive, the id is new, the price is on
  the tick grid, every resting order is less than a window away and a node is free; otherwise it reports
  the first of these that fails, and every view of the book stays as it was.\<close>

theorem fast_book_add_refusals:
  assumes "mbo_rel b bs" "mbo_within p q" "mbo_add b i s p q = (b', r)"
  shows "r = (if q = 0 then Err (ZeroQuantity i) else if spec_get i bs \<noteq> None then Err (DuplicateOrderId i)
       else case add_refusal b bs i p of Some e \<Rightarrow> Err e | None \<Rightarrow> Ok ()) \<and>
     (r \<noteq> Ok () \<longrightarrow> mb_live b' = mb_live b \<and> (\<forall>j. mbo_get b' j = mbo_get b j) \<and>
       (\<forall>t. mbo_for_each_order b' t = mbo_for_each_order b t \<and> mbo_front b' t = mbo_front b t \<and>
          mbo_for_each_level b' t = mbo_for_each_level b t))"
proof -
  note add = mbo_add_ok [OF assms(1) _ _ assms(3)]
  have r: "r = (if q = 0 then Err (ZeroQuantity i) else if spec_get i bs \<noteq> None then Err (DuplicateOrderId i)
       else case add_refusal b bs i p of Some e \<Rightarrow> Err e | None \<Rightarrow> Ok ())"
    using add assms(2) by (auto simp: mbo_within_def spec_add_def split: outcome.splits option.splits if_splits)
  have same: "mbo_rel b' bs" if "r \<noteq> Ok ()" using add assms(2) that by (auto simp: mbo_within_def split: outcome.splits)
  have len: "mb_live c = length bs" if "mbo_rel c bs" for c using fast.len_sim [OF that] by (simp add: mbo_ops_def)
  have "mbo_for_each_level b' t = mbo_for_each_level b t" if "mbo_rel b' bs" for t
    by (rule ext) (simp add: mbo_levels_ok(1) [OF that] mbo_levels_ok(1) [OF assms(1)])
  then show ?thesis using r same len assms(1) by (simp add: mbo_get_ok mbo_for_each_order_ok mbo_front_ok)
qed

theorem fast_book_add_refusals_witness:
  "snd (mbo_add (mbo_new sample_capacity) 7 Bid 1003 5) = Err (PriceOffGrid 7 1003) \<and>
   snd (mbo_add (mbo_new sample_capacity) 7 Bid 1000000 5) = Ok ()"
proof -
  have rel: "mbo_rel (mbo_new sample_capacity) []"
    by (rule mbo_new_rel) (simp add: capacity_ok_def sample_capacity_def price_ok_def)
  have ti: "mb_index (mbo_new sample_capacity) = \<lparr>ti_anchor = 980, ti_tick = 5, ti_capacity = 8\<rparr>"
    by (simp add: mbo_new_def sample_capacity_def Let_def) code_simp
  have slab: "length (mb_nodes (mbo_new sample_capacity)) = 4" by (simp add: mbo_new_def sample_capacity_def Let_def fresh_nodes_def)
  have "add_refusal (mbo_new sample_capacity) [] 7 1003 = Some (PriceOffGrid 7 1003)"
    "add_refusal (mbo_new sample_capacity) [] 7 1000000 = None"
    by (simp_all add: add_refusal_def ti slab)
  moreover have "mbo_within 1003 5" "mbo_within 1000000 5" by (simp_all add: mbo_within_def price_ok_def)
  ultimately show ?thesis
    using fast_book_add_refusals [OF rel, of 1003 5 7 Bid] fast_book_add_refusals [OF rel, of 1000000 5 7 Bid]
    by (simp add: prod_eq_iff spec_get_def)
qed

end
