(* ===== verification/FastBooks.thy ===== *)
theory FastBooks
  imports BookDigest MboHistory
begin

text \<open>
  Every symbol's fast book, \<open>crates/book/src/fast.rs\<close>: a vector of books kept sorted by symbol id and
  searched by bisection. On a sorted vector each operation is the one of the ordered map that the
  message application and the digest are written over, so the fast set follows the feed like the
  reference set does.
\<close>

section \<open>Bisection\<close>

text \<open>\<open>slice::binary_search_by_key\<close>: the loop keeps the candidate at \<open>base\<close> and halves \<open>len\<close>.\<close>

function search_base :: "nat list \<Rightarrow> nat \<Rightarrow> nat \<Rightarrow> nat \<Rightarrow> nat" where
  "search_base ks k base len =
     (if len \<le> 1 then base
      else let half = len div 2; mid = base + half
           in search_base ks k (if ks ! mid > k then base else mid) (len - half))"
  by auto
termination by (relation "measure (\<lambda>(ks, k, base, len). len)") auto

declare search_base.simps [simp del]

definition binary_search :: "nat list \<Rightarrow> nat \<Rightarrow> (nat, nat) outcome" where
  "binary_search ks k =
     (if ks = [] then Err 0
      else let base = search_base ks k 0 (length ks)
           in if ks ! base = k then Ok base else Err (base + (if ks ! base < k then 1 else 0)))"

section \<open>The set of fast books\<close>

record fast_books =
  fb_books :: "(nat \<times> mbo) list"
  fb_fallback :: mbo_capacity

definition fb_new :: "mbo_capacity \<Rightarrow> fast_books" where
  "fb_new fallback = \<lparr>fb_books = [], fb_fallback = fallback\<rparr>"

definition insert_at :: "nat \<Rightarrow> 'a \<Rightarrow> 'a list \<Rightarrow> 'a list" where
  "insert_at i x xs = take i xs @ x # drop i xs"

definition fb_search :: "fast_books \<Rightarrow> nat \<Rightarrow> (nat, nat) outcome" where
  "fb_search fb symbol_id = binary_search (map fst (fb_books fb)) symbol_id"

definition with_symbol :: "nat \<times> mbo_capacity \<Rightarrow> fast_books \<Rightarrow> fast_books" where
  "with_symbol e fb =
     (case fb_search fb (fst e) of
        Err i \<Rightarrow> fb\<lparr>fb_books := insert_at i (fst e, mbo_new (snd e)) (fb_books fb)\<rparr>
      | _ \<Rightarrow> fb)"

definition with_symbols :: "(nat \<times> mbo_capacity) list \<Rightarrow> mbo_capacity \<Rightarrow> fast_books" where
  "with_symbols symbols fallback = fold with_symbol symbols (fb_new fallback)"

definition fb_get_or_create :: "nat \<Rightarrow> fast_books \<Rightarrow> mbo \<times> fast_books" where
  "fb_get_or_create symbol_id fb =
     (case fb_search fb symbol_id of
        Ok i \<Rightarrow> (snd (fb_books fb ! i), fb)
      | Err i \<Rightarrow> let fb' = fb\<lparr>fb_books := insert_at i (symbol_id, mbo_new (fb_fallback fb)) (fb_books fb)\<rparr>
          in (snd (fb_books fb' ! i), fb')
      | Panic \<Rightarrow> (mbo_new (fb_fallback fb), fb))"

text \<open>The book behind the reference \<open>get_or_create\<close> returned, written back.\<close>

definition fb_put :: "nat \<Rightarrow> mbo \<Rightarrow> fast_books \<Rightarrow> fast_books" where
  "fb_put symbol_id book fb =
     (case fb_search fb symbol_id of Ok i \<Rightarrow> fb\<lparr>fb_books := (fb_books fb)[i := (symbol_id, book)]\<rparr> | _ \<Rightarrow> fb)"

definition uniform :: "nat list \<Rightarrow> mbo_capacity \<Rightarrow> fast_books" where
  "uniform symbols capacity = fold (\<lambda>symbol fb. snd (fb_get_or_create symbol fb)) symbols (fb_new capacity)"

definition fb_symbols :: "fast_books \<Rightarrow> nat" where
  "fb_symbols fb = length (fb_books fb)"

definition add_stats :: "nat \<times> mbo \<Rightarrow> mbo_stats \<Rightarrow> mbo_stats" where
  "add_stats e out = (let s = mb_stats (snd e) in
     \<lparr>ms_rebases = wrap_add_u64 (ms_rebases out) (ms_rebases s),
      ms_extra_probes = wrap_add_u64 (ms_extra_probes out) (ms_extra_probes s),
      ms_lookups = wrap_add_u64 (ms_lookups out) (ms_lookups s),
      ms_peak_orders = max (ms_peak_orders out) (ms_peak_orders s)\<rparr>)"

definition fb_stats :: "fast_books \<Rightarrow> mbo_stats" where
  "fb_stats fb = fold add_stats (fb_books fb) \<lparr>ms_rebases = 0, ms_extra_probes = 0, ms_lookups = 0, ms_peak_orders = 0\<rparr>"

definition fb_get :: "nat \<Rightarrow> fast_books \<Rightarrow> mbo option" where
  "fb_get symbol_id fb = (case fb_search fb symbol_id of Ok i \<Rightarrow> Some (snd (fb_books fb ! i)) | _ \<Rightarrow> None)"

definition fb_clear_all :: "fast_books \<Rightarrow> fast_books" where
  "fb_clear_all fb = fb\<lparr>fb_books := map (\<lambda>(y, b). (y, mbo_clear b)) (fb_books fb)\<rparr>"

definition fb_clear_symbol :: "nat \<Rightarrow> fast_books \<Rightarrow> fast_books" where
  "fb_clear_symbol symbol_id fb =
     (case fb_search fb symbol_id of
        Ok i \<Rightarrow> fb\<lparr>fb_books := (fb_books fb)[i := (fst (fb_books fb ! i), mbo_clear (snd (fb_books fb ! i)))]\<rparr>
      | _ \<Rightarrow> fb)"

definition fb_total_orders :: "fast_books \<Rightarrow> nat" where
  "fb_total_orders fb = sum_list (map (\<lambda>(y, b). mb_live b) (fb_books fb))"

definition fb_check_invariants :: "fast_books \<Rightarrow> bool" where
  "fb_check_invariants fb = list_all (\<lambda>(y, b). mbo_check_invariants b) (fb_books fb)"

definition default_capacity :: mbo_capacity where
  "default_capacity = mbo_capacity_new 1000000 100"

section \<open>Bisection finds the key or its place\<close>

lemma search_base_ok:
  assumes "sorted_wrt (<) ks" "base + len \<le> length ks" "0 < len"
    "base = 0 \<or> ks ! base \<le> k" "base + len = length ks \<or> k < ks ! (base + len)"
  shows "search_base ks k base len < length ks \<and> (search_base ks k base len = 0 \<or> ks ! search_base ks k base len \<le> k) \<and>
     (search_base ks k base len + 1 = length ks \<or> k < ks ! (search_base ks k base len + 1))"
  using assms
proof (induction ks k base len rule: search_base.induct)
  case (1 ks k base len)
  show ?case
  proof (cases "len \<le> 1")
    case True
    then have "len = 1" using 1(4) by simp
    moreover have "search_base ks k base len = base" using True by (simp add: search_base.simps [of ks k base len])
    ultimately show ?thesis using 1(2-6) by auto
  next
    case False
    define half mid where d: "half = len div 2" "mid = base + half"
    define b where b: "b = (if k < ks ! mid then base else mid)"
    have h: "0 < half" "half < len" "half \<le> len - half" using False by (auto simp: d)
    have run: "search_base ks k base len = search_base ks k b (len - half)"
      using False by (subst search_base.simps) (simp add: d b Let_def)
    have mid: "mid < length ks" using h 1(3) by (simp add: d)
    have top: "b + (len - half) = length ks \<or> k < ks ! (b + (len - half))"
    proof (cases "k < ks ! mid")
      case True
      have "mid \<le> base + (len - half)" using h by (simp add: d)
      then have "ks ! mid \<le> ks ! (base + (len - half))" if "base + (len - half) < length ks"
        using sorted_wrt_nth_less [OF 1(2)] that mid by (metis le_less order.strict_implies_order)
      then show ?thesis using True 1(3) h by (fastforce simp: b)
    next
      case False
      then show ?thesis using 1(6) h by (simp add: b d)
    qed
    have "b + (len - half) \<le> length ks" using 1(3) h by (auto simp: b d)
    moreover have "b = 0 \<or> ks ! b \<le> k" using 1(5) by (auto simp: b not_less)
    ultimately show ?thesis unfolding run
      using 1(1) [OF False d(1,2)] 1(2) h top by (simp add: b)
  qed
qed

lemma binary_search_ok:
  assumes inv: "om_invar m"
  shows "case binary_search (map fst m) k of
      Ok i \<Rightarrow> i < length m \<and> fst (m ! i) = k
    | Err i \<Rightarrow> i \<le> length m \<and> (\<forall>j < i. fst (m ! j) < k) \<and> (\<forall>j. i \<le> j \<longrightarrow> j < length m \<longrightarrow> k < fst (m ! j))
    | Panic \<Rightarrow> False"
proof (cases "m = []")
  case False
  let ?ks = "map fst m" and ?b = "search_base (map fst m) k 0 (length m)"
  have s: "sorted_wrt (<) ?ks" using inv by (simp add: om_invar_def)
  have lt: "fst (m ! i) < fst (m ! j)" if "i < j" "j < length m" for i j
    using sorted_wrt_nth_less [OF s that(1)] that by simp
  have base: "?b < length m" "?b = 0 \<or> ?ks ! ?b \<le> k" "?b + 1 = length m \<or> k < ?ks ! (?b + 1)"
    using search_base_ok [OF s, of 0 "length m" k] False by (simp_all del: nth_map)
  then have b: "?b < length m" "?b = 0 \<or> fst (m ! ?b) \<le> k" by auto
  have b3: "?b + 1 = length m \<or> k < fst (m ! (?b + 1))"
    using base nth_map [of "?b + 1" m fst] by (cases "?b + 1 = length m") (auto simp: Suc_le_eq le_less)
  consider "fst (m ! ?b) = k" | "fst (m ! ?b) < k" | "k < fst (m ! ?b)" "?b = 0" using b(2) by fastforce
  then show ?thesis
  proof cases
    case 2
    have "fst (m ! j) < k" if "j < ?b + 1" for j using lt [of j ?b] b(1) 2 that by (cases "j = ?b") auto
    moreover have "k < fst (m ! j)" if "?b + 1 \<le> j" "j < length m" for j
      using lt [of "?b + 1" j] b3 that by (cases "j = ?b + 1") auto
    ultimately show ?thesis using 2 b(1) False by (simp add: binary_search_def Let_def)
  next
    case 3
    have "k < fst (m ! j)" if "j < length m" for j using lt [of 0 j] that 3 by (cases "j = 0") auto
    then show ?thesis using 3 b(1) False by (auto simp: binary_search_def Let_def Suc_le_eq)
  qed (use b(1) False in \<open>simp add: binary_search_def Let_def\<close>)
qed (simp add: binary_search_def)

section \<open>The set is an ordered map\<close>

lemma om_get_nth: "om_invar m \<Longrightarrow> i < length m \<Longrightarrow> om_get (fst (m ! i)) m = Some (snd (m ! i))"
  by (metis om.entries_get nth_mem prod.collapse)

lemma om_insert_before:
  "\<forall>j < i. fst (m ! j) < k \<Longrightarrow> \<forall>j. i \<le> j \<longrightarrow> j < length m \<longrightarrow> k < fst (m ! j) \<Longrightarrow> i \<le> length m \<Longrightarrow>
     om_insert k v m = insert_at i (k, v) m"
proof (induction m arbitrary: i)
  case (Cons e m)
  show ?case
  proof (cases i)
    case 0
    then show ?thesis using Cons.prems(2) [rule_format, of 0] by (cases e) (simp add: insert_at_def)
  next
    case (Suc i')
    have "fst e < k" using Cons.prems(1) Suc by (auto dest: spec [of _ 0])
    then have "\<not> k < fst e" "k \<noteq> fst e" by auto
    moreover have "om_insert k v m = insert_at i' (k, v) m"
      by (rule Cons.IH) (use Cons.prems Suc in \<open>fastforce+\<close>)
    ultimately show ?thesis using Suc by (cases e) (simp add: insert_at_def)
  qed
qed (simp add: insert_at_def)

lemma om_insert_at:
  assumes inv: "om_invar m" and i: "i < length m"
  shows "om_insert (fst (m ! i)) v m = m[i := (fst (m ! i), v)]"
proof (rule om_ext)
  have keys: "map fst (m[i := (fst (m ! i), v)]) = map fst m"
    by (rule nth_equalityI) (use i in \<open>auto simp: nth_list_update\<close>)
  show inv': "om_invar (m[i := (fst (m ! i), v)])" using inv keys by (simp add: om_invar_def)
  show "om_invar (om_insert (fst (m ! i)) v m)" using inv by (rule om_invar_insert)
  have inj: "fst (m ! j) = fst (m ! i) \<longleftrightarrow> j = i" if "j < length m" for j
    using inv that i by (auto simp: om_invar_def strict_sorted_iff distinct_conv_nth)
  show "om_get k (om_insert (fst (m ! i)) v m) = om_get k (m[i := (fst (m ! i), v)])" for k
  proof (cases "k \<in> fst ` set m")
    case True
    then obtain j where j: "j < length m" "k = fst (m ! j)" by (auto simp: in_set_conv_nth)
    have "om_get k (m[i := (fst (m ! i), v)]) = Some (snd (m[i := (fst (m ! i), v)] ! j))"
      using om_get_nth [OF inv', of j] j inj by (cases "j = i") auto
    then show ?thesis using j inj om_get_nth [OF inv j(1)] by (auto simp: om_get_insert nth_list_update)
  next
    case False
    then have "k \<noteq> fst (m ! i)" using i by auto
    moreover have "om_get k m = None" "om_get k (m[i := (fst (m ! i), v)]) = None"
      using False keys by (auto simp: om_get_map_of map_of_eq_None_iff simp flip: set_map)
    ultimately show ?thesis by (simp add: om_get_insert)
  qed
qed

lemma fb_search_cases:
  assumes "om_invar (fb_books fb)"
  obtains (found) i where "fb_search fb y = Ok i" "i < length (fb_books fb)" "fst (fb_books fb ! i) = y" "om_get y (fb_books fb) = Some (snd (fb_books fb ! i))"
    | (absent) i where "fb_search fb y = Err i" "i \<le> length (fb_books fb)" "om_get y (fb_books fb) = None"
        "\<And>v. om_insert y v (fb_books fb) = insert_at i (y, v) (fb_books fb)"
proof (cases "fb_search fb y")
  case (Ok i)
  then show ?thesis using found binary_search_ok [OF assms, of y] om_get_nth [OF assms, of i] by (auto simp: fb_search_def)
next
  case (Err i)
  then have i: "i \<le> length (fb_books fb)" "\<forall>j < i. fst (fb_books fb ! j) < y" "\<forall>j. i \<le> j \<longrightarrow> j < length (fb_books fb) \<longrightarrow> y < fst (fb_books fb ! j)"
    using binary_search_ok [OF assms, of y] by (auto simp: fb_search_def)
  have "y \<notin> fst ` set (fb_books fb)"
  proof
    assume "y \<in> fst ` set (fb_books fb)"
    then obtain j where "j < length (fb_books fb)" "fst (fb_books fb ! j) = y" by (auto simp: in_set_conv_nth)
    then show False using i(2) [rule_format, of j] i(3) [rule_format, of j] by (cases "j < i") auto
  qed
  then show ?thesis using absent Err i om_insert_before [OF i(2,3,1)] by (simp add: om_get_map_of map_of_eq_None_iff)
qed (use binary_search_ok [OF assms, of y] in \<open>simp add: fb_search_def\<close>)

lemma insert_at_nth: "i \<le> length xs \<Longrightarrow> insert_at i x xs ! i = x"
  by (simp add: insert_at_def nth_append)

text \<open>Each operation of the sorted vector is the ordered map's.\<close>

lemma fb_get_or_create_om:
  assumes "om_invar (fb_books fb)"
  shows "map_prod id fb_books (fb_get_or_create y fb) = get_or_create (mbo_new (fb_fallback fb)) y (fb_books fb)"
    and "fb_fallback (snd (fb_get_or_create y fb)) = fb_fallback fb"
  by (cases rule: fb_search_cases [OF assms, of y]; simp add: fb_get_or_create_def get_or_create_def Let_def insert_at_nth)+

lemma fb_get_om: "om_invar (fb_books fb) \<Longrightarrow> fb_get y fb = om_get y (fb_books fb)"
  by (cases rule: fb_search_cases [of fb y]) (simp_all add: fb_get_def)

lemma fb_put_om: "om_invar (fb_books fb) \<Longrightarrow> om_get y (fb_books fb) \<noteq> None \<Longrightarrow> fb_books (fb_put y b fb) = om_insert y b (fb_books fb)"
  by (cases rule: fb_search_cases [of fb y]) (auto simp: fb_put_def om_insert_at [symmetric])

lemma fb_clear_symbol_om:
  "om_invar (fb_books fb) \<Longrightarrow> fb_books (fb_clear_symbol y fb) = books_clear_symbol mbo_ops y (fb_books fb)"
  by (cases rule: fb_search_cases [of fb y]) (auto simp: fb_clear_symbol_def books_clear_symbol_def mbo_ops_def om_insert_at [symmetric])

lemma fb_clear_all_om: "fb_books (fb_clear_all fb) = books_clear_all mbo_ops (fb_books fb)"
  by (simp add: fb_clear_all_def books_clear_all_def mbo_ops_def)

lemma fb_total_orders_om: "fb_total_orders fb = books_total_orders mbo_ops (fb_books fb)"
  by (simp add: fb_total_orders_def books_total_orders_def mbo_ops_def)

section \<open>Following the feed\<close>

text \<open>A sequence of messages over the contract: the books are those of the specification after the
  messages applied, and the application stops at the first one refused.\<close>

context book_set
begin

lemma apply_all_sim:
  assumes "books_rel rel bks sp" "map view_event ms = map Ok evs" "list_all (event_within within) evs"
    "apply_all ops new bks ms = (bks', r)"
  shows "\<exists>k sp'. k \<le> length evs \<and> ofold spec_apply (take k evs) sp = Ok sp' \<and> books_rel rel bks' sp' \<and>
     (case r of Ok _ \<Rightarrow> k = length evs | Err e \<Rightarrow> k < length evs \<and> ((\<exists>e'. spec_apply (evs ! k) sp' = Err e') \<or> capped \<and> book_refusal e) | Panic \<Rightarrow> False)"
  using assms
proof (induction evs arbitrary: bks sp ms)
  case (Cons ev evs)
  obtain m ms' where m: "ms = m # ms'" "view_event m = Ok ev" "map view_event ms' = map Ok evs"
    using Cons.prems(2) by (cases ms) auto
  obtain bks1 r1 where app: "apply_message ops new bks m = (bks1, r1)" by fastforce
  note sim = apply_message_sim [OF Cons.prems(1) m(2) _ app]
  show ?case
  proof (cases r1)
    case (Ok u)
    then obtain sp1 where sp1: "spec_apply ev sp = Ok sp1" "books_rel rel bks1 sp1" using sim Cons.prems(3) by auto
    have "apply_all ops new bks1 ms' = (bks', r)" using Cons.prems(4) m(1) app Ok by simp
    from Cons.IH [OF sp1(2) m(3) _ this] Cons.prems(3) obtain k sp' where
      "k \<le> length evs" "ofold spec_apply (take k evs) sp1 = Ok sp'" "books_rel rel bks' sp'"
      "case r of Ok _ \<Rightarrow> k = length evs | Err e \<Rightarrow> k < length evs \<and> ((\<exists>e'. spec_apply (evs ! k) sp' = Err e') \<or> capped \<and> book_refusal e) | Panic \<Rightarrow> False"
      by auto
    then show ?thesis using sp1(1) by (intro exI [of _ "Suc k"] exI [of _ sp']) (auto simp: outcome_simps split: outcome.splits)
  next
    case (Err e)
    then show ?thesis using sim Cons.prems(3,4) m(1) app by (intro exI [of _ 0] exI [of _ sp]) auto
  next
    case Panic
    then show ?thesis using sim Cons.prems(3) by auto
  qed
qed auto

end

section \<open>The contract\<close>

definition capacity_or_default :: "mbo_capacity \<Rightarrow> mbo_capacity" where
  "capacity_or_default cap = (if capacity_ok cap then cap else default_capacity)"

lemma default_capacity_ok: "capacity_ok default_capacity"
  by (simp add: capacity_ok_def default_capacity_def mbo_capacity_new_def price_ok_def)

interpretation fastset: leveled_book_set mbo_ops mbo_rel True mbo_within "mbo_new (capacity_or_default cap)" for cap
proof unfold_locales
  show "mbo_rel (mbo_new (capacity_or_default cap)) []"
    using mbo_new_rel [of "capacity_or_default cap"] default_capacity_ok by (simp add: capacity_or_default_def)
  fix b bs s depth
  assume rel: "mbo_rel b bs"
  show "ob_for_each_level mbo_ops b s depth = spec_levels_to depth s bs"
    "ob_level_count mbo_ops b s depth = length (spec_levels_to depth s bs)"
    using mbo_levels_ok [OF rel] by (simp_all add: mbo_ops_def spec_levels_to_def)
qed

definition fast_rel :: "fast_books \<Rightarrow> spec_books \<Rightarrow> bool" where
  "fast_rel fb sp \<longleftrightarrow> capacity_ok (fb_fallback fb) \<and> books_rel mbo_rel (fb_books fb) sp"

lemma with_symbol_rel:
  assumes "fast_rel fb (\<lambda>_. [])" "capacity_ok (snd e)"
  shows "fast_rel (with_symbol e fb) (\<lambda>_. [])"
proof -
  have inv: "om_invar (fb_books fb)" using assms(1) by (simp add: fast_rel_def books_rel_def)
  have "books_rel mbo_rel (om_insert (fst e) (mbo_new (snd e)) (fb_books fb)) ((\<lambda>_. [])(fst e := []))"
    using assms mbo_new_rel by (intro books_rel_insert) (simp_all add: fast_rel_def)
  then show ?thesis using assms(1)
    by (cases rule: fb_search_cases [OF inv, of "fst e"]) (simp_all add: with_symbol_def fast_rel_def fun_upd_idem)
qed

lemma with_symbols_rel:
  assumes "capacity_ok fallback" "list_all (\<lambda>e. capacity_ok (snd e)) symbols"
  shows "fast_rel (with_symbols symbols fallback) (\<lambda>_. [])"
proof -
  have "fast_rel (fold with_symbol es fb) (\<lambda>_. [])" if "fast_rel fb (\<lambda>_. [])" "list_all (\<lambda>e. capacity_ok (snd e)) es" for es fb
    using that by (induction es arbitrary: fb) (auto intro: with_symbol_rel)
  moreover have "fast_rel (fb_new fallback) (\<lambda>_. [])" using assms(1) by (simp add: fast_rel_def fb_new_def books_rel_empty)
  ultimately show ?thesis using assms(2) by (simp add: with_symbols_def)
qed

lemma fast_rel_check:
  assumes "fast_rel fb sp"
  shows "fb_check_invariants fb"
  unfolding fb_check_invariants_def list_all_iff
proof
  fix e
  assume "e \<in> set (fb_books fb)"
  then have "mbo_rel (snd e) (sp (fst e))" using fastset.occupied_symbols(2) assms unfolding fast_rel_def by blast
  then show "case e of (y, b) \<Rightarrow> mbo_check_invariants b" using mbo_check_ok by (simp add: case_prod_beta)
qed

section \<open>Properties\<close>

text \<open>C6: the fast set and the reference set are interchangeable. Start a fast set with any sized symbols and an
  empty reference set, and apply the same decoded messages to both, with prices and quantities in range. The fast set
  never panics and its own invariant check accepts the result. If it takes every message, so does the reference set, and
  the two digests are equal, top, full and order count. If it stops at message \<open>k\<close>, the reference set took the
  first \<open>k\<close> messages, the fast set still has the digest of that state, and the reason is a lack of room or a
  message that the reference set refuses as well.\<close>

theorem fast_set_digest_matches_reference:
  assumes "capacity_ok fallback" "list_all (\<lambda>e. capacity_ok (snd e)) symbols"
    and "map view_event ms = map Ok evs" "list_all (event_within mbo_within) evs"
  defines "fb \<equiv> with_symbols symbols fallback"
  shows "case apply_all mbo_ops (mbo_new fallback) (fb_books fb) ms of (fbs, r) \<Rightarrow>
     fb_check_invariants (fb\<lparr>fb_books := fbs\<rparr>) \<and>
     (\<exists>k bks. apply_all refbook_ops refbook_new [] (take k ms) = (bks, Ok ()) \<and> BookDigest_of mbo_ops fbs = BookDigest_of refbook_ops bks \<and>
        (case r of Ok _ \<Rightarrow> k = length ms
         | Err e \<Rightarrow> k < length ms \<and> (book_refusal e \<or> (\<exists>bks' e'. apply_message refbook_ops refbook_new bks (ms ! k) = (bks', Err e')))
         | Panic \<Rightarrow> False))"
proof -
  have fb: "fast_rel fb (\<lambda>_. [])" unfolding fb_def by (rule with_symbols_rel [OF assms(1,2)])
  then have rel: "books_rel mbo_rel (fb_books fb) (\<lambda>_. [])" by (simp add: fast_rel_def)
  have cap: "capacity_or_default fallback = fallback" using assms(1) by (simp add: capacity_or_default_def)
  obtain fbs r where run: "apply_all mbo_ops (mbo_new fallback) (fb_books fb) ms = (fbs, r)" by fastforce
  from fastset.apply_all_sim [OF rel assms(3,4), of fallback, unfolded cap, OF run] obtain k sp where
    k: "k \<le> length evs" "ofold spec_apply (take k evs) (\<lambda>_. []) = Ok sp" "books_rel mbo_rel fbs sp"
      "case r of Ok _ \<Rightarrow> k = length evs | Err e \<Rightarrow> k < length evs \<and> ((\<exists>e'. spec_apply (evs ! k) sp = Err e') \<or> True \<and> book_refusal e) | Panic \<Rightarrow> False"
    by blast
  have len: "length ms = length evs" using assms(3) by (metis length_map)
  have "map view_event (take k ms) = map Ok (take k evs)" using assms(3) by (metis take_map)
  from refset.apply_all_exact [OF books_rel_empty this k(2)] obtain bks where
    b: "apply_all refbook_ops refbook_new [] (take k ms) = (bks, Ok ())" "books_rel refbook_rel bks sp" by blast
  have same: "\<exists>bks' e'. apply_message refbook_ops refbook_new bks (ms ! k) = (bks', Err e')" if "k < length evs" "spec_apply (evs ! k) sp = Err e'" for e'
  proof -
    have "view_event (ms ! k) = Ok (evs ! k)" using assms(3) that(1) len by (metis nth_map)
    from refset.apply_message_exact [OF b(2) this] that(2) show ?thesis by auto
  qed
  have stop: "case r of Ok _ \<Rightarrow> k = length ms
      | Err e \<Rightarrow> k < length ms \<and> (book_refusal e \<or> (\<exists>bks' e'. apply_message refbook_ops refbook_new bks (ms ! k) = (bks', Err e')))
      | Panic \<Rightarrow> False" using k(4) same by (cases r) (auto simp: len)
  have "fast_rel (fb\<lparr>fb_books := fbs\<rparr>) sp" using fb k(3) by (simp add: fast_rel_def)
  moreover have "BookDigest_of mbo_ops fbs = BookDigest_of refbook_ops bks"
    using fastset.digest_sim [OF k(3)] refdigest.digest_sim [OF b(2)] by simp
  ultimately show ?thesis unfolding run prod.case using fast_rel_check b(1) stop by blast
qed

theorem fast_set_digest_matches_reference_witness:
  "\<exists>m fbs r k bks. view_event m = Ok (EvAdd 5 1000100 10 7 Bid) \<and>
     apply_all mbo_ops (mbo_new default_capacity) (fb_books (with_symbols [(7, default_capacity), (3, default_capacity)] default_capacity)) [m] = (fbs, r) \<and>
     apply_all refbook_ops refbook_new [] (take k [m]) = (bks, Ok ()) \<and> BookDigest_of mbo_ops fbs = BookDigest_of refbook_ops bks"
proof -
  let ?ev = "EvAdd 5 1000100 10 7 Bid"
  let ?m = "event_message ?ev \<lparr>dec_buf = event_image ?ev @ [], dec_root_len = event_len ?ev - 8\<rparr>"
  have v: "view_event ?m = Ok ?ev" by (rule view_event_image) (simp add: in_i64_def)
  have "map view_event [?m] = map Ok [?ev]" using v by (simp del: event_message.simps)
  moreover have "list_all (event_within mbo_within) [?ev]" by (simp add: mbo_within_def price_ok_def)
  moreover have "list_all (\<lambda>e. capacity_ok (snd e)) [(7, default_capacity), (3, default_capacity)]" by (simp add: default_capacity_ok)
  ultimately have "case apply_all mbo_ops (mbo_new default_capacity)
        (fb_books (with_symbols [(7, default_capacity), (3, default_capacity)] default_capacity)) [?m] of (fbs, r) \<Rightarrow>
      \<exists>k bks. apply_all refbook_ops refbook_new [] (take k [?m]) = (bks, Ok ()) \<and> BookDigest_of mbo_ops fbs = BookDigest_of refbook_ops bks"
    using fast_set_digest_matches_reference [OF default_capacity_ok, of "[(7, default_capacity), (3, default_capacity)]" "[?m]" "[?ev]"]
    by (simp only: case_prod_beta) blast
  then show ?thesis unfolding case_prod_beta using v by (intro exI [of _ ?m]) (metis prod.collapse)
qed

text \<open>C10: the sorted vector searched by bisection is an ordered map. On a vector sorted by symbol id, looking a symbol up,
  creating its book, storing a book and clearing a symbol are exactly the operations of the ordered map the
  reference set uses, and the vector stays sorted with the symbols in id order.\<close>

theorem sorted_vector_is_ordered_map:
  assumes "om_invar (fb_books fb)"
  shows "fb_get y fb = om_get y (fb_books fb) \<and>
     map_prod id fb_books (fb_get_or_create y fb) = get_or_create (mbo_new (fb_fallback fb)) y (fb_books fb) \<and>
     (case fb_get_or_create y fb of (b, fb') \<Rightarrow> om_invar (fb_books fb') \<and> fb_books (fb_put y b' fb') = om_insert y b' (fb_books fb)) \<and>
     fb_books (fb_clear_symbol y fb) = books_clear_symbol mbo_ops y (fb_books fb)"
proof -
  obtain b fb' where g: "fb_get_or_create y fb = (b, fb')" by fastforce
  have fb': "fb_books fb' = snd (get_or_create (mbo_new (fb_fallback fb)) y (fb_books fb))"
    using fb_get_or_create_om(1) [OF assms, of y] g by (metis map_prod_simp snd_conv)
  have inv: "om_invar (fb_books fb')" using assms om_invar_insert unfolding fb' get_or_create_def by (auto split: option.splits)
  have here: "om_get y (fb_books fb') \<noteq> None" unfolding fb' get_or_create_def by (auto simp: om_get_insert split: option.splits)
  have "om_insert y b' (fb_books fb') = om_insert y b' (fb_books fb)"
    using om.update_twice [OF assms] unfolding fb' get_or_create_def by (auto split: option.splits)
  then have "fb_books (fb_put y b' fb') = om_insert y b' (fb_books fb)" using fb_put_om [OF inv here] by simp
  then show ?thesis using inv g fb_get_om [OF assms, of y] fb_get_or_create_om(1) [OF assms, of y] fb_clear_symbol_om [OF assms, of y]
    by simp
qed

theorem sorted_vector_is_ordered_map_witness:
  "fb_get 7 (with_symbols [(7, default_capacity), (3, default_capacity)] default_capacity) =
     om_get 7 (fb_books (with_symbols [(7, default_capacity), (3, default_capacity)] default_capacity))"
proof -
  have "fast_rel (with_symbols [(7, default_capacity), (3, default_capacity)] default_capacity) (\<lambda>_. [])"
    by (rule with_symbols_rel) (simp_all add: default_capacity_ok)
  then have "om_invar (fb_books (with_symbols [(7, default_capacity), (3, default_capacity)] default_capacity))"
    by (simp add: fast_rel_def books_rel_def)
  from sorted_vector_is_ordered_map [OF this, of 7] show ?thesis by blast
qed

end
