(* ===== verification/Ring.thy ===== *)
theory Ring
  imports Bytes
begin

text \<open>
  The single-producer single-consumer ring in shared memory, \<open>crates/ring/src/lib.rs\<close>: creating and
  opening the file, the two ends, and their interleaving. The shared pages are a byte list; the indices
  live in it at the offsets the schema generates. \<open>push_with\<close> and \<open>pop_with\<close> are given twice: as the calls of
  one process, and as the sequence of memory accesses that the other end may interleave with.
\<close>

unbundle bit_operations_syntax

section \<open>Layout\<close>

abbreviation (input) HDR_LEN :: nat where "HDR_LEN \<equiv> 192"
abbreviation (input) HDR_MAGIC :: nat where "HDR_MAGIC \<equiv> 0"
abbreviation (input) HDR_VERSION :: nat where "HDR_VERSION \<equiv> 8"
abbreviation (input) HDR_SLOT_SIZE :: nat where "HDR_SLOT_SIZE \<equiv> 12"
abbreviation (input) HDR_CAPACITY :: nat where "HDR_CAPACITY \<equiv> 16"
abbreviation (input) HDR_WRITE_INDEX :: nat where "HDR_WRITE_INDEX \<equiv> 64"
abbreviation (input) HDR_READ_INDEX :: nat where "HDR_READ_INDEX \<equiv> 128"
abbreviation (input) SLOT_LEN :: nat where "SLOT_LEN \<equiv> 8"
abbreviation (input) SLOT_LENGTH :: nat where "SLOT_LENGTH \<equiv> 0"

abbreviation (input) RING_VERSION :: nat where "RING_VERSION \<equiv> 1"
abbreviation (input) RING_MAGIC :: nat where "RING_MAGIC \<equiv> 0x474e524b5453444d"
abbreviation (input) SLOT_ALIGN :: nat where "SLOT_ALIGN \<equiv> 64"

datatype ring_error =
    CapacityNotPowerOfTwo nat
  | CapacityZero
  | BadSlotSize nat
  | BadMagic nat
  | BadVersion nat
  | RingTruncated nat nat
  | Io nat

datatype push_error = RingFull | TooLarge nat nat | Abandoned

record ring =
  rg_capacity :: nat
  rg_slot_size :: nat

section \<open>Memory\<close>

definition load_u64 :: "nat \<Rightarrow> bytes \<Rightarrow> nat" where "load_u64 offset mem = from_le (window offset 8 mem)"
definition load_u32 :: "nat \<Rightarrow> bytes \<Rightarrow> nat" where "load_u32 offset mem = from_le (window offset 4 mem)"
definition store_u64 :: "nat \<Rightarrow> nat \<Rightarrow> bytes \<Rightarrow> bytes" where "store_u64 offset v mem = patch offset (to_le 8 v) mem"
definition store_u32 :: "nat \<Rightarrow> nat \<Rightarrow> bytes \<Rightarrow> bytes" where "store_u32 offset v mem = patch offset (to_le 4 v) mem"

definition write_index :: "bytes \<Rightarrow> nat" where "write_index mem = load_u64 HDR_WRITE_INDEX mem"
definition read_index :: "bytes \<Rightarrow> nat" where "read_index mem = load_u64 HDR_READ_INDEX mem"

definition slot_ptr :: "ring \<Rightarrow> nat \<Rightarrow> nat" where
  "slot_ptr r index = HDR_LEN + (index AND (rg_capacity r - 1)) * rg_slot_size r"

definition max_message_len :: "ring \<Rightarrow> nat" where
  "max_message_len r = rg_slot_size r - SLOT_LEN"

section \<open>Creating and opening\<close>

definition is_power_of_two :: "nat \<Rightarrow> bool" where
  "is_power_of_two n = list_ex (\<lambda>k. n = 2 ^ k) [0..<32]"

definition check_geometry :: "nat \<Rightarrow> nat \<Rightarrow> (ring_error, unit) outcome" where
  "check_geometry capacity slot_size =
     (if capacity = 0 then Err CapacityZero
      else if \<not> is_power_of_two capacity then Err (CapacityNotPowerOfTwo capacity)
      else if slot_size mod SLOT_ALIGN \<noteq> 0 \<or> slot_size \<le> SLOT_LEN then Err (BadSlotSize slot_size)
      else Ok ())"

definition file_size :: "nat \<Rightarrow> nat \<Rightarrow> nat" where
  "file_size capacity slot_size = HDR_LEN + capacity * slot_size"

text \<open>The file behind a path, and the error each system call of \<open>map_file\<close> returns, if it fails.\<close>

record ring_io =
  io_open :: "nat option"
  io_truncate :: "nat option"
  io_stat :: "nat option"
  io_map :: "nat option"

abbreviation (input) ENOENT :: nat where "ENOENT \<equiv> 2"

definition set_len :: "nat \<Rightarrow> bytes \<Rightarrow> bytes" where
  "set_len n b = take n b @ replicate (n - length b) 0"

definition syscall :: "nat option \<Rightarrow> (ring_error, 'a) outcome \<Rightarrow> (ring_error, 'a) outcome" where
  "syscall e k = (case e of Some code \<Rightarrow> Err (Io code) | None \<Rightarrow> k)"

definition map_file :: "ring_io \<Rightarrow> bytes option \<Rightarrow> nat \<Rightarrow> bool \<Rightarrow> bytes option \<times> (ring_error, bytes) outcome" where
  "map_file io file len create =
     (case io_open io of
        Some e \<Rightarrow> (file, Err (Io e))
      | None \<Rightarrow>
          (case (if create then Some (case file of None \<Rightarrow> [] | Some b \<Rightarrow> b) else file) of
             None \<Rightarrow> (file, Err (Io ENOENT))
           | Some opened \<Rightarrow>
               if create \<and> io_truncate io \<noteq> None then (Some opened, syscall (io_truncate io) (Ok opened))
               else let sized = (if create then set_len len opened else opened)
                    in (Some sized,
                        syscall (io_stat io)
                          (if length sized < len then Err (RingTruncated len (length sized))
                           else syscall (io_map io) (Ok sized)))))"

definition ring_header_image :: "nat \<Rightarrow> nat \<Rightarrow> bytes \<Rightarrow> bytes" where
  "ring_header_image capacity slot_size mem =
     store_u64 HDR_READ_INDEX 0 (store_u64 HDR_WRITE_INDEX 0
       (store_u32 HDR_CAPACITY capacity (store_u32 HDR_SLOT_SIZE slot_size
         (store_u32 HDR_VERSION RING_VERSION (store_u64 HDR_MAGIC RING_MAGIC
           (patch 0 (replicate HDR_LEN 0) mem))))))"

definition ring_create :: "ring_io \<Rightarrow> bytes option \<Rightarrow> nat \<Rightarrow> nat \<Rightarrow> bytes option \<times> (ring_error, ring) outcome" where
  "ring_create io file capacity slot_size =
     (case check_geometry capacity slot_size of
        Ok _ \<Rightarrow>
          (case map_file io file (file_size capacity slot_size) True of
             (_, Ok mem) \<Rightarrow> (Some (ring_header_image capacity slot_size mem),
                 Ok \<lparr>rg_capacity = capacity, rg_slot_size = slot_size\<rparr>)
           | (file', Err e) \<Rightarrow> (file', Err e)
           | (file', Panic) \<Rightarrow> (file', Panic))
      | Err e \<Rightarrow> (file, Err e)
      | Panic \<Rightarrow> (file, Panic))"

definition ring_open :: "ring_io \<Rightarrow> ring_io \<Rightarrow> bytes option \<Rightarrow> (ring_error, ring) outcome" where
  "ring_open io1 io2 file =
     obind (snd (map_file io1 file HDR_LEN False)) (\<lambda>head.
     let magic = load_u64 HDR_MAGIC head in
     if magic \<noteq> RING_MAGIC then Err (BadMagic magic)
     else let version = load_u32 HDR_VERSION head in
     if version \<noteq> RING_VERSION then Err (BadVersion version)
     else let capacity = load_u32 HDR_CAPACITY head; slot_size = load_u32 HDR_SLOT_SIZE head in
     obind (check_geometry capacity slot_size) (\<lambda>_.
     obind (snd (map_file io2 file (file_size capacity slot_size) False)) (\<lambda>_.
     Ok \<lparr>rg_capacity = capacity, rg_slot_size = slot_size\<rparr>)))"

section \<open>The two ends\<close>

record producer =
  pr_ring :: ring
  pr_cached_read :: nat

record consumer =
  co_ring :: ring
  co_cached_write :: nat

definition into_producer :: "ring \<Rightarrow> bytes \<Rightarrow> producer" where
  "into_producer r mem = \<lparr>pr_ring = r, pr_cached_read = read_index mem\<rparr>"

definition into_consumer :: "ring \<Rightarrow> bytes \<Rightarrow> consumer" where
  "into_consumer r mem = \<lparr>co_ring = r, co_cached_write = write_index mem\<rparr>"

definition depth :: "bytes \<Rightarrow> nat" where
  "depth mem = wrap_sub_u64 (write_index mem) (read_index mem)"

text \<open>\<open>fill\<close> rewrites the slot's usable bytes and reports how many it wrote.\<close>

definition push_with :: "(bytes \<Rightarrow> bytes \<times> nat option) \<Rightarrow> producer \<Rightarrow> bytes \<Rightarrow> (producer \<times> bytes) \<times> (push_error, nat) outcome" where
  "push_with fill p mem =
     (let r = pr_ring p; w = write_index mem;
          p' = (if wrap_sub_u64 w (pr_cached_read p) \<ge> rg_capacity r then p\<lparr>pr_cached_read := read_index mem\<rparr> else p)
      in if wrap_sub_u64 w (pr_cached_read p') \<ge> rg_capacity r then ((p', mem), Err RingFull)
         else let base = slot_ptr r w; usable = max_message_len r;
                  (body, reported) = fill (window (base + SLOT_LEN) usable mem);
                  mem1 = patch (base + SLOT_LEN) body mem
              in case reported of
                   None \<Rightarrow> ((p', mem1), Err Abandoned)
                 | Some n \<Rightarrow>
                     if n > usable then ((p', mem1), Err (TooLarge n usable))
                     else ((p', store_u64 HDR_WRITE_INDEX (wrap_add_u64 w 1) (store_u32 (base + SLOT_LENGTH) (n mod 2 ^ 32) mem1)), Ok n))"

definition push :: "bytes \<Rightarrow> producer \<Rightarrow> bytes \<Rightarrow> (producer \<times> bytes) \<times> (push_error, unit) outcome" where
  "push bs p mem =
     (let usable = max_message_len (pr_ring p)
      in if length bs > usable then ((p, mem), Err (TooLarge (length bs) usable))
         else case push_with (\<lambda>slot. (patch 0 bs slot, Some (length bs))) p mem of
                (s, r) \<Rightarrow> (s, obind r (\<lambda>_. Ok ())))"

text \<open>\<open>visit\<close> sees the message in place; what it saw is the result.\<close>

definition pop_with :: "consumer \<Rightarrow> bytes \<Rightarrow> (consumer \<times> bytes) \<times> bytes option" where
  "pop_with c mem =
     (let ring = co_ring c; r = read_index mem;
          c' = (if r \<ge> co_cached_write c then c\<lparr>co_cached_write := write_index mem\<rparr> else c)
      in if r \<ge> co_cached_write c' then ((c', mem), None)
         else let base = slot_ptr ring r;
                  n = min (load_u32 (base + SLOT_LENGTH) mem) (max_message_len ring);
                  body = window (base + SLOT_LEN) n mem
              in ((c', store_u64 HDR_READ_INDEX (wrap_add_u64 r 1) mem), Some body))"

fun drain :: "nat \<Rightarrow> consumer \<Rightarrow> bytes \<Rightarrow> (consumer \<times> bytes) \<times> bytes list" where
  "drain 0 c mem = ((c, mem), [])"
| "drain (Suc limit) c mem =
     (case pop_with c mem of
        (s, None) \<Rightarrow> (s, [])
      | ((c', mem'), Some m) \<Rightarrow> (case drain limit c' mem' of (s, ms) \<Rightarrow> (s, m # ms)))"

section \<open>Interleaved execution\<close>

text \<open>Every access to the shared pages is a step. The producer decides there is room, writes bytes of the slot
  one at a time in any order, writes the length prefix and publishes; the consumer decides there is a message, reads the length,
  reads the bytes one at a time and releases the slot. \<open>rs_sent\<close> and \<open>rs_received\<close> record what was published and what
  was visited.\<close>

datatype producer_pc = PIdle | PFill nat | PReady nat nat

datatype consumer_pc = CIdle | CLength nat | CBody nat nat bytes

record ring_state =
  rs_mem :: bytes
  rs_cached_read :: nat
  rs_producer :: producer_pc
  rs_cached_write :: nat
  rs_consumer :: consumer_pc
  rs_sent :: "bytes list"
  rs_received :: "bytes list"

datatype ring_move = StartPush | FillByte nat octet | Abandon | WriteLength nat | Publish | StartPop | ReadLength | ReadByte | Release

fun ring_act :: "ring \<Rightarrow> ring_move \<Rightarrow> ring_state \<Rightarrow> ring_state option" where
  "ring_act g StartPush s =
     (case rs_producer s of
        PIdle \<Rightarrow>
          let w = write_index (rs_mem s);
              cached = (if wrap_sub_u64 w (rs_cached_read s) \<ge> rg_capacity g then read_index (rs_mem s) else rs_cached_read s)
          in Some (s\<lparr>rs_cached_read := cached,
               rs_producer := (if wrap_sub_u64 w cached \<ge> rg_capacity g then PIdle else PFill w)\<rparr>)
      | _ \<Rightarrow> None)"
| "ring_act g (FillByte i v) s =
     (case rs_producer s of
        PFill w \<Rightarrow> if i < max_message_len g then Some (s\<lparr>rs_mem := patch (slot_ptr g w + SLOT_LEN + i) [v] (rs_mem s)\<rparr>) else None
      | _ \<Rightarrow> None)"
| "ring_act g Abandon s = (case rs_producer s of PFill w \<Rightarrow> Some (s\<lparr>rs_producer := PIdle\<rparr>) | _ \<Rightarrow> None)"
| "ring_act g (WriteLength n) s =
     (case rs_producer s of
        PFill w \<Rightarrow> if n \<le> max_message_len g
          then Some (s\<lparr>rs_mem := store_u32 (slot_ptr g w + SLOT_LENGTH) (n mod 2 ^ 32) (rs_mem s), rs_producer := PReady w n\<rparr>)
          else Some (s\<lparr>rs_producer := PIdle\<rparr>)
      | _ \<Rightarrow> None)"
| "ring_act g Publish s =
     (case rs_producer s of
        PReady w n \<Rightarrow> Some (s\<lparr>rs_mem := store_u64 HDR_WRITE_INDEX (wrap_add_u64 w 1) (rs_mem s), rs_producer := PIdle,
            rs_sent := rs_sent s @ [window (slot_ptr g w + SLOT_LEN) n (rs_mem s)]\<rparr>)
      | _ \<Rightarrow> None)"
| "ring_act g StartPop s =
     (case rs_consumer s of
        CIdle \<Rightarrow>
          let r = read_index (rs_mem s);
              cached = (if r \<ge> rs_cached_write s then write_index (rs_mem s) else rs_cached_write s)
          in Some (s\<lparr>rs_cached_write := cached, rs_consumer := (if r \<ge> cached then CIdle else CLength r)\<rparr>)
      | _ \<Rightarrow> None)"
| "ring_act g ReadLength s =
     (case rs_consumer s of
        CLength r \<Rightarrow> Some (s\<lparr>rs_consumer := CBody r (min (load_u32 (slot_ptr g r + SLOT_LENGTH) (rs_mem s)) (max_message_len g)) []\<rparr>)
      | _ \<Rightarrow> None)"
| "ring_act g ReadByte s =
     (case rs_consumer s of
        CBody r n got \<Rightarrow> if length got < n
          then Some (s\<lparr>rs_consumer := CBody r n (got @ window (slot_ptr g r + SLOT_LEN + length got) 1 (rs_mem s))\<rparr>) else None
      | _ \<Rightarrow> None)"
| "ring_act g Release s =
     (case rs_consumer s of
        CBody r n got \<Rightarrow> if length got = n
          then Some (s\<lparr>rs_mem := store_u64 HDR_READ_INDEX (wrap_add_u64 r 1) (rs_mem s), rs_consumer := CIdle,
              rs_received := rs_received s @ [got]\<rparr>) else None
      | _ \<Rightarrow> None)"

text \<open>Any interleaving: at every moment either process may take its next step.\<close>

inductive ring_reach :: "ring \<Rightarrow> ring_state \<Rightarrow> ring_state \<Rightarrow> bool" for g s0 where
  ring_start: "ring_reach g s0 s0"
| ring_next: "ring_reach g s0 s \<Longrightarrow> ring_act g a s = Some s' \<Longrightarrow> ring_reach g s0 s'"

definition fresh_ring :: "bytes \<Rightarrow> ring_state" where
  "fresh_ring mem = \<lparr>rs_mem = mem, rs_cached_read = read_index mem, rs_producer = PIdle, rs_cached_write = write_index mem,
     rs_consumer = CIdle, rs_sent = [], rs_received = []\<rparr>"

section \<open>Geometry and frames\<close>

definition ring_ok :: "ring \<Rightarrow> bool" where
  "ring_ok g \<longleftrightarrow> check_geometry (rg_capacity g) (rg_slot_size g) = Ok () \<and> rg_slot_size g < 2 ^ 32"

lemma ring_okD:
  assumes "ring_ok g"
  shows "0 < rg_capacity g" "\<exists>k < 32. rg_capacity g = 2 ^ k" "8 < rg_slot_size g" "rg_slot_size g mod 64 = 0" "rg_slot_size g < 2 ^ 32"
  using assms by (auto simp: ring_ok_def check_geometry_def is_power_of_two_def list_ex_iff split: if_splits)

lemma slot_ptr_eq: "ring_ok g \<Longrightarrow> slot_ptr g i = 192 + (i mod rg_capacity g) * rg_slot_size g"
  using ring_okD(2) [of g] by (auto simp: slot_ptr_def and_mask_mod simp del: One_nat_def)

lemma slot_in_file:
  assumes "ring_ok g"
  shows "192 \<le> slot_ptr g i" "slot_ptr g i + rg_slot_size g \<le> file_size (rg_capacity g) (rg_slot_size g)"
proof -
  have "Suc (i mod rg_capacity g) * rg_slot_size g \<le> rg_capacity g * rg_slot_size g"
    using ring_okD(1) [OF assms] by (intro mult_right_mono) (auto simp: Suc_le_eq)
  then show "192 \<le> slot_ptr g i" "slot_ptr g i + rg_slot_size g \<le> file_size (rg_capacity g) (rg_slot_size g)"
    by (auto simp: slot_ptr_eq [OF assms] file_size_def)
qed

lemma slots_apart:
  assumes "ring_ok g" "i mod rg_capacity g \<noteq> j mod rg_capacity g"
  shows "slot_ptr g i + rg_slot_size g \<le> slot_ptr g j \<or> slot_ptr g j + rg_slot_size g \<le> slot_ptr g i"
proof -
  have step: "a * rg_slot_size g + rg_slot_size g \<le> b * rg_slot_size g" if "a < b" for a b
    using mult_right_mono [of "Suc a" b "rg_slot_size g"] that by (simp add: Suc_le_eq)
  show ?thesis using assms(2) step by (auto simp: slot_ptr_eq [OF assms(1)] nat_neq_iff)
qed

lemma near_indices: "i < j \<Longrightarrow> j < i + c \<Longrightarrow> i mod c \<noteq> j mod (c :: nat)"
proof
  assume "i < j" "j < i + c" "i mod c = j mod c"
  then have "c dvd j - i" by (metis mod_eq_dvd_iff_nat less_imp_le)
  then show False using \<open>i < j\<close> \<open>j < i + c\<close> by (auto dest: dvd_imp_le)
qed

lemma window_frame:
  "p + length bs \<le> length b \<Longrightarrow> k + n \<le> p \<or> p + length bs \<le> k \<Longrightarrow> window k n (patch p bs b) = window k n b"
  using window_patch_before [of k n p b bs] window_patch_after [of p bs k b n] by auto

definition slot_holds :: "ring \<Rightarrow> bytes \<Rightarrow> nat \<Rightarrow> bytes \<Rightarrow> bool" where
  "slot_holds g mem i m \<longleftrightarrow> length m \<le> max_message_len g \<and> load_u32 (slot_ptr g i) mem = length m \<and>
     window (slot_ptr g i + 8) (length m) mem = m"

definition inside_slot :: "ring \<Rightarrow> nat \<Rightarrow> nat \<Rightarrow> nat \<Rightarrow> bool" where
  "inside_slot g j p n \<longleftrightarrow> slot_ptr g j \<le> p \<and> p + n \<le> slot_ptr g j + rg_slot_size g"

lemma indices_frame:
  assumes "ring_ok g" "file_size (rg_capacity g) (rg_slot_size g) \<le> length mem" "inside_slot g j p (length bs)"
  shows "write_index (patch p bs mem) = write_index mem" "read_index (patch p bs mem) = read_index mem"
    "length (patch p bs mem) = length mem"
proof -
  have "192 \<le> p" "p + length bs \<le> length mem" using slot_in_file [OF assms(1), of j] assms(2,3) by (auto simp: inside_slot_def)
  then show "write_index (patch p bs mem) = write_index mem" "read_index (patch p bs mem) = read_index mem"
    "length (patch p bs mem) = length mem"
    by (simp_all add: write_index_def read_index_def load_u64_def window_frame)
qed

lemma slot_frame:
  assumes "ring_ok g" "file_size (rg_capacity g) (rg_slot_size g) \<le> length mem" "inside_slot g j p (length bs)"
    "i mod rg_capacity g \<noteq> j mod rg_capacity g"
  shows "slot_holds g (patch p bs mem) i m = slot_holds g mem i m"
    "k + n \<le> rg_slot_size g \<Longrightarrow> window (slot_ptr g i + k) n (patch p bs mem) = window (slot_ptr g i + k) n mem"
proof -
  have p: "p + length bs \<le> length mem" using slot_in_file [OF assms(1), of j] assms(2,3) by (auto simp: inside_slot_def)
  show w: "window (slot_ptr g i + k) n (patch p bs mem) = window (slot_ptr g i + k) n mem" if "k + n \<le> rg_slot_size g" for k n
    using slots_apart [OF assms(1,4)] assms(3) that by (intro window_frame [OF p]) (auto simp: inside_slot_def)
  have "length m + 8 \<le> rg_slot_size g" if "length m \<le> max_message_len g"
    using that ring_okD(3) [OF assms(1)] by (simp add: max_message_len_def)
  then show "slot_holds g (patch p bs mem) i m = slot_holds g mem i m"
    using w [of 0 4] w [of 8 "length m"] ring_okD(3) [OF assms(1)] by (auto simp: slot_holds_def load_u32_def)
qed

lemma ring_header_frame:
  assumes "ring_ok g" "p + length bs \<le> 192" "file_size (rg_capacity g) (rg_slot_size g) \<le> length mem"
  shows "slot_holds g (patch p bs mem) i m = slot_holds g mem i m" "length (patch p bs mem) = length mem"
    "window (slot_ptr g i + k) n (patch p bs mem) = window (slot_ptr g i + k) n mem"
proof -
  have "p + length bs \<le> length mem" "192 \<le> slot_ptr g i" using slot_in_file [OF assms(1), of i] assms by auto
  then show "slot_holds g (patch p bs mem) i m = slot_holds g mem i m" "length (patch p bs mem) = length mem"
    "window (slot_ptr g i + k) n (patch p bs mem) = window (slot_ptr g i + k) n mem"
    using assms(2) by (simp_all add: slot_holds_def load_u32_def window_frame)
qed

lemma index_store:
  assumes "192 \<le> length mem" "v < 2 ^ 64"
  shows "write_index (store_u64 HDR_WRITE_INDEX v mem) = v" "read_index (store_u64 HDR_WRITE_INDEX v mem) = read_index mem"
    "read_index (store_u64 HDR_READ_INDEX v mem) = v" "write_index (store_u64 HDR_READ_INDEX v mem) = write_index mem"
  using assms by (simp_all add: write_index_def read_index_def load_u64_def store_u64_def window_frame window_patch_same)

end
