(* ===== verification/RingQueue.thy ===== *)
theory RingQueue
  imports Ring
begin

text \<open>
  The ring is a bounded queue: of one process's calls one after the other, and of every interleaving of the
  two ends' memory accesses.
\<close>

section \<open>The queue in the pages\<close>

definition ring_queue :: "ring \<Rightarrow> bytes \<Rightarrow> nat \<Rightarrow> bytes list \<Rightarrow> bool" where
  "ring_queue g mem r msgs \<longleftrightarrow> ring_ok g \<and> file_size (rg_capacity g) (rg_slot_size g) \<le> length mem \<and>
     read_index mem = r \<and> write_index mem = r + length msgs \<and> r + length msgs < 2 ^ 64 \<and> length msgs \<le> rg_capacity g \<and>
     (\<forall>i < length msgs. slot_holds g mem (r + i) (msgs ! i))"

lemma ring_queueD:
  assumes "ring_queue g mem r msgs"
  shows "ring_ok g" "file_size (rg_capacity g) (rg_slot_size g) \<le> length mem" "read_index mem = r"
    "write_index mem = r + length msgs" "r + length msgs < 2 ^ 64" "length msgs \<le> rg_capacity g"
    "i < length msgs \<Longrightarrow> slot_holds g mem (r + i) (msgs ! i)" "192 \<le> length mem"
  using assms slot_in_file [of g 0] by (auto simp: ring_queue_def)

lemma slot_body_inside:
  assumes "ring_ok g" "i + n \<le> max_message_len g"
  shows "inside_slot g w (slot_ptr g w + 8 + i) n" "inside_slot g w (slot_ptr g w) 4"
  using assms ring_okD(3) [OF assms(1)] by (auto simp: inside_slot_def max_message_len_def)

text \<open>Writing in the slot past the last message leaves the queue alone.\<close>

lemma queue_write_free:
  assumes q: "ring_queue g mem r msgs" and room: "length msgs < rg_capacity g"
    and ins: "inside_slot g (r + length msgs) p (length bs)"
  shows "ring_queue g (patch p bs mem) r msgs"
proof -
  note Q = ring_queueD [OF q]
  have "(r + i) mod rg_capacity g \<noteq> (r + length msgs) mod rg_capacity g" if "i < length msgs" for i
    using near_indices [of "r + i" "r + length msgs" "rg_capacity g"] that room by simp
  then show ?thesis using Q slot_frame(1) [OF Q(1,2) ins] indices_frame [OF Q(1,2) ins] by (auto simp: ring_queue_def)
qed

lemma queue_publish:
  assumes q: "ring_queue g mem r msgs" and room: "length msgs < rg_capacity g" and hold: "slot_holds g mem (r + length msgs) m"
    and last: "r + length msgs + 1 < 2 ^ 64"
  shows "ring_queue g (store_u64 HDR_WRITE_INDEX (wrap_add_u64 (r + length msgs) 1) mem) r (msgs @ [m])"
proof -
  note Q = ring_queueD [OF q]
  have w: "wrap_add_u64 (r + length msgs) 1 = r + length msgs + 1" using last by simp
  have fr: "slot_holds g (store_u64 64 v mem) i x = slot_holds g mem i x" "length (store_u64 64 v mem) = length mem" for v i x
    using ring_header_frame(1,2) [OF Q(1) _ Q(2), of 64 "to_le 8 v"] by (simp_all add: store_u64_def)
  show ?thesis using Q last room hold index_store(1,2) [OF Q(8) last]
    by (auto simp: ring_queue_def w fr nth_append less_Suc_eq)
qed

lemma queue_release:
  assumes q: "ring_queue g mem r (m # msgs)"
  shows "ring_queue g (store_u64 HDR_READ_INDEX (wrap_add_u64 r 1) mem) (r + 1) msgs"
proof -
  note Q = ring_queueD [OF q]
  have last: "r + 1 < 2 ^ 64" using Q(5) by simp
  then have w: "wrap_add_u64 r 1 = r + 1" by simp
  have fr: "slot_holds g (store_u64 128 v mem) i x = slot_holds g mem i x" "length (store_u64 128 v mem) = length mem" for v i x
    using ring_header_frame(1,2) [OF Q(1) _ Q(2), of 128 "to_le 8 v"] by (simp_all add: store_u64_def)
  have "slot_holds g mem (r + 1 + i) (msgs ! i)" if "i < length msgs" for i using Q(7) [of "Suc i"] that by simp
  then show ?thesis using Q last index_store(3,4) [OF Q(8) last] by (simp add: ring_queue_def w fr)
qed

text \<open>A slot that has been filled and given a length holds the message.\<close>

lemma slot_written:
  assumes "ring_ok g" "file_size (rg_capacity g) (rg_slot_size g) \<le> length mem" "n \<le> max_message_len g"
  shows "slot_holds g (store_u32 (slot_ptr g w + SLOT_LENGTH) (n mod 2 ^ 32) mem) w (window (slot_ptr g w + 8) n mem)"
    "window (slot_ptr g w + 8) n (store_u32 (slot_ptr g w + SLOT_LENGTH) (n mod 2 ^ 32) mem) = window (slot_ptr g w + 8) n mem"
proof -
  note S = slot_in_file [OF assms(1), of w] and R = ring_okD [OF assms(1)]
  have n: "n < 2 ^ 32" "slot_ptr g w + 8 + n \<le> length mem" "slot_ptr g w + 4 \<le> length mem"
    using S R assms(2,3) by (auto simp: max_message_len_def)
  show b: "window (slot_ptr g w + 8) n (store_u32 (slot_ptr g w + SLOT_LENGTH) (n mod 2 ^ 32) mem) = window (slot_ptr g w + 8) n mem"
    using n by (simp add: store_u32_def window_frame)
  have "load_u32 (slot_ptr g w) (store_u32 (slot_ptr g w + SLOT_LENGTH) (n mod 2 ^ 32) mem) = n"
    using n by (simp add: load_u32_def store_u32_def window_patch_same)
  then show "slot_holds g (store_u32 (slot_ptr g w + SLOT_LENGTH) (n mod 2 ^ 32) mem) w (window (slot_ptr g w + 8) n mem)"
    using n assms(3) b by (simp add: slot_holds_def)
qed

section \<open>One call after the other\<close>

definition ends_rel :: "ring \<Rightarrow> producer \<Rightarrow> consumer \<Rightarrow> bytes \<Rightarrow> nat \<Rightarrow> bytes list \<Rightarrow> bool" where
  "ends_rel g p c mem r msgs \<longleftrightarrow> pr_ring p = g \<and> co_ring c = g \<and> pr_cached_read p \<le> r \<and>
     co_cached_write c \<le> r + length msgs \<and> ring_queue g mem r msgs"

text \<open>Whether the producer sees room does not depend on how stale its copy of the read index is.\<close>

lemma stale_read:
  assumes "cached \<le> r" "r + n < 2 ^ 64" "fresh = (if wrap_sub_u64 (r + n) cached \<ge> c then r else cached)"
  shows "wrap_sub_u64 (r + n) fresh \<ge> c \<longleftrightarrow> n \<ge> c" "fresh \<le> r"
proof -
  have "wrap_sub_u64 (r + n) cached = r + n - cached" "wrap_sub_u64 (r + n) r = n"
    using assms(1,2) by (simp_all add: wrap_sub_u64_exact)
  then show "wrap_sub_u64 (r + n) fresh \<ge> c \<longleftrightarrow> n \<ge> c" "fresh \<le> r" using assms(1,3) by auto
qed

lemma stale_write:
  assumes "cached \<le> r + (n :: nat)" "fresh = (if r \<ge> cached then r + n else cached)"
  shows "r \<ge> fresh \<longleftrightarrow> n = 0" "fresh \<le> r + n"
  using assms by auto

lemma push_ok:
  assumes rel: "ends_rel g p c mem r msgs" and last: "r + length msgs + 1 < 2 ^ 64"
    and run: "push bs p mem = ((p', mem'), res)"
  shows "if length bs > max_message_len g then res = Err (TooLarge (length bs) (max_message_len g)) \<and> ends_rel g p' c mem' r msgs
     else if length msgs = rg_capacity g then res = Err RingFull \<and> ends_rel g p' c mem' r msgs
     else res = Ok () \<and> ends_rel g p' c mem' r (msgs @ [bs])"
proof (cases "length bs > max_message_len g")
  case True
  then show ?thesis using run rel by (auto simp: push_def ends_rel_def Let_def)
next
  case False
  have q: "ring_queue g mem r msgs" and g: "pr_ring p = g" "pr_cached_read p \<le> r" using rel by (auto simp: ends_rel_def)
  note Q = ring_queueD [OF q]
  let ?c = "rg_capacity g" and ?w = "r + length msgs"
  let ?p = "if wrap_sub_u64 ?w (pr_cached_read p) \<ge> ?c then p\<lparr>pr_cached_read := r\<rparr> else p"
  have pc: "pr_cached_read ?p = (if wrap_sub_u64 ?w (pr_cached_read p) \<ge> ?c then r else pr_cached_read p)" "pr_ring ?p = g" using g by auto
  note S = stale_read [OF g(2) Q(5) pc(1)]
  show ?thesis
  proof (cases "length msgs = ?c")
    case full: True
    then have "wrap_sub_u64 ?w (pr_cached_read ?p) \<ge> ?c" using S(1) by simp
    then have "p' = ?p \<and> mem' = mem \<and> res = Err RingFull" using run False g Q(3,4) by (auto simp: push_def push_with_def Let_def)
    then show ?thesis using False full rel pc S(2) by (simp add: ends_rel_def)
  next
    case room: False
    then have rm: "length msgs < ?c" "\<not> wrap_sub_u64 ?w (pr_cached_read ?p) \<ge> ?c" using S(1) Q(6) by simp_all
    let ?b = "slot_ptr g ?w" and ?u = "max_message_len g"
    let ?body = "patch 0 bs (window (?b + 8) ?u mem)"
    let ?m1 = "patch (?b + 8) ?body mem"
    let ?m2 = "store_u32 (?b + SLOT_LENGTH) (length bs mod 2 ^ 32) ?m1"
    let ?m3 = "store_u64 HDR_WRITE_INDEX (wrap_add_u64 ?w 1) ?m2"
    have fit: "?b + 8 + ?u \<le> length mem" using slot_in_file(2) [OF Q(1), of ?w] Q(2) ring_okD(3) [OF Q(1)] by (simp add: max_message_len_def)
    have body: "length ?body = ?u" using fit False by simp
    have r: "p' = ?p \<and> mem' = ?m3 \<and> res = Ok ()"
      using run False g Q(3,4) rm(2) by (auto simp: push_def push_with_def Let_def)
    have q1: "ring_queue g ?m1 r msgs"
      by (rule queue_write_free [OF q rm(1)]) (use slot_body_inside(1) [OF Q(1), of 0 ?u ?w] body in simp)
    have q2: "ring_queue g ?m2 r msgs" unfolding store_u32_def
      by (rule queue_write_free [OF q1 rm(1)]) (use slot_body_inside(2) [OF Q(1), of 0 0 ?w] in simp)
    have "window (?b + 8) (length bs) ?m1 = bs"
      using False fit body by (simp add: window_def patch_def)
    then have "slot_holds g ?m2 ?w bs" using slot_written(1) [OF Q(1) ring_queueD(2) [OF q1], of "length bs" ?w] False by simp
    from queue_publish [OF q2 rm(1) this last] have "ring_queue g ?m3 r (msgs @ [bs])" .
    then show ?thesis using r False room rel pc S(2) by (simp add: ends_rel_def)
  qed
qed

lemma pop_ok:
  assumes rel: "ends_rel g p c mem r msgs" and run: "pop_with c mem = ((c', mem'), res)"
  shows "case msgs of [] \<Rightarrow> res = None \<and> ends_rel g p c' mem' r [] | m # ms \<Rightarrow> res = Some m \<and> ends_rel g p c' mem' (r + 1) ms"
proof -
  have q: "ring_queue g mem r msgs" and g: "co_ring c = g" "co_cached_write c \<le> r + length msgs" using rel by (auto simp: ends_rel_def)
  note Q = ring_queueD [OF q]
  let ?c = "if r \<ge> co_cached_write c then c\<lparr>co_cached_write := r + length msgs\<rparr> else c"
  have cc: "co_cached_write ?c = (if r \<ge> co_cached_write c then r + length msgs else co_cached_write c)" "co_ring ?c = g" using g by auto
  note S = stale_write [OF g(2) cc(1)]
  show ?thesis
  proof (cases msgs)
    case Nil
    then have "c' = ?c \<and> mem' = mem \<and> res = None" using run g Q(3,4) S(1) by (auto simp: pop_with_def Let_def)
    then show ?thesis using Nil rel cc S(2) by (simp add: ends_rel_def)
  next
    case (Cons m ms)
    have h: "slot_holds g mem r m" using Q(7) [of 0] Cons by simp
    then have n: "min (load_u32 (slot_ptr g r) mem) (max_message_len g) = length m" "window (slot_ptr g r + 8) (length m) mem = m"
      by (simp_all add: slot_holds_def)
    have r: "c' = ?c \<and> mem' = store_u64 HDR_READ_INDEX (wrap_add_u64 r 1) mem \<and> res = Some m"
      using run g Q(3,4) S(1) Cons n by (auto simp: pop_with_def Let_def)
    show ?thesis using r Cons rel cc S(2) queue_release [OF q [unfolded Cons]] by (auto simp: ends_rel_def)
  qed
qed

section \<open>Every interleaving\<close>

text \<open>The two ends share only the indices and the slots between them: the queue in the pages is what was published and
  not yet released, the producer works in a slot outside it, and the consumer has read a prefix of its first message.\<close>

definition producer_ok :: "ring \<Rightarrow> bytes \<Rightarrow> nat \<Rightarrow> nat \<Rightarrow> producer_pc \<Rightarrow> bool" where
  "producer_ok g mem r w pc = (case pc of PIdle \<Rightarrow> True | PFill v \<Rightarrow> v = w \<and> w < r + rg_capacity g
     | PReady v n \<Rightarrow> v = w \<and> w < r + rg_capacity g \<and> slot_holds g mem w (window (slot_ptr g w + 8) n mem) \<and> n \<le> max_message_len g)"

definition consumer_ok :: "bytes list \<Rightarrow> nat \<Rightarrow> consumer_pc \<Rightarrow> bool" where
  "consumer_ok sent r pc = (case pc of CIdle \<Rightarrow> True | CLength v \<Rightarrow> v = r \<and> r < length sent
     | CBody v n got \<Rightarrow> v = r \<and> r < length sent \<and> n = length (sent ! r) \<and> got = take (length got) (sent ! r))"

definition ring_at :: "ring \<Rightarrow> ring_state \<Rightarrow> nat \<Rightarrow> bool" where
  "ring_at g s r \<longleftrightarrow> rs_received s = take r (rs_sent s) \<and> r \<le> length (rs_sent s) \<and> rs_cached_read s \<le> r \<and>
     rs_cached_write s \<le> length (rs_sent s) \<and> ring_queue g (rs_mem s) r (drop r (rs_sent s)) \<and>
     producer_ok g (rs_mem s) r (length (rs_sent s)) (rs_producer s) \<and> consumer_ok (rs_sent s) r (rs_consumer s)"

lemma ring_atD:
  assumes "ring_at g s r"
  shows "rs_received s = take r (rs_sent s)" "r \<le> length (rs_sent s)" "rs_cached_read s \<le> r"
    "rs_cached_write s \<le> length (rs_sent s)" "ring_queue g (rs_mem s) r (drop r (rs_sent s))"
    "producer_ok g (rs_mem s) r (length (rs_sent s)) (rs_producer s)" "consumer_ok (rs_sent s) r (rs_consumer s)"
    "ring_ok g" "file_size (rg_capacity g) (rg_slot_size g) \<le> length (rs_mem s)" "read_index (rs_mem s) = r"
    "write_index (rs_mem s) = length (rs_sent s)" "length (rs_sent s) < 2 ^ 64"
  using assms ring_queueD(1-5) [of g "rs_mem s" r "drop r (rs_sent s)"] by (auto simp: ring_at_def)

lemma window_one:
  assumes "window k n mem = m" "length m = n" "i < n"
  shows "window (k + i) 1 mem = [m ! i]"
proof -
  have "window (k + i) 1 mem = take 1 (drop i m)" using assms by (auto simp: window_def drop_take add.commute)
  also have "\<dots> = [m ! i]" using assms by (simp add: take_Suc_conv_app_nth Cons_nth_drop_Suc [symmetric])
  finally show ?thesis .
qed

lemma release_keeps_slot:
  assumes "ring_ok g" "file_size (rg_capacity g) (rg_slot_size g) \<le> length mem"
  shows "slot_holds g (store_u64 HDR_READ_INDEX v mem) i m = slot_holds g mem i m"
    "window (slot_ptr g i + 8) n (store_u64 HDR_READ_INDEX v mem) = window (slot_ptr g i + 8) n mem"
  using ring_header_frame(1,3) [OF assms(1) _ assms(2), of 128 "to_le 8 v"] by (simp_all add: store_u64_def)

lemma next_message:
  assumes "ring_queue g mem r (drop r sent)" "r < length sent"
  shows "slot_holds g mem r (sent ! r)"
  using ring_queueD(7) [OF assms(1), of 0] assms(2) by simp

lemma room_of_queue:
  assumes "r \<le> length sent" "length sent < r + c"
  shows "length (drop r sent) < c" "r + length (drop r sent) = length sent"
  using assms by auto

text \<open>One lemma per kind of step. The producer's steps keep the consumer's place, and the other way round.\<close>

lemma start_push_at:
  assumes inv: "ring_at g s r" and act: "ring_act g StartPush s = Some s'"
  shows "ring_at g s' r"
proof -
  note I = ring_atD [OF inv]
  let ?w = "length (rs_sent s)" and ?c = "rg_capacity g"
  let ?f = "if wrap_sub_u64 ?w (rs_cached_read s) \<ge> ?c then r else rs_cached_read s"
  have S: "wrap_sub_u64 ?w ?f \<ge> ?c \<longleftrightarrow> ?w - r \<ge> ?c" "?f \<le> r"
    using stale_read [OF I(3), of "?w - r" ?f ?c] I(2,12) by simp_all
  have "s' = s\<lparr>rs_cached_read := ?f, rs_producer := (if wrap_sub_u64 ?w ?f \<ge> ?c then PIdle else PFill ?w)\<rparr>"
    using act I(10,11) by (auto split: producer_pc.splits)
  then show ?thesis using I S by (auto simp: ring_at_def producer_ok_def)
qed

lemma filling:
  assumes inv: "ring_at g s r" and pc: "rs_producer s = PFill x"
  shows "x = length (rs_sent s)" "length (drop r (rs_sent s)) < rg_capacity g" "r + length (drop r (rs_sent s)) = length (rs_sent s)"
    "length (rs_sent s) < r + rg_capacity g"
  using ring_atD [OF inv] pc room_of_queue [of r "rs_sent s" "rg_capacity g"] by (auto simp: producer_ok_def)

lemma fill_byte_at:
  assumes inv: "ring_at g s r" and act: "ring_act g (FillByte i v) s = Some s'"
  shows "ring_at g s' r"
proof -
  note I = ring_atD [OF inv]
  let ?w = "length (rs_sent s)"
  obtain x where x: "rs_producer s = PFill x" "i < max_message_len g" "s' = s\<lparr>rs_mem := patch (slot_ptr g x + 8 + i) [v] (rs_mem s)\<rparr>"
    using act by (auto split: producer_pc.splits if_splits)
  note F = filling [OF inv x(1)]
  have "ring_queue g (rs_mem s') r (drop r (rs_sent s))"
    unfolding x(3) using slot_body_inside(1) [OF I(8), of i 1 ?w] x(2) F by (auto intro!: queue_write_free [OF I(5)])
  then show ?thesis using I x F by (auto simp: ring_at_def producer_ok_def)
qed

lemma write_length_at:
  assumes inv: "ring_at g s r" and act: "ring_act g (WriteLength n) s = Some s'"
  shows "ring_at g s' r"
proof -
  note I = ring_atD [OF inv]
  let ?w = "length (rs_sent s)" and ?m = "store_u32 (slot_ptr g (length (rs_sent s)) + SLOT_LENGTH) (n mod 2 ^ 32) (rs_mem s)"
  obtain x where x: "rs_producer s = PFill x" using act by (auto split: producer_pc.splits)
  note F = filling [OF inv x]
  show ?thesis
  proof (cases "n \<le> max_message_len g")
    case True
    have s': "s' = s\<lparr>rs_mem := ?m, rs_producer := PReady ?w n\<rparr>" using act x True F by simp
    have "ring_queue g ?m r (drop r (rs_sent s))"
      unfolding store_u32_def using slot_body_inside(2) [OF I(8), of 0 0 ?w] F by (intro queue_write_free [OF I(5)]) auto
    moreover have "slot_holds g ?m ?w (window (slot_ptr g ?w + 8) n ?m)" using slot_written [OF I(8,9) True] by simp
    ultimately show ?thesis unfolding s' using I F True by (auto simp: ring_at_def producer_ok_def)
  next
    case False
    then have "s' = s\<lparr>rs_producer := PIdle\<rparr>" using act x by simp
    then show ?thesis using I by (auto simp: ring_at_def producer_ok_def)
  qed
qed

lemma publish_at:
  assumes inv: "ring_at g s r" and act: "ring_act g Publish s = Some s'" and last: "length (rs_sent s') < 2 ^ 64"
  shows "ring_at g s' r"
proof -
  note I = ring_atD [OF inv]
  let ?w = "length (rs_sent s)"
  obtain x n where x: "rs_producer s = PReady x n" using act by (auto split: producer_pc.splits)
  let ?m = "window (slot_ptr g ?w + 8) n (rs_mem s)"
  have xw: "x = ?w" "?w < r + rg_capacity g" "slot_holds g (rs_mem s) ?w ?m" using I(6) x(1) by (auto simp: producer_ok_def)
  note R = room_of_queue [OF I(2) xw(2)]
  have s': "s' = s\<lparr>rs_mem := store_u64 HDR_WRITE_INDEX (wrap_add_u64 ?w 1) (rs_mem s), rs_producer := PIdle, rs_sent := rs_sent s @ [?m]\<rparr>"
    using act x xw(1) by simp
  have "ring_queue g (rs_mem s') r (drop r (rs_sent s) @ [?m])"
    using queue_publish [OF I(5) R(1), of ?m, unfolded R(2)] xw(3) last by (simp add: s')
  moreover have "consumer_ok (rs_sent s @ [?m]) r (rs_consumer s)"
    using I(7) by (auto simp: consumer_ok_def nth_append split: consumer_pc.splits)
  ultimately show ?thesis using I by (auto simp: ring_at_def producer_ok_def s')
qed

lemma start_pop_at:
  assumes inv: "ring_at g s r" and act: "ring_act g StartPop s = Some s'"
  shows "ring_at g s' r"
proof -
  note I = ring_atD [OF inv]
  let ?w = "length (rs_sent s)"
  let ?f = "if r \<ge> rs_cached_write s then ?w else rs_cached_write s"
  have S: "r \<ge> ?f \<longleftrightarrow> ?w = r" "?f \<le> ?w" using I(2,4) by auto
  have "s' = s\<lparr>rs_cached_write := ?f, rs_consumer := (if r \<ge> ?f then CIdle else CLength r)\<rparr>"
    using act I(10,11) by (auto split: consumer_pc.splits)
  then show ?thesis using I S by (auto simp: ring_at_def consumer_ok_def)
qed

lemma read_length_at:
  assumes inv: "ring_at g s r" and act: "ring_act g ReadLength s = Some s'"
  shows "ring_at g s' r"
proof -
  note I = ring_atD [OF inv]
  obtain x where x: "rs_consumer s = CLength x" using act by (auto split: consumer_pc.splits)
  have xr: "x = r" "r < length (rs_sent s)" using I(7) x by (auto simp: consumer_ok_def)
  have "min (load_u32 (slot_ptr g r) (rs_mem s)) (max_message_len g) = length (rs_sent s ! r)"
    using next_message [OF I(5) xr(2)] by (simp add: slot_holds_def)
  then have "s' = s\<lparr>rs_consumer := CBody r (length (rs_sent s ! r)) []\<rparr>" using act x xr by simp
  then show ?thesis using I xr by (auto simp: ring_at_def consumer_ok_def)
qed

lemma read_byte_at:
  assumes inv: "ring_at g s r" and act: "ring_act g ReadByte s = Some s'"
  shows "ring_at g s' r"
proof -
  note I = ring_atD [OF inv]
  let ?m = "rs_sent s ! r"
  obtain x n got where x: "rs_consumer s = CBody x n got" "length got < n"
      "s' = s\<lparr>rs_consumer := CBody x n (got @ window (slot_ptr g x + 8 + length got) 1 (rs_mem s))\<rparr>"
    using act by (auto split: consumer_pc.splits if_splits)
  have xr: "x = r" "r < length (rs_sent s)" "n = length ?m" "got = take (length got) ?m" using I(7) x by (auto simp: consumer_ok_def)
  have "window (slot_ptr g r + 8) (length ?m) (rs_mem s) = ?m" using next_message [OF I(5) xr(2)] by (simp add: slot_holds_def)
  then have "window (slot_ptr g r + 8 + length got) 1 (rs_mem s) = [?m ! length got]" using window_one x(2) xr(3) by metis
  moreover have "got @ [?m ! length got] = take (Suc (length got)) ?m" using x(2) xr(3,4) by (metis take_Suc_conv_app_nth)
  ultimately show ?thesis using I xr x by (auto simp: ring_at_def consumer_ok_def)
qed

lemma release_at:
  assumes inv: "ring_at g s r" and act: "ring_act g Release s = Some s'"
  shows "ring_at g s' (Suc r)"
proof -
  note I = ring_atD [OF inv]
  obtain x n got where x: "rs_consumer s = CBody x n got" "length got = n"
      "s' = s\<lparr>rs_mem := store_u64 HDR_READ_INDEX (wrap_add_u64 x 1) (rs_mem s), rs_consumer := CIdle, rs_received := rs_received s @ [got]\<rparr>"
    using act by (auto split: consumer_pc.splits if_splits)
  have xr: "x = r" "r < length (rs_sent s)" "got = rs_sent s ! r" using I(7) x by (auto simp: consumer_ok_def)
  have "ring_queue g (rs_mem s) r (rs_sent s ! r # drop (Suc r) (rs_sent s))" using I(5) xr(2) by (simp add: Cons_nth_drop_Suc)
  from queue_release [OF this] have "ring_queue g (rs_mem s') (Suc r) (drop (Suc r) (rs_sent s))" by (simp add: x xr)
  moreover have "producer_ok g (rs_mem s') (Suc r) (length (rs_sent s)) (rs_producer s)"
    using I(6) release_keeps_slot [OF I(8,9)] by (auto simp: producer_ok_def x split: producer_pc.splits)
  ultimately show ?thesis using I xr x by (auto simp: ring_at_def consumer_ok_def take_Suc_conv_app_nth)
qed

lemma ring_act_at:
  assumes "ring_at g s r" "ring_act g a s = Some s'" "length (rs_sent s') < 2 ^ 64"
  shows "\<exists>r'. ring_at g s' r'"
proof (cases a)
  case Abandon
  then have "ring_at g s' r" using assms by (auto simp: ring_at_def producer_ok_def split: producer_pc.splits)
  then show ?thesis ..
next
  case StartPush
  then show ?thesis using assms start_push_at by blast
next
  case (FillByte i v)
  then show ?thesis using assms fill_byte_at by blast
next
  case (WriteLength n)
  then show ?thesis using assms write_length_at by blast
next
  case Publish
  then show ?thesis using assms publish_at by blast
next
  case StartPop
  then show ?thesis using assms start_pop_at by blast
next
  case ReadLength
  then show ?thesis using assms read_length_at by blast
next
  case ReadByte
  then show ?thesis using assms read_byte_at by blast
next
  case Release
  then show ?thesis using assms release_at by blast
qed

lemma ring_act_sent: "ring_act g a s = Some s' \<Longrightarrow> length (rs_sent s) \<le> length (rs_sent s')"
  by (cases a) (auto simp: Let_def split: producer_pc.splits consumer_pc.splits if_splits)

lemma ring_reach_at:
  assumes "ring_reach g s0 s" "ring_at g s0 r0" "length (rs_sent s) < 2 ^ 64"
  shows "\<exists>r. ring_at g s r"
  using assms
proof (induction rule: ring_reach.induct)
  case (ring_next s a s')
  then show ?case using ring_act_sent [OF ring_next.hyps(2)] ring_act_at by (metis le_less_trans)
qed auto

section \<open>A ring that was just created\<close>

lemma ring_header_length: "192 \<le> length mem \<Longrightarrow> length (ring_header_image c n mem) = length mem"
  by (simp add: ring_header_image_def store_u64_def store_u32_def)

lemma ring_header_fields:
  assumes "192 \<le> length mem" "c < 2 ^ 32" "n < 2 ^ 32"
  shows "load_u64 HDR_MAGIC (ring_header_image c n mem) = RING_MAGIC" "load_u32 HDR_VERSION (ring_header_image c n mem) = RING_VERSION"
    "load_u32 HDR_CAPACITY (ring_header_image c n mem) = c" "load_u32 HDR_SLOT_SIZE (ring_header_image c n mem) = n"
    "write_index (ring_header_image c n mem) = 0" "read_index (ring_header_image c n mem) = 0"
  using assms
  by (simp_all add: ring_header_image_def load_u64_def load_u32_def write_index_def read_index_def store_u64_def store_u32_def window_frame window_patch_same)

lemma length_set_len [simp]: "length (set_len n b) = n"
  by (simp add: set_len_def)

lemma map_file_Ok:
  assumes "map_file io file len create = (file', Ok mem)"
  shows "file' = Some mem" "len \<le> length mem" "\<not> create \<Longrightarrow> file = Some mem"
  using assms by (auto simp: map_file_def syscall_def Let_def split: option.splits if_splits)

lemma created:
  assumes "ring_create io file capacity slot_size = (file', Ok g)" "capacity < 2 ^ 32" "slot_size < 2 ^ 32"
  obtains mem where "file' = Some mem" "g = \<lparr>rg_capacity = capacity, rg_slot_size = slot_size\<rparr>" "ring_ok g"
    "file_size capacity slot_size \<le> length mem" "load_u64 HDR_MAGIC mem = RING_MAGIC" "load_u32 HDR_VERSION mem = RING_VERSION"
    "load_u32 HDR_CAPACITY mem = capacity" "load_u32 HDR_SLOT_SIZE mem = slot_size" "ring_queue g mem 0 []"
proof -
  obtain f m where m: "check_geometry capacity slot_size = Ok ()" "map_file io file (file_size capacity slot_size) True = (f, Ok m)"
      "file' = Some (ring_header_image capacity slot_size m)" "g = \<lparr>rg_capacity = capacity, rg_slot_size = slot_size\<rparr>"
    using assms(1) by (auto simp: ring_create_def split: outcome.splits prod.splits)
  have len: "192 \<le> length m" "file_size capacity slot_size \<le> length m" using map_file_Ok(2) [OF m(2)] by (auto simp: file_size_def)
  have ok: "ring_ok g" using m(1,4) assms(3) by (simp add: ring_ok_def)
  show thesis
    by (rule that [OF m(3,4) ok]) (use len ok m(4) ring_header_fields [OF len(1) assms(2,3)] in \<open>simp_all add: ring_header_length ring_queue_def\<close>)
qed

lemma open_created:
  assumes "ring_create io file capacity slot_size = (Some b, Ok g)" "capacity < 2 ^ 32" "slot_size < 2 ^ 32"
    and "io_open io' = None" "io_stat io' = None" "io_map io' = None"
  shows "ring_open io' io' (Some b) = Ok g"
proof -
  obtain mem where m: "Some b = Some mem" "g = \<lparr>rg_capacity = capacity, rg_slot_size = slot_size\<rparr>" "ring_ok g"
      "file_size capacity slot_size \<le> length mem" "load_u64 HDR_MAGIC mem = RING_MAGIC" "load_u32 HDR_VERSION mem = RING_VERSION"
      "load_u32 HDR_CAPACITY mem = capacity" "load_u32 HDR_SLOT_SIZE mem = slot_size"
    by (rule created [OF assms(1-3)])
  have "192 \<le> length b" using m(1,4) by (simp add: file_size_def)
  then show ?thesis using assms(4-6) m by (simp add: ring_open_def map_file_def syscall_def ring_ok_def Let_def)
qed

lemma created_ends:
  assumes "ring_create io file capacity slot_size = (Some mem, Ok g)" "capacity < 2 ^ 32" "slot_size < 2 ^ 32"
  shows "ends_rel g (into_producer g mem) (into_consumer g mem) mem 0 []" "g = \<lparr>rg_capacity = capacity, rg_slot_size = slot_size\<rparr>"
proof -
  obtain mem1 where m: "Some mem = Some mem1" "g = \<lparr>rg_capacity = capacity, rg_slot_size = slot_size\<rparr>" "ring_queue g mem1 0 []"
    by (rule created [OF assms])
  then have q: "ring_queue g mem 0 []" by simp
  show "ends_rel g (into_producer g mem) (into_consumer g mem) mem 0 []"
    using q ring_queueD(3,4) [OF q] by (simp add: ends_rel_def into_producer_def into_consumer_def)
  show "g = \<lparr>rg_capacity = capacity, rg_slot_size = slot_size\<rparr>" by (rule m(2))
qed

lemma fresh_at:
  assumes "ring_queue g mem 0 []"
  shows "ring_at g (fresh_ring mem) 0"
  using assms ring_queueD(3,4) [OF assms] by (simp add: ring_at_def fresh_ring_def producer_ok_def consumer_ok_def)

section \<open>The consumer gets through\<close>

fun ring_run :: "ring \<Rightarrow> ring_move list \<Rightarrow> ring_state \<Rightarrow> ring_state option" where
  "ring_run g [] s = Some s"
| "ring_run g (a # as) s = (case ring_act g a s of None \<Rightarrow> None | Some s' \<Rightarrow> ring_run g as s')"

lemma ring_run_append: "ring_run g (as @ bs) s = (case ring_run g as s of None \<Rightarrow> None | Some s' \<Rightarrow> ring_run g bs s')"
  by (induction as arbitrary: s) (auto split: option.splits)

lemma ring_run_reach: "ring_run g as s = Some s' \<Longrightarrow> ring_reach g s0 s \<Longrightarrow> ring_reach g s0 s'"
  by (induction as arbitrary: s) (auto split: option.splits intro: ring_next)

lemma read_bytes:
  assumes "ring_at g s r" "rs_consumer s = CBody r n got"
  shows "\<exists>s'. ring_run g (replicate (n - length got) ReadByte) s = Some s' \<and> ring_at g s' r \<and> rs_consumer s' = CBody r n (rs_sent s ! r) \<and>
     rs_sent s' = rs_sent s \<and> rs_received s' = rs_received s"
  using assms
proof (induction "n - length got" arbitrary: s got)
  case 0
  have c: "n = length (rs_sent s ! r)" "got = take (length got) (rs_sent s ! r)" using ring_atD(7) [OF 0(2)] 0(3) by (auto simp: consumer_ok_def)
  have "length got = length (rs_sent s ! r)" using c 0(1) by (metis diff_is_0_eq le_antisym length_take min.cobounded1)
  then have "got = rs_sent s ! r" "n - length got = 0" using c by auto
  then show ?case using 0 by simp
next
  case (Suc k)
  have lt: "length got < n" using Suc.hyps(2) by simp
  let ?b = "window (slot_ptr g r + 8 + length got) 1 (rs_mem s)"
  let ?s = "s\<lparr>rs_consumer := CBody r n (got @ ?b)\<rparr>"
  have act: "ring_act g ReadByte s = Some ?s" using Suc.prems(2) lt by simp
  have at: "ring_at g ?s r" by (rule read_byte_at [OF Suc.prems(1) act])
  have c: "n = length (rs_sent s ! r)" using ring_atD(7) [OF Suc.prems(1)] Suc.prems(2) by (simp add: consumer_ok_def)
  have b: "length ?b = 1"
    using next_message [OF ring_atD(5) [OF Suc.prems(1)]] ring_atD(7) [OF Suc.prems(1)] Suc.prems(2) lt c window_one
    by (auto simp: consumer_ok_def slot_holds_def)
  have k: "k = n - length (got @ ?b)" using Suc.hyps(2) b by simp
  from Suc.hyps(1) [OF k at] have "\<exists>s'. ring_run g (replicate k ReadByte) ?s = Some s' \<and> ring_at g s' r \<and>
      rs_consumer s' = CBody r n (rs_sent s ! r) \<and> rs_sent s' = rs_sent s \<and> rs_received s' = rs_received s"
    using k by simp
  then show ?case unfolding Suc.hyps(2) [symmetric] using act by simp
qed

lemma pop_completes:
  assumes at: "ring_at g s r" and pc: "rs_consumer s = CIdle" and more: "r < length (rs_sent s)"
  shows "\<exists>s'. ring_run g ([StartPop, ReadLength] @ replicate (length (rs_sent s ! r)) ReadByte @ [Release]) s = Some s' \<and>
     rs_received s' = rs_received s @ [rs_sent s ! r]"
proof -
  note I = ring_atD [OF at]
  let ?m = "rs_sent s ! r"
  obtain s1 where s1: "ring_act g StartPop s = Some s1" "rs_consumer s1 = CLength r" "rs_sent s1 = rs_sent s" "rs_received s1 = rs_received s"
    using pc I(4,10,11) more by (auto simp: Let_def)
  have at1: "ring_at g s1 r" by (rule start_pop_at [OF at s1(1)])
  have n: "min (load_u32 (slot_ptr g r) (rs_mem s1)) (max_message_len g) = length ?m"
    using next_message [OF ring_atD(5) [OF at1]] more s1(3) by (simp add: slot_holds_def)
  obtain s2 where s2: "ring_act g ReadLength s1 = Some s2" "rs_consumer s2 = CBody r (length ?m) []" "rs_sent s2 = rs_sent s" "rs_received s2 = rs_received s"
    using s1 n by auto
  have at2: "ring_at g s2 r" by (rule read_length_at [OF at1 s2(1)])
  from read_bytes [OF at2 s2(2)] obtain s3 where s3: "ring_run g (replicate (length ?m) ReadByte) s2 = Some s3"
      "rs_consumer s3 = CBody r (length ?m) ?m" "rs_received s3 = rs_received s" using s2 by auto
  show ?thesis using s1(1) s2(1) s3 by (simp add: ring_run_append)
qed

section \<open>Calls\<close>

datatype ring_call = RPush bytes | RPop | RDrain nat

datatype ring_result = Pushed "(push_error, unit) outcome" | Popped "bytes option" | Drained "bytes list"

fun serve_ring :: "ring_call \<Rightarrow> producer \<times> consumer \<times> bytes \<Rightarrow> (producer \<times> consumer \<times> bytes) \<times> ring_result" where
  "serve_ring (RPush bs) (p, c, mem) = (case push bs p mem of ((p', mem'), r) \<Rightarrow> ((p', c, mem'), Pushed r))"
| "serve_ring RPop (p, c, mem) = (case pop_with c mem of ((c', mem'), r) \<Rightarrow> ((p, c', mem'), Popped r))"
| "serve_ring (RDrain n) (p, c, mem) = (case drain n c mem of ((c', mem'), ms) \<Rightarrow> ((p, c', mem'), Drained ms))"

fun queue_call :: "nat \<Rightarrow> nat \<Rightarrow> ring_call \<Rightarrow> bytes list \<Rightarrow> bytes list \<times> ring_result" where
  "queue_call cap len (RPush bs) q =
     (if length bs > len then (q, Pushed (Err (TooLarge (length bs) len)))
      else if length q = cap then (q, Pushed (Err RingFull)) else (q @ [bs], Pushed (Ok ())))"
| "queue_call cap len RPop q = (case q of [] \<Rightarrow> ([], Popped None) | m # ms \<Rightarrow> (ms, Popped (Some m)))"
| "queue_call cap len (RDrain n) q = (drop n q, Drained (take n q))"

fun run_all :: "('c \<Rightarrow> 's \<Rightarrow> 's \<times> 'r) \<Rightarrow> 'c list \<Rightarrow> 's \<Rightarrow> 's \<times> 'r list" where
  "run_all f [] s = (s, [])"
| "run_all f (c # cs) s = (case f c s of (s1, r) \<Rightarrow> case run_all f cs s1 of (s2, rs) \<Rightarrow> (s2, r # rs))"

lemma drain_ok:
  assumes "ends_rel g p c mem r msgs" "drain n c mem = ((c', mem'), ms)"
  shows "\<exists>r'. r' + length (drop n msgs) = r + length msgs \<and> ms = take n msgs \<and> ends_rel g p c' mem' r' (drop n msgs)"
  using assms
proof (induction n arbitrary: c mem r msgs ms)
  case (Suc n)
  obtain c1 mem1 res where pop: "pop_with c mem = ((c1, mem1), res)" by (metis surj_pair)
  note P = pop_ok [OF Suc.prems(1) pop]
  show ?case
  proof (cases msgs)
    case Nil
    then show ?thesis using P Suc.prems pop by auto
  next
    case (Cons m tail)
    then have p: "res = Some m" "ends_rel g p c1 mem1 (r + 1) tail" using P by auto
    obtain ms' where d: "drain n c1 mem1 = ((c', mem'), ms')" "ms = m # ms'" using Suc.prems(2) pop p(1) by (auto split: prod.splits)
    from Suc.IH [OF p(2) d(1)] show ?thesis using Cons d(2) by auto
  qed
qed auto

lemma call_ok:
  assumes rel: "ends_rel g p c mem r q" and last: "r + length q + 1 < 2 ^ 64"
    and run: "serve_ring x (p, c, mem) = ((p', c', mem'), res)"
  shows "\<exists>r' q'. queue_call (rg_capacity g) (max_message_len g) x q = (q', res) \<and> ends_rel g p' c' mem' r' q' \<and> r' + length q' \<le> r + length q + 1"
proof (cases x)
  case (RPush bs)
  obtain res' where p: "push bs p mem = ((p', mem'), res')" "c' = c" "res = Pushed res'" using run RPush by (auto split: prod.splits)
  from push_ok [OF rel last p(1)] show ?thesis using p RPush by (auto split: if_splits)
next
  case RPop
  obtain res' where p: "pop_with c mem = ((c', mem'), res')" "p' = p" "res = Popped res'" using run RPop by (auto split: prod.splits)
  from pop_ok [OF rel p(1)] show ?thesis using p RPop by (cases q) auto
next
  case (RDrain n)
  obtain ms where p: "drain n c mem = ((c', mem'), ms)" "p' = p" "res = Drained ms" using run RDrain by (auto split: prod.splits)
  from drain_ok [OF rel p(1)] show ?thesis using p RDrain by auto
qed

lemma calls_ok:
  assumes "ends_rel g p c mem r q" "r + length q + length xs < 2 ^ 64" "run_all serve_ring xs (p, c, mem) = ((p', c', mem'), res)"
  shows "\<exists>r' q'. run_all (queue_call (rg_capacity g) (max_message_len g)) xs q = (q', res) \<and> ends_rel g p' c' mem' r' q'"
  using assms
proof (induction xs arbitrary: p c mem r q res)
  case (Cons x xs)
  obtain p1 c1 mem1 r1 rest where s: "serve_ring x (p, c, mem) = ((p1, c1, mem1), r1)"
      "run_all serve_ring xs (p1, c1, mem1) = ((p', c', mem'), rest)" "res = r1 # rest"
    using Cons.prems(3) by (auto split: prod.splits)
  obtain r' q' where c: "queue_call (rg_capacity g) (max_message_len g) x q = (q', r1)" "ends_rel g p1 c1 mem1 r' q'" "r' + length q' \<le> r + length q + 1"
    using call_ok [OF Cons.prems(1) _ s(1)] Cons.prems(2) by auto
  from Cons.IH [OF c(2) _ s(2)] c(1,3) Cons.prems(2) s(3) show ?case by auto
qed auto

section \<open>Properties\<close>

text \<open>C12: the ring is a bounded queue. Of a ring just created, any sequence of pushes, pops and bounded drains returns exactly what
  a queue of the ring's capacity returns: messages come out whole and in order, a push is refused when the queue holds \<open>capacity\<close>
  messages, a message longer than a slot is refused as too large, and the depth is the length of the queue.\<close>

theorem ring_calls_are_a_bounded_queue:
  assumes "ring_create io file capacity slot_size = (Some mem, Ok g)" "capacity < 2 ^ 32" "slot_size < 2 ^ 32" "length calls < 2 ^ 64"
  shows "case run_all serve_ring calls (into_producer g mem, into_consumer g mem, mem) of ((p, c, mem'), results) \<Rightarrow>
     case run_all (queue_call capacity (slot_size - 8)) calls [] of (q, expected) \<Rightarrow>
       results = expected \<and> depth mem' = length q \<and> length q \<le> capacity"
proof -
  have rel: "ends_rel g (into_producer g mem) (into_consumer g mem) mem 0 []" and m: "g = \<lparr>rg_capacity = capacity, rg_slot_size = slot_size\<rparr>"
    by (rule created_ends [OF assms(1-3)])+
  obtain p c mem' res where run: "run_all serve_ring calls (into_producer g mem, into_consumer g mem, mem) = ((p, c, mem'), res)" by (metis surj_pair)
  obtain r q' where e: "run_all (queue_call (rg_capacity g) (max_message_len g)) calls [] = (q', res)" "ends_rel g p c mem' r q'"
    using calls_ok [OF rel _ run] assms(4) by auto
  have Q: "read_index mem' = r" "write_index mem' = r + length q'" "r + length q' < 2 ^ 64" "length q' \<le> capacity"
    using ring_queueD(3-6) [of g mem' r q'] e(2) m by (auto simp: ends_rel_def)
  then have "depth mem' = length q'" by (simp add: depth_def wrap_sub_u64_exact)
  moreover have "run_all (queue_call capacity (slot_size - 8)) calls [] = (q', res)" using e(1) m by (simp add: max_message_len_def)
  ultimately show ?thesis unfolding run using Q(4) by simp
qed

text \<open>C11: every interleaving of the two ends is a queue. Let the producer and the consumer of a fresh ring take their memory
  accesses in any order, a byte at a time. What the consumer has visited is always a prefix of what the producer has published,
  with every message whole; at most \<open>capacity\<close> messages are outstanding; a message the consumer is in the middle of
  reading is never overwritten; and an idle consumer with something to read gets the next message by its own steps alone.\<close>

theorem ring_interleavings_are_fifo:
  assumes "ring_create io file capacity slot_size = (Some mem, Ok g)" "capacity < 2 ^ 32" "slot_size < 2 ^ 32"
    and "ring_reach g (fresh_ring mem) s" "length (rs_sent s) < 2 ^ 64"
  defines "r \<equiv> length (rs_received s)"
  shows "rs_received s = take r (rs_sent s) \<and> length (rs_sent s) \<le> r + capacity \<and> depth (rs_mem s) = length (rs_sent s) - r \<and>
     (\<forall>v n got. rs_consumer s = CBody v n got \<longrightarrow> got = take (length got) (rs_sent s ! r) \<and> n = length (rs_sent s ! r)) \<and>
     (rs_consumer s = CIdle \<and> r < length (rs_sent s) \<longrightarrow>
        (\<exists>s'. ring_run g ([StartPop, ReadLength] @ replicate (length (rs_sent s ! r)) ReadByte @ [Release]) s = Some s' \<and>
           rs_received s' = rs_received s @ [rs_sent s ! r]))"
proof -
  obtain mem1 where m: "Some mem = Some mem1" "g = \<lparr>rg_capacity = capacity, rg_slot_size = slot_size\<rparr>" "ring_queue g mem1 0 []"
    by (rule created [OF assms(1-3)])
  have "ring_at g (fresh_ring mem) 0" using m by (intro fresh_at) simp
  from ring_reach_at [OF assms(4) this assms(5)] obtain r' where at: "ring_at g s r'" ..
  note I = ring_atD [OF at]
  have r: "r' = r" using I(1,2) by (simp add: r_def)
  have d: "depth (rs_mem s) = length (rs_sent s) - r" using I(2,10-12) r by (simp add: depth_def wrap_sub_u64_exact)
  have c: "length (rs_sent s) \<le> r + capacity" using ring_queueD(6) [OF I(5)] r m(2) by simp
  have b: "got = take (length got) (rs_sent s ! r) \<and> n = length (rs_sent s ! r)" if "rs_consumer s = CBody v n got" for v n got
    using I(7) that r unfolding consumer_ok_def by simp
  show ?thesis using I(1) d c b pop_completes [OF at] r by blast
qed

text \<open>C38: a ring is only handed out over a file that holds it. Whatever the file contains, \<open>open\<close> returns a ring only when
  the header has the magic and version, the capacity is a power of two, the slots are cache-line multiples and the file covers every
  slot, so that no slot access of either end leaves the mapping; and opening what \<open>create\<close> wrote gives the same ring.\<close>

theorem ring_open_is_well_formed:
  "(ring_open io1 io2 (Some b) = Ok g \<longrightarrow> file_size (rg_capacity g) (rg_slot_size g) \<le> length b \<and>
       (\<exists>k < 32. rg_capacity g = 2 ^ k) \<and> rg_slot_size g mod 64 = 0 \<and> load_u64 HDR_MAGIC b = RING_MAGIC \<and> load_u32 HDR_VERSION b = RING_VERSION \<and>
       (\<forall>i. 192 \<le> slot_ptr g i \<and> slot_ptr g i + rg_slot_size g \<le> length b)) \<and>
   (ring_create io file capacity slot_size = (Some b', Ok g') \<and> capacity < 2 ^ 32 \<and> slot_size < 2 ^ 32 \<and>
      io_open io' = None \<and> io_stat io' = None \<and> io_map io' = None \<longrightarrow> ring_open io' io' (Some b') = Ok g')"
proof (intro conjI impI)
  assume o: "ring_open io1 io2 (Some b) = Ok g"
  let ?c = "load_u32 HDR_CAPACITY b" and ?n = "load_u32 HDR_SLOT_SIZE b"
  obtain head m2 where h: "snd (map_file io1 (Some b) HDR_LEN False) = Ok head" "load_u64 HDR_MAGIC head = RING_MAGIC"
      "load_u32 HDR_VERSION head = RING_VERSION" "check_geometry (load_u32 HDR_CAPACITY head) (load_u32 HDR_SLOT_SIZE head) = Ok ()"
      "snd (map_file io2 (Some b) (file_size (load_u32 HDR_CAPACITY head) (load_u32 HDR_SLOT_SIZE head)) False) = Ok m2"
      "g = \<lparr>rg_capacity = load_u32 HDR_CAPACITY head, rg_slot_size = load_u32 HDR_SLOT_SIZE head\<rparr>"
    using o by (auto simp: ring_open_def outcome_simps Let_def split: if_splits)
  have hd: "head = b" "192 \<le> length b" using map_file_Ok(2,3) [of io1 "Some b" HDR_LEN False "fst (map_file io1 (Some b) HDR_LEN False)" head] h(1)
    by (auto simp: prod_eq_iff)
  have sz: "file_size ?c ?n \<le> length b"
    using map_file_Ok(2,3) [of io2 "Some b" "file_size ?c ?n" False "fst (map_file io2 (Some b) (file_size ?c ?n) False)" m2] h(5) hd(1)
    by (auto simp: prod_eq_iff)
  have "?n < 2 ^ 32" using from_le_bound [of "window HDR_SLOT_SIZE 4 b"] hd(2) by (simp add: load_u32_def)
  then have ok: "ring_ok g" using h(4,6) hd(1) by (simp add: ring_ok_def)
  show "file_size (rg_capacity g) (rg_slot_size g) \<le> length b" "load_u64 HDR_MAGIC b = RING_MAGIC" "load_u32 HDR_VERSION b = RING_VERSION"
    using sz h(2,3,6) hd(1) by simp_all
  show "\<exists>k < 32. rg_capacity g = 2 ^ k" "rg_slot_size g mod 64 = 0" by (rule ring_okD [OF ok])+
  show "\<forall>i. 192 \<le> slot_ptr g i \<and> slot_ptr g i + rg_slot_size g \<le> length b"
    using slot_in_file [OF ok] sz h(6) hd(1) by (auto intro: order.trans)
qed (use open_created in blast)

section \<open>A sample ring\<close>

definition sample_io :: ring_io where
  "sample_io = \<lparr>io_open = None, io_truncate = None, io_stat = None, io_map = None\<rparr>"

definition sample_ring :: "bytes" where
  "sample_ring = ring_header_image 2 64 (replicate 320 0)"

lemma sample_created: "ring_create sample_io None 2 64 = (Some sample_ring, Ok \<lparr>rg_capacity = 2, rg_slot_size = 64\<rparr>)"
proof -
  have "check_geometry 2 64 = Ok ()" by code_simp
  moreover have "set_len 320 [] = replicate 320 0" by (simp add: set_len_def)
  ultimately show ?thesis by (simp add: ring_create_def map_file_def sample_io_def syscall_def file_size_def sample_ring_def Let_def)
qed

theorem ring_calls_are_a_bounded_queue_witness:
  "snd (run_all serve_ring [RPush [7, 8], RPush [9], RPush [1], RPop, RDrain 3]
     (into_producer \<lparr>rg_capacity = 2, rg_slot_size = 64\<rparr> sample_ring, into_consumer \<lparr>rg_capacity = 2, rg_slot_size = 64\<rparr> sample_ring, sample_ring)) =
   [Pushed (Ok ()), Pushed (Ok ()), Pushed (Err RingFull), Popped (Some [7, 8]), Drained [[9]]]"
proof -
  let ?calls = "[RPush [7, 8], RPush [9], RPush [1], RPop, RDrain 3]"
  have "snd (run_all (queue_call 2 (64 - 8)) ?calls []) = [Pushed (Ok ()), Pushed (Ok ()), Pushed (Err RingFull), Popped (Some [7, 8]), Drained [[9]]]"
    by simp
  then show ?thesis using ring_calls_are_a_bounded_queue [OF sample_created, of ?calls] by (auto split: prod.splits)
qed

theorem ring_interleavings_are_fifo_witness:
  "\<exists>s s'. ring_reach \<lparr>rg_capacity = 2, rg_slot_size = 64\<rparr> (fresh_ring sample_ring) s \<and> length (rs_sent s) = 1 \<and>
     ring_run \<lparr>rg_capacity = 2, rg_slot_size = 64\<rparr> ([StartPop, ReadLength] @ replicate (length (rs_sent s ! 0)) ReadByte @ [Release]) s = Some s' \<and>
     rs_received s' = rs_sent s"
proof -
  let ?g = "\<lparr>rg_capacity = 2, rg_slot_size = 64\<rparr>" and ?moves = "[StartPush, FillByte 0 7, WriteLength 1, Publish]"
  have i: "write_index sample_ring = 0" "read_index sample_ring = 0"
    using ring_header_fields(5,6) [of "replicate 320 0" 2 64] by (simp_all add: sample_ring_def)
  obtain s where s: "ring_run ?g ?moves (fresh_ring sample_ring) = Some s" "length (rs_sent s) = 1" "rs_received s = []" "rs_consumer s = CIdle"
    by (simp add: fresh_ring_def i Let_def max_message_len_def wrap_sub_u64_exact)
  have r: "ring_reach ?g (fresh_ring sample_ring) s" by (rule ring_run_reach [OF s(1) ring_start])
  obtain m where m: "rs_sent s = [m]" using s(2) by (auto simp: length_Suc_conv)
  have "\<exists>s'. ring_run ?g ([StartPop, ReadLength] @ replicate (length (rs_sent s ! 0)) ReadByte @ [Release]) s = Some s' \<and> rs_received s' = [m]"
    using ring_interleavings_are_fifo [OF sample_created _ _ r] s(3,4) m by (simp del: ring_run.simps)
  then show ?thesis using r s(2) m by metis
qed

theorem ring_open_is_well_formed_witness:
  "ring_open sample_io sample_io (Some sample_ring) = Ok \<lparr>rg_capacity = 2, rg_slot_size = 64\<rparr> \<and> 320 \<le> length sample_ring"
  using ring_open_is_well_formed [of sample_io sample_io sample_ring "\<lparr>rg_capacity = 2, rg_slot_size = 64\<rparr>" sample_io None 2 64 sample_ring "\<lparr>rg_capacity = 2, rg_slot_size = 64\<rparr>" sample_io]
    sample_created by (simp add: sample_io_def file_size_def)

end
