(* ===== verification/OrderPath.thy ===== *)
theory OrderPath
  imports RingQueue OrderCodec Matching
begin

text \<open>
  The engine's end of the order path, \<open>crates/matching-engine/src/orderpath.rs\<close>: requests come in over one
  shared-memory ring, execution reports go out over another. The memory of both rings is part of the
  state; the peer's steps happen between calls of \<open>pump\<close>.
\<close>

section \<open>State\<close>

abbreviation (input) ORDERS_PER_PASS :: nat where "ORDERS_PER_PASS \<equiv> 64"
abbreviation (input) MAX_OWNED :: nat where "MAX_OWNED \<equiv> 4096"
abbreviation (input) MAX_FILLS :: nat where "MAX_FILLS \<equiv> 32"
abbreviation (input) MAX_PASSIVE :: nat where "MAX_PASSIVE \<equiv> 32"
abbreviation (input) SCRATCH_LEN :: nat where "SCRATCH_LEN \<equiv> 256"

record order_path_stats =
  ps_orders_received :: nat
  ps_cancels_received :: nat
  ps_fills_reported :: nat
  ps_acks_reported :: nat
  ps_cancels_reported :: nat
  ps_rejects_reported :: nat
  ps_reconciles_answered :: nat
  ps_orders_named_in_reconciliation :: nat
  ps_reports_dropped :: nat

record owned =
  ow_exchange_order_id :: nat
  ow_client_order_id :: nat

record order_path =
  op_orders :: consumer
  op_orders_mem :: bytes
  op_reports :: producer
  op_reports_mem :: bytes
  op_stats :: order_path_stats
  op_scratch :: bytes
  op_owned :: "owned list"
  op_to_watch :: "nat list"
  op_finished :: "nat list"

definition OrderPath_open :: "ring_io \<times> ring_io \<Rightarrow> bytes \<Rightarrow> ring_io \<times> ring_io \<Rightarrow> bytes \<Rightarrow> (ring_error, order_path) outcome" where
  "OrderPath_open io_orders orders_file io_reports reports_file =
     obind (ring_open (fst io_orders) (snd io_orders) (Some orders_file)) (\<lambda>orders.
     obind (ring_open (fst io_reports) (snd io_reports) (Some reports_file)) (\<lambda>reports.
     Ok \<lparr>op_orders = into_consumer orders orders_file, op_orders_mem = orders_file,
         op_reports = into_producer reports reports_file, op_reports_mem = reports_file,
         op_stats = \<lparr>ps_orders_received = 0, ps_cancels_received = 0, ps_fills_reported = 0, ps_acks_reported = 0,
           ps_cancels_reported = 0, ps_rejects_reported = 0, ps_reconciles_answered = 0,
           ps_orders_named_in_reconciliation = 0, ps_reports_dropped = 0\<rparr>,
         op_scratch = replicate SCRATCH_LEN 0, op_owned = [], op_to_watch = [], op_finished = []\<rparr>))"

section \<open>Reports\<close>

definition on_path_stats :: "(order_path_stats \<Rightarrow> order_path_stats) \<Rightarrow> order_path \<Rightarrow> order_path" where
  "on_path_stats f op = op\<lparr>op_stats := f (op_stats op)\<rparr>"

definition count_dropped :: "nat \<Rightarrow> order_path \<Rightarrow> order_path" where
  "count_dropped n = on_path_stats (\<lambda>s. s\<lparr>ps_reports_dropped := wrap_add_u64 (ps_reports_dropped s) n\<rparr>)"

definition push_report :: "bytes \<Rightarrow> order_path \<Rightarrow> order_path \<times> (push_error, unit) outcome" where
  "push_report bs op =
     (case push bs (op_reports op) (op_reports_mem op) of
        ((p, mem), r) \<Rightarrow> (op\<lparr>op_reports := p, op_reports_mem := mem\<rparr>, r))"

definition op_emit :: "nat \<Rightarrow> nat \<Rightarrow> nat \<Rightarrow> int \<Rightarrow> nat \<Rightarrow> nat \<Rightarrow> nat \<Rightarrow> side \<Rightarrow> exec_type \<Rightarrow> reject_reason \<Rightarrow>
    (order_path, io_error, unit) mut_method" where
  "op_emit client_order_id exchange_order_id trade_id price quantity leaves_quantity symbol_id side exec_type reject_reason op =
     (case encode_exec_report (op_scratch op) client_order_id exchange_order_id trade_id price quantity leaves_quantity
             symbol_id side exec_type reject_reason of
        Ok (n, scratch) \<Rightarrow>
          (case push_report (take n scratch) (op\<lparr>op_scratch := scratch\<rparr>) of
             (op', Ok _) \<Rightarrow> (op', Ok ())
           | (op', Err _) \<Rightarrow> (count_dropped 1 op', Ok ())
           | (op', Panic) \<Rightarrow> (op', Panic))
      | Err _ \<Rightarrow> (count_dropped 1 op, Ok ())
      | Panic \<Rightarrow> (op, Panic))"

definition emit_reject :: "nat \<Rightarrow> nat \<Rightarrow> side \<Rightarrow> reject_reason \<Rightarrow> (order_path, io_error, unit) mut_method" where
  "emit_reject client_order_id symbol_id side reason =
     sbind (op_emit client_order_id 0 0 0 0 0 symbol_id side Rejected reason) (\<lambda>_.
     supdate (on_path_stats (\<lambda>s. s\<lparr>ps_rejects_reported := wrap_add_u64 (ps_rejects_reported s) 1\<rparr>)))"

definition count_fill :: "order_path \<Rightarrow> order_path" where
  "count_fill = on_path_stats (\<lambda>s. s\<lparr>ps_fills_reported := wrap_add_u64 (ps_fills_reported s) 1\<rparr>)"

definition forget_owned :: "nat \<Rightarrow> order_path \<Rightarrow> order_path" where
  "forget_owned i op = op\<lparr>op_owned := filter (\<lambda>x. ow_exchange_order_id x \<noteq> i) (op_owned op),
     op_finished := op_finished op @ [i]\<rparr>"

definition report_passive_fill :: "passive_fill \<Rightarrow> (order_path, io_error, unit) mut_method" where
  "report_passive_fill f op =
     (case find (\<lambda>x. ow_exchange_order_id x = pf_resting_order_id f) (op_owned op) of
        None \<Rightarrow> (count_dropped 1 op, Ok ())
      | Some x \<Rightarrow>
          sbind (op_emit (ow_client_order_id x) (pf_resting_order_id f) (pf_trade_id f) (pf_price f) (pf_quantity f)
                   (pf_leaves f) (pf_symbol_id f) (pf_side f) (if pf_leaves f = 0 then Fill else PartialFill) NotRejected) (\<lambda>_.
          sbind (supdate count_fill) (\<lambda>_.
          supdate (\<lambda>op. if pf_leaves f = 0 then forget_owned (pf_resting_order_id f) op else op))) op)"

fun for_each :: "('a \<Rightarrow> ('s, 'e, unit) mut_method) \<Rightarrow> 'a list \<Rightarrow> ('s, 'e, unit) mut_method" where
  "for_each f [] = sreturn ()"
| "for_each f (x # xs) = sbind (f x) (\<lambda>_. for_each f xs)"

section \<open>Requests\<close>

type_synonym 'a path_op = "(order_path \<times> engine \<times> feed_publisher, io_error, 'a) mut_method"

definition on_path :: "(order_path, io_error, 'a) mut_method \<Rightarrow> 'a path_op" where
  "on_path m st = (case st of (op, ef) \<Rightarrow> case m op of (op', r) \<Rightarrow> ((op', ef), r))"

definition on_engine_feed :: "'a engine_op \<Rightarrow> 'a path_op" where
  "on_engine_feed m st = (case st of (op, ef) \<Rightarrow> case m ef of (ef', r) \<Rightarrow> ((op, ef'), r))"

definition field :: "(wire_error, 'a) outcome \<Rightarrow> 'a path_op" where
  "field r = slift (map_err IoWire r)"

text \<open>The reports of the recorded fills; \<open>overflowed\<close> counts those beyond the array.\<close>

definition report_fills :: "nat \<Rightarrow> nat \<Rightarrow> nat \<Rightarrow> side \<Rightarrow> fill list \<Rightarrow> nat \<Rightarrow> (order_path, io_error, unit) mut_method" where
  "report_fills client_order_id order_id symbol_id side fills overflowed =
     for_each (\<lambda>(i, f).
       sbind (op_emit client_order_id order_id (fl_trade_id f) (fl_price f) (fl_quantity f) (fl_leaves f) symbol_id side
                (if i + 1 = length fills \<and> fl_leaves f = 0 \<and> overflowed = 0 then Fill else PartialFill) NotRejected) (\<lambda>_.
       supdate count_fill)) (enumerate 0 fills)"

definition remember_owned :: "nat \<Rightarrow> nat \<Rightarrow> order_path \<Rightarrow> order_path" where
  "remember_owned order_id client_order_id op =
     (if length (op_owned op) < MAX_OWNED
      then op\<lparr>op_owned := op_owned op @ [\<lparr>ow_exchange_order_id = order_id, ow_client_order_id = client_order_id\<rparr>],
              op_to_watch := op_to_watch op @ [order_id]\<rparr>
      else count_dropped 1 op)"

definition report_submit :: "nat \<Rightarrow> nat \<Rightarrow> side \<Rightarrow> int \<Rightarrow> nat \<Rightarrow> submit_outcome \<Rightarrow> fill list \<Rightarrow> (order_path, io_error, unit) mut_method" where
  "report_submit client_order_id symbol_id side price quantity out fills =
     (let recorded = take MAX_FILLS fills; overflowed = length fills - MAX_FILLS in
      sbind (report_fills client_order_id (su_order_id out) symbol_id side recorded overflowed) (\<lambda>_.
      sbind (supdate (\<lambda>op. if overflowed > 0 then count_dropped overflowed op else op)) (\<lambda>_.
      if su_resting out > 0
      then sbind (supdate (remember_owned (su_order_id out) client_order_id)) (\<lambda>_.
           sbind (op_emit client_order_id (su_order_id out) 0 price quantity (su_resting out) symbol_id side Acknowledged NotRejected) (\<lambda>_.
           supdate (on_path_stats (\<lambda>s. s\<lparr>ps_acks_reported := wrap_add_u64 (ps_acks_reported s) 1\<rparr>))))
      else sreturn ())))"

definition on_new_order :: "decoder \<Rightarrow> unit path_op" where
  "on_new_order d =
     sbind (on_path (supdate (on_path_stats (\<lambda>s. s\<lparr>ps_orders_received := wrap_add_u64 (ps_orders_received s) 1\<rparr>)))) (\<lambda>_.
     sbind (field (NewOrder_client_order_id d)) (\<lambda>client_order_id.
     sbind (field (NewOrder_symbol_id d)) (\<lambda>symbol_id.
     case NewOrder_side d of
       Panic \<Rightarrow> field Panic
     | Err _ \<Rightarrow> on_path (emit_reject client_order_id symbol_id Bid UnknownSymbol)
     | Ok side \<Rightarrow>
         sbind (field (NewOrder_price d)) (\<lambda>price.
         sbind (field (NewOrder_quantity d)) (\<lambda>quantity.
         sbind (on_engine_feed (submit_reported (\<lambda>_ _. Ok ()) symbol_id side price quantity False)) (\<lambda>(out, fills).
         on_path (report_submit client_order_id symbol_id side price quantity out fills)))))))"

definition on_cancel :: "decoder \<Rightarrow> unit path_op" where
  "on_cancel d =
     sbind (on_path (supdate (on_path_stats (\<lambda>s. s\<lparr>ps_cancels_received := wrap_add_u64 (ps_cancels_received s) 1\<rparr>)))) (\<lambda>_.
     sbind (field (CancelOrder_client_order_id d)) (\<lambda>client_order_id.
     sbind (field (CancelOrder_orig_client_order_id d)) (\<lambda>orig.
     sbind (field (CancelOrder_symbol_id d)) (\<lambda>symbol_id.
     sbind (field (case CancelOrder_side d of Err _ \<Rightarrow> Ok Bid | r \<Rightarrow> r)) (\<lambda>side.
     sbind (on_engine_feed (cancel_reported (\<lambda>_ _. Ok ()) symbol_id orig)) (\<lambda>r.
     case r of
       Some remaining \<Rightarrow>
         sbind (on_path (supdate (forget_owned orig))) (\<lambda>_.
         sbind (on_path (op_emit client_order_id orig 0 0 remaining 0 symbol_id side Canceled NotRejected)) (\<lambda>_.
         on_path (supdate (on_path_stats (\<lambda>s. s\<lparr>ps_cancels_reported := wrap_add_u64 (ps_cancels_reported s) 1\<rparr>)))))
     | None \<Rightarrow>
         sbind (on_path (op_emit client_order_id orig 0 0 0 0 symbol_id side Rejected UnknownOrderReason)) (\<lambda>_.
         on_path (supdate (on_path_stats (\<lambda>s. s\<lparr>ps_rejects_reported := wrap_add_u64 (ps_rejects_reported s) 1\<rparr>))))))))))"

text \<open>\<open>books.for_each_symbol\<close> with the first hit kept.\<close>

fun find_resting :: "refbook books \<Rightarrow> nat \<Rightarrow> (nat \<times> resting_order) option" where
  "find_resting [] i = None"
| "find_resting ((symbol_id, book) # bks) i =
     (case rb_get book i of Some x \<Rightarrow> Some (symbol_id, x) | None \<Rightarrow> find_resting bks i)"

text \<open>\<open>owned.retain\<close>: what is kept, and how many orders were named and how many reports dropped.\<close>

fun retain_owned :: "refbook books \<Rightarrow> owned list \<Rightarrow> (order_path, io_error, owned list \<times> nat \<times> nat) mut_method" where
  "retain_owned bks [] = sreturn ([], 0, 0)"
| "retain_owned bks (x # xs) =
     (case find_resting bks (ow_exchange_order_id x) of
        None \<Rightarrow> retain_owned bks xs
      | Some (symbol_id, r) \<Rightarrow>
          sbind (\<lambda>op. case encode_exec_report (op_scratch op) (ow_client_order_id x) (ow_exchange_order_id x) 0 (ro_price r)
                   (ro_quantity r) (ro_quantity r) symbol_id (ro_side r) OrderStatus NotRejected of
               Ok (n, scratch) \<Rightarrow>
                 (case push_report (take n scratch) (op\<lparr>op_scratch := scratch\<rparr>) of
                    (op', Ok _) \<Rightarrow> (op', Ok (1, 0))
                  | (op', Err _) \<Rightarrow> (op', Ok (0, 1))
                  | (op', Panic) \<Rightarrow> (op', Panic))
             | Err _ \<Rightarrow> (op, Ok (0, 1))
             | Panic \<Rightarrow> (op, Panic)) (\<lambda>(n, l).
          sbind (retain_owned bks xs) (\<lambda>(kept, named, dropped). sreturn (x # kept, n + named, l + dropped))))"

definition on_reconcile :: "decoder \<Rightarrow> unit path_op" where
  "on_reconcile d =
     sbind (on_path (supdate (on_path_stats (\<lambda>s. s\<lparr>ps_reconciles_answered := wrap_add_u64 (ps_reconciles_answered s) 1\<rparr>)))) (\<lambda>_.
     sbind (field (ReconcileRequest_request_id d)) (\<lambda>request_id.
     sbind (\<lambda>(op, e, fp). on_path (retain_owned (en_books e) (op_owned op)) (op, e, fp)) (\<lambda>(kept, named, dropped).
     sbind (on_path (supdate (\<lambda>op. count_dropped dropped (on_path_stats (\<lambda>s. s\<lparr>ps_orders_named_in_reconciliation :=
              wrap_add_u64 (ps_orders_named_in_reconciliation s) named\<rparr>) (op\<lparr>op_owned := kept\<rparr>))))) (\<lambda>_.
     on_path (op_emit request_id 0 0 0 (min named u32_max) 0 0 Bid StatusComplete NotRejected)))))"

definition dispatch :: "bytes \<Rightarrow> unit path_op" where
  "dispatch bs st =
     (case decode_order_path_message bs of
        Err _ \<Rightarrow> on_path (supdate (count_dropped 1)) st
      | Panic \<Rightarrow> (st, Panic)
      | Ok (NewOrder d) \<Rightarrow> on_new_order d st
      | Ok (CancelOrder d) \<Rightarrow> on_cancel d st
      | Ok (ReconcileRequest d) \<Rightarrow> on_reconcile d st
      | Ok (ExecReport _) \<Rightarrow> (st, Ok ()))"

fun pump_loop :: "nat \<Rightarrow> nat path_op" where
  "pump_loop 0 st = (st, Ok 0)"
| "pump_loop (Suc n) (op, ef) =
     (case pop_with (op_orders op) (op_orders_mem op) of
        ((c, mem), None) \<Rightarrow> ((op\<lparr>op_orders := c, op_orders_mem := mem\<rparr>, ef), Ok 0)
      | ((c, mem), Some bs) \<Rightarrow>
          sbind (dispatch (take SCRATCH_LEN bs)) (\<lambda>_. sbind (pump_loop n) (\<lambda>handled. sreturn (Suc handled)))
            (op\<lparr>op_orders := c, op_orders_mem := mem\<rparr>, ef))"

definition apply_watches :: "order_path \<Rightarrow> engine \<Rightarrow> engine" where
  "apply_watches op e = fold unwatch_order (op_finished op) (fold watch_order (op_to_watch op) e)"

definition pump :: "nat path_op" where
  "pump st =
     (case st of (op, e, fp) \<Rightarrow>
      case take_passive_fills (apply_watches op e) of (e', passive) \<Rightarrow>
        sbind (on_path (for_each report_passive_fill (take MAX_PASSIVE passive))) (\<lambda>_.
        sbind (on_path (supdate (\<lambda>op. let overflow = length passive - MAX_PASSIVE in
                 if overflow > 0 then count_dropped overflow op else op))) (\<lambda>_.
        pump_loop ORDERS_PER_PASS))
        (op\<lparr>op_to_watch := [], op_finished := []\<rparr>, e', fp))"

end
