(* ===== verification/OrderDesk.thy ===== *)
theory OrderDesk
  imports OrderPath
begin

text \<open>
  What the order path promises: a desk that serves typed requests against the abstract books and puts
  typed reports on a bounded queue, and the refinement of it by \<open>pump\<close> over bytes, rings and the engine.
\<close>

section \<open>The desk\<close>

record desk =
  dk_books :: spec_books
  dk_order_id :: nat
  dk_trade_id :: nat
  dk_owned :: "owned list"
  dk_reports :: "order_event list"
  dk_dropped :: nat
  dk_watched :: "nat list"
  dk_to_watch :: "nat list"
  dk_finished :: "nat list"

definition dk_drop :: "nat \<Rightarrow> desk \<Rightarrow> desk" where
  "dk_drop n d = d\<lparr>dk_dropped := wrap_add_u64 (dk_dropped d) n\<rparr>"

definition dk_post :: "nat \<Rightarrow> order_event \<Rightarrow> desk \<Rightarrow> desk" where
  "dk_post cap r d = (if length (dk_reports d) < cap then d\<lparr>dk_reports := dk_reports d @ [r]\<rparr> else dk_drop 1 d)"

fun trade_ids :: "nat \<Rightarrow> nat \<Rightarrow> nat list" where
  "trade_ids t 0 = []"
| "trade_ids t (Suc n) = t # trade_ids (wrap_add_u64 t 1) n"

definition trade_id_after :: "nat \<Rightarrow> nat \<Rightarrow> nat" where
  "trade_id_after t n = ((\<lambda>t. wrap_add_u64 t 1) ^^ n) t"

definition alloc_fills :: "nat \<Rightarrow> (resting_order \<times> nat \<times> nat) list \<Rightarrow> fill list" where
  "alloc_fills t al = map2 (\<lambda>t a. \<lparr>fl_trade_id = t, fl_price = ro_price (fst a), fl_quantity = fst (snd a), fl_leaves = snd (snd a)\<rparr>)
     (trade_ids t (length al)) al"

text \<open>The reports of the first 32 fills; only the one that ends the order is a \<open>Fill\<close>.\<close>

definition fill_reports :: "nat \<Rightarrow> nat \<Rightarrow> nat \<Rightarrow> side \<Rightarrow> fill list \<Rightarrow> order_event list" where
  "fill_reports c oid y s fills = map (\<lambda>(i, f). OpExec c oid (fl_trade_id f) (fl_price f) (fl_quantity f) (fl_leaves f) y s
     (if i + 1 = length fills \<and> fl_leaves f = 0 then Fill else PartialFill) NotRejected) (enumerate 0 (take 32 fills))"

definition published :: "feed_event list \<Rightarrow> spec_books \<Rightarrow> spec_books" where
  "published new sp = (case ofold spec_apply new sp of Ok sp' \<Rightarrow> sp' | _ \<Rightarrow> sp)"

definition resting_at :: "spec_books \<Rightarrow> nat \<Rightarrow> (nat \<times> resting_order) option" where
  "resting_at sp i = (case find (\<lambda>y. spec_get i (sp y) \<noteq> None) [0..<65536] of
     None \<Rightarrow> None | Some y \<Rightarrow> map_option (Pair y) (spec_get i (sp y)))"

definition status_report :: "spec_books \<Rightarrow> owned \<Rightarrow> order_event list" where
  "status_report sp x = (case resting_at sp (ow_exchange_order_id x) of
     None \<Rightarrow> []
   | Some (y, r) \<Rightarrow> [OpExec (ow_client_order_id x) (ow_exchange_order_id x) 0 (ro_price r) (ro_quantity r) (ro_quantity r)
       y (ro_side r) OrderStatus NotRejected])"

definition dk_own :: "nat \<Rightarrow> nat \<Rightarrow> desk \<Rightarrow> desk" where
  "dk_own oid c d =
     (if length (dk_owned d) < 4096
      then d\<lparr>dk_owned := dk_owned d @ [\<lparr>ow_exchange_order_id = oid, ow_client_order_id = c\<rparr>], dk_to_watch := dk_to_watch d @ [oid]\<rparr>
      else dk_drop 1 d)"

definition dk_forget :: "nat \<Rightarrow> desk \<Rightarrow> desk" where
  "dk_forget i d = d\<lparr>dk_owned := filter (\<lambda>x. ow_exchange_order_id x \<noteq> i) (dk_owned d), dk_finished := dk_finished d @ [i]\<rparr>"

fun desk_serve :: "nat \<Rightarrow> order_event \<Rightarrow> desk \<Rightarrow> desk" where
  "desk_serve cap (OpNew c p q y s) d =
     (let opp = spec_queue (opposite s) (dk_books d y); al = allocate q (crossing s p opp); oid = dk_order_id d;
          left = q - total_quantity (crossing s p opp); fills = alloc_fills (dk_trade_id d) al;
          d1 = d\<lparr>dk_books := published (submit_events (dk_trade_id d) y s p oid q opp) (dk_books d),
                 dk_order_id := oid + 1, dk_trade_id := trade_id_after (dk_trade_id d) (length al)\<rparr>;
          d2 = dk_drop (length fills - 32) (fold (dk_post cap) (fill_reports c oid y s fills) d1)
      in if left > 0 then dk_post cap (OpExec c oid 0 p q left y s Acknowledged NotRejected) (dk_own oid c d2) else d2)"
| "desk_serve cap (OpCancel c i y s) d =
     (case spec_get i (dk_books d y) of
        Some x \<Rightarrow> dk_post cap (OpExec c i 0 0 (ro_quantity x) 0 y s Canceled NotRejected)
          (dk_forget i (d\<lparr>dk_books := published [EvDelete i y (ro_side x)] (dk_books d)\<rparr>))
      | None \<Rightarrow> dk_post cap (OpExec c i 0 0 0 0 y s Rejected UnknownOrderReason) d)"
| "desk_serve cap (OpReconcile i) d =
     (let reports = concat (map (status_report (dk_books d)) (dk_owned d));
          d' = fold (dk_post cap) reports (d\<lparr>dk_owned := filter (\<lambda>x. resting_at (dk_books d) (ow_exchange_order_id x) \<noteq> None) (dk_owned d)\<rparr>)
      in dk_post cap (OpExec i 0 0 0 (length (dk_reports d') - length (dk_reports d)) 0 0 Bid StatusComplete NotRejected) d')"
| "desk_serve cap (OpExec c x t p q l y s e r) d = d"

definition desk_passive :: "nat \<Rightarrow> passive_fill \<Rightarrow> desk \<Rightarrow> desk" where
  "desk_passive cap f d =
     (case find (\<lambda>x. ow_exchange_order_id x = pf_resting_order_id f) (dk_owned d) of
        None \<Rightarrow> dk_drop 1 d
      | Some x \<Rightarrow>
          let d' = dk_post cap (OpExec (ow_client_order_id x) (pf_resting_order_id f) (pf_trade_id f) (pf_price f) (pf_quantity f)
                     (pf_leaves f) (pf_symbol_id f) (pf_side f) (if pf_leaves f = 0 then Fill else PartialFill) NotRejected) d
          in if pf_leaves f = 0 then dk_forget (pf_resting_order_id f) d' else d')"

definition desk_watch :: "desk \<Rightarrow> desk" where
  "desk_watch d = d\<lparr>dk_watched := fold remove1 (dk_finished d)
       (fold (\<lambda>i w. if i \<in> set w then w else insort i w) (dk_to_watch d) (dk_watched d)), dk_to_watch := [], dk_finished := []\<rparr>"

definition desk_pass :: "nat \<Rightarrow> passive_fill list \<Rightarrow> order_event list \<Rightarrow> desk \<Rightarrow> desk" where
  "desk_pass cap passive requests d =
     fold (desk_serve cap) (take 64 requests)
       (dk_drop (length passive - 32) (fold (desk_passive cap) (take 32 passive) (desk_watch d)))"

section \<open>The relation\<close>

definition inbox :: "order_path \<Rightarrow> order_event list \<Rightarrow> bool" where
  "inbox op requests \<longleftrightarrow> (\<exists>g p r. ends_rel g p (op_orders op) (op_orders_mem op) r (map order_event_image requests))"

definition outbox :: "nat \<Rightarrow> nat \<Rightarrow> order_path \<Rightarrow> order_event list \<Rightarrow> bool" where
  "outbox cap n op reports \<longleftrightarrow> (\<exists>g c r. ends_rel g (op_reports op) c (op_reports_mem op) r (map order_event_image reports) \<and>
     rg_capacity g = cap \<and> r + length reports + n < 2 ^ 64)"

text \<open>\<open>n\<close> bounds the reports still to be posted, so that the ring's index does not wrap.\<close>

definition path_rel :: "nat \<Rightarrow> nat \<Rightarrow> desk \<Rightarrow> order_path \<Rightarrow> bool" where
  "path_rel cap n d op \<longleftrightarrow> outbox cap n op (dk_reports d) \<and> length (op_scratch op) = 256 \<and> op_owned op = dk_owned d \<and>
     length (dk_owned d) \<le> 4096 \<and> ps_reports_dropped (op_stats op) = dk_dropped d \<and> dk_dropped d \<le> u64_max \<and>
     op_to_watch op = dk_to_watch d \<and> op_finished op = dk_finished d"

definition same_inbox :: "order_path \<Rightarrow> order_path \<Rightarrow> bool" where
  "same_inbox op op' \<longleftrightarrow> op_orders op' = op_orders op \<and> op_orders_mem op' = op_orders_mem op"

lemma same_inbox_simps [simp]:
  "same_inbox op op" "same_inbox a b \<Longrightarrow> inbox b rs = inbox a rs" "same_inbox op (on_path_stats f op) "
  "same_inbox op (count_dropped n op)"
  by (auto simp: same_inbox_def inbox_def on_path_stats_def count_dropped_def)

lemma same_inbox_trans [trans]: "same_inbox a b \<Longrightarrow> same_inbox b c \<Longrightarrow> same_inbox a c"
  by (simp add: same_inbox_def)

definition engine_part :: "rat \<times> drop_mode \<Rightarrow> nat \<Rightarrow> desk \<Rightarrow> engine \<times> feed_publisher \<Rightarrow> feed_event list \<Rightarrow> bool" where
  "engine_part cfg k d ef evs \<longleftrightarrow> engine_inv cfg ef evs (dk_books d) \<and> small_books k (fst ef) evs (dk_books d) \<and>
     en_next_order_id (fst ef) = dk_order_id d \<and> en_next_trade_id (fst ef) = dk_trade_id d \<and> en_watched (fst ef) = dk_watched d"

lemma path_rel_less: "path_rel cap n d op \<Longrightarrow> m \<le> n \<Longrightarrow> path_rel cap m d op"
  by (fastforce simp: path_rel_def outbox_def)

lemma count_dropped_rel: "path_rel cap n d op \<Longrightarrow> path_rel cap n (dk_drop m d) (count_dropped m op)"
  by (auto simp: path_rel_def outbox_def count_dropped_def on_path_stats_def dk_drop_def)

lemma on_path_stats_rel:
  "path_rel cap n d op \<Longrightarrow> (\<And>s. ps_reports_dropped (f s) = ps_reports_dropped s) \<Longrightarrow> path_rel cap n d (on_path_stats f op)"
  by (auto simp: path_rel_def outbox_def on_path_stats_def)

lemma post_desk_other [simp]:
  "dk_books (dk_post cap r d) = dk_books d" "dk_order_id (dk_post cap r d) = dk_order_id d" "dk_trade_id (dk_post cap r d) = dk_trade_id d"
  "dk_owned (dk_post cap r d) = dk_owned d" "dk_to_watch (dk_post cap r d) = dk_to_watch d" "dk_finished (dk_post cap r d) = dk_finished d"
  "dk_watched (dk_post cap r d) = dk_watched d"
  by (simp_all add: dk_post_def dk_drop_def)

text \<open>A slot of any ring the geometry check admits holds an execution report.\<close>

lemma report_fits: "ring_ok g \<Longrightarrow> 56 \<le> max_message_len g"
proof -
  assume "ring_ok g"
  then have "64 dvd rg_slot_size g" "8 < rg_slot_size g" using ring_okD(3,4) by (auto simp: mod_eq_0_iff_dvd)
  then show ?thesis by (auto simp: max_message_len_def dest: dvd_imp_le)
qed

lemma push_report_ok:
  assumes o: "outbox cap (Suc n) op reports" and run: "push_report (order_event_image ev) op = (op', r)" and len: "order_event_len ev \<le> 56"
  shows "if length reports < cap then r = Ok () \<and> outbox cap n op' (reports @ [ev])
     else r = Err RingFull \<and> outbox cap n op' reports"
    and "\<exists>p mem. op' = op\<lparr>op_reports := p, op_reports_mem := mem\<rparr>"
proof -
  obtain g c i where e: "ends_rel g (op_reports op) c (op_reports_mem op) i (map order_event_image reports)" "rg_capacity g = cap"
      "i + length reports + Suc n < 2 ^ 64" using o by (auto simp: outbox_def)
  obtain p mem where p: "push (order_event_image ev) (op_reports op) (op_reports_mem op) = ((p, mem), r)"
      "op' = op\<lparr>op_reports := p, op_reports_mem := mem\<rparr>" using run by (auto simp: push_report_def split: prod.splits)
  have g: "ring_ok g" "length reports \<le> cap" using e(1,2) by (auto simp: ends_rel_def ring_queue_def)
  have fit: "\<not> max_message_len g < length (order_event_image ev)" using report_fits [OF g(1)] len by simp
  have "i + length (map order_event_image reports) + 1 < 2 ^ 64" using e(3) by simp
  from push_ok [OF e(1) this p(1)] fit e(2)
  have r: "if length reports = cap then r = Err RingFull \<and> ends_rel g p c mem i (map order_event_image reports)
     else r = Ok () \<and> ends_rel g p c mem i (map order_event_image reports @ [order_event_image ev])" by auto
  show "\<exists>p mem. op' = op\<lparr>op_reports := p, op_reports_mem := mem\<rparr>" using p(2) by blast
  show "if length reports < cap then r = Ok () \<and> outbox cap n op' (reports @ [ev])
     else r = Err RingFull \<and> outbox cap n op' reports"
  proof (cases "length reports = cap")
    case True
    have "i + length reports + n < 2 ^ 64" using e(3) by simp
    then have "outbox cap n op' reports" using r True e(2) unfolding outbox_def p(2) by (intro exI conjI) auto
    then show ?thesis using r True by simp
  next
    case False
    have "i + length (reports @ [ev]) + n < 2 ^ 64" using e(3) by simp
    then have "outbox cap n op' (reports @ [ev])" using r False e(2) unfolding outbox_def p(2) by (intro exI conjI) auto
    then show ?thesis using r False g(2) by simp
  qed
qed

text \<open>Encoding into the scratch buffer and pushing posts the report.\<close>

lemma encode_report:
  assumes "length scratch = 256"
  shows "\<exists>b. encode_exec_report scratch c x t p q l y s e r = Ok (56, b) \<and> take 56 b = order_event_image (OpExec c x t p q l y s e r) \<and>
    length b = 256"
  using encode_order_event_image [of scratch "OpExec c x t p q l y s e r"] assms by (auto simp del: order_event_image.simps)

lemma op_emit_ok:
  assumes "path_rel cap (Suc n) d op"
  shows "\<exists>op'. op_emit c x t p q l y s e r op = (op', Ok ()) \<and> path_rel cap n (dk_post cap (OpExec c x t p q l y s e r) d) op' \<and> same_inbox op op'"
proof -
  let ?ev = "OpExec c x t p q l y s e r"
  obtain b where b: "encode_exec_report (op_scratch op) c x t p q l y s e r = Ok (56, b)" "take 56 b = order_event_image ?ev" "length b = 256"
    using encode_report assms unfolding path_rel_def by blast
  let ?op = "op\<lparr>op_scratch := b\<rparr>"
  have o: "outbox cap (Suc n) ?op (dk_reports d)" using assms by (simp add: path_rel_def outbox_def)
  obtain op1 res where p: "push_report (order_event_image ?ev) ?op = (op1, res)" by fastforce
  have len: "order_event_len ?ev \<le> 56" by simp
  note P = push_report_ok [OF o p len]
  obtain pr mem where op1: "op1 = ?op\<lparr>op_reports := pr, op_reports_mem := mem\<rparr>" using P(2) by blast
  show ?thesis
  proof (cases "length (dk_reports d) < cap")
    case True
    then have "res = Ok ()" "outbox cap n op1 (dk_reports d @ [?ev])" using P(1) by auto
    moreover from this have "op_emit c x t p q l y s e r op = (op1, Ok ())" using b p by (simp add: op_emit_def)
    ultimately show ?thesis using True assms b(3) by (auto simp: op1 path_rel_def dk_post_def same_inbox_def)
  next
    case False
    then have r: "res = Err RingFull" "outbox cap n op1 (dk_reports d)" using P(1) by auto
    then have run: "op_emit c x t p q l y s e r op = (count_dropped 1 op1, Ok ())" using b p by (simp add: op_emit_def)
    have "path_rel cap n d op1" using r(2) assms b(3) by (auto simp: op1 path_rel_def)
    from count_dropped_rel [OF this, of 1] run False show ?thesis by (auto simp: dk_post_def op1 same_inbox_def count_dropped_def on_path_stats_def)
  qed
qed


section \<open>Reporting\<close>

text \<open>\<open>m\<close> does to the order path what \<open>f\<close> does to the desk.\<close>

definition refines :: "nat \<Rightarrow> nat \<Rightarrow> nat \<Rightarrow> (order_path, io_error, unit) mut_method \<Rightarrow> (desk \<Rightarrow> desk) \<Rightarrow> bool" where
  "refines cap n n' m f \<longleftrightarrow> (\<forall>d op. path_rel cap n d op \<longrightarrow>
     (\<exists>op'. m op = (op', Ok ()) \<and> path_rel cap n' (f d) op' \<and> same_inbox op op'))"

lemma refinesD:
  assumes "refines cap n n' m f" "path_rel cap n d op"
  obtains op' where "m op = (op', Ok ())" "path_rel cap n' (f d) op'" "same_inbox op op'"
  using assms unfolding refines_def by blast

named_theorems refines_intros \<open>refinement of the reporting methods\<close>

lemma refines_emit [refines_intros]:
  "refines cap (Suc n) n (op_emit c x t p q l y s e r) (dk_post cap (OpExec c x t p q l y s e r))"
  unfolding refines_def using op_emit_ok by blast

lemma refines_bind:
  assumes "refines cap n n1 m f" "refines cap n1 n2 k g"
  shows "refines cap n n2 (sbind m (\<lambda>_. k)) (\<lambda>d. g (f d))"
  unfolding refines_def
proof (intro allI impI)
  fix d op assume "path_rel cap n d op"
  then obtain op1 where a: "m op = (op1, Ok ())" "path_rel cap n1 (f d) op1" "same_inbox op op1" by (rule refinesD [OF assms(1)])
  obtain op2 where b: "k op1 = (op2, Ok ())" "path_rel cap n2 (g (f d)) op2" "same_inbox op1 op2" by (rule refinesD [OF assms(2) a(2)])
  show "\<exists>op'. sbind m (\<lambda>_. k) op = (op', Ok ()) \<and> path_rel cap n2 (g (f d)) op' \<and> same_inbox op op'"
    using a b same_inbox_trans by (auto simp: sbind_def)
qed

lemma refines_stats [refines_intros]:
  "(\<And>s. ps_reports_dropped (h s) = ps_reports_dropped s) \<Longrightarrow> refines cap n n (supdate (on_path_stats h)) (\<lambda>d. d)"
  by (auto simp: refines_def intro: on_path_stats_rel)

lemma refines_count_fill [refines_intros]: "refines cap n n (supdate count_fill) (\<lambda>d. d)"
  unfolding count_fill_def by (rule refines_stats) simp

lemma refines_return [refines_intros]: "refines cap n n (sreturn ()) (\<lambda>d. d)"
  by (auto simp: refines_def)

lemma refines_less: "refines cap n n' m f \<Longrightarrow> n \<le> n1 \<Longrightarrow> n2 \<le> n' \<Longrightarrow> refines cap n1 n2 m f"
  unfolding refines_def using path_rel_less by meson

lemma dk_drop_0: "path_rel cap n d op \<Longrightarrow> dk_drop 0 d = d"
  by (simp add: path_rel_def dk_drop_def)

lemma refines_overflow [refines_intros]:
  "refines cap n n (supdate (\<lambda>op. if 0 < k then count_dropped k op else op)) (dk_drop k)"
  by (auto simp: refines_def dk_drop_0 intro: count_dropped_rel)

lemma refines_drop [refines_intros]: "refines cap n n (supdate (count_dropped k)) (dk_drop k)"
  by (auto simp: refines_def intro: count_dropped_rel)

lemma refines_for_each:
  assumes "\<And>x n. x \<in> set xs \<Longrightarrow> refines cap (Suc n) n (m x) (f x)"
  shows "refines cap (length xs + n) n (for_each m xs) (fold f xs)"
  using assms
proof (induction xs)
  case Nil
  have "fold f [] = (\<lambda>d. d)" by (rule ext) simp
  then show ?case unfolding list.size for_each.simps add_0 by (simp only: refines_return)
next
  case (Cons x xs)
  have "refines cap (Suc (length xs + n)) n (sbind (m x) (\<lambda>_. for_each m xs)) (\<lambda>d. fold f xs (f x d))"
    by (rule refines_bind [OF Cons.prems Cons.IH]) (auto intro: Cons.prems)
  then show ?case by (simp add: comp_def)
qed

lemma refines_own: "refines cap n n (supdate (remember_owned oid c)) (dk_own oid c)"
  unfolding refines_def
  by (auto simp: remember_owned_def dk_own_def intro: count_dropped_rel) (auto simp: path_rel_def outbox_def same_inbox_def)

lemma refines_forget: "refines cap n n (supdate (forget_owned i)) (dk_forget i)"
  unfolding refines_def
  by (auto simp: forget_owned_def dk_forget_def path_rel_def outbox_def same_inbox_def intro: order_trans [OF length_filter_le])

lemma refines_fills:
  "refines cap (n + 32) n (report_fills c oid y s (take 32 fills) (length fills - 32)) (fold (dk_post cap) (fill_reports c oid y s fills))"
proof -
  let ?rep = "\<lambda>(i, f). OpExec c oid (fl_trade_id f) (fl_price f) (fl_quantity f) (fl_leaves f) y s
     (if i + 1 = length fills \<and> fl_leaves f = 0 then Fill else PartialFill) NotRejected"
  have step: "refines cap (Suc m) m (case z of (i, f) \<Rightarrow>
       sbind (op_emit c oid (fl_trade_id f) (fl_price f) (fl_quantity f) (fl_leaves f) y s
                (if i + 1 = length (take 32 fills) \<and> fl_leaves f = 0 \<and> length fills - 32 = 0 then Fill else PartialFill) NotRejected) (\<lambda>_.
       supdate count_fill)) (dk_post cap (?rep z))" if "z \<in> set (enumerate 0 (take 32 fills))" for z m
  proof -
    obtain i f where z: "z = (i, f)" by fastforce
    then have "i < length fills" "i < 32" using that by (auto simp: in_set_enumerate_eq)
    then have "(i + 1 = length (take 32 fills) \<and> fl_leaves f = 0 \<and> length fills - 32 = 0) = (i + 1 = length fills \<and> fl_leaves f = 0)" by auto
    then show ?thesis unfolding z prod.case by (simp only:) (rule refines_bind [OF refines_emit refines_count_fill])
  qed
  have "refines cap (length (enumerate 0 (take 32 fills)) + n) n (report_fills c oid y s (take 32 fills) (length fills - 32))
      (fold (\<lambda>z. dk_post cap (?rep z)) (enumerate 0 (take 32 fills)))"
    unfolding report_fills_def by (rule refines_for_each) (rule step)
  then have "refines cap (length (enumerate 0 (take 32 fills)) + n) n (report_fills c oid y s (take 32 fills) (length fills - 32))
      (fold (dk_post cap) (fill_reports c oid y s fills))"
    unfolding fill_reports_def fold_map comp_def .
  then show ?thesis by (rule refines_less) auto
qed

lemma refines_submit:
  "refines cap (n + 33) n (report_submit c y s p q out fills)
     (\<lambda>d. let d2 = dk_drop (length fills - 32) (fold (dk_post cap) (fill_reports c (su_order_id out) y s fills) d) in
        if su_resting out > 0 then dk_post cap (OpExec c (su_order_id out) 0 p q (su_resting out) y s Acknowledged NotRejected) (dk_own (su_order_id out) c d2)
        else d2)"
proof (cases "su_resting out > 0")
  case True
  have n: "Suc n + 32 = n + 33" by simp
  have "refines cap (Suc n + 32) n (report_submit c y s p q out fills)
     (\<lambda>d. dk_post cap (OpExec c (su_order_id out) 0 p q (su_resting out) y s Acknowledged NotRejected)
        (dk_own (su_order_id out) c (dk_drop (length fills - 32) (fold (dk_post cap) (fill_reports c (su_order_id out) y s fills) d))))"
    unfolding report_submit_def Let_def if_P [OF True]
    by (intro refines_bind [OF refines_fills] refines_bind [OF refines_overflow] refines_bind [OF refines_own] refines_bind [OF refines_emit] refines_stats) simp
  then show ?thesis unfolding n Let_def if_P [OF True] .
next
  case False
  have "refines cap (n + 32) n (report_submit c y s p q out fills)
     (\<lambda>d. dk_drop (length fills - 32) (fold (dk_post cap) (fill_reports c (su_order_id out) y s fills) d))"
    unfolding report_submit_def Let_def if_not_P [OF False]
    by (intro refines_bind [OF refines_fills] refines_bind [OF refines_overflow] refines_return)
  then have "refines cap (n + 33) n (report_submit c y s p q out fills)
     (\<lambda>d. dk_drop (length fills - 32) (fold (dk_post cap) (fill_reports c (su_order_id out) y s fills) d))"
    by (rule refines_less) simp_all
  then show ?thesis unfolding Let_def if_not_P [OF False] .
qed

lemma refines_passive: "refines cap (Suc n) n (report_passive_fill f) (desk_passive cap f)"
  unfolding refines_def
proof (intro allI impI)
  fix d op assume rel: "path_rel cap (Suc n) d op"
  then have ow: "op_owned op = dk_owned d" by (simp add: path_rel_def)
  show "\<exists>op'. report_passive_fill f op = (op', Ok ()) \<and> path_rel cap n (desk_passive cap f d) op' \<and> same_inbox op op'"
  proof (cases "find (\<lambda>x. ow_exchange_order_id x = pf_resting_order_id f) (dk_owned d)")
    case None
    then show ?thesis using count_dropped_rel [OF path_rel_less [OF rel, of n], of 1]
      by (auto simp: report_passive_fill_def desk_passive_def ow)
  next
    case (Some x)
    let ?e = "OpExec (ow_client_order_id x) (pf_resting_order_id f) (pf_trade_id f) (pf_price f) (pf_quantity f)
                     (pf_leaves f) (pf_symbol_id f) (pf_side f) (if pf_leaves f = 0 then Fill else PartialFill) NotRejected"
    have fg: "refines cap m m (supdate (\<lambda>op. if b then forget_owned i op else op)) (\<lambda>d. if b then dk_forget i d else d)" for m b i
      using refines_forget [of cap m i] refines_return [of cap m] by (cases b) (auto simp: refines_def)
    have "refines cap (Suc n) n (sbind (op_emit (ow_client_order_id x) (pf_resting_order_id f) (pf_trade_id f) (pf_price f) (pf_quantity f)
                   (pf_leaves f) (pf_symbol_id f) (pf_side f) (if pf_leaves f = 0 then Fill else PartialFill) NotRejected) (\<lambda>_.
          sbind (supdate count_fill) (\<lambda>_.
          supdate (\<lambda>op. if pf_leaves f = 0 then forget_owned (pf_resting_order_id f) op else op))))
        (\<lambda>d. if pf_leaves f = 0 then dk_forget (pf_resting_order_id f) (dk_post cap ?e d) else dk_post cap ?e d)"
      by (rule refines_bind [OF refines_emit refines_bind [OF refines_count_fill fg]])
    from refinesD [OF this rel] show ?thesis
      unfolding report_passive_fill_def desk_passive_def ow Some option.case Let_def by blast
  qed
qed

end
