(* ===== verification/OrderServe.thy ===== *)
theory OrderServe
  imports OrderDesk
begin

text \<open>
  The order path of \<open>crates/matching-engine/src/orderpath.rs\<close> serves its requests: dispatching a request and
  a whole pass of \<open>pump\<close> refine the desk of \<open>OrderDesk\<close>, over the engine, its feed and both rings.
\<close>

section \<open>Trade ids and the watch list\<close>

lemma publish_frame: "publish y ch st = (st', r) \<Longrightarrow> \<exists>b. fst st' = (fst st)\<lparr>en_books := b\<rparr>"
  by (cases ch; cases st) (auto simp: book_then_feed_def touch_book_def Let_def split: prod.splits outcome.splits)

lemma publish_ids:
  assumes "publish y ch st = (st', r)"
  shows "en_next_trade_id (fst st') = en_next_trade_id (fst st) \<and> en_watched (fst st') = en_watched (fst st)"
  using publish_frame [OF assms] by auto

lemma trade_id_after_simps [simp]:
  "trade_id_after t 0 = t" "trade_id_after t (Suc n) = trade_id_after (wrap_add_u64 t 1) n"
  by (simp_all add: trade_id_after_def funpow_Suc_right del: funpow.simps(2))

lemma bookkeeping_trade_ids [simp]:
  "en_next_trade_id (forget_live y i e) = en_next_trade_id e" "en_watched (forget_live y i e) = en_watched e"
  "en_next_trade_id (count_trade q e) = en_next_trade_id e" "en_watched (count_trade q e) = en_watched e"
  "en_next_trade_id (record_passive pf e) = en_next_trade_id e" "en_watched (record_passive pf e) = en_watched e"
  "en_next_trade_id (take_trade_id e) = wrap_add_u64 (en_next_trade_id e) 1" "en_watched (take_trade_id e) = en_watched e"
  "en_next_trade_id (touch_book y e) = en_next_trade_id e" "en_watched (touch_book y e) = en_watched e"
  "en_next_trade_id (begin_submit e) = en_next_trade_id e" "en_watched (begin_submit e) = en_watched e"
  "en_next_trade_id (count_aggressive e) = en_next_trade_id e" "en_watched (count_aggressive e) = en_watched e"
  by (auto simp: forget_live_def count_trade_def record_passive_def take_trade_id_def touch_book_def begin_submit_def
      count_aggressive_def split: option.splits)

lemma match_step_ids:
  assumes "match_step cb y s p oid r st = (st', Ok res)"
  shows "en_watched (fst st') = en_watched (fst st)"
    "case res of None \<Rightarrow> en_next_trade_id (fst st') = en_next_trade_id (fst st)
     | Some f \<Rightarrow> fl_trade_id f = en_next_trade_id (fst st) \<and> en_next_trade_id (fst st') = wrap_add_u64 (en_next_trade_id (fst st)) 1"
  using assms
  by (cases st; auto simp: match_step_def Let_def outcome_simps on_sequence_def simp del: publish.simps
      dest!: publish_ids split: option.splits if_splits)+

lemma match_loop_ids:
  assumes "match_loop cb y s p oid r st = (st', Ok (fills, r'))"
  shows "map fl_trade_id fills = trade_ids (en_next_trade_id (fst st)) (length fills)"
    "en_next_trade_id (fst st') = trade_id_after (en_next_trade_id (fst st)) (length fills)" "en_watched (fst st') = en_watched (fst st)"
proof -
  have "map fl_trade_id fills = trade_ids (en_next_trade_id (fst st)) (length fills) \<and>
    en_next_trade_id (fst st') = trade_id_after (en_next_trade_id (fst st)) (length fills) \<and> en_watched (fst st') = en_watched (fst st)"
    using assms
  proof (induction cb y s p oid r st arbitrary: fills rule: match_loop.induct)
    case (1 cb y s p oid r st)
    show ?case
    proof (cases "r = 0")
      case True
      then show ?thesis using 1(2) by (simp add: match_loop.simps)
    next
      case False
      obtain st1 res where m: "match_step cb y s p oid r st = (st1, res)" by fastforce
      show ?thesis
      proof (cases res)
        case (Ok fo)
        note ids = match_step_ids [OF m [unfolded Ok]]
        show ?thesis
        proof (cases fo)
          case None
          then show ?thesis using 1(2) False m Ok ids by (simp add: match_loop.simps [of cb y s p oid r st])
        next
          case (Some f)
          obtain fs where l: "match_loop cb y s p oid (r - fl_quantity f) st1 = (st', Ok (fs, r'))" "fills = f # fs"
            using 1(2) False m Ok Some by (auto simp: match_loop.simps [of cb y s p oid r st] split: prod.splits outcome.splits)
          from 1(1) [OF False m [symmetric] Ok Some l(1)] show ?thesis
            using ids Some l(2) by simp
        qed
      qed (use 1(2) False m in \<open>auto simp: match_loop.simps [of cb y s p oid r st]\<close>)
    qed
  qed
  then show "map fl_trade_id fills = trade_ids (en_next_trade_id (fst st)) (length fills)"
    "en_next_trade_id (fst st') = trade_id_after (en_next_trade_id (fst st)) (length fills)" "en_watched (fst st') = en_watched (fst st)" by auto
qed

lemma submit_ids:
  assumes "submit_reported cb y s p q False st = (st', Ok (out, fills))"
  shows "map fl_trade_id fills = trade_ids (en_next_trade_id (fst st)) (length fills)"
    "en_next_trade_id (fst st') = trade_id_after (en_next_trade_id (fst st)) (length fills)" "en_watched (fst st') = en_watched (fst st)"
proof -
  obtain st1 r where l: "match_loop cb y s p (en_next_order_id (fst st)) q (begin_submit (fst st), snd st) = (st1, Ok (fills, r))"
      and e: "en_next_trade_id (fst st') = en_next_trade_id (fst st1)" "en_watched (fst st') = en_watched (fst st1)"
    using assms by (auto simp: submit_reported_def Let_def outcome_simps on_sequence_def simp del: publish.simps
      dest!: publish_ids split: if_splits prod.splits)
  note L = match_loop_ids [OF l, unfolded fst_conv bookkeeping_trade_ids]
  show "map fl_trade_id fills = trade_ids (en_next_trade_id (fst st)) (length fills)"
    "en_next_trade_id (fst st') = trade_id_after (en_next_trade_id (fst st)) (length fills)" "en_watched (fst st') = en_watched (fst st)"
    using L e by simp_all
qed

lemma length_trade_ids [simp]: "length (trade_ids t n) = n"
  by (induction n arbitrary: t) auto

lemma fills_from_terms:
  "map fl_trade_id fills = trade_ids t (length fills) \<Longrightarrow> map fill_terms fills = map alloc_terms al \<Longrightarrow> fills = alloc_fills t al"
proof (induction fills arbitrary: t al)
  case Nil
  then show ?case by (simp add: alloc_fills_def)
next
  case (Cons f fs)
  obtain a al' where a: "al = a # al'" using Cons.prems(2) by auto
  have "fs = alloc_fills (wrap_add_u64 t 1) al'" using Cons a by simp
  then show ?case using Cons.prems a by (cases f) (auto simp: alloc_fills_def prod_eq_iff)
qed

lemma cancel_ids:
  assumes "cancel_reported cb y i st = (st', Ok r)"
  shows "en_next_trade_id (fst st') = en_next_trade_id (fst st)" "en_watched (fst st') = en_watched (fst st)"
  using assms
  by (cases st; auto simp: cancel_reported_def outcome_simps on_sequence_def simp del: publish.simps dest!: publish_ids split: option.splits)+

section \<open>Looking an order up in every book\<close>

lemma find_filter: "find P xs = (case filter P xs of [] \<Rightarrow> None | x # _ \<Rightarrow> Some x)"
  by (induction xs) auto

lemma find_sorted_eq:
  fixes xs ys :: "nat list"
  assumes "sorted_wrt (<) xs" "sorted_wrt (<) ys" "\<And>x. P x \<Longrightarrow> x \<in> set xs \<longleftrightarrow> x \<in> set ys"
  shows "find P xs = find P ys"
proof -
  have "filter P xs = filter P ys"
    using assms by (intro sorted_distinct_set_unique) (auto simp: strict_sorted_iff sorted_filter [of id, simplified])
  then show ?thesis by (simp add: find_filter)
qed

lemma find_resting_entries:
  "find_resting bks i = (case find (\<lambda>(y, b). rb_get b i \<noteq> None) bks of None \<Rightarrow> None | Some (y, b) \<Rightarrow> map_option (Pair y) (rb_get b i))"
  by (induction bks) (auto split: option.splits)

lemma spec_apply_symbol:
  "spec_apply ev sp = Ok sp' \<Longrightarrow> event_wf ev \<Longrightarrow> sp' = sp \<or> (\<exists>y bs. y \<le> u16_max \<and> sp' = sp(y := bs))"
  by (cases "(ev, sp)" rule: spec_apply.cases) (auto simp: obind_eq_Ok split: prod.splits)

lemma replay_symbols:
  assumes "ofold spec_apply evs (\<lambda>_. []) = Ok sp" "list_all event_wf evs" "sp y \<noteq> []"
  shows "y \<le> u16_max"
proof -
  have "\<forall>y. sp y \<noteq> [] \<longrightarrow> y \<le> u16_max"
  proof (rule ofold_invariant [OF assms(1)])
    fix ev sp1 sp2
    assume a: "ev \<in> set evs" "\<forall>y. sp1 y \<noteq> [] \<longrightarrow> y \<le> u16_max" "spec_apply ev sp1 = Ok sp2"
    have "event_wf ev" using a(1) assms(2) by (simp add: list_all_iff)
    from spec_apply_symbol [OF a(3) this] show "\<forall>y. sp2 y \<noteq> [] \<longrightarrow> y \<le> u16_max"
    proof (elim disjE exE conjE)
      fix z bs assume "z \<le> u16_max" "sp2 = sp1(z := bs)"
      then show ?thesis using a(2) by simp
    qed (use a(2) in simp)
  qed simp
  then show ?thesis using assms(3) by blast
qed

lemma om_get_of_entry: "om_invar m \<Longrightarrow> (k, v) \<in> set m \<Longrightarrow> om_get k m = Some v"
  using om.entries_get [of m k v] by simp

lemma find_map_fst: "find P (map f xs) = map_option f (find (\<lambda>x. P (f x)) xs)"
  by (induction xs) auto

lemma find_resting_ok:
  assumes "engine_inv cfg (e, fp) evs sp"
  shows "find_resting (en_books e) i = resting_at sp i"
proof -
  have br: "books_rel refbook_rel (en_books e) sp" and ev: "ofold spec_apply evs (\<lambda>_. []) = Ok sp" "list_all event_wf evs"
    using assms fd.ready_wf [where cfg = cfg] by (auto simp: engine_inv_def)
  have inv: "om_invar (en_books e)" using br by (rule books_rel_invar)
  have get: "rb_get b i = spec_get i (sp y)" if "(y, b) \<in> set (en_books e)" for y b
    using br om_get_of_entry [OF inv that] ref.get_sim [of b "sp y" i] by (auto simp: books_rel_def refbook_ops_def)
  have key: "y \<in> set (map fst (en_books e))" if "spec_get i (sp y) \<noteq> None" for y
  proof -
    have "om_get y (en_books e) \<noteq> None" using that br by (cases "om_get y (en_books e)") (auto simp: books_rel_def spec_get_def)
    then show ?thesis using om.keys_of_entries [OF inv] by auto
  qed
  have small: "y < 65536" if "spec_get i (sp y) \<noteq> None" for y
    using replay_symbols [OF ev, of y] that by (fastforce simp: spec_get_def)
  have "find (\<lambda>y. spec_get i (sp y) \<noteq> None) (map fst (en_books e)) = find (\<lambda>y. spec_get i (sp y) \<noteq> None) [0..<65536]"
    using inv key small by (intro find_sorted_eq) (auto simp: om_invar_def)
  moreover have "find (\<lambda>x. spec_get i (sp (fst x)) \<noteq> None) (en_books e) = find (\<lambda>(y, b). rb_get b i \<noteq> None) (en_books e)"
    using get by (intro find_cong) auto
  ultimately have "find (\<lambda>y. spec_get i (sp y) \<noteq> None) [0..<65536] = map_option fst (find (\<lambda>(y, b). rb_get b i \<noteq> None) (en_books e))"
    by (simp add: find_map_fst)
  note F = this
  show ?thesis
  proof (cases "find (\<lambda>(y, b). rb_get b i \<noteq> None) (en_books e)")
    case None
    then show ?thesis using F by (simp only: find_resting_entries resting_at_def option.case option.map)
  next
    case (Some z)
    obtain y b where z: "z = (y, b)" by fastforce
    then have "(y, b) \<in> set (en_books e)" using Some by (auto simp: find_Some_iff in_set_conv_nth)
    then show ?thesis using F get [of y b] unfolding find_resting_entries resting_at_def Some z by simp
  qed
qed

section \<open>Requests\<close>

lemma wrap_add_assoc: "wrap_add_u64 (wrap_add_u64 a m) n = wrap_add_u64 a (m + n)"
  by (simp add: wrap_add_u64_def mod_add_left_eq add.assoc)

lemma fold_post:
  assumes "length (dk_reports d) \<le> cap" "dk_dropped d \<le> u64_max"
  shows "fold (dk_post cap) rs d = dk_drop (length rs - (cap - length (dk_reports d)))
     (d\<lparr>dk_reports := dk_reports d @ take (cap - length (dk_reports d)) rs\<rparr>)"
  using assms
proof (induction rs arbitrary: d)
  case Nil
  then show ?case by (simp add: dk_drop_def)
next
  case (Cons r rs)
  show ?case
  proof (cases "length (dk_reports d) < cap")
    case True
    then have step: "dk_post cap r d = d\<lparr>dk_reports := dk_reports d @ [r]\<rparr>" by (simp add: dk_post_def)
    have "fold (dk_post cap) rs (dk_post cap r d) = dk_drop (length rs - (cap - Suc (length (dk_reports d))))
        (d\<lparr>dk_reports := dk_reports d @ r # take (cap - Suc (length (dk_reports d))) rs\<rparr>)"
      unfolding step using Cons.IH [of "d\<lparr>dk_reports := dk_reports d @ [r]\<rparr>"] Cons.prems True by simp
    then show ?thesis using True by (simp add: take_Cons' Suc_diff_le le_Suc_eq)
  next
    case False
    then have step: "dk_post cap r d = dk_drop 1 d" by (simp add: dk_post_def)
    have "fold (dk_post cap) rs (dk_post cap r d) = dk_drop (length rs) (dk_drop 1 d)"
      unfolding step using Cons.IH [of "dk_drop 1 d"] Cons.prems False by (simp add: dk_drop_def)
    then show ?thesis using False Cons.prems by (simp add: dk_drop_def wrap_add_assoc)
  qed
qed

lemma desk_other [simp]:
  "dk_books (dk_drop m d) = dk_books d" "dk_order_id (dk_drop m d) = dk_order_id d" "dk_trade_id (dk_drop m d) = dk_trade_id d"
  "dk_watched (dk_drop m d) = dk_watched d"
  "dk_books (dk_own i c d) = dk_books d" "dk_order_id (dk_own i c d) = dk_order_id d" "dk_trade_id (dk_own i c d) = dk_trade_id d"
  "dk_watched (dk_own i c d) = dk_watched d"
  "dk_books (dk_forget i d) = dk_books d" "dk_order_id (dk_forget i d) = dk_order_id d" "dk_trade_id (dk_forget i d) = dk_trade_id d"
  "dk_watched (dk_forget i d) = dk_watched d"
  by (simp_all add: dk_drop_def dk_own_def dk_forget_def)

lemma posts_other [simp]:
  "dk_books (fold (dk_post cap) rs d) = dk_books d" "dk_order_id (fold (dk_post cap) rs d) = dk_order_id d"
  "dk_trade_id (fold (dk_post cap) rs d) = dk_trade_id d" "dk_watched (fold (dk_post cap) rs d) = dk_watched d"
  by (induction rs arbitrary: d) auto

lemma passive_other [simp]:
  "dk_books (desk_passive cap f d) = dk_books d" "dk_order_id (desk_passive cap f d) = dk_order_id d"
  "dk_trade_id (desk_passive cap f d) = dk_trade_id d" "dk_watched (desk_passive cap f d) = dk_watched d"
  by (auto simp: desk_passive_def Let_def split: option.splits)

lemma passives_other [simp]:
  "dk_books (fold (desk_passive cap) fs d) = dk_books d" "dk_order_id (fold (desk_passive cap) fs d) = dk_order_id d"
  "dk_trade_id (fold (desk_passive cap) fs d) = dk_trade_id d" "dk_watched (fold (desk_passive cap) fs d) = dk_watched d"
  by (induction fs arbitrary: d) auto

lemma path_rel_engine_side [simp]:
  "path_rel cap n (d\<lparr>dk_books := b\<rparr>) op = path_rel cap n d op" "path_rel cap n (d\<lparr>dk_order_id := i\<rparr>) op = path_rel cap n d op"
  "path_rel cap n (d\<lparr>dk_trade_id := i\<rparr>) op = path_rel cap n d op" "path_rel cap n (d\<lparr>dk_watched := w\<rparr>) op = path_rel cap n d op"
  by (simp_all add: path_rel_def)

lemma published_eq:
  assumes "engine_inv cfg st evs sp" "engine_inv cfg st' (evs @ new) sp'"
  shows "published new sp = sp'"
  using assms by (auto simp: engine_inv_def published_def ofold_append)

text \<open>What serving one request means for the whole state.\<close>

definition served :: "rat \<times> drop_mode \<Rightarrow> nat \<Rightarrow> nat \<Rightarrow> nat \<Rightarrow> desk \<Rightarrow> order_path \<Rightarrow> feed_event list \<Rightarrow>
    (order_path \<times> engine \<times> feed_publisher) \<times> (io_error, unit) outcome \<Rightarrow> bool" where
  "served cfg cap n k d op evs res \<longleftrightarrow> (\<exists>op' ef' new. res = ((op', ef'), Ok ()) \<and> path_rel cap n d op' \<and> same_inbox op op' \<and>
     engine_part cfg (Suc k) d ef' (evs @ new))"

lemma on_path_simp [simp]: "on_path m (op, ef) = ((fst (m op), ef), snd (m op))"
  by (simp add: on_path_def split: prod.splits)

lemma field_Ok [simp]: "field (Ok x) st = (st, Ok x)"
  by (simp add: field_def)

lemma bind_field [simp]: "sbind (field (Ok x)) h st = h x st" "sbind (on_path (supdate f)) kk (op, ef) = kk () (f op, ef)"
  by (simp_all add: sbind_def)

lemma refines_run:
  assumes "refines cap n n' m f" "path_rel cap n d op"
  obtains op' where "on_path m (op, ef) = ((op', ef), Ok ())" "path_rel cap n' (f d) op'" "same_inbox op op'"
proof -
  obtain op' where "m op = (op', Ok ())" "path_rel cap n' (f d) op'" "same_inbox op op'" by (rule refinesD [OF assms])
  then show thesis using that by simp
qed

lemma serve_new:
  assumes rel: "path_rel cap (n + 33) d op" and en: "engine_part cfg k d (e, fp) evs" and k: "k < 2147483648"
    and view: "view_order_event (NewOrder dec) = Ok (OpNew c p q y s)" and wf: "order_event_wf (OpNew c p q y s)"
  shows "served cfg cap n k (desk_serve cap (OpNew c p q y s) d) op evs (on_new_order dec (op, e, fp))"
proof -
  have acc: "NewOrder_client_order_id dec = Ok c" "NewOrder_price dec = Ok p" "NewOrder_quantity dec = Ok q"
      "NewOrder_symbol_id dec = Ok y" "NewOrder_side dec = Ok s" using view by (auto simp: obind_eq_Ok)
  have w: "y \<le> u16_max" "in_i64 p" "q \<le> u32_max" using wf by auto
  have i: "engine_inv cfg (e, fp) evs (dk_books d)" "small_books k e evs (dk_books d)" "en_next_order_id e = dk_order_id d"
      "en_next_trade_id e = dk_trade_id d" "en_watched e = dk_watched d" using en by (auto simp: engine_part_def)
  have cb: "callback_ok (\<lambda>_ _. Ok ())" by (simp add: callback_ok_def)
  define Q where "Q = spec_queue (opposite s) (dk_books d y)"
  define al where "al = allocate q (crossing s p Q)"
  define out where "out = \<lparr>su_order_id = dk_order_id d, su_filled = min q (total_quantity (crossing s p Q)),
       su_resting = q - total_quantity (crossing s p Q)\<rparr>"
  define new where "new = submit_events (dk_trade_id d) y s p (dk_order_id d) q Q"
  obtain ef' fills bs' where r: "submit_reported (\<lambda>_ _. Ok ()) y s p q False (e, fp) = (ef', Ok (out, fills))"
      "map fill_terms fills = map alloc_terms al" "engine_inv cfg ef' (evs @ new) ((dk_books d)(y := bs'))"
      "small_books (Suc k) (fst ef') (evs @ new) ((dk_books d)(y := bs'))" "en_next_order_id (fst ef') = dk_order_id d + 1"
    by (rule submit_call [OF i(1) cb w i(2) k, of s False]) (simp add: i out_def new_def al_def Q_def)
  note ids = submit_ids [OF r(1), unfolded fst_conv i]
  have fills: "fills = alloc_fills (dk_trade_id d) al" by (rule fills_from_terms [OF ids(1) r(2)])
  have len: "length fills = length al" using arg_cong [OF r(2), of length] by simp
  have bks: "(dk_books d)(y := bs') = published new (dk_books d)" using published_eq [OF i(1) r(3)] by simp
  define d1 where "d1 = d\<lparr>dk_books := published new (dk_books d), dk_order_id := dk_order_id d + 1,
      dk_trade_id := trade_id_after (dk_trade_id d) (length al)\<rparr>"
  define rep where "rep = (\<lambda>d. let d2 = dk_drop (length fills - 32) (fold (dk_post cap) (fill_reports c (su_order_id out) y s fills) d) in
        if su_resting out > 0 then dk_post cap (OpExec c (su_order_id out) 0 p q (su_resting out) y s Acknowledged NotRejected) (dk_own (su_order_id out) c d2)
        else d2)"
  let ?op = "on_path_stats (\<lambda>s. s\<lparr>ps_orders_received := wrap_add_u64 (ps_orders_received s) 1\<rparr>) op"
  have "path_rel cap (n + 33) d1 ?op" using on_path_stats_rel [OF rel] by (simp add: d1_def)
  from refinesD [OF refines_submit this, of c y s p q out fills] obtain op' where
    o: "report_submit c y s p q out fills ?op = (op', Ok ())" "path_rel cap n (rep d1) op'" "same_inbox ?op op'"
    unfolding rep_def by blast
  have run: "on_new_order dec (op, e, fp) = ((op', ef'), Ok ())"
    using o(1) r(1) by (simp add: on_new_order_def acc) (simp add: sbind_def on_engine_feed_def)
  have ds: "desk_serve cap (OpNew c p q y s) d = rep d1"
    unfolding desk_serve.simps Let_def rep_def d1_def new_def al_def Q_def [symmetric] out_def fills submit_outcome.select_convs ..
  have "engine_part cfg (Suc k) (rep d1) ef' (evs @ new)"
    using r(3-5) ids(2,3) len unfolding bks by (simp add: engine_part_def rep_def d1_def Let_def)
  moreover have "same_inbox op op'" using same_inbox_trans [OF _ o(3)] by simp
  ultimately show ?thesis unfolding served_def ds using run o(2) by blast
qed

lemma serve_cancel:
  assumes rel: "path_rel cap (Suc n) d op" and en: "engine_part cfg k d (e, fp) evs" and k: "k < 2147483648"
    and view: "view_order_event (CancelOrder dec) = Ok (OpCancel c i y s)" and wf: "order_event_wf (OpCancel c i y s)"
  shows "served cfg cap n k (desk_serve cap (OpCancel c i y s) d) op evs (on_cancel dec (op, e, fp))"
proof -
  have acc: "CancelOrder_client_order_id dec = Ok c" "CancelOrder_orig_client_order_id dec = Ok i"
      "CancelOrder_symbol_id dec = Ok y" "CancelOrder_side dec = Ok s" using view by (auto simp: obind_eq_Ok)
  have y: "y \<le> u16_max" using wf by auto
  have inv: "engine_inv cfg (e, fp) evs (dk_books d)" "small_books k e evs (dk_books d)" "en_next_order_id e = dk_order_id d"
      "en_next_trade_id e = dk_trade_id d" "en_watched e = dk_watched d" using en by (auto simp: engine_part_def)
  have cb: "callback_ok (\<lambda>_ _. Ok ())" by (simp add: callback_ok_def)
  let ?op = "on_path_stats (\<lambda>s. s\<lparr>ps_cancels_received := wrap_add_u64 (ps_cancels_received s) 1\<rparr>) op"
  have op: "path_rel cap (Suc n) d ?op" using on_path_stats_rel [OF rel] by simp
  obtain ef' where r: "cancel_reported (\<lambda>_ _. Ok ()) y i (e, fp) = (ef', Ok (map_option ro_quantity (spec_get i (dk_books d y))))"
      "en_next_order_id (fst ef') = dk_order_id d"
      "case spec_get i (dk_books d y) of
         None \<Rightarrow> engine_inv cfg ef' evs (dk_books d) \<and> small_books (Suc k) (fst ef') evs (dk_books d)
       | Some x \<Rightarrow> engine_inv cfg ef' (evs @ [EvDelete i y (ro_side x)]) ((dk_books d)(y := spec_drop i (dk_books d y))) \<and>
           small_books (Suc k) (fst ef') (evs @ [EvDelete i y (ro_side x)]) ((dk_books d)(y := spec_drop i (dk_books d y)))"
    by (rule cancel_call [OF inv(1) cb y inv(2) k, of i]) (simp add: inv)
  note ids = cancel_ids [OF r(1), unfolded fst_conv inv]
  have run: "on_cancel dec (op, e, fp) = (case spec_get i (dk_books d y) of
       Some x \<Rightarrow> on_path (sbind (supdate (forget_owned i)) (\<lambda>_.
           sbind (op_emit c i 0 0 (ro_quantity x) 0 y s Canceled NotRejected) (\<lambda>_.
           supdate (on_path_stats (\<lambda>s. s\<lparr>ps_cancels_reported := wrap_add_u64 (ps_cancels_reported s) 1\<rparr>))))) (?op, ef')
     | None \<Rightarrow> on_path (sbind (op_emit c i 0 0 0 0 y s Rejected UnknownOrderReason) (\<lambda>_.
           supdate (on_path_stats (\<lambda>s. s\<lparr>ps_rejects_reported := wrap_add_u64 (ps_rejects_reported s) 1\<rparr>)))) (?op, ef'))"
    using r(1) by (simp add: on_cancel_def acc)
      (simp add: sbind_def on_engine_feed_def on_path_def split: option.splits outcome.splits prod.splits)
  show ?thesis
  proof (cases "spec_get i (dk_books d y)")
    case None
    have "refines cap (Suc n) n (sbind (op_emit c i 0 0 0 0 y s Rejected UnknownOrderReason) (\<lambda>_.
           supdate (on_path_stats (\<lambda>s. s\<lparr>ps_rejects_reported := wrap_add_u64 (ps_rejects_reported s) 1\<rparr>))))
         (dk_post cap (OpExec c i 0 0 0 0 y s Rejected UnknownOrderReason))"
      by (rule refines_bind [OF refines_emit refines_stats]) simp
    then obtain op' where o: "on_cancel dec (op, e, fp) = ((op', ef'), Ok ())"
        "path_rel cap n (desk_serve cap (OpCancel c i y s) d) op'" "same_inbox ?op op'"
      unfolding run None option.case desk_serve.simps by (rule refines_run [OF _ op])
    have "engine_part cfg (Suc k) (desk_serve cap (OpCancel c i y s) d) ef' (evs @ [])"
      using r(2,3) ids by (simp add: None engine_part_def)
    then show ?thesis unfolding served_def using o same_inbox_trans [OF _ o(3), of op] by (metis same_inbox_simps(3))
  next
    case (Some x)
    let ?ev = "EvDelete i y (ro_side x)"
    let ?d = "d\<lparr>dk_books := published [?ev] (dk_books d)\<rparr>"
    have "refines cap (Suc n) n (sbind (supdate (forget_owned i)) (\<lambda>_.
           sbind (op_emit c i 0 0 (ro_quantity x) 0 y s Canceled NotRejected) (\<lambda>_.
           supdate (on_path_stats (\<lambda>s. s\<lparr>ps_cancels_reported := wrap_add_u64 (ps_cancels_reported s) 1\<rparr>)))))
         (\<lambda>d. dk_post cap (OpExec c i 0 0 (ro_quantity x) 0 y s Canceled NotRejected) (dk_forget i d))"
      by (rule refines_bind [OF refines_forget refines_bind [OF refines_emit refines_stats]]) simp
    moreover have "path_rel cap (Suc n) ?d ?op" using op by simp
    ultimately obtain op' where o: "on_cancel dec (op, e, fp) = ((op', ef'), Ok ())"
        "path_rel cap n (desk_serve cap (OpCancel c i y s) d) op'" "same_inbox ?op op'"
      unfolding run Some option.case desk_serve.simps by (rule refines_run)
    have "engine_inv cfg ef' (evs @ [?ev]) ((dk_books d)(y := spec_drop i (dk_books d y)))" using r(3) by (simp add: Some)
    from published_eq [OF inv(1) this]
    have "engine_part cfg (Suc k) (desk_serve cap (OpCancel c i y s) d) ef' (evs @ [?ev])"
      using r(2,3) ids by (simp add: Some engine_part_def)
    then show ?thesis unfolding served_def using o same_inbox_trans [OF _ o(3), of op] by (metis same_inbox_simps(3))
  qed
qed

text \<open>\<open>retain\<close> keeps the orders still resting and posts a status report for each, as many as the ring takes.\<close>

lemma retain_ok:
  assumes "outbox cap (n + length xs) op reps" "length (op_scratch op) = 256" "length reps \<le> cap"
    and "\<And>i. find_resting bks i = resting_at sp i"
  defines "rs \<equiv> concat (map (status_report sp) xs)"
  shows "\<exists>b p mem. let op' = op\<lparr>op_scratch := b, op_reports := p, op_reports_mem := mem\<rparr> in
     retain_owned bks xs op = (op', Ok (filter (\<lambda>x. resting_at sp (ow_exchange_order_id x) \<noteq> None) xs,
         min (length rs) (cap - length reps), length rs - (cap - length reps))) \<and>
     outbox cap n op' (reps @ take (cap - length reps) rs) \<and> length b = 256"
  using assms(1-3) unfolding rs_def
proof (induction xs arbitrary: op reps)
  case Nil
  then show ?case
    by (intro exI [of _ "op_scratch op"] exI [of _ "op_reports op"] exI [of _ "op_reports_mem op"]) simp
next
  case (Cons x xs)
  let ?i = "ow_exchange_order_id x"
  show ?case
  proof (cases "resting_at sp ?i")
    case None
    have "outbox cap (n + length xs) op reps" using Cons.prems(1) by (fastforce simp: outbox_def)
    from Cons.IH [OF this Cons.prems(2,3)] show ?thesis by (simp add: None assms(4) status_report_def)
  next
    case (Some z)
    obtain y r where z: "z = (y, r)" by fastforce
    let ?ev = "OpExec (ow_client_order_id x) ?i 0 (ro_price r) (ro_quantity r) (ro_quantity r) y (ro_side r) OrderStatus NotRejected"
    have sr: "status_report sp x = [?ev]" by (simp add: Some z status_report_def)
    obtain b where b: "encode_exec_report (op_scratch op) (ow_client_order_id x) ?i 0 (ro_price r) (ro_quantity r) (ro_quantity r) y (ro_side r)
        OrderStatus NotRejected = Ok (56, b)" "take 56 b = order_event_image ?ev" "length b = 256" using encode_report [OF Cons.prems(2)] by blast
    obtain op1 res where p: "push_report (order_event_image ?ev) (op\<lparr>op_scratch := b\<rparr>) = (op1, res)" by fastforce
    have o: "outbox cap (Suc (n + length xs)) (op\<lparr>op_scratch := b\<rparr>) reps" using Cons.prems(1) by (simp add: outbox_def)
    have len: "order_event_len ?ev \<le> 56" by simp
    note P = push_report_ok [OF o p len]
    obtain p1 m1 where op1: "op1 = op\<lparr>op_scratch := b, op_reports := p1, op_reports_mem := m1\<rparr>" using P(2) by auto
    have sc: "length (op_scratch op1) = 256" using b(3) by (simp add: op1)
    show ?thesis
    proof (cases "length reps < cap")
      case True
      then have R: "res = Ok ()" "outbox cap (n + length xs) op1 (reps @ [?ev])" "length (reps @ [?ev]) \<le> cap" using P(1) by auto
      from Cons.IH [OF R(2) sc R(3)] obtain ba p' mem where "retain_owned bks xs op1 =
            (op\<lparr>op_scratch := ba, op_reports := p', op_reports_mem := mem\<rparr>, Ok (filter (\<lambda>x. resting_at sp (ow_exchange_order_id x) \<noteq> None) xs,
               min (length (concat (map (status_report sp) xs))) (cap - length (reps @ [?ev])),
               length (concat (map (status_report sp) xs)) - (cap - length (reps @ [?ev]))))"
          "outbox cap n (op\<lparr>op_scratch := ba, op_reports := p', op_reports_mem := mem\<rparr>)
             ((reps @ [?ev]) @ take (cap - length (reps @ [?ev])) (concat (map (status_report sp) xs)))" "length ba = 256"
        unfolding Let_def by (auto simp: op1)
      moreover have "Suc (min m (cap - Suc (length reps))) = min (Suc m) (cap - length reps)" for m using True by linarith
      ultimately show ?thesis using True b p R(1)
        by (intro exI [of _ ba] exI [of _ p'] exI [of _ mem])
           (simp add: sr Some z assms(4) sbind_def take_Cons' del: order_event_image.simps)
    next
      case False
      then have R: "res = Err RingFull" "outbox cap (n + length xs) op1 reps" using P(1) by auto
      from Cons.IH [OF R(2) sc Cons.prems(3)] obtain ba p' mem where "retain_owned bks xs op1 =
            (op\<lparr>op_scratch := ba, op_reports := p', op_reports_mem := mem\<rparr>, Ok (filter (\<lambda>x. resting_at sp (ow_exchange_order_id x) \<noteq> None) xs,
               min (length (concat (map (status_report sp) xs))) (cap - length reps),
               length (concat (map (status_report sp) xs)) - (cap - length reps)))"
          "outbox cap n (op\<lparr>op_scratch := ba, op_reports := p', op_reports_mem := mem\<rparr>)
             (reps @ take (cap - length reps) (concat (map (status_report sp) xs)))" "length ba = 256"
        unfolding Let_def by (auto simp: op1)
      then show ?thesis using False b p R(1)
        by (intro exI [of _ ba] exI [of _ p'] exI [of _ mem])
           (simp add: sr Some z assms(4) sbind_def del: order_event_image.simps)
    qed
  qed
qed

lemma status_reports_le: "length (concat (map (status_report sp) xs)) \<le> length xs"
  by (induction xs) (auto simp: status_report_def split: option.splits)

lemma serve_reconcile:
  assumes rel: "path_rel cap (n + 4097) d op" and en: "engine_part cfg k d (e, fp) evs" and k: "k < 2147483648"
    and view: "view_order_event (ReconcileRequest dec) = Ok (OpReconcile i)"
  shows "served cfg cap n k (desk_serve cap (OpReconcile i) d) op evs (on_reconcile dec (op, e, fp))"
proof -
  have acc: "ReconcileRequest_request_id dec = Ok i" using view by (auto simp: obind_eq_Ok)
  have inv: "engine_inv cfg (e, fp) evs (dk_books d)" using en by (simp add: engine_part_def)
  define rs where "rs = concat (map (status_report (dk_books d)) (dk_owned d))"
  define kept where "kept = filter (\<lambda>x. resting_at (dk_books d) (ow_exchange_order_id x) \<noteq> None) (dk_owned d)"
  define room where "room = cap - length (dk_reports d)"
  define op1 where "op1 = on_path_stats (\<lambda>s. s\<lparr>ps_reconciles_answered := wrap_add_u64 (ps_reconciles_answered s) 1\<rparr>) op"
  have P: "path_rel cap (n + 4097) d op1" unfolding op1_def using on_path_stats_rel [OF rel] by simp
  have ow: "length (dk_owned d) \<le> 4096" "op_owned op1 = dk_owned d" "length (op_scratch op1) = 256" "dk_dropped d \<le> u64_max"
    using P by (auto simp: path_rel_def)
  have cap: "length (dk_reports d) \<le> cap" using P by (auto simp: path_rel_def outbox_def ends_rel_def ring_queue_def)
  have out: "outbox cap (Suc n + length (dk_owned d)) op1 (dk_reports d)" using P ow(1) by (fastforce simp: path_rel_def outbox_def)
  have rsl: "length rs \<le> 4096" using status_reports_le ow(1) unfolding rs_def by (rule order_trans)
  obtain b p mem where r: "retain_owned (en_books e) (dk_owned d) op1 =
        (op1\<lparr>op_scratch := b, op_reports := p, op_reports_mem := mem\<rparr>, Ok (kept, min (length rs) room, length rs - room))"
      "outbox cap (Suc n) (op1\<lparr>op_scratch := b, op_reports := p, op_reports_mem := mem\<rparr>) (dk_reports d @ take room rs)" "length b = 256"
    using retain_ok [OF out ow(3) cap find_resting_ok [OF inv]] unfolding Let_def rs_def kept_def room_def by blast
  define d' where "d' = fold (dk_post cap) rs (d\<lparr>dk_owned := kept\<rparr>)"
  have d': "d' = dk_drop (length rs - room) (d\<lparr>dk_owned := kept, dk_reports := dk_reports d @ take room rs\<rparr>)"
    unfolding d'_def using cap ow(4) by (subst fold_post) (simp_all add: room_def)
  define op2 where "op2 = count_dropped (length rs - room) (on_path_stats (\<lambda>s. s\<lparr>ps_orders_named_in_reconciliation :=
       wrap_add_u64 (ps_orders_named_in_reconciliation s) (min (length rs) room)\<rparr>)
       (op1\<lparr>op_scratch := b, op_reports := p, op_reports_mem := mem, op_owned := kept\<rparr>))"
  have "length kept \<le> 4096" using order_trans [OF length_filter_le ow(1)] by (simp add: kept_def)
  then have P2: "path_rel cap (Suc n) d' op2" using r(2,3) P unfolding d' op2_def
    by (intro count_dropped_rel on_path_stats_rel) (auto simp: path_rel_def outbox_def)
  have nm: "min (min (length rs) room) u32_max = length (dk_reports d') - length (dk_reports d)"
    using rsl by (simp add: d' dk_drop_def)
  obtain op3 where o: "op_emit i 0 0 0 (min (min (length rs) room) u32_max) 0 0 Bid StatusComplete NotRejected op2 = (op3, Ok ())"
      "path_rel cap n (desk_serve cap (OpReconcile i) d) op3" "same_inbox op2 op3"
    using refinesD [OF refines_emit P2] unfolding desk_serve.simps Let_def rs_def [symmetric] kept_def [symmetric] d'_def [symmetric] nm by blast
  have run: "on_reconcile dec (op, e, fp) = ((op3, e, fp), Ok ())"
    using r(1) o(1) ow(2) by (simp add: on_reconcile_def acc op1_def [symmetric] del: One_nat_def) (simp add: sbind_def op2_def)
  have same: "same_inbox op op3" using o(3) by (simp add: same_inbox_def op2_def op1_def count_dropped_def on_path_stats_def)
  have "engine_part cfg (Suc k) (desk_serve cap (OpReconcile i) d) (e, fp) (evs @ [])"
    using en small_books_idle [of k e evs "dk_books d" e] by (simp add: engine_part_def Let_def)
  then show ?thesis unfolding served_def using run o(2) same by blast
qed

text \<open>Whatever well-formed request comes in, dispatching it serves it.\<close>

lemma dispatch_ok:
  assumes rel: "path_rel cap (n + 4097) d op" and en: "engine_part cfg k d (e, fp) evs" and k: "k < 2147483648"
    and wf: "order_event_wf ev"
  shows "served cfg cap n k (desk_serve cap ev d) op evs (dispatch (order_event_image ev) (op, e, fp))"
proof -
  let ?dec = "\<lparr>dec_buf = order_event_image ev @ [], dec_root_len = order_event_len ev - 8\<rparr>"
  have "decode_order_path_message (order_event_image ev @ []) = Ok (order_event_message ev ?dec)"
    by (rule decode_order_by_header) (simp_all only: order_image_windows, simp)
  then have dec: "decode_order_path_message (order_event_image ev) = Ok (order_event_message ev ?dec)" by simp
  have view: "view_order_event (order_event_message ev ?dec) = Ok ev" by (rule view_order_event_image [OF wf])
  have less: "path_rel cap (n + 33) d op" "path_rel cap (Suc n) d op" "path_rel cap n d op" by (rule path_rel_less [OF rel]; simp)+
  show ?thesis
  proof (cases ev)
    case (OpNew c p q y s)
    show ?thesis using serve_new [OF less(1) en k view [unfolded OpNew order_event_message.simps] wf [unfolded OpNew]] dec
      unfolding OpNew order_event_message.simps by (simp add: dispatch_def del: order_event_image.simps desk_serve.simps)
  next
    case (OpCancel c i y s)
    show ?thesis using serve_cancel [OF less(2) en k view [unfolded OpCancel order_event_message.simps] wf [unfolded OpCancel]] dec
      unfolding OpCancel order_event_message.simps by (simp add: dispatch_def del: order_event_image.simps desk_serve.simps)
  next
    case (OpReconcile i)
    show ?thesis using serve_reconcile [OF rel en k view [unfolded OpReconcile order_event_message.simps]] dec
      unfolding OpReconcile order_event_message.simps by (simp add: dispatch_def del: order_event_image.simps desk_serve.simps)
  next
    case (OpExec c x t p q l y s et r)
    have "dispatch (order_event_image ev) (op, e, fp) = ((op, e, fp), Ok ())"
      using dec unfolding OpExec order_event_message.simps by (simp add: dispatch_def del: order_event_image.simps)
    moreover have "engine_part cfg (Suc k) (desk_serve cap ev d) (e, fp) (evs @ [])"
      using en small_books_idle [of k e evs "dk_books d" e] by (simp add: engine_part_def OpExec)
    ultimately show ?thesis unfolding served_def using less(3) by (metis OpExec desk_serve.simps(4) same_inbox_simps(1))
  qed
qed

section \<open>A pass\<close>

lemma inbox_pop:
  assumes "inbox op reqs" "pop_with (op_orders op) (op_orders_mem op) = ((c, mem), res)"
  shows "case reqs of [] \<Rightarrow> res = None \<and> inbox (op\<lparr>op_orders := c, op_orders_mem := mem\<rparr>) []
     | ev # evs \<Rightarrow> res = Some (order_event_image ev) \<and> inbox (op\<lparr>op_orders := c, op_orders_mem := mem\<rparr>) evs"
proof -
  obtain g p r where e: "ends_rel g p (op_orders op) (op_orders_mem op) r (map order_event_image reqs)" using assms(1) by (auto simp: inbox_def)
  from pop_ok [OF this assms(2)] show ?thesis by (cases reqs) (auto simp: inbox_def)
qed

lemma order_event_len_le: "order_event_len ev \<le> 56"
  by (cases ev) auto

lemma path_rel_inbox [simp]: "path_rel cap n d (op\<lparr>op_orders := c, op_orders_mem := mem\<rparr>) = path_rel cap n d op"
  by (simp add: path_rel_def outbox_def)

lemma engine_part_idle: "engine_part cfg k d ef evs \<Longrightarrow> engine_part cfg (m + k) d ef evs"
proof (induction m)
  case (Suc m)
  then show ?case using small_books_idle [of "m + k" "fst ef" evs "dk_books d" "fst ef"] by (simp add: engine_part_def)
qed simp

lemma pump_loop_ok:
  assumes "path_rel cap (n + m * 4097) d op" "engine_part cfg k d ef evs" "inbox op reqs" "list_all order_event_wf reqs" "k + m \<le> 2147483648"
  shows "\<exists>op' ef' new. pump_loop m (op, ef) = ((op', ef'), Ok (min m (length reqs))) \<and>
     path_rel cap n (fold (desk_serve cap) (take m reqs) d) op' \<and> inbox op' (drop m reqs) \<and>
     engine_part cfg (k + m) (fold (desk_serve cap) (take m reqs) d) ef' (evs @ new)"
  using assms
proof (induction m arbitrary: d op ef evs reqs k)
  case 0
  then show ?case by (intro exI [of _ op] exI [of _ ef] exI [of _ "[]"]) simp
next
  case (Suc m)
  obtain c mem res where p: "pop_with (op_orders op) (op_orders_mem op) = ((c, mem), res)" by (metis surj_pair)
  note P = inbox_pop [OF Suc.prems(3) p]
  let ?op = "op\<lparr>op_orders := c, op_orders_mem := mem\<rparr>"
  show ?case
  proof (cases reqs)
    case Nil
    have "path_rel cap n d ?op" using path_rel_less [OF Suc.prems(1), of n] by simp
    moreover have "engine_part cfg (k + Suc m) d ef (evs @ [])" using engine_part_idle [OF Suc.prems(2), of "Suc m"] by (simp add: add.commute)
    ultimately show ?thesis using P p Nil by (intro exI [of _ ?op] exI [of _ ef] exI [of _ "[]"]) simp
  next
    case (Cons ev rest)
    obtain e fp where ef: "ef = (e, fp)" by fastforce
    have P': "res = Some (order_event_image ev)" "inbox ?op rest" using P Cons by auto
    have w: "order_event_wf ev" "list_all order_event_wf rest" "k < 2147483648" "Suc k + m \<le> 2147483648" using Suc.prems(4,5) Cons by auto
    have "path_rel cap ((n + m * 4097) + 4097) d ?op" using Suc.prems(1) by (simp add: algebra_simps)
    from dispatch_ok [OF this Suc.prems(2) [unfolded ef] w(3,1)] obtain op1 ef1 new1 where
      s: "dispatch (order_event_image ev) (?op, ef) = ((op1, ef1), Ok ())" "path_rel cap (n + m * 4097) (desk_serve cap ev d) op1"
         "same_inbox ?op op1" "engine_part cfg (Suc k) (desk_serve cap ev d) ef1 (evs @ new1)"
      unfolding served_def ef by blast
    have "inbox op1 rest" using P'(2) s(3) by simp
    from Suc.IH [OF s(2,4) this w(2,4)] obtain op' ef' new2 where
      i: "pump_loop m (op1, ef1) = ((op', ef'), Ok (min m (length rest)))"
         "path_rel cap n (fold (desk_serve cap) (take m rest) (desk_serve cap ev d)) op'" "inbox op' (drop m rest)"
         "engine_part cfg (Suc k + m) (fold (desk_serve cap) (take m rest) (desk_serve cap ev d)) ef' ((evs @ new1) @ new2)" by blast
    have "take 256 (order_event_image ev) = order_event_image ev" using order_event_len_le [of ev] by simp
    then have "pump_loop (Suc m) (op, ef) = ((op', ef'), Ok (min (Suc m) (length reqs)))"
      using p P'(1) s(1) i(1) Cons by (simp add: sbind_def)
    then show ?thesis using i(2-4) Cons by (intro exI [of _ op'] exI [of _ ef'] exI [of _ "new1 @ new2"]) simp
  qed
qed

lemma watch_fields [simp]:
  "en_watched (fold watch_order ids e) = fold (\<lambda>i w. if i \<in> set w then w else insort i w) ids (en_watched e)"
  "en_watched (fold unwatch_order ids e) = fold remove1 ids (en_watched e)"
  by (induction ids arbitrary: e) (auto simp: watch_order_def unwatch_order_def)

lemma watch_frame:
  "\<exists>w. fold watch_order ids e = e\<lparr>en_watched := w\<rparr>" "\<exists>w. fold unwatch_order ids e = e\<lparr>en_watched := w\<rparr>"
proof -
  have "\<exists>w. fold f ids e = e\<lparr>en_watched := w\<rparr>" if f: "\<And>i e. \<exists>w. f i e = e\<lparr>en_watched := w\<rparr>" for f :: "nat \<Rightarrow> engine \<Rightarrow> engine"
  proof (induction ids arbitrary: e)
    case Nil
    show ?case by (intro exI [of _ "en_watched e"]) simp
  next
    case (Cons i ids)
    obtain w where "f i e = e\<lparr>en_watched := w\<rparr>" using f by blast
    then show ?case using Cons [of "f i e"] by auto
  qed
  moreover have "\<exists>w. watch_order i e = e\<lparr>en_watched := w\<rparr>" for i e
    by (cases "i \<in> set (en_watched e)") (auto simp: watch_order_def intro: exI [of _ "en_watched e"])
  moreover have "\<exists>w. unwatch_order i e = e\<lparr>en_watched := w\<rparr>" for i e by (auto simp: unwatch_order_def)
  ultimately show "\<exists>w. fold watch_order ids e = e\<lparr>en_watched := w\<rparr>" "\<exists>w. fold unwatch_order ids e = e\<lparr>en_watched := w\<rparr>" by blast+
qed

lemma apply_watches_ok:
  assumes "engine_part cfg k d (e, fp) evs" "op_to_watch op = dk_to_watch d" "op_finished op = dk_finished d"
  shows "engine_part cfg k (desk_watch d) (fst (take_passive_fills (apply_watches op e)), fp) evs"
    "snd (take_passive_fills (apply_watches op e)) = en_passive_fills e"
proof -
  obtain w where w: "apply_watches op e = e\<lparr>en_watched := w\<rparr>"
    using watch_frame(1) [of "op_to_watch op" e] watch_frame(2) [of "op_finished op" "fold watch_order (op_to_watch op) e"]
    unfolding apply_watches_def by fastforce
  have ww: "w = en_watched (apply_watches op e)" using w by simp
  have "w = dk_watched (desk_watch d)" unfolding ww using assms by (simp add: apply_watches_def desk_watch_def engine_part_def)
  then show "engine_part cfg k (desk_watch d) (fst (take_passive_fills (apply_watches op e)), fp) evs"
    using assms(1) unfolding w by (auto simp: engine_part_def take_passive_fills_def desk_watch_def engine_inv_def small_books_def)
  show "snd (take_passive_fills (apply_watches op e)) = en_passive_fills e" by (simp add: w take_passive_fills_def)
qed

lemma desk_rest [simp]:
  "engine_part cfg k (dk_drop m d) ef evs = engine_part cfg k d ef evs"
  "engine_part cfg k (fold (desk_passive cap) fs d) ef evs = engine_part cfg k d ef evs"
  by (simp_all add: engine_part_def)

lemma pump_ok:
  assumes rel: "path_rel cap (n + 64 * 4097 + 32) d op" and en: "engine_part cfg k d (e, fp) evs" and ib: "inbox op reqs"
    and wf: "list_all order_event_wf reqs" "k + 64 \<le> 2147483648"
  shows "\<exists>op' ef' new. pump (op, e, fp) = ((op', ef'), Ok (min 64 (length reqs))) \<and>
     path_rel cap n (desk_pass cap (en_passive_fills e) reqs d) op' \<and> inbox op' (drop 64 reqs) \<and>
     engine_part cfg (k + 64) (desk_pass cap (en_passive_fills e) reqs d) ef' (evs @ new)"
proof -
  define op0 where "op0 = op\<lparr>op_to_watch := [], op_finished := []\<rparr>"
  define e' where "e' = fst (take_passive_fills (apply_watches op e))"
  let ?pf = "en_passive_fills e"
  have q: "op_to_watch op = dk_to_watch d" "op_finished op = dk_finished d" using rel by (auto simp: path_rel_def)
  note w = apply_watches_ok [OF en q]
  have tk: "take_passive_fills (apply_watches op e) = (e', ?pf)" using w(2) by (simp add: e'_def prod_eq_iff)
  have r0: "path_rel cap (32 + (n + 64 * 4097)) (desk_watch d) op0" using rel by (simp add: path_rel_def outbox_def op0_def desk_watch_def add.commute)
  have "refines cap (length (take 32 ?pf) + (n + 64 * 4097)) (n + 64 * 4097) (sbind (for_each report_passive_fill (take 32 ?pf)) (\<lambda>_.
        supdate (\<lambda>op. if 0 < length ?pf - 32 then count_dropped (length ?pf - 32) op else op)))
      (\<lambda>d. dk_drop (length ?pf - 32) (fold (desk_passive cap) (take 32 ?pf) d))"
    by (rule refines_bind [OF refines_for_each refines_overflow]) (rule refines_passive)
  then have rf: "refines cap (32 + (n + 64 * 4097)) (n + 64 * 4097) (sbind (for_each report_passive_fill (take 32 ?pf)) (\<lambda>_.
        supdate (\<lambda>op. if 0 < length ?pf - 32 then count_dropped (length ?pf - 32) op else op)))
      (\<lambda>d. dk_drop (length ?pf - 32) (fold (desk_passive cap) (take 32 ?pf) d))" by (rule refines_less) auto
  obtain op1 where s: "sbind (for_each report_passive_fill (take 32 ?pf)) (\<lambda>_.
        supdate (\<lambda>op. if 0 < length ?pf - 32 then count_dropped (length ?pf - 32) op else op)) op0 = (op1, Ok ())"
      "path_rel cap (n + 64 * 4097) (dk_drop (length ?pf - 32) (fold (desk_passive cap) (take 32 ?pf) (desk_watch d))) op1" "same_inbox op0 op1"
    by (rule refinesD [OF rf r0])
  have "inbox op0 reqs" using ib by (simp add: inbox_def op0_def)
  then have ib1: "inbox op1 reqs" using s(3) by simp
  have en1: "engine_part cfg k (dk_drop (length ?pf - 32) (fold (desk_passive cap) (take 32 ?pf) (desk_watch d))) (e', fp) evs"
    using w(1) by (simp add: e'_def)
  have run: "pump (op, e, fp) = pump_loop 64 (op1, e', fp)"
  proof -
    define fs where "fs = take 32 ?pf"
    define ov where "ov = length ?pf - 32"
    obtain x where x: "for_each report_passive_fill fs op0 = (x, Ok ())" "op1 = (if 0 < ov then count_dropped ov x else x)"
      using s(1) unfolding fs_def [symmetric] ov_def [symmetric] by (auto simp: sbind_eq_Ok)
    show ?thesis unfolding pump_def prod.case tk op0_def [symmetric] Let_def fs_def [symmetric] ov_def [symmetric] x(2)
      by (simp add: sbind_Ok [where x = "()"] x(1))
  qed
  show ?thesis unfolding run desk_pass_def by (rule pump_loop_ok [OF s(2) en1 ib1 wf])
qed

section \<open>A path that was just opened\<close>

definition desk_open :: "engine \<Rightarrow> desk" where
  "desk_open e = \<lparr>dk_books = (\<lambda>_. []), dk_order_id = en_next_order_id e, dk_trade_id = en_next_trade_id e, dk_owned = [],
     dk_reports = [], dk_dropped = 0, dk_watched = en_watched e, dk_to_watch = [], dk_finished = []\<rparr>"

lemma path_opened:
  assumes "ring_create io1 f1 cap1 n1 = (Some mem1, Ok g1)" "cap1 < 2 ^ 32" "n1 < 2 ^ 32"
    and "ring_create io2 f2 cap2 n2 = (Some mem2, Ok g2)" "cap2 < 2 ^ 32" "n2 < 2 ^ 32" and n: "n < 2 ^ 63"
    and io: "io_open i = None" "io_stat i = None" "io_map i = None"
  shows "\<exists>op. OrderPath_open (i, i) mem1 (i, i) mem2 = Ok op \<and> path_rel cap2 n (desk_open e) op \<and>
     op_orders op = into_consumer g1 mem1 \<and> op_orders_mem op = mem1"
proof -
  note o = open_created [OF assms(1-3) io] open_created [OF assms(4-6) io]
  note E2 = created_ends [OF assms(4-6)]
  obtain op where op: "OrderPath_open (i, i) mem1 (i, i) mem2 = Ok op" "op_orders op = into_consumer g1 mem1" "op_orders_mem op = mem1"
      "op_reports op = into_producer g2 mem2" "op_reports_mem op = mem2" "op_scratch op = replicate 256 0" "op_owned op = []"
      "ps_reports_dropped (op_stats op) = 0" "op_to_watch op = []" "op_finished op = []"
    by (simp add: OrderPath_open_def o)
  have "outbox cap2 n op []" unfolding outbox_def op using E2 n by (intro exI [of _ g2] exI [of _ "into_consumer g2 mem2"] exI [of _ 0]) auto
  then have "path_rel cap2 n (desk_open e) op" by (simp add: path_rel_def op desk_open_def)
  then show ?thesis using op(1-3) by blast
qed

section \<open>Properties\<close>

text \<open>C13: a pass of the order path serves its requests as the desk does. Whatever the rings hold, one call of \<open>pump\<close> brings the
  engine's watch list up to date, reports the fills of resting orders (the first 32, the rest counted), takes up to 64 requests
  off the ring in order and answers each with exactly its reports: a new order with a report for each of its first 32 fills in
  price-time priority, under the trade ids the feed carries, and an acknowledgement of what rests; a cancel with the quantity taken off the book, or a
  reject; a reconciliation with the status of every owned order that still rests and a count of the lines sent. A report that
  finds the ring full is counted as dropped, never lost silently, and the books, the published events and the owned orders are
  those of the desk.\<close>

theorem pump_serves_the_order_path:
  assumes "path_rel cap (n + 262240) d op" "engine_part cfg k d (e, fp) evs" "inbox op requests"
    and "list_all order_event_wf requests" "k + 64 \<le> 2147483648"
  shows "\<exists>op' ef' new. pump (op, e, fp) = ((op', ef'), Ok (min 64 (length requests))) \<and>
     path_rel cap n (desk_pass cap (en_passive_fills e) requests d) op' \<and> inbox op' (drop 64 requests) \<and>
     engine_part cfg (k + 64) (desk_pass cap (en_passive_fills e) requests d) ef' (evs @ new)"
proof -
  have "path_rel cap (n + 64 * 4097 + 32) d op" using assms(1) by (simp add: add.commute)
  then show ?thesis by (rule pump_ok [OF _ assms(2-5)])
qed

theorem pump_serves_the_order_path_witness:
  "\<exists>op mem op' ef'. OrderPath_open (sample_io, sample_io) sample_ring (sample_io, sample_io) sample_ring = Ok op \<and>
     push (order_event_image (OpNew 7 100 5 3 Bid)) (into_producer \<lparr>rg_capacity = 2, rg_slot_size = 64\<rparr> sample_ring) sample_ring = (mem, Ok ()) \<and>
     pump (op\<lparr>op_orders_mem := snd mem\<rparr>, engine_new [], sample_feed) = ((op', ef'), Ok 1) \<and>
     outbox 2 0 op' [OpExec 7 1 0 100 5 5 3 Bid Acknowledged NotRejected]"
proof -
  let ?g = "\<lparr>rg_capacity = 2, rg_slot_size = 64\<rparr>" and ?ev = "OpNew 7 100 5 3 Bid" and ?e = "engine_new []"
  have wf: "order_event_wf ?ev" by (simp add: in_i64_def)
  obtain op where op: "OrderPath_open (sample_io, sample_io) sample_ring (sample_io, sample_io) sample_ring = Ok op"
      "path_rel 2 262240 (desk_open ?e) op" "op_orders op = into_consumer ?g sample_ring" "op_orders_mem op = sample_ring"
    using path_opened [OF sample_created _ _ sample_created, of 262240 sample_io ?e] by (auto simp: sample_io_def)
  obtain p mem res where push: "push (order_event_image ?ev) (into_producer ?g sample_ring) sample_ring = ((p, mem), res)" by (metis surj_pair)
  have "ends_rel ?g (into_producer ?g sample_ring) (into_consumer ?g sample_ring) sample_ring 0 []"
    by (rule created_ends(1) [OF sample_created]) simp_all
  from push_ok [OF this _ push] have ends: "res = Ok ()" "ends_rel ?g p (into_consumer ?g sample_ring) mem 0 [order_event_image ?ev]"
    by (simp_all add: max_message_len_def del: order_event_image.simps)
  let ?op = "op\<lparr>op_orders_mem := mem\<rparr>"
  have i: "inbox ?op [?ev]" unfolding inbox_def using ends(2) op(3) by (auto simp del: order_event_image.simps)
  have r: "path_rel 2 (0 + 262240) (desk_open ?e) ?op" using op(2) by (simp add: path_rel_def outbox_def)
  have en: "engine_part (0, Independent) 0 (desk_open ?e) (?e, sample_feed) []"
    using engine_inv_new [OF sample_feed_fresh] small_books_new by (simp add: engine_part_def desk_open_def)
  have rep: "dk_reports (desk_pass 2 (en_passive_fills ?e) [?ev] (desk_open ?e)) = [OpExec 7 1 0 100 5 5 3 Bid Acknowledged NotRejected]"
    by (simp add: desk_pass_def desk_watch_def desk_open_def engine_new_def Let_def alloc_fills_def fill_reports_def dk_own_def dk_post_def
        dk_drop_def spec_queue_def spec_side_def)
  have w: "list_all order_event_wf [?ev]" using wf by simp
  obtain op' ef' where P: "pump (?op, ?e, sample_feed) = ((op', ef'), Ok (min 64 (length [?ev])))"
      "path_rel 2 0 (desk_pass 2 (en_passive_fills ?e) [?ev] (desk_open ?e)) op'"
    using pump_serves_the_order_path [OF r en i w] by auto
  have "outbox 2 0 op' [OpExec 7 1 0 100 5 5 3 Bid Acknowledged NotRejected]" using P(2) unfolding path_rel_def rep by blast
  then show ?thesis using op(1) push P(1) ends(1) by (intro exI [of _ op] exI [of _ "(p, mem)"] exI [of _ op'] exI [of _ ef']) simp
qed

end
