(* ===== verification/ReplayStore.thy ===== *)
theory ReplayStore
  imports Packet
begin

text \<open>
  The replay service's history, \<open>crates/replay-service/src/store.rs\<close>: a ring of published datagrams that is
  contiguous at every moment. The invariant relates the ring to the list of datagrams it holds, oldest
  first; filing and locating are compared with their definitions on that list.
\<close>

section \<open>The store\<close>

datatype replay_status = StatusOk | TooOld | NotYet | Incomplete | BadRequest

record store_slot =
  ss_first :: nat
  ss_count :: nat
  ss_len :: nat
  ss_buf :: bytes

record store_stats =
  st_datagrams_stored :: nat
  st_messages_stored :: nat
  st_datagrams_evicted :: nat
  st_discontinuities :: nat
  st_duplicates :: nat

record located =
  lc_status :: replay_status
  lc_start :: nat
  lc_end :: nat

record datagram_store =
  ds_slots :: "store_slot list"
  ds_head :: nat
  ds_len :: nat
  ds_first :: nat
  ds_next :: nat
  ds_stats :: store_stats

datatype push_refusal = DoesNotDecode | IsSnapshot | LargerThanStore

definition store_new :: "nat \<Rightarrow> nat \<Rightarrow> datagram_store" where
  "store_new capacity max_datagram_bytes =
     \<lparr>ds_slots = replicate (max capacity 1) \<lparr>ss_first = 0, ss_count = 0, ss_len = 0, ss_buf = replicate max_datagram_bytes 0\<rparr>,
      ds_head = 0, ds_len = 0, ds_first = 0, ds_next = 0,
      ds_stats = \<lparr>st_datagrams_stored = 0, st_messages_stored = 0, st_datagrams_evicted = 0, st_discontinuities = 0, st_duplicates = 0\<rparr>\<rparr>"

text \<open>Where the datagram stands against what is held: \<open>None\<close> when it is a duplicate.\<close>

definition store_admit :: "nat \<Rightarrow> datagram_store \<Rightarrow> datagram_store option" where
  "store_admit first s =
     (if ds_len s = 0 then Some (s\<lparr>ds_first := first, ds_next := first\<rparr>)
      else if first < ds_next s then None
      else if first > ds_next s then
        Some (s\<lparr>ds_head := 0, ds_len := 0, ds_first := first, ds_next := first,
           ds_stats := (ds_stats s)\<lparr>st_discontinuities := wrap_add_u64 (st_discontinuities (ds_stats s)) 1,
             st_datagrams_evicted := wrap_add_u64 (st_datagrams_evicted (ds_stats s)) (ds_len s)\<rparr>\<rparr>)
      else Some s)"

definition store_evict :: "datagram_store \<Rightarrow> (push_refusal, datagram_store) outcome" where
  "store_evict s =
     (if ds_len s = length (ds_slots s) then
        if ds_head s < length (ds_slots s) then
          let evicted = ds_slots s ! ds_head s in
          Ok (s\<lparr>ds_first := wrap_add_u64 (ss_first evicted) (ss_count evicted),
                ds_head := (ds_head s + 1) mod length (ds_slots s), ds_len := ds_len s - 1,
                ds_stats := (ds_stats s)\<lparr>st_datagrams_evicted := wrap_add_u64 (st_datagrams_evicted (ds_stats s)) 1\<rparr>\<rparr>)
        else Panic
      else Ok s)"

definition store_write :: "nat \<Rightarrow> nat \<Rightarrow> bytes \<Rightarrow> datagram_store \<Rightarrow> datagram_store \<times> (push_refusal, unit) outcome" where
  "store_write first count datagram s =
     (if ds_slots s = [] then (s, Panic)
      else let index = (ds_head s + ds_len s) mod length (ds_slots s); slot = ds_slots s ! index in
        if length datagram > length (ss_buf slot) then (s, Err LargerThanStore)
        else (s\<lparr>ds_slots := (ds_slots s)[index := \<lparr>ss_first = first, ss_count = count, ss_len = length datagram,
                  ss_buf = patch 0 datagram (ss_buf slot)\<rparr>],
                ds_len := ds_len s + 1, ds_next := wrap_add_u64 first count,
                ds_stats := (ds_stats s)\<lparr>st_datagrams_stored := wrap_add_u64 (st_datagrams_stored (ds_stats s)) 1,
                  st_messages_stored := wrap_add_u64 (st_messages_stored (ds_stats s)) count\<rparr>\<rparr>, Ok ()))"

definition store_file :: "nat \<Rightarrow> nat \<Rightarrow> bytes \<Rightarrow> datagram_store \<Rightarrow> datagram_store \<times> (push_refusal, unit) outcome" where
  "store_file first count datagram s =
     (if count = 0 then (s, Ok ())
      else case store_admit first s of
        None \<Rightarrow> (s\<lparr>ds_stats := (ds_stats s)\<lparr>st_duplicates := wrap_add_u64 (st_duplicates (ds_stats s)) 1\<rparr>\<rparr>, Ok ())
      | Some s1 \<Rightarrow>
          (case store_evict s1 of
             Ok s2 \<Rightarrow> store_write first count datagram s2
           | Err e \<Rightarrow> (s1, Err e)
           | Panic \<Rightarrow> (s1, Panic)))"

definition store_push :: "bytes \<Rightarrow> datagram_store \<Rightarrow> datagram_store \<times> (push_refusal, unit) outcome" where
  "store_push datagram s =
     (case PacketHeader_wrap datagram of
        Err _ \<Rightarrow> (s, Err DoesNotDecode)
      | Panic \<Rightarrow> (s, Panic)
      | Ok header \<Rightarrow>
          (case PacketHeader_is_snapshot header of
             Ok True \<Rightarrow> (s, Err IsSnapshot)
           | Ok False \<Rightarrow>
               (case (PacketHeader_first_sequence header, PacketHeader_message_count header) of
                  (Ok first, Ok count) \<Rightarrow> store_file first count datagram s
                | _ \<Rightarrow> (s, Panic))
           | _ \<Rightarrow> (s, Panic)))"

definition slot_at :: "datagram_store \<Rightarrow> nat \<Rightarrow> store_slot" where
  "slot_at s i = ds_slots s ! ((ds_head s + i) mod length (ds_slots s))"

fun locate_scan :: "nat \<Rightarrow> nat \<Rightarrow> nat \<Rightarrow> store_slot list \<Rightarrow> nat option \<Rightarrow> nat \<Rightarrow> nat option \<times> nat" where
  "locate_scan lo hi i [] start fin = (start, fin)"
| "locate_scan lo hi i (slot # slots) start fin =
     (let slot_end = wrap_add_u64 (ss_first slot) (ss_count slot) in
      if slot_end \<le> lo then locate_scan lo hi (Suc i) slots start fin
      else let start = (case start of None \<Rightarrow> Some i | Some k \<Rightarrow> Some k) in
        if slot_end > hi then (start, Suc i) else locate_scan lo hi (Suc i) slots start (Suc i))"

definition locate :: "nat \<Rightarrow> nat \<Rightarrow> datagram_store \<Rightarrow> located" where
  "locate lo hi s =
     (let miss = (\<lambda>status. \<lparr>lc_status = status, lc_start = 0, lc_end = 0\<rparr>) in
      if lo > hi then miss BadRequest
      else if ds_len s = 0 then miss TooOld
      else if lo < ds_first s then miss TooOld
      else if hi \<ge> ds_next s then miss NotYet
      else case locate_scan lo hi 0 (map (slot_at s) [0..<ds_len s]) None 0 of
        (Some start, fin) \<Rightarrow> \<lparr>lc_status = StatusOk, lc_start = start, lc_end = fin\<rparr>
      | (None, _) \<Rightarrow> miss Incomplete)"

definition datagram_at :: "nat \<Rightarrow> datagram_store \<Rightarrow> bytes option" where
  "datagram_at i s = (if i \<ge> ds_len s then None else Some (take (ss_len (slot_at s i)) (ss_buf (slot_at s i))))"

section \<open>The history it stands for\<close>

text \<open>A datagram with the sequences it carries: first, count, bytes.\<close>

type_synonym held_datagram = "nat \<times> nat \<times> bytes"

abbreviation hd_end :: "held_datagram \<Rightarrow> nat" where "hd_end x \<equiv> fst x + fst (snd x)"

fun chained :: "nat \<Rightarrow> held_datagram list \<Rightarrow> bool" where
  "chained n [] = True"
| "chained n (x # h) \<longleftrightarrow> fst x = n \<and> 0 < fst (snd x) \<and> chained (hd_end x) h"

definition hist_end :: "nat \<Rightarrow> held_datagram list \<Rightarrow> nat" where
  "hist_end n h = n + sum_list (map (\<lambda>x. fst (snd x)) h)"

text \<open>Filing a datagram: a duplicate changes nothing, a hole discards what was held, a full history loses its oldest.\<close>

definition hist_file :: "nat \<Rightarrow> nat \<Rightarrow> held_datagram \<Rightarrow> held_datagram list \<Rightarrow> held_datagram list" where
  "hist_file cap limit x h =
     (if fst (snd x) = 0 \<or> (h \<noteq> [] \<and> fst x < hist_end (fst (hd h)) h) then h
      else let base = (if h \<noteq> [] \<and> fst x = hist_end (fst (hd h)) h then h else []);
               kept = (if length base = cap then tl base else base)
           in if length (snd (snd x)) > limit then kept else kept @ [x])"

definition datagram_range :: "bytes \<Rightarrow> (nat \<times> nat) option" where
  "datagram_range d = (case PacketHeader_wrap d of
     Ok b \<Rightarrow> if PacketHeader_is_snapshot b = Ok False
        then (case (PacketHeader_first_sequence b, PacketHeader_message_count b) of (Ok f, Ok c) \<Rightarrow> Some (f, c) | _ \<Rightarrow> None) else None
   | _ \<Rightarrow> None)"

definition hist_push :: "nat \<Rightarrow> nat \<Rightarrow> bytes \<Rightarrow> held_datagram list \<Rightarrow> held_datagram list" where
  "hist_push cap limit d h = (case datagram_range d of None \<Rightarrow> h | Some (f, c) \<Rightarrow> hist_file cap limit (f, c, d) h)"

definition hist_locate :: "nat \<Rightarrow> nat \<Rightarrow> held_datagram list \<Rightarrow> located" where
  "hist_locate lo hi h =
     (let miss = (\<lambda>status. \<lparr>lc_status = status, lc_start = 0, lc_end = 0\<rparr>) in
      if lo > hi then miss BadRequest
      else if h = [] \<or> lo < fst (hd h) then miss TooOld
      else if hi \<ge> hist_end (fst (hd h)) h then miss NotYet
      else \<lparr>lc_status = StatusOk, lc_start = length (takeWhile (\<lambda>x. hd_end x \<le> lo) h),
             lc_end = length (takeWhile (\<lambda>x. fst x \<le> hi) h)\<rparr>)"

definition slot_holds_datagram :: "store_slot \<Rightarrow> held_datagram \<Rightarrow> bool" where
  "slot_holds_datagram sl x \<longleftrightarrow> ss_first sl = fst x \<and> ss_count sl = fst (snd x) \<and> ss_len sl = length (snd (snd x)) \<and>
     take (ss_len sl) (ss_buf sl) = snd (snd x)"

definition store_rel :: "nat \<Rightarrow> nat \<Rightarrow> datagram_store \<Rightarrow> held_datagram list \<Rightarrow> bool" where
  "store_rel cap limit s h \<longleftrightarrow> 0 < cap \<and> length (ds_slots s) = cap \<and> ds_head s < cap \<and> ds_len s = length h \<and> length h \<le> cap \<and>
     list_all (\<lambda>sl. length (ss_buf sl) = limit) (ds_slots s) \<and>
     (\<forall>i < length h. slot_holds_datagram (slot_at s i) (h ! i)) \<and>
     (h \<noteq> [] \<longrightarrow> chained (ds_first s) h \<and> ds_next s = hist_end (ds_first s) h \<and> ds_next s \<le> u64_max)"

lemma chained_hd: "chained n h \<Longrightarrow> h \<noteq> [] \<Longrightarrow> fst (hd h) = n"
  by (cases h) auto

lemma hist_end_simps [simp]: "hist_end n [] = n" "hist_end n (x # h) = hist_end (n + fst (snd x)) h"
  "hist_end n (h @ [x]) = hist_end n h + fst (snd x)"
  by (simp_all add: hist_end_def)

lemma hist_end_ge: "n \<le> hist_end n h"
  by (simp add: hist_end_def)

lemma chained_append: "chained n (h @ [x]) \<longleftrightarrow> chained n h \<and> fst x = hist_end n h \<and> 0 < fst (snd x)"
  by (induction h arbitrary: n) auto

lemma store_new_rel: "store_rel (max capacity 1) limit (store_new capacity limit) []"
  by (auto simp: store_rel_def store_new_def list_all_iff less_max_iff_disj)

section \<open>Filing\<close>

lemma evict_rel:
  assumes "store_rel cap limit s h"
  shows "\<exists>s'. store_evict s = Ok s' \<and> store_rel cap limit s' (if length h = cap then tl h else h) \<and> length (if length h = cap then tl h else h) < cap \<and>
     (tl h = [] \<and> length h = cap \<longrightarrow> ds_first s' = ds_next s) \<and> (length h \<noteq> cap \<longrightarrow> s' = s) \<and> ds_next s' = ds_next s"
proof (cases "length h = cap")
  case False
  then show ?thesis using assms by (auto simp: store_evict_def store_rel_def)
next
  case True
  have S: "0 < cap" "length (ds_slots s) = cap" "ds_head s < cap" "ds_len s = length h"
    "\<And>i. i < length h \<Longrightarrow> slot_holds_datagram (slot_at s i) (h ! i)" using assms by (auto simp: store_rel_def)
  obtain x t where h: "h = x # t" using True S(1) by (cases h) auto
  have c: "chained (ds_first s) h" "ds_next s = hist_end (ds_first s) h" "ds_next s \<le> u64_max" using assms h by (auto simp: store_rel_def)
  have x: "ss_first (ds_slots s ! ds_head s) = fst x" "ss_count (ds_slots s ! ds_head s) = fst (snd x)"
    using S(5) [of 0] S(2,3) h by (auto simp: slot_holds_datagram_def slot_at_def)
  have e: "wrap_add_u64 (fst x) (fst (snd x)) = hd_end x"
    using c hist_end_ge [of "hd_end x" t] by (simp add: h)
  let ?s = "s\<lparr>ds_first := hd_end x, ds_head := (ds_head s + 1) mod cap, ds_len := ds_len s - 1,
      ds_stats := (ds_stats s)\<lparr>st_datagrams_evicted := wrap_add_u64 (st_datagrams_evicted (ds_stats s)) 1\<rparr>\<rparr>"
  have run: "store_evict s = Ok ?s" using True S x e by (simp add: store_evict_def Let_def)
  have "slot_at ?s i = slot_at s (Suc i)" for i by (simp add: slot_at_def S(2) mod_add_left_eq)
  then have "store_rel cap limit ?s t" using assms h c S(1) unfolding store_rel_def
    by (auto simp: Suc_le_eq)
  then show ?thesis using run True h c S(1) by (auto simp: Suc_le_eq)
qed

lemma mod_ring_inj: "i < j \<Longrightarrow> j < c \<Longrightarrow> (k + i) mod c \<noteq> (k + j) mod (c :: nat)"
proof
  assume "i < j" "j < c" "(k + i) mod c = (k + j) mod c"
  then have "c dvd (k + j) - (k + i)" by (metis add_le_cancel_left less_imp_le mod_eq_dvd_iff_nat)
  then show False using \<open>i < j\<close> \<open>j < c\<close> by (auto dest: dvd_imp_le)
qed

lemma write_rel:
  assumes rel: "store_rel cap limit s h" and room: "length h < cap" and x: "0 < c" "f + c \<le> u64_max"
    and at: "h = [] \<longrightarrow> ds_first s = f" "h \<noteq> [] \<longrightarrow> ds_next s = f"
  shows "if length d > limit then store_write f c d s = (s, Err LargerThanStore)
     else \<exists>s'. store_write f c d s = (s', Ok ()) \<and> store_rel cap limit s' (h @ [(f, c, d)])"
proof -
  have S: "length (ds_slots s) = cap" "ds_head s < cap" "ds_len s = length h" "ds_slots s \<noteq> []"
    "\<And>sl. sl \<in> set (ds_slots s) \<Longrightarrow> length (ss_buf sl) = limit"
    "\<And>i. i < length h \<Longrightarrow> slot_holds_datagram (slot_at s i) (h ! i)"
    using rel room by (auto simp: store_rel_def list_all_iff)
  define ix where "ix = (ds_head s + length h) mod cap"
  have ix: "ix < cap" using room by (simp add: ix_def)
  have buf: "length (ss_buf (ds_slots s ! ix)) = limit" using S(1,5) ix by simp
  show ?thesis
  proof (cases "length d > limit")
    case True
    then show ?thesis using S buf by (simp add: store_write_def Let_def ix_def)
  next
    case False
    define sl where "sl = \<lparr>ss_first = f, ss_count = c, ss_len = length d, ss_buf = patch 0 d (ss_buf (ds_slots s ! ix))\<rparr>"
    define s' where "s' = s\<lparr>ds_slots := (ds_slots s)[ix := sl], ds_len := length h + 1, ds_next := f + c,
       ds_stats := (ds_stats s)\<lparr>st_datagrams_stored := wrap_add_u64 (st_datagrams_stored (ds_stats s)) 1,
         st_messages_stored := wrap_add_u64 (st_messages_stored (ds_stats s)) c\<rparr>\<rparr>"
    have run: "store_write f c d s = (s', Ok ())"
      using False S buf x(2) by (simp add: store_write_def Let_def ix_def [symmetric] s'_def sl_def)
    have pl: "length (patch 0 d (ss_buf (ds_slots s ! ix))) = limit" using buf False by simp
    have old: "slot_at s' i = slot_at s i" if "i < length h" for i
      using mod_ring_inj [OF that room, of "ds_head s"] by (simp add: slot_at_def s'_def S(1) ix_def)
    have new: "slot_at s' (length h) = sl" using ix by (simp add: slot_at_def s'_def S(1) ix_def [symmetric])
    have "slot_holds_datagram sl (f, c, d)" using buf False by (simp add: slot_holds_datagram_def sl_def patch_def)
    then have holds: "slot_holds_datagram (slot_at s' i) ((h @ [(f, c, d)]) ! i)" if "i < length (h @ [(f, c, d)])" for i
      using that S(6) old new by (cases "i = length h") (auto simp: nth_append)
    have "list_all (\<lambda>sl. length (ss_buf sl) = limit) (ds_slots s')"
      using S(5) pl by (auto simp: s'_def list_all_iff sl_def dest!: set_update_subset_insert [THEN subsetD])
    moreover have "chained (ds_first s') (h @ [(f, c, d)]) \<and> ds_next s' = hist_end (ds_first s') (h @ [(f, c, d)]) \<and> ds_next s' \<le> u64_max"
      using rel at x by (cases "h = []") (auto simp: s'_def store_rel_def chained_append)
    ultimately have "store_rel cap limit s' (h @ [(f, c, d)])"
      using rel room holds S(1-3) unfolding store_rel_def by (auto simp: s'_def)
    then show ?thesis using run False by auto
  qed
qed

lemma file_rel:
  assumes rel: "store_rel cap limit s h" and x: "f + c \<le> u64_max" and run: "store_file f c d s = (s', r)"
  shows "r \<noteq> Panic \<and> store_rel cap limit s' (hist_file cap limit (f, c, d) h)"
proof -
  have S: "0 < cap" "ds_len s = length h" "h \<noteq> [] \<Longrightarrow> ds_next s = hist_end (fst (hd h)) h"
    using rel chained_hd [of "ds_first s" h] by (auto simp: store_rel_def)
  show ?thesis
  proof (cases "c = 0 \<or> (h \<noteq> [] \<and> f < hist_end (fst (hd h)) h)")
    case True
    then have "s' = s \<or> (\<exists>st. s' = s\<lparr>ds_stats := st\<rparr>)" "r = Ok ()"
      using run S by (auto simp: store_file_def store_admit_def split: if_splits)
    then show ?thesis using rel True by (auto simp: hist_file_def store_rel_def slot_at_def)
  next
    case False
    define base where "base = (if h \<noteq> [] \<and> f = hist_end (fst (hd h)) h then h else [])"
    obtain s1 where s1: "store_admit f s = Some s1" "store_rel cap limit s1 base" "base = [] \<longrightarrow> ds_first s1 = f" "ds_next s1 = f"
    proof (cases "h = []")
      case True
      then show thesis using that [of "s\<lparr>ds_first := f, ds_next := f\<rparr>"] rel S
        by (auto simp: store_admit_def base_def store_rel_def)
    next
      case h: False
      show thesis
      proof (cases "f = hist_end (fst (hd h)) h")
        case True
        then show thesis using that [of s] rel S h by (auto simp: store_admit_def base_def)
      next
        case ne: False
        then have gt: "\<not> f < ds_next s" "ds_next s < f" using False h S(3) by auto
        show thesis
          by (rule that [of "s\<lparr>ds_head := 0, ds_len := 0, ds_first := f, ds_next := f,
             ds_stats := (ds_stats s)\<lparr>st_discontinuities := wrap_add_u64 (st_discontinuities (ds_stats s)) 1,
               st_datagrams_evicted := wrap_add_u64 (st_datagrams_evicted (ds_stats s)) (ds_len s)\<rparr>\<rparr>"])
             (use rel S h ne gt in \<open>auto simp: store_admit_def base_def store_rel_def\<close>)
      qed
    qed
    define kept where "kept = (if length base = cap then tl base else base)"
    obtain s2 where s2: "store_evict s1 = Ok s2" "store_rel cap limit s2 kept" "length kept < cap"
        "tl base = [] \<and> length base = cap \<longrightarrow> ds_first s2 = ds_next s1" "length base \<noteq> cap \<longrightarrow> s2 = s1" "ds_next s2 = ds_next s1"
      using evict_rel [OF s1(2)] unfolding kept_def by blast
    have k: "kept = [] \<longrightarrow> ds_first s2 = f" "kept \<noteq> [] \<longrightarrow> ds_next s2 = f" using s1(3,4) s2(4-6) S(1) by (auto simp: kept_def split: if_splits)
    have w: "store_file f c d s = store_write f c d s2" using False s1(1) s2(1) by (simp add: store_file_def)
    have "hist_file cap limit (f, c, d) h = (if length d > limit then kept else kept @ [(f, c, d)])"
      using False by (auto simp: hist_file_def Let_def kept_def base_def)
    moreover have "0 < c" using False by simp
    note write_rel [OF s2(2,3) this x k, of d]
    ultimately show ?thesis using run w s2(2) by (auto split: if_splits)
  qed
qed

lemma push_rel:
  assumes rel: "store_rel cap limit s h" and fits: "\<And>f c. datagram_range d = Some (f, c) \<Longrightarrow> f + c \<le> u64_max"
    and run: "store_push d s = (s', r)"
  shows "r \<noteq> Panic \<and> store_rel cap limit s' (hist_push cap limit d h)"
proof (cases "datagram_range d")
  case None
  then have "s' = s \<and> r \<noteq> Panic" using run
    by (auto simp: store_push_def datagram_range_def PacketHeader_wrap_def PacketHeader_schema_id_def PacketHeader_is_snapshot_def PacketHeader_flags_def
        PacketHeader_first_sequence_def PacketHeader_message_count_def le_u8_def le_u16_def le_u64_def access_in_range outcome_simps
        split: outcome.splits bool.splits if_splits)
  then show ?thesis using rel None by (simp add: hist_push_def)
next
  case (Some fc)
  obtain f c where fc: "fc = (f, c)" by fastforce
  have "store_file f c d s = (s', r)" using run Some fc
    by (auto simp: store_push_def datagram_range_def PacketHeader_wrap_def outcome_simps split: outcome.splits bool.splits if_splits)
  from file_rel [OF rel fits this] Some fc show ?thesis by (simp add: hist_push_def)
qed

section \<open>Locating\<close>

lemma scan_rest:
  assumes "chained n h" "hist_end n h \<le> u64_max" "lo < n" "n \<le> hi" "hi < hist_end n h" "list_all2 slot_holds_datagram sls h"
  shows "locate_scan lo hi i sls (Some k) fin = (Some k, i + length (takeWhile (\<lambda>x. fst x \<le> hi) h))"
  using assms
proof (induction h arbitrary: n i sls fin)
  case (Cons x h)
  obtain sl sls' where sl: "sls = sl # sls'" "slot_holds_datagram sl x" "list_all2 slot_holds_datagram sls' h"
    using Cons.prems(6) by (auto simp: list_all2_Cons2)
  have e: "wrap_add_u64 (ss_first sl) (ss_count sl) = hd_end x" "fst x = n" "0 < fst (snd x)"
    using Cons.prems(1,2) sl(2) hist_end_ge [of "hd_end x" h] by (auto simp: slot_holds_datagram_def)
  show ?case
  proof (cases "hd_end x > hi")
    case True
    have "takeWhile (\<lambda>x. fst x \<le> hi) h = []" using True Cons.prems(1) by (cases h) auto
    then show ?thesis using sl(1) e True Cons.prems(3,4) by (simp add: Let_def)
  next
    case False
    then have "locate_scan lo hi (Suc i) sls' (Some k) (Suc i) = (Some k, Suc i + length (takeWhile (\<lambda>x. fst x \<le> hi) h))"
      using Cons.prems e sl(3) by (intro Cons.IH [of "hd_end x"]) auto
    then show ?thesis using sl(1) e False Cons.prems(3,4) by (simp add: Let_def)
  qed
qed simp

lemma scan_found:
  assumes "chained n h" "hist_end n h \<le> u64_max" "n \<le> lo" "lo \<le> hi" "hi < hist_end n h" "list_all2 slot_holds_datagram sls h"
  shows "locate_scan lo hi i sls None fin =
     (Some (i + length (takeWhile (\<lambda>x. hd_end x \<le> lo) h)), i + length (takeWhile (\<lambda>x. fst x \<le> hi) h))"
  using assms
proof (induction h arbitrary: n i sls fin)
  case (Cons x h)
  obtain sl sls' where sl: "sls = sl # sls'" "slot_holds_datagram sl x" "list_all2 slot_holds_datagram sls' h"
    using Cons.prems(6) by (auto simp: list_all2_Cons2)
  have e: "wrap_add_u64 (ss_first sl) (ss_count sl) = hd_end x" "fst x = n" "0 < fst (snd x)"
    using Cons.prems(1,2) sl(2) hist_end_ge [of "hd_end x" h] by (auto simp: slot_holds_datagram_def)
  consider (skip) "hd_end x \<le> lo" | (last) "lo < hd_end x" "hi < hd_end x" | (more) "lo < hd_end x" "hd_end x \<le> hi" by linarith
  then show ?case
  proof cases
    case skip
    then have "locate_scan lo hi (Suc i) sls' None fin =
        (Some (Suc i + length (takeWhile (\<lambda>x. hd_end x \<le> lo) h)), Suc i + length (takeWhile (\<lambda>x. fst x \<le> hi) h))"
      using Cons.prems e sl(3) by (intro Cons.IH [of "hd_end x"]) auto
    then show ?thesis using sl(1) e skip Cons.prems(3,4) by (simp add: Let_def)
  next
    case last
    have "takeWhile (\<lambda>x. fst x \<le> hi) h = []" using last(2) Cons.prems(1) by (cases h) auto
    then show ?thesis using sl(1) e last Cons.prems(3,4) by (simp add: Let_def)
  next
    case more
    have "locate_scan lo hi (Suc i) sls' (Some i) (Suc i) = (Some i, Suc i + length (takeWhile (\<lambda>x. fst x \<le> hi) h))"
      using Cons.prems e sl(3) more by (intro scan_rest [of "hd_end x"]) auto
    then show ?thesis using sl(1) e more Cons.prems(3,4) by (simp add: Let_def)
  qed
qed simp

lemma locate_rel:
  assumes "store_rel cap limit s h"
  shows "locate lo hi s = hist_locate lo hi h"
proof (cases "h = []")
  case False
  have S: "ds_len s = length h" "chained (ds_first s) h" "ds_next s = hist_end (ds_first s) h" "ds_next s \<le> u64_max" "fst (hd h) = ds_first s"
    using assms False chained_hd by (auto simp: store_rel_def)
  have "list_all2 slot_holds_datagram (map (slot_at s) [0..<ds_len s]) h" using assms by (simp add: store_rel_def list_all2_conv_all_nth)
  then show ?thesis using scan_found [of "ds_first s" h lo hi "map (slot_at s) [0..<ds_len s]" 0 0] S False
    by (simp add: locate_def hist_locate_def Let_def)
qed (use assms in \<open>auto simp: locate_def hist_locate_def store_rel_def Let_def\<close>)

lemma datagram_at_rel:
  assumes "store_rel cap limit s h"
  shows "datagram_at i s = (if i < length h then Some (snd (snd (h ! i))) else None)"
  using assms by (auto simp: datagram_at_def store_rel_def slot_holds_datagram_def)

section \<open>Histories\<close>

fun store_pushes :: "bytes list \<Rightarrow> datagram_store \<Rightarrow> datagram_store option" where
  "store_pushes [] s = Some s"
| "store_pushes (d # ds) s = (case store_push d s of (_, Panic) \<Rightarrow> None | (s', _) \<Rightarrow> store_pushes ds s')"

lemma pushes_rel:
  assumes "store_rel cap limit s h" "\<forall>d\<in>set ds. \<forall>f c. datagram_range d = Some (f, c) \<longrightarrow> f + c \<le> u64_max"
  shows "\<exists>s'. store_pushes ds s = Some s' \<and> store_rel cap limit s' (fold (hist_push cap limit) ds h)"
  using assms
proof (induction ds arbitrary: s h)
  case (Cons d ds)
  obtain s1 r where p: "store_push d s = (s1, r)" by fastforce
  have "r \<noteq> Panic \<and> store_rel cap limit s1 (hist_push cap limit d h)" using Cons.prems(2) by (intro push_rel [OF Cons.prems(1) _ p]) auto
  then show ?case using Cons.IH [of s1 "hist_push cap limit d h"] Cons.prems(2) p by (auto split: outcome.splits)
qed auto

lemma chained_takeWhile: "chained n h \<Longrightarrow> chained n (takeWhile P h)"
  by (induction h arbitrary: n) auto

lemma takeWhile_covers:
  "chained n h \<Longrightarrow> n \<le> hi \<Longrightarrow> hi < hist_end n h \<Longrightarrow> hi < hist_end n (takeWhile (\<lambda>x. fst x \<le> hi) h)"
proof (induction h arbitrary: n)
  case (Cons x h)
  show ?case
  proof (cases "hd_end x \<le> hi")
    case True
    then show ?thesis using Cons.IH [of "hd_end x"] Cons.prems by auto
  next
    case False
    then show ?thesis using Cons.prems hist_end_ge [of "hd_end x" "takeWhile (\<lambda>x. fst x \<le> hi) h"] by auto
  qed
qed simp

text \<open>What a successful lookup names: whole datagrams, without a hole, the first carrying the first message asked for and the
  last carrying the last.\<close>

definition covers :: "nat \<Rightarrow> nat \<Rightarrow> held_datagram list \<Rightarrow> bool" where
  "covers lo hi run \<longleftrightarrow> run \<noteq> [] \<and> chained (fst (hd run)) run \<and> fst (hd run) \<le> lo \<and> lo < hd_end (hd run) \<and> hi < hist_end (fst (hd run)) run \<and>
     fst (last run) \<le> hi"

definition named :: "located \<Rightarrow> 'a list \<Rightarrow> 'a list" where
  "named l xs = take (lc_end l - lc_start l) (drop (lc_start l) xs)"

lemma located_run:
  assumes "chained n h" "n \<le> lo" "lo \<le> hi" "hi < hist_end n h"
  shows "covers lo hi (take (length (takeWhile (\<lambda>x. fst x \<le> hi) h) - length (takeWhile (\<lambda>x. hd_end x \<le> lo) h))
       (drop (length (takeWhile (\<lambda>x. hd_end x \<le> lo) h)) h))"
  using assms
proof (induction h arbitrary: n)
  case (Cons x h)
  have x: "fst x = n" "0 < fst (snd x)" "chained (hd_end x) h" using Cons.prems(1) by auto
  show ?case
  proof (cases "hd_end x \<le> lo")
    case True
    then have "fst x \<le> hi" using Cons.prems(3) by linarith
    then show ?thesis using Cons.IH [OF x(3)] True Cons.prems(3,4) x(1) by simp
  next
    case False
    let ?w = "takeWhile (\<lambda>x. fst x \<le> hi) (x # h)"
    have tk: "take (length ?w) (x # h) = ?w" by (metis takeWhile_eq_take)
    have "n \<le> hi" using Cons.prems(2,3) by simp
    then have w: "hi < hist_end n ?w" "hd ?w = x" "?w \<noteq> []"
      using takeWhile_covers [OF Cons.prems(1) _ Cons.prems(4)] x(1) by auto
    have "chained n ?w" by (rule chained_takeWhile [OF Cons.prems(1)])
    have "fst (last ?w) \<le> hi" using last_in_set [OF w(3)] by (rule set_takeWhileD [THEN conjunct2])
    with \<open>chained n ?w\<close> have "covers lo hi ?w" using w False Cons.prems(2) x(1) by (simp add: covers_def)
    then show ?thesis using False tk by simp
  qed
qed simp

lemma hist_locate_covers:
  assumes "chained (fst (hd h)) h" "lc_status (hist_locate lo hi h) = StatusOk"
  shows "covers lo hi (named (hist_locate lo hi h) h)" "lc_end (hist_locate lo hi h) \<le> length h"
proof -
  have r: "fst (hd h) \<le> lo" "lo \<le> hi" "hi < hist_end (fst (hd h)) h" "h \<noteq> []"
    using assms(2) by (auto simp: hist_locate_def Let_def not_less not_le split: if_splits)
  have l: "hist_locate lo hi h = \<lparr>lc_status = StatusOk, lc_start = length (takeWhile (\<lambda>x. hd_end x \<le> lo) h),
      lc_end = length (takeWhile (\<lambda>x. fst x \<le> hi) h)\<rparr>" using r by (simp add: hist_locate_def Let_def)
  show "covers lo hi (named (hist_locate lo hi h) h)" unfolding named_def l using located_run [OF assms(1) r(1-3)] by simp
  show "lc_end (hist_locate lo hi h) \<le> length h" unfolding l by (simp add: length_takeWhile_le)
qed

section \<open>Properties\<close>

text \<open>C23: the replay history has no hole. Whatever datagrams the uplink delivers, filing them never panics and leaves the run of
  consecutive datagrams the history's definition gives: duplicates ignored, everything before a hole discarded, the oldest lost
  when the ring is full. A lookup answers exactly as that run dictates, too old, not yet or a bad request, and otherwise names
  whole consecutive datagrams of which the first carries the first message asked for and the last carries the last.\<close>

theorem replay_history_has_no_hole:
  assumes "\<forall>d\<in>set ds. \<forall>f c. datagram_range d = Some (f, c) \<longrightarrow> f + c \<le> u64_max"
  shows "\<exists>s. store_pushes ds (store_new capacity limit) = Some s \<and>
     (let h = fold (hist_push (max capacity 1) limit) ds [] in
        length h \<le> max capacity 1 \<and> chained (fst (hd h)) h \<and>
        (\<forall>i. datagram_at i s = (if i < length h then Some (snd (snd (h ! i))) else None)) \<and>
        (\<forall>lo hi. locate lo hi s = hist_locate lo hi h \<and>
           (lc_status (locate lo hi s) = StatusOk \<longrightarrow> covers lo hi (named (locate lo hi s) h) \<and> lc_end (locate lo hi s) \<le> length h)))"
proof -
  obtain s where s: "store_pushes ds (store_new capacity limit) = Some s"
      "store_rel (max capacity 1) limit s (fold (hist_push (max capacity 1) limit) ds [])"
    using pushes_rel [OF store_new_rel assms] by blast
  define h where "h = fold (hist_push (max capacity 1) limit) ds []"
  have rel: "store_rel (max capacity 1) limit s h" using s(2) by (simp add: h_def)
  have ch: "chained (fst (hd h)) h" using rel chained_hd [of "ds_first s" h] by (cases "h = []") (auto simp: store_rel_def)
  have len: "length h \<le> max capacity 1" using rel by (simp add: store_rel_def)
  show ?thesis unfolding h_def [symmetric] Let_def locate_rel [OF rel] datagram_at_rel [OF rel]
    using s(1) len hist_locate_covers [OF ch] ch datagram_at_rel [OF rel] locate_rel [OF rel] by (intro exI [of _ s]) simp
qed

text \<open>A datagram of one message, one that repeats it, one that leaves a hole behind it and a truncated one.\<close>

theorem replay_history_has_no_hole_witness:
  "\<exists>s. store_pushes [packet_header_image 0 0 1 9 1, packet_header_image 1 0 1 9 1, packet_header_image 0 0 5 9 2, [1, 2, 3]] (store_new 2 100) = Some s \<and>
     (\<forall>lo hi. locate lo hi s = hist_locate lo hi [(5, 2, packet_header_image 0 0 5 9 2)])"
proof -
  have r: "datagram_range (packet_header_image 0 0 1 9 1) = Some (1, 1)" "datagram_range (packet_header_image 1 0 1 9 1) = Some (1, 1)"
      "datagram_range (packet_header_image 0 0 5 9 2) = Some (5, 2)" "datagram_range [1, 2, 3] = None"
    using packet_header_image_fields [of 0 0 1 9 1 "[]"] packet_header_image_fields [of 1 0 1 9 1 "[]"] packet_header_image_fields [of 0 0 5 9 2 "[]"]
    by (simp_all add: datagram_range_def PacketHeader_is_snapshot_def PacketHeader_wrap_def)
  then show ?thesis
    using replay_history_has_no_hole [of "[packet_header_image 0 0 1 9 1, packet_header_image 1 0 1 9 1, packet_header_image 0 0 5 9 2, [1, 2, 3]]" 2 100]
    by (auto simp: hist_push_def hist_file_def hist_end_def Let_def)
qed

end
