(* ===== verification/ReplayService.thy ===== *)
theory ReplayService
  imports ReplayStore Feed
begin

text \<open>
  The replay service around its history: the two byte protocols of \<open>crates/replay-service/src/protocol.rs\<close>, the
  uplink and request handlers of its \<open>main.rs\<close>, and the consumer's request of \<open>client.rs\<close>. A connection is the
  bytes its peer wrote before it closed.
\<close>

section \<open>Protocol\<close>

abbreviation (input) MAGIC :: nat where "MAGIC \<equiv> 0x4D445250"
abbreviation (input) KIND_UPLINK_HELLO :: nat where "KIND_UPLINK_HELLO \<equiv> 1"
abbreviation (input) KIND_RANGE_REQUEST :: nat where "KIND_RANGE_REQUEST \<equiv> 2"
abbreviation (input) HELLO_LEN :: nat where "HELLO_LEN \<equiv> 12"
abbreviation (input) REQUEST_LEN :: nat where "REQUEST_LEN \<equiv> 24"
abbreviation (input) RESPONSE_HEADER_LEN :: nat where "RESPONSE_HEADER_LEN \<equiv> 28"
abbreviation (input) MAX_RESPONSE_DATAGRAMS :: nat where "MAX_RESPONSE_DATAGRAMS \<equiv> 65536"

datatype replay_error =
    UnexpectedEof
  | NotAnUplink
  | WrongKind nat
  | WrongSchema nat
  | WrongVersion nat
  | LongerThanU32
  | DoesNotFit nat nat
  | NotARequest
  | NotAResponse
  | UnknownStatus nat
  | OverTheCap nat
  | ClosedAfter nat nat

definition Status_to_u8 :: "replay_status \<Rightarrow> nat" where
  "Status_to_u8 st = (case st of StatusOk \<Rightarrow> 0 | TooOld \<Rightarrow> 1 | NotYet \<Rightarrow> 2 | Incomplete \<Rightarrow> 3 | BadRequest \<Rightarrow> 4)"

definition Status_from_u8 :: "nat \<Rightarrow> replay_status option" where
  "Status_from_u8 v = (if v = 0 then Some StatusOk else if v = 1 then Some TooOld else if v = 2 then Some NotYet
     else if v = 3 then Some Incomplete else if v = 4 then Some BadRequest else None)"

record range_request =
  rq_from :: nat
  rq_through :: nat

record response_header =
  rh_status :: replay_status
  rh_datagrams :: nat
  rh_first_available :: nat
  rh_last_available :: nat

definition rp_put :: "nat \<Rightarrow> nat \<Rightarrow> nat \<Rightarrow> bytes \<Rightarrow> bytes" where
  "rp_put n k v buf = patch k (to_le n v) buf"

definition rp_get :: "nat \<Rightarrow> nat \<Rightarrow> bytes \<Rightarrow> nat" where
  "rp_get n k buf = from_le (window k n buf)"

definition read_exact :: "nat \<Rightarrow> bytes \<Rightarrow> bytes \<times> (replay_error, bytes) outcome" where
  "read_exact n r = (if n \<le> length r then (drop n r, Ok (take n r)) else ([], Err UnexpectedEof))"

definition write_hello :: bytes where
  "write_hello = rp_put 2 8 SCHEMA_VERSION (rp_put 2 6 SCHEMA_ID (rp_put 1 4 KIND_UPLINK_HELLO (rp_put 4 0 MAGIC (replicate HELLO_LEN 0))))"

definition read_hello :: "bytes \<Rightarrow> bytes \<times> (replay_error, unit) outcome" where
  "read_hello = sbind (read_exact HELLO_LEN) (\<lambda>buf.
     if rp_get 4 0 buf \<noteq> MAGIC then sfail NotAnUplink
     else if rp_get 1 4 buf \<noteq> KIND_UPLINK_HELLO then sfail (WrongKind (rp_get 1 4 buf))
     else if rp_get 2 6 buf \<noteq> SCHEMA_ID then sfail (WrongSchema (rp_get 2 6 buf))
     else if rp_get 2 8 buf \<noteq> SCHEMA_VERSION then sfail (WrongVersion (rp_get 2 8 buf))
     else sreturn ())"

definition write_datagram :: "bytes \<Rightarrow> (replay_error, bytes) outcome" where
  "write_datagram datagram = (if length datagram > u32_max then Err LongerThanU32 else Ok (to_le 4 (length datagram) @ datagram))"

text \<open>A connection that ends inside the length prefix is taken for one that closed cleanly.\<close>

definition read_datagram :: "nat \<Rightarrow> bytes \<Rightarrow> bytes \<times> (replay_error, bytes option) outcome" where
  "read_datagram buf_len r =
     (case read_exact 4 r of
        (r', Err UnexpectedEof) \<Rightarrow> (r', Ok None)
      | (r', Err e) \<Rightarrow> (r', Err e)
      | (r', Panic) \<Rightarrow> (r', Panic)
      | (r', Ok len_bytes) \<Rightarrow>
          let len = from_le len_bytes in
          if len > buf_len then (r', Err (DoesNotFit len buf_len))
          else sbind (read_exact len) (\<lambda>d. sreturn (Some d)) r')"

definition write_request :: "range_request \<Rightarrow> bytes" where
  "write_request req = rp_put 8 16 (rq_through req) (rp_put 8 8 (rq_from req) (rp_put 1 4 KIND_RANGE_REQUEST (rp_put 4 0 MAGIC (replicate REQUEST_LEN 0))))"

definition read_request :: "bytes \<Rightarrow> bytes \<times> (replay_error, range_request) outcome" where
  "read_request = sbind (read_exact REQUEST_LEN) (\<lambda>buf.
     if rp_get 4 0 buf \<noteq> MAGIC then sfail NotARequest
     else if rp_get 1 4 buf \<noteq> KIND_RANGE_REQUEST then sfail (WrongKind (rp_get 1 4 buf))
     else sreturn \<lparr>rq_from = rp_get 8 8 buf, rq_through = rp_get 8 16 buf\<rparr>)"

definition write_response_header :: "response_header \<Rightarrow> bytes" where
  "write_response_header h = rp_put 8 20 (rh_last_available h) (rp_put 8 12 (rh_first_available h) (rp_put 4 8 (rh_datagrams h)
     (rp_put 1 4 (Status_to_u8 (rh_status h)) (rp_put 4 0 MAGIC (replicate RESPONSE_HEADER_LEN 0)))))"

definition read_response_header :: "bytes \<Rightarrow> bytes \<times> (replay_error, response_header) outcome" where
  "read_response_header = sbind (read_exact RESPONSE_HEADER_LEN) (\<lambda>buf.
     if rp_get 4 0 buf \<noteq> MAGIC then sfail NotAResponse
     else case Status_from_u8 (rp_get 1 4 buf) of
       None \<Rightarrow> sfail (UnknownStatus (rp_get 1 4 buf))
     | Some status \<Rightarrow> sreturn \<lparr>rh_status = status, rh_datagrams = rp_get 4 8 buf,
         rh_first_available = rp_get 8 12 buf, rh_last_available = rp_get 8 20 buf\<rparr>)"

section \<open>Service\<close>

record service =
  sv_store :: datagram_store
  sv_served :: nat
  sv_refused :: nat

lemma read_datagram_shorter: "read_datagram n r = (r', Ok (Some d)) \<Longrightarrow> length r' < length r"
  by (auto simp: read_datagram_def read_exact_def sbind_def Let_def split: if_splits)

text \<open>Filing the datagrams of one uplink connection; the result counts them.\<close>

function uplink_loop :: "nat \<Rightarrow> bytes \<Rightarrow> datagram_store \<Rightarrow> datagram_store \<times> (replay_error, nat) outcome" where
  "uplink_loop max_datagram r s =
     (case read_datagram max_datagram r of
        (_, Ok None) \<Rightarrow> (s, Ok 0)
      | (r', Ok (Some d)) \<Rightarrow>
          (case store_push d s of
             (s', Panic) \<Rightarrow> (s', Panic)
           | (s', _) \<Rightarrow> (case uplink_loop max_datagram r' s' of (s'', res) \<Rightarrow> (s'', obind res (\<lambda>count. Ok (count + 1)))))
      | (_, Err e) \<Rightarrow> (s, Err e)
      | (_, Panic) \<Rightarrow> (s, Panic))"
  by pat_completeness auto
termination
  by (relation "measure (\<lambda>(n, r, s). length r)") (auto dest: read_datagram_shorter [OF sym])

declare uplink_loop.simps [simp del]

definition serve_uplink :: "nat \<Rightarrow> bytes \<Rightarrow> service \<Rightarrow> service \<times> (replay_error, nat) outcome" where
  "serve_uplink max_datagram r sv =
     (case read_hello r of
        (r', Ok _) \<Rightarrow> (case uplink_loop max_datagram r' (sv_store sv) of (s, res) \<Rightarrow> (sv\<lparr>sv_store := s\<rparr>, res))
      | (_, Err e) \<Rightarrow> (sv, Err e)
      | (_, Panic) \<Rightarrow> (sv, Panic))"

fun copy_out :: "datagram_store \<Rightarrow> nat list \<Rightarrow> (replay_error, bytes list) outcome" where
  "copy_out s [] = Ok []"
| "copy_out s (i # is) = (case datagram_at i s of None \<Rightarrow> Panic | Some d \<Rightarrow> obind (copy_out s is) (\<lambda>ds. Ok (d # ds)))"

fun write_payload :: "bytes list \<Rightarrow> (replay_error, bytes) outcome" where
  "write_payload [] = Ok []"
| "write_payload (d # ds) = obind (write_datagram d) (\<lambda>w. obind (write_payload ds) (\<lambda>ws. Ok (w @ ws)))"

definition serve_request :: "bytes \<Rightarrow> service \<Rightarrow> service \<times> (replay_error, bytes) outcome" where
  "serve_request r sv =
     (case snd (read_request r) of
        Err e \<Rightarrow> (sv, Err e)
      | Panic \<Rightarrow> (sv, Panic)
      | Ok req \<Rightarrow>
          let store = sv_store sv; found = locate (rq_from req) (rq_through req) store;
              header = \<lparr>rh_status = lc_status found,
                rh_datagrams = (if lc_status found = StatusOk then (lc_end found - lc_start found) mod 2 ^ 32 else 0),
                rh_first_available = ds_first store, rh_last_available = ds_next store\<rparr>
          in case (if lc_status found = StatusOk then copy_out store [lc_start found..<lc_end found] else Ok []) of
               Err e \<Rightarrow> (sv, Err e)
             | Panic \<Rightarrow> (sv, Panic)
             | Ok payload \<Rightarrow>
                 (case write_payload payload of
                    Ok bs \<Rightarrow> (if rh_status header = StatusOk then sv\<lparr>sv_served := wrap_add_u64 (sv_served sv) 1\<rparr>
                              else sv\<lparr>sv_refused := wrap_add_u64 (sv_refused sv) 1\<rparr>, Ok (write_response_header header @ bs))
                  | Err e \<Rightarrow> (sv, Err e)
                  | Panic \<Rightarrow> (sv, Panic)))"

section \<open>Client\<close>

record replay_answer =
  ra_request :: range_request
  ra_header :: response_header
  ra_datagrams :: "bytes list"

fun read_answer :: "nat \<Rightarrow> nat \<Rightarrow> nat \<Rightarrow> nat \<Rightarrow> bytes \<Rightarrow> (replay_error, bytes list) outcome" where
  "read_answer limit promised i 0 r = Ok []"
| "read_answer limit promised i (Suc n) r =
     (case read_datagram limit r of
        (r', Ok (Some d)) \<Rightarrow> obind (read_answer limit promised (Suc i) n r') (\<lambda>ds. Ok (d # ds))
      | (_, Ok None) \<Rightarrow> Err (ClosedAfter promised i)
      | (_, Err e) \<Rightarrow> Err e
      | (_, Panic) \<Rightarrow> Panic)"

definition replay_request :: "range_request \<Rightarrow> nat \<Rightarrow> bytes \<Rightarrow> (replay_error, replay_answer) outcome" where
  "replay_request req max_datagram_bytes response =
     (case read_response_header response of
        (_, Err e) \<Rightarrow> Err e
      | (_, Panic) \<Rightarrow> Panic
      | (r, Ok header) \<Rightarrow>
          obind (if rh_status header = StatusOk then
                   if rh_datagrams header > MAX_RESPONSE_DATAGRAMS then Err (OverTheCap (rh_datagrams header))
                   else read_answer max_datagram_bytes (rh_datagrams header) 0 (rh_datagrams header) r
                 else Ok [])
            (\<lambda>datagrams. Ok \<lparr>ra_request = req, ra_header = header, ra_datagrams = datagrams\<rparr>))"

definition answer_is_ok :: "replay_answer \<Rightarrow> bool" where
  "answer_is_ok a \<longleftrightarrow> rh_status (ra_header a) = StatusOk"

section \<open>Round trips\<close>

lemma read_exact_append: "length a = n \<Longrightarrow> read_exact n (a @ b) = (b, Ok a)"
  by (simp add: read_exact_def)

lemma hello_round_trip: "read_hello (write_hello @ r) = (r, Ok ())"
proof -
  have l: "length write_hello = 12" by (simp add: write_hello_def rp_put_def)
  have f: "rp_get 4 0 write_hello = MAGIC" "rp_get 1 4 write_hello = 1" "rp_get 2 6 write_hello = SCHEMA_ID" "rp_get 2 8 write_hello = SCHEMA_VERSION"
    by (simp_all add: write_hello_def rp_put_def rp_get_def image_simps)
  show ?thesis using f by (simp add: read_hello_def sbind_def read_exact_append [OF l])
qed

lemma request_round_trip:
  assumes "lo \<le> u64_max" "hi \<le> u64_max"
  shows "snd (read_request (write_request \<lparr>rq_from = lo, rq_through = hi\<rparr>)) = Ok \<lparr>rq_from = lo, rq_through = hi\<rparr>"
proof -
  let ?w = "write_request \<lparr>rq_from = lo, rq_through = hi\<rparr>"
  have l: "length ?w = 24" by (simp add: write_request_def rp_put_def)
  have f: "rp_get 4 0 ?w = MAGIC" "rp_get 1 4 ?w = 2" "rp_get 8 8 ?w = lo" "rp_get 8 16 ?w = hi"
    using assms by (simp_all add: write_request_def rp_put_def rp_get_def image_simps)
  show ?thesis using f read_exact_append [OF l, of "[]"] by (simp add: read_request_def sbind_def)
qed

lemma response_round_trip:
  assumes "rh_datagrams h \<le> u32_max" "rh_first_available h \<le> u64_max" "rh_last_available h \<le> u64_max"
  shows "read_response_header (write_response_header h @ r) = (r, Ok h)"
proof -
  let ?w = "write_response_header h"
  have l: "length ?w = 28" by (simp add: write_response_header_def rp_put_def)
  have f: "rp_get 4 0 ?w = MAGIC" "rp_get 1 4 ?w = Status_to_u8 (rh_status h)" "rp_get 4 8 ?w = rh_datagrams h"
      "rp_get 8 12 ?w = rh_first_available h" "rp_get 8 20 ?w = rh_last_available h"
    using assms by (simp_all add: write_response_header_def rp_put_def rp_get_def image_simps Status_to_u8_def split: replay_status.splits)
  have s: "Status_from_u8 (Status_to_u8 (rh_status h)) = Some (rh_status h)" by (simp add: Status_from_u8_def Status_to_u8_def split: replay_status.splits)
  show ?thesis using f s by (simp add: read_response_header_def sbind_def read_exact_append [OF l])
qed

lemma datagram_round_trip_framed:
  assumes "length d \<le> limit" "length d \<le> u32_max"
  shows "write_datagram d = Ok (to_le 4 (length d) @ d)" "read_datagram limit ((to_le 4 (length d) @ d) @ r) = (r, Ok (Some d))"
proof -
  have "read_exact 4 (to_le 4 (length d) @ d @ r) = (d @ r, Ok (to_le 4 (length d)))" by (rule read_exact_append) simp
  moreover have "from_le (to_le 4 (length d)) = length d" using assms(2) by simp
  ultimately show "read_datagram limit ((to_le 4 (length d) @ d) @ r) = (r, Ok (Some d))"
    using assms(1) by (simp add: read_datagram_def sbind_def read_exact_append)
  show "write_datagram d = Ok (to_le 4 (length d) @ d)" using assms(2) by (simp add: write_datagram_def)
qed

abbreviation framed :: "bytes \<Rightarrow> bytes" where "framed d \<equiv> to_le 4 (length d) @ d"

lemma write_payload_framed: "\<forall>d\<in>set ds. length d \<le> u32_max \<Longrightarrow> write_payload ds = Ok (concat (map framed ds))"
  by (induction ds) (auto simp: write_datagram_def)

lemma read_answer_framed:
  "\<forall>d\<in>set ds. length d \<le> limit \<and> length d \<le> u32_max \<Longrightarrow> read_answer limit p i (length ds) (concat (map framed ds)) = Ok ds"
proof (induction ds arbitrary: i)
  case (Cons d ds)
  then show ?case using datagram_round_trip_framed(2) [of d limit "concat (map framed ds)"] by simp
qed simp

lemma uplink_files:
  assumes "\<forall>d\<in>set ds. length d \<le> limit \<and> length d \<le> u32_max" "store_pushes ds s = Some s'"
  shows "uplink_loop limit (concat (map framed ds)) s = (s', Ok (length ds))"
  using assms
proof (induction ds arbitrary: s)
  case Nil
  then show ?case unfolding uplink_loop.simps [of limit "concat (map framed [])"] by (simp add: read_datagram_def read_exact_def)
next
  case (Cons d ds)
  obtain s1 r where p: "store_push d s = (s1, r)" by fastforce
  have r: "r \<noteq> Panic" "store_pushes ds s1 = Some s'" using Cons.prems(2) p by (auto split: outcome.splits)
  have "read_datagram limit (concat (map framed (d # ds))) = (concat (map framed ds), Ok (Some d))"
    using datagram_round_trip_framed(2) [of d limit "concat (map framed ds)"] Cons.prems(1) by simp
  note rd = this
  have ih: "uplink_loop limit (concat (map framed ds)) s1 = (s', Ok (length ds))" using Cons.prems(1) by (intro Cons.IH [OF _ r(2)]) simp
  show ?case unfolding uplink_loop.simps [of limit "concat (map framed (d # ds))"] rd using r(1) by (cases r) (simp_all add: ih p)
qed

text \<open>The answer a consumer gets, as the history dictates.\<close>

definition answer_of :: "range_request \<Rightarrow> datagram_store \<Rightarrow> held_datagram list \<Rightarrow> replay_answer" where
  "answer_of req s h =
     (let l = hist_locate (rq_from req) (rq_through req) h; ds = (if lc_status l = StatusOk then map (\<lambda>x. snd (snd x)) (named l h) else [])
      in \<lparr>ra_request = req, ra_header = \<lparr>rh_status = lc_status l, rh_datagrams = length ds, rh_first_available = ds_first s, rh_last_available = ds_next s\<rparr>,
          ra_datagrams = ds\<rparr>)"

lemma copy_out_rel:
  assumes "store_rel cap limit s h" "\<forall>i\<in>set is. i < length h"
  shows "copy_out s is = Ok (map (\<lambda>i. snd (snd (h ! i))) is)"
  using assms(2) by (induction "is") (auto simp: datagram_at_rel [OF assms(1)])

lemma named_nth: "b \<le> length h \<Longrightarrow> map (\<lambda>i. f (h ! i)) [a..<b] = map f (take (b - a) (drop a h))"
  by (rule nth_equalityI) auto

lemma request_answered:
  assumes rel: "store_rel cap limit (sv_store sv) h" and cap: "cap \<le> 65536" and size: "\<forall>x\<in>set h. length (snd (snd x)) \<le> limit" "limit \<le> u32_max"
    and seqs: "ds_first (sv_store sv) \<le> u64_max" "ds_next (sv_store sv) \<le> u64_max" and ch: "chained (fst (hd h)) h"
    and req: "lo \<le> u64_max" "hi \<le> u64_max"
  defines "req \<equiv> \<lparr>rq_from = lo, rq_through = hi\<rparr>"
  shows "\<exists>sv' out. serve_request (write_request req) sv = (sv', Ok out) \<and> sv_store sv' = sv_store sv \<and>
     replay_request req limit out = Ok (answer_of req (sv_store sv) h)"
proof -
  define l where "l = hist_locate lo hi h"
  define ds where "ds = (if lc_status l = StatusOk then map (\<lambda>x. snd (snd x)) (named l h) else [])"
  have hl: "length h \<le> 65536" using rel cap by (auto simp: store_rel_def)
  have loc: "locate lo hi (sv_store sv) = l" using locate_rel [OF rel] by (simp add: l_def)
  have lend: "lc_end l \<le> length h" if "lc_status l = StatusOk" using hist_locate_covers(2) [OF ch] that by (simp add: l_def)
  have copy: "(if lc_status l = StatusOk then copy_out (sv_store sv) [lc_start l..<lc_end l] else Ok []) = Ok ds"
    using copy_out_rel [OF rel, of "[lc_start l..<lc_end l]"] lend named_nth [of "lc_end l" h "\<lambda>x. snd (snd x)" "lc_start l"]
    by (auto simp: ds_def named_def)
  have sub: "set (named l h) \<subseteq> set h" unfolding named_def by (meson order_trans set_drop_subset set_take_subset)
  have dsz: "\<forall>d\<in>set ds. length d \<le> limit \<and> length d \<le> u32_max" using sub size by (fastforce simp: ds_def split: if_splits)
  have dl: "length ds \<le> 65536" using hl by (simp add: ds_def named_def) linarith
  define hdr where "hdr = \<lparr>rh_status = lc_status l, rh_datagrams = length ds, rh_first_available = ds_first (sv_store sv), rh_last_available = ds_next (sv_store sv)\<rparr>"
  have cnt: "(if lc_status l = StatusOk then (lc_end l - lc_start l) mod 2 ^ 32 else 0) = length ds"
    using lend hl by (auto simp: ds_def named_def min_def)
  have pay: "write_payload ds = Ok (concat (map framed ds))" using dsz by (intro write_payload_framed) blast
  let ?out = "write_response_header hdr @ concat (map framed ds)"
  have "\<exists>sv'. serve_request (write_request req) sv = (sv', Ok ?out) \<and> sv_store sv' = sv_store sv"
    unfolding serve_request_def req_def request_round_trip [OF req] outcome.case Let_def range_request.select_convs loc copy pay cnt hdr_def [symmetric] by simp
  moreover have "read_response_header ?out = (concat (map framed ds), Ok hdr)" using dl seqs by (intro response_round_trip) (simp_all add: hdr_def)
  moreover have "read_answer limit (length ds) 0 (length ds) (concat (map framed ds)) = Ok ds" by (rule read_answer_framed [OF dsz])
  ultimately show ?thesis using dl
    by (auto simp: replay_request_def hdr_def answer_of_def Let_def req_def l_def [symmetric] ds_def [symmetric]) (auto simp: ds_def)
qed

section \<open>The engine's uplink\<close>

text \<open>The history of the service, fed by a publisher: a run of consecutive batches.\<close>

definition held_batch :: "batch \<Rightarrow> held_datagram" where
  "held_batch t = (bt_first t, length (bt_events t), batch_image (of_bool (\<not> bt_drop_b t)) t)"

definition uplinked :: "batch list \<Rightarrow> bytes list" where
  "uplinked bs = map (\<lambda>t. batch_image (of_bool (\<not> bt_drop_b t)) t) (filter bt_up bs)"

lemma batch_range:
  assumes "batch_valid t" "bt_events t \<noteq> []"
  shows "datagram_range (batch_image (of_bool b) t) = Some (bt_first t, length (bt_events t))"
proof -
  have "bt_first t \<le> u64_max" "bt_ts t \<le> u64_max" "length (bt_events t) \<le> u16_max" using assms by (auto simp: batch_valid_def)
  from packet_header_image_fields [OF _ _ this, of "of_bool b" 0 "concat (map event_image (bt_events t))"] show ?thesis
    by (simp add: datagram_range_def batch_image_def datagram_image_def PacketHeader_is_snapshot_def)
qed

lemma chained_batches: "batches_from n bs \<Longrightarrow> chained n (map held_batch bs) \<and> hist_end n (map held_batch bs) = n + length (batch_events bs)"
  by (induction bs arbitrary: n) (auto simp: held_batch_def batch_events_def)

lemma no_batches: "batches_from n bs \<Longrightarrow> batch_events bs = [] \<longleftrightarrow> bs = []"
  by (cases bs) (auto simp: batch_events_def)

text \<open>What the service holds is a stretch of the published batches, all of them when none was dropped and there is room.\<close>

lemma history_of_uplink:
  assumes "batches_from 1 bs" "list_all batch_valid bs" "\<forall>d\<in>set (uplinked bs). length d \<le> limit" "0 < cap"
  shows "\<exists>xs ys zs. bs = xs @ ys @ zs \<and> fold (hist_push cap limit) (uplinked bs) [] = map held_batch ys \<and> list_all (\<lambda>t. \<not> bt_up t) zs \<and>
     (ys = [] \<longrightarrow> xs = []) \<and> (list_all bt_up bs \<and> length bs \<le> cap \<longrightarrow> xs = [])"
  using assms
proof (induction bs rule: rev_induct)
  case Nil
  show ?case by (intro exI [of _ "[]"]) (simp add: uplinked_def)
next
  case (snoc t bs)
  have bf: "batches_from 1 bs" "bt_first t = 1 + length (batch_events bs)" "bt_events t \<noteq> []" "batch_valid t" "list_all batch_valid bs"
    using snoc.prems(1,2) by (auto simp: batches_from_append)
  have up: "uplinked (bs @ [t]) = uplinked bs @ (if bt_up t then [batch_image (of_bool (\<not> bt_drop_b t)) t] else [])" by (simp add: uplinked_def)
  have "\<forall>d\<in>set (uplinked bs). length d \<le> limit" using snoc.prems(3) up by simp
  from snoc.IH [OF bf(1,5) this snoc.prems(4)] obtain xs ys zs where ih: "bs = xs @ ys @ zs" "fold (hist_push cap limit) (uplinked bs) [] = map held_batch ys" "list_all (\<lambda>t. \<not> bt_up t) zs"
      "ys = [] \<longrightarrow> xs = []" "list_all bt_up bs \<and> length bs \<le> cap \<longrightarrow> xs = []"
    by blast
  show ?case
  proof (cases "bt_up t")
    case False
    then have "fold (hist_push cap limit) (uplinked (bs @ [t])) [] = map held_batch ys" using ih(2) by (simp add: up)
    moreover have "bs @ [t] = xs @ ys @ zs @ [t]" by (simp add: ih(1))
    moreover have "list_all (\<lambda>t. \<not> bt_up t) (zs @ [t])" "\<not> list_all bt_up (bs @ [t])" using ih(3) False by simp_all
    ultimately show ?thesis using ih(4) by blast
  next
    case True
    let ?h = "map held_batch ys"
    have len: "length (snd (snd (held_batch t))) \<le> limit" using snoc.prems(3) True by (simp add: uplinked_def held_batch_def)
    have push: "fold (hist_push cap limit) (uplinked (bs @ [t])) [] = hist_file cap limit (held_batch t) ?h"
      using True ih(2) up batch_range [OF bf(4,3)] by (simp add: hist_push_def held_batch_def)
    have ch: "batches_from (1 + length (batch_events xs)) (ys @ zs)" using bf(1) unfolding ih(1) by (simp add: batches_from_append)
    have e: "hist_end (fst (hd ?h)) ?h = 1 + length (batch_events xs) + length (batch_events ys)" if "ys \<noteq> []"
    proof -
      have "batches_from (1 + length (batch_events xs)) ys" using ch by (simp add: batches_from_append)
      from chained_batches [OF this] chained_hd [of _ ?h] that show ?thesis by auto
    qed
    have f: "bt_first t = 1 + length (batch_events xs) + length (batch_events ys) + length (batch_events zs)" using bf(2) ih(1) by simp
    have z: "batch_events zs = [] \<longleftrightarrow> zs = []" using ch no_batches [of "1 + length (batch_events xs) + length (batch_events ys)" zs] by (simp add: batches_from_append)
    show ?thesis
    proof (cases "ys \<noteq> [] \<and> zs = []")
      case c: True
      define kept where "kept = (if length ys = cap then tl ys else ys)"
      have "fold (hist_push cap limit) (uplinked (bs @ [t])) [] = map held_batch (kept @ [t])"
        unfolding push using c e f len bf(3) by (auto simp: hist_file_def Let_def kept_def held_batch_def map_tl)
      moreover have "\<exists>xs'. bs = xs' @ kept \<and> (list_all bt_up (bs @ [t]) \<and> length (bs @ [t]) \<le> cap \<longrightarrow> xs' = [])"
      proof (cases "length ys = cap")
        case True
        then show ?thesis using c ih(1) by (intro exI [of _ "xs @ [hd ys]"]) (auto simp: kept_def)
      next
        case False
        then show ?thesis using c ih(1,5) by (intro exI [of _ xs]) (auto simp: kept_def)
      qed
      ultimately obtain xs' where x: "fold (hist_push cap limit) (uplinked (bs @ [t])) [] = map held_batch (kept @ [t])" "bs = xs' @ kept"
          "list_all bt_up (bs @ [t]) \<and> length (bs @ [t]) \<le> cap \<longrightarrow> xs' = []" by blast
      have "bs @ [t] = xs' @ (kept @ [t]) @ []" "list_all (\<lambda>t. \<not> bt_up t) []" "kept @ [t] = [] \<longrightarrow> xs' = []" by (simp_all add: x(2))
      then show ?thesis using x(1,3) by blast
    next
      case c: False
      have "fold (hist_push cap limit) (uplinked (bs @ [t])) [] = map held_batch [t]"
        unfolding push using c e f z len bf(3) snoc.prems(4) by (auto simp: hist_file_def Let_def held_batch_def)
      moreover have "bs = []" if "list_all bt_up (bs @ [t])" using that ih(1,3,4) c by (cases zs) auto
      ultimately show ?thesis by (intro exI [of _ bs] exI [of _ "[t]"] exI [of _ "[]"]) auto
    qed
  qed
qed

lemma uplink_history:
  assumes inv: "feed_inv fp bs pend" "fp_uplink fp = Some sent" and len: "\<forall>d\<in>set sent. length d \<le> limit" "limit \<le> u32_max"
  obtains s xs ys zs where "serve_uplink limit (write_hello @ concat (map framed sent))
       \<lparr>sv_store = store_new capacity limit, sv_served = 0, sv_refused = 0\<rparr> = (\<lparr>sv_store = s, sv_served = 0, sv_refused = 0\<rparr>, Ok (length sent))"
    "store_rel (max capacity 1) limit s (map held_batch ys)" "bs = xs @ ys @ zs" "list_all (\<lambda>t. \<not> bt_up t) zs"
    "list_all bt_up bs \<and> length bs \<le> max capacity 1 \<longrightarrow> xs = []" "ds_first s \<le> u64_max" "ds_next s \<le> u64_max"
proof -
  have b: "batches_from 1 bs" "list_all batch_valid bs" "sent = uplinked bs"
    using inv batches_valid(1) [of 1 bs] by (auto simp: feed_inv_def uplink_inv_def uplinked_def)
  have ne: "bt_events t \<noteq> []" if "t \<in> set bs" for t
  proof -
    have "chained 1 (map held_batch bs)" using chained_batches [OF b(1)] by simp
    moreover have "chained n h \<Longrightarrow> x \<in> set h \<Longrightarrow> 0 < fst (snd x)" for n h x by (induction h arbitrary: n) auto
    ultimately show ?thesis using that by (fastforce simp: held_batch_def)
  qed
  have fit: "\<forall>d\<in>set sent. \<forall>f c. datagram_range d = Some (f, c) \<longrightarrow> f + c \<le> u64_max"
  proof (intro ballI allI impI)
    fix d f c
    assume "d \<in> set sent" and r: "datagram_range d = Some (f, c)"
    then obtain t where t: "t \<in> set bs" "d = batch_image (of_bool (\<not> bt_drop_b t)) t" unfolding b(3) uplinked_def by auto
    have v: "batch_valid t" using b(2) t(1) by (simp add: list_all_iff)
    show "f + c \<le> u64_max" using batch_range [OF v ne [OF t(1)], of "\<not> bt_drop_b t"] r v unfolding t(2) [symmetric] by (simp add: batch_valid_def)
  qed
  obtain s where s: "store_pushes sent (store_new capacity limit) = Some s"
      "store_rel (max capacity 1) limit s (fold (hist_push (max capacity 1) limit) sent [])"
    using pushes_rel [OF store_new_rel fit] by blast
  have "0 < max capacity 1" by simp
  from history_of_uplink [OF b(1,2) len(1) [unfolded b(3)] this] obtain xs ys zs where
    h: "bs = xs @ ys @ zs" "fold (hist_push (max capacity 1) limit) sent [] = map held_batch ys" "list_all (\<lambda>t. \<not> bt_up t) zs"
       "ys = [] \<longrightarrow> xs = []" "list_all bt_up bs \<and> length bs \<le> max capacity 1 \<longrightarrow> xs = []" unfolding b(3) by blast
  have rel: "store_rel (max capacity 1) limit s (map held_batch ys)" using s(2) h(2) by simp
  have "\<forall>d\<in>set sent. length d \<le> limit \<and> length d \<le> u32_max" using len by fastforce
  from uplink_files [OF this s(1)] have up: "serve_uplink limit (write_hello @ concat (map framed sent))
       \<lparr>sv_store = store_new capacity limit, sv_served = 0, sv_refused = 0\<rparr> = (\<lparr>sv_store = s, sv_served = 0, sv_refused = 0\<rparr>, Ok (length sent))"
    by (simp add: serve_uplink_def hello_round_trip)
  have seqs: "ds_first s \<le> u64_max \<and> ds_next s \<le> u64_max"
  proof (cases "ys = []")
    case True
    then have "filter bt_up bs = []" using h(1,3,4) by (auto simp: list_all_iff filter_empty_conv)
    then have "s = store_new capacity limit" using s(1) by (simp add: b(3) uplinked_def)
    then show ?thesis by (simp add: store_new_def)
  next
    case False
    then show ?thesis using rel hist_end_ge [of "ds_first s" "map held_batch ys"] by (auto simp: store_rel_def)
  qed
  show thesis using that [OF up rel h(1,3,5)] seqs by blast
qed

text \<open>Datagrams that carry a stretch of the batches covering a range.\<close>

definition stretch_covers :: "nat \<Rightarrow> nat \<Rightarrow> batch list \<Rightarrow> batch list \<Rightarrow> bool" where
  "stretch_covers lo hi bs rs \<longleftrightarrow> rs \<noteq> [] \<and> (\<exists>us vs. bs = us @ rs @ vs \<and>
     1 + length (batch_events us) \<le> lo \<and> hi < 1 + length (batch_events us) + length (batch_events rs))"

definition uplink_images :: "batch list \<Rightarrow> bytes list" where
  "uplink_images rs = map (\<lambda>t. batch_image (of_bool (\<not> bt_drop_b t)) t) rs"

lemma named_stretch:
  assumes "batches_from 1 bs" "bs = xs @ ys @ zs" and cov: "covers lo hi (map held_batch (named l ys))"
  shows "stretch_covers lo hi bs (named l ys)" "map (\<lambda>x. snd (snd x)) (map held_batch (named l ys)) = uplink_images (named l ys)"
proof -
  define rs where "rs = named l ys"
  obtain us vs where bs: "bs = us @ rs @ vs"
    using assms(2) unfolding rs_def named_def by (metis append.assoc append_take_drop_id)
  have f: "batches_from (1 + length (batch_events us)) rs" using assms(1) unfolding bs by (simp add: batches_from_append)
  note C = chained_batches [OF f]
  have c: "rs \<noteq> []" "fst (hd (map held_batch rs)) \<le> lo" "hi < hist_end (fst (hd (map held_batch rs))) (map held_batch rs)"
    using cov by (auto simp: covers_def rs_def)
  then have hd: "fst (hd (map held_batch rs)) = 1 + length (batch_events us)" using C chained_hd [of _ "map held_batch rs"] by auto
  have "1 + length (batch_events us) \<le> lo" "hi < 1 + length (batch_events us) + length (batch_events rs)" using c(2,3) C unfolding hd by auto
  then show "stretch_covers lo hi bs (named l ys)" using c(1) bs unfolding stretch_covers_def rs_def by blast
  show "map (\<lambda>x. snd (snd x)) (map held_batch (named l ys)) = uplink_images (named l ys)" by (simp add: held_batch_def uplink_images_def)
qed

lemma read_stretch:
  assumes "batches_from 1 bs" "list_all event_wf (batch_events bs)" "1 + length (batch_events bs) \<le> u64_max" "stretch_covers lo hi bs rs"
  shows "\<exists>i j. read_datagrams (uplink_images rs) = Ok (zip [i..<j] (take (j - i) (drop (i - 1) (batch_events bs)))) \<and>
     1 \<le> i \<and> i \<le> lo \<and> hi < j \<and> j \<le> 1 + length (batch_events bs)"
proof -
  obtain us vs where bs: "bs = us @ rs @ vs" "1 + length (batch_events us) \<le> lo" "hi < 1 + length (batch_events us) + length (batch_events rs)"
    using assms(4) by (auto simp: stretch_covers_def)
  define i where "i = 1 + length (batch_events us)"
  have f: "batches_from i rs" using assms(1) unfolding bs i_def by (simp add: batches_from_append)
  have ev: "batch_events bs = batch_events us @ batch_events rs @ batch_events vs" by (simp add: bs)
  have v: "list_all event_wf (batch_events rs)" "i + length (batch_events rs) \<le> u64_max" using assms(2,3) by (auto simp: ev i_def)
  note B = batches_valid [OF f v]
  have rd: "read_datagrams (uplink_images rs) = Ok (zip [i..<i + length (batch_events rs)] (batch_events rs))"
    using read_batches [OF B(1), of "\<lambda>t. of_bool (\<not> bt_drop_b t)"] B(2) by (simp add: uplink_images_def)
  have sl: "batch_events rs = take (length (batch_events rs)) (drop (i - 1) (batch_events bs))" by (simp add: ev i_def)
  have "1 \<le> i" "i + length (batch_events rs) \<le> 1 + length (batch_events bs)" by (simp_all add: i_def ev)
  then show ?thesis using rd sl bs(2,3) unfolding i_def [symmetric]
    by (intro exI [of _ i] exI [of _ "i + length (batch_events rs)"]) (simp only: add_diff_cancel_left' simp_thms)
qed

lemma replay_of_feed:
  assumes "feed_inv fp bs pend" "fp_uplink fp = Some sent" "\<forall>d\<in>set sent. length d \<le> limit" "limit \<le> u32_max" "capacity \<le> 65536"
    and "lo \<le> u64_max" "hi \<le> u64_max"
  defines "req \<equiv> \<lparr>rq_from = lo, rq_through = hi\<rparr>"
  shows "\<exists>sv sv' out a. serve_uplink limit (write_hello @ concat (map framed sent))
         \<lparr>sv_store = store_new capacity limit, sv_served = 0, sv_refused = 0\<rparr> = (sv, Ok (length sent)) \<and>
       serve_request (write_request req) sv = (sv', Ok out) \<and> replay_request req limit out = Ok a \<and>
       (answer_is_ok a \<longrightarrow> (\<exists>rs. ra_datagrams a = uplink_images rs \<and> stretch_covers lo hi bs rs)) \<and>
       (ra_datagrams a = [] \<or> answer_is_ok a) \<and>
       (list_all bt_up bs \<and> length bs \<le> max capacity 1 \<and> 1 \<le> lo \<and> lo \<le> hi \<and> hi \<le> length (batch_events bs) \<longrightarrow> answer_is_ok a)"
proof -
  obtain s xs ys zs where u: "serve_uplink limit (write_hello @ concat (map framed sent))
       \<lparr>sv_store = store_new capacity limit, sv_served = 0, sv_refused = 0\<rparr> = (\<lparr>sv_store = s, sv_served = 0, sv_refused = 0\<rparr>, Ok (length sent))"
    "store_rel (max capacity 1) limit s (map held_batch ys)" "bs = xs @ ys @ zs" "list_all (\<lambda>t. \<not> bt_up t) zs"
    "list_all bt_up bs \<and> length bs \<le> max capacity 1 \<longrightarrow> xs = []" "ds_first s \<le> u64_max" "ds_next s \<le> u64_max"
    by (rule uplink_history [OF assms(1-4)])
  define h where "h = map held_batch ys"
  have fi: "batches_from 1 bs" using assms(1) by (simp add: feed_inv_def)
  have ch: "chained (fst (hd h)) h" using u(2) chained_hd [of "ds_first s" h] by (cases "h = []") (auto simp: store_rel_def h_def)
  have sz: "\<forall>x\<in>set h. length (snd (snd x)) \<le> limit" using u(2) unfolding h_def [symmetric] store_rel_def slot_holds_datagram_def slot_at_def list_all_iff
    by (metis in_set_conv_nth length_take min.cobounded1 mod_less_divisor nth_mem)
  let ?sv = "\<lparr>sv_store = s, sv_served = 0, sv_refused = 0\<rparr>"
  have "max capacity 1 \<le> 65536" using assms(5) by simp
  from request_answered [of "max capacity 1" limit ?sv h lo hi] this u(2,6,7) sz assms(4,6,7) ch obtain sv' out where
    r: "serve_request (write_request req) ?sv = (sv', Ok out)" "replay_request req limit out = Ok (answer_of req s h)"
    unfolding req_def h_def by auto
  let ?l = "hist_locate lo hi h"
  have a: "answer_is_ok (answer_of req s h) \<longleftrightarrow> lc_status ?l = StatusOk"
    "ra_datagrams (answer_of req s h) = (if lc_status ?l = StatusOk then map (\<lambda>x. snd (snd x)) (map held_batch (named ?l ys)) else [])"
    by (simp_all add: answer_is_ok_def answer_of_def Let_def req_def h_def named_def take_map drop_map)
  have k1: "\<exists>rs. ra_datagrams (answer_of req s h) = uplink_images rs \<and> stretch_covers lo hi bs rs" if ok: "lc_status ?l = StatusOk"
  proof -
    have "covers lo hi (map held_batch (named ?l ys))" using hist_locate_covers(1) [OF ch ok] by (simp add: h_def named_def take_map drop_map)
    from named_stretch [OF fi u(3) this] show ?thesis unfolding a(2) if_P [OF ok] by blast
  qed
  have k2: "lc_status ?l = StatusOk" if c: "list_all bt_up bs \<and> length bs \<le> max capacity 1 \<and> 1 \<le> lo \<and> lo \<le> hi \<and> hi \<le> length (batch_events bs)"
  proof -
    have "xs = []" using c u(5) by blast
    moreover have "zs = []"
    proof (rule ccontr)
      assume "zs \<noteq> []"
      then have "last zs \<in> set bs" "\<not> bt_up (last zs)" using u(3,4) by (simp_all add: list_all_iff)
      then show False using c by (simp add: list_all_iff)
    qed
    ultimately have "ys = bs" using u(3) by simp
    moreover have "bs \<noteq> []" using c by (intro notI) auto
    ultimately have "ys = bs" "h \<noteq> []" by (simp_all add: h_def)
    then have "fst (hd h) = 1" "hist_end 1 h = 1 + length (batch_events bs)" using chained_batches [OF fi] chained_hd [of 1 h] by (auto simp: h_def)
    then show ?thesis using c \<open>h \<noteq> []\<close> by (simp add: hist_locate_def Let_def)
  qed
  have k3: "ra_datagrams (answer_of req s h) = [] \<or> lc_status ?l = StatusOk" using a(2) by simp
  show ?thesis
    by (intro exI [of _ ?sv] exI [of _ sv'] exI [of _ out] exI [of _ "answer_of req s h"] conjI impI u(1) r, unfold a(1))
       (erule k1, rule k3, erule k2)
qed

lemma all_taken:
  assumes "\<forall>t\<in>set bs. bt_events t \<noteq> []" "length (batch_events (filter P bs)) = length (batch_events bs)"
  shows "list_all P bs"
  using assms
proof (induction bs)
  case (Cons t bs)
  have "length (batch_events (filter P bs)) \<le> length (batch_events bs)" by (induction bs) (auto simp: batch_events_def)
  with Cons show ?case by (cases "P t") (auto simp: batch_events_def)
qed (simp add: batch_events_def)

lemma batch_nonempty: "batches_from n bs \<Longrightarrow> t \<in> set bs \<Longrightarrow> bt_events t \<noteq> []"
  by (induction bs arbitrary: n) auto

text \<open>The datagrams of the uplink fit the publisher's buffer, and carry everything exactly when none was dropped.\<close>

lemma uplink_datagrams:
  assumes inv: "feed_inv fp bs pend" "fp_uplink fp = Some sent"
  shows "\<forall>d\<in>set sent. length d \<le> length (fp_buf fp)"
    and "read_datagrams sent = Ok (zip [1..<1 + length (batch_events bs)] (batch_events bs)) \<longleftrightarrow> list_all bt_up bs"
proof -
  have b: "batches_from 1 bs" "list_all event_wf (batch_events bs)" "1 + length (batch_events bs) \<le> u64_max" "sent = uplinked bs"
      "list_all (\<lambda>t. 24 + sum_list (map event_len (bt_events t)) \<le> length (fp_buf fp)) bs"
    using inv by (auto simp: feed_inv_def uplink_inv_def uplinked_def)
  show "\<forall>d\<in>set sent. length d \<le> length (fp_buf fp)"
    using b(5) unfolding b(4) uplinked_def by (auto simp: list_all_iff batch_image_def datagram_image_def)
  note v = batches_valid [OF b(1-3)]
  have rd: "read_datagrams sent = Ok (concat (map batch_pairs (filter bt_up bs)))"
    using read_batches [of "filter bt_up bs" "\<lambda>t. of_bool (\<not> bt_drop_b t)"] v(1) unfolding b(4) uplinked_def by (auto simp: list_all_iff)
  have len: "length (concat (map batch_pairs ts)) = length (batch_events ts)" for ts
    by (induction ts) (simp_all add: batch_pairs_def batch_events_def)
  have "list_all bt_up bs" if "concat (map batch_pairs (filter bt_up bs)) = concat (map batch_pairs bs)"
    using all_taken [of bs bt_up] batch_nonempty [OF b(1)] arg_cong [OF that, of length] unfolding len by blast
  moreover have "filter bt_up bs = bs" if "list_all bt_up bs" using that by (simp add: list_all_iff)
  ultimately show "read_datagrams sent = Ok (zip [1..<1 + length (batch_events bs)] (batch_events bs)) \<longleftrightarrow> list_all bt_up bs"
    unfolding rd v(2) [symmetric] by auto
qed

text \<open>Publishing through an uplink, filing what it carried, and asking for a range.\<close>

lemma published_replay:
  assumes "list_all event_wf evs" "length evs < u64_max" "batch_size \<le> u16_max" "72 \<le> max_bytes" "max_bytes \<le> limit" "limit \<le> u32_max"
    and "\<forall>k. env_now_ns (env k) \<le> u64_max \<and> env_send_a (env k) \<and> env_send_b (env k)" "capacity \<le> 65536" "lo \<le> u64_max" "hi \<le> u64_max"
  obtains fp fp' sent sv sv' out a bs where
    "emit_all evs (set_uplink (set_loss rate mode seed (FeedPublisher_new env batch_size max_bytes))) = (fp, Ok [1..<1 + length evs])"
    "flush fp = (fp', Ok ())" "fp_uplink fp' = Some sent"
    "serve_uplink limit (write_hello @ concat (map framed sent))
         \<lparr>sv_store = store_new capacity limit, sv_served = 0, sv_refused = 0\<rparr> = (sv, Ok (length sent))"
    "serve_request (write_request \<lparr>rq_from = lo, rq_through = hi\<rparr>) sv = (sv', Ok out)" "replay_request \<lparr>rq_from = lo, rq_through = hi\<rparr> limit out = Ok a"
    "answer_is_ok a \<longrightarrow> (\<exists>rs. ra_datagrams a = uplink_images rs \<and> stretch_covers lo hi bs rs)" "ra_datagrams a = [] \<or> answer_is_ok a"
    "read_datagrams sent = Ok (zip [1..<1 + length evs] evs) \<and> length sent \<le> max capacity 1 \<and> 1 \<le> lo \<and> lo \<le> hi \<and> hi \<le> length evs \<longrightarrow> answer_is_ok a"
    "batches_from 1 bs" "batch_events bs = evs"
proof -
  let ?fp0 = "set_uplink (set_loss rate mode seed (FeedPublisher_new env batch_size max_bytes))"
  have inv: "feed_inv ?fp0 [] []" using feed_inv_configure feed_inv_new assms(3,4) by simp
  have p: "env_ok ?fp0" "length (fp_buf ?fp0) = max_bytes" "fp_next_seq ?fp0 = 1" "fp_shadow ?fp0 = None" "fp_uplink ?fp0 \<noteq> None"
    using assms(7) by (auto simp: set_loss_def set_uplink_def FeedPublisher_new_def env_ok_def)
  have app: "\<And>evs. applicable ?fp0 evs" using p(4) by (simp add: applicable_def)
  obtain fp bs pend where e: "emit_all evs ?fp0 = (fp, Ok [1..<1 + length evs])" "feed_inv fp bs pend"
      "batch_events bs @ pend = evs" "same_setup ?fp0 fp"
    using emit_all_ok [OF inv p(1) _ assms(1) _ app] assms(2,4) p(2,3) by auto
  obtain fp' bs' where f: "flush fp = (fp', Ok ())" "feed_inv fp' bs' []" "batch_events bs' = evs" "same_setup fp fp'"
    using flush_ok_any [OF e(2)] same_setup_env [OF e(4)] same_setup_applicable [OF e(4)] app p(1) e(3) by metis
  obtain sent where sent: "fp_uplink fp' = Some sent" using e(4) f(4) p(5) by (auto simp: same_setup_def)
  have buf: "length (fp_buf fp') = max_bytes" using e(4) f(4) p(2) by (simp add: same_setup_def)
  note d = uplink_datagrams [OF f(2) sent, unfolded buf f(3)]
  have fit: "\<forall>d\<in>set sent. length d \<le> limit" using d(1) assms(5) by fastforce
  have n: "length sent = length bs'" if "list_all bt_up bs'"
    using that f(2) sent by (auto simp: feed_inv_def uplink_inv_def list_all_iff)
  from replay_of_feed [OF f(2) sent fit assms(6,8,9,10)] obtain sv sv' out a where
    r: "serve_uplink limit (write_hello @ concat (map framed sent))
         \<lparr>sv_store = store_new capacity limit, sv_served = 0, sv_refused = 0\<rparr> = (sv, Ok (length sent))"
      "serve_request (write_request \<lparr>rq_from = lo, rq_through = hi\<rparr>) sv = (sv', Ok out)" "replay_request \<lparr>rq_from = lo, rq_through = hi\<rparr> limit out = Ok a"
      "answer_is_ok a \<longrightarrow> (\<exists>rs. ra_datagrams a = uplink_images rs \<and> stretch_covers lo hi bs' rs)" "ra_datagrams a = [] \<or> answer_is_ok a"
      "list_all bt_up bs' \<and> length bs' \<le> max capacity 1 \<and> 1 \<le> lo \<and> lo \<le> hi \<and> hi \<le> length evs \<longrightarrow> answer_is_ok a"
    unfolding f(3) by blast
  have "read_datagrams sent = Ok (zip [1..<1 + length evs] evs) \<and> length sent \<le> max capacity 1 \<and> 1 \<le> lo \<and> lo \<le> hi \<and> hi \<le> length evs \<longrightarrow> answer_is_ok a"
    using r(6) n by (simp only: d(2)) metis
  moreover have "batches_from 1 bs'" using f(2) by (simp add: feed_inv_def)
  ultimately show thesis using that [OF e(1) f(1) sent r(1-5) _ _ f(3)] by blast
qed

section \<open>Properties\<close>

text \<open>C22: a replay carries what was published. Let any events be published through a feed publisher whose uplink takes or drops each datagram
  as it pleases, let the service file what the uplink carried, and let a consumer ask for any range. The service takes the whole uplink stream and
  answers, and the consumer reads the answer back from the bytes: either a refusal with no datagram in it, or datagrams that decode to exactly the
  published events of consecutive sequences, from at or before the first asked for to at or after the last. When the uplink carried everything and
  the service has a slot for each datagram, every range that was published is served.\<close>

theorem replay_serves_what_was_published:
  assumes "list_all event_wf evs" "length evs < u64_max" "batch_size \<le> u16_max" "72 \<le> max_bytes" "max_bytes \<le> limit" "limit \<le> u32_max"
    and "\<forall>k. env_now_ns (env k) \<le> u64_max \<and> env_send_a (env k) \<and> env_send_b (env k)" "capacity \<le> 65536" "lo \<le> u64_max" "hi \<le> u64_max"
  shows "\<exists>fp fp' sent sv sv' out a.
       emit_all evs (set_uplink (set_loss rate mode seed (FeedPublisher_new env batch_size max_bytes))) = (fp, Ok [1..<1 + length evs]) \<and>
       flush fp = (fp', Ok ()) \<and> fp_uplink fp' = Some sent \<and>
       serve_uplink limit (write_hello @ concat (map framed sent))
         \<lparr>sv_store = store_new capacity limit, sv_served = 0, sv_refused = 0\<rparr> = (sv, Ok (length sent)) \<and>
       serve_request (write_request \<lparr>rq_from = lo, rq_through = hi\<rparr>) sv = (sv', Ok out) \<and> replay_request \<lparr>rq_from = lo, rq_through = hi\<rparr> limit out = Ok a \<and>
       (answer_is_ok a \<longrightarrow> (\<exists>i j. read_datagrams (ra_datagrams a) = Ok (zip [i..<j] (take (j - i) (drop (i - 1) evs))) \<and>
          1 \<le> i \<and> i \<le> lo \<and> hi < j \<and> j \<le> 1 + length evs)) \<and>
       (ra_datagrams a = [] \<or> answer_is_ok a) \<and>
       (read_datagrams sent = Ok (zip [1..<1 + length evs] evs) \<and> length sent \<le> max capacity 1 \<and> 1 \<le> lo \<and> lo \<le> hi \<and> hi \<le> length evs
          \<longrightarrow> answer_is_ok a)"
proof (rule published_replay [OF assms, of rate mode seed], goal_cases)
  case (1 fp fp' sent sv sv' out a bs)
  have w: "list_all event_wf (batch_events bs)" "1 + length (batch_events bs) \<le> u64_max" using assms(1,2) 1(11) by simp_all
  have "answer_is_ok a \<longrightarrow> (\<exists>i j. read_datagrams (ra_datagrams a) = Ok (zip [i..<j] (take (j - i) (drop (i - 1) evs))) \<and>
      1 \<le> i \<and> i \<le> lo \<and> hi < j \<and> j \<le> 1 + length evs)"
  proof
    assume "answer_is_ok a"
    then obtain rs where rs: "ra_datagrams a = uplink_images rs" "stretch_covers lo hi bs rs" using 1(7) by blast
    show "\<exists>i j. read_datagrams (ra_datagrams a) = Ok (zip [i..<j] (take (j - i) (drop (i - 1) evs))) \<and> 1 \<le> i \<and> i \<le> lo \<and> hi < j \<and> j \<le> 1 + length evs"
      using read_stretch [OF 1(10) w rs(2)] unfolding rs(1) 1(11) .
  qed
  then show ?thesis
    by (intro exI [of _ fp] exI [of _ fp'] exI [of _ sent] exI [of _ sv] exI [of _ sv'] exI [of _ out] exI [of _ a] conjI 1(1-6,8,9))
qed

theorem replay_serves_what_was_published_witness:
  "\<exists>fp fp' sent sv sv' out a.
     emit_all [EvAdd 1 100 5 1 Bid, EvDelete 1 1 Bid] (set_uplink (set_loss 0 Independent 7 (FeedPublisher_new
       (\<lambda>_. \<lparr>env_now_ns = 9, env_send_a = True, env_send_b = True, env_uplink_takes = True\<rparr>) 1 100))) = (fp, Ok [1, 2]) \<and>
     flush fp = (fp', Ok ()) \<and> fp_uplink fp' = Some sent \<and>
     serve_uplink 200 (write_hello @ concat (map framed sent))
       \<lparr>sv_store = store_new 4 200, sv_served = 0, sv_refused = 0\<rparr> = (sv, Ok (length sent)) \<and>
     serve_request (write_request \<lparr>rq_from = 2, rq_through = 2\<rparr>) sv = (sv', Ok out) \<and>
     replay_request \<lparr>rq_from = 2, rq_through = 2\<rparr> 200 out = Ok a \<and>
     (ra_datagrams a = [] \<or> answer_is_ok a)"
  using replay_serves_what_was_published [of "[EvAdd 1 100 5 1 Bid, EvDelete 1 1 Bid]" 1 100 200
      "\<lambda>_. \<lparr>env_now_ns = 9, env_send_a = True, env_send_b = True, env_uplink_takes = True\<rparr>" 4 2 2 0 Independent 7]
  by (auto simp: in_i64_def upt_rec)

end
