(* ===== verification/ReplayCycle.thy ===== *)
theory ReplayCycle
  imports HandlerRecovery ReplayService
begin

text \<open>
  A replay, end to end: events published through the feed's uplink, filed by the replay service, asked for by a handler with a
  hole and applied to its books.
\<close>

text \<open>The datagrams of consecutive batches are an answer the handler can apply.\<close>

lemma batch_answers:
  assumes "batch_valid t" "bt_events t \<noteq> []" "map ev [bt_first t..<bt_first t + length (bt_events t)] = bt_events t"
  shows "answer_datagram ev (bt_first t) (bt_first t + length (bt_events t)) (batch_image (of_bool b) t)"
proof -
  let ?d = "batch_image (of_bool b) t"
  have v: "list_all event_wf (bt_events t)" "bt_first t + length (bt_events t) \<le> u64_max" "bt_first t \<le> u64_max" "bt_ts t \<le> u64_max"
      "length (bt_events t) \<le> u16_max" "(of_bool b :: nat) \<le> u8_max" using assms(1) by (auto simp: batch_valid_def)
  obtain ms where "datagram_items ?d = Ok (map Inr ms)" "map fst ms = [bt_first t..<bt_first t + length (bt_events t)]"
      "map (\<lambda>m. view_event (snd m)) ms = map Ok (bt_events t)"
    using datagram_image_items [of "bt_events t" "of_bool b" 0 "bt_first t" "bt_ts t"] v by (auto simp: batch_image_def list_all_iff)
  moreover have "map (\<lambda>q. Ok (ev q) :: (wire_error, feed_event) outcome) [bt_first t..<bt_first t + length (bt_events t)] = map Ok (bt_events t)"
    using arg_cong [OF assms(3), of "map (Ok :: feed_event \<Rightarrow> (wire_error, feed_event) outcome)"] by (simp add: comp_def)
  ultimately have "stream_range ev (bt_first t) (bt_first t + length (bt_events t)) ?d" using v(2) unfolding stream_range_def by metis
  moreover note packet_header_image_fields [OF v(6) _ v(3,4,5), of 0 "concat (map event_image (bt_events t))"]
  ultimately show ?thesis using assms(2) by (simp add: answer_datagram_def batch_image_def datagram_image_def)
qed

lemma batches_answer:
  assumes "batches_from n rs" "list_all batch_valid rs" "map ev [n..<n + length (batch_events rs)] = batch_events rs"
    and "n \<le> k" "k = f \<or> n = k" "t < n + length (batch_events rs)"
  shows "answer_covers ev f k t (uplink_images rs)"
  using assms
proof (induction rs arbitrary: n k)
  case (Cons b rs)
  let ?l = "length (bt_events b)"
  have b: "bt_first b = n" "bt_events b \<noteq> []" "batches_from (n + ?l) rs" using Cons.prems(1) by auto
  have "[n..<n + (?l + length (batch_events rs))] = [n..<n + ?l] @ [n + ?l..<n + ?l + length (batch_events rs)]"
    using upt_add_eq_append [of n "n + ?l" "length (batch_events rs)"] by (simp add: add.assoc)
  then have e: "map ev [n..<n + ?l] = bt_events b" "map ev [n + ?l..<n + ?l + length (batch_events rs)] = batch_events rs"
    using Cons.prems(3) by (simp_all add: batch_events_def)
  have "answer_datagram ev n (n + ?l) (batch_image (of_bool (\<not> bt_drop_b b)) b)"
    using batch_answers [of b ev "\<not> bt_drop_b b"] b e(1) Cons.prems(2) by simp
  moreover have "answer_covers ev f (max k (n + ?l)) t (uplink_images rs)"
  proof (rule Cons.IH [OF b(3) _ e(2)])
    show "max k (n + ?l) = f \<or> n + ?l = max k (n + ?l)" using Cons.prems(5) by auto
  qed (use Cons.prems in \<open>simp_all add: batch_events_def\<close>)
  ultimately show ?case using Cons.prems(4,5) unfolding uplink_images_def list.map answer_covers.simps by blast
qed (simp add: uplink_images_def)

lemma stretch_answer:
  assumes "batches_from 1 bs" "list_all event_wf (batch_events bs)" "1 + length (batch_events bs) \<le> u64_max"
    and "map ev [1..<1 + length (batch_events bs)] = batch_events bs" "stretch_covers f t bs rs"
  shows "answer_covers ev f f t (uplink_images rs)"
proof -
  obtain us vs where bs: "bs = us @ rs @ vs" "1 + length (batch_events us) \<le> f" "t < 1 + length (batch_events us) + length (batch_events rs)"
    using assms(5) by (auto simp: stretch_covers_def)
  define i where "i = 1 + length (batch_events us)"
  have ev: "batch_events bs = batch_events us @ batch_events rs @ batch_events vs" by (simp add: bs)
  have f: "batches_from i rs" using assms(1) unfolding bs i_def by (simp add: batches_from_append)
  have "list_all batch_valid rs" using batches_valid(1) [OF f] assms(2,3) by (simp add: ev i_def)
  moreover have "map ev [i..<i + length (batch_events rs)] = batch_events rs"
  proof (rule nth_equalityI, simp)
    fix k
    assume k: "k < length (map ev [i..<i + length (batch_events rs)])"
    have "map ev [1..<1 + length (batch_events bs)] ! (length (batch_events us) + k) = batch_events bs ! (length (batch_events us) + k)"
      using assms(4) by simp
    then show "map ev [i..<i + length (batch_events rs)] ! k = batch_events rs ! k" using k by (simp add: ev i_def nth_append del: upt_Suc)
  qed
  ultimately show ?thesis using batches_answer [OF f] bs(2,3) by (simp add: i_def)
qed

section \<open>Properties\<close>

text \<open>C21: a replay recovers a handler. Let events be published through an uplink that takes or drops each datagram as it pleases, and let a handler whose
  books are in step through \<open>f - 1\<close>, with a recovery open and the traffic held meanwhile continuing after \<open>t\<close>, ask the service for \<open>f\<close> to \<open>t\<close>. Whenever
  the service does not refuse, applying its answer leaves the books in step through the end of the held traffic, with the recovery closed; and it does not
  refuse when the uplink carried everything and the service has a slot for each datagram.\<close>

theorem replay_recovers_the_handler:
  assumes pub: "list_all event_wf evs" "length evs < u64_max" "batch_size \<le> u16_max" "72 \<le> max_bytes" "max_bytes \<le> limit" "limit \<le> u32_max"
      "\<forall>k. env_now_ns (env k) \<le> u64_max \<and> env_send_a (env k) \<and> env_send_b (env k)" "capacity \<le> 65536"
    and handler: "hc_ops cfg = refbook_ops" "hc_new cfg = refbook_new" "in_step refbook_rel h sp (f - 1)"
      "rc_state (hd_rec h) = AwaitingSnapshot g" "held_ok ev (hd_rec h)" "held_discontinuity (t + 1) (hd_rec h) = None"
    and asked: "1 \<le> f" "f \<le> t" "t \<le> length evs" "map ev [1..<1 + length evs] = evs"
      "spec_run ev [f..<held_reach (t + 1) (held_slots (hd_rec h))] sp = Ok sp'"
  shows "\<exists>fp fp' sent sv sv' out a.
       emit_all evs (set_uplink (set_loss rate mode seed (FeedPublisher_new env batch_size max_bytes))) = (fp, Ok [1..<1 + length evs]) \<and>
       flush fp = (fp', Ok ()) \<and> fp_uplink fp' = Some sent \<and>
       serve_uplink limit (write_hello @ concat (map framed sent))
         \<lparr>sv_store = store_new capacity limit, sv_served = 0, sv_refused = 0\<rparr> = (sv, Ok (length sent)) \<and>
       serve_request (write_request \<lparr>rq_from = f, rq_through = t\<rparr>) sv = (sv', Ok out) \<and> replay_request \<lparr>rq_from = f, rq_through = t\<rparr> limit out = Ok a \<and>
       (read_datagrams sent = Ok (zip [1..<1 + length evs] evs) \<and> length sent \<le> max capacity 1 \<longrightarrow> answer_is_ok a) \<and>
       (answer_is_ok a \<longrightarrow> (\<exists>h'. apply_replay cfg now \<lparr>rr_from = f, rr_through = t, rr_datagrams = ra_datagrams a\<rparr> h = (h', Ok True) \<and>
          in_step refbook_rel h' sp' (held_reach (t + 1) (held_slots (hd_rec h)) - 1) \<and> \<not> is_recovering (hd_rec h')))"
proof (rule published_replay [OF pub, of f t rate mode seed], goal_cases)
  case (3 fp fp' sent sv sv' out a bs)
  have w: "list_all event_wf (batch_events bs)" "1 + length (batch_events bs) \<le> u64_max" "map ev [1..<1 + length (batch_events bs)] = batch_events bs"
    using pub(1,2) asked(4) unfolding 3(11) by simp_all
  have t: "t < u64_max" using asked(3) pub(2) by simp
  have "answer_is_ok a \<longrightarrow> (\<exists>h'. apply_replay cfg now \<lparr>rr_from = f, rr_through = t, rr_datagrams = ra_datagrams a\<rparr> h = (h', Ok True) \<and>
      in_step refbook_rel h' sp' (held_reach (t + 1) (held_slots (hd_rec h)) - 1) \<and> \<not> is_recovering (hd_rec h'))"
  proof
    assume "answer_is_ok a"
    then obtain rs where rs: "ra_datagrams a = uplink_images rs" "stretch_covers f t bs rs" using 3(7) by blast
    from refset.apply_replay_run [OF handler(1-5) asked(1,2) t stretch_answer [OF 3(10) w rs(2)] handler(6) asked(5), of now]
    show "\<exists>h'. apply_replay cfg now \<lparr>rr_from = f, rr_through = t, rr_datagrams = ra_datagrams a\<rparr> h = (h', Ok True) \<and>
      in_step refbook_rel h' sp' (held_reach (t + 1) (held_slots (hd_rec h)) - 1) \<and> \<not> is_recovering (hd_rec h')" unfolding rs(1) by blast
  qed
  moreover have "read_datagrams sent = Ok (zip [1..<1 + length evs] evs) \<and> length sent \<le> max capacity 1 \<longrightarrow> answer_is_ok a" using 3(9) asked(1-3) by blast
  ultimately show ?thesis
    by (intro exI [of _ fp] exI [of _ fp'] exI [of _ sent] exI [of _ sv] exI [of _ sv'] exI [of _ out] exI [of _ a] conjI 3(1-6))
qed (use asked(2,3) pub(2) in simp_all)

theorem replay_recovers_the_handler_witness:
  "\<exists>fp fp' sent sv sv' out a.
     emit_all (replicate 12 (EvHeartbeat 9)) (set_uplink (set_loss 0 Independent 7 (FeedPublisher_new
       (\<lambda>_. \<lparr>env_now_ns = 9, env_send_a = True, env_send_b = True, env_uplink_takes = True\<rparr>) 4 100))) = (fp, Ok [1..<1 + length (replicate 12 (EvHeartbeat 9))]) \<and>
     flush fp = (fp', Ok ()) \<and> fp_uplink fp' = Some sent \<and>
     serve_uplink 200 (write_hello @ concat (map framed sent))
       \<lparr>sv_store = store_new 4 200, sv_served = 0, sv_refused = 0\<rparr> = (sv, Ok (length sent)) \<and>
     serve_request (write_request \<lparr>rq_from = 7, rq_through = 9\<rparr>) sv = (sv', Ok out) \<and>
     replay_request \<lparr>rq_from = 7, rq_through = 9\<rparr> 200 out = Ok a"
proof -
  let ?h = "sample_handler [held_beat 9 2, held_beat 11 2]"
  have h: "in_step refbook_rel ?h (\<lambda>_. []) (7 - 1)" using sample_in_step by simp
  have s: "held_slots (hd_rec ?h) = [held_beat 9 2, held_beat 11 2]" "rc_state (hd_rec ?h) = AwaitingSnapshot 7"
    by (simp_all add: sample_handler_def)
  have d: "held_discontinuity (9 + 1) (hd_rec ?h) = None" using s by (simp add: held_discontinuity_def held_end_def)
  have m: "map beats [1..<1 + length (replicate 12 (EvHeartbeat 9))] = replicate 12 (EvHeartbeat 9)" by (simp add: map_replicate_const del: upt_Suc)
  have e: "list_all event_wf (replicate 12 (EvHeartbeat 9))" by (simp add: list_all_iff)
  have c: "hc_ops sample_cfg = refbook_ops" "hc_new sample_cfg = refbook_new" by (simp_all add: sample_cfg_def)
  note run = replay_recovers_the_handler [OF e _ _ _ _ _ _ _ c h s(2) sample_held_ok d _ _ _ m beats_run]
  show ?thesis
    by (rule exE [OF run [of 4 100 200 "\<lambda>_. \<lparr>env_now_ns = 9, env_send_a = True, env_send_b = True, env_uplink_takes = True\<rparr>" 4 0 Independent 7]])
       (simp_all, blast)
qed

end
