(* ===== verification/Config.thy ===== *)
theory Config
  imports Feed
begin

text \<open>
  The configuration, \<open>crates/mdconfig/src/lib.rs\<close>: what it holds for the engine, the feed and the handler, and the check a loaded
  configuration has to pass. Addresses, paths and the transport section are left out; a chance is a rational where the
  source has a double.
\<close>

record symbol_config =
  sm_id :: nat
  sm_name :: string
  sm_reference_price :: int
  sm_tick_size :: int

record feed_config =
  fc_batch_size :: nat
  fc_max_datagram_bytes :: nat
  fc_flush_interval_micros :: nat
  fc_heartbeat_millis :: nat
  fc_snapshot_interval_millis :: nat
  fc_snapshot_linger_millis :: nat

record engine_config =
  ec_seed :: "64 word"
  ec_messages :: nat
  ec_duration_seconds :: nat
  ec_rate_per_second :: nat
  ec_digest_interval :: nat
  ec_self_check :: bool
  ec_target_depth :: nat
  ec_price_spread_ticks :: int
  ec_aggressive_chance :: rat
  ec_cancel_chance :: rat
  ec_modify_chance :: rat
  ec_min_quantity :: nat
  ec_max_quantity :: nat
  ec_drop_rate :: rat
  ec_drop_mode :: string
  ec_drop_seed :: "64 word"

record handler_config =
  hf_digest_interval :: nat
  hf_stats_interval_millis :: nat
  hf_messages :: nat
  hf_idle_timeout_seconds :: nat
  hf_reorder_window_datagrams :: nat
  hf_gap_timeout_millis :: nat
  hf_recovery_buffer_datagrams :: nat
  hf_recovery_timeout_millis :: nat
  hf_book_levels :: nat
  hf_book_orders :: nat

record config =
  cf_feed :: feed_config
  cf_symbols :: "symbol_config list"
  cf_engine :: engine_config
  cf_handler :: handler_config

datatype config_error =
    NoSymbols
  | DuplicateSymbol
  | BadTickSize string int
  | ZeroBatchSize
  | DatagramTooSmall nat
  | RecoveryTooShort nat nat

abbreviation (input) DATAGRAM_FLOOR :: nat where "DATAGRAM_FLOOR \<equiv> 24 + 8 + 40"

definition Config_validate :: "config \<Rightarrow> (config_error, unit) outcome" where
  "Config_validate cfg =
     (if cf_symbols cfg = [] then Err NoSymbols
      else if length (remdups_adj (sort (map sm_id (cf_symbols cfg)))) \<noteq> length (cf_symbols cfg) then Err DuplicateSymbol
      else case find (\<lambda>s. sm_tick_size s \<le> 0) (cf_symbols cfg) of
        Some s \<Rightarrow> Err (BadTickSize (sm_name s) (sm_tick_size s))
      | None \<Rightarrow>
          if fc_batch_size (cf_feed cfg) = 0 then Err ZeroBatchSize
          else if fc_max_datagram_bytes (cf_feed cfg) < DATAGRAM_FLOOR then Err (DatagramTooSmall (fc_max_datagram_bytes (cf_feed cfg)))
          else if fc_snapshot_interval_millis (cf_feed cfg) > 0 \<and>
              hf_recovery_timeout_millis (cf_handler cfg) \<le> fc_snapshot_interval_millis (cf_feed cfg) * 2 mod 2 ^ 64
            then Err (RecoveryTooShort (hf_recovery_timeout_millis (cf_handler cfg)) (fc_snapshot_interval_millis (cf_feed cfg)))
          else Ok ())"

definition symbol_name :: "nat \<Rightarrow> config \<Rightarrow> string option" where
  "symbol_name i cfg = map_option sm_name (find (\<lambda>s. sm_id s = i) (cf_symbols cfg))"

definition feed_default :: feed_config where
  "feed_default = \<lparr>fc_batch_size = 32, fc_max_datagram_bytes = 1400, fc_flush_interval_micros = 500, fc_heartbeat_millis = 1000,
     fc_snapshot_interval_millis = 2000, fc_snapshot_linger_millis = 3000\<rparr>"

definition market_default :: "symbol_config list" where
  "market_default = [\<lparr>sm_id = 1, sm_name = ''ACME'', sm_reference_price = 1000000, sm_tick_size = 100\<rparr>]"

definition engine_default :: engine_config where
  "engine_default = \<lparr>ec_seed = 0x5EED1234ABCD0001, ec_messages = 0, ec_duration_seconds = 0, ec_rate_per_second = 0, ec_digest_interval = 1000,
     ec_self_check = False, ec_target_depth = 40, ec_price_spread_ticks = 8, ec_aggressive_chance = 18 / 100, ec_cancel_chance = 25 / 100,
     ec_modify_chance = 15 / 100, ec_min_quantity = 1, ec_max_quantity = 500, ec_drop_rate = 0, ec_drop_mode = ''independent'',
     ec_drop_seed = 0x01050B1055100000\<rparr>"

definition handler_default :: handler_config where
  "handler_default = \<lparr>hf_digest_interval = 1000, hf_stats_interval_millis = 1000, hf_messages = 0, hf_idle_timeout_seconds = 0,
     hf_reorder_window_datagrams = 256, hf_gap_timeout_millis = 250, hf_recovery_buffer_datagrams = 4096, hf_recovery_timeout_millis = 10000,
     hf_book_levels = 4096, hf_book_orders = 65536\<rparr>"

definition config_default :: config where
  "config_default = \<lparr>cf_feed = feed_default, cf_symbols = market_default, cf_engine = engine_default, cf_handler = handler_default\<rparr>"

definition DropMode_from_str :: "string \<Rightarrow> drop_mode option" where
  "DropMode_from_str s = (if s = ''independent'' then Some Independent else if s = ''exclusive'' then Some Exclusive
     else if s = ''correlated'' then Some Correlated else None)"

section \<open>What a valid configuration promises\<close>

lemma length_dedup_sorted: "sorted xs \<Longrightarrow> length (remdups_adj xs) = length xs \<longleftrightarrow> distinct xs" for xs :: "nat list"
proof (induction xs rule: remdups_adj.induct)
  case (3 x y xs)
  show ?case
  proof (cases "x = y")
    case True
    then show ?thesis using remdups_adj_length [of "x # xs"] by simp
  next
    case False
    then have "x \<notin> set (y # xs)" using 3(3) by fastforce
    then show ?thesis using 3 False by simp
  qed
qed simp_all

lemma length_dedup: "length (remdups_adj (sort xs)) = length xs \<longleftrightarrow> distinct xs" for xs :: "nat list"
  using length_dedup_sorted [OF sorted_sort [of xs]] by simp

lemma valid_config:
  assumes "Config_validate cfg = Ok ()"
  shows "cf_symbols cfg \<noteq> []" "distinct (map sm_id (cf_symbols cfg))" "\<forall>s\<in>set (cf_symbols cfg). 0 < sm_tick_size s"
    "1 \<le> fc_batch_size (cf_feed cfg)" "72 \<le> fc_max_datagram_bytes (cf_feed cfg)"
  using assms length_dedup [of "map sm_id (cf_symbols cfg)"]
  by (auto simp: Config_validate_def find_None_iff not_le split: if_splits option.splits)

lemma default_is_valid: "Config_validate config_default = Ok ()"
  by (simp add: Config_validate_def config_default_def feed_default_def market_default_def handler_default_def)

end
