(* ===== verification/Generator.thy ===== *)
theory Generator
  imports Engine Config
begin

text \<open>
  The synthetic order flow, \<open>crates/matching-engine/src/generator.rs\<close>: a seeded generator that decides what happens to a symbol next
  from how many of its own orders rest there. A panic of an index out of bounds is \<open>Panic\<close>; the \<open>i64\<close> arithmetic
  of prices wraps, the drift of the mid saturates.
\<close>

section \<open>The generator\<close>

datatype intent =
    IntentSubmit nat side int nat
  | IntentCancel nat nat
  | IntentAmend nat nat "int option" nat

record shape =
  sh_target_depth :: nat
  sh_price_spread_ticks :: int
  sh_aggressive_chance :: rat
  sh_cancel_chance :: rat
  sh_modify_chance :: rat
  sh_min_quantity :: nat
  sh_max_quantity :: nat

definition Shape_from :: "engine_config \<Rightarrow> shape" where
  "Shape_from e = \<lparr>sh_target_depth = ec_target_depth e, sh_price_spread_ticks = max (ec_price_spread_ticks e) 1,
     sh_aggressive_chance = ec_aggressive_chance e, sh_cancel_chance = ec_cancel_chance e, sh_modify_chance = ec_modify_chance e,
     sh_min_quantity = max (ec_min_quantity e) 1, sh_max_quantity = max (ec_max_quantity e) 1\<rparr>"

record generator =
  gn_rng :: "64 word"
  gn_shape :: shape

definition Generator_new :: "64 word \<Rightarrow> shape \<Rightarrow> generator" where
  "Generator_new seed sh = \<lparr>gn_rng = seed, gn_shape = sh\<rparr>"

type_synonym 'a gen_op = "(generator, io_error, 'a) mut_method"

definition gen_draw :: "(64 word \<Rightarrow> 64 word \<times> 'a) \<Rightarrow> 'a gen_op" where
  "gen_draw draw g = (case draw (gn_rng g) of (r, x) \<Rightarrow> (g\<lparr>gn_rng := r\<rparr>, Ok x))"

definition pick_symbol :: "nat \<Rightarrow> nat gen_op" where
  "pick_symbol symbols = gen_draw (rng_below symbols)"

definition gen_quantity :: "nat gen_op" where
  "gen_quantity g =
     sbind (gen_draw (rng_range_inclusive (sh_min_quantity (gn_shape g)) (sh_max_quantity (gn_shape g)))) (\<lambda>k. sreturn (k mod 2 ^ 32)) g"

definition price_near :: "int \<Rightarrow> int \<Rightarrow> int gen_op" where
  "price_near mid tick g =
     (let spread = sh_price_spread_ticks (gn_shape g) in
      sbind (gen_draw (rng_below (wrap_add_u64 (nat (spread mod 2 ^ 64) * 2 mod 2 ^ 64) 1))) (\<lambda>k.
        let offset = wrap_i64 (wrap_i64 (int k) - spread) in sreturn (wrap_i64 (mid + wrap_i64 (offset * tick)))) g)"

definition passive_price :: "int \<Rightarrow> int \<Rightarrow> side \<Rightarrow> int gen_op" where
  "passive_price mid tick side g =
     sbind (gen_draw (rng_range_inclusive 1 (nat (sh_price_spread_ticks (gn_shape g) mod 2 ^ 64)))) (\<lambda>k.
       let ticks = wrap_i64 (int k) in
       sreturn (case side of Bid \<Rightarrow> wrap_i64 (mid - wrap_i64 (ticks * tick)) | Ask \<Rightarrow> wrap_i64 (mid + wrap_i64 (ticks * tick)))) g"

definition pick_live :: "symbol_state \<Rightarrow> nat gen_op" where
  "pick_live sy = sbind (gen_draw (rng_below (length (sy_live sy)))) (\<lambda>idx.
     if idx < length (sy_live sy) then sreturn (sy_live sy ! idx) else slift Panic)"

text \<open>The branch for a book that is not starving: cancel, amend, or fall through.\<close>

definition recycle :: "shape \<Rightarrow> bool \<Rightarrow> symbol_state \<Rightarrow> intent option gen_op" where
  "recycle sh crowded sy =
     sbind (gen_draw (rng_chance (if crowded then 3 / 4 else sh_cancel_chance sh))) (\<lambda>cancels.
        if cancels then sbind (pick_live sy) (\<lambda>i. sreturn (Some (IntentCancel (sy_id sy) i)))
        else sbind (gen_draw (rng_chance (sh_modify_chance sh))) (\<lambda>modifies.
          if modifies then
            sbind (pick_live sy) (\<lambda>i.
            sbind gen_quantity (\<lambda>q.
            sbind (gen_draw (rng_chance (1 / 2))) (\<lambda>keep.
            sbind (if keep then sreturn None else sbind (price_near (sy_mid sy) (sy_tick_size sy)) (\<lambda>p. sreturn (Some p))) (\<lambda>np.
            sreturn (Some (IntentAmend (sy_id sy) i np q))))))
          else sreturn None))"

definition fresh_order :: "shape \<Rightarrow> bool \<Rightarrow> symbol_state \<Rightarrow> intent gen_op" where
  "fresh_order sh starving sy =
     (let mid = sy_mid sy; tick = sy_tick_size sy in
      sbind (gen_draw (rng_chance (1 / 2))) (\<lambda>bid.
      let side = (if bid then Bid else Ask) in
      sbind (if starving then sreturn False else gen_draw (rng_chance (sh_aggressive_chance sh))) (\<lambda>aggressive.
      sbind (if aggressive then
               sbind (gen_draw (rng_range_inclusive 1 3)) (\<lambda>k.
                 let reach = wrap_i64 (wrap_i64 (int k) * tick) in
                 sreturn (case side of Bid \<Rightarrow> wrap_i64 (mid + reach) | Ask \<Rightarrow> wrap_i64 (mid - reach)))
             else passive_price mid tick side) (\<lambda>price.
      sbind gen_quantity (\<lambda>q. sreturn (IntentSubmit (sy_id sy) side price q))))))"

definition Generator_next :: "symbol_state \<Rightarrow> intent gen_op" where
  "Generator_next sy g =
     (let resting = length (sy_live sy); depth = sh_target_depth (gn_shape g);
          starving = (resting < depth div 2); crowded = (resting > depth * 2 mod 2 ^ 64) in
      sbind (if \<not> starving \<and> resting > 0 then recycle (gn_shape g) crowded sy else sreturn None) (\<lambda>r.
        case r of Some intent \<Rightarrow> sreturn intent | None \<Rightarrow> fresh_order (gn_shape g) starving sy) g)"

definition sat_i64 :: "int \<Rightarrow> int" where
  "sat_i64 x = max (- (2 ^ 63)) (min (2 ^ 63 - 1) x)"

definition drift_mid :: "symbol_state \<Rightarrow> symbol_state gen_op" where
  "drift_mid sy = sbind (gen_draw (rng_below 64)) (\<lambda>k. sreturn
     (if k = 0 then sy\<lparr>sy_mid := sat_i64 (sy_mid sy + sy_tick_size sy)\<rparr>
      else if k = 1 then sy\<lparr>sy_mid := sat_i64 (sy_mid sy - sy_tick_size sy)\<rparr> else sy))"

section \<open>What an operation yields\<close>

text \<open>An operation that always returns a value satisfying \<open>P\<close> and keeps the shape \<open>sh\<close>.\<close>

definition yields :: "shape \<Rightarrow> 'a gen_op \<Rightarrow> ('a \<Rightarrow> bool) \<Rightarrow> bool" where
  "yields sh m P \<longleftrightarrow> (\<forall>g. gn_shape g = sh \<longrightarrow> (\<exists>g' x. m g = (g', Ok x) \<and> gn_shape g' = sh \<and> P x))"

lemma yields_return: "P x \<Longrightarrow> yields sh (sreturn x) P"
  by (simp add: yields_def sreturn_def)

lemma yields_bind: "yields sh m P \<Longrightarrow> (\<And>x. P x \<Longrightarrow> yields sh (k x) Q) \<Longrightarrow> yields sh (sbind m k) Q"
  by (fastforce simp: yields_def sbind_def)

lemma yields_draw: "(\<And>r. P (snd (draw r))) \<Longrightarrow> yields sh (gen_draw draw) P"
  by (simp add: yields_def gen_draw_def case_prod_beta)

lemma yields_any: "yields sh (gen_draw draw) (\<lambda>_. True)"
  by (rule yields_draw) simp

lemma yields_if: "(b \<Longrightarrow> yields sh m P) \<Longrightarrow> (\<not> b \<Longrightarrow> yields sh n P) \<Longrightarrow> yields sh (if b then m else n) P"
  by simp

lemma yields_at: "(\<And>g. gn_shape g = sh \<Longrightarrow> m g = n g) \<Longrightarrow> yields sh n P \<Longrightarrow> yields sh m P"
  by (simp add: yields_def)

definition shape_ok :: "shape \<Rightarrow> bool" where
  "shape_ok sh \<longleftrightarrow> 1 \<le> sh_min_quantity sh \<and> sh_min_quantity sh \<le> u32_max \<and> sh_max_quantity sh \<le> u32_max \<and>
     1 \<le> sh_price_spread_ticks sh \<and> sh_price_spread_ticks sh < 2 ^ 63"

definition quantity_ok :: "shape \<Rightarrow> nat \<Rightarrow> bool" where
  "quantity_ok sh q \<longleftrightarrow> sh_min_quantity sh \<le> q \<and> q \<le> max (sh_min_quantity sh) (sh_max_quantity sh)"

text \<open>A price some whole number of ticks from the mid, at most the spread or the reach of an aggressive order.\<close>

definition on_grid :: "shape \<Rightarrow> symbol_state \<Rightarrow> int \<Rightarrow> bool" where
  "on_grid sh sy p \<longleftrightarrow> in_i64 p \<and> (\<exists>k. \<bar>k\<bar> \<le> max 3 (sh_price_spread_ticks sh) \<and> p = wrap_i64 (sy_mid sy + k * sy_tick_size sy))"

lemma range_inclusive_between:
  assumes "hi \<le> u64_max"
  shows "lo \<le> snd (rng_range_inclusive lo hi r) \<and> snd (rng_range_inclusive lo hi r) \<le> max lo hi"
proof (cases "lo \<le> hi")
  case True
  then show ?thesis using rng_range_inclusive_bounds [OF True assms, of r] by simp
qed (simp add: rng_range_inclusive_def)

lemma yields_below: "0 < n \<Longrightarrow> yields sh (gen_draw (rng_below n)) (\<lambda>k. k < n)"
  by (rule yields_draw) (simp add: rng_below_bound)

lemma yields_range: "hi \<le> u64_max \<Longrightarrow> yields sh (gen_draw (rng_range_inclusive lo hi)) (\<lambda>k. lo \<le> k \<and> k \<le> max lo hi)"
  by (rule yields_draw) (rule range_inclusive_between)

lemma wrap_i64_cong: "x mod 2 ^ 64 = y mod 2 ^ 64 \<Longrightarrow> wrap_i64 x = wrap_i64 y"
  unfolding wrap_i64_def by (metis mod_add_left_eq)

lemma wrap_i64_mod: "wrap_i64 x mod 2 ^ 64 = x mod 2 ^ 64"
  by (simp add: wrap_i64_def mod_diff_left_eq)

lemma wrap_price: "wrap_i64 (m + wrap_i64 (wrap_i64 j * t)) = wrap_i64 (m + j * t)" "wrap_i64 (m - wrap_i64 (wrap_i64 j * t)) = wrap_i64 (m + (- j) * t)"
proof -
  have a: "(wrap_i64 (wrap_i64 j * t)) mod 2 ^ 64 = (j * t) mod 2 ^ 64" unfolding wrap_i64_mod by (metis mod_mult_left_eq wrap_i64_mod)
  show "wrap_i64 (m + wrap_i64 (wrap_i64 j * t)) = wrap_i64 (m + j * t)" by (rule wrap_i64_cong) (metis a mod_add_right_eq)
  show "wrap_i64 (m - wrap_i64 (wrap_i64 j * t)) = wrap_i64 (m + (- j) * t)"
    by (rule wrap_i64_cong) (metis a mod_diff_right_eq mult_minus_left add_uminus_conv_diff)
qed

lemma gen_quantity_yields: "shape_ok sh \<Longrightarrow> yields sh gen_quantity (quantity_ok sh)"
proof (rule yields_at)
  assume ok: "shape_ok sh"
  have h: "sh_max_quantity sh \<le> u64_max" using ok by (simp add: shape_ok_def)
  show "yields sh (sbind (gen_draw (rng_range_inclusive (sh_min_quantity sh) (sh_max_quantity sh))) (\<lambda>k. sreturn (k mod 2 ^ 32))) (quantity_ok sh)"
  proof (rule yields_bind [OF yields_range [OF h]], elim conjE, rule yields_return)
    fix k
    assume "sh_min_quantity sh \<le> k" "k \<le> max (sh_min_quantity sh) (sh_max_quantity sh)"
    moreover then have "k mod 2 ^ 32 = k" using ok by (intro mod_less) (auto simp: shape_ok_def)
    ultimately show "quantity_ok sh (k mod 2 ^ 32)" by (simp add: quantity_ok_def)
  qed
qed (simp add: gen_quantity_def)

lemma price_near_yields: "shape_ok sh \<Longrightarrow> yields sh (price_near (sy_mid sy) (sy_tick_size sy)) (on_grid sh sy)"
proof (rule yields_at)
  assume ok: "shape_ok sh"
  define n where "n = wrap_add_u64 (nat (sh_price_spread_ticks sh mod 2 ^ 64) * 2 mod 2 ^ 64) 1"
  have s: "sh_price_spread_ticks sh mod 2 ^ 64 = sh_price_spread_ticks sh" using ok by (simp add: shape_ok_def)
  have n: "int n = 2 * sh_price_spread_ticks sh + 1" "0 < n" using ok by (auto simp: n_def s shape_ok_def)
  show "yields sh (sbind (gen_draw (rng_below n)) (\<lambda>k.
        let offset = wrap_i64 (wrap_i64 (int k) - sh_price_spread_ticks sh) in
        sreturn (wrap_i64 (sy_mid sy + wrap_i64 (offset * sy_tick_size sy))))) (on_grid sh sy)"
  proof (rule yields_bind [OF yields_below [OF n(2)]], unfold Let_def, rule yields_return)
    fix k
    assume k: "k < n"
    let ?j = "int k - sh_price_spread_ticks sh"
    have "wrap_i64 (wrap_i64 (int k) - sh_price_spread_ticks sh) = wrap_i64 ?j"
      by (rule wrap_i64_cong) (metis mod_diff_left_eq wrap_i64_mod)
    moreover have "\<bar>?j\<bar> \<le> max 3 (sh_price_spread_ticks sh)" using k n(1) by linarith
    ultimately show "on_grid sh sy (wrap_i64 (sy_mid sy + wrap_i64 (wrap_i64 (wrap_i64 (int k) - sh_price_spread_ticks sh) * sy_tick_size sy)))"
      unfolding on_grid_def by (metis in_i64_wrap wrap_price(1))
  qed
qed (simp add: price_near_def Let_def)

text \<open>A number of ticks on one side of the mid is a price on the grid.\<close>

lemma sided_price: "1 \<le> k \<Longrightarrow> int k \<le> max 3 (sh_price_spread_ticks sh) \<Longrightarrow>
    on_grid sh sy (wrap_i64 (sy_mid sy + wrap_i64 (wrap_i64 (int k) * sy_tick_size sy))) \<and>
    on_grid sh sy (wrap_i64 (sy_mid sy - wrap_i64 (wrap_i64 (int k) * sy_tick_size sy)))"
  unfolding on_grid_def wrap_price by (auto intro: exI [of _ "int k"] exI [of _ "- int k"])

lemma passive_price_yields: "shape_ok sh \<Longrightarrow> yields sh (passive_price (sy_mid sy) (sy_tick_size sy) s) (on_grid sh sy)"
proof (rule yields_at)
  assume ok: "shape_ok sh"
  have s: "sh_price_spread_ticks sh mod 2 ^ 64 = sh_price_spread_ticks sh" using ok by (simp add: shape_ok_def)
  have h: "nat (sh_price_spread_ticks sh mod 2 ^ 64) \<le> u64_max" unfolding s using ok by (simp add: shape_ok_def nat_le_iff)
  show "yields sh (sbind (gen_draw (rng_range_inclusive 1 (nat (sh_price_spread_ticks sh mod 2 ^ 64)))) (\<lambda>k.
       let ticks = wrap_i64 (int k) in
       sreturn (case s of Bid \<Rightarrow> wrap_i64 (sy_mid sy - wrap_i64 (ticks * sy_tick_size sy)) | Ask \<Rightarrow> wrap_i64 (sy_mid sy + wrap_i64 (ticks * sy_tick_size sy)))))
     (on_grid sh sy)"
  proof (rule yields_bind [OF yields_range [OF h]], unfold Let_def, rule yields_return, elim conjE)
    fix k
    assume k: "1 \<le> k" "k \<le> max 1 (nat (sh_price_spread_ticks sh mod 2 ^ 64))"
    then have "int k \<le> max 3 (sh_price_spread_ticks sh)" unfolding s using ok by (auto simp: shape_ok_def)
    from sided_price [OF k(1) this, of sy]
    show "on_grid sh sy (case s of Bid \<Rightarrow> wrap_i64 (sy_mid sy - wrap_i64 (wrap_i64 (int k) * sy_tick_size sy))
        | Ask \<Rightarrow> wrap_i64 (sy_mid sy + wrap_i64 (wrap_i64 (int k) * sy_tick_size sy)))" by (cases s) simp_all
  qed
qed (simp add: passive_price_def)

lemma pick_live_yields: "0 < length (sy_live sy) \<Longrightarrow> yields sh (pick_live sy) (\<lambda>i. i \<in> set (sy_live sy))"
  unfolding pick_live_def by (rule yields_bind [OF yields_below]) (auto intro: yields_return)

section \<open>Intents\<close>

fun intent_ok :: "shape \<Rightarrow> symbol_state \<Rightarrow> intent \<Rightarrow> bool" where
  "intent_ok sh sy (IntentSubmit y s p q) \<longleftrightarrow> y = sy_id sy \<and> on_grid sh sy p \<and> quantity_ok sh q"
| "intent_ok sh sy (IntentCancel y i) \<longleftrightarrow> y = sy_id sy \<and> i \<in> set (sy_live sy) \<and> sh_target_depth sh div 2 \<le> length (sy_live sy)"
| "intent_ok sh sy (IntentAmend y i np q) \<longleftrightarrow> y = sy_id sy \<and> i \<in> set (sy_live sy) \<and> sh_target_depth sh div 2 \<le> length (sy_live sy) \<and>
     pred_option (on_grid sh sy) np \<and> quantity_ok sh q"

lemma recycle_yields:
  assumes "shape_ok sh" "0 < length (sy_live sy)" "sh_target_depth sh div 2 \<le> length (sy_live sy)"
  shows "yields sh (recycle sh crowded sy) (pred_option (intent_ok sh sy))"
proof -
  note live = pick_live_yields [OF assms(2), of sh]
  have np: "yields sh (if keep then sreturn None else sbind (price_near (sy_mid sy) (sy_tick_size sy)) (\<lambda>p. sreturn (Some p))) (pred_option (on_grid sh sy))" for keep
    by (intro yields_if yields_bind [OF price_near_yields [OF assms(1)]] yields_return) simp_all
  show ?thesis unfolding recycle_def
    by (intro yields_bind [OF yields_any] yields_if yields_bind [OF live] yields_bind [OF gen_quantity_yields [OF assms(1)]] yields_bind [OF np] yields_return)
       (use assms(3) in simp_all)
qed

lemma fresh_order_yields:
  assumes "shape_ok sh"
  shows "yields sh (fresh_order sh starving sy) (\<lambda>i. intent_ok sh sy i \<and> (\<exists>s p q. i = IntentSubmit (sy_id sy) s p q))"
proof -
  have a: "yields sh (sbind (gen_draw (rng_range_inclusive 1 3)) (\<lambda>k.
        let reach = wrap_i64 (wrap_i64 (int k) * sy_tick_size sy) in
        sreturn (case s of Bid \<Rightarrow> wrap_i64 (sy_mid sy + reach) | Ask \<Rightarrow> wrap_i64 (sy_mid sy - reach)))) (on_grid sh sy)" for s
  proof (rule yields_bind [OF yields_range], simp, unfold Let_def, rule yields_return, elim conjE)
    fix k :: nat
    assume k: "1 \<le> k" "k \<le> max 1 3"
    then have "int k \<le> max 3 (sh_price_spread_ticks sh)" by simp
    from sided_price [OF k(1) this, of sy]
    show "on_grid sh sy (case s of Bid \<Rightarrow> wrap_i64 (sy_mid sy + wrap_i64 (wrap_i64 (int k) * sy_tick_size sy))
        | Ask \<Rightarrow> wrap_i64 (sy_mid sy - wrap_i64 (wrap_i64 (int k) * sy_tick_size sy)))" by (cases s) simp_all
  qed
  have b: "yields sh (if starving then sreturn False else gen_draw draw) (\<lambda>_. True)" for draw
    by (intro yields_if yields_return yields_any) simp
  note p = yields_if [OF a passive_price_yields [OF assms]]
  show ?thesis unfolding fresh_order_def Let_def
    by (rule yields_bind [OF yields_any], rule yields_bind [OF b], rule yields_bind [OF p [unfolded Let_def]],
        rule yields_bind [OF gen_quantity_yields [OF assms]], rule yields_return) simp
qed

lemma next_yields:
  assumes "shape_ok sh"
  shows "yields sh (Generator_next sy) (\<lambda>i. intent_ok sh sy i \<and>
     (length (sy_live sy) < sh_target_depth sh div 2 \<or> sy_live sy = [] \<longrightarrow> (\<exists>s p q. i = IntentSubmit (sy_id sy) s p q)))"
proof (rule yields_at)
  let ?n = "length (sy_live sy)" and ?d = "sh_target_depth sh"
  show "yields sh (sbind (if \<not> ?n < ?d div 2 \<and> ?n > 0 then recycle sh (?n > ?d * 2 mod 2 ^ 64) sy else sreturn None) (\<lambda>r.
        case r of Some intent \<Rightarrow> sreturn intent | None \<Rightarrow> fresh_order sh (?n < ?d div 2) sy))
     (\<lambda>i. intent_ok sh sy i \<and> (?n < ?d div 2 \<or> sy_live sy = [] \<longrightarrow> (\<exists>s p q. i = IntentSubmit (sy_id sy) s p q)))"
  proof (rule yields_bind [where P = "\<lambda>r. pred_option (intent_ok sh sy) r \<and> (r \<noteq> None \<longrightarrow> \<not> ?n < ?d div 2 \<and> ?n > 0)"])
    show "yields sh (if \<not> ?n < ?d div 2 \<and> ?n > 0 then recycle sh (?n > ?d * 2 mod 2 ^ 64) sy else sreturn None)
       (\<lambda>r. pred_option (intent_ok sh sy) r \<and> (r \<noteq> None \<longrightarrow> \<not> ?n < ?d div 2 \<and> ?n > 0))"
    proof (rule yields_if)
      assume "\<not> ?n < ?d div 2 \<and> ?n > 0"
      then show "yields sh (recycle sh (?n > ?d * 2 mod 2 ^ 64) sy) (\<lambda>r. pred_option (intent_ok sh sy) r \<and> (r \<noteq> None \<longrightarrow> \<not> ?n < ?d div 2 \<and> ?n > 0))"
        using recycle_yields [OF assms, of sy "?n > ?d * 2 mod 2 ^ 64"] by simp
    qed (simp add: yields_return)
    fix r
    assume r: "pred_option (intent_ok sh sy) r \<and> (r \<noteq> None \<longrightarrow> \<not> ?n < ?d div 2 \<and> ?n > 0)"
    have "yields sh (fresh_order sh (?n < ?d div 2) sy)
        (\<lambda>i. intent_ok sh sy i \<and> (?n < ?d div 2 \<or> sy_live sy = [] \<longrightarrow> (\<exists>s p q. i = IntentSubmit (sy_id sy) s p q)))"
      using fresh_order_yields [OF assms, of "?n < ?d div 2" sy] unfolding yields_def by metis
    then show "yields sh (case r of Some intent \<Rightarrow> sreturn intent | None \<Rightarrow> fresh_order sh (?n < ?d div 2) sy)
        (\<lambda>i. intent_ok sh sy i \<and> (?n < ?d div 2 \<or> sy_live sy = [] \<longrightarrow> (\<exists>s p q. i = IntentSubmit (sy_id sy) s p q)))"
      using r by (cases r) (auto intro!: yields_return)
  qed
qed (simp only: Generator_next_def Let_def)

lemma drift_yields: "yields sh (drift_mid sy) (\<lambda>s. sy_id s = sy_id sy \<and> sy_tick_size s = sy_tick_size sy \<and> sy_live s = sy_live sy)"
  unfolding drift_mid_def by (rule yields_bind [OF yields_any], rule yields_return) simp

lemma shape_from_ok:
  assumes "ec_min_quantity e \<le> u32_max" "ec_max_quantity e \<le> u32_max" "ec_price_spread_ticks e < 2 ^ 63"
  shows "shape_ok (Shape_from e)"
  using assms by (simp add: shape_ok_def Shape_from_def)

end
