(* ===== verification/EngineRun.thy ===== *)
theory EngineRun
  imports Matching BookDigest SnapshotFeed Generator
begin

text \<open>
  The engine process, the run loop of \<open>crates/matching-engine/src/main.rs\<close> without the optional order path: each turn draws an intent from the
  generator and serves it, then flushes, sends a heartbeat or publishes a snapshot as the clock says; at the end the feed is flushed, the
  shadow book of the self-check is compared with the engine's own, and the books are checked. The clock is the list of turns before the
  deadline, each saying which of the timers is due; throttling and printing are left out.
\<close>

section \<open>The run\<close>

datatype run_error =
    RunConfig config_error
  | RunDropMode string
  | RunIo io_error
  | SelfCheckFailed
  | BooksInconsistent

record run_turn =
  tn_flush :: bool
  tn_heartbeat :: bool
  tn_snapshot :: bool

record run_state =
  rn_desk :: "engine \<times> feed_publisher"
  rn_gen :: generator
  rn_cycles :: nat

type_synonym 'a run_op = "(run_state, io_error, 'a) mut_method"

definition on_desk :: "'a engine_op \<Rightarrow> 'a run_op" where
  "on_desk m st = (case m (rn_desk st) of (d, r) \<Rightarrow> (st\<lparr>rn_desk := d\<rparr>, r))"

definition on_run_feed :: "'a feed_op \<Rightarrow> 'a run_op" where
  "on_run_feed m = on_desk (\<lambda>(e, fp). case m fp of (fp', r) \<Rightarrow> ((e, fp'), r))"

definition on_gen :: "'a gen_op \<Rightarrow> 'a run_op" where
  "on_gen m st = (case m (rn_gen st) of (g, r) \<Rightarrow> (st\<lparr>rn_gen := g\<rparr>, r))"

text \<open>The checkpoint taken after every sequence: every \<open>interval\<close> of them a line of the digest log, whose outcome is the file's.\<close>

definition engine_checkpoint :: "nat \<Rightarrow> (nat \<Rightarrow> book_digest \<Rightarrow> (io_error, unit) outcome) \<Rightarrow> seq_callback" where
  "engine_checkpoint interval log_write e sq =
     (if interval > 0 \<and> interval dvd sq then log_write sq (BookDigest_of refbook_ops (en_books e)) else Ok ())"

fun serve_intent :: "seq_callback \<Rightarrow> intent \<Rightarrow> unit engine_op" where
  "serve_intent cb (IntentSubmit y s p q) = submit cb y s p q"
| "serve_intent cb (IntentCancel y i) = cancel cb y i"
| "serve_intent cb (IntentAmend y i np q) = amend cb y i np q"

text \<open>The symbol at an index; an index out of bounds panics.\<close>

definition symbol_at :: "nat \<Rightarrow> symbol_state run_op" where
  "symbol_at idx st = (let syms = en_symbols (fst (rn_desk st)) in (st, if idx < length syms then Ok (syms ! idx) else Panic))"

definition set_symbol :: "nat \<Rightarrow> symbol_state \<Rightarrow> unit run_op" where
  "set_symbol idx sy = on_desk (on_engine (\<lambda>e. e\<lparr>en_symbols := (en_symbols e)[idx := sy]\<rparr>))"

definition generate :: "intent run_op" where
  "generate st =
     sbind (on_gen (pick_symbol (length (en_symbols (fst (rn_desk st)))))) (\<lambda>idx.
     sbind (symbol_at idx) (\<lambda>sy.
     sbind (on_gen (drift_mid sy)) (\<lambda>sy.
     sbind (set_symbol idx sy) (\<lambda>_.
     on_gen (Generator_next sy))))) st"

definition publish_cycle :: "unit run_op" where
  "publish_cycle st = sbind (on_run_feed (publish_snapshot (en_books (fst (rn_desk st))))) (\<lambda>_.
     supdate (\<lambda>st. st\<lparr>rn_cycles := wrap_add_u64 (rn_cycles st) 1\<rparr>)) st"

definition run_timers :: "nat \<Rightarrow> run_turn \<Rightarrow> unit run_op" where
  "run_timers snapshot_interval t =
     sbind (if tn_flush t then on_run_feed flush_on_timer else sreturn ()) (\<lambda>_.
     sbind (if tn_heartbeat t then on_run_feed (\<lambda>fp. sbind (fp_heartbeat (fp_last_sequence fp)) (\<lambda>_. sreturn ()) fp) else sreturn ()) (\<lambda>_.
     if snapshot_interval > 0 \<and> tn_snapshot t then publish_cycle else sreturn ()))"

definition run_turn_body :: "seq_callback \<Rightarrow> nat \<Rightarrow> run_turn \<Rightarrow> unit run_op" where
  "run_turn_body cb snapshot_interval t =
     sbind generate (\<lambda>intent. sbind (on_desk (serve_intent cb intent)) (\<lambda>_. run_timers snapshot_interval t))"

fun run_loop :: "nat \<Rightarrow> seq_callback \<Rightarrow> nat \<Rightarrow> run_turn list \<Rightarrow> unit run_op" where
  "run_loop limit cb snapshot_interval [] st = sreturn () st"
| "run_loop limit cb snapshot_interval (t # ts) st =
     (if limit > 0 \<and> fst_messages (fp_stats (snd (rn_desk st))) \<ge> limit then sreturn () st
      else sbind (run_turn_body cb snapshot_interval t) (\<lambda>_. run_loop limit cb snapshot_interval ts) st)"

text \<open>The parting cycles: one, and one more for each interval slept through before the linger is over.\<close>

fun linger :: "nat \<Rightarrow> unit run_op" where
  "linger 0 = publish_cycle"
| "linger (Suc n) = sbind publish_cycle (\<lambda>_. linger n)"

definition books_check_invariants :: "refbook books \<Rightarrow> bool" where
  "books_check_invariants bks \<longleftrightarrow> list_all (\<lambda>b. rb_check_invariants (snd b)) bks"

definition self_check_agrees :: "engine \<times> feed_publisher \<Rightarrow> bool" where
  "self_check_agrees d \<longleftrightarrow> (case fp_shadow (snd d) of None \<Rightarrow> True
     | Some shadow \<Rightarrow> BookDigest_of refbook_ops (en_books (fst d)) = BookDigest_of refbook_ops shadow)"

text \<open>How the publisher is set up from the configuration.\<close>

definition configure_feed :: "(nat \<Rightarrow> send_env) \<Rightarrow> bool \<Rightarrow> bool \<Rightarrow> drop_mode \<Rightarrow> config \<Rightarrow> feed_publisher" where
  "configure_feed env self_check_arg uplink mode cfg =
     (let fp = FeedPublisher_new env (fc_batch_size (cf_feed cfg)) (fc_max_datagram_bytes (cf_feed cfg));
          fp = (if self_check_arg \<or> ec_self_check (cf_engine cfg) then enable_self_check fp else fp);
          fp = (if uplink then set_uplink fp else fp)
      in if ec_drop_rate (cf_engine cfg) > 0 then set_loss (ec_drop_rate (cf_engine cfg)) mode (ec_drop_seed (cf_engine cfg)) fp else fp)"

definition symbol_triple :: "symbol_config \<Rightarrow> nat \<times> int \<times> int" where
  "symbol_triple s = (sm_id s, sm_tick_size s, sm_reference_price s)"

text \<open>The command line's overrides, applied after the configuration was checked.\<close>

record run_args =
  ag_batch_size :: "nat option"
  ag_messages :: "nat option"
  ag_duration :: "nat option"
  ag_rate :: "nat option"
  ag_seed :: "64 word option"
  ag_digest_interval :: "nat option"
  ag_drop_rate :: "rat option"
  ag_drop_mode :: "string option"
  ag_drop_seed :: "64 word option"
  ag_snapshot_interval :: "nat option"
  ag_self_check :: bool

definition override :: "'a option \<Rightarrow> 'a \<Rightarrow> 'a" where
  "override arg x = (case arg of None \<Rightarrow> x | Some v \<Rightarrow> v)"

definition apply_overrides :: "run_args \<Rightarrow> config \<Rightarrow> config" where
  "apply_overrides args cfg = cfg
     \<lparr>cf_feed := (cf_feed cfg)\<lparr>fc_batch_size := override (map_option (max 1) (ag_batch_size args)) (fc_batch_size (cf_feed cfg)),
        fc_snapshot_interval_millis := override (ag_snapshot_interval args) (fc_snapshot_interval_millis (cf_feed cfg))\<rparr>,
      cf_engine := (cf_engine cfg)\<lparr>ec_messages := override (ag_messages args) (ec_messages (cf_engine cfg)),
        ec_duration_seconds := override (ag_duration args) (ec_duration_seconds (cf_engine cfg)),
        ec_rate_per_second := override (ag_rate args) (ec_rate_per_second (cf_engine cfg)),
        ec_seed := override (ag_seed args) (ec_seed (cf_engine cfg)),
        ec_digest_interval := override (ag_digest_interval args) (ec_digest_interval (cf_engine cfg)),
        ec_drop_rate := override (map_option (\<lambda>v. max 0 (min 1 v)) (ag_drop_rate args)) (ec_drop_rate (cf_engine cfg)),
        ec_drop_mode := override (ag_drop_mode args) (ec_drop_mode (cf_engine cfg)),
        ec_drop_seed := override (ag_drop_seed args) (ec_drop_seed (cf_engine cfg))\<rparr>\<rparr>"

text \<open>The process: \<open>extra\<close> is the number of intervals slept through while lingering.\<close>

definition engine_main :: "(nat \<Rightarrow> send_env) \<Rightarrow> (nat \<Rightarrow> book_digest \<Rightarrow> (io_error, unit) outcome) \<Rightarrow> bool \<Rightarrow> run_turn list \<Rightarrow> nat \<Rightarrow> run_args \<Rightarrow> config
    \<Rightarrow> (run_error, run_state) outcome" where
  "engine_main env log_write uplink turns extra args loaded =
     (case Config_validate loaded of
        Err x \<Rightarrow> Err (RunConfig x) | Panic \<Rightarrow> Panic
      | Ok _ \<Rightarrow>
      let cfg = apply_overrides args loaded in
      case DropMode_from_str (ec_drop_mode (cf_engine cfg)) of
        None \<Rightarrow> Err (RunDropMode (ec_drop_mode (cf_engine cfg)))
      | Some mode \<Rightarrow>
      let st = \<lparr>rn_desk = (engine_new (map symbol_triple (cf_symbols cfg)), configure_feed env (ag_self_check args) uplink mode cfg),
                rn_gen = Generator_new (ec_seed (cf_engine cfg)) (Shape_from (cf_engine cfg)), rn_cycles = 0\<rparr>;
          interval = fc_snapshot_interval_millis (cf_feed cfg)
      in case sbind (run_loop (ec_messages (cf_engine cfg)) (engine_checkpoint (ec_digest_interval (cf_engine cfg)) log_write) interval turns) (\<lambda>_.
              sbind (on_run_feed flush) (\<lambda>_. if interval > 0 then linger extra else sreturn ())) st of
           (st', Err x) \<Rightarrow> Err (RunIo x)
         | (st', Panic) \<Rightarrow> Panic
         | (st', Ok _) \<Rightarrow>
             if \<not> self_check_agrees (rn_desk st') then Err SelfCheckFailed
             else if \<not> books_check_invariants (en_books (fst (rn_desk st'))) then Err BooksInconsistent
             else Ok st')"

section \<open>The configured symbols stay\<close>

definition keeps_ids :: "'a engine_op \<Rightarrow> bool" where
  "keeps_ids m \<longleftrightarrow> (\<forall>st. map sy_id (en_symbols (fst (fst (m st)))) = map sy_id (en_symbols (fst st)))"

lemma keepsD: "keeps_ids m \<Longrightarrow> map sy_id (en_symbols (fst (fst (m st)))) = map sy_id (en_symbols (fst st))"
  unfolding keeps_ids_def by blast

lemma keeps_bind: "keeps_ids m \<Longrightarrow> (\<And>x. keeps_ids (k x)) \<Longrightarrow> keeps_ids (sbind m k)"
  by (auto simp: keeps_ids_def sbind_def split: prod.split outcome.split) (metis fst_conv)+

lemma keeps_return: "keeps_ids (sreturn x)"
  by (simp add: keeps_ids_def sreturn_def)

lemma keeps_on_engine: "(\<And>e. map sy_id (en_symbols (f e)) = map sy_id (en_symbols e)) \<Longrightarrow> keeps_ids (on_engine f)"
  by (simp add: keeps_ids_def)

lemma keeps_if: "keeps_ids m \<Longrightarrow> keeps_ids n \<Longrightarrow> keeps_ids (if b then m else n)"
  by simp

lemma keeps_sequence: "keeps_ids (on_sequence cb sq)"
  by (simp add: keeps_ids_def on_sequence_def)

lemma en_symbols_touch [simp]: "en_symbols (touch_book y e) = en_symbols e"
  by (simp add: touch_book_def)

lemma keeps_publish: "keeps_ids (publish y ch)"
  by (cases ch) (auto simp: keeps_ids_def book_then_feed_def Let_def split: prod.split outcome.split)

lemma ids_update: "sy_id s = sy_id (xs ! i) \<Longrightarrow> map sy_id (xs[i := s]) = map sy_id xs"
proof (cases "i < length xs")
  case True
  moreover assume "sy_id s = sy_id (xs ! i)"
  ultimately show ?thesis by (simp add: map_update list_update_same_conv)
qed (simp add: list_update_beyond)

lemma ids_live [simp]:
  "map sy_id (en_symbols (forget_live y i e)) = map sy_id (en_symbols e)" "map sy_id (en_symbols (rest_live y i e)) = map sy_id (en_symbols e)"
  by (auto simp: forget_live_def rest_live_def remove_live_def split: option.split intro!: ids_update)

lemma keeps_match_step: "keeps_ids (match_step cb y s p oid r)"
proof -
  note intros = keeps_bind keeps_publish keeps_sequence keeps_on_engine keeps_return
  have k: "keeps_ids (sbind (publish y c1) (\<lambda>sq. sbind (on_sequence cb sq) (\<lambda>_. sbind (publish y c2) (\<lambda>sq. sbind (on_sequence cb sq) (\<lambda>_.
      sbind (on_engine (\<lambda>e. if full then forget_live y i e else e)) (\<lambda>_. sbind (on_engine (count_trade q)) (\<lambda>_.
      sbind (on_engine (record_passive pf)) (\<lambda>_. sreturn (Some f)))))))))" for c1 c2 full i q pf f
    by (intro intros) (simp_all add: count_trade_def record_passive_def)
  show ?thesis unfolding keeps_ids_def match_step_def
    by (auto simp: Let_def take_trade_id_def k [unfolded keeps_ids_def, rule_format] split: option.split)
qed

lemma keeps_match_loop: "map sy_id (en_symbols (fst (fst (match_loop cb y s p oid r st)))) = map sy_id (en_symbols (fst st))"
proof (induction cb y s p oid r st rule: match_loop.induct)
  case (1 cb y s p oid r st)
  have k: "map sy_id (en_symbols (fst (fst (match_step cb y s p oid r st)))) = map sy_id (en_symbols (fst st))"
    by (rule keepsD [OF keeps_match_step])
  show ?case
  proof (cases "r = 0")
    case True
    then show ?thesis by (simp add: match_loop.simps)
  next
    case False
    then show ?thesis using 1 k by (subst match_loop.simps) (auto split: prod.split outcome.split option.split)
  qed
qed

lemma keeps_serve: "keeps_ids (serve_intent cb i)"
proof -
  note intros = keeps_bind keeps_publish keeps_sequence keeps_on_engine keeps_return keeps_if
  have loop: "keeps_ids (match_loop cb y s p oid q)" for y s p oid q by (simp add: keeps_ids_def keeps_match_loop)
  have sub: "keeps_ids (\<lambda>st. submit_reported cb y s p q g st)" for y s p q g
  proof -
    have "keeps_ids (sbind (on_engine begin_submit) (\<lambda>_. sbind (match_loop cb y s p oid q) (\<lambda>(fills, remaining).
      sbind (on_engine (\<lambda>e. if fills \<noteq> [] then count_aggressive e else e)) (\<lambda>_.
      sbind (if remaining > 0
             then sbind (publish y (ChAdd oid s p remaining)) (\<lambda>sq. sbind (on_sequence cb sq) (\<lambda>_.
                  on_engine (\<lambda>e. if g then rest_live y oid e else e)))
             else sreturn ()) (\<lambda>_. sreturn (\<lparr>su_order_id = oid, su_filled = q - remaining, su_resting = remaining\<rparr>, fills))))))" for oid
      unfolding split_def by (intro intros loop) (simp_all add: begin_submit_def count_aggressive_def)
    from keepsD [OF this] show ?thesis unfolding keeps_ids_def submit_reported_def Let_def by blast
  qed
  have canc: "keeps_ids (cancel_reported cb y j)" for y j
  proof -
    have "keeps_ids (sbind (publish y ch) (\<lambda>sq. sbind (on_sequence cb sq) (\<lambda>_. sbind (on_engine (forget_live y j)) (\<lambda>_.
      sbind (on_engine (\<lambda>e. e\<lparr>en_stats := f e\<rparr>)) (\<lambda>_. sreturn (Some z))))))" for ch f and z :: nat
      by (intro intros) simp_all
    then show ?thesis by (auto simp: keeps_ids_def cancel_reported_def split: option.split)
  qed
  have am: "keeps_ids (amend cb y j np q)" for y j np q
  proof -
    have "keeps_ids (sbind (publish y ch) (\<lambda>sq. sbind (on_sequence cb sq) (\<lambda>_. on_engine (\<lambda>e. e\<lparr>en_stats := f e\<rparr>))))" for ch f
      by (intro intros) simp_all
    then show ?thesis by (auto simp: keeps_ids_def amend_def Let_def split: option.split)
  qed
  show ?thesis by (cases i) (auto simp: submit_def cancel_def intro!: keeps_bind keeps_return sub canc am)
qed

section \<open>A turn\<close>

definition engine_ready :: "rat \<times> drop_mode \<Rightarrow> nat \<Rightarrow> engine \<times> feed_publisher \<Rightarrow> bool" where
  "engine_ready c k d \<longleftrightarrow> (\<exists>evs sp. engine_inv c d evs sp \<and> small_books k (fst d) evs sp) \<and>
     en_symbols (fst d) \<noteq> [] \<and> list_all (\<lambda>i. i \<le> u16_max) (map sy_id (en_symbols (fst d)))"

lemma engine_inv_symbols [simp]: "engine_inv c (e\<lparr>en_symbols := xs\<rparr>, fp) evs sp \<longleftrightarrow> engine_inv c (e, fp) evs sp"
  by (simp add: engine_inv_def)

lemma small_books_symbols [simp]: "small_books k (e\<lparr>en_symbols := xs\<rparr>) evs sp \<longleftrightarrow> small_books k e evs sp"
  by (simp add: small_books_def)

lemma ready_later:
  assumes "engine_inv c d' evs sp" "small_books k (fst d') evs sp" "map sy_id (en_symbols (fst d')) = map sy_id (en_symbols (fst d))" "engine_ready c j d"
  shows "engine_ready c k d'"
proof -
  have "en_symbols (fst d') \<noteq> []" using assms(3,4) by (metis engine_ready_def map_is_Nil_conv)
  then show ?thesis using assms unfolding engine_ready_def by auto
qed

lemma serve_call_returns:
  assumes inv: "engine_inv c (e, fp) evs sp" and cb: "callback_ok cb" and wf: "call_wf call" "\<forall>y i np. call \<noteq> CallAmend y i np 0"
    and k: "small_books k e evs sp" "k < 2147483648"
  shows "\<exists>st'. serve_call cb call (e, fp) = (st', Ok ())"
proof (cases call)
  case (CallSubmit y s p q g)
  with wf(1) have w: "y \<le> u16_max" "in_i64 p" "q \<le> u32_max" by auto
  show ?thesis by (rule submit_call [OF inv cb w k, of s g]) (simp add: CallSubmit sbind_def)
next
  case (CallCancel y i)
  with wf(1) have w: "y \<le> u16_max" by simp
  show ?thesis by (rule cancel_call [OF inv cb w k, of i]) (simp add: CallCancel cancel_def sbind_def)
next
  case (CallAmend y i np q)
  with wf have w: "y \<le> u16_max" "pred_option in_i64 np" "q \<le> u32_max" "q \<noteq> 0" by auto
  have "Suc (length evs) < u64_max" using small_bounds(2) [OF k] by simp
  from amend_ok [OF inv cb w(1) this w(2,3), of i] w(4) show ?thesis by (auto simp: CallAmend split: option.splits)
qed

fun intent_call :: "intent \<Rightarrow> engine_call" where
  "intent_call (IntentSubmit y s p q) = CallSubmit y s p q True"
| "intent_call (IntentCancel y i) = CallCancel y i"
| "intent_call (IntentAmend y i np q) = CallAmend y i np q"

lemma serve_intent_call: "serve_intent cb i = serve_call cb (intent_call i)"
  by (cases i) (simp_all add: submit_def)

lemma intent_call_wf:
  assumes "intent_ok sh sy i" "shape_ok sh" "sy_id sy \<le> u16_max"
  shows "call_wf (intent_call i)" "\<forall>y j np. intent_call i \<noteq> CallAmend y j np 0"
proof -
  have q: "quantity_ok sh q \<Longrightarrow> q \<noteq> 0 \<and> q \<le> u32_max" for q using assms(2) by (auto simp: quantity_ok_def shape_ok_def)
  show "call_wf (intent_call i)" using assms(1,3) q by (cases i) (auto simp: on_grid_def pred_option_def)
  show "\<forall>y j np. intent_call i \<noteq> CallAmend y j np 0" using assms(1) q by (cases i) auto
qed

lemma serve_ready:
  assumes "engine_ready c k d" "callback_ok cb" "call_wf (intent_call i)" "\<forall>y j np. intent_call i \<noteq> CallAmend y j np 0" "k < 2147483648"
  shows "\<exists>d'. serve_intent cb i d = (d', Ok ()) \<and> engine_ready c (Suc k) d'"
proof -
  obtain e fp where d: "d = (e, fp)" by fastforce
  obtain evs sp where i: "engine_inv c (e, fp) evs sp" "small_books k e evs sp" using assms(1) by (auto simp: engine_ready_def d)
  obtain d' where o: "serve_intent cb i d = (d', Ok ())"
    using serve_call_returns [OF i(1) assms(2-4) i(2) assms(5)] by (auto simp: serve_intent_call d)
  from serve_call_ok [OF i(1) assms(2,3) _ assms(5)] i(2) obtain st' r new sp' where
    s: "serve_call cb (intent_call i) (e, fp) = (st', r)" "engine_inv c st' (evs @ new) sp'" "small_books (Suc k) (fst st') (evs @ new) sp'"
    unfolding fst_conv by blast
  have "st' = d'" using s(1) o by (simp add: serve_intent_call d)
  moreover have "map sy_id (en_symbols (fst d')) = map sy_id (en_symbols (fst d))"
    using keeps_serve [of cb i] o unfolding keeps_ids_def by (metis fst_conv)
  ultimately show ?thesis using o ready_later [OF s(2,3) _ assms(1)] by blast
qed

lemma on_gen_yields:
  assumes "yields sh m P" "gn_shape (rn_gen st) = sh"
  obtains g x where "on_gen m st = (st\<lparr>rn_gen := g\<rparr>, Ok x)" "gn_shape g = sh" "P x"
proof -
  obtain g x where "m (rn_gen st) = (g, Ok x)" "gn_shape g = sh" "P x" using assms by (auto simp: yields_def)
  then show thesis using that by (simp add: on_gen_def)
qed

lemma generate_ready:
  assumes "engine_ready c k (rn_desk st)" "gn_shape (rn_gen st) = sh" "shape_ok sh"
  obtains st' i where "generate st = (st', Ok i)" "engine_ready c k (rn_desk st')" "gn_shape (rn_gen st') = sh"
    "call_wf (intent_call i)" "\<forall>y j np. intent_call i \<noteq> CallAmend y j np 0"
proof -
  obtain e fp where d: "rn_desk st = (e, fp)" by fastforce
  let ?n = "length (en_symbols e)"
  have n: "0 < ?n" "list_all (\<lambda>i. i \<le> u16_max) (map sy_id (en_symbols e))" using assms(1) by (auto simp: engine_ready_def d)
  obtain g1 idx where p: "on_gen (pick_symbol ?n) st = (st\<lparr>rn_gen := g1\<rparr>, Ok idx)" "gn_shape g1 = sh" "idx < ?n"
    using on_gen_yields [OF yields_below [OF n(1)] assms(2)] by (metis pick_symbol_def)
  let ?sy = "en_symbols e ! idx" and ?st1 = "st\<lparr>rn_gen := g1\<rparr>"
  have a: "symbol_at idx ?st1 = (?st1, Ok ?sy)" using p(3) by (simp add: symbol_at_def d)
  obtain g2 sy where m: "on_gen (drift_mid ?sy) ?st1 = (st\<lparr>rn_gen := g2\<rparr>, Ok sy)" "gn_shape g2 = sh" "sy_id sy = sy_id ?sy"
    by (rule on_gen_yields [OF drift_yields [of sh ?sy], of ?st1]) (use p(2) in auto)
  let ?e = "e\<lparr>en_symbols := (en_symbols e)[idx := sy]\<rparr>"
  let ?st3 = "st\<lparr>rn_gen := g2, rn_desk := (?e, fp)\<rparr>"
  have t: "set_symbol idx sy (st\<lparr>rn_gen := g2\<rparr>) = (?st3, Ok ())" by (simp add: set_symbol_def on_desk_def d)
  obtain g4 i where x: "on_gen (Generator_next sy) ?st3 = (?st3\<lparr>rn_gen := g4\<rparr>, Ok i)" "gn_shape g4 = sh" "intent_ok sh sy i"
    by (rule on_gen_yields [OF next_yields [OF assms(3), of sy], of ?st3]) (use m(2) in auto)
  have "generate st = (?st3\<lparr>rn_gen := g4\<rparr>, Ok i)"
    using p(1) a m(1) t x(1) by (simp add: generate_def d sbind_Ok)
  moreover have "engine_ready c k (?e, fp)"
  proof -
    have "map sy_id (en_symbols ?e) = map sy_id (en_symbols e)" using m(3) by (simp add: ids_update)
    moreover obtain evs sp where "engine_inv c (e, fp) evs sp" "small_books k e evs sp" using assms(1) by (auto simp: engine_ready_def d)
    ultimately show ?thesis using assms(1) unfolding d by (intro ready_later [of c "(?e, fp)" evs sp k "(e, fp)" k]) simp_all
  qed
  moreover have "sy_id sy \<le> u16_max" using n(2) p(3) m(3) by (simp add: list_all_length)
  note wf = intent_call_wf [OF x(3) assms(3) this]
  ultimately show thesis using that [of "?st3\<lparr>rn_gen := g4\<rparr>" i] x(2) wf by simp
qed

subsection \<open>The timers\<close>

lemma engine_inv_stats [simp]: "engine_inv c (e, fp\<lparr>fp_stats := x\<rparr>) evs sp \<longleftrightarrow> engine_inv c (e, fp) evs sp"
  by (simp add: engine_inv_def feed_ready_def feed_inv_def env_ok_def loss_inv_def)

lemma flush_keeps_engine:
  assumes "engine_inv c (e, fp) evs sp"
  obtains fp' bs where "flush fp = (fp', Ok ())" "engine_inv c (e, fp') evs sp" "feed_inv fp' bs []" "batch_events bs = evs"
proof -
  obtain bs pend where f: "feed_inv fp bs pend" "batch_events bs @ pend = evs" and r: "env_ok fp" "72 \<le> length (fp_buf fp)" "(fp_drop_rate fp, fp_drop_mode fp) = c"
    using assms by (auto simp: engine_inv_def feed_ready_def)
  have "applicable fp (batch_events bs @ pend)" using assms f(2) by (auto simp: applicable_def engine_inv_def)
  then obtain fp' bs' where p: "flush fp = (fp', Ok ())" "feed_inv fp' bs' []" "batch_events bs' = evs" "same_setup fp fp'"
    using flush_ok_any [OF f(1) r(1)] f(2) by metis
  have "env_ok fp'" using same_setup_env [OF p(4)] r(1) by simp
  then have "feed_ready c fp' evs" using p r unfolding feed_ready_def by (auto simp: same_setup_def)
  then show thesis using that [OF p(1) _ p(2,3)] assms by (simp add: engine_inv_def)
qed

lemma flush_timer_ready:
  assumes "engine_ready c k (e, fp)"
  shows "\<exists>fp'. flush_on_timer fp = (fp', Ok ()) \<and> engine_ready c k (e, fp')"
proof (cases "fp_count fp = 0")
  case True
  then show ?thesis using assms by (simp add: flush_on_timer_def)
next
  case False
  obtain evs sp where i: "engine_inv c (e, fp) evs sp" "small_books k e evs sp" using assms by (auto simp: engine_ready_def)
  let ?fp = "fp\<lparr>fp_stats := (fp_stats fp)\<lparr>fst_timer_flushes := fst_timer_flushes (fp_stats fp) + 1\<rparr>\<rparr>"
  have "engine_inv c (e, ?fp) evs sp" using i(1) by simp
  then obtain fp' where "flush ?fp = (fp', Ok ())" "engine_inv c (e, fp') evs sp" by (rule flush_keeps_engine)
  then show ?thesis using False i(2) ready_later [of c "(e, fp')" evs sp k "(e, fp)" k] assms by (simp add: flush_on_timer_def)
qed

lemma heartbeat_ready:
  assumes "engine_ready c k (e, fp)" "k < 2147483648"
  shows "\<exists>fp' sq. fp_heartbeat (fp_last_sequence fp) fp = (fp', Ok sq) \<and> engine_ready c (Suc k) (e, fp')"
proof -
  obtain evs sp where i: "engine_inv c (e, fp) evs sp" "small_books k e evs sp" using assms by (auto simp: engine_ready_def)
  note b = small_bounds [OF i(2) assms(2)]
  have n: "fp_last_sequence fp = length evs" using i(1) by (auto simp: engine_inv_def feed_ready_def feed_inv_def fp_last_sequence_def)
  let ?ev = "EvHeartbeat (length evs)"
  have r: "feed_ready c fp evs" "ofold spec_apply evs (\<lambda>_. []) = Ok sp" using i(1) by (auto simp: engine_inv_def)
  obtain fp' where f: "emit_event ?ev fp = (fp', Ok (Suc (length evs)))" "feed_ready c fp' (evs @ [?ev])" "ofold spec_apply (evs @ [?ev]) (\<lambda>_. []) = Ok sp"
    using fd.announce_keeps_replay [OF r, of ?ev sp] b(2) by auto
  have "engine_inv c (e, fp') (evs @ [?ev]) sp" using i(1) f(2,3) by (simp add: engine_inv_def)
  moreover have "small_books (Suc k) e (evs @ [?ev]) (sp(0 := sp 0))" using b(1) [of 0] by (intro small_booksI [OF i(2)]) simp_all
  ultimately show ?thesis using f(1) ready_later [of c "(e, fp')" "evs @ [?ev]" sp "Suc k" "(e, fp)" k] assms(1) by (simp add: n)
qed

lemma on_run_feed_Ok: "rn_desk st = (e, fp) \<Longrightarrow> m fp = (fp', Ok x) \<Longrightarrow> on_run_feed m st = (st\<lparr>rn_desk := (e, fp')\<rparr>, Ok x)"
  by (simp add: on_run_feed_def on_desk_def)

lemma ready_more: "engine_ready c k d \<Longrightarrow> engine_ready c (Suc k) d"
  unfolding engine_ready_def using small_books_idle by blast

lemma timers_ready:
  assumes "engine_ready c k (rn_desk st)" "k < 2147483648"
  obtains st' where "run_timers 0 t st = (st', Ok ())" "engine_ready c (Suc k) (rn_desk st')" "rn_gen st' = rn_gen st"
proof -
  obtain e fp where d: "rn_desk st = (e, fp)" by fastforce
  obtain fp1 where f: "(if tn_flush t then on_run_feed flush_on_timer else sreturn ()) st = (st\<lparr>rn_desk := (e, fp1)\<rparr>, Ok ())" "engine_ready c k (e, fp1)"
  proof (cases "tn_flush t")
    case True
    obtain fp1 where "flush_on_timer fp = (fp1, Ok ())" "engine_ready c k (e, fp1)" using flush_timer_ready assms(1) unfolding d by blast
    then show thesis using that [of fp1] True on_run_feed_Ok [OF d, of flush_on_timer] by simp
  next
    case False
    moreover have "st\<lparr>rn_desk := (e, fp)\<rparr> = st" by (simp add: d [symmetric])
    ultimately show thesis using that [of fp] assms(1) by (simp add: d)
  qed
  let ?st = "st\<lparr>rn_desk := (e, fp1)\<rparr>"
  obtain fp2 where h: "(if tn_heartbeat t then on_run_feed (\<lambda>fp. sbind (fp_heartbeat (fp_last_sequence fp)) (\<lambda>_. sreturn ()) fp) else sreturn ()) ?st
      = (st\<lparr>rn_desk := (e, fp2)\<rparr>, Ok ())" "engine_ready c (Suc k) (e, fp2)"
  proof (cases "tn_heartbeat t")
    case True
    obtain fp2 sq where b: "fp_heartbeat (fp_last_sequence fp1) fp1 = (fp2, Ok sq)" "engine_ready c (Suc k) (e, fp2)"
      using heartbeat_ready [OF f(2) assms(2)] by blast
    let ?m = "\<lambda>fp. sbind (fp_heartbeat (fp_last_sequence fp)) (\<lambda>_. sreturn ()) fp"
    have "?m fp1 = (fp2, Ok ())" using b(1) by (simp add: sbind_Ok)
    from on_run_feed_Ok [of ?st e fp1 ?m, OF _ this] show thesis using that [of fp2] True b(2) by simp
  next
    case False
    then show thesis using that [of fp1] ready_more [OF f(2)] by simp
  qed
  have "run_timers 0 t st = (st\<lparr>rn_desk := (e, fp2)\<rparr>, Ok ())" using f(1) h(1) by (simp add: run_timers_def sbind_Ok)
  then show thesis using that h(2) by simp
qed

lemma turn_ready:
  assumes "engine_ready c k (rn_desk st)" "gn_shape (rn_gen st) = sh" "shape_ok sh" "callback_ok cb" "k + 2 \<le> 2147483648"
  obtains st' where "run_turn_body cb 0 t st = (st', Ok ())" "engine_ready c (k + 2) (rn_desk st')" "gn_shape (rn_gen st') = sh"
proof -
  obtain st1 i where g: "generate st = (st1, Ok i)" "engine_ready c k (rn_desk st1)" "gn_shape (rn_gen st1) = sh"
      "call_wf (intent_call i)" "\<forall>y j np. intent_call i \<noteq> CallAmend y j np 0"
    by (rule generate_ready [OF assms(1-3)])
  have k: "k < 2147483648" "Suc k < 2147483648" using assms(5) by simp_all
  obtain d where d: "serve_intent cb i (rn_desk st1) = (d, Ok ())" "engine_ready c (Suc k) d" using serve_ready [OF g(2) assms(4) g(4,5) k(1)] by blast
  let ?st2 = "st1\<lparr>rn_desk := d\<rparr>"
  have o: "on_desk (serve_intent cb i) st1 = (?st2, Ok ())" using d(1) by (simp add: on_desk_def)
  have "engine_ready c (Suc k) (rn_desk ?st2)" using d(2) by simp
  then obtain st3 where t: "run_timers 0 t ?st2 = (st3, Ok ())" "engine_ready c (Suc (Suc k)) (rn_desk st3)" "rn_gen st3 = rn_gen ?st2"
    by (rule timers_ready [OF _ k(2)])
  have "run_turn_body cb 0 t st = (st3, Ok ())" 
    by (simp add: run_turn_body_def sbind_Ok [of generate, OF g(1)] sbind_Ok [of "on_desk (serve_intent cb i)", OF o] t(1))
  then show thesis using that t(2,3) g(3) by simp
qed

lemma loop_ready:
  assumes "shape_ok sh" "callback_ok cb"
  shows "engine_ready c k (rn_desk st) \<Longrightarrow> gn_shape (rn_gen st) = sh \<Longrightarrow> k + 2 * length ts \<le> 2147483648 \<Longrightarrow>
     \<exists>st' j. run_loop limit cb 0 ts st = (st', Ok ()) \<and> engine_ready c j (rn_desk st') \<and> j \<le> 2147483648"
proof (induction ts arbitrary: k st)
  case (Cons t ts)
  show ?case
  proof (cases "limit > 0 \<and> fst_messages (fp_stats (snd (rn_desk st))) \<ge> limit")
    case True
    then show ?thesis using Cons.prems by auto
  next
    case False
    obtain st1 where t: "run_turn_body cb 0 t st = (st1, Ok ())" "engine_ready c (k + 2) (rn_desk st1)" "gn_shape (rn_gen st1) = sh"
      by (rule turn_ready [OF Cons.prems(1,2) assms, of t]) (use Cons.prems(3) in auto)
    have l: "k + 2 + 2 * length ts \<le> 2147483648" using Cons.prems(3) by simp
    have "run_loop limit cb 0 (t # ts) st = run_loop limit cb 0 ts st1"
      unfolding run_loop.simps(2) if_not_P [OF False] by (rule sbind_Ok [of "run_turn_body cb 0 t", OF t(1)])
    then show ?thesis using Cons.IH [OF t(2,3) l] by simp
  qed
qed auto

section \<open>The end of the run\<close>

lemma configured_feed_fresh:
  assumes "1 \<le> fc_batch_size (cf_feed cfg)" "fc_batch_size (cf_feed cfg) \<le> u16_max" "72 \<le> fc_max_datagram_bytes (cf_feed cfg)"
    and "\<forall>k. env_now_ns (env k) \<le> u64_max \<and> env_send_a (env k) \<and> env_send_b (env k)"
  shows "\<exists>c. fresh_feed c (configure_feed env chk uplink mode cfg) \<and> (ec_drop_rate (cf_engine cfg) \<le> 0 \<longrightarrow> fst c = 0)"
proof -
  let ?fp = "configure_feed env chk uplink mode cfg"
  have "feed_inv (FeedPublisher_new env (fc_batch_size (cf_feed cfg)) (fc_max_datagram_bytes (cf_feed cfg))) [] []" using assms by (intro feed_inv_new) simp_all
  then have "feed_inv ?fp [] []" by (auto simp: configure_feed_def Let_def intro!: feed_inv_configure)
  moreover have "env_ok ?fp" "72 \<le> length (fp_buf ?fp)" "ec_drop_rate (cf_engine cfg) \<le> 0 \<longrightarrow> fp_drop_rate ?fp = 0"
    using assms(3,4) by (auto simp: configure_feed_def Let_def env_ok_def FeedPublisher_new_def enable_self_check_def set_uplink_def set_loss_def)
  ultimately show ?thesis by (intro exI [of _ "(fp_drop_rate ?fp, fp_drop_mode ?fp)"]) (simp add: fresh_feed_def)
qed

lemma engine_ready_new:
  assumes "fresh_feed c fp" "syms \<noteq> []" "\<forall>s\<in>set syms. sm_id s \<le> u16_max"
  shows "engine_ready c 0 (engine_new (map symbol_triple syms), fp)"
proof -
  let ?e = "engine_new (map symbol_triple syms)"
  have "map sy_id (en_symbols ?e) = map sm_id syms" by (simp add: engine_new_def symbol_triple_def)
  moreover from this have "en_symbols ?e \<noteq> []" using assms(2) by (metis map_is_Nil_conv)
  moreover have "\<exists>evs sp. engine_inv c (?e, fp) evs sp \<and> small_books 0 ?e evs sp" using engine_inv_new [OF assms(1)] small_books_new by blast
  ultimately show ?thesis using assms(3) unfolding engine_ready_def fst_conv by (simp add: list_all_iff)
qed

lemma small_books_total:
  assumes "small_books j e evs sp" "j \<le> 2147483648"
  shows "length evs + 2 < u64_max"
proof -
  have "length evs \<le> j * (2 * j + 1)" using assms(1) by (simp add: small_books_def)
  moreover have "j * (2 * j + 1) \<le> 2147483648 * (2 * 2147483648 + 1)" using assms(2) by (intro mult_mono) auto
  ultimately show ?thesis by simp
qed

lemma books_checked: "books_rel refbook_rel bks sp \<Longrightarrow> books_check_invariants bks"
  using refdigest.occupied_symbols(2) rb_check_rel by (fastforce simp: books_check_invariants_def list_all_iff)

section \<open>Properties\<close>

text \<open>C20: the engine process runs to completion and its self-check holds. Start it with any configuration the check accepts, whatever the seed, the flow's shape and the
  injected loss, with snapshots disabled and working sockets and log. Then however many turns the clock allows (up to \<open>2 ^ 30\<close>) and whenever the
  timers fire, no call fails, the final comparison of the engine's book with the shadow book rebuilt from the
  published datagrams succeeds, and so does the check of the books. Without injected loss, a consumer applying either arm's datagrams
  ends with the engine's own digest.\<close>

theorem engine_runs_to_completion:
  assumes "Config_validate loaded = Ok ()" "\<forall>k. env_now_ns (env k) \<le> u64_max \<and> env_send_a (env k) \<and> env_send_b (env k)"
      "\<forall>sq d. log_write sq d = Ok ()" "length turns \<le> 1073741824"
    and cfg: "cfg = apply_overrides args loaded" "fc_batch_size (cf_feed cfg) \<le> u16_max" "\<forall>s\<in>set (cf_symbols cfg). sm_id s \<le> u16_max"
      "ec_min_quantity (cf_engine cfg) \<le> u32_max" "ec_max_quantity (cf_engine cfg) \<le> u32_max" "ec_price_spread_ticks (cf_engine cfg) < 2 ^ 63"
      "DropMode_from_str (ec_drop_mode (cf_engine cfg)) = Some mode" "fc_snapshot_interval_millis (cf_feed cfg) = 0"
  shows "\<exists>st. engine_main env log_write uplink turns extra args loaded = Ok st \<and>
     self_check_agrees (rn_desk st) \<and> books_check_invariants (en_books (fst (rn_desk st))) \<and>
     (ec_drop_rate (cf_engine cfg) \<le> 0 \<longrightarrow> (\<exists>a b.
        follow_datagrams (fp_sent_a (snd (rn_desk st))) [] = Some a \<and> BookDigest_of refbook_ops a = BookDigest_of refbook_ops (en_books (fst (rn_desk st))) \<and>
        follow_datagrams (fp_sent_b (snd (rn_desk st))) [] = Some b \<and> BookDigest_of refbook_ops b = BookDigest_of refbook_ops (en_books (fst (rn_desk st)))))"
proof -
  note v = valid_config [OF assms(1)]
  have cv: "cf_symbols cfg \<noteq> []" "1 \<le> fc_batch_size (cf_feed cfg)" "72 \<le> fc_max_datagram_bytes (cf_feed cfg)"
    using v(1,4,5) by (auto simp: cfg(1) apply_overrides_def override_def split: option.split)
  define fp0 where "fp0 = configure_feed env (ag_self_check args) uplink mode cfg"
  define cb where "cb = engine_checkpoint (ec_digest_interval (cf_engine cfg)) log_write"
  obtain c where f: "fresh_feed c fp0" "ec_drop_rate (cf_engine cfg) \<le> 0 \<Longrightarrow> fst c = 0"
    using configured_feed_fresh [OF cv(2) cfg(2) cv(3) assms(2)] unfolding fp0_def by blast
  have cb: "callback_ok cb" using assms(3) by (simp add: callback_ok_def cb_def engine_checkpoint_def)
  define st0 where "st0 = \<lparr>rn_desk = (engine_new (map symbol_triple (cf_symbols cfg)), fp0),
      rn_gen = Generator_new (ec_seed (cf_engine cfg)) (Shape_from (cf_engine cfg)), rn_cycles = 0\<rparr>"
  have s0: "engine_ready c 0 (rn_desk st0)" "gn_shape (rn_gen st0) = Shape_from (cf_engine cfg)"
    using engine_ready_new [OF f(1) cv(1) cfg(3)] by (simp_all add: st0_def Generator_new_def)
  obtain st1 j where l: "run_loop (ec_messages (cf_engine cfg)) cb 0 turns st0 = (st1, Ok ())" "engine_ready c j (rn_desk st1)" "j \<le> 2147483648"
  proof -
    have "0 + 2 * length turns \<le> 2147483648" using assms(4) by simp
    from loop_ready [OF shape_from_ok [OF cfg(4-6)] cb s0 this] show thesis using that by blast
  qed
  obtain e fp where d: "rn_desk st1 = (e, fp)" by fastforce
  obtain evs sp where i: "engine_inv c (e, fp) evs sp" "small_books j e evs sp" using l(2) by (auto simp: engine_ready_def d)
  obtain fp' bs where p: "flush fp = (fp', Ok ())" "feed_inv fp' bs []" "batch_events bs = evs" by (rule flush_keeps_engine [OF i(1)])
  have r: "books_rel refbook_rel (en_books e) sp" "ofold spec_apply evs (\<lambda>_. []) = Ok sp" using i(1) by (auto simp: engine_inv_def)
  have "shadow_inv (fp_shadow fp') evs" using p(2,3) by (auto simp: feed_inv_def)
  then have chk: "self_check_agrees (e, fp')" using r refdigest.digest_sim
    by (auto simp: self_check_agrees_def shadow_inv_def split: option.splits)
  let ?st = "st1\<lparr>rn_desk := (e, fp')\<rparr>"
  have "sbind (run_loop (ec_messages (cf_engine cfg)) cb 0 turns) (\<lambda>_. sbind (on_run_feed flush) (\<lambda>_. sreturn ())) st0 = (?st, Ok ())"
    by (simp add: sbind_Ok [of "run_loop (ec_messages (cf_engine cfg)) cb 0 turns", OF l(1)] sbind_Ok [of "on_run_feed flush", OF on_run_feed_Ok [of _ _ _ flush, OF d p(1)]])
  then have "engine_main env log_write uplink turns extra args loaded = Ok ?st"
    using assms(1) cfg(7,8) chk books_checked [OF r(1)]
    by (simp add: engine_main_def cfg(1) [symmetric] Let_def fp0_def [symmetric] cb_def [symmetric] st0_def [symmetric])
  moreover have "\<exists>a b. follow_datagrams (fp_sent_a fp') [] = Some a \<and> BookDigest_of refbook_ops a = BookDigest_of refbook_ops (en_books e) \<and>
      follow_datagrams (fp_sent_b fp') [] = Some b \<and> BookDigest_of refbook_ops b = BookDigest_of refbook_ops (en_books e)" if z: "ec_drop_rate (cf_engine cfg) \<le> 0"
  proof -
    obtain m where "c = (0, m)" using f(2) [OF z] by (cases c) auto
    moreover have "length evs + 2 < u64_max" by (rule small_books_total [OF i(2) l(3)])
    ultimately show ?thesis using follow_lossless [of m e fp evs sp] i(1) p(1) r(1) refdigest.digest_sim by (metis prod.inject)
  qed
  ultimately show ?thesis using chk books_checked [OF r(1)] by (intro exI [of _ ?st]) simp
qed

text \<open>The default configuration with snapshots turned off on the command line, three turns.\<close>

theorem engine_runs_to_completion_witness:
  "\<exists>st. engine_main (\<lambda>_. \<lparr>env_now_ns = 9, env_send_a = True, env_send_b = True, env_uplink_takes = True\<rparr>) (\<lambda>_ _. Ok ()) True
     (replicate 3 \<lparr>tn_flush = True, tn_heartbeat = True, tn_snapshot = True\<rparr>) 0
     \<lparr>ag_batch_size = None, ag_messages = None, ag_duration = None, ag_rate = None, ag_seed = Some 5, ag_digest_interval = None, ag_drop_rate = None,
      ag_drop_mode = None, ag_drop_seed = None, ag_snapshot_interval = Some 0, ag_self_check = True\<rparr> config_default = Ok st \<and>
     self_check_agrees (rn_desk st) \<and> books_check_invariants (en_books (fst (rn_desk st)))"
proof -
  let ?args = "\<lparr>ag_batch_size = None, ag_messages = None, ag_duration = None, ag_rate = None, ag_seed = Some 5, ag_digest_interval = None, ag_drop_rate = None,
      ag_drop_mode = None, ag_drop_seed = None, ag_snapshot_interval = Some 0, ag_self_check = True\<rparr>"
  let ?env = "\<lambda>_ :: nat. \<lparr>env_now_ns = 9, env_send_a = True, env_send_b = True, env_uplink_takes = True\<rparr>"
  let ?cfg = "apply_overrides ?args config_default"
  have c: "fc_batch_size (cf_feed ?cfg) \<le> u16_max" "\<forall>s\<in>set (cf_symbols ?cfg). sm_id s \<le> u16_max"
      "ec_min_quantity (cf_engine ?cfg) \<le> u32_max" "ec_max_quantity (cf_engine ?cfg) \<le> u32_max" "ec_price_spread_ticks (cf_engine ?cfg) < 2 ^ 63"
      "DropMode_from_str (ec_drop_mode (cf_engine ?cfg)) = Some Independent" "fc_snapshot_interval_millis (cf_feed ?cfg) = 0"
    by (simp_all add: apply_overrides_def override_def config_default_def feed_default_def market_default_def engine_default_def DropMode_from_str_def)
  have e: "\<forall>k. env_now_ns (?env k) \<le> u64_max \<and> env_send_a (?env k) \<and> env_send_b (?env k)" by simp
  have t: "length (replicate 3 \<lparr>tn_flush = True, tn_heartbeat = True, tn_snapshot = True\<rparr>) \<le> 1073741824" by simp
  from engine_runs_to_completion [OF default_is_valid e _ t refl c, of "\<lambda>_ _. Ok ()" True 0] show ?thesis by blast
qed

end
