(* ===== verification/Checkpoints.thy ===== *)
theory Checkpoints
  imports HandlerRun EngineRun
begin

text \<open>
  The checkpoints of the two processes. The engine takes a digest of its own books after every sequence it hands out, the handler takes one
  after every message it applies, and the lines the two write have to agree. A log is known here by what it accepts: the engine's is a function
  that takes or refuses a line, and refusing one stops the engine.
\<close>

section \<open>Serving calls until one fails\<close>

text \<open>The calls of the engine's owner, each followed by the source's question mark.\<close>

fun serve_all :: "seq_callback \<Rightarrow> engine_call list \<Rightarrow> unit engine_op" where
  "serve_all cb [] = sreturn ()"
| "serve_all cb (c # cs) = sbind (serve_call cb c) (\<lambda>_. serve_all cb cs)"

fun no_zero_amend :: "engine_call \<Rightarrow> bool" where
  "no_zero_amend (CallAmend y i np q) \<longleftrightarrow> q \<noteq> 0"
| "no_zero_amend c \<longleftrightarrow> True"

section \<open>A sequence is handed out once\<close>

definition keeps_seq :: "'a feed_op \<Rightarrow> bool" where
  "keeps_seq m \<longleftrightarrow> (\<forall>q. fp_next_seq (fst (m q)) = fp_next_seq q)"

lemma keeps_seq_bind: "keeps_seq m \<Longrightarrow> (\<And>x. keeps_seq (k x)) \<Longrightarrow> keeps_seq (sbind m k)"
  by (auto simp: keeps_seq_def sbind_def split: prod.split outcome.split) (metis fst_conv)+

lemma keeps_seq_flush: "keeps_seq flush"
proof -
  have s: "keeps_seq (write_flush_header ts)" "keeps_seq (send_arm_a l dr env)" "keeps_seq (send_arm_b l dr env)" "keeps_seq (self_check l)"
      "keeps_seq (supdate (offer_uplink l env))" "keeps_seq (supdate (count_flush l da db))" for ts l dr env da db
    by (auto simp: keeps_seq_def write_flush_header_def send_arm_a_def send_arm_b_def self_check_def offer_uplink_def count_flush_def
        split: outcome.split option.split prod.split)
  have t: "keeps_seq (sbind (write_flush_header ts) (\<lambda>_. sbind (send_arm_a l da env) (\<lambda>_. sbind (send_arm_b l db env) (\<lambda>_.
      sbind (self_check l) (\<lambda>_. sbind (supdate (offer_uplink l env)) (\<lambda>_. supdate (count_flush l da db)))))))" for ts l da db env
    by (intro keeps_seq_bind s)
  show ?thesis unfolding keeps_seq_def
  proof
    fix fp :: feed_publisher
    obtain rng da db where "drop_arms (fp\<lparr>fp_env_used := fp_env_used fp + 1\<rparr>) = (fp\<lparr>fp_env_used := fp_env_used fp + 1, fp_drop_rng := rng\<rparr>, da, db)"
      using drop_arms_eq [of "fp\<lparr>fp_env_used := fp_env_used fp + 1\<rparr>"] by auto
    then show "fp_next_seq (fst (flush fp)) = fp_next_seq fp"
      using t [unfolded keeps_seq_def] by (simp add: flush_def Let_def note_double_loss_def)
  qed
qed

lemma flush_next: "flush fp = (fp', r) \<Longrightarrow> fp_next_seq fp' = fp_next_seq fp"
  using keeps_seq_flush unfolding keeps_seq_def by (metis fst_conv)

lemma emit_next:
  assumes "emit encode fp = (fp', Ok sq)"
  shows "sq = fp_next_seq fp \<and> fp_next_seq fp' = wrap_add_u64 (fp_next_seq fp) 1"
proof -
  obtain fp1 where f: "(if fp_count fp \<ge> fp_batch_size fp then flush fp else (fp, Ok ())) = (fp1, Ok ())" "fp_next_seq fp1 = fp_next_seq fp"
    using assms flush_next by (auto simp: emit_def sbind_def split: if_splits prod.splits outcome.splits)
  define fp2 where "fp2 = (if fp_count fp1 = 0 then fp1\<lparr>fp_first_seq := fp_next_seq fp1\<rparr> else fp1)"
  have n: "fp_next_seq fp2 = fp_next_seq fp" using f(2) by (simp add: fp2_def)
  have "(case encode_tail encode fp2 of
       Ok (n, b) \<Rightarrow> commit_message n b fp2
     | Err (ShortBuffer needed got) \<Rightarrow>
         if fp_count fp2 = 0 then (fp2, Err (IoMessageTooLarge (length (fp_buf fp2))))
         else sbind flush (\<lambda>_ fp.
                let fp = fp\<lparr>fp_first_seq := fp_next_seq fp\<rparr> in
                case encode_tail encode fp of
                  Ok (n, b) \<Rightarrow> commit_message n b fp
                | Err e \<Rightarrow> (fp, Err (IoWire e))
                | Panic \<Rightarrow> (fp, Panic))
              (fp2\<lparr>fp_stats := (fp_stats fp2)\<lparr>fst_size_flushes := fst_size_flushes (fp_stats fp2) + 1\<rparr>\<rparr>)
     | Err e \<Rightarrow> (fp2, Err (IoWire e))
     | Panic \<Rightarrow> (fp2, Panic)) = (fp', Ok sq)"
    using assms unfolding emit_def sbind_Ok [of "\<lambda>fp. if fp_count fp \<ge> fp_batch_size fp then flush fp else (fp, Ok ())" fp fp1 "()", OF f(1)]
      smethod_simps(2) fp2_def [symmetric] .
  then show ?thesis using n
    by (auto simp: commit_message_def sbind_def Let_def split: outcome.splits wire_error.splits if_splits prod.splits dest!: flush_next)
qed

lemma publish_next:
  assumes "publish y ch st = (st', Ok sq)"
  shows "sq = fp_next_seq (snd st) \<and> fp_next_seq (snd st') = wrap_add_u64 (fp_next_seq (snd st)) 1"
  using assms by (cases ch; cases st)
    (auto simp: book_then_feed_def fp_add_order_def fp_modify_order_def fp_delete_order_def fp_trade_def Let_def dest!: emit_next
      split: prod.splits outcome.splits)

section \<open>What a run with a callback tells\<close>

text \<open>The callback has been asked about every sequence from \<open>a\<close> up to \<open>b\<close>, and agreed.\<close>

definition asked :: "seq_callback \<Rightarrow> nat \<Rightarrow> nat \<Rightarrow> bool" where
  "asked cb = (\<lambda>a b. b = wrap_add_u64 a 1 \<and> (\<exists>e. cb e a = Ok ()))\<^sup>*\<^sup>*"

lemma asked_each: "asked cb a b \<Longrightarrow> a \<le> n \<Longrightarrow> n < b \<Longrightarrow> b \<le> u64_max \<Longrightarrow> \<exists>e. cb e n = Ok ()"
  unfolding asked_def
proof (induction rule: converse_rtranclp_induct)
  case (step a c)
  then show ?case by (cases "n = a") auto
qed simp

text \<open>A successful run changes the state as if there were no callback, and has asked it about every sequence handed out.\<close>

definition observed :: "seq_callback \<Rightarrow> 'a engine_op \<Rightarrow> 'a engine_op \<Rightarrow> bool" where
  "observed cb m m0 \<longleftrightarrow> (\<forall>st st' x. m st = (st', Ok x) \<longrightarrow> m0 st = (st', Ok x) \<and> asked cb (fp_next_seq (snd st)) (fp_next_seq (snd st')))"

lemma observedD: "observed cb m m0 \<Longrightarrow> m st = (st', Ok x) \<Longrightarrow> m0 st = (st', Ok x) \<and> asked cb (fp_next_seq (snd st)) (fp_next_seq (snd st'))"
  unfolding observed_def by blast

lemma observed_bind:
  assumes "observed cb m m0" "\<And>x. observed cb (k x) (k0 x)"
  shows "observed cb (sbind m k) (sbind m0 k0)"
  unfolding observed_def
proof (intro allI impI)
  fix st st' x
  assume r: "sbind m k st = (st', Ok x)"
  obtain st1 z where z: "m st = (st1, Ok z)" "k z st1 = (st', Ok x)" using r by (auto simp: sbind_def split: prod.splits outcome.splits)
  show "sbind m0 k0 st = (st', Ok x) \<and> asked cb (fp_next_seq (snd st)) (fp_next_seq (snd st'))"
    using observedD [OF assms(1) z(1)] observedD [OF assms(2) z(2)] by (auto simp: sbind_def asked_def)
qed

lemma observed_return: "observed cb (sreturn x) (sreturn x)"
  by (simp add: observed_def asked_def)

lemma observed_on_engine: "observed cb (on_engine f) (on_engine f)"
  by (auto simp: observed_def asked_def)

lemma observed_if: "observed cb m m0 \<Longrightarrow> observed cb n n0 \<Longrightarrow> observed cb (if b then m else n) (if b then m0 else n0)"
  by simp

lemma observed_publish:
  assumes "observed cb k k0"
  shows "observed cb (sbind (publish y ch) (\<lambda>sq. sbind (on_sequence cb sq) (\<lambda>_. k))) (sbind (publish y ch) (\<lambda>sq. sbind (on_sequence no_checkpoint sq) (\<lambda>_. k0)))"
  unfolding observed_def
proof (intro allI impI)
  fix st st' x
  assume r: "sbind (publish y ch) (\<lambda>sq. sbind (on_sequence cb sq) (\<lambda>_. k)) st = (st', Ok x)"
  obtain st1 sq where p: "publish y ch st = (st1, Ok sq)" "cb (fst st1) sq = Ok ()" "k st1 = (st', Ok x)"
    using r by (auto simp: sbind_def on_sequence_def split: prod.splits outcome.splits)
  have "asked cb (fp_next_seq (snd st)) (fp_next_seq (snd st1))" using publish_next [OF p(1)] p(2) by (auto simp: asked_def)
  then show "sbind (publish y ch) (\<lambda>sq. sbind (on_sequence no_checkpoint sq) (\<lambda>_. k0)) st = (st', Ok x) \<and>
      asked cb (fp_next_seq (snd st)) (fp_next_seq (snd st'))"
    using p observedD [OF assms p(3)] by (auto simp: sbind_def on_sequence_def no_checkpoint_def asked_def simp del: publish.simps)
qed

lemmas observed_intros = observed_bind observed_return observed_on_engine observed_if observed_publish

lemma observed_match_step: "observed cb (match_step cb y s p oid r) (match_step no_checkpoint y s p oid r)"
proof -
  have k: "observed cb
      (sbind (publish y c1) (\<lambda>sq. sbind (on_sequence cb sq) (\<lambda>_. sbind (publish y c2) (\<lambda>sq. sbind (on_sequence cb sq) (\<lambda>_.
        sbind (on_engine f1) (\<lambda>_. sbind (on_engine f2) (\<lambda>_. sbind (on_engine f3) (\<lambda>_. sreturn x))))))))
      (sbind (publish y c1) (\<lambda>sq. sbind (on_sequence no_checkpoint sq) (\<lambda>_. sbind (publish y c2) (\<lambda>sq. sbind (on_sequence no_checkpoint sq) (\<lambda>_.
        sbind (on_engine f1) (\<lambda>_. sbind (on_engine f2) (\<lambda>_. sbind (on_engine f3) (\<lambda>_. sreturn x))))))))" for c1 c2 f1 f2 f3 x
    by (intro observed_publish observed_bind observed_on_engine observed_return)
  show ?thesis unfolding observed_def match_step_def
    by (auto simp: Let_def asked_def dest!: observedD [OF k] split: option.splits if_splits)
qed

lemma observed_match_loop: "observed cb (match_loop cb y s p oid r) (match_loop no_checkpoint y s p oid r)"
proof -
  have "match_loop no_checkpoint y s p oid r st = (st', Ok x) \<and> asked cb (fp_next_seq (snd st)) (fp_next_seq (snd st'))"
    if "match_loop cb y s p oid r st = (st', Ok x)" for st st' x
    using that
  proof (induction cb y s p oid r st arbitrary: x rule: match_loop.induct)
    case (1 cb y s p oid r st)
    show ?case
    proof (cases "r = 0")
      case True
      then show ?thesis using "1.prems" by (simp add: match_loop.simps asked_def)
    next
      case False
      obtain st1 f where m: "match_step cb y s p oid r st = (st1, Ok f)"
        using "1.prems" False by (subst (asm) match_loop.simps) (auto split: prod.splits outcome.splits)
      note o = observedD [OF observed_match_step m]
      show ?thesis
      proof (cases f)
        case None
        then show ?thesis using "1.prems" False m o by (simp add: match_loop.simps)
      next
        case (Some g)
        obtain fs r' where l: "match_loop cb y s p oid (r - fl_quantity g) st1 = (st', Ok (fs, r'))" "x = (g # fs, r')"
          using "1.prems" False m Some by (subst (asm) match_loop.simps) (auto split: prod.splits outcome.splits)
        from "1.IH" [OF False m [symmetric] refl _ l(1)] Some
        have "match_loop no_checkpoint y s p oid (r - fl_quantity g) st1 = (st', Ok (fs, r')) \<and> asked cb (fp_next_seq (snd st1)) (fp_next_seq (snd st'))"
          by simp
        then show ?thesis using o False Some l(2) match_loop.simps [of no_checkpoint y s p oid r st] by (auto simp: asked_def)
      qed
    qed
  qed
  then show ?thesis by (simp add: observed_def)
qed

lemma observed_serve_call: "observed cb (serve_call cb c) (serve_call no_checkpoint c)"
proof (cases c)
  case (CallSubmit y s p q g)
  have "observed cb
      (sbind (on_engine begin_submit) (\<lambda>_. sbind (match_loop cb y s p oid q) (\<lambda>(fills, remaining).
        sbind (on_engine (\<lambda>e. if fills \<noteq> [] then count_aggressive e else e)) (\<lambda>_.
        sbind (if remaining > 0
               then sbind (publish y (ChAdd oid s p remaining)) (\<lambda>sq. sbind (on_sequence cb sq) (\<lambda>_.
                    on_engine (\<lambda>e. if g then rest_live y oid e else e)))
               else sreturn ()) (\<lambda>_. sreturn (\<lparr>su_order_id = oid, su_filled = q - remaining, su_resting = remaining\<rparr>, fills))))))
      (sbind (on_engine begin_submit) (\<lambda>_. sbind (match_loop no_checkpoint y s p oid q) (\<lambda>(fills, remaining).
        sbind (on_engine (\<lambda>e. if fills \<noteq> [] then count_aggressive e else e)) (\<lambda>_.
        sbind (if remaining > 0
               then sbind (publish y (ChAdd oid s p remaining)) (\<lambda>sq. sbind (on_sequence no_checkpoint sq) (\<lambda>_.
                    on_engine (\<lambda>e. if g then rest_live y oid e else e)))
               else sreturn ()) (\<lambda>_. sreturn (\<lparr>su_order_id = oid, su_filled = q - remaining, su_resting = remaining\<rparr>, fills))))))" for oid
    unfolding split_def by (intro observed_bind observed_on_engine observed_match_loop observed_if observed_publish observed_return)
  then have "observed cb (submit_reported cb y s p q g) (submit_reported no_checkpoint y s p q g)"
    unfolding observed_def submit_reported_def Let_def by blast
  then show ?thesis unfolding CallSubmit serve_call.simps by (intro observed_bind observed_return)
next
  case (CallCancel y i)
  have "observed cb
      (sbind (publish y ch) (\<lambda>sq. sbind (on_sequence cb sq) (\<lambda>_. sbind (on_engine f1) (\<lambda>_. sbind (on_engine f2) (\<lambda>_. sreturn z)))))
      (sbind (publish y ch) (\<lambda>sq. sbind (on_sequence no_checkpoint sq) (\<lambda>_. sbind (on_engine f1) (\<lambda>_. sbind (on_engine f2) (\<lambda>_. sreturn z)))))"
    for ch f1 f2 and z :: "nat option"
    by (intro observed_publish observed_bind observed_on_engine observed_return)
  from observedD [OF this] have "observed cb (cancel_reported cb y i) (cancel_reported no_checkpoint y i)"
    unfolding observed_def cancel_reported_def by (auto simp: asked_def split: option.splits prod.splits)
  then show ?thesis unfolding CallCancel serve_call.simps cancel_def by (intro observed_bind observed_return)
next
  case (CallAmend y i np q)
  have "observed cb (sbind (publish y ch) (\<lambda>sq. sbind (on_sequence cb sq) (\<lambda>_. on_engine f)))
      (sbind (publish y ch) (\<lambda>sq. sbind (on_sequence no_checkpoint sq) (\<lambda>_. on_engine f)))" for ch f
    by (intro observed_publish observed_on_engine)
  from observedD [OF this] show ?thesis
    unfolding CallAmend serve_call.simps observed_def amend_def Let_def by (auto simp: asked_def split: option.splits prod.splits)
qed

lemma observed_serve_all: "observed cb (serve_all cb cs) (serve_all no_checkpoint cs)"
proof (induction cs)
  case (Cons c cs)
  then show ?case unfolding serve_all.simps by (intro observed_bind observed_serve_call)
qed (simp only: serve_all.simps observed_return)

section \<open>The engine's checkpoints\<close>

lemma serve_call_on:
  assumes inv: "engine_inv cfg (e, fp) evs sp" and cb: "callback_on cb (evs @ call_events e sp c)" and wf: "call_wf c" "no_zero_amend c"
    and k: "small_books k e evs sp" "k < 2147483648"
  shows "\<exists>st'. serve_call cb c (e, fp) = (st', Ok ())"
proof -
  note sb = small_bounds [OF k]
  have n: "Suc (length evs) < u64_max" using sb(2) by simp
  show ?thesis
  proof (cases c)
    case (CallSubmit y s p q g)
    with wf(1) have w: "y \<le> u16_max" "in_i64 p" "q \<le> u32_max" by auto
    have "length evs + 2 * length (spec_queue (opposite s) (sp y)) + 1 < u64_max"
      using sb(1) [of y] sb(2) length_by_side [of "sp y" s] by simp
    from submit_reported_on [OF inv _ w sb(3) this, of cb g] cb show ?thesis by (auto simp: CallSubmit sbind_def)
  next
    case (CallCancel y i)
    then show ?thesis using cancel_reported_on [OF inv, of i y cb] cb wf(1) n by (auto simp: cancel_def sbind_def split: option.splits)
  next
    case (CallAmend y i np q)
    then show ?thesis using amend_on [OF inv, of i y q cb np] cb wf n by (auto split: option.splits)
  qed
qed

text \<open>The messages of a run are known before the callback is: a callback that succeeds along them changes nothing.\<close>

lemma serve_all_events:
  assumes "engine_inv cfg st evs sp" "list_all call_wf cs" "list_all no_zero_amend cs" "small_books k (fst st) evs sp" "k + length cs \<le> 2147483648"
  shows "\<exists>st' new sp'. engine_inv cfg st' (evs @ new) sp' \<and> length (evs @ new) + 2 < u64_max \<and>
     (\<forall>cb. callback_on cb (evs @ new) \<longrightarrow> serve_all cb cs st = (st', Ok ()))"
  using assms
proof (induction cs arbitrary: st evs sp k)
  case Nil
  have "length evs + 2 < u64_max" using small_books_total [OF Nil(4)] Nil(5) by simp
  then show ?case using Nil(1) by (metis append_Nil2 serve_all.simps(1) smethod_simps(3))
next
  case (Cons c cs)
  obtain e fp where st: "st = (e, fp)" by fastforce
  let ?new = "call_events e sp c"
  have c: "call_wf c" "no_zero_amend c" "k < 2147483648" "small_books k e evs sp" using Cons.prems by (auto simp: st)
  from serve_call_ok [OF Cons.prems(1) no_checkpoint_ok c(1) Cons.prems(4) c(3)] obtain st1 r sp1 where
    s: "serve_call no_checkpoint c st = (st1, r)" "engine_inv cfg st1 (evs @ ?new) sp1" "small_books (Suc k) (fst st1) (evs @ ?new) sp1"
    unfolding st fst_conv by blast
  obtain st2 new2 sp2 where t: "engine_inv cfg st2 ((evs @ ?new) @ new2) sp2" "length ((evs @ ?new) @ new2) + 2 < u64_max"
      "\<forall>cb. callback_on cb ((evs @ ?new) @ new2) \<longrightarrow> serve_all cb cs st1 = (st2, Ok ())"
    using Cons.IH [OF s(2) _ _ s(3)] Cons.prems(2,3,5) by auto
  have "serve_all cb (c # cs) st = (st2, Ok ())" if cb: "callback_on cb ((evs @ ?new) @ new2)" for cb
  proof -
    obtain st' where "serve_call cb c st = (st', Ok ())"
      using serve_call_on [OF Cons.prems(1) [unfolded st] callback_on_prefix [OF cb] c(1,2,4,3)] st by auto
    moreover from observedD [OF observed_serve_call this] have "st' = st1" using s(1) by simp
    ultimately show ?thesis using t(3) cb by (simp add: sbind_def)
  qed
  then show ?case using t(1,2) unfolding append.assoc by blast
qed

section \<open>The lines of a log\<close>

text \<open>The digest of the books that the events of a stream build up to a sequence, and the lines a log has to hold by then.\<close>

definition digest_at :: "(nat \<Rightarrow> feed_event) \<Rightarrow> nat \<Rightarrow> book_digest" where
  "digest_at ev q = (case spec_run ev [1..<Suc q] (\<lambda>_. []) of Ok sp \<Rightarrow> spec_digest sp | _ \<Rightarrow> spec_digest (\<lambda>_. []))"

definition due :: "nat \<Rightarrow> nat \<Rightarrow> bool" where
  "due k q \<longleftrightarrow> 0 < k \<and> k dvd q"

definition lines_to :: "nat \<Rightarrow> (nat \<Rightarrow> feed_event) \<Rightarrow> nat \<Rightarrow> (nat \<times> book_digest) list" where
  "lines_to k ev n = map (\<lambda>q. (q, digest_at ev q)) (filter (due k) [1..<Suc n])"

lemma lines_to_Suc: "lines_to k ev (Suc n) = lines_to k ev n @ (if due k (Suc n) then [(Suc n, digest_at ev (Suc n))] else [])"
  by (simp add: lines_to_def)

text \<open>The handler's log holds the lines of its stream.\<close>

definition log_holds :: "nat \<Rightarrow> (nat \<Rightarrow> feed_event) \<Rightarrow> spec_books \<Rightarrow> nat \<Rightarrow> digest_log \<Rightarrow> bool" where
  "log_holds k ev sp n l \<longleftrightarrow> spec_run ev [1..<Suc n] (\<lambda>_. []) = Ok sp \<and> dl_sink l = Some (lines_to k ev n)"

lemma log_holds_kept:
  assumes "hc_ops cfg = refbook_ops"
  shows "log_kept cfg refbook_rel ev (log_holds (hc_digest_interval cfg) ev)"
proof -
  let ?k = "hc_digest_interval cfg"
  have "log_holds ?k ev sp' (Suc n) (checkpointed cfg (Suc n) bks l)"
    if j: "log_holds ?k ev sp n l" "log_ok l" "spec_apply (ev (Suc n)) sp = Ok sp'" "books_rel refbook_rel bks sp'" for sp n sp' bks l
  proof -
    have run: "spec_run ev [1..<Suc (Suc n)] (\<lambda>_. []) = Ok sp'" using j(1,3) by (simp add: log_holds_def spec_run_append)
    then have "digest_at ev (Suc n) = BookDigest_of (hc_ops cfg) bks" using refdigest.digest_sim [OF j(4)] assms by (simp add: digest_at_def del: upt_Suc)
    then have "dl_sink (checkpointed cfg (Suc n) bks l) = Some (lines_to ?k ev (Suc n))"
      using j(1,2) by (auto simp: log_holds_def checkpointed_def digest_log_write_def log_ok_def lines_to_Suc due_def mod_eq_0_iff_dvd)
    then show ?thesis using run by (simp add: log_holds_def del: upt_Suc)
  qed
  then show ?thesis unfolding log_kept_def by blast
qed

text \<open>A log that accepts those lines accepts every line the engine writes.\<close>

lemma checkpoint_on:
  assumes "\<forall>(n, d)\<in>set (lines_to k (ev_of bs) (length (batch_events bs))). w n d = Ok ()"
  shows "callback_on (engine_checkpoint k w) (batch_events bs)"
  unfolding callback_on_def
proof (intro allI impI, elim conjE)
  fix j :: nat and e :: engine and sp
  assume j: "0 < j" "j \<le> length (batch_events bs)" "ofold spec_apply (take j (batch_events bs)) (\<lambda>_. []) = Ok sp" "books_rel refbook_rel (en_books e) sp"
  have "map (ev_of bs) [1..<Suc j] = take j (batch_events bs)" using map_ev_of [of 0 j bs] j(2) by (simp del: upt_Suc)
  then have "digest_at (ev_of bs) j = BookDigest_of refbook_ops (en_books e)"
    using j(3) refdigest.digest_sim [OF j(4)] by (simp add: digest_at_def spec_run_def del: upt_Suc)
  moreover have "(j, digest_at (ev_of bs) j) \<in> set (lines_to k (ev_of bs) (length (batch_events bs)))" if "due k j"
    using that j(1,2) by (auto simp: lines_to_def simp del: upt_Suc)
  ultimately show "engine_checkpoint k w e j = Ok ()" using assms by (auto simp: engine_checkpoint_def due_def)
qed

section \<open>Properties\<close>

text \<open>C24: the digest logs of the two processes agree. Serve any calls on an empty engine whose publisher loses datagrams at any rate but never on both
  arms, and feed the datagrams to a handler with the same checkpoint interval, in any order that begins with the first batch and stays within
  the reorder window. The handler's log then holds one line for each multiple of the interval up to the last sequence, and it is the same
  however the datagrams arrived. The engine writes exactly these lines: it runs to the end with every log that accepts them, whatever else
  the log refuses, and a log that refuses all lines for one of these sequences stops it.\<close>

theorem checkpoint_digests_agree:
  assumes "fresh_feed (rate, Exclusive) fp" "list_all call_wf cs" "list_all no_zero_amend cs" "length cs \<le> 2147483648"
    and cfg: "hc_ops cfg = refbook_ops" "hc_new cfg = refbook_new" "hc_message_limit cfg = 0" "hc_window cfg < u64_max"
    and dlog: "log_ok dlog" "dl_sink dlog = Some []"
  defines "k \<equiv> hc_digest_interval cfg"
  shows "\<exists>e' fp' fp'' bs lines. flush fp' = (fp'', Ok ()) \<and> feed_inv fp'' bs [] \<and>
     map fst lines = filter (\<lambda>n. 0 < k \<and> k dvd n) [1..<fp_next_seq fp''] \<and>
     (\<forall>w. (\<forall>(n, d)\<in>set lines. w n d = Ok ()) \<longrightarrow> serve_all (engine_checkpoint k w) cs (engine_new syms, fp) = ((e', fp'), Ok ())) \<and>
     (\<forall>w n. n \<in> fst ` set lines \<and> (\<forall>d. w n d \<noteq> Ok ()) \<longrightarrow> (\<forall>st. serve_all (engine_checkpoint k w) cs (engine_new syms, fp) \<noteq> (st, Ok ()))) \<and>
     (\<forall>ks xs. list_all2 (arrival_of bs) (0 # ks) (map snd xs) \<and> bounded_lag (max (hc_window cfg) 1) {0} ks \<and>
        fits (max (hc_datagram_bytes cfg) 65536) (map snd xs) \<and>
        (\<forall>d\<in>set (fp_sent_a fp''). (0, d) \<in> set (map snd xs)) \<and> (\<forall>d\<in>set (fp_sent_b fp''). (1, d) \<in> set (map snd xs)) \<longrightarrow>
        (\<exists>h'. receive_datagrams cfg xs (handler_new cfg dlog []) = (h', Ok ()) \<and> dl_sink (hd_log h') = Some lines))"
proof -
  obtain st' evs sp where r: "engine_inv (rate, Exclusive) st' evs sp" "length evs + 2 < u64_max"
      "\<And>cb. callback_on cb evs \<Longrightarrow> serve_all cb cs (engine_new syms, fp) = (st', Ok ())"
    using serve_all_events [OF engine_inv_new [OF assms(1)] assms(2,3), of 0 syms] small_books_new [of syms] assms(4) by auto
  obtain e' fp' where st: "st' = (e', fp')" by fastforce
  obtain fp'' bs where f: "flush fp' = (fp'', Ok ())" "feed_inv fp'' bs []" "batch_events bs = evs" "list_all batch_valid bs"
      "(fp_drop_rate fp'', fp_drop_mode fp'') = (rate, Exclusive)"
    by (rule flush_engine [OF r(1) [unfolded st] r(2)])
  have "ofold spec_apply evs (\<lambda>_. []) = Ok sp" using r(1) by (auto simp: engine_inv_def st)
  moreover have "map (ev_of bs) [1..<1 + length evs] = evs" using map_ev_of [of 0 "length evs" bs] f(3) by simp
  ultimately have run: "spec_run (ev_of bs) [1..<1 + length (batch_events bs)] (\<lambda>_. []) = Ok sp" using f(3) by (simp add: spec_run_def)
  define lines where "lines = lines_to k (ev_of bs) (length evs)"
  have n: "fp_next_seq fp'' = Suc (length evs)" "fp_next_seq fp' = Suc (length evs)" "fp_next_seq fp = 1"
    using f(2,3) assms(1) flush_next [OF f(1)] by (auto simp: feed_inv_def fresh_feed_def)
  have ls: "map fst lines = filter (\<lambda>n. 0 < k \<and> k dvd n) [1..<fp_next_seq fp'']"
    by (simp add: lines_def lines_to_def n(1) comp_def due_def [abs_def] del: upt_Suc)
  have fwd: "serve_all (engine_checkpoint k w) cs (engine_new syms, fp) = ((e', fp'), Ok ())" if "\<forall>(n, d)\<in>set lines. w n d = Ok ()" for w
    using checkpoint_on [of k bs w] that r(3) unfolding lines_def f(3) st by blast
  have bwd: "serve_all (engine_checkpoint k w) cs (engine_new syms, fp) \<noteq> (st, Ok ())" if w: "m \<in> fst ` set lines" "\<forall>d. w m d \<noteq> Ok ()" for w m st
  proof
    assume "serve_all (engine_checkpoint k w) cs (engine_new syms, fp) = (st, Ok ())"
    note o = observedD [OF observed_serve_all this]
    have "st = st'" using o r(3) [OF callback_ok_on [OF no_checkpoint_ok]] by simp
    moreover have m: "due k m" "1 \<le> m" "m < Suc (length evs)" using w(1) by (auto simp: lines_def lines_to_def simp del: upt_Suc)
    ultimately obtain e where "engine_checkpoint k w e m = Ok ()" using asked_each [of _ 1 "Suc (length evs)" m] o r(2) n by (auto simp: st)
    then show False using w(2) m(1) by (simp add: engine_checkpoint_def due_def)
  qed
  have "log_holds k (ev_of bs) (\<lambda>_. []) 0 dlog" using dlog(2) by (simp add: log_holds_def lines_to_def)
  then have "\<exists>h'. receive_datagrams cfg xs (handler_new cfg dlog []) = (h', Ok ()) \<and> dl_sink (hd_log h') = Some lines"
    if a: "list_all2 (arrival_of bs) (0 # ks) (map snd xs)" "bounded_lag (max (hc_window cfg) 1) {0} ks" "fits (max (hc_datagram_bytes cfg) 65536) (map snd xs)"
      "\<forall>d\<in>set (fp_sent_a fp''). (0, d) \<in> set (map snd xs)" "\<forall>d\<in>set (fp_sent_b fp''). (1, d) \<in> set (map snd xs)" for ks xs
    unfolding k_def using run_over_arms [OF f(2) _ run cfg(1,2) log_holds_kept [OF cfg(1)] cfg(3,4) dlog(1) _ a] f(3,5)
    unfolding log_holds_def lines_def k_def by blast
  then show ?thesis using f(1,2) ls fwd bwd by blast
qed

text \<open>One order through a lossy feed, checkpoints after every message: the logs hold one line.\<close>

theorem checkpoint_digests_agree_witness:
  "\<exists>e' fp' fp'' xs h' lines. serve_all (engine_checkpoint 1 (\<lambda>n d. if (n, d) \<in> set lines then Ok () else Err IoCallback))
       [CallSubmit 7 Ask 105 10 False] (engine_new [], lossy_feed) = ((e', fp'), Ok ()) \<and> flush fp' = (fp'', Ok ()) \<and>
     from_arms fp'' (map snd xs) \<and> receive_datagrams sample_cfg xs (handler_new sample_cfg open_log []) = (h', Ok ()) \<and>
     dl_sink (hd_log h') = Some lines \<and> map fst lines = [1]"
proof -
  have c: "hc_ops sample_cfg = refbook_ops" "hc_new sample_cfg = refbook_new" "hc_message_limit sample_cfg = 0" "hc_window sample_cfg < u64_max"
      "log_ok open_log" "dl_sink open_log = Some []"
    by (simp_all add: sample_cfg_def open_log_def log_ok_def)
  have d: "hc_digest_interval sample_cfg = 1" "max (hc_window sample_cfg) 1 = 8" "max (hc_datagram_bytes sample_cfg) 65536 = 65536"
    by (simp_all add: sample_cfg_def)
  let ?cs = "[CallSubmit 7 Ask 105 10 False]"
  have w: "list_all call_wf ?cs" "list_all no_zero_amend ?cs" "length ?cs \<le> 2147483648" by (simp_all add: in_i64_def)
  obtain e' fp' fp'' bs lines where r: "flush fp' = (fp'', Ok ())" "feed_inv fp'' bs []"
      "map fst lines = filter (\<lambda>n. 0 < (1 :: nat) \<and> 1 dvd n) [1..<fp_next_seq fp'']"
    and run: "\<forall>w. (\<forall>(n, d)\<in>set lines. w n d = Ok ()) \<longrightarrow> serve_all (engine_checkpoint 1 w) ?cs (engine_new [], lossy_feed) = ((e', fp'), Ok ())"
    and all: "\<forall>ks xs. list_all2 (arrival_of bs) (0 # ks) (map snd xs) \<and> bounded_lag 8 {0} ks \<and> fits 65536 (map snd xs) \<and>
        (\<forall>d\<in>set (fp_sent_a fp''). (0, d) \<in> set (map snd xs)) \<and> (\<forall>d\<in>set (fp_sent_b fp''). (1, d) \<in> set (map snd xs)) \<longrightarrow>
        (\<exists>h'. receive_datagrams sample_cfg xs (handler_new sample_cfg open_log []) = (h', Ok ()) \<and> dl_sink (hd_log h') = Some lines)"
    using checkpoint_digests_agree [OF lossy_feed_fresh w c, of "[]", unfolded d] by (elim exE conjE) (rule that)
  let ?w = "\<lambda>n d. if (n, d) \<in> set lines then Ok () else Err IoCallback"
  have s: "serve_all (engine_checkpoint 1 ?w) ?cs (engine_new [], lossy_feed) = ((e', fp'), Ok ())" by (rule run [rule_format]) auto
  then have "serve_all no_checkpoint ?cs (engine_new [], lossy_feed) = ((e', fp'), Ok ())" using observedD [OF observed_serve_all] by blast
  then have "serve_calls no_checkpoint ?cs (engine_new [], lossy_feed) = ((e', fp'), True)"
    by (auto simp: sbind_def split: prod.splits outcome.splits)
  from one_order_feed [OF this r(1,2)] obtain t ev where t: "bs = [t]" "bt_events t = [ev]" "\<not> (bt_drop_a t \<and> bt_drop_b t)" by metis
  obtain ks and xs :: "(nat \<times> nat \<times> bytes) list" where a: "list_all2 (arrival_of [t]) (0 # ks) (map snd xs)" "bounded_lag 8 {0} ks" "fits 65536 (map snd xs)"
      "\<forall>d\<in>set (fp_sent_a fp''). (0, d) \<in> set (map snd xs)" "\<forall>d\<in>set (fp_sent_b fp''). (1, d) \<in> set (map snd xs)" "from_arms fp'' (map snd xs)"
    by (rule one_batch_arrivals [OF r(2) [unfolded t(1)] t(2,3)])
  obtain h' where "receive_datagrams sample_cfg xs (handler_new sample_cfg open_log []) = (h', Ok ())" "dl_sink (hd_log h') = Some lines"
    using all [unfolded t(1), THEN spec [of _ ks], THEN spec [of _ xs]] a by blast
  moreover have "fp_next_seq fp'' = 2" using r(2) t(1,2) by (simp add: feed_inv_def batch_events_def)
  then have "map fst lines = [1]" using r(3) by (simp add: numeral_2_eq_2)
  ultimately show ?thesis using s r(1) a(6) by - (intro exI conjI)
qed

end
