(* ===== verification/Histogram.thy ===== *)
theory Histogram
  imports Prelude Complex_Main "HOL-Library.Word" "HOL-Library.Multiset"
begin

text \<open>
  The latency histogram of \<open>crates/bench-support/src/histogram.rs\<close>: buckets that are powers of two, each cut into linear
  slots, so that a quantile read back is never below the exact one and at most a thousandth part above it. A panic of
  an array access or an assertion is \<open>None\<close>. The quantile asked for is a rational where the source has a double.
\<close>

unbundle bit_operations_syntax

section \<open>The histogram\<close>

abbreviation (input) SUB_BUCKET_BITS :: nat where "SUB_BUCKET_BITS \<equiv> 11"
abbreviation (input) SUB_BUCKET_COUNT :: nat where "SUB_BUCKET_COUNT \<equiv> 2048"
abbreviation (input) SUB_BUCKET_HALF :: nat where "SUB_BUCKET_HALF \<equiv> 1024"
abbreviation (input) SUB_BUCKET_MASK :: nat where "SUB_BUCKET_MASK \<equiv> 2047"
abbreviation (input) LEADING_ZERO_BASE :: nat where "LEADING_ZERO_BASE \<equiv> 53"
abbreviation (input) DEFAULT_HIGHEST_NANOS :: nat where "DEFAULT_HIGHEST_NANOS \<equiv> 10000000000"

record histogram =
  hg_counts :: "nat list"
  hg_highest :: nat
  hg_total :: nat
  hg_overflow :: nat
  hg_min :: nat
  hg_max :: nat
  hg_sum :: nat

text \<open>The buckets needed to track \<open>highest\<close>; the smallest value not yet tracked is \<open>2 ^ k\<close>.\<close>

function grow_buckets :: "nat \<Rightarrow> nat \<Rightarrow> nat \<Rightarrow> nat" where
  "grow_buckets highest k buckets =
     (if 2 ^ k \<le> highest then if 2 ^ k > u64_max div 2 then buckets else grow_buckets highest (Suc k) (buckets + 1) else buckets)"
  by pat_completeness auto
termination
proof (relation "measure (\<lambda>(h, k, b). 64 - k)", simp)
  fix highest k buckets :: nat
  assume "\<not> u64_max div 2 < 2 ^ k"
  then have "(2::nat) ^ k < 2 ^ 64" by simp
  then have "k < 64" by (rule power_less_imp_less_exp [rotated]) simp
  then show "((highest, Suc k, buckets + 1), highest, k, buckets) \<in> measure (\<lambda>(h, k, b). 64 - k)" by simp
qed

declare grow_buckets.simps [simp del]

definition Histogram_new :: "nat \<Rightarrow> histogram" where
  "Histogram_new asked =
     (let highest = max asked SUB_BUCKET_COUNT; buckets = grow_buckets highest SUB_BUCKET_BITS 1; len = (buckets + 1) * SUB_BUCKET_HALF in
      \<lparr>hg_counts = replicate len 0, hg_highest = highest, hg_total = 0, hg_overflow = 0, hg_min = u64_max, hg_max = 0, hg_sum = 0\<rparr>)"

fun bit_length :: "nat \<Rightarrow> nat" where
  "bit_length n = (if n = 0 then 0 else Suc (bit_length (n div 2)))"

declare bit_length.simps [simp del]

definition leading_zeros :: "nat \<Rightarrow> nat" where
  "leading_zeros n = 64 - bit_length n"

definition bucket_index :: "nat \<Rightarrow> nat" where
  "bucket_index v = LEADING_ZERO_BASE - leading_zeros (v OR SUB_BUCKET_MASK)"

definition counts_index :: "nat \<Rightarrow> nat" where
  "counts_index v = (let bucket = bucket_index v; sub = drop_bit bucket v; base = push_bit (SUB_BUCKET_BITS - 1) (bucket + 1)
     in base + sub - SUB_BUCKET_HALF)"

definition highest_equivalent :: "nat \<Rightarrow> nat" where
  "highest_equivalent v = (let unit = 2 ^ bucket_index v in wrap_sub_u64 (wrap_add_u64 (v div unit * unit) unit) 1)"

definition Histogram_record :: "nat \<Rightarrow> histogram \<Rightarrow> histogram option" where
  "Histogram_record v h =
     (if v > hg_highest h then
        Some (h\<lparr>hg_overflow := wrap_add_u64 (hg_overflow h) 1, hg_total := wrap_add_u64 (hg_total h) 1, hg_max := max (hg_max h) v,
          hg_sum := (hg_sum h + v) mod 2 ^ 128\<rparr>)
      else let i = counts_index v in
        if i < length (hg_counts h) then
          Some (h\<lparr>hg_counts := (hg_counts h)[i := wrap_add_u64 (hg_counts h ! i) 1], hg_total := wrap_add_u64 (hg_total h) 1,
            hg_min := min (hg_min h) v, hg_max := max (hg_max h) v, hg_sum := (hg_sum h + v) mod 2 ^ 128\<rparr>)
        else None)"

definition Histogram_is_empty :: "histogram \<Rightarrow> bool" where
  "Histogram_is_empty h \<longleftrightarrow> hg_total h = 0"

definition Histogram_min :: "histogram \<Rightarrow> nat" where
  "Histogram_min h = (if hg_total h = 0 then 0 else hg_min h)"

definition value_from_index :: "nat \<Rightarrow> nat" where
  "value_from_index i =
     (if i < SUB_BUCKET_COUNT then i
      else let bucket = drop_bit (SUB_BUCKET_BITS - 1) i - 1; sub = take_bit 10 i + SUB_BUCKET_HALF in take_bit 64 (push_bit bucket sub))"

fun quantile_scan :: "nat \<Rightarrow> nat \<Rightarrow> nat \<Rightarrow> nat list \<Rightarrow> nat option" where
  "quantile_scan rank seen i [] = None"
| "quantile_scan rank seen i (c # cs) =
     (if c = 0 then quantile_scan rank seen (Suc i) cs
      else let seen = wrap_add_u64 seen c in if seen \<ge> rank then Some i else quantile_scan rank seen (Suc i) cs)"

definition quantile_of_rank :: "nat \<Rightarrow> histogram \<Rightarrow> nat" where
  "quantile_of_rank rank h =
     (case quantile_scan rank 0 0 (hg_counts h) of Some i \<Rightarrow> highest_equivalent (value_from_index i) | None \<Rightarrow> hg_max h)"

definition Histogram_quantile :: "rat \<Rightarrow> histogram \<Rightarrow> nat" where
  "Histogram_quantile q h =
     (if hg_total h = 0 then 0
      else let q = min 1 (max 0 q); rank = max (nat \<lceil>q * of_nat (hg_total h)\<rceil>) 1 in quantile_of_rank rank h)"

definition Histogram_merge :: "histogram \<Rightarrow> histogram \<Rightarrow> histogram option" where
  "Histogram_merge h g =
     (if length (hg_counts h) = length (hg_counts g) then
        Some (h\<lparr>hg_counts := map2 wrap_add_u64 (hg_counts h) (hg_counts g), hg_total := wrap_add_u64 (hg_total h) (hg_total g),
          hg_overflow := wrap_add_u64 (hg_overflow h) (hg_overflow g), hg_sum := (hg_sum h + hg_sum g) mod 2 ^ 128,
          hg_min := (if hg_total g > 0 then min (hg_min h) (hg_min g) else hg_min h),
          hg_max := (if hg_total g > 0 then max (hg_max h) (hg_max g) else hg_max h)\<rparr>)
      else None)"

definition Histogram_clear :: "histogram \<Rightarrow> histogram" where
  "Histogram_clear h = h\<lparr>hg_counts := map (\<lambda>_. 0) (hg_counts h), hg_total := 0, hg_overflow := 0, hg_min := u64_max, hg_max := 0, hg_sum := 0\<rparr>"

section \<open>The layout of the slots\<close>

lemma bit_length_bounds: "0 < n \<Longrightarrow> 0 < bit_length n \<and> 2 ^ (bit_length n - 1) \<le> n \<and> n < 2 ^ bit_length n"
proof (induction n rule: bit_length.induct)
  case (1 n)
  show ?case
  proof (cases "n div 2 = 0")
    case True
    then have "n = 1" using 1(2) by auto
    then show ?thesis by (simp add: bit_length.simps)
  next
    case False
    with 1 have i: "0 < bit_length (n div 2)" "2 ^ (bit_length (n div 2) - 1) \<le> n div 2" "n div 2 < 2 ^ bit_length (n div 2)" by auto
    have b: "bit_length n = Suc (bit_length (n div 2))" using 1(2) by (simp add: bit_length.simps [of n])
    have "(2::nat) ^ bit_length (n div 2) = 2 * 2 ^ (bit_length (n div 2) - 1)" using i(1) by (simp add: power_eq_if)
    moreover have "n = 2 * (n div 2) + n mod 2" "n mod 2 < 2" by simp_all
    ultimately have "2 ^ bit_length (n div 2) \<le> n" "n < 2 * 2 ^ bit_length (n div 2)" using i(2,3) by linarith+
    then show ?thesis by (simp add: b)
  qed
qed

lemma bit_length_unique: "2 ^ k \<le> n \<Longrightarrow> n < 2 ^ Suc k \<Longrightarrow> bit_length n = Suc k"
proof -
  assume a: "2 ^ k \<le> n" "n < 2 ^ Suc k"
  then have b: "0 < bit_length n" "2 ^ (bit_length n - 1) \<le> n" "n < 2 ^ bit_length n"
    using bit_length_bounds [of n] by (auto intro: less_le_trans [of 0 "2 ^ k"])
  have "k < bit_length n" using le_less_trans [OF a(1) b(3)] by (simp add: power_strict_increasing_iff)
  moreover have "bit_length n - 1 < Suc k" using le_less_trans [OF b(2) a(2)] by (subst (asm) power_strict_increasing_iff) auto
  ultimately show ?thesis by simp
qed

lemma or_mask: "v OR 2047 = v div 2048 * 2048 + (2047 :: nat)"
proof -
  have m: "(2047 :: nat) = mask 11" by (simp add: mask_eq_exp_minus_1)
  have "push_bit 11 (drop_bit 11 v) AND mask 11 = (0 :: nat)" by (auto simp: bit_eq_iff bit_simps)
  then have "push_bit 11 (drop_bit 11 v) + mask 11 = push_bit 11 (drop_bit 11 v) OR (mask 11 :: nat)" by (rule disjunctive_add_eq_or)
  moreover have "push_bit 11 (drop_bit 11 v) OR mask 11 = v OR (mask 11 :: nat)" by (auto simp: bit_eq_iff bit_simps)
  moreover have "push_bit 11 (drop_bit 11 v) = v div 2048 * 2048" by (simp add: push_bit_eq_mult drop_bit_eq_div)
  ultimately show ?thesis by (simp add: m)
qed

lemma bucket_of_small: "v < 2048 \<Longrightarrow> bucket_index v = 0"
  using bit_length_unique [of 10 2047] by (simp add: bucket_index_def or_mask leading_zeros_def)

lemma bucket_of_large:
  assumes "2 ^ (b + 11) \<le> v" "v < 2 ^ (b + 12)" "b < 53"
  shows "bucket_index v = Suc b"
proof -
  have p: "(2::nat) ^ (b + 11) = 2 ^ b * 2048" "(2::nat) ^ (b + 12) = 2 ^ Suc b * 2048" by (simp_all add: power_add)
  have l: "2 ^ b \<le> v div 2048" using assms(1) p(1) by (simp add: less_eq_div_iff_mult_less_eq)
  have u: "v div 2048 < 2 ^ Suc b" using assms(2) p(2) by (simp add: div_less_iff_less_mult)
  have "2 ^ (b + 11) \<le> v OR 2047" unfolding or_mask p(1) using mult_le_mono1 [OF l, of 2048] by simp
  moreover have "v OR 2047 < 2 ^ Suc (b + 11)"
  proof -
    have "(v div 2048 + 1) * 2048 \<le> 2 ^ Suc b * 2048" using u by (intro mult_le_mono1) simp
    then show ?thesis unfolding or_mask by (simp add: power_add)
  qed
  ultimately have "bit_length (v OR 2047) = Suc (b + 11)" by (rule bit_length_unique)
  then show ?thesis using assms(3) by (simp add: bucket_index_def leading_zeros_def)
qed

text \<open>A value beyond the first bucket is at least 1024 and below 2048 units.\<close>

lemma bucket_cases:
  assumes "v < 2 ^ 64"
  obtains "v < 2048" "bucket_index v = 0" | b where "bucket_index v = Suc b" "2 ^ (b + 11) \<le> v" "v < 2 ^ (b + 12)" "b < 53"
proof (cases "v < 2048")
  case True
  then show thesis using that(1) bucket_of_small by simp
next
  case False
  then have b: "2 ^ (bit_length v - 1) \<le> v" "v < 2 ^ bit_length v" using bit_length_bounds [of v] by auto
  have "(2::nat) ^ 11 < 2 ^ bit_length v" using b(2) False by simp
  then have "11 < bit_length v" by (rule power_less_imp_less_exp [rotated]) simp
  moreover have "(2::nat) ^ (bit_length v - 1) < 2 ^ 64" using b(1) assms by (rule le_less_trans)
  then have "bit_length v - 1 < 64" by (rule power_less_imp_less_exp [rotated]) simp
  ultimately have k: "bit_length v = (bit_length v - 12) + 12" "bit_length v - 12 < 53" by auto
  define c where "c = bit_length v - 12"
  have c: "2 ^ (c + 11) \<le> v" "v < 2 ^ (c + 12)" "c < 53" using b k by (simp_all add: c_def)
  then show thesis using that(2) bucket_of_large by blast
qed

abbreviation (input) unit_of :: "nat \<Rightarrow> nat" where "unit_of v \<equiv> 2 ^ bucket_index v"

definition lowest_equivalent :: "nat \<Rightarrow> nat" where
  "lowest_equivalent v = v div unit_of v * unit_of v"

lemma counts_index_eq: "counts_index v = 1024 * bucket_index v + v div unit_of v"
  by (simp add: counts_index_def Let_def drop_bit_eq_div push_bit_eq_mult)

lemma counts_index_bounds:
  assumes "v < 2 ^ 64"
  shows "counts_index v < 1024 * (bucket_index v + 2)" "0 < bucket_index v \<Longrightarrow> 1024 * (bucket_index v + 1) \<le> counts_index v"
    "v div unit_of v < 2048" "0 < bucket_index v \<Longrightarrow> 1024 \<le> v div unit_of v"
proof -
  have u: "v div unit_of v < 2048 \<and> (0 < bucket_index v \<longrightarrow> 1024 \<le> v div unit_of v)"
  proof (rule bucket_cases [OF assms])
    fix b
    assume b: "bucket_index v = Suc b" "2 ^ (b + 11) \<le> v" "v < 2 ^ (b + 12)"
    have "(2::nat) ^ (b + 11) = 1024 * 2 ^ Suc b" "(2::nat) ^ (b + 12) = 2048 * 2 ^ Suc b" by (simp_all add: power_add)
    then show ?thesis using b by (simp add: less_eq_div_iff_mult_less_eq div_less_iff_less_mult)
  qed simp
  then show "v div unit_of v < 2048" "0 < bucket_index v \<Longrightarrow> 1024 \<le> v div unit_of v" by auto
  show "counts_index v < 1024 * (bucket_index v + 2)" using u by (simp add: counts_index_eq)
  show "0 < bucket_index v \<Longrightarrow> 1024 * (bucket_index v + 1) \<le> counts_index v" using u by (simp add: counts_index_eq)
qed

lemma bucket_mono:
  assumes "v \<le> w" "w < 2 ^ 64"
  shows "bucket_index v \<le> bucket_index w"
proof (rule bucket_cases [of v])
  fix b
  assume b: "bucket_index v = Suc b" "2 ^ (b + 11) \<le> v"
  show ?thesis
  proof (rule bucket_cases [OF assms(2)])
    assume "w < 2048"
    moreover have "(2048::nat) \<le> 2 ^ (b + 11)" by (simp add: power_add)
    ultimately show ?thesis using b(2) assms(1) by linarith
  next
    fix c
    assume c: "bucket_index w = Suc c" "w < 2 ^ (c + 12)"
    have "(2::nat) ^ (b + 11) < 2 ^ (c + 12)" using b(2) c(2) assms(1) by linarith
    then have "b + 11 < c + 12" by (rule power_less_imp_less_exp [rotated]) simp
    then show ?thesis using b(1) c(1) by simp
  qed
qed (use assms in auto)

lemma counts_index_mono:
  assumes "v \<le> w" "w < 2 ^ 64"
  shows "counts_index v \<le> counts_index w"
proof (cases "bucket_index v = bucket_index w")
  case True
  then show ?thesis using div_le_mono [OF assms(1)] by (simp add: counts_index_eq)
next
  case False
  then have l: "bucket_index v < bucket_index w" using bucket_mono [OF assms] by simp
  have "v < 2 ^ 64" using assms by linarith
  then have "counts_index v < 1024 * (bucket_index v + 2)" by (rule counts_index_bounds(1))
  also have "\<dots> \<le> 1024 * (bucket_index w + 1)" using l by simp
  also have "\<dots> \<le> counts_index w" using counts_index_bounds(2) [OF assms(2)] l by simp
  finally show ?thesis by simp
qed

lemma value_from_index_of:
  assumes "v < 2 ^ 64"
  shows "value_from_index (counts_index v) = lowest_equivalent v"
proof (cases "bucket_index v = 0")
  case True
  then show ?thesis using counts_index_bounds(3) [OF assms] by (simp add: counts_index_eq value_from_index_def lowest_equivalent_def)
next
  case False
  define s where "s = v div unit_of v"
  have s: "1024 \<le> s" "s < 2048" using counts_index_bounds(3,4) [OF assms] False by (auto simp: s_def)
  have i: "counts_index v = 1024 * (bucket_index v + 1) + (s - 1024)" using s by (simp add: counts_index_eq s_def)
  moreover have "s mod 1024 = s - 1024" using s by (simp add: le_mod_geq)
  ultimately have "counts_index v div 1024 = bucket_index v + 1" "counts_index v mod 1024 + 1024 = s" using s by simp_all
  moreover have "\<not> counts_index v < 2048" using i False by simp
  moreover have "s * unit_of v \<le> v" by (simp add: s_def)
  then have "s * unit_of v < 18446744073709551616" using assms by simp
  ultimately show ?thesis
    by (simp add: value_from_index_def Let_def drop_bit_eq_div take_bit_eq_mod push_bit_eq_mult lowest_equivalent_def s_def)
qed

lemma lowest_equivalent_bounds:
  assumes "v < 2 ^ 64"
  shows "lowest_equivalent v \<le> v" "v < lowest_equivalent v + unit_of v" "unit_of v - 1 \<le> v div 1024" "bucket_index (lowest_equivalent v) = bucket_index v"
proof -
  have d: "v = lowest_equivalent v + v mod unit_of v" unfolding lowest_equivalent_def by (rule div_mult_mod_eq [symmetric])
  then show l: "lowest_equivalent v \<le> v" by linarith
  have "v mod unit_of v < unit_of v" by simp
  then show "v < lowest_equivalent v + unit_of v" using d by linarith
  show "unit_of v - 1 \<le> v div 1024" "bucket_index (lowest_equivalent v) = bucket_index v"
  proof (rule_tac [!] bucket_cases [OF assms])
    fix b
    assume b: "bucket_index v = Suc b" "2 ^ (b + 11) \<le> v" "v < 2 ^ (b + 12)" "b < 53"
    have p: "(2::nat) ^ (b + 11) = 1024 * 2 ^ Suc b" by (simp add: power_add)
    have s: "1024 \<le> v div 2 ^ Suc b" using b(2) unfolding p by (simp add: less_eq_div_iff_mult_less_eq)
    then have "2 ^ (b + 11) \<le> lowest_equivalent v" unfolding p lowest_equivalent_def b(1) using mult_le_mono1 by blast
    moreover have "lowest_equivalent v < 2 ^ (b + 12)" using l b(3) by linarith
    ultimately show "bucket_index (lowest_equivalent v) = bucket_index v" using bucket_of_large b(1,4) by simp
    have "2 ^ Suc b \<le> v div 1024" using b(2) unfolding p by (simp add: less_eq_div_iff_mult_less_eq mult.commute)
    then show "unit_of v - 1 \<le> v div 1024" by (simp only: b(1))
  qed (simp_all add: lowest_equivalent_def)
qed

lemma highest_equivalent_of:
  assumes "v < 2 ^ 63"
  shows "highest_equivalent (lowest_equivalent v) = lowest_equivalent v + (unit_of v - 1)"
proof -
  have v: "v < 2 ^ 64" using assms by simp
  note l = lowest_equivalent_bounds [OF v]
  have m: "lowest_equivalent v div unit_of v * unit_of v = lowest_equivalent v" by (simp add: lowest_equivalent_def)
  have "unit_of v \<le> 1 + v div 1024" using l(3) by linarith
  then have "lowest_equivalent v + unit_of v \<le> u64_max" using l(1) assms by simp
  moreover have "1 \<le> lowest_equivalent v + unit_of v" by (simp add: Suc_leI)
  ultimately show ?thesis unfolding highest_equivalent_def Let_def l(4) m by (simp add: Suc_leI)
qed

text \<open>Reading a slot back: never below the value, and at most a 1024th part above it.\<close>

lemma read_back:
  assumes "v < 2 ^ 63"
  shows "v \<le> highest_equivalent (value_from_index (counts_index v))" "highest_equivalent (value_from_index (counts_index v)) \<le> v + v div 1024"
    "v < 2048 \<Longrightarrow> highest_equivalent (value_from_index (counts_index v)) = v"
proof -
  have v: "v < 2 ^ 64" using assms by simp
  note l = lowest_equivalent_bounds [OF v]
  have e: "highest_equivalent (value_from_index (counts_index v)) = lowest_equivalent v + (unit_of v - 1)"
    unfolding value_from_index_of [OF v] by (rule highest_equivalent_of [OF assms])
  show "v \<le> highest_equivalent (value_from_index (counts_index v))" "highest_equivalent (value_from_index (counts_index v)) \<le> v + v div 1024"
    unfolding e using l by linarith+
  show "v < 2048 \<Longrightarrow> highest_equivalent (value_from_index (counts_index v)) = v"
    unfolding e by (simp add: bucket_of_small lowest_equivalent_def)
qed

section \<open>What a histogram holds\<close>

fun Histogram_records :: "nat list \<Rightarrow> histogram \<Rightarrow> histogram option" where
  "Histogram_records [] h = Some h"
| "Histogram_records (v # vs) h = (case Histogram_record v h of None \<Rightarrow> None | Some h' \<Rightarrow> Histogram_records vs h')"

definition slot_count :: "nat list \<Rightarrow> nat \<Rightarrow> nat" where
  "slot_count vs i = length (filter (\<lambda>v. counts_index v = i) vs)"

definition tracked :: "nat \<Rightarrow> nat list \<Rightarrow> nat list" where
  "tracked highest vs = filter (\<lambda>v. v \<le> highest) vs"

definition slots_for :: "nat \<Rightarrow> nat" where
  "slots_for highest = (grow_buckets highest SUB_BUCKET_BITS 1 + 1) * SUB_BUCKET_HALF"

definition histogram_of :: "nat \<Rightarrow> nat list \<Rightarrow> histogram" where
  "histogram_of highest vs =
     \<lparr>hg_counts = map (slot_count (tracked highest vs)) [0..<slots_for highest], hg_highest = highest, hg_total = length vs,
      hg_overflow = length vs - length (tracked highest vs), hg_min = foldr min (tracked highest vs) u64_max, hg_max = foldr max vs 0,
      hg_sum = sum_list vs mod 2 ^ 128\<rparr>"

lemma grow_buckets_tracks: "k + 1 = m + b \<Longrightarrow> highest < 2 ^ 63 \<Longrightarrow> highest < 2 ^ (grow_buckets highest k b + m - 1) \<and> b \<le> grow_buckets highest k b"
proof (induction highest k b rule: grow_buckets.induct)
  case (1 highest k b)
  have g: "grow_buckets highest k b = (if 2 ^ k \<le> highest then grow_buckets highest (Suc k) (b + 1) else b)"
    using 1(3) by (simp add: grow_buckets.simps [of highest k b])
  show ?case
  proof (cases "2 ^ k \<le> highest")
    case True
    then have "\<not> u64_max div 2 < 2 ^ k" using 1(3) by simp
    from 1(1) [OF True this] 1(2,3) show ?thesis using True by (simp add: g)
  next
    case False
    moreover have "b + m - 1 = k" using 1(2) by simp
    ultimately show ?thesis by (simp add: g)
  qed
qed

lemma tracked_slot:
  assumes "highest < 2 ^ 63" "v \<le> highest"
  shows "counts_index v < slots_for highest"
proof -
  let ?g = "grow_buckets highest 11 1"
  have g: "highest < 2 ^ (?g + 10)" "1 \<le> ?g" using grow_buckets_tracks [of 11 11 1 highest] assms(1) by (simp_all add: add.commute)
  have v: "v < 2 ^ 64" using assms by simp
  have "bucket_index v + 1 \<le> ?g"
  proof (rule bucket_cases [OF v])
    fix b
    assume b: "bucket_index v = Suc b" "2 ^ (b + 11) \<le> v"
    then have "(2::nat) ^ (b + 11) < 2 ^ (?g + 10)" using g(1) assms(2) by linarith
    then have "b + 11 < ?g + 10" by (rule power_less_imp_less_exp [rotated]) simp
    then show ?thesis using b(1) by simp
  qed (use g in simp)
  then show ?thesis using counts_index_bounds(1) [OF v] by (simp add: slots_for_def)
qed

lemma histogram_of_new: "Histogram_new asked = histogram_of (max asked 2048) []"
proof -
  have "slot_count [] = (\<lambda>_. 0)" by (simp add: slot_count_def fun_eq_iff)
  then show ?thesis by (simp add: Histogram_new_def histogram_of_def Let_def slots_for_def tracked_def map_replicate_const)
qed

lemma slot_count_le: "slot_count vs i \<le> length vs"
  by (simp add: slot_count_def)

lemma record_of:
  assumes "highest < 2 ^ 63" "length vs < u64_max"
  shows "Histogram_record v (histogram_of highest vs) = Some (histogram_of highest (v # vs))"
proof (cases "v \<le> highest")
  case True
  let ?i = "counts_index v" and ?n = "slots_for highest" and ?t = "tracked highest vs"
  have i: "?i < ?n" by (rule tracked_slot [OF assms(1) True])
  have "slot_count ?t ?i \<le> length vs" using slot_count_le [of ?t] by (simp add: tracked_def) (meson le_trans length_filter_le)
  then have w: "wrap_add_u64 (slot_count ?t ?i) 1 = slot_count ?t ?i + 1" using assms(2) by simp
  have c: "(map (slot_count ?t) [0..<?n])[?i := slot_count ?t ?i + 1] = map (slot_count (tracked highest (v # vs))) [0..<?n]"
    using i True by (intro nth_equalityI) (auto simp: nth_list_update slot_count_def tracked_def)
  have "length vs - length ?t = length (v # vs) - length (tracked highest (v # vs))" using True by (simp add: tracked_def)
  then show ?thesis using True i w c assms(2)
    by (simp add: Histogram_record_def histogram_of_def Let_def tracked_def min.commute max.commute add.commute mod_simps)
next
  case False
  have "length (tracked highest vs) \<le> length vs" by (simp add: tracked_def)
  then show ?thesis using False assms(2)
    by (simp add: Histogram_record_def histogram_of_def tracked_def max.commute add.commute mod_simps Suc_diff_le)
qed

lemma records_of:
  assumes "highest < 2 ^ 63" "length vs + length ws \<le> u64_max"
  shows "Histogram_records vs (histogram_of highest ws) = Some (histogram_of highest (rev vs @ ws))"
  using assms(2) by (induction vs arbitrary: ws) (simp_all add: record_of [OF assms(1)])

lemma foldr_min_append: "foldr min (xs @ ys) m = min (foldr min xs m) (foldr min ys m)" for m :: nat
  by (induction xs) (auto simp: min.assoc, induction ys, auto)

lemma foldr_max_append: "foldr max (xs @ ys) m = max (foldr max xs m) (foldr max ys m)" for m :: nat
  by (induction xs) (auto simp: max.assoc, induction ys, auto)

lemma foldr_min_le: "foldr min xs m \<le> m" for m :: nat
  by (induction xs) (auto simp: min.coboundedI2)

lemma merge_of:
  assumes "length vs + length ws \<le> u64_max"
  shows "Histogram_merge (histogram_of highest vs) (histogram_of highest ws) = Some (histogram_of highest (vs @ ws))"
proof -
  let ?t = "tracked highest"
  have t: "?t (vs @ ws) = ?t vs @ ?t ws" "length (?t vs) \<le> length vs" "length (?t ws) \<le> length ws" by (simp_all add: tracked_def)
  have "slot_count (?t vs) i + slot_count (?t ws) i \<le> u64_max" for i
    using slot_count_le [of "?t vs" i] slot_count_le [of "?t ws" i] t(2,3) assms by linarith
  then have c: "map2 wrap_add_u64 (map (slot_count (?t vs)) [0..<n]) (map (slot_count (?t ws)) [0..<n]) = map (slot_count (?t (vs @ ws))) [0..<n]" for n
    by (intro nth_equalityI) (simp_all add: t(1), simp add: slot_count_def)
  have m: "foldr min (?t (vs @ ws)) u64_max = (if ws \<noteq> [] then min (foldr min (?t vs) u64_max) (foldr min (?t ws) u64_max) else foldr min (?t vs) u64_max)"
    unfolding t(1) foldr_min_append using foldr_min_le [of "?t vs" u64_max] by (simp add: tracked_def)
  have x: "foldr max (vs @ ws) 0 = (if ws \<noteq> [] then max (foldr max vs 0) (foldr max ws 0) else foldr max vs 0)"
    unfolding foldr_max_append by simp
  have o: "length vs - length (?t vs) + (length ws - length (?t ws)) = length (vs @ ws) - length (?t (vs @ ws))" using t by simp
  have "length vs - length (?t vs) + (length ws - length (?t ws)) \<le> u64_max" using assms by simp
  then show ?thesis using assms c unfolding Histogram_merge_def histogram_of_def m x o [symmetric] by (simp add: mod_simps)
qed

section \<open>Quantiles\<close>

lemma scan_finds:
  "k < length cs \<Longrightarrow> seen + sum_list cs \<le> u64_max \<Longrightarrow> seen + sum_list (take k cs) < rank \<Longrightarrow> rank \<le> seen + sum_list (take (Suc k) cs) \<Longrightarrow>
     quantile_scan rank seen i cs = Some (i + k)"
proof (induction cs arbitrary: seen i k)
  case (Cons c cs)
  show ?case
  proof (cases k)
    case 0
    then show ?thesis using Cons.prems by (simp add: Let_def)
  next
    case (Suc n)
    have "quantile_scan rank (seen + c) (Suc i) cs = Some (Suc i + n)" using Cons.prems unfolding Suc by (intro Cons.IH) simp_all
    moreover have "seen + c < rank" "wrap_add_u64 seen c = seen + c" using Cons.prems(2,3) Suc by simp_all
    ultimately show ?thesis using Suc by (auto simp: Let_def)
  qed
qed simp

lemma scan_misses: "seen + sum_list cs \<le> u64_max \<Longrightarrow> seen + sum_list cs < rank \<Longrightarrow> quantile_scan rank seen i cs = None"
  by (induction cs arbitrary: seen i) (simp_all add: Let_def)

lemma sum_slot_counts: "sum_list (map (slot_count vs) [0..<k]) = length (filter (\<lambda>v. counts_index v < k) vs)"
proof (induction k)
  case (Suc k)
  have "length (filter (\<lambda>v. counts_index v < Suc k) vs) = length (filter (\<lambda>v. counts_index v < k) vs) + slot_count vs k"
    by (induction vs) (auto simp: slot_count_def)
  then show ?case using Suc by simp
qed simp

lemma length_filter_mono: "(\<And>x. x \<in> set xs \<Longrightarrow> P x \<Longrightarrow> Q x) \<Longrightarrow> length (filter P xs) \<le> length (filter Q xs)"
  by (induction xs) (auto simp: le_SucI)

lemma length_filter_sort: "length (filter P (sort xs)) = length (filter P xs)" for xs :: "nat list"
  by (metis mset_filter mset_sort size_mset)

lemma ranked_sample:
  fixes vs :: "nat list"
  assumes "1 \<le> r" "r \<le> length vs"
  defines "e \<equiv> sort vs ! (r - 1)"
  shows "r \<le> length (filter (\<lambda>v. v \<le> e) vs)" "length (filter (\<lambda>v. v < e) vs) < r" "e \<in> set vs"
proof -
  let ?xs = "sort vs"
  have i: "r - 1 < length ?xs" using assms by simp
  then show "e \<in> set vs" unfolding e_def by (metis nth_mem set_sort)
  have "x \<le> e" if x: "x \<in> set (take r ?xs)" for x
  proof -
    obtain k where "k < r" "x = ?xs ! k" using x by (auto simp: in_set_conv_nth)
    then show ?thesis unfolding e_def using i by (auto intro!: sorted_nth_mono)
  qed
  then have "filter (\<lambda>v. v \<le> e) (take r ?xs) = take r ?xs" by simp
  moreover have part: "length (filter P ?xs) = length (filter P (take k ?xs)) + length (filter P (drop k ?xs))" for P k
    by (metis append_take_drop_id filter_append length_append)
  ultimately have "r \<le> length (filter (\<lambda>v. v \<le> e) ?xs)" using assms(2) part [of "\<lambda>v. v \<le> e" r] by simp
  then show "r \<le> length (filter (\<lambda>v. v \<le> e) vs)" by (simp add: length_filter_sort)
  have "\<not> x < e" if x: "x \<in> set (drop (r - 1) ?xs)" for x
  proof -
    obtain k where "x = ?xs ! (r - 1 + k)" "r - 1 + k < length ?xs" using x i by (auto simp: in_set_conv_nth)
    then show ?thesis unfolding e_def not_less by (auto intro!: sorted_nth_mono)
  qed
  then have "length (filter (\<lambda>v. v < e) (drop (r - 1) ?xs)) = 0" by simp
  then have "length (filter (\<lambda>v. v < e) ?xs) \<le> length (take (r - 1) ?xs)"
    using part [of "\<lambda>v. v < e" "r - 1"] length_filter_le [of "\<lambda>v. v < e" "take (r - 1) ?xs"] by linarith
  then have "length (filter (\<lambda>v. v < e) ?xs) \<le> r - 1" by simp
  then show "length (filter (\<lambda>v. v < e) vs) < r" using assms(1) by (simp add: length_filter_sort)
qed

lemma foldr_max_Max: "vs \<noteq> [] \<Longrightarrow> foldr max vs 0 = Max (set vs)" for vs :: "nat list"
proof (induction vs)
  case (Cons v vs)
  then show ?case by (cases "vs = []") simp_all
qed simp

lemma quantile_of:
  assumes "highest < 2 ^ 63" "length vs \<le> u64_max" "\<forall>v\<in>set vs. v \<le> u64_max" "1 \<le> r" "r \<le> length vs"
  defines "e \<equiv> sort vs ! (r - 1)"
  shows "quantile_of_rank r (histogram_of highest vs) = (if e \<le> highest then highest_equivalent (value_from_index (counts_index e)) else foldr max vs 0)"
proof -
  let ?t = "tracked highest vs" and ?n = "slots_for highest"
  let ?cs = "map (slot_count ?t) [0..<?n]"
  note R = ranked_sample [OF assms(4,5), folded e_def]
  have "e \<le> u64_max" using R(3) assms(3) by blast
  then have e: "e < 2 ^ 64" by simp
  have t: "set ?t \<subseteq> set vs" "length (filter P ?t) \<le> length vs" for P by (auto simp: tracked_def)
  have below: "sum_list (map (slot_count ?t) [0..<k]) \<le> length vs" for k by (simp add: sum_slot_counts t(2))
  show ?thesis
  proof (cases "e \<le> highest")
    case True
    have k: "counts_index e < ?n" by (rule tracked_slot [OF assms(1) True])
    have "sum_list (take (counts_index e) ?cs) = length (filter (\<lambda>v. counts_index v < counts_index e) ?t)"
      using k by (simp add: take_map sum_slot_counts)
    also have "\<dots> \<le> length (filter (\<lambda>v. v < e) vs)" unfolding tracked_def filter_filter
    proof (rule length_filter_mono, elim conjE)
      fix v
      assume "v \<in> set vs" "counts_index v < counts_index e"
      then have "v \<le> u64_max" "\<not> counts_index e \<le> counts_index v" using assms(3) by auto
      then have "v < 2 ^ 64" "\<not> counts_index e \<le> counts_index v" by simp_all
      then show "v < e" using counts_index_mono [of e v] by (simp only: not_less [symmetric]) blast
    qed
    finally have lo: "sum_list (take (counts_index e) ?cs) < r" using R(2) by simp
    have "length (filter (\<lambda>v. v \<le> e) vs) \<le> length (filter (\<lambda>v. counts_index v < Suc (counts_index e)) ?t)" unfolding tracked_def filter_filter
      using counts_index_mono [OF _ e] True by (intro length_filter_mono) (simp add: less_Suc_eq_le)
    also have "\<dots> = sum_list (take (Suc (counts_index e)) ?cs)" using k by (simp add: take_map sum_slot_counts del: upt_Suc)
    finally have hi: "r \<le> sum_list (take (Suc (counts_index e)) ?cs)" using R(1) by simp
    have "quantile_scan r 0 0 ?cs = Some (0 + counts_index e)" using k lo hi below [of ?n] assms(2) by (intro scan_finds) simp_all
    then show ?thesis using True by (simp add: quantile_of_rank_def histogram_of_def)
  next
    case False
    have "sum_list ?cs \<le> length ?t" by (simp add: sum_slot_counts)
    also have "\<dots> \<le> length (filter (\<lambda>v. v < e) vs)" unfolding tracked_def using False by (intro length_filter_mono) simp
    finally have "sum_list ?cs < r" using R(2) by simp
    then have "quantile_scan r 0 0 ?cs = None" using below [of ?n] assms(2) by (intro scan_misses) simp_all
    then show ?thesis using False by (simp add: quantile_of_rank_def histogram_of_def)
  qed
qed

section \<open>Properties\<close>

text \<open>C37: a quantile read from the histogram is conservative and close. Let samples be recorded in two histograms of the same range, below \<open>2 ^ 63\<close>,
  and the second merged into the first. Nothing panics, the count is exact, and for every rank the value read back is never
  below the exact sample of that rank, exceeds it by at most its 1024th part, and equals it below 2048; a rank that falls among the samples
  beyond the range reads as the largest sample. The quantile \<open>q\<close> reads the rank \<open>\<lceil>q n\<rceil>\<close>, at least 1.\<close>

theorem histogram_quantiles_are_close:
  assumes "asked < 2 ^ 63" "length (vs @ ws) \<le> u64_max" "\<forall>v\<in>set (vs @ ws). v \<le> u64_max" "1 \<le> r" "r \<le> length (vs @ ws)"
  defines "e \<equiv> sort (vs @ ws) ! (r - 1)"
  shows "\<exists>h g m. Histogram_records vs (Histogram_new asked) = Some h \<and> Histogram_records ws (Histogram_new asked) = Some g \<and>
     Histogram_merge h g = Some m \<and> hg_total m = length (vs @ ws) \<and>
     (if e \<le> max asked 2048 then e \<le> quantile_of_rank r m \<and> quantile_of_rank r m \<le> e + e div 1024 \<and> (e < 2048 \<longrightarrow> quantile_of_rank r m = e)
      else quantile_of_rank r m = Max (set (vs @ ws))) \<and>
     (\<forall>q. 0 \<le> q \<and> q \<le> 1 \<longrightarrow> Histogram_quantile q m = quantile_of_rank (max (nat \<lceil>q * of_nat (length (vs @ ws))\<rceil>) 1) m)"
proof -
  define H where "H = max asked 2048"
  have H: "H < 2 ^ 63" using assms(1) by (simp add: H_def)
  let ?m = "histogram_of H (rev vs @ rev ws)"
  have s: "sort (rev vs @ rev ws) = sort (vs @ ws)" by (rule properties_for_sort) (simp_all add: union_commute)
  have m: "Histogram_records vs (Histogram_new asked) = Some (histogram_of H (rev vs))" "Histogram_records ws (Histogram_new asked) = Some (histogram_of H (rev ws))"
      "Histogram_merge (histogram_of H (rev vs)) (histogram_of H (rev ws)) = Some ?m"
    using assms(2) records_of [OF H, of vs "[]"] records_of [OF H, of ws "[]"] merge_of [of "rev vs" "rev ws"]
    by (simp_all add: histogram_of_new H_def)
  have q: "quantile_of_rank r ?m = (if e \<le> H then highest_equivalent (value_from_index (counts_index e)) else foldr max (rev vs @ rev ws) 0)"
    using quantile_of [OF H, of "rev vs @ rev ws" r] assms(2-5) by (simp add: s e_def)
  have "e \<in> set (vs @ ws)" unfolding e_def by (rule ranked_sample(3) [OF assms(4,5)])
  then have "rev vs @ rev ws \<noteq> []" by auto
  from foldr_max_Max [OF this] have "foldr max (rev vs @ rev ws) 0 = Max (set (vs @ ws))" by (simp only: set_append set_rev)
  moreover have "e \<le> H \<Longrightarrow> e < 2 ^ 63" using H by simp
  ultimately have "if e \<le> H then e \<le> quantile_of_rank r ?m \<and> quantile_of_rank r ?m \<le> e + e div 1024 \<and> (e < 2048 \<longrightarrow> quantile_of_rank r ?m = e)
      else quantile_of_rank r ?m = Max (set (vs @ ws))" using q read_back [of e] by auto
  moreover have "\<forall>q. 0 \<le> q \<and> q \<le> 1 \<longrightarrow> Histogram_quantile q ?m = quantile_of_rank (max (nat \<lceil>q * of_nat (length (vs @ ws))\<rceil>) 1) ?m"
    using assms(4,5) by (auto simp: Histogram_quantile_def histogram_of_def Let_def)
  moreover have "hg_total ?m = length (vs @ ws)" by (simp add: histogram_of_def)
  ultimately show ?thesis using m unfolding H_def [symmetric] by blast
qed

text \<open>Three samples in one histogram and two in the other, one of them beyond the range; the median is the 5000.\<close>

theorem histogram_quantiles_are_close_witness:
  "\<exists>h g m. Histogram_records [7, 5000, 300] (Histogram_new 10000) = Some h \<and> Histogram_records [9000, 20000] (Histogram_new 10000) = Some g \<and>
     Histogram_merge h g = Some m \<and> hg_total m = 5 \<and> 5000 \<le> quantile_of_rank 3 m \<and> quantile_of_rank 3 m \<le> 5004"
proof -
  have s: "sort ([7, 5000, 300] @ [9000, 20000]) ! (3 - 1) = (5000 :: nat)" "\<forall>v\<in>set ([7, 5000, 300] @ [9000, 20000]). v \<le> u64_max"
    "length ([7, 5000, 300] @ [9000, 20000 :: nat]) = 5" "max 10000 2048 = (10000 :: nat)" by simp_all
  have "10000 < (2 :: nat) ^ 63" "5 \<le> u64_max" "1 \<le> (3 :: nat)" "3 \<le> (5 :: nat)" by simp_all
  from histogram_quantiles_are_close [of 10000 "[7, 5000, 300]" "[9000, 20000]" 3, unfolded s(1,3,4), OF this(1,2) s(2) this(3,4)] show ?thesis
    by (elim exE conjE) (intro exI conjI, assumption+, simp_all)
qed

end
