(* ===== verification/Spec2Isabelle.thy ===== *)
theory Spec2Isabelle
  imports OrderCodec SnapshotCycle FastBooks OrderServe ReplayCycle Checkpoints Histogram
begin

text \<open>
  A verification library for a low-latency market data stack, the Rust crates under \<open>src/crates\<close>. The theories model the code as
  executable definitions, with the names of the source where Isabelle allows them, and prove what makes each part and their
  composition correct.

  \<^bold>\<open>The program.\<close> A matching engine keeps one order book per symbol, matches incoming orders and announces every change as a numbered
  message. A publisher packs the messages into datagrams and sends each on two redundant arms, A and B; it can drop datagrams on
  purpose, publishes snapshots of all books from time to time, and offers every datagram to a replay service. A feed handler receives both
  arms, arbitrates between them, applies each message once to its own books, and when a range is lost on both arms recovers it from the
  replay service or from a snapshot. Both ends write digests of their books at the same sequences, which have to agree. Client orders reach the engine
  through two shared-memory rings (the order path). The engine normally trades with itself: a seeded generator submits, cancels and amends.

  \<^bold>\<open>Conventions.\<close> \<open>Prelude\<close> holds what all theories share. The result of fallible code is an \<open>outcome\<close>: \<open>Ok\<close>, \<open>Err\<close> with the
  source's error, or \<open>Panic\<close> for an index out of bounds, an unwrap or an assertion (the release profile aborts on those). Code that mutates
  is a \<open>mut_method\<close>: state in, state and outcome out, composed by \<open>sbind\<close>, which is the source's question mark. Machine integers are
  naturals or integers bounded by \<open>u8_max\<close> to \<open>u64_max\<close> and \<open>in_i64\<close>; where the release build wraps or the source saturates, the operations
  \<open>wrap_add_u64\<close>, \<open>wrap_i64\<close>, \<open>sat_add_u64\<close> and so on say so. The random number generator and FNV-1a are on 64-bit words. Bytes are 8-bit words.
  Sockets, clocks, files and peers are inputs: a function or list of what they answer.

  \<^bold>\<open>The theories and the code.\<close>
  \<^item> \<open>Bytes\<close>, \<open>Wire\<close>, \<open>Packet\<close>, \<open>SnapshotCodec\<close>, \<open>OrderCodec\<close>: the codec, \<open>wire/src/generated.rs\<close> and \<open>error.rs\<close>. Little-endian reads and writes,
    every message's decoder and encoder, packet header, \<open>PacketReader\<close> and \<open>PacketWriter\<close>, the snapshot group, the order-path messages.
  \<^item> \<open>OrdMap\<close>, \<open>BookSpec\<close>, \<open>RefBook\<close>, \<open>Apply\<close>: the ordered map, the abstract book (a list of resting orders in arrival order), the reference book of
    \<open>book/src/reference.rs\<close>, and applying messages and snapshots to a set of books (\<open>apply.rs\<close>, \<open>view.rs\<close>).
  \<^item> \<open>Tick\<close>, \<open>MboMap\<close>, \<open>Mbo\<close>, \<open>MboQueue\<close>, \<open>MboLevels\<close>, \<open>MboWindow\<close>, \<open>MboInv\<close>, \<open>MboRefine\<close>, \<open>MboViews\<close>, \<open>MboHistory\<close>, \<open>FastBooks\<close>: the fast book,
    \<open>book/src/tick.rs\<close>, \<open>mbo.rs\<close> and \<open>fast.rs\<close>. The tick window and its rebase, the open-addressed id map with backward-shift deletion, the slab of
    linked nodes, the level queues with cached best prices, and the sorted vector of books. \<open>Mbo\<close> has the operations; the theories after it
    the invariant (\<open>MboInv\<close>), the simulation of every operation by the abstract book, the views, and whole histories.
  \<^item> \<open>BookDigest\<close>: \<open>book/src/digest.rs\<close> and \<open>digestlog.rs\<close>. \<open>Checkpoints\<close>: the digest logs of engine and handler side by side.
  \<^item> \<open>Rng\<close>, \<open>Feed\<close>, \<open>SnapshotFeed\<close>: \<open>matching-engine/src/rng.rs\<close> and \<open>feed.rs\<close>. Batching, sequencing, loss injection, self-check, uplink, snapshot cycles.
  \<^item> \<open>Engine\<close>, \<open>Matching\<close>: \<open>matching-engine/src/engine.rs\<close>.
  \<^item> \<open>Config\<close>, \<open>Generator\<close>, \<open>EngineRun\<close>: \<open>mdconfig/src/lib.rs\<close>, \<open>matching-engine/src/generator.rs\<close> and the run loop of its \<open>main.rs\<close>.
  \<^item> \<open>Ring\<close>, \<open>RingQueue\<close>: \<open>ring/src/lib.rs\<close>, the shared-memory ring as bytes; calls as functions and every memory access as a step.
  \<^item> \<open>OrderPath\<close>, \<open>OrderDesk\<close>, \<open>OrderServe\<close>: \<open>matching-engine/src/orderpath.rs\<close>, an abstract desk, and the refinement between them.
  \<^item> \<open>Arbitration\<close>, \<open>Reorder\<close>, \<open>ArmStream\<close>: \<open>feed-handler/src/arbitration.rs\<close>, the reorder window and what it does to the two arms of a feed.
  \<^item> \<open>Recovery\<close>: \<open>feed-handler/src/recovery.rs\<close>.
  \<^item> \<open>Handler\<close>, \<open>HandlerRun\<close>, \<open>HandlerRecovery\<close>, \<open>SnapshotCycle\<close>: the receive loop of \<open>feed-handler/src/main.rs\<close>, its statistics (\<open>stats.rs\<close>) and digest log,
    clean runs, replays, snapshot recovery, and a snapshot cycle from engine to handler.
  \<^item> \<open>ReplayStore\<close>, \<open>ReplayService\<close>, \<open>ReplayCycle\<close>: the replay service (\<open>store.rs\<close>, \<open>protocol.rs\<close>, \<open>main.rs\<close>, \<open>client.rs\<close>), and a replay from engine to handler.
  \<^item> \<open>Histogram\<close>: \<open>bench-support/src/histogram.rs\<close>.

  \<^bold>\<open>What is shown.\<close>
  \<^item> Codec: encoding and decoding are inverse for feed, snapshot and order-path messages; walking any datagram neither panics nor loses count.
  \<^item> Books: the reference book refines the abstract book; the fast book refuses only what its window, slab or grid cannot hold and otherwise agrees with the
    reference book in results, views and digest; the id map terminates and is a map; a rebase keeps every level.
  \<^item> Engine: price-time priority, conservation of quantity, uncrossed books (and that an amend can cross them), the effect of cancel and amend. The published
    messages rebuild the engine's books, over one arm without loss and over two lossy arms, and the digest logs of engine and handler agree line by line. The process
    as a whole runs any valid configuration to completion with its self-check satisfied.
  \<^item> Ring and order path: under every interleaving of the two ends a ring is a first-in first-out queue that loses and duplicates nothing; one pass of the order path
    refines a desk that serves each request in turn.
  \<^item> Handler: arbitration delivers in order and at most once while the stall timer does not fire, is bounded and total; a run over two arms is clean; recovery times out; a replay
    answer and a snapshot cycle bring the books back in step. Three theorems state where the code misbehaves: a snapshot recovery that
    strands the live stream, a late copy delivered twice, a live datagram discarded by the gap it forces.
  \<^item> Replay service: its history never has a hole, what it serves is what was published, and applying it closes a handler's gap.
  \<^item> Histogram: a quantile within the tracked range is never low and at most a 1024th part high; beyond the range it is the largest sample.

  \<^bold>\<open>Interfaces.\<close> \<open>ordered_map\<close> is the map the books are built on, interpreted as \<open>om\<close> on sorted association lists. \<open>order_book\<close> is the book trait with its
  laws over the abstract book, interpreted as \<open>ref\<close> and \<open>fast\<close>. \<open>book_set\<close>, \<open>unbounded_book_set\<close> and \<open>leveled_book_set\<close> are sets of books as apply, handler and
  digest need them, interpreted as \<open>refset\<close>, \<open>refdigest\<close> and \<open>fastset\<close>. \<open>event_feed\<close> is the feed as the engine sees it (\<open>fd\<close>), \<open>aligned_stream\<close> the
  batches as the reorder window sees them (\<open>arms\<close>), \<open>id_table\<close> the id map as the fast book sees it (\<open>tbl\<close>). Client lemmas are proved once in the locale.

  \<^bold>\<open>Bounds and termination.\<close> Recursions have termination proofs; the probes and shifts of the id map and the walk along a level queue, which the source does not
  bound, are \<open>partial_function\<close>s proved to return.
  No fuel is used. Sequences stay below \<open>2 ^ 64\<close>: the runs of the engine are stated for up to \<open>2 ^ 31\<close> calls (\<open>2 ^ 30\<close> turns of the process, each a call and at most a
  heartbeat), which can publish fewer than \<open>2 ^ 64\<close> messages. A datagram holds at least 72 bytes, the configuration's floor. The fast book is stated for
  prices within \<open>2 ^ 61\<close> of zero and capacities below the null index; beyond that its \<open>i64\<close> arithmetic wraps. A ring is stated for fewer than \<open>2 ^ 64\<close> messages over its
  life. One pass of the order path can emit up to \<open>262240 = 64 * 4097 + 32\<close> reports, the room its theorem asks for. A replay answer is at most 65536 datagrams, the
  client's cap. The histogram is stated for ranges below \<open>2 ^ 63\<close>.

  \<^bold>\<open>Not modelled.\<close> Sockets and multicast (\<open>transport\<close>), the allocation guard, the time-stamp counter and host checks of \<open>bench-support\<close>: they wrap the operating
  system or the hardware. Reading and parsing configuration files and command lines, opening and flushing log files, printing, threads and sleeping. Of the engine's \<open>main\<close>: the
  order path inside the loop (modelled by itself), the transport mode, the dry run, binding and the throttle. Probabilities are rationals, the source's are doubles; the publisher's
  statistics counters are unbounded. Memory ordering weaker than
  sequential consistency on the ring. The handler's latency probes and simulated input loss; snapshots inside a run of the engine process
  (modelled, but its theorem is stated for runs with the cycle disabled). The C++ gateway and risk service, the schema generator, benches, tests and scripts.
\<close>

end
